(* ===== verification/Prelude.thy ===== *)
theory Prelude
  imports Main "HOL-Library.Word" "HOL-Library.AList" "HOL-Library.List_Lexorder"
    "HOL-Library.Product_Lexorder"
begin

unbundle bit_operations_syntax

text \<open>
  Shared vocabulary of the development: the machine integers of the C++ code as words, byte
  strings, the 32-byte type \<open>Hash256\<close> of \<open>src/src/util/types.h\<close> (an array of 32 bytes,
  compared lexicographically, byte 0 most significant), results with an error string (a C++
  exception or a rejection reason), association lists for the hash maps, and the generic lemmas
  that the component theories use.
\<close>

named_theorems codec_simps \<open>round-trip rules of the byte codecs, oriented for simp\<close>
named_theorems codec_iff \<open>what a successful read says about the input\<close>
named_theorems u256_val \<open>the number a 256-bit operation computes\<close>
named_theorems view_simps \<open>look-ups through a ledger overlay\<close>

section \<open>Machine integers and bytes\<close>

type_synonym u8 = "8 word"
type_synonym u16 = "16 word"
type_synonym u32 = "32 word"
type_synonym u64 = "64 word"
type_synonym u128 = "128 word"
type_synonym bytes = "u8 list"
type_synonym amount = u64

text \<open>The bytes of a C++ \<open>std::string\<close>: characters are bytes.\<close>

definition string_bytes :: "string \<Rightarrow> bytes" where
  "string_bytes s = map (\<lambda>c. of_nat (of_char c)) s"

definition bytes_string :: "bytes \<Rightarrow> string" where
  "bytes_string b = map (\<lambda>x. char_of (unat x)) b"

lemma of_char_nat_bound: "(of_char (c::char) :: nat) < 256"
  using nat_of_char_less_256 by simp

lemma bytes_string_bytes [simp]: "bytes_string (string_bytes s) = s"
proof -
  have "char_of (unat (of_nat (of_char c) :: u8)) = c" for c :: char
    using of_char_nat_bound [of c] by (simp add: unat_of_nat)
  then show ?thesis
    by (simp add: bytes_string_def string_bytes_def comp_def)
qed

lemma string_bytes_string [simp]: "string_bytes (bytes_string b) = b"
proof -
  have "(of_nat (of_char (char_of (unat x) :: char)) :: u8) = x" for x :: u8
  proof -
    have "unat x < 256" using unsigned_less [of x] by simp
    then show ?thesis by (simp add: of_char_of)
  qed
  then show ?thesis
    by (simp add: bytes_string_def string_bytes_def comp_def)
qed

lemma length_string_bytes [simp]: "length (string_bytes s) = length s"
  by (simp add: string_bytes_def)

lemma length_bytes_string [simp]: "length (bytes_string b) = length b"
  by (simp add: bytes_string_def)

section \<open>Hash256\<close>

typedef hash256 = "{b :: u8 list. length b = 32}" morphisms hash_bytes Hash256
  by (rule exI [of _ "replicate 32 0"]) simp

lemma hash256_abstype [code abstype]: "Hash256 (hash_bytes h) = h"
  by (rule hash_bytes_inverse)

lemma length_hash_bytes [simp]: "length (hash_bytes h) = 32"
  using hash_bytes [of h] by simp

lemma hash_bytes_eq_iff: "hash_bytes a = hash_bytes b \<longleftrightarrow> a = b"
  by (rule hash_bytes_inject)

text \<open>
  A hash whose first bytes are given, zero filled: \<open>Hash256{}\<close> followed by a \<open>memcpy\<close>
  of at most 32 bytes. On 32 bytes it is the inverse of \<open>hash_bytes\<close>.
\<close>

definition hash_of :: "bytes \<Rightarrow> hash256" where
  "hash_of bs = Hash256 (take 32 (bs @ replicate 32 0))"

lemma hash_bytes_hash_of [code abstract]: "hash_bytes (hash_of bs) = take 32 (bs @ replicate 32 0)"
  by (simp add: hash_of_def Hash256_inverse)

lemma hash_bytes_hash_of_32 [simp]: "length bs = 32 \<Longrightarrow> hash_bytes (hash_of bs) = bs"
  by (simp add: hash_bytes_hash_of)

lemma hash_of_hash_bytes [simp]: "hash_of (hash_bytes h) = h"
  by (simp add: hash_bytes_eq_iff [symmetric] hash_bytes_hash_of)

definition hash_zero :: hash256 where
  "hash_zero = hash_of []"

text \<open>\<open>Hash256::is_zero\<close>: no byte is set.\<close>

definition hash_is_zero :: "hash256 \<Rightarrow> bool" where
  "hash_is_zero h \<longleftrightarrow> list_all (\<lambda>x. x = 0) (hash_bytes h)"

lemma hash_is_zero_iff [simp]: "hash_is_zero h \<longleftrightarrow> h = hash_zero"
proof
  assume "hash_is_zero h"
  then have "hash_bytes h = replicate 32 0"
    by (auto simp: hash_is_zero_def list_all_iff intro!: replicate_eqI)
  then show "h = hash_zero"
    by (simp add: hash_bytes_eq_iff [symmetric] hash_zero_def hash_bytes_hash_of)
next
  assume "h = hash_zero"
  then show "hash_is_zero h"
    by (simp add: hash_is_zero_def hash_zero_def hash_bytes_hash_of list_all_iff)
qed

instantiation hash256 :: equal
begin

definition equal_hash256 :: "hash256 \<Rightarrow> hash256 \<Rightarrow> bool" where
  "equal_hash256 a b \<longleftrightarrow> hash_bytes a = hash_bytes b"

instance
  by standard (simp add: equal_hash256_def hash_bytes_inject)

end

text \<open>\<open>operator<=>\<close> on the array: lexicographic, so the order of the big-endian numbers.\<close>

instantiation hash256 :: linorder
begin

definition less_eq_hash256 :: "hash256 \<Rightarrow> hash256 \<Rightarrow> bool" where
  "less_eq_hash256 a b \<longleftrightarrow> hash_bytes a \<le> hash_bytes b"

definition less_hash256 :: "hash256 \<Rightarrow> hash256 \<Rightarrow> bool" where
  "less_hash256 a b \<longleftrightarrow> hash_bytes a < hash_bytes b"

instance
  by standard
    (auto simp: less_eq_hash256_def less_hash256_def order.strict_iff_order hash_bytes_inject)

end

section \<open>Results with an error string\<close>

type_synonym 'a result = "string + 'a"

fun rbind :: "'a result \<Rightarrow> ('a \<Rightarrow> 'b result) \<Rightarrow> 'b result" where
  "rbind (Inl e) f = Inl e"
| "rbind (Inr x) f = f x"

lemma rbind_eq_Inr: "rbind m f = Inr y \<longleftrightarrow> (\<exists>x. m = Inr x \<and> f x = Inr y)"
  by (cases m) auto

lemma rbind_cong [fundef_cong]:
  "m = m' \<Longrightarrow> (\<And>x. m' = Inr x \<Longrightarrow> f x = g x) \<Longrightarrow> rbind m f = rbind m' g"
  by (cases m') auto

text \<open>A guard that rejects: \<open>if (c) return fail(e)\<close>.\<close>

definition fail_if :: "bool \<Rightarrow> string \<Rightarrow> unit result" where
  "fail_if c e = (if c then Inl e else Inr ())"

lemma fail_if_eq_Inr [simp]: "fail_if c e = Inr u \<longleftrightarrow> \<not> c"
  by (simp add: fail_if_def)

lemma fail_if_simps [simp]: "fail_if True e = Inl e" "fail_if False e = Inr ()"
  by (simp_all add: fail_if_def)

section \<open>Association lists\<close>

text \<open>
  \<open>std::unordered_map\<close> and \<open>std::map\<close> are association lists with distinct keys:
  \<open>m[k] = v\<close> is \<open>AList.update\<close>, \<open>erase\<close> is \<open>AList.delete\<close>, \<open>find\<close> is
  \<open>map_of\<close>, and a range-for visits the pairs.
\<close>

definition al_distinct :: "('k \<times> 'v) list \<Rightarrow> bool" where
  "al_distinct al \<longleftrightarrow> distinct (map fst al)"

lemma al_distinct_Nil [simp]: "al_distinct []"
  by (simp add: al_distinct_def)

lemma al_distinct_update [simp]: "al_distinct al \<Longrightarrow> al_distinct (AList.update k v al)"
  unfolding al_distinct_def by (rule distinct_update)

lemma al_distinct_delete [simp]: "al_distinct al \<Longrightarrow> al_distinct (AList.delete k al)"
  unfolding al_distinct_def by (rule distinct_delete)

text \<open>The total of a measure over an association list, and how the map operations change it.\<close>

definition al_sum :: "('k \<Rightarrow> 'v \<Rightarrow> 'n::comm_monoid_add) \<Rightarrow> ('k \<times> 'v) list \<Rightarrow> 'n" where
  "al_sum f al = (\<Sum>(k, v)\<leftarrow>al. f k v)"

lemma al_sum_Nil [simp]: "al_sum f [] = 0"
  by (simp add: al_sum_def)

lemma al_sum_Cons [simp]: "al_sum f ((k, v) # al) = f k v + al_sum f al"
  by (simp add: al_sum_def)

lemma al_sum_append [simp]: "al_sum f (xs @ ys) = al_sum f xs + al_sum f ys"
  by (simp add: al_sum_def)

lemma al_sum_update_fresh:
  "map_of al k = None \<Longrightarrow> al_sum f (AList.update k v al) = al_sum f al + f k v"
  by (induction al) (auto simp: ac_simps split: if_splits)

lemma al_sum_delete_absent [simp]:
  "map_of al k = None \<Longrightarrow> AList.delete k al = al"
  by (induction al) (auto split: if_splits)

lemma al_sum_delete:
  assumes "al_distinct al" and "map_of al k = Some v"
  shows "al_sum f al = f k v + al_sum f (AList.delete k al)"
  using assms
proof (induction al)
  case (Cons p al)
  obtain k' v' where p: "p = (k', v')" by force
  show ?case
  proof (cases "k' = k")
    case True
    then have "map_of al k = None"
      using Cons.prems(1) p by (auto simp: al_distinct_def map_of_eq_None_iff)
    then show ?thesis using Cons.prems(2) p True by simp
  next
    case False
    then have "al_sum f al = f k v + al_sum f (AList.delete k al)"
      using Cons p by (auto simp: al_distinct_def)
    then show ?thesis using p False by (simp add: ac_simps)
  qed
qed simp

lemma list_all_True [simp]: "list_all (\<lambda>_. True) xs"
  by (simp add: list_all_iff)

section \<open>Words\<close>

lemma unat_eq_iff_word: "unat (x :: 'a::len word) = unat y \<longleftrightarrow> x = y"
  by (simp add: word_unat_eq_iff)

lemma unat_lt_8: "unat (x :: u8) < 256"
  using unsigned_less [of x] by simp

lemma unat_lt_32: "unat (x :: u32) < 2 ^ 32"
  using unsigned_less [of x] by simp

lemma unat_lt_64: "unat (x :: u64) < 2 ^ 64"
  using unsigned_less [of x] by simp

lemma unat_lt_128: "unat (x :: u128) < 2 ^ 128"
  using unsigned_less [of x] by simp

lemma unat_of_nat_64: "unat (of_nat n :: u64) = n mod 2 ^ 64"
  by (simp add: unat_of_nat)

lemma unat_of_nat_128: "unat (of_nat n :: u128) = n mod 2 ^ 128"
  by (simp add: unat_of_nat)

text \<open>Widening a 64-bit value to 128 bits and truncating back.\<close>

lemma unat_ucast_64_128 [simp]: "unat (ucast (x :: u64) :: u128) = unat x"
  using unat_lt_64 [of x] by (simp add: unsigned_ucast_eq take_bit_eq_mod)

lemma unat_ucast_128_64: "unat (ucast (x :: u128) :: u64) = unat x mod 2 ^ 64"
  by (simp add: unsigned_ucast_eq take_bit_eq_mod)

lemma unat_ucast_8_64 [simp]: "unat (ucast (x :: u8) :: u64) = unat x"
  using unat_lt_8 [of x] by (simp add: unsigned_ucast_eq take_bit_eq_mod)

lemma unat_ucast_32_64 [simp]: "unat (ucast (x :: u32) :: u64) = unat x"
  using unat_lt_32 [of x] by (simp add: unsigned_ucast_eq take_bit_eq_mod)

lemma unat_drop_bit: "unat (drop_bit k (w :: 'a::len word)) = unat w div 2 ^ k"
  by (simp only: unsigned_drop_bit_eq) (simp add: take_bit_eq_mod drop_bit_eq_div)

lemma bit_unat: "bit (unat w) n \<longleftrightarrow> bit (w :: 'a::len word) n"
  by (simp add: bit_unsigned_iff)

lemma unat_push_bit_64: "unat (push_bit k (w :: u64)) = (unat w * 2 ^ k) mod 2 ^ 64"
  by (simp only: unsigned_push_bit_eq) (simp add: take_bit_eq_mod push_bit_eq_mult)

end
