(* ===== verification/Serialize.thy ===== *)
theory Serialize
  imports Prelude
begin

unbundle bit_operations_syntax

text \<open>
  The compact binary serialization of \<open>src/src/util/serialize.h\<close>. A \<open>Writer\<close> method is a
  function to the bytes it appends; a \<open>Reader\<close> method is a function from the bytes that are
  left to either the \<open>SerializeError\<close> text or the value with the bytes left after it. The
  locale \<open>reads_back\<close> is the contract of a \<open>write\<close> and its \<open>read\<close>: every value in range
  reads back. \<open>codec\<close> adds that a successful read has consumed exactly the encoding of its
  result, so no value has two encodings.
\<close>

section \<open>Writer\<close>

type_synonym 'a reader = "bytes \<Rightarrow> ('a \<times> bytes) result"

definition w_u8 :: "u8 \<Rightarrow> bytes" where
  "w_u8 v = [v]"

definition w_u32le :: "u32 \<Rightarrow> bytes" where
  "w_u32le v = map (\<lambda>i. ucast (drop_bit (8 * i) v)) [0..<4]"

definition w_u64le :: "u64 \<Rightarrow> bytes" where
  "w_u64le v = map (\<lambda>i. ucast (drop_bit (8 * i) v)) [0..<8]"

function w_varint :: "u64 \<Rightarrow> bytes" where
  "w_varint v = (if v \<ge> 0x80 then ucast (v OR 0x80) # w_varint (drop_bit 7 v) else [ucast v])"
  by pat_completeness auto
termination
proof (relation "measure unat")
  fix v :: u64
  assume "0x80 \<le> v"
  then have "128 \<le> unat v" by (simp add: word_le_nat_alt)
  then show "(drop_bit 7 v, v) \<in> measure unat"
    by (simp add: drop_bit_eq_div unat_div)
qed simp

declare w_varint.simps [simp del]

definition w_hash :: "hash256 \<Rightarrow> bytes" where
  "w_hash h = hash_bytes h"

definition w_bytes :: "bytes \<Rightarrow> bytes" where
  "w_bytes b = w_varint (of_nat (length b)) @ b"

definition w_str :: "string \<Rightarrow> bytes" where
  "w_str s = w_varint (of_nat (length s)) @ string_bytes s"

section \<open>Reader\<close>

definition r_need :: "nat \<Rightarrow> bytes \<Rightarrow> unit result" where
  "r_need k r = fail_if (k > length r) ''unexpected end of data''"

definition r_u8 :: "u8 reader" where
  "r_u8 r = rbind (r_need 1 r) (\<lambda>_. Inr (hd r, tl r))"

text \<open>\<open>v |= uint32_t(p[pos + i]) << (8 * i)\<close> for each byte.\<close>

definition r_u32le :: "u32 reader" where
  "r_u32le r = rbind (r_need 4 r) (\<lambda>_.
     Inr (fold (\<lambda>i v. v OR push_bit (8 * i) (ucast (r ! i))) [0..<4] 0, drop 4 r))"

definition r_u64le :: "u64 reader" where
  "r_u64le r = rbind (r_need 8 r) (\<lambda>_.
     Inr (fold (\<lambda>i v. v OR push_bit (8 * i) (ucast (r ! i))) [0..<8] 0, drop 8 r))"

function r_varint_loop :: "nat \<Rightarrow> u64 \<Rightarrow> u64 reader" where
  "r_varint_loop shift v r =
     (if shift < 64 then
        rbind (r_u8 r) (\<lambda>(c, r).
          if shift = 63 \<and> c > 1 then Inl ''varint overflow''
          else
            let v = v OR push_bit shift (ucast (c AND 0x7f)) in
            if c AND 0x80 = 0 then
              (if c = 0 \<and> shift > 0 then Inl ''non-canonical varint'' else Inr (v, r))
            else r_varint_loop (shift + 7) v r)
      else Inl ''varint too long'')"
  by pat_completeness auto
termination
  by (relation "measure (\<lambda>(shift, v, r). 64 - shift)") auto

declare r_varint_loop.simps [simp del]

definition r_varint :: "u64 reader" where
  "r_varint r = r_varint_loop 0 0 r"

definition r_varint_max :: "u64 \<Rightarrow> u64 reader" where
  "r_varint_max mx r =
     rbind (r_varint r) (\<lambda>(v, r). if v > mx then Inl ''value too large'' else Inr (v, r))"

definition r_raw :: "nat \<Rightarrow> bytes reader" where
  "r_raw k r = rbind (r_need k r) (\<lambda>_. Inr (take k r, drop k r))"

definition r_hash :: "hash256 reader" where
  "r_hash r = rbind (r_raw 32 r) (\<lambda>(b, r). Inr (hash_of b, r))"

definition r_bytes :: "u64 \<Rightarrow> bytes reader" where
  "r_bytes mx r = rbind (r_varint_max mx r) (\<lambda>(n, r). r_raw (unat n) r)"

definition r_str :: "u64 \<Rightarrow> string reader" where
  "r_str mx r = rbind (r_bytes mx r) (\<lambda>(b, r). Inr (bytes_string b, r))"

text \<open>\<open>for (size_t i = 0; i < n; i++) v.push_back(read(r));\<close>\<close>

primrec r_list :: "'a reader \<Rightarrow> nat \<Rightarrow> 'a list reader" where
  "r_list rd 0 r = Inr ([], r)"
| "r_list rd (Suc n) r =
     rbind (rd r) (\<lambda>(x, r). rbind (r_list rd n r) (\<lambda>(xs, r). Inr (x # xs, r)))"

section \<open>The codec contract\<close>

locale reads_back =
  fixes wr :: "'a \<Rightarrow> bytes"
    and rd :: "'a reader"
    and ok :: "'a \<Rightarrow> bool"
  assumes rd_wr: "ok x \<Longrightarrow> rd (wr x @ r) = Inr (x, r)"
begin

lemma rd_all: "ok x \<Longrightarrow> rd (wr x) = Inr (x, [])"
  using rd_wr [of x "[]"] by simp

text \<open>The encoding is prefix free: a value and what follows it are determined by the bytes.\<close>

lemma wr_prefix_free: "ok x \<Longrightarrow> ok y \<Longrightarrow> wr x @ r = wr y @ r' \<Longrightarrow> x = y \<and> r = r'"
  by (metis rd_wr Inr_inject prod.inject)

lemma wr_inj: "ok x \<Longrightarrow> ok y \<Longrightarrow> wr x = wr y \<Longrightarrow> x = y"
  using wr_prefix_free [of x y "[]" "[]"] by blast

lemma r_list_wr:
  "list_all ok xs \<Longrightarrow> length xs = n \<Longrightarrow> r_list rd n (concat (map wr xs) @ r) = Inr (xs, r)"
proof (induction xs arbitrary: n)
  case (Cons x xs)
  then obtain m where n: "n = Suc m" and m: "length xs = m" by (cases n) auto
  have "rd (wr x @ concat (map wr xs) @ r) = Inr (x, concat (map wr xs) @ r)"
    using Cons.prems by (simp add: rd_wr)
  with Cons.IH [OF _ m] Cons.prems n show ?case by simp
qed simp

end

text \<open>A codec is canonical as well: what it reads is what it would write.\<close>

locale codec = reads_back +
  assumes rd_exact: "rd r = Inr (x, r') \<Longrightarrow> ok x \<and> r = wr x @ r'"
begin

lemma rd_iff: "rd r = Inr (x, r') \<longleftrightarrow> ok x \<and> r = wr x @ r'"
  using rd_wr rd_exact by blast

lemma r_list_exact:
  "r_list rd n r = Inr (xs, r') \<Longrightarrow> list_all ok xs \<and> length xs = n \<and> r = concat (map wr xs) @ r'"
proof (induction n arbitrary: r xs)
  case (Suc n)
  then obtain x r1 ys where x: "rd r = Inr (x, r1)" and ys: "r_list rd n r1 = Inr (ys, r')"
    and "xs = x # ys"
    by (auto simp: rbind_eq_Inr)
  with Suc.IH [OF ys] rd_exact [OF x] show ?case by simp
qed simp

lemma r_list_iff:
  "r_list rd n r = Inr (xs, r') \<longleftrightarrow> list_all ok xs \<and> length xs = n \<and> r = concat (map wr xs) @ r'"
  using r_list_wr r_list_exact by blast

end

section \<open>The primitive codecs\<close>

lemma r_need_eq_Inr [simp]: "r_need k r = Inr u \<longleftrightarrow> k \<le> length r"
  by (auto simp: r_need_def)

lemma r_u8_Cons [simp]: "r_u8 (c # r) = Inr (c, r)"
  by (simp add: r_u8_def r_need_def)

lemma r_u8_Nil [simp]: "r_u8 [] = Inl ''unexpected end of data''"
  by (simp add: r_u8_def r_need_def)

interpretation u8c: codec w_u8 r_u8 "\<lambda>_. True"
proof
  show "r_u8 (w_u8 x @ r) = Inr (x, r)" for x r by (simp add: w_u8_def)
  show "True \<and> r = w_u8 x @ r'" if "r_u8 r = Inr (x, r')" for r x r'
    using that by (cases r) (auto simp: w_u8_def)
qed

lemma r_raw_iff: "r_raw k r = Inr (b, r') \<longleftrightarrow> length b = k \<and> r = b @ r'"
  by (auto simp: r_raw_def rbind_eq_Inr r_need_def fail_if_def)

interpretation rawc: codec "\<lambda>b. b" "r_raw k" "\<lambda>b. length b = k" for k
  by unfold_locales (auto simp: r_raw_iff)

interpretation hashc: codec w_hash r_hash "\<lambda>_. True"
  by unfold_locales (auto simp: w_hash_def r_hash_def r_raw_iff rbind_eq_Inr)

subsection \<open>Fixed-width little-endian integers\<close>

lemma bit_byte_imp: "bit (b :: u8) j \<Longrightarrow> j < 8"
  using bit_imp_le_length [of b j] by simp

text \<open>Bit \<open>k\<close> of the value read is bit \<open>k mod 8\<close> of byte \<open>k div 8\<close>.\<close>

lemma bit_le_fold:
  fixes r :: bytes
  assumes "8 * n \<le> LENGTH('a::len)"
  shows "bit (fold (\<lambda>i v. v OR push_bit (8 * i) (ucast (r ! i))) [0..<n] (0 :: 'a word)) k \<longleftrightarrow>
    k < 8 * n \<and> bit (r ! (k div 8)) (k mod 8)"
  using assms
proof (induction n)
  case (Suc n)
  let ?R = "fold (\<lambda>i v. v OR push_bit (8 * i) (ucast (r ! i))) [0..<n] (0 :: 'a word)"
  have IH: "bit ?R k \<longleftrightarrow> k < 8 * n \<and> bit (r ! (k div 8)) (k mod 8)"
    using Suc by simp
  have "bit (push_bit (8 * n) (ucast (r ! n)) :: 'a word) k \<longleftrightarrow>
    8 * n \<le> k \<and> k < LENGTH('a) \<and> bit (r ! n) (k - 8 * n)"
    by (auto simp: bit_simps)
  also have "\<dots> \<longleftrightarrow> 8 * n \<le> k \<and> k < 8 * Suc n \<and> bit (r ! (k div 8)) (k mod 8)"
  proof (cases "8 * n \<le> k \<and> k < 8 * Suc n")
    case True
    then have "k div 8 = n" by auto
    then have "k mod 8 = k - 8 * n" using minus_mult_div_eq_mod [of k 8] by simp
    with \<open>k div 8 = n\<close> True Suc.prems show ?thesis by auto
  next
    case False
    with bit_byte_imp [of "r ! n" "k - 8 * n"] show ?thesis by auto
  qed
  finally show ?case
    using IH by (auto simp: bit_or_iff)
qed simp

lemma le_fold_map:
  assumes "8 * n = LENGTH('a::len)"
  shows "fold (\<lambda>i v. v OR push_bit (8 * i) (ucast
    ((map (\<lambda>i. ucast (drop_bit (8 * i) x)) [0..<n] @ r) ! i :: u8))) [0..<n] 0 = (x :: 'a word)"
proof (rule bit_word_eqI)
  fix k
  assume "k < LENGTH('a)"
  with assms have "k div 8 < n" by auto
  then have "bit ((map (\<lambda>i. ucast (drop_bit (8 * i) x)) [0..<n] @ r) ! (k div 8) :: u8) (k mod 8) \<longleftrightarrow>
    bit x (8 * (k div 8) + k mod 8)"
    by (simp add: nth_append bit_simps)
  moreover have "8 * (k div 8) + k mod 8 = k" by (rule mult_div_mod_eq)
  ultimately show "bit (fold (\<lambda>i v. v OR push_bit (8 * i) (ucast
    ((map (\<lambda>i. ucast (drop_bit (8 * i) x)) [0..<n] @ r) ! i :: u8))) [0..<n] (0 :: 'a word)) k = bit x k"
    using assms \<open>k < LENGTH('a)\<close> by (subst bit_le_fold) auto
qed

lemma le_map_fold:
  fixes r :: bytes
  assumes "8 * n = LENGTH('a::len)" and "n \<le> length r"
  shows "map (\<lambda>i. ucast (drop_bit (8 * i)
    (fold (\<lambda>i v. v OR push_bit (8 * i) (ucast (r ! i))) [0..<n] (0 :: 'a word)))) [0..<n] = take n r"
proof (rule nth_equalityI)
  fix i
  let ?R = "fold (\<lambda>i v. v OR push_bit (8 * i) (ucast (r ! i))) [0..<n] (0 :: 'a word)"
  assume "i < length (map (\<lambda>i. ucast (drop_bit (8 * i) ?R) :: u8) [0..<n])"
  then have i: "i < n" by simp
  have "(ucast (drop_bit (8 * i) ?R) :: u8) = r ! i"
  proof (rule bit_word_eqI)
    fix j
    assume "j < LENGTH(8)"
    then have j: "j < 8" by simp
    then have "(8 * i + j) div 8 = i" "(8 * i + j) mod 8 = j" "8 * i + j < 8 * n"
      using i by auto
    with j assms show "bit (ucast (drop_bit (8 * i) ?R) :: u8) j = bit (r ! i) j"
      by (simp add: bit_simps bit_le_fold)
  qed
  with i assms show "map (\<lambda>i. ucast (drop_bit (8 * i) ?R)) [0..<n] ! i = take n r ! i"
    by simp
qed (use assms in simp)

interpretation u32c: codec w_u32le r_u32le "\<lambda>_. True"
proof
  show "r_u32le (w_u32le x @ r) = Inr (x, r)" for x r
    unfolding r_u32le_def w_u32le_def
    by (simp add: r_need_def le_fold_map [where 'a = 32, simplified])
  show "True \<and> r = w_u32le x @ r'" if "r_u32le r = Inr (x, r')" for r x r'
    using that le_map_fold [where 'a = 32 and n = 4 and r = r]
    by (auto simp: r_u32le_def w_u32le_def rbind_eq_Inr)
qed

interpretation u64c: codec w_u64le r_u64le "\<lambda>_. True"
proof
  show "r_u64le (w_u64le x @ r) = Inr (x, r)" for x r
    unfolding r_u64le_def w_u64le_def
    by (simp add: r_need_def le_fold_map [where 'a = 64, simplified])
  show "True \<and> r = w_u64le x @ r'" if "r_u64le r = Inr (x, r')" for r x r'
    using that le_map_fold [where 'a = 64 and n = 8 and r = r]
    by (auto simp: r_u64le_def w_u64le_def rbind_eq_Inr)
qed

subsection \<open>LEB128 varints\<close>

lemma and_7f: "(x :: 'a::len word) AND 0x7f = take_bit 7 x"
  by (simp add: take_bit_eq_mask mask_eq_exp_minus_1)

lemma and_80: "(x :: 'a::len word) AND 0x80 = 0 \<longleftrightarrow> \<not> bit x 7"
  using and_exp_eq_0_iff_not_bit [of x 7] by simp

lemma or_80: "(x :: 'a::len word) OR 0x80 = set_bit 7 x"
  by (simp add: set_bit_eq_or push_bit_eq_mult)

lemma ucast_7f: "ucast (take_bit 7 (ucast (x :: u64)) :: u8) = take_bit 7 x"
  by (rule bit_word_eqI) (auto simp: bit_simps)

lemma bit_ucast_set_7: "bit (ucast (set_bit 7 (x :: u64)) :: u8) 7"
  by (simp add: bit_simps)

lemma ucast_set_7: "take_bit 7 (ucast (set_bit 7 (x :: u64)) :: u8) = take_bit 7 (ucast x)"
  by (rule bit_word_eqI) (auto simp: bit_simps)

lemma or_shift_7:
  "(v OR push_bit s (take_bit 7 x)) OR push_bit (s + 7) (drop_bit 7 x) = v OR push_bit s (x :: u64)"
proof (rule bit_word_eqI)
  fix n
  show "bit ((v OR push_bit s (take_bit 7 x)) OR push_bit (s + 7) (drop_bit 7 x)) n
      = bit (v OR push_bit s x) n"
    by (cases "s + 7 \<le> n") (auto simp: bit_simps)
qed

lemma small_64: "(x :: u64) < 0x80 \<longleftrightarrow> unat x < 128"
  by (simp add: word_less_nat_alt)

lemma small_not_bit_7: "\<not> (x :: u64) \<ge> 0x80 \<Longrightarrow> \<not> bit (ucast x :: u8) 7 \<and> take_bit 7 x = x"
proof -
  assume "\<not> x \<ge> 0x80"
  then have "unat x < 2 ^ 7" by (simp add: word_le_nat_alt)
  then have t: "take_bit 7 x = x"
    by (simp add: word_unat_eq_iff unsigned_take_bit_eq take_bit_nat_eq_self)
  have "\<not> bit (take_bit 7 x) 7" by (simp add: bit_simps)
  then show ?thesis using t by (simp add: bit_simps)
qed

text \<open>
  The loop of the reader at bit position \<open>s\<close>: it accepts exactly the encodings of the values
  below \<open>2 ^ (64 - s)\<close>, non-zero unless it is the first byte.
\<close>

lemma r_varint_loop_wr:
  assumes "s \<le> 63" "7 dvd s" "unat x < 2 ^ (64 - s)" "s > 0 \<longrightarrow> x \<noteq> 0"
  shows "r_varint_loop s v (w_varint x @ r) = Inr (v OR push_bit s x, r)"
  using assms
proof (induction x arbitrary: s v rule: w_varint.induct)
  case (1 x)
  show ?case
  proof (cases "x \<ge> 0x80")
    case True
    then have "2 ^ 7 \<le> unat x" by (simp add: word_le_nat_alt)
    with "1.prems"(3) have "(2::nat) ^ 7 < 2 ^ (64 - s)" by simp
    then have "7 < 64 - s" by (rule power_less_imp_less_exp [rotated]) simp
    then have s: "s + 7 \<le> 63" "s \<noteq> 63" "s < 64" by auto
    have "unat (drop_bit 7 x) < 2 ^ (64 - (s + 7))"
    proof -
      have "64 - s = 7 + (64 - (s + 7))" using s by simp
      then have "(2::nat) ^ (64 - s) = 2 ^ 7 * 2 ^ (64 - (s + 7))" by (metis power_add)
      with "1.prems"(3) have "unat x < 2 ^ 7 * 2 ^ (64 - (s + 7))" by simp
      then show ?thesis
        by (subst unat_drop_bit_eq) (simp add: drop_bit_eq_div less_mult_imp_div_less ac_simps)
    qed
    moreover have "drop_bit 7 x \<noteq> 0"
    proof -
      have "unat x div 2 ^ 7 \<noteq> 0" using \<open>2 ^ 7 \<le> unat x\<close> by simp
      then show ?thesis
        by (metis unat_0 unat_drop_bit_eq drop_bit_eq_div)
    qed
    ultimately have "r_varint_loop (s + 7) w (w_varint (drop_bit 7 x) @ r)
        = Inr (w OR push_bit (s + 7) (drop_bit 7 x), r)" for w
      using "1.IH" [OF True, of "s + 7" w] s "1.prems"(2) by simp
    then show ?thesis
      using True s
      by (subst w_varint.simps, subst r_varint_loop.simps)
        (simp add: Let_def and_7f and_80 or_80 ucast_7f bit_ucast_set_7 ucast_set_7 or_shift_7)
  next
    case False
    have c: "\<not> bit (ucast x :: u8) 7" "take_bit 7 x = x" using small_not_bit_7 [OF False] by auto
    have "unat (ucast x :: u8) = unat x"
      using False by (simp add: word_le_nat_alt unsigned_ucast_eq take_bit_nat_eq_self)
    then have z: "(ucast x :: u8) = 0 \<longleftrightarrow> x = 0" and
      one: "s = 63 \<Longrightarrow> \<not> (1 < (ucast x :: u8))"
      using "1.prems"(3) by (auto simp: word_unat_eq_iff word_less_nat_alt)
    show ?thesis
      using False c z one "1.prems"
      by (subst w_varint.simps, subst r_varint_loop.simps)
        (auto simp add: Let_def and_7f and_80 ucast_7f)
  qed
qed

lemma join_bits:
  fixes c :: u8 and x :: u64
  assumes "bit c k" and k: "k = 7" and "unat x < 2 ^ (64 - k)"
  defines "y \<equiv> take_bit k (ucast c) OR push_bit k x"
  shows "ucast (set_bit k y) = c" and "drop_bit k y = x"
proof -
  have c: "j = k" if "bit c j" "\<not> j < k" for j
    using bit_byte_imp [OF that(1)] that(2) k by simp
  show "ucast (set_bit k y) = c"
  proof (rule bit_word_eqI)
    fix j assume "j < LENGTH(8)"
    then have "j < k \<or> j = k" using k by auto
    then show "bit (ucast (set_bit k y) :: u8) j = bit c j"
      unfolding y_def using assms(1) k by (auto simp only: bit_simps simp_thms) (auto simp: bit_simps)
  qed
  have "take_bit (64 - k) x = x"
    using assms(3) by (simp add: word_unat_eq_iff unsigned_take_bit_eq take_bit_nat_eq_self)
  then have x: "bit x j \<Longrightarrow> j < 64 - k" for j
    by (metis bit_take_bit_iff)
  show "drop_bit k y = x"
    unfolding y_def by (intro bit_word_eqI) (auto simp: bit_simps dest: x)
qed

lemmas join_7 = join_bits [OF _ refl]

lemma w_varint_step:
  assumes "bit (c :: u8) 7" and "unat x < 2 ^ (64 - 7)" and "x \<noteq> 0"
  shows "w_varint (take_bit 7 (ucast c) OR push_bit 7 x) = c # w_varint x"
proof -
  define y :: u64 where "y = take_bit 7 (ucast c) OR push_bit 7 x"
  have y: "ucast (set_bit 7 y) = c" "drop_bit 7 y = x"
    unfolding y_def by (rule join_7 [OF assms(1,2)])+
  then have "unat y div 2 ^ 7 = unat x"
    by (metis unat_drop_bit_eq drop_bit_eq_div)
  then have "unat y \<ge> 128"
    using assms(3) by (cases "unat y < 128") (auto simp: unat_eq_0)
  then have "y \<ge> 0x80" by (simp add: word_le_nat_alt)
  then show ?thesis
    unfolding y_def [symmetric] using y by (subst w_varint.simps) (simp only: or_80 if_True)
qed

lemma byte_low_7:
  assumes "\<not> bit (c :: u8) 7"
  shows "take_bit 7 c = c" and "unat c < 128" and "w_varint (ucast c) = [c]"
    and "unat (ucast c :: u64) = unat c"
proof -
  have "j < 7" if "bit c j" for j
    using bit_byte_imp [OF that] that assms by (cases "j = 7") auto
  then show t: "take_bit 7 c = c"
    by (intro bit_word_eqI) (auto simp: bit_simps)
  have "unat (take_bit 7 c) < 2 ^ 7"
    by (simp only: unsigned_take_bit_eq take_bit_nat_less_exp)
  with t show small: "unat c < 128" by simp
  have u: "unat c < 2 ^ 64" using small by simp
  show uc: "unat (ucast c :: u64) = unat c"
    using u by (simp add: unsigned_ucast_eq take_bit_nat_eq_self)
  have "(ucast (ucast c :: u64) :: u8) = c"
    by (rule bit_word_eqI) (auto simp: bit_simps)
  then show "w_varint (ucast c) = [c]"
    using small uc by (subst w_varint.simps) (simp add: word_le_nat_alt)
qed

lemma bit_word_ge: "bit (c :: u8) 7 \<Longrightarrow> c > 1"
proof -
  assume b: "bit c 7"
  have "c \<noteq> 0" "c \<noteq> 1" using b by (auto simp: bit_simps)
  then show ?thesis by (simp add: word_less_nat_alt word_unat_eq_iff)
qed

lemma r_varint_loop_exact:
  assumes "r_varint_loop s v r = Inr (y, r')" and "7 dvd s"
  shows "\<exists>x. unat x < 2 ^ (64 - s) \<and> (s > 0 \<longrightarrow> x \<noteq> 0) \<and> r = w_varint x @ r' \<and> y = v OR push_bit s x"
  using assms
proof (induction s v r rule: r_varint_loop.induct)
  case (1 s v r)
  from "1.prems"(1) have s: "s < 64" by (subst (asm) r_varint_loop.simps) (simp split: if_splits)
  with "1.prems"(2) have s63: "s \<le> 63" "s \<noteq> 63 \<longrightarrow> s + 7 \<le> 63" by (auto elim!: dvdE)
  from "1.prems"(1) s obtain c r1 where r: "r = c # r1"
    by (subst (asm) r_varint_loop.simps) (cases r, auto)
  note step = "1.prems"(1) [unfolded r r_varint_loop.simps [of s v "c # r1"]]
  have ovf: "\<not> (s = 63 \<and> c > 1)" using step s by (auto split: if_splits)
  show ?case
  proof (cases "bit c 7")
    case False
    note c = byte_low_7 [OF False]
    from step ovf s False have y: "y = v OR push_bit s (ucast c)" "r' = r1" "\<not> (c = 0 \<and> s > 0)"
      by (auto simp: Let_def and_7f and_80 c(1) split: if_splits)
    have "unat (ucast c :: u64) < 2 ^ (64 - s)"
    proof (cases "s = 63")
      case True
      then show ?thesis using ovf c(4) by (simp add: word_less_nat_alt)
    next
      case False
      then have "(2::nat) ^ 7 \<le> 2 ^ (64 - s)" using s63 by (intro power_increasing) auto
      then show ?thesis using c(2,4) by simp
    qed
    moreover have "s > 0 \<longrightarrow> (ucast c :: u64) \<noteq> 0" using y(3) c(4) by (metis unat_0 word_unat_eq_iff)
    ultimately show ?thesis using y(1,2) c(3) r by (intro exI [of _ "ucast c"]) simp
  next
    case True
    let ?w = "v OR push_bit s (ucast (take_bit 7 c))"
    from step ovf s True have rec: "r_varint_loop (s + 7) ?w r1 = Inr (y, r')"
      by (auto simp: Let_def and_7f and_80 split: if_splits)
    have "\<exists>x. unat x < 2 ^ (64 - (s + 7)) \<and> (s + 7 > 0 \<longrightarrow> x \<noteq> 0) \<and> r1 = w_varint x @ r'
        \<and> y = ?w OR push_bit (s + 7) x"
      using "1.IH" [of "(c, r1)" c r1 ?w] rec s True ovf "1.prems"(2) r by (simp add: and_7f and_80)
    then obtain x where x: "unat x < 2 ^ (64 - (s + 7))" "x \<noteq> 0" "r1 = w_varint x @ r'"
      "y = ?w OR push_bit (s + 7) x" by auto
    define z :: u64 where "z = take_bit 7 (ucast c) OR push_bit 7 x"
    have "unat x < 2 ^ (64 - 7)"
      using x(1) by (rule less_le_trans) (rule power_increasing, simp_all)
    then have zr: "w_varint z = c # w_varint x" and zd: "drop_bit 7 z = x"
      using w_varint_step [OF True _ x(2)] join_7(2) [OF True] by (simp_all only: z_def)
    have "take_bit 7 z = ucast (take_bit 7 c)"
      unfolding z_def by (rule bit_word_eqI) (simp only: bit_simps, auto)
    then have "y = v OR push_bit s z"
      using x(4) or_shift_7 [of v s z] zd by simp
    moreover have "unat z < 2 ^ (64 - s)"
    proof -
      have "s \<noteq> 63" using ovf True bit_word_ge [of c] by (auto simp: not_less)
      then have "64 - s = 7 + (64 - (s + 7))" using s63 by simp
      then have "(2::nat) ^ (64 - s) = 2 ^ 7 * 2 ^ (64 - (s + 7))" by (metis power_add)
      moreover have "unat z div 2 ^ 7 < 2 ^ (64 - (s + 7))"
        using x(1) zd by (metis unat_drop_bit_eq drop_bit_eq_div)
      ultimately show ?thesis by (simp add: div_less_iff_less_mult ac_simps)
    qed
    moreover have "z \<noteq> 0" using zd x(2) by auto
    ultimately show ?thesis using zr x(3) r by (intro exI [of _ z]) simp
  qed
qed

interpretation varintc: codec w_varint r_varint "\<lambda>_. True"
proof
  show "r_varint (w_varint x @ r) = Inr (x, r)" for x r
    using r_varint_loop_wr [of 0 x 0 r] unat_lt_64 [of x] by (simp add: r_varint_def)
  show "True \<and> r = w_varint x @ r'" if "r_varint r = Inr (x, r')" for r x r'
    using r_varint_loop_exact [of 0 0 r x r'] that by (auto simp: r_varint_def)
qed

interpretation varint_maxc: codec w_varint "r_varint_max mx" "\<lambda>v. v \<le> mx" for mx
  by unfold_locales
    (auto simp: r_varint_max_def varintc.rd_iff rbind_eq_Inr not_less split: if_splits)

lemma of_nat_le_64: "n \<le> unat (mx :: u64) \<Longrightarrow> (of_nat n :: u64) \<le> mx \<and> unat (of_nat n :: u64) = n"
  using unat_lt_64 [of mx] by (simp add: word_le_nat_alt unat_of_nat)

interpretation bytesc: codec w_bytes "r_bytes mx" "\<lambda>b. length b \<le> unat mx" for mx
proof
  show "r_bytes mx (w_bytes b @ r) = Inr (b, r)" if "length b \<le> unat mx" for b r
    using of_nat_le_64 [OF that]
    by (simp add: r_bytes_def w_bytes_def varint_maxc.rd_wr r_raw_iff)
  show "length b \<le> unat mx \<and> r = w_bytes b @ r'" if "r_bytes mx r = Inr (b, r')" for r b r'
    using that
    by (auto simp: r_bytes_def w_bytes_def rbind_eq_Inr varint_maxc.rd_iff r_raw_iff word_le_nat_alt)
qed

interpretation strc: codec w_str "r_str mx" "\<lambda>s. length s \<le> unat mx" for mx
proof
  have w: "w_str s = w_bytes (string_bytes s)" for s by (simp add: w_str_def w_bytes_def)
  show "r_str mx (w_str s @ r) = Inr (s, r)" if "length s \<le> unat mx" for s r
    using that by (simp add: w r_str_def bytesc.rd_wr)
  show "length s \<le> unat mx \<and> r = w_str s @ r'" if "r_str mx r = Inr (s, r')" for r s r'
    using that by (auto simp: w r_str_def rbind_eq_Inr bytesc.rd_iff)
qed

text \<open>The two halves of every primitive contract, for the readers composed from them.\<close>

lemmas [codec_iff] =
  u8c.rd_iff u32c.rd_iff u64c.rd_iff varintc.rd_iff varint_maxc.rd_iff hashc.rd_iff
  rawc.rd_iff bytesc.rd_iff strc.rd_iff rbind_eq_Inr

lemmas [codec_simps] =
  u8c.rd_wr u32c.rd_wr u64c.rd_wr varintc.rd_wr varint_maxc.rd_wr hashc.rd_wr
  bytesc.rd_wr strc.rd_wr

text \<open>A varint takes at most ten bytes.\<close>

lemma w_varint_length: "unat v < 128 ^ Suc n \<Longrightarrow> length (w_varint v) \<le> Suc n"
proof (induction n arbitrary: v)
  case 0
  then have "\<not> v \<ge> 0x80" by (simp add: word_le_nat_alt)
  then show ?case by (subst w_varint.simps) simp
next
  case (Suc n)
  have "unat (drop_bit 7 v) < 128 ^ Suc n" using Suc.prems
    by (simp only: unat_drop_bit) (simp add: div_less_iff_less_mult mult.commute)
  from Suc.IH [OF this] show ?case by (subst w_varint.simps) simp
qed

lemma w_varint_length10: "length (w_varint v) \<le> 10"
  using w_varint_length [of v 9] unat_lt_64 [of v] by simp

text \<open>A counted list: \<open>varint(n)\<close>, bounded by \<open>mx\<close> or not, then \<open>n\<close> elements.\<close>

definition w_counted :: "('a \<Rightarrow> bytes) \<Rightarrow> 'a list \<Rightarrow> bytes" where
  "w_counted wr xs = w_varint (of_nat (length xs)) @ concat (map wr xs)"

definition r_counted :: "u64 \<Rightarrow> 'a reader \<Rightarrow> 'a list reader" where
  "r_counted mx rd r = rbind (r_varint_max mx r) (\<lambda>(n, r). r_list rd (unat n) r)"

definition r_counted_any :: "'a reader \<Rightarrow> 'a list reader" where
  "r_counted_any rd r = rbind (r_varint r) (\<lambda>(n, r). r_list rd (unat n) r)"

context reads_back
begin

lemma r_counted_wr:
  "list_all ok xs \<Longrightarrow> length xs \<le> unat mx \<Longrightarrow> r_counted mx rd (w_counted wr xs @ r) = Inr (xs, r)"
  using of_nat_le_64 [of "length xs" mx]
  by (simp add: r_counted_def w_counted_def varint_maxc.rd_wr r_list_wr)

lemma r_counted_any_wr:
  "list_all ok xs \<Longrightarrow> length xs < 2 ^ 64 \<Longrightarrow> r_counted_any rd (w_counted wr xs @ r) = Inr (xs, r)"
  by (simp add: r_counted_any_def w_counted_def varintc.rd_wr r_list_wr unat_of_nat)

end

context codec
begin

lemma r_counted_exact:
  "r_counted mx rd r = Inr (xs, r') \<Longrightarrow>
     list_all ok xs \<and> length xs \<le> unat mx \<and> r = w_counted wr xs @ r'"
  by (auto simp: r_counted_def w_counted_def rbind_eq_Inr varint_maxc.rd_iff r_list_iff word_le_nat_alt)

lemma counted_codec:
  "codec (w_counted wr) (r_counted mx rd) (\<lambda>xs. list_all ok xs \<and> length xs \<le> unat mx)"
  using r_counted_wr r_counted_exact by unfold_locales blast+

end

end
