(* ===== verification/Crypto.thy ===== *)
theory Crypto
  imports Prelude
begin

text \<open>
  The hash and signature wrappers of \<open>src/src/crypto/hash.h\<close>, \<open>hash.cpp\<close> and \<open>sig.cpp\<close>.
  BLAKE3, SHA-256 and Falcon-512 themselves are third-party code: they are the fields of the
  record \<open>crypto\<close>, a parameter of every definition that hashes or checks a signature.
\<close>

record crypto =
  blake3_lib :: "bytes \<Rightarrow> hash256"
  derive_key_lib :: "string \<Rightarrow> bytes \<Rightarrow> hash256"
  keyed_lib :: "hash256 \<Rightarrow> bytes \<Rightarrow> hash256"
  xof_lib :: "string \<Rightarrow> bytes \<Rightarrow> nat \<Rightarrow> bytes"
  sha256_lib :: "bytes \<Rightarrow> hash256"
  falcon_verify_lib :: "bytes \<Rightarrow> hash256 \<Rightarrow> bytes \<Rightarrow> bool"
  falcon_sign_lib :: "hash256 \<Rightarrow> bytes \<Rightarrow> bytes option"
  falcon_keypair_lib :: "bytes \<Rightarrow> bytes \<times> bytes"

definition blake3 :: "crypto \<Rightarrow> bytes \<Rightarrow> hash256" where
  "blake3 cr b = blake3_lib cr b"

definition blake3_tagged :: "crypto \<Rightarrow> string \<Rightarrow> bytes \<Rightarrow> hash256" where
  "blake3_tagged cr c b = derive_key_lib cr c b"

section \<open>Context strings\<close>

definition ctx_TXID :: string where "ctx_TXID = ''Quant v2 txid''"
definition ctx_WTXID :: string where "ctx_WTXID = ''Quant v2 witness''"
definition ctx_MERKLE :: string where "ctx_MERKLE = ''Quant v2 merkle node''"
definition ctx_SIGHASH :: string where "ctx_SIGHASH = ''Quant v2 sighash''"
definition ctx_ADDRESS :: string where "ctx_ADDRESS = ''Quant v2 address''"
definition ctx_ASSET :: string where "ctx_ASSET = ''Quant v2 token id''"
definition ctx_LPTOKEN :: string where "ctx_LPTOKEN = ''Quant v2 pool share id''"
definition ctx_STATE :: string where "ctx_STATE = ''Quant v2 state snapshot''"
definition ctx_NETCHECK :: string where "ctx_NETCHECK = ''Quant v2 p2p checksum''"

lemmas ctx_defs = ctx_TXID_def ctx_WTXID_def ctx_MERKLE_def ctx_SIGHASH_def ctx_ADDRESS_def
  ctx_ASSET_def ctx_LPTOKEN_def ctx_STATE_def ctx_NETCHECK_def

section \<open>Falcon-512\<close>

definition FALCON_PK_BYTES :: nat where "FALCON_PK_BYTES = 897"
definition FALCON_SK_BYTES :: nat where "FALCON_SK_BYTES = 1281"
definition FALCON_SIG_MAX :: nat where "FALCON_SIG_MAX = 752"

definition address_hash :: "crypto \<Rightarrow> bytes \<Rightarrow> hash256" where
  "address_hash cr pk = blake3_tagged cr ctx_ADDRESS pk"

definition falcon_verify :: "crypto \<Rightarrow> bytes \<Rightarrow> bytes \<Rightarrow> hash256 \<Rightarrow> bool" where
  "falcon_verify cr pk sig msg =
     (if length pk \<noteq> FALCON_PK_BYTES \<or> sig = [] \<or> length sig > FALCON_SIG_MAX then False
      else falcon_verify_lib cr sig msg pk)"

end
