(* ===== verification/Limits.thy ===== *)
theory Limits
  imports Prelude
begin

text \<open>The consensus constants of \<open>src/src/consensus/limits.h\<close> and \<open>COIN\<close> of \<open>types.h\<close>.\<close>

definition COIN :: amount where "COIN = 10000000000"

definition MAX_TX_INPUTS :: u64 where "MAX_TX_INPUTS = 10000"
definition MAX_TX_OUTPUTS :: u64 where "MAX_TX_OUTPUTS = 10000"
definition MAX_TX_OPS :: u64 where "MAX_TX_OPS = 16"
definition MAX_COINBASE_EXTRA :: u64 where "MAX_COINBASE_EXTRA = 100"
definition MAX_BLOCK_SIZE :: nat where "MAX_BLOCK_SIZE = 1000000"
definition MAX_TX_SIZE :: nat where "MAX_TX_SIZE = 400000"

definition EMISSION_CURVE :: amount where "EMISSION_CURVE = 75000000 * COIN"
definition EMISSION_SPEED :: nat where "EMISSION_SPEED = 23"
definition TAIL_SUBSIDY :: amount where "TAIL_SUBSIDY = 35 * COIN div 10"
definition MAX_MONEY :: amount where "MAX_MONEY = 1000000000 * COIN"
definition DUST_LIMIT :: amount where "DUST_LIMIT = 10000"

definition MAX_TICKER :: u64 where "MAX_TICKER = 10"
definition MAX_TOKEN_NAME :: u64 where "MAX_TOKEN_NAME = 32"
definition MAX_TOKEN_URI :: u64 where "MAX_TOKEN_URI = 120"
definition MAX_TOKEN_DECIMALS :: u8 where "MAX_TOKEN_DECIMALS = 10"
definition MAX_TOKEN_SUPPLY :: amount where "MAX_TOKEN_SUPPLY = 10000000000000000000"
definition MIN_LIQUIDITY :: amount where "MIN_LIQUIDITY = 1000"
definition POOL_FEE_BPS :: u64 where "POOL_FEE_BPS = 30"

definition MAX_MESSAGE_TEXT :: u64 where "MAX_MESSAGE_TEXT = 280"
definition GIFT_PRICE :: "amount list" where
  "GIFT_PRICE = [0, COIN div 10, COIN div 2, 5 * COIN, 25 * COIN]"
definition GIFT_COUNT :: u8 where "GIFT_COUNT = 5"

definition TARGET_SPACING :: int where "TARGET_SPACING = 120"
definition LWMA_WINDOW :: int where "LWMA_WINDOW = 60"
definition MAX_FUTURE_DRIFT :: int where "MAX_FUTURE_DRIFT = 360"
definition MEDIAN_TIME_SPAN :: nat where "MEDIAN_TIME_SPAN = 11"
definition COINBASE_MATURITY :: int where "COINBASE_MATURITY = 100"
definition PRUNE_DEPTH :: int where "PRUNE_DEPTH = 5040"
definition MAX_REORG_DEPTH :: int where "MAX_REORG_DEPTH = PRUNE_DEPTH"
definition MIN_RELAY_FEE_PER_KB :: amount where "MIN_RELAY_FEE_PER_KB = 100000"

lemmas limit_defs = COIN_def MAX_TX_INPUTS_def MAX_TX_OUTPUTS_def MAX_TX_OPS_def
  MAX_COINBASE_EXTRA_def MAX_BLOCK_SIZE_def EMISSION_CURVE_def EMISSION_SPEED_def
  TAIL_SUBSIDY_def MAX_MONEY_def DUST_LIMIT_def MAX_TICKER_def MAX_TOKEN_NAME_def
  MAX_TOKEN_URI_def MAX_TOKEN_DECIMALS_def MAX_TOKEN_SUPPLY_def MIN_LIQUIDITY_def POOL_FEE_BPS_def
  MAX_MESSAGE_TEXT_def GIFT_PRICE_def GIFT_COUNT_def

text \<open>The constants as numbers.\<close>

lemma unat_MAX_MONEY: "unat MAX_MONEY = 10 ^ 19"
  by (simp add: limit_defs)

lemma unat_MAX_TOKEN_SUPPLY: "unat MAX_TOKEN_SUPPLY = 10 ^ 19"
  by (simp add: limit_defs)

lemma unat_MIN_LIQUIDITY: "unat MIN_LIQUIDITY = 1000"
  by (simp add: limit_defs)

lemma unat_TAIL_SUBSIDY: "unat TAIL_SUBSIDY = 35 * 10 ^ 9"
  by (simp add: limit_defs)

lemma unat_EMISSION_CURVE: "unat EMISSION_CURVE = 75 * 10 ^ 16"
  by (simp add: limit_defs)

end
