(* ===== verification/Transaction.thy ===== *)
theory Transaction
  imports Serialize Crypto Limits
begin

text \<open>
  Transactions: the data model of \<open>src/src/primitives/transaction.h\<close> and the encodings of
  \<open>transaction.cpp\<close>. The core of a transaction (what the txid commits to) and its witness are
  separate codecs; both are shown canonical, so a txid cannot be changed by re-encoding.
\<close>

section \<open>Data\<close>

datatype outpoint = OutPoint (op_txid: hash256) (op_n: u32)

instantiation outpoint :: linorder
begin

definition less_eq_outpoint :: "outpoint \<Rightarrow> outpoint \<Rightarrow> bool" where
  "less_eq_outpoint a b \<longleftrightarrow> (op_txid a, op_n a) \<le> (op_txid b, op_n b)"

definition less_outpoint :: "outpoint \<Rightarrow> outpoint \<Rightarrow> bool" where
  "less_outpoint a b \<longleftrightarrow> (op_txid a, op_n a) < (op_txid b, op_n b)"

instance
proof
  fix x y z :: outpoint
  show "x < y \<longleftrightarrow> x \<le> y \<and> \<not> y \<le> x"
    by (simp only: less_eq_outpoint_def less_outpoint_def less_le_not_le)
  show "x \<le> x" by (simp add: less_eq_outpoint_def)
  show "x \<le> y \<Longrightarrow> y \<le> z \<Longrightarrow> x \<le> z" unfolding less_eq_outpoint_def by (rule order.trans)
  show "x \<le> y \<Longrightarrow> y \<le> x \<Longrightarrow> x = y"
    by (cases x; cases y) (auto simp: less_eq_outpoint_def)
  show "x \<le> y \<or> y \<le> x" by (simp only: less_eq_outpoint_def linear)
qed

end

record txin =
  prev :: outpoint

definition QNT_ASSET :: hash256 where
  "QNT_ASSET = hash_zero"

record txout =
  o_value :: amount
  o_asset :: hash256
  o_addr :: hash256

definition is_qnt :: "txout \<Rightarrow> bool" where
  "is_qnt out \<longleftrightarrow> hash_is_zero (o_asset out)"

lemma is_qnt_iff: "is_qnt out \<longleftrightarrow> o_asset out = QNT_ASSET"
  by (simp add: is_qnt_def QNT_ASSET_def)

datatype tx_op =
    OpCreateToken (ct_ticker: string) (ct_name: string) (ct_decimals: u8) (ct_supply: amount) (ct_uri: string)
  | OpPoolCreate (pc_token: hash256) (pc_qnt: amount) (pc_tok: amount) (pc_shares: amount)
  | OpAddLiquidity (al_token: hash256) (al_qnt: amount) (al_tok: amount) (al_shares: amount)
  | OpRemoveLiquidity (rl_token: hash256) (rl_shares: amount) (rl_qnt: amount) (rl_tok: amount)
  | OpSwap (sw_token: hash256) (sw_sell: bool) (sw_in: amount) (sw_out: amount)
  | OpMessage (m_from: hash256) (m_to: hash256) (m_gift: u8) (m_text: string)

datatype witness = WitnessRef u32 | WitnessFalcon bytes bytes

record transaction =
  t_version :: u32
  ins :: "txin list"
  outs :: "txout list"
  ops :: "tx_op list"
  lock_height :: u64
  extra :: bytes
  wits :: "witness list"

definition is_coinbase :: "transaction \<Rightarrow> bool" where
  "is_coinbase tx \<longleftrightarrow> ins tx = []"

section \<open>Writing\<close>

definition write_txout :: "txout \<Rightarrow> bytes" where
  "write_txout out = w_varint (o_value out)
     @ (if is_qnt out then w_u8 0 else w_u8 1 @ w_hash (o_asset out))
     @ w_hash (o_addr out)"

fun write_op :: "tx_op \<Rightarrow> bytes" where
  "write_op (OpCreateToken ticker name decimals supply uri) =
     w_u8 1 @ w_str ticker @ w_str name @ w_u8 decimals @ w_varint supply @ w_str uri"
| "write_op (OpPoolCreate token qnt tok shares) =
     w_u8 2 @ w_hash token @ w_varint qnt @ w_varint tok @ w_varint shares"
| "write_op (OpAddLiquidity token qnt tok shares) =
     w_u8 3 @ w_hash token @ w_varint qnt @ w_varint tok @ w_varint shares"
| "write_op (OpRemoveLiquidity token shares qnt tok) =
     w_u8 4 @ w_hash token @ w_varint shares @ w_varint qnt @ w_varint tok"
| "write_op (OpSwap token sell inp out) =
     w_u8 5 @ w_hash token @ w_u8 (if sell then 1 else 0) @ w_varint inp @ w_varint out"
| "write_op (OpMessage from to gift txt) =
     w_u8 6 @ w_hash from @ w_hash to @ w_u8 gift @ w_str txt"

definition write_txin :: "txin \<Rightarrow> bytes" where
  "write_txin i = w_hash (op_txid (prev i)) @ w_varint (ucast (op_n (prev i)))"

definition write_core :: "transaction \<Rightarrow> bytes" where
  "write_core t = w_varint (ucast (t_version t))
     @ w_counted write_txin (ins t)
     @ w_counted write_txout (outs t)
     @ w_counted write_op (ops t)
     @ w_varint (lock_height t)
     @ w_bytes (extra t)"

fun write_wit :: "witness \<Rightarrow> bytes" where
  "write_wit (WitnessRef i) = w_u8 0 @ w_varint (ucast i)"
| "write_wit (WitnessFalcon pk sig) = w_u8 1 @ pk @ w_bytes sig"

definition write_witness :: "transaction \<Rightarrow> bytes" where
  "write_witness t = w_counted write_wit (wits t)"

definition write_full :: "transaction \<Rightarrow> bytes" where
  "write_full t = write_core t @ write_witness t"

section \<open>Reading\<close>

definition read_txout :: "txout reader" where
  "read_txout r =
     rbind (r_varint r) (\<lambda>(v, r).
     rbind (r_u8 r) (\<lambda>(f, r).
     rbind (if f = 1 then
              rbind (r_hash r) (\<lambda>(a, r).
                if hash_is_zero a then Inl ''non-canonical asset'' else Inr (a, r))
            else if f \<noteq> 0 then Inl ''bad asset flag''
            else Inr (hash_zero, r)) (\<lambda>(a, r).
     rbind (r_hash r) (\<lambda>(ad, r).
     Inr (\<lparr>o_value = v, o_asset = a, o_addr = ad\<rparr>, r)))))"

definition read_op :: "tx_op reader" where
  "read_op r =
     rbind (r_u8 r) (\<lambda>(ty, r).
     if ty = 1 then
       rbind (r_str MAX_TICKER r) (\<lambda>(ticker, r).
       rbind (r_str MAX_TOKEN_NAME r) (\<lambda>(name, r).
       rbind (r_u8 r) (\<lambda>(decimals, r).
       rbind (r_varint r) (\<lambda>(supply, r).
       rbind (r_str MAX_TOKEN_URI r) (\<lambda>(uri, r).
       Inr (OpCreateToken ticker name decimals supply uri, r))))))
     else if ty = 2 then
       rbind (r_hash r) (\<lambda>(token, r).
       rbind (r_varint r) (\<lambda>(qnt, r).
       rbind (r_varint r) (\<lambda>(tok, r).
       rbind (r_varint r) (\<lambda>(shares, r).
       Inr (OpPoolCreate token qnt tok shares, r)))))
     else if ty = 3 then
       rbind (r_hash r) (\<lambda>(token, r).
       rbind (r_varint r) (\<lambda>(qnt, r).
       rbind (r_varint r) (\<lambda>(tok, r).
       rbind (r_varint r) (\<lambda>(shares, r).
       Inr (OpAddLiquidity token qnt tok shares, r)))))
     else if ty = 4 then
       rbind (r_hash r) (\<lambda>(token, r).
       rbind (r_varint r) (\<lambda>(shares, r).
       rbind (r_varint r) (\<lambda>(qnt, r).
       rbind (r_varint r) (\<lambda>(tok, r).
       Inr (OpRemoveLiquidity token shares qnt tok, r)))))
     else if ty = 5 then
       rbind (r_hash r) (\<lambda>(token, r).
       rbind (r_u8 r) (\<lambda>(s, r).
       if s > 1 then Inl ''bad swap direction''
       else
         rbind (r_varint r) (\<lambda>(inp, r).
         rbind (r_varint r) (\<lambda>(out, r).
         Inr (OpSwap token (s = 1) inp out, r)))))
     else if ty = 6 then
       rbind (r_hash r) (\<lambda>(from, r).
       rbind (r_hash r) (\<lambda>(to, r).
       rbind (r_u8 r) (\<lambda>(gift, r).
       rbind (r_str MAX_MESSAGE_TEXT r) (\<lambda>(txt, r).
       Inr (OpMessage from to gift txt, r)))))
     else Inl ''unknown op'')"

definition read_txin :: "txin reader" where
  "read_txin r =
     rbind (r_hash r) (\<lambda>(h, r).
     rbind (r_varint_max 0xffffffff r) (\<lambda>(n, r).
     Inr (\<lparr>prev = OutPoint h (ucast n)\<rparr>, r)))"

definition read_core :: "transaction reader" where
  "read_core r =
     rbind (r_varint_max 0xffffffff r) (\<lambda>(ver, r).
     rbind (r_counted MAX_TX_INPUTS read_txin r) (\<lambda>(i, r).
     rbind (r_counted MAX_TX_OUTPUTS read_txout r) (\<lambda>(os, r).
     rbind (r_counted MAX_TX_OPS read_op r) (\<lambda>(ps, r).
     rbind (r_varint r) (\<lambda>(lh, r).
     rbind (r_bytes MAX_COINBASE_EXTRA r) (\<lambda>(ex, r).
     Inr (\<lparr>t_version = ucast ver, ins = i, outs = os, ops = ps, lock_height = lh, extra = ex,
           wits = []\<rparr>, r)))))))"

definition read_wit :: "witness reader" where
  "read_wit r =
     rbind (r_u8 r) (\<lambda>(ty, r).
     if ty = 0 then
       rbind (r_varint_max MAX_TX_INPUTS r) (\<lambda>(i, r). Inr (WitnessRef (ucast i), r))
     else if ty = 1 then
       rbind (r_raw FALCON_PK_BYTES r) (\<lambda>(pk, r).
       rbind (r_bytes (of_nat FALCON_SIG_MAX) r) (\<lambda>(sig, r).
       Inr (WitnessFalcon pk sig, r)))
     else Inl ''unknown witness type'')"

definition read_witness :: "transaction \<Rightarrow> transaction reader" where
  "read_witness t r =
     rbind (r_counted MAX_TX_INPUTS read_wit r) (\<lambda>(ws, r). Inr (t\<lparr>wits := ws\<rparr>, r))"

definition read_full :: "transaction reader" where
  "read_full r = rbind (read_core r) (\<lambda>(t, r). read_witness t r)"

section \<open>Hashes\<close>

definition txid :: "crypto \<Rightarrow> transaction \<Rightarrow> hash256" where
  "txid cr t = blake3_tagged cr ctx_TXID (write_core t)"

definition witness_hash :: "crypto \<Rightarrow> transaction \<Rightarrow> hash256" where
  "witness_hash cr t = blake3_tagged cr ctx_WTXID (write_witness t)"

definition full_size :: "transaction \<Rightarrow> nat" where
  "full_size t = length (write_full t)"

text \<open>A 64-bit sum, as in the source: it wraps.\<close>

definition total_qnt_out :: "transaction \<Rightarrow> amount" where
  "total_qnt_out t = fold (\<lambda>out s. if is_qnt out then s + o_value out else s) (outs t) 0"

definition token_id :: "crypto \<Rightarrow> outpoint \<Rightarrow> u32 \<Rightarrow> hash256" where
  "token_id cr first_in op_index = blake3_tagged cr ctx_ASSET
     (w_hash (op_txid first_in) @ w_u32le (op_n first_in) @ w_u32le op_index)"

definition pool_share_id :: "crypto \<Rightarrow> hash256 \<Rightarrow> hash256" where
  "pool_share_id cr token = blake3_tagged cr ctx_LPTOKEN (hash_bytes token)"

definition signature_hash :: "crypto \<Rightarrow> hash256 \<Rightarrow> hash256 \<Rightarrow> hash256" where
  "signature_hash cr genesis tid = blake3_tagged cr ctx_SIGHASH (hash_bytes genesis @ hash_bytes tid)"

section \<open>The encodings are canonical\<close>

text \<open>The values the readers can return, which are those that read back.\<close>

fun op_ok :: "tx_op \<Rightarrow> bool" where
  "op_ok (OpCreateToken ticker name decimals supply uri) \<longleftrightarrow>
     length ticker \<le> unat MAX_TICKER \<and> length name \<le> unat MAX_TOKEN_NAME \<and> length uri \<le> unat MAX_TOKEN_URI"
| "op_ok (OpMessage from to gift txt) \<longleftrightarrow> length txt \<le> unat MAX_MESSAGE_TEXT"
| "op_ok _ \<longleftrightarrow> True"

fun wit_ok :: "witness \<Rightarrow> bool" where
  "wit_ok (WitnessRef i) \<longleftrightarrow> (ucast i :: u64) \<le> MAX_TX_INPUTS"
| "wit_ok (WitnessFalcon pk sig) \<longleftrightarrow> length pk = FALCON_PK_BYTES \<and> length sig \<le> FALCON_SIG_MAX"

definition core_ok :: "transaction \<Rightarrow> bool" where
  "core_ok t \<longleftrightarrow> length (ins t) \<le> unat MAX_TX_INPUTS \<and> length (outs t) \<le> unat MAX_TX_OUTPUTS
     \<and> list_all op_ok (ops t) \<and> length (ops t) \<le> unat MAX_TX_OPS
     \<and> length (extra t) \<le> unat MAX_COINBASE_EXTRA"

definition witness_ok :: "transaction \<Rightarrow> bool" where
  "witness_ok t \<longleftrightarrow> list_all wit_ok (wits t) \<and> length (wits t) \<le> unat MAX_TX_INPUTS"

lemma ucast_32_64 [simp]: "(ucast (ucast (x :: u32) :: u64) :: u32) = x"
  by (rule bit_word_eqI) (auto simp: bit_simps)

lemma ucast_32_max [simp]: "(ucast (x :: u32) :: u64) \<le> 0xffffffff"
proof -
  have "unat x < 2 ^ 32" by (rule unat_lt_32)
  then have "unat (ucast x :: u64) < 2 ^ 32"
    by (simp add: unsigned_ucast_eq take_bit_nat_eq_self)
  then show ?thesis by (simp add: word_le_nat_alt)
qed

lemma ucast_64_32: "(v :: u64) \<le> 0xffffffff \<Longrightarrow> ucast (ucast v :: u32) = v"
proof -
  assume "v \<le> 0xffffffff"
  then have "unat v < 2 ^ 32" by (simp add: word_le_nat_alt)
  then show ?thesis
    by (simp add: word_unat_eq_iff unsigned_ucast_eq unsigned_take_bit_eq take_bit_nat_eq_self)
qed

lemma ucast_small_64_32: "(v :: u64) \<le> MAX_TX_INPUTS \<Longrightarrow> ucast (ucast v :: u32) = v"
  by (rule ucast_64_32) (simp add: limit_defs word_le_nat_alt)

interpretation txoutc: codec write_txout read_txout "\<lambda>_. True"
proof
  show "read_txout (write_txout x @ r) = Inr (x, r)" for x r
    by (simp add: read_txout_def write_txout_def codec_simps is_qnt_def)
  show "True \<and> r = write_txout x @ r'" if "read_txout r = Inr (x, r')" for r x r'
    using that
    by (auto simp: read_txout_def write_txout_def codec_iff is_qnt_def split: if_splits)
qed

interpretation opc: codec write_op read_op op_ok
proof
  show "read_op (write_op x @ r) = Inr (x, r)" if "op_ok x" for x r
    using that by (cases x) (simp_all add: read_op_def codec_simps)
  show "op_ok x \<and> r = write_op x @ r'" if "read_op r = Inr (x, r')" for r x r'
  proof -
    from that obtain ty r1 where ty: "r = w_u8 ty @ r1" by (auto simp: read_op_def codec_iff)
    have flag: "s = (if s = 1 then 1 else 0)" if "\<not> s > 1" for s :: u8
      using that by (auto simp: word_less_nat_alt word_unat_eq_iff)
    show ?thesis
      using that flag unfolding ty
      by (auto simp: read_op_def codec_iff codec_simps split: if_splits)
  qed
qed

interpretation txinc: codec write_txin read_txin "\<lambda>_. True"
proof
  show "read_txin (write_txin x @ r) = Inr (x, r)" for x r
    by (simp add: read_txin_def write_txin_def codec_simps)
  show "True \<and> r = write_txin x @ r'" if "read_txin r = Inr (x, r')" for r x r'
    using that by (auto simp: read_txin_def write_txin_def codec_iff ucast_64_32)
qed

interpretation witc: codec write_wit read_wit wit_ok
proof
  have m: "unat (of_nat FALCON_SIG_MAX :: u64) = FALCON_SIG_MAX" by (simp add: FALCON_SIG_MAX_def)
  show "read_wit (write_wit x @ r) = Inr (x, r)" if "wit_ok x" for x r
    using that by (cases x) (simp_all add: read_wit_def codec_simps rawc.rd_wr m)
  show "wit_ok x \<and> r = write_wit x @ r'" if "read_wit r = Inr (x, r')" for r x r'
    using that by (auto simp: read_wit_def codec_iff m ucast_small_64_32 split: if_splits)
qed

interpretation insc: codec "w_counted write_txin" "r_counted mx read_txin"
    "\<lambda>xs. length xs \<le> unat mx" for mx
  using txinc.counted_codec [of mx] by simp

interpretation outsc: codec "w_counted write_txout" "r_counted mx read_txout"
    "\<lambda>xs. length xs \<le> unat mx" for mx
  using txoutc.counted_codec [of mx] by simp

interpretation opsc: codec "w_counted write_op" "r_counted mx read_op"
    "\<lambda>xs. list_all op_ok xs \<and> length xs \<le> unat mx" for mx
  by (rule opc.counted_codec)

interpretation witsc: codec "w_counted write_wit" "r_counted mx read_wit"
    "\<lambda>xs. list_all wit_ok xs \<and> length xs \<le> unat mx" for mx
  by (rule witc.counted_codec)

lemmas [codec_iff] = txoutc.rd_iff opc.rd_iff txinc.rd_iff witc.rd_iff
  insc.rd_iff outsc.rd_iff opsc.rd_iff witsc.rd_iff
lemmas [codec_simps] = txoutc.rd_wr opc.rd_wr txinc.rd_wr witc.rd_wr
  insc.rd_wr outsc.rd_wr opsc.rd_wr witsc.rd_wr

interpretation corec: codec write_core read_core "\<lambda>t. core_ok t \<and> wits t = []"
proof
  show "read_core (write_core t @ r) = Inr (t, r)" if "core_ok t \<and> wits t = []" for t r
    using that by (simp add: read_core_def write_core_def codec_simps core_ok_def)
  show "(core_ok t \<and> wits t = []) \<and> r = write_core t @ r'" if "read_core r = Inr (t, r')" for r t r'
    using that by (auto simp: read_core_def write_core_def codec_iff core_ok_def ucast_64_32)
qed

lemma write_core_wits [simp]: "write_core (t\<lparr>wits := ws\<rparr>) = write_core t"
  by (simp add: write_core_def)

lemma core_ok_wits [simp]: "core_ok (t\<lparr>wits := ws\<rparr>) = core_ok t"
  by (simp add: core_ok_def)

interpretation fullc: codec write_full read_full "\<lambda>t. core_ok t \<and> witness_ok t"
proof
  show "read_full (write_full t @ r) = Inr (t, r)" if "core_ok t \<and> witness_ok t" for t r
  proof -
    have "read_core (write_core t @ write_witness t @ r) = Inr (t\<lparr>wits := []\<rparr>, write_witness t @ r)"
      using corec.rd_wr [of "t\<lparr>wits := []\<rparr>"] that by simp
    then show ?thesis
      using that by (simp add: read_full_def write_full_def read_witness_def write_witness_def
          witness_ok_def codec_simps)
  qed
  show "(core_ok t \<and> witness_ok t) \<and> r = write_full t @ r'" if "read_full r = Inr (t, r')" for r t r'
    using that
    by (auto simp: read_full_def write_full_def read_witness_def write_witness_def witness_ok_def
        codec_iff corec.rd_iff)
qed

lemmas [codec_iff] = corec.rd_iff fullc.rd_iff
lemmas [codec_simps] = corec.rd_wr fullc.rd_wr

end
