(* ===== verification/Block.thy ===== *)
theory Block
  imports Transaction
begin

unbundle bit_operations_syntax

text \<open>
  Block headers, blocks and the Merkle tree of \<open>src/src/primitives/block.h\<close> and
  \<open>block.cpp\<close>. The loops over a level of the tree are recursive functions on the list of
  hashes; \<open>merkle_verify\<close> consumes the proof from the front where the source indexes it with
  \<open>level\<close>. Leaf counts are natural numbers: every caller passes a 32-bit count, so the source's
  \<open>n + 1\<close> does not wrap.
\<close>

section \<open>Headers\<close>

record block_header =
  h_version :: u32
  h_prev :: hash256
  merkle_root_f :: hash256
  witness_root_f :: hash256
  state_commit :: hash256
  h_time :: u64
  h_bits :: u32
  h_nonce :: u64

definition HEADER_SIZE :: nat where
  "HEADER_SIZE = 4 + 32 + 32 + 32 + 32 + 8 + 4 + 8"

definition write_header :: "block_header \<Rightarrow> bytes" where
  "write_header h = w_u32le (h_version h) @ w_hash (h_prev h) @ w_hash (merkle_root_f h)
     @ w_hash (witness_root_f h) @ w_hash (state_commit h)
     @ w_u64le (h_time h) @ w_u32le (h_bits h) @ w_u64le (h_nonce h)"

definition read_header :: "block_header reader" where
  "read_header r =
     rbind (r_u32le r) (\<lambda>(v, r).
     rbind (r_hash r) (\<lambda>(p, r).
     rbind (r_hash r) (\<lambda>(m, r).
     rbind (r_hash r) (\<lambda>(w, r).
     rbind (r_hash r) (\<lambda>(s, r).
     rbind (r_u64le r) (\<lambda>(t, r).
     rbind (r_u32le r) (\<lambda>(b, r).
     rbind (r_u64le r) (\<lambda>(n, r).
     Inr (\<lparr>h_version = v, h_prev = p, merkle_root_f = m, witness_root_f = w, state_commit = s,
           h_time = t, h_bits = b, h_nonce = n\<rparr>, r)))))))))"

text \<open>\<open>BlockHeader::hash\<close>: plain BLAKE3 of the 152 serialized bytes.\<close>

definition header_hash :: "crypto \<Rightarrow> block_header \<Rightarrow> hash256" where
  "header_hash cr h = blake3 cr (take HEADER_SIZE (write_header h))"

section \<open>Blocks\<close>

record block =
  header :: block_header
  txs :: "transaction list"

definition block_core_bytes :: "block \<Rightarrow> bytes" where
  "block_core_bytes b = write_header (header b) @ w_counted write_core (txs b)"

definition block_witness_bytes :: "block \<Rightarrow> bytes" where
  "block_witness_bytes b = concat (map write_witness (txs b))"

definition block_full_bytes :: "block \<Rightarrow> bytes" where
  "block_full_bytes b = block_core_bytes b @ block_witness_bytes b"

definition read_block_core :: "block reader" where
  "read_block_core r =
     rbind (read_header r) (\<lambda>(h, r).
     rbind (r_counted (of_nat (MAX_BLOCK_SIZE div 40)) read_core r) (\<lambda>(ts, r).
     Inr (\<lparr>header = h, txs = ts\<rparr>, r)))"

text \<open>\<open>for (auto& t : txs) t.read_witness(r);\<close>\<close>

primrec read_witnesses :: "transaction list \<Rightarrow> transaction list reader" where
  "read_witnesses [] r = Inr ([], r)"
| "read_witnesses (t # ts) r =
     rbind (read_witness t r) (\<lambda>(t', r).
     rbind (read_witnesses ts r) (\<lambda>(ts', r). Inr (t' # ts', r)))"

definition read_block_witness :: "block \<Rightarrow> block reader" where
  "read_block_witness b r =
     rbind (read_witnesses (txs b) r) (\<lambda>(ts, r). Inr (b\<lparr>txs := ts\<rparr>, r))"

definition read_block_full :: "block reader" where
  "read_block_full r = rbind (read_block_core r) (\<lambda>(b, r). read_block_witness b r)"

section \<open>Merkle tree\<close>

definition merkle_node :: "crypto \<Rightarrow> hash256 \<Rightarrow> hash256 \<Rightarrow> hash256" where
  "merkle_node cr a b = blake3_tagged cr ctx_MERKLE (hash_bytes a @ hash_bytes b)"

text \<open>One pass of the loop: pairs are hashed, an odd node is carried up unchanged.\<close>

fun merkle_level :: "crypto \<Rightarrow> hash256 list \<Rightarrow> hash256 list" where
  "merkle_level cr (a # b # l) = merkle_node cr a b # merkle_level cr l"
| "merkle_level cr [a] = [a]"
| "merkle_level cr [] = []"

lemma length_merkle_level: "length (merkle_level cr l) = (length l + 1) div 2"
  by (induction cr l rule: merkle_level.induct) auto

function merkle_root :: "crypto \<Rightarrow> hash256 list \<Rightarrow> hash256" where
  "merkle_root cr l =
     (if l = [] then hash_zero
      else if length l > 1 then merkle_root cr (merkle_level cr l)
      else l ! 0)"
  by pat_completeness auto
termination
  by (relation "measure (\<lambda>(cr, l). length l)") (auto simp: length_merkle_level)

function merkle_proof :: "crypto \<Rightarrow> hash256 list \<Rightarrow> nat \<Rightarrow> hash256 list" where
  "merkle_proof cr l index =
     (if length l > 1 then
        (let sib = index XOR 1 in
         (if sib < length l then l ! sib else hash_zero)
           # merkle_proof cr (merkle_level cr l) (index div 2))
      else [])"
  by pat_completeness auto
termination
  by (relation "measure (\<lambda>(cr, l, i). length l)") (auto simp: length_merkle_level)

function merkle_climb :: "crypto \<Rightarrow> hash256 \<Rightarrow> nat \<Rightarrow> nat \<Rightarrow> hash256 list \<Rightarrow> hash256 option" where
  "merkle_climb cr h index n proof =
     (if n > 1 then
        (case proof of
           [] \<Rightarrow> None
         | p # ps \<Rightarrow>
             (let sib = index XOR 1 in
              if sib < n then
                merkle_climb cr (if odd index then merkle_node cr p h else merkle_node cr h p)
                  (index div 2) ((n + 1) div 2) ps
              else if \<not> hash_is_zero p then None
              else merkle_climb cr h (index div 2) ((n + 1) div 2) ps))
      else if proof = [] then Some h else None)"
  by pat_completeness auto
termination
  by (relation "measure (\<lambda>(cr, h, i, n, p). n)") auto

definition merkle_verify ::
    "crypto \<Rightarrow> hash256 \<Rightarrow> nat \<Rightarrow> nat \<Rightarrow> hash256 list \<Rightarrow> hash256 \<Rightarrow> bool" where
  "merkle_verify cr leaf index count proof root =
     (if index \<ge> count then False else merkle_climb cr leaf index count proof = Some root)"

declare merkle_root.simps [simp del] merkle_proof.simps [simp del] merkle_climb.simps [simp del]

definition compute_merkle_root :: "crypto \<Rightarrow> block \<Rightarrow> hash256" where
  "compute_merkle_root cr b = merkle_root cr (map (txid cr) (txs b))"

definition compute_witness_root :: "crypto \<Rightarrow> block \<Rightarrow> hash256" where
  "compute_witness_root cr b = merkle_root cr (map (witness_hash cr) (txs b))"

section \<open>Header and block codecs\<close>

interpretation headerc: codec write_header read_header "\<lambda>_. True"
proof
  show "read_header (write_header x @ r) = Inr (x, r)" for x r
    by (simp add: read_header_def write_header_def codec_simps)
  show "True \<and> r = write_header x @ r'" if "read_header r = Inr (x, r')" for r x r'
    using that by (auto simp: read_header_def write_header_def codec_iff)
qed

lemma length_write_header: "length (write_header h) = HEADER_SIZE"
  by (simp add: write_header_def w_u32le_def w_u64le_def w_hash_def HEADER_SIZE_def)

definition block_ok :: "block \<Rightarrow> bool" where
  "block_ok b \<longleftrightarrow> list_all (\<lambda>t. core_ok t \<and> witness_ok t) (txs b) \<and> length (txs b) \<le> MAX_BLOCK_SIZE div 40"

interpretation coresc: codec "w_counted write_core" "r_counted mx read_core"
    "\<lambda>xs. list_all (\<lambda>t. core_ok t \<and> wits t = []) xs \<and> length xs \<le> unat mx" for mx
  by (rule corec.counted_codec)

lemma read_witness_wr:
  "witness_ok t \<Longrightarrow> wits t0 = [] \<Longrightarrow> t0 = t\<lparr>wits := []\<rparr> \<Longrightarrow> read_witness t0 (write_witness t @ r) = Inr (t, r)"
  by (simp add: read_witness_def write_witness_def witness_ok_def codec_simps)

lemma read_witness_exact:
  "read_witness t0 r = Inr (t, r') \<Longrightarrow>
     witness_ok t \<and> t\<lparr>wits := wits t0\<rparr> = t0 \<and> r = write_witness t @ r'"
  by (auto simp: read_witness_def write_witness_def witness_ok_def codec_iff)

lemma read_witnesses_wr:
  "list_all witness_ok ts \<Longrightarrow>
     read_witnesses (map (\<lambda>t. t\<lparr>wits := []\<rparr>) ts) (concat (map write_witness ts) @ r) = Inr (ts, r)"
  by (induction ts) (simp_all add: read_witness_wr)

lemma read_witnesses_exact:
  "read_witnesses ts0 r = Inr (ts, r') \<Longrightarrow> list_all (\<lambda>t. wits t = []) ts0 \<Longrightarrow>
     list_all witness_ok ts \<and> ts0 = map (\<lambda>t. t\<lparr>wits := []\<rparr>) ts \<and> r = concat (map write_witness ts) @ r'"
proof (induction ts0 arbitrary: r ts)
  case (Cons t0 ts0)
  then obtain t r1 us where t: "read_witness t0 r = Inr (t, r1)"
    and us: "read_witnesses ts0 r1 = Inr (us, r')" and "ts = t # us"
    by (auto simp: rbind_eq_Inr)
  with Cons.IH [OF us] Cons.prems(2) read_witness_exact [OF t] show ?case by simp
qed simp

lemma write_counted_core_wits [simp]:
  "w_counted write_core (map (\<lambda>t. t\<lparr>wits := []\<rparr>) ts) = w_counted write_core ts"
  by (simp add: w_counted_def comp_def)

lemma unat_max_txs: "unat (of_nat (MAX_BLOCK_SIZE div 40) :: u64) = MAX_BLOCK_SIZE div 40"
  by (simp add: MAX_BLOCK_SIZE_def)

interpretation blockc: codec block_full_bytes read_block_full block_ok
proof
  show "read_block_full (block_full_bytes b @ r) = Inr (b, r)" if "block_ok b" for b r
  proof -
    let ?c = "map (\<lambda>t. t\<lparr>wits := []\<rparr>) (txs b)"
    have "list_all (\<lambda>t. core_ok t \<and> wits t = []) ?c" and w: "list_all witness_ok (txs b)"
      using that by (auto simp: block_ok_def list_all_iff)
    then have "r_counted (of_nat (MAX_BLOCK_SIZE div 40)) read_core
        (w_counted write_core (txs b) @ block_witness_bytes b @ r) = Inr (?c, block_witness_bytes b @ r)"
      using coresc.rd_wr [of ?c "of_nat (MAX_BLOCK_SIZE div 40)" "block_witness_bytes b @ r"] that
      by (simp add: block_ok_def unat_max_txs)
    then show ?thesis
      using read_witnesses_wr [OF w]
      by (simp add: read_block_full_def read_block_core_def read_block_witness_def block_full_bytes_def
          block_core_bytes_def block_witness_bytes_def headerc.rd_wr)
  qed
  show "block_ok b \<and> r = block_full_bytes b @ r'" if "read_block_full r = Inr (b, r')" for r b r'
  proof -
    from that obtain h ts0 r1 ts where r: "r = write_header h @ w_counted write_core ts0 @ r1"
      and ts0: "list_all (\<lambda>t. core_ok t \<and> wits t = []) ts0" "length ts0 \<le> MAX_BLOCK_SIZE div 40"
      and ts: "read_witnesses ts0 r1 = Inr (ts, r')" and b: "b = \<lparr>header = h, txs = ts\<rparr>"
      by (auto simp: read_block_full_def read_block_core_def read_block_witness_def rbind_eq_Inr
          headerc.rd_iff coresc.rd_iff unat_max_txs)
    from ts0(1) have "list_all (\<lambda>t. wits t = []) ts0" by (auto simp: list_all_iff)
    with read_witnesses_exact [OF ts] have e: "list_all witness_ok ts"
      "ts0 = map (\<lambda>t. t\<lparr>wits := []\<rparr>) ts" "r1 = concat (map write_witness ts) @ r'" by auto
    with ts0 have "block_ok b" by (auto simp: block_ok_def b list_all_iff)
    with e r b show ?thesis
      by (simp add: block_full_bytes_def block_core_bytes_def block_witness_bytes_def)
  qed
qed

section \<open>Merkle proofs\<close>

lemma xor_1_nat: "(i :: nat) XOR Suc 0 = (if even i then i + 1 else i - 1)"
  by (simp add: xor_Suc_0_eq)

text \<open>The parent of leaf \<open>i\<close> on the next level.\<close>

definition merkle_parent :: "crypto \<Rightarrow> hash256 list \<Rightarrow> nat \<Rightarrow> hash256" where
  "merkle_parent cr l i =
     (let sib = i XOR 1 in
      if sib < length l then
        (if odd i then merkle_node cr (l ! sib) (l ! i) else merkle_node cr (l ! i) (l ! sib))
      else l ! i)"

lemma nth_merkle_level: "i < length l \<Longrightarrow> merkle_level cr l ! (i div 2) = merkle_parent cr l i"
proof (induction cr l arbitrary: i rule: merkle_level.induct)
  case (1 cr a b l)
  show ?case
  proof (cases "i < 2")
    case True
    then have "i = 0 \<or> i = 1" by auto
    then show ?thesis by (auto simp: merkle_parent_def)
  next
    case False
    then obtain j where j: "i = j + 2" by (metis add.commute le_Suc_ex not_less)
    with "1.prems" have "j < length l" by simp
    moreover have "merkle_parent cr (a # b # l) i = merkle_parent cr l j"
      using j by (auto simp: merkle_parent_def xor_1_nat Let_def nth_Cons')
    ultimately show ?thesis using "1.IH" [of j] j by simp
  qed
qed (auto simp: merkle_parent_def xor_1_nat)

lemma merkle_climb_step:
  assumes "length l > 1" and "i < length l"
  shows "merkle_climb cr (l ! i) i (length l) ((if i XOR 1 < length l then l ! (i XOR 1) else hash_zero) # ps)
    = merkle_climb cr (merkle_level cr l ! (i div 2)) (i div 2) (length (merkle_level cr l)) ps"
  using assms
  by (subst merkle_climb.simps)
    (auto simp: nth_merkle_level merkle_parent_def length_merkle_level Let_def)

lemma merkle_climb_proof:
  "i < length l \<Longrightarrow> merkle_climb cr (l ! i) i (length l) (merkle_proof cr l i) = Some (merkle_root cr l)"
proof (induction cr l i rule: merkle_proof.induct)
  case (1 cr l i)
  show ?case
  proof (cases "length l > 1")
    case True
    have "i div 2 < length (merkle_level cr l)"
      using "1.prems" by (simp add: length_merkle_level)
    then have "merkle_climb cr (merkle_level cr l ! (i div 2)) (i div 2) (length (merkle_level cr l))
        (merkle_proof cr (merkle_level cr l) (i div 2)) = Some (merkle_root cr (merkle_level cr l))"
      using "1.IH" [OF True refl] by blast
    moreover have "merkle_root cr l = merkle_root cr (merkle_level cr l)"
      using True by (subst merkle_root.simps) auto
    moreover have "merkle_proof cr l i = (if i XOR 1 < length l then l ! (i XOR 1) else hash_zero)
        # merkle_proof cr (merkle_level cr l) (i div 2)"
      using True by (subst merkle_proof.simps) (simp add: Let_def)
    ultimately show ?thesis
      by (simp only: merkle_climb_step [OF True "1.prems"])
  next
    case False
    with "1.prems" have "length l = 1" by linarith
    with "1.prems" show ?thesis
      by (auto simp: merkle_proof.simps [of cr l 0] merkle_root.simps [of cr l] merkle_climb.simps)
  qed
qed

text \<open>
  What a proof of a wrong leaf gives away: walking up next to the honest tree, the first level where
  the two inputs of \<open>merkle_node\<close> differ and its outputs agree is a collision of the hash.
\<close>

function merkle_clash :: "crypto \<Rightarrow> hash256 \<Rightarrow> nat \<Rightarrow> hash256 list \<Rightarrow> hash256 list
    \<Rightarrow> (hash256 \<times> hash256) \<times> (hash256 \<times> hash256)" where
  "merkle_clash cr h i l pf =
     (if length l > 1 \<and> pf \<noteq> [] then
        (let sib = i XOR 1 in
         if sib < length l then
           (let c = (if odd i then (hd pf, h) else (h, hd pf));
                t = (if odd i then (l ! sib, l ! i) else (l ! i, l ! sib)) in
            if merkle_node cr (fst c) (snd c) = merkle_node cr (fst t) (snd t) then (c, t)
            else merkle_clash cr (merkle_node cr (fst c) (snd c)) (i div 2) (merkle_level cr l) (tl pf))
         else merkle_clash cr h (i div 2) (merkle_level cr l) (tl pf))
      else ((hash_zero, hash_zero), (hash_zero, hash_zero)))"
  by pat_completeness auto
termination
  by (relation "measure (\<lambda>(cr, h, i, l, p). length l)") (auto simp: length_merkle_level)

declare merkle_clash.simps [simp del]

lemma merkle_climb_clash:
  assumes "merkle_climb cr h i (length l) pf = Some (merkle_root cr l)"
    and "i < length l" and "h \<noteq> l ! i" and "merkle_clash cr h i l pf = (c, t)"
  shows "c \<noteq> t \<and> merkle_node cr (fst c) (snd c) = merkle_node cr (fst t) (snd t)"
  using assms
proof (induction cr h i l pf rule: merkle_clash.induct)
  case (1 cr h i l pf)
  show ?case
  proof (cases "length l > 1")
    case False
    with "1.prems"(2) have "length l = 1" "i = 0" by linarith+
    with "1.prems"(1,3) show ?thesis
      by (subst (asm) merkle_climb.simps, subst (asm) merkle_root.simps) (auto split: if_splits)
  next
    case True
    then obtain p ps where p: "pf = p # ps"
      using "1.prems"(1) by (subst (asm) merkle_climb.simps) (auto split: list.splits)
    have root: "merkle_root cr l = merkle_root cr (merkle_level cr l)"
      using True by (subst merkle_root.simps) auto
    have i2: "i div 2 < length (merkle_level cr l)"
      using "1.prems"(2) by (simp add: length_merkle_level)
    note lv = nth_merkle_level [OF "1.prems"(2), of cr, unfolded merkle_parent_def Let_def]
    let ?sib = "i XOR 1"
    show ?thesis
    proof (cases "?sib < length l")
      case False
      have "merkle_climb cr h (i div 2) (length (merkle_level cr l)) ps = Some (merkle_root cr (merkle_level cr l))"
        using "1.prems"(1) True False unfolding p root
        by (subst (asm) merkle_climb.simps) (auto simp: Let_def length_merkle_level split: if_splits)
      then show ?thesis
        using "1.IH"(2) [OF _ refl False] True p i2 "1.prems"(3,4) lv False
        by (simp add: merkle_clash.simps [of cr h i l "p # ps"] Let_def)
    next
      case sib: True
      define C where "C = (if odd i then (p, h) else (h, p))"
      define T where "T = (if odd i then (l ! ?sib, l ! i) else (l ! i, l ! ?sib))"
      let ?node = "\<lambda>x. merkle_node cr (fst x) (snd x)"
      have up: "merkle_climb cr (?node C) (i div 2) (length (merkle_level cr l)) ps
          = Some (merkle_root cr (merkle_level cr l))"
        using "1.prems"(1) True sib unfolding p root
        by (subst (asm) merkle_climb.simps) (auto simp: Let_def length_merkle_level C_def split: if_splits)
      have ct: "C \<noteq> T" using "1.prems"(3) by (auto simp: C_def T_def)
      have t: "merkle_level cr l ! (i div 2) = ?node T" using lv sib by (simp add: T_def)
      have cl: "merkle_clash cr h i l pf =
          (if ?node C = ?node T then (C, T)
           else merkle_clash cr (?node C) (i div 2) (merkle_level cr l) ps)"
        using True sib p
        by (subst merkle_clash.simps)
          (simp only: Let_def list.sel if_True simp_thms list.distinct C_def [symmetric] T_def [symmetric])
      show ?thesis
      proof (cases "?node C = ?node T")
        case eq: True
        then show ?thesis using cl ct "1.prems"(4) by simp
      next
        case neq: False
        then have "merkle_clash cr (?node C) (i div 2) (merkle_level cr l) ps = (c, t)"
          using cl "1.prems"(4) by simp
        moreover have g: "length l > 1 \<and> pf \<noteq> []" and "tl pf = ps" using True p by simp_all
        moreover have C: "C = (if odd i then (hd pf, h) else (h, hd pf))" by (simp add: C_def p)
        ultimately show ?thesis
          using "1.IH"(1) [OF g refl sib C T_def neq] up i2 t neq by simp
      qed
    qed
  qed
qed

end
