(* ===== verification/U256.thy ===== *)
theory U256
  imports Prelude
begin

unbundle bit_operations_syntax

text \<open>
  The 256-bit arithmetic of \<open>src/src/util/u256.h\<close> and \<open>u256.cpp\<close>: four 64-bit limbs, least
  significant first. Each loop over the limbs is a recursion over the list of limbs (from the most
  significant one where the source counts down); \<open>u256_val\<close> is the number a value stands for,
  and every operation is shown to compute the intended function on numbers, with its wrap-around.
\<close>

section \<open>Limbs\<close>

datatype u256 = U256 (w0: u64) (w1: u64) (w2: u64) (w3: u64)

definition limbs :: "u256 \<Rightarrow> u64 list" where
  "limbs u = [w0 u, w1 u, w2 u, w3 u]"

definition of_limbs :: "u64 list \<Rightarrow> u256" where
  "of_limbs l = U256 (l ! 0) (l ! 1) (l ! 2) (l ! 3)"

text \<open>\<open>U256()\<close> and \<open>U256(uint64_t v)\<close>.\<close>

definition u256_zero :: u256 where
  "u256_zero = U256 0 0 0 0"

definition u256_of :: "u64 \<Rightarrow> u256" where
  "u256_of v = U256 v 0 0 0"

definition u256_is_zero :: "u256 \<Rightarrow> bool" where
  "u256_is_zero u \<longleftrightarrow> (w0 u OR w1 u OR w2 u OR w3 u) = 0"

text \<open>\<open>__builtin_clzll\<close>: the number of zero bits above the highest set bit.\<close>

definition clz64 :: "u64 \<Rightarrow> nat" where
  "clz64 x = length (takeWhile (\<lambda>i. \<not> bit x i) (rev [0..<64]))"

primrec bits_loop :: "u64 list \<Rightarrow> nat" where
  "bits_loop [] = 0"
| "bits_loop (x # xs) = (if x \<noteq> 0 then length xs * 64 + 64 - clz64 x else bits_loop xs)"

definition u256_bits :: "u256 \<Rightarrow> nat" where
  "u256_bits u = bits_loop (rev (limbs u))"

text \<open>\<open>cmp\<close>: the first differing limb from the top decides.\<close>

fun cmp_loop :: "u64 list \<Rightarrow> u64 list \<Rightarrow> int" where
  "cmp_loop (x # xs) (y # ys) = (if x \<noteq> y then (if x < y then -1 else 1) else cmp_loop xs ys)"
| "cmp_loop _ _ = 0"

definition u256_cmp :: "u256 \<Rightarrow> u256 \<Rightarrow> int" where
  "u256_cmp a b = cmp_loop (rev (limbs a)) (rev (limbs b))"

definition u256_lt :: "u256 \<Rightarrow> u256 \<Rightarrow> bool" where "u256_lt a b \<longleftrightarrow> u256_cmp a b < 0"
definition u256_gt :: "u256 \<Rightarrow> u256 \<Rightarrow> bool" where "u256_gt a b \<longleftrightarrow> u256_cmp a b > 0"
definition u256_le :: "u256 \<Rightarrow> u256 \<Rightarrow> bool" where "u256_le a b \<longleftrightarrow> u256_cmp a b \<le> 0"
definition u256_ge :: "u256 \<Rightarrow> u256 \<Rightarrow> bool" where "u256_ge a b \<longleftrightarrow> u256_cmp a b \<ge> 0"

section \<open>Arithmetic\<close>

text \<open>\<open>c += (u128)w[i] + o.w[i]; w[i] = c; c >>= 64;\<close>\<close>

fun add_loop :: "u128 \<Rightarrow> u64 list \<Rightarrow> u64 list \<Rightarrow> u64 list" where
  "add_loop c (a # as) (b # bs) =
     (let c = c + (ucast a + ucast b) in ucast c # add_loop (drop_bit 64 c) as bs)"
| "add_loop c _ _ = []"

definition u256_add :: "u256 \<Rightarrow> u256 \<Rightarrow> u256" where
  "u256_add a b = of_limbs (add_loop 0 (limbs a) (limbs b))"

fun sub_loop :: "u64 \<Rightarrow> u64 list \<Rightarrow> u64 list \<Rightarrow> u64 list" where
  "sub_loop borrow (a # as) (b # bs) =
     (let d = a - b - borrow;
          borrow' = (if a < b \<or> a - b < borrow then 1 else 0)
      in d # sub_loop borrow' as bs)"
| "sub_loop borrow _ _ = []"

definition u256_sub :: "u256 \<Rightarrow> u256 \<Rightarrow> u256" where
  "u256_sub a b = of_limbs (sub_loop 0 (limbs a) (limbs b))"

definition u256_shl :: "u256 \<Rightarrow> nat \<Rightarrow> u256" where
  "u256_shl u s =
     (if s \<ge> 256 then u256_zero
      else
        (let l = s div 64; b = s mod 64 in
         of_limbs (map (\<lambda>i.
           if i < l then 0
           else (let src = i - l in
             push_bit b (limbs u ! src)
               OR (if b \<noteq> 0 \<and> src > 0 then drop_bit (64 - b) (limbs u ! (src - 1)) else 0)))
           [0..<4])))"

definition u256_shr :: "u256 \<Rightarrow> nat \<Rightarrow> u256" where
  "u256_shr u s =
     (if s \<ge> 256 then u256_zero
      else
        (let l = s div 64; b = s mod 64 in
         of_limbs (map (\<lambda>i.
           (let src = i + l in
            if src > 3 then 0
            else drop_bit b (limbs u ! src)
               OR (if b \<noteq> 0 \<and> src < 3 then push_bit (64 - b) (limbs u ! (src + 1)) else 0)))
           [0..<4])))"

primrec mul_loop :: "u128 \<Rightarrow> u64 \<Rightarrow> u64 list \<Rightarrow> u64 list" where
  "mul_loop c m [] = []"
| "mul_loop c m (x # xs) =
     (let c = c + ucast x * ucast m in ucast c # mul_loop (drop_bit 64 c) m xs)"

definition u256_mul64 :: "u256 \<Rightarrow> u64 \<Rightarrow> u256" where
  "u256_mul64 u m = of_limbs (mul_loop 0 m (limbs u))"

text \<open>Most significant limb first; the divisor is non-zero at every call.\<close>

primrec div_loop :: "u128 \<Rightarrow> u64 \<Rightarrow> u64 list \<Rightarrow> u64 list" where
  "div_loop rem d [] = []"
| "div_loop rem d (x # xs) =
     (let cur = push_bit 64 rem OR ucast x
      in ucast (cur div ucast d) # div_loop (cur mod ucast d) d xs)"

definition u256_div64 :: "u256 \<Rightarrow> u64 \<Rightarrow> u256" where
  "u256_div64 u d = of_limbs (rev (div_loop 0 d (rev (limbs u))))"

text \<open>\<open>w[i / 64] |= m\<close>.\<close>

definition or_limb :: "u256 \<Rightarrow> nat \<Rightarrow> u64 \<Rightarrow> u256" where
  "or_limb u k m = of_limbs ((limbs u)[k := limbs u ! k OR m])"

primrec long_div :: "nat \<Rightarrow> u256 \<Rightarrow> u256 \<Rightarrow> u256 \<Rightarrow> u256 \<Rightarrow> u256" where
  "long_div 0 a b q r = q"
| "long_div (Suc i) a b q r =
     (let r = u256_shl r 1;
          r = or_limb r 0 (drop_bit (i mod 64) (limbs a ! (i div 64)) AND 1)
      in if u256_ge r b
         then long_div i a b (or_limb q (i div 64) (push_bit (i mod 64) 1)) (u256_sub r b)
         else long_div i a b q r)"

definition u256_div :: "u256 \<Rightarrow> u256 \<Rightarrow> u256" where
  "u256_div a b = (if u256_is_zero b then u256_zero else long_div (u256_bits a) a b u256_zero u256_zero)"

definition u256_not :: "u256 \<Rightarrow> u256" where
  "u256_not u = of_limbs (map (\<lambda>x. NOT x) (limbs u))"

section \<open>Hashes, compact form and work\<close>

definition from_hash :: "hash256 \<Rightarrow> u256" where
  "from_hash h = fold (\<lambda>i r. or_limb r ((31 - i) div 8)
     (push_bit (8 * ((31 - i) mod 8)) (ucast (hash_bytes h ! i)))) [0..<32] u256_zero"

definition to_hash :: "u256 \<Rightarrow> hash256" where
  "to_hash u = hash_of (map (\<lambda>i.
     ucast (drop_bit (8 * ((31 - i) mod 8)) (limbs u ! ((31 - i) div 8)))) [0..<32])"

text \<open>The value, the \<open>negative\<close> and the \<open>overflow\<close> flag.\<close>

definition from_compact :: "u32 \<Rightarrow> u256 \<times> bool \<times> bool" where
  "from_compact bits =
     (let size = unat (drop_bit 24 bits);
          word0 = bits AND 0x007fffff;
          wd = (if size \<le> 3 then drop_bit (8 * (3 - size)) word0 else word0);
          r = (if size \<le> 3 then u256_of (ucast wd) else u256_shl (u256_of (ucast wd)) (8 * (size - 3)))
      in (r, wd \<noteq> 0 \<and> bits AND 0x00800000 \<noteq> 0,
          wd \<noteq> 0 \<and> (size > 34 \<or> wd > 0xff \<and> size > 33 \<or> wd > 0xffff \<and> size > 32)))"

definition to_compact :: "u256 \<Rightarrow> u32" where
  "to_compact u =
     (let size = (u256_bits u + 7) div 8;
          compact = (if size \<le> 3 then ucast (push_bit (8 * (3 - size)) (w0 u))
                     else ucast (w0 (u256_shr u (8 * (size - 3)))) :: u32);
          (compact, size) = (if compact AND 0x00800000 \<noteq> 0 then (drop_bit 8 compact, size + 1)
                             else (compact, size))
      in compact OR push_bit 24 (of_nat size))"

definition work_from_target :: "u256 \<Rightarrow> u256" where
  "work_from_target target =
     (let one = u256_of 1 in u256_add (u256_div (u256_not target) (u256_add target one)) one)"

section \<open>The number a limb list stands for\<close>

primrec limbs_val :: "u64 list \<Rightarrow> nat" where
  "limbs_val [] = 0"
| "limbs_val (x # xs) = unat x + 2 ^ 64 * limbs_val xs"

definition u256_val :: "u256 \<Rightarrow> nat" where
  "u256_val u = limbs_val (limbs u)"

lemma length_limbs [simp]: "length (limbs u) = 4"
  by (simp add: limbs_def)

lemma limbs_of_limbs [simp]: "length l = 4 \<Longrightarrow> limbs (of_limbs l) = l"
  by (auto simp: limbs_def of_limbs_def numeral_eq_Suc length_Suc_conv)

lemma limbs_inj: "limbs a = limbs b \<longleftrightarrow> a = b"
  by (cases a; cases b) (simp add: limbs_def)

lemma limbs_val_bound: "limbs_val xs < 2 ^ (64 * length xs)"
proof (induction xs)
  case (Cons x xs)
  then have "limbs_val xs + 1 \<le> 2 ^ (64 * length xs)" by simp
  then have "2 ^ 64 * (limbs_val xs + 1) \<le> 2 ^ 64 * 2 ^ (64 * length xs)"
    by (rule mult_le_mono2)
  then show ?case
    using unat_lt_64 [of x] by (simp add: power_add)
qed simp

lemma u256_val_bound: "u256_val u < 2 ^ 256"
  using limbs_val_bound [of "limbs u"] by (simp add: u256_val_def)

lemma limbs_val_inj: "length xs = length ys \<Longrightarrow> limbs_val xs = limbs_val ys \<Longrightarrow> xs = ys"
proof (induction xs ys rule: list_induct2)
  case (Cons x xs y ys)
  from Cons.prems have "(unat x + 2 ^ 64 * limbs_val xs) mod 2 ^ 64 = (unat y + 2 ^ 64 * limbs_val ys) mod 2 ^ 64"
    by simp
  then have "unat x = unat y" using unat_lt_64 [of x] unat_lt_64 [of y] by simp
  with Cons show ?case by (simp add: word_unat_eq_iff)
qed simp

lemma u256_val_inj: "u256_val a = u256_val b \<longleftrightarrow> a = b"
  using limbs_val_inj [of "limbs a" "limbs b"] by (auto simp: u256_val_def limbs_inj)

lemma u256_val_of_limbs: "length l = 4 \<Longrightarrow> u256_val (of_limbs l) = limbs_val l"
  by (simp add: u256_val_def)

lemma u256_val_zero [simp, u256_val]: "u256_val u256_zero = 0"
  by (simp add: u256_val_def u256_zero_def limbs_def)

lemma u256_val_of [simp, u256_val]: "u256_val (u256_of v) = unat v"
  by (simp add: u256_val_def u256_of_def limbs_def)

lemma u256_is_zero_iff [simp]: "u256_is_zero u \<longleftrightarrow> u256_val u = 0"
proof -
  have "a OR b = 0 \<longleftrightarrow> a = 0 \<and> b = 0" for a b :: u64
    by (auto simp: bit_eq_iff bit_simps)
  then show ?thesis
    by (cases u) (auto simp: u256_is_zero_def u256_val_def limbs_def unat_eq_0)
qed

text \<open>Bit \<open>n\<close> of the number is bit \<open>n mod 64\<close> of limb \<open>n div 64\<close>.\<close>

lemma bit_limbs_val:
  "bit (limbs_val xs) n \<longleftrightarrow> n div 64 < length xs \<and> bit (xs ! (n div 64)) (n mod 64)"
proof (induction xs arbitrary: n)
  case (Cons x xs)
  have low: "take_bit 64 (limbs_val (x # xs)) = unat x"
    using unat_lt_64 [of x] by (simp add: take_bit_eq_mod)
  have high: "drop_bit 64 (limbs_val (x # xs)) = limbs_val xs"
    using unat_lt_64 [of x] by (simp add: drop_bit_eq_div)
  show ?case
  proof (cases "n < 64")
    case True
    then have "bit (limbs_val (x # xs)) n \<longleftrightarrow> bit (take_bit 64 (limbs_val (x # xs))) n"
      by (simp add: bit_take_bit_iff)
    also have "\<dots> \<longleftrightarrow> bit x n" by (simp only: low) (simp add: bit_unsigned_iff)
    finally show ?thesis using True by simp
  next
    case False
    then obtain m where m: "n = 64 + m" using le_Suc_ex not_less by blast
    then have "bit (limbs_val (x # xs)) n \<longleftrightarrow> bit (drop_bit 64 (limbs_val (x # xs))) m"
      by (simp add: bit_drop_bit_eq)
    also have "\<dots> \<longleftrightarrow> bit (limbs_val xs) m" by (simp only: high)
    moreover have "(64 + m) div 64 = Suc (m div 64)" by simp
    ultimately show ?thesis using m Cons.IH [of m] by (simp del: limbs_val.simps)
  qed
qed simp

lemma bit_u256_val: "bit (u256_val u) n \<longleftrightarrow> n < 256 \<and> bit (limbs u ! (n div 64)) (n mod 64)"
  by (auto simp: u256_val_def bit_limbs_val)

section \<open>The operations compute the intended functions\<close>

text \<open>One limb of a carry chain: what is kept and what is passed on.\<close>

lemma limb_step:
  fixes s X P B :: nat
  assumes "0 < B"
  shows "s mod B + B * ((s div B + X) mod P) = (s + B * X) mod (B * P)"
  using assms by (simp add: mod_mult2_eq add.commute)

lemma limb_step_int:
  fixes d X P B :: int
  assumes "0 \<le> d" "d < B" "0 < P"
  shows "d + B * (X mod P) = (d + B * X) mod (B * P)"
  using assms by (simp add: zmod_zmult2_eq div_pos_pos_trivial)

lemma length_add_loop [simp]: "length xs = length ys \<Longrightarrow> length (add_loop c xs ys) = length xs"
  by (induction c xs ys rule: add_loop.induct) (auto simp: Let_def)

lemma add_loop_val:
  "length xs = length ys \<Longrightarrow> unat c < 2 ^ 64 \<Longrightarrow>
   limbs_val (add_loop c xs ys) = (unat c + limbs_val xs + limbs_val ys) mod 2 ^ (64 * length xs)"
proof (induction c xs ys rule: add_loop.induct)
  case (1 c a as b bs)
  define c' :: u128 where "c' = c + (ucast a + ucast b)"
  have c': "unat c' = unat c + unat a + unat b"
    using "1.prems" unat_lt_64 [of a] unat_lt_64 [of b]
    by (simp add: c'_def unat_word_ariths unat_ucast_64_128)
  have hi: "unat (drop_bit 64 c') = unat c' div 2 ^ 64"
    by (rule unat_drop_bit)
  have "unat c' div 2 ^ 64 < 2 ^ 64"
    using unat_lt_128 [of c'] by (simp add: div_less_iff_less_mult)
  with 1 hi have IH: "limbs_val (add_loop (drop_bit 64 c') as bs) =
      (unat c' div 2 ^ 64 + (limbs_val as + limbs_val bs)) mod 2 ^ (64 * length as)"
    by (simp add: c'_def add.assoc)
  have "limbs_val (add_loop c (a # as) (b # bs)) =
      unat c' mod 2 ^ 64 + 2 ^ 64 * limbs_val (add_loop (drop_bit 64 c') as bs)"
    by (simp add: Let_def c'_def [symmetric] unat_ucast_128_64)
  also have "\<dots> = (unat c' + 2 ^ 64 * (limbs_val as + limbs_val bs)) mod (2 ^ 64 * 2 ^ (64 * length as))"
    unfolding IH by (rule limb_step) simp
  finally show ?case by (simp add: c' power_add algebra_simps)
qed auto

theorem u256_val_add [u256_val]: "u256_val (u256_add a b) = (u256_val a + u256_val b) mod 2 ^ 256"
  using add_loop_val [of "limbs a" "limbs b" 0]
  by (simp add: u256_add_def u256_val_def)

lemma length_mul_loop [simp]: "length (mul_loop c m xs) = length xs"
  by (induction xs arbitrary: c) (auto simp: Let_def)

lemma mul_loop_val:
  "unat c < 2 ^ 64 \<Longrightarrow>
   limbs_val (mul_loop c m xs) = (unat c + limbs_val xs * unat m) mod 2 ^ (64 * length xs)"
proof (induction xs arbitrary: c)
  case (Cons x xs)
  define c' :: u128 where "c' = c + ucast x * ucast m"
  have "unat x * unat m \<le> (2 ^ 64 - 1) * (2 ^ 64 - 1)"
    using unat_lt_64 [of x] unat_lt_64 [of m] by (intro mult_le_mono) auto
  then have c': "unat c' = unat c + unat x * unat m"
    using Cons.prems by (simp add: c'_def unat_word_ariths unat_ucast_64_128)
  have hi: "unat (drop_bit 64 c') = unat c' div 2 ^ 64"
    by (rule unat_drop_bit)
  have "unat c' div 2 ^ 64 < 2 ^ 64"
    using unat_lt_128 [of c'] by (simp add: div_less_iff_less_mult)
  with Cons.IH [of "drop_bit 64 c'"] hi
  have IH: "limbs_val (mul_loop (drop_bit 64 c') m xs) =
      (unat c' div 2 ^ 64 + limbs_val xs * unat m) mod 2 ^ (64 * length xs)"
    by simp
  have "limbs_val (mul_loop c m (x # xs)) =
      unat c' mod 2 ^ 64 + 2 ^ 64 * limbs_val (mul_loop (drop_bit 64 c') m xs)"
    by (simp add: Let_def c'_def [symmetric] unat_ucast_128_64)
  also have "\<dots> = (unat c' + 2 ^ 64 * (limbs_val xs * unat m)) mod (2 ^ 64 * 2 ^ (64 * length xs))"
    unfolding IH by (rule limb_step) simp
  finally show ?case by (simp add: c' power_add algebra_simps)
qed simp

theorem u256_val_mul64 [u256_val]: "u256_val (u256_mul64 a m) = (u256_val a * unat m) mod 2 ^ 256"
  using mul_loop_val [of 0 m "limbs a"]
  by (simp add: u256_mul64_def u256_val_def)

lemma length_sub_loop [simp]: "length xs = length ys \<Longrightarrow> length (sub_loop c xs ys) = length xs"
  by (induction c xs ys rule: sub_loop.induct) (auto simp: Let_def)

lemma sub_limb:
  fixes a b c :: u64
  assumes "c = 0 \<or> c = 1"
  shows "int (unat (a - b - c)) =
    int (unat a) - int (unat b) - int (unat c) + 2 ^ 64 * (if a < b \<or> a - b < c then 1 else 0)"
  using assms unat_lt_64 [of a] unat_lt_64 [of b]
  by (auto simp: unat_sub_if' word_less_nat_alt split: if_splits)

lemma sub_loop_val:
  "length xs = length ys \<Longrightarrow> c = 0 \<or> c = 1 \<Longrightarrow>
   int (limbs_val (sub_loop c xs ys)) =
     (int (limbs_val xs) - int (limbs_val ys) - int (unat c)) mod 2 ^ (64 * length xs)"
proof (induction c xs ys rule: sub_loop.induct)
  case (1 c a as b bs)
  define c' :: u64 where "c' = (if a < b \<or> a - b < c then 1 else 0)"
  define X where "X = int (limbs_val as) - int (limbs_val bs) - int (unat c')"
  have IH: "int (limbs_val (sub_loop c' as bs)) = X mod 2 ^ (64 * length as)"
    using 1 by (simp add: c'_def X_def)
  have d: "int (unat (a - b - c)) = int (unat a) - int (unat b) - int (unat c) + 2 ^ 64 * int (unat c')"
    using sub_limb [OF "1.prems"(2), of a b] by (simp add: c'_def)
  have "int (limbs_val (sub_loop c (a # as) (b # bs))) =
      int (unat (a - b - c)) + 2 ^ 64 * int (limbs_val (sub_loop c' as bs))"
    by (simp add: Let_def c'_def)
  also have "\<dots> = (int (unat (a - b - c)) + 2 ^ 64 * X) mod (2 ^ 64 * 2 ^ (64 * length as))"
    unfolding IH by (intro limb_step_int) (use uint_lt2p [of "a - b - c"] in simp_all)
  also have "int (unat (a - b - c)) + 2 ^ 64 * X =
      int (limbs_val (a # as)) - int (limbs_val (b # bs)) - int (unat c)"
    unfolding d X_def by (simp add: algebra_simps)
  finally show ?case by (simp add: power_add)
qed auto

theorem u256_val_sub:
  "int (u256_val (u256_sub a b)) = (int (u256_val a) - int (u256_val b)) mod 2 ^ 256"
  using sub_loop_val [of "limbs a" "limbs b" 0]
  by (simp add: u256_sub_def u256_val_def)

lemma u256_val_sub_le [u256_val]:
  "u256_val b \<le> u256_val a \<Longrightarrow> u256_val (u256_sub a b) = u256_val a - u256_val b"
  using u256_val_sub [of a b] u256_val_bound [of a] by (simp add: of_nat_diff)

lemma limbs_val_snoc: "limbs_val (xs @ [y]) = limbs_val xs + 2 ^ (64 * length xs) * unat y"
  by (induction xs) (simp_all add: power_add algebra_simps)

lemma length_div_loop [simp]: "length (div_loop r d xs) = length xs"
  by (induction xs arbitrary: r) (auto simp: Let_def)

lemma div_loop_cur:
  fixes r :: u128 and x :: u64
  assumes "unat r < 2 ^ 64"
  shows "unat (push_bit 64 r OR ucast x) = unat r * 2 ^ 64 + unat x"
proof -
  have "push_bit 64 r OR ucast x = push_bit 64 r + ucast x"
    by (rule disjunctive_add [symmetric]) (auto simp: bit_simps dest: bit_imp_le_length)
  moreover have "unat (push_bit 64 r) = unat r * 2 ^ 64"
    using assms by (simp add: push_bit_eq_mult unat_word_ariths)
  ultimately show ?thesis
    using assms unat_lt_64 [of x] by (simp add: unat_word_ariths unat_ucast_64_128)
qed

lemma div_step:
  fixes c P V d :: nat
  shows "(c * P + V) div d = c div d * P + (c mod d * P + V) div d"
proof (cases "d = 0")
  case False
  have "c * P + V = d * (c div d * P) + (c mod d * P + V)"
    by (metis (no_types) add.assoc distrib_right mult.assoc mult_div_mod_eq)
  with False show ?thesis by (simp only: div_mult_self4 not_False_eq_True)
qed simp

lemma div_loop_val:
  "unat r < unat d \<Longrightarrow>
   limbs_val (rev (div_loop r d xs)) = (unat r * 2 ^ (64 * length xs) + limbs_val (rev xs)) div unat d"
proof (induction xs arbitrary: r)
  case (Cons x xs)
  define P :: nat where "P = 2 ^ (64 * length xs)"
  define cur :: u128 where "cur = push_bit 64 r OR ucast x"
  have cur: "unat cur = unat r * 2 ^ 64 + unat x"
    using Cons.prems unat_lt_64 [of d] by (simp only: cur_def) (rule div_loop_cur, simp)
  have "unat r * 2 ^ 64 + unat x < (unat r + 1) * 2 ^ 64" using unat_lt_64 [of x] by simp
  also have "\<dots> \<le> unat d * 2 ^ 64" using Cons.prems by (intro mult_le_mono1) simp
  finally have "unat cur div unat d < 2 ^ 64"
    using Cons.prems by (simp add: cur div_less_iff_less_mult mult.commute)
  then have q: "unat (ucast (cur div ucast d) :: u64) = unat cur div unat d"
    by (simp add: unat_ucast_128_64 unat_div unat_ucast_64_128)
  have m: "unat (cur mod ucast d) = unat cur mod unat d"
    by (simp add: unat_mod unat_ucast_64_128)
  have IH: "limbs_val (rev (div_loop (cur mod ucast d) d xs)) =
      (unat cur mod unat d * P + limbs_val (rev xs)) div unat d"
    using Cons.IH [of "cur mod ucast d"] Cons.prems m by (simp add: P_def)
  have "limbs_val (rev (div_loop r d (x # xs))) =
      limbs_val (rev (div_loop (cur mod ucast d) d xs)) + P * (unat cur div unat d)"
    by (simp add: Let_def cur_def [symmetric] limbs_val_snoc q P_def)
  also have "\<dots> = (unat cur * P + limbs_val (rev xs)) div unat d"
    unfolding IH by (subst div_step [of "unat cur"]) (simp add: mult.commute)
  also have "unat cur * P + limbs_val (rev xs) =
      unat r * 2 ^ (64 * length (x # xs)) + limbs_val (rev (x # xs))"
    by (simp add: cur P_def limbs_val_snoc power_add algebra_simps)
  finally show ?case .
qed simp

theorem u256_val_div64 [u256_val]: "d \<noteq> 0 \<Longrightarrow> u256_val (u256_div64 a d) = u256_val a div unat d"
  using div_loop_val [of 0 d "rev (limbs a)"]
  by (simp add: u256_div64_def u256_val_def unat_gt_0)

lemma cmp_loop_val:
  "length xs = length ys \<Longrightarrow>
   cmp_loop xs ys = sgn (int (limbs_val (rev xs)) - int (limbs_val (rev ys)))"
proof (induction xs ys rule: list_induct2)
  case (Cons x xs y ys)
  define P :: nat where "P = 2 ^ (64 * length xs)"
  have b: "limbs_val (rev xs) < P" "limbs_val (rev ys) < P"
    using limbs_val_bound [of "rev xs"] limbs_val_bound [of "rev ys"] Cons.hyps by (simp_all add: P_def)
  have lt: "limbs_val (rev us) + P * i < limbs_val (rev vs) + P * j"
    if "limbs_val (rev us) < P" "i < j" for us vs i j
  proof -
    have "P * (i + 1) \<le> P * j" using that by (intro mult_le_mono2) simp
    with that show ?thesis by simp
  qed
  show ?case
  proof (cases "x = y")
    case True
    with Cons show ?thesis by (simp add: limbs_val_snoc)
  next
    case False
    then consider "unat x < unat y" | "unat y < unat x" by (meson linorder_neqE_nat word_unat_eq_iff)
    then show ?thesis
    proof cases
      case 1
      with lt [OF b(1) 1, of ys] have "limbs_val (rev (x # xs)) < limbs_val (rev (y # ys))"
        using Cons.hyps by (simp add: limbs_val_snoc P_def)
      with 1 show ?thesis by (auto simp: word_less_nat_alt sgn_if simp del: rev.simps)
    next
      case 2
      with lt [OF b(2) 2, of xs] have "limbs_val (rev (y # ys)) < limbs_val (rev (x # xs))"
        using Cons.hyps by (simp add: limbs_val_snoc P_def)
      with 2 show ?thesis by (auto simp: word_less_nat_alt sgn_if simp del: rev.simps)
    qed
  qed
qed simp

theorem u256_cmp_val: "u256_cmp a b = sgn (int (u256_val a) - int (u256_val b))"
  by (simp add: u256_cmp_def cmp_loop_val u256_val_def)

lemma u256_order [simp, u256_val]:
  "u256_lt a b \<longleftrightarrow> u256_val a < u256_val b"
  "u256_gt a b \<longleftrightarrow> u256_val b < u256_val a"
  "u256_le a b \<longleftrightarrow> u256_val a \<le> u256_val b"
  "u256_ge a b \<longleftrightarrow> u256_val b \<le> u256_val a"
  by (auto simp: u256_lt_def u256_gt_def u256_le_def u256_ge_def u256_cmp_val sgn_if)

text \<open>The shifts and the bitwise operations, bit by bit.\<close>

lemma limbs_shl:
  assumes "s < 256" "i < 4"
  shows "limbs (u256_shl u s) ! i =
    (if i < s div 64 then 0
     else push_bit (s mod 64) (limbs u ! (i - s div 64))
       OR (if s mod 64 \<noteq> 0 \<and> i - s div 64 > 0
           then drop_bit (64 - s mod 64) (limbs u ! (i - s div 64 - 1)) else 0))"
  using assms by (simp add: u256_shl_def Let_def)

lemma limbs_shr:
  assumes "s < 256" "i < 4"
  shows "limbs (u256_shr u s) ! i =
    (if i + s div 64 > 3 then 0
     else drop_bit (s mod 64) (limbs u ! (i + s div 64))
       OR (if s mod 64 \<noteq> 0 \<and> i + s div 64 < 3
           then push_bit (64 - s mod 64) (limbs u ! (i + s div 64 + 1)) else 0))"
  using assms by (simp add: u256_shr_def Let_def)

lemma split_64: obtains i j where "n = 64 * i + j" "j < (64::nat)"
  by (metis mod_less_divisor mult_div_mod_eq zero_less_numeral)

lemma bit_u256_split: "j < 64 \<Longrightarrow> bit (u256_val u) (64 * i + j) \<longleftrightarrow> i < 4 \<and> bit (limbs u ! i) j"
  by (auto simp: bit_u256_val)

lemma bit_shl: "bit (u256_val (u256_shl u s)) n \<longleftrightarrow> n < 256 \<and> s \<le> n \<and> bit (u256_val u) (n - s)"
proof (cases "s < 256 \<and> n < 256")
  case True
  obtain i j where n: "n = 64 * i + j" and j: "j < 64" by (rule split_64)
  obtain l b where s: "s = 64 * l + b" and b: "b < 64" by (rule split_64)
  have i: "i < 4" "l < 4" "s < 256" using True n s by auto
  note lim = limbs_shl [OF i(3,1), of u]
  have sd: "s div 64 = l" "s mod 64 = b" using b by (simp_all add: s)
  consider "n < s" "i < l" | "n < s" "i = l" "j < b"
    | "l \<le> i" "b \<le> j" "n - s = 64 * (i - l) + (j - b)"
    | "l < i" "j < b" "n - s = 64 * (i - l - 1) + (64 + j - b)"
  proof (cases "i < l \<or> i = l \<and> j < b")
    case True
    then have "n < s" using j by (auto simp: n s)
    with True that show ?thesis by blast
  next
    case False
    then consider "l \<le> i" "b \<le> j" | "l < i" "j < b" by linarith
    then show ?thesis
    proof cases
      case 2
      then obtain k where "i = l + 1 + k" using less_iff_Suc_add by auto
      then have "n - s = 64 * (i - l - 1) + (64 + j - b)" using b by (simp add: n s)
      with 2 that(4) show ?thesis by blast
    qed (use that in \<open>auto simp: n s\<close>)
  qed
  then show ?thesis
  proof cases
    case 1
    then show ?thesis using i j by (simp add: n bit_u256_split lim sd)
  next
    case 2
    then have "\<not> bit (limbs (u256_shl u s) ! i) j" using b by (subst lim) (simp add: sd bit_simps)
    with 2 j show ?thesis by (simp add: n bit_u256_split)
  next
    case 3
    then have "s \<le> n" by (simp add: n s)
    moreover have "bit (u256_val u) (n - s) \<longleftrightarrow> bit (limbs u ! (i - l)) (j - b)"
      using 3 i j by (simp only: 3(3)) (subst bit_u256_split, auto)
    ultimately show ?thesis using 3 i j b True
      by (subst n, subst bit_u256_split)
        (auto simp: lim sd bit_simps not_less dest: bit_imp_le_length)
  next
    case 4
    then have "s \<le> n" using b by (simp add: n s)
    moreover have "bit (u256_val u) (n - s) \<longleftrightarrow> bit (limbs u ! (i - l - 1)) (64 + j - b)"
      using 4 i j b by (simp only: 4(3)) (subst bit_u256_split, auto)
    ultimately show ?thesis using 4 i j b True
      by (subst n, subst bit_u256_split) (auto simp: lim sd bit_simps)
  qed
qed (auto simp: bit_u256_val u256_shl_def u256_zero_def limbs_def nth_Cons split: nat.split)

lemma bit_shr: "bit (u256_val (u256_shr u s)) n \<longleftrightarrow> bit (u256_val u) (n + s)"
proof (cases "s < 256 \<and> n < 256")
  case True
  obtain i j where n: "n = 64 * i + j" and j: "j < 64" by (rule split_64)
  obtain l b where s: "s = 64 * l + b" and b: "b < 64" by (rule split_64)
  have i: "i < 4" "l < 4" "s < 256" using True n s by auto
  note lim = limbs_shr [OF i(3,1), of u]
  have sd: "s div 64 = l" "s mod 64 = b" using b by (simp_all add: s)
  show ?thesis
  proof (cases "j + b < 64")
    case fits: True
    have "n + s = 64 * (i + l) + (j + b)" by (simp add: n s)
    then have "bit (u256_val u) (n + s) \<longleftrightarrow> i + l < 4 \<and> bit (limbs u ! (i + l)) (j + b)"
      using fits by (simp only:) (subst bit_u256_split, auto)
    then show ?thesis using fits i j b
      by (subst n, subst bit_u256_split) (auto simp: lim sd bit_simps add.commute)
  next
    case False
    have "n + s = 64 * (i + l + 1) + (j + b - 64)" using False by (simp add: n s)
    then have "bit (u256_val u) (n + s) \<longleftrightarrow> i + l + 1 < 4 \<and> bit (limbs u ! (i + l + 1)) (j + b - 64)"
      using False j b by (simp only:) (subst bit_u256_split, auto)
    then show ?thesis using False i j b
      by (subst n, subst bit_u256_split)
        (auto simp: lim sd bit_simps add.commute dest: bit_imp_le_length)
  qed
qed (auto simp: bit_u256_val u256_shr_def u256_zero_def limbs_def nth_Cons split: nat.split)

theorem u256_val_shl [u256_val]: "u256_val (u256_shl u s) = (u256_val u * 2 ^ s) mod 2 ^ 256"
  by (simp only: take_bit_eq_mod [symmetric] push_bit_eq_mult [symmetric])
    (auto simp: bit_eq_iff bit_shl bit_take_bit_iff bit_push_bit_iff_nat)

theorem u256_val_shr [u256_val]: "u256_val (u256_shr u s) = u256_val u div 2 ^ s"
  by (simp only: drop_bit_eq_div [symmetric])
    (auto simp: bit_eq_iff bit_shr bit_drop_bit_eq add.commute)

lemma bit_or_limb:
  "k < 4 \<Longrightarrow> bit (u256_val (or_limb u k m)) n \<longleftrightarrow>
     bit (u256_val u) n \<or> n div 64 = k \<and> bit m (n mod 64)"
  by (auto simp: bit_u256_val or_limb_def nth_list_update bit_simps)

lemma u256_val_or_limb: "k < 4 \<Longrightarrow> u256_val (or_limb u k m) = u256_val u OR push_bit (64 * k) (unat m)"
proof (rule bit_eqI)
  fix n :: nat
  assume k: "k < 4"
  obtain i j where n: "n = 64 * i + j" and j: "j < 64" by (rule split_64)
  have d: "n div 64 = i" "n mod 64 = j" using j by (simp_all add: n)
  have "bit (push_bit (64 * k) (unat m)) n \<longleftrightarrow> i = k \<and> bit m j"
  proof (cases "i < k")
    case True
    then have "n < 64 * k" using j by (simp add: n)
    with True show ?thesis by (simp add: bit_push_bit_iff_nat)
  next
    case False
    then have le: "64 * k \<le> n" and diff: "n - 64 * k = 64 * (i - k) + j"
      by (auto simp: n algebra_simps)
    have "bit m (64 * (i - k) + j) \<longleftrightarrow> i = k \<and> bit m j"
      using False bit_imp_le_length [of m "64 * (i - k) + j"] by (cases "i = k") auto
    with le show ?thesis by (simp add: bit_push_bit_iff_nat bit_unsigned_iff diff)
  qed
  with k show "bit (u256_val (or_limb u k m)) n = bit (u256_val u OR push_bit (64 * k) (unat m)) n"
    by (simp add: bit_or_limb d bit_or_iff)
qed

lemma u256_val_not [u256_val]: "u256_val (u256_not u) = 2 ^ 256 - 1 - u256_val u"
proof -
  have "limbs_val (map (\<lambda>x. NOT x) xs) + limbs_val xs = 2 ^ (64 * length xs) - 1" for xs
  proof (induction xs)
    case (Cons x xs)
    have "unat (NOT x) + unat x = 2 ^ 64 - 1"
    proof -
      have "NOT x = - 1 - x" by (simp add: not_eq_complement)
      moreover have "unat (- 1 :: u64) = 2 ^ 64 - 1" by (simp add: unsigned_minus_1_eq_mask mask_eq_exp_minus_1)
      ultimately show ?thesis using unat_lt_64 [of x] unat_sub [of x "- 1"] by (simp add: word_le_nat_alt)
    qed
    moreover obtain Q :: nat where Q: "2 ^ (64 * length xs) = Suc Q"
      by (metis not0_implies_Suc power_not_zero zero_neq_numeral)
    moreover have "limbs_val (map (\<lambda>x. NOT x) (x # xs)) + limbs_val (x # xs) =
        (unat (NOT x) + unat x) + 2 ^ 64 * (limbs_val (map (\<lambda>x. NOT x) xs) + limbs_val xs)" by simp
    ultimately show ?case unfolding Cons.IH by (simp only: power_add length_Cons mult_Suc_right Q) simp
  qed simp
  from this [of "limbs u"] show ?thesis by (simp add: u256_not_def u256_val_def)
qed

text \<open>\<open>bits()\<close> is the position of the highest set bit.\<close>

lemma clz64_bounds:
  assumes "x \<noteq> 0"
  shows "clz64 x < 64" "unat x < 2 ^ (64 - clz64 x)" "2 ^ (63 - clz64 x) \<le> unat x"
proof -
  define tw where "tw = takeWhile (\<lambda>i. \<not> bit x i) (rev [0..<64])"
  have k: "clz64 x = length tw" by (simp add: clz64_def tw_def)
  obtain p where "bit x p" using assms by (auto simp: bit_eq_iff)
  then have "p < 64" using bit_imp_le_length [of x p] by simp
  with \<open>bit x p\<close> have "\<exists>i\<in>set (rev [0..<64]). bit x i" by auto
  then have "length tw < length (rev [0..<64])"
    unfolding tw_def
    by (metis (no_types, lifting) length_append length_greater_0_conv less_add_same_cancel1
        dropWhile_eq_Nil_conv takeWhile_dropWhile_id)
  then show lt: "clz64 x < 64" by (simp add: k)
  have "bit x (rev [0..<64] ! length tw)"
    using nth_length_takeWhile [of "\<lambda>i. \<not> bit x i" "rev [0..<64]"] lt by (simp add: tw_def [symmetric] k)
  then have top: "bit x (63 - clz64 x)" using lt by (simp add: rev_nth k)
  have above: "\<not> bit x n" if "64 - clz64 x \<le> n" for n
  proof (cases "n < 64")
    case True
    then have "tw ! (63 - n) = rev [0..<64] ! (63 - n)" "63 - n < length tw"
      using that lt by (auto simp: tw_def k intro!: takeWhile_nth)
    moreover have "rev [0..<64] ! (63 - n) = n" using True by (simp add: rev_nth)
    ultimately have "n \<in> set tw" by (metis nth_mem)
    then show ?thesis by (auto simp: tw_def dest: set_takeWhileD)
  qed (auto dest: bit_imp_le_length)
  have "take_bit (64 - clz64 x) (unat x) = unat x"
    using above by (auto simp: bit_eq_iff bit_take_bit_iff bit_unsigned_iff) (meson not_less)
  then show "unat x < 2 ^ (64 - clz64 x)" by (metis take_bit_nat_less_exp)
  have "\<not> unat x < 2 ^ (63 - clz64 x)"
  proof
    assume "unat x < 2 ^ (63 - clz64 x)"
    then have "take_bit (63 - clz64 x) (unat x) = unat x" by (rule take_bit_nat_eq_self)
    moreover have "bit (unat x) (63 - clz64 x)" using top by (simp add: bit_unsigned_iff)
    ultimately show False by (metis bit_take_bit_iff less_irrefl)
  qed
  then show "2 ^ (63 - clz64 x) \<le> unat x" by simp
qed

lemma bits_loop_val:
  "limbs_val (rev xs) < 2 ^ bits_loop xs \<and> bits_loop xs \<le> 64 * length xs \<and>
   (bits_loop xs > 0 \<longrightarrow> 2 ^ (bits_loop xs - 1) \<le> limbs_val (rev xs))"
proof (induction xs)
  case (Cons x xs)
  show ?case
  proof (cases "x = 0")
    case True
    with Cons show ?thesis by (auto simp: limbs_val_snoc)
  next
    case False
    note c = clz64_bounds [OF False]
    define P :: nat where "P = 2 ^ (64 * length xs)"
    have e: "bits_loop (x # xs) = 64 * length xs + (64 - clz64 x)" using False c by simp
    have "limbs_val (rev xs) < P" using limbs_val_bound [of "rev xs"] by (simp add: P_def)
    then have "limbs_val (rev xs) + P * unat x < P * (unat x + 1)" by simp
    also have "\<dots> \<le> P * 2 ^ (64 - clz64 x)" using c by (intro mult_le_mono2) simp
    finally have up: "limbs_val (rev (x # xs)) < 2 ^ bits_loop (x # xs)"
      unfolding e power_add by (simp add: limbs_val_snoc P_def)
    have "P * 2 ^ (63 - clz64 x) \<le> P * unat x" using c by (intro mult_le_mono2)
    moreover have "64 * length xs + (64 - clz64 x) - 1 = 64 * length xs + (63 - clz64 x)" using c by simp
    ultimately have "2 ^ (bits_loop (x # xs) - 1) \<le> limbs_val (rev (x # xs))"
      unfolding e by (simp only: power_add P_def [symmetric] rev.simps limbs_val_snoc length_rev)
    with up e show ?thesis by simp
  qed
qed simp

lemma u256_bits_bounds:
  "u256_val u < 2 ^ u256_bits u" "u256_bits u \<le> 256"
  "0 < u256_bits u \<Longrightarrow> 2 ^ (u256_bits u - 1) \<le> u256_val u"
  using bits_loop_val [of "rev (limbs u)"] by (simp_all add: u256_bits_def u256_val_def)

text \<open>
  The long division keeps the quotient and the remainder of the bits it has read; the remainder
  stays below \<open>2\<^sup>2\<^sup>5\<^sup>5\<close> before each shift, so nothing is lost by it.
\<close>

lemma nat_or_add: "n AND m = 0 \<Longrightarrow> n OR m = n + (m::nat)"
  by (rule disjunctive_add_eq_or [symmetric])

lemma long_div_bit:
  "i < 256 \<Longrightarrow> unat (drop_bit (i mod 64) (limbs a ! (i div 64)) AND 1) = of_bool (bit (u256_val a) i)"
  by (simp add: bit_u256_val and_one_eq mod_2_eq_odd flip: bit_iff_odd_drop_bit)

lemma or_limb_low:
  "even (u256_val r) \<Longrightarrow> unat m \<le> 1 \<Longrightarrow> u256_val (or_limb r 0 m) = u256_val r + unat m"
  by (auto simp: u256_val_or_limb nat_or_add le_Suc_eq and_one_eq)

lemma unat_power_64: "k < 64 \<Longrightarrow> unat (2 ^ k :: u64) = 2 ^ k"
  using unat_of_nat_64 [of "2 ^ k"] power_strict_increasing [of k 64 "2::nat"] by simp

lemma or_limb_quotient:
  assumes "i < 256" "2 ^ Suc i dvd u256_val q"
  shows "u256_val (or_limb q (i div 64) (push_bit (i mod 64) 1)) = u256_val q + 2 ^ i"
proof -
  have "i div 64 < 4" using assms by simp
  moreover have "push_bit (64 * (i div 64)) (unat (push_bit (i mod 64) (1::u64))) = 2 ^ i"
  proof -
    have "unat (push_bit (i mod 64) (1::u64)) = 2 ^ (i mod 64)"
    proof -
      have "unat (2 ^ (i mod 64) :: u64) = 2 ^ (i mod 64)"
        by (rule unat_power_64) simp
      then show ?thesis by (simp add: push_bit_eq_mult)
    qed
    then show ?thesis by (simp add: push_bit_eq_mult power_add [symmetric])
  qed
  moreover have "u256_val q AND 2 ^ i = 0"
  proof -
    from assms(2) obtain k where "u256_val q = 2 ^ Suc i * k" by blast
    then have "u256_val q = push_bit (Suc i) k" by (simp add: push_bit_eq_mult)
    then have "\<not> bit (u256_val q) i" by (simp only: bit_push_bit_iff_nat) simp
    then show ?thesis by (intro bit_eqI) (auto simp: bit_and_iff bit_exp_iff)
  qed
  ultimately show ?thesis by (simp add: u256_val_or_limb nat_or_add)
qed

lemma long_div_val:
  assumes "0 < u256_val b"
  shows "i \<le> 256 \<Longrightarrow>
    u256_val q = 2 ^ i * (u256_val a div 2 ^ i div u256_val b) \<Longrightarrow>
    u256_val r = u256_val a div 2 ^ i mod u256_val b \<Longrightarrow>
    u256_val (long_div i a b q r) = u256_val a div u256_val b"
proof (induction i arbitrary: q r)
  case (Suc i)
  define A B x where "A = u256_val a div 2 ^ Suc i" and "B = u256_val b"
    and "x = (of_bool (bit (u256_val a) i) :: nat)"
  define r1 where "r1 = u256_shl r 1"
  define r2 where "r2 = or_limb r1 0 (drop_bit (i mod 64) (limbs a ! (i div 64)) AND 1)"
  have B: "0 < B" using assms by (simp add: B_def)
  have A2: "u256_val a div 2 ^ i = 2 * A + x"
  proof -
    have "u256_val a div 2 ^ i = 2 * (u256_val a div 2 ^ i div 2) + u256_val a div 2 ^ i mod 2" by simp
    moreover have "A = u256_val a div 2 ^ i div 2" by (simp add: A_def power_Suc2 div_mult2_eq del: power_Suc)
    ultimately show ?thesis by (simp only: x_def bit_iff_odd mod_2_eq_odd)
  qed
  have "A \<le> u256_val a div 2"
    unfolding A_def by (simp add: div_le_mono2 div_mult2_eq)
  then have Alt: "A < 2 ^ 255" using u256_val_bound [of a] by simp
  have r: "u256_val r = A mod B" using Suc.prems by (simp add: A_def B_def)
  then have "u256_val r < 2 ^ 255" using Alt by (metis le_less_trans mod_less_eq_dividend)
  then have r1: "u256_val r1 = 2 * (A mod B)" by (simp add: r1_def u256_val_shl r)
  have x: "x \<le> 1" by (simp add: x_def)
  have r2: "u256_val r2 = 2 * (A mod B) + x"
    using Suc.prems long_div_bit [of i a] by (simp add: r2_def or_limb_low r1 x_def)
  have q: "u256_val q = 2 ^ Suc i * (A div B)" using Suc.prems by (simp add: A_def B_def)
  have bound: "A mod B < B" using B by simp
  have dm: "2 * A + x = B * (2 * (A div B)) + (2 * (A mod B) + x)"
    using mult_div_mod_eq [of B A] by (metis add_mult_distrib2 mult.left_commute add.assoc)
  have i: "i < 256" using Suc.prems by simp
  have step: "long_div (Suc i) a b q r = (if B \<le> u256_val r2
      then long_div i a b (or_limb q (i div 64) (push_bit (i mod 64) 1)) (u256_sub r2 b)
      else long_div i a b q r2)"
    by (simp add: Let_def r1_def r2_def B_def)
  show ?case
  proof (cases "B \<le> u256_val r2")
    case True
    define q2 where "q2 = or_limb q (i div 64) (push_bit (i mod 64) 1)"
    have "(2 * A + x) div B = 2 * (A div B) + (2 * (A mod B) + x) div B" by (subst dm) (use B in simp)
    also have "(2 * (A mod B) + x) div B = 1" using True r2 bound x by (intro div_nat_eqI) auto
    finally have d: "(2 * A + x) div B = 2 * (A div B) + 1" .
    have "(2 * A + x) mod B = (2 * (A mod B) + x) mod B" by (subst dm) simp
    also have "\<dots> = 2 * (A mod B) + x - B"
      using True r2 bound x le_mod_geq [of B "2 * (A mod B) + x"] by simp
    finally have m: "(2 * A + x) mod B = u256_val r2 - B" using r2 by simp
    have "u256_val q2 = u256_val q + 2 ^ i"
      unfolding q2_def by (rule or_limb_quotient) (use i q in simp_all)
    then have "u256_val q2 = 2 ^ i * ((2 * A + x) div B)" by (simp add: d q)
    moreover have "u256_val (u256_sub r2 b) = (2 * A + x) mod B"
      using True m by (simp add: u256_val_sub_le B_def)
    ultimately have "u256_val (long_div i a b q2 (u256_sub r2 b)) = u256_val a div u256_val b"
      using Suc.IH [of q2 "u256_sub r2 b"] i by (simp add: A2 B_def)
    with True show ?thesis by (simp only: step q2_def if_True)
  next
    case False
    then have "(2 * (A mod B) + x) div B = 0" "(2 * (A mod B) + x) mod B = u256_val r2"
      using r2 by auto
    then have d: "(2 * A + x) div B = 2 * (A div B)" "(2 * A + x) mod B = u256_val r2"
      using B by (subst dm, simp)+
    then have "u256_val (long_div i a b q r2) = u256_val a div u256_val b"
      using Suc.IH [of q r2] i q by (simp add: A2 B_def)
    with False show ?thesis by (simp only: step if_False)
  qed
qed simp

theorem u256_val_div [u256_val]: "u256_val (u256_div a b) = u256_val a div u256_val b"
proof (cases "u256_val b = 0")
  case False
  then show ?thesis
    using long_div_val [of b "u256_bits a" u256_zero a u256_zero] u256_bits_bounds [of a]
    by (simp add: u256_div_def)
qed (simp add: u256_div_def)

theorem work_from_target_val:
  assumes "0 < u256_val t"
  shows "u256_val (work_from_target t) = 2 ^ 256 div (u256_val t + 1)"
proof -
  define T where "T = u256_val t"
  have T: "0 < T" "T < 2 ^ 256" using assms u256_val_bound [of t] by (simp_all add: T_def)
  show ?thesis
  proof (cases "T + 1 = 2 ^ 256")
    case True
    then have "u256_val (u256_add t (u256_of 1)) = 0" by (simp add: u256_val T_def)
    then show ?thesis using True by (simp add: work_from_target_def Let_def u256_val T_def)
  next
    case False
    then have t1: "(T + 1) mod 2 ^ 256 = T + 1" using T by simp
    have "2 ^ 256 div (T + 1) = (2 ^ 256 - 1 - T + (T + 1)) div (T + 1)" using T by simp
    also have "\<dots> = (2 ^ 256 - 1 - T) div (T + 1) + 1" by (rule div_add_self2) simp
    finally have e: "2 ^ 256 div (T + 1) = (2 ^ 256 - 1 - T) div (T + 1) + 1" .
    have "(2 ^ 256 - 1 - T) div (T + 1) + 1 < 2 ^ 256"
      unfolding e [symmetric] using T by (simp add: div_less_iff_less_mult)
    with t1 e show ?thesis
      by (simp only: work_from_target_def Let_def u256_val T_def [symmetric] unat_1 mod_less)
  qed
qed

end
