(* ===== verification/Target.thy ===== *)
theory Target
  imports U256
begin

unbundle bit_operations_syntax

text \<open>
  Hashes as numbers and the compact form of a target (\<open>U256::from_hash\<close>, \<open>to_hash\<close>,
  \<open>from_compact\<close>, \<open>to_compact\<close> of \<open>src/src/util/u256.cpp\<close>, defined in \<open>U256\<close>): a hash is read
  as a big-endian number, so that comparing hashes bytewise is comparing the numbers, and the
  compact form is a rounding down that never yields a malformed or a zero target.
\<close>

section \<open>Hashes as numbers\<close>

text \<open>The number a big-endian byte string stands for.\<close>

primrec be_val :: "bytes \<Rightarrow> nat" where
  "be_val [] = 0"
| "be_val (x # xs) = unat x * 256 ^ length xs + be_val xs"

lemma be_val_bound: "be_val xs < 256 ^ length xs"
proof (induction xs)
  case (Cons x xs)
  have "unat x * 256 ^ length xs + be_val xs < (unat x + 1) * 256 ^ length xs" using Cons by simp
  also have "\<dots> \<le> 256 * 256 ^ length xs" using unat_lt_8 [of x] by (intro mult_le_mono1) simp
  finally show ?case by simp
qed simp

lemma be_val_snoc: "be_val (xs @ [y]) = be_val xs * 256 + unat y"
  by (induction xs) (simp_all add: algebra_simps)

lemma be_val_nth: "i < length xs \<Longrightarrow> be_val xs div 256 ^ (length xs - 1 - i) mod 256 = unat (xs ! i)"
proof (induction xs arbitrary: i)
  case (Cons x xs)
  show ?case
  proof (cases i)
    case 0
    then show ?thesis using be_val_bound [of xs] unat_lt_8 [of x] by simp
  next
    case (Suc j)
    then have j: "j < length xs" using Cons.prems by simp
    define k where "k = length xs - 1 - j"
    have "length xs = k + Suc j" using j by (simp add: k_def)
    then have "unat x * 256 ^ length xs = 256 ^ k * (256 * (unat x * 256 ^ j))"
      by (simp add: power_add algebra_simps)
    then have "be_val (x # xs) div 256 ^ k = 256 * (unat x * 256 ^ j) + be_val xs div 256 ^ k"
      by (simp only: be_val.simps) simp
    then have "be_val (x # xs) div 256 ^ k mod 256 = be_val xs div 256 ^ k mod 256" by simp
    with Cons.IH [OF j] Suc show ?thesis by (simp add: k_def)
  qed
qed simp

lemma be_val_less_iff: "length xs = length ys \<Longrightarrow> be_val xs < be_val ys \<longleftrightarrow> xs < ys"
proof (induction xs ys rule: list_induct2)
  case (Cons x xs y ys)
  have lt: "unat u * 256 ^ n + be_val us < unat v * 256 ^ n + be_val vs"
    if "unat u < unat v" "length us = n" for u v :: u8 and us vs n
  proof -
    have "unat u * 256 ^ n + be_val us < (unat u + 1) * 256 ^ n" using be_val_bound [of us] that by simp
    also have "\<dots> \<le> unat v * 256 ^ n" using that by (intro mult_le_mono1) simp
    finally show ?thesis by simp
  qed
  consider "unat x < unat y" | "unat y < unat x" | "x = y"
    by (meson linorder_neqE_nat word_unat_eq_iff)
  then show ?case
  proof cases
    case 1
    with lt [OF 1, of xs "length xs" ys] Cons.hyps show ?thesis by (auto simp: word_less_nat_alt)
  next
    case 2
    with lt [OF 2, of ys "length xs" xs] Cons.hyps show ?thesis by (auto simp: word_less_nat_alt)
  next
    case 3
    with Cons show ?thesis by simp
  qed
qed simp

lemma byte_pos: "64 * (k div 8) + 8 * (k mod 8) = 8 * (k::nat)"
  using mult_div_mod_eq [of 8 k] by linarith

lemma from_hash_step:
  assumes "k < 32" "256 ^ Suc k dvd u256_val r"
  shows "u256_val (or_limb r (k div 8) (push_bit (8 * (k mod 8)) (ucast (x::u8)))) =
    u256_val r + unat x * 256 ^ k"
proof -
  have e: "(2::nat) ^ (8 * (k mod 8)) * 2 ^ (64 * (k div 8)) = 256 ^ k" "(256::nat) ^ k = 2 ^ (8 * k)"
    using power_mult [of "2::nat" 8 k]
    by (simp_all flip: power_add add: byte_pos add.commute [of "8 * (k mod 8)"])
  have "unat x * 2 ^ (8 * (k mod 8)) < 2 ^ 8 * 2 ^ (8 * (k mod 8))"
    using unat_lt_8 [of x] by simp
  also have "\<dots> = 2 ^ (8 + 8 * (k mod 8))" by (simp only: power_add)
  also have "\<dots> \<le> 2 ^ 64" by (rule power_increasing) (simp_all add: less_eq_Suc_le)
  finally have "unat (push_bit (8 * (k mod 8)) (ucast x :: u64)) = unat x * 2 ^ (8 * (k mod 8))"
    by (simp add: unat_push_bit_64)
  then have p: "push_bit (64 * (k div 8)) (unat (push_bit (8 * (k mod 8)) (ucast x :: u64))) = unat x * 256 ^ k"
    by (simp add: push_bit_eq_mult e(1) [symmetric])
  from assms(2) obtain q where "u256_val r = 256 ^ Suc k * q" by blast
  then have r: "u256_val r = push_bit (8 * Suc k) q"
    by (simp only: push_bit_eq_mult power_mult) (simp add: mult.commute)
  have "u256_val r AND push_bit (8 * k) (unat x) = 0"
    unfolding r by (intro bit_eqI)
      (auto simp: bit_and_iff bit_push_bit_iff_nat bit_unsigned_iff dest: bit_imp_le_length)
  then have "u256_val r AND unat x * 256 ^ k = 0" by (simp add: push_bit_eq_mult e(2))
  moreover have "k div 8 < 4" using assms(1) by simp
  ultimately show ?thesis by (simp add: u256_val_or_limb p nat_or_add)
qed

lemma from_hash_fold:
  assumes "length bs = 32"
  shows "n \<le> 32 \<Longrightarrow> u256_val (fold (\<lambda>i r. or_limb r ((31 - i) div 8)
     (push_bit (8 * ((31 - i) mod 8)) (ucast (bs ! i)))) [0..<n] u256_zero) = be_val (take n bs) * 256 ^ (32 - n)"
proof (induction n)
  case (Suc n)
  then have k: "31 - n < 32" "32 - n = Suc (31 - n)" by auto
  have "256 ^ Suc (31 - n) dvd be_val (take n bs) * 256 ^ (32 - n)" using k by simp
  then show ?case
    using Suc assms k from_hash_step [OF k(1)]
    by (simp add: take_Suc_conv_app_nth be_val_snoc algebra_simps)
qed simp

theorem from_hash_val: "u256_val (from_hash h) = be_val (hash_bytes h)"
  using from_hash_fold [of "hash_bytes h" 32] by (simp add: from_hash_def)

theorem from_hash_le_iff: "u256_le (from_hash a) (from_hash b) \<longleftrightarrow> a \<le> b"
  using be_val_less_iff [of "hash_bytes b" "hash_bytes a"]
  by (simp add: from_hash_val less_eq_hash256_def not_less [symmetric])

lemma to_hash_nth:
  assumes "i < 32"
  shows "unat (hash_bytes (to_hash u) ! i) = u256_val u div 256 ^ (31 - i) mod 256"
proof -
  define k where "k = 31 - i"
  have "take_bit 8 (drop_bit (8 * k) (u256_val u)) =
      unat (ucast (drop_bit (8 * (k mod 8)) (limbs u ! (k div 8))) :: u8)"
  proof (rule bit_eqI)
    fix n
    have "8 * k + n = 64 * (k div 8) + (8 * (k mod 8) + n)"
      using byte_pos [of k] by linarith
    moreover have "8 * (k mod 8) + n < 64" if "n < 8" using that by (simp add: less_eq_Suc_le)
    moreover have "k div 8 < 4" by (simp add: k_def)
    ultimately show "bit (take_bit 8 (drop_bit (8 * k) (u256_val u))) n \<longleftrightarrow>
        bit (unat (ucast (drop_bit (8 * (k mod 8)) (limbs u ! (k div 8))) :: u8)) n"
      by (auto simp only: bit_take_bit_iff bit_drop_bit_eq bit_unat bit_unsigned_iff bit_u256_split)
        (simp_all add: bit_u256_split add.assoc)
  qed
  moreover have "take_bit 8 (drop_bit (8 * k) (u256_val u)) = u256_val u div 256 ^ k mod 256"
    by (simp add: take_bit_eq_mod drop_bit_eq_div power_mult)
  moreover have "hash_bytes (to_hash u) ! i = ucast (drop_bit (8 * (k mod 8)) (limbs u ! (k div 8)))"
    using assms by (simp add: to_hash_def k_def)
  ultimately show ?thesis by (simp add: k_def)
qed

theorem to_hash_from_hash: "to_hash (from_hash h) = h"
proof -
  have "hash_bytes (to_hash (from_hash h)) ! i = hash_bytes h ! i" if "i < 32" for i
    using that be_val_nth [of i "hash_bytes h"] by (simp add: word_unat_eq_iff to_hash_nth from_hash_val)
  then have "hash_bytes (to_hash (from_hash h)) = hash_bytes h" by (intro nth_equalityI) auto
  then show ?thesis by (simp add: hash_bytes_eq_iff)
qed

theorem from_hash_to_hash: "from_hash (to_hash u) = u"
proof -
  have "n \<le> 32 \<Longrightarrow> be_val (take n (hash_bytes (to_hash u))) = u256_val u div 256 ^ (32 - n)" for n
  proof (induction n)
    case 0
    then show ?case using u256_val_bound [of u] by simp
  next
    case (Suc n)
    define v where "v = u256_val u div 256 ^ (31 - n)"
    have "32 - n = Suc (31 - n)" using Suc by simp
    then have "u256_val u div 256 ^ (32 - n) = v div 256"
      by (simp add: v_def power_Suc2 div_mult2_eq del: power_Suc)
    with Suc show ?case
      by (simp add: take_Suc_conv_app_nth be_val_snoc to_hash_nth v_def [symmetric])
  qed
  from this [of 32] have "u256_val (from_hash (to_hash u)) = u256_val u" by (simp add: from_hash_val)
  then show ?thesis by (simp add: u256_val_inj)
qed

section \<open>The compact form\<close>

lemma pow2_split: "a + b = c \<Longrightarrow> 2 ^ a * 2 ^ b = (2::nat) ^ c"
  by (auto simp: power_add)

lemma u32_mask23: "(x :: u32) AND 0x007fffff = take_bit 23 x"
  by (simp add: take_bit_eq_mask mask_eq_exp_minus_1)

lemma u32_bit23: "(x :: u32) AND 0x00800000 \<noteq> 0 \<longleftrightarrow> bit x 23"
proof -
  have "(0x00800000 :: u32) = 2 ^ 23" by simp
  then show ?thesis by (simp only: bit_iff_and_push_bit_not_eq_0 push_bit_eq_mult mult_1) 
qed

lemma unat_lt_bit23: "unat (x :: u32) < 2 ^ 24 \<Longrightarrow> \<not> bit x 23 \<longleftrightarrow> unat x < 2 ^ 23"
proof -
  assume "unat x < 2 ^ 24"
  moreover have "bit x 23 \<longleftrightarrow> odd (unat x div 2 ^ 23)"
    by (metis bit_iff_odd bit_unat)
  moreover have "unat x div 2 ^ 23 < 2" if "unat x < 2 ^ 24" using that by (simp add: div_less_iff_less_mult)
  ultimately show ?thesis by (auto simp: less_2_cases_iff div_eq_0_iff)
qed

text \<open>Reading back a compact value made of a 23-bit mantissa and a one-byte exponent.\<close>

lemma from_compact_pack:
  assumes "unat (m :: u32) < 2 ^ 23" "sz < 256"
  shows "from_compact (m OR push_bit 24 (of_nat sz)) =
    (let wd = (if sz \<le> 3 then drop_bit (8 * (3 - sz)) m else m) in
     (if sz \<le> 3 then u256_of (ucast wd) else u256_shl (u256_of (ucast wd)) (8 * (sz - 3)),
      False, wd \<noteq> 0 \<and> (sz > 34 \<or> wd > 0xff \<and> sz > 33 \<or> wd > 0xffff \<and> sz > 32)))"
proof -
  have mb: "\<not> bit m n" if "23 \<le> n" for n
    using assms(1) that by (metis bit_take_bit_iff bit_unat not_less take_bit_nat_eq_self)
  have szb: "\<not> bit (of_nat sz :: u32) n" if "8 \<le> n" for n
  proof -
    have "take_bit 8 sz = sz" using assms(2) by (simp add: take_bit_nat_eq_self)
    then have "\<not> bit sz n" using that by (metis bit_take_bit_iff not_less)
    then show ?thesis by (simp add: bit_of_nat_iff)
  qed
  have "drop_bit 24 (m OR push_bit 24 (of_nat sz)) = of_nat sz"
  proof (rule bit_eqI)
    fix n assume "possible_bit TYPE(32 word) n"
    then show "bit (drop_bit 24 (m OR push_bit 24 (of_nat sz))) n = bit (of_nat sz :: u32) n"
      using szb [of n] by (cases "n < 8") (auto simp: bit_simps mb)
  qed
  then have size: "unat (drop_bit 24 (m OR push_bit 24 (of_nat sz))) = sz"
    using assms(2) by (simp only:) (simp add: unat_of_nat)
  have mant: "(m OR push_bit 24 (of_nat sz)) AND 0x007fffff = m"
    unfolding u32_mask23 by (rule bit_eqI) (use mb in \<open>force simp: bit_simps\<close>)
  have "\<not> bit (m OR push_bit 24 (of_nat sz)) 23" by (simp add: bit_simps mb)
  then have neg: "(m OR push_bit 24 (of_nat sz)) AND 0x00800000 = 0" using u32_bit23 by blast
  show ?thesis unfolding from_compact_def Let_def size mant neg by simp
qed

lemma unat_w0: "unat (w0 u) = u256_val u mod 2 ^ 64"
proof -
  obtain t where "u256_val u = unat (w0 u) + 2 ^ 64 * t"
    by (simp only: u256_val_def limbs_def limbs_val.simps)
  then show ?thesis using unat_lt_64 [of "w0 u"] by simp
qed

text \<open>
  The mantissa and the exponent \<open>to_compact\<close> packs: the mantissa holds the top 15 to 23 bits of
  the number, and all of it when three bytes are enough.
\<close>

lemma to_compact_mantissa:
  fixes u
  defines "x \<equiv> u256_val u"
  defines "n \<equiv> (u256_bits u + 7) div 8"
  defines "C \<equiv> (if n \<le> 3 then ucast (push_bit (8 * (3 - n)) (w0 u)) else ucast (w0 (u256_shr u (8 * (n - 3)))) :: u32)"
  shows "unat C = (if n \<le> 3 then x * 2 ^ (8 * (3 - n)) else x div 2 ^ (8 * (n - 3)))"
    and "unat C < 2 ^ 24" and "0 < x \<Longrightarrow> 0 < n \<and> 2 ^ 16 \<le> unat C" and "n \<le> 32"
proof -
  note b = u256_bits_bounds [of u, folded x_def]
  show n32: "n \<le> 32" using b(2) by (simp add: n_def)
  have "u256_bits u \<le> 8 * n" unfolding n_def by linarith
  then have up: "x < 2 ^ (8 * n)" using b(1) by (metis less_le_trans one_le_numeral power_increasing)
  have pos: "0 < n \<and> 2 ^ (8 * (n - 1)) \<le> x" if "0 < x"
  proof -
    have bp: "0 < u256_bits u" using that b(1) by (cases "u256_bits u") auto
    then have "0 < n" "8 * (n - 1) \<le> u256_bits u - 1" unfolding n_def by linarith+
    with b(3) [OF bp] show ?thesis by (meson order_trans one_le_numeral power_increasing)
  qed
  define V where "V = (if n \<le> 3 then x * 2 ^ (8 * (3 - n)) else x div 2 ^ (8 * (n - 3)))"
  have V24: "V < 2 ^ 24"
  proof (cases "n \<le> 3")
    case True
    then have "V < 2 ^ (8 * n) * 2 ^ (8 * (3 - n))" using up by (simp add: V_def)
    also have "\<dots> = 2 ^ 24" by (rule pow2_split) (use True in simp)
    finally show ?thesis .
  next
    case False
    then have "2 ^ (8 * n) = (2::nat) ^ 24 * 2 ^ (8 * (n - 3))"
      by (intro pow2_split [symmetric]) (use False in simp)
    with False up show ?thesis by (simp add: V_def div_less_iff_less_mult)
  qed
  have C: "unat C = V"
  proof (cases "n \<le> 3")
    case True
    then have "(2::nat) ^ (8 * n) \<le> 2 ^ 24" by (intro power_increasing) auto
    then have "x < 2 ^ 24" using up by linarith
    then have "unat (w0 u) = x" by (simp add: unat_w0 x_def [symmetric])
    with True V24 show ?thesis
      by (simp add: C_def V_def unsigned_ucast_eq unat_push_bit_64 take_bit_nat_eq_self)
  next
    case False
    with V24 show ?thesis
      by (simp add: C_def V_def unsigned_ucast_eq unat_w0 u256_val_shr x_def [symmetric] take_bit_nat_eq_self)
  qed
  then show "unat C = (if n \<le> 3 then x * 2 ^ (8 * (3 - n)) else x div 2 ^ (8 * (n - 3)))"
    and "unat C < 2 ^ 24" using V24 by (simp_all add: V_def)
  show "0 < n \<and> 2 ^ 16 \<le> unat C" if "0 < x"
  proof (cases "n \<le> 3")
    case True
    have "(2::nat) ^ 16 = 2 ^ (8 * (n - 1)) * 2 ^ (8 * (3 - n))"
      by (intro pow2_split [symmetric]) (use True pos [OF that, THEN conjunct1] in linarith)
    also have "\<dots> \<le> x * 2 ^ (8 * (3 - n))" using pos [OF that] by (intro mult_le_mono1) simp
    finally show ?thesis using True pos [OF that] by (simp add: C V_def)
  next
    case False
    then have "(2::nat) ^ 16 * 2 ^ (8 * (n - 3)) = 2 ^ (8 * (n - 1))"
      by (intro pow2_split) simp
    then have "2 ^ 16 * 2 ^ (8 * (n - 3)) \<le> x" using pos [OF that] by simp
    with False show ?thesis by (simp add: C V_def less_eq_div_iff_mult_less_eq)
  qed
qed

lemma to_compact_form:
  fixes u
  defines "x \<equiv> u256_val u"
  obtains m :: u32 and e where "to_compact u = m OR push_bit 24 (of_nat e)"
    "unat m < 2 ^ 23" "e \<le> 33" "e = 33 \<Longrightarrow> unat m < 2 ^ 16"
    "unat m = (if e \<le> 3 then x * 2 ^ (8 * (3 - e)) else x div 2 ^ (8 * (e - 3)))"
    "0 < x \<Longrightarrow> 0 < e \<and> 2 ^ 15 \<le> unat m"
proof -
  define n where "n = (u256_bits u + 7) div 8"
  define C where "C = (if n \<le> 3 then ucast (push_bit (8 * (3 - n)) (w0 u))
    else ucast (w0 (u256_shr u (8 * (n - 3)))) :: u32)"
  note f = to_compact_mantissa [of u, folded n_def x_def, folded C_def]
  have tc: "to_compact u = (if bit C 23 then drop_bit 8 C OR push_bit 24 (of_nat (n + 1))
      else C OR push_bit 24 (of_nat n))"
    by (simp add: to_compact_def Let_def n_def [symmetric] C_def [symmetric] u32_bit23)
  show ?thesis
  proof (cases "bit C 23")
    case False
    with f unat_lt_bit23 [OF f(2)] tc show ?thesis by (intro that [of C n]) auto
  next
    case True
    have d: "unat (drop_bit 8 C) = unat C div 2 ^ 8" by (simp add: unat_div drop_bit_eq_div)
    have "2 ^ 23 \<le> unat C" using True unat_lt_bit23 [OF f(2)] by auto
    then have lo: "2 ^ 15 \<le> unat C div 2 ^ 8" by simp
    have hi: "unat C div 2 ^ 8 < 2 ^ 16" using f(2) by (simp add: div_less_iff_less_mult)
    have "0 < x" using f(1) \<open>2 ^ 23 \<le> unat C\<close> by (auto split: if_splits intro: gr0I)
    have v: "unat C div 2 ^ 8 = (if n + 1 \<le> 3 then x * 2 ^ (8 * (3 - (n + 1))) else x div 2 ^ (8 * (n + 1 - 3)))"
    proof -
      consider "n + 1 \<le> 3" | "n = 3" | "3 < n" by linarith
      then show ?thesis
      proof cases
        case 1
        then have "x * 2 ^ (8 * (3 - n)) = x * 2 ^ (8 * (3 - (n + 1))) * 2 ^ 8"
          using 1 by (simp only: mult.assoc pow2_split [of "8 * (3 - (n + 1))" 8 "8 * (3 - n)"])
        with 1 f(1) show ?thesis by simp
      next
        case 3
        then have "(2::nat) ^ (8 * (n + 1 - 3)) = 2 ^ (8 * (n - 3)) * 2 ^ 8"
          by (intro pow2_split [symmetric]) simp
        with 3 f(1) show ?thesis by (simp add: div_mult2_eq)
      qed (use f(1) in simp)
    qed
    show ?thesis
      by (rule that [of "drop_bit 8 C" "n + 1"]) (use True tc d lo hi v f(4) in auto)
  qed
qed

text \<open>A compact target is a rounding down, within one part in \<open>2\<^sup>1\<^sup>5\<close>, and always well-formed.\<close>

theorem from_compact_to_compact:
  obtains v where "from_compact (to_compact u) = (v, False, False)"
    "u256_val v \<le> u256_val u" "0 < u256_val u \<Longrightarrow> 0 < u256_val v"
    "2 ^ 15 * (u256_val u - u256_val v) \<le> u256_val v"
proof -
  define x where "x = u256_val u"
  obtain m :: u32 and e where f: "to_compact u = m OR push_bit 24 (of_nat e)"
    "unat m < 2 ^ 23" "e \<le> 33" "e = 33 \<Longrightarrow> unat m < 2 ^ 16"
    "unat m = (if e \<le> 3 then x * 2 ^ (8 * (3 - e)) else x div 2 ^ (8 * (e - 3)))"
    "0 < x \<Longrightarrow> 0 < e \<and> 2 ^ 15 \<le> unat m"
    using to_compact_form [of u] unfolding x_def by blast
  have "e < 256" using f(3) by simp
  note pack = from_compact_pack [OF f(2) this, folded f(1)]
  show ?thesis
  proof (cases "e \<le> 3")
    case True
    then have "unat (drop_bit (8 * (3 - e)) m) = x"
      using f(5) by (simp add: unat_drop_bit)
    then have "u256_val (u256_of (ucast (drop_bit (8 * (3 - e)) m))) = x"
      by (simp add: unsigned_ucast_eq take_bit_nat_eq_self)
    with True that [of "u256_of (ucast (drop_bit (8 * (3 - e)) m))"] pack show ?thesis
      by (auto simp: Let_def x_def)
  next
    case False
    define s where "s = 8 * (e - 3)"
    define v where "v = u256_shl (u256_of (ucast m)) s"
    have m: "unat m = x div 2 ^ s" using False f(5) by (simp add: s_def)
    have le: "unat m * 2 ^ s \<le> x" by (simp add: m)
    have "x < 2 ^ 256" unfolding x_def by (rule u256_val_bound)
    then have v: "u256_val v = unat m * 2 ^ s"
      using le by (simp add: v_def u256_val_shl unsigned_ucast_eq take_bit_nat_eq_self)
    have "e > 32 \<Longrightarrow> \<not> m > 0xffff" using f(3,4) by (cases "e = 33") (auto simp: word_less_nat_alt)
    then have "from_compact (to_compact u) = (v, False, False)"
      using False f(3) pack by (auto simp: Let_def v_def s_def)
    moreover have "0 < x \<Longrightarrow> 0 < u256_val v" using f(6) v by simp
    moreover have "2 ^ 15 * (x - u256_val v) \<le> u256_val v"
    proof (cases "x = 0")
      case False
      have "x - unat m * 2 ^ s = x mod 2 ^ s" by (simp add: m minus_div_mult_eq_mod)
      then have "2 ^ 15 * (x - unat m * 2 ^ s) \<le> 2 ^ 15 * 2 ^ s" by simp
      also have "\<dots> \<le> unat m * 2 ^ s" using False f(6) by (intro mult_le_mono1) simp
      finally show ?thesis by (simp add: v)
    qed simp
    ultimately show ?thesis using that le v by (simp add: x_def)
  qed
qed

end
