(* ===== verification/Text.thy ===== *)
theory Text
  imports Limits
begin

unbundle bit_operations_syntax

text \<open>
  Hexadecimal strings and printed amounts, \<open>src/src/util/types.cpp\<close>. A character is compared by its
  code, \<open>std::to_string\<close> is \<open>to_dec\<close>, and a function that returns \<open>std::nullopt\<close> is an option.
  Decoding what was encoded gives it back, for hex strings, hashes and amounts.
\<close>

section \<open>Hexadecimal\<close>

definition HEXD :: string where "HEXD = ''0123456789abcdef''"

definition char_code :: "char \<Rightarrow> nat" where "char_code c = of_char c"

definition hex_encode :: "bytes \<Rightarrow> string" where
  "hex_encode b = concat (map (\<lambda>x. [HEXD ! unat (drop_bit 4 x), HEXD ! unat (x AND 15)]) b)"

definition hexval :: "char \<Rightarrow> int" where
  "hexval c =
     (if char_code c \<ge> char_code CHR ''0'' \<and> char_code c \<le> char_code CHR ''9''
      then int (char_code c) - int (char_code CHR ''0'')
      else if char_code c \<ge> char_code CHR ''a'' \<and> char_code c \<le> char_code CHR ''f''
      then int (char_code c) - int (char_code CHR ''a'') + 10
      else if char_code c \<ge> char_code CHR ''A'' \<and> char_code c \<le> char_code CHR ''F''
      then int (char_code c) - int (char_code CHR ''A'') + 10
      else -1)"

fun hex_pairs :: "string \<Rightarrow> bytes option" where
  "hex_pairs (a # b # s) =
     (let hi = hexval a; lo = hexval b in
      if hi < 0 \<or> lo < 0 then None
      else (case hex_pairs s of None \<Rightarrow> None
            | Some out \<Rightarrow> Some (word_of_int (push_bit 4 hi OR lo) # out)))"
| "hex_pairs _ = Some []"

definition hex_decode :: "string \<Rightarrow> bytes option" where
  "hex_decode s = (if length s mod 2 \<noteq> 0 then None else hex_pairs s)"

definition hash_hex :: "hash256 \<Rightarrow> string" where
  "hash_hex h = hex_encode (hash_bytes h)"

definition from_hex :: "string \<Rightarrow> hash256 option" where
  "from_hex s = (case hex_decode s of None \<Rightarrow> None
     | Some b \<Rightarrow> if length b \<noteq> 32 then None else Some (hash_of b))"

section \<open>Amounts\<close>

fun to_dec :: "nat \<Rightarrow> string" where
  "to_dec n = (if n < 10 then [char_of (48 + n)] else to_dec (n div 10) @ [char_of (48 + n mod 10)])"

text \<open>\<open>while (frac.size() > 1 && frac.back() == '0') frac.pop_back();\<close>\<close>

fun trim_zeros :: "string \<Rightarrow> string" where
  "trim_zeros s = (if length s > 1 \<and> last s = CHR ''0'' then trim_zeros (butlast s) else s)"

definition format_amount :: "amount \<Rightarrow> string" where
  "format_amount a =
     (let whole = to_dec (unat (a div COIN));
          frac = to_dec (unat (a mod COIN));
          frac = replicate (10 - length frac) CHR ''0'' @ frac;
          frac = trim_zeros frac
      in whole @ ''.'' @ frac)"

text \<open>\<open>isspace\<close> in the C locale.\<close>

definition is_space :: "char \<Rightarrow> bool" where
  "is_space c \<longleftrightarrow> char_code c = 32 \<or> (9 \<le> char_code c \<and> char_code c \<le> 13)"

definition is_digit_char :: "char \<Rightarrow> bool" where
  "is_digit_char c \<longleftrightarrow> \<not> (char_code c < char_code CHR ''0'' \<or> char_code c > char_code CHR ''9'')"

definition digit_of :: "char \<Rightarrow> nat" where
  "digit_of c = char_code c - char_code CHR ''0''"

primrec parse_whole :: "string \<Rightarrow> u128 \<Rightarrow> u128 option" where
  "parse_whole [] v = Some v"
| "parse_whole (c # s) v =
     (if \<not> is_digit_char c then None
      else (let v = v * 10 + of_nat (digit_of c) in
            if v > 1000000000000 then None else parse_whole s v))"

text \<open>The ten-digit loop, with \<open>n\<close> digits left; a missing digit reads as zero.\<close>

primrec parse_frac :: "nat \<Rightarrow> string \<Rightarrow> u64 \<Rightarrow> u64 option" where
  "parse_frac 0 f fr = Some fr"
| "parse_frac (Suc n) f fr =
     (let i = 10 - Suc n; c = (if i < length f then f ! i else CHR ''0'') in
      if \<not> is_digit_char c then None
      else parse_frac n f (fr * 10 + of_nat (digit_of c)))"

definition parse_amount :: "string \<Rightarrow> amount option" where
  "parse_amount s =
     (if s = [] \<or> length s > 32 then None
      else
        (let w = takeWhile (\<lambda>c. c \<noteq> CHR ''.'') s;
             f = tl (dropWhile (\<lambda>c. c \<noteq> CHR ''.'') s) in
         if w = [] \<and> f = [] then None
         else if length f > 10 then None
         else (case parse_whole w 0 of None \<Rightarrow> None | Some v \<Rightarrow>
               (case parse_frac 10 f 0 of None \<Rightarrow> None | Some fr \<Rightarrow>
                (let v = v * ucast COIN + ucast fr in
                 if v > ucast (-1 :: u64) then None else Some (ucast v))))))"

section \<open>Round trips\<close>

lemma hexval_HEXD: "n < 16 \<Longrightarrow> hexval (HEXD ! n) = int n"
proof -
  have "\<forall>n\<in>set [0..<16]. hexval (HEXD ! n) = int n" by code_simp
  then show "n < 16 \<Longrightarrow> ?thesis" by simp
qed

lemma and_15: "(x :: u8) AND 15 = take_bit 4 x"
  by (simp add: take_bit_eq_mask mask_eq_exp_minus_1)

lemma hex_pair_byte: "(word_of_int (push_bit 4 (uint (drop_bit 4 x)) OR uint (x AND 15)) :: u8) = x"
  unfolding and_15
  by (rule bit_word_eqI)
    (auto simp: bit_word_of_int_iff bit_or_iff bit_push_bit_iff_int bit_uint_iff bit_drop_bit_eq bit_take_bit_iff)

lemma hex_nibbles: "unat (drop_bit 4 (x :: u8)) < 16" "unat ((x :: u8) AND 15) < 16"
proof -
  show "unat (drop_bit 4 x) < 16" using unat_lt_8 [of x] by (simp only: unat_drop_bit) simp
  have "unat (x AND 15) = take_bit 4 (unat x)"
    by (simp only: and_15) (simp add: unsigned_take_bit_eq)
  then show "unat (x AND 15) < 16" by (simp add: take_bit_eq_mod)
qed

theorem hex_decode_encode: "hex_decode (hex_encode b) = Some b"
proof -
  have "length (hex_encode b) = 2 * length b" by (induction b) (auto simp: hex_encode_def)
  moreover have "hex_pairs (hex_encode b) = Some b"
    by (induction b) (simp_all add: hex_encode_def hexval_HEXD hex_nibbles hex_pair_byte)
  ultimately show ?thesis by (simp add: hex_decode_def)
qed

theorem from_hex_hash_hex: "from_hex (hash_hex h) = Some h"
  by (simp add: from_hex_def hash_hex_def hex_decode_encode)

declare to_dec.simps [simp del] trim_zeros.simps [simp del]

text \<open>The number a digit string stands for.\<close>

definition dec_val :: "string \<Rightarrow> nat" where
  "dec_val s = fold (\<lambda>c v. v * 10 + digit_of c) s 0"

lemma dec_val_snoc: "dec_val (s @ [c]) = dec_val s * 10 + digit_of c"
  by (simp add: dec_val_def)

lemma digit_char: "d < 10 \<Longrightarrow> is_digit_char (char_of (48 + d)) \<and> digit_of (char_of (48 + d)) = d"
  by (simp add: is_digit_char_def digit_of_def char_code_def of_char_of)

lemma to_dec_ok: "list_all is_digit_char (to_dec n) \<and> dec_val (to_dec n) = n \<and> to_dec n \<noteq> []"
proof (induction n rule: to_dec.induct)
  case (1 n)
  show ?case
  proof (cases "n < 10")
    case True
    then show ?thesis by (simp add: to_dec.simps [of n] digit_char dec_val_def)
  next
    case False
    with 1 digit_char [of "n mod 10"] show ?thesis
      by (simp add: to_dec.simps [of n] dec_val_snoc)
  qed
qed

lemma length_to_dec: "n < 10 ^ k \<Longrightarrow> 0 < k \<Longrightarrow> length (to_dec n) \<le> k"
proof (induction n arbitrary: k rule: to_dec.induct)
  case (1 n)
  show ?case
  proof (cases "n < 10")
    case True
    then show ?thesis using "1.prems" by (simp add: to_dec.simps [of n])
  next
    case False
    obtain j where j: "k = Suc j" using "1.prems" by (cases k) auto
    with False "1.prems" have "0 < j" by (cases j) auto
    moreover have "n div 10 < 10 ^ j" using "1.prems" j by (simp add: div_less_iff_less_mult mult.commute)
    ultimately show ?thesis using "1.IH" [OF False, of j] False j by (simp add: to_dec.simps [of n])
  qed
qed

abbreviation dec_fold :: "string \<Rightarrow> nat \<Rightarrow> nat" where
  "dec_fold s v \<equiv> fold (\<lambda>c v. v * 10 + digit_of c) s v"

lemma dec_fold_ge: "v \<le> dec_fold s v"
proof (induction s arbitrary: v)
  case (Cons c s)
  have "v \<le> v * 10 + digit_of c" by simp
  also have "\<dots> \<le> dec_fold (c # s) v" using Cons [of "v * 10 + digit_of c"] by simp
  finally show ?case .
qed simp

lemma parse_whole_ok:
  "list_all is_digit_char s \<Longrightarrow> dec_fold s v \<le> 1000000000000 \<Longrightarrow>
   parse_whole s (of_nat v) = Some (of_nat (dec_fold s v))"
proof (induction s arbitrary: v)
  case (Cons c s)
  define v' where "v' = v * 10 + digit_of c"
  have e: "(of_nat v * 10 + of_nat (digit_of c) :: u128) = of_nat v'" by (simp add: v'_def)
  have "v' \<le> 1000000000000" using Cons.prems(2) dec_fold_ge [of v' s] by (simp add: v'_def)
  then have "\<not> (of_nat v' :: u128) > 1000000000000" by (simp add: word_less_nat_alt unat_of_nat_128)
  then show ?case using Cons.prems Cons.IH [of v'] by (simp add: e) (simp add: v'_def)
qed simp

definition pad10 :: "string \<Rightarrow> string" where
  "pad10 f = f @ replicate (10 - length f) CHR ''0''"

lemma zero_digit: "is_digit_char CHR ''0''" "digit_of CHR ''0'' = 0"
  by (simp_all add: is_digit_char_def digit_of_def char_code_def)

lemma parse_frac_ok:
  assumes "list_all is_digit_char f" "length f \<le> 10"
  shows "n \<le> 10 \<Longrightarrow> parse_frac n f (of_nat v) = Some (of_nat (dec_fold (drop (10 - n) (pad10 f)) v))"
proof (induction n arbitrary: v)
  case 0
  then show ?case using assms by (simp add: pad10_def)
next
  case (Suc n)
  define i where "i = 10 - Suc n"
  have i: "10 - n = Suc i" "i < 10" using Suc.prems by (auto simp: i_def)
  define c where "c = pad10 f ! i"
  have ci: "(if i < length f then f ! i else CHR ''0'') = c"
    using i assms by (simp add: c_def pad10_def nth_append)
  have cd: "is_digit_char c"
    using assms i zero_digit by (auto simp: ci [symmetric] list_all_length)
  have "i < length (pad10 f)" using i assms by (simp add: pad10_def)
  then have "drop i (pad10 f) = c # drop (Suc i) (pad10 f)" by (simp add: c_def Cons_nth_drop_Suc)
  moreover have "parse_frac (Suc n) f (of_nat v) = parse_frac n f (of_nat (v * 10 + digit_of c))"
    using cd by (simp only: parse_frac.simps Let_def i_def [symmetric] ci) simp
  moreover have "parse_frac n f (of_nat (v * 10 + digit_of c)) =
      Some (of_nat (dec_fold (drop (Suc i) (pad10 f)) (v * 10 + digit_of c)))"
    using Suc.IH [of "v * 10 + digit_of c"] Suc.prems i by simp
  ultimately show ?case by (simp only: i_def [symmetric]) simp
qed

lemma pad10_trim: "length s \<le> 10 \<Longrightarrow> pad10 (trim_zeros s) = pad10 s"
proof (induction s rule: trim_zeros.induct)
  case (1 s)
  show ?case
  proof (cases "length s > 1 \<and> last s = CHR ''0''")
    case True
    then obtain t where t: "s = t @ [CHR ''0'']" by (metis append_butlast_last_id list.size(3) not_one_less_zero)
    have "pad10 t = pad10 s"
      using "1.prems" by (simp add: t pad10_def Suc_diff_Suc flip: replicate_Suc)
    moreover have "trim_zeros s = trim_zeros t" using True by (subst trim_zeros.simps) (simp add: t)
    ultimately show ?thesis using "1.IH" [OF True] "1.prems" by (simp add: t)
  next
    case False
    then have "trim_zeros s = s" by (subst trim_zeros.simps) auto
    then show ?thesis by simp
  qed
qed

lemma trim_zeros_sub: "length (trim_zeros s) \<le> length s \<and> set (trim_zeros s) \<subseteq> set s"
proof (induction s rule: trim_zeros.induct)
  case (1 s)
  show ?case
  proof (cases "length s > 1 \<and> last s = CHR ''0''")
    case True
    with 1 have "length (trim_zeros (butlast s)) \<le> length s - 1 \<and> set (trim_zeros (butlast s)) \<subseteq> set s"
      by (auto dest: in_set_butlastD)
    then show ?thesis using True by (auto simp: trim_zeros.simps [of s])
  next
    case False
    then have "trim_zeros s = s" by (subst trim_zeros.simps) auto
    then show ?thesis by simp
  qed
qed

lemma dec_fold_zeros: "dec_fold (replicate k CHR ''0'') 0 = 0"
  by (induction k) (simp_all add: zero_digit)

theorem parse_format_amount: "parse_amount (format_amount a) = Some a"
proof -
  define w where "w = to_dec (unat (a div COIN))"
  define r where "r = unat (a mod COIN)"
  define g where "g = replicate (10 - length (to_dec r)) CHR ''0'' @ to_dec r"
  define f where "f = trim_zeros g"
  have COIN: "unat COIN = 10 ^ 10" by (simp add: limit_defs)
  have q: "unat (a div COIN) < 10 ^ 10" using unat_lt_64 [of a] by (simp add: unat_div COIN div_less_iff_less_mult)
  have r: "r < 10 ^ 10" by (simp add: r_def unat_mod COIN)
  have wl: "length w \<le> 10" using length_to_dec [OF q] by (simp add: w_def)
  have wd: "list_all is_digit_char w" "dec_fold w 0 = unat (a div COIN)" "w \<noteq> []"
    using to_dec_ok by (simp_all add: w_def dec_val_def [symmetric])
  have len: "length (to_dec r) \<le> 10" using length_to_dec [OF r] by simp
  then have g10: "length g = 10" by (simp add: g_def)
  then have fl: "length f \<le> 10" using trim_zeros_sub [of g] by (simp add: f_def)
  have gd: "list_all is_digit_char g"
    using to_dec_ok [of r] zero_digit by (auto simp: g_def list_all_iff)
  then have fd: "list_all is_digit_char f" using trim_zeros_sub [of g] by (auto simp: f_def list_all_iff)
  have "pad10 f = g" using pad10_trim [of g] g10 by (simp add: f_def pad10_def)
  then have fr: "parse_frac 10 f 0 = Some (of_nat r)"
    using parse_frac_ok [OF fd fl, of 10 0] to_dec_ok [of r]
    by (simp add: g_def dec_fold_zeros dec_val_def del: fold_replicate)
  have nodot: "\<forall>c\<in>set w. c \<noteq> CHR ''.''"
    using wd(1) by (auto simp: list_all_iff is_digit_char_def char_code_def)
  have s: "format_amount a = w @ CHR ''.'' # f"
    by (simp add: format_amount_def Let_def w_def f_def g_def r_def)
  have tw: "takeWhile (\<lambda>c. c \<noteq> CHR ''.'') (w @ CHR ''.'' # f) = w"
      "dropWhile (\<lambda>c. c \<noteq> CHR ''.'') (w @ CHR ''.'' # f) = CHR ''.'' # f"
    using nodot by (simp_all add: takeWhile_append dropWhile_append)
  have pw: "parse_whole w 0 = Some (ucast (a div COIN))"
    using parse_whole_ok [OF wd(1), of 0] wd(2) q by simp
  define v :: u128 where "v = ucast (a div COIN) * ucast COIN + ucast (of_nat r :: u64)"
  have ur: "unat (of_nat r :: u64) = r" using r by (simp add: unat_of_nat_64)
  have v: "unat v = unat a"
  proof -
    have "unat (a div COIN) * unat COIN + r = unat a" by (simp add: r_def unat_div unat_mod)
    then show ?thesis
      using q r unat_lt_64 [of a]
      by (simp add: v_def unat_word_ariths unat_of_nat_128 ur COIN)
  qed
  have "\<not> v > ucast (-1 :: u64)"
    using unat_lt_64 [of a] by (simp add: word_less_nat_alt v unsigned_minus_1_eq_mask mask_eq_exp_minus_1)
  moreover have "ucast v = a" using unat_lt_64 [of a] by (simp add: word_unat_eq_iff unat_ucast_128_64 v)
  ultimately show ?thesis
    using wd(3) wl fl unfolding parse_amount_def s
    by (simp add: tw pw fr Let_def v_def [symmetric])
qed

end
