(* ===== verification/Bech32.thy ===== *)
theory Bech32
  imports Text
begin

unbundle bit_operations_syntax

text \<open>
  Bech32m, \<open>src/src/util/bech32.cpp\<close>. The checksum register is a 32-bit word; \<open>convert_bits\<close> is the
  loop over the input with its accumulator, the number of pending bits and the output so far.
  \<open>islower\<close>, \<open>isupper\<close> and \<open>tolower\<close> are those of the C locale. A decoder that returns false
  is \<open>None\<close>.
\<close>

section \<open>The code\<close>

definition CHARSET :: string where
  "CHARSET = ''qpzry9x8gf2tvdw0s3jn54khce6mua7l''"

definition BECH32M_CONST :: u32 where
  "BECH32M_CONST = 0x2bc830a3"

definition polymod_step :: "u8 \<Rightarrow> u32 \<Rightarrow> u32" where
  "polymod_step x c =
     (let c0 = (ucast (drop_bit 25 c) :: u8);
          c = push_bit 5 (c AND 0x1ffffff) XOR ucast x;
          c = (if c0 AND 1 \<noteq> 0 then c XOR 0x3b6a57b2 else c);
          c = (if c0 AND 2 \<noteq> 0 then c XOR 0x26508e6d else c);
          c = (if c0 AND 4 \<noteq> 0 then c XOR 0x1ea119fa else c);
          c = (if c0 AND 8 \<noteq> 0 then c XOR 0x3d4233dd else c);
          c = (if c0 AND 16 \<noteq> 0 then c XOR 0x2a1462b3 else c)
      in c)"

definition polymod :: "bytes \<Rightarrow> u32" where
  "polymod v = fold polymod_step v 1"

definition hrp_expand :: "string \<Rightarrow> bytes" where
  "hrp_expand hrp = map (\<lambda>c. drop_bit 5 (of_nat (char_code c))) hrp @ [0]
     @ map (\<lambda>c. of_nat (char_code c) AND 31) hrp"

definition maxv :: "nat \<Rightarrow> u32" where
  "maxv to = push_bit to 1 - 1"

text \<open>\<open>while (bits >= to) { bits -= to; out.push_back((acc >> bits) & maxv); }\<close>\<close>

function emit_groups :: "nat \<Rightarrow> u32 \<Rightarrow> nat \<Rightarrow> bytes" where
  "emit_groups to acc bits =
     (if 0 < to \<and> to \<le> bits
      then ucast (drop_bit (bits - to) acc AND maxv to) # emit_groups to acc (bits - to)
      else [])"
  by pat_completeness auto
termination
  by (relation "measure (\<lambda>(to, acc, bits). bits)") auto

declare emit_groups.simps [simp del]

text \<open>The loop over the input; \<open>bits mod to\<close> is what the inner \<open>while\<close> leaves of \<open>bits\<close>.\<close>

primrec convert_loop :: "nat \<Rightarrow> nat \<Rightarrow> bytes \<Rightarrow> u32 \<Rightarrow> nat \<Rightarrow> bytes \<Rightarrow> (u32 \<times> nat \<times> bytes) option" where
  "convert_loop from to [] acc bits out = Some (acc, bits, out)"
| "convert_loop from to (v # vs) acc bits out =
     (if drop_bit from v \<noteq> 0 then None
      else
        (let acc = push_bit from acc OR ucast v; bits = bits + from
         in convert_loop from to vs acc (bits mod to) (out @ emit_groups to acc bits)))"

definition convert_bits :: "nat \<Rightarrow> nat \<Rightarrow> bool \<Rightarrow> bytes \<Rightarrow> bytes option" where
  "convert_bits from to pad inp =
     (case convert_loop from to inp 0 0 [] of None \<Rightarrow> None
      | Some (acc, bits, out) \<Rightarrow>
          (let top = push_bit (to - bits) acc AND maxv to in
           if pad then Some (if bits \<noteq> 0 then out @ [ucast top] else out)
           else if bits \<ge> from \<or> top \<noteq> 0 then None
           else Some out))"

definition bech32m_encode :: "string \<Rightarrow> bytes \<Rightarrow> string" where
  "bech32m_encode hrp data8 =
     (let d5 = (case convert_bits 8 5 True data8 of None \<Rightarrow> [] | Some d \<Rightarrow> d);
          v = hrp_expand hrp @ d5 @ replicate 6 0;
          m = polymod v XOR BECH32M_CONST
      in hrp @ ''1'' @ map (\<lambda>x. CHARSET ! unat x) d5
           @ map (\<lambda>i. CHARSET ! unat (drop_bit (5 * (5 - i)) m AND 31)) [0..<6])"

definition is_lower :: "char \<Rightarrow> bool" where
  "is_lower c \<longleftrightarrow> char_code CHR ''a'' \<le> char_code c \<and> char_code c \<le> char_code CHR ''z''"

definition is_upper :: "char \<Rightarrow> bool" where
  "is_upper c \<longleftrightarrow> char_code CHR ''A'' \<le> char_code c \<and> char_code c \<le> char_code CHR ''Z''"

definition to_lower :: "char \<Rightarrow> char" where
  "to_lower c = (if is_upper c then char_of (char_code c + 32) else c)"

text \<open>\<open>strchr(CHARSET, c)\<close> as an index into the 32 characters.\<close>

definition charset_index :: "char \<Rightarrow> u8 option" where
  "charset_index c =
     (let i = length (takeWhile (\<lambda>x. x \<noteq> c) CHARSET)
      in if i < length CHARSET then Some (of_nat i) else None)"

primrec charset_indices :: "string \<Rightarrow> bytes option" where
  "charset_indices [] = Some []"
| "charset_indices (c # s) =
     (case charset_index c of None \<Rightarrow> None
      | Some x \<Rightarrow> (case charset_indices s of None \<Rightarrow> None | Some xs \<Rightarrow> Some (x # xs)))"

definition rfind :: "char \<Rightarrow> string \<Rightarrow> nat option" where
  "rfind c s = (let k = length (takeWhile (\<lambda>x. x \<noteq> c) (rev s))
     in if k < length s then Some (length s - 1 - k) else None)"

definition bech32m_decode :: "string \<Rightarrow> (string \<times> bytes) option" where
  "bech32m_decode inp =
     (if \<not> list_all (\<lambda>c. \<not> (char_code c < 33 \<or> char_code c > 126)) inp then None
      else if list_ex is_lower inp \<and> list_ex is_upper inp then None
      else
        (let s = map to_lower inp in
         case rfind CHR ''1'' s of None \<Rightarrow> None
         | Some pos \<Rightarrow>
             if pos < 1 \<or> pos + 7 > length s \<or> length s > 120 then None
             else
               (let hrp = take pos s in
                case charset_indices (drop (pos + 1) s) of None \<Rightarrow> None
                | Some d5 \<Rightarrow>
                    if polymod (hrp_expand hrp @ d5) \<noteq> BECH32M_CONST then None
                    else
                      (case convert_bits 5 8 False (take (length d5 - 6) d5) of None \<Rightarrow> None
                       | Some d8 \<Rightarrow> Some (hrp, d8)))))"

section \<open>Regrouping bits\<close>

definition msb_bits :: "nat \<Rightarrow> 'a::len word \<Rightarrow> bool list" where
  "msb_bits n w = map (bit w) (rev [0..<n])"

lemma length_msb_bits [simp]: "length (msb_bits n w) = n"
  by (simp add: msb_bits_def)

lemma nth_msb_bits: "i < n \<Longrightarrow> msb_bits n w ! i = bit w (n - 1 - i)"
  by (simp add: msb_bits_def rev_nth)

lemma msb_bits_inj: "msb_bits 8 (x :: u8) = msb_bits 8 y \<Longrightarrow> x = y"
proof (rule bit_word_eqI)
  fix n
  assume "msb_bits 8 x = msb_bits 8 y" "n < LENGTH(8)"
  then show "bit x n = bit y n" using nth_msb_bits [of "7 - n" 8 x] nth_msb_bits [of "7 - n" 8 y] by simp
qed

lemma concat_msb_inj:
  "concat (map (msb_bits 8) xs) @ p = concat (map (msb_bits 8) ys) @ q \<Longrightarrow> length xs = length ys \<Longrightarrow>
   (xs :: bytes) = ys \<and> p = q"
proof (induction xs arbitrary: ys)
  case (Cons x xs)
  then obtain y zs where ys: "ys = y # zs" by (cases ys) auto
  with Cons have "msb_bits 8 x = msb_bits 8 y" "concat (map (msb_bits 8) xs) @ p = concat (map (msb_bits 8) zs) @ q"
    by auto
  with Cons ys msb_bits_inj show ?case by auto
qed simp

lemma maxv_mask: "maxv n = mask n"
  by (simp add: maxv_def mask_eq_exp_minus_1 push_bit_eq_mult)

lemma emit_group_bits:
  assumes "to \<le> bits" "to \<le> 8" "bits \<le> 32"
  shows "msb_bits to (ucast (drop_bit (bits - to) acc AND maxv to) :: u8) @ msb_bits (bits - to) (acc :: u32)
    = msb_bits bits acc"
  unfolding maxv_mask
proof (rule nth_equalityI)
  fix i
  assume "i < length (msb_bits to (ucast (drop_bit (bits - to) acc AND mask to) :: u8) @ msb_bits (bits - to) acc)"
  then show "(msb_bits to (ucast (drop_bit (bits - to) acc AND mask to) :: u8) @ msb_bits (bits - to) acc) ! i
      = msb_bits bits acc ! i"
    using assms by (auto simp: nth_append nth_msb_bits bit_simps)
qed (use assms in simp)

lemma emit_groups_bits:
  "0 < to \<Longrightarrow> to \<le> 8 \<Longrightarrow> bits \<le> 32 \<Longrightarrow>
   concat (map (msb_bits to) (emit_groups to acc bits)) @ msb_bits (bits mod to) acc = msb_bits bits acc"
proof (induction to acc bits rule: emit_groups.induct)
  case (1 to acc bits)
  show ?case
  proof (cases "to \<le> bits")
    case True
    then have "bits mod to = (bits - to) mod to" by (simp add: le_mod_geq)
    with 1 True emit_group_bits [OF True, of acc] show ?thesis
      by (simp add: emit_groups.simps [of to acc bits])
  qed (simp add: emit_groups.simps [of to acc bits])
qed

lemma feed_bits:
  assumes "drop_bit from v = 0" "bits + from \<le> 32"
  shows "msb_bits (bits + from) (push_bit from acc OR ucast (v :: u8) :: u32) = msb_bits bits acc @ msb_bits from v"
proof (rule nth_equalityI)
  have "\<not> bit v k" if "from \<le> k" for k
  proof -
    have "bit (drop_bit from v) (k - from) = bit v k" using that by (simp add: bit_drop_bit_eq)
    with assms(1) show ?thesis by simp
  qed
  then show "msb_bits (bits + from) (push_bit from acc OR ucast v) ! i = (msb_bits bits acc @ msb_bits from v) ! i"
    if "i < length (msb_bits (bits + from) (push_bit from acc OR ucast v :: u32))" for i
    using that assms(2) by (auto simp: nth_append nth_msb_bits bit_simps add.commute [of bits])
qed simp

lemma convert_loop_bits:
  assumes "0 < to" "to \<le> 8" "from \<le> 8"
  shows "list_all (\<lambda>v. drop_bit from v = 0) vs \<Longrightarrow> bits < to \<Longrightarrow>
    \<exists>acc' bits' out'. convert_loop from to vs acc bits out = Some (acc', bits', out @ out') \<and> bits' < to \<and>
      concat (map (msb_bits to) out') @ msb_bits bits' acc' = msb_bits bits acc @ concat (map (msb_bits from) vs)"
proof (induction vs arbitrary: acc bits out)
  case (Cons v vs)
  define acc1 :: u32 where "acc1 = push_bit from acc OR ucast v"
  define b1 where "b1 = bits + from"
  have v: "drop_bit from v = 0" "b1 \<le> 32" "b1 mod to < to" using Cons.prems assms by (auto simp: b1_def)
  from Cons.IH [OF _ v(3), of acc1 "out @ emit_groups to acc1 b1"] Cons.prems
  obtain acc' bits' out' where
    c: "convert_loop from to vs acc1 (b1 mod to) (out @ emit_groups to acc1 b1) =
        Some (acc', bits', (out @ emit_groups to acc1 b1) @ out')" "bits' < to"
      "concat (map (msb_bits to) out') @ msb_bits bits' acc' =
        msb_bits (b1 mod to) acc1 @ concat (map (msb_bits from) vs)"
    by auto
  have "concat (map (msb_bits to) (emit_groups to acc1 b1 @ out')) @ msb_bits bits' acc' =
      msb_bits b1 acc1 @ concat (map (msb_bits from) vs)"
    using c(3) emit_groups_bits [OF assms(1,2) v(2), of acc1] by simp
  also have "msb_bits b1 acc1 = msb_bits bits acc @ msb_bits from v"
    unfolding b1_def acc1_def by (rule feed_bits) (use v in \<open>simp_all add: b1_def\<close>)
  finally show ?case using c v(1) by (auto simp: acc1_def b1_def)
qed simp

lemma group_small: "drop_bit to (ucast (w AND maxv to :: u32) :: u8) = 0"
  by (rule bit_word_eqI) (simp add: maxv_mask bit_simps)

lemma emit_groups_small: "list_all (\<lambda>v. drop_bit to v = 0) (emit_groups to acc bits)"
proof (induction to acc bits rule: emit_groups.induct)
  case (1 to acc bits)
  then show ?case by (simp add: emit_groups.simps [of to acc bits] group_small)
qed

lemma convert_loop_small:
  "list_all (\<lambda>v. drop_bit to v = 0) out \<Longrightarrow> convert_loop from to vs acc bits out = Some (acc', bits', out') \<Longrightarrow>
   list_all (\<lambda>v. drop_bit to v = 0) out'"
proof (induction vs arbitrary: acc bits out)
  case (Cons v vs)
  then show ?case
    using emit_groups_small [of to "push_bit from acc OR ucast v" "bits + from"]
      Cons.IH [of "out @ emit_groups to (push_bit from acc OR ucast v) (bits + from)"]
    by (auto simp: Let_def split: if_splits)
qed simp

lemma pad_bits:
  assumes "b < to" "to \<le> 8"
  shows "msb_bits to (ucast (push_bit (to - b) acc AND maxv to :: u32) :: u8) =
    msb_bits b acc @ replicate (to - b) False"
  unfolding maxv_mask
proof (rule nth_equalityI)
  fix i
  assume "i < length (msb_bits to (ucast (push_bit (to - b) acc AND mask to) :: u8))"
  then show "msb_bits to (ucast (push_bit (to - b) acc AND mask to) :: u8) ! i =
      (msb_bits b acc @ replicate (to - b) False) ! i"
    using assms by (auto simp: nth_append nth_msb_bits bit_simps)
qed (use assms in simp)

lemma convert_pad:
  "\<exists>d5 k. convert_bits 8 5 True data = Some d5 \<and> k < 5 \<and> list_all (\<lambda>v. drop_bit 5 v = 0) d5 \<and>
    concat (map (msb_bits 5) d5) = concat (map (msb_bits 8) data) @ replicate k False"
proof -
  have "drop_bit 8 v = 0" for v :: u8 by (rule bit_word_eqI) (simp add: bit_simps)
  then have "list_all (\<lambda>v. drop_bit 8 v = 0) data" by simp
  from convert_loop_bits [of 5 8, OF _ _ _ this, of 0 0 "[]"]
  obtain acc b out where c: "convert_loop 8 5 data 0 0 [] = Some (acc, b, out)" "b < 5"
    "concat (map (msb_bits 5) out) @ msb_bits b acc = concat (map (msb_bits 8) data)"
    by (auto simp: msb_bits_def)
  have small: "list_all (\<lambda>v. drop_bit 5 v = 0) out" using convert_loop_small [OF _ c(1)] by simp
  define d5 where "d5 = (if b \<noteq> 0 then out @ [ucast (push_bit (5 - b) acc AND maxv 5)] else out)"
  have "convert_bits 8 5 True data = Some d5" using c by (simp add: convert_bits_def d5_def Let_def)
  moreover have "list_all (\<lambda>v. drop_bit 5 v = 0) d5" using small group_small [of 5] by (simp add: d5_def)
  moreover have "concat (map (msb_bits 5) d5) =
      concat (map (msb_bits 8) data) @ replicate (if b = 0 then 0 else 5 - b) False"
    using c(2,3) pad_bits [OF c(2), of acc] by (auto simp: d5_def msb_bits_def [of 0] simp flip: c(3))
  moreover have "(if b = 0 then 0 else 5 - b) < 5" by simp
  ultimately show ?thesis by blast
qed

lemma convert_unpad:
  assumes "list_all (\<lambda>v. drop_bit 5 v = 0) d5" "k < 5"
    and "concat (map (msb_bits 5) d5) = concat (map (msb_bits 8) data) @ replicate k False"
  shows "convert_bits 5 8 False d5 = Some data"
proof -
  from convert_loop_bits [of 8 5, OF _ _ _ assms(1), of 0 0 "[]"]
  obtain acc b out where c: "convert_loop 5 8 d5 0 0 [] = Some (acc, b, out)" "b < 8"
    "concat (map (msb_bits 8) out) @ msb_bits b acc = concat (map (msb_bits 8) data) @ replicate k False"
    by (auto simp: msb_bits_def assms(3))
  have len: "length (concat (map (msb_bits 8) xs)) = 8 * length (xs :: bytes)" for xs
    by (induction xs) auto
  from arg_cong [OF c(3), of length] have "8 * length out + b = 8 * length data + k" by (simp add: len)
  then have "b = k" "length out = length data" using c(2) assms(2) by presburger+
  with concat_msb_inj [OF c(3)] have out: "out = data" and z: "msb_bits b acc = replicate b False" by auto
  have "(push_bit (8 - b) acc AND maxv 8 :: u32) = 0"
  proof (rule bit_word_eqI)
    fix n
    have "\<not> bit acc j" if "j < b" for j
      using nth_msb_bits [of "b - 1 - j" b acc] z that by simp
    then show "bit (push_bit (8 - b) acc AND maxv 8 :: u32) n = bit 0 n"
      unfolding maxv_mask by (auto simp: bit_simps)
  qed
  then show ?thesis using c assms(2) \<open>b = k\<close> out by (simp add: convert_bits_def Let_def)
qed

section \<open>The checksum is linear\<close>

definition poly_lin :: "u32 \<Rightarrow> u32" where
  "poly_lin c = push_bit 5 (take_bit 25 c)
     XOR (if bit c 25 then 0x3b6a57b2 else 0) XOR (if bit c 26 then 0x26508e6d else 0)
     XOR (if bit c 27 then 0x1ea119fa else 0) XOR (if bit c 28 then 0x3d4233dd else 0)
     XOR (if bit c 29 then 0x2a1462b3 else 0)"

lemma bit_test_u8: "(w :: u8) AND 2 ^ k \<noteq> 0 \<longleftrightarrow> bit w k"
  by (simp add: bit_iff_and_push_bit_not_eq_0 push_bit_eq_mult)

lemma polymod_step_lin: "polymod_step x c = poly_lin c XOR ucast x"
proof -
  define c0 :: u8 where "c0 = ucast (drop_bit 25 c)"
  have b: "c0 AND 1 \<noteq> 0 \<longleftrightarrow> bit c 25" "c0 AND 2 \<noteq> 0 \<longleftrightarrow> bit c 26" "c0 AND 4 \<noteq> 0 \<longleftrightarrow> bit c 27"
    "c0 AND 8 \<noteq> 0 \<longleftrightarrow> bit c 28" "c0 AND 16 \<noteq> 0 \<longleftrightarrow> bit c 29"
    using bit_test_u8 [of c0 0] bit_test_u8 [of c0 1] bit_test_u8 [of c0 2] bit_test_u8 [of c0 3] bit_test_u8 [of c0 4]
    by (simp_all add: c0_def bit_ucast_iff bit_drop_bit_eq del: and_numerals)
  have m: "c AND 0x1ffffff = take_bit 25 c"
    by (simp add: take_bit_eq_mask mask_eq_exp_minus_1)
  show ?thesis
    unfolding polymod_step_def Let_def c0_def [symmetric] b m poly_lin_def
    by (simp add: ac_simps)
qed

lemma poly_lin_xor: "poly_lin (a XOR b) = poly_lin a XOR poly_lin b"
proof -
  have t: "push_bit 5 (take_bit 25 (a XOR b)) = push_bit 5 (take_bit 25 a) XOR push_bit 5 (take_bit 25 b)"
    by (simp only: take_bit_xor push_bit_xor)
  have g: "(if bit (a XOR b) n then g else 0) = (if bit a n then g else 0) XOR (if bit b n then g else 0)"
    for n and g :: u32
    by (auto simp: bit_xor_iff)
  show ?thesis unfolding poly_lin_def t g by (simp only: ac_simps)
qed

lemma poly_lin_small: "drop_bit 25 d = 0 \<Longrightarrow> poly_lin d = push_bit 5 d"
proof -
  assume d: "drop_bit 25 d = 0"
  have nb: "\<not> bit d n" if "25 \<le> n" for n
  proof -
    have "bit (drop_bit 25 d) (n - 25) = bit d n" using that by (simp add: bit_drop_bit_eq)
    with d show ?thesis by simp
  qed
  have "take_bit 25 d = d"
    by (rule bit_word_eqI) (metis bit_take_bit_iff nb not_less)
  then show ?thesis by (simp add: poly_lin_def nb)
qed

lemma poly_lin_bound: "drop_bit 30 (poly_lin c) = 0"
proof -
  have g: "drop_bit 30 (if b then g else 0) = 0" if "drop_bit 30 g = 0" for b and g :: u32
    using that by simp
  have "drop_bit 30 (push_bit 5 (take_bit 25 c)) = 0"
  proof -
    have "drop_bit (25 + k) (push_bit k (take_bit 25 c)) = 0" for k
      by (rule bit_word_eqI) (simp add: bit_simps)
    from this [of 5] show ?thesis by simp
  qed
  moreover have "drop_bit 30 (0x3b6a57b2 :: u32) = 0" "drop_bit 30 (0x26508e6d :: u32) = 0"
    "drop_bit 30 (0x1ea119fa :: u32) = 0" "drop_bit 30 (0x3d4233dd :: u32) = 0" "drop_bit 30 (0x2a1462b3 :: u32) = 0"
    by simp_all
  ultimately show ?thesis
    unfolding poly_lin_def by (simp only: drop_bit_xor g) simp
qed

lemma checksum_digits:
  assumes "drop_bit 30 (m :: u32) = 0"
  shows "k \<le> 6 \<Longrightarrow> fold polymod_step (map (\<lambda>i. ucast (drop_bit (5 * (5 - i)) m AND 31)) [0..<k]) c =
    (poly_lin ^^ k) c XOR drop_bit (5 * (6 - k)) m"
proof (induction k)
  case 0
  then show ?case using assms by simp
next
  case (Suc k)
  define h where "h = drop_bit (5 * (6 - k)) m"
  define l where "l = drop_bit (5 * (5 - k)) m"
  have hl: "h = drop_bit 5 l" 
  proof -
    have "5 * (6 - k) = 5 + 5 * (5 - k)" using Suc.prems by simp
    then show ?thesis by (simp only: h_def l_def drop_bit_drop_bit)
  qed
  have "drop_bit 25 h = drop_bit (25 + 5 * (6 - k) - 30) (drop_bit 30 m)"
    using Suc.prems by (simp add: h_def)
  then have hs: "drop_bit 25 h = 0" using assms by simp
  have u: "(ucast (ucast (l AND 31) :: u8) :: u32) = take_bit 5 l"
  proof -
    have "l AND 31 = take_bit 5 l" by (simp add: take_bit_eq_mask mask_eq_exp_minus_1)
    then show ?thesis by (simp only:) (rule bit_word_eqI, auto simp: bit_simps)
  qed
  have "push_bit 5 h XOR take_bit 5 l = l"
    unfolding hl by (rule bit_word_eqI) (simp only: bit_xor_iff bit_push_bit_iff bit_drop_bit_eq bit_take_bit_iff, auto)
  then show ?case
    using Suc
    by (simp add: polymod_step_lin poly_lin_xor h_def [symmetric] l_def [symmetric] u poly_lin_small [OF hs] xor.assoc)
qed

lemma checksum_valid:
  assumes "m = polymod (v @ replicate 6 0) XOR BECH32M_CONST"
  shows "polymod (v @ map (\<lambda>i. ucast (drop_bit (5 * (5 - i)) m AND 31)) [0..<6]) = BECH32M_CONST"
proof -
  define c where "c = polymod v"
  have z: "fold polymod_step (replicate k 0) c = (poly_lin ^^ k) c" for k
    by (induction k) (simp_all add: polymod_step_lin funpow_swap1)
  have p6: "polymod (v @ replicate 6 0) = (poly_lin ^^ 6) c"
    using z [of 6] by (simp add: polymod_def c_def)
  have "(poly_lin ^^ 6) c = poly_lin ((poly_lin ^^ 5) c)"
    using funpow.simps(2) [of 5 poly_lin] by (simp add: numeral_eq_Suc)
  then have "drop_bit 30 m = 0"
    using poly_lin_bound by (simp add: assms p6 drop_bit_xor BECH32M_CONST_def)
  from checksum_digits [OF this, of 6 c]
  have "polymod (v @ map (\<lambda>i. ucast (drop_bit (5 * (5 - i)) m AND 31)) [0..<6]) = (poly_lin ^^ 6) c XOR m"
    by (simp add: polymod_def c_def)
  then show ?thesis by (simp add: assms p6 xor.assoc [symmetric])
qed

section \<open>Encoding and decoding\<close>

lemma charset_facts:
  assumes "n < 32"
  shows "charset_index (CHARSET ! n) = Some (of_nat n)" "33 \<le> char_code (CHARSET ! n)"
    "char_code (CHARSET ! n) \<le> 126" "\<not> is_upper (CHARSET ! n)" "CHARSET ! n \<noteq> CHR ''1''"
proof -
  have "\<forall>n\<in>set [0..<32]. charset_index (CHARSET ! n) = Some (of_nat n) \<and> 33 \<le> char_code (CHARSET ! n)
    \<and> char_code (CHARSET ! n) \<le> 126 \<and> \<not> is_upper (CHARSET ! n) \<and> CHARSET ! n \<noteq> CHR ''1''" by code_simp
  with assms show "charset_index (CHARSET ! n) = Some (of_nat n)" "33 \<le> char_code (CHARSET ! n)"
    "char_code (CHARSET ! n) \<le> 126" "\<not> is_upper (CHARSET ! n)" "CHARSET ! n \<noteq> CHR ''1''" by auto
qed

lemma charset_indices_map:
  "list_all (\<lambda>x. unat x < 32) xs \<Longrightarrow> charset_indices (map (\<lambda>x. CHARSET ! unat x) xs) = Some xs"
  by (induction xs) (auto simp: charset_facts)

lemma rfind_last:
  assumes "c \<notin> set b"
  shows "rfind c (a @ c # b) = Some (length a)"
proof -
  have "takeWhile (\<lambda>x. x \<noteq> c) (rev b @ c # rev a) = rev b"
    using assms by (auto simp: takeWhile_append)
  then show ?thesis by (simp add: rfind_def)
qed

text \<open>A human-readable part of printable characters without capitals, as the three networks have.\<close>

definition hrp_ok :: "string \<Rightarrow> bool" where
  "hrp_ok hrp \<longleftrightarrow> hrp \<noteq> []
     \<and> list_all (\<lambda>c. 33 \<le> char_code c \<and> char_code c \<le> 126 \<and> \<not> is_upper c) hrp"

lemma small5: "drop_bit 5 (x :: u8) = 0 \<Longrightarrow> unat x < 32"
proof -
  assume "drop_bit 5 x = 0"
  then have "unat x div 2 ^ 5 = 0" by (metis unat_0 unat_drop_bit)
  then show ?thesis by (simp add: div_eq_0_iff)
qed

lemma checksum_small: "drop_bit 5 (ucast ((w :: u32) AND 31) :: u8) = 0" "unat (ucast (w AND 31) :: u8) = unat (w AND 31)"
proof -
  have m: "w AND 31 = take_bit 5 w" by (simp add: take_bit_eq_mask mask_eq_exp_minus_1)
  show "drop_bit 5 (ucast (w AND 31) :: u8) = 0"
    unfolding m by (rule bit_word_eqI) (simp add: bit_simps)
  have "unat (take_bit 5 w) < 2 ^ 5" by (simp only: unsigned_take_bit_eq take_bit_nat_less_exp)
  then show "unat (ucast (w AND 31) :: u8) = unat (w AND 31)"
    unfolding m by (simp add: unsigned_ucast_eq take_bit_nat_eq_self)
qed

theorem bech32m_decode_encode:
  assumes "hrp_ok hrp" "length (bech32m_encode hrp data) \<le> 120"
  shows "bech32m_decode (bech32m_encode hrp data) = Some (hrp, data)"
proof -
  obtain d5 k where d5: "convert_bits 8 5 True data = Some d5" "k < 5" "list_all (\<lambda>v. drop_bit 5 v = 0) d5"
    "concat (map (msb_bits 5) d5) = concat (map (msb_bits 8) data) @ replicate k False"
    using convert_pad [of data] by blast
  define m where "m = polymod ((hrp_expand hrp @ d5) @ replicate 6 0) XOR BECH32M_CONST"
  define cs where "cs = map (\<lambda>i. ucast (drop_bit (5 * (5 - i)) m AND 31) :: u8) [0..<6]"
  define body where "body = map (\<lambda>x. CHARSET ! unat x) (d5 @ cs)"
  have s: "bech32m_encode hrp data = hrp @ CHR ''1'' # body"
  proof -
    have "polymod (hrp_expand hrp @ d5 @ replicate 6 0) XOR BECH32M_CONST = m" by (simp add: m_def)
    then show ?thesis
      by (simp only: bech32m_encode_def d5(1) Let_def option.case) (simp add: body_def cs_def checksum_small(2))
  qed
  have small: "list_all (\<lambda>x. unat x < 32) (d5 @ cs)"
    using d5(3) small5 checksum_small(1) by (auto simp: list_all_iff cs_def)
  then have bodyc: "\<forall>c\<in>set body. 33 \<le> char_code c \<and> char_code c \<le> 126 \<and> \<not> is_upper c \<and> c \<noteq> CHR ''1''"
    by (auto simp: body_def list_all_iff charset_facts)
  have one: "33 \<le> char_code CHR ''1'' \<and> char_code CHR ''1'' \<le> 126 \<and> \<not> is_upper CHR ''1''"
    by (simp add: char_code_def is_upper_def)
  define e where "e = hrp @ CHR ''1'' # body"
  have chars: "\<forall>c\<in>set e. 33 \<le> char_code c \<and> char_code c \<le> 126 \<and> \<not> is_upper c"
    using assms(1) bodyc one by (auto simp: e_def hrp_ok_def list_all_iff)
  have low: "map to_lower e = e" by (rule map_idI) (use chars in \<open>simp add: to_lower_def\<close>)
  have "list_all (\<lambda>c. \<not> (char_code c < 33 \<or> char_code c > 126)) e" "\<not> list_ex is_upper e"
    using chars by (auto simp: list_all_iff list_ex_iff)
  moreover have "rfind CHR ''1'' e = Some (length hrp)"
    unfolding e_def by (rule rfind_last) (use bodyc in blast)
  moreover have "charset_indices body = Some (d5 @ cs)"
    using charset_indices_map [OF small] by (simp add: body_def)
  moreover have "polymod (hrp_expand hrp @ d5 @ cs) = BECH32M_CONST"
    using checksum_valid [OF m_def] by (simp add: cs_def)
  moreover have "convert_bits 5 8 False d5 = Some data" using convert_unpad [OF d5(3,2,4)] .
  moreover have "length cs = 6" "length body = length d5 + 6" "hrp \<noteq> []"
    using assms(1) by (auto simp: cs_def body_def hrp_ok_def Suc_le_eq)
  ultimately show ?thesis
    using assms(2) unfolding s e_def [symmetric] bech32m_decode_def low Let_def
    by (simp add: e_def)
qed

end
