(* ===== verification/Emission.thy ===== *)
theory Emission
  imports Limits
begin

unbundle bit_operations_syntax

text \<open>
  The emission curve: \<open>subsidy_after\<close> of \<open>src/src/consensus/limits.h\<close> and \<open>issued_through\<close>,
  \<open>block_subsidy\<close> of \<open>params.cpp\<close>. The three globals behind \<open>g_emission_mu\<close> are the record
  \<open>emission\<close>, threaded through the calls; \<open>issued_nat\<close> is the curve without a cache and without
  a word size, and every lookup is shown to return it, whatever lookups came before.
\<close>

section \<open>The code\<close>

definition subsidy_after :: "amount \<Rightarrow> amount" where
  "subsidy_after issued =
     (let r = (if issued \<ge> EMISSION_CURVE then 0 else drop_bit EMISSION_SPEED (EMISSION_CURVE - issued))
      in if r < TAIL_SUBSIDY then TAIL_SUBSIDY else r)"

record emission =
  g_issued_at :: "amount list"
  g_tail_height :: u64
  g_tail_base :: amount

definition emission_init :: emission where
  "emission_init = \<lparr>g_issued_at = [], g_tail_height = 0, g_tail_base = 0\<rparr>"

definition EM_STEP :: nat where "EM_STEP = 4096"

text \<open>The inner loop, with \<open>n\<close> of its 4096 steps left: \<open>iss\<close>, the tail height and its base.\<close>

primrec emission_steps :: "nat \<Rightarrow> u64 \<Rightarrow> amount \<times> u64 \<times> amount \<Rightarrow> amount \<times> u64 \<times> amount" where
  "emission_steps 0 h st = st"
| "emission_steps (Suc n) h st =
     (case st of (iss, th, tb) \<Rightarrow>
       (let i = of_nat (EM_STEP - n);
            s = subsidy_after iss;
            (th, tb) = (if s = TAIL_SUBSIDY \<and> th = 0 then (h + i, iss) else (th, tb))
        in emission_steps n h (iss + s, th, tb)))"

function emission_fill :: "u64 \<Rightarrow> emission \<Rightarrow> emission" where
  "emission_fill height em =
     (if (length (g_issued_at em) - 1) * EM_STEP < unat height \<and> g_tail_height em = 0 \<and> g_issued_at em \<noteq> []
      then
        (let h = of_nat ((length (g_issued_at em) - 1) * EM_STEP);
             (iss, th, tb) = emission_steps EM_STEP h (last (g_issued_at em), g_tail_height em, g_tail_base em)
         in emission_fill height
              (em\<lparr>g_issued_at := g_issued_at em @ [iss], g_tail_height := th, g_tail_base := tb\<rparr>))
      else em)"
  by pat_completeness auto
termination
proof (relation "measure (\<lambda>(height, em). unat height - (length (g_issued_at em) - 1) * EM_STEP)", goal_cases)
  case (2 height em h x iss y th tb)
  then obtain n where n: "length (g_issued_at em) = Suc n" by (cases "g_issued_at em") auto
  have "n * 4096 < unat height" using 2 n by (simp add: EM_STEP_def)
  then show ?case by (simp add: EM_STEP_def n)
qed simp

declare emission_fill.simps [simp del]

primrec emission_walk :: "nat \<Rightarrow> amount \<Rightarrow> amount" where
  "emission_walk 0 iss = iss"
| "emission_walk (Suc n) iss = emission_walk n (iss + subsidy_after iss)"

definition tail_issued :: "emission \<Rightarrow> u64 \<Rightarrow> amount" where
  "tail_issued em height = g_tail_base em + (height - g_tail_height em + 1) * TAIL_SUBSIDY"

definition issued_through :: "u64 \<Rightarrow> emission \<Rightarrow> amount \<times> emission" where
  "issued_through height em0 =
     (let em = (if g_issued_at em0 = [] then em0\<lparr>g_issued_at := [0]\<rparr> else em0)
      in if g_tail_height em \<noteq> 0 \<and> height \<ge> g_tail_height em then (tail_issued em height, em)
         else
           (let em = emission_fill height em
            in if g_tail_height em \<noteq> 0 \<and> height \<ge> g_tail_height em then (tail_issued em height, em)
               else
                 (let k = unat height div EM_STEP
                  in (emission_walk (unat height - k * EM_STEP) (g_issued_at em ! k), em))))"

definition block_subsidy :: "u64 \<Rightarrow> emission \<Rightarrow> amount \<times> emission" where
  "block_subsidy height em =
     (if height = 0 then (0, em)
      else (let (iss, em) = issued_through (height - 1) em in (subsidy_after iss, em)))"

section \<open>The curve itself\<close>

definition subsidy_nat :: "nat \<Rightarrow> nat" where
  "subsidy_nat issued = max (unat TAIL_SUBSIDY) ((unat EMISSION_CURVE - issued) div 2 ^ EMISSION_SPEED)"

primrec issued_nat :: "nat \<Rightarrow> nat" where
  "issued_nat 0 = 0"
| "issued_nat (Suc h) = issued_nat h + subsidy_nat (issued_nat h)"

lemma unat_subsidy_after: "unat (subsidy_after iss) = subsidy_nat (unat iss)"
proof (cases "iss \<ge> EMISSION_CURVE")
  case True
  then show ?thesis
    by (simp add: subsidy_after_def subsidy_nat_def word_le_nat_alt word_less_nat_alt unat_TAIL_SUBSIDY)
next
  case False
  then have le: "iss \<le> EMISSION_CURVE" by simp
  show ?thesis
    using False
    by (auto simp: subsidy_after_def subsidy_nat_def Let_def word_less_nat_alt unat_drop_bit
        unat_sub [OF le] max_def)
qed

lemma subsidy_nat_antimono: "a \<le> b \<Longrightarrow> subsidy_nat b \<le> subsidy_nat a"
  unfolding subsidy_nat_def by (intro max.mono div_le_mono) auto

lemma subsidy_nat_bounds:
  "unat TAIL_SUBSIDY \<le> subsidy_nat n" "subsidy_nat n \<le> unat EMISSION_CURVE div 2 ^ EMISSION_SPEED"
  by (auto simp: subsidy_nat_def unat_TAIL_SUBSIDY unat_EMISSION_CURVE EMISSION_SPEED_def
      intro!: div_le_mono)

lemma issued_nat_mono: "a \<le> b \<Longrightarrow> issued_nat a \<le> issued_nat b"
  by (rule lift_Suc_mono_le [of issued_nat]) auto

text \<open>Until the tail is reached, what has been issued stays below the curve.\<close>

lemma pre_tail_bound:
  assumes "subsidy_nat (issued_nat h) \<noteq> unat TAIL_SUBSIDY"
  shows "issued_nat h < unat EMISSION_CURVE"
proof (rule ccontr)
  assume "\<not> issued_nat h < unat EMISSION_CURVE"
  then have "subsidy_nat (issued_nat h) = unat TAIL_SUBSIDY" by (simp add: subsidy_nat_def)
  with assms show False by simp
qed

lemma tail_persists:
  assumes "subsidy_nat (issued_nat h) = unat TAIL_SUBSIDY" "h \<le> h'"
  shows "subsidy_nat (issued_nat h') = unat TAIL_SUBSIDY"
  using subsidy_nat_antimono [OF issued_nat_mono [OF assms(2)]] subsidy_nat_bounds(1) [of "issued_nat h'"]
    assms(1) by simp

lemma issued_tail:
  assumes "subsidy_nat (issued_nat h) = unat TAIL_SUBSIDY"
  shows "issued_nat (h + n) = issued_nat h + n * unat TAIL_SUBSIDY"
proof (induction n)
  case (Suc n)
  then show ?case using tail_persists [OF assms, of "h + n"] by simp
qed simp

text \<open>\<open>tail_at h\<close>: the block after height \<open>h\<close> pays the tail subsidy.\<close>

definition tail_at :: "nat \<Rightarrow> bool" where
  "tail_at h \<longleftrightarrow> subsidy_nat (issued_nat h) = unat TAIL_SUBSIDY"

lemma issued_nat_lower: "n * unat TAIL_SUBSIDY \<le> issued_nat n"
proof (induction n)
  case (Suc n)
  with subsidy_nat_bounds(1) [of "issued_nat n"] show ?case by simp
qed simp

lemma issued_nat_step_upper: "issued_nat (h + m) \<le> issued_nat h + m * 89406967163"
proof (induction m)
  case (Suc m)
  have "subsidy_nat (issued_nat (h + m)) \<le> 89406967163"
    using subsidy_nat_bounds(2) [of "issued_nat (h + m)"] by (simp add: unat_EMISSION_CURVE EMISSION_SPEED_def)
  with Suc show ?case by simp
qed simp

lemma issued_before_tail:
  assumes "\<forall>j<h. \<not> tail_at j"
  shows "issued_nat (h + m) \<le> 75 * 10 ^ 16 + (m + 1) * 89406967163" "h \<le> 22 * 10 ^ 6"
proof -
  have *: "issued_nat h \<le> 75 * 10 ^ 16 + 89406967163"
  proof (cases h)
    case (Suc k)
    then have "issued_nat k < 75 * 10 ^ 16"
      using assms pre_tail_bound [of k] by (simp add: tail_at_def unat_EMISSION_CURVE)
    with issued_nat_step_upper [of k 1] Suc show ?thesis by simp
  qed simp
  then show "issued_nat (h + m) \<le> 75 * 10 ^ 16 + (m + 1) * 89406967163"
    using issued_nat_step_upper [of h m] by simp
  show "h \<le> 22 * 10 ^ 6" using * issued_nat_lower [of h] by (simp add: unat_TAIL_SUBSIDY)
qed

section \<open>The cache agrees with the curve\<close>

text \<open>What the tail fields say after the heights up to \<open>p\<close> have been stepped through.\<close>

definition tail_ok :: "nat \<Rightarrow> u64 \<Rightarrow> amount \<Rightarrow> bool" where
  "tail_ok p th tb \<longleftrightarrow>
     (if th = 0 then \<forall>j<p. \<not> tail_at j
      else unat th \<le> p \<and> tail_at (unat th - 1) \<and> (\<forall>j<unat th - 1. \<not> tail_at j)
        \<and> unat tb = issued_nat (unat th - 1))"

definition em_ok :: "emission \<Rightarrow> bool" where
  "em_ok em \<longleftrightarrow> g_issued_at em \<noteq> []
     \<and> (\<forall>k<length (g_issued_at em). unat (g_issued_at em ! k) = issued_nat (k * EM_STEP))
     \<and> tail_ok ((length (g_issued_at em) - 1) * EM_STEP) (g_tail_height em) (g_tail_base em)"

definition em_inv :: "emission \<Rightarrow> bool" where
  "em_inv em \<longleftrightarrow> em_ok em \<or> em = emission_init"

lemma unat_add_subsidy:
  assumes "unat iss = issued_nat p" "issued_nat (Suc p) < 2 ^ 64"
  shows "unat (iss + subsidy_after iss) = issued_nat (Suc p)"
  using assms by (simp add: unat_word_ariths unat_subsidy_after)

lemma subsidy_tail_iff: "unat iss = issued_nat p \<Longrightarrow> subsidy_after iss = TAIL_SUBSIDY \<longleftrightarrow> tail_at p"
  by (simp add: word_unat_eq_iff [of "subsidy_after iss"] unat_subsidy_after tail_at_def)

lemma emission_steps_ok:
  assumes "\<forall>j<h. \<not> tail_at j" "unat hw = h"
  shows "n \<le> EM_STEP \<Longrightarrow> unat iss = issued_nat (h + (EM_STEP - n)) \<Longrightarrow> tail_ok (h + (EM_STEP - n)) th tb \<Longrightarrow>
    emission_steps n hw (iss, th, tb) = (iss', th', tb') \<Longrightarrow>
    unat iss' = issued_nat (h + EM_STEP) \<and> tail_ok (h + EM_STEP) th' tb'"
proof (induction n arbitrary: iss th tb)
  case (Suc n)
  define p where "p = h + (EM_STEP - Suc n)"
  have p: "Suc p = h + (EM_STEP - n)" "EM_STEP - n \<le> EM_STEP" using Suc.prems(1) by (auto simp: p_def)
  have iss: "unat iss = issued_nat p" using Suc.prems(2) by (simp add: p_def)
  have "issued_nat (Suc p) \<le> 75 * 10 ^ 16 + (EM_STEP - n + 1) * 89406967163"
    unfolding p(1) by (rule issued_before_tail(1) [OF assms(1)])
  also have "\<dots> < 2 ^ 64" by (simp add: EM_STEP_def)
  finally have iss': "unat (iss + subsidy_after iss) = issued_nat (Suc p)"
    by (rule unat_add_subsidy [OF iss])
  have hi: "unat (hw + of_nat (EM_STEP - n)) = Suc p"
    using issued_before_tail(2) [OF assms(1)] assms(2) p
    by (simp add: unat_word_ariths unat_of_nat_64 EM_STEP_def)
  define c where "c \<longleftrightarrow> subsidy_after iss = TAIL_SUBSIDY \<and> th = 0"
  define th1 tb1 where "th1 = (if c then hw + of_nat (EM_STEP - n) else th)"
    and "tb1 = (if c then iss else tb)"
  have tp: "tail_ok p th tb" using Suc.prems(3) by (simp add: p_def)
  have "tail_ok (Suc p) th1 tb1"
  proof (cases c)
    case True
    then have "unat th1 = Suc p" "tb1 = iss" "th = 0" "tail_at p"
      using hi subsidy_tail_iff [OF iss] by (simp_all add: th1_def tb1_def c_def)
    moreover from this have "th1 \<noteq> 0" by (metis Zero_not_Suc unat_0)
    ultimately show ?thesis using tp iss by (simp add: tail_ok_def)
  next
    case False
    then have eq: "th1 = th" "tb1 = tb" by (simp_all add: th1_def tb1_def)
    show ?thesis
    proof (cases "th = 0")
      case True
      with False have "\<not> tail_at p" by (simp add: c_def subsidy_tail_iff [OF iss])
      with True tp show ?thesis by (simp add: tail_ok_def eq less_Suc_eq all_conj_distrib)
    next
      case False
      with tp show ?thesis by (simp add: tail_ok_def eq)
    qed
  qed
  moreover have "emission_steps (Suc n) hw (iss, th, tb) =
      emission_steps n hw (iss + subsidy_after iss, th1, tb1)"
    by (simp add: Let_def c_def th1_def tb1_def)
  ultimately show ?case
    using Suc.IH [of "iss + subsidy_after iss" th1 tb1] Suc.prems(1,4) iss' p by simp
qed simp

lemma emission_fill_ok:
  "em_ok em \<Longrightarrow> em_ok (emission_fill height em) \<and>
     (unat height \<le> (length (g_issued_at (emission_fill height em)) - 1) * EM_STEP
      \<or> g_tail_height (emission_fill height em) \<noteq> 0)"
proof (induction height em rule: emission_fill.induct)
  case (1 height em)
  show ?case
  proof (cases "(length (g_issued_at em) - 1) * EM_STEP < unat height \<and> g_tail_height em = 0")
    case False
    then have "emission_fill height em = em" by (subst emission_fill.simps) auto
    with False "1.prems" show ?thesis by auto
  next
    case True
    define h where "h = (length (g_issued_at em) - 1) * EM_STEP"
    obtain iss th tb where s: "emission_steps EM_STEP (of_nat h)
        (last (g_issued_at em), g_tail_height em, g_tail_base em) = (iss, th, tb)"
      by (metis prod_cases3)
    have ne: "g_issued_at em \<noteq> []" using "1.prems" by (simp add: em_ok_def)
    have last: "unat (last (g_issued_at em)) = issued_nat h"
      using "1.prems" ne by (simp add: em_ok_def h_def last_conv_nth)
    have nt: "\<forall>j<h. \<not> tail_at j" using "1.prems" True by (simp add: em_ok_def tail_ok_def h_def)
    have "unat (of_nat h :: u64) = h" using issued_before_tail(2) [OF nt] by (simp add: unat_of_nat_64)
    from emission_steps_ok [OF nt this le_refl _ _ s] last "1.prems"
    have st: "unat iss = issued_nat (h + EM_STEP) \<and> tail_ok (h + EM_STEP) th tb"
      by (simp add: em_ok_def h_def)
    define em' where "em' = em\<lparr>g_issued_at := g_issued_at em @ [iss], g_tail_height := th, g_tail_base := tb\<rparr>"
    have len: "length (g_issued_at em) * EM_STEP = h + EM_STEP"
      using ne by (cases "g_issued_at em") (simp_all add: h_def)
    have "em_ok em'"
      using "1.prems" st len by (auto simp: em_ok_def em'_def nth_append less_Suc_eq)
    moreover have "emission_fill height em = emission_fill height em'"
      using True ne s [unfolded h_def] by (subst emission_fill.simps) (simp add: em'_def)
    moreover note "1.IH" [OF _ refl s [unfolded h_def, symmetric] refl]
    ultimately show ?thesis using True ne by (simp add: em'_def)
  qed
qed

lemma emission_walk_ok:
  "issued_nat (p + n) < 2 ^ 64 \<Longrightarrow> unat iss = issued_nat p \<Longrightarrow>
   unat (emission_walk n iss) = issued_nat (p + n)"
proof (induction n arbitrary: p iss)
  case (Suc n)
  have "issued_nat (Suc p) < 2 ^ 64"
    using Suc.prems(1) issued_nat_mono [of "Suc p" "p + Suc n"] by linarith
  with Suc.IH [of "Suc p" "iss + subsidy_after iss"] Suc.prems unat_add_subsidy [of iss p]
  show ?case by simp
qed simp

lemma tail_issued_ok:
  assumes "em_ok em" "g_tail_height em \<noteq> 0" "g_tail_height em \<le> height"
  shows "unat (tail_issued em height) = issued_nat (unat height) mod 2 ^ 64"
proof -
  define t where "t = unat (g_tail_height em)"
  have t: "0 < t" "t \<le> unat height" "tail_at (t - 1)" "unat (g_tail_base em) = issued_nat (t - 1)"
    using assms by (auto simp: em_ok_def tail_ok_def t_def word_le_nat_alt unat_gt_0)
  have "unat (tail_issued em height) =
      (issued_nat (t - 1) + (unat height - t + 1) * unat TAIL_SUBSIDY) mod 2 ^ 64"
    by (simp add: tail_issued_def unat_word_ariths t(4) unat_sub [OF assms(3)] t_def [symmetric]
        mod_simps)
  also have "issued_nat (t - 1) + (unat height - t + 1) * unat TAIL_SUBSIDY = issued_nat (unat height)"
    using issued_tail [of "t - 1" "unat height - t + 1"] t by (simp add: tail_at_def)
  finally show ?thesis .
qed

text \<open>Every lookup returns the curve, whatever the cache held, and keeps the cache right.\<close>

theorem issued_through_ok:
  assumes "em_inv em" "issued_through height em = (v, em')"
  shows "unat v = issued_nat (unat height) mod 2 ^ 64" "em_inv em'"
proof -
  define em1 where "em1 = (if g_issued_at em = [] then em\<lparr>g_issued_at := [0]\<rparr> else em)"
  have ok1: "em_ok em1"
    using assms(1) by (auto simp: em_inv_def em1_def em_ok_def emission_init_def tail_ok_def)
  define em2 where "em2 = emission_fill height em1"
  have ok2: "em_ok em2"
    and fin: "unat height \<le> (length (g_issued_at em2) - 1) * EM_STEP \<or> g_tail_height em2 \<noteq> 0"
    using emission_fill_ok [OF ok1, of height] by (simp_all add: em2_def)
  consider (t1) "g_tail_height em1 \<noteq> 0" "g_tail_height em1 \<le> height"
      "v = tail_issued em1 height" "em' = em1"
    | (t2) "g_tail_height em2 \<noteq> 0" "g_tail_height em2 \<le> height"
      "v = tail_issued em2 height" "em' = em2"
    | (walk) "g_tail_height em2 = 0 \<or> height < g_tail_height em2" "em' = em2"
      "v = emission_walk (unat height - unat height div EM_STEP * EM_STEP)
             (g_issued_at em2 ! (unat height div EM_STEP))"
  proof -
    have "(v, em') =
        (if g_tail_height em1 \<noteq> 0 \<and> g_tail_height em1 \<le> height then (tail_issued em1 height, em1)
         else if g_tail_height em2 \<noteq> 0 \<and> g_tail_height em2 \<le> height then (tail_issued em2 height, em2)
         else (emission_walk (unat height - unat height div EM_STEP * EM_STEP)
                 (g_issued_at em2 ! (unat height div EM_STEP)), em2))"
      using assms(2) unfolding issued_through_def Let_def em1_def [symmetric] em2_def [symmetric] by simp
    then consider "g_tail_height em1 \<noteq> 0 \<and> g_tail_height em1 \<le> height" "(v, em') = (tail_issued em1 height, em1)"
      | "g_tail_height em2 \<noteq> 0 \<and> g_tail_height em2 \<le> height" "(v, em') = (tail_issued em2 height, em2)"
      | "\<not> (g_tail_height em2 \<noteq> 0 \<and> g_tail_height em2 \<le> height)"
        "(v, em') = (emission_walk (unat height - unat height div EM_STEP * EM_STEP)
           (g_issued_at em2 ! (unat height div EM_STEP)), em2)"
      by argo
    then show ?thesis
    proof cases
      case 1
      with t1 show ?thesis by blast
    next
      case 2
      with t2 show ?thesis by blast
    next
      case 3
      with walk show ?thesis by (metis not_le prod.inject)
    qed
  qed
  then have "unat v = issued_nat (unat height) mod 2 ^ 64 \<and> em_ok em'"
  proof cases
    case walk
    define k where "k = unat height div EM_STEP"
    have nt: "\<forall>j<unat height. \<not> tail_at j"
      and le: "unat height \<le> (length (g_issued_at em2) - 1) * EM_STEP"
      using walk(1) fin ok2 by (auto simp: em_ok_def tail_ok_def word_less_nat_alt split: if_splits)
    have "k \<le> length (g_issued_at em2) - 1"
      using div_le_mono [OF le, of EM_STEP] by (simp add: k_def EM_STEP_def)
    then have "unat (g_issued_at em2 ! k) = issued_nat (k * EM_STEP)"
      using ok2 by (auto simp: em_ok_def le_less_trans Suc_le_lessD)
    moreover have small: "issued_nat (unat height) < 2 ^ 64"
      using issued_before_tail(1) [OF nt, of 0] by simp
    moreover have "k * EM_STEP \<le> unat height" by (simp add: k_def)
    ultimately show ?thesis
      using emission_walk_ok [of "k * EM_STEP" "unat height - k * EM_STEP" "g_issued_at em2 ! k"]
        ok2 walk by (simp add: k_def)
  qed (use ok1 ok2 tail_issued_ok in simp_all)
  then show "unat v = issued_nat (unat height) mod 2 ^ 64" "em_inv em'" by (simp_all add: em_inv_def)
qed

end
