(* ===== verification/Params.thy ===== *)
theory Params
  imports Block Target Bech32 Emission
begin

text \<open>
  The three networks of \<open>src/src/consensus/params.h\<close> and \<open>params.cpp\<close>: their constants, the genesis
  block, and addresses. \<open>params_for\<close> caches a pure construction, so it is the construction itself;
  the signed members (\<open>int64_t\<close>, \<open>int\<close>) hold small constants and are integers here.
\<close>

section \<open>Chain parameters\<close>

datatype network = Main | Test | Regtest

record chain_params =
  net :: network
  p_name :: string
  p_hrp :: string
  magic :: bytes
  p2p_port :: u16
  rpc_port :: u16
  lan_port :: u16
  pow_limit :: u256
  genesis_bits :: u32
  no_retarget :: bool
  launched :: bool
  genesis_time :: u64
  genesis_message :: string
  genesis :: block
  genesis_hash :: hash256
  dht_infohash :: bytes
  snapshot_interval :: int
  snapshot_delay :: int
  coinbase_maturity :: int

definition is_commit_height :: "chain_params \<Rightarrow> int \<Rightarrow> bool" where
  "is_commit_height p h \<longleftrightarrow> h \<ge> snapshot_interval p + snapshot_delay p
     \<and> h mod snapshot_interval p = snapshot_delay p"

definition MAINNET_GENESIS_TIME :: u64 where "MAINNET_GENESIS_TIME = 0"
definition MAINNET_GENESIS_MESSAGE :: string where
  "MAINNET_GENESIS_MESSAGE = ''Quant: post-quantum money for everyone''"

definition genesis_coinbase :: "string \<Rightarrow> transaction" where
  "genesis_coinbase msg =
     (let ex = string_bytes msg;
          ex = (if length ex > unat MAX_COINBASE_EXTRA then take (unat MAX_COINBASE_EXTRA) ex else ex)
      in \<lparr>t_version = 2, ins = [], outs = [], ops = [], lock_height = 0, extra = ex, wits = []\<rparr>)"

definition make_genesis :: "crypto \<Rightarrow> u64 \<Rightarrow> u32 \<Rightarrow> string \<Rightarrow> block" where
  "make_genesis cr time bits msg =
     (let b = \<lparr>header = \<lparr>h_version = 2, h_prev = hash_zero, merkle_root_f = hash_zero,
                 witness_root_f = hash_zero, state_commit = hash_zero, h_time = time, h_bits = bits,
                 h_nonce = 0\<rparr>,
               txs = [genesis_coinbase msg]\<rparr>
      in b\<lparr>header := (header b)\<lparr>merkle_root_f := compute_merkle_root cr b,
                                 witness_root_f := compute_witness_root cr b\<rparr>\<rparr>)"

text \<open>A default-constructed \<open>Block\<close>.\<close>

definition blank_block :: block where
  "blank_block = \<lparr>header = \<lparr>h_version = 2, h_prev = hash_zero, merkle_root_f = hash_zero,
     witness_root_f = hash_zero, state_commit = hash_zero, h_time = 0, h_bits = 0, h_nonce = 0\<rparr>, txs = []\<rparr>"

definition finish :: "crypto \<Rightarrow> chain_params \<Rightarrow> chain_params" where
  "finish cr p =
     (let g = make_genesis cr (genesis_time p) (genesis_bits p) (genesis_message p);
          gh = header_hash cr (header g);
          key = ''Quant DHT v2 '' @ p_name p @ '' '' @ hash_hex gh;
          h = blake3 cr (string_bytes key)
      in p\<lparr>genesis := g, genesis_hash := gh, dht_infohash := take 20 (hash_bytes h)\<rparr>)"

definition pow2_minus_1 :: "nat \<Rightarrow> u256" where
  "pow2_minus_1 n = u256_sub (u256_shl (u256_of 1) n) (u256_of 1)"

text \<open>The switch of \<open>build\<close> before \<open>finish\<close>; the members \<open>finish\<close> sets are still blank.\<close>

fun build_switch :: "network \<Rightarrow> chain_params" where
  "build_switch Main = \<lparr>net = Main, p_name = ''main'', p_hrp = ''qnt'',
     magic = [0x51, 0x4e, 0x54, 0xb2], p2p_port = 7337, rpc_port = 7338, lan_port = 7339,
     pow_limit = pow2_minus_1 236, genesis_bits = to_compact (u256_shl (u256_of 1) 226),
     no_retarget = False, launched = (MAINNET_GENESIS_TIME \<noteq> 0),
     genesis_time = (if MAINNET_GENESIS_TIME \<noteq> 0 then MAINNET_GENESIS_TIME else 1790000000),
     genesis_message = MAINNET_GENESIS_MESSAGE,
     genesis = blank_block, genesis_hash = hash_zero, dht_infohash = [],
     snapshot_interval = 10080, snapshot_delay = 100, coinbase_maturity = COINBASE_MATURITY\<rparr>"
| "build_switch Test = \<lparr>net = Test, p_name = ''test'', p_hrp = ''tqnt'',
     magic = [0x51, 0x4e, 0x54, 0x82], p2p_port = 17337, rpc_port = 17338, lan_port = 17339,
     pow_limit = pow2_minus_1 240, genesis_bits = to_compact (u256_shl (u256_of 1) 230),
     no_retarget = False, launched = True, genesis_time = 1792800000,
     genesis_message = ''Quant v2 testnet 2026-10-24'',
     genesis = blank_block, genesis_hash = hash_zero, dht_infohash = [],
     snapshot_interval = 10080, snapshot_delay = 100, coinbase_maturity = 10\<rparr>"
| "build_switch Regtest = \<lparr>net = Regtest, p_name = ''regtest'', p_hrp = ''rqnt'',
     magic = [0x51, 0x4e, 0x54, 0x20], p2p_port = 27337, rpc_port = 27338, lan_port = 27339,
     pow_limit = pow2_minus_1 255, genesis_bits = to_compact (pow2_minus_1 255),
     no_retarget = True, launched = True, genesis_time = 1790121600,
     genesis_message = ''Quant v2 regtest'',
     genesis = blank_block, genesis_hash = hash_zero, dht_infohash = [],
     snapshot_interval = 50, snapshot_delay = 5, coinbase_maturity = COINBASE_MATURITY\<rparr>"

definition build :: "crypto \<Rightarrow> network \<Rightarrow> chain_params" where
  "build cr n = finish cr (build_switch n)"

definition params_for :: "crypto \<Rightarrow> network \<Rightarrow> chain_params" where
  "params_for cr n = build cr n"

definition maturity_for_genesis :: "crypto \<Rightarrow> hash256 \<Rightarrow> int" where
  "maturity_for_genesis cr g =
     (if genesis_hash (params_for cr Main) = g then coinbase_maturity (params_for cr Main)
      else if genesis_hash (params_for cr Test) = g then coinbase_maturity (params_for cr Test)
      else if genesis_hash (params_for cr Regtest) = g then coinbase_maturity (params_for cr Regtest)
      else COINBASE_MATURITY)"

text \<open>The network and the \<open>ok\<close> flag.\<close>

definition network_from_name :: "string \<Rightarrow> network \<times> bool" where
  "network_from_name s =
     (if s = ''main'' \<or> s = ''mainnet'' then (Main, True)
      else if s = ''test'' \<or> s = ''testnet'' then (Test, True)
      else if s = ''regtest'' then (Regtest, True)
      else (Test, False))"

section \<open>Addresses\<close>

definition encode_address :: "chain_params \<Rightarrow> u8 \<Rightarrow> hash256 \<Rightarrow> string" where
  "encode_address p ver addr = bech32m_encode (p_hrp p) (ver # hash_bytes addr)"

definition decode_address :: "chain_params \<Rightarrow> string \<Rightarrow> (u8 \<times> hash256) option" where
  "decode_address p s =
     (case bech32m_decode s of None \<Rightarrow> None
      | Some (hrp, d) \<Rightarrow>
          if hrp \<noteq> p_hrp p \<or> length d \<noteq> 33 then None
          else Some (hd d, hash_of (take 32 (tl d))))"

section \<open>Facts\<close>

lemma length_encode_bound:
  assumes "convert_bits 8 5 True data = Some d5"
  shows "length (bech32m_encode hrp data) = length hrp + 7 + length d5"
  using assms by (simp add: bech32m_encode_def Let_def)

lemma convert_pad_length:
  assumes "convert_bits 8 5 True data = Some d5"
  shows "5 * length d5 < 8 * length data + 5"
proof -
  obtain k where "k < 5" "concat (map (msb_bits 5) d5) = concat (map (msb_bits 8) data) @ replicate k False"
    using convert_pad [of data] assms by auto
  moreover have "length (concat (map (msb_bits n) xs)) = n * length xs" for n and xs :: bytes
    by (induction xs) auto
  ultimately show ?thesis by (metis length_append length_replicate nat_add_left_cancel_less)
qed

lemma network_hrp:
  "p_hrp (params_for cr n) = (case n of Main \<Rightarrow> ''qnt'' | Test \<Rightarrow> ''tqnt'' | Regtest \<Rightarrow> ''rqnt'')"
  by (cases n) (simp_all add: params_for_def build_def finish_def Let_def)

lemma network_hrp_ok: "hrp_ok (p_hrp (params_for cr n)) \<and> length (p_hrp (params_for cr n)) \<le> 4"
  by (cases n) (simp_all add: network_hrp hrp_ok_def is_upper_def char_code_def)

lemma decode_network_encode:
  "bech32m_decode (encode_address (params_for cr n) ver addr) =
     Some (p_hrp (params_for cr n), ver # hash_bytes addr)"
proof -
  obtain d5 where d5: "convert_bits 8 5 True (ver # hash_bytes addr) = Some d5"
    using convert_pad [of "ver # hash_bytes addr"] by blast
  have "length (bech32m_encode (p_hrp (params_for cr n)) (ver # hash_bytes addr)) \<le> 120"
    using convert_pad_length [OF d5] length_encode_bound [OF d5] network_hrp_ok [of cr n] by simp
  with network_hrp_ok [of cr n] show ?thesis by (simp add: bech32m_decode_encode encode_address_def)
qed

theorem decode_encode_address:
  "decode_address (params_for cr n) (encode_address (params_for cr n) ver addr) = Some (ver, addr)"
  by (simp add: decode_address_def decode_network_encode)

text \<open>An address of one network never reads as an address of another.\<close>

theorem address_networks_disjoint:
  "n \<noteq> n' \<Longrightarrow> decode_address (params_for cr n') (encode_address (params_for cr n) ver addr) = None"
  by (cases n; cases n') (simp_all add: decode_address_def decode_network_encode network_hrp)

lemma pow_limit_val:
  "u256_val (pow_limit (params_for cr n)) = (case n of Main \<Rightarrow> 2 ^ 236 | Test \<Rightarrow> 2 ^ 240 | Regtest \<Rightarrow> 2 ^ 255) - 1"
  by (cases n) (simp_all add: params_for_def build_def finish_def Let_def pow2_minus_1_def u256_val_sub_le u256_val_shl)

lemma no_retarget_iff: "no_retarget (params_for cr n) \<longleftrightarrow> n = Regtest"
  by (cases n) (simp_all add: params_for_def build_def finish_def Let_def)

lemma maturity_pos: "10 \<le> maturity_for_genesis cr g"
  by (simp add: maturity_for_genesis_def params_for_def build_def finish_def Let_def COINBASE_MATURITY_def)

end
