(* ===== verification/Amm.thy ===== *)
theory Amm
  imports Limits U256
begin

unbundle bit_operations_syntax

text \<open>
  The exact integer arithmetic of the constant-product pools, the first part of
  \<open>src/src/consensus/ledger.cpp\<close>: 64-bit amounts, 128-bit products and 256-bit quotients, at their
  widths. Each function is shown to compute the intended rational rounded down, without overflow
  where the source has none.
\<close>

section \<open>The code\<close>

record pool =
  p_token :: hash256
  p_qnt :: amount
  p_tok :: amount
  p_shares :: amount

definition u256_of_u128 :: "u128 \<Rightarrow> u256" where
  "u256_of_u128 v = U256 (ucast v) (ucast (drop_bit 64 v)) 0 0"

definition fits_u64 :: "u256 \<Rightarrow> bool" where
  "fits_u64 v \<longleftrightarrow> (w1 v OR w2 v OR w3 v) = 0"

definition mul_div :: "amount \<Rightarrow> amount \<Rightarrow> amount \<Rightarrow> amount" where
  "mul_div a b c =
     (if c = 0 then 0
      else (let q = (ucast a * ucast b :: u128) div ucast c in
            if drop_bit 64 q \<noteq> 0 then 0 else ucast q))"

definition amm_quote :: "amount \<Rightarrow> amount \<Rightarrow> amount \<Rightarrow> amount" where
  "amm_quote inp rin rout =
     (if inp = 0 \<or> rin = 0 \<or> rout = 0 then 0
      else
        (let in_fee = u256_of_u128 (ucast inp * ucast (10000 - POOL_FEE_BPS));
             num = u256_mul64 in_fee rout;
             den = u256_add (u256_of_u128 (ucast rin * 10000)) in_fee;
             q = u256_div num den
         in if fits_u64 q then w0 q else 0))"

text \<open>\<open>while (in > 1 && amm_quote(in - 1, rin, rout) >= out) in--;\<close>\<close>

function tighten :: "amount \<Rightarrow> amount \<Rightarrow> amount \<Rightarrow> amount \<Rightarrow> amount" where
  "tighten out rin rout inp =
     (if inp > 1 \<and> amm_quote (inp - 1) rin rout \<ge> out then tighten out rin rout (inp - 1) else inp)"
  by pat_completeness auto
termination
proof (relation "measure (\<lambda>(out, rin, rout, inp). unat inp)", goal_cases)
  case (2 out rin rout inp)
  then have "1 \<le> inp" using order_less_imp_le by blast
  then have "unat (inp - 1) = unat inp - 1" by (simp add: unat_sub)
  moreover have "0 < unat inp" using \<open>1 \<le> inp\<close> by (simp add: word_le_nat_alt)
  ultimately show ?case by simp
qed simp

declare tighten.simps [simp del]

definition amm_quote_in :: "amount \<Rightarrow> amount \<Rightarrow> amount \<Rightarrow> amount" where
  "amm_quote_in out rin rout =
     (if out = 0 \<or> out \<ge> rout \<or> rin = 0 then 0
      else
        (let num = u256_mul64 (u256_of_u128 (ucast rin * ucast out)) 10000;
             den = u256_of_u128 (ucast (rout - out) * ucast (10000 - POOL_FEE_BPS));
             q = u256_div num den
         in if \<not> fits_u64 q then 0
            else (let inp = tighten out rin rout (w0 q + 1)
                  in if amm_quote inp rin rout \<ge> out then inp else 0)))"

function newton :: "u128 \<Rightarrow> u128 \<Rightarrow> u128" where
  "newton n x = (let y = (x + n div x) div 2 in if y \<ge> x then x else newton n y)"
  by pat_completeness auto
termination
  by (relation "measure (\<lambda>(n, x). unat x)") (auto simp: word_less_nat_alt not_le)

declare newton.simps [simp del]

text \<open>\<open>while (x * x > n) x--;\<close>\<close>

function root_down :: "u128 \<Rightarrow> u128 \<Rightarrow> u128" where
  "root_down n x = (if x * x > n then root_down n (x - 1) else x)"
  by pat_completeness auto
termination
proof (relation "measure (\<lambda>(n, x). unat x)", goal_cases)
  case (2 n x)
  then have "x \<noteq> 0" by auto
  then have "1 \<le> x" by (simp add: word_le_nat_alt unat_gt_0 Suc_leI)
  then have "unat (x - 1) = unat x - 1" by (simp add: unat_sub)
  moreover have "0 < unat x" using \<open>x \<noteq> 0\<close> by (simp add: unat_gt_0)
  ultimately show ?case by simp
qed simp

declare root_down.simps [simp del]

definition amm_initial_shares :: "amount \<Rightarrow> amount \<Rightarrow> amount" where
  "amm_initial_shares qnt tok =
     (let n = (ucast qnt * ucast tok :: u128) in
      if n = 0 then 0
      else
        (let hi = (ucast (drop_bit 64 n) :: u64);
             bits = (if hi \<noteq> 0 then 128 - clz64 hi else 64 - clz64 (ucast n));
             x = push_bit ((bits + 1) div 2) 1
         in ucast (root_down n (newton n x))))"

definition amm_add_shares :: "pool \<Rightarrow> amount \<Rightarrow> amount \<Rightarrow> amount" where
  "amm_add_shares p qnt tok =
     (if p_qnt p = 0 \<or> p_tok p = 0 \<or> p_shares p = 0 then 0
      else
        (let a = mul_div qnt (p_shares p) (p_qnt p);
             b = mul_div tok (p_shares p) (p_tok p)
         in if a < b then a else b))"

definition amm_remove_amounts :: "pool \<Rightarrow> amount \<Rightarrow> amount \<times> amount" where
  "amm_remove_amounts p shares =
     (mul_div shares (p_qnt p) (p_shares p), mul_div shares (p_tok p) (p_shares p))"

section \<open>Values\<close>

lemma unat_mul_64_128: "unat (ucast (a :: u64) * ucast (b :: u64) :: u128) = unat a * unat b"
proof -
  have "unat a * unat b \<le> (2 ^ 64 - 1) * (2 ^ 64 - 1)"
    using unat_lt_64 [of a] unat_lt_64 [of b] by (intro mult_le_mono) auto
  then show ?thesis by (simp add: unat_word_ariths)
qed

lemma u256_val_of_u128 [u256_val]: "u256_val (u256_of_u128 v) = unat v"
proof -
  have "unat v mod 2 ^ 64 + 2 ^ 64 * (unat v div 2 ^ 64) = unat v" by simp
  moreover have "unat v div 2 ^ 64 < 2 ^ 64" using unat_lt_128 [of v] by (simp add: div_less_iff_less_mult)
  ultimately show ?thesis
    by (simp add: u256_of_u128_def u256_val_def limbs_def unat_ucast_128_64 unat_drop_bit del: mult_div_mod_eq)
qed

lemma fits_u64_iff: "fits_u64 v \<longleftrightarrow> u256_val v < 2 ^ 64"
proof -
  have "a OR b = 0 \<longleftrightarrow> a = 0 \<and> b = 0" for a b :: u64
    by (auto simp: bit_eq_iff bit_simps)
  then have "fits_u64 v \<longleftrightarrow> unat (w1 v) = 0 \<and> unat (w2 v) = 0 \<and> unat (w3 v) = 0"
    by (simp add: fits_u64_def unat_eq_0)
  then show ?thesis
    using unat_lt_64 [of "w0 v"] by (auto simp: u256_val_def limbs_def)
qed

lemma unat_w0_small: "u256_val v < 2 ^ 64 \<Longrightarrow> unat (w0 v) = u256_val v"
  using unat_lt_64 [of "w0 v"] by (auto simp: u256_val_def limbs_def)

lemma mul_div_val:
  "unat (mul_div a b c) =
     (let q = unat a * unat b div unat c in if c = 0 \<or> q \<ge> 2 ^ 64 then 0 else q)"
proof (cases "c = 0")
  case False
  define q where "q = (ucast a * ucast b :: u128) div ucast c"
  have q: "unat q = unat a * unat b div unat c" by (simp add: q_def unat_div unat_mul_64_128)
  have "drop_bit 64 q = 0 \<longleftrightarrow> unat q div 2 ^ 64 = 0"
    by (metis unat_drop_bit unat_eq_0)
  then have "drop_bit 64 q \<noteq> 0 \<longleftrightarrow> 2 ^ 64 \<le> unat q" by (auto simp: div_eq_0_iff)
  with False q show ?thesis by (simp add: mul_div_def q_def [symmetric] Let_def unat_ucast_128_64)
qed (simp add: mul_div_def)

lemma mul_div_le: "unat (mul_div a b c) * unat c \<le> unat a * unat b"
  using div_times_less_eq_dividend [of "unat a * unat b" "unat c"] by (auto simp: mul_div_val Let_def)

text \<open>\<open>amm_quote\<close> is \<open>\<lfloor>9970 in rout / (10000 rin + 9970 in)\<rfloor>\<close>, and never overflows.\<close>

definition quote_nat :: "nat \<Rightarrow> nat \<Rightarrow> nat \<Rightarrow> nat" where
  "quote_nat i rin rout = (if rin = 0 then 0 else i * 9970 * rout div (rin * 10000 + i * 9970))"

lemma quote_nat_less: "0 < rin \<Longrightarrow> 0 < rout \<Longrightarrow> quote_nat i rin rout < rout"
  by (simp add: quote_nat_def div_less_iff_less_mult algebra_simps)

lemma fee_num: "unat (10000 - POOL_FEE_BPS) = 9970"
  by (simp add: POOL_FEE_BPS_def)

lemma unat_10000: "unat (10000 :: u128) = 10000" "unat (10000 :: u64) = 10000"
  by simp_all

theorem amm_quote_val: "unat (amm_quote i rin rout) = quote_nat (unat i) (unat rin) (unat rout)"
proof (cases "i = 0 \<or> rin = 0 \<or> rout = 0")
  case True
  then show ?thesis by (auto simp: amm_quote_def quote_nat_def)
next
  case False
  then have pos: "0 < unat i" "0 < unat rin" "0 < unat rout" by (simp_all add: unat_gt_0)
  define fee where "fee = u256_of_u128 (ucast i * ucast (10000 - POOL_FEE_BPS))"
  define den where "den = u256_add (u256_of_u128 (ucast rin * 10000)) fee"
  have fee: "u256_val fee = unat i * 9970"
    by (simp only: fee_def u256_val_of_u128 unat_mul_64_128 fee_num)
  have lt: "unat i * 9970 < 2 ^ 64 * 9970" "unat rin * 10000 < 2 ^ 64 * 10000"
    using unat_lt_64 [of i] unat_lt_64 [of rin] by simp_all
  have r: "u256_val (u256_of_u128 (ucast rin * 10000)) = unat rin * 10000"
    using lt by (simp add: u256_val_of_u128 unat_word_ariths)
  have den: "u256_val den = unat rin * 10000 + unat i * 9970"
    using lt by (simp add: den_def u256_val_add r fee)
  have "unat i * 9970 * unat rout < 2 ^ 64 * 9970 * 2 ^ 64"
    using mult_strict_mono' [OF lt(1) unat_lt_64 [of rout]] by simp
  then have num: "u256_val (u256_mul64 fee rout) = unat i * 9970 * unat rout"
    by (simp add: u256_val_mul64 fee)
  have q: "u256_val (u256_div (u256_mul64 fee rout) den) = quote_nat (unat i) (unat rin) (unat rout)"
    using pos by (simp add: u256_val_div num den quote_nat_def)
  have small: "quote_nat (unat i) (unat rin) (unat rout) < 2 ^ 64"
    using quote_nat_less [OF pos(2,3), of "unat i"] unat_lt_64 [of rout] by linarith
  have "amm_quote i rin rout = (if fits_u64 (u256_div (u256_mul64 fee rout) den)
      then w0 (u256_div (u256_mul64 fee rout) den) else 0)"
    using False by (simp add: amm_quote_def Let_def fee_def den_def)
  then show ?thesis using small q by (simp add: fits_u64_iff unat_w0_small)
qed

lemma quote_nat_mono: "i \<le> j \<Longrightarrow> quote_nat i rin rout \<le> quote_nat j rin rout"
proof (cases "rin = 0")
  case False
  assume "i \<le> j"
  define q where "q = quote_nat i rin rout"
  have q: "q * (rin * 10000 + i * 9970) \<le> i * 9970 * rout"
    unfolding q_def quote_nat_def using False div_times_less_eq_dividend by simp
  have "q \<le> rout"
    using quote_nat_less [of rin rout i] False by (cases "rout = 0") (auto simp: q_def quote_nat_def)
  moreover obtain d where d: "j = i + d" using \<open>i \<le> j\<close> le_Suc_ex by blast
  ultimately have "q * (d * 9970) + q * (rin * 10000 + i * 9970) \<le> rout * (d * 9970) + i * 9970 * rout"
    using q by (intro add_mono mult_le_mono1) auto
  then have "q * (rin * 10000 + j * 9970) \<le> j * 9970 * rout" by (simp add: d algebra_simps)
  with False show ?thesis
    by (simp add: q_def [symmetric] quote_nat_def [of j] less_eq_div_iff_mult_less_eq)
qed (simp add: quote_nat_def)

text \<open>An input suffices exactly when the constant product, with the fee taken out, allows it.\<close>

lemma quote_nat_ge_iff:
  assumes "0 < rin" "out \<le> rout"
  shows "out \<le> quote_nat i rin rout \<longleftrightarrow> rin * out * 10000 \<le> i * ((rout - out) * 9970)"
proof -
  obtain d where d: "rout = out + d" using assms(2) le_Suc_ex by blast
  have "out \<le> quote_nat i rin rout \<longleftrightarrow> out * (rin * 10000 + i * 9970) \<le> i * 9970 * rout"
    using assms(1) by (simp add: quote_nat_def less_eq_div_iff_mult_less_eq)
  then show ?thesis by (simp add: d algebra_simps)
qed

theorem quote_constant_product:
  assumes "out \<le> quote_nat i rin rout" "out \<le> rout" "0 < rin"
  shows "rin * rout \<le> (rin + i) * (rout - out)"
proof -
  obtain d where d: "rout = out + d" using assms(2) le_Suc_ex by blast
  have "rin * out * 10000 \<le> i * (d * 9970)" using assms quote_nat_ge_iff [of rin out rout i] by (simp add: d)
  then have "rin * out * 9970 \<le> i * d * 9970" by (simp add: algebra_simps)
  then show ?thesis by (simp add: d algebra_simps)
qed

section \<open>The inverse quote\<close>

text \<open>The least input that buys \<open>out\<close>: \<open>\<lceil>10000 rin out / (9970 (rout - out))\<rceil>\<close>.\<close>

definition ceil_div :: "nat \<Rightarrow> nat \<Rightarrow> nat" where
  "ceil_div a b = (a + b - 1) div b"

lemma ceil_div_le_iff: "0 < b \<Longrightarrow> ceil_div a b \<le> x \<longleftrightarrow> a \<le> x * b"
proof -
  assume b: "0 < b"
  have "ceil_div a b < Suc x \<longleftrightarrow> a + b - 1 < Suc x * b"
    unfolding ceil_div_def using b by (rule div_less_iff_less_mult)
  with b show ?thesis by (auto simp: less_Suc_eq_le)
qed

definition quote_in_nat :: "nat \<Rightarrow> nat \<Rightarrow> nat \<Rightarrow> nat" where
  "quote_in_nat out rin rout = ceil_div (rin * out * 10000) ((rout - out) * 9970)"

lemma quote_in_nat_least:
  assumes "0 < rin" "out < rout"
  shows "out \<le> quote_nat x rin rout \<longleftrightarrow> quote_in_nat out rin rout \<le> x"
  using assms quote_nat_ge_iff [of rin out rout x] by (simp add: quote_in_nat_def ceil_div_le_iff)

lemma tighten_val:
  assumes "0 < unat rin" "unat out < unat rout" "0 < quote_in_nat (unat out) (unat rin) (unat rout)"
  shows "quote_in_nat (unat out) (unat rin) (unat rout) \<le> unat inp \<Longrightarrow>
    unat (tighten out rin rout inp) = quote_in_nat (unat out) (unat rin) (unat rout)"
proof (induction "unat inp" arbitrary: inp rule: less_induct)
  case less
  define C where "C = quote_in_nat (unat out) (unat rin) (unat rout)"
  have C: "0 < C" "C \<le> unat inp" using assms(3) less.prems by (simp_all add: C_def)
  then have "1 \<le> inp" by (simp add: word_le_nat_alt)
  then have m1: "unat (inp - 1) = unat inp - 1" by (simp add: unat_sub)
  have ge: "amm_quote (inp - 1) rin rout \<ge> out \<longleftrightarrow> C \<le> unat inp - 1"
    using quote_in_nat_least [OF assms(1,2), of "unat inp - 1"]
    by (simp add: word_le_nat_alt amm_quote_val m1 C_def)
  show ?case
  proof (cases "inp > 1 \<and> C \<le> unat inp - 1")
    case True
    then have "unat (tighten out rin rout (inp - 1)) = C"
      using less.hyps [of "inp - 1"] C by (simp add: m1 C_def)
    then show ?thesis using True ge by (simp add: tighten.simps [of out rin rout inp] C_def)
  next
    case False
    then have "unat inp = C" using C by (auto simp: word_less_nat_alt)
    then show ?thesis using False ge by (subst tighten.simps) (auto simp: C_def)
  qed
qed

theorem amm_quote_in_val:
  "unat (amm_quote_in out rin rout) =
     (if out = 0 \<or> out \<ge> rout \<or> rin = 0
         \<or> unat rin * unat out * 10000 div (unat (rout - out) * 9970) \<ge> 2 ^ 64 - 1
      then 0 else quote_in_nat (unat out) (unat rin) (unat rout))"
proof (cases "out = 0 \<or> out \<ge> rout \<or> rin = 0")
  case False
  then have pos: "0 < unat out" "unat out < unat rout" "0 < unat rin"
    by (auto simp: unat_gt_0 word_less_nat_alt not_le)
  define A where "A = unat rin * unat out * 10000"
  define B where "B = unat (rout - out) * 9970"
  have sub: "unat (rout - out) = unat rout - unat out" 
    using False by (intro unat_sub) (simp add: not_le order_less_imp_le)
  have AB: "0 < A" "0 < B" using pos by (simp_all add: A_def B_def sub)
  define num where "num = u256_mul64 (u256_of_u128 (ucast rin * ucast out)) 10000"
  define den where "den = u256_of_u128 (ucast (rout - out) * ucast (10000 - POOL_FEE_BPS))"
  define q where "q = u256_div num den"
  have "unat rin * unat out \<le> 2 ^ 64 * 2 ^ 64"
    using unat_lt_64 [of rin] unat_lt_64 [of out] by (intro mult_mono) auto
  then have "unat rin * unat out * 10000 < 2 ^ 256" by (simp add: mult.commute [of "unat out"])
  then have "u256_val num = A" by (simp add: num_def u256_val_mul64 u256_val_of_u128 unat_mul_64_128 A_def)
  moreover have "u256_val den = B"
    by (simp only: den_def u256_val_of_u128 unat_mul_64_128 fee_num B_def)
  ultimately have q: "u256_val q = A div B" by (simp add: q_def u256_val_div)
  have eq: "amm_quote_in out rin rout = (if \<not> fits_u64 q then 0
      else (let inp = tighten out rin rout (w0 q + 1) in if amm_quote inp rin rout \<ge> out then inp else 0))"
    using False by (simp add: amm_quote_in_def Let_def num_def den_def q_def)
  define C where "C = quote_in_nat (unat out) (unat rin) (unat rout)"
  have Cle: "C \<le> x \<longleftrightarrow> A \<le> x * B" for x
    using AB(2) by (simp add: C_def quote_in_nat_def ceil_div_le_iff A_def B_def sub)
  have C0: "0 < C" using Cle [of 0] AB(1) by simp
  show ?thesis
  proof (cases "A div B \<ge> 2 ^ 64 - 1")
    case True
    have "amm_quote_in out rin rout = 0"
    proof (cases "fits_u64 q")
      case fit: True
      then have "A div B = 2 ^ 64 - 1" using True q by (simp add: fits_u64_iff)
      then have "unat (w0 q) = 2 ^ 64 - 1" using fit q by (simp add: fits_u64_iff unat_w0_small)
      then have "w0 q + 1 = 0" by (simp add: word_unat_eq_iff unat_word_ariths)
      moreover have "tighten out rin rout 0 = 0" by (simp add: tighten.simps)
      moreover have "\<not> amm_quote 0 rin rout \<ge> out"
        using pos by (simp add: word_le_nat_alt amm_quote_val quote_nat_def)
      ultimately show ?thesis using eq fit by (simp add: Let_def)
    qed (simp add: eq)
    with True show ?thesis by (simp add: A_def B_def)
  next
    case small: False
    then have fit: "fits_u64 q" using q by (simp add: fits_u64_iff)
    have w: "unat (w0 q + 1) = A div B + 1"
      using small q fit by (simp add: unat_word_ariths fits_u64_iff unat_w0_small)
    have "A \<le> (A div B + 1) * B" using AB(2) dividend_less_times_div [of B A] by (simp add: algebra_simps)
    then have "C \<le> unat (w0 q + 1)" by (simp add: w Cle)
    then have t: "unat (tighten out rin rout (w0 q + 1)) = C"
      using tighten_val [OF pos(3,2), of "w0 q + 1"] C0 by (simp add: C_def)
    have "amm_quote (tighten out rin rout (w0 q + 1)) rin rout \<ge> out"
      using quote_in_nat_least [OF pos(3,2), of C] by (simp add: word_le_nat_alt amm_quote_val t C_def)
    with eq fit t small False show ?thesis by (simp add: Let_def A_def B_def C_def)
  qed
qed (auto simp: amm_quote_in_def)

section \<open>Initial shares\<close>

lemma newton_step_ge:
  fixes x n s :: nat
  assumes "0 < x" "s * s \<le> n"
  shows "s \<le> (x + n div x) div 2"
proof -
  have "2 * s \<le> x + n div x"
  proof (cases "2 * s \<le> x")
    case False
    then obtain d where d: "2 * s = x + d" using le_Suc_ex nat_le_linear by blast
    have "4 * (d * x) \<le> (x + d) * (x + d)"
    proof -
      have "0 \<le> (int x - int d) * (int x - int d)" by (rule zero_le_square)
      then have "int (4 * (d * x)) \<le> int ((x + d) * (x + d))" by (simp add: algebra_simps)
      then show ?thesis by (simp only: of_nat_le_iff)
    qed
    also have "\<dots> = 4 * (s * s)" unfolding d [symmetric] by simp
    finally have "d * x \<le> n" using assms(2) by simp
    then have "d \<le> n div x" using assms(1) by (simp add: less_eq_div_iff_mult_less_eq)
    then show ?thesis by (simp add: d)
  qed simp
  then show ?thesis by simp
qed

lemma newton_val:
  assumes "0 < s" "s * s \<le> unat n" "unat n < Suc s * Suc s"
  shows "s \<le> unat x \<Longrightarrow> unat x \<le> 2 ^ 64 \<Longrightarrow> unat (newton n x) = s"
proof (induction "unat x" arbitrary: x rule: less_induct)
  case less
  define X where "X = unat x"
  have X: "0 < X" "s \<le> X" "X \<le> 2 ^ 64" using less.prems assms(1) by (simp_all add: X_def)
  have "unat n div X \<le> unat n div s" using assms(1) X by (intro div_le_mono2) auto
  also have "\<dots> < s + 3" using assms(1,3) by (simp add: div_less_iff_less_mult algebra_simps)
  finally have "X + unat n div X < 2 ^ 128" using X by simp
  then have y: "unat ((x + n div x) div 2) = (X + unat n div X) div 2"
    by (simp add: unat_word_ariths unat_div X_def)
  define Y where "Y = (X + unat n div X) div 2"
  have sY: "s \<le> Y" unfolding Y_def using X(1) assms(2) by (rule newton_step_ge)
  show ?case
  proof (cases "X \<le> Y")
    case True
    then have "X \<le> unat n div X" by (simp add: Y_def)
    then have "X * X \<le> unat n" using X(1) by (simp add: less_eq_div_iff_mult_less_eq)
    then have "X * X < Suc s * Suc s" using assms(3) by simp
    then have "X < Suc s" by (metis mult_le_mono not_le)
    then have "X = s" using X by simp
    moreover have "newton n x = x"
      using True y by (subst newton.simps) (simp add: Let_def word_le_nat_alt X_def Y_def)
    ultimately show ?thesis by (simp add: X_def)
  next
    case False
    then have "newton n x = newton n ((x + n div x) div 2)"
      using y by (subst newton.simps) (simp add: Let_def word_le_nat_alt X_def Y_def)
    then show ?thesis
      using less.hyps [of "(x + n div x) div 2"] False y sY X by (simp add: X_def Y_def)
  qed
qed

lemma floor_root_exists: "\<exists>s. s * s \<le> n \<and> (n :: nat) < Suc s * Suc s"
proof (induction n)
  case (Suc n)
  then obtain s where s: "s * s \<le> n" "n < Suc s * Suc s" by blast
  show ?case
  proof (cases "Suc n < Suc s * Suc s")
    case True
    with s show ?thesis by (intro exI [of _ s]) auto
  next
    case False
    with s have "Suc n = Suc s * Suc s" by simp
    then show ?thesis by (intro exI [of _ "Suc s"]) simp
  qed
qed simp

lemma bit_size_128:
  assumes "(n :: u128) \<noteq> 0"
  shows "unat n < 2 ^ (if (ucast (drop_bit 64 n) :: u64) \<noteq> 0 then 128 - clz64 (ucast (drop_bit 64 n))
    else 64 - clz64 (ucast n))"
proof -
  define hi where "hi = (ucast (drop_bit 64 n) :: u64)"
  have "unat n div 2 ^ 64 < 2 ^ 64" using unat_lt_128 [of n] by (simp add: div_less_iff_less_mult)
  then have hi: "unat hi = unat n div 2 ^ 64" by (simp add: hi_def unat_ucast_128_64 unat_drop_bit)
  show ?thesis
  proof (cases "hi = 0")
    case True
    then have lo: "unat (ucast n :: u64) = unat n" using hi by (simp add: unat_ucast_128_64 div_eq_0_iff)
    then have "(ucast n :: u64) \<noteq> 0" using assms by (metis unat_0 unat_eq_0)
    from clz64_bounds(2) [OF this] lo True show ?thesis by (simp add: hi_def [symmetric])
  next
    case False
    note c = clz64_bounds [OF False]
    have "unat n < (unat hi + 1) * 2 ^ 64"
      unfolding hi using dividend_less_times_div [of "2 ^ 64" "unat n"] by (simp add: algebra_simps)
    also have "\<dots> \<le> 2 ^ (64 - clz64 hi) * 2 ^ 64" using c(2) by (intro mult_le_mono1) simp
    also have "\<dots> = 2 ^ (64 - clz64 hi + 64)" by (simp only: power_add)
    also have "64 - clz64 hi + 64 = 128 - clz64 hi" using c(1) by simp
    finally show ?thesis using False by (simp add: hi_def [symmetric])
  qed
qed

theorem amm_initial_shares_root:
  "unat (amm_initial_shares q t) * unat (amm_initial_shares q t) \<le> unat q * unat t"
  "unat q * unat t < Suc (unat (amm_initial_shares q t)) * Suc (unat (amm_initial_shares q t))"
proof -
  define n :: u128 where "n = ucast q * ucast t"
  have n: "unat n = unat q * unat t" by (simp add: n_def unat_mul_64_128)
  have "unat (amm_initial_shares q t) * unat (amm_initial_shares q t) \<le> unat n
    \<and> unat n < Suc (unat (amm_initial_shares q t)) * Suc (unat (amm_initial_shares q t))"
  proof (cases "n = 0")
    case True
    then show ?thesis by (simp add: amm_initial_shares_def n_def [symmetric] Let_def)
  next
    case False
    obtain s where s: "s * s \<le> unat n" "unat n < Suc s * Suc s" using floor_root_exists by blast
    have s0: "0 < s" using s(2) False by (cases s) (auto simp: unat_eq_0)
    have "s < 2 ^ 64" using s(1) unat_lt_128 [of n] mult_le_mono [of "2 ^ 64" s "2 ^ 64" s] by (cases "s < 2 ^ 64") auto
    define b where "b = (if (ucast (drop_bit 64 n) :: u64) \<noteq> 0 then 128 - clz64 (ucast (drop_bit 64 n))
      else 64 - clz64 (ucast n))"
    define e where "e = (b + 1) div 2"
    have nb: "unat n < 2 ^ b" unfolding b_def by (rule bit_size_128 [OF False])
    have e: "e \<le> 64" "b \<le> e + e" by (auto simp: e_def b_def)
    define x :: u128 where "x = push_bit e 1"
    have x: "unat x = 2 ^ e"
    proof -
      have "(2::nat) ^ e \<le> 2 ^ 64" using e(1) by (intro power_increasing) auto
      then show ?thesis using unat_of_nat_128 [of "2 ^ e"] by (simp add: x_def push_bit_eq_mult)
    qed
    have "s * s < 2 ^ e * 2 ^ e"
    proof -
      have "(2::nat) ^ b \<le> 2 ^ (e + e)" using e(2) by (intro power_increasing) auto
      with s(1) nb show ?thesis by (simp add: power_add)
    qed
    then have "s \<le> 2 ^ e" by (meson mult_le_mono not_le order_less_imp_le)
    moreover have "(2::nat) ^ e \<le> 2 ^ 64" using e(1) by (intro power_increasing) auto
    ultimately have r: "unat (newton n x) = s" using newton_val [OF s0 s, of x] by (simp add: x)
    have "s * s < 2 ^ 128" using s(1) unat_lt_128 [of n] by linarith
    then have "unat (newton n x * newton n x) = s * s" by (simp add: unat_word_ariths r)
    then have "root_down n (newton n x) = newton n x"
      using s(1) by (subst root_down.simps) (simp add: word_less_nat_alt)
    then have "amm_initial_shares q t = ucast (newton n x)"
      using False
      unfolding amm_initial_shares_def n_def [symmetric] Let_def b_def [symmetric] e_def [symmetric] x_def [symmetric]
      by simp
    then have "unat (amm_initial_shares q t) = s" using r \<open>s < 2 ^ 64\<close> by (simp add: unat_ucast_128_64)
    with s show ?thesis by simp
  qed
  then show "unat (amm_initial_shares q t) * unat (amm_initial_shares q t) \<le> unat q * unat t"
    "unat q * unat t < Suc (unat (amm_initial_shares q t)) * Suc (unat (amm_initial_shares q t))"
    by (simp_all add: n)
qed

section \<open>What a trader can rely on\<close>

text \<open>A swap at the quoted price never lowers the product of the reserves.\<close>

lemma amm_quote_product:
  assumes "0 < rin"
  shows "unat rin * unat rout \<le> (unat rin + unat i) * (unat rout - unat (amm_quote i rin rout))"
proof -
  have r: "0 < unat rin" using assms by (simp add: word_less_nat_alt)
  have "quote_nat (unat i) (unat rin) (unat rout) \<le> unat rout"
    using quote_nat_less [OF r, of "unat rout" "unat i"] by (cases "unat rout = 0") (simp_all add: quote_nat_def)
  from quote_constant_product [OF le_refl this r] show ?thesis by (simp add: amm_quote_val)
qed

lemma amm_quote_in_least:
  assumes "0 < out" "out < rout" "0 < rin" "unat rin * unat out * 10000 div (unat (rout - out) * 9970) < 2 ^ 64 - 1"
  shows "amm_quote (amm_quote_in out rin rout) rin rout \<ge> out
    \<and> (\<forall>x. amm_quote x rin rout \<ge> out \<longrightarrow> amm_quote_in out rin rout \<le> x)"
proof -
  have p: "0 < unat rin" "unat out < unat rout" using assms by (simp_all add: word_less_nat_alt)
  have "unat (amm_quote_in out rin rout) = quote_in_nat (unat out) (unat rin) (unat rout)"
    using amm_quote_in_val [of out rin rout] assms by (auto simp: not_le [symmetric])
  then show ?thesis using quote_in_nat_least [OF p] by (auto simp: word_le_nat_alt amm_quote_val)
qed

end
