(* ===== verification/Ledger.thy ===== *)
theory Ledger
  imports Params Amm
begin

text \<open>
  The ledger rules of \<open>src/src/consensus/ledger.h\<close> and \<open>ledger.cpp\<close>: context-free checks, witness
  checks and the overlay \<open>LedgerView\<close> that applies transactions. A \<open>TxResult\<close> is a sum: the reason
  of a rejection, or the fee and the new view. \<open>StateReader\<close> is the record of its three lookups;
  the hash maps of a view are association lists, its set of spent outputs a list. The exception of
  \<open>std::optional::value\<close> is the error \<open>bad optional access\<close>.
\<close>

section \<open>State\<close>

record coin =
  c_out :: txout
  c_height :: u64
  c_coinbase :: bool

record token_info =
  ti_id :: hash256
  ti_ticker :: string
  ti_name :: string
  ti_uri :: string
  ti_decimals :: u8
  ti_supply :: amount
  ti_create_txid :: hash256
  ti_height :: u64

record reader_state =
  rd_coin :: "outpoint \<Rightarrow> coin option"
  rd_token :: "hash256 \<Rightarrow> token_info option"
  rd_pool :: "hash256 \<Rightarrow> pool option"

section \<open>Context-free checks\<close>

definition char_between :: "char \<Rightarrow> char \<Rightarrow> char \<Rightarrow> bool" where
  "char_between a b c \<longleftrightarrow> char_code a \<le> char_code c \<and> char_code c \<le> char_code b"

definition valid_ticker :: "string \<Rightarrow> bool" where
  "valid_ticker s \<longleftrightarrow> \<not> (s = [] \<or> length s > unat MAX_TICKER)
     \<and> list_all (\<lambda>c. char_between CHR ''A'' CHR ''Z'' c \<or> char_between CHR ''0'' CHR ''9'' c) s"

definition valid_token_text :: "string \<Rightarrow> nat \<Rightarrow> nat \<Rightarrow> bool" where
  "valid_token_text s min_len max_len \<longleftrightarrow> \<not> (length s < min_len \<or> length s > max_len)
     \<and> list_all (\<lambda>c. \<not> (char_code c < 0x20 \<or> char_code c > 0x7e)) s"

text \<open>The loop over the outputs, with the running 64-bit sum.\<close>

primrec check_outs :: "bool \<Rightarrow> txout list \<Rightarrow> amount \<Rightarrow> unit result" where
  "check_outs cb [] qnt = Inr ()"
| "check_outs cb (out # os) qnt =
     (if o_value out = 0 then Inl ''zero-output''
      else if is_qnt out then
        if \<not> cb \<and> o_value out < DUST_LIMIT then Inl ''dust-output''
        else if o_value out > MAX_MONEY then Inl ''output-too-large''
        else (let qnt = qnt + o_value out in
              if qnt > MAX_MONEY then Inl ''outputs-overflow'' else check_outs cb os qnt)
      else if cb then Inl ''coinbase-token-output''
      else if o_value out > MAX_TOKEN_SUPPLY then Inl ''output-too-large''
      else check_outs cb os qnt)"

definition paid_to :: "transaction \<Rightarrow> hash256 \<Rightarrow> amount" where
  "paid_to tx to = fold (\<lambda>out paid. if is_qnt out \<and> o_addr out = to then paid + o_value out else paid) (outs tx) 0"

primrec check_op :: "transaction \<Rightarrow> nat \<Rightarrow> tx_op \<Rightarrow> nat result" where
  "check_op tx msgs (OpCreateToken ticker name decimals supply uri) =
     (if \<not> valid_ticker ticker then Inl ''bad-ticker''
      else if \<not> valid_token_text name 1 (unat MAX_TOKEN_NAME) then Inl ''bad-token-name''
      else if \<not> valid_token_text uri 0 (unat MAX_TOKEN_URI) then Inl ''bad-token-uri''
      else if decimals > MAX_TOKEN_DECIMALS then Inl ''bad-decimals''
      else if supply = 0 \<or> supply > MAX_TOKEN_SUPPLY then Inl ''bad-supply''
      else Inr msgs)"
| "check_op tx msgs (OpPoolCreate token qnt tok shares) =
     (if hash_is_zero token \<or> qnt = 0 \<or> tok = 0 \<or> shares = 0 then Inl ''bad-pool-create'' else Inr msgs)"
| "check_op tx msgs (OpAddLiquidity token qnt tok shares) =
     (if hash_is_zero token \<or> qnt = 0 \<or> tok = 0 \<or> shares = 0 then Inl ''bad-add-liquidity'' else Inr msgs)"
| "check_op tx msgs (OpRemoveLiquidity token shares qnt tok) =
     (if hash_is_zero token \<or> shares = 0 \<or> (qnt = 0 \<and> tok = 0) then Inl ''bad-remove-liquidity'' else Inr msgs)"
| "check_op tx msgs (OpSwap token sell inp out) =
     (if hash_is_zero token \<or> inp = 0 \<or> out = 0 then Inl ''bad-swap'' else Inr msgs)"
| "check_op tx msgs (OpMessage from to gift txt) =
     (if msgs + 1 > 1 then Inl ''too-many-messages''
      else if gift \<ge> GIFT_COUNT then Inl ''bad-gift''
      else if length txt > unat MAX_MESSAGE_TEXT then Inl ''message-too-long''
      else if list_ex (\<lambda>ch. char_code ch < 0x20 \<or> char_code ch = 0x7f) txt then Inl ''bad-message-text''
      else if txt = [] \<and> gift = 0 then Inl ''empty-message''
      else if paid_to tx to < max DUST_LIMIT (GIFT_PRICE ! unat gift) then Inl ''message-underpaid''
      else Inr (msgs + 1))"

primrec check_ops :: "transaction \<Rightarrow> nat \<Rightarrow> tx_op list \<Rightarrow> unit result" where
  "check_ops tx msgs [] = Inr ()"
| "check_ops tx msgs (op # os) = rbind (check_op tx msgs op) (\<lambda>msgs. check_ops tx msgs os)"

definition check_tx_basic :: "transaction \<Rightarrow> bool \<Rightarrow> unit result" where
  "check_tx_basic tx expect_witness =
     rbind (fail_if (t_version tx \<noteq> 2) ''bad-version'') (\<lambda>_.
     rbind (fail_if (length (ops tx) > unat MAX_TX_OPS) ''too-many-ops'') (\<lambda>_.
     rbind (if is_coinbase tx then
              rbind (fail_if (wits tx \<noteq> []) ''coinbase-witness'') (\<lambda>_.
              fail_if (ops tx \<noteq> []) ''coinbase-ops'')
            else
              rbind (fail_if (outs tx = []) ''no-outputs'') (\<lambda>_.
              rbind (fail_if (extra tx \<noteq> []) ''extra-in-non-coinbase'') (\<lambda>_.
              rbind (fail_if (expect_witness \<and> length (wits tx) \<noteq> length (ins tx)) ''witness-count'') (\<lambda>_.
              fail_if (\<not> distinct (map prev (ins tx))) ''duplicate-input'')))) (\<lambda>_.
     rbind (check_outs (is_coinbase tx) (outs tx) 0) (\<lambda>_.
     check_ops tx 0 (ops tx)))))"

section \<open>Witnesses\<close>

fun check_wit :: "crypto \<Rightarrow> hash256 \<Rightarrow> coin list \<Rightarrow> witness list \<Rightarrow> nat \<Rightarrow> witness \<Rightarrow> unit result" where
  "check_wit cr sighash coins ws i (WitnessRef r) =
     (if unat r \<ge> i then Inl ''ref-forward''
      else (case ws ! unat r of
          WitnessRef _ \<Rightarrow> Inl ''ref-chain''
        | WitnessFalcon _ _ \<Rightarrow>
            if o_addr (c_out (coins ! unat r)) \<noteq> o_addr (c_out (coins ! i)) then Inl ''ref-address-mismatch''
            else Inr ()))"
| "check_wit cr sighash coins ws i (WitnessFalcon pk sig) =
     (if address_hash cr pk \<noteq> o_addr (c_out (coins ! i)) then Inl ''key-mismatch''
      else if \<not> falcon_verify cr pk sig sighash then Inl ''bad-signature''
      else Inr ())"

primrec check_wits :: "crypto \<Rightarrow> hash256 \<Rightarrow> coin list \<Rightarrow> witness list \<Rightarrow> nat \<Rightarrow> witness list \<Rightarrow> unit result" where
  "check_wits cr sighash coins ws i [] = Inr ()"
| "check_wits cr sighash coins ws i (w # rest) =
     rbind (check_wit cr sighash coins ws i w) (\<lambda>_. check_wits cr sighash coins ws (i + 1) rest)"

definition verify_witness :: "crypto \<Rightarrow> transaction \<Rightarrow> coin list \<Rightarrow> hash256 \<Rightarrow> unit result" where
  "verify_witness cr tx coins gen =
     rbind (fail_if (length (wits tx) \<noteq> length (ins tx)) ''witness-count'') (\<lambda>_.
     check_wits cr (signature_hash cr gen (txid cr tx)) coins (wits tx) 0 (wits tx))"

section \<open>The overlay\<close>

record view =
  created :: "(outpoint \<times> coin) list"
  spent_created :: "outpoint list"
  spent_base :: "(outpoint \<times> coin) list"
  v_tokens :: "(hash256 \<times> token_info) list"
  v_pools :: "(hash256 \<times> pool) list"
  pools_before :: "(hash256 \<times> pool option) list"

definition empty_view :: view where
  "empty_view = \<lparr>created = [], spent_created = [], spent_base = [], v_tokens = [], v_pools = [],
     pools_before = []\<rparr>"

definition view_coin :: "reader_state \<Rightarrow> view \<Rightarrow> outpoint \<Rightarrow> coin option" where
  "view_coin base v o' =
     (if map_of (spent_base v) o' \<noteq> None then None
      else (case map_of (created v) o' of Some c \<Rightarrow> Some c
            | None \<Rightarrow> if o' \<in> set (spent_created v) then None else rd_coin base o'))"

definition view_token :: "reader_state \<Rightarrow> view \<Rightarrow> hash256 \<Rightarrow> token_info option" where
  "view_token base v id' = (case map_of (v_tokens v) id' of Some t \<Rightarrow> Some t | None \<Rightarrow> rd_token base id')"

definition view_pool :: "reader_state \<Rightarrow> view \<Rightarrow> hash256 \<Rightarrow> pool option" where
  "view_pool base v t = (case map_of (v_pools v) t of Some p \<Rightarrow> Some p | None \<Rightarrow> rd_pool base t)"

text \<open>A view is itself a \<open>StateReader\<close>.\<close>

definition view_reader :: "reader_state \<Rightarrow> view \<Rightarrow> reader_state" where
  "view_reader base v = \<lparr>rd_coin = view_coin base v, rd_token = view_token base v, rd_pool = view_pool base v\<rparr>"

definition spends :: "view \<Rightarrow> outpoint \<Rightarrow> bool" where
  "spends v o' \<longleftrightarrow> map_of (spent_base v) o' \<noteq> None \<or> o' \<in> set (spent_created v)"

primrec create_coins :: "hash256 \<Rightarrow> u64 \<Rightarrow> bool \<Rightarrow> u32 \<Rightarrow> txout list \<Rightarrow> view \<Rightarrow> view" where
  "create_coins tid height cb n [] v = v"
| "create_coins tid height cb n (out # os) v =
     create_coins tid height cb (n + 1) os
       (v\<lparr>created := AList.update (OutPoint tid n) \<lparr>c_out = out, c_height = height, c_coinbase = cb\<rparr> (created v)\<rparr>)"

definition apply_coinbase :: "crypto \<Rightarrow> transaction \<Rightarrow> u64 \<Rightarrow> view \<Rightarrow> view" where
  "apply_coinbase cr tx height v = create_coins (txid cr tx) height True 0 (outs tx) v"

section \<open>Applying a transaction\<close>

type_synonym flows = "(hash256 \<times> u128) list"

definition flow :: "flows \<Rightarrow> hash256 \<Rightarrow> u128" where
  "flow m a = (case map_of m a of None \<Rightarrow> 0 | Some x \<Rightarrow> x)"

definition add_flow :: "hash256 \<Rightarrow> amount \<Rightarrow> flows \<Rightarrow> flows" where
  "add_flow a x m = AList.update a (flow m a + ucast x) m"

text \<open>The first loop: look the inputs up, check maturity, add the values up.\<close>

primrec gather_inputs :: "crypto \<Rightarrow> reader_state \<Rightarrow> view \<Rightarrow> u64 \<Rightarrow> hash256 \<Rightarrow> txin list \<Rightarrow>
    flows \<Rightarrow> coin list \<Rightarrow> (flows \<times> coin list) result" where
  "gather_inputs cr base v height gen [] fl coins = Inr (fl, coins)"
| "gather_inputs cr base v height gen (i # is) fl coins =
     (case view_coin base v (prev i) of
        None \<Rightarrow> Inl ''missing-or-spent-input''
      | Some c \<Rightarrow>
          if c_coinbase c \<and> height < c_height c + word_of_int (maturity_for_genesis cr gen)
          then Inl ''immature-coinbase''
          else gather_inputs cr base v height gen is
                 (add_flow (o_asset (c_out c)) (o_value (c_out c)) fl) (coins @ [c]))"

definition sum_outs :: "txout list \<Rightarrow> flows \<Rightarrow> flows" where
  "sum_outs os m = fold (\<lambda>out m. add_flow (o_asset out) (o_value out) m) os m"

text \<open>The scratch state of the ops: flows, touched pools, minted tokens.\<close>

record opst =
  plus_f :: flows
  minus_f :: flows
  touched :: "(hash256 \<times> pool option) list"
  minted :: "(hash256 \<times> token_info) list"

definition get_pool :: "reader_state \<Rightarrow> view \<Rightarrow> opst \<Rightarrow> hash256 \<Rightarrow> pool option" where
  "get_pool base v st t = (case map_of (touched st) t of Some p \<Rightarrow> p | None \<Rightarrow> view_pool base v t)"

definition set_pool :: "hash256 \<Rightarrow> pool \<Rightarrow> opst \<Rightarrow> opst" where
  "set_pool t p st = st\<lparr>touched := AList.update t (Some p) (touched st)\<rparr>"

definition token_known :: "reader_state \<Rightarrow> view \<Rightarrow> opst \<Rightarrow> hash256 \<Rightarrow> bool" where
  "token_known base v st t \<longleftrightarrow> map_of (minted st) t \<noteq> None \<or> view_token base v t \<noteq> None"

definition move_flows :: "(hash256 \<times> amount) list \<Rightarrow> (hash256 \<times> amount) list \<Rightarrow> opst \<Rightarrow> opst" where
  "move_flows absorbed released st =
     st\<lparr>minus_f := fold (\<lambda>(a, x). add_flow a x) absorbed (minus_f st),
        plus_f := fold (\<lambda>(a, x). add_flow a x) released (plus_f st)\<rparr>"

fun apply_op :: "crypto \<Rightarrow> reader_state \<Rightarrow> view \<Rightarrow> transaction \<Rightarrow> u64 \<Rightarrow> coin list \<Rightarrow> u32 \<Rightarrow> tx_op \<Rightarrow>
    opst \<Rightarrow> opst result" where
  "apply_op cr base v tx height coins i (OpCreateToken ticker name decimals supply uri) st =
     (let id' = token_id cr (prev (ins tx ! 0)) i in
      if token_known base v st id' then Inl ''token-exists''
      else Inr (move_flows [] [(id', supply)]
        (st\<lparr>minted := AList.update id' \<lparr>ti_id = id', ti_ticker = ticker, ti_name = name, ti_uri = uri,
              ti_decimals = decimals, ti_supply = supply, ti_create_txid = txid cr tx, ti_height = height\<rparr>
            (minted st)\<rparr>)))"
| "apply_op cr base v tx height coins i (OpPoolCreate token qnt tok shares) st =
     (if \<not> token_known base v st token then Inl ''unknown-token''
      else if get_pool base v st token \<noteq> None then Inl ''pool-exists''
      else if qnt > MAX_MONEY then Inl ''pool-too-large''
      else
        (let total = amm_initial_shares qnt tok in
         if total \<le> MIN_LIQUIDITY \<or> shares > total - MIN_LIQUIDITY then Inl ''pool-shares-too-high''
         else Inr (move_flows [(QNT_ASSET, qnt), (token, tok)] [(pool_share_id cr token, shares)]
           (set_pool token \<lparr>p_token = token, p_qnt = qnt, p_tok = tok, p_shares = shares + MIN_LIQUIDITY\<rparr> st))))"
| "apply_op cr base v tx height coins i (OpAddLiquidity token qnt tok shares) st =
     (case get_pool base v st token of None \<Rightarrow> Inl ''no-pool''
      | Some pl \<Rightarrow>
          if shares > amm_add_shares pl qnt tok then Inl ''liquidity-shares-too-high''
          else if (ucast (p_qnt pl) + ucast qnt :: u128) > ucast MAX_MONEY
            \<or> (ucast (p_tok pl) + ucast tok :: u128) > ucast MAX_TOKEN_SUPPLY
            \<or> (ucast (p_shares pl) + ucast shares :: u128) > ucast MAX_TOKEN_SUPPLY then Inl ''pool-too-large''
          else Inr (move_flows [(QNT_ASSET, qnt), (token, tok)] [(pool_share_id cr token, shares)]
            (set_pool token (pl\<lparr>p_qnt := p_qnt pl + qnt, p_tok := p_tok pl + tok, p_shares := p_shares pl + shares\<rparr>) st)))"
| "apply_op cr base v tx height coins i (OpRemoveLiquidity token shares qnt tok) st =
     (case get_pool base v st token of None \<Rightarrow> Inl ''no-pool''
      | Some pl \<Rightarrow>
          if shares > p_shares pl - MIN_LIQUIDITY then Inl ''remove-too-many-shares''
          else
            (let (mq, mt) = amm_remove_amounts pl shares in
             if qnt > mq \<or> tok > mt then Inl ''remove-amounts-too-high''
             else Inr (move_flows [(pool_share_id cr token, shares)] [(QNT_ASSET, qnt), (token, tok)]
               (set_pool token (pl\<lparr>p_qnt := p_qnt pl - qnt, p_tok := p_tok pl - tok, p_shares := p_shares pl - shares\<rparr>) st))))"
| "apply_op cr base v tx height coins i (OpSwap token sell inp out) st =
     (case get_pool base v st token of None \<Rightarrow> Inl ''no-pool''
      | Some pl \<Rightarrow>
          (let rin = (if sell then p_tok pl else p_qnt pl);
               rout = (if sell then p_qnt pl else p_tok pl) in
           if out \<ge> rout \<or> out > amm_quote inp rin rout then Inl ''swap-price-moved''
           else if (ucast rin + ucast inp :: u128) > (if sell then ucast MAX_TOKEN_SUPPLY else ucast MAX_MONEY)
           then Inl ''pool-too-large''
           else
             (let pl' = (if sell then pl\<lparr>p_tok := rin + inp, p_qnt := rout - out\<rparr>
                         else pl\<lparr>p_qnt := rin + inp, p_tok := rout - out\<rparr>);
                  in_asset = (if sell then token else QNT_ASSET);
                  out_asset = (if sell then QNT_ASSET else token)
              in Inr (move_flows [(in_asset, inp)] [(out_asset, out)] (set_pool token pl' st)))))"
| "apply_op cr base v tx height coins i (OpMessage from to gift txt) st =
     (if \<not> list_ex (\<lambda>c. o_addr (c_out c) = from) coins then Inl ''message-from-not-input'' else Inr st)"

primrec apply_ops :: "crypto \<Rightarrow> reader_state \<Rightarrow> view \<Rightarrow> transaction \<Rightarrow> u64 \<Rightarrow> coin list \<Rightarrow> u32 \<Rightarrow> tx_op list \<Rightarrow>
    opst \<Rightarrow> opst result" where
  "apply_ops cr base v tx height coins i [] st = Inr st"
| "apply_ops cr base v tx height coins i (op # os) st =
     rbind (apply_op cr base v tx height coins i op st) (\<lambda>st.
     apply_ops cr base v tx height coins (i + 1) os st)"

text \<open>The assets in the order of the \<open>std::set\<close>, and the balance check with the fee so far.\<close>

definition flow_assets :: "opst \<Rightarrow> hash256 list" where
  "flow_assets st = sort (remdups (map fst (plus_f st) @ map fst (minus_f st)))"

primrec check_balance :: "opst \<Rightarrow> hash256 list \<Rightarrow> amount \<Rightarrow> amount result" where
  "check_balance st [] fee = Inr fee"
| "check_balance st (a # as) fee =
     (let p = flow (plus_f st) a; m = flow (minus_f st) a in
      if hash_is_zero a then
        if m > p then Inl ''outputs-exceed-inputs''
        else if p - m > ucast MAX_MONEY then Inl ''fee-too-large''
        else check_balance st as (ucast (p - m))
      else if p \<noteq> m then
        Inl (if p > m then ''token-not-balanced (unspent)'' else ''token-not-balanced (overspent)'')
      else check_balance st as fee)"

text \<open>\<open>if (created_.erase(o)) spent_created_.insert(o); else spent_base_[o] = base_.coin(o).value();\<close>\<close>

definition spend_coin :: "reader_state \<Rightarrow> outpoint \<Rightarrow> view \<Rightarrow> view result" where
  "spend_coin base o' v =
     (if map_of (created v) o' \<noteq> None
      then Inr (v\<lparr>created := AList.delete o' (created v), spent_created := List.insert o' (spent_created v)\<rparr>)
      else (case rd_coin base o' of
          None \<Rightarrow> Inl ''bad optional access''
        | Some c \<Rightarrow> Inr (v\<lparr>spent_base := AList.update o' c (spent_base v)\<rparr>)))"

primrec spend_inputs :: "reader_state \<Rightarrow> txin list \<Rightarrow> view \<Rightarrow> view result" where
  "spend_inputs base [] v = Inr v"
| "spend_inputs base (i # is) v = rbind (spend_coin base (prev i) v) (\<lambda>v. spend_inputs base is v)"

definition commit_tokens :: "(hash256 \<times> token_info) list \<Rightarrow> view \<Rightarrow> view" where
  "commit_tokens ms v = fold (\<lambda>(id', t) v. v\<lparr>v_tokens := AList.update id' t (v_tokens v)\<rparr>) ms v"

text \<open>
  A touched pool that is \<open>nullopt\<close> would be dereferenced in vain; a successful op always leaves it set.
\<close>

definition commit_pool :: "reader_state \<Rightarrow> hash256 \<times> pool option \<Rightarrow> view \<Rightarrow> view" where
  "commit_pool base tp v =
     (case tp of (t, None) \<Rightarrow> v
      | (t, Some p) \<Rightarrow>
         (let v = (if map_of (pools_before v) t = None \<and> map_of (v_pools v) t = None
                   then v\<lparr>pools_before := AList.update t (rd_pool base t) (pools_before v)\<rparr> else v)
          in v\<lparr>v_pools := AList.update t p (v_pools v)\<rparr>))"

definition view_apply :: "crypto \<Rightarrow> reader_state \<Rightarrow> transaction \<Rightarrow> u64 \<Rightarrow> hash256 \<Rightarrow> bool \<Rightarrow> view \<Rightarrow>
    (amount \<times> view) result" where
  "view_apply cr base tx height gen verify_sigs v =
     rbind (fail_if (is_coinbase tx) ''coinbase-in-apply'') (\<lambda>_.
     rbind (fail_if (lock_height tx > height) ''locked'') (\<lambda>_.
     rbind (gather_inputs cr base v height gen (ins tx) [] []) (\<lambda>(fl, coins).
     let st = \<lparr>plus_f = fl, minus_f = sum_outs (outs tx) [], touched = [], minted = []\<rparr> in
     rbind (apply_ops cr base v tx height coins 0 (ops tx) st) (\<lambda>st.
     rbind (check_balance st (flow_assets st) 0) (\<lambda>fee.
     rbind (if verify_sigs then verify_witness cr tx coins gen else Inr ()) (\<lambda>_.
     rbind (spend_inputs base (ins tx) v) (\<lambda>v.
     let v = create_coins (txid cr tx) height False 0 (outs tx) v;
         v = commit_tokens (minted st) v;
         v = fold (commit_pool base) (touched st) v
     in Inr (fee, v))))))))"

end
