(* ===== verification/Coin_Store.thy ===== *)
theory Coin_Store
  imports Ledger
begin

text \<open>
  The interface between a set of unspent coins and those who spend from it and add to it. Two
  components provide it: the overlay \<open>LedgerView\<close> (interpreted below) and the coin map of the
  chainstate. What the clients need, that a batch of spends and creations changes the coins and
  their total value as sets would, is proved once from the laws.
\<close>

section \<open>Totals over finite maps\<close>

definition map_total :: "('v \<Rightarrow> nat) \<Rightarrow> ('k \<Rightarrow> 'v option) \<Rightarrow> nat" where
  "map_total f m = (\<Sum>k\<in>dom m. f (the (m k)))"

lemma map_total_remove:
  assumes "finite (dom m)" "m k = Some x"
  shows "map_total f m = f x + map_total f (m(k := None))"
proof -
  have "(\<Sum>j\<in>dom m. f (the (m j))) = f x + (\<Sum>j\<in>dom m - {k}. f (the (m j)))"
    using assms by (subst sum.remove [of _ k]) auto
  also have "(\<Sum>j\<in>dom m - {k}. f (the (m j))) = (\<Sum>j\<in>dom (m(k := None)). f (the ((m(k := None)) j)))"
    by (rule sum.cong) auto
  finally show ?thesis by (simp add: map_total_def)
qed

lemma map_total_insert:
  assumes "finite (dom m)" "m k = None"
  shows "map_total f (m(k \<mapsto> x)) = f x + map_total f m"
proof -
  have "(m(k \<mapsto> x))(k := None) = m" using assms(2) by auto
  with map_total_remove [of "m(k \<mapsto> x)" k x f] assms(1) show ?thesis by simp
qed

lemma map_total_update:
  assumes "finite (dom m)"
  shows "map_total f (m(k \<mapsto> x)) + (case m k of None \<Rightarrow> 0 | Some y \<Rightarrow> f y) = f x + map_total f m"
proof (cases "m k")
  case (Some y)
  have "(m(k := None))(k \<mapsto> x) = m(k \<mapsto> x)" by simp
  with map_total_insert [of "m(k := None)" k f x] map_total_remove [OF assms Some, of f] assms Some
  show ?thesis by simp
qed (use assms map_total_insert in simp)

section \<open>The interface\<close>

locale coin_store =
  fixes inv :: "'s \<Rightarrow> bool"
    and lookup :: "'s \<Rightarrow> outpoint \<Rightarrow> coin option"
    and fresh :: "'s \<Rightarrow> outpoint \<Rightarrow> bool"
    and spend :: "outpoint \<Rightarrow> 's \<Rightarrow> 's result"
    and create :: "outpoint \<Rightarrow> coin \<Rightarrow> 's \<Rightarrow> 's"
  assumes spend_law: "inv s \<Longrightarrow> lookup s p = Some c \<Longrightarrow>
      \<exists>s'. spend p s = Inr s' \<and> inv s' \<and> lookup s' = (lookup s)(p := None)
        \<and> (\<forall>q. q \<noteq> p \<longrightarrow> fresh s q \<longrightarrow> fresh s' q)"
    and create_law: "inv s \<Longrightarrow> fresh s p \<Longrightarrow>
      inv (create p c s) \<and> lookup (create p c s) = (lookup s)(p \<mapsto> c)
        \<and> (\<forall>q. q \<noteq> p \<longrightarrow> fresh s q \<longrightarrow> fresh (create p c s) q)"
begin

primrec spend_list :: "outpoint list \<Rightarrow> 's \<Rightarrow> 's result" where
  "spend_list [] s = Inr s"
| "spend_list (p # ps) s = rbind (spend p s) (\<lambda>s. spend_list ps s)"

primrec create_all :: "(outpoint \<times> coin) list \<Rightarrow> 's \<Rightarrow> 's" where
  "create_all [] s = s"
| "create_all (oc # cs) s = create_all cs (create (fst oc) (snd oc) s)"

lemma spend_list_law:
  "inv s \<Longrightarrow> distinct ps \<Longrightarrow> (\<forall>p\<in>set ps. lookup s p \<noteq> None) \<Longrightarrow>
   \<exists>s'. spend_list ps s = Inr s' \<and> inv s' \<and> lookup s' = (\<lambda>p. if p \<in> set ps then None else lookup s p)
     \<and> (\<forall>q. q \<notin> set ps \<longrightarrow> fresh s q \<longrightarrow> fresh s' q)"
proof (induction ps arbitrary: s)
  case (Cons p ps)
  then obtain c where c: "lookup s p = Some c" by auto
  from spend_law [OF Cons.prems(1) c] obtain s1 where
    s1: "spend p s = Inr s1" "inv s1" "lookup s1 = (lookup s)(p := None)"
      "\<forall>q. q \<noteq> p \<longrightarrow> fresh s q \<longrightarrow> fresh s1 q" by blast
  have "\<forall>q\<in>set ps. lookup s1 q \<noteq> None" using Cons.prems(2,3) s1(3) by auto
  with Cons.IH [OF s1(2)] Cons.prems(2) obtain s2 where
    s2: "spend_list ps s1 = Inr s2" "inv s2" "lookup s2 = (\<lambda>q. if q \<in> set ps then None else lookup s1 q)"
      "\<forall>q. q \<notin> set ps \<longrightarrow> fresh s1 q \<longrightarrow> fresh s2 q" by auto
  have "lookup s2 = (\<lambda>q. if q \<in> set (p # ps) then None else lookup s q)"
    using s2(3) s1(3) by (auto simp: fun_eq_iff)
  with s1 s2 show ?case by auto
qed simp

lemma spend_list_total:
  assumes "inv s" "distinct ps" "\<forall>p\<in>set ps. lookup s p \<noteq> None" "finite (dom (lookup s))" "spend_list ps s = Inr s'"
  shows "map_total f (lookup s) = map_total f (lookup s') + (\<Sum>p\<leftarrow>ps. f (the (lookup s p)))"
  using assms
proof (induction ps arbitrary: s)
  case (Cons p ps)
  then obtain c where c: "lookup s p = Some c" by auto
  from spend_law [OF Cons.prems(1) c] obtain s1 where
    s1: "spend p s = Inr s1" "inv s1" "lookup s1 = (lookup s)(p := None)" by blast
  have "map_total f (lookup s1) = map_total f (lookup s') + (\<Sum>q\<leftarrow>ps. f (the (lookup s1 q)))"
  proof (rule Cons.IH [OF s1(2)])
    show "\<forall>q\<in>set ps. lookup s1 q \<noteq> None" using Cons.prems(2,3) s1(3) by auto
    show "finite (dom (lookup s1))" using Cons.prems(4) s1(3) by simp
  qed (use Cons.prems s1 in auto)
  moreover have "(\<Sum>q\<leftarrow>ps. f (the (lookup s1 q))) = (\<Sum>q\<leftarrow>ps. f (the (lookup s q)))"
    using Cons.prems(2) s1(3) by (intro arg_cong [of _ _ sum_list] map_cong) auto
  ultimately show ?case
    using map_total_remove [OF Cons.prems(4) c, of f] c s1(3) by simp
qed simp

lemma create_all_law:
  "inv s \<Longrightarrow> al_distinct cs \<Longrightarrow> (\<forall>p\<in>fst ` set cs. fresh s p) \<Longrightarrow>
   inv (create_all cs s) \<and>
   lookup (create_all cs s) = (\<lambda>p. case map_of cs p of Some c \<Rightarrow> Some c | None \<Rightarrow> lookup s p)"
proof (induction cs arbitrary: s)
  case (Cons oc cs)
  obtain p c where oc: "oc = (p, c)" by force
  have d: "al_distinct cs" "p \<notin> fst ` set cs" using Cons.prems(2) by (auto simp: oc al_distinct_def)
  have law: "inv (create p c s)" "lookup (create p c s) = (lookup s)(p \<mapsto> c)"
    "\<forall>q. q \<noteq> p \<longrightarrow> fresh s q \<longrightarrow> fresh (create p c s) q"
    using create_law [OF Cons.prems(1), of p c] Cons.prems(3) by (auto simp: oc)
  have fr: "\<forall>q\<in>fst ` set cs. fresh (create p c s) q" using law(3) d(2) Cons.prems(3) by (auto simp: oc)
  have "map_of cs p = None" using d(2) by (simp add: map_of_eq_None_iff)
  with Cons.IH [OF law(1) d(1) fr] show ?case
    by (auto simp: oc law(2) fun_eq_iff split: option.splits)
qed simp

lemma create_all_total:
  "inv s \<Longrightarrow> al_distinct cs \<Longrightarrow> (\<forall>p\<in>fst ` set cs. fresh s p \<and> lookup s p = None) \<Longrightarrow> finite (dom (lookup s)) \<Longrightarrow>
   map_total f (lookup (create_all cs s)) = map_total f (lookup s) + (\<Sum>(p, c)\<leftarrow>cs. f c)
   \<and> finite (dom (lookup (create_all cs s)))"
proof (induction cs arbitrary: s)
  case (Cons oc cs)
  obtain p c where oc: "oc = (p, c)" by force
  have d: "al_distinct cs" "p \<notin> fst ` set cs" using Cons.prems(2) by (auto simp: oc al_distinct_def)
  have law: "inv (create p c s)" "lookup (create p c s) = (lookup s)(p \<mapsto> c)"
    "\<forall>q. q \<noteq> p \<longrightarrow> fresh s q \<longrightarrow> fresh (create p c s) q"
    using create_law [OF Cons.prems(1), of p c] Cons.prems(3) by (auto simp: oc)
  have fr: "\<forall>q\<in>fst ` set cs. fresh (create p c s) q \<and> lookup (create p c s) q = None"
    using law(2,3) d(2) Cons.prems(3) by (auto simp: oc)
  have t: "map_total f (lookup (create p c s)) = f c + map_total f (lookup s)"
    unfolding law(2) using Cons.prems(3,4) by (intro map_total_insert) (auto simp: oc)
  have "finite (dom (lookup (create p c s)))" using Cons.prems(4) by (simp add: law(2))
  from Cons.IH [OF law(1) d(1) fr this] t show ?case by (simp add: oc)
qed simp

end

section \<open>The coins of a transaction's outputs\<close>

primrec out_coins :: "hash256 \<Rightarrow> u64 \<Rightarrow> bool \<Rightarrow> u32 \<Rightarrow> txout list \<Rightarrow> (outpoint \<times> coin) list" where
  "out_coins tid height cb n [] = []"
| "out_coins tid height cb n (out # os) =
     (OutPoint tid n, \<lparr>c_out = out, c_height = height, c_coinbase = cb\<rparr>) # out_coins tid height cb (n + 1) os"

lemma out_coins_keys: "p \<in> fst ` set (out_coins tid height cb n os) \<Longrightarrow> op_txid p = tid"
  by (induction os arbitrary: n) auto

lemma map_of_out_coins:
  "unat n + length os \<le> 2 ^ 32 \<Longrightarrow>
   map_of (out_coins tid height cb n os) p =
     (if op_txid p = tid \<and> unat n \<le> unat (op_n p) \<and> unat (op_n p) < unat n + length os
      then Some \<lparr>c_out = os ! (unat (op_n p) - unat n), c_height = height, c_coinbase = cb\<rparr> else None)"
proof (induction os arbitrary: n)
  case (Cons out os)
  have at_n: "OutPoint tid n = p \<longleftrightarrow> op_txid p = tid \<and> unat (op_n p) = unat n"
    by (cases p) (auto simp: word_unat_eq_iff)
  show ?case
  proof (cases "os = []")
    case True
    then show ?thesis using at_n by (auto simp: map_of_Cons_code)
  next
    case False
    then have n1: "unat (n + 1) = unat n + 1"
      using Cons.prems by (cases os) (simp_all add: unat_word_ariths)
    have IH: "map_of (out_coins tid height cb (n + 1) os) p =
     (if op_txid p = tid \<and> unat n + 1 \<le> unat (op_n p) \<and> unat (op_n p) < unat n + 1 + length os
      then Some \<lparr>c_out = os ! (unat (op_n p) - (unat n + 1)), c_height = height, c_coinbase = cb\<rparr> else None)"
      using Cons.IH [of "n + 1"] Cons.prems n1 by simp
    show ?thesis
    proof (cases "OutPoint tid n = p")
      case True
      then show ?thesis using at_n by simp
    next
      case False
      then have "op_txid p = tid \<Longrightarrow> unat (op_n p) \<noteq> unat n" using at_n by simp
      with IH False show ?thesis by (auto simp: nth_Cons' diff_diff_add)
    qed
  qed
qed simp

lemma out_coins_distinct: "unat n + length os \<le> 2 ^ 32 \<Longrightarrow> al_distinct (out_coins tid height cb n os)"
proof (induction os arbitrary: n)
  case (Cons out os)
  show ?case
  proof (cases "os = []")
    case False
    then have n1: "unat (n + 1) = unat n + 1"
      using Cons.prems by (cases os) (simp_all add: unat_word_ariths)
    have "map_of (out_coins tid height cb (n + 1) os) (OutPoint tid n) = None"
      using map_of_out_coins [of "n + 1" os tid height cb "OutPoint tid n"] Cons.prems n1 by simp
    with Cons n1 show ?thesis by (simp add: al_distinct_def map_of_eq_None_iff)
  qed (simp add: al_distinct_def)
qed simp

lemma out_coins_sum: "(\<Sum>(p, c)\<leftarrow>out_coins tid height cb n os. f c) =
    (\<Sum>out\<leftarrow>os. f \<lparr>c_out = out, c_height = height, c_coinbase = cb\<rparr>)"
  by (induction os arbitrary: n) simp_all

section \<open>The overlay provides it\<close>

definition view_inv :: "view \<Rightarrow> bool" where
  "view_inv v \<longleftrightarrow> al_distinct (created v) \<and> al_distinct (spent_base v)
     \<and> (\<forall>p. map_of (created v) p \<noteq> None \<longrightarrow> map_of (spent_base v) p = None)"

definition view_fresh :: "view \<Rightarrow> outpoint \<Rightarrow> bool" where
  "view_fresh v p \<longleftrightarrow> map_of (spent_base v) p = None"

definition view_create :: "outpoint \<Rightarrow> coin \<Rightarrow> view \<Rightarrow> view" where
  "view_create p c v = v\<lparr>created := AList.update p c (created v)\<rparr>"

interpretation vw: coin_store view_inv "view_coin base" view_fresh "spend_coin base" view_create
  for base
proof
  fix v p c
  assume inv: "view_inv v" and look: "view_coin base v p = Some c"
  then have ns: "map_of (spent_base v) p = None" by (auto simp: view_coin_def split: if_splits)
  show "\<exists>v'. spend_coin base p v = Inr v' \<and> view_inv v' \<and> view_coin base v' = (view_coin base v)(p := None)
      \<and> (\<forall>q. q \<noteq> p \<longrightarrow> view_fresh v q \<longrightarrow> view_fresh v' q)"
  proof (cases "map_of (created v) p")
    case None
    then have base: "rd_coin base p = Some c" using look by (auto simp: view_coin_def split: if_splits)
    define v' where "v' = v\<lparr>spent_base := AList.update p c (spent_base v)\<rparr>"
    have "spend_coin base p v = Inr v'" using None base by (simp add: spend_coin_def v'_def)
    moreover have "view_inv v'" using inv None by (auto simp: view_inv_def v'_def update_conv')
    moreover have "view_coin base v' = (view_coin base v)(p := None)"
      by (auto simp: view_coin_def v'_def update_conv' fun_eq_iff)
    ultimately show ?thesis by (auto simp: view_fresh_def v'_def update_conv')
  next
    case (Some d)
    define v' where "v' = v\<lparr>created := AList.delete p (created v), spent_created := List.insert p (spent_created v)\<rparr>"
    have "spend_coin base p v = Inr v'" using Some by (simp add: spend_coin_def v'_def)
    moreover have "view_inv v'" using inv by (auto simp: view_inv_def v'_def delete_conv')
    moreover have "view_coin base v' = (view_coin base v)(p := None)"
      using ns by (auto simp: view_coin_def v'_def delete_conv' fun_eq_iff)
    ultimately show ?thesis by (auto simp: view_fresh_def v'_def)
  qed
next
  fix v p c
  assume "view_inv v" "view_fresh v p"
  then show "view_inv (view_create p c v) \<and> view_coin base (view_create p c v) = (view_coin base v)(p \<mapsto> c)
      \<and> (\<forall>q. q \<noteq> p \<longrightarrow> view_fresh v q \<longrightarrow> view_fresh (view_create p c v) q)"
    by (auto simp: view_inv_def view_fresh_def view_create_def view_coin_def update_conv' fun_eq_iff)
qed

lemma spend_inputs_list: "spend_inputs base is v = vw.spend_list base (map prev is) v"
proof (induction "is" arbitrary: v)
  case (Cons i "is")
  then show ?case by (cases "spend_coin base (prev i) v") simp_all
qed simp

lemma create_coins_all: "create_coins tid height cb n os v = vw.create_all (out_coins tid height cb n os) v"
  by (induction os arbitrary: n v) (simp_all add: view_create_def)

text \<open>Creating the outputs of a transaction whose id is new.\<close>

lemma create_coins_law:
  assumes "view_inv v" "length os \<le> 10000" "\<forall>k. view_fresh v (OutPoint tid k)"
  shows "view_inv (create_coins tid height cb 0 os v)"
    and "view_coin base (create_coins tid height cb 0 os v) p =
      (if op_txid p = tid \<and> unat (op_n p) < length os
       then Some \<lparr>c_out = os ! unat (op_n p), c_height = height, c_coinbase = cb\<rparr> else view_coin base v p)"
proof -
  have "\<forall>p\<in>fst ` set (out_coins tid height cb 0 os). view_fresh v p"
    using assms(3) out_coins_keys by (metis outpoint.collapse)
  from vw.create_all_law [OF assms(1) _ this, where base = base] assms(2)
  show "view_inv (create_coins tid height cb 0 os v)"
    "view_coin base (create_coins tid height cb 0 os v) p =
      (if op_txid p = tid \<and> unat (op_n p) < length os
       then Some \<lparr>c_out = os ! unat (op_n p), c_height = height, c_coinbase = cb\<rparr> else view_coin base v p)"
    by (auto simp: create_coins_all out_coins_distinct map_of_out_coins)
qed

lemma create_coins_total:
  assumes "view_inv v" "length os \<le> 10000" "\<forall>k. view_fresh v (OutPoint tid k)"
    and "\<forall>k. view_coin base v (OutPoint tid k) = None" "finite (dom (view_coin base v))"
  shows "map_total f (view_coin base (create_coins tid height cb 0 os v)) =
      map_total f (view_coin base v) + (\<Sum>out\<leftarrow>os. f \<lparr>c_out = out, c_height = height, c_coinbase = cb\<rparr>)
    \<and> finite (dom (view_coin base (create_coins tid height cb 0 os v)))"
proof -
  have "\<forall>p\<in>fst ` set (out_coins tid height cb 0 os). view_fresh v p \<and> view_coin base v p = None"
    using assms(3,4) out_coins_keys by (metis outpoint.collapse)
  from vw.create_all_total [OF assms(1) _ this assms(5), of f] assms(2)
  show ?thesis by (simp add: create_coins_all out_coins_distinct out_coins_sum)
qed

end
