(* ===== verification/Ledger_Laws.thy ===== *)
theory Ledger_Laws
  imports Coin_Store
begin

text \<open>
  What \<open>LedgerView::apply\<close> does, stated on the state it presents: \<open>view_reader\<close> is the abstraction
  from an overlay to coins, tokens and pools. The first part follows the flow maps through the
  loops of the source (sums below \<open>2\<^sup>1\<^sup>2\<^sup>8\<close>, so nothing wraps), the second one the pools, the third
  one puts a whole transaction together.
\<close>

section \<open>Flows\<close>

definition flow_nat :: "flows \<Rightarrow> hash256 \<Rightarrow> nat" where
  "flow_nat m a = unat (flow m a)"

definition flows_below :: "nat \<Rightarrow> flows \<Rightarrow> bool" where
  "flows_below k m \<longleftrightarrow> (\<forall>a. flow_nat m a \<le> k * 2 ^ 64)"

lemma flow_nat_Nil [simp]: "flow_nat [] a = 0"
  by (simp add: flow_nat_def flow_def)

lemma flows_below_Nil [simp]: "flows_below k []"
  by (simp add: flows_below_def)

lemma flows_below_mono: "flows_below k m \<Longrightarrow> k \<le> l \<Longrightarrow> flows_below l m"
  unfolding flows_below_def by (meson le_trans mult_le_mono1)

lemma flow_nat_add:
  assumes "flows_below k m" "k < 2 ^ 32"
  shows "flow_nat (add_flow a x m) b = flow_nat m b + (if a = b then unat x else 0)"
    and "flows_below (Suc k) (add_flow a x m)"
proof -
  have le: "flow_nat m c \<le> k * 2 ^ 64" for c using assms(1) by (simp add: flows_below_def)
  have "k * 2 ^ 64 \<le> 2 ^ 32 * 2 ^ 64" using assms(2) by simp
  then have "flow_nat m a + unat x < 2 ^ 128" using le [of a] unat_lt_64 [of x] by simp
  then have e: "flow_nat (add_flow a x m) b = flow_nat m b + (if a = b then unat x else 0)" for b
    by (auto simp: flow_nat_def flow_def add_flow_def update_conv' unat_word_ariths split: option.splits)
  then show "flow_nat (add_flow a x m) b = flow_nat m b + (if a = b then unat x else 0)" .
  have "flow_nat (add_flow a x m) b \<le> Suc k * 2 ^ 64" for b
    unfolding e using le [of b] unat_lt_64 [of x] by auto
  then show "flows_below (Suc k) (add_flow a x m)" by (simp add: flows_below_def)
qed

lemma flow_nat_fold:
  "flows_below k m \<Longrightarrow> k + length fs \<le> 2 ^ 32 \<Longrightarrow>
   flow_nat (fold (\<lambda>(a, x). add_flow a x) fs m) b = flow_nat m b + (\<Sum>(a, x)\<leftarrow>fs. if a = b then unat x else 0)
   \<and> flows_below (k + length fs) (fold (\<lambda>(a, x). add_flow a x) fs m)"
proof (induction fs arbitrary: m k)
  case (Cons f fs)
  obtain a x where f: "f = (a, x)" by force
  have k: "k < 2 ^ 32" using Cons.prems(2) by simp
  note add = flow_nat_add [OF Cons.prems(1) k, of a x]
  from Cons.IH [OF add(2)] Cons.prems(2) show ?case by (simp add: f add(1) [of b])
qed simp

text \<open>The value of an output or a coin in one asset.\<close>

definition out_val :: "hash256 \<Rightarrow> txout \<Rightarrow> nat" where
  "out_val a out = (if o_asset out = a then unat (o_value out) else 0)"

definition coin_val :: "hash256 \<Rightarrow> coin \<Rightarrow> nat" where
  "coin_val a c = out_val a (c_out c)"

lemma sum_outs_flow:
  assumes "flows_below k m" "k + length os \<le> 2 ^ 32"
  shows "flow_nat (sum_outs os m) a = flow_nat m a + (\<Sum>out\<leftarrow>os. out_val a out)"
    and "flows_below (k + length os) (sum_outs os m)"
proof -
  have e: "sum_outs os m = fold (\<lambda>(a, x). add_flow a x) (map (\<lambda>out. (o_asset out, o_value out)) os) m"
    by (simp add: sum_outs_def fold_map comp_def)
  from flow_nat_fold [OF assms(1), of "map (\<lambda>out. (o_asset out, o_value out)) os" a] assms(2)
  show "flow_nat (sum_outs os m) a = flow_nat m a + (\<Sum>out\<leftarrow>os. out_val a out)"
    "flows_below (k + length os) (sum_outs os m)"
    by (simp_all add: e comp_def out_val_def)
qed

section \<open>Inputs\<close>

definition mature :: "crypto \<Rightarrow> hash256 \<Rightarrow> u64 \<Rightarrow> coin \<Rightarrow> bool" where
  "mature cr gen height c \<longleftrightarrow>
     \<not> (c_coinbase c \<and> height < c_height c + word_of_int (maturity_for_genesis cr gen))"

lemma gather_inputs_ok:
  assumes "gather_inputs cr base v height gen is fl coins = Inr (fl', coins')"
    and "flows_below k fl" "k + length is \<le> 2 ^ 32"
  shows "(\<forall>i\<in>set is. \<exists>c. view_coin base v (prev i) = Some c \<and> mature cr gen height c)
    \<and> coins' = coins @ map (\<lambda>i. the (view_coin base v (prev i))) is
    \<and> flow_nat fl' a = flow_nat fl a + (\<Sum>i\<leftarrow>is. coin_val a (the (view_coin base v (prev i))))
    \<and> flows_below (k + length is) fl'"
  using assms
proof (induction "is" arbitrary: fl coins k)
  case (Cons i "is")
  obtain c where c: "view_coin base v (prev i) = Some c" and m: "mature cr gen height c"
    and g: "gather_inputs cr base v height gen is (add_flow (o_asset (c_out c)) (o_value (c_out c)) fl)
      (coins @ [c]) = Inr (fl', coins')"
    using Cons.prems(1) by (auto simp: mature_def split: option.splits if_splits)
  have k: "k < 2 ^ 32" using Cons.prems(3) by simp
  note add = flow_nat_add [OF Cons.prems(2) k, of "o_asset (c_out c)" "o_value (c_out c)"]
  from Cons.IH [OF g add(2)] Cons.prems(3) show ?case
    using c m by (simp add: add(1) [of a] coin_val_def out_val_def)
qed simp

section \<open>Witnesses\<close>

text \<open>Input \<open>i\<close> is covered by a signature of the key its coin is locked to.\<close>

definition signed_input :: "crypto \<Rightarrow> transaction \<Rightarrow> coin list \<Rightarrow> hash256 \<Rightarrow> nat \<Rightarrow> bool" where
  "signed_input cr tx coins gen i \<longleftrightarrow>
     (\<exists>pk sig. WitnessFalcon pk sig \<in> set (wits tx) \<and> address_hash cr pk = o_addr (c_out (coins ! i))
        \<and> falcon_verify cr pk sig (signature_hash cr gen (txid cr tx)))"

lemma check_wits_nth:
  "check_wits cr sh coins ws i rest = Inr () \<Longrightarrow> j < length rest \<Longrightarrow>
   check_wit cr sh coins ws (i + j) (rest ! j) = Inr ()"
proof (induction rest arbitrary: i j)
  case (Cons w rest)
  then show ?case
    by (cases j) (auto simp: rbind_eq_Inr dest: Cons.IH [of "Suc i"])
qed simp

theorem verify_witness_signed:
  assumes "verify_witness cr tx coins gen = Inr ()" "i < length (ins tx)"
  shows "signed_input cr tx coins gen i"
proof -
  define sh where "sh = signature_hash cr gen (txid cr tx)"
  have len: "length (wits tx) = length (ins tx)"
    and all: "check_wits cr sh coins (wits tx) 0 (wits tx) = Inr ()"
    using assms(1) by (auto simp: verify_witness_def sh_def rbind_eq_Inr)
  have at: "check_wit cr sh coins (wits tx) j (wits tx ! j) = Inr ()" if "j < length (wits tx)" for j
    using check_wits_nth [OF all that] by simp
  have direct: "signed_input cr tx coins gen k"
    if "j < length (wits tx)" "wits tx ! j = WitnessFalcon pk sig"
      "o_addr (c_out (coins ! j)) = o_addr (c_out (coins ! k))" for j k pk sig
    using at [OF that(1)] that nth_mem [OF that(1)]
    by (auto simp: signed_input_def sh_def split: if_splits)
  show ?thesis
  proof (cases "wits tx ! i")
    case (WitnessFalcon pk sig)
    with direct assms(2) len show ?thesis by auto
  next
    case (WitnessRef r)
    with at [of i] assms(2) len have "unat r < i"
      "o_addr (c_out (coins ! unat r)) = o_addr (c_out (coins ! i))"
      "\<exists>pk sig. wits tx ! unat r = WitnessFalcon pk sig"
      by (auto split: if_splits witness.splits)
    with direct assms(2) len show ?thesis by (metis order.strict_trans)
  qed
qed

section \<open>Pools\<close>

text \<open>A pool is never drained: both reserves stay positive and the locked shares stay locked.\<close>

definition pool_ok :: "pool \<Rightarrow> bool" where
  "pool_ok p \<longleftrightarrow> 0 < unat (p_qnt p) \<and> 0 < unat (p_tok p) \<and> unat MIN_LIQUIDITY \<le> unat (p_shares p)"

definition pools_ok :: "(hash256 \<Rightarrow> pool option) \<Rightarrow> bool" where
  "pools_ok pools \<longleftrightarrow> (\<forall>t p. pools t = Some p \<longrightarrow> p_token p = t \<and> t \<noteq> QNT_ASSET \<and> pool_ok p)"

text \<open>The reserves a share stands for, as the product of the two per square of the shares.\<close>

definition share_value_le :: "pool \<Rightarrow> pool \<Rightarrow> bool" where
  "share_value_le p p' \<longleftrightarrow>
     unat (p_qnt p) * unat (p_tok p) * (unat (p_shares p') * unat (p_shares p')) \<le>
     unat (p_qnt p') * unat (p_tok p') * (unat (p_shares p) * unat (p_shares p))"

lemma share_value_le_refl [simp]: "share_value_le p p"
  by (simp add: share_value_le_def)

lemma share_value_le_trans:
  assumes "share_value_le a b" "share_value_le b c" "pool_ok b"
  shows "share_value_le a c"
proof -
  define Sb where "Sb = unat (p_shares b) * unat (p_shares b)"
  define A where "A = unat (p_qnt a) * unat (p_tok a)"
  define Sc where "Sc = unat (p_shares c) * unat (p_shares c)"
  define C where "C = unat (p_qnt c) * unat (p_tok c)"
  define Sa where "Sa = unat (p_shares a) * unat (p_shares a)"
  define B where "B = unat (p_qnt b) * unat (p_tok b)"
  have ab: "A * Sb \<le> B * Sa" and bc: "B * Sc \<le> C * Sb"
    using assms(1,2) by (simp_all add: share_value_le_def A_def B_def C_def Sa_def Sb_def Sc_def)
  have "A * Sb * Sc \<le> B * Sa * Sc" using ab by (rule mult_le_mono1)
  also have "\<dots> = B * Sc * Sa" by simp
  also have "\<dots> \<le> C * Sb * Sa" using bc by (rule mult_le_mono1)
  finally have "A * Sc * Sb \<le> C * Sa * Sb" by (simp add: ac_simps)
  moreover have "0 < Sb" using assms(3) by (simp add: Sb_def pool_ok_def unat_MIN_LIQUIDITY)
  ultimately have "A * Sc \<le> C * Sa" by simp
  then show ?thesis by (simp add: share_value_le_def A_def C_def Sa_def Sc_def)
qed

lemma add_fits:
  assumes "\<not> (ucast (a :: u64) + ucast b :: u128) > ucast (m :: u64)"
  shows "unat (a + b) = unat a + unat b" "unat a + unat b \<le> unat m"
proof -
  have "unat (ucast a + ucast b :: u128) = unat a + unat b"
    using unat_lt_64 [of a] unat_lt_64 [of b] by (simp add: unat_word_ariths)
  with assms show le: "unat a + unat b \<le> unat m" by (simp add: word_less_nat_alt not_less)
  then have "unat a + unat b < 2 ^ 64" using unat_lt_64 [of m] by linarith
  then show "unat (a + b) = unat a + unat b" by (simp add: unat_word_ariths)
qed

lemma scale_product:
  fixes Q Q' T T' S S' :: nat
  assumes "Q * S' \<le> Q' * S" "T * S' \<le> T' * S"
  shows "Q * T * (S' * S') \<le> Q' * T' * (S * S)"
proof -
  have "Q * S' * (T * S') \<le> Q' * S * (T' * S)" using assms by (rule mult_le_mono)
  then show ?thesis by (simp add: ac_simps)
qed

text \<open>What a swap, a deposit and a withdrawal do to the pool they touch.\<close>

lemma add_liquidity_pool:
  assumes "pool_ok pl" "\<not> shares > amm_add_shares pl qnt tok"
    and "\<not> (ucast (p_qnt pl) + ucast qnt :: u128) > ucast MAX_MONEY"
      "\<not> (ucast (p_tok pl) + ucast tok :: u128) > ucast MAX_TOKEN_SUPPLY"
      "\<not> (ucast (p_shares pl) + ucast shares :: u128) > ucast MAX_TOKEN_SUPPLY"
  defines "pl' \<equiv> pl\<lparr>p_qnt := p_qnt pl + qnt, p_tok := p_tok pl + tok, p_shares := p_shares pl + shares\<rparr>"
  shows "pool_ok pl' \<and> share_value_le pl pl' \<and> unat (p_qnt pl') = unat (p_qnt pl) + unat qnt
    \<and> unat (p_tok pl') = unat (p_tok pl) + unat tok \<and> unat (p_shares pl') = unat (p_shares pl) + unat shares"
proof -
  have v: "unat (p_qnt pl') = unat (p_qnt pl) + unat qnt" "unat (p_tok pl') = unat (p_tok pl) + unat tok"
    "unat (p_shares pl') = unat (p_shares pl) + unat shares"
    using add_fits [OF assms(3)] add_fits [OF assms(4)] add_fits [OF assms(5)] by (simp_all add: pl'_def)
  have nz: "p_qnt pl \<noteq> 0" "p_tok pl \<noteq> 0" "p_shares pl \<noteq> 0"
    using assms(1) by (auto simp: pool_ok_def unat_MIN_LIQUIDITY)
  have "unat shares \<le> unat (mul_div qnt (p_shares pl) (p_qnt pl))"
    "unat shares \<le> unat (mul_div tok (p_shares pl) (p_tok pl))"
    using assms(2) nz
    by (auto simp: amm_add_shares_def Let_def word_less_nat_alt not_less word_le_nat_alt split: if_splits)
  then have "unat shares * unat (p_qnt pl) \<le> unat qnt * unat (p_shares pl)"
    "unat shares * unat (p_tok pl) \<le> unat tok * unat (p_shares pl)"
    using mul_div_le by (meson le_trans mult_le_mono1)+
  then have "share_value_le pl pl'"
    unfolding share_value_le_def v by (intro scale_product) (simp_all add: algebra_simps)
  with v assms(1) show ?thesis by (simp add: pool_ok_def)
qed

lemma remove_liquidity_pool:
  assumes "pool_ok pl" "\<not> shares > p_shares pl - MIN_LIQUIDITY"
    and "amm_remove_amounts pl shares = (mq, mt)" "\<not> (qnt > mq \<or> tok > mt)"
  defines "pl' \<equiv> pl\<lparr>p_qnt := p_qnt pl - qnt, p_tok := p_tok pl - tok, p_shares := p_shares pl - shares\<rparr>"
  shows "pool_ok pl' \<and> share_value_le pl pl' \<and> unat (p_qnt pl) = unat (p_qnt pl') + unat qnt
    \<and> unat (p_tok pl) = unat (p_tok pl') + unat tok \<and> unat (p_shares pl) = unat (p_shares pl') + unat shares"
proof -
  define S where "S = unat (p_shares pl)"
  have MIN: "unat MIN_LIQUIDITY \<le> S" using assms(1) by (simp add: pool_ok_def S_def)
  then have sh: "unat shares \<le> S - unat MIN_LIQUIDITY"
    using assms(2) by (simp add: word_less_nat_alt not_less unat_sub word_le_nat_alt S_def)
  have S: "0 < S" "unat shares < S" using MIN sh by (simp_all add: unat_MIN_LIQUIDITY)
  have step: "unat amt < unat res \<and> unat res * (S - unat shares) \<le> (unat res - unat amt) * S"
    if "\<not> amt > mul_div shares res (p_shares pl)" "0 < unat res" for amt res
  proof -
    have "unat amt * S \<le> unat (mul_div shares res (p_shares pl)) * unat (p_shares pl)"
      using that(1) by (simp add: word_less_nat_alt not_less S_def)
    also have "\<dots> \<le> unat shares * unat res" by (rule mul_div_le)
    finally have le: "unat amt * S \<le> unat shares * unat res" .
    also have "\<dots> < S * unat res" using S that(2) by simp
    finally have "unat amt < unat res" by (simp add: mult.commute)
    with le show ?thesis by (simp add: diff_mult_distrib diff_mult_distrib2 mult.commute)
  qed
  have eq: "mq = mul_div shares (p_qnt pl) (p_shares pl)" "mt = mul_div shares (p_tok pl) (p_shares pl)"
    using assms(3) by (simp_all add: amm_remove_amounts_def)
  have q: "unat qnt < unat (p_qnt pl)" "unat (p_qnt pl) * (S - unat shares) \<le> (unat (p_qnt pl) - unat qnt) * S"
    and t: "unat tok < unat (p_tok pl)" "unat (p_tok pl) * (S - unat shares) \<le> (unat (p_tok pl) - unat tok) * S"
    using step [where amt = qnt and res = "p_qnt pl"] step [where amt = tok and res = "p_tok pl"] assms(1,4) eq by (auto simp: pool_ok_def)
  have v: "unat (p_qnt pl') = unat (p_qnt pl) - unat qnt" "unat (p_tok pl') = unat (p_tok pl) - unat tok"
    "unat (p_shares pl') = S - unat shares"
    using q(1) t(1) S(2) by (simp_all add: pl'_def unat_sub word_le_nat_alt S_def)
  have "share_value_le pl pl'"
    unfolding share_value_le_def v S_def [symmetric] using q(2) t(2) by (rule scale_product)
  moreover have "pool_ok pl'" using q(1) t(1) sh MIN by (simp add: pool_ok_def v)
  ultimately show ?thesis using q(1) t(1) S(2) by (simp add: v S_def)
qed

lemma swap_pool:
  fixes inp out :: amount and pl :: pool and sell :: bool
  defines "rin \<equiv> if sell then p_tok pl else p_qnt pl" and "rout \<equiv> if sell then p_qnt pl else p_tok pl"
  assumes "pool_ok pl" "\<not> (out \<ge> rout \<or> out > amm_quote inp rin rout)"
    and "\<not> (ucast rin + ucast inp :: u128) > (if sell then ucast MAX_TOKEN_SUPPLY else ucast MAX_MONEY)"
  defines "pl' \<equiv> if sell then pl\<lparr>p_tok := rin + inp, p_qnt := rout - out\<rparr> else pl\<lparr>p_qnt := rin + inp, p_tok := rout - out\<rparr>"
  shows "pool_ok pl' \<and> share_value_le pl pl'
    \<and> unat (if sell then p_tok pl' else p_qnt pl') = unat rin + unat inp
    \<and> unat rout = unat (if sell then p_qnt pl' else p_tok pl') + unat out"
proof -
  have i: "unat (rin + inp) = unat rin + unat inp"
    using assms(5) add_fits(1) [where a = rin and b = inp] by (cases sell) auto
  have o: "unat out < unat rout" "unat out \<le> quote_nat (unat inp) (unat rin) (unat rout)"
    using assms(4) by (auto simp: word_le_nat_alt word_less_nat_alt not_le not_less amm_quote_val)
  then have r: "unat (rout - out) = unat rout - unat out" by (simp add: unat_sub word_le_nat_alt)
  have "0 < unat rin" using assms(3) by (simp add: rin_def pool_ok_def)
  then have "unat rin * unat rout \<le> (unat rin + unat inp) * (unat rout - unat out)"
    using quote_constant_product [OF o(2)] o(1) by simp
  then have "share_value_le pl pl'"
    using i r by (cases sell) (auto simp: share_value_le_def pl'_def rin_def rout_def mult.commute intro!: mult_le_mono1)
  with assms(3) o(1) i r show ?thesis by (auto simp: pool_ok_def pl'_def rin_def)
qed

section \<open>Operations\<close>

definition net_flow :: "hash256 \<Rightarrow> opst \<Rightarrow> int" where
  "net_flow a st = int (flow_nat (plus_f st) a) - int (flow_nat (minus_f st) a)"

definition st_below :: "nat \<Rightarrow> opst \<Rightarrow> bool" where
  "st_below k st \<longleftrightarrow> flows_below k (plus_f st) \<and> flows_below k (minus_f st)"

definition flow_sum :: "hash256 \<Rightarrow> (hash256 \<times> amount) list \<Rightarrow> int" where
  "flow_sum a fs = int (\<Sum>(b, x)\<leftarrow>fs. if b = a then unat x else 0)"

lemma flow_sum_simps [simp]:
  "flow_sum a [] = 0" "flow_sum a ((b, x) # fs) = (if b = a then int (unat x) else 0) + flow_sum a fs"
  by (simp_all add: flow_sum_def)

lemma move_flows_net:
  assumes "st_below k st" "k + n \<le> 2 ^ 32" "length ab \<le> n" "length rel \<le> n"
  shows "net_flow a (move_flows ab rel st) = net_flow a st + flow_sum a rel - flow_sum a ab"
    and "st_below (k + n) (move_flows ab rel st)"
proof -
  have p: "flows_below k (plus_f st)" and m: "flows_below k (minus_f st)"
    using assms(1) by (simp_all add: st_below_def)
  note P = flow_nat_fold [OF p, of rel a] and M = flow_nat_fold [OF m, of ab a]
  show "net_flow a (move_flows ab rel st) = net_flow a st + flow_sum a rel - flow_sum a ab"
    using P M assms by (simp add: net_flow_def move_flows_def flow_sum_def)
  show "st_below (k + n) (move_flows ab rel st)"
    using P M assms flows_below_mono by (auto simp: st_below_def move_flows_def)
qed

lemma get_pool_simps [simp]:
  "get_pool base v (move_flows ab rel st) = get_pool base v st"
  "get_pool base v (set_pool t p st) = (get_pool base v st)(t \<mapsto> p)"
  "get_pool base v (st\<lparr>minted := ms\<rparr>) = get_pool base v st"
  "net_flow a (set_pool t p st) = net_flow a st" "net_flow a (st\<lparr>minted := ms\<rparr>) = net_flow a st"
  "st_below k (set_pool t p st) = st_below k st" "st_below k (st\<lparr>minted := ms\<rparr>) = st_below k st"
  by (auto simp: fun_eq_iff get_pool_def move_flows_def set_pool_def update_conv' net_flow_def st_below_def)

definition pool_val :: "hash256 \<Rightarrow> pool \<Rightarrow> nat" where
  "pool_val a p = (if a = QNT_ASSET then unat (p_qnt p) else 0) + (if a = p_token p then unat (p_tok p) else 0)"

text \<open>The shares a pool has issued, apart from those that are locked in it for ever, in units of the share asset.\<close>

definition share_val :: "crypto \<Rightarrow> hash256 \<Rightarrow> pool \<Rightarrow> nat" where
  "share_val cr a p = (if pool_share_id cr (p_token p) = a then unat (p_shares p) - unat MIN_LIQUIDITY else 0)"

text \<open>What an operation mints of an asset.\<close>

fun minted_val :: "crypto \<Rightarrow> transaction \<Rightarrow> u32 \<Rightarrow> tx_op \<Rightarrow> hash256 \<Rightarrow> nat" where
  "minted_val cr tx i (OpCreateToken ticker name decimals supply uri) a =
     (if token_id cr (prev (ins tx ! 0)) i = a then unat supply else 0)"
| "minted_val cr tx i _ a = 0"

text \<open>The outcome of one operation on the pools and on the flows of every asset.\<close>

definition op_law :: "crypto \<Rightarrow> (hash256 \<Rightarrow> pool option) \<Rightarrow> (hash256 \<Rightarrow> pool option) \<Rightarrow> opst \<Rightarrow> opst \<Rightarrow>
    (hash256 \<Rightarrow> nat) \<Rightarrow> bool" where
  "op_law cr P P' st st' mint \<longleftrightarrow>
     pools_ok P' \<and> finite (dom P')
     \<and> (\<forall>t p. P t = Some p \<longrightarrow> (\<exists>p'. P' t = Some p' \<and> share_value_le p p'))
     \<and> (\<forall>a. net_flow a st' + int (map_total (pool_val a) P') + int (map_total (share_val cr a) P) =
          net_flow a st + int (map_total (pool_val a) P) + int (map_total (share_val cr a) P') + int (mint a))"

lemma pool_step:
  assumes "pools_ok P" "finite (dom P)" "st_below k st" "k + 2 \<le> 2 ^ 32"
    and "length ab \<le> 2" "length rel \<le> 2" "P = get_pool base v st"
    and "p_token p' = t" "t \<noteq> QNT_ASSET" "pool_ok p'" "\<And>p. P t = Some p \<Longrightarrow> share_value_le p p'"
    and flow: "\<And>a. flow_sum a rel + int (pool_val a p') + int (case P t of None \<Rightarrow> 0 | Some p \<Rightarrow> share_val cr a p) =
        flow_sum a ab + int (share_val cr a p') + int (case P t of None \<Rightarrow> 0 | Some p \<Rightarrow> pool_val a p)"
  shows "op_law cr P (get_pool base v (move_flows ab rel (set_pool t p' st))) st (move_flows ab rel (set_pool t p' st)) (\<lambda>_. 0)
    \<and> st_below (k + 2) (move_flows ab rel (set_pool t p' st))"
proof -
  define st' where "st' = move_flows ab rel (set_pool t p' st)"
  have below: "st_below k (set_pool t p' st)" using assms(3) by simp
  note mv = move_flows_net [OF below assms(4-6)]
  have P': "get_pool base v st' = P(t \<mapsto> p')" by (simp add: st'_def assms(7))
  have "net_flow a st' + int (map_total (pool_val a) (P(t \<mapsto> p'))) + int (map_total (share_val cr a) P) =
      net_flow a st + int (map_total (pool_val a) P) + int (map_total (share_val cr a) (P(t \<mapsto> p')))" for a
    using map_total_update [OF assms(2), of "pool_val a" t p'] map_total_update [OF assms(2), of "share_val cr a" t p']
      flow [of a] mv(1) [of a]
    by (simp add: st'_def split: option.splits)
  moreover have "pools_ok (P(t \<mapsto> p'))" using assms(1,8-10) by (auto simp: pools_ok_def)
  moreover have "\<exists>q. (P(t \<mapsto> p')) u = Some q \<and> share_value_le p q" if "P u = Some p" for u p
    using that assms(11) by (cases "u = t") auto
  ultimately show ?thesis
    using assms(2) mv(2) by (simp add: op_law_def P' st'_def [symmetric])
qed

lemma apply_op_law:
  assumes "apply_op cr base v tx height coins i op st = Inr st'" "check_op tx msgs op = Inr msgs'"
    and "pools_ok (get_pool base v st)" "finite (dom (get_pool base v st))" "st_below k st" "k + 2 \<le> 2 ^ 32"
  shows "op_law cr (get_pool base v st) (get_pool base v st') st st' (minted_val cr tx i op) \<and> st_below (k + 2) st'"
proof (cases op)
  case (OpCreateToken ticker name decimals amt uri)
  define id' where "id' = token_id cr (prev (ins tx ! 0)) i"
  obtain ms where "st' = move_flows [] [(id', amt)] (st\<lparr>minted := ms\<rparr>)"
    using assms(1) OpCreateToken by (auto simp: Let_def id'_def split: if_splits)
  then show ?thesis
    using assms(3-6) move_flows_net [of k "st\<lparr>minted := ms\<rparr>" 2 "[]" "[(id', amt)]"]
    by (auto simp: op_law_def OpCreateToken id'_def)
next
  case (OpPoolCreate token qnt tok shares)
  define p where "p = \<lparr>p_token = token, p_qnt = qnt, p_tok = tok, p_shares = shares + MIN_LIQUIDITY\<rparr>"
  have st': "st' = move_flows [(QNT_ASSET, qnt), (token, tok)] [(pool_share_id cr token, shares)] (set_pool token p st)"
    and none: "get_pool base v st token = None"
    and tot: "MIN_LIQUIDITY < amm_initial_shares qnt tok" "shares \<le> amm_initial_shares qnt tok - MIN_LIQUIDITY"
    using assms(1) by (auto simp: OpPoolCreate Let_def p_def split: if_splits)
  have chk: "token \<noteq> QNT_ASSET" "qnt \<noteq> 0" "tok \<noteq> 0"
    using assms(2) by (auto simp: OpPoolCreate QNT_ASSET_def split: if_splits)
  have "unat shares \<le> unat (amm_initial_shares qnt tok) - unat MIN_LIQUIDITY"
    using tot unat_sub [of MIN_LIQUIDITY "amm_initial_shares qnt tok"]
    by (simp add: word_le_nat_alt word_less_nat_alt)
  then have "unat (shares + MIN_LIQUIDITY) = unat shares + unat MIN_LIQUIDITY"
    using tot(1) unat_lt_64 [of "amm_initial_shares qnt tok"]
    by (simp add: unat_word_ariths word_less_nat_alt)
  note sh = this
  then have "pool_ok p" using chk by (simp add: p_def pool_ok_def unat_gt_0)
  then show ?thesis
    unfolding st' OpPoolCreate minted_val.simps
    by (intro pool_step [OF assms(3-6)]) (use chk none sh in \<open>auto simp: p_def pool_val_def share_val_def\<close>)
next
  case (OpAddLiquidity token qnt tok shares)
  obtain pl where pl: "get_pool base v st token = Some pl"
    and g: "\<not> shares > amm_add_shares pl qnt tok"
      "\<not> (ucast (p_qnt pl) + ucast qnt :: u128) > ucast MAX_MONEY"
      "\<not> (ucast (p_tok pl) + ucast tok :: u128) > ucast MAX_TOKEN_SUPPLY"
      "\<not> (ucast (p_shares pl) + ucast shares :: u128) > ucast MAX_TOKEN_SUPPLY"
    and st': "st' = move_flows [(QNT_ASSET, qnt), (token, tok)] [(pool_share_id cr token, shares)]
      (set_pool token (pl\<lparr>p_qnt := p_qnt pl + qnt, p_tok := p_tok pl + tok, p_shares := p_shares pl + shares\<rparr>) st)"
    using assms(1) by (auto simp: OpAddLiquidity split: option.splits if_splits)
  have ok: "pool_ok pl" "p_token pl = token" "token \<noteq> QNT_ASSET" using assms(3) pl by (auto simp: pools_ok_def)
  note law = add_liquidity_pool [OF ok(1) g]
  show ?thesis
    unfolding st' OpAddLiquidity minted_val.simps
    by (intro pool_step [OF assms(3-6)]) (use ok pl law in \<open>auto simp: pool_val_def share_val_def pool_ok_def\<close>)
next
  case (OpRemoveLiquidity token shares qnt tok)
  obtain pl mq mt where pl: "get_pool base v st token = Some pl"
    and g: "\<not> shares > p_shares pl - MIN_LIQUIDITY" "amm_remove_amounts pl shares = (mq, mt)" "\<not> (qnt > mq \<or> tok > mt)"
    and st': "st' = move_flows [(pool_share_id cr token, shares)] [(QNT_ASSET, qnt), (token, tok)]
      (set_pool token (pl\<lparr>p_qnt := p_qnt pl - qnt, p_tok := p_tok pl - tok, p_shares := p_shares pl - shares\<rparr>) st)"
    using assms(1) by (auto simp: OpRemoveLiquidity split: option.splits if_splits prod.splits)
  have ok: "pool_ok pl" "p_token pl = token" "token \<noteq> QNT_ASSET" using assms(3) pl by (auto simp: pools_ok_def)
  note law = remove_liquidity_pool [OF ok(1) g]
  show ?thesis
    unfolding st' OpRemoveLiquidity minted_val.simps
    by (intro pool_step [OF assms(3-6)]) (use ok pl law in \<open>auto simp: pool_val_def share_val_def pool_ok_def\<close>)
next
  case (OpSwap token sell inp out)
  obtain pl where pl: "get_pool base v st token = Some pl"
    and g: "\<not> (out \<ge> (if sell then p_qnt pl else p_tok pl) \<or>
        out > amm_quote inp (if sell then p_tok pl else p_qnt pl) (if sell then p_qnt pl else p_tok pl))"
      "\<not> (ucast (if sell then p_tok pl else p_qnt pl) + ucast inp :: u128)
        > (if sell then ucast MAX_TOKEN_SUPPLY else ucast MAX_MONEY)"
    and st': "st' = move_flows [(if sell then token else QNT_ASSET, inp)] [(if sell then QNT_ASSET else token, out)]
      (set_pool token (if sell then pl\<lparr>p_tok := p_tok pl + inp, p_qnt := p_qnt pl - out\<rparr>
        else pl\<lparr>p_qnt := p_qnt pl + inp, p_tok := p_tok pl - out\<rparr>) st)"
    using assms(1) by (auto simp: OpSwap Let_def split: option.splits if_splits)
  have ok: "pool_ok pl" "p_token pl = token" "token \<noteq> QNT_ASSET" using assms(3) pl by (auto simp: pools_ok_def)
  note law = swap_pool [OF ok(1) g]
  show ?thesis
    unfolding st' OpSwap minted_val.simps
    by (intro pool_step [OF assms(3-6)]) (cases sell; use ok pl law in \<open>auto simp: pool_val_def share_val_def\<close>)+
next
  case (OpMessage m1 m2 m3 m4)
  then have "st' = st" using assms(1) by (auto split: if_splits)
  then show ?thesis
    using assms(3-6) flows_below_mono [of k _ "k + 2"] by (auto simp: op_law_def OpMessage st_below_def)
qed

primrec minted_total :: "crypto \<Rightarrow> transaction \<Rightarrow> u32 \<Rightarrow> tx_op list \<Rightarrow> hash256 \<Rightarrow> nat" where
  "minted_total cr tx i [] a = 0"
| "minted_total cr tx i (op # os) a = minted_val cr tx i op a + minted_total cr tx (i + 1) os a"

lemma op_law_trans:
  assumes "op_law cr P P1 st st1 m1" "op_law cr P1 P2 st1 st2 m2"
  shows "op_law cr P P2 st st2 (\<lambda>a. m1 a + m2 a)"
proof -
  have "\<exists>p'. P2 t = Some p' \<and> share_value_le p p'" if p: "P t = Some p" for t p
  proof -
    obtain q where q: "P1 t = Some q" "share_value_le p q" using assms(1) p unfolding op_law_def by blast
    obtain r where r: "P2 t = Some r" "share_value_le q r" using assms(2) q unfolding op_law_def by blast
    have "pool_ok q" using assms(1) q(1) by (auto simp: op_law_def pools_ok_def)
    with q r share_value_le_trans show ?thesis by blast
  qed
  moreover have "net_flow a st2 + int (map_total (pool_val a) P2) + int (map_total (share_val cr a) P) =
      net_flow a st + int (map_total (pool_val a) P) + int (map_total (share_val cr a) P2) + int (m1 a + m2 a)" for a
  proof -
    have "net_flow a st1 + int (map_total (pool_val a) P1) + int (map_total (share_val cr a) P) =
        net_flow a st + int (map_total (pool_val a) P) + int (map_total (share_val cr a) P1) + int (m1 a)"
      "net_flow a st2 + int (map_total (pool_val a) P2) + int (map_total (share_val cr a) P1) =
        net_flow a st1 + int (map_total (pool_val a) P1) + int (map_total (share_val cr a) P2) + int (m2 a)"
      using assms by (simp_all add: op_law_def)
    then show ?thesis by simp
  qed
  ultimately show ?thesis using assms(2) by (simp add: op_law_def)
qed

lemma apply_ops_law:
  "apply_ops cr base v tx height coins i os st = Inr st' \<Longrightarrow> check_ops tx msgs os = Inr () \<Longrightarrow>
   pools_ok (get_pool base v st) \<Longrightarrow> finite (dom (get_pool base v st)) \<Longrightarrow> st_below k st \<Longrightarrow>
   k + 2 * length os \<le> 2 ^ 32 \<Longrightarrow>
   op_law cr (get_pool base v st) (get_pool base v st') st st' (minted_total cr tx i os)
   \<and> st_below (k + 2 * length os) st'"
proof (induction os arbitrary: i st msgs k)
  case Nil
  then show ?case by (simp add: op_law_def)
next
  case (Cons op os)
  obtain st1 where st1: "apply_op cr base v tx height coins i op st = Inr st1"
    "apply_ops cr base v tx height coins (i + 1) os st1 = Inr st'"
    using Cons.prems(1) by (auto simp: rbind_eq_Inr)
  obtain m1 where m1: "check_op tx msgs op = Inr m1" "check_ops tx m1 os = Inr ()"
    using Cons.prems(2) by (auto simp: rbind_eq_Inr)
  have law1: "op_law cr (get_pool base v st) (get_pool base v st1) st st1 (minted_val cr tx i op)" "st_below (k + 2) st1"
    using apply_op_law [OF st1(1) m1(1) Cons.prems(3-5)] Cons.prems(6) by auto
  then have "pools_ok (get_pool base v st1)" "finite (dom (get_pool base v st1))" by (simp_all add: op_law_def)
  from Cons.IH [OF st1(2) m1(2) this law1(2)] Cons.prems(6)
  have "op_law cr (get_pool base v st1) (get_pool base v st') st1 st' (minted_total cr tx (i + 1) os)
      \<and> st_below (k + 2 * length (op # os)) st'"
    by simp
  with op_law_trans [OF law1(1)] show ?case by (simp add: fun_eq_iff)
qed

text \<open>The scratch maps keep distinct keys, and a touched pool is there.\<close>

definition scratch_ok :: "opst \<Rightarrow> bool" where
  "scratch_ok st \<longleftrightarrow> al_distinct (touched st) \<and> al_distinct (minted st) \<and> (\<forall>t. map_of (touched st) t \<noteq> Some None)"

lemma apply_op_scratch:
  assumes "apply_op cr base v tx height coins i op st = Inr st'" "scratch_ok st"
  shows "scratch_ok st'"
  using assms
  by (cases op)
    (auto simp: scratch_ok_def set_pool_def move_flows_def update_conv' Let_def
      split: if_splits option.splits prod.splits)

lemma apply_ops_scratch:
  "apply_ops cr base v tx height coins i os st = Inr st' \<Longrightarrow> scratch_ok st \<Longrightarrow> scratch_ok st'"
proof (induction os arbitrary: i st)
  case (Cons op os)
  then show ?case by (auto simp: rbind_eq_Inr dest: apply_op_scratch)
qed simp

section \<open>Balance\<close>

lemma check_balance_ok:
  "check_balance st as fee0 = Inr fee \<Longrightarrow> distinct as \<Longrightarrow>
   (\<forall>a\<in>set as. a \<noteq> QNT_ASSET \<longrightarrow> net_flow a st = 0)
   \<and> int (unat fee) = (if QNT_ASSET \<in> set as then net_flow QNT_ASSET st else int (unat fee0))"
proof (induction "as" arbitrary: fee0)
  case (Cons a "as")
  define p m where "p = flow (plus_f st) a" and "m = flow (minus_f st) a"
  show ?case
  proof (cases "a = QNT_ASSET")
    case True
    then have z: "hash_is_zero a" by (simp add: QNT_ASSET_def)
    then have g: "m \<le> p" "p - m \<le> ucast MAX_MONEY" "check_balance st as (ucast (p - m)) = Inr fee"
      using Cons.prems(1) by (auto simp: Let_def p_def m_def split: if_splits)
    have "unat (p - m) = unat p - unat m" using g(1) by (rule unat_sub)
    moreover have "unat (p - m) \<le> 10 ^ 19" using g(2) by (simp add: word_le_nat_alt unat_MAX_MONEY)
    ultimately have "int (unat (ucast (p - m) :: u64)) = net_flow a st"
      using g(1) by (simp add: unat_ucast_128_64 net_flow_def flow_nat_def p_def m_def word_le_nat_alt)
    with Cons.IH [OF g(3)] Cons.prems(2) True show ?thesis by auto
  next
    case False
    then have z: "\<not> hash_is_zero a" by (simp add: QNT_ASSET_def)
    then have "p = m" "check_balance st as fee0 = Inr fee"
      using Cons.prems(1) by (auto simp: Let_def p_def m_def split: if_splits)
    moreover from this have "net_flow a st = 0" by (simp add: net_flow_def flow_nat_def p_def m_def)
    ultimately show ?thesis using Cons.IH Cons.prems(2) False by auto
  qed
qed simp

lemma flow_absent: "a \<notin> fst ` set m \<Longrightarrow> flow_nat m a = 0"
proof -
  assume "a \<notin> fst ` set m"
  then have "map_of m a = None" by (simp add: map_of_eq_None_iff)
  then show ?thesis by (simp add: flow_nat_def flow_def)
qed

lemma balance_net:
  assumes "check_balance st (flow_assets st) 0 = Inr fee"
  shows "net_flow a st = (if a = QNT_ASSET then int (unat fee) else 0)"
proof -
  have set: "set (flow_assets st) = fst ` set (plus_f st) \<union> fst ` set (minus_f st)"
    by (auto simp: flow_assets_def)
  have "distinct (flow_assets st)" by (simp add: flow_assets_def)
  note bal = check_balance_ok [OF assms this]
  show ?thesis
  proof (cases "a \<in> set (flow_assets st)")
    case True
    with bal show ?thesis by auto
  next
    case False
    then have "net_flow a st = 0" using flow_absent unfolding set by (simp add: net_flow_def)
    with bal False show ?thesis by auto
  qed
qed

section \<open>Committing\<close>

lemma commit_pool_fields [simp]:
  "view_coin base (commit_pool base' tp v) = view_coin base v"
  "view_token base (commit_pool base' tp v) = view_token base v"
  "view_inv (commit_pool base' tp v) = view_inv v"
  "view_fresh (commit_pool base' tp v) = view_fresh v"
  by (auto simp: commit_pool_def Let_def view_coin_def view_token_def view_inv_def view_fresh_def fun_eq_iff
      split: prod.splits option.splits)

lemma commit_pools_fields [simp]:
  "view_coin base (fold (commit_pool base') ts v) = view_coin base v"
  "view_token base (fold (commit_pool base') ts v) = view_token base v"
  "view_inv (fold (commit_pool base') ts v) = view_inv v"
  by (induction ts arbitrary: v) simp_all

lemma commit_pools_view:
  "al_distinct ts \<Longrightarrow> (\<forall>t. map_of ts t \<noteq> Some None) \<Longrightarrow>
   view_pool base (fold (commit_pool base') ts v) t = (case map_of ts t of Some p \<Rightarrow> p | None \<Rightarrow> view_pool base v t)"
proof (induction ts arbitrary: v)
  case (Cons tp ts)
  obtain u p where tp: "tp = (u, Some p)" using Cons.prems(2) by (cases tp) (metis map_of_Cons_code(2) not_None_eq prod.collapse)
  have d: "al_distinct ts" "map_of ts u = None" using Cons.prems(1) tp by (auto simp: al_distinct_def map_of_eq_None_iff)
  have "\<forall>t. map_of ts t \<noteq> Some None" using Cons.prems(2) d tp by (metis map_of_Cons_code(2) option.distinct(1))
  with Cons.IH [OF d(1)] d(2) show ?case
    by (auto simp: tp commit_pool_def Let_def view_pool_def update_conv' split: option.splits)
qed simp

lemma commit_tokens_fields [simp]:
  "view_coin base (commit_tokens ms v) = view_coin base v"
  "view_pool base (commit_tokens ms v) = view_pool base v"
  "view_inv (commit_tokens ms v) = view_inv v"
  by (induction ms arbitrary: v)
    (auto simp: commit_tokens_def view_coin_def view_pool_def view_inv_def fun_eq_iff)

lemma commit_tokens_view:
  "al_distinct ms \<Longrightarrow>
   view_token base (commit_tokens ms v) t = (case map_of ms t of Some i \<Rightarrow> Some i | None \<Rightarrow> view_token base v t)"
proof (induction ms arbitrary: v)
  case (Cons m ms)
  obtain u i where m: "m = (u, i)" by force
  have d: "al_distinct ms" "map_of ms u = None" using Cons.prems(1) m by (auto simp: al_distinct_def map_of_eq_None_iff)
  from Cons.IH [OF d(1), of "v\<lparr>v_tokens := AList.update u i (v_tokens v)\<rparr>"] d(2) show ?case
    by (auto simp: m commit_tokens_def view_token_def update_conv' split: option.splits)
qed (simp add: commit_tokens_def)

end
