(* ===== verification/Ledger_Spec.thy ===== *)
theory Ledger_Spec
  imports Ledger_Laws
begin

text \<open>
  The contract of \<open>LedgerView::apply\<close>: the abstract transition of the ledger a transaction stands for,
  the refinement of it by the overlay, and what is conserved. \<open>reader_state\<close>, the coins, tokens and
  pools a \<open>StateReader\<close> presents, is the abstract state.
\<close>

section \<open>Abstract state and transition\<close>

abbreviation prevs :: "transaction \<Rightarrow> outpoint list" where
  "prevs tx \<equiv> map prev (ins tx)"

definition spec_coins :: "hash256 \<Rightarrow> transaction \<Rightarrow> u64 \<Rightarrow> (outpoint \<Rightarrow> coin option) \<Rightarrow> outpoint \<Rightarrow> coin option" where
  "spec_coins tid tx height coins p =
     (if op_txid p = tid \<and> unat (op_n p) < length (outs tx)
      then Some \<lparr>c_out = outs tx ! unat (op_n p), c_height = height, c_coinbase = is_coinbase tx\<rparr>
      else if p \<in> set (prevs tx) then None else coins p)"

text \<open>No coin of this txid exists yet, nor did one that was spent in the overlay.\<close>

definition fresh_txid :: "reader_state \<Rightarrow> view \<Rightarrow> hash256 \<Rightarrow> bool" where
  "fresh_txid base v tid \<longleftrightarrow> (\<forall>k. view_coin base v (OutPoint tid k) = None \<and> view_fresh v (OutPoint tid k))"

text \<open>The units of an asset in the state: in coins and in pool reserves.\<close>

definition asset_total :: "hash256 \<Rightarrow> reader_state \<Rightarrow> nat" where
  "asset_total a R = map_total (coin_val a) (rd_coin R) + map_total (pool_val a) (rd_pool R)"

definition state_ok :: "reader_state \<Rightarrow> bool" where
  "state_ok R \<longleftrightarrow> finite (dom (rd_coin R)) \<and> finite (dom (rd_pool R)) \<and> pools_ok (rd_pool R)"

text \<open>The units of an asset that pools have issued as their shares; none, for an asset that is not one.\<close>

definition shares_issued :: "crypto \<Rightarrow> hash256 \<Rightarrow> reader_state \<Rightarrow> nat" where
  "shares_issued cr a R = map_total (share_val cr a) (rd_pool R)"

lemma no_shares: "\<forall>t. pool_share_id cr t \<noteq> a \<Longrightarrow> shares_issued cr a R = 0"
  by (simp add: shares_issued_def share_val_def map_total_def)

text \<open>
  What the ledger relies on of the hash: an id derived by BLAKE3 is not the all-zero id of QNT.
\<close>

definition ids_nonzero :: "crypto \<Rightarrow> bool" where
  "ids_nonzero cr \<longleftrightarrow> (\<forall>t. pool_share_id cr t \<noteq> QNT_ASSET) \<and> (\<forall>p i. token_id cr p i \<noteq> QNT_ASSET)"

section \<open>A successful application, taken apart\<close>

lemma view_apply_parts:
  assumes "view_apply cr base tx height gen sigs v = Inr (fee, v')"
  obtains fl coins st v1 where
    "\<not> is_coinbase tx" "lock_height tx \<le> height"
    "gather_inputs cr base v height gen (ins tx) [] [] = Inr (fl, coins)"
    "apply_ops cr base v tx height coins 0 (ops tx)
      \<lparr>plus_f = fl, minus_f = sum_outs (outs tx) [], touched = [], minted = []\<rparr> = Inr st"
    "check_balance st (flow_assets st) 0 = Inr fee"
    "sigs \<longrightarrow> verify_witness cr tx coins gen = Inr ()"
    "spend_inputs base (ins tx) v = Inr v1"
    "v' = fold (commit_pool base) (touched st) (commit_tokens (minted st)
      (create_coins (txid cr tx) height False 0 (outs tx) v1))"
  using assms
  by (auto simp: view_apply_def rbind_eq_Inr Let_def not_less split: if_splits prod.splits)

lemma check_tx_basic_parts:
  assumes "check_tx_basic tx ew = Inr ()"
  shows "\<not> is_coinbase tx \<Longrightarrow> distinct (prevs tx)" "check_ops tx 0 (ops tx) = Inr ()"
    "check_outs (is_coinbase tx) (outs tx) 0 = Inr ()" "is_coinbase tx \<Longrightarrow> ops tx = []"
    "ew \<Longrightarrow> \<not> is_coinbase tx \<Longrightarrow> length (wits tx) = length (ins tx)"
  using assms by (auto simp: check_tx_basic_def rbind_eq_Inr split: if_splits)

lemma core_ok_lengths:
  assumes "core_ok tx"
  shows "length (ins tx) \<le> 10000" "length (outs tx) \<le> 10000" "length (ops tx) \<le> 16"
  using assms by (simp_all add: core_ok_def limit_defs)

lemma spend_inputs_fields:
  "spend_inputs base is v = Inr v' \<Longrightarrow> v_pools v' = v_pools v \<and> v_tokens v' = v_tokens v"
proof (induction "is" arbitrary: v)
  case (Cons i "is")
  then obtain v1 where "spend_coin base (prev i) v = Inr v1" "spend_inputs base is v1 = Inr v'"
    by (auto simp: rbind_eq_Inr)
  with Cons.IH [of v1] show ?case by (auto simp: spend_coin_def split: if_splits option.splits)
qed simp

lemma create_coins_fields [simp]:
  "v_pools (create_coins tid height cb n os v) = v_pools v"
  "v_tokens (create_coins tid height cb n os v) = v_tokens v"
  by (induction os arbitrary: n v) simp_all

lemma create_coins_pool [simp]: "view_pool base (create_coins tid height cb n os v) = view_pool base v"
  by (simp add: view_pool_def fun_eq_iff)

section \<open>Refinement\<close>

theorem view_apply_refines:
  assumes "view_apply cr base tx height gen sigs v = Inr (fee, v')"
    and "check_tx_basic tx ew = Inr ()" "core_ok tx" "view_inv v" "fresh_txid base v (txid cr tx)"
  shows "view_inv v'"
    and "view_coin base v' = spec_coins (txid cr tx) tx height (view_coin base v)"
    and "\<forall>p\<in>set (prevs tx). \<exists>c. view_coin base v p = Some c \<and> mature cr gen height c"
    and "sigs \<Longrightarrow> i < length (ins tx) \<Longrightarrow>
      signed_input cr tx (map (\<lambda>p. the (view_coin base v p)) (prevs tx)) gen i"
proof -
  obtain fl coins st v1 where
    p: "\<not> is_coinbase tx" "lock_height tx \<le> height"
      "gather_inputs cr base v height gen (ins tx) [] [] = Inr (fl, coins)"
      "apply_ops cr base v tx height coins 0 (ops tx)
        \<lparr>plus_f = fl, minus_f = sum_outs (outs tx) [], touched = [], minted = []\<rparr> = Inr st"
      "check_balance st (flow_assets st) 0 = Inr fee"
      "sigs \<longrightarrow> verify_witness cr tx coins gen = Inr ()"
      "spend_inputs base (ins tx) v = Inr v1"
      "v' = fold (commit_pool base) (touched st) (commit_tokens (minted st)
        (create_coins (txid cr tx) height False 0 (outs tx) v1))"
    by (rule view_apply_parts [OF assms(1)])
  note len = core_ok_lengths [OF assms(3)]
  have g: "\<forall>i\<in>set (ins tx). \<exists>c. view_coin base v (prev i) = Some c \<and> mature cr gen height c"
    and coins: "coins = map (\<lambda>i. the (view_coin base v (prev i))) (ins tx)"
    using gather_inputs_ok [OF p(3), of 0] len by auto
  show "\<forall>p\<in>set (prevs tx). \<exists>c. view_coin base v p = Some c \<and> mature cr gen height c" using g by auto
  show "signed_input cr tx (map (\<lambda>p. the (view_coin base v p)) (prevs tx)) gen i"
    if "sigs" "i < length (ins tx)"
    using verify_witness_signed [of cr tx coins gen i] p(6) that coins by (simp add: comp_def)
  have found: "\<forall>p\<in>set (prevs tx). view_coin base v p \<noteq> None" using g by fastforce
  have "distinct (prevs tx)" using check_tx_basic_parts(1) [OF assms(2) p(1)] .
  from vw.spend_list_law [OF assms(4) this found] p(7)
  have v1: "view_inv v1" "view_coin base v1 = (\<lambda>p. if p \<in> set (prevs tx) then None else view_coin base v p)"
    "\<forall>q. q \<notin> set (prevs tx) \<longrightarrow> view_fresh v q \<longrightarrow> view_fresh v1 q"
    by (auto simp: spend_inputs_list)
  have "OutPoint (txid cr tx) k \<notin> set (prevs tx)" for k
  proof
    assume "OutPoint (txid cr tx) k \<in> set (prevs tx)"
    with found have "view_coin base v (OutPoint (txid cr tx) k) \<noteq> None" by (rule bspec)
    with assms(5) show False by (simp add: fresh_txid_def)
  qed
  then have "view_fresh v1 (OutPoint (txid cr tx) k)" for k
    using v1(3) assms(5) unfolding fresh_txid_def by blast
  then have fr: "\<forall>k. view_fresh v1 (OutPoint (txid cr tx) k)" by blast
  note v2 = create_coins_law [OF v1(1) len(2) fr, where height = height and cb = False]
  show "view_inv v'" using v2(1) by (simp add: p(8))
  show "view_coin base v' = spec_coins (txid cr tx) tx height (view_coin base v)"
    using p(1) by (auto simp: p(8) v2(2) v1(2) spec_coins_def fun_eq_iff)
qed

section \<open>Conservation\<close>

theorem view_apply_conserves:
  assumes "view_apply cr base tx height gen sigs v = Inr (fee, v')"
    and "check_tx_basic tx ew = Inr ()" "core_ok tx" "view_inv v" "fresh_txid base v (txid cr tx)"
    and "state_ok (view_reader base v)"
  shows "state_ok (view_reader base v')"
    and "\<And>t p. view_pool base v t = Some p \<Longrightarrow> \<exists>p'. view_pool base v' t = Some p' \<and> share_value_le p p'"
    and "asset_total a (view_reader base v') + (if a = QNT_ASSET then unat fee else 0) + shares_issued cr a (view_reader base v) =
      asset_total a (view_reader base v) + minted_total cr tx 0 (ops tx) a + shares_issued cr a (view_reader base v')"
proof -
  obtain fl coins st v1 where
    p: "\<not> is_coinbase tx" "lock_height tx \<le> height"
      "gather_inputs cr base v height gen (ins tx) [] [] = Inr (fl, coins)"
      "apply_ops cr base v tx height coins 0 (ops tx)
        \<lparr>plus_f = fl, minus_f = sum_outs (outs tx) [], touched = [], minted = []\<rparr> = Inr st"
      "check_balance st (flow_assets st) 0 = Inr fee"
      "sigs \<longrightarrow> verify_witness cr tx coins gen = Inr ()"
      "spend_inputs base (ins tx) v = Inr v1"
      "v' = fold (commit_pool base) (touched st) (commit_tokens (minted st)
        (create_coins (txid cr tx) height False 0 (outs tx) v1))"
    by (rule view_apply_parts [OF assms(1)])
  define st0 where "st0 = \<lparr>plus_f = fl, minus_f = sum_outs (outs tx) [], touched = [], minted = []\<rparr>"
  note len = core_ok_lengths [OF assms(3)]
  have inp: "flow_nat fl b = (\<Sum>i\<leftarrow>ins tx. coin_val b (the (view_coin base v (prev i))))" "flows_below 10000 fl" for b
    using gather_inputs_ok [OF p(3), of 0 b] len flows_below_mono by auto
  have outp: "flow_nat (sum_outs (outs tx) []) b = (\<Sum>out\<leftarrow>outs tx. out_val b out)"
    "flows_below 10000 (sum_outs (outs tx) [])" for b
    using sum_outs_flow(1) [where k = 0 and m = "[]" and os = "outs tx" and a = b]
      sum_outs_flow(2) [where k = 0 and m = "[]" and os = "outs tx"] len flows_below_mono by auto
  have pools0: "get_pool base v st0 = view_pool base v" by (simp add: fun_eq_iff get_pool_def st0_def)
  have "st_below 10000 st0" using inp(2) outp(2) by (simp add: st_below_def st0_def)
  from apply_ops_law [OF p(4) check_tx_basic_parts(2) [OF assms(2)], folded st0_def, OF _ _ this]
  have law: "op_law cr (view_pool base v) (get_pool base v st) st0 st (minted_total cr tx 0 (ops tx))"
    using assms(6) len by (simp add: pools0 state_ok_def view_reader_def)
  have scratch: "scratch_ok st" using apply_ops_scratch [OF p(4)] by (simp add: scratch_ok_def)
  have "view_pool base (create_coins (txid cr tx) height False 0 (outs tx) v1) = view_pool base v"
    using spend_inputs_fields [OF p(7)] by (simp add: view_pool_def fun_eq_iff)
  then have pools: "view_pool base v' = get_pool base v st"
    using commit_pools_view [of "touched st"] scratch
    by (simp add: p(8) fun_eq_iff scratch_ok_def get_pool_def split: option.splits)
  note ref = view_apply_refines [OF assms(1-5)]
  have found: "\<forall>q\<in>set (prevs tx). view_coin base v q \<noteq> None" using ref(3) by fastforce
  have dist: "distinct (prevs tx)" using check_tx_basic_parts(1) [OF assms(2) p(1)] .
  have fin: "finite (dom (view_coin base v))" using assms(6) by (simp add: state_ok_def view_reader_def)
  from vw.spend_list_law [OF assms(4) dist found] p(7)
  have v1: "view_inv v1" "view_coin base v1 = (\<lambda>q. if q \<in> set (prevs tx) then None else view_coin base v q)"
    "\<forall>q. q \<notin> set (prevs tx) \<longrightarrow> view_fresh v q \<longrightarrow> view_fresh v1 q"
    by (auto simp: spend_inputs_list)
  have fin1: "finite (dom (view_coin base v1))"
    by (rule finite_subset [OF _ fin]) (auto simp: v1(2) dom_def split: if_splits)
  have "OutPoint (txid cr tx) k \<notin> set (prevs tx)" for k
  proof
    assume "OutPoint (txid cr tx) k \<in> set (prevs tx)"
    with found have "view_coin base v (OutPoint (txid cr tx) k) \<noteq> None" by (rule bspec)
    with assms(5) show False by (simp add: fresh_txid_def)
  qed
  then have fr: "\<forall>k. view_fresh v1 (OutPoint (txid cr tx) k)" "\<forall>k. view_coin base v1 (OutPoint (txid cr tx) k) = None"
    using v1(2,3) assms(5) unfolding fresh_txid_def by auto
  have coins': "view_coin base v' = view_coin base (create_coins (txid cr tx) height False 0 (outs tx) v1)"
    by (simp add: p(8))
  have cr: "map_total f (view_coin base v') = map_total f (view_coin base v1)
      + (\<Sum>out\<leftarrow>outs tx. f \<lparr>c_out = out, c_height = height, c_coinbase = False\<rparr>)
      \<and> finite (dom (view_coin base v'))" for f
    using create_coins_total [OF v1(1) len(2) fr fin1] unfolding coins' by blast
  show "state_ok (view_reader base v')"
    using law cr [of "\<lambda>_. 0"] pools by (simp add: state_ok_def view_reader_def op_law_def)
  show "\<exists>p'. view_pool base v' t = Some p' \<and> share_value_le p p'" if "view_pool base v t = Some p" for t p
    using law that unfolding op_law_def pools by blast
  show "asset_total a (view_reader base v') + (if a = QNT_ASSET then unat fee else 0) + shares_issued cr a (view_reader base v) =
      asset_total a (view_reader base v) + minted_total cr tx 0 (ops tx) a + shares_issued cr a (view_reader base v')"
  proof -
    have sp: "map_total (coin_val a) (view_coin base v) =
        map_total (coin_val a) (view_coin base v1) + flow_nat fl a"
      using vw.spend_list_total [OF assms(4) dist found fin, of v1 "coin_val a"] p(7) inp(1) [of a]
      by (simp add: spend_inputs_list comp_def)
    have c2: "map_total (coin_val a) (view_coin base v') =
        map_total (coin_val a) (view_coin base v1) + flow_nat (sum_outs (outs tx) []) a"
      using cr [of "coin_val a"] outp(1) [of a] by (simp add: coin_val_def)
    have n0: "net_flow a st0 = int (flow_nat fl a) - int (flow_nat (sum_outs (outs tx) []) a)"
      by (simp add: net_flow_def st0_def)
    have "net_flow a st + int (map_total (pool_val a) (view_pool base v')) + int (map_total (share_val cr a) (view_pool base v)) =
        net_flow a st0 + int (map_total (pool_val a) (view_pool base v)) + int (map_total (share_val cr a) (view_pool base v'))
        + int (minted_total cr tx 0 (ops tx) a)"
      using law unfolding op_law_def pools by blast
    then show ?thesis
      using sp c2 n0 balance_net [OF p(5), of a] 
      by (simp add: asset_total_def shares_issued_def view_reader_def split: if_splits del: of_nat_unat)
  qed
qed

section \<open>The commit cannot throw\<close>

lemma rbind_eq_Inl: "rbind m f = Inl e \<longleftrightarrow> m = Inl e \<or> (\<exists>x. m = Inr x \<and> f x = Inl e)"
  by (cases m) auto

definition throws :: "'a result \<Rightarrow> bool" where
  "throws r \<longleftrightarrow> r = Inl ''bad optional access''"

lemma throws_simps [simp]:
  "\<not> throws (Inr x)" "throws (Inl e) \<longleftrightarrow> e = ''bad optional access''"
  "throws (rbind m f) \<longleftrightarrow> throws m \<or> (\<exists>x. m = Inr x \<and> throws (f x))"
  "throws (fail_if c e) \<longleftrightarrow> c \<and> e = ''bad optional access''"
  by (auto simp: throws_def rbind_eq_Inl fail_if_def)

lemma gather_no_throw: "\<not> throws (gather_inputs cr base v height gen is fl coins)"
  by (induction "is" arbitrary: fl coins) (auto split: option.splits)

lemma apply_op_no_throw: "\<not> throws (apply_op cr base v tx height coins i op st)"
  by (cases op) (auto simp: Let_def split: option.splits prod.splits)

lemma apply_ops_no_throw: "\<not> throws (apply_ops cr base v tx height coins i os st)"
  by (induction os arbitrary: i st) (auto simp: apply_op_no_throw)

lemma check_balance_no_throw: "\<not> throws (check_balance st as fee)"
  by (induction "as" arbitrary: fee) (auto simp: Let_def)

lemma check_wit_no_throw: "\<not> throws (check_wit cr sh coins ws i w)"
  by (cases w) (auto split: witness.splits)

lemma check_wits_no_throw: "\<not> throws (check_wits cr sh coins ws i rest)"
  by (induction rest arbitrary: i) (auto simp: check_wit_no_throw)

lemma verify_witness_no_throw: "\<not> throws (verify_witness cr tx coins gen)"
  by (simp add: verify_witness_def check_wits_no_throw)

theorem view_apply_no_throw:
  assumes "check_tx_basic tx ew = Inr ()" "view_inv v" "length (ins tx) \<le> 2 ^ 32"
  shows "\<not> throws (view_apply cr base tx height gen sigs v)"
proof -
  have "\<not> throws (spend_inputs base (ins tx) v)"
    if "\<not> is_coinbase tx" "gather_inputs cr base v height gen (ins tx) [] [] = Inr (fl, coins)" for fl coins
  proof -
    have "\<forall>p\<in>set (prevs tx). view_coin base v p \<noteq> None"
      using gather_inputs_ok [OF that(2), of 0] assms(3) by fastforce
    from vw.spend_list_law [OF assms(2) check_tx_basic_parts(1) [OF assms(1) that(1)] this]
    obtain v' where "spend_inputs base (ins tx) v = Inr v'" by (auto simp: spend_inputs_list)
    then show ?thesis by simp
  qed
  then show ?thesis
    by (auto simp: view_apply_def gather_no_throw apply_ops_no_throw check_balance_no_throw
        verify_witness_no_throw Let_def split: prod.splits if_splits)
qed

section \<open>Coinbases\<close>

lemma apply_coinbase_law:
  assumes "view_inv v" "fresh_txid base v (txid cr tx)" "length (outs tx) \<le> 10000" "is_coinbase tx"
  shows "view_inv (apply_coinbase cr tx height v)"
    and "view_coin base (apply_coinbase cr tx height v) = spec_coins (txid cr tx) tx height (view_coin base v)"
    and "state_ok (view_reader base v) \<Longrightarrow> state_ok (view_reader base (apply_coinbase cr tx height v))
      \<and> asset_total a (view_reader base (apply_coinbase cr tx height v)) =
        asset_total a (view_reader base v) + (\<Sum>out\<leftarrow>outs tx. out_val a out)"
proof -
  have fr: "\<forall>k. view_fresh v (OutPoint (txid cr tx) k)" "\<forall>k. view_coin base v (OutPoint (txid cr tx) k) = None"
    using assms(2) by (simp_all add: fresh_txid_def)
  note law = create_coins_law [OF assms(1,3) fr(1), where height = height and cb = True]
  show "view_inv (apply_coinbase cr tx height v)"
    "view_coin base (apply_coinbase cr tx height v) = spec_coins (txid cr tx) tx height (view_coin base v)"
    using law assms(4) by (auto simp: apply_coinbase_def spec_coins_def is_coinbase_def fun_eq_iff)
  assume ok: "state_ok (view_reader base v)"
  then have "finite (dom (view_coin base v))" by (simp add: state_ok_def view_reader_def)
  from create_coins_total [OF assms(1,3) fr this, of "coin_val a" height True]
  show "state_ok (view_reader base (apply_coinbase cr tx height v))
      \<and> asset_total a (view_reader base (apply_coinbase cr tx height v)) =
        asset_total a (view_reader base v) + (\<Sum>out\<leftarrow>outs tx. out_val a out)"
    using ok by (simp add: apply_coinbase_def state_ok_def view_reader_def asset_total_def coin_val_def)
qed

end
