(* ===== verification/Utxo.thy ===== *)
theory Utxo
  imports Ledger_Spec
begin

text \<open>
  The state the chain carries from block to block: the part of \<open>Chainstate\<close>
  (\<open>src/src/chain/chainstate.h\<close>, \<open>chainstate.cpp\<close>) that holds the unspent coins, the index of coins by
  address, the tokens, the pools and the running supply, with the operations that change it, the
  snapshot encoding and its reader. The coin map provides the interface of \<open>Coin_Store\<close>.
\<close>

section \<open>State\<close>

record utxo_state =
  us_utxo :: "(outpoint \<times> coin) list"
  us_by_addr :: "(hash256 \<times> outpoint list) list"
  us_tokens :: "(hash256 \<times> token_info) list"
  us_pools :: "(hash256 \<times> pool) list"
  us_supply :: amount

text \<open>\<open>clear_state\<close>\<close>

definition clear_state :: utxo_state where
  "clear_state = \<lparr>us_utxo = [], us_by_addr = [], us_tokens = [], us_pools = [], us_supply = 0\<rparr>"

section \<open>Queries\<close>

definition us_coin :: "utxo_state \<Rightarrow> outpoint \<Rightarrow> coin option" where
  "us_coin s o' = map_of (us_utxo s) o'"

definition us_token :: "utxo_state \<Rightarrow> hash256 \<Rightarrow> token_info option" where
  "us_token s id' = map_of (us_tokens s) id'"

definition us_pool :: "utxo_state \<Rightarrow> hash256 \<Rightarrow> pool option" where
  "us_pool s t = map_of (us_pools s) t"

text \<open>\<open>Chainstate\<close> is a \<open>StateReader\<close>.\<close>

definition us_reader :: "utxo_state \<Rightarrow> reader_state" where
  "us_reader s = \<lparr>rd_coin = us_coin s, rd_token = us_token s, rd_pool = us_pool s\<rparr>"

definition all_tokens :: "utxo_state \<Rightarrow> token_info list" where
  "all_tokens s = sort_key ti_id (map snd (us_tokens s))"

definition all_pools :: "utxo_state \<Rightarrow> pool list" where
  "all_pools s = sort_key p_token (map snd (us_pools s))"

text \<open>\<open>utxo_.at(o)\<close> throws when the coin is missing.\<close>

primrec coins_at :: "utxo_state \<Rightarrow> outpoint list \<Rightarrow> (outpoint \<times> coin) list result" where
  "coins_at s [] = Inr []"
| "coins_at s (p # ps) =
     (case map_of (us_utxo s) p of
        None \<Rightarrow> Inl ''out of range''
      | Some c \<Rightarrow> rbind (coins_at s ps) (\<lambda>cs. Inr ((p, c) # cs)))"

definition coins_for_address :: "utxo_state \<Rightarrow> hash256 \<Rightarrow> (outpoint \<times> coin) list result" where
  "coins_for_address s addr =
     (case map_of (us_by_addr s) addr of None \<Rightarrow> Inr [] | Some ps \<Rightarrow> coins_at s ps)"

definition add_amount :: "hash256 \<Rightarrow> amount \<Rightarrow> (hash256 \<times> amount) list \<Rightarrow> (hash256 \<times> amount) list" where
  "add_amount a x m = AList.update a ((case map_of m a of None \<Rightarrow> 0 | Some y \<Rightarrow> y) + x) m"

definition balances_for_address :: "utxo_state \<Rightarrow> hash256 \<Rightarrow> (hash256 \<times> amount) list result" where
  "balances_for_address s addr =
     rbind (coins_for_address s addr) (\<lambda>cs.
     Inr (fold (\<lambda>(p, c) m. add_amount (o_asset (c_out c)) (o_value (c_out c)) m) cs []))"

section \<open>Changes\<close>

definition add_coin :: "outpoint \<Rightarrow> coin \<Rightarrow> utxo_state \<Rightarrow> utxo_state" where
  "add_coin o' c s =
     (let a = o_addr (c_out c);
          ps = (case map_of (us_by_addr s) a of None \<Rightarrow> [] | Some ps \<Rightarrow> ps)
      in s\<lparr>us_utxo := AList.update o' c (us_utxo s),
           us_by_addr := AList.update a (List.insert o' ps) (us_by_addr s),
           us_supply := (if is_qnt (c_out c) then us_supply s + o_value (c_out c) else us_supply s)\<rparr>)"

definition drop_addr :: "hash256 \<Rightarrow> outpoint \<Rightarrow> (hash256 \<times> outpoint list) list \<Rightarrow> (hash256 \<times> outpoint list) list" where
  "drop_addr a o' m =
     (case map_of m a of
        None \<Rightarrow> m
      | Some ps \<Rightarrow> (let ps = removeAll o' ps in if ps = [] then AList.delete a m else AList.update a ps m))"

definition us_spend_coin :: "outpoint \<Rightarrow> utxo_state \<Rightarrow> utxo_state" where
  "us_spend_coin o' s =
     (case map_of (us_utxo s) o' of
        None \<Rightarrow> s
      | Some c \<Rightarrow>
          s\<lparr>us_by_addr := drop_addr (o_addr (c_out c)) o' (us_by_addr s),
            us_supply := (if is_qnt (c_out c) then us_supply s - o_value (c_out c) else us_supply s),
            us_utxo := AList.delete o' (us_utxo s)\<rparr>)"

definition us_set_pool :: "hash256 \<Rightarrow> pool option \<Rightarrow> utxo_state \<Rightarrow> utxo_state" where
  "us_set_pool t p s =
     (let s = (case map_of (us_pools s) t of
                 None \<Rightarrow> s
               | Some q \<Rightarrow> s\<lparr>us_supply := us_supply s - p_qnt q, us_pools := AList.delete t (us_pools s)\<rparr>)
      in case p of
           None \<Rightarrow> s
         | Some q \<Rightarrow> s\<lparr>us_pools := AList.update t q (us_pools s), us_supply := us_supply s + p_qnt q\<rparr>)"

definition us_set_token :: "hash256 \<Rightarrow> token_info \<Rightarrow> utxo_state \<Rightarrow> utxo_state" where
  "us_set_token id' t s = s\<lparr>us_tokens := AList.update id' t (us_tokens s)\<rparr>"

definition us_erase_token :: "hash256 \<Rightarrow> utxo_state \<Rightarrow> utxo_state" where
  "us_erase_token id' s = s\<lparr>us_tokens := AList.delete id' (us_tokens s)\<rparr>"

section \<open>Snapshots\<close>

definition write_coin :: "coin \<Rightarrow> bytes" where
  "write_coin c = w_varint (o_value (c_out c))
     @ (if is_qnt (c_out c) then w_u8 0 else w_u8 1 @ w_hash (o_asset (c_out c)))
     @ w_hash (o_addr (c_out c)) @ w_varint (c_height c) @ w_u8 (if c_coinbase c then 1 else 0)"

definition read_coin :: "coin reader" where
  "read_coin r =
     rbind (r_varint r) (\<lambda>(v, r).
     rbind (r_u8 r) (\<lambda>(f, r).
     rbind (if f \<noteq> 0 then r_hash r else Inr (hash_zero, r)) (\<lambda>(a, r).
     rbind (r_hash r) (\<lambda>(ad, r).
     rbind (r_varint r) (\<lambda>(h, r).
     rbind (r_u8 r) (\<lambda>(cb, r).
     Inr (\<lparr>c_out = \<lparr>o_value = v, o_asset = a, o_addr = ad\<rparr>, c_height = h, c_coinbase = (cb \<noteq> 0)\<rparr>, r)))))))"

definition write_token :: "token_info \<Rightarrow> bytes" where
  "write_token t = w_hash (ti_id t) @ w_str (ti_ticker t) @ w_str (ti_name t) @ w_str (ti_uri t)
     @ w_u8 (ti_decimals t) @ w_varint (ti_supply t) @ w_hash (ti_create_txid t) @ w_varint (ti_height t)"

definition read_token :: "token_info reader" where
  "read_token r =
     rbind (r_hash r) (\<lambda>(i, r).
     rbind (r_str MAX_TICKER r) (\<lambda>(tk, r).
     rbind (r_str MAX_TOKEN_NAME r) (\<lambda>(nm, r).
     rbind (r_str MAX_TOKEN_URI r) (\<lambda>(ur, r).
     rbind (r_u8 r) (\<lambda>(d, r).
     rbind (r_varint r) (\<lambda>(su, r).
     rbind (r_hash r) (\<lambda>(ct, r).
     rbind (r_varint r) (\<lambda>(h, r).
     Inr (\<lparr>ti_id = i, ti_ticker = tk, ti_name = nm, ti_uri = ur, ti_decimals = d, ti_supply = su,
           ti_create_txid = ct, ti_height = h\<rparr>, r)))))))))"

definition write_pool :: "pool \<Rightarrow> bytes" where
  "write_pool p = w_hash (p_token p) @ w_varint (p_qnt p) @ w_varint (p_tok p) @ w_varint (p_shares p)"

definition read_pool :: "pool reader" where
  "read_pool r =
     rbind (r_hash r) (\<lambda>(t, r).
     rbind (r_varint r) (\<lambda>(q, r).
     rbind (r_varint r) (\<lambda>(k, r).
     rbind (r_varint r) (\<lambda>(sh, r).
     Inr (\<lparr>p_token = t, p_qnt = q, p_tok = k, p_shares = sh\<rparr>, r)))))"

definition STATE_MAGIC :: u32 where "STATE_MAGIC = 0x32545351"

text \<open>An outpoint with its coin; the index is read as a 64-bit varint and truncated.\<close>

definition write_entry :: "outpoint \<times> coin \<Rightarrow> bytes" where
  "write_entry e = w_hash (op_txid (fst e)) @ w_varint (ucast (op_n (fst e))) @ write_coin (snd e)"

definition read_entry :: "(outpoint \<times> coin) reader" where
  "read_entry r =
     rbind (r_hash r) (\<lambda>(h, r).
     rbind (r_varint r) (\<lambda>(n, r).
     rbind (read_coin r) (\<lambda>(c, r).
     Inr ((OutPoint h (ucast n), c), r))))"

definition serialize_state :: "hash256 \<Rightarrow> int \<Rightarrow> utxo_state \<Rightarrow> bytes" where
  "serialize_state tip height s =
     w_u32le STATE_MAGIC @ w_hash tip @ w_varint (word_of_int height)
     @ w_counted write_entry (sort_key fst (us_utxo s))
     @ w_counted write_token (all_tokens s)
     @ w_counted write_pool (all_pools s)"

definition state_hash :: "crypto \<Rightarrow> bytes \<Rightarrow> hash256" where
  "state_hash cr snap = blake3_tagged cr ctx_STATE snap"

text \<open>
  \<open>parse_state\<close> fills the cleared state as it reads; an error clears it again, so the values are
  read first here and entered afterwards. The result is the state left behind and, on success, the
  block and height the snapshot names.
\<close>

definition enter_pool :: "pool \<Rightarrow> utxo_state \<Rightarrow> utxo_state" where
  "enter_pool p s = s\<lparr>us_pools := AList.update (p_token p) p (us_pools s), us_supply := us_supply s + p_qnt p\<rparr>"

definition fill_state :: "(outpoint \<times> coin) list \<Rightarrow> token_info list \<Rightarrow> pool list \<Rightarrow> utxo_state" where
  "fill_state cs ts ps =
     (let s = fold (\<lambda>(p, c). add_coin p c) cs clear_state;
          s = fold (\<lambda>t. us_set_token (ti_id t) t) ts s
      in fold enter_pool ps s)"

definition read_state :: "bytes \<Rightarrow> (utxo_state \<times> hash256 \<times> int) result" where
  "read_state b =
     rbind (r_u32le b) (\<lambda>(m, r).
     rbind (fail_if (m \<noteq> STATE_MAGIC) ''magic'') (\<lambda>_.
     rbind (r_hash r) (\<lambda>(blk, r).
     rbind (r_varint r) (\<lambda>(h, r).
     rbind (r_counted_any read_entry r) (\<lambda>(cs, r).
     rbind (r_counted_any read_token r) (\<lambda>(ts, r).
     rbind (r_counted_any read_pool r) (\<lambda>(ps, r).
     rbind (fail_if (r \<noteq> []) ''trailing data'') (\<lambda>_.
     Inr (fill_state cs ts ps, blk, sint h)))))))))"

definition parse_state :: "bytes \<Rightarrow> utxo_state \<times> (hash256 \<times> int) option" where
  "parse_state b = (case read_state b of Inl e \<Rightarrow> (clear_state, None) | Inr (s, bh) \<Rightarrow> (s, Some bh))"

section \<open>Undo records\<close>

record undo =
  un_spent :: "(outpoint \<times> coin) list"
  un_pools_before :: "(hash256 \<times> pool option) list"
  un_tokens_created :: "hash256 list"

definition write_pool_before :: "hash256 \<times> pool option \<Rightarrow> bytes" where
  "write_pool_before e = w_hash (fst e)
     @ (case snd e of Some p \<Rightarrow> w_u8 1 @ write_pool p | None \<Rightarrow> w_u8 0)"

definition read_pool_before :: "(hash256 \<times> pool option) reader" where
  "read_pool_before r =
     rbind (r_hash r) (\<lambda>(t, r).
     rbind (r_u8 r) (\<lambda>(f, r).
     if f \<noteq> 0 then rbind (read_pool r) (\<lambda>(p, r). Inr ((t, Some p), r)) else Inr ((t, None), r)))"

definition undo_bytes :: "undo \<Rightarrow> bytes" where
  "undo_bytes u = w_counted write_entry (un_spent u)
     @ w_counted write_pool_before (un_pools_before u)
     @ w_counted w_hash (un_tokens_created u)"

text \<open>Bytes after the record are ignored.\<close>

definition parse_undo :: "bytes \<Rightarrow> undo result" where
  "parse_undo b =
     rbind (r_counted_any read_entry b) (\<lambda>(sp, r).
     rbind (r_counted_any read_pool_before r) (\<lambda>(pb, r).
     rbind (r_counted_any r_hash r) (\<lambda>(tc, r).
     Inr \<lparr>un_spent = sp, un_pools_before = pb, un_tokens_created = tc\<rparr>)))"

end
