(* ===== verification/Utxo_Laws.thy ===== *)
theory Utxo_Laws
  imports Utxo
begin

text \<open>
  The invariant of the chain's state (the address index lists exactly the coins of each address, the
  supply counter is the 64-bit sum of the QNT in coins and pools) and what keeps it; the coin map as
  a provider of \<open>Coin_Store\<close>; the round trips of snapshots and undo records.
\<close>

section \<open>The invariant\<close>

definition coin_qnt :: "coin \<Rightarrow> amount" where
  "coin_qnt c = (if is_qnt (c_out c) then o_value (c_out c) else 0)"

definition addr_index_ok :: "utxo_state \<Rightarrow> bool" where
  "addr_index_ok s \<longleftrightarrow> al_distinct (us_by_addr s)
     \<and> (\<forall>a ps. map_of (us_by_addr s) a = Some ps \<longrightarrow> ps \<noteq> [] \<and> distinct ps)
     \<and> (\<forall>a p. (\<exists>ps. map_of (us_by_addr s) a = Some ps \<and> p \<in> set ps) \<longleftrightarrow>
              (\<exists>c. map_of (us_utxo s) p = Some c \<and> o_addr (c_out c) = a))"

definition supply_ok :: "utxo_state \<Rightarrow> bool" where
  "supply_ok s \<longleftrightarrow> us_supply s = al_sum (\<lambda>p. coin_qnt) (us_utxo s) + al_sum (\<lambda>t. p_qnt) (us_pools s)"

definition keyed_ok :: "utxo_state \<Rightarrow> bool" where
  "keyed_ok s \<longleftrightarrow> al_distinct (us_utxo s) \<and> al_distinct (us_tokens s) \<and> al_distinct (us_pools s)
     \<and> (\<forall>i t. map_of (us_tokens s) i = Some t \<longrightarrow> ti_id t = i)
     \<and> (\<forall>t p. map_of (us_pools s) t = Some p \<longrightarrow> p_token p = t)"

definition us_inv :: "utxo_state \<Rightarrow> bool" where
  "us_inv s \<longleftrightarrow> keyed_ok s \<and> addr_index_ok s \<and> supply_ok s"

lemma us_inv_clear [simp]: "us_inv clear_state"
  by (simp add: us_inv_def keyed_ok_def addr_index_ok_def supply_ok_def clear_state_def)

lemma add_coin_index:
  assumes "addr_index_ok s" "map_of (us_utxo s) p = None"
  shows "addr_index_ok (add_coin p c s)"
proof -
  let ?m = "us_by_addr s" and ?a = "o_addr (c_out c)"
  have idx: "\<And>a ps. map_of ?m a = Some ps \<Longrightarrow> ps \<noteq> [] \<and> distinct ps"
    "\<And>a q. (\<exists>ps. map_of ?m a = Some ps \<and> q \<in> set ps) \<longleftrightarrow>
      (\<exists>c. map_of (us_utxo s) q = Some c \<and> o_addr (c_out c) = a)"
    using assms(1) by (auto simp: addr_index_ok_def)
  show ?thesis
    unfolding addr_index_ok_def
  proof (intro conjI allI impI)
    show "al_distinct (us_by_addr (add_coin p c s))"
      using assms(1) by (simp add: add_coin_def Let_def addr_index_ok_def)
    show "ps \<noteq> []" "distinct ps" if "map_of (us_by_addr (add_coin p c s)) a = Some ps" for a ps
      using that idx(1) by (auto simp: add_coin_def Let_def update_conv' List.insert_def split: if_splits option.splits)
    show "(\<exists>ps. map_of (us_by_addr (add_coin p c s)) a = Some ps \<and> q \<in> set ps) \<longleftrightarrow>
        (\<exists>d. map_of (us_utxo (add_coin p c s)) q = Some d \<and> o_addr (c_out d) = a)" for a q
      using idx(2) [of a q] assms(2)
      by (auto simp: add_coin_def Let_def update_conv' split: if_splits option.splits)
  qed
qed

lemma removeAll_Nil_iff: "removeAll x xs = [] \<longleftrightarrow> set xs \<subseteq> {x}"
  by (induction xs) auto

lemma map_of_drop_addr:
  "map_of (drop_addr a p m) b =
     (if b = a then (case map_of m a of None \<Rightarrow> None
                     | Some ps \<Rightarrow> if removeAll p ps = [] then None else Some (removeAll p ps))
      else map_of m b)"
  by (auto simp: drop_addr_def Let_def update_conv' delete_conv' split: option.splits)

lemma al_distinct_drop_addr [simp]: "al_distinct m \<Longrightarrow> al_distinct (drop_addr a p m)"
  by (simp add: drop_addr_def Let_def split: option.splits)

lemma spend_coin_index:
  assumes "addr_index_ok s" "map_of (us_utxo s) p = Some c"
  shows "addr_index_ok (us_spend_coin p s)"
proof -
  let ?m = "us_by_addr s"
  have idx: "al_distinct ?m" "\<And>a ps. map_of ?m a = Some ps \<Longrightarrow> ps \<noteq> [] \<and> distinct ps"
    "\<And>a q. (\<exists>ps. map_of ?m a = Some ps \<and> q \<in> set ps) \<longleftrightarrow>
      (\<exists>c. map_of (us_utxo s) q = Some c \<and> o_addr (c_out c) = a)"
    using assms(1) by (auto simp: addr_index_ok_def)
  have e: "us_by_addr (us_spend_coin p s) = drop_addr (o_addr (c_out c)) p ?m"
    "us_utxo (us_spend_coin p s) = AList.delete p (us_utxo s)"
    using assms(2) by (simp_all add: us_spend_coin_def)
  show ?thesis
    unfolding addr_index_ok_def e
  proof (intro conjI allI impI)
    show "al_distinct (drop_addr (o_addr (c_out c)) p ?m)" using idx(1) by simp
    show "ps \<noteq> []" "distinct ps" if "map_of (drop_addr (o_addr (c_out c)) p ?m) a = Some ps" for a ps
      using that idx(2) [of a] by (auto simp: map_of_drop_addr distinct_removeAll split: if_splits option.splits)
    show "(\<exists>ps. map_of (drop_addr (o_addr (c_out c)) p ?m) a = Some ps \<and> q \<in> set ps) \<longleftrightarrow>
        (\<exists>d. map_of (AList.delete p (us_utxo s)) q = Some d \<and> o_addr (c_out d) = a)" for a q
    proof (cases "a = o_addr (c_out c)")
      case True
      have "(\<exists>ps. map_of (drop_addr a p ?m) a = Some ps \<and> q \<in> set ps) \<longleftrightarrow>
          q \<noteq> p \<and> (\<exists>ps. map_of ?m a = Some ps \<and> q \<in> set ps)"
        by (auto simp: map_of_drop_addr removeAll_Nil_iff split: option.splits)
      then show ?thesis using True idx(3) [of a q] by (auto simp: delete_conv')
    next
      case False
      then show ?thesis using idx(3) [of a q] assms(2) by (auto simp: map_of_drop_addr delete_conv')
    qed
  qed
qed

lemma add_coin_inv:
  assumes "us_inv s" "map_of (us_utxo s) p = None"
  shows "us_inv (add_coin p c s)"
  using assms add_coin_index [of s p c]
  by (auto simp: us_inv_def keyed_ok_def supply_ok_def add_coin_def Let_def al_sum_update_fresh coin_qnt_def)

lemma spend_coin_inv:
  assumes "us_inv s" "map_of (us_utxo s) p = Some c"
  shows "us_inv (us_spend_coin p s)"
  using assms spend_coin_index [of s p c] al_sum_delete [of "us_utxo s" p c "\<lambda>p. coin_qnt"]
  by (auto simp: us_inv_def keyed_ok_def supply_ok_def us_spend_coin_def coin_qnt_def)

lemma spend_coin_absent [simp]: "map_of (us_utxo s) p = None \<Longrightarrow> us_spend_coin p s = s"
  by (simp add: us_spend_coin_def)

lemma us_coin_simps [simp]:
  "us_coin (add_coin p c s) = (us_coin s)(p \<mapsto> c)"
  "us_coin (us_spend_coin p s) = (us_coin s)(p := None)"
  "us_coin (us_set_pool t pl s) = us_coin s"
  "us_coin (us_set_token i tk s) = us_coin s" "us_coin (us_erase_token i s) = us_coin s"
  "us_coin clear_state = Map.empty"
  by (auto simp: us_coin_def add_coin_def us_spend_coin_def us_set_pool_def us_set_token_def us_erase_token_def
      clear_state_def Let_def update_conv' delete_conv' fun_eq_iff split: option.splits)

lemma us_token_simps [simp]:
  "us_token (add_coin p c s) = us_token s" "us_token (us_spend_coin p s) = us_token s"
  "us_token (us_set_pool t pl s) = us_token s"
  "us_token (us_set_token i tk s) = (us_token s)(i \<mapsto> tk)" "us_token (us_erase_token i s) = (us_token s)(i := None)"
  "us_token clear_state = Map.empty"
  by (auto simp: us_token_def add_coin_def us_spend_coin_def us_set_pool_def us_set_token_def us_erase_token_def
      clear_state_def Let_def update_conv' delete_conv' fun_eq_iff split: option.splits)

lemma us_pool_simps [simp]:
  "us_pool (add_coin p c s) = us_pool s" "us_pool (us_spend_coin p s) = us_pool s"
  "us_pool (us_set_pool t pl s) = (us_pool s)(t := pl)"
  "us_pool (us_set_token i tk s) = us_pool s" "us_pool (us_erase_token i s) = us_pool s"
  "us_pool clear_state = Map.empty"
  by (auto simp: us_pool_def add_coin_def us_spend_coin_def us_set_pool_def us_set_token_def us_erase_token_def
      clear_state_def Let_def update_conv' delete_conv' fun_eq_iff split: option.splits)

lemma set_pool_inv:
  assumes "us_inv s" "\<And>q. p = Some q \<Longrightarrow> p_token q = t"
  shows "us_inv (us_set_pool t p s)"
proof -
  define s1 where "s1 = (case map_of (us_pools s) t of None \<Rightarrow> s
    | Some q \<Rightarrow> s\<lparr>us_supply := us_supply s - p_qnt q, us_pools := AList.delete t (us_pools s)\<rparr>)"
  have s1: "us_inv s1" "map_of (us_pools s1) t = None"
    using assms(1) al_sum_delete [of "us_pools s" t _ "\<lambda>t. p_qnt"]
    by (auto simp: s1_def us_inv_def keyed_ok_def addr_index_ok_def supply_ok_def delete_conv' split: option.splits)
  have "us_set_pool t p s = (case p of None \<Rightarrow> s1
      | Some q \<Rightarrow> s1\<lparr>us_pools := AList.update t q (us_pools s1), us_supply := us_supply s1 + p_qnt q\<rparr>)"
    unfolding us_set_pool_def s1_def Let_def by (rule refl)
  with s1 assms(2) show ?thesis
    by (auto simp: us_inv_def keyed_ok_def addr_index_ok_def supply_ok_def update_conv' al_sum_update_fresh
        split: option.splits)
qed

lemma set_token_inv:
  "us_inv s \<Longrightarrow> ti_id t = i \<Longrightarrow> us_inv (us_set_token i t s)"
  by (auto simp: us_inv_def keyed_ok_def addr_index_ok_def supply_ok_def us_set_token_def update_conv')

lemma erase_token_inv: "us_inv s \<Longrightarrow> us_inv (us_erase_token i s)"
  by (auto simp: us_inv_def keyed_ok_def addr_index_ok_def supply_ok_def us_erase_token_def delete_conv')

section \<open>The coin map provides the coin store\<close>

definition us_fresh :: "utxo_state \<Rightarrow> outpoint \<Rightarrow> bool" where
  "us_fresh s p \<longleftrightarrow> us_coin s p = None"

interpretation us: coin_store us_inv us_coin us_fresh "\<lambda>p s. Inr (us_spend_coin p s)" add_coin
proof
  fix s p c
  assume "us_inv s" "us_coin s p = Some c"
  then show "\<exists>s'. Inr (us_spend_coin p s) = (Inr s' :: utxo_state result) \<and> us_inv s' \<and> us_coin s' = (us_coin s)(p := None)
      \<and> (\<forall>q. q \<noteq> p \<longrightarrow> us_fresh s q \<longrightarrow> us_fresh s' q)"
    using spend_coin_inv [of s p c] by (simp add: us_fresh_def us_coin_def [of s])
next
  fix s p c
  assume "us_inv s" "us_fresh s p"
  then show "us_inv (add_coin p c s) \<and> us_coin (add_coin p c s) = (us_coin s)(p \<mapsto> c)
      \<and> (\<forall>q. q \<noteq> p \<longrightarrow> us_fresh s q \<longrightarrow> us_fresh (add_coin p c s) q)"
    using add_coin_inv [of s p c] by (simp add: us_fresh_def us_coin_def [of s])
qed

section \<open>Round trips\<close>

interpretation coinr: reads_back write_coin read_coin "\<lambda>_. True"
  by unfold_locales (simp add: read_coin_def write_coin_def codec_simps is_qnt_def)

definition token_ok :: "token_info \<Rightarrow> bool" where
  "token_ok t \<longleftrightarrow> length (ti_ticker t) \<le> unat MAX_TICKER \<and> length (ti_name t) \<le> unat MAX_TOKEN_NAME
     \<and> length (ti_uri t) \<le> unat MAX_TOKEN_URI"

interpretation tokenc: codec write_token read_token token_ok
proof
  show "read_token (write_token x @ r) = Inr (x, r)" if "token_ok x" for x r
    using that by (simp add: read_token_def write_token_def token_ok_def codec_simps)
  show "token_ok x \<and> r = write_token x @ r'" if "read_token r = Inr (x, r')" for r x r'
    using that by (auto simp: read_token_def write_token_def token_ok_def codec_iff)
qed

interpretation poolc: codec write_pool read_pool "\<lambda>_. True"
proof
  show "read_pool (write_pool x @ r) = Inr (x, r)" for x r
    by (simp add: read_pool_def write_pool_def codec_simps)
  show "True \<and> r = write_pool x @ r'" if "read_pool r = Inr (x, r')" for r x r'
    using that by (auto simp: read_pool_def write_pool_def codec_iff)
qed

interpretation entryr: reads_back write_entry read_entry "\<lambda>_. True"
  by unfold_locales (simp add: read_entry_def write_entry_def codec_simps coinr.rd_wr)

interpretation pool_beforer: reads_back write_pool_before read_pool_before "\<lambda>_. True"
  by unfold_locales
    (auto simp: read_pool_before_def write_pool_before_def codec_simps poolc.rd_wr split: option.splits)

lemma parse_undo_bytes:
  assumes "length (un_spent u) < 2 ^ 64" "length (un_pools_before u) < 2 ^ 64" "length (un_tokens_created u) < 2 ^ 64"
  shows "parse_undo (undo_bytes u @ r) = Inr u"
  using assms
  by (simp add: parse_undo_def undo_bytes_def entryr.r_counted_any_wr pool_beforer.r_counted_any_wr
      hashc.r_counted_any_wr)

subsection \<open>The encoding of a state is a function of its maps\<close>

lemma al_set_eq:
  assumes "al_distinct a" "al_distinct b" "map_of a = map_of b"
  shows "set a = set b"
  using assms map_of_inject_set [of a b] by (simp add: al_distinct_def)

lemma al_sum_set: "al_distinct a \<Longrightarrow> al_sum f a = (\<Sum>(k, v)\<in>set a. f k v)"
  by (simp add: al_sum_def al_distinct_def distinct_map sum.distinct_set_conv_list)

lemma al_sum_cong: "al_distinct a \<Longrightarrow> al_distinct b \<Longrightarrow> map_of a = map_of b \<Longrightarrow> al_sum f a = al_sum f b"
  using al_set_eq [of a b] by (simp add: al_sum_set)

lemma al_sum_map_total: "al_distinct a \<Longrightarrow> al_sum (\<lambda>k. f) a = map_total f (map_of a)"
proof (induction a)
  case (Cons e a)
  obtain k v where e: "e = (k, v)" by force
  have "map_of a k = None" using Cons.prems by (auto simp: e al_distinct_def map_of_eq_None_iff)
  with Cons show ?case
    using map_total_insert [of "map_of a" k f v] by (simp add: e al_distinct_def finite_dom_map_of fun_upd_def)
qed (simp add: map_total_def)

lemma al_sum_of_nat: "al_sum (\<lambda>k v. of_nat (f v)) a = of_nat (al_sum (\<lambda>k. f) a)"
  by (induction a) auto

lemma distinct_sort_key [simp]: "distinct (map k (sort_key k xs)) \<longleftrightarrow> distinct (map k xs)"
  by (simp add: distinct_map)

lemma sort_key_unique:
  assumes "distinct (map k xs)" "distinct (map k ys)" "set xs = set ys"
  shows "sort_key k xs = sort_key k ys"
proof (rule map_inj_on)
  show "map k (sort_key k xs) = map k (sort_key k ys)"
    by (rule sorted_distinct_set_unique) (use assms in \<open>simp_all add: distinct_map\<close>)
  show "inj_on k (set (sort_key k xs) \<union> set (sort_key k ys))"
    using assms by (simp add: distinct_map)
qed

lemma keyed_values:
  assumes "al_distinct m" "\<And>i t. map_of m i = Some t \<Longrightarrow> k t = i"
  shows "map (\<lambda>t. (k t, t)) (map snd m) = m" "map k (map snd m) = map fst m"
proof -
  have "k t = i" if "(i, t) \<in> set m" for i t
    using assms that by (simp add: al_distinct_def)
  then show "map (\<lambda>t. (k t, t)) (map snd m) = m" "map k (map snd m) = map fst m"
    by (auto intro!: map_idI)
qed

lemma keyed_sorted:
  assumes "al_distinct m" "al_distinct m'" "map_of m = map_of m'" "\<And>i t. map_of m i = Some t \<Longrightarrow> k t = i"
  shows "sort_key k (map snd m) = sort_key k (map snd m')"
proof (rule sort_key_unique)
  have "\<And>i t. map_of m' i = Some t \<Longrightarrow> k t = i" using assms(3,4) by simp
  then show "distinct (map k (map snd m))" "distinct (map k (map snd m'))"
    using keyed_values(2) [of m k] keyed_values(2) [of m' k] assms unfolding al_distinct_def by metis+
  show "set (map snd m) = set (map snd m')" using al_set_eq [OF assms(1-3)] by simp
qed

lemma serialize_state_cong:
  assumes "us_inv s" "us_inv s'" "us_reader s = us_reader s'"
  shows "serialize_state tip h s = serialize_state tip h s'"
proof -
  have m: "map_of (us_utxo s) = map_of (us_utxo s')" "map_of (us_tokens s) = map_of (us_tokens s')"
    "map_of (us_pools s) = map_of (us_pools s')"
    using assms(3) by (simp_all add: us_reader_def us_coin_def us_token_def us_pool_def fun_eq_iff)
  have "sort_key fst (us_utxo s) = sort_key fst (us_utxo s')"
    by (rule sort_key_unique)
      (use assms al_set_eq [OF _ _ m(1)] in \<open>auto simp: us_inv_def keyed_ok_def al_distinct_def\<close>)
  moreover have "all_tokens s = all_tokens s'" "all_pools s = all_pools s'"
    unfolding all_tokens_def all_pools_def
    using assms m by (auto intro!: keyed_sorted simp: us_inv_def keyed_ok_def)
  ultimately show ?thesis by (simp add: serialize_state_def)
qed

subsection \<open>A snapshot reads back\<close>

lemma add_coins_fold: "fold (\<lambda>(p, c). add_coin p c) cs s = us.create_all cs s"
  by (induction cs arbitrary: s) (auto simp: case_prod_beta)

lemma create_all_fields [simp]:
  "us_token (us.create_all cs s) = us_token s" "us_pool (us.create_all cs s) = us_pool s"
  by (induction cs arbitrary: s) simp_all

lemma set_tokens_fold:
  "us_inv s \<Longrightarrow> us_inv (fold (\<lambda>t. us_set_token (ti_id t) t) ts s)
     \<and> us_coin (fold (\<lambda>t. us_set_token (ti_id t) t) ts s) = us_coin s
     \<and> us_pool (fold (\<lambda>t. us_set_token (ti_id t) t) ts s) = us_pool s
     \<and> (distinct (map ti_id ts) \<longrightarrow> us_token (fold (\<lambda>t. us_set_token (ti_id t) t) ts s) =
          us_token s ++ map_of (map (\<lambda>t. (ti_id t, t)) ts))"
proof (induction ts arbitrary: s)
  case (Cons t ts)
  have "map_of (map (\<lambda>t. (ti_id t, t)) ts) (ti_id t) = None" if "ti_id t \<notin> ti_id ` set ts"
    using that by (auto simp: map_of_eq_None_iff)
  with Cons.IH [OF set_token_inv [OF Cons.prems refl], of t] show ?case
    by (auto simp: fun_eq_iff map_add_def image_iff split: option.splits)
qed simp

lemma enter_pool_set: "us_pool s (p_token p) = None \<Longrightarrow> enter_pool p s = us_set_pool (p_token p) (Some p) s"
  by (simp add: enter_pool_def us_set_pool_def us_pool_def)

lemma enter_pools_fold:
  "us_inv s \<Longrightarrow> distinct (map p_token ps) \<Longrightarrow> \<forall>p\<in>set ps. us_pool s (p_token p) = None \<Longrightarrow>
     us_inv (fold enter_pool ps s) \<and> us_coin (fold enter_pool ps s) = us_coin s
     \<and> us_token (fold enter_pool ps s) = us_token s
     \<and> us_pool (fold enter_pool ps s) = us_pool s ++ map_of (map (\<lambda>p. (p_token p, p)) ps)"
proof (induction ps arbitrary: s)
  case (Cons p ps)
  have e: "enter_pool p s = us_set_pool (p_token p) (Some p) s"
    using Cons.prems(3) by (simp add: enter_pool_set)
  have "us_inv (enter_pool p s)" unfolding e using Cons.prems(1) by (rule set_pool_inv) simp
  moreover have "us_pool (enter_pool p s) = (us_pool s)(p_token p \<mapsto> p)" by (simp add: e)
  moreover have "map_of (map (\<lambda>p. (p_token p, p)) ps) (p_token p) = None"
    using Cons.prems(2) by (auto simp: map_of_eq_None_iff)
  moreover have "us_coin (enter_pool p s) = us_coin s" "us_token (enter_pool p s) = us_token s"
    by (simp_all add: e)
  moreover have "p_token q \<noteq> p_token p" if "q \<in> set ps" for q
    using Cons.prems(2) imageI [OF that, of p_token] by (metis distinct.simps(2) list.set_map list.simps(9))
  moreover from this have "\<forall>q\<in>set ps. us_pool (enter_pool p s) (p_token q) = None"
    using Cons.prems(2,3) calculation(2) by (auto simp: image_iff)
  ultimately show ?case
    using Cons.IH [of "enter_pool p s"] Cons.prems(2) by (auto simp: fun_eq_iff map_add_def split: option.splits)
qed simp

lemma fill_state_law:
  assumes "al_distinct cs" "distinct (map ti_id ts)" "distinct (map p_token ps)"
  shows "us_inv (fill_state cs ts ps)"
    and "us_reader (fill_state cs ts ps) = \<lparr>rd_coin = map_of cs,
      rd_token = map_of (map (\<lambda>t. (ti_id t, t)) ts), rd_pool = map_of (map (\<lambda>p. (p_token p, p)) ps)\<rparr>"
proof -
  define s1 where "s1 = us.create_all cs clear_state"
  define s2 where "s2 = fold (\<lambda>t. us_set_token (ti_id t) t) ts s1"
  have f: "fill_state cs ts ps = fold enter_pool ps s2"
    by (simp add: fill_state_def s1_def s2_def add_coins_fold Let_def)
  have s1: "us_inv s1" "us_coin s1 = map_of cs"
    using us.create_all_law [of clear_state cs] assms(1)
    by (auto simp: s1_def us_fresh_def fun_eq_iff split: option.splits)
  have s2: "us_inv s2" "us_coin s2 = map_of cs" "us_pool s2 = Map.empty"
    "us_token s2 = map_of (map (\<lambda>t. (ti_id t, t)) ts)"
    using set_tokens_fold [OF s1(1), of ts] assms(2) s1 by (simp_all add: s2_def s1_def)
  then show "us_inv (fill_state cs ts ps)" "us_reader (fill_state cs ts ps) = \<lparr>rd_coin = map_of cs,
      rd_token = map_of (map (\<lambda>t. (ti_id t, t)) ts), rd_pool = map_of (map (\<lambda>p. (p_token p, p)) ps)\<rparr>"
    using enter_pools_fold [OF s2(1) assms(3)] unfolding f by (simp_all add: us_reader_def)
qed

definition sizes_ok :: "utxo_state \<Rightarrow> bool" where
  "sizes_ok s \<longleftrightarrow> length (us_utxo s) < 2 ^ 64 \<and> length (us_tokens s) < 2 ^ 64 \<and> length (us_pools s) < 2 ^ 64
     \<and> list_all token_ok (map snd (us_tokens s))"

lemma map_of_sorted_values:
  assumes "al_distinct m" "\<And>i t. map_of m i = Some t \<Longrightarrow> k t = i"
  shows "map_of (map (\<lambda>t. (k t, t)) (sort_key k (map snd m))) = map_of m"
    "distinct (map k (sort_key k (map snd m)))"
proof -
  have d: "distinct (map k (map snd m))" using keyed_values(2) [where k = k, OF assms] assms(1) unfolding al_distinct_def by metis
  then show d': "distinct (map k (sort_key k (map snd m)))" by (simp only: distinct_sort_key)
  have st: "set (map (\<lambda>t. (k t, t)) (sort_key k (map snd m))) = set m"
    using keyed_values(1) [where k = k, OF assms] by (metis set_map set_sort)
  have "distinct (map fst (map (\<lambda>t. (k t, t)) (sort_key k (map snd m))))" using d' by (simp add: comp_def)
  with st assms(1) show "map_of (map (\<lambda>t. (k t, t)) (sort_key k (map snd m))) = map_of m"
    unfolding al_distinct_def by (subst map_of_inject_set)
qed

lemma parse_serialize_state:
  assumes "us_inv s" "sizes_ok s" "0 \<le> height" "height < 2 ^ 63"
  shows "\<exists>s'. parse_state (serialize_state tip height s) = (s', Some (tip, height))
    \<and> us_inv s' \<and> us_reader s' = us_reader s \<and> us_supply s' = us_supply s"
proof -
  have inv: "al_distinct (us_utxo s)" "al_distinct (us_tokens s)" "al_distinct (us_pools s)"
    "\<And>i t. map_of (us_tokens s) i = Some t \<Longrightarrow> ti_id t = i" "\<And>t p. map_of (us_pools s) t = Some p \<Longrightarrow> p_token p = t"
    using assms(1) by (auto simp: us_inv_def keyed_ok_def)
  define cs ts ps where "cs = sort_key fst (us_utxo s)" and "ts = all_tokens s" and "ps = all_pools s"
  define s' where "s' = fill_state cs ts ps"
  have "sint (word_of_int height :: u64) = height"
    using assms(3,4) by (simp add: signed_of_int signed_take_bit_int_eq_self)
  moreover have "list_all token_ok ts" "length ts < 2 ^ 64" "length cs < 2 ^ 64" "length ps < 2 ^ 64"
    using assms(2) by (auto simp: sizes_ok_def cs_def ts_def ps_def all_tokens_def all_pools_def list_all_iff)
  ultimately have "read_state (serialize_state tip height s) = Inr (s', tip, height)"
    by (simp add: read_state_def serialize_state_def codec_simps entryr.r_counted_any_wr tokenc.r_counted_any_wr
        poolc.r_counted_any_wr [where r = "[]", simplified] s'_def cs_def ts_def ps_def)
  then have p: "parse_state (serialize_state tip height s) = (s', Some (tip, height))" by (simp add: parse_state_def)
  have cs: "al_distinct cs" "map_of cs = map_of (us_utxo s)"
    using inv(1) by (auto simp: al_distinct_def cs_def distinct_map intro!: map_of_inject_set [THEN iffD2])
  have tp: "distinct (map ti_id ts)" "distinct (map p_token ps)"
    "map_of (map (\<lambda>t. (ti_id t, t)) ts) = map_of (us_tokens s)"
    "map_of (map (\<lambda>p. (p_token p, p)) ps) = map_of (us_pools s)"
    using map_of_sorted_values [OF inv(2,4)] map_of_sorted_values [OF inv(3,5)]
    by (simp_all add: ts_def ps_def all_tokens_def all_pools_def)
  have i: "us_inv s'" and r: "us_reader s' = us_reader s"
    using fill_state_law [OF cs(1) tp(1,2)] cs(2) tp(3,4)
    by (simp_all add: s'_def us_reader_def us_coin_def us_token_def us_pool_def fun_eq_iff)
  have "us_supply s' = us_supply s"
    using assms(1) i r al_sum_cong [of "us_utxo s'" "us_utxo s" "\<lambda>p. coin_qnt"]
      al_sum_cong [of "us_pools s'" "us_pools s" "\<lambda>t. p_qnt"]
    by (simp add: us_inv_def supply_ok_def keyed_ok_def us_reader_def us_coin_def us_pool_def fun_eq_iff)
  with p i r show ?thesis by blast
qed

end
