(* ===== verification/Pow.thy ===== *)
theory Pow
  imports Params
begin

text \<open>
  Proof of work and difficulty, \<open>src/src/consensus/pow.cpp\<close>. \<open>prev i\<close> is the header \<open>i\<close> blocks
  back from the tip; a timestamp is read as the signed 64-bit number the source converts it to, and
  the sums of at most 60 clamped solve times stay far below the word size, so they are integers.
\<close>

section \<open>The code\<close>

definition check_pow :: "hash256 \<Rightarrow> u32 \<Rightarrow> chain_params \<Rightarrow> bool" where
  "check_pow h bits p =
     (case from_compact bits of (target, neg, ovf) \<Rightarrow>
       if neg \<or> ovf \<or> u256_is_zero target \<or> u256_gt target (pow_limit p) then False
       else u256_le (from_hash h) target)"

record header_info =
  hi_time :: u64
  hi_bits :: u32

definition clamp :: "int \<Rightarrow> int \<Rightarrow> int \<Rightarrow> int" where
  "clamp v lo hi = (if v < lo then lo else if hi < v then hi else v)"

definition solve_time :: "(int \<Rightarrow> header_info) \<Rightarrow> int \<Rightarrow> int \<Rightarrow> int" where
  "solve_time prv N j =
     clamp (sint (hi_time (prv (N - j))) - sint (hi_time (prv (N - j + 1)))) (-6 * TARGET_SPACING) (6 * TARGET_SPACING)"

text \<open>The loop \<open>for (j = 1; j <= N; j++)\<close>, from \<open>j\<close> on.\<close>

function lwma_loop :: "(int \<Rightarrow> header_info) \<Rightarrow> int \<Rightarrow> int \<Rightarrow> int \<times> u256 \<Rightarrow> int \<times> u256" where
  "lwma_loop prv N j st =
     (if j \<le> N then
        (case st of (weighted, sum_target) \<Rightarrow>
          lwma_loop prv N (j + 1)
            (weighted + solve_time prv N j * j,
             u256_add sum_target (fst (from_compact (hi_bits (prv (N - j)))))))
      else st)"
  by pat_completeness auto
termination
  by (relation "measure (\<lambda>(prv, N, j, st). nat (N + 1 - j))") auto

declare lwma_loop.simps [simp del]

definition next_target :: "int \<Rightarrow> (int \<Rightarrow> header_info) \<Rightarrow> chain_params \<Rightarrow> u256" where
  "next_target N prv p =
     (let k = N * (N + 1) * TARGET_SPACING div 2;
          (weighted, sum_target) = lwma_loop prv N 1 (0, u256_zero);
          weighted = (if weighted < k div 10 then k div 10 else weighted);
          nxt = u256_div64 sum_target (word_of_int N * word_of_int k);
          nxt = u256_mul64 nxt (word_of_int weighted)
      in if u256_gt nxt (pow_limit p) \<or> u256_is_zero nxt then pow_limit p else nxt)"

definition next_bits :: "int \<Rightarrow> (int \<Rightarrow> header_info) \<Rightarrow> chain_params \<Rightarrow> u32" where
  "next_bits tip_height prv p =
     (if no_retarget p then genesis_bits p
      else
        (let N = min LWMA_WINDOW tip_height in
         if N < 3 then hi_bits (prv 0) else to_compact (next_target N prv p)))"

section \<open>What the weights amount to\<close>

definition bits_target :: "u32 \<Rightarrow> nat" where
  "bits_target b = u256_val (fst (from_compact b))"

primrec sum_targets :: "(int \<Rightarrow> header_info) \<Rightarrow> nat \<Rightarrow> nat" where
  "sum_targets prv 0 = 0"
| "sum_targets prv (Suc n) = sum_targets prv n + bits_target (hi_bits (prv (int n)))"

lemma solve_time_bounds: "-6 * TARGET_SPACING \<le> solve_time prv N j" "solve_time prv N j \<le> 6 * TARGET_SPACING"
  by (auto simp: solve_time_def clamp_def TARGET_SPACING_def)

text \<open>The state of the loop: what is added to the weighted sum is within six spacings a unit of
  weight, and the targets are added up.\<close>

lemma lwma_loop_ok:
  assumes "1 \<le> j" "j \<le> N + 1" "lwma_loop prv N j (w, s) = (w', s')"
    and "u256_val s + sum_targets prv (nat (N + 1 - j)) < 2 ^ 256"
  shows "w' \<le> w + 6 * TARGET_SPACING * (\<Sum>i\<in>{j..N}. i)
    \<and> u256_val s' = u256_val s + sum_targets prv (nat (N + 1 - j))"
  using assms
proof (induction "nat (N + 1 - j)" arbitrary: j w s)
  case 0
  then have "j = N + 1" by simp
  with "0.prems" show ?case by (simp add: lwma_loop.simps [of prv N])
next
  case (Suc n)
  then have jN: "j \<le> N" and n: "n = nat (N + 1 - (j + 1))" and Nj: "N - j = int n" by auto
  define t where "t = fst (from_compact (hi_bits (prv (N - j))))"
  have st: "sum_targets prv (nat (N + 1 - j)) = sum_targets prv n + u256_val t"
    using Suc.hyps(2) [symmetric] by (simp add: t_def bits_target_def Nj)
  have s1: "u256_val (u256_add s t) = u256_val s + u256_val t"
    using Suc.prems(4) st by (simp add: u256_val_add)
  have loop: "lwma_loop prv N (j + 1) (w + solve_time prv N j * j, u256_add s t) = (w', s')"
    using Suc.prems(3) jN by (subst (asm) lwma_loop.simps) (simp add: t_def)
  have IH: "w' \<le> w + solve_time prv N j * j + 6 * TARGET_SPACING * (\<Sum>i\<in>{j + 1..N}. i)
      \<and> u256_val s' = u256_val (u256_add s t) + sum_targets prv (nat (N + 1 - (j + 1)))"
    using Suc.hyps(1) [OF n _ _ loop] Suc.prems(1,4) jN s1 st n by simp
  have "solve_time prv N j * j \<le> 6 * TARGET_SPACING * j"
    using solve_time_bounds(2) Suc.prems(1) by (intro mult_right_mono) auto
  moreover have "{j..N} = insert j {j + 1..N}" using jN by auto
  ultimately show ?case using IH s1 st n by (simp add: algebra_simps)
qed

lemma sum_upto_int: "0 \<le> N \<Longrightarrow> 2 * (\<Sum>i\<in>{1..N}. i) = N * (N + 1 :: int)"
proof (induction "nat N" arbitrary: N)
  case (Suc n)
  then have IH: "2 * (\<Sum>i\<in>{1..N - 1}. i) = (N - 1) * N" using Suc.hyps(1) [of "N - 1"] by simp
  have "{1..N} = insert N {1..N - 1}" using Suc by auto
  then have "2 * (\<Sum>i\<in>{1..N}. i) = 2 * N + 2 * (\<Sum>i\<in>{1..N - 1}. i)" by simp
  with IH show ?case by (simp add: algebra_simps)
qed auto

definition lwma_k :: "int \<Rightarrow> int" where
  "lwma_k N = N * (N + 1) * TARGET_SPACING div 2"

lemma lwma_k: "lwma_k N = N * (N + 1) * 60"
  by (simp add: lwma_k_def TARGET_SPACING_def)

lemma lwma_k_bounds:
  assumes "3 \<le> N" "N \<le> 60"
  shows "720 \<le> lwma_k N" "lwma_k N \<le> 219600"
proof -
  have "3 * 4 * 60 \<le> N * (N + 1) * 60" using assms by (intro mult_right_mono mult_mono) auto
  then show "720 \<le> lwma_k N" by (simp add: lwma_k)
  have "N * (N + 1) * 60 \<le> 60 * 61 * 60" using assms by (intro mult_right_mono mult_mono) auto
  then show "lwma_k N \<le> 219600" by (simp add: lwma_k)
qed

lemma sum_targets_le: "(\<And>i. i < n \<Longrightarrow> bits_target (hi_bits (prv (int i))) \<le> L) \<Longrightarrow> sum_targets prv n \<le> n * L"
proof (induction n)
  case (Suc n)
  then have "sum_targets prv n \<le> n * L" by simp
  moreover have "bits_target (hi_bits (prv (int n))) \<le> L" using Suc.prems by simp
  ultimately show ?case by simp
qed simp

text \<open>
  The retargeting rule on numbers: the average of the window's targets, scaled by a weight between
  a tenth and six times the neutral one, and capped by the limit.
\<close>

lemma next_target_val:
  assumes N: "3 \<le> N" "N \<le> 60" and L: "u256_val (pow_limit p) < 2 ^ 240"
    and win: "\<And>i. i < nat N \<Longrightarrow> bits_target (hi_bits (prv (int i))) \<le> u256_val (pow_limit p)"
  obtains w where "nat (lwma_k N) div 10 \<le> w" "w \<le> 6 * nat (lwma_k N)"
    "u256_val (next_target N prv p) =
      (let R = sum_targets prv (nat N) div (nat N * nat (lwma_k N)) * w
       in if R > u256_val (pow_limit p) \<or> R = 0 then u256_val (pow_limit p) else R)"
proof -
  define k where "k = lwma_k N"
  define S where "S = sum_targets prv (nat N)"
  have k: "720 \<le> k" "k \<le> 219600" using lwma_k_bounds [OF N] by (simp_all add: k_def)
  obtain w s where ws: "lwma_loop prv N 1 (0, u256_zero) = (w, s)" by force
  have "S \<le> nat N * u256_val (pow_limit p)" unfolding S_def by (rule sum_targets_le) (rule win)
  also have "\<dots> \<le> 60 * 2 ^ 240" using N L by (intro mult_mono) auto
  finally have S: "S \<le> 60 * 2 ^ 240" .
  have loop: "w \<le> 6 * TARGET_SPACING * (\<Sum>i\<in>{1..N}. i)" "u256_val s = S"
    using lwma_loop_ok [of 1 N prv 0 u256_zero w s] ws N S by (simp_all add: S_def)
  have "2 * (6 * TARGET_SPACING * (\<Sum>i\<in>{1..N}. i)) = 2 * (6 * k)"
    using sum_upto_int [of N] N by (simp add: k_def lwma_k TARGET_SPACING_def)
  then have w6: "w \<le> 6 * k" using loop(1) by simp
  define W where "W = (if w < k div 10 then k div 10 else w)"
  have W: "k div 10 \<le> W" "W \<le> 6 * k" "0 \<le> W" using w6 k by (auto simp: W_def)
  have woi: "(word_of_int i :: u64) = of_nat (nat i)" if i0: "0 \<le> i" for i
  proof -
    obtain n where "i = int n" using zero_le_imp_eq_int [OF i0] by blast
    then show ?thesis by simp
  qed
  have "nat N * nat k \<le> 60 * 219600" using N k by (intro mult_mono) auto
  moreover have "(word_of_int N * word_of_int k :: u64) = of_nat (nat N * nat k)"
    using N k by (simp only: woi [of N] woi [of k] of_nat_mult)
  ultimately have nk: "unat (word_of_int N * word_of_int k :: u64) = nat N * nat k"
    by (simp only: unat_of_nat_64) simp
  have wW: "unat (word_of_int W :: u64) = nat W" 
    using W k by (simp only: woi [OF W(3)] unat_of_nat_64) simp
  define R where "R = S div (nat N * nat k) * nat W"
  have "0 < nat N * nat k" using N k by simp
  then have nz: "(word_of_int N * word_of_int k :: u64) \<noteq> 0" using nk by (metis less_irrefl unat_0)
  have "R \<le> S div (nat N * nat k) * (6 * (nat N * nat k))"
    unfolding R_def
  proof (rule mult_le_mono2)
    have "nat W \<le> 6 * nat k" using W k by auto
    also have "\<dots> \<le> 6 * (nat N * nat k)" using N by (cases "nat N") auto
    finally show "nat W \<le> 6 * (nat N * nat k)" .
  qed
  also have "\<dots> = 6 * (S div (nat N * nat k) * (nat N * nat k))" by simp
  also have "\<dots> \<le> 6 * S" by (intro mult_le_mono2) (rule div_times_less_eq_dividend)
  also have "\<dots> < 2 ^ 256" using S by simp
  finally have v: "u256_val (u256_mul64 (u256_div64 s (word_of_int N * word_of_int k)) (word_of_int W)) = R"
    using nz by (simp add: u256_val_mul64 u256_val_div64 loop(2) nk wW R_def)
  have "next_target N prv p =
      (let nxt = u256_mul64 (u256_div64 s (word_of_int N * word_of_int k)) (word_of_int W)
       in if u256_gt nxt (pow_limit p) \<or> u256_is_zero nxt then pow_limit p else nxt)"
    unfolding next_target_def ws lwma_k_def [symmetric] k_def [symmetric] by (simp add: Let_def W_def)
  then have "u256_val (next_target N prv p) =
      (if R > u256_val (pow_limit p) \<or> R = 0 then u256_val (pow_limit p) else R)"
    using v by (simp add: Let_def)
  moreover have "nat k div 10 \<le> nat W" "nat W \<le> 6 * nat k" using W k by auto
  ultimately show thesis using that [of "nat W"] by (simp add: Let_def R_def S_def k_def)
qed

text \<open>Whatever the window holds, the bits asked of the next block are a target that can be met.\<close>

lemma next_target_range:
  assumes "0 < u256_val (pow_limit p)"
  shows "0 < u256_val (next_target N prv p)" "u256_val (next_target N prv p) \<le> u256_val (pow_limit p)"
  using assms by (simp_all add: next_target_def Let_def split: prod.splits)

lemma next_bits_valid:
  assumes "0 < u256_val (pow_limit p)" "\<not> no_retarget p" "3 \<le> tip"
  obtains t where "from_compact (next_bits tip prv p) = (t, False, False)" "0 < u256_val t"
    "u256_val t \<le> u256_val (pow_limit p)"
proof -
  define N where "N = min LWMA_WINDOW tip"
  have "next_bits tip prv p = to_compact (next_target N prv p)"
    using assms(2,3) by (simp add: next_bits_def N_def LWMA_WINDOW_def Let_def min_def)
  moreover obtain t where "from_compact (to_compact (next_target N prv p)) = (t, False, False)"
      "u256_val t \<le> u256_val (next_target N prv p)"
      "0 < u256_val (next_target N prv p) \<Longrightarrow> 0 < u256_val t"
    using from_compact_to_compact [of "next_target N prv p"] by metis
  ultimately show thesis using that next_target_range [OF assms(1)] by (metis le_trans)
qed

lemma check_pow_iff:
  "check_pow h bits p \<longleftrightarrow>
     (\<exists>t. from_compact bits = (t, False, False) \<and> 0 < u256_val t \<and> u256_val t \<le> u256_val (pow_limit p)
        \<and> be_val (hash_bytes h) \<le> u256_val t)"
  by (cases "from_compact bits") (auto simp: check_pow_def from_hash_val split: if_splits)

end
