(* ===== verification/Chainstate.thy ===== *)
theory Chainstate
  imports Utxo_Laws Pow "HOL-Library.While_Combinator"
begin

unbundle bit_operations_syntax

text \<open>
  The block tree, the active chain and the storage of \<open>src/src/chain/chainstate.cpp\<close>.

  A \<open>BlockIndex*\<close> is the hash of the node it points to: \<open>index_\<close> owns the nodes, a node is
  made once for a hash and never removed. \<open>deref\<close> reads a node; on a hash that is not in the index
  (a null or dangling pointer in C++, which the tree invariant excludes) it gives a blank node. The
  data directory is a map from paths to contents; \<open>fs_ok\<close> says which paths can be written. A
  \<open>FILE*\<close> opened for appending appends to its file. \<open>now_seconds()\<close> is the field \<open>cs_now\<close>, the
  static emission cache \<open>cs_em\<close>, and the calls of \<open>on_connect\<close>, \<open>on_disconnect\<close> and \<open>on_tip\<close>
  are recorded, in order, in \<open>cs_events\<close>. Heights are C++ \<open>int64_t\<close> far from their bounds: integers.
\<close>

section \<open>Files\<close>

record filesys =
  fs_files :: "(string \<times> bytes) list"
  fs_ok :: "string \<Rightarrow> bool"

definition read_file :: "filesys \<Rightarrow> string \<Rightarrow> bytes option" where
  "read_file fs path = map_of (fs_files fs) path"

definition write_file_atomic :: "string \<Rightarrow> bytes \<Rightarrow> filesys \<Rightarrow> filesys \<times> bool" where
  "write_file_atomic path data fs =
     (if fs_ok fs path then (fs\<lparr>fs_files := AList.update path data (fs_files fs)\<rparr>, True) else (fs, False))"

definition fs_append :: "string \<Rightarrow> bytes \<Rightarrow> filesys \<Rightarrow> filesys \<times> bool" where
  "fs_append path data fs =
     (if fs_ok fs path then
        (fs\<lparr>fs_files := AList.update path ((case read_file fs path of None \<Rightarrow> [] | Some b \<Rightarrow> b) @ data) (fs_files fs)\<rparr>, True)
      else (fs, False))"

definition fs_remove :: "string \<Rightarrow> filesys \<Rightarrow> filesys" where
  "fs_remove path fs = fs\<lparr>fs_files := AList.delete path (fs_files fs)\<rparr>"

definition file_size :: "filesys \<Rightarrow> string \<Rightarrow> nat" where
  "file_size fs path = (case read_file fs path of None \<Rightarrow> 0 | Some b \<Rightarrow> length b)"

text \<open>The names in a directory.\<close>

definition dir_files :: "filesys \<Rightarrow> string \<Rightarrow> (string \<times> bytes) list" where
  "dir_files fs dir =
     [(drop (length dir) p, b). (p, b) \<leftarrow> fs_files fs, take (length dir) p = dir]"

section \<open>Nodes and state\<close>

record block_index =
  bi_hash :: hash256
  bi_header :: block_header
  bi_height :: int
  bi_chainwork :: u256
  bi_prev :: "hash256 option"
  bi_skip :: "hash256 option"
  bi_seq :: u64
  bi_children :: "hash256 list"
  bi_have_data :: bool
  bi_chain_data :: bool
  bi_failed :: bool
  bi_no_witness_ok :: bool
  bi_data_pos :: u64
  bi_data_len :: u32
  bi_from_snapshot :: bool

datatype chain_event = EvConnect block hash256 | EvDisconnect block hash256 | EvTip hash256

record chainstate =
  cs_p :: chain_params
  cs_dir :: string
  cs_prune :: bool
  cs_candidates :: "hash256 list"
  cs_next_seq :: u64
  cs_index :: "(hash256 \<times> block_index) list"
  cs_chain :: "hash256 list"
  cs_best_header :: "hash256 option"
  cs_st :: utxo_state
  cs_txindex :: "(hash256 \<times> hash256) list"
  cs_snapshot_hash :: "(hash256 \<times> hash256) list"
  cs_snapshot_base :: int
  cs_blocks_since_flush :: int
  cs_fs :: filesys
  cs_now :: int
  cs_em :: emission
  cs_events :: "chain_event list"

definition blank_index :: block_index where
  "blank_index = \<lparr>bi_hash = hash_zero, bi_header = header blank_block, bi_height = 0, bi_chainwork = u256_zero,
     bi_prev = None, bi_skip = None, bi_seq = 0, bi_children = [], bi_have_data = False, bi_chain_data = False,
     bi_failed = False, bi_no_witness_ok = False, bi_data_pos = 0, bi_data_len = 0, bi_from_snapshot = False\<rparr>"

definition Chainstate_new :: "chain_params \<Rightarrow> string \<Rightarrow> bool \<Rightarrow> filesys \<Rightarrow> int \<Rightarrow> emission \<Rightarrow> chainstate" where
  "Chainstate_new p dir prune fs now em = \<lparr>cs_p = p, cs_dir = dir, cs_prune = prune, cs_candidates = [], cs_next_seq = 0,
     cs_index = [], cs_chain = [], cs_best_header = None, cs_st = clear_state, cs_txindex = [], cs_snapshot_hash = [],
     cs_snapshot_base = 0, cs_blocks_since_flush = 0, cs_fs = fs, cs_now = now, cs_em = em, cs_events = []\<rparr>"

definition cs_lookup :: "chainstate \<Rightarrow> hash256 \<Rightarrow> hash256 option" where
  "cs_lookup cs h = (if map_of (cs_index cs) h = None then None else Some h)"

definition deref :: "chainstate \<Rightarrow> hash256 \<Rightarrow> block_index" where
  "deref cs h = (case map_of (cs_index cs) h of None \<Rightarrow> blank_index | Some b \<Rightarrow> b)"

definition upd_index :: "hash256 \<Rightarrow> (block_index \<Rightarrow> block_index) \<Rightarrow> chainstate \<Rightarrow> chainstate" where
  "upd_index h f cs = cs\<lparr>cs_index := AList.update h (f (deref cs h)) (cs_index cs)\<rparr>"

abbreviation b_height :: "chainstate \<Rightarrow> hash256 \<Rightarrow> int" where
  "b_height cs h \<equiv> bi_height (deref cs h)"

abbreviation b_work :: "chainstate \<Rightarrow> hash256 \<Rightarrow> u256" where
  "b_work cs h \<equiv> bi_chainwork (deref cs h)"

definition tip :: "chainstate \<Rightarrow> hash256 option" where
  "tip cs = (if cs_chain cs = [] then None else Some (last (cs_chain cs)))"

text \<open>\<open>tip()\<close> where the source dereferences it.\<close>

definition the_tip :: "chainstate \<Rightarrow> hash256" where
  "the_tip cs = last (cs_chain cs)"

definition cs_height :: "chainstate \<Rightarrow> int" where
  "cs_height cs = int (length (cs_chain cs)) - 1"

definition at_height :: "chainstate \<Rightarrow> int \<Rightarrow> hash256 option" where
  "at_height cs h = (if h \<ge> 0 \<and> h < int (length (cs_chain cs)) then Some (cs_chain cs ! nat h) else None)"

definition in_active_chain :: "chainstate \<Rightarrow> hash256 \<Rightarrow> bool" where
  "in_active_chain cs b \<longleftrightarrow> at_height cs (b_height cs b) = Some b"

section \<open>The skip list\<close>

definition invert_lowest_one :: "int \<Rightarrow> int" where
  "invert_lowest_one n = n AND (n - 1)"

definition skip_height :: "int \<Rightarrow> int" where
  "skip_height h =
     (if h < 2 then 0
      else if h AND 1 \<noteq> 0 then invert_lowest_one (invert_lowest_one (h - 1)) + 1
      else invert_lowest_one h)"

lemma invert_lowest_one_bounds: "0 \<le> n \<Longrightarrow> 0 \<le> invert_lowest_one n \<and> invert_lowest_one n \<le> n
    \<and> (0 < n \<longrightarrow> invert_lowest_one n < n)"
proof -
  assume n: "0 \<le> n"
  have "n AND (n - 1) \<le> n" using AND_upper1 [OF n] .
  moreover have "0 < n \<Longrightarrow> n AND (n - 1) \<le> n - 1" by (intro AND_upper2) simp
  ultimately show ?thesis using n by (auto simp: invert_lowest_one_def)
qed

lemma skip_height_bounds: "0 < h \<Longrightarrow> 0 \<le> skip_height h \<and> skip_height h < h"
  using invert_lowest_one_bounds [of h] invert_lowest_one_bounds [of "h - 1"]
    invert_lowest_one_bounds [of "invert_lowest_one (h - 1)"]
  by (auto simp: skip_height_def)

text \<open>
  The walk of \<open>ancestor\<close>; the caller has checked that the height is not negative. Following a null
  \<open>prev\<close> gives the null pointer.
\<close>

function ancestor_walk :: "chainstate \<Rightarrow> int \<Rightarrow> hash256 \<Rightarrow> int \<Rightarrow> hash256 option" where
  "ancestor_walk cs h walk hw =
     (if hw > h \<and> h \<ge> 0 then
        (let sk = bi_skip (deref cs walk); hs = skip_height hw; hsp = skip_height (hw - 1) in
         case sk of
           Some k \<Rightarrow>
             if hs = h \<or> (hs > h \<and> \<not> (hsp < hs - 2 \<and> hsp \<ge> h)) then ancestor_walk cs h k hs
             else (case bi_prev (deref cs walk) of None \<Rightarrow> None | Some p \<Rightarrow> ancestor_walk cs h p (hw - 1))
         | None \<Rightarrow> (case bi_prev (deref cs walk) of None \<Rightarrow> None | Some p \<Rightarrow> ancestor_walk cs h p (hw - 1)))
      else Some walk)"
  by pat_completeness auto
termination
  by (relation "measure (\<lambda>(cs, h, walk, hw). nat hw)")
    (use skip_height_bounds in \<open>auto simp: zless_nat_conj\<close>)

declare ancestor_walk.simps [simp del]

definition ancestor :: "chainstate \<Rightarrow> hash256 \<Rightarrow> int \<Rightarrow> hash256 option" where
  "ancestor cs b h =
     (if h > b_height cs b \<or> h < 0 then None
      else if in_active_chain cs b then Some (cs_chain cs ! nat h)
      else ancestor_walk cs h b (b_height cs b))"

definition add_index :: "crypto \<Rightarrow> block_header \<Rightarrow> chainstate \<Rightarrow> chainstate \<times> hash256" where
  "add_index cr h cs =
     (let hash = header_hash cr h;
          prv = cs_lookup cs (h_prev h);
          height = (case prv of Some p \<Rightarrow> b_height cs p + 1 | None \<Rightarrow> 0);
          work = u256_add (case prv of Some p \<Rightarrow> b_work cs p | None \<Rightarrow> u256_zero)
                   (work_from_target (fst (from_compact (h_bits h))));
          skip = (case prv of Some p \<Rightarrow> ancestor cs p (skip_height height) | None \<Rightarrow> None);
          b = blank_index\<lparr>bi_hash := hash, bi_header := h, bi_prev := prv, bi_height := height,
                bi_chainwork := work, bi_seq := cs_next_seq cs, bi_skip := skip\<rparr>;
          cs = cs\<lparr>cs_next_seq := cs_next_seq cs + 1\<rparr>;
          cs = (case prv of Some p \<Rightarrow> upd_index p (\<lambda>n. n\<lparr>bi_children := bi_children n @ [hash]\<rparr>) cs | None \<Rightarrow> cs);
          cs = cs\<lparr>cs_index := AList.update hash b (cs_index cs)\<rparr>;
          better = (case cs_best_header cs of None \<Rightarrow> True | Some bh \<Rightarrow> u256_gt work (b_work cs bh))
      in (if better then cs\<lparr>cs_best_header := Some hash\<rparr> else cs, hash))"

section \<open>Walking back\<close>

text \<open>
  Loops along \<open>prev\<close>. A node of height \<open>h\<close> has \<open>h\<close> ancestors, so \<open>h + 1\<close> rounds are enough.
\<close>

primrec walk_back :: "chainstate \<Rightarrow> (hash256 \<Rightarrow> bool) \<Rightarrow> nat \<Rightarrow> hash256 \<Rightarrow> hash256 list" where
  "walk_back cs stop 0 b = []"
| "walk_back cs stop (Suc n) b =
     (if stop b then []
      else b # (case bi_prev (deref cs b) of None \<Rightarrow> [] | Some p \<Rightarrow> walk_back cs stop n p))"

definition rounds :: "chainstate \<Rightarrow> hash256 \<Rightarrow> nat" where
  "rounds cs b = nat (b_height cs b + 1)"

text \<open>\<open>while (a && !in_active_chain(a)) a = a->prev;\<close>\<close>

primrec back_to_active :: "chainstate \<Rightarrow> nat \<Rightarrow> hash256 \<Rightarrow> hash256 option" where
  "back_to_active cs 0 b = None"
| "back_to_active cs (Suc n) b =
     (if in_active_chain cs b then Some b
      else (case bi_prev (deref cs b) of None \<Rightarrow> None | Some p \<Rightarrow> back_to_active cs n p))"

definition fork_point :: "chainstate \<Rightarrow> hash256 \<Rightarrow> hash256 option" where
  "fork_point cs b =
     (case ancestor cs b (min (b_height cs b) (b_height cs (the_tip cs))) of
        None \<Rightarrow> None
      | Some a \<Rightarrow> back_to_active cs (rounds cs a) a)"

text \<open>The loop of \<open>locator\<close>: every round goes at least one block down.\<close>

primrec locator_loop :: "chainstate \<Rightarrow> nat \<Rightarrow> hash256 \<Rightarrow> int \<Rightarrow> hash256 list \<Rightarrow> hash256 list" where
  "locator_loop cs 0 b step v = v"
| "locator_loop cs (Suc n) b step v =
     (let v = v @ [b] in
      if b_height cs b = 0 then v
      else
        (let h = max (b_height cs b - step) 0;
             step' = (if length v > 10 then step * 2 else step)
         in case ancestor cs b h of None \<Rightarrow> v | Some b' \<Rightarrow> locator_loop cs n b' step' v))"

definition locator :: "chainstate \<Rightarrow> hash256 option \<Rightarrow> hash256 list" where
  "locator cs from =
     (case (case from of None \<Rightarrow> tip cs | Some b \<Rightarrow> Some b) of
        None \<Rightarrow> []
      | Some b \<Rightarrow> locator_loop cs (rounds cs b) b 1 [])"

primrec find_fork_from_locator :: "chainstate \<Rightarrow> hash256 list \<Rightarrow> hash256 option" where
  "find_fork_from_locator cs [] = (if cs_chain cs = [] then None else Some (hd (cs_chain cs)))"
| "find_fork_from_locator cs (h # hs) =
     (case cs_lookup cs h of
        Some b \<Rightarrow> if in_active_chain cs b then Some b else find_fork_from_locator cs hs
      | None \<Rightarrow> find_fork_from_locator cs hs)"

definition is_initial_sync :: "chainstate \<Rightarrow> bool" where
  "is_initial_sync cs =
     (case (tip cs, cs_best_header cs) of
        (Some t, Some bh) \<Rightarrow>
          if b_height cs bh > b_height cs t + 10 then True
          else sint (h_time (bi_header (deref cs t))) < cs_now cs - 24 * 3600
      | _ \<Rightarrow> True)"

definition median_time_past :: "chainstate \<Rightarrow> hash256 \<Rightarrow> int" where
  "median_time_past cs b =
     (let t = sort (map (\<lambda>x. sint (h_time (bi_header (deref cs x))))
                     (walk_back cs (\<lambda>_. False) MEDIAN_TIME_SPAN b))
      in if t = [] then 0 else t ! (length t div 2))"

definition next_bits_for :: "chainstate \<Rightarrow> hash256 \<Rightarrow> u32" where
  "next_bits_for cs prv =
     (let back = walk_back cs (\<lambda>_. False) (nat (LWMA_WINDOW + 2)) prv
      in next_bits (b_height cs prv)
           (\<lambda>i. let h = bi_header (deref cs (back ! nat i)) in \<lparr>hi_time = h_time h, hi_bits = h_bits h\<rparr>) (cs_p cs))"

section \<open>Block files\<close>

definition witness_path :: "chainstate \<Rightarrow> hash256 \<Rightarrow> string" where
  "witness_path cs h = cs_dir cs @ ''/witness/'' @ hash_hex h @ ''.w''"

definition undo_path :: "chainstate \<Rightarrow> hash256 \<Rightarrow> string" where
  "undo_path cs h = cs_dir cs @ ''/undo/'' @ hash_hex h @ ''.u''"

definition snapshot_path :: "chainstate \<Rightarrow> hash256 \<Rightarrow> string" where
  "snapshot_path cs h = cs_dir cs @ ''/snapshots/'' @ hash_hex h @ ''.snap''"

definition have_witness :: "chainstate \<Rightarrow> hash256 \<Rightarrow> bool" where
  "have_witness cs b \<longleftrightarrow> read_file (cs_fs cs) (witness_path cs (bi_hash (deref cs b))) \<noteq> None"

definition write_cs :: "string \<Rightarrow> bytes \<Rightarrow> chainstate \<Rightarrow> chainstate \<times> bool" where
  "write_cs path data cs = (case write_file_atomic path data (cs_fs cs) of (fs, ok) \<Rightarrow> (cs\<lparr>cs_fs := fs\<rparr>, ok))"

definition append_cs :: "string \<Rightarrow> bytes \<Rightarrow> chainstate \<Rightarrow> chainstate \<times> bool" where
  "append_cs path data cs = (case fs_append path data (cs_fs cs) of (fs, ok) \<Rightarrow> (cs\<lparr>cs_fs := fs\<rparr>, ok))"

text \<open>The result is the block and whether its witness was found; \<open>None\<close> is \<open>return false\<close>.\<close>

definition read_block :: "crypto \<Rightarrow> chainstate \<Rightarrow> hash256 \<Rightarrow> bool \<Rightarrow> (block \<times> bool) option" where
  "read_block cr cs b want_witness =
     (let n = deref cs b in
      if \<not> bi_have_data n then None
      else
        (let file = (case read_file (cs_fs cs) (cs_dir cs @ ''/blocks.dat'') of None \<Rightarrow> [] | Some f \<Rightarrow> f);
             buf = take (unat (bi_data_len n)) (drop (unat (bi_data_pos n)) file)
         in if length buf \<noteq> unat (bi_data_len n) then None
            else
              (case read_block_core buf of
                 Inl e \<Rightarrow> None
               | Inr (out, r) \<Rightarrow>
                   if header_hash cr (header out) \<noteq> bi_hash n then None
                   else if want_witness then
                     (case read_file (cs_fs cs) (witness_path cs (bi_hash n)) of
                        None \<Rightarrow> Some (out, False)
                      | Some wb \<Rightarrow>
                          (case read_block_witness out wb of Inl e \<Rightarrow> None | Inr (out, r) \<Rightarrow> Some (out, True)))
                   else Some (out, False))))"

definition store_block :: "hash256 \<Rightarrow> block \<Rightarrow> bool \<Rightarrow> chainstate \<Rightarrow> chainstate \<times> bool" where
  "store_block idx b has_witness cs =
     (let core = block_core_bytes b;
          path = cs_dir cs @ ''/blocks.dat'';
          pos = file_size (cs_fs cs) path
      in case append_cs path core cs of
           (cs, False) \<Rightarrow> (cs, False)
         | (cs, True) \<Rightarrow>
             (let rec = w_hash (bi_hash (deref cs idx)) @ w_u64le (of_nat pos) @ w_u32le (of_nat (length core));
                  cs = fst (append_cs (cs_dir cs @ ''/blockpos.dat'') rec cs);
                  cs = upd_index idx (\<lambda>n. n\<lparr>bi_data_pos := of_nat pos, bi_data_len := of_nat (length core),
                         bi_have_data := True\<rparr>) cs;
                  keep = (\<not> cs_prune cs \<or> (case cs_best_header cs of None \<Rightarrow> True
                            | Some bh \<Rightarrow> b_height cs idx + PRUNE_DEPTH > b_height cs bh));
                  cs = (if has_witness \<and> keep
                        then fst (write_cs (witness_path cs (bi_hash (deref cs idx))) (block_witness_bytes b) cs) else cs)
              in (cs, True)))"

definition index_block_txs :: "crypto \<Rightarrow> block \<Rightarrow> hash256 \<Rightarrow> bool \<Rightarrow> chainstate \<Rightarrow> chainstate" where
  "index_block_txs cr b idx add cs =
     fold (\<lambda>t cs. cs\<lparr>cs_txindex := (if add then AList.update (txid cr t) (bi_hash (deref cs idx)) (cs_txindex cs)
                                    else AList.delete (txid cr t) (cs_txindex cs))\<rparr>) (txs b) cs"

definition find_tx_block :: "chainstate \<Rightarrow> hash256 \<Rightarrow> hash256 option" where
  "find_tx_block cs tid = map_of (cs_txindex cs) tid"

definition write_undo :: "hash256 \<Rightarrow> undo \<Rightarrow> chainstate \<Rightarrow> chainstate \<times> bool" where
  "write_undo b u cs = write_cs (undo_path cs (bi_hash (deref cs b))) (undo_bytes u) cs"

definition read_undo :: "chainstate \<Rightarrow> hash256 \<Rightarrow> undo option" where
  "read_undo cs b =
     (case read_file (cs_fs cs) (undo_path cs (bi_hash (deref cs b))) of
        None \<Rightarrow> None
      | Some buf \<Rightarrow> (case parse_undo buf of Inl e \<Rightarrow> None | Inr u \<Rightarrow> Some u))"

definition prune_at :: "int \<Rightarrow> chainstate \<Rightarrow> chainstate" where
  "prune_at h cs =
     (case at_height cs h of
        None \<Rightarrow> cs
      | Some b \<Rightarrow>
          if h \<le> 0 then cs
          else cs\<lparr>cs_fs := fs_remove (undo_path cs (bi_hash (deref cs b)))
                    (fs_remove (witness_path cs (bi_hash (deref cs b))) (cs_fs cs))\<rparr>)"

end
