(* ===== verification/Chain_Ops.thy ===== *)
theory Chain_Ops
  imports Chainstate
begin

text \<open>
  The operations of \<open>Chainstate\<close>: snapshots, accepting headers and blocks, connecting and
  disconnecting blocks, choosing the best chain, loading and flushing (\<open>src/src/chain/chainstate.cpp\<close>).
  A \<open>bool\<close> with a \<open>why\<close> is a result; the state comes back on failure too, because some
  failures leave changes behind. A loop over a work list of tree nodes is a \<open>while_option\<close>: that it
  ends is a theorem about trees, not a feature of the code.
\<close>

section \<open>Snapshots\<close>

definition flush :: "crypto \<Rightarrow> chainstate \<Rightarrow> chainstate" where
  "flush cr cs =
     (let s = serialize_state (bi_hash (deref cs (the_tip cs))) (cs_height cs) (cs_st cs);
          s = s @ hash_bytes (blake3 cr s)
      in (fst (write_cs (cs_dir cs @ ''/utxo.dat'') s cs))\<lparr>cs_blocks_since_flush := 0\<rparr>)"

definition ends_with :: "string \<Rightarrow> string \<Rightarrow> bool" where
  "ends_with s e \<longleftrightarrow> length e \<le> length s \<and> drop (length s - length e) s = e"

definition scan_snapshots :: "crypto \<Rightarrow> chainstate \<Rightarrow> chainstate" where
  "scan_snapshots cr cs =
     fold (\<lambda>(name, b) cs.
       if length name \<noteq> 64 + 5 \<or> \<not> ends_with name ''.snap'' then cs
       else (case from_hex (take 64 name) of
               None \<Rightarrow> cs
             | Some bh \<Rightarrow> cs\<lparr>cs_snapshot_hash := AList.update bh (state_hash cr b) (cs_snapshot_hash cs)\<rparr>))
       (dir_files (cs_fs cs) (cs_dir cs @ ''/snapshots/'')) cs"

definition read_snapshot_file :: "chainstate \<Rightarrow> hash256 \<Rightarrow> bytes option" where
  "read_snapshot_file cs b =
     (if map_of (cs_snapshot_hash cs) b = None then None else read_file (cs_fs cs) (snapshot_path cs b))"

text \<open>The snapshots from the fourth newest on, those off the active chain last.\<close>

definition stale_snapshots :: "chainstate \<Rightarrow> hash256 list" where
  "stale_snapshots cs =
     (let held = map (\<lambda>(bh, sh). (case cs_lookup cs bh of
                         Some b \<Rightarrow> (if in_active_chain cs b then b_height cs b else -1, bh)
                       | None \<Rightarrow> (-1, bh))) (cs_snapshot_hash cs)
      in map snd (drop 3 (rev (sort held))))"

definition drop_snapshot :: "hash256 \<Rightarrow> chainstate \<Rightarrow> chainstate" where
  "drop_snapshot bh cs =
     (if (case cs_lookup cs bh of Some b \<Rightarrow> bi_from_snapshot (deref cs b) | None \<Rightarrow> False) then cs
      else cs\<lparr>cs_fs := fs_remove (snapshot_path cs bh) (cs_fs cs),
              cs_snapshot_hash := AList.delete bh (cs_snapshot_hash cs)\<rparr>)"

definition write_commit_snapshot :: "crypto \<Rightarrow> hash256 \<Rightarrow> chainstate \<Rightarrow> chainstate" where
  "write_commit_snapshot cr idx cs =
     (let s = serialize_state (bi_hash (deref cs (the_tip cs))) (cs_height cs) (cs_st cs);
          h = bi_hash (deref cs idx)
      in case write_cs (snapshot_path cs h) s cs of
           (cs, False) \<Rightarrow> cs
         | (cs, True) \<Rightarrow>
             (let cs = cs\<lparr>cs_snapshot_hash := AList.update h (state_hash cr s) (cs_snapshot_hash cs)\<rparr>
              in fold drop_snapshot (stale_snapshots cs) cs))"

definition committed_hash_for :: "chainstate \<Rightarrow> hash256 option \<Rightarrow> hash256 option" where
  "committed_hash_for cs blk =
     (case (blk, cs_best_header cs) of
        (Some b, Some bh) \<Rightarrow>
          (let ch = b_height cs b + snapshot_delay (cs_p cs) in
           if \<not> is_commit_height (cs_p cs) ch \<or> b_height cs bh < ch then None
           else (case ancestor cs bh ch of
                   None \<Rightarrow> None
                 | Some c \<Rightarrow>
                     if ancestor cs c (b_height cs b) \<noteq> Some b then None
                     else Some (state_commit (bi_header (deref cs c)))))
      | _ \<Rightarrow> None)"

definition best_snapshot_file :: "chainstate \<Rightarrow> (hash256 \<times> string) option" where
  "best_snapshot_file cs =
     fst (fold (\<lambda>(bh, sh) (best, best_h).
       let b = cs_lookup cs bh in
       case committed_hash_for cs b of
         None \<Rightarrow> (best, best_h)
       | Some c \<Rightarrow>
           if c \<noteq> sh \<or> b_height cs bh \<le> best_h then (best, best_h)
           else (Some (bh, snapshot_path cs bh), b_height cs bh))
       (cs_snapshot_hash cs) (None, -1))"

text \<open>The state commitment of a block on top of \<open>prv\<close>.\<close>

definition commit_for_next :: "chainstate \<Rightarrow> hash256 \<Rightarrow> hash256" where
  "commit_for_next cs prv =
     (let h = b_height cs prv + 1 in
      if \<not> is_commit_height (cs_p cs) h then hash_zero
      else (case ancestor cs prv (h - snapshot_delay (cs_p cs)) of
              None \<Rightarrow> hash_zero
            | Some base \<Rightarrow>
                (case map_of (cs_snapshot_hash cs) (bi_hash (deref cs base)) of None \<Rightarrow> hash_zero | Some s \<Rightarrow> s)))"

section \<open>Headers\<close>

datatype header_result = HOk | HKnown | HOrphan | HInvalid

text \<open>The checks of a header whose predecessor is known, up to the depth of its fork.\<close>

definition check_header :: "crypto \<Rightarrow> chainstate \<Rightarrow> block_header \<Rightarrow> hash256 \<Rightarrow> unit result" where
  "check_header cr cs h prv =
     rbind (fail_if (bi_failed (deref cs prv)) ''prev-invalid'') (\<lambda>_.
     rbind (fail_if (h_version h \<noteq> 2) ''bad-version'') (\<lambda>_.
     rbind (fail_if (is_commit_height (cs_p cs) (b_height cs prv + 1) = hash_is_zero (state_commit h))
              ''bad-state-commit-presence'') (\<lambda>_.
     rbind (fail_if (\<not> check_pow (header_hash cr h) (h_bits h) (cs_p cs)) ''high-hash'') (\<lambda>_.
     rbind (fail_if (h_bits h \<noteq> next_bits_for cs prv) ''bad-difficulty-bits'') (\<lambda>_.
     rbind (fail_if (sint (h_time h) \<le> median_time_past cs prv) ''time-too-old'') (\<lambda>_.
     rbind (fail_if (sint (h_time h) > cs_now cs + MAX_FUTURE_DRIFT) ''time-too-new'') (\<lambda>_.
     fail_if (case fork_point cs prv of
                None \<Rightarrow> False
              | Some a \<Rightarrow> b_height cs (the_tip cs) - b_height cs a > MAX_REORG_DEPTH) ''fork-too-deep'')))))))"

definition accept_header :: "crypto \<Rightarrow> block_header \<Rightarrow> chainstate \<Rightarrow> chainstate \<times> header_result \<times> string \<times> hash256 option" where
  "accept_header cr h cs =
     (case cs_lookup cs (header_hash cr h) of
        Some b \<Rightarrow> if bi_failed (deref cs b) then (cs, HInvalid, ''known-invalid'', Some b) else (cs, HKnown, '''', Some b)
      | None \<Rightarrow>
          (case cs_lookup cs (h_prev h) of
             None \<Rightarrow> (cs, HOrphan, ''orphan'', None)
           | Some prv \<Rightarrow>
               (case check_header cr cs h prv of
                  Inl why \<Rightarrow> (cs, HInvalid, why, None)
                | Inr _ \<Rightarrow>
                    (case add_index cr h cs of
                       (cs, b) \<Rightarrow>
                         (fst (append_cs (cs_dir cs @ ''/headers.dat'') (write_header h) cs), HOk, '''', Some b)))))"

section \<open>Candidates\<close>

text \<open>
  \<open>candidates_\<close> is a \<open>std::set\<close> ordered by \<open>WorkCmp\<close>: a list in ascending order.
\<close>

definition work_less :: "chainstate \<Rightarrow> hash256 \<Rightarrow> hash256 \<Rightarrow> bool" where
  "work_less cs a b =
     (let c = u256_cmp (b_work cs a) (b_work cs b) in
      if c \<noteq> 0 then c < 0 else bi_seq (deref cs a) > bi_seq (deref cs b))"

primrec cand_insert :: "chainstate \<Rightarrow> hash256 \<Rightarrow> hash256 list \<Rightarrow> hash256 list" where
  "cand_insert cs x [] = [x]"
| "cand_insert cs x (y # ys) =
     (if work_less cs x y then x # y # ys
      else if work_less cs y x then y # cand_insert cs x ys
      else y # ys)"

definition cand_erase :: "chainstate \<Rightarrow> hash256 \<Rightarrow> hash256 list \<Rightarrow> hash256 list" where
  "cand_erase cs x ys = filter (\<lambda>y. work_less cs x y \<or> work_less cs y x) ys"

text \<open>The body of the loop of \<open>update_chain_data\<close>, on the work list and the state.\<close>

fun chain_data_step :: "hash256 list \<times> chainstate \<Rightarrow> hash256 list \<times> chainstate" where
  "chain_data_step (todo, cs) =
     (let x = last todo; todo = butlast todo; n = deref cs x in
      if \<not> bi_have_data n \<or> bi_chain_data n then (todo, cs)
      else
        (let cs = upd_index x (\<lambda>n. n\<lparr>bi_chain_data := True\<rparr>) cs;
             cs = (if \<not> bi_failed n then cs\<lparr>cs_candidates := cand_insert cs x (cs_candidates cs)\<rparr> else cs)
         in (todo @ bi_children n, cs)))"

definition update_chain_data :: "hash256 \<Rightarrow> chainstate \<Rightarrow> chainstate option" where
  "update_chain_data b cs =
     (if \<not> bi_have_data (deref cs b)
         \<or> (case bi_prev (deref cs b) of None \<Rightarrow> False | Some p \<Rightarrow> \<not> bi_chain_data (deref cs p)) then Some cs
      else map_option snd (while_option (\<lambda>(todo, cs). todo \<noteq> []) chain_data_step ([b], cs)))"

definition best_candidate :: "chainstate \<Rightarrow> hash256" where
  "best_candidate cs =
     (case filter (\<lambda>c. \<not> bi_failed (deref cs c)) (rev (cs_candidates cs)) of
        [] \<Rightarrow> the_tip cs
      | c # _ \<Rightarrow> if u256_gt (b_work cs c) (b_work cs (the_tip cs)) then c else the_tip cs)"

fun failed_step :: "hash256 list \<times> chainstate \<Rightarrow> hash256 list \<times> chainstate" where
  "failed_step (todo, cs) =
     (let x = last todo; todo = butlast todo;
          cs = upd_index x (\<lambda>n. n\<lparr>bi_failed := True\<rparr>) cs;
          cs = cs\<lparr>cs_candidates := cand_erase cs x (cs_candidates cs)\<rparr>
      in (todo @ bi_children (deref cs x), cs))"

definition pick_best :: "chainstate \<Rightarrow> hash256 \<times> block_index \<Rightarrow> hash256 \<Rightarrow> hash256" where
  "pick_best cs e best =
     (if \<not> bi_failed (snd e) \<and> u256_gt (bi_chainwork (snd e)) (b_work cs best) then fst e else best)"

definition choose_best_header :: "chainstate \<Rightarrow> chainstate" where
  "choose_best_header cs =
     cs\<lparr>cs_best_header := Some (fold (pick_best cs) (cs_index cs) (genesis_hash (cs_p cs)))\<rparr>"

definition mark_failed :: "hash256 \<Rightarrow> chainstate \<Rightarrow> chainstate option" where
  "mark_failed b cs =
     map_option (\<lambda>(todo, cs). choose_best_header cs)
       (while_option (\<lambda>(todo, cs). todo \<noteq> []) failed_step ([b], cs))"

section \<open>Connecting and disconnecting\<close>

definition tx_failure :: "crypto \<Rightarrow> transaction \<Rightarrow> string \<Rightarrow> string" where
  "tx_failure cr t reason = ''tx '' @ take 16 (hash_hex (txid cr t)) @ '': '' @ reason"

text \<open>The loop over the transactions after the coinbase, with the 64-bit sum of the fees.\<close>

primrec apply_txs :: "crypto \<Rightarrow> reader_state \<Rightarrow> u64 \<Rightarrow> hash256 \<Rightarrow> bool \<Rightarrow> transaction list \<Rightarrow> view \<Rightarrow> amount \<Rightarrow> (view \<times> amount) result" where
  "apply_txs cr base height gen verify [] v fees = Inr (v, fees)"
| "apply_txs cr base height gen verify (t # ts) v fees =
     (case view_apply cr base t height gen verify v of
        Inl reason \<Rightarrow> Inl (tx_failure cr t reason)
      | Inr (fee, v) \<Rightarrow> apply_txs cr base height gen verify ts v (fees + fee))"

definition undo_of_view :: "view \<Rightarrow> undo" where
  "undo_of_view v = \<lparr>un_spent = spent_base v, un_pools_before = pools_before v, un_tokens_created = map fst (v_tokens v)\<rparr>"

definition commit_view :: "view \<Rightarrow> utxo_state \<Rightarrow> utxo_state" where
  "commit_view v s =
     (let s = fold (\<lambda>(p, c). us_spend_coin p) (spent_base v) s;
          s = fold (\<lambda>(p, c). add_coin p c) (created v) s;
          s = fold (\<lambda>(i, t). us_set_token i t) (v_tokens v) s
      in fold (\<lambda>(t, p). us_set_pool t (Some p)) (v_pools v) s)"

text \<open>The check of the state commitment: only when the snapshot it refers to is held.\<close>

definition commit_mismatch :: "chainstate \<Rightarrow> hash256 \<Rightarrow> bool" where
  "commit_mismatch cs idx \<longleftrightarrow> is_commit_height (cs_p cs) (b_height cs idx) \<and>
     (case ancestor cs idx (b_height cs idx - snapshot_delay (cs_p cs)) of
        None \<Rightarrow> False
      | Some base \<Rightarrow>
          (case map_of (cs_snapshot_hash cs) (bi_hash (deref cs base)) of
             None \<Rightarrow> False
           | Some s \<Rightarrow> s \<noteq> state_commit (bi_header (deref cs idx))))"

text \<open>What is left once nothing can fail any more.\<close>

definition connect_commit :: "crypto \<Rightarrow> block \<Rightarrow> hash256 \<Rightarrow> view \<Rightarrow> chainstate \<Rightarrow> chainstate" where
  "connect_commit cr b idx v cs =
     (let ih = b_height cs idx;
          cs = cs\<lparr>cs_st := commit_view v (cs_st cs), cs_chain := cs_chain cs @ [idx]\<rparr>;
          cs = index_block_txs cr b idx True cs;
          cs = cs\<lparr>cs_events := cs_events cs @ [EvConnect b idx]\<rparr>;
          cs = (if ih > 0 \<and> ih mod snapshot_interval (cs_p cs) = 0 then write_commit_snapshot cr idx cs else cs)
      in if cs_prune cs then prune_at (ih - PRUNE_DEPTH) cs else cs)"

definition connect_block :: "crypto \<Rightarrow> hash256 \<Rightarrow> chainstate \<Rightarrow> chainstate \<times> unit result" where
  "connect_block cr idx cs =
     (case read_block cr cs idx True of
        None \<Rightarrow> (cs, Inl ''read-failed'')
      | Some (b, got_witness) \<Rightarrow>
          (let ih = b_height cs idx;
               deep = (case cs_best_header cs of None \<Rightarrow> False | Some bh \<Rightarrow> ih + PRUNE_DEPTH \<le> b_height cs bh);
               verify = (got_witness \<and> ih > 0);
               height = word_of_int ih
           in if \<not> got_witness \<and> \<not> deep \<and> ih > 0 then (cs, Inl ''missing-witness'')
              else if commit_mismatch cs idx then (cs, Inl ''bad-state-commit'')
              else
                (case apply_txs cr (us_reader (cs_st cs)) height (genesis_hash (cs_p cs)) verify (tl (txs b))
                        (apply_coinbase cr (hd (txs b)) height empty_view) 0 of
                   Inl e \<Rightarrow> (cs, Inl e)
                 | Inr (v, fees) \<Rightarrow>
                     (let (subsidy, em) = (if ih > 0 then block_subsidy height (cs_em cs) else (0, cs_em cs));
                          cs = cs\<lparr>cs_em := em\<rparr>
                      in if ih > 0 \<and> total_qnt_out (hd (txs b)) > subsidy + fees
                         then (cs, Inl ''coinbase-pays-too-much'')
                         else
                           (let (cs, wrote) = (if ih > 0 then write_undo idx (undo_of_view v) cs else (cs, True))
                            in if \<not> wrote then (cs, Inl ''undo-write-failed'')
                               else (connect_commit cr b idx v cs, Inr ()))))))"

definition uncreate :: "crypto \<Rightarrow> transaction \<Rightarrow> utxo_state \<Rightarrow> utxo_state" where
  "uncreate cr t s = fold (\<lambda>n. us_spend_coin (OutPoint (txid cr t) (of_nat n))) [0..<length (outs t)] s"

definition undo_block :: "crypto \<Rightarrow> block \<Rightarrow> undo \<Rightarrow> utxo_state \<Rightarrow> utxo_state" where
  "undo_block cr b u s =
     (let s = fold (uncreate cr) (txs b) s;
          s = fold (\<lambda>(p, c). add_coin p c) (un_spent u) s;
          s = fold (\<lambda>(t, p). us_set_pool t p) (un_pools_before u) s
      in fold us_erase_token (un_tokens_created u) s)"

definition disconnect_tip :: "crypto \<Rightarrow> chainstate \<Rightarrow> chainstate \<times> unit result" where
  "disconnect_tip cr cs =
     (let t = the_tip cs in
      if b_height cs t = 0 \<or> bi_from_snapshot (deref cs t) then (cs, Inl ''cannot-disconnect-base'')
      else
        (case (read_block cr cs t False, read_undo cs t) of
           (Some (b, _), Some u) \<Rightarrow>
             (let cs = cs\<lparr>cs_st := undo_block cr b u (cs_st cs)\<rparr>;
                  cs = index_block_txs cr b t False cs;
                  cs = cs\<lparr>cs_chain := butlast (cs_chain cs)\<rparr>
              in (cs\<lparr>cs_events := cs_events cs @ [EvDisconnect b t]\<rparr>, Inr ()))
         | _ \<Rightarrow> (cs, Inl ''missing-undo-data'')))"

end
