(* ===== verification/Chain_Tree.thy ===== *)
theory Chain_Tree
  imports Chain_Ops
begin

text \<open>
  The block tree: its invariant, that the skip-list walk of \<open>ancestor\<close> finds the same block as
  following \<open>prev\<close>, that \<open>add_index\<close> keeps the invariant, and that the loops over subtrees end.
\<close>

section \<open>The invariant\<close>

definition known :: "chainstate \<Rightarrow> hash256 \<Rightarrow> bool" where
  "known cs h \<longleftrightarrow> map_of (cs_index cs) h \<noteq> None"

lemma cs_lookup_iff: "cs_lookup cs h = Some b \<longleftrightarrow> b = h \<and> known cs h" "cs_lookup cs h = None \<longleftrightarrow> \<not> known cs h"
  by (auto simp: cs_lookup_def known_def)

lemma deref_known: "map_of (cs_index cs) h = Some b \<Longrightarrow> deref cs h = b"
  by (simp add: deref_def)

text \<open>Reference: \<open>n\<close> steps along \<open>prev\<close>.\<close>

primrec up :: "chainstate \<Rightarrow> nat \<Rightarrow> hash256 \<Rightarrow> hash256 option" where
  "up cs 0 h = Some h"
| "up cs (Suc n) h = (case bi_prev (deref cs h) of None \<Rightarrow> None | Some p \<Rightarrow> up cs n p)"

definition node_ok :: "chainstate \<Rightarrow> hash256 \<Rightarrow> bool" where
  "node_ok cs h \<longleftrightarrow> bi_hash (deref cs h) = h \<and> 0 \<le> b_height cs h
     \<and> (case bi_prev (deref cs h) of None \<Rightarrow> b_height cs h = 0
        | Some p \<Rightarrow> known cs p \<and> b_height cs h = b_height cs p + 1)
     \<and> (\<forall>k. bi_skip (deref cs h) = Some k \<longrightarrow> up cs (nat (b_height cs h - skip_height (b_height cs h))) h = Some k)
     \<and> (\<forall>c\<in>set (bi_children (deref cs h)). known cs c \<and> bi_prev (deref cs c) = Some h \<and> b_height cs c = b_height cs h + 1)
     \<and> (\<forall>c. known cs c \<longrightarrow> bi_prev (deref cs c) = Some h \<longrightarrow> c \<in> set (bi_children (deref cs h)))"

definition index_ok :: "chainstate \<Rightarrow> bool" where
  "index_ok cs \<longleftrightarrow> al_distinct (cs_index cs) \<and> (\<forall>h. known cs h \<longrightarrow> node_ok cs h)"

definition chain_ok :: "chainstate \<Rightarrow> bool" where
  "chain_ok cs \<longleftrightarrow> cs_chain cs \<noteq> [] \<and> (\<forall>i<length (cs_chain cs).
     known cs (cs_chain cs ! i) \<and> b_height cs (cs_chain cs ! i) = int i
     \<and> (0 < i \<longrightarrow> bi_prev (deref cs (cs_chain cs ! i)) = Some (cs_chain cs ! (i - 1))))"

definition tree_ok :: "chainstate \<Rightarrow> bool" where
  "tree_ok cs \<longleftrightarrow> index_ok cs \<and> chain_ok cs"

lemma node_parts:
  assumes "node_ok cs h"
  shows "bi_hash (deref cs h) = h" "0 \<le> b_height cs h"
    "case bi_prev (deref cs h) of None \<Rightarrow> b_height cs h = 0 | Some p \<Rightarrow> known cs p \<and> b_height cs h = b_height cs p + 1"
    "bi_skip (deref cs h) = Some k \<Longrightarrow> up cs (nat (b_height cs h - skip_height (b_height cs h))) h = Some k"
    "c \<in> set (bi_children (deref cs h)) \<Longrightarrow> known cs c \<and> bi_prev (deref cs c) = Some h \<and> b_height cs c = b_height cs h + 1"
    "known cs c \<Longrightarrow> bi_prev (deref cs c) = Some h \<Longrightarrow> c \<in> set (bi_children (deref cs h))"
  using assms unfolding node_ok_def by blast+

lemma index_node: "index_ok cs \<Longrightarrow> known cs h \<Longrightarrow> node_ok cs h"
  unfolding index_ok_def by blast

lemmas known_parts = node_parts [OF index_node]

lemma node_prev:
  assumes "index_ok cs" "known cs h" "0 < b_height cs h"
  obtains p where "bi_prev (deref cs h) = Some p" "known cs p" "b_height cs p = b_height cs h - 1"
  using known_parts(3) [OF assms(1,2)] assms(3) by (cases "bi_prev (deref cs h)") auto

lemmas height_nonneg = known_parts(2)

lemma up_height:
  "index_ok cs \<Longrightarrow> known cs h \<Longrightarrow> int n \<le> b_height cs h \<Longrightarrow>
   \<exists>k. up cs n h = Some k \<and> known cs k \<and> b_height cs k = b_height cs h - int n"
proof (induction n arbitrary: h)
  case (Suc n)
  obtain p where p: "bi_prev (deref cs h) = Some p" "known cs p" "b_height cs p = b_height cs h - 1"
    using node_prev [OF Suc.prems(1,2)] Suc.prems(3) by auto
  from Suc.IH [OF Suc.prems(1) p(2)] p Suc.prems(3) show ?case by auto
qed simp

lemma up_add: "up cs (m + n) h = Option.bind (up cs m h) (up cs n)"
  by (induction m arbitrary: h) (auto split: option.splits)

lemma up_chain:
  assumes "chain_ok cs" "i < length (cs_chain cs)" "j \<le> i"
  shows "up cs j (cs_chain cs ! i) = Some (cs_chain cs ! (i - j))"
  using assms(2,3)
proof (induction j arbitrary: i)
  case (Suc j)
  then have "bi_prev (deref cs (cs_chain cs ! i)) = Some (cs_chain cs ! (i - 1))" using assms(1) by (simp add: chain_ok_def)
  with Suc.IH [of "i - 1"] Suc.prems show ?case by simp
qed simp

lemma active_height:
  assumes "in_active_chain cs b"
  shows "b_height cs b \<ge> 0" "nat (b_height cs b) < length (cs_chain cs)" "cs_chain cs ! nat (b_height cs b) = b"
  using assms by (auto simp: in_active_chain_def at_height_def split: if_splits)

section \<open>Ancestors\<close>

lemma ancestor_walk_correct:
  assumes "index_ok cs" "known cs b" "b_height cs b = hw" "0 \<le> h" "h \<le> hw"
  shows "ancestor_walk cs h b hw = up cs (nat (hw - h)) b"
  using assms
proof (induction cs h b hw rule: ancestor_walk.induct)
  case (1 cs h b hw)
  show ?case
  proof (cases "hw > h")
    case False
    with "1.prems" show ?thesis by (simp add: ancestor_walk.simps)
  next
    case True
    obtain p where p: "bi_prev (deref cs b) = Some p" "known cs p" "b_height cs p = hw - 1"
      using node_prev [OF "1.prems"(1,2)] True "1.prems"(3,4) by auto
    have step: "ancestor_walk cs h p (hw - 1) = up cs (nat (hw - h)) b"
      if "\<And>k. bi_skip (deref cs b) = Some k \<Longrightarrow> \<not> (skip_height hw = h \<or> (skip_height hw > h
          \<and> \<not> (skip_height (hw - 1) < skip_height hw - 2 \<and> skip_height (hw - 1) \<ge> h)))"
    proof -
      have "ancestor_walk cs h p (hw - 1) = up cs (nat (hw - 1 - h)) p"
      proof (cases "bi_skip (deref cs b)")
        case None
        show ?thesis using "1.IH"(1) [OF _ refl refl refl None p(1)] True p(2,3) "1.prems" by simp
      next
        case (Some k)
        show ?thesis using "1.IH"(3) [OF _ refl refl refl Some _ p(1)] that [OF Some] True p(2,3) "1.prems" by simp
      qed
      moreover have "nat (hw - h) = Suc (nat (hw - 1 - h))" using True by simp
      ultimately show ?thesis using p(1) by simp
    qed
    show ?thesis
    proof (cases "bi_skip (deref cs b)")
      case None
      then show ?thesis using step True p(1) "1.prems"(4) by (subst ancestor_walk.simps) (simp add: Let_def)
    next
      case (Some k)
      let ?hs = "skip_height hw"
      let ?c = "?hs = h \<or> (?hs > h \<and> \<not> (skip_height (hw - 1) < ?hs - 2 \<and> skip_height (hw - 1) \<ge> h))"
      have w: "ancestor_walk cs h b hw = (if ?c then ancestor_walk cs h k ?hs else ancestor_walk cs h p (hw - 1))"
        using Some True p(1) "1.prems"(4) by (subst ancestor_walk.simps) (auto simp: Let_def)
      show ?thesis
      proof (cases ?c)
        case False
        show ?thesis unfolding w if_not_P [OF False] by (rule step) (use False in blast)
      next
        case True': True
        have hs: "0 \<le> ?hs" "?hs < hw" using skip_height_bounds [of hw] True "1.prems"(4) by auto
        have k: "up cs (nat (hw - ?hs)) b = Some k"
          using known_parts(4) [OF "1.prems"(1,2) Some] unfolding "1.prems"(3) .
        moreover have "known cs k" "b_height cs k = ?hs"
          using up_height [OF "1.prems"(1,2), of "nat (hw - ?hs)"] k hs "1.prems"(3) by auto
        ultimately have "ancestor_walk cs h k ?hs = up cs (nat (?hs - h)) k"
          using "1.IH"(2) [OF _ refl refl refl Some True'] True True' "1.prems" by auto
        moreover have "nat (hw - h) = nat (hw - ?hs) + nat (?hs - h)" using True' hs by auto
        ultimately show ?thesis using w True' k by (simp add: up_add)
      qed
    qed
  qed
qed

lemma ancestor_correct:
  assumes "tree_ok cs" "known cs b" "0 \<le> h" "h \<le> b_height cs b"
  shows "ancestor cs b h = up cs (nat (b_height cs b - h)) b"
proof (cases "in_active_chain cs b")
  case True
  note a = active_height [OF True]
  have "nat (b_height cs b - h) \<le> nat (b_height cs b)" using assms(3) by simp
  from up_chain [OF _ a(2) this] assms a have "up cs (nat (b_height cs b - h)) b = Some (cs_chain cs ! (nat (b_height cs b) - nat (b_height cs b - h)))"
    by (simp add: tree_ok_def)
  moreover have "nat (b_height cs b) - nat (b_height cs b - h) = nat h" using assms(3,4) by simp
  ultimately show ?thesis using True assms(3,4) by (simp add: ancestor_def)
next
  case False
  then show ?thesis
    using ancestor_walk_correct [of cs b _ h] assms by (simp add: ancestor_def tree_ok_def)
qed

lemma ancestor_out_of_range: "h < 0 \<or> h > b_height cs b \<Longrightarrow> ancestor cs b h = None"
  by (auto simp: ancestor_def)

lemma ancestor_some:
  assumes "tree_ok cs" "known cs b" "0 \<le> h" "h \<le> b_height cs b"
  obtains k where "ancestor cs b h = Some k" "known cs k" "b_height cs k = h"
  using up_height [of cs b "nat (b_height cs b - h)"] ancestor_correct [OF assms] assms
  by (auto simp: tree_ok_def)

section \<open>Changes that leave the shape of the tree alone\<close>

text \<open>The fields the tree is made of.\<close>

definition shape :: "block_index \<Rightarrow> hash256 \<times> block_header \<times> int \<times> u256 \<times> hash256 option \<times> hash256 option \<times> u64 \<times> hash256 list" where
  "shape b = (bi_hash b, bi_header b, bi_height b, bi_chainwork b, bi_prev b, bi_skip b, bi_seq b, bi_children b)"

definition same_tree :: "chainstate \<Rightarrow> chainstate \<Rightarrow> bool" where
  "same_tree cs cs' \<longleftrightarrow> (\<forall>h. map_option shape (map_of (cs_index cs') h) = map_option shape (map_of (cs_index cs) h))
     \<and> (al_distinct (cs_index cs) \<longrightarrow> al_distinct (cs_index cs'))"

lemma same_tree_refl [simp]: "same_tree cs cs" "cs_index cs' = cs_index cs \<Longrightarrow> same_tree cs cs'"
  by (simp_all add: same_tree_def)

lemma same_tree_trans [trans]: "same_tree a b \<Longrightarrow> same_tree b c \<Longrightarrow> same_tree a c"
  by (simp add: same_tree_def)

lemma same_tree_deref:
  assumes "same_tree cs cs'"
  shows "known cs' h = known cs h" "shape (deref cs' h) = shape (deref cs h)"
proof -
  have e: "map_option shape (map_of (cs_index cs') h) = map_option shape (map_of (cs_index cs) h)"
    using assms by (simp add: same_tree_def)
  then show "known cs' h = known cs h" by (cases "map_of (cs_index cs') h"; cases "map_of (cs_index cs) h") (auto simp: known_def)
  from e show "shape (deref cs' h) = shape (deref cs h)"
    by (cases "map_of (cs_index cs') h"; cases "map_of (cs_index cs) h") (auto simp: deref_def)
qed

lemma same_tree_fields:
  assumes "same_tree cs cs'"
  shows "bi_hash (deref cs' h) = bi_hash (deref cs h)" "bi_header (deref cs' h) = bi_header (deref cs h)"
    "b_height cs' h = b_height cs h" "b_work cs' h = b_work cs h" "bi_prev (deref cs' h) = bi_prev (deref cs h)"
    "bi_skip (deref cs' h) = bi_skip (deref cs h)" "bi_seq (deref cs' h) = bi_seq (deref cs h)"
    "bi_children (deref cs' h) = bi_children (deref cs h)"
  using same_tree_deref(2) [OF assms, of h] by (simp_all add: shape_def)

lemma same_tree_up: "same_tree cs cs' \<Longrightarrow> up cs' n h = up cs n h"
  by (induction n arbitrary: h) (auto simp: same_tree_fields split: option.splits)

lemma same_tree_node_ok: "same_tree cs cs' \<Longrightarrow> node_ok cs' h = node_ok cs h"
  by (simp only: node_ok_def same_tree_deref(1) same_tree_fields same_tree_up cong: option.case_cong)

lemma same_tree_index_ok: "same_tree cs cs' \<Longrightarrow> index_ok cs \<Longrightarrow> index_ok cs'"
  unfolding index_ok_def by (simp only: same_tree_node_ok same_tree_deref(1)) (simp add: same_tree_def)

lemma same_tree_chain_ok: "same_tree cs cs' \<Longrightarrow> cs_chain cs' = cs_chain cs \<Longrightarrow> chain_ok cs \<Longrightarrow> chain_ok cs'"
  by (simp add: chain_ok_def same_tree_deref(1) same_tree_fields)

lemma same_tree_ok: "same_tree cs cs' \<Longrightarrow> cs_chain cs' = cs_chain cs \<Longrightarrow> tree_ok cs \<Longrightarrow> tree_ok cs'"
  using same_tree_index_ok same_tree_chain_ok by (auto simp: tree_ok_def)

lemma upd_index_same:
  "known cs h \<Longrightarrow> (\<And>b. shape (f b) = shape b) \<Longrightarrow> same_tree cs (upd_index h f cs)"
  by (auto simp: same_tree_def upd_index_def update_conv' known_def deref_def)

section \<open>Adding a header\<close>

lemma up_frame:
  assumes "index_ok cs" "known cs h" "\<And>g. known cs g \<Longrightarrow> bi_prev (deref cs' g) = bi_prev (deref cs g)"
    "int n \<le> b_height cs h"
  shows "up cs' n h = up cs n h"
  using assms(2,4)
proof (induction n arbitrary: h)
  case (Suc n)
  obtain p where p: "bi_prev (deref cs h) = Some p" "known cs p" "b_height cs p = b_height cs h - 1"
    using node_prev [OF assms(1) Suc.prems(1)] Suc.prems(2) by auto
  with Suc.IH [OF p(2)] Suc.prems assms(3) [OF Suc.prems(1)] show ?case by simp
qed simp

text \<open>The index after \<open>add_index\<close>: the new node, its parent with one child more, the others as before.\<close>

lemma add_index_nodes:
  fixes cr hdr cs
  defines "hash \<equiv> header_hash cr hdr"
  assumes new: "\<not> known cs hash" and par: "known cs (h_prev hdr)"
  defines "cs' \<equiv> fst (add_index cr hdr cs)" and "ht \<equiv> b_height cs (h_prev hdr) + 1"
  shows "known cs' g \<longleftrightarrow> g = hash \<or> known cs g"
    and "deref cs' hash = blank_index\<lparr>bi_hash := hash, bi_header := hdr, bi_prev := Some (h_prev hdr), bi_height := ht,
      bi_chainwork := u256_add (b_work cs (h_prev hdr)) (work_from_target (fst (from_compact (h_bits hdr)))),
      bi_seq := cs_next_seq cs, bi_skip := ancestor cs (h_prev hdr) (skip_height ht)\<rparr>"
    and "g \<noteq> hash \<Longrightarrow> deref cs' g = (if g = h_prev hdr then (deref cs g)\<lparr>bi_children := bi_children (deref cs g) @ [hash]\<rparr> else deref cs g)"
    and "cs_chain cs' = cs_chain cs" "cs_st cs' = cs_st cs" "al_distinct (cs_index cs) \<Longrightarrow> al_distinct (cs_index cs')"
    and "snd (add_index cr hdr cs) = hash"
proof -
  have l: "cs_lookup cs (h_prev hdr) = Some (h_prev hdr)" using par by (simp add: cs_lookup_iff)
  have ne: "h_prev hdr \<noteq> hash" using new par by auto
  let ?b = "blank_index\<lparr>bi_hash := hash, bi_header := hdr, bi_prev := Some (h_prev hdr), bi_height := ht,
      bi_chainwork := u256_add (b_work cs (h_prev hdr)) (work_from_target (fst (from_compact (h_bits hdr)))),
      bi_seq := cs_next_seq cs, bi_skip := ancestor cs (h_prev hdr) (skip_height ht)\<rparr>"
  let ?p = "(deref cs (h_prev hdr))\<lparr>bi_children := bi_children (deref cs (h_prev hdr)) @ [hash]\<rparr>"
  have i: "cs_index cs' = AList.update hash ?b (AList.update (h_prev hdr) ?p (cs_index cs))"
    by (simp add: cs'_def add_index_def l Let_def upd_index_def ht_def hash_def deref_def)
  show "known cs' g \<longleftrightarrow> g = hash \<or> known cs g" using par by (auto simp: known_def i update_conv')
  show "deref cs' hash = ?b" by (simp add: deref_def i update_conv')
  show "deref cs' g = (if g = h_prev hdr then (deref cs g)\<lparr>bi_children := bi_children (deref cs g) @ [hash]\<rparr> else deref cs g)" if "g \<noteq> hash"
    using that ne by (simp add: deref_def [of cs'] i update_conv') (simp add: deref_def)
  show "cs_chain cs' = cs_chain cs" "cs_st cs' = cs_st cs"
    by (simp_all add: cs'_def add_index_def l Let_def upd_index_def)
  show "al_distinct (cs_index cs')" if "al_distinct (cs_index cs)" using that by (simp add: i)
  show "snd (add_index cr hdr cs) = hash" by (simp add: add_index_def Let_def hash_def)
qed

lemma add_index_tree_ok:
  assumes ok: "tree_ok cs" and new: "\<not> known cs (header_hash cr hdr)" and par: "known cs (h_prev hdr)"
  shows "tree_ok (fst (add_index cr hdr cs))"
proof -
  define cs' where "cs' = fst (add_index cr hdr cs)"
  define hash where "hash = header_hash cr hdr"
  note n = add_index_nodes [OF new par, folded cs'_def hash_def]
  have iok: "index_ok cs" and cok: "chain_ok cs" using ok by (simp_all add: tree_ok_def)
  have ne: "g \<noteq> hash" if "known cs g" for g using that new by (auto simp: hash_def)
  have old: "bi_prev (deref cs' g) = bi_prev (deref cs g)" "b_height cs' g = b_height cs g"
    "bi_hash (deref cs' g) = bi_hash (deref cs g)" "bi_skip (deref cs' g) = bi_skip (deref cs g)" if "known cs g" for g
    using n(3) [OF ne [OF that]] by simp_all
  have up': "up cs' k g = up cs k g" if "known cs g" "int k \<le> b_height cs g" for k g
    using up_frame [OF iok that(1) _ that(2)] old(1) by blast
  have p0: "0 \<le> b_height cs (h_prev hdr)" using height_nonneg [OF iok par] .
  have "node_ok cs' g" if "known cs' g" for g
  proof (cases "g = hash")
    case True
    let ?ht = "b_height cs (h_prev hdr) + 1"
    have sk: "0 \<le> skip_height ?ht" "skip_height ?ht < ?ht" using skip_height_bounds [of ?ht] p0 by auto
    have "ancestor cs (h_prev hdr) (skip_height ?ht) = up cs (nat (b_height cs (h_prev hdr) - skip_height ?ht)) (h_prev hdr)"
      using ancestor_correct [OF ok par sk(1)] sk(2) by simp
    moreover have "up cs' (nat (b_height cs (h_prev hdr) - skip_height ?ht)) (h_prev hdr)
        = up cs (nat (b_height cs (h_prev hdr) - skip_height ?ht)) (h_prev hdr)"
      using up' [OF par] sk p0 by simp
    moreover have "nat (?ht - skip_height ?ht) = Suc (nat (b_height cs (h_prev hdr) - skip_height ?ht))" using sk by simp
    moreover have "bi_prev (deref cs' c) \<noteq> Some hash" if "known cs' c" for c
    proof (cases "c = hash")
      case True
      then show ?thesis using ne [OF par] by (simp add: n(2))
    next
      case False
      then have "known cs c" using that n(1) by simp
      from known_parts(3) [OF iok this] have "bi_prev (deref cs c) \<noteq> Some hash" using ne by (auto split: option.splits)
      then show ?thesis using old(1) [OF \<open>known cs c\<close>] by simp
    qed
    ultimately show ?thesis
      using True p0 par old(2) [OF par] n(1) unfolding node_ok_def
      by (intro conjI allI ballI impI) (simp_all add: n(2) blank_index_def)
  next
    case False
    then have k: "known cs g" using that n(1) by simp
    then have g: "node_ok cs g" by (rule index_node [OF iok])
    then have "\<forall>c\<in>set (bi_children (deref cs' g)). known cs' c \<and> bi_prev (deref cs' c) = Some g \<and> b_height cs' c = b_height cs' g + 1"
      using n(1) n(3) [OF False] old(1,2) k node_parts(5) [OF g] by (auto simp: n(2) split: if_splits)
    moreover have "c \<in> set (bi_children (deref cs' g))" if "known cs' c" "bi_prev (deref cs' c) = Some g" for c
      using that node_parts(6) [OF g] n(1) [of c] old(1) [of c] n(3) [OF False] by (auto simp: n(2))
    moreover have "int (nat (b_height cs g - skip_height (b_height cs g))) \<le> b_height cs g"
      using skip_height_bounds [of "b_height cs g"] node_parts(2) [OF g]
      by (cases "b_height cs g = 0") (auto simp: skip_height_def)
    moreover have "case bi_prev (deref cs' g) of None \<Rightarrow> b_height cs' g = 0
        | Some p \<Rightarrow> known cs' p \<and> b_height cs' g = b_height cs' p + 1"
      using node_parts(3) [OF g] old [OF k] old(2) n(1) by (auto split: option.splits)
    ultimately show ?thesis
      using node_parts(1,2,4) [OF g] old [OF k] up' [OF k] unfolding node_ok_def by simp
  qed
  then have "index_ok cs'" using n(6) iok unfolding index_ok_def by blast
  moreover have "chain_ok cs'"
    using cok n(1) old by (simp add: chain_ok_def n(4))
  ultimately show ?thesis by (simp add: tree_ok_def cs'_def)
qed

end
