(* ===== verification/Chain_Walk.thy ===== *)
theory Chain_Walk
  imports Chain_Tree
begin

text \<open>
  The loops over a subtree (\<open>mark_failed\<close>, \<open>update_chain_data\<close>). Both pop a node from a work list,
  change flags of it and may push its children. The locale states that contract; from it follows
  that the loop ends on every tree, and what it has visited when it ends.
\<close>

section \<open>Subtrees\<close>

definition desc :: "chainstate \<Rightarrow> hash256 \<Rightarrow> hash256 \<Rightarrow> bool" where
  "desc cs b d \<longleftrightarrow> known cs d \<and> (\<exists>n. int n \<le> b_height cs d \<and> up cs n d = Some b)"

lemma desc_refl: "index_ok cs \<Longrightarrow> known cs b \<Longrightarrow> desc cs b b"
  unfolding desc_def using height_nonneg [of cs b] by (intro conjI exI [of _ 0]) auto

text \<open>A proper descendant is below one of the children.\<close>

lemma up_last:
  "up cs (Suc n) d = Some b \<Longrightarrow> \<exists>c. up cs n d = Some c \<and> bi_prev (deref cs c) = Some b"
proof (induction n arbitrary: d)
  case (Suc n)
  from Suc.prems obtain p where "bi_prev (deref cs d) = Some p" "up cs (Suc n) p = Some b"
    by (auto split: option.splits)
  with Suc.IH [of p] show ?case by simp
qed (auto split: option.splits)

lemma desc_child:
  assumes "index_ok cs" "desc cs b d" "d \<noteq> b"
  obtains c where "c \<in> set (bi_children (deref cs b))" "desc cs c d"
proof -
  obtain n where n: "known cs d" "int n \<le> b_height cs d" "up cs n d = Some b" using assms(2) by (auto simp: desc_def)
  then obtain m where m: "n = Suc m" using assms(3) by (cases n) auto
  obtain c where c: "up cs m d = Some c" "bi_prev (deref cs c) = Some b" using up_last n(3) m by blast
  have k: "known cs c" using up_height [OF assms(1) n(1), of m] c(1) n(2) m by auto
  have "c \<in> set (bi_children (deref cs b))"
    using known_parts(3) [OF assms(1) k] c(2) known_parts(6) [OF assms(1) _ k c(2)] by simp
  moreover have "desc cs c d" using c(1) n m by (auto simp: desc_def intro!: exI [of _ m])
  ultimately show ?thesis by (rule that)
qed

text \<open>The weight of a node: one more than the weights of its children.\<close>

primrec wt :: "chainstate \<Rightarrow> nat \<Rightarrow> hash256 \<Rightarrow> nat" where
  "wt cs 0 h = 1"
| "wt cs (Suc n) h = 1 + (\<Sum>c\<leftarrow>bi_children (deref cs h). wt cs n c)"

lemma wt_pos: "0 < wt cs n h"
  by (cases n) simp_all

definition max_height :: "chainstate \<Rightarrow> int" where
  "max_height cs = Max (insert 0 ((\<lambda>h. b_height cs h) ` set (map fst (cs_index cs))))"

lemma height_le_max: "known cs h \<Longrightarrow> b_height cs h \<le> max_height cs"
  unfolding max_height_def known_def by (rule Max_ge) (auto simp: map_of_eq_None_iff)

definition weight :: "chainstate \<Rightarrow> hash256 \<Rightarrow> nat" where
  "weight cs h = wt cs (nat (max_height cs - b_height cs h)) h"

lemma weight_children:
  assumes "index_ok cs" "known cs h"
  shows "weight cs h = 1 + (\<Sum>c\<leftarrow>bi_children (deref cs h). weight cs c)"
proof -
  have ch: "known cs c \<and> b_height cs c = b_height cs h + 1" if "c \<in> set (bi_children (deref cs h))" for c
    using known_parts(5) [OF assms that] by blast
  show ?thesis
  proof (cases "bi_children (deref cs h)")
    case Nil
    then show ?thesis by (cases "nat (max_height cs - b_height cs h)") (simp_all add: weight_def)
  next
    case (Cons c0 cs0)
    have "b_height cs h + 1 \<le> max_height cs" using ch [of c0] height_le_max [of cs c0] Cons by simp
    then obtain n where n: "nat (max_height cs - b_height cs h) = Suc n" "nat (max_height cs - (b_height cs h + 1)) = n"
      by (metis Suc_nat_eq_nat_zadd1 add.commute diff_add_cancel diff_diff_eq diff_ge_0_iff_ge add_diff_eq)
    have "(\<Sum>c\<leftarrow>bi_children (deref cs h). wt cs n c) = (\<Sum>c\<leftarrow>bi_children (deref cs h). weight cs c)"
      using ch n(2) by (intro arg_cong [where f = sum_list] map_cong) (auto simp: weight_def)
    then show ?thesis by (simp add: weight_def [of cs h] n(1))
  qed
qed

section \<open>The contract of a subtree loop\<close>

locale subtree_loop =
  fixes step :: "hash256 list \<times> chainstate \<Rightarrow> hash256 list \<times> chainstate"
    and skips :: "chainstate \<Rightarrow> hash256 \<Rightarrow> bool"
    and mark :: "hash256 \<Rightarrow> chainstate \<Rightarrow> chainstate"
  assumes step_eq: "todo \<noteq> [] \<Longrightarrow> step (todo, cs) =
      (if skips cs (last todo) then (butlast todo, cs)
       else (butlast todo @ bi_children (deref cs (last todo)), mark (last todo) cs))"
    and mark_tree: "known cs x \<Longrightarrow> same_tree cs (mark x cs)"
begin

definition run :: "hash256 list \<Rightarrow> chainstate \<Rightarrow> (hash256 list \<times> chainstate) option" where
  "run todo cs = while_option (\<lambda>(todo, cs). todo \<noteq> []) step (todo, cs)"

text \<open>
  The loop ends, with an empty work list; a property \<open>Q\<close> of the state that every mark of a node
  keeps holds at the end.
\<close>

lemma run_ends:
  assumes "index_ok cs" "\<forall>h\<in>set todo. known cs h" "Q todo cs"
    and Q: "\<And>xs x s. same_tree cs s \<Longrightarrow> known s x \<Longrightarrow> \<forall>h\<in>set xs. known s h \<Longrightarrow> Q (xs @ [x]) s \<Longrightarrow>
      (skips s x \<longrightarrow> Q xs s) \<and> (\<not> skips s x \<longrightarrow> Q (xs @ bi_children (deref s x)) (mark x s))"
  obtains cs' where "run todo cs = Some ([], cs')" "same_tree cs cs'" "Q [] cs'"
proof -
  define P where "P = (\<lambda>(xs, s). same_tree cs s \<and> (\<forall>h\<in>set xs. known cs h) \<and> Q xs s)"
  define pot where "pot = (\<lambda>(xs :: hash256 list, s :: chainstate). \<Sum>h\<leftarrow>xs. weight cs h)"
  have step: "P (step st) \<and> pot (step st) < pot st" if p: "P st" and ne: "case st of (todo, cs) \<Rightarrow> todo \<noteq> []" for st
  proof -
    obtain ys s where ys: "st = (ys, s)" "ys \<noteq> []" using ne by (cases st) auto
    then obtain xs x where "ys = xs @ [x]" by (cases ys rule: rev_cases) auto
    then have st: "st = (xs @ [x], s)" using ys by simp
    have h: "same_tree cs s" "known cs x" "\<forall>h\<in>set xs. known cs h" "Q (xs @ [x]) s" using p by (auto simp: P_def st)
    have h': "known s x" "\<forall>h\<in>set xs. known s h" using h same_tree_deref(1) [OF h(1)] by auto
    note q = Q [OF h(1) h' h(4)]
    have w: "weight cs x = 1 + (\<Sum>c\<leftarrow>bi_children (deref s x). weight cs c)"
      using weight_children [OF assms(1) h(2)] same_tree_fields(8) [OF h(1), of x] by simp
    have ch: "\<forall>c\<in>set (bi_children (deref s x)). known cs c"
      using known_parts(5) [OF assms(1) h(2)] same_tree_fields(8) [OF h(1), of x] by simp
    have "same_tree cs (mark x s)" using same_tree_trans [OF h(1) mark_tree [OF h'(1)]] .
    then show ?thesis
      using h ch q w wt_pos [of cs _ x] by (auto simp: st step_eq P_def pot_def weight_def)
  qed
  have p0: "P (todo, cs)" using assms(2,3) by (simp add: P_def)
  obtain t where t: "run todo cs = Some t"
    unfolding run_def using measure_while_option_Some [where f = pot and P = P, OF step p0] by blast
  have "P t" using while_option_rule [where P = P, OF _ t [unfolded run_def] p0] step by blast
  moreover have "fst t = []" using while_option_stop [OF t [unfolded run_def]] by (cases t) simp
  ultimately show ?thesis using that t by (cases t) (auto simp: P_def)
qed

end

section \<open>Marking a block invalid\<close>

text \<open>The best header is a known block that has not failed, or the genesis, and none that has not failed has more work.\<close>

lemma pick_best_law:
  assumes "deref cs h = i"
  shows "u256_val (b_work cs g) \<le> u256_val (b_work cs (pick_best cs (h, i) g))"
    "\<not> bi_failed i \<Longrightarrow> u256_val (bi_chainwork i) \<le> u256_val (b_work cs (pick_best cs (h, i) g))"
    "pick_best cs (h, i) g = g \<or> (pick_best cs (h, i) g = h \<and> \<not> bi_failed i)"
  using assms by (auto simp: pick_best_def not_less)

lemma choose_best_fold:
  "\<forall>(h, i)\<in>set xs. deref cs h = i \<Longrightarrow>
    (fold (pick_best cs) xs g = g \<or> (fold (pick_best cs) xs g \<in> fst ` set xs \<and> \<not> bi_failed (deref cs (fold (pick_best cs) xs g))))
    \<and> u256_val (b_work cs g) \<le> u256_val (b_work cs (fold (pick_best cs) xs g))
    \<and> (\<forall>(h, i)\<in>set xs. \<not> bi_failed i \<longrightarrow> u256_val (bi_chainwork i) \<le> u256_val (b_work cs (fold (pick_best cs) xs g)))"
proof (induction xs arbitrary: g)
  case (Cons e xs)
  obtain h i where e: "e = (h, i)" by force
  have d: "deref cs h = i" using Cons.prems by (simp add: e)
  let ?g = "pick_best cs (h, i) g"
  note l = pick_best_law [OF d, of g]
  have "\<forall>(h, i)\<in>set xs. deref cs h = i" using Cons.prems by (simp add: e)
  from Cons.IH [OF this, of ?g] l d show ?case by (auto simp: e intro: le_trans)
qed simp

lemma choose_best_header_law:
  assumes "al_distinct (cs_index cs)"
  obtains r where "cs_best_header (choose_best_header cs) = Some r"
    "r = genesis_hash (cs_p cs) \<or> known cs r \<and> \<not> bi_failed (deref cs r)"
    "\<And>h. known cs h \<Longrightarrow> \<not> bi_failed (deref cs h) \<Longrightarrow> u256_val (b_work cs h) \<le> u256_val (b_work cs r)"
proof -
  have m: "map_of (cs_index cs) h = Some i" if "(h, i) \<in> set (cs_index cs)" for h i
    using assms that by (simp add: al_distinct_def)
  then have d: "\<forall>(h, i)\<in>set (cs_index cs). deref cs h = i" by (auto simp: deref_known)
  let ?r = "fold (pick_best cs) (cs_index cs) (genesis_hash (cs_p cs))"
  note l = choose_best_fold [OF d, of "genesis_hash (cs_p cs)"]
  show thesis
  proof (rule that)
    show "cs_best_header (choose_best_header cs) = Some ?r" by (simp add: choose_best_header_def)
    show "?r = genesis_hash (cs_p cs) \<or> known cs ?r \<and> \<not> bi_failed (deref cs ?r)"
      using l by (simp add: known_def map_of_eq_None_iff)
    fix h assume h: "known cs h" "\<not> bi_failed (deref cs h)"
    then obtain i where i: "map_of (cs_index cs) h = Some i" by (auto simp: known_def)
    have "\<forall>(h, i)\<in>set (cs_index cs). \<not> bi_failed i \<longrightarrow> u256_val (bi_chainwork i) \<le> u256_val (b_work cs ?r)" using l by blast
    from bspec [OF this map_of_SomeD [OF i]] show "u256_val (b_work cs h) \<le> u256_val (b_work cs ?r)"
      using h(2) deref_known [OF i] by simp
  qed
qed

lemma best_header_known:
  assumes "known cs (genesis_hash (cs_p cs))" "cs_best_header (choose_best_header cs) = Some r"
  shows "known cs r"
proof -
  have "fold (pick_best cs) xs g \<in> insert g (fst ` set xs)" for xs g
  proof (induction xs arbitrary: g)
    case (Cons e xs)
    show ?case using Cons.IH [of "pick_best cs e g"] by (auto simp: pick_best_def split: if_splits)
  qed simp
  from this [of "cs_index cs" "genesis_hash (cs_p cs)"] assms show ?thesis
    by (simp add: choose_best_header_def known_def map_of_eq_None_iff) metis
qed

text \<open>What the loop leaves alone.\<close>

definition same_rest :: "chainstate \<Rightarrow> chainstate \<Rightarrow> bool" where
  "same_rest cs cs' \<longleftrightarrow> cs_chain cs' = cs_chain cs \<and> cs_st cs' = cs_st cs \<and> cs_fs cs' = cs_fs cs
     \<and> cs_p cs' = cs_p cs \<and> cs_dir cs' = cs_dir cs \<and> cs_events cs' = cs_events cs"

lemma same_rest_refl [simp]: "same_rest cs cs"
  by (simp add: same_rest_def)

lemma same_rest_trans [trans]: "same_rest a b \<Longrightarrow> same_rest b c \<Longrightarrow> same_rest a c"
  by (simp add: same_rest_def)

definition mark_one :: "hash256 \<Rightarrow> chainstate \<Rightarrow> chainstate" where
  "mark_one x cs =
     (let cs = upd_index x (\<lambda>n. n\<lparr>bi_failed := True\<rparr>) cs
      in cs\<lparr>cs_candidates := cand_erase cs x (cs_candidates cs)\<rparr>)"

lemma mark_one_children: "bi_children (deref (mark_one x cs) x) = bi_children (deref cs x)"
  by (simp add: mark_one_def upd_index_def Let_def deref_def update_conv')

lemma mark_one_deref: "deref (mark_one x cs) h = (if h = x then (deref cs h)\<lparr>bi_failed := True\<rparr> else deref cs h)"
  by (simp add: mark_one_def upd_index_def Let_def deref_def update_conv')

lemma mark_one_rest: "same_rest cs (mark_one x cs)" "set (cs_candidates (mark_one x cs)) \<subseteq> set (cs_candidates cs)"
  by (auto simp: same_rest_def mark_one_def Let_def upd_index_def cand_erase_def)

interpretation fl: subtree_loop failed_step "\<lambda>_ _. False" mark_one
proof
  show "failed_step (todo, cs) = (if False then (butlast todo, cs)
      else (butlast todo @ bi_children (deref cs (last todo)), mark_one (last todo) cs))" for todo cs
    using mark_one_children [of "last todo" cs] by (simp add: Let_def mark_one_def)
  show "same_tree cs (mark_one x cs)" if "known cs x" for cs x
  proof -
    have "same_tree cs (upd_index x (\<lambda>n. n\<lparr>bi_failed := True\<rparr>) cs)"
      using that by (rule upd_index_same) (simp add: shape_def)
    then show ?thesis by (simp add: mark_one_def Let_def same_tree_def)
  qed
qed

lemma mark_failed_ends:
  assumes ok: "index_ok cs" and b: "known cs b"
  obtains cs' where "mark_failed b cs = Some cs'" "same_tree cs cs'" "same_rest cs cs'"
    "set (cs_candidates cs') \<subseteq> set (cs_candidates cs)"
    "\<And>d. desc cs b d \<Longrightarrow> bi_failed (deref cs' d)"
    "\<And>h. bi_failed (deref cs h) \<Longrightarrow> bi_failed (deref cs' h)"
    "cs_best_header cs' = cs_best_header (choose_best_header cs')"
proof -
  define Q where "Q = (\<lambda>xs s. same_rest cs s \<and> set (cs_candidates s) \<subseteq> set (cs_candidates cs)
    \<and> (\<forall>d. desc cs b d \<longrightarrow> bi_failed (deref s d) \<or> (\<exists>x\<in>set xs. desc cs x d))
    \<and> (\<forall>h. bi_failed (deref cs h) \<longrightarrow> bi_failed (deref s h)))"
  have q0: "Q [b] cs" by (simp add: Q_def)
  have step: "Q (xs @ bi_children (deref s x)) (mark_one x s)"
    if "same_tree cs s" "known s x" "Q (xs @ [x]) s" for xs x s
  proof -
    have ch: "bi_children (deref s x) = bi_children (deref cs x)" using same_tree_fields(8) [OF that(1)] .
    have "bi_failed (deref (mark_one x s) d) \<or> (\<exists>y\<in>set (xs @ bi_children (deref s x)). desc cs y d)"
      if d: "desc cs b d" for d
    proof (cases "bi_failed (deref s d) \<or> d = x")
      case True
      then show ?thesis by (auto simp: mark_one_deref)
    next
      case False
      then have "\<exists>y\<in>set (xs @ [x]). desc cs y d" using \<open>Q (xs @ [x]) s\<close> d unfolding Q_def by blast
      then obtain y where y: "y \<in> set (xs @ [x])" "desc cs y d" by blast
      show ?thesis
      proof (cases "y = x")
        case True
        with desc_child [OF ok, of x d] y(2) False ch show ?thesis by auto
      next
        case False
        then show ?thesis using y by auto
      qed
    qed
    then show ?thesis
      using that(3) mark_one_rest [where x = x and cs = s] same_rest_trans [of cs s] unfolding Q_def
      by (auto simp: mark_one_deref)
  qed
  obtain s where s: "fl.run [b] cs = Some ([], s)" "same_tree cs s" "Q [] s"
    by (rule fl.run_ends [of cs "[b]" Q]) (use ok b q0 step in auto)
  have m: "mark_failed b cs = Some (choose_best_header s)"
    using s(1) by (simp add: mark_failed_def fl.run_def)
  have d: "deref (choose_best_header s) h = deref s h" for h by (simp add: choose_best_header_def deref_def)
  have t: "same_tree cs (choose_best_header s)" using s(2) by (simp add: choose_best_header_def same_tree_def)
  have b: "cs_best_header (choose_best_header s) = cs_best_header (choose_best_header (choose_best_header s))"
    by (simp add: choose_best_header_def pick_best_def [abs_def] deref_def)
  show thesis
    by (rule that [OF m t]) (use s(3) d b in \<open>auto simp: Q_def same_rest_def choose_best_header_def\<close>)
qed

section \<open>Completing chains\<close>

definition chain_data_one :: "hash256 \<Rightarrow> chainstate \<Rightarrow> chainstate" where
  "chain_data_one x cs =
     (let n = deref cs x; cs = upd_index x (\<lambda>n. n\<lparr>bi_chain_data := True\<rparr>) cs
      in if \<not> bi_failed n then cs\<lparr>cs_candidates := cand_insert cs x (cs_candidates cs)\<rparr> else cs)"

lemma chain_data_one_deref:
  "deref (chain_data_one x cs) h = (if h = x then (deref cs h)\<lparr>bi_chain_data := True\<rparr> else deref cs h)"
  by (simp add: chain_data_one_def upd_index_def Let_def deref_def update_conv')

lemma set_cand_insert: "set (cand_insert cs x ys) \<subseteq> insert x (set ys)"
  by (induction ys) auto

lemma chain_data_one_rest:
  "same_rest cs (chain_data_one x cs)" "cs_best_header (chain_data_one x cs) = cs_best_header cs"
  "set (cs_candidates (chain_data_one x cs)) \<subseteq> insert x (set (cs_candidates cs))"
  using set_cand_insert by (auto simp: same_rest_def chain_data_one_def Let_def upd_index_def)

interpretation cd: subtree_loop chain_data_step "\<lambda>cs x. \<not> bi_have_data (deref cs x) \<or> bi_chain_data (deref cs x)" chain_data_one
proof
  show "chain_data_step (todo, cs) =
      (if \<not> bi_have_data (deref cs (last todo)) \<or> bi_chain_data (deref cs (last todo)) then (butlast todo, cs)
       else (butlast todo @ bi_children (deref cs (last todo)), chain_data_one (last todo) cs))" for todo cs
    by (simp add: Let_def chain_data_one_def)
  show "same_tree cs (chain_data_one x cs)" if "known cs x" for cs x
  proof -
    have "same_tree cs (upd_index x (\<lambda>n. n\<lparr>bi_chain_data := True\<rparr>) cs)"
      using that by (rule upd_index_same) (simp add: shape_def)
    then show ?thesis by (simp add: chain_data_one_def Let_def same_tree_def)
  qed
qed

text \<open>
  \<open>chain_data\<close> is only set where the block and all its ancestors have data, down to the genesis or to
  the block the node was bootstrapped from.
\<close>

definition chain_data_ok :: "chainstate \<Rightarrow> bool" where
  "chain_data_ok cs \<longleftrightarrow> (\<forall>h. known cs h \<longrightarrow> bi_chain_data (deref cs h) \<longrightarrow>
     bi_from_snapshot (deref cs h) \<or> (bi_have_data (deref cs h)
       \<and> (case bi_prev (deref cs h) of None \<Rightarrow> True | Some p \<Rightarrow> bi_chain_data (deref cs p))))"

lemma chain_data_one_ok:
  assumes "chain_data_ok cs" "bi_have_data (deref cs x)"
    "case bi_prev (deref cs x) of None \<Rightarrow> True | Some p \<Rightarrow> bi_chain_data (deref cs p)" "known cs x"
  shows "chain_data_ok (chain_data_one x cs)"
proof -
  have kn: "known (chain_data_one x cs) h = known cs h" for h
    using same_tree_deref(1) [OF cd.mark_tree [OF assms(4)]] .
  show ?thesis
    using assms(1-3) by (auto simp: chain_data_ok_def kn chain_data_one_deref split: option.splits)
qed

lemma update_chain_data_ends:
  assumes ok: "index_ok cs" "known cs b"
  obtains cs' where "update_chain_data b cs = Some cs'" "same_tree cs cs'" "same_rest cs cs'"
    "\<forall>c\<in>set (cs_candidates cs'). c \<in> set (cs_candidates cs) \<or> known cs c" "cs_best_header cs' = cs_best_header cs"
    "chain_data_ok cs \<Longrightarrow> chain_data_ok cs'"
proof (cases "\<not> bi_have_data (deref cs b)
    \<or> (case bi_prev (deref cs b) of None \<Rightarrow> False | Some p \<Rightarrow> \<not> bi_chain_data (deref cs p))")
  case True
  then have "update_chain_data b cs = Some cs" by (simp add: update_chain_data_def)
  then show ?thesis by (rule that) auto
next
  case False
  define Q where "Q = (\<lambda>xs s. same_rest cs s \<and> cs_best_header s = cs_best_header cs
    \<and> (\<forall>c\<in>set (cs_candidates s). c \<in> set (cs_candidates cs) \<or> known cs c)
    \<and> (\<forall>x\<in>set xs. case bi_prev (deref s x) of None \<Rightarrow> True | Some p \<Rightarrow> bi_chain_data (deref s p))
    \<and> (chain_data_ok cs \<longrightarrow> chain_data_ok s))"
  have q0: "Q [b] cs" using False by (auto simp: Q_def split: option.splits)
  have step: "Q (xs @ bi_children (deref s x)) (chain_data_one x s)"
    if t: "same_tree cs s" "known s x" "Q (xs @ [x]) s" and hd: "bi_have_data (deref s x)" for xs x s
  proof -
    have q: "same_rest cs s" "cs_best_header s = cs_best_header cs"
      "\<forall>c\<in>set (cs_candidates s). c \<in> set (cs_candidates cs) \<or> known cs c"
      "\<forall>y\<in>set (xs @ [x]). case bi_prev (deref s y) of None \<Rightarrow> True | Some p \<Rightarrow> bi_chain_data (deref s p)"
      "chain_data_ok cs \<longrightarrow> chain_data_ok s"
      using t(3) by (simp_all add: Q_def)
    have ok': "index_ok s" using same_tree_index_ok [OF t(1) ok(1)] .
    have "case bi_prev (deref s x) of None \<Rightarrow> True | Some p \<Rightarrow> bi_chain_data (deref s p)" using q(4) by simp
    then have "chain_data_ok cs \<longrightarrow> chain_data_ok (chain_data_one x s)"
      using chain_data_one_ok [of s x] hd t(2) q(5) by blast
    moreover have "case bi_prev (deref (chain_data_one x s) y) of None \<Rightarrow> True
        | Some p \<Rightarrow> bi_chain_data (deref (chain_data_one x s) p)" if "y \<in> set (xs @ bi_children (deref s x))" for y
      using that q(4) known_parts(5) [OF ok' t(2), of y] by (auto simp: chain_data_one_deref split: option.splits)
    moreover have "known cs x" using t(2) same_tree_deref(1) [OF t(1)] by simp
    ultimately show ?thesis
      using q(1-3) chain_data_one_rest [where x = x and cs = s] same_rest_trans [of cs s]
      unfolding Q_def by auto
  qed
  obtain s where s: "cd.run [b] cs = Some ([], s)" "same_tree cs s" "Q [] s"
  proof (rule cd.run_ends [of cs "[b]" Q])
    fix xs x s
    assume a: "same_tree cs s" "known s x" "Q (xs @ [x]) s"
    have "Q xs s" using a(3) by (simp add: Q_def)
    then show "(\<not> bi_have_data (deref s x) \<or> bi_chain_data (deref s x) \<longrightarrow> Q xs s) \<and>
      (\<not> (\<not> bi_have_data (deref s x) \<or> bi_chain_data (deref s x)) \<longrightarrow> Q (xs @ bi_children (deref s x)) (chain_data_one x s))"
      using step [OF a] by blast
  qed (use ok q0 in auto)
  have "update_chain_data b cs = Some s" using s(1) False by (simp add: update_chain_data_def cd.run_def)
  then show ?thesis by (rule that [OF _ s(2)]) (use s(3) in \<open>auto simp: Q_def\<close>)
qed

end
