(* ===== verification/Chain_Activate.thy ===== *)
theory Chain_Activate
  imports Chain_Ops
begin

text \<open>
  Choosing and activating the chain of most work, accepting blocks, start-up and bootstrapping from a
  snapshot (\<open>src/src/chain/chainstate.cpp\<close>). \<open>None\<close> stands for a loop over the tree that does not
  return; on a well-formed tree there is none.
\<close>

section \<open>Activation\<close>

text \<open>\<open>while (tip() != fork) disconnect_tip\<close>; the flag is \<open>ok\<close>. The chain gets shorter each time.\<close>

lemma length_write_chain [simp]: "cs_chain (fst (write_cs path data cs)) = cs_chain cs"
  by (simp add: write_cs_def split: prod.splits)

lemma index_block_txs_chain [simp]: "cs_chain (index_block_txs cr b idx add cs) = cs_chain cs"
  unfolding index_block_txs_def by (rule fold_invariant [where Q = "\<lambda>_. True"]) simp_all

lemma disconnect_tip_chain:
  "disconnect_tip cr cs = (cs', Inr u) \<Longrightarrow> cs_chain cs' = butlast (cs_chain cs)"
  by (auto simp: disconnect_tip_def Let_def split: if_splits option.splits)

function disconnect_to :: "crypto \<Rightarrow> hash256 \<Rightarrow> chainstate \<Rightarrow> chainstate \<times> bool" where
  "disconnect_to cr fork cs =
     (if cs_chain cs = [] \<or> the_tip cs = fork then (cs, True)
      else (case disconnect_tip cr cs of
              (cs', Inl why) \<Rightarrow> (cs', False)
            | (cs', Inr _) \<Rightarrow> disconnect_to cr fork cs'))"
  by pat_completeness auto
termination
  by (relation "measure (\<lambda>(cr, fork, cs). length (cs_chain cs))")
    (auto dest!: disconnect_tip_chain [OF sym])

declare disconnect_to.simps [simp del]

text \<open>The blocks from the fork up to the candidate.\<close>

definition path_to :: "chainstate \<Rightarrow> hash256 \<Rightarrow> hash256 \<Rightarrow> hash256 list" where
  "path_to cs fork cand = rev (walk_back cs (\<lambda>w. w = fork) (rounds cs cand) cand)"

text \<open>Connect a path; the flag is \<open>stalled\<close>.\<close>

primrec connect_path :: "crypto \<Rightarrow> hash256 list \<Rightarrow> chainstate \<Rightarrow> (chainstate \<times> bool) option" where
  "connect_path cr [] cs = Some (cs, False)"
| "connect_path cr (b # bs) cs =
     (case connect_block cr b cs of
        (cs, Inl why) \<Rightarrow>
          if why = ''missing-witness'' \<or> why = ''read-failed'' then Some (cs, True)
          else map_option (\<lambda>cs. (cs, False)) (mark_failed b cs)
      | (cs, Inr _) \<Rightarrow>
          (let cs = cs\<lparr>cs_blocks_since_flush := cs_blocks_since_flush cs + 1\<rparr>;
               cs = (if cs_blocks_since_flush cs \<ge> (if is_initial_sync cs then 5000 else 100) then flush cr cs else cs)
           in connect_path cr bs cs))"

text \<open>\<open>for (int guard = 0; guard < 1000000; guard++)\<close>\<close>

function activate_loop :: "crypto \<Rightarrow> nat \<Rightarrow> chainstate \<Rightarrow> chainstate option" where
  "activate_loop cr guard cs =
     (if guard \<ge> 1000000 then Some cs
      else
        (let cand = best_candidate cs in
         if cand = the_tip cs \<or> u256_le (b_work cs cand) (b_work cs (the_tip cs)) then Some cs
         else (case fork_point cs cand of
                 None \<Rightarrow> Some cs
               | Some fork \<Rightarrow>
                   (case disconnect_to cr fork cs of
                      (cs, False) \<Rightarrow> Some cs
                    | (cs, True) \<Rightarrow>
                        (case connect_path cr (path_to cs fork cand) cs of
                           None \<Rightarrow> None
                         | Some (cs, stalled) \<Rightarrow> if stalled then Some cs else activate_loop cr (guard + 1) cs)))))"
  by pat_completeness auto
termination
  by (relation "measure (\<lambda>(cr, guard, cs). 1000000 - guard)") auto

declare activate_loop.simps [simp del]

definition activate_best_chain :: "crypto \<Rightarrow> chainstate \<Rightarrow> chainstate option" where
  "activate_best_chain cr cs0 =
     (let start = the_tip cs0 in
      map_option (\<lambda>cs.
        let cs = cs\<lparr>cs_candidates := dropWhile (\<lambda>c. u256_lt (b_work cs c) (b_work cs (the_tip cs))) (cs_candidates cs)\<rparr>
        in if the_tip cs \<noteq> start then cs\<lparr>cs_events := cs_events cs @ [EvTip (the_tip cs)]\<rparr> else cs)
      (activate_loop cr 0 cs0))"

section \<open>Blocks\<close>

primrec check_block_txs :: "crypto \<Rightarrow> bool \<Rightarrow> hash256 list \<Rightarrow> transaction list \<Rightarrow> unit result" where
  "check_block_txs cr has_witness ids [] = Inr ()"
| "check_block_txs cr has_witness ids (t # ts) =
     (case check_tx_basic t has_witness of
        Inl reason \<Rightarrow> Inl (tx_failure cr t reason)
      | Inr _ \<Rightarrow>
          if txid cr t \<in> set ids then Inl ''duplicate-tx''
          else check_block_txs cr has_witness (txid cr t # ids) ts)"

text \<open>
  The checks of a new block between its header and its storage. A block without witness is marked
  \<open>no_witness_ok\<close> before the last checks, so the first half is separate.
\<close>

definition check_block_shape :: "crypto \<Rightarrow> chainstate \<Rightarrow> hash256 \<Rightarrow> block \<Rightarrow> bool \<Rightarrow> unit result" where
  "check_block_shape cr cs idx b has_witness =
     rbind (fail_if (txs b = [] \<or> \<not> is_coinbase (hd (txs b))) ''no-coinbase'') (\<lambda>_.
     rbind (fail_if (list_ex is_coinbase (tl (txs b))) ''extra-coinbase'') (\<lambda>_.
     rbind (fail_if (compute_merkle_root cr b \<noteq> merkle_root_f (header b)) ''bad-merkle-root'') (\<lambda>_.
     if has_witness then
       rbind (fail_if (compute_witness_root cr b \<noteq> witness_root_f (header b)) ''bad-witness-root'') (\<lambda>_.
       fail_if (length (block_full_bytes b) > MAX_BLOCK_SIZE) ''block-too-big'')
     else
       rbind (fail_if (length (block_core_bytes b) > MAX_BLOCK_SIZE) ''block-too-big'') (\<lambda>_.
       fail_if (case cs_best_header cs of None \<Rightarrow> True | Some bh \<Rightarrow> b_height cs idx + PRUNE_DEPTH > b_height cs bh)
         ''witness-required''))))"

definition check_block_body :: "crypto \<Rightarrow> chainstate \<Rightarrow> hash256 \<Rightarrow> block \<Rightarrow> bool \<Rightarrow> unit result" where
  "check_block_body cr cs idx b has_witness =
     rbind (fail_if (lock_height (hd (txs b)) \<noteq> word_of_int (b_height cs idx)) ''bad-coinbase-height'') (\<lambda>_.
     check_block_txs cr has_witness [] (txs b))"

text \<open>The last component is \<open>is_new\<close>.\<close>

definition accept_block :: "crypto \<Rightarrow> block \<Rightarrow> bool \<Rightarrow> chainstate \<Rightarrow> (chainstate \<times> unit result \<times> bool) option" where
  "accept_block cr b has_witness cs =
     (case accept_header cr (header b) cs of
        (cs, HInvalid, why, _) \<Rightarrow> Some (cs, Inl why, False)
      | (cs, HOrphan, why, _) \<Rightarrow> Some (cs, Inl why, False)
      | (cs, _, _, None) \<Rightarrow> Some (cs, Inl ''null'', False)
      | (cs, _, _, Some idx) \<Rightarrow>
          if bi_have_data (deref cs idx) then
            (if has_witness \<and> \<not> have_witness cs idx \<and> \<not> in_active_chain cs idx
                \<and> compute_witness_root cr b = witness_root_f (header b)
             then map_option (\<lambda>cs. (cs, Inr (), False))
                    (activate_best_chain cr (fst (write_cs (witness_path cs (bi_hash (deref cs idx))) (block_witness_bytes b) cs)))
             else Some (cs, Inr (), False))
          else
            (case check_block_shape cr cs idx b has_witness of
               Inl why \<Rightarrow> Some (cs, Inl why, False)
             | Inr _ \<Rightarrow>
                 (let cs = (if has_witness then cs else upd_index idx (\<lambda>n. n\<lparr>bi_no_witness_ok := True\<rparr>) cs)
                  in case check_block_body cr cs idx b has_witness of
                       Inl why \<Rightarrow> Some (cs, Inl why, False)
                     | Inr _ \<Rightarrow>
                         (case store_block idx b has_witness cs of
                            (cs, False) \<Rightarrow> Some (cs, Inl ''disk-write-failed'', False)
                          | (cs, True) \<Rightarrow>
                              Option.bind (update_chain_data idx cs) (\<lambda>cs.
                              map_option (\<lambda>cs. (cs, Inr (), True)) (activate_best_chain cr cs))))))"

section \<open>Bootstrapping from a snapshot\<close>

primrec update_all :: "hash256 list \<Rightarrow> chainstate \<Rightarrow> chainstate option" where
  "update_all [] cs = Some cs"
| "update_all (c # ch) cs = Option.bind (update_chain_data c cs) (update_all ch)"

text \<open>The chain that ends in a block: its ancestors in order of height.\<close>

definition chain_to :: "chainstate \<Rightarrow> hash256 \<Rightarrow> hash256 list" where
  "chain_to cs b = rev (walk_back cs (\<lambda>_. False) (rounds cs b) b)"

text \<open>The block a snapshot names, when the headers of the best chain commit to its hash.\<close>

definition check_snapshot :: "crypto \<Rightarrow> bytes \<Rightarrow> chainstate \<Rightarrow> hash256 result" where
  "check_snapshot cr snap cs =
     rbind (fail_if (cs_height cs > 0) ''node-not-fresh'') (\<lambda>_.
     rbind (fail_if (length snap < 4 + 32 + 1) ''short'') (\<lambda>_.
     rbind (r_u32le snap) (\<lambda>(m, r).
     rbind (fail_if (m \<noteq> STATE_MAGIC) ''bad-magic'') (\<lambda>_.
     rbind (r_hash r) (\<lambda>(bh, r).
     case cs_lookup cs bh of
       None \<Rightarrow> Inl ''unknown-block''
     | Some b \<Rightarrow>
         (case committed_hash_for cs (Some b) of
            None \<Rightarrow> Inl ''no-commitment-in-best-chain''
          | Some c \<Rightarrow> if c \<noteq> state_hash cr snap then Inl ''hash-mismatch'' else Inr b))))))"

definition load_snapshot_bytes :: "crypto \<Rightarrow> bytes \<Rightarrow> chainstate \<Rightarrow> (chainstate \<times> unit result) option" where
  "load_snapshot_bytes cr snap cs =
     (case check_snapshot cr snap cs of
        Inl why \<Rightarrow> Some (cs, Inl why)
      | Inr b \<Rightarrow>
          (case parse_state snap of
             (st, res) \<Rightarrow>
               if (case res of None \<Rightarrow> True | Some (got, h) \<Rightarrow> h \<noteq> b_height cs b)
               then Some (cs\<lparr>cs_st := clear_state\<rparr>, Inl ''parse-failed'')
               else
                 (case write_cs (snapshot_path cs b) snap (cs\<lparr>cs_st := st\<rparr>) of
                    (cs, False) \<Rightarrow> Some (cs, Inl ''disk-write-failed'')
                  | (cs, True) \<Rightarrow>
                      (let cs = cs\<lparr>cs_snapshot_hash := AList.update b (state_hash cr snap) (cs_snapshot_hash cs)\<rparr>
                       in case write_cs (cs_dir cs @ ''/base.dat'') (hash_bytes b) cs of
                            (cs, False) \<Rightarrow> Some (cs, Inl ''disk-write-failed'')
                          | (cs, True) \<Rightarrow>
                              (let cs = upd_index b (\<lambda>n. n\<lparr>bi_from_snapshot := True\<rparr>) cs;
                                   cs = cs\<lparr>cs_snapshot_base := b_height cs b, cs_chain := chain_to cs b, cs_txindex := []\<rparr>;
                                   cs = upd_index b (\<lambda>n. n\<lparr>bi_chain_data := True\<rparr>) cs;
                                   cs = cs\<lparr>cs_candidates := cand_insert cs b (cs_candidates cs)\<rparr>
                               in Option.bind (update_all (bi_children (deref cs b)) cs) (\<lambda>cs.
                                  map_option (\<lambda>cs. (cs, Inr ())) (activate_best_chain cr (flush cr cs))))))))"

section \<open>Start-up\<close>

text \<open>The records of \<open>headers.dat\<close>, whole ones only, from the first on.\<close>

primrec chunks :: "nat \<Rightarrow> nat \<Rightarrow> bytes \<Rightarrow> bytes list" where
  "chunks sz 0 b = []"
| "chunks sz (Suc n) b = take sz b # chunks sz n (drop sz b)"

definition add_if_new :: "crypto \<Rightarrow> block_header \<Rightarrow> chainstate \<Rightarrow> chainstate" where
  "add_if_new cr h cs = (if cs_lookup cs (header_hash cr h) = None then fst (add_index cr h cs) else cs)"

primrec load_headers :: "crypto \<Rightarrow> bool \<Rightarrow> bytes list \<Rightarrow> chainstate \<Rightarrow> chainstate result" where
  "load_headers cr first [] cs = Inr cs"
| "load_headers cr first (rec # recs) cs =
     rbind (read_header rec) (\<lambda>(h, _).
     if first then
       if header_hash cr h \<noteq> genesis_hash (cs_p cs) then Inl ''headers.dat belongs to a different network/genesis''
       else load_headers cr False recs (add_if_new cr h cs)
     else if cs_lookup cs (h_prev h) = None then load_headers cr False recs cs
     else load_headers cr False recs (add_if_new cr h cs))"

definition load_position :: "nat \<Rightarrow> bytes \<Rightarrow> chainstate \<Rightarrow> chainstate" where
  "load_position blocks_size rec cs =
     (case rbind (r_hash rec) (\<lambda>(h, r). rbind (r_u64le r) (\<lambda>(pos, r). rbind (r_u32le r) (\<lambda>(len, _). Inr (h, pos, len)))) of
        Inl e \<Rightarrow> cs
      | Inr (h, pos, len) \<Rightarrow>
          if pos + ucast len > of_nat blocks_size then cs
          else (case cs_lookup cs h of
                  None \<Rightarrow> cs
                | Some b \<Rightarrow> upd_index b (\<lambda>n. n\<lparr>bi_have_data := True, bi_data_pos := pos, bi_data_len := len\<rparr>) cs))"

text \<open>One round of the loop that sets \<open>chain_data\<close> in the order of height.\<close>

definition set_chain_data :: "hash256 \<Rightarrow> chainstate \<Rightarrow> chainstate" where
  "set_chain_data b cs =
     (let n = deref cs b;
          cd = (bi_from_snapshot n \<or> (bi_have_data n
                 \<and> (case bi_prev n of None \<Rightarrow> True | Some p \<Rightarrow> bi_chain_data (deref cs p))));
          cs = upd_index b (\<lambda>n. n\<lparr>bi_chain_data := cd\<rparr>) cs
      in if cd then cs\<lparr>cs_candidates := cand_insert cs b (cs_candidates cs)\<rparr> else cs)"

definition load_tip_state :: "crypto \<Rightarrow> chainstate \<Rightarrow> chainstate result" where
  "load_tip_state cr cs =
     (let cs = cs\<lparr>cs_chain := [genesis_hash (cs_p cs)]\<rparr>;
          rebuild = (\<lambda>why cs. if cs_snapshot_base cs \<noteq> 0
            then Inl (''utxo.dat '' @ why @ '' on a snapshot-bootstrapped node; delete the data directory to resync'')
            else Inr cs)
      in case read_file (cs_fs cs) (cs_dir cs @ ''/utxo.dat'') of
           None \<Rightarrow> rebuild ''missing'' cs
         | Some sb \<Rightarrow>
             if length sb < 40 then rebuild ''missing'' cs
             else
               (let body = take (length sb - 32) sb;
                    ok = (hash_bytes (blake3 cr body) = drop (length sb - 32) sb);
                    (st, res) = (if ok then parse_state body else (cs_st cs, None));
                    cs = cs\<lparr>cs_st := st\<rparr>
                in case res of
                     None \<Rightarrow> rebuild ''unusable'' (cs\<lparr>cs_st := clear_state\<rparr>)
                   | Some (tiph, th) \<Rightarrow>
                       (case cs_lookup cs tiph of
                          None \<Rightarrow> rebuild ''unusable'' (cs\<lparr>cs_st := clear_state\<rparr>)
                        | Some t \<Rightarrow>
                            if \<not> bi_chain_data (deref cs t) \<or> b_height cs t \<noteq> th
                            then rebuild ''unusable'' (cs\<lparr>cs_st := clear_state\<rparr>)
                            else Inr (cs\<lparr>cs_chain := chain_to cs t\<rparr>))))"

definition index_chain :: "crypto \<Rightarrow> chainstate \<Rightarrow> chainstate" where
  "index_chain cr cs =
     fold (\<lambda>b cs. if bi_have_data (deref cs b)
                  then (case read_block cr cs b False of None \<Rightarrow> cs | Some (blk, _) \<Rightarrow> index_block_txs cr blk b True cs)
                  else cs) (cs_chain cs) cs"

text \<open>Files that cannot be opened for appending are those that cannot be written.\<close>

definition cs_load :: "crypto \<Rightarrow> chainstate \<Rightarrow> (chainstate result) option" where
  "cs_load cr cs =
     (let hpath = cs_dir cs @ ''/headers.dat'';
          hb = (case read_file (cs_fs cs) hpath of None \<Rightarrow> [] | Some b \<Rightarrow> b);
          nh = length hb div HEADER_SIZE;
          hb' = take (nh * HEADER_SIZE) hb;
          cs = (if length hb mod HEADER_SIZE \<noteq> 0 then fst (write_cs hpath hb' cs) else cs)
      in if \<not> fs_ok (cs_fs cs) hpath then Some (Inl (''cannot open headers.dat in '' @ cs_dir cs))
         else
           (case load_headers cr True (chunks HEADER_SIZE nh hb') cs of
              Inl e \<Rightarrow> Some (Inl e)
            | Inr cs \<Rightarrow>
                (let g = header (genesis (cs_p cs));
                     cs = (if cs_index cs = [] then fst (append_cs hpath (write_header g) (fst (add_index cr g cs))) else cs);
                     bpath = cs_dir cs @ ''/blocks.dat''; ppath = cs_dir cs @ ''/blockpos.dat''
                 in if \<not> fs_ok (cs_fs cs) bpath \<or> \<not> fs_ok (cs_fs cs) ppath then Some (Inl ''cannot open blocks.dat'')
                    else
                      (let pb = (case read_file (cs_fs cs) ppath of None \<Rightarrow> [] | Some b \<Rightarrow> b);
                           cs = fold (load_position (file_size (cs_fs cs) bpath)) (chunks 44 (length pb div 44) pb) cs;
                           gh = genesis_hash (cs_p cs);
                           cs = (if \<not> bi_have_data (deref cs gh) then fst (store_block gh (genesis (cs_p cs)) True cs) else cs);
                           cs = (case read_file (cs_fs cs) (cs_dir cs @ ''/base.dat'') of
                                   None \<Rightarrow> cs
                                 | Some base \<Rightarrow>
                                     if length base = 32 \<and> cs_lookup cs (hash_of base) \<noteq> None
                                     then (upd_index (hash_of base) (\<lambda>n. n\<lparr>bi_from_snapshot := True\<rparr>) cs)
                                            \<lparr>cs_snapshot_base := b_height cs (hash_of base)\<rparr>
                                     else cs);
                           cs = fold set_chain_data (sort_key (b_height cs) (map fst (cs_index cs))) cs;
                           cs = scan_snapshots cr cs
                       in case load_tip_state cr cs of
                            Inl e \<Rightarrow> Some (Inl e)
                          | Inr cs \<Rightarrow> map_option Inr (activate_best_chain cr (index_chain cr cs))))))"

section \<open>Statistics\<close>

record chain_stats =
  st_height :: int
  st_header_height :: int
  st_tip :: hash256
  st_utxo_count :: nat
  st_supply :: amount
  st_issued :: amount
  st_tokens :: nat
  st_pools :: nat
  st_disk_blocks :: nat
  st_disk_headers :: nat
  st_disk_witness :: nat
  st_disk_snapshots :: nat
  st_next_bits :: u32

definition stats :: "chainstate \<Rightarrow> chain_stats \<times> chainstate" where
  "stats cs =
     (let (iss, em) = issued_through (word_of_int (cs_height cs)) (cs_em cs)
      in (\<lparr>st_height = cs_height cs,
           st_header_height = (case cs_best_header cs of None \<Rightarrow> 0 | Some bh \<Rightarrow> b_height cs bh),
           st_tip = bi_hash (deref cs (the_tip cs)), st_utxo_count = length (us_utxo (cs_st cs)),
           st_supply = us_supply (cs_st cs), st_issued = iss,
           st_tokens = length (us_tokens (cs_st cs)), st_pools = length (us_pools (cs_st cs)),
           st_disk_blocks = file_size (cs_fs cs) (cs_dir cs @ ''/blocks.dat''),
           st_disk_headers = file_size (cs_fs cs) (cs_dir cs @ ''/headers.dat''),
           st_disk_witness = (\<Sum>(n, b)\<leftarrow>dir_files (cs_fs cs) (cs_dir cs @ ''/witness/''). length b),
           st_disk_snapshots = (\<Sum>(n, b)\<leftarrow>dir_files (cs_fs cs) (cs_dir cs @ ''/snapshots/''). length b),
           st_next_bits = next_bits_for cs (the_tip cs)\<rparr>, cs\<lparr>cs_em := em\<rparr>))"

end
