(* ===== verification/View_Commit.thy ===== *)
theory View_Commit
  imports Chain_Ops
begin

text \<open>
  What connecting a block does to the state, and that disconnecting takes it back. An overlay over
  the state is well formed when its records of the base are right; applying transactions keeps it so.
  Committing such an overlay gives the state the overlay presents, and \<open>undo_block\<close> with the undo
  record written for it gives back the coins, tokens and pools there were.
\<close>

section \<open>Well-formed overlays\<close>

definition coins_wf :: "reader_state \<Rightarrow> view \<Rightarrow> bool" where
  "coins_wf base v \<longleftrightarrow> (\<forall>p c. map_of (spent_base v) p = Some c \<longrightarrow> rd_coin base p = Some c)
     \<and> (\<forall>p. map_of (created v) p \<noteq> None \<longrightarrow> rd_coin base p = None)
     \<and> (\<forall>p\<in>set (spent_created v). rd_coin base p = None)"

definition assets_wf :: "reader_state \<Rightarrow> view \<Rightarrow> bool" where
  "assets_wf base v \<longleftrightarrow> al_distinct (v_tokens v) \<and> al_distinct (v_pools v) \<and> al_distinct (pools_before v)
     \<and> (\<forall>i t. map_of (v_tokens v) i = Some t \<longrightarrow> ti_id t = i \<and> rd_token base i = None)
     \<and> (\<forall>t q. map_of (pools_before v) t = Some q \<longrightarrow> q = rd_pool base t)
     \<and> (\<forall>t. map_of (v_pools v) t = None \<longleftrightarrow> map_of (pools_before v) t = None)"

definition view_good :: "reader_state \<Rightarrow> view \<Rightarrow> bool" where
  "view_good base v \<longleftrightarrow> view_inv v \<and> coins_wf base v \<and> assets_wf base v \<and> state_ok (view_reader base v)"

lemma spend_coin_wf: "spend_coin base p v = Inr v' \<Longrightarrow> coins_wf base v \<Longrightarrow> coins_wf base v'"
  by (auto simp: spend_coin_def coins_wf_def update_conv' delete_conv' split: if_splits option.splits)

lemma spend_inputs_wf: "spend_inputs base is v = Inr v' \<Longrightarrow> coins_wf base v \<Longrightarrow> coins_wf base v'"
proof (induction "is" arbitrary: v)
  case (Cons i "is")
  then obtain v1 where "spend_coin base (prev i) v = Inr v1" "spend_inputs base is v1 = Inr v'"
    by (auto simp: rbind_eq_Inr)
  with Cons.IH [of v1] spend_coin_wf [of base "prev i" v v1] Cons.prems(2) show ?case by simp
qed simp

lemma create_coins_wf:
  "\<forall>k. rd_coin base (OutPoint tid k) = None \<Longrightarrow> coins_wf base v \<Longrightarrow> coins_wf base (create_coins tid height cb n os v)"
proof (induction os arbitrary: n v)
  case (Cons out os)
  have "coins_wf base (v\<lparr>created := AList.update (OutPoint tid n) c (created v)\<rparr>)" for c
    using Cons.prems by (simp add: coins_wf_def update_conv')
  with Cons.IH [OF Cons.prems(1)] show ?case by simp
qed simp

lemma create_coins_assets:
  "pools_before (create_coins tid height cb n os v) = pools_before v"
  "spent_base (create_coins tid height cb n os v) = spent_base v"
  by (induction os arbitrary: n v) simp_all

lemma spend_inputs_assets: "spend_inputs base is v = Inr v' \<Longrightarrow> pools_before v' = pools_before v"
proof (induction "is" arbitrary: v)
  case (Cons i "is")
  then obtain v1 where "spend_coin base (prev i) v = Inr v1" "spend_inputs base is v1 = Inr v'"
    by (auto simp: rbind_eq_Inr)
  with Cons.IH [of v1] show ?case by (auto simp: spend_coin_def split: if_splits option.splits)
qed simp

lemma commit_tokens_parts:
  "created (commit_tokens ms v) = created v" "spent_base (commit_tokens ms v) = spent_base v"
  "spent_created (commit_tokens ms v) = spent_created v" "v_pools (commit_tokens ms v) = v_pools v"
  "pools_before (commit_tokens ms v) = pools_before v"
  "v_tokens (commit_tokens ms v) = fold (\<lambda>(i, t). AList.update i t) ms (v_tokens v)"
  by (induction ms arbitrary: v) (auto simp: commit_tokens_def)

lemma commit_pool_parts:
  "created (commit_pool base tp v) = created v" "spent_base (commit_pool base tp v) = spent_base v"
  "spent_created (commit_pool base tp v) = spent_created v" "v_tokens (commit_pool base tp v) = v_tokens v"
  by (auto simp: commit_pool_def Let_def split: prod.splits option.splits)

lemma commit_pools_parts:
  "created (fold (commit_pool base) ts v) = created v" "spent_base (fold (commit_pool base) ts v) = spent_base v"
  "spent_created (fold (commit_pool base) ts v) = spent_created v" "v_tokens (fold (commit_pool base) ts v) = v_tokens v"
  by (induction ts arbitrary: v) (simp_all add: commit_pool_parts)

lemma commit_pool_wf: "assets_wf base v \<Longrightarrow> assets_wf base (commit_pool base tp v)"
  by (cases tp; cases "snd tp")
    (auto simp: commit_pool_def Let_def assets_wf_def update_conv' split: option.splits)

lemma commit_pools_wf: "assets_wf base v \<Longrightarrow> assets_wf base (fold (commit_pool base) ts v)"
  by (induction ts arbitrary: v) (simp_all add: commit_pool_wf)

text \<open>The tokens an application mints are new and carry their own id.\<close>

definition minted_ok :: "reader_state \<Rightarrow> view \<Rightarrow> opst \<Rightarrow> bool" where
  "minted_ok base v st \<longleftrightarrow> (\<forall>i t. map_of (minted st) i = Some t \<longrightarrow> ti_id t = i \<and> view_token base v i = None)"

lemma apply_op_minted:
  "apply_op cr base v tx height coins i op st = Inr st' \<Longrightarrow> minted_ok base v st \<Longrightarrow> minted_ok base v st'"
  by (cases op)
    (auto simp: minted_ok_def set_pool_def move_flows_def token_known_def update_conv' Let_def
      split: if_splits option.splits prod.splits)

lemma apply_ops_minted:
  "apply_ops cr base v tx height coins i os st = Inr st' \<Longrightarrow> minted_ok base v st \<Longrightarrow> minted_ok base v st'"
proof (induction os arbitrary: i st)
  case (Cons op os)
  then show ?case by (auto simp: rbind_eq_Inr dest: apply_op_minted)
qed simp

lemma fold_update_wf:
  assumes "al_distinct m" "\<forall>i t. map_of m i = Some t \<longrightarrow> P i t" "\<forall>(i, t)\<in>set ms. P i t"
  shows "al_distinct (fold (\<lambda>(i, t). AList.update i t) ms m)
    \<and> (\<forall>i t. map_of (fold (\<lambda>(i, t). AList.update i t) ms m) i = Some t \<longrightarrow> P i t)"
  using assms
proof (induction ms arbitrary: m)
  case (Cons e ms)
  obtain i t where e: "e = (i, t)" by force
  have "\<forall>j u. map_of (AList.update i t m) j = Some u \<longrightarrow> P j u"
    using Cons.prems by (simp add: e update_conv')
  with Cons.IH [of "AList.update i t m"] Cons.prems show ?case by (simp add: e)
qed simp

lemma commit_tokens_wf:
  assumes "assets_wf base v" "\<forall>(i, t)\<in>set ms. ti_id t = i \<and> rd_token base i = None"
  shows "assets_wf base (commit_tokens ms v)"
proof -
  have "al_distinct (v_tokens (commit_tokens ms v))
      \<and> (\<forall>i t. map_of (v_tokens (commit_tokens ms v)) i = Some t \<longrightarrow> ti_id t = i \<and> rd_token base i = None)"
    unfolding commit_tokens_parts using assms by (intro fold_update_wf) (simp_all add: assets_wf_def)
  with assms(1) show ?thesis by (simp add: assets_wf_def commit_tokens_parts(4,5))
qed

section \<open>Applying transactions\<close>

lemma fresh_base:
  assumes "coins_wf base v" "fresh_txid base v tid"
  shows "rd_coin base (OutPoint tid k) = None"
proof -
  have "view_coin base v (OutPoint tid k) = None" "map_of (spent_base v) (OutPoint tid k) = None"
    using assms(2) by (simp_all add: fresh_txid_def view_fresh_def)
  with assms(1) show ?thesis
    by (cases "OutPoint tid k \<in> set (spent_created v)") (simp_all add: view_coin_def coins_wf_def split: option.splits)
qed

lemma view_apply_good:
  assumes app: "view_apply cr base tx height gen sigs v = Inr (fee, v')"
    and tx: "check_tx_basic tx ew = Inr ()" "core_ok tx" and good: "view_good base v" and fr: "fresh_txid base v (txid cr tx)"
  shows "view_good base v'"
    and "tid \<noteq> txid cr tx \<Longrightarrow> fresh_txid base v tid \<Longrightarrow> fresh_txid base v' tid"
proof -
  have g: "view_inv v" "coins_wf base v" "assets_wf base v" "state_ok (view_reader base v)"
    using good by (simp_all add: view_good_def)
  obtain fl coins st v1 where
    p: "\<not> is_coinbase tx"
      "apply_ops cr base v tx height coins 0 (ops tx)
        \<lparr>plus_f = fl, minus_f = sum_outs (outs tx) [], touched = [], minted = []\<rparr> = Inr st"
      "spend_inputs base (ins tx) v = Inr v1"
      "v' = fold (commit_pool base) (touched st) (commit_tokens (minted st)
        (create_coins (txid cr tx) height False 0 (outs tx) v1))"
    by (rule view_apply_parts [OF app])
  note ref = view_apply_refines [OF app tx g(1) fr]
  have "coins_wf base v1" using spend_inputs_wf [OF p(3) g(2)] .
  then have "coins_wf base (create_coins (txid cr tx) height False 0 (outs tx) v1)"
    using fresh_base [OF g(2) fr] by (intro create_coins_wf) auto
  then have c: "coins_wf base v'" by (simp add: p(4) coins_wf_def commit_pools_parts commit_tokens_parts)
  have m: "minted_ok base v st" "scratch_ok st"
    using apply_ops_minted [OF p(2)] apply_ops_scratch [OF p(2)] by (simp_all add: minted_ok_def scratch_ok_def)
  have "\<forall>(i, t)\<in>set (minted st). ti_id t = i \<and> rd_token base i = None"
  proof safe
    fix i t assume "(i, t) \<in> set (minted st)"
    then have "map_of (minted st) i = Some t" using m(2) by (simp add: scratch_ok_def al_distinct_def)
    then have "ti_id t = i" "view_token base v i = None" using m(1) by (simp_all add: minted_ok_def)
    then show "ti_id t = i" "rd_token base i = None" by (simp_all add: view_token_def split: option.splits)
  qed
  then have "assets_wf base v'"
    unfolding p(4) using g(3) spend_inputs_fields [OF p(3)] spend_inputs_assets [OF p(3)]
    by (intro commit_pools_wf commit_tokens_wf) (simp_all add: assets_wf_def create_coins_assets)
  with c ref(1) view_apply_conserves(1) [OF app tx g(1) fr g(4)]
  show "view_good base v'" by (simp add: view_good_def)
  assume tid: "tid \<noteq> txid cr tx" "fresh_txid base v tid"
  have "OutPoint tid k \<notin> set (prevs tx)" for k
    using bspec [OF ref(3), of "OutPoint tid k"] tid(2) by (auto simp: fresh_txid_def)
  moreover from this have "view_fresh v1 (OutPoint tid k)" for k
    using vw.spend_list_law [OF g(1) check_tx_basic_parts(1) [OF tx(1) p(1)], of base] ref(3) p(3) tid(2)
    by (fastforce simp: spend_inputs_list fresh_txid_def)
  ultimately show "fresh_txid base v' tid"
    using tid unfolding fresh_txid_def ref(2)
    by (auto simp: spec_coins_def p(4) view_fresh_def commit_pools_parts commit_tokens_parts create_coins_assets)
qed

text \<open>The coins after a list of transactions, as sets.\<close>

definition spec_block :: "crypto \<Rightarrow> u64 \<Rightarrow> transaction list \<Rightarrow> (outpoint \<Rightarrow> coin option) \<Rightarrow> outpoint \<Rightarrow> coin option" where
  "spec_block cr height ts coins = fold (\<lambda>t. spec_coins (txid cr t) t height) ts coins"

definition tx_valid :: "bool \<Rightarrow> transaction \<Rightarrow> bool" where
  "tx_valid ew t \<longleftrightarrow> core_ok t \<and> check_tx_basic t ew = Inr ()"

lemma apply_txs_law:
  assumes "apply_txs cr base height gen verify ts v fees = Inr (v', fees')"
    and "list_all (tx_valid ew) ts" "distinct (map (txid cr) ts)" "\<forall>t\<in>set ts. fresh_txid base v (txid cr t)"
    and "view_good base v"
  shows "view_good base v' \<and> view_coin base v' = spec_block cr height ts (view_coin base v)
    \<and> (\<exists>n. fees' = fees + of_nat n \<and> (\<forall>a. (\<forall>t. pool_share_id cr t \<noteq> a) \<longrightarrow>
         asset_total a (view_reader base v') + (if a = QNT_ASSET then n else 0) =
         asset_total a (view_reader base v) + (\<Sum>t\<leftarrow>ts. minted_total cr t 0 (ops t) a)))"
  using assms
proof (induction ts arbitrary: v fees)
  case Nil
  then show ?case by (auto simp: spec_block_def intro!: exI [of _ 0])
next
  case (Cons t ts)
  then obtain fee v1 where a: "view_apply cr base t height gen verify v = Inr (fee, v1)"
    "apply_txs cr base height gen verify ts v1 (fees + fee) = Inr (v', fees')"
    by (auto split: sum.splits)
  have tx: "check_tx_basic t ew = Inr ()" "core_ok t" "fresh_txid base v (txid cr t)" "view_inv v" "state_ok (view_reader base v)"
    using Cons.prems by (auto simp: tx_valid_def view_good_def)
  have g1: "view_good base v1" using view_apply_good(1) [OF a(1) tx(1,2) Cons.prems(5) tx(3)] .
  have "\<forall>s\<in>set ts. fresh_txid base v1 (txid cr s)"
    using view_apply_good(2) [OF a(1) tx(1,2) Cons.prems(5) tx(3)] Cons.prems(3,4)
    by (auto simp: image_iff)
  from Cons.IH [OF a(2) _ _ this g1] Cons.prems(2,3) obtain n where
    IH: "view_good base v'" "view_coin base v' = spec_block cr height ts (view_coin base v1)" "fees' = fees + fee + of_nat n"
      "\<And>a. (\<forall>t. pool_share_id cr t \<noteq> a) \<Longrightarrow> asset_total a (view_reader base v') + (if a = QNT_ASSET then n else 0) =
         asset_total a (view_reader base v1) + (\<Sum>t\<leftarrow>ts. minted_total cr t 0 (ops t) a)"
    by auto
  have "asset_total b (view_reader base v1) + (if b = QNT_ASSET then unat fee else 0) =
      asset_total b (view_reader base v) + minted_total cr t 0 (ops t) b" if "\<forall>t. pool_share_id cr t \<noteq> b" for b
    using view_apply_conserves(3) [OF a(1) tx(1,2,4,3,5), of b] no_shares [OF that] by simp
  with IH(4) have "asset_total b (view_reader base v') + (if b = QNT_ASSET then unat fee + n else 0) =
      asset_total b (view_reader base v) + (\<Sum>t\<leftarrow>t # ts. minted_total cr t 0 (ops t) b)"
    if "\<forall>t. pool_share_id cr t \<noteq> b" for b
    using that by (fastforce split: if_splits)
  moreover have "fees' = fees + of_nat (unat fee + n)" using IH(3) by (simp add: ac_simps)
  moreover have "view_coin base v' = spec_block cr height (t # ts) (view_coin base v)"
    using IH(2) view_apply_refines(2) [OF a(1) tx(1,2,4,3)] by (simp add: spec_block_def)
  ultimately show ?case using IH(1) by blast
qed

section \<open>The whole block\<close>

lemma view_coin_empty [simp]: "view_coin base empty_view = rd_coin base"
  by (simp add: view_coin_def empty_view_def fun_eq_iff)

lemma view_asset_empty [simp]: "view_token base empty_view = rd_token base" "view_pool base empty_view = rd_pool base"
  by (simp_all add: view_token_def view_pool_def empty_view_def fun_eq_iff)

lemma view_reader_empty [simp]: "view_reader base empty_view = base"
  by (simp add: view_reader_def)

lemma spent_base_empty [simp]: "spent_base empty_view = []"
  by (simp add: empty_view_def)

lemma distinct_map_head: "distinct (map f (a # as)) \<Longrightarrow> t \<in> set as \<Longrightarrow> f t \<noteq> f a"
  by (metis distinct.simps(2) imageI list.set_map list.simps(9))

lemma view_good_empty: "state_ok base \<Longrightarrow> view_good base empty_view"
  by (simp add: view_good_def) (simp add: view_inv_def coins_wf_def assets_wf_def empty_view_def)

lemma fresh_empty: "fresh_txid base empty_view tid \<longleftrightarrow> (\<forall>k. rd_coin base (OutPoint tid k) = None)"
  by (simp add: fresh_txid_def) (simp add: view_fresh_def empty_view_def)

text \<open>No coin of the state belongs to a transaction of the block, and no two share an id.\<close>

definition block_fresh :: "crypto \<Rightarrow> reader_state \<Rightarrow> transaction list \<Rightarrow> bool" where
  "block_fresh cr base ts \<longleftrightarrow> distinct (map (txid cr) ts) \<and> (\<forall>t\<in>set ts. \<forall>k. rd_coin base (OutPoint (txid cr t) k) = None)"

lemma coinbase_good:
  assumes "is_coinbase t" "length (outs t) \<le> 10000" "state_ok base" "\<forall>k. rd_coin base (OutPoint (txid cr t) k) = None"
  shows "view_good base (apply_coinbase cr t height empty_view)"
    and "tid \<noteq> txid cr t \<Longrightarrow> \<forall>k. rd_coin base (OutPoint tid k) = None \<Longrightarrow>
      fresh_txid base (apply_coinbase cr t height empty_view) tid"
proof -
  have e: "view_inv empty_view" "fresh_txid base empty_view (txid cr t)" "state_ok (view_reader base empty_view)"
    using assms view_good_empty [of base] by (simp_all add: fresh_empty view_good_def)
  note law = apply_coinbase_law [OF e(1,2) assms(2,1)]
  have "coins_wf base (apply_coinbase cr t height empty_view)" "assets_wf base (apply_coinbase cr t height empty_view)"
    using assms(3,4) view_good_empty [of base]
    by (simp_all add: apply_coinbase_def create_coins_wf view_good_def assets_wf_def create_coins_assets)
  then show "view_good base (apply_coinbase cr t height empty_view)"
    using law(1) law(3) [OF e(3)] by (simp add: view_good_def)
  assume "tid \<noteq> txid cr t" "\<forall>k. rd_coin base (OutPoint tid k) = None"
  then show "fresh_txid base (apply_coinbase cr t height empty_view) tid"
    using assms(1) unfolding fresh_txid_def law(2)
    by (auto simp: spec_coins_def is_coinbase_def view_fresh_def apply_coinbase_def create_coins_assets)
qed

lemma block_view_law:
  assumes run: "apply_txs cr base height gen verify ts (apply_coinbase cr cb height empty_view) 0 = Inr (v, fees)"
    and cb: "is_coinbase cb" "core_ok cb" and ts: "list_all (tx_valid ew) ts"
    and fr: "block_fresh cr base (cb # ts)" and ok: "state_ok base"
  shows "view_good base v"
    and "view_coin base v = spec_block cr height (cb # ts) (rd_coin base)"
    and "\<exists>n. fees = of_nat n \<and> (\<forall>a. (\<forall>t. pool_share_id cr t \<noteq> a) \<longrightarrow>
         asset_total a (view_reader base v) + (if a = QNT_ASSET then n else 0) =
         asset_total a base + (\<Sum>out\<leftarrow>outs cb. out_val a out) + (\<Sum>t\<leftarrow>ts. minted_total cr t 0 (ops t) a))"
proof -
  define v0 where "v0 = apply_coinbase cr cb height empty_view"
  have len: "length (outs cb) \<le> 10000" using core_ok_lengths(2) [OF cb(2)] .
  have cbf: "\<forall>k. rd_coin base (OutPoint (txid cr cb) k) = None" using fr by (simp add: block_fresh_def)
  have g0: "view_good base v0" unfolding v0_def by (rule coinbase_good(1) [OF cb(1) len ok cbf])
  have "fresh_txid base v0 (txid cr t)" if "t \<in> set ts" for t
    unfolding v0_def using fr that distinct_map_head [of "txid cr" cb ts t]
    by (intro coinbase_good(2) [OF cb(1) len ok cbf]) (simp_all add: block_fresh_def)
  then have "\<forall>t\<in>set ts. fresh_txid base v0 (txid cr t)" by blast
  from apply_txs_law [OF run [folded v0_def] ts _ this g0] fr obtain n where
    law: "view_good base v" "view_coin base v = spec_block cr height ts (view_coin base v0)" "fees = 0 + of_nat n"
      "\<forall>a. (\<forall>t. pool_share_id cr t \<noteq> a) \<longrightarrow> asset_total a (view_reader base v) + (if a = QNT_ASSET then n else 0) =
         asset_total a (view_reader base v0) + (\<Sum>t\<leftarrow>ts. minted_total cr t 0 (ops t) a)"
    by (auto simp: block_fresh_def)
  have e: "view_inv empty_view" "fresh_txid base empty_view (txid cr cb)" "state_ok (view_reader base empty_view)"
    using ok cbf view_good_empty [of base] by (simp_all add: fresh_empty view_good_def)
  note c = apply_coinbase_law [OF e(1,2) len cb(1), of height, folded v0_def]
  show "view_good base v" by (rule law(1))
  show "view_coin base v = spec_block cr height (cb # ts) (rd_coin base)"
    using law(2) c(2) by (simp add: spec_block_def)
  have "asset_total a (view_reader base v0) = asset_total a base + (\<Sum>out\<leftarrow>outs cb. out_val a out)" for a
    using c(3) [OF e(3)] by simp
  with law(3,4) show "\<exists>n. fees = of_nat n \<and> (\<forall>a. (\<forall>t. pool_share_id cr t \<noteq> a) \<longrightarrow>
         asset_total a (view_reader base v) + (if a = QNT_ASSET then n else 0) =
         asset_total a base + (\<Sum>out\<leftarrow>outs cb. out_val a out) + (\<Sum>t\<leftarrow>ts. minted_total cr t 0 (ops t) a))"
    by (intro exI [of _ n]) simp
qed

section \<open>Committing\<close>

lemma spend_coin_inv' [simp]: "us_inv s \<Longrightarrow> us_inv (us_spend_coin p s)"
  using spend_coin_inv [of s p] by (cases "map_of (us_utxo s) p") auto

lemma spends_fold:
  "us_inv s \<Longrightarrow> us_inv (fold (\<lambda>(p, c). us_spend_coin p) ps s)
    \<and> us_coin (fold (\<lambda>(p, c). us_spend_coin p) ps s) = (\<lambda>q. if map_of ps q = None then us_coin s q else None)
    \<and> us_token (fold (\<lambda>(p, c). us_spend_coin p) ps s) = us_token s
    \<and> us_pool (fold (\<lambda>(p, c). us_spend_coin p) ps s) = us_pool s"
proof (induction ps arbitrary: s)
  case (Cons e ps)
  obtain p c where e: "e = (p, c)" by force
  from Cons.IH [of "us_spend_coin p s"] Cons.prems show ?case by (auto simp: e fun_eq_iff)
qed (simp add: fun_eq_iff)

lemma set_tokens_fold':
  "us_inv s \<Longrightarrow> al_distinct ts \<Longrightarrow> \<forall>i t. map_of ts i = Some t \<longrightarrow> ti_id t = i \<Longrightarrow>
    us_inv (fold (\<lambda>(i, t). us_set_token i t) ts s) \<and> us_coin (fold (\<lambda>(i, t). us_set_token i t) ts s) = us_coin s
    \<and> us_token (fold (\<lambda>(i, t). us_set_token i t) ts s) = us_token s ++ map_of ts
    \<and> us_pool (fold (\<lambda>(i, t). us_set_token i t) ts s) = us_pool s"
proof (induction ts arbitrary: s)
  case (Cons e ts)
  obtain i t where e: "e = (i, t)" by force
  have d: "al_distinct ts" "map_of ts i = None" using Cons.prems(2) by (auto simp: e al_distinct_def map_of_eq_None_iff)
  have up: "map_of (e # ts) i = Some t" "map_of ts j = Some u \<Longrightarrow> map_of (e # ts) j = Some u" for j u
    using d(2) by (auto simp: e)
  then have k: "ti_id t = i" "\<forall>j u. map_of ts j = Some u \<longrightarrow> ti_id u = j" using Cons.prems(3) by blast+
  from Cons.IH [OF set_token_inv [OF Cons.prems(1) k(1)] d(1) k(2)] d(2) show ?case
    by (auto simp: e fun_eq_iff map_add_def split: option.splits)
qed simp

lemma set_pools_fold:
  "us_inv s \<Longrightarrow> al_distinct ps \<Longrightarrow> \<forall>t q. map_of ps t = Some (Some q) \<longrightarrow> p_token q = t \<Longrightarrow>
    us_inv (fold (\<lambda>(t, p). us_set_pool t p) ps s) \<and> us_coin (fold (\<lambda>(t, p). us_set_pool t p) ps s) = us_coin s
    \<and> us_token (fold (\<lambda>(t, p). us_set_pool t p) ps s) = us_token s
    \<and> us_pool (fold (\<lambda>(t, p). us_set_pool t p) ps s) = (\<lambda>t. case map_of ps t of None \<Rightarrow> us_pool s t | Some q \<Rightarrow> q)"
proof (induction ps arbitrary: s)
  case (Cons e ps)
  obtain t p where e: "e = (t, p)" by force
  have d: "al_distinct ps" "map_of ps t = None" using Cons.prems(2) by (auto simp: e al_distinct_def map_of_eq_None_iff)
  have up: "map_of (e # ps) t = Some p" "map_of ps u = Some r \<Longrightarrow> map_of (e # ps) u = Some r" for u r
    using d(2) by (auto simp: e)
  then have k: "\<And>q. p = Some q \<Longrightarrow> p_token q = t" "\<forall>u q. map_of ps u = Some (Some q) \<longrightarrow> p_token q = u"
    using Cons.prems(3) by blast+
  from Cons.IH [OF set_pool_inv [OF Cons.prems(1) k(1)] d(1) k(2)] d(2) show ?case
    by (auto simp: e fun_eq_iff split: option.splits)
qed simp

lemma set_pools_some: "fold (\<lambda>(t, p). us_set_pool t (Some p)) ps s
    = fold (\<lambda>(t, p). us_set_pool t p) (map (\<lambda>(t, p). (t, Some p)) ps) s"
  by (induction ps arbitrary: s) auto

lemma map_of_map_some: "map_of (map (\<lambda>(t, p). (t, Some p)) ps) t = map_option Some (map_of ps t)"
  by (induction ps) auto

lemma commit_view_law:
  assumes "us_inv s" "view_good (us_reader s) v"
  shows "us_inv (commit_view v s)" and "us_reader (commit_view v s) = view_reader (us_reader s) v"
proof -
  have g: "view_inv v" "coins_wf (us_reader s) v" "assets_wf (us_reader s) v" "state_ok (view_reader (us_reader s) v)"
    using assms(2) by (simp_all add: view_good_def)
  define s1 where "s1 = fold (\<lambda>(p, c). us_spend_coin p) (spent_base v) s"
  define s2 where "s2 = us.create_all (created v) s1"
  define s3 where "s3 = fold (\<lambda>(i, t). us_set_token i t) (v_tokens v) s2"
  have c: "commit_view v s = fold (\<lambda>(t, p). us_set_pool t p) (map (\<lambda>(t, p). (t, Some p)) (v_pools v)) s3"
    by (simp add: commit_view_def s1_def s2_def s3_def add_coins_fold set_pools_some Let_def)
  have s1: "us_inv s1" "us_coin s1 = (\<lambda>q. if map_of (spent_base v) q = None then us_coin s q else None)"
    "us_token s1 = us_token s" "us_pool s1 = us_pool s"
    using spends_fold [OF assms(1), of "spent_base v"] by (simp_all add: s1_def)
  have "\<forall>p\<in>fst ` set (created v). us_fresh s1 p"
  proof
    fix p assume "p \<in> fst ` set (created v)"
    then have "map_of (created v) p \<noteq> None" by (simp add: map_of_eq_None_iff)
    then show "us_fresh s1 p" using g(2) by (simp add: us_fresh_def s1(2) coins_wf_def us_reader_def)
  qed
  from us.create_all_law [OF s1(1) _ this] g(1)
  have s2: "us_inv s2" "us_coin s2 = (\<lambda>p. case map_of (created v) p of Some c \<Rightarrow> Some c | None \<Rightarrow> us_coin s1 p)"
    "us_token s2 = us_token s" "us_pool s2 = us_pool s"
    using s1 by (simp_all add: s2_def view_inv_def)
  have s3: "us_inv s3" "us_coin s3 = us_coin s2" "us_token s3 = us_token s ++ map_of (v_tokens v)" "us_pool s3 = us_pool s"
    using set_tokens_fold' [OF s2(1), of "v_tokens v"] g(3) s2 by (simp_all add: s3_def assets_wf_def)
  have kp: "\<forall>t q. map_of (map (\<lambda>(t, p). (t, Some p)) (v_pools v)) t = Some (Some q) \<longrightarrow> p_token q = t"
    using g(4) by (auto simp: map_of_map_some state_ok_def pools_ok_def view_reader_def view_pool_def)
  have dp: "al_distinct (map (\<lambda>(t, p). (t, Some p)) (v_pools v))"
    using g(3) by (simp add: assets_wf_def al_distinct_def comp_def case_prod_beta)
  note s4 = set_pools_fold [OF s3(1) dp kp, folded c]
  show "us_inv (commit_view v s)" using s4 by simp
  have "us_coin (commit_view v s) = view_coin (us_reader s) v"
    using s4 g(1,2) by (auto simp: s3(2) s2(2) s1(2) view_coin_def us_reader_def view_inv_def coins_wf_def fun_eq_iff
        split: option.splits)
  moreover have "us_token (commit_view v s) = view_token (us_reader s) v"
    using s4 s3(3) by (auto simp: view_token_def us_reader_def map_add_def fun_eq_iff split: option.splits)
  moreover have "us_pool (commit_view v s) = view_pool (us_reader s) v"
    using s4 s3(4) by (auto simp: view_pool_def us_reader_def map_of_map_some fun_eq_iff split: option.splits)
  ultimately show "us_reader (commit_view v s) = view_reader (us_reader s) v"
    by (simp add: us_reader_def [of "commit_view v s"] view_reader_def)
qed

section \<open>Undoing\<close>

definition output_of :: "crypto \<Rightarrow> transaction \<Rightarrow> outpoint \<Rightarrow> bool" where
  "output_of cr t p \<longleftrightarrow> op_txid p = txid cr t \<and> unat (op_n p) < length (outs t)"

lemma spend_outs_fold:
  "us_inv s \<Longrightarrow> us_inv (fold (\<lambda>n. us_spend_coin (f n)) ns s)
    \<and> us_coin (fold (\<lambda>n. us_spend_coin (f n)) ns s) = (\<lambda>q. if q \<in> f ` set ns then None else us_coin s q)
    \<and> us_token (fold (\<lambda>n. us_spend_coin (f n)) ns s) = us_token s
    \<and> us_pool (fold (\<lambda>n. us_spend_coin (f n)) ns s) = us_pool s"
proof (induction ns arbitrary: s)
  case (Cons n ns)
  from Cons.IH [of "us_spend_coin (f n) s"] Cons.prems show ?case by (auto simp: fun_eq_iff)
qed (simp add: fun_eq_iff)

lemma output_range: "length (outs t) \<le> 10000 \<Longrightarrow>
  p \<in> (\<lambda>n. OutPoint (txid cr t) (of_nat n)) ` set [0..<length (outs t)] \<longleftrightarrow> output_of cr t p"
proof
  assume "length (outs t) \<le> 10000" "p \<in> (\<lambda>n. OutPoint (txid cr t) (of_nat n)) ` set [0..<length (outs t)]"
  then show "output_of cr t p" by (auto simp: output_of_def unat_of_nat)
next
  assume "output_of cr t p"
  then have "p = OutPoint (txid cr t) (of_nat (unat (op_n p)))" "unat (op_n p) < length (outs t)"
    by (cases p; simp add: output_of_def)+
  then show "p \<in> (\<lambda>n. OutPoint (txid cr t) (of_nat n)) ` set [0..<length (outs t)]" by force
qed

lemma uncreate_fold:
  "us_inv s \<Longrightarrow> \<forall>t\<in>set ts. length (outs t) \<le> 10000 \<Longrightarrow>
    us_inv (fold (uncreate cr) ts s)
    \<and> us_coin (fold (uncreate cr) ts s) = (\<lambda>q. if \<exists>t\<in>set ts. output_of cr t q then None else us_coin s q)
    \<and> us_token (fold (uncreate cr) ts s) = us_token s \<and> us_pool (fold (uncreate cr) ts s) = us_pool s"
proof (induction ts arbitrary: s)
  case (Cons t ts)
  note one = spend_outs_fold [OF Cons.prems(1), of "\<lambda>n. OutPoint (txid cr t) (of_nat n)" "[0..<length (outs t)]", folded uncreate_def]
  have c: "us_coin (uncreate cr t s) = (\<lambda>q. if output_of cr t q then None else us_coin s q)"
    using one output_range [of t _ cr] Cons.prems(2) by (simp add: fun_eq_iff)
  have "us_inv (uncreate cr t s)" "us_token (uncreate cr t s) = us_token s" "us_pool (uncreate cr t s) = us_pool s"
    using one by simp_all
  with Cons.IH [of "uncreate cr t s"] c Cons.prems(2) show ?case by (auto simp: fun_eq_iff)
qed (simp add: fun_eq_iff)

lemma spec_block_kept:
  "spec_block cr height ts coins p = Some c \<Longrightarrow> \<forall>t\<in>set ts. \<not> output_of cr t p \<Longrightarrow> coins p = Some c"
proof (induction ts arbitrary: coins)
  case (Cons t ts)
  from Cons.prems(1) have "spec_block cr height ts (spec_coins (txid cr t) t height coins) p = Some c"
    by (simp add: spec_block_def)
  from Cons.IH [OF this] Cons.prems(2) show ?case by (auto simp: spec_coins_def output_of_def split: if_splits)
qed (simp add: spec_block_def)

lemma erase_tokens_fold:
  "us_inv s \<Longrightarrow> us_inv (fold us_erase_token is s) \<and> us_coin (fold us_erase_token is s) = us_coin s
    \<and> us_token (fold us_erase_token is s) = (\<lambda>i. if i \<in> set is then None else us_token s i)
    \<and> us_pool (fold us_erase_token is s) = us_pool s"
proof (induction "is" arbitrary: s)
  case (Cons i "is")
  from Cons.IH [OF erase_token_inv [OF Cons.prems, of i]] show ?case by (auto simp: fun_eq_iff)
qed (simp add: fun_eq_iff)

lemma undo_commit:
  assumes inv: "us_inv s" and good: "view_good (us_reader s) v"
    and coins: "view_coin (us_reader s) v = spec_block cr height (txs b) (us_coin s)"
    and fr: "block_fresh cr (us_reader s) (txs b)" and len: "\<forall>t\<in>set (txs b). length (outs t) \<le> 10000"
    and pools: "pools_ok (us_pool s)"
  shows "us_inv (undo_block cr b (undo_of_view v) (commit_view v s))"
    and "us_reader (undo_block cr b (undo_of_view v) (commit_view v s)) = us_reader s"
proof -
  have g: "view_inv v" "coins_wf (us_reader s) v" "assets_wf (us_reader s) v"
    using good by (simp_all add: view_good_def)
  note cv = commit_view_law [OF inv good]
  define s1 where "s1 = fold (uncreate cr) (txs b) (commit_view v s)"
  define s2 where "s2 = us.create_all (spent_base v) s1"
  define s3 where "s3 = fold (\<lambda>(t, p). us_set_pool t p) (pools_before v) s2"
  have u: "undo_block cr b (undo_of_view v) (commit_view v s) = fold us_erase_token (map fst (v_tokens v)) s3"
    by (simp add: undo_block_def undo_of_view_def s1_def s2_def s3_def add_coins_fold Let_def)
  have vc: "us_coin (commit_view v s) = view_coin (us_reader s) v" "us_token (commit_view v s) = view_token (us_reader s) v"
    "us_pool (commit_view v s) = view_pool (us_reader s) v"
    using cv(2) by (simp_all add: us_reader_def [of "commit_view v s"] view_reader_def)
  have s1: "us_inv s1" "us_coin s1 = (\<lambda>q. if \<exists>t\<in>set (txs b). output_of cr t q then None else view_coin (us_reader s) v q)"
    "us_token s1 = view_token (us_reader s) v" "us_pool s1 = view_pool (us_reader s) v"
    using uncreate_fold [OF cv(1) len, of cr] vc by (simp_all add: s1_def cong: if_cong)
  have "\<forall>p\<in>fst ` set (spent_base v). us_fresh s1 p"
  proof
    fix p assume "p \<in> fst ` set (spent_base v)"
    then have "map_of (spent_base v) p \<noteq> None" by (simp add: map_of_eq_None_iff)
    then show "us_fresh s1 p" by (simp add: us_fresh_def s1(2) view_coin_def)
  qed
  from us.create_all_law [OF s1(1) _ this] g(1)
  have s2: "us_inv s2" "us_coin s2 = (\<lambda>p. case map_of (spent_base v) p of Some c \<Rightarrow> Some c | None \<Rightarrow> us_coin s1 p)"
    "us_token s2 = view_token (us_reader s) v" "us_pool s2 = view_pool (us_reader s) v"
    using s1 by (simp_all add: s2_def view_inv_def)
  have kp: "\<forall>t q. map_of (pools_before v) t = Some (Some q) \<longrightarrow> p_token q = t"
  proof (intro allI impI)
    fix t q assume "map_of (pools_before v) t = Some (Some q)"
    then have "us_pool s t = Some q" using g(3) by (auto simp: assets_wf_def us_reader_def)
    then show "p_token q = t" using pools by (auto simp: pools_ok_def)
  qed
  have "al_distinct (pools_before v)" using g(3) by (simp add: assets_wf_def)
  note s3 = set_pools_fold [OF s2(1) this kp, folded s3_def]
  then have "us_inv s3" by simp
  note s4 = erase_tokens_fold [OF this, of "map fst (v_tokens v)", folded u]
  show "us_inv (undo_block cr b (undo_of_view v) (commit_view v s))" using s4 by simp
  have "us_coin s2 p = us_coin s p" for p
  proof (cases "map_of (spent_base v) p")
    case (Some c)
    then show ?thesis using g(2) by (simp add: s2(2) coins_wf_def us_reader_def)
  next
    case None
    show ?thesis
    proof (cases "\<exists>t\<in>set (txs b). output_of cr t p")
      case True
      then have "us_coin s p = None"
        using fr by (cases p) (auto simp: block_fresh_def output_of_def us_reader_def)
      then show ?thesis using True None by (simp add: s2(2) s1(2))
    next
      case False
      have "view_coin (us_reader s) v p = us_coin s p"
      proof (cases "view_coin (us_reader s) v p")
        case (Some c)
        then show ?thesis using spec_block_kept [of cr height "txs b" "us_coin s" p c] coins False by simp
      next
        case N: None
        then show ?thesis
          using None g(2) by (auto simp: view_coin_def coins_wf_def us_reader_def split: option.splits if_splits)
      qed
      then show ?thesis using False None by (simp add: s2(2) s1(2))
    qed
  qed
  then have "us_coin (undo_block cr b (undo_of_view v) (commit_view v s)) = us_coin s" using s3 s4 by (simp add: fun_eq_iff)
  moreover have "us_token (undo_block cr b (undo_of_view v) (commit_view v s)) i = us_token s i" for i
  proof (cases "map_of (v_tokens v) i")
    case None
    then have "i \<notin> set (map fst (v_tokens v))" by (simp add: map_of_eq_None_iff)
    then show ?thesis using s3 s4 s2(3) None by (simp add: view_token_def us_reader_def)
  next
    case (Some t)
    then have "us_token s i = None" using g(3) by (simp add: assets_wf_def us_reader_def)
    moreover have "i \<in> set (map fst (v_tokens v))" using Some by (force dest: map_of_SomeD)
    ultimately show ?thesis using s4 by simp
  qed
  moreover have "us_pool (undo_block cr b (undo_of_view v) (commit_view v s)) t = us_pool s t" for t
  proof (cases "map_of (pools_before v) t")
    case None
    then have "map_of (v_pools v) t = None" using g(3) by (simp add: assets_wf_def)
    then show ?thesis using s3 s4 s2(4) None by (simp add: view_pool_def us_reader_def)
  next
    case (Some q)
    then have "q = us_pool s t" using g(3) by (simp add: assets_wf_def us_reader_def)
    then show ?thesis using s3 s4 Some by simp
  qed
  ultimately show "us_reader (undo_block cr b (undo_of_view v) (commit_view v s)) = us_reader s"
    by (simp add: us_reader_def fun_eq_iff)
qed

end
