(* ===== verification/Chain_Laws.thy ===== *)
theory Chain_Laws
  imports Chain_Walk Chain_Activate View_Commit
begin

text \<open>
  What the operations of \<open>Chainstate\<close> keep: the tree invariant survives headers, blocks and
  reorganisations, activating the best chain always returns, and a block that is connected and then
  disconnected leaves the state as it was.
\<close>

section \<open>Frames\<close>

text \<open>Everything but the files, the transaction index, the snapshots, the flush counter and the events.\<close>

definition core :: "chainstate \<Rightarrow> (hash256 \<times> block_index) list \<times> hash256 list \<times> hash256 list \<times> hash256 option
    \<times> chain_params \<times> string \<times> bool \<times> utxo_state" where
  "core cs = (cs_index cs, cs_chain cs, cs_candidates cs, cs_best_header cs, cs_p cs, cs_dir cs, cs_prune cs, cs_st cs)"

lemma core_iff: "core cs' = core cs \<longleftrightarrow> cs_index cs' = cs_index cs \<and> cs_chain cs' = cs_chain cs
    \<and> cs_candidates cs' = cs_candidates cs \<and> cs_best_header cs' = cs_best_header cs \<and> cs_p cs' = cs_p cs
    \<and> cs_dir cs' = cs_dir cs \<and> cs_prune cs' = cs_prune cs \<and> cs_st cs' = cs_st cs"
  by (auto simp: core_def)

lemma core_upd [simp]:
  "core (cs\<lparr>cs_fs := fs\<rparr>) = core cs" "core (cs\<lparr>cs_txindex := ti\<rparr>) = core cs" "core (cs\<lparr>cs_snapshot_hash := sh\<rparr>) = core cs"
  "core (cs\<lparr>cs_events := ev\<rparr>) = core cs" "core (cs\<lparr>cs_em := em\<rparr>) = core cs" "core (cs\<lparr>cs_blocks_since_flush := n\<rparr>) = core cs"
  by (simp_all add: core_def)

lemma core_write [simp]: "core (fst (write_cs path data cs)) = core cs" "core (fst (append_cs path data cs)) = core cs"
  by (simp_all add: write_cs_def append_cs_def split: prod.splits)

lemma core_write_eq: "write_cs path data cs = (cs', ok) \<Longrightarrow> core cs' = core cs"
  using core_write(1) [of path data cs] by simp

lemma core_index_txs [simp]: "core (index_block_txs cr b idx add cs) = core cs"
  unfolding index_block_txs_def by (rule fold_invariant [where Q = "\<lambda>_. True"]) simp_all

lemma core_drop_snapshot [simp]: "core (drop_snapshot bh cs) = core cs"
  by (simp add: drop_snapshot_def core_def split: option.splits)

lemma core_drop_snapshots [simp]: "core (fold drop_snapshot bhs cs) = core cs"
  by (induction bhs arbitrary: cs) simp_all

lemma core_commit_snapshot [simp]: "core (write_commit_snapshot cr idx cs) = core cs"
  by (auto simp: write_commit_snapshot_def Let_def split: prod.splits bool.splits dest: core_write_eq)

lemma core_prune [simp]: "core (prune_at h cs) = core cs"
  by (simp add: prune_at_def split: option.splits)

lemma core_flush [simp]: "core (flush cr cs) = core cs"
  by (simp add: flush_def Let_def)

lemma core_undo: "write_undo b u cs = (cs', ok) \<Longrightarrow> core cs' = core cs"
  unfolding write_undo_def by (rule core_write_eq)

section \<open>Connecting and disconnecting\<close>

lemma core_connect_commit:
  "core (connect_commit cr b idx v cs) = core (cs\<lparr>cs_st := commit_view v (cs_st cs), cs_chain := cs_chain cs @ [idx]\<rparr>)"
  by (simp add: connect_commit_def Let_def)

lemma connect_block_parts:
  assumes "connect_block cr idx cs = (cs', Inr u)"
  obtains b got v fees subsidy em cs1 where
    "read_block cr cs idx True = Some (b, got)"
    "apply_txs cr (us_reader (cs_st cs)) (word_of_int (b_height cs idx)) (genesis_hash (cs_p cs)) (got \<and> b_height cs idx > 0)
       (tl (txs b)) (apply_coinbase cr (hd (txs b)) (word_of_int (b_height cs idx)) empty_view) 0 = Inr (v, fees)"
    "\<not> commit_mismatch cs idx"
    "(subsidy, em) = (if b_height cs idx > 0 then block_subsidy (word_of_int (b_height cs idx)) (cs_em cs) else (0, cs_em cs))"
    "b_height cs idx > 0 \<Longrightarrow> total_qnt_out (hd (txs b)) \<le> subsidy + fees"
    "(if b_height cs idx > 0 then write_undo idx (undo_of_view v) (cs\<lparr>cs_em := em\<rparr>) else (cs\<lparr>cs_em := em\<rparr>, True)) = (cs1, True)"
    "cs' = connect_commit cr b idx v cs1"
    "core cs' = core (cs\<lparr>cs_st := commit_view v (cs_st cs), cs_chain := cs_chain cs @ [idx]\<rparr>)"
proof -
  obtain b got where b: "read_block cr cs idx True = Some (b, got)"
    using assms by (auto simp: connect_block_def split: option.splits)
  let ?ih = "b_height cs idx"
  let ?run = "apply_txs cr (us_reader (cs_st cs)) (word_of_int ?ih) (genesis_hash (cs_p cs)) (got \<and> ?ih > 0)
       (tl (txs b)) (apply_coinbase cr (hd (txs b)) (word_of_int ?ih) empty_view) 0"
  note c = assms [unfolded connect_block_def b option.case prod.case Let_def]
  have mm: "\<not> commit_mismatch cs idx" using c by (auto split: if_splits)
  obtain v fees where v: "?run = Inr (v, fees)" using c mm by (cases ?run) (auto split: if_splits)
  obtain subsidy em where se: "(subsidy, em) = (if ?ih > 0 then block_subsidy (word_of_int ?ih) (cs_em cs) else (0, cs_em cs))"
    by (metis surj_pair)
  note c2 = c [unfolded v sum.case prod.case se [symmetric]]
  have le: "?ih > 0 \<Longrightarrow> total_qnt_out (hd (txs b)) \<le> subsidy + fees"
    using c2 by (auto split: if_splits simp: not_less)
  obtain cs1 ok where cs1: "(if ?ih > 0 then write_undo idx (undo_of_view v) (cs\<lparr>cs_em := em\<rparr>) else (cs\<lparr>cs_em := em\<rparr>, True)) = (cs1, ok)"
    by fastforce
  have k1: "core cs1 = core cs" using cs1 by (auto split: if_splits dest: core_undo)
  have ok: "ok" using c2 cs1 by (auto split: if_splits)
  have e: "cs' = connect_commit cr b idx v cs1" using c2 cs1 ok by (auto split: if_splits)
  then have k: "core cs' = core (cs\<lparr>cs_st := commit_view v (cs_st cs), cs_chain := cs_chain cs @ [idx]\<rparr>)"
    using k1 by (simp add: core_connect_commit core_iff)
  show thesis using b v mm se le cs1 [unfolded ok if_True] e k by (intro that) (simp_all add: ok)
qed

lemma connect_block_failed: "connect_block cr idx cs = (cs', Inl why) \<Longrightarrow> core cs' = core cs"
  by (auto simp: connect_block_def Let_def split: option.splits sum.splits prod.splits if_splits dest: core_undo)

lemma disconnect_tip_parts:
  assumes "disconnect_tip cr cs = (cs', Inr u)"
  obtains b w un where "read_block cr cs (the_tip cs) False = Some (b, w)" "read_undo cs (the_tip cs) = Some un"
    "b_height cs (the_tip cs) \<noteq> 0"
    "core cs' = core (cs\<lparr>cs_st := undo_block cr b un (cs_st cs), cs_chain := butlast (cs_chain cs)\<rparr>)"
proof -
  from assms have h: "b_height cs (the_tip cs) \<noteq> 0" "\<not> bi_from_snapshot (deref cs (the_tip cs))"
    by (auto simp: disconnect_tip_def Let_def split: if_splits)
  from assms h obtain b w un where r: "read_block cr cs (the_tip cs) False = Some (b, w)" "read_undo cs (the_tip cs) = Some un"
    by (auto simp: disconnect_tip_def Let_def split: option.splits)
  define cs2 where "cs2 = index_block_txs cr b (the_tip cs) False (cs\<lparr>cs_st := undo_block cr b un (cs_st cs)\<rparr>)"
  have c2: "core cs2 = core (cs\<lparr>cs_st := undo_block cr b un (cs_st cs)\<rparr>)" by (simp add: cs2_def)
  have "cs' = cs2\<lparr>cs_chain := butlast (cs_chain cs2), cs_events := cs_events cs2 @ [EvDisconnect b (the_tip cs)]\<rparr>"
    using assms h r by (auto simp: disconnect_tip_def Let_def cs2_def)
  then have "core cs' = core (cs\<lparr>cs_st := undo_block cr b un (cs_st cs), cs_chain := butlast (cs_chain cs)\<rparr>)"
    using c2 by (simp add: core_iff)
  with r h(1) show thesis by (intro that)
qed

lemma disconnect_tip_failed: "disconnect_tip cr cs = (cs', Inl why) \<Longrightarrow> cs' = cs"
  by (auto simp: disconnect_tip_def Let_def split: if_splits option.splits prod.splits)

section \<open>The chain stays linked\<close>

lemma core_deref: "cs_index cs' = cs_index cs \<Longrightarrow> deref cs' h = deref cs h" "cs_index cs' = cs_index cs \<Longrightarrow> known cs' h = known cs h"
  by (simp_all add: deref_def known_def)

lemma tip_height:
  assumes "chain_ok cs"
  shows "known cs (the_tip cs)" "b_height cs (the_tip cs) = cs_height cs" "in_active_chain cs (the_tip cs)"
proof -
  have ne: "cs_chain cs \<noteq> []" using assms by (simp add: chain_ok_def)
  then have t: "the_tip cs = cs_chain cs ! (length (cs_chain cs) - 1)" by (simp add: the_tip_def last_conv_nth)
  have l: "length (cs_chain cs) - 1 < length (cs_chain cs)" using ne by simp
  show k: "known cs (the_tip cs)" and h: "b_height cs (the_tip cs) = cs_height cs"
    using assms l ne unfolding chain_ok_def t by (auto simp: cs_height_def of_nat_diff Suc_leI)
  have "nat (int (length (cs_chain cs)) - 1) = length (cs_chain cs) - 1" by linarith
  then show "in_active_chain cs (the_tip cs)" using ne t unfolding in_active_chain_def h
    by (simp add: at_height_def cs_height_def)
qed

lemma tree_core:
  "core cs' = core cs \<Longrightarrow> tree_ok cs' = tree_ok cs"
proof -
  have "tree_ok cs'" if "core cs' = core cs" "tree_ok cs" for cs cs'
    using that by (intro same_tree_ok [of cs cs']) (simp_all add: core_iff)
  then show "core cs' = core cs \<Longrightarrow> tree_ok cs' = tree_ok cs" by metis
qed

lemma tree_extend:
  assumes "tree_ok cs" "known cs b" "bi_prev (deref cs b) = Some (the_tip cs)"
    and "cs_index cs' = cs_index cs" "cs_chain cs' = cs_chain cs @ [b]"
  shows "tree_ok cs'"
proof -
  have iok: "index_ok cs" and cok: "chain_ok cs" using assms(1) by (simp_all add: tree_ok_def)
  have "b_height cs b = b_height cs (the_tip cs) + 1"
    using known_parts(3) [OF iok assms(2)] assms(3) by simp
  then have h: "b_height cs b = int (length (cs_chain cs))" using tip_height(2) [OF cok] by (simp add: cs_height_def)
  have ne: "cs_chain cs \<noteq> []" using cok by (simp add: chain_ok_def)
  have "index_ok cs'" using same_tree_index_ok [of cs cs'] iok assms(4) by simp
  moreover have "chain_ok cs'"
    unfolding chain_ok_def core_deref [OF assms(4)] assms(5)
  proof (intro conjI allI impI)
    fix i assume i: "i < length (cs_chain cs @ [b])"
    show "known cs ((cs_chain cs @ [b]) ! i)" "b_height cs ((cs_chain cs @ [b]) ! i) = int i"
      using i cok assms(2) h by (auto simp: nth_append chain_ok_def less_Suc_eq)
    show "bi_prev (deref cs ((cs_chain cs @ [b]) ! i)) = Some ((cs_chain cs @ [b]) ! (i - 1))" if "0 < i"
      using i cok assms(3) that ne
      by (cases "i = length (cs_chain cs)") (auto simp: nth_append chain_ok_def the_tip_def last_conv_nth less_Suc_eq)
  qed simp
  ultimately show ?thesis by (simp add: tree_ok_def)
qed

lemma tree_shrink:
  assumes "tree_ok cs" "cs_index cs' = cs_index cs" "cs_chain cs' = butlast (cs_chain cs)" "cs_chain cs' \<noteq> []"
  shows "tree_ok cs'"
proof -
  have "index_ok cs'" using same_tree_index_ok [of cs cs'] assms by (simp add: tree_ok_def)
  moreover have "chain_ok cs'"
    using assms(1,4) unfolding tree_ok_def chain_ok_def core_deref [OF assms(2)] assms(3) by (simp add: nth_butlast)
  ultimately show ?thesis by (simp add: tree_ok_def)
qed

section \<open>Headers\<close>

definition refs_ok :: "chainstate \<Rightarrow> bool" where
  "refs_ok cs \<longleftrightarrow> (\<forall>c\<in>set (cs_candidates cs). known cs c) \<and> (\<forall>b. cs_best_header cs = Some b \<longrightarrow> known cs b)
     \<and> known cs (genesis_hash (cs_p cs))"

lemma refs_index:
  assumes "cs_index cs' = cs_index cs" "set (cs_candidates cs') \<subseteq> set (cs_candidates cs)"
    "cs_best_header cs' = cs_best_header cs" "cs_p cs' = cs_p cs" "refs_ok cs"
  shows "refs_ok cs'"
  using assms(2-5) unfolding refs_ok_def core_deref(2) [OF assms(1)] by auto

lemma refs_core: "core cs' = core cs \<Longrightarrow> refs_ok cs' = refs_ok cs"
  using refs_index [of cs' cs] refs_index [of cs cs'] by (auto simp: core_iff)

lemma accept_header_ok:
  assumes "accept_header cr h cs = (cs', HOk, why, out)"
  shows "\<not> known cs (header_hash cr h)" "known cs (h_prev h)" "check_header cr cs h (h_prev h) = Inr ()"
    "out = Some (header_hash cr h)" "core cs' = core (fst (add_index cr h cs))"
proof -
  have nk: "\<not> known cs (header_hash cr h)"
    using assms by (auto simp: accept_header_def cs_lookup_iff split: option.splits if_splits)
  then have l: "cs_lookup cs (header_hash cr h) = None" by (simp add: cs_lookup_iff)
  have k: "known cs (h_prev h)"
    using assms l by (auto simp: accept_header_def cs_lookup_iff split: option.splits)
  then have l2: "cs_lookup cs (h_prev h) = Some (h_prev h)" by (simp add: cs_lookup_iff)
  have c: "check_header cr cs h (h_prev h) = Inr ()"
    using assms l l2 by (auto simp: accept_header_def split: sum.splits)
  show "\<not> known cs (header_hash cr h)" "known cs (h_prev h)" "check_header cr cs h (h_prev h) = Inr ()" by fact+
  show "out = Some (header_hash cr h)" "core cs' = core (fst (add_index cr h cs))"
    using assms l l2 c add_index_nodes(7) [OF nk k] by (auto simp: accept_header_def split: prod.splits)
qed

lemma accept_header_same: "accept_header cr h cs = (cs', r, why, out) \<Longrightarrow> r \<noteq> HOk \<Longrightarrow> cs' = cs"
  by (auto simp: accept_header_def split: option.splits sum.splits prod.splits if_splits)

lemma accept_header_out:
  "accept_header cr h cs = (cs', r, why, out) \<Longrightarrow> r = HOk \<or> r = HKnown \<Longrightarrow> out = Some (header_hash cr h)"
  using accept_header_ok(4) [of cr h cs cs' why out]
  by (auto simp: accept_header_def cs_lookup_iff split: option.splits sum.splits prod.splits if_splits)

lemma add_index_refs:
  assumes "refs_ok cs" "\<not> known cs (header_hash cr h)" "known cs (h_prev h)"
  shows "refs_ok (fst (add_index cr h cs))"
proof -
  note n = add_index_nodes(1) [OF assms(2,3)]
  have l: "cs_lookup cs (h_prev h) = Some (h_prev h)" using assms(3) by (simp add: cs_lookup_iff)
  have f: "cs_candidates (fst (add_index cr h cs)) = cs_candidates cs" "cs_p (fst (add_index cr h cs)) = cs_p cs"
    "cs_best_header (fst (add_index cr h cs)) \<in> {cs_best_header cs, Some (header_hash cr h)}"
    by (auto simp: add_index_def l Let_def upd_index_def)
  then show ?thesis using assms(1) n by (auto simp: refs_ok_def)
qed

lemma accept_header_tree:
  assumes "tree_ok cs" "refs_ok cs" "accept_header cr h cs = (cs', r, why, out)"
  shows "tree_ok cs' \<and> refs_ok cs'"
proof (cases "r = HOk")
  case True
  note a = accept_header_ok [OF assms(3) [unfolded True]]
  show ?thesis
    using add_index_tree_ok [OF assms(1) a(1,2)] add_index_refs [OF assms(2) a(1,2)] tree_core [OF a(5)] refs_core [OF a(5)]
    by blast
next
  case False
  then show ?thesis using accept_header_same [OF assms(3)] assms(1,2) by simp
qed

section \<open>Reorganisations\<close>

lemma back_to_active_desc:
  "index_ok cs \<Longrightarrow> known cs b \<Longrightarrow> back_to_active cs n b = Some f \<Longrightarrow> in_active_chain cs f \<and> desc cs f b"
proof (induction n arbitrary: b)
  case (Suc n)
  show ?case
  proof (cases "in_active_chain cs b")
    case True
    then show ?thesis using Suc.prems desc_refl by simp
  next
    case False
    then obtain p where p: "bi_prev (deref cs b) = Some p" "back_to_active cs n p = Some f"
      using Suc.prems(3) by (auto split: option.splits)
    have h: "known cs p" "b_height cs b = b_height cs p + 1"
      using known_parts(3) [OF Suc.prems(1,2)] p(1) by simp_all
    from Suc.IH [OF Suc.prems(1) h(1) p(2)] obtain k where k: "in_active_chain cs f" "int k \<le> b_height cs p" "up cs k p = Some f"
      by (auto simp: desc_def)
    then have "up cs (Suc k) b = Some f" "int (Suc k) \<le> b_height cs b" using p(1) h(2) by auto
    then show ?thesis using k(1) Suc.prems(2) unfolding desc_def by blast
  qed
qed simp

lemma desc_trans_up:
  assumes "index_ok cs" "known cs b" "int m \<le> b_height cs b" "up cs m b = Some a" "desc cs f a"
  shows "desc cs f b"
proof -
  obtain n where n: "int n \<le> b_height cs a" "up cs n a = Some f" using assms(5) by (auto simp: desc_def)
  have "b_height cs a = b_height cs b - int m" using up_height [OF assms(1-3)] assms(4) by auto
  then have "int (m + n) \<le> b_height cs b" "up cs (m + n) b = Some f" using n assms(4) by (auto simp: up_add)
  then show ?thesis using assms(2) unfolding desc_def by blast
qed

lemma fork_point_desc:
  assumes "tree_ok cs" "known cs b" "fork_point cs b = Some f"
  shows "in_active_chain cs f" "desc cs f b" "known cs f"
proof -
  have iok: "index_ok cs" and cok: "chain_ok cs" using assms(1) by (simp_all add: tree_ok_def)
  let ?h = "min (b_height cs b) (b_height cs (the_tip cs))"
  obtain a where a: "ancestor cs b ?h = Some a" "back_to_active cs (rounds cs a) a = Some f"
    using assms(3) by (auto simp: fork_point_def split: option.splits)
  have h0: "0 \<le> ?h" "?h \<le> b_height cs b"
    using height_nonneg [OF iok assms(2)] height_nonneg [OF iok tip_height(1) [OF cok]] by auto
  have u: "up cs (nat (b_height cs b - ?h)) b = Some a" using ancestor_correct [OF assms(1,2) h0] a(1) by simp
  have n: "int (nat (b_height cs b - ?h)) \<le> b_height cs b" using h0 by simp
  have ka: "known cs a" using up_height [OF iok assms(2) n] u by auto
  from back_to_active_desc [OF iok ka a(2)] have f: "in_active_chain cs f" "desc cs f a" by auto
  show "in_active_chain cs f" by (rule f(1))
  show "desc cs f b" using desc_trans_up [OF iok assms(2) n u f(2)] .
  show "known cs f"
    using up_height [OF iok ka] f(2) unfolding desc_def by (metis option.inject)
qed

text \<open>A path of blocks, each the successor of the one before.\<close>

primrec linked :: "chainstate \<Rightarrow> hash256 \<Rightarrow> hash256 list \<Rightarrow> bool" where
  "linked cs f [] \<longleftrightarrow> True"
| "linked cs f (x # xs) \<longleftrightarrow> known cs x \<and> bi_prev (deref cs x) = Some f \<and> linked cs x xs"

lemma linked_snoc: "linked cs f (xs @ [b]) \<longleftrightarrow> linked cs f xs \<and> known cs b \<and> bi_prev (deref cs b) = Some (last (f # xs))"
  by (induction xs arbitrary: f) auto

lemma linked_cong: "cs_index cs' = cs_index cs \<Longrightarrow> linked cs' f xs = linked cs f xs"
proof (induction xs arbitrary: f)
  case (Cons x xs)
  then show ?case using core_deref [OF Cons.prems, of x] by simp
qed simp

lemma walk_back_linked:
  "index_ok cs \<Longrightarrow> known cs b \<Longrightarrow> int n \<le> b_height cs b \<Longrightarrow> up cs n b = Some f \<Longrightarrow> n < m \<Longrightarrow>
   linked cs f (rev (walk_back cs (\<lambda>w. w = f) m b)) \<and> last (f # rev (walk_back cs (\<lambda>w. w = f) m b)) = b"
proof (induction n arbitrary: b m)
  case 0
  then show ?case by (cases m) auto
next
  case (Suc n)
  obtain p where p: "bi_prev (deref cs b) = Some p" "known cs p" "b_height cs p = b_height cs b - 1"
    using node_prev [OF Suc.prems(1,2)] Suc.prems(3) by auto
  have "b_height cs f < b_height cs b"
    using up_height [OF Suc.prems(1,2,3)] Suc.prems(4) by auto
  then have ne: "b \<noteq> f" by auto
  obtain k where m: "m = Suc k" "n < k" using Suc.prems(5) by (cases m) auto
  from Suc.IH [OF Suc.prems(1) p(2) _ _ m(2)] p Suc.prems(3,4)
  have "linked cs f (rev (walk_back cs (\<lambda>w. w = f) k p))" "last (f # rev (walk_back cs (\<lambda>w. w = f) k p)) = p" by auto
  then show ?case using m ne p(1) Suc.prems(2) by (simp add: linked_snoc)
qed

lemma path_to_linked:
  assumes "index_ok cs" "desc cs f b"
  shows "linked cs f (path_to cs f b)" "last (f # path_to cs f b) = b"
proof -
  obtain n where n: "known cs b" "int n \<le> b_height cs b" "up cs n b = Some f" using assms(2) by (auto simp: desc_def)
  have "n < rounds cs b" using n(2) by (simp add: rounds_def)
  from walk_back_linked [OF assms(1) n this] show "linked cs f (path_to cs f b)" "last (f # path_to cs f b) = b"
    by (simp_all add: path_to_def)
qed

text \<open>The part of the state no reorganisation changes.\<close>

definition fixed :: "chainstate \<Rightarrow> chainstate \<Rightarrow> bool" where
  "fixed cs cs' \<longleftrightarrow> same_tree cs cs' \<and> cs_p cs' = cs_p cs \<and> cs_dir cs' = cs_dir cs"

lemma fixed_refl [simp]: "fixed cs cs"
  by (simp add: fixed_def)

lemma fixed_trans [trans]: "fixed a b \<Longrightarrow> fixed b c \<Longrightarrow> fixed a c"
  by (auto simp: fixed_def intro: same_tree_trans)

lemma fixed_core: "core cs' = core cs \<Longrightarrow> fixed cs cs'"
  by (simp add: fixed_def core_iff)

lemma fixed_tree: "fixed cs cs' \<Longrightarrow> same_tree cs cs'"
  by (simp add: fixed_def)

lemma desc_fixed:
  assumes "fixed cs cs'"
  shows "desc cs' f b = desc cs f b"
  unfolding desc_def same_tree_deref(1) [OF fixed_tree [OF assms]] same_tree_fields(3) [OF fixed_tree [OF assms]]
    same_tree_up [OF fixed_tree [OF assms]] ..

lemma disconnect_to_tree:
  assumes "tree_ok cs" "refs_ok cs" "disconnect_to cr f cs = (cs', ok)"
  shows "tree_ok cs' \<and> refs_ok cs' \<and> fixed cs cs' \<and> (ok \<longrightarrow> the_tip cs' = f)"
  using assms
proof (induction cr f cs rule: disconnect_to.induct)
  case (1 cr f cs)
  have ne: "cs_chain cs \<noteq> []" using "1.prems"(1) by (simp add: tree_ok_def chain_ok_def)
  show ?case
  proof (cases "the_tip cs = f")
    case True
    then show ?thesis using "1.prems" by (simp add: disconnect_to.simps)
  next
    case False
    obtain cs1 r where d: "disconnect_tip cr cs = (cs1, r)" by force
    show ?thesis
    proof (cases r)
      case (Inl why)
      then have "cs' = cs" "\<not> ok"
        using "1.prems"(3) d ne False disconnect_tip_failed [of cr cs cs1 why] by (auto simp: disconnect_to.simps)
      then show ?thesis using "1.prems" by simp
    next
      case (Inr u)
      obtain b w un where p: "b_height cs (the_tip cs) \<noteq> 0"
        "core cs1 = core (cs\<lparr>cs_st := undo_block cr b un (cs_st cs), cs_chain := butlast (cs_chain cs)\<rparr>)"
        using d Inr by (auto elim: disconnect_tip_parts)
      have c: "cs_index cs1 = cs_index cs" "cs_chain cs1 = butlast (cs_chain cs)" "cs_candidates cs1 = cs_candidates cs"
        "cs_best_header cs1 = cs_best_header cs" "cs_p cs1 = cs_p cs" "cs_dir cs1 = cs_dir cs"
        using p(2) by (simp_all add: core_iff)
      have "length (cs_chain cs) \<noteq> 1"
        using p(1) tip_height(2) [of cs] "1.prems"(1) by (auto simp: tree_ok_def cs_height_def)
      then have ne1: "cs_chain cs1 \<noteq> []" using ne by (cases "cs_chain cs") (auto simp: c(2))
      have t1: "tree_ok cs1" by (rule tree_shrink [OF "1.prems"(1) c(1,2) ne1])
      have r1: "refs_ok cs1" using "1.prems"(2) c by (intro refs_index [of cs1 cs]) simp_all
      have f1: "fixed cs cs1" using c by (simp add: fixed_def)
      have "disconnect_to cr f cs1 = (cs', ok)"
        using "1.prems"(3) d ne False Inr by (subst (asm) disconnect_to.simps) simp
      from "1.IH" [OF _ d [symmetric] Inr t1 r1 this] ne False show ?thesis using fixed_trans [OF f1] by blast
    qed
  qed
qed

lemma connect_path_tree:
  "tree_ok cs \<Longrightarrow> refs_ok cs \<Longrightarrow> linked cs (the_tip cs) path \<Longrightarrow>
   \<exists>cs' st. connect_path cr path cs = Some (cs', st) \<and> tree_ok cs' \<and> refs_ok cs' \<and> fixed cs cs'"
proof (induction path arbitrary: cs)
  case (Cons b bs)
  obtain cs1 r where d: "connect_block cr b cs = (cs1, r)" by force
  have kb: "known cs b" "bi_prev (deref cs b) = Some (the_tip cs)" "linked cs b bs" using Cons.prems(3) by auto
  show ?case
  proof (cases r)
    case (Inl why)
    have c: "core cs1 = core cs" using connect_block_failed d Inl by simp
    have t1: "tree_ok cs1" "refs_ok cs1" "fixed cs cs1" using tree_core [OF c] refs_core [OF c] fixed_core [OF c] Cons.prems(1,2) by simp_all
    show ?thesis
    proof (cases "why = ''missing-witness'' \<or> why = ''read-failed''")
      case True
      then show ?thesis using d Inl t1 by auto
    next
      case False
      have k1: "index_ok cs1" "known cs1 b" using t1(1) kb(1) c core_deref(2) [of cs1 cs b] by (simp_all add: tree_ok_def core_iff)
      obtain cs2 where m: "mark_failed b cs1 = Some cs2" "same_tree cs1 cs2" "same_rest cs1 cs2"
        "set (cs_candidates cs2) \<subseteq> set (cs_candidates cs1)" "cs_best_header cs2 = cs_best_header (choose_best_header cs2)"
        by (rule mark_failed_ends [OF k1]) blast
      have t2: "tree_ok cs2" using same_tree_ok [OF m(2)] m(3) t1(1) by (simp add: same_rest_def)
      have kn: "known cs2 h = known cs1 h" for h using same_tree_deref(1) [OF m(2)] .
      have g: "known cs2 (genesis_hash (cs_p cs2))" using t1(2) m(3) kn by (simp add: refs_ok_def same_rest_def)
      have "known cs2 bh" if "cs_best_header cs2 = Some bh" for bh
        using best_header_known [OF g] m(5) that by simp
      then have r2: "refs_ok cs2" using t1(2) m(3,4) kn g by (auto simp: refs_ok_def same_rest_def)
      have "fixed cs cs2" using t1(3) m(2,3) by (auto simp: fixed_def same_rest_def intro: same_tree_trans)
      then show ?thesis using d Inl False m(1) t2 r2 by auto
    qed
  next
    case (Inr u)
    obtain v where p: "core cs1 = core (cs\<lparr>cs_st := commit_view v (cs_st cs), cs_chain := cs_chain cs @ [b]\<rparr>)"
      using d Inr by (auto elim!: connect_block_parts)
    have c: "cs_index cs1 = cs_index cs" "cs_chain cs1 = cs_chain cs @ [b]" "cs_candidates cs1 = cs_candidates cs"
      "cs_best_header cs1 = cs_best_header cs" "cs_p cs1 = cs_p cs" "cs_dir cs1 = cs_dir cs"
      using p by (simp_all add: core_iff)
    have t1: "tree_ok cs1" by (rule tree_extend [OF Cons.prems(1) kb(1,2) c(1,2)])
    have r1: "refs_ok cs1" using Cons.prems(2) c by (intro refs_index [of cs1 cs]) simp_all
    define cs2 where "cs2 = cs1\<lparr>cs_blocks_since_flush := cs_blocks_since_flush cs1 + 1\<rparr>"
    define cs3 where "cs3 = (if cs_blocks_since_flush cs2 \<ge> (if is_initial_sync cs2 then 5000 else 100) then flush cr cs2 else cs2)"
    have k3: "core cs3 = core cs1" by (simp add: cs3_def cs2_def)
    have "linked cs3 (the_tip cs3) bs"
      using kb(3) k3 c(1,2) linked_cong [of cs3 cs] by (simp add: core_iff the_tip_def)
    from Cons.IH [OF _ _ this] obtain cs' st where
      i: "connect_path cr bs cs3 = Some (cs', st)" "tree_ok cs'" "refs_ok cs'" "fixed cs3 cs'"
      using tree_core [OF k3] refs_core [OF k3] t1 r1 by blast
    have "fixed cs cs3" using c k3 by (simp add: fixed_def core_iff)
    with i(4) have "fixed cs cs'" by (blast intro: fixed_trans)
    then show ?thesis using d Inr i(1-3) by (auto simp: cs2_def cs3_def Let_def)
  qed
qed (auto intro: exI [of _ False])

lemma best_candidate_known:
  assumes "tree_ok cs" "refs_ok cs"
  shows "known cs (best_candidate cs)"
proof (cases "filter (\<lambda>c. \<not> bi_failed (deref cs c)) (rev (cs_candidates cs))")
  case Nil
  then show ?thesis using tip_height(1) assms(1) by (simp add: best_candidate_def tree_ok_def)
next
  case (Cons c rest)
  then have "c \<in> set (cs_candidates cs)" using list.set_intros(1) [of c rest] unfolding Cons [symmetric] by simp
  then show ?thesis using Cons assms tip_height(1) by (auto simp: best_candidate_def refs_ok_def tree_ok_def)
qed

lemma activate_loop_tree:
  "tree_ok cs \<Longrightarrow> refs_ok cs \<Longrightarrow> \<exists>cs'. activate_loop cr guard cs = Some cs' \<and> tree_ok cs' \<and> refs_ok cs' \<and> fixed cs cs'"
proof (induction cr guard cs rule: activate_loop.induct)
  case (1 cr guard cs)
  let ?cand = "best_candidate cs"
  let ?stop = "guard \<ge> 1000000 \<or> ?cand = the_tip cs \<or> u256_le (b_work cs ?cand) (b_work cs (the_tip cs)) \<or> fork_point cs ?cand = None"
  show ?case
  proof (cases ?stop)
    case True
    then have "activate_loop cr guard cs = Some cs" by (subst activate_loop.simps) (auto simp: Let_def)
    then show ?thesis using "1.prems" by simp
  next
    case False
    then obtain f where f: "fork_point cs ?cand = Some f" by auto
    have kc: "known cs ?cand" using best_candidate_known [OF "1.prems"] .
    note fd = fork_point_desc [OF "1.prems"(1) kc f]
    obtain cs1 ok where d: "disconnect_to cr f cs = (cs1, ok)" by force
    from disconnect_to_tree [OF "1.prems" d] have t1: "tree_ok cs1" "refs_ok cs1" "fixed cs cs1" "ok \<longrightarrow> the_tip cs1 = f" by auto
    show ?thesis
    proof (cases ok)
      case False': False
      then have "activate_loop cr guard cs = Some cs1" using False f d by (subst activate_loop.simps) (simp add: Let_def)
      then show ?thesis using t1 by simp
    next
      case True
      have ic1: "index_ok cs1" using t1(1) by (simp add: tree_ok_def)
      have "desc cs1 f ?cand" using fd(2) desc_fixed [OF t1(3)] by simp
      from path_to_linked(1) [OF ic1 this] t1(4) True have "linked cs1 (the_tip cs1) (path_to cs1 f ?cand)" by simp
      from connect_path_tree [OF t1(1,2) this, of cr] obtain cs2 st where
        c: "connect_path cr (path_to cs1 f ?cand) cs1 = Some (cs2, st)" "tree_ok cs2" "refs_ok cs2" "fixed cs1 cs2" by blast
      have fx: "fixed cs cs2" using fixed_trans [OF t1(3) c(4)] .
      have eq: "activate_loop cr guard cs = (if st then Some cs2 else activate_loop cr (guard + 1) cs2)"
        using False f d True c(1) by (subst activate_loop.simps) (simp add: Let_def)
      show ?thesis
      proof (cases st)
        case True
        then show ?thesis using eq c fx by simp
      next
        case nst: False
        have "\<exists>cs'. activate_loop cr (guard + 1) cs2 = Some cs' \<and> tree_ok cs' \<and> refs_ok cs' \<and> fixed cs2 cs'"
          using "1.IH" f d True c(1-3) nst False by fastforce
        then show ?thesis using eq nst fixed_trans [OF fx] by auto
      qed
    qed
  qed
qed

lemma activate_best_chain_tree:
  assumes "tree_ok cs" "refs_ok cs"
  obtains cs' where "activate_best_chain cr cs = Some cs'" "tree_ok cs'" "refs_ok cs'" "fixed cs cs'"
proof -
  obtain cs1 where a: "activate_loop cr 0 cs = Some cs1" "tree_ok cs1" "refs_ok cs1" "fixed cs cs1"
    using activate_loop_tree [OF assms] by blast
  define cs2 where "cs2 = cs1\<lparr>cs_candidates := dropWhile (\<lambda>c. u256_lt (b_work cs1 c) (b_work cs1 (the_tip cs1))) (cs_candidates cs1)\<rparr>"
  define cs3 where "cs3 = (if the_tip cs2 \<noteq> the_tip cs then cs2\<lparr>cs_events := cs_events cs2 @ [EvTip (the_tip cs2)]\<rparr> else cs2)"
  have e: "activate_best_chain cr cs = Some cs3"
    by (simp add: activate_best_chain_def a(1) cs2_def cs3_def Let_def)
  have i: "cs_index cs3 = cs_index cs1" "cs_chain cs3 = cs_chain cs1" "cs_p cs3 = cs_p cs1" "cs_dir cs3 = cs_dir cs1"
    "cs_best_header cs3 = cs_best_header cs1" "set (cs_candidates cs3) \<subseteq> set (cs_candidates cs1)"
    by (auto simp: cs3_def cs2_def dest: set_dropWhileD)
  have "tree_ok cs3" using same_tree_ok [of cs1 cs3] a(2) i by simp
  moreover have "refs_ok cs3" using a(3) i by (intro refs_index [of cs3 cs1]) simp_all
  moreover have "fixed cs cs3" using a(4) i by (auto simp: fixed_def same_tree_def)
  ultimately show thesis using that e by blast
qed

end
