(* ===== verification/Chain_Connect.thy ===== *)
theory Chain_Connect
  imports Chain_Laws
begin

text \<open>
  One block on the chain, files included: what a block read from disk is, that the undo record written
  by \<open>connect_block\<close> is the one \<open>disconnect_tip\<close> reads, that the two cancel, and what a block can
  add to the supply.
\<close>

section \<open>Sizes of the undo record\<close>

definition view_small :: "nat \<Rightarrow> view \<Rightarrow> bool" where
  "view_small n v \<longleftrightarrow> length (spent_base v) \<le> n \<and> length (pools_before v) \<le> n \<and> length (v_tokens v) \<le> n"

lemma length_al_update: "length (AList.update k v al) \<le> Suc (length al)"
  by (induction al) auto

lemma spend_coin_small: "spend_coin base p v = Inr v' \<Longrightarrow> length (spent_base v') \<le> Suc (length (spent_base v))"
  using length_al_update [of p _ "spent_base v"] by (auto simp: spend_coin_def split: if_splits option.splits)

lemma spend_inputs_small: "spend_inputs base is v = Inr v' \<Longrightarrow> length (spent_base v') \<le> length (spent_base v) + length is"
proof (induction "is" arbitrary: v)
  case (Cons i "is")
  then obtain v1 where "spend_coin base (prev i) v = Inr v1" "spend_inputs base is v1 = Inr v'" by (auto simp: rbind_eq_Inr)
  with Cons.IH [of v1] spend_coin_small [of base "prev i" v v1] show ?case by simp
qed simp

lemma commit_pools_small:
  "length (pools_before (fold (commit_pool base) ts v)) \<le> length (pools_before v) + length ts"
proof (induction ts arbitrary: v)
  case (Cons tp ts)
  have "length (pools_before (commit_pool base tp v)) \<le> Suc (length (pools_before v))"
    using length_al_update [of "fst tp" "rd_pool base (fst tp)" "pools_before v"]
    by (cases tp) (auto simp: commit_pool_def Let_def split: option.splits)
  with Cons.IH [of "commit_pool base tp v"] show ?case by simp
qed simp

lemma commit_tokens_small: "length (v_tokens (commit_tokens ms v)) \<le> length (v_tokens v) + length ms"
proof -
  have "length (fold (\<lambda>(i, t). AList.update i t) ms m) \<le> length m + length ms" for m
  proof (induction ms arbitrary: m)
    case (Cons e ms)
    show ?case using Cons.IH [of "AList.update (fst e) (snd e) m"] length_al_update [of "fst e" "snd e" m]
      by (simp add: case_prod_beta)
  qed simp
  then show ?thesis by (simp add: commit_tokens_parts)
qed

lemma apply_op_small:
  "apply_op cr base v tx height coins i op st = Inr st' \<Longrightarrow>
   length (touched st') \<le> Suc (length (touched st)) \<and> length (minted st') \<le> Suc (length (minted st))"
  using length_al_update [of _ _ "touched st"] length_al_update [of _ _ "minted st"]
  by (cases op) (auto simp: set_pool_def move_flows_def Let_def le_SucI split: if_splits option.splits prod.splits)

lemma apply_ops_small:
  "apply_ops cr base v tx height coins i os st = Inr st' \<Longrightarrow>
   length (touched st') \<le> length (touched st) + length os \<and> length (minted st') \<le> length (minted st) + length os"
proof (induction os arbitrary: i st)
  case (Cons op os)
  then obtain st1 where "apply_op cr base v tx height coins i op st = Inr st1"
    "apply_ops cr base v tx height coins (i + 1) os st1 = Inr st'" by (auto simp: rbind_eq_Inr)
  with Cons.IH [of "i + 1" st1] apply_op_small [of cr base v tx height coins i op st st1] show ?case by simp
qed simp

lemma view_apply_small:
  assumes "view_apply cr base tx height gen sigs v = Inr (fee, v')" "core_ok tx" "view_small n v"
  shows "view_small (n + 10000) v'"
proof -
  obtain fl coins st v1 where
    p: "apply_ops cr base v tx height coins 0 (ops tx)
        \<lparr>plus_f = fl, minus_f = sum_outs (outs tx) [], touched = [], minted = []\<rparr> = Inr st"
      "spend_inputs base (ins tx) v = Inr v1"
      "v' = fold (commit_pool base) (touched st) (commit_tokens (minted st)
        (create_coins (txid cr tx) height False 0 (outs tx) v1))"
    by (rule view_apply_parts [OF assms(1)])
  note len = core_ok_lengths [OF assms(2)]
  have "length (touched st) \<le> 16" "length (minted st) \<le> 16" using apply_ops_small [OF p(1)] len by auto
  then show ?thesis
    using assms(3) spend_inputs_small [OF p(2)] spend_inputs_assets [OF p(2)] spend_inputs_fields [OF p(2)] len
      commit_pools_small [of base "touched st" "commit_tokens (minted st) (create_coins (txid cr tx) height False 0 (outs tx) v1)"]
      commit_tokens_small [of "minted st" "create_coins (txid cr tx) height False 0 (outs tx) v1"]
    by (simp add: view_small_def p(3) commit_pools_parts commit_tokens_parts(2,5) create_coins_assets)
qed

lemma apply_txs_small:
  "apply_txs cr base height gen verify ts v fees = Inr (v', fees') \<Longrightarrow> list_all core_ok ts \<Longrightarrow> view_small n v \<Longrightarrow>
   view_small (n + 10000 * length ts) v'"
proof (induction ts arbitrary: v fees n)
  case (Cons t ts)
  then obtain fee v1 where "view_apply cr base t height gen verify v = Inr (fee, v1)"
    "apply_txs cr base height gen verify ts v1 (fees + fee) = Inr (v', fees')" by (auto split: sum.splits)
  with Cons.IH [of v1 "fees + fee" "n + 10000"] view_apply_small [of cr base t height gen verify v fee v1 n] Cons.prems
  show ?case by (simp add: add.assoc)
qed simp

section \<open>Blocks on disk\<close>

lemma hash_hex_inj: "hash_hex a = hash_hex b \<Longrightarrow> a = b"
  by (metis from_hex_hash_hex option.inject)

lemma paths_differ [simp]:
  "cs_dir cs @ ''/blocks.dat'' \<noteq> undo_path cs h" "cs_dir cs @ ''/blocks.dat'' \<noteq> witness_path cs h"
  "cs_dir cs @ ''/blocks.dat'' \<noteq> snapshot_path cs h"
  "undo_path cs h \<noteq> witness_path cs h'" "undo_path cs h \<noteq> snapshot_path cs h'"
  "undo_path cs h = undo_path cs h' \<longleftrightarrow> h = h'"
  by (auto simp: undo_path_def witness_path_def snapshot_path_def dest: hash_hex_inj)

lemma path_dir: "cs_dir cs' = cs_dir cs \<Longrightarrow> undo_path cs' = undo_path cs \<and> witness_path cs' = witness_path cs \<and> snapshot_path cs' = snapshot_path cs"
  by (simp add: undo_path_def witness_path_def snapshot_path_def fun_eq_iff)

lemma read_witnesses_cores:
  "read_witnesses ts r = Inr (ts', r') \<Longrightarrow> map write_core ts' = map write_core ts \<and> map outs ts' = map outs ts
    \<and> map ins ts' = map ins ts \<and> map core_ok ts' = map core_ok ts"
proof (induction ts arbitrary: r ts')
  case (Cons t ts)
  then obtain t' r1 ts1 where "read_witness t r = Inr (t', r1)" "read_witnesses ts r1 = Inr (ts1, r')" "ts' = t' # ts1"
    by (auto simp: rbind_eq_Inr)
  with Cons.IH [of r1 ts1] show ?case by (auto simp: read_witness_def rbind_eq_Inr)
qed simp

lemma map_txid: "map write_core ts' = map write_core ts \<Longrightarrow> map (txid cr) ts' = map (txid cr) ts"
proof -
  assume a: "map write_core ts' = map write_core ts"
  have e: "map (txid cr) us = map (blake3_tagged cr ctx_TXID) (map write_core us)" for us
    unfolding map_map by (rule map_cong) (simp_all add: txid_def)
  show ?thesis unfolding e a ..
qed

text \<open>A block that is read has cores within the limits; without the witness it is the same block but for it.\<close>

lemma read_block_parts:
  assumes "read_block cr cs idx True = Some (b, got)"
  obtains b0 where "read_block cr cs idx False = Some (b0, False)" "map (txid cr) (txs b0) = map (txid cr) (txs b)"
    "map outs (txs b0) = map outs (txs b)" "list_all core_ok (txs b)" "length (txs b) \<le> MAX_BLOCK_SIZE div 40"
proof -
  let ?n = "deref cs idx"
  let ?file = "case read_file (cs_fs cs) (cs_dir cs @ ''/blocks.dat'') of None \<Rightarrow> [] | Some f \<Rightarrow> f"
  let ?buf = "take (unat (bi_data_len ?n)) (drop (unat (bi_data_pos ?n)) ?file)"
  have h: "bi_have_data ?n" "length ?buf = unat (bi_data_len ?n)"
    using assms by (auto simp: read_block_def Let_def split: if_splits)
  note a = assms [unfolded read_block_def Let_def] 
  obtain b0 r where r: "read_block_core ?buf = Inr (b0, r)" "header_hash cr (header b0) = bi_hash ?n"
    using a h by (auto split: if_splits sum.splits)
  have f: "read_block cr cs idx False = Some (b0, False)"
    using h r by (simp add: read_block_def Let_def)
  have c0: "list_all core_ok (txs b0)" "length (txs b0) \<le> MAX_BLOCK_SIZE div 40"
    using r(1) by (auto simp: read_block_core_def rbind_eq_Inr coresc.rd_iff unat_max_txs list_all_iff)
  have "b = b0 \<or> (\<exists>wb r'. read_block_witness b0 wb = Inr (b, r'))"
    using a h r by (auto split: option.splits sum.splits)
  then have "map write_core (txs b) = map write_core (txs b0) \<and> map outs (txs b) = map outs (txs b0)
      \<and> map core_ok (txs b) = map core_ok (txs b0)"
    using read_witnesses_cores by (fastforce simp: read_block_witness_def rbind_eq_Inr)
  then have m: "map (txid cr) (txs b0) = map (txid cr) (txs b)" "map outs (txs b0) = map outs (txs b)"
    "map core_ok (txs b) = map core_ok (txs b0)" "length (txs b) = length (txs b0)"
    using map_txid [of "txs b" "txs b0" cr] by (auto dest: map_eq_imp_length_eq)
  have "list_all core_ok (txs b)" using c0(1) m(3) by (metis list_all_length nth_map length_map)
  from that [OF f m(1,2) this] c0(2) m(4) show thesis by simp
qed

lemma read_block_frame:
  assumes "cs_index cs' = cs_index cs" "cs_dir cs' = cs_dir cs"
    "read_file (cs_fs cs') (cs_dir cs @ ''/blocks.dat'') = read_file (cs_fs cs) (cs_dir cs @ ''/blocks.dat'')"
  shows "read_block cr cs' idx False = read_block cr cs idx False"
  unfolding read_block_def core_deref(1) [OF assms(1)] assms(2,3) by (simp only: Let_def HOL.simp_thms if_False)

lemma undo_block_cong:
  assumes "map (txid cr) (txs b0) = map (txid cr) (txs b)" "map outs (txs b0) = map outs (txs b)"
  shows "undo_block cr b0 u s = undo_block cr b u s"
proof -
  have e: "fold (uncreate cr) ts0 s = fold (uncreate cr) ts s"
    if "map (txid cr) ts0 = map (txid cr) ts" "map outs ts0 = map outs ts" for ts0 ts s
    using that
  proof (induction ts0 arbitrary: ts s)
    case (Cons t0 ts0)
    from Cons.prems(1) obtain t us where ts: "ts = t # us" by (cases ts) auto
    have r: "map (txid cr) ts0 = map (txid cr) us" "map outs ts0 = map outs us" "txid cr t0 = txid cr t" "outs t0 = outs t"
      using Cons.prems unfolding ts list.map list.inject by (blast+)
    have "uncreate cr t0 s = uncreate cr t s" unfolding uncreate_def r(3,4) ..
    then show ?case unfolding ts fold_Cons comp_apply using Cons.IH [OF r(1,2)] by simp
  qed simp
  show ?thesis unfolding undo_block_def e [OF assms] ..
qed

section \<open>Files of a connected block\<close>

lemma read_after_write:
  "write_cs path data cs = (cs', True) \<Longrightarrow> read_file (cs_fs cs') p = (if p = path then Some data else read_file (cs_fs cs) p)"
  by (auto simp: write_cs_def write_file_atomic_def read_file_def update_conv' split: if_splits)

lemma read_after_failed: "write_cs path data cs = (cs', False) \<Longrightarrow> cs' = cs"
  by (auto simp: write_cs_def write_file_atomic_def split: if_splits)

lemma read_after_drop: "p \<noteq> snapshot_path cs bh \<Longrightarrow> read_file (cs_fs (drop_snapshot bh cs)) p = read_file (cs_fs cs) p"
  by (simp add: drop_snapshot_def read_file_def fs_remove_def delete_conv')

lemma drop_snapshots_dir [simp]: "cs_dir (drop_snapshot bh cs) = cs_dir cs"
  by (simp add: drop_snapshot_def)

lemma read_after_drops:
  "\<forall>h. p \<noteq> snapshot_path cs h \<Longrightarrow> read_file (cs_fs (fold drop_snapshot bhs cs)) p = read_file (cs_fs cs) p"
proof (induction bhs arbitrary: cs)
  case (Cons bh bhs)
  have "snapshot_path (drop_snapshot bh cs) = snapshot_path cs" using path_dir [of "drop_snapshot bh cs" cs] by simp
  with Cons.IH [of "drop_snapshot bh cs"] Cons.prems read_after_drop [of p cs bh] show ?case by simp
qed simp

lemma read_after_snapshot:
  assumes "\<forall>h. p \<noteq> snapshot_path cs h"
  shows "read_file (cs_fs (write_commit_snapshot cr idx cs)) p = read_file (cs_fs cs) p"
proof -
  let ?s = "serialize_state (bi_hash (deref cs (the_tip cs))) (cs_height cs) (cs_st cs)"
  let ?h = "bi_hash (deref cs idx)"
  obtain cs1 ok where w: "write_cs (snapshot_path cs ?h) ?s cs = (cs1, ok)" by force
  show ?thesis
  proof (cases ok)
    case False
    then show ?thesis using w read_after_failed [of "snapshot_path cs ?h" ?s cs cs1] by (simp add: write_commit_snapshot_def Let_def)
  next
    case True
    have d: "cs_dir cs1 = cs_dir cs" using core_write_eq [OF w] by (simp add: core_iff)
    let ?cs2 = "cs1\<lparr>cs_snapshot_hash := AList.update ?h (state_hash cr ?s) (cs_snapshot_hash cs1)\<rparr>"
    have "\<forall>h. p \<noteq> snapshot_path ?cs2 h" using assms path_dir [of ?cs2 cs] d by simp
    from read_after_drops [OF this, of "stale_snapshots ?cs2"] show ?thesis
      using w True read_after_write [of "snapshot_path cs ?h" ?s cs cs1 p] assms by (simp add: write_commit_snapshot_def Let_def)
  qed
qed

lemma read_after_prune:
  "\<forall>b. at_height cs h = Some b \<longrightarrow> p \<noteq> undo_path cs (bi_hash (deref cs b)) \<and> p \<noteq> witness_path cs (bi_hash (deref cs b)) \<Longrightarrow>
   read_file (cs_fs (prune_at h cs)) p = read_file (cs_fs cs) p"
  by (simp add: prune_at_def read_file_def fs_remove_def delete_conv' split: option.splits)

lemma index_txs_fs [simp]: "cs_fs (index_block_txs cr b idx add cs) = cs_fs cs"
  unfolding index_block_txs_def by (rule fold_invariant [where Q = "\<lambda>_. True"]) simp_all

lemma connect_commit_fs:
  assumes "\<forall>h. p \<noteq> snapshot_path cs h"
    and "\<forall>b. at_height (cs\<lparr>cs_chain := cs_chain cs @ [idx]\<rparr>) (b_height cs idx - PRUNE_DEPTH) = Some b \<longrightarrow>
      p \<noteq> undo_path cs (bi_hash (deref cs b)) \<and> p \<noteq> witness_path cs (bi_hash (deref cs b))"
  shows "read_file (cs_fs (connect_commit cr b idx v cs)) p = read_file (cs_fs cs) p"
proof -
  let ?ih = "b_height cs idx"
  define cs1 where "cs1 = index_block_txs cr b idx True (cs\<lparr>cs_st := commit_view v (cs_st cs), cs_chain := cs_chain cs @ [idx]\<rparr>)"
  define cs2 where "cs2 = cs1\<lparr>cs_events := cs_events cs1 @ [EvConnect b idx]\<rparr>"
  define cs3 where "cs3 = (if ?ih > 0 \<and> ?ih mod snapshot_interval (cs_p cs2) = 0 then write_commit_snapshot cr idx cs2 else cs2)"
  have e: "connect_commit cr b idx v cs = (if cs_prune cs3 then prune_at (?ih - PRUNE_DEPTH) cs3 else cs3)"
    by (simp add: connect_commit_def cs1_def cs2_def cs3_def Let_def)
  have c: "core cs3 = core (cs\<lparr>cs_st := commit_view v (cs_st cs), cs_chain := cs_chain cs @ [idx]\<rparr>)"
    "core cs2 = core (cs\<lparr>cs_st := commit_view v (cs_st cs), cs_chain := cs_chain cs @ [idx]\<rparr>)"
    by (simp_all add: cs1_def cs2_def cs3_def)
  have d: "cs_dir cs3 = cs_dir cs" "cs_dir cs2 = cs_dir cs" "cs_index cs3 = cs_index cs" "cs_chain cs3 = cs_chain cs @ [idx]"
    using c by (simp_all add: core_iff)
  have p2: "\<forall>h. p \<noteq> snapshot_path cs2 h" using assms(1) path_dir [OF d(2)] by simp
  have f2: "read_file (cs_fs cs2) p = read_file (cs_fs cs) p" by (simp add: cs2_def cs1_def)
  have f3: "read_file (cs_fs cs3) p = read_file (cs_fs cs) p"
    using read_after_snapshot [OF p2, of cr idx] f2 by (simp add: cs3_def)
  have "at_height cs3 h = at_height (cs\<lparr>cs_chain := cs_chain cs @ [idx]\<rparr>) h" for h using d(4) by (simp add: at_height_def)
  then have "\<forall>b. at_height cs3 (?ih - PRUNE_DEPTH) = Some b \<longrightarrow>
      p \<noteq> undo_path cs3 (bi_hash (deref cs3 b)) \<and> p \<noteq> witness_path cs3 (bi_hash (deref cs3 b))"
    using assms(2) path_dir [OF d(1)] core_deref(1) [OF d(3)] by simp
  from read_after_prune [OF this] f3 show ?thesis by (simp add: e)
qed

section \<open>Connecting and disconnecting cancel\<close>

text \<open>What the checks of \<open>accept_block\<close> leave to the ledger: a block of a coinbase and of transactions
  that pass \<open>check_tx_basic\<close>, none of whose ids has been used before.\<close>

definition block_good :: "crypto \<Rightarrow> bool \<Rightarrow> reader_state \<Rightarrow> block \<Rightarrow> bool" where
  "block_good cr ew base b \<longleftrightarrow> txs b \<noteq> [] \<and> is_coinbase (hd (txs b)) \<and> list_all (tx_valid ew) (tl (txs b))
     \<and> block_fresh cr base (txs b)"

lemma coinbase_small: "view_small 0 (apply_coinbase cr cb height empty_view)"
  by (simp add: view_small_def apply_coinbase_def create_coins_assets create_coins_fields empty_view_def)

text \<open>A connected block: its view is good and is the effect of its transactions on the coins; its undo
  record and its data are on disk.\<close>

lemma connected_view:
  assumes con: "connect_block cr idx cs = (cs', Inr u)" and read: "read_block cr cs idx True = Some (b, got)"
    and good: "block_good cr ew (us_reader (cs_st cs)) b" and ok: "state_ok (us_reader (cs_st cs))"
  obtains v fees where "view_good (us_reader (cs_st cs)) v" "view_small (10000 * 25000) v"
    "view_coin (us_reader (cs_st cs)) v = spec_block cr (word_of_int (b_height cs idx)) (txs b) (us_coin (cs_st cs))"
    "cs_st cs' = commit_view v (cs_st cs)"
    "apply_txs cr (us_reader (cs_st cs)) (word_of_int (b_height cs idx)) (genesis_hash (cs_p cs)) (got \<and> b_height cs idx > 0)
       (tl (txs b)) (apply_coinbase cr (hd (txs b)) (word_of_int (b_height cs idx)) empty_view) 0 = Inr (v, fees)"
    "b_height cs idx > 0 \<Longrightarrow>
       \<exists>em cs1. write_undo idx (undo_of_view v) (cs\<lparr>cs_em := em\<rparr>) = (cs1, True) \<and> cs' = connect_commit cr b idx v cs1"
proof -
  obtain b' got' v fees subsidy em cs1 where p: "read_block cr cs idx True = Some (b', got')"
    "apply_txs cr (us_reader (cs_st cs)) (word_of_int (b_height cs idx)) (genesis_hash (cs_p cs)) (got' \<and> b_height cs idx > 0)
       (tl (txs b')) (apply_coinbase cr (hd (txs b')) (word_of_int (b_height cs idx)) empty_view) 0 = Inr (v, fees)"
    "(if b_height cs idx > 0 then write_undo idx (undo_of_view v) (cs\<lparr>cs_em := em\<rparr>) else (cs\<lparr>cs_em := em\<rparr>, True)) = (cs1, True)"
    "cs' = connect_commit cr b' idx v cs1"
    "core cs' = core (cs\<lparr>cs_st := commit_view v (cs_st cs), cs_chain := cs_chain cs @ [idx]\<rparr>)"
    by (rule connect_block_parts [OF con])
  have b: "b' = b" "got' = got" using p(1) read by simp_all
  have t: "txs b = hd (txs b) # tl (txs b)" "is_coinbase (hd (txs b))" "list_all (tx_valid ew) (tl (txs b))"
    "block_fresh cr (us_reader (cs_st cs)) (hd (txs b) # tl (txs b))"
    using good by (auto simp: block_good_def)
  obtain b0 where r: "list_all core_ok (txs b)" "length (txs b) \<le> MAX_BLOCK_SIZE div 40" by (rule read_block_parts [OF read])
  have c: "core_ok (hd (txs b))" "list_all core_ok (tl (txs b))" using r(1) t(1) by (metis list.pred_inject(2))+
  note a = p(2) [unfolded b]
  note law = block_view_law [OF a t(2) c(1) t(3,4) ok]
  have l: "length (tl (txs b)) \<le> 25000" using r(2) by (simp add: MAX_BLOCK_SIZE_def)
  have "view_small (0 + 10000 * length (tl (txs b))) v" by (rule apply_txs_small [OF a c(2) coinbase_small])
  then have "view_small (10000 * 25000) v" using l by (auto simp: view_small_def)
  moreover have "cs_st cs' = commit_view v (cs_st cs)" using p(5) by (simp add: core_iff)
  moreover have "view_coin (us_reader (cs_st cs)) v = spec_block cr (word_of_int (b_height cs idx)) (txs b) (us_coin (cs_st cs))"
    using law(2) t(1) by (simp add: us_reader_def)
  moreover have "\<exists>em cs1. write_undo idx (undo_of_view v) (cs\<lparr>cs_em := em\<rparr>) = (cs1, True) \<and> cs' = connect_commit cr b idx v cs1"
    if "b_height cs idx > 0" using p(3,4) that unfolding b by auto
  ultimately show thesis using that [OF law(1)] a by blast
qed

lemma undo_survives:
  assumes tree: "tree_ok cs" and idx: "known cs idx" "bi_prev (deref cs idx) = Some (the_tip cs)"
    and un: "write_undo idx (undo_of_view v) (cs\<lparr>cs_em := em\<rparr>) = (cs1, True)" "view_small (10000 * 25000) v"
  shows "read_undo (connect_commit cr b idx v cs1) idx = Some (undo_of_view v)"
    and "read_block cr' (connect_commit cr b idx v cs1) idx False = read_block cr' cs idx False"
proof -
  let ?cs' = "connect_commit cr b idx v cs1"
  have iok: "index_ok cs" and cok: "chain_ok cs" using tree by (simp_all add: tree_ok_def)
  have co: "core cs1 = core cs" using core_undo [OF un(1)] by simp
  then have c1: "cs_index cs1 = cs_index cs" "cs_chain cs1 = cs_chain cs" "cs_dir cs1 = cs_dir cs" by (simp_all add: core_iff)
  have c2: "cs_index ?cs' = cs_index cs" "cs_dir ?cs' = cs_dir cs"
    using core_connect_commit [of cr b idx v cs1] co by (simp_all add: core_iff)
  have h: "b_height cs idx = int (length (cs_chain cs))"
    using known_parts(3) [OF iok idx(1)] idx(2) tip_height(2) [OF cok] by (simp add: cs_height_def)
  have other: "b \<noteq> idx \<and> known cs b"
    if "at_height (cs1\<lparr>cs_chain := cs_chain cs1 @ [idx]\<rparr>) (b_height cs1 idx - PRUNE_DEPTH) = Some b" for b
  proof -
    from that have "b = cs_chain cs ! nat (b_height cs idx - PRUNE_DEPTH)" "nat (b_height cs idx - PRUNE_DEPTH) < length (cs_chain cs)"
      using c1 h core_deref(1) [OF c1(1)] by (auto simp: at_height_def nth_append PRUNE_DEPTH_def split: if_splits)
    then have "known cs b" "b_height cs b = int (nat (b_height cs idx - PRUNE_DEPTH))" using cok by (auto simp: chain_ok_def)
    with h cok show ?thesis by (auto simp: PRUNE_DEPTH_def chain_ok_def split: if_splits)
  qed
  note paths = path_dir [OF c1(3)] path_dir [OF c2(2)]
  have hash: "bi_hash (deref cs idx) = idx" using known_parts(1) [OF iok idx(1)] .
  have "\<forall>b. at_height (cs1\<lparr>cs_chain := cs_chain cs1 @ [idx]\<rparr>) (b_height cs1 idx - PRUNE_DEPTH) = Some b \<longrightarrow>
      undo_path cs idx \<noteq> undo_path cs1 (bi_hash (deref cs1 b)) \<and> undo_path cs idx \<noteq> witness_path cs1 (bi_hash (deref cs1 b))"
  proof (intro allI impI)
    fix b assume "at_height (cs1\<lparr>cs_chain := cs_chain cs1 @ [idx]\<rparr>) (b_height cs1 idx - PRUNE_DEPTH) = Some b"
    then have "b \<noteq> idx" "bi_hash (deref cs b) = b" using other known_parts(1) [OF iok] by blast+
    then show "undo_path cs idx \<noteq> undo_path cs1 (bi_hash (deref cs1 b)) \<and> undo_path cs idx \<noteq> witness_path cs1 (bi_hash (deref cs1 b))"
      unfolding core_deref(1) [OF c1(1)] using paths by simp
  qed
  note fs = connect_commit_fs [OF _ this, of cr b v]
  have "read_file (cs_fs ?cs') (undo_path cs idx) = read_file (cs_fs cs1) (undo_path cs idx)"
    by (rule fs) (simp only: paths paths_differ not_False_eq_True simp_thms)
  also have "\<dots> = Some (undo_bytes (undo_of_view v))"
    using read_after_write [OF un(1) [unfolded write_undo_def], of "undo_path cs idx"] hash path_dir [of "cs\<lparr>cs_em := em\<rparr>" cs]
    by (simp add: deref_def)
  finally have f: "read_file (cs_fs ?cs') (undo_path cs idx) = Some (undo_bytes (undo_of_view v))" .
  have "parse_undo (undo_bytes (undo_of_view v)) = Inr (undo_of_view v)"
    using parse_undo_bytes [of "undo_of_view v" "[]"] un(2) by (simp add: undo_of_view_def view_small_def)
  then show "read_undo ?cs' idx = Some (undo_of_view v)"
    using f hash paths core_deref(1) [OF c2(1)] by (simp add: read_undo_def)
  have "read_file (cs_fs ?cs') (cs_dir cs @ ''/blocks.dat'') = read_file (cs_fs cs1) (cs_dir cs @ ''/blocks.dat'')"
    by (rule connect_commit_fs) (simp_all add: c1(3) [symmetric])
  also have "\<dots> = read_file (cs_fs cs) (cs_dir cs @ ''/blocks.dat'')"
    using read_after_write [OF un(1) [unfolded write_undo_def], of "cs_dir cs @ ''/blocks.dat''"] path_dir [of "cs\<lparr>cs_em := em\<rparr>" cs] by simp
  finally show "read_block cr' ?cs' idx False = read_block cr' cs idx False"
    by (rule read_block_frame [OF c2])
qed

text \<open>The block just connected can be disconnected, and that gives back the ledger and the chain.\<close>

lemma disconnect_connected:
  assumes tree: "tree_ok cs" and idx: "known cs idx" "bi_prev (deref cs idx) = Some (the_tip cs)"
    and snap: "\<not> bi_from_snapshot (deref cs idx)"
    and con: "connect_block cr idx cs = (cs', Inr u)" and read: "read_block cr cs idx True = Some (b, got)"
    and good: "block_good cr ew (us_reader (cs_st cs)) b"
    and st: "us_inv (cs_st cs)" "state_ok (us_reader (cs_st cs))"
  shows "snd (disconnect_tip cr cs') = Inr ()"
    and "us_inv (cs_st (fst (disconnect_tip cr cs')))"
    and "us_reader (cs_st (fst (disconnect_tip cr cs'))) = us_reader (cs_st cs)"
    and "cs_chain (fst (disconnect_tip cr cs')) = cs_chain cs"
    and "cs_index (fst (disconnect_tip cr cs')) = cs_index cs"
proof -
  have iok: "index_ok cs" and cok: "chain_ok cs" using tree by (simp_all add: tree_ok_def)
  have h: "b_height cs idx > 0"
    using known_parts(3) [OF iok idx(1)] idx(2) height_nonneg [OF iok tip_height(1) [OF cok]] by simp
  obtain v fees where v: "view_good (us_reader (cs_st cs)) v" "view_small (10000 * 25000) v"
    "view_coin (us_reader (cs_st cs)) v = spec_block cr (word_of_int (b_height cs idx)) (txs b) (us_coin (cs_st cs))"
    "cs_st cs' = commit_view v (cs_st cs)"
    and w: "b_height cs idx > 0 \<Longrightarrow>
       \<exists>em cs1. write_undo idx (undo_of_view v) (cs\<lparr>cs_em := em\<rparr>) = (cs1, True) \<and> cs' = connect_commit cr b idx v cs1"
    using connected_view [OF con read good st(2)] by metis
  obtain em cs1 where c: "write_undo idx (undo_of_view v) (cs\<lparr>cs_em := em\<rparr>) = (cs1, True)" "cs' = connect_commit cr b idx v cs1"
    using w [OF h] by blast
  have co: "cs_index cs' = cs_index cs" "cs_chain cs' = cs_chain cs @ [idx]"
    using core_connect_commit [of cr b idx v cs1] core_undo [OF c(1)] c(2) by (simp_all add: core_iff)
  then have tip: "the_tip cs' = idx" by (simp add: the_tip_def)
  obtain b0 where b0: "read_block cr cs idx False = Some (b0, False)" "map (txid cr) (txs b0) = map (txid cr) (txs b)"
    "map outs (txs b0) = map outs (txs b)" "list_all core_ok (txs b)" by (rule read_block_parts [OF read])
  have ru: "read_undo cs' idx = Some (undo_of_view v)" "read_block cr cs' idx False = Some (b0, False)"
    using undo_survives [OF tree idx c(1) v(2)] c(2) b0(1) by simp_all
  have len: "\<forall>t\<in>set (txs b). length (outs t) \<le> 10000" using b0(4) core_ok_lengths by (fastforce simp: list_all_iff)
  have "pools_ok (us_pool (cs_st cs))" using st(2) by (simp add: state_ok_def us_reader_def)
  note u = undo_commit [OF st(1) v(1,3) _ len this]
  have u: "us_inv (undo_block cr b0 (undo_of_view v) (cs_st cs'))"
    "us_reader (undo_block cr b0 (undo_of_view v) (cs_st cs')) = us_reader (cs_st cs)"
    using u good unfolding undo_block_cong [OF b0(2,3)] v(4) by (simp_all add: block_good_def)
  define cs2 where "cs2 = index_block_txs cr b0 idx False (cs'\<lparr>cs_st := undo_block cr b0 (undo_of_view v) (cs_st cs')\<rparr>)"
  have d: "disconnect_tip cr cs' = (cs2\<lparr>cs_chain := butlast (cs_chain cs2), cs_events := cs_events cs2 @ [EvDisconnect b0 idx]\<rparr>, Inr ())"
    using h snap ru by (simp add: disconnect_tip_def tip Let_def core_deref(1) [OF co(1)] cs2_def)
  have "core cs2 = core (cs'\<lparr>cs_st := undo_block cr b0 (undo_of_view v) (cs_st cs')\<rparr>)" by (simp add: cs2_def)
  then have "cs_st cs2 = undo_block cr b0 (undo_of_view v) (cs_st cs')" "cs_chain cs2 = cs_chain cs @ [idx]" "cs_index cs2 = cs_index cs"
    using co by (simp_all add: core_iff)
  with u d show "snd (disconnect_tip cr cs') = Inr ()" "us_inv (cs_st (fst (disconnect_tip cr cs')))"
    "us_reader (cs_st (fst (disconnect_tip cr cs'))) = us_reader (cs_st cs)"
    "cs_chain (fst (disconnect_tip cr cs')) = cs_chain cs" "cs_index (fst (disconnect_tip cr cs')) = cs_index cs"
    by simp_all
qed

end
