(* ===== verification/Mempool.thy ===== *)
theory Mempool
  imports Chain_Connect "HOL-Library.Sublist"
begin

text \<open>
  Unconfirmed transactions (\<open>src/src/chain/mempool.h\<close>, \<open>mempool.cpp\<close>). The pool's \<open>view_\<close> refers to the
  chain state, so every operation takes the chain state as an argument and reads the view through it.
  An iterator into \<open>order_\<close> is named by the id of its entry; \<open>by_id_\<close> is then the set of ids. Callbacks
  of \<open>on_added\<close> are recorded in \<open>mp_added\<close>.
\<close>

section \<open>State\<close>

record mempool_entry =
  me_tx :: transaction
  me_txid :: hash256
  me_fee :: amount
  me_size :: nat
  me_time :: int

record mempool =
  mp_order :: "mempool_entry list"
  mp_by_id :: "hash256 list"
  mp_view :: view
  mp_bytes :: u64
  mp_readd :: "transaction list"
  mp_dirty :: bool
  mp_added :: "transaction list"

definition MAX_BYTES :: u64 where "MAX_BYTES = 64 * 1024 * 1024"

definition Mempool_new :: mempool where
  "Mempool_new = \<lparr>mp_order = [], mp_by_id = [], mp_view = empty_view, mp_bytes = 0, mp_readd = [], mp_dirty = False, mp_added = []\<rparr>"

abbreviation cs_reader :: "chainstate \<Rightarrow> reader_state" where
  "cs_reader cs \<equiv> us_reader (cs_st cs)"

abbreviation next_height :: "chainstate \<Rightarrow> u64" where
  "next_height cs \<equiv> word_of_int (cs_height cs + 1)"

section \<open>Operations\<close>

text \<open>The loop of \<open>rebuild\<close>: entries that no longer apply leave the list, the index and the byte count.\<close>

primrec rebuild_loop :: "crypto \<Rightarrow> chainstate \<Rightarrow> mempool_entry list \<Rightarrow> mempool \<Rightarrow> mempool" where
  "rebuild_loop cr cs [] mp = mp"
| "rebuild_loop cr cs (e # es) mp =
     (case view_apply cr (cs_reader cs) (me_tx e) (next_height cs) (genesis_hash (cs_p cs)) False (mp_view mp) of
        Inl reason \<Rightarrow>
          rebuild_loop cr cs es
            (mp\<lparr>mp_bytes := mp_bytes mp - of_nat (me_size e), mp_by_id := removeAll (me_txid e) (mp_by_id mp)\<rparr>)
      | Inr (fee, v) \<Rightarrow>
          rebuild_loop cr cs es (mp\<lparr>mp_view := v, mp_order := mp_order mp @ [e\<lparr>me_fee := fee\<rparr>]\<rparr>))"

definition rebuild :: "crypto \<Rightarrow> chainstate \<Rightarrow> mempool \<Rightarrow> mempool" where
  "rebuild cr cs mp =
     rebuild_loop cr cs (mp_order mp) (mp\<lparr>mp_dirty := False, mp_view := empty_view, mp_order := []\<rparr>)"

definition mp_contains :: "hash256 \<Rightarrow> mempool \<Rightarrow> bool" where
  "mp_contains tid mp \<longleftrightarrow> tid \<in> set (mp_by_id mp)"

definition mp_get :: "hash256 \<Rightarrow> mempool \<Rightarrow> transaction option" where
  "mp_get tid mp =
     (if tid \<notin> set (mp_by_id mp) then None
      else map_option me_tx (List.find (\<lambda>e. me_txid e = tid) (mp_order mp)))"

definition mp_txids :: "mempool \<Rightarrow> hash256 list" where
  "mp_txids mp = map me_txid (mp_order mp)"

definition mp_spends :: "outpoint \<Rightarrow> mempool \<Rightarrow> bool" where
  "mp_spends p mp \<longleftrightarrow> spends (mp_view mp) p"

definition mempool_coin :: "chainstate \<Rightarrow> outpoint \<Rightarrow> mempool \<Rightarrow> coin option" where
  "mempool_coin cs p mp = (if op_txid p \<notin> set (mp_by_id mp) then None else view_coin (cs_reader cs) (mp_view mp) p)"

definition mp_reader :: "chainstate \<Rightarrow> mempool \<Rightarrow> reader_state" where
  "mp_reader cs mp = view_reader (cs_reader cs) (mp_view mp)"

definition min_fee :: "nat \<Rightarrow> amount" where
  "min_fee sz = of_nat sz * MIN_RELAY_FEE_PER_KB div 1000"

definition mp_accept :: "crypto \<Rightarrow> chainstate \<Rightarrow> transaction \<Rightarrow> mempool \<Rightarrow> mempool \<times> unit result" where
  "mp_accept cr cs tx mp0 =
     (let mp = (if mp_dirty mp0 then rebuild cr cs mp0 else mp0);
          tid = txid cr tx;
          sz = length (write_full tx);
          gen = genesis_hash (cs_p cs);
          h = next_height cs
      in if tid \<in> set (mp_by_id mp) then (mp, Inl ''already-in-mempool'')
         else if is_coinbase tx then (mp, Inl ''coinbase'')
         else
           (case check_tx_basic tx True of
              Inl reason \<Rightarrow> (mp, Inl reason)
            | Inr _ \<Rightarrow>
                if sz > 100000 then (mp, Inl ''tx-too-large'')
                else if find_tx_block cs tid \<noteq> None then (mp, Inl ''already-confirmed'')
                else if list_ex (\<lambda>i. spends (mp_view mp) (prev i)) (ins tx) then (mp, Inl ''mempool-conflict'')
                else
                  (case view_apply cr (mp_reader cs mp) tx h gen True empty_view of
                     Inl reason \<Rightarrow> (mp, Inl reason)
                   | Inr (probe_fee, _) \<Rightarrow>
                       if probe_fee < min_fee sz then (mp, Inl (''fee-too-low (need '' @ format_amount (min_fee sz) @ '')''))
                       else if mp_bytes mp + of_nat sz > MAX_BYTES then (mp, Inl ''mempool-full'')
                       else
                         (case view_apply cr (cs_reader cs) tx h gen False (mp_view mp) of
                            Inl reason \<Rightarrow> (mp, Inl reason)
                          | Inr (fee, v) \<Rightarrow>
                              (mp\<lparr>mp_view := v,
                                  mp_order := mp_order mp @
                                    [\<lparr>me_tx = tx, me_txid = tid, me_fee = fee, me_size = sz, me_time = cs_now cs\<rparr>],
                                  mp_by_id := tid # mp_by_id mp,
                                  mp_bytes := mp_bytes mp + of_nat sz,
                                  mp_added := mp_added mp @ [tx]\<rparr>, Inr ())))))"

text \<open>The three callbacks the pool registers with the chain.\<close>

definition mp_drop :: "hash256 \<Rightarrow> mempool \<Rightarrow> mempool" where
  "mp_drop tid mp =
     (if tid \<notin> set (mp_by_id mp) then mp
      else (case List.find (\<lambda>e. me_txid e = tid) (mp_order mp) of
              None \<Rightarrow> mp
            | Some e \<Rightarrow>
                mp\<lparr>mp_bytes := mp_bytes mp - of_nat (me_size e),
                   mp_order := filter (\<lambda>e. me_txid e \<noteq> tid) (mp_order mp),
                   mp_by_id := removeAll tid (mp_by_id mp)\<rparr>))"

definition mp_on_connect :: "crypto \<Rightarrow> block \<Rightarrow> mempool \<Rightarrow> mempool" where
  "mp_on_connect cr b mp = (fold (\<lambda>t. mp_drop (txid cr t)) (txs b) mp)\<lparr>mp_dirty := True\<rparr>"

definition mp_on_disconnect :: "crypto \<Rightarrow> chainstate \<Rightarrow> block \<Rightarrow> mempool \<Rightarrow> mempool" where
  "mp_on_disconnect cr cs b mp =
     (let mp = (case cs_lookup cs (header_hash cr (header b)) of
                  None \<Rightarrow> mp
                | Some idx \<Rightarrow>
                    (case read_block cr cs idx True of
                       None \<Rightarrow> mp
                     | Some (full, _) \<Rightarrow> mp\<lparr>mp_readd := mp_readd mp @ tl (txs full)\<rparr>))
      in mp\<lparr>mp_dirty := True\<rparr>)"

definition mp_on_tip :: "crypto \<Rightarrow> chainstate \<Rightarrow> mempool \<Rightarrow> mempool" where
  "mp_on_tip cr cs mp =
     (let mp = (if mp_dirty mp then rebuild cr cs mp else mp)
      in fold (\<lambda>tx mp. fst (mp_accept cr cs tx mp)) (mp_readd mp) (mp\<lparr>mp_readd := []\<rparr>))"

text \<open>The loop of \<open>select_for_block\<close>; \<open>used\<close> is a \<open>size_t\<close>.\<close>

primrec select_loop :: "crypto \<Rightarrow> chainstate \<Rightarrow> u64 \<Rightarrow> mempool_entry list \<Rightarrow> view \<Rightarrow> u64 \<Rightarrow> amount \<Rightarrow> mempool_entry list \<times> amount" where
  "select_loop cr cs max_bytes [] v used fees = ([], fees)"
| "select_loop cr cs max_bytes (e # es) v used fees =
     (if used + of_nat (me_size e) > max_bytes then select_loop cr cs max_bytes es v used fees
      else (case view_apply cr (cs_reader cs) (me_tx e) (next_height cs) (genesis_hash (cs_p cs)) False v of
              Inl reason \<Rightarrow> select_loop cr cs max_bytes es v used fees
            | Inr (fee, v) \<Rightarrow>
                (let (sel, total) = select_loop cr cs max_bytes es v (used + of_nat (me_size e)) (fees + fee)
                 in (e # sel, total))))"

definition select_for_block :: "crypto \<Rightarrow> chainstate \<Rightarrow> u64 \<Rightarrow> mempool \<Rightarrow> mempool_entry list \<times> amount" where
  "select_for_block cr cs max_bytes mp = select_loop cr cs max_bytes (mp_order mp) empty_view 0 0"

section \<open>Laws\<close>

text \<open>What a pool is at all times: ids, index and byte count agree with the list of entries, and every
  entry passed the checks that need no ledger.\<close>

definition entry_ok :: "crypto \<Rightarrow> mempool_entry \<Rightarrow> bool" where
  "entry_ok cr e \<longleftrightarrow> me_txid e = txid cr (me_tx e) \<and> me_size e = length (write_full (me_tx e)) \<and> me_size e \<le> 100000
     \<and> \<not> is_coinbase (me_tx e) \<and> check_tx_basic (me_tx e) True = Inr ()"

definition total_size :: "mempool_entry list \<Rightarrow> nat" where
  "total_size es = (\<Sum>e\<leftarrow>es. me_size e)"

definition mp_ok :: "crypto \<Rightarrow> mempool \<Rightarrow> bool" where
  "mp_ok cr mp \<longleftrightarrow> distinct (mp_txids mp) \<and> set (mp_by_id mp) = set (mp_txids mp)
     \<and> mp_bytes mp = of_nat (total_size (mp_order mp)) \<and> total_size (mp_order mp) \<le> 67108864
     \<and> list_all (entry_ok cr) (mp_order mp)"

text \<open>Executing the entries in their order on the chain state succeeds and gives the pool's view and
  their fees: the same loop a block goes through.\<close>

definition executes :: "crypto \<Rightarrow> chainstate \<Rightarrow> mempool_entry list \<Rightarrow> view \<Rightarrow> amount \<Rightarrow> bool" where
  "executes cr cs es v fees \<longleftrightarrow> apply_txs cr (cs_reader cs) (next_height cs) (genesis_hash (cs_p cs)) False
     (map me_tx es) empty_view 0 = Inr (v, fees)"

definition mp_inv :: "crypto \<Rightarrow> chainstate \<Rightarrow> mempool \<Rightarrow> bool" where
  "mp_inv cr cs mp \<longleftrightarrow> mp_ok cr mp \<and> (mp_dirty mp \<or> executes cr cs (mp_order mp) (mp_view mp) (\<Sum>e\<leftarrow>mp_order mp. me_fee e))"

lemma total_size_simps [simp]: "total_size [] = 0" "total_size (e # es) = me_size e + total_size es"
  "total_size (es @ fs) = total_size es + total_size fs"
  by (simp_all add: total_size_def)

lemma apply_txs_append:
  "apply_txs cr base h gen verify (ts @ us) v fees =
     rbind (apply_txs cr base h gen verify ts v fees) (\<lambda>(v, fees). apply_txs cr base h gen verify us v fees)"
  by (induction ts arbitrary: v fees) (auto split: sum.splits)

lemma executes_snoc:
  assumes "executes cr cs es v fees"
    and "view_apply cr (cs_reader cs) (me_tx e) (next_height cs) (genesis_hash (cs_p cs)) False v = Inr (fee, v')"
  shows "executes cr cs (es @ [e]) v' (fees + fee)"
  using assms by (simp add: executes_def apply_txs_append)

lemma executes_fee [simp]: "executes cr cs (es @ [e\<lparr>me_fee := f\<rparr>]) v fees = executes cr cs (es @ [e]) v fees"
  by (simp add: executes_def)

lemma subseq_skip: "subseq zs (xs @ ys) \<Longrightarrow> subseq zs (xs @ y # ys)"
  by (erule subseq_order.order_trans) (intro list_emb_append_mono list_emb_Cons subseq_order.order_refl)

text \<open>\<open>mp\<close> holds the entries looked at and \<open>es\<close> those still to come.\<close>

lemma rebuild_loop_inv:
  assumes "mp_ok cr (mp\<lparr>mp_order := mp_order mp @ es\<rparr>)"
    and "executes cr cs (mp_order mp) (mp_view mp) (\<Sum>e\<leftarrow>mp_order mp. me_fee e)"
  shows "mp_ok cr (rebuild_loop cr cs es mp)
    \<and> executes cr cs (mp_order (rebuild_loop cr cs es mp)) (mp_view (rebuild_loop cr cs es mp))
        (\<Sum>e\<leftarrow>mp_order (rebuild_loop cr cs es mp). me_fee e)
    \<and> mp_dirty (rebuild_loop cr cs es mp) = mp_dirty mp \<and> mp_readd (rebuild_loop cr cs es mp) = mp_readd mp
    \<and> subseq (mp_txids (rebuild_loop cr cs es mp)) (mp_txids mp @ map me_txid es)"
  using assms
proof (induction es arbitrary: mp)
  case Nil
  then show ?case by simp
next
  case (Cons e es)
  show ?case
  proof (cases "view_apply cr (cs_reader cs) (me_tx e) (next_height cs) (genesis_hash (cs_p cs)) False (mp_view mp)")
    case (Inl r)
    let ?mp = "mp\<lparr>mp_bytes := mp_bytes mp - of_nat (me_size e), mp_by_id := removeAll (me_txid e) (mp_by_id mp)\<rparr>"
    have "mp_ok cr (?mp\<lparr>mp_order := mp_order ?mp @ es\<rparr>)" using Cons.prems(1) by (auto simp: mp_ok_def mp_txids_def)
    from Cons.IH [OF this] Cons.prems(2) Inl show ?thesis
      by (simp add: mp_txids_def subseq_skip)
  next
    case (Inr p)
    obtain fee v where p: "p = (fee, v)" by force
    let ?mp = "mp\<lparr>mp_view := v, mp_order := mp_order mp @ [e\<lparr>me_fee := fee\<rparr>]\<rparr>"
    have "entry_ok cr (e\<lparr>me_fee := fee\<rparr>) = entry_ok cr e" by (simp add: entry_ok_def)
    then have "mp_ok cr (?mp\<lparr>mp_order := mp_order ?mp @ es\<rparr>)" using Cons.prems(1)
      by (simp add: mp_ok_def mp_txids_def)
    from Cons.IH [OF this] Cons.prems(2) Inr p executes_snoc [of cr cs "mp_order mp" "mp_view mp" _ e fee v]
    show ?thesis by (simp add: mp_txids_def)
  qed
qed

lemma rebuild_inv:
  assumes "mp_ok cr mp"
  shows "mp_inv cr cs (rebuild cr cs mp)" "\<not> mp_dirty (rebuild cr cs mp)" "mp_readd (rebuild cr cs mp) = mp_readd mp"
    "subseq (mp_txids (rebuild cr cs mp)) (mp_txids mp)"
  using rebuild_loop_inv [of cr "mp\<lparr>mp_dirty := False, mp_view := empty_view, mp_order := []\<rparr>" "mp_order mp" cs] assms
  by (simp_all add: rebuild_def mp_inv_def mp_ok_def mp_txids_def executes_def)

text \<open>Accepting either leaves the pool as it is after a pending rebuild, or adds one entry at its end.\<close>

lemma accept_cases:
  fixes cr :: crypto and cs :: chainstate and mp :: mempool
  defines "mp1 \<equiv> if mp_dirty mp then rebuild cr cs mp else mp"
  obtains (same) "fst (mp_accept cr cs tx mp) = mp1"
    | (added) fee v where "txid cr tx \<notin> set (mp_by_id mp1)" "\<not> is_coinbase tx" "check_tx_basic tx True = Inr ()"
      "length (write_full tx) \<le> 100000" "mp_bytes mp1 + of_nat (length (write_full tx)) \<le> MAX_BYTES"
      "view_apply cr (cs_reader cs) tx (next_height cs) (genesis_hash (cs_p cs)) False (mp_view mp1) = Inr (fee, v)"
      "fst (mp_accept cr cs tx mp) = mp1\<lparr>mp_view := v,
          mp_order := mp_order mp1 @ [\<lparr>me_tx = tx, me_txid = txid cr tx, me_fee = fee, me_size = length (write_full tx), me_time = cs_now cs\<rparr>],
          mp_by_id := txid cr tx # mp_by_id mp1, mp_bytes := mp_bytes mp1 + of_nat (length (write_full tx)),
          mp_added := mp_added mp1 @ [tx]\<rparr>"
proof -
  have "fst (mp_accept cr cs tx mp) = mp1 \<or> (\<exists>fee v.
      txid cr tx \<notin> set (mp_by_id mp1) \<and> \<not> is_coinbase tx \<and> check_tx_basic tx True = Inr ()
      \<and> length (write_full tx) \<le> 100000 \<and> mp_bytes mp1 + of_nat (length (write_full tx)) \<le> MAX_BYTES
      \<and> view_apply cr (cs_reader cs) tx (next_height cs) (genesis_hash (cs_p cs)) False (mp_view mp1) = Inr (fee, v)
      \<and> fst (mp_accept cr cs tx mp) = mp1\<lparr>mp_view := v,
          mp_order := mp_order mp1 @ [\<lparr>me_tx = tx, me_txid = txid cr tx, me_fee = fee, me_size = length (write_full tx), me_time = cs_now cs\<rparr>],
          mp_by_id := txid cr tx # mp_by_id mp1, mp_bytes := mp_bytes mp1 + of_nat (length (write_full tx)),
          mp_added := mp_added mp1 @ [tx]\<rparr>)"
    unfolding mp_accept_def mp1_def [symmetric] Let_def
    by (auto split: sum.splits simp: not_less)
  then show thesis using that by blast
qed

lemma accept_ok:
  assumes "mp_ok cr mp"
  shows "mp_ok cr (fst (mp_accept cr cs tx mp))"
proof -
  define mp1 where "mp1 = (if mp_dirty mp then rebuild cr cs mp else mp)"
  have ok: "mp_ok cr mp1" using assms rebuild_inv(1) [OF assms, of cs] by (auto simp: mp1_def mp_inv_def)
  show ?thesis
  proof (cases rule: accept_cases [of cr cs tx mp, folded mp1_def])
    case 1
    with ok show ?thesis by simp
  next
    case (2 fee v)
    note added = 2
    have "of_nat (total_size (mp_order mp1) + length (write_full tx)) \<le> MAX_BYTES"
      using added(5) ok by (simp add: mp_ok_def)
    moreover have "total_size (mp_order mp1) + length (write_full tx) < 2 ^ 64"
      using ok added(4) by (simp add: mp_ok_def)
    ultimately have "total_size (mp_order mp1) + length (write_full tx) \<le> 67108864"
      by (simp add: MAX_BYTES_def word_le_nat_alt unat_of_nat del: of_nat_add)
    with ok added show ?thesis by (auto simp: mp_ok_def mp_txids_def entry_ok_def)
  qed
qed

lemma accept_inv:
  assumes "mp_inv cr cs mp"
  shows "mp_inv cr cs (fst (mp_accept cr cs tx mp))" "\<not> mp_dirty (fst (mp_accept cr cs tx mp))"
    "mp_readd (fst (mp_accept cr cs tx mp)) = mp_readd mp"
proof -
  define mp1 where "mp1 = (if mp_dirty mp then rebuild cr cs mp else mp)"
  have inv: "mp_inv cr cs mp1" "\<not> mp_dirty mp1" "mp_readd mp1 = mp_readd mp"
    using assms rebuild_inv [of cr mp cs] by (auto simp: mp1_def mp_inv_def)
  have ok: "mp_ok cr (fst (mp_accept cr cs tx mp))" using accept_ok assms by (simp add: mp_inv_def)
  have "mp_inv cr cs (fst (mp_accept cr cs tx mp)) \<and> \<not> mp_dirty (fst (mp_accept cr cs tx mp))
    \<and> mp_readd (fst (mp_accept cr cs tx mp)) = mp_readd mp"
  proof (cases rule: accept_cases [of cr cs tx mp, folded mp1_def])
    case 1
    with inv show ?thesis by simp
  next
    case (2 fee v)
    note added = 2
    let ?e = "\<lparr>me_tx = tx, me_txid = txid cr tx, me_fee = fee, me_size = length (write_full tx), me_time = cs_now cs\<rparr>"
    have "executes cr cs (mp_order mp1) (mp_view mp1) (\<Sum>e\<leftarrow>mp_order mp1. me_fee e)" using inv by (simp add: mp_inv_def)
    then have "executes cr cs (mp_order mp1 @ [?e]) v ((\<Sum>e\<leftarrow>mp_order mp1. me_fee e) + fee)"
      by (rule executes_snoc) (use added(6) in simp)
    then show ?thesis using ok inv(2,3) added(7) by (simp add: mp_inv_def)
  qed
  then show "mp_inv cr cs (fst (mp_accept cr cs tx mp))" "\<not> mp_dirty (fst (mp_accept cr cs tx mp))"
    "mp_readd (fst (mp_accept cr cs tx mp)) = mp_readd mp" by blast+
qed

text \<open>The callbacks: a connected or disconnected block leaves the pool to be rebuilt, and the new tip
  rebuilds it.\<close>

lemma find_entry:
  assumes "distinct (map me_txid es)" "tid \<in> me_txid ` set es"
  obtains e where "List.find (\<lambda>e. me_txid e = tid) es = Some e" "me_txid e = tid" "e \<in> set es"
    "total_size (filter (\<lambda>e. me_txid e \<noteq> tid) es) + me_size e = total_size es"
proof -
  have "\<exists>e. List.find (\<lambda>e. me_txid e = tid) es = Some e \<and> me_txid e = tid \<and> e \<in> set es
      \<and> total_size (filter (\<lambda>e. me_txid e \<noteq> tid) es) + me_size e = total_size es"
    using assms
  proof (induction es)
    case (Cons e es)
    show ?case
    proof (cases "me_txid e = tid")
      case True
      then have "filter (\<lambda>e. me_txid e \<noteq> tid) es = es" using Cons.prems by (auto simp: filter_id_conv rev_image_eqI)
      with True show ?thesis by simp
    next
      case False
      with Cons.IH Cons.prems show ?thesis by auto
    qed
  qed simp
  then show thesis using that by blast
qed

lemma mp_drop_ok: "mp_ok cr mp \<Longrightarrow> mp_ok cr (mp_drop tid mp)"
proof (cases "tid \<in> set (mp_by_id mp)")
  case True
  assume ok: "mp_ok cr mp"
  then have "distinct (map me_txid (mp_order mp))" "tid \<in> me_txid ` set (mp_order mp)"
    using True by (auto simp: mp_ok_def mp_txids_def)
  then obtain e where e: "List.find (\<lambda>e. me_txid e = tid) (mp_order mp) = Some e"
    "total_size (filter (\<lambda>e. me_txid e \<noteq> tid) (mp_order mp)) + me_size e = total_size (mp_order mp)" by (rule find_entry)
  have b: "mp_bytes mp - of_nat (me_size e) = of_nat (total_size (filter (\<lambda>e. me_txid e \<noteq> tid) (mp_order mp)))"
    using ok unfolding mp_ok_def e(2) [symmetric] by simp
  have i: "set (removeAll tid (mp_by_id mp)) = me_txid ` set (filter (\<lambda>e. me_txid e \<noteq> tid) (mp_order mp))"
    using ok by (auto simp: mp_ok_def mp_txids_def)
  show ?thesis
    using ok True e b i by (auto simp: mp_drop_def mp_ok_def mp_txids_def distinct_map_filter list_all_iff)
qed (simp add: mp_drop_def)

lemma on_connect_inv: "mp_ok cr mp \<Longrightarrow> mp_inv cr cs (mp_on_connect cr b mp)"
proof -
  have "mp_ok cr (fold (\<lambda>t. mp_drop (txid cr t)) ts mp)" if "mp_ok cr mp" for ts
    using that by (induction ts arbitrary: mp) (simp_all add: mp_drop_ok)
  then show "mp_ok cr mp \<Longrightarrow> ?thesis" by (simp add: mp_inv_def mp_on_connect_def mp_ok_def mp_txids_def)
qed

lemma on_disconnect_inv: "mp_ok cr mp \<Longrightarrow> mp_inv cr cs (mp_on_disconnect cr cs' b mp)"
  by (simp add: mp_inv_def mp_on_disconnect_def mp_ok_def mp_txids_def Let_def split: option.splits)

lemma accepts_inv:
  "mp_inv cr cs mp \<Longrightarrow> mp_inv cr cs (fold (\<lambda>tx mp. fst (mp_accept cr cs tx mp)) ts mp)
     \<and> (\<not> mp_dirty mp \<longrightarrow> \<not> mp_dirty (fold (\<lambda>tx mp. fst (mp_accept cr cs tx mp)) ts mp))
     \<and> mp_readd (fold (\<lambda>tx mp. fst (mp_accept cr cs tx mp)) ts mp) = mp_readd mp"
proof (induction ts arbitrary: mp)
  case (Cons t ts)
  from Cons.IH [OF accept_inv(1) [OF Cons.prems, of t]] accept_inv [OF Cons.prems, of t] show ?case by simp
qed simp

lemma on_tip_inv:
  assumes "mp_inv cr cs mp"
  shows "mp_inv cr cs (mp_on_tip cr cs mp)" "\<not> mp_dirty (mp_on_tip cr cs mp)" "mp_readd (mp_on_tip cr cs mp) = []"
proof -
  define mp1 where "mp1 = (if mp_dirty mp then rebuild cr cs mp else mp)"
  have "mp_inv cr cs mp1" "\<not> mp_dirty mp1"
    using assms rebuild_inv [of cr mp cs] by (auto simp: mp1_def mp_inv_def)
  then have "mp_inv cr cs (mp1\<lparr>mp_readd := []\<rparr>)" "\<not> mp_dirty (mp1\<lparr>mp_readd := []\<rparr>)"
    by (simp_all add: mp_inv_def mp_ok_def mp_txids_def)
  from accepts_inv [OF this(1), of "mp_readd mp1"] this(2)
  show "mp_inv cr cs (mp_on_tip cr cs mp)" "\<not> mp_dirty (mp_on_tip cr cs mp)" "mp_readd (mp_on_tip cr cs mp) = []"
    by (simp_all add: mp_on_tip_def mp1_def [symmetric] Let_def)
qed

lemma on_tip_ok: "mp_ok cr mp \<Longrightarrow> mp_ok cr (mp_on_tip cr cs mp)"
proof -
  have "mp_ok cr (fold (\<lambda>tx mp. fst (mp_accept cr cs tx mp)) ts mp)" if "mp_ok cr mp" for ts mp
    using that by (induction ts arbitrary: mp) (simp_all add: accept_ok)
  moreover assume "mp_ok cr mp"
  then have "mp_ok cr ((if mp_dirty mp then rebuild cr cs mp else mp)\<lparr>mp_readd := []\<rparr>)"
    using rebuild_inv(1) [of cr mp cs] by (auto simp: mp_inv_def mp_ok_def mp_txids_def)
  ultimately show ?thesis by (simp add: mp_on_tip_def Let_def)
qed

section \<open>Selection\<close>

lemma select_loop_law:
  assumes "select_loop cr cs max_bytes es v used fees = (sel, fees_out)" "list_all (entry_ok cr) es"
    "used \<le> max_bytes" "unat max_bytes + 100000 < 2 ^ 64"
  shows "subseq sel es \<and> unat used + total_size sel \<le> unat max_bytes
    \<and> (\<exists>v'. apply_txs cr (cs_reader cs) (next_height cs) (genesis_hash (cs_p cs)) False (map me_tx sel) v fees = Inr (v', fees_out))"
  using assms
proof (induction es arbitrary: v used fees sel)
  case (Cons e es)
  have sz: "me_size e \<le> 100000" using Cons.prems(2) by (simp add: entry_ok_def)
  have u: "unat (used + of_nat (me_size e)) = unat used + me_size e"
    using Cons.prems(3,4) sz by (simp add: unat_word_ariths unat_of_nat word_le_nat_alt)
  have skip: ?case if "select_loop cr cs max_bytes es v used fees = (sel, fees_out)"
    using Cons.IH [OF that] Cons.prems by (auto intro: list_emb_Cons)
  show ?case
  proof (cases "used + of_nat (me_size e) > max_bytes")
    case False
    show ?thesis
    proof (cases "view_apply cr (cs_reader cs) (me_tx e) (next_height cs) (genesis_hash (cs_p cs)) False v")
      case (Inr p)
      obtain fee v1 where p: "p = (fee, v1)" by force
      obtain sel' where s: "select_loop cr cs max_bytes es v1 (used + of_nat (me_size e)) (fees + fee) = (sel', fees_out)" "sel = e # sel'"
        using Cons.prems(1) False Inr p by (auto split: prod.splits)
      from Cons.IH [OF s(1)] Cons.prems(2,4) False Inr p s(2) u show ?thesis by (auto simp: not_less)
    qed (use skip Cons.prems(1) False in simp)
  qed (use skip Cons.prems(1) in simp)
qed (simp add: word_le_nat_alt)

text \<open>When all of the pool fits, all of it is selected.\<close>

lemma select_loop_all:
  assumes "apply_txs cr (cs_reader cs) (next_height cs) (genesis_hash (cs_p cs)) False (map me_tx es) v fees = Inr (v', fees_out)"
    "unat used + total_size es \<le> unat max_bytes"
  shows "select_loop cr cs max_bytes es v used fees = (es, fees_out)"
  using assms
proof (induction es arbitrary: v used fees)
  case (Cons e es)
  obtain fee v1 where a: "view_apply cr (cs_reader cs) (me_tx e) (next_height cs) (genesis_hash (cs_p cs)) False v = Inr (fee, v1)"
    "apply_txs cr (cs_reader cs) (next_height cs) (genesis_hash (cs_p cs)) False (map me_tx es) v1 (fees + fee) = Inr (v', fees_out)"
    using Cons.prems(1) by (auto split: sum.splits)
  have "unat used + me_size e < 2 ^ 64" using Cons.prems(2) unat_lt_64 [of max_bytes] by simp
  then have u: "unat (used + of_nat (me_size e)) = unat used + me_size e"
    by (simp add: unat_word_ariths unat_of_nat)
  then have "\<not> used + of_nat (me_size e) > max_bytes" using Cons.prems(2) by (simp add: word_less_nat_alt)
  with Cons.IH [OF a(2)] a(1) u Cons.prems(2) show ?case by simp
qed simp

section \<open>The dry run\<close>

text \<open>The dry run on a view above the pool's view foretells the real run: the same outcome and fee.\<close>

lemma gather_over: "gather_inputs cr (view_reader base v) empty_view height gen is fl coins = gather_inputs cr base v height gen is fl coins"
  by (induction "is" arbitrary: fl coins) (auto simp: view_reader_def split: option.splits)

lemma apply_op_over: "apply_op cr (view_reader base v) empty_view tx height coins i op st = apply_op cr base v tx height coins i op st"
proof -
  have "get_pool (view_reader base v) empty_view = get_pool base v" "token_known (view_reader base v) empty_view = token_known base v"
    unfolding get_pool_def token_known_def fun_eq_iff view_asset_empty view_reader_def reader_state.simps by simp_all
  then show ?thesis by (cases op) (simp_all cong: option.case_cong)
qed

lemma apply_ops_over: "apply_ops cr (view_reader base v) empty_view tx height coins i os st = apply_ops cr base v tx height coins i os st"
  by (induction os arbitrary: i st) (simp_all add: apply_op_over cong: rbind_cong)

lemma dry_run_foretells:
  assumes dry: "view_apply cr (view_reader base v) tx height gen sigs empty_view = Inr (fee, pv)"
    and tx: "check_tx_basic tx ew = Inr ()" "core_ok tx" and v: "view_inv v"
  shows "\<exists>v'. view_apply cr base tx height gen False v = Inr (fee, v')"
proof -
  obtain fl coins st where p: "\<not> is_coinbase tx" "lock_height tx \<le> height"
      "gather_inputs cr base v height gen (ins tx) [] [] = Inr (fl, coins)"
      "apply_ops cr base v tx height coins 0 (ops tx)
        \<lparr>plus_f = fl, minus_f = sum_outs (outs tx) [], touched = [], minted = []\<rparr> = Inr st"
      "check_balance st (flow_assets st) 0 = Inr fee"
    using view_apply_parts [OF dry] unfolding gather_over apply_ops_over by metis
  have "\<forall>p\<in>set (prevs tx). view_coin base v p \<noteq> None"
    using gather_inputs_ok [OF p(3), of 0] core_ok_lengths(1) [OF tx(2)] by fastforce
  from vw.spend_list_law [OF v check_tx_basic_parts(1) [OF tx(1) p(1)] this]
  obtain v1 where "spend_inputs base (ins tx) v = Inr v1" by (auto simp: spend_inputs_list)
  with p show ?thesis by (simp add: view_apply_def Let_def fail_if_def not_less)
qed

end
