(* ===== verification/Miner.thy ===== *)
theory Miner
  imports Mempool Pow
begin

text \<open>
  The miner (\<open>src/src/miner/miner.cpp\<close>): block templates, the search for a nonce, and the coordinator and
  worker threads as a step relation. Random numbers and the moments at which the stop flag is set are
  arguments; the speed estimate (floating point, display only) is left out.
\<close>

section \<open>Templates\<close>

definition template_coinbase :: "hash256 \<Rightarrow> bytes \<Rightarrow> u64 \<Rightarrow> u64 \<Rightarrow> amount \<Rightarrow> transaction" where
  "template_coinbase payout tag en height reward =
     \<lparr>t_version = 2, ins = [],
      outs = (if reward > 0 then [\<lparr>o_value = reward, o_asset = QNT_ASSET, o_addr = payout\<rparr>] else []),
      ops = [], lock_height = height, extra = take 60 tag @ map (\<lambda>i. ucast (drop_bit (8 * i) en)) [0..<8], wits = []\<rparr>"

definition create_block_template :: "crypto \<Rightarrow> chainstate \<Rightarrow> mempool \<Rightarrow> hash256 \<Rightarrow> bytes \<Rightarrow> u64 \<Rightarrow> block \<times> chainstate" where
  "create_block_template cr cs mp payout tag en =
     (let tp = the_tip cs;
          height = b_height cs tp + 1;
          (sel, fees) = select_for_block cr cs (of_nat MAX_BLOCK_SIZE - 2000) mp;
          (subsidy, em) = block_subsidy (word_of_int height) (cs_em cs);
          b = \<lparr>header = \<lparr>h_version = 2, h_prev = bi_hash (deref cs tp), merkle_root_f = hash_zero, witness_root_f = hash_zero,
                 state_commit = commit_for_next cs tp,
                 h_time = word_of_int (max (cs_now cs) (median_time_past cs tp + 1)),
                 h_bits = next_bits_for cs tp, h_nonce = 0\<rparr>,
               txs = template_coinbase payout tag en (word_of_int height) (subsidy + fees) # map me_tx sel\<rparr>
      in (b\<lparr>header := (header b)\<lparr>merkle_root_f := compute_merkle_root cr b, witness_root_f := compute_witness_root cr b\<rparr>\<rparr>,
          cs\<lparr>cs_em := em\<rparr>))"

section \<open>The search\<close>

definition hash_le_target :: "hash256 \<Rightarrow> hash256 \<Rightarrow> bool" where
  "hash_le_target h t \<longleftrightarrow> hash_bytes h \<le> hash_bytes t"

text \<open>\<open>buf[SIZE - 8 + k] = uint8_t(n >> (8 * k))\<close> for the eight bytes.\<close>

definition put_nonce :: "bytes \<Rightarrow> u64 \<Rightarrow> bytes" where
  "put_nonce buf n = fold (\<lambda>k b. b[HEADER_SIZE - 8 + k := ucast (drop_bit (8 * k) n)]) [0..<8] buf"

text \<open>\<open>left\<close> tries are left; \<open>stop i\<close> is what the flag reads when it is looked at in try \<open>i\<close>.\<close>

primrec mine_loop :: "crypto \<Rightarrow> hash256 \<Rightarrow> u64 \<Rightarrow> (u64 \<Rightarrow> bool) option \<Rightarrow> nat \<Rightarrow> u64 \<Rightarrow> bytes \<Rightarrow> u64 option" where
  "mine_loop cr target nonce stop 0 i buf = None"
| "mine_loop cr target nonce stop (Suc left) i buf =
     (if (case stop of None \<Rightarrow> False | Some f \<Rightarrow> and i 0xffff = 0 \<and> f i) then None
      else
        (let n = nonce + i; buf = put_nonce buf n in
         if hash_le_target (blake3 cr buf) target then Some n
         else mine_loop cr target nonce stop left (i + 1) buf))"

definition mine_header :: "crypto \<Rightarrow> block_header \<Rightarrow> u64 \<Rightarrow> (u64 \<Rightarrow> bool) option \<Rightarrow> block_header \<times> bool" where
  "mine_header cr h max_tries stop =
     (case mine_loop cr (to_hash (fst (from_compact (h_bits h)))) (h_nonce h) stop (unat max_tries) 0
             (take HEADER_SIZE (write_header h)) of
        None \<Rightarrow> (h, False)
      | Some n \<Rightarrow> (h\<lparr>h_nonce := n\<rparr>, True))"

subsection \<open>What it finds\<close>

lemma write_header_length [simp]: "length (write_header h) = HEADER_SIZE"
  by (simp add: write_header_def HEADER_SIZE_def w_u32le_def w_u64le_def w_hash_def)

lemma put_nonce_header: "put_nonce (write_header h) n = write_header (h\<lparr>h_nonce := n\<rparr>)"
proof -
  let ?f = "\<lambda>k b. b[144 + k := ucast (drop_bit (8 * k) n) :: u8]"
  obtain pre where pre: "write_header h = pre @ w_u64le (h_nonce h)" "write_header (h\<lparr>h_nonce := n\<rparr>) = pre @ w_u64le n" "length pre = 144"
    by (rule that [of "w_u32le (h_version h) @ w_hash (h_prev h) @ w_hash (merkle_root_f h)
     @ w_hash (witness_root_f h) @ w_hash (state_commit h) @ w_u64le (h_time h) @ w_u32le (h_bits h)"])
      (simp_all add: write_header_def w_u32le_def w_u64le_def w_hash_def)
  have e: "[0..<8] = [0, 1, 2, 3, 4, 5, 6, 7 :: nat]" by (simp add: upt_rec)
  show ?thesis unfolding pre put_nonce_def by (simp add: e HEADER_SIZE_def pre(3) list_update_append w_u64le_def)
qed

lemma header_hash_write: "header_hash cr h = blake3 cr (write_header h)"
  by (simp add: header_hash_def)

definition good_nonce :: "crypto \<Rightarrow> block_header \<Rightarrow> hash256 \<Rightarrow> u64 \<Rightarrow> bool" where
  "good_nonce cr h target n \<longleftrightarrow> hash_le_target (header_hash cr (h\<lparr>h_nonce := n\<rparr>)) target"

text \<open>Without a stop flag the loop is a search through the nonces in order.\<close>

lemma find_upt_Suc: "List.find P (map f [0..<Suc k]) = (if P (f 0) then Some (f 0) else List.find P (map (\<lambda>j. f (Suc j)) [0..<k]))"
  by (simp add: upt_conv_Cons map_Suc_upt [symmetric] comp_def del: upt_Suc)

lemma mine_loop_find:
  "mine_loop cr target nonce None k i (write_header h) =
     List.find (good_nonce cr h target) (map (\<lambda>j. nonce + i + of_nat j) [0..<k])"
proof (induction k arbitrary: i h)
  case (Suc k)
  have g: "good_nonce cr (h\<lparr>h_nonce := m\<rparr>) target = good_nonce cr h target" for m by (simp add: good_nonce_def fun_eq_iff)
  show ?case unfolding find_upt_Suc
    using Suc.IH [of "i + 1" "h\<lparr>h_nonce := nonce + i\<rparr>"]
    by (simp add: put_nonce_header g good_nonce_def [of cr h target "nonce + i"] header_hash_write add.assoc del: upt_Suc)
qed simp

lemma mine_loop_sound:
  "mine_loop cr target nonce stop k i (write_header h) = Some m \<Longrightarrow> good_nonce cr h target m"
proof (induction k arbitrary: i h)
  case (Suc k)
  have g: "good_nonce cr (h\<lparr>h_nonce := n\<rparr>) target = good_nonce cr h target" for n by (simp add: good_nonce_def fun_eq_iff)
  show ?case
    using Suc.prems Suc.IH [of "i + 1" "h\<lparr>h_nonce := nonce + i\<rparr>"]
    by (auto simp: put_nonce_header g Let_def good_nonce_def [of cr h] header_hash_write split: if_splits option.splits)
qed simp

text \<open>The byte comparison of the miner is the numeric comparison of the consensus check.\<close>

definition valid_bits :: "u32 \<Rightarrow> chain_params \<Rightarrow> bool" where
  "valid_bits bits p \<longleftrightarrow> (case from_compact bits of (target, neg, ovf) \<Rightarrow>
     \<not> (neg \<or> ovf \<or> u256_is_zero target \<or> u256_gt target (pow_limit p)))"

lemma hash_le_pow:
  "check_pow h bits p \<longleftrightarrow> valid_bits bits p \<and> hash_le_target h (to_hash (fst (from_compact bits)))"
  using from_hash_le_iff [of h "to_hash (fst (from_compact bits))"]
  by (cases "from_compact bits")
    (auto simp: check_pow_def valid_bits_def hash_le_target_def less_eq_hash256_def from_hash_to_hash)

lemma good_nonce_pow:
  "valid_bits (h_bits h) p \<Longrightarrow>
   good_nonce cr h (to_hash (fst (from_compact (h_bits h)))) n = check_pow (header_hash cr (h\<lparr>h_nonce := n\<rparr>)) (h_bits h) p"
  by (simp add: hash_le_pow good_nonce_def)

lemma mine_header_found:
  assumes "mine_header cr h max_tries stop = (h', True)" "valid_bits (h_bits h) p"
  shows "check_pow (header_hash cr h') (h_bits h') p" "h'\<lparr>h_nonce := h_nonce h\<rparr> = h"
proof -
  obtain n where "mine_loop cr (to_hash (fst (from_compact (h_bits h)))) (h_nonce h) stop (unat max_tries) 0 (write_header h) = Some n"
    and h': "h' = h\<lparr>h_nonce := n\<rparr>" using assms(1) by (auto simp: mine_header_def split: option.splits)
  from mine_loop_sound [OF this(1)] show "check_pow (header_hash cr h') (h_bits h') p"
    using good_nonce_pow [OF assms(2)] h' by simp
  show "h'\<lparr>h_nonce := h_nonce h\<rparr> = h" using h' by simp
qed

lemma mine_header_exhausted:
  assumes "valid_bits (h_bits h) p"
  shows "snd (mine_header cr h max_tries None) \<longleftrightarrow>
    (\<exists>j<unat max_tries. check_pow (header_hash cr (h\<lparr>h_nonce := h_nonce h + of_nat j\<rparr>)) (h_bits h) p)"
proof -
  have "snd (mine_header cr h max_tries None) \<longleftrightarrow>
      List.find (good_nonce cr h (to_hash (fst (from_compact (h_bits h))))) (map (\<lambda>j. h_nonce h + of_nat j) [0..<unat max_tries]) \<noteq> None"
    by (simp add: mine_header_def mine_loop_find split: option.splits)
  also have "\<dots> \<longleftrightarrow> (\<exists>j<unat max_tries. good_nonce cr h (to_hash (fst (from_compact (h_bits h)))) (h_nonce h + of_nat j))"
    by (auto simp: find_None_iff)
  finally show ?thesis by (simp add: good_nonce_pow [OF assms])
qed

section \<open>Templates are well formed\<close>

lemma block_full_length:
  "length (block_full_bytes b) \<le> HEADER_SIZE + 10 + (\<Sum>t\<leftarrow>txs b. length (write_full t))"
proof -
  have "length (concat (map write_core ts)) + length (concat (map write_witness ts)) = (\<Sum>t\<leftarrow>ts. length (write_full t))" for ts
    by (induction ts) (simp_all add: write_full_def)
  then show ?thesis
    using w_varint_length10 [of "of_nat (length (txs b))"]
    by (simp add: block_full_bytes_def block_core_bytes_def block_witness_bytes_def w_counted_def)
qed

lemma template_coinbase_length: "length (write_full (template_coinbase payout tag en height reward)) \<le> 300"
proof -
  note [simp] = w_counted_def write_txout_def w_bytes_def w_u8_def w_hash_def
  have "length (w_varint v) \<le> 10" for v by (rule w_varint_length10)
  note l = this [of reward] this [of height] this [of 2] this [of 0] this [of 1] this [of "of_nat (min (length tag) 60) + 8"]
  have "min (length tag) 60 \<le> 60" by simp
  then show ?thesis using l
    by (simp add: template_coinbase_def write_full_def write_core_def write_witness_def is_qnt_def) linarith
qed

lemma select_sizes:
  assumes "select_for_block cr cs max_bytes mp = (sel, fees)" "mp_ok cr mp" "unat max_bytes + 100000 < 2 ^ 64"
  shows "subseq sel (mp_order mp)" "total_size sel \<le> unat max_bytes" "\<exists>v. executes cr cs sel v fees"
  using select_loop_law [of cr cs max_bytes "mp_order mp" empty_view 0 0 sel fees] assms
  by (simp_all add: select_for_block_def mp_ok_def executes_def)

lemma check_block_txs_ok:
  "\<lbrakk>list_all (\<lambda>t. check_tx_basic t w = Inr ()) ts; distinct (map (txid cr) ts); set ids \<inter> txid cr ` set ts = {}\<rbrakk> \<Longrightarrow>
   check_block_txs cr w ids ts = Inr ()"
  by (induction ts arbitrary: ids) auto

lemma distinct_subseq: "subseq xs ys \<Longrightarrow> distinct ys \<Longrightarrow> distinct xs"
  by (metis distinct_nthsI subseq_conv_nths)

lemma template_parts:
  assumes "create_block_template cr cs mp payout tag en = (b, cs')"
  obtains sel fees subsidy em where
    "select_for_block cr cs (of_nat MAX_BLOCK_SIZE - 2000) mp = (sel, fees)"
    "block_subsidy (word_of_int (b_height cs (the_tip cs) + 1)) (cs_em cs) = (subsidy, em)"
    "txs b = template_coinbase payout tag en (word_of_int (b_height cs (the_tip cs) + 1)) (subsidy + fees) # map me_tx sel"
    "compute_merkle_root cr b = merkle_root_f (header b)" "compute_witness_root cr b = witness_root_f (header b)"
    "h_version (header b) = 2" "h_prev (header b) = bi_hash (deref cs (the_tip cs))" "h_bits (header b) = next_bits_for cs (the_tip cs)"
    "state_commit (header b) = commit_for_next cs (the_tip cs)"
    "h_time (header b) = word_of_int (max (cs_now cs) (median_time_past cs (the_tip cs) + 1))"
  using assms by (auto simp: create_block_template_def Let_def compute_merkle_root_def compute_witness_root_def split: prod.splits)

text \<open>A template passes every check \<open>accept_block\<close> makes of a block before it is stored.\<close>

lemma template_accepted:
  assumes tm: "create_block_template cr cs mp payout tag en = (b, cs')" and inv: "mp_ok cr mp"
    and new: "txid cr (hd (txs b)) \<notin> set (mp_by_id mp)" and reward: "total_qnt_out (hd (txs b)) \<le> MAX_MONEY"
  shows "check_block_shape cr cs1 idx b True = Inr ()"
    and "b_height cs1 idx = b_height cs (the_tip cs) + 1 \<Longrightarrow> check_block_body cr cs1 idx b True = Inr ()"
proof -
  obtain sel fees subsidy em where t: "select_for_block cr cs (of_nat MAX_BLOCK_SIZE - 2000) mp = (sel, fees)"
    "txs b = template_coinbase payout tag en (word_of_int (b_height cs (the_tip cs) + 1)) (subsidy + fees) # map me_tx sel"
    "compute_merkle_root cr b = merkle_root_f (header b)" "compute_witness_root cr b = witness_root_f (header b)"
    by (rule template_parts [OF tm])
  let ?cb = "template_coinbase payout tag en (word_of_int (b_height cs (the_tip cs) + 1)) (subsidy + fees)"
  have m: "unat (of_nat MAX_BLOCK_SIZE - 2000 :: u64) = 998000" by (simp add: MAX_BLOCK_SIZE_def)
  have s: "subseq sel (mp_order mp)" "total_size sel \<le> 998000" using select_sizes(1,2) [OF t(1) inv] m by simp_all
  then have sub: "set sel \<subseteq> set (mp_order mp)" "subseq (map me_txid sel) (mp_txids mp)"
    by (auto simp: mp_txids_def dest: list_emb_set subseq_map)
  have ent: "entry_ok cr e" if "e \<in> set sel" for e using inv sub(1) that by (auto simp: mp_ok_def list_all_iff)
  have ids: "map (txid cr) (map me_tx sel) = map me_txid sel" using ent by (simp add: entry_ok_def)
  have "(\<Sum>t\<leftarrow>map me_tx sel. length (write_full t)) = total_size sel"
    unfolding total_size_def using ent by (auto simp: entry_ok_def comp_def intro!: arg_cong [of _ _ sum_list])
  then have size: "length (block_full_bytes b) \<le> MAX_BLOCK_SIZE"
    using block_full_length [of b] template_coinbase_length [of payout tag en "word_of_int (b_height cs (the_tip cs) + 1)" "subsidy + fees"] s(2)
    by (simp add: t(2) HEADER_SIZE_def MAX_BLOCK_SIZE_def)
  have cb: "is_coinbase ?cb" by (simp add: template_coinbase_def is_coinbase_def)
  have rest: "\<not> is_coinbase (me_tx e)" "check_tx_basic (me_tx e) True = Inr ()" if "e \<in> set sel" for e
    using ent [OF that] by (simp_all add: entry_ok_def)
  show "check_block_shape cr cs1 idx b True = Inr ()"
    using cb rest(1) size t by (auto simp: check_block_shape_def fail_if_def list_ex_iff)
  have v: "subsidy + fees > 0 \<Longrightarrow> subsidy + fees \<le> MAX_MONEY" using reward
    by (simp add: t(2) template_coinbase_def total_qnt_out_def is_qnt_def QNT_ASSET_def split: if_splits)
  then have "\<not> subsidy + fees > MAX_MONEY" by (cases "subsidy + fees = 0") (simp_all add: word_gt_0 not_less)
  then have b0: "check_tx_basic ?cb True = Inr ()"
    by (auto simp: check_tx_basic_def cb template_coinbase_def fail_if_def is_qnt_def QNT_ASSET_def not_less is_coinbase_def Let_def word_gt_0)
  have d: "distinct (map (txid cr) (txs b))"
    using new inv distinct_subseq [OF sub(2)] sub(1) unfolding t(2) list.map ids
    by (auto simp: mp_ok_def mp_txids_def t(2))
  have "check_block_txs cr True [] (txs b) = Inr ()"
    by (rule check_block_txs_ok [OF _ d]) (use b0 rest(2) in \<open>auto simp: t(2) list_all_iff\<close>)
  then show "check_block_body cr cs1 idx b True = Inr ()" if "b_height cs1 idx = b_height cs (the_tip cs) + 1"
    using that by (simp add: check_block_body_def t(2) template_coinbase_def fail_if_def)
qed

section \<open>Templates connect\<close>

text \<open>\<open>above cb base v w\<close>: the view \<open>w\<close> is \<open>v\<close> with coins of the transaction \<open>cb\<close> added, of which \<open>v\<close>
  and the base know nothing. What applies to \<open>v\<close> applies to \<open>w\<close>, so the transactions selected on a
  scratch view apply after the coinbase as well.\<close>

definition above :: "hash256 \<Rightarrow> reader_state \<Rightarrow> view \<Rightarrow> view \<Rightarrow> bool" where
  "above cb base v w \<longleftrightarrow> spent_base w = spent_base v \<and> spent_created w = spent_created v \<and> v_tokens w = v_tokens v
     \<and> v_pools w = v_pools v \<and> pools_before w = pools_before v
     \<and> (\<forall>p. op_txid p \<noteq> cb \<longrightarrow> map_of (created w) p = map_of (created v) p)
     \<and> (\<forall>p. op_txid p = cb \<longrightarrow> rd_coin base p = None \<and> map_of (created v) p = None)"

lemma above_coin: "above cb base v w \<Longrightarrow> view_coin base v p = Some c \<Longrightarrow> op_txid p \<noteq> cb \<and> view_coin base w p = Some c"
  by (cases "op_txid p = cb") (auto simp: above_def view_coin_def split: if_splits option.splits)

lemma above_assets: "above cb base v w \<Longrightarrow> view_token base w = view_token base v \<and> view_pool base w = view_pool base v"
  by (simp add: above_def view_token_def view_pool_def fun_eq_iff)

lemma above_gather:
  "above cb base v w \<Longrightarrow> gather_inputs cr base v h gen is fl coins = Inr r \<Longrightarrow>
   gather_inputs cr base w h gen is fl coins = Inr r \<and> (\<forall>i\<in>set is. op_txid (prev i) \<noteq> cb)"
proof (induction "is" arbitrary: fl coins)
  case (Cons i "is")
  then obtain c where c: "view_coin base v (prev i) = Some c" by (auto split: option.splits)
  from above_coin [OF Cons.prems(1) c] Cons c show ?case by (auto split: if_splits)
qed simp

lemma above_ops:
  assumes "above cb base v w"
  shows "apply_ops cr base w tx h coins i os st = apply_ops cr base v tx h coins i os st"
proof -
  have "get_pool base w = get_pool base v" "token_known base w = token_known base v"
    using above_assets [OF assms] unfolding get_pool_def token_known_def by (simp_all cong: option.case_cong)
  then have "apply_op cr base w tx h coins i op st = apply_op cr base v tx h coins i op st" for i op st
    by (cases op) (simp_all cong: option.case_cong)
  then show ?thesis by (induction os arbitrary: i st) (simp_all cong: rbind_cong)
qed

lemma above_spend:
  "above cb base v w \<Longrightarrow> \<forall>i\<in>set is. op_txid (prev i) \<noteq> cb \<Longrightarrow> spend_inputs base is v = Inr v' \<Longrightarrow>
   \<exists>w'. spend_inputs base is w = Inr w' \<and> above cb base v' w'"
proof (induction "is" arbitrary: v w)
  case (Cons i "is")
  obtain v1 where v1: "spend_coin base (prev i) v = Inr v1" "spend_inputs base is v1 = Inr v'"
    using Cons.prems(3) by (auto simp: rbind_eq_Inr)
  have "\<exists>w1. spend_coin base (prev i) w = Inr w1 \<and> above cb base v1 w1"
    using Cons.prems(1,2) v1(1) by (auto simp: spend_coin_def above_def delete_conv' split: if_splits option.splits)
  then obtain w1 where "spend_coin base (prev i) w = Inr w1" "above cb base v1 w1" by blast
  with Cons.IH [OF this(2) _ v1(2)] Cons.prems(2) show ?case by simp
qed simp

lemma above_create:
  "above cb base v w \<Longrightarrow> tid \<noteq> cb \<Longrightarrow> above cb base (create_coins tid h c n os v) (create_coins tid h c n os w)"
proof (induction os arbitrary: n v w)
  case (Cons out os)
  let ?u = "\<lambda>v. v\<lparr>created := AList.update (OutPoint tid n) \<lparr>c_out = out, c_height = h, c_coinbase = c\<rparr> (created v)\<rparr>"
  have "above cb base (?u v) (?u w)" using Cons.prems by (auto simp: above_def update_conv')
  from Cons.IH [OF this Cons.prems(2)] show ?case by simp
qed simp

lemma above_commit:
  assumes "above cb base v w"
  shows "above cb base (fold (commit_pool base) ts (commit_tokens ms v)) (fold (commit_pool base) ts (commit_tokens ms w))"
proof -
  have "above cb base (fold (commit_pool base) ts v) (fold (commit_pool base) ts w)" if "above cb base v w" for v w
    using that
  proof (induction ts arbitrary: v w)
    case (Cons t ts)
    have "above cb base (commit_pool base t v) (commit_pool base t w)"
      using Cons.prems by (auto simp: commit_pool_def above_def Let_def split: prod.splits option.splits)
    from Cons.IH [OF this] show ?case by simp
  qed simp
  moreover have "above cb base (commit_tokens ms v) (commit_tokens ms w)"
    using assms by (simp add: above_def commit_tokens_parts)
  ultimately show ?thesis by blast
qed

lemma above_apply:
  assumes ab: "above cb base v w" and app: "view_apply cr base tx h gen sigs v = Inr (fee, v')" and ne: "txid cr tx \<noteq> cb"
  shows "\<exists>w'. view_apply cr base tx h gen sigs w = Inr (fee, w') \<and> above cb base v' w'"
proof -
  obtain fl coins st v1 where
    p: "\<not> is_coinbase tx" "lock_height tx \<le> h" "gather_inputs cr base v h gen (ins tx) [] [] = Inr (fl, coins)"
      "apply_ops cr base v tx h coins 0 (ops tx)
        \<lparr>plus_f = fl, minus_f = sum_outs (outs tx) [], touched = [], minted = []\<rparr> = Inr st"
      "check_balance st (flow_assets st) 0 = Inr fee" "sigs \<longrightarrow> verify_witness cr tx coins gen = Inr ()"
      "spend_inputs base (ins tx) v = Inr v1"
      "v' = fold (commit_pool base) (touched st) (commit_tokens (minted st)
        (create_coins (txid cr tx) h False 0 (outs tx) v1))"
    by (rule view_apply_parts [OF app])
  note g = above_gather [OF ab p(3)]
  obtain w1 where w1: "spend_inputs base (ins tx) w = Inr w1" "above cb base v1 w1"
    using above_spend [OF ab _ p(7)] g by blast
  have "above cb base v' (fold (commit_pool base) (touched st) (commit_tokens (minted st)
        (create_coins (txid cr tx) h False 0 (outs tx) w1)))"
    unfolding p(8) by (intro above_commit above_create w1(2) ne)
  then show ?thesis
    using p(1,2,4,5,6) g w1(1) above_ops [OF ab] by (simp add: view_apply_def Let_def fail_if_def not_less)
qed

lemma above_apply_txs:
  "apply_txs cr base h gen sigs ts v fees = Inr (v', fees') \<Longrightarrow> above cb base v w \<Longrightarrow> cb \<notin> txid cr ` set ts \<Longrightarrow>
   \<exists>w'. apply_txs cr base h gen sigs ts w fees = Inr (w', fees') \<and> above cb base v' w'"
proof (induction ts arbitrary: v w fees)
  case (Cons t ts)
  obtain fee v1 where a: "view_apply cr base t h gen sigs v = Inr (fee, v1)"
    "apply_txs cr base h gen sigs ts v1 (fees + fee) = Inr (v', fees')" using Cons.prems(1) by (auto split: sum.splits)
  obtain w1 where "view_apply cr base t h gen sigs w = Inr (fee, w1)" "above cb base v1 w1"
    using above_apply [OF Cons.prems(2) a(1)] Cons.prems(3) by auto
  with Cons.IH [OF a(2)] Cons.prems(3) show ?case by simp
qed auto

lemma above_coinbase:
  assumes "\<forall>k. rd_coin base (OutPoint (txid cr cb) k) = None"
  shows "above (txid cr cb) base empty_view (apply_coinbase cr cb h empty_view)"
proof -
  have "rd_coin base p = None" if "op_txid p = txid cr cb" for p using assms that by (cases p) auto
  moreover have "map_of (created (create_coins tid h c n os v)) p = map_of (created v) p" if "op_txid p \<noteq> tid" for p tid c n os v
    using that by (induction os arbitrary: n v) (auto simp: update_conv')
  moreover have "spent_created (create_coins tid h c n os v) = spent_created v" for tid c n os v
    by (induction os arbitrary: n v) simp_all
  ultimately show ?thesis
    unfolding above_def apply_coinbase_def create_coins_assets create_coins_fields by (simp add: empty_view_def)
qed

end
