(* ===== verification/Miner_Threads.thy ===== *)
theory Miner_Threads
  imports Miner
begin

text \<open>
  The threads of the miner (\<open>src/src/miner/miner.cpp\<close>, \<open>Miner\<close>) as a step relation: one coordinator, any
  number of workers, interleaved at the granularity of their critical sections. \<open>tmpl_\<close> and \<open>target_\<close> are
  written under the mutex; \<open>tmpl_version_\<close> is an atomic counter that the coordinator bumps after it has
  released the mutex. The version is a natural number (a 64-bit counter of templates does not wrap).
  Sleeping, joining and the speed estimate have no effect on this state. Blocks passed to \<open>on_found\<close> are
  recorded with the template version at that moment.
\<close>

section \<open>State\<close>

record worker_st =
  w_seen :: nat
  w_hdr :: block_header
  w_target :: hash256
  w_nonce :: u64
  w_waiting :: bool

record miner_st =
  mi_running :: bool
  mi_dirty :: bool
  mi_threads :: nat
  mi_tmpl :: block
  mi_target :: hash256
  mi_version :: nat
  mi_published :: bool
  mi_payout :: hash256
  mi_workers :: "worker_st list"
  mi_found :: "block list"
  mi_clean :: "bool list"

definition new_worker :: worker_st where
  "new_worker = \<lparr>w_seen = 0,
     w_hdr = \<lparr>h_version = 0, h_prev = hash_zero, merkle_root_f = hash_zero, witness_root_f = hash_zero,
       state_commit = hash_zero, h_time = 0, h_bits = 0, h_nonce = 0\<rparr>,
     w_target = hash_zero, w_nonce = 0, w_waiting = False\<rparr>"

section \<open>Operations\<close>

definition miner_stop :: "miner_st \<Rightarrow> miner_st" where
  "miner_stop s = (if \<not> mi_running s then s else s\<lparr>mi_running := False, mi_workers := [], mi_threads := 0\<rparr>)"

definition miner_start :: "int \<Rightarrow> hash256 \<Rightarrow> miner_st \<Rightarrow> miner_st" where
  "miner_start threads payout s =
     (let s = miner_stop s in
      if threads \<le> 0 then s
      else s\<lparr>mi_payout := payout, mi_running := True, mi_dirty := True, mi_threads := nat threads,
             mi_workers := replicate (nat threads) new_worker\<rparr>)"

definition notify_new_tip :: "miner_st \<Rightarrow> miner_st" where
  "notify_new_tip s = s\<lparr>mi_dirty := True\<rparr>"

text \<open>The coordinator: write the template under the mutex, then count it.\<close>

definition publish :: "block \<Rightarrow> miner_st \<Rightarrow> miner_st" where
  "publish b s = s\<lparr>mi_dirty := False, mi_tmpl := b, mi_target := to_hash (fst (from_compact (h_bits (header b)))), mi_published := True\<rparr>"

definition bump :: "miner_st \<Rightarrow> miner_st" where
  "bump s = s\<lparr>mi_version := mi_version s + 1, mi_published := False\<rparr>"

text \<open>A worker: fetch the template, with a random nonce to start from; try one nonce.\<close>

definition must_fetch :: "miner_st \<Rightarrow> worker_st \<Rightarrow> bool" where
  "must_fetch s w \<longleftrightarrow> mi_version s \<noteq> w_seen w \<or> w_seen w = 0"

definition fetch :: "miner_st \<Rightarrow> u64 \<Rightarrow> worker_st" where
  "fetch s nonce = \<lparr>w_seen = mi_version s, w_hdr = header (mi_tmpl s), w_target = mi_target s, w_nonce = nonce, w_waiting = False\<rparr>"

definition try_nonce :: "crypto \<Rightarrow> nat \<Rightarrow> miner_st \<Rightarrow> miner_st" where
  "try_nonce cr i s =
     (let w = mi_workers s ! i in
      if hash_le_target (blake3 cr (put_nonce (write_header (w_hdr w)) (w_nonce w))) (w_target w) then
        if mi_version s \<noteq> w_seen w then s
        else s\<lparr>mi_dirty := True,
               mi_found := (mi_tmpl s)\<lparr>header := (header (mi_tmpl s))\<lparr>h_nonce := w_nonce w\<rparr>\<rparr> # mi_found s,
               mi_clean := (\<not> mi_published s) # mi_clean s,
               mi_workers := (mi_workers s)[i := w\<lparr>w_waiting := True\<rparr>]\<rparr>
      else s\<lparr>mi_workers := (mi_workers s)[i := w\<lparr>w_nonce := w_nonce w + 1\<rparr>]\<rparr>)"

section \<open>Steps\<close>

text \<open>A worker that found a block waits until the version changes; one that has to fetch does so before it
  goes on, but a batch that is under way when the version changes is finished.\<close>

inductive mstep :: "crypto \<Rightarrow> miner_st \<Rightarrow> miner_st \<Rightarrow> bool" for cr where
  publish: "mi_running s \<Longrightarrow> \<not> mi_published s \<Longrightarrow> mstep cr s (publish b s)"
| bump: "mi_published s \<Longrightarrow> mstep cr s (bump s)"
| fetch: "mi_running s \<Longrightarrow> i < length (mi_workers s) \<Longrightarrow> must_fetch s (mi_workers s ! i) \<Longrightarrow> mi_version s \<noteq> 0 \<Longrightarrow>
    mstep cr s (s\<lparr>mi_workers := (mi_workers s)[i := fetch s nonce]\<rparr>)"
| attempt: "i < length (mi_workers s) \<Longrightarrow> w_seen (mi_workers s ! i) \<noteq> 0 \<Longrightarrow> \<not> w_waiting (mi_workers s ! i) \<Longrightarrow>
    mstep cr s (try_nonce cr i s)"
| notify: "mstep cr s (notify_new_tip s)"
| start: "\<not> mi_published s \<Longrightarrow> mstep cr s (miner_start n payout s)"
| stop: "\<not> mi_published s \<Longrightarrow> mstep cr s (miner_stop s)"

inductive_cases mstep_cases: "mstep cr s s'"

definition miner_init :: miner_st where
  "miner_init = \<lparr>mi_running = False, mi_dirty = True, mi_threads = 0,
     mi_tmpl = \<lparr>header = w_hdr new_worker, txs = []\<rparr>, mi_target = hash_zero, mi_version = 0, mi_published = False,
     mi_payout = hash_zero, mi_workers = [], mi_found = [], mi_clean = []\<rparr>"

abbreviation mreach :: "crypto \<Rightarrow> miner_st \<Rightarrow> bool" where
  "mreach cr s \<equiv> (mstep cr)\<^sup>*\<^sup>* miner_init s"

section \<open>What is found\<close>

text \<open>The hash of a block's header is below the target its own bits stand for.\<close>

definition below_target :: "crypto \<Rightarrow> block \<Rightarrow> bool" where
  "below_target cr b \<longleftrightarrow> hash_le_target (header_hash cr (header b)) (to_hash (fst (from_compact (h_bits (header b)))))"

definition worker_sync :: "miner_st \<Rightarrow> worker_st \<Rightarrow> bool" where
  "worker_sync s w \<longleftrightarrow> w_seen w \<le> mi_version s
     \<and> (\<not> mi_published s \<and> w_seen w = mi_version s \<and> w_seen w \<noteq> 0 \<longrightarrow> w_hdr w = header (mi_tmpl s) \<and> w_target w = mi_target s)"

definition minv :: "crypto \<Rightarrow> miner_st \<Rightarrow> bool" where
  "minv cr s \<longleftrightarrow> (\<forall>w\<in>set (mi_workers s). worker_sync s w)
     \<and> (mi_version s \<noteq> 0 \<or> mi_published s \<longrightarrow> mi_target s = to_hash (fst (from_compact (h_bits (header (mi_tmpl s))))))
     \<and> list_all2 (\<lambda>b clean. clean \<longrightarrow> below_target cr b) (mi_found s) (mi_clean s)"

lemma set_update_memE: "x \<in> set (xs[i := y]) \<Longrightarrow> x = y \<or> x \<in> set xs"
  using set_update_subset_insert [of xs i y] by blast

lemma try_found:
  assumes "minv cr s" "i < length (mi_workers s)" "w_seen (mi_workers s ! i) \<noteq> 0" "\<not> mi_published s"
    "mi_version s = w_seen (mi_workers s ! i)"
    "hash_le_target (blake3 cr (put_nonce (write_header (w_hdr (mi_workers s ! i))) (w_nonce (mi_workers s ! i)))) (w_target (mi_workers s ! i))"
  shows "below_target cr ((mi_tmpl s)\<lparr>header := (header (mi_tmpl s))\<lparr>h_nonce := w_nonce (mi_workers s ! i)\<rparr>\<rparr>)"
proof -
  have "worker_sync s (mi_workers s ! i)" using assms(1,2) by (simp add: minv_def)
  then have w: "w_hdr (mi_workers s ! i) = header (mi_tmpl s)" "w_target (mi_workers s ! i) = mi_target s"
    using assms(3-5) by (simp_all add: worker_sync_def)
  have "mi_target s = to_hash (fst (from_compact (h_bits (header (mi_tmpl s)))))" using assms(1,3,5) by (simp add: minv_def)
  with w assms(6) show ?thesis by (simp add: below_target_def put_nonce_header header_hash_write)
qed

lemma mstep_minv: "mstep cr s s' \<Longrightarrow> minv cr s \<Longrightarrow> minv cr s'"
proof (induction rule: mstep.induct)
  case (publish s b)
  then show ?case by (auto simp: minv_def worker_sync_def publish_def)
next
  case (bump s)
  then show ?case by (auto simp: minv_def worker_sync_def bump_def)
next
  case (fetch s i nonce)
  then show ?case by (auto simp: minv_def worker_sync_def fetch_def dest!: set_update_memE)
next
  case (attempt i s)
  let ?w = "mi_workers s ! i"
  have w: "worker_sync s ?w" using attempt by (simp add: minv_def)
  have u: "\<forall>w\<in>set ((mi_workers s)[i := ?w\<lparr>w_waiting := True\<rparr>]). worker_sync s w"
    "\<forall>w\<in>set ((mi_workers s)[i := ?w\<lparr>w_nonce := w_nonce ?w + 1\<rparr>]). worker_sync s w"
    using attempt.prems w by (auto simp: minv_def worker_sync_def dest!: set_update_memE)
  show ?case
    using attempt.prems u try_found [OF attempt.prems attempt.hyps(1,2)]
    by (auto simp: try_nonce_def Let_def minv_def worker_sync_def)
next
  case (notify s)
  then show ?case by (simp add: minv_def worker_sync_def notify_new_tip_def)
next
  case (start s n payout)
  then show ?case by (auto simp: minv_def worker_sync_def miner_start_def miner_stop_def new_worker_def Let_def)
next
  case (stop s)
  then show ?case by (auto simp: minv_def worker_sync_def miner_stop_def)
qed

lemma mreach_minv: "mreach cr s \<Longrightarrow> minv cr s"
proof (induction rule: rtranclp_induct)
  case base
  show ?case by (simp add: miner_init_def minv_def)
next
  case (step y z)
  then show ?case by (blast intro: mstep_minv)
qed

lemma found_clean:
  assumes "minv cr s" "i < length (mi_found s)" "mi_clean s ! i"
  shows "below_target cr (mi_found s ! i)"
  using assms by (auto simp: minv_def list_all2_conv_all_nth)

section \<open>The window between publishing and counting\<close>

text \<open>A nonce found for one template can be put into the next one: the coordinator has written the new
  template but not yet counted it, so the worker's version test passes.\<close>

definition mining :: "block \<Rightarrow> u64 \<Rightarrow> miner_st" where
  "mining b n =
     (let s = bump (publish b (miner_start 1 hash_zero miner_init))
      in s\<lparr>mi_workers := (mi_workers s)[0 := fetch s n]\<rparr>)"

definition race :: "crypto \<Rightarrow> block \<Rightarrow> block \<Rightarrow> u64 \<Rightarrow> miner_st" where
  "race cr b1 b2 n = try_nonce cr 0 (publish b2 (mining b1 n))"

lemmas mining_defs = mining_def Let_def miner_start_def miner_stop_def miner_init_def publish_def bump_def fetch_def
  must_fetch_def new_worker_def

lemma mining_reachable: "mreach cr (mining b n)"
proof -
  define s1 where "s1 = miner_start 1 hash_zero miner_init"
  define s3 where "s3 = bump (publish b s1)"
  have "mstep cr miner_init s1" unfolding s1_def by (rule mstep.start) (simp add: miner_init_def)
  moreover have "mstep cr s1 (publish b s1)" by (rule mstep.publish) (simp_all add: s1_def mining_defs)
  moreover have "mstep cr (publish b s1) s3" unfolding s3_def by (rule mstep.bump) (simp add: publish_def)
  moreover have "mstep cr s3 (s3\<lparr>mi_workers := (mi_workers s3)[0 := fetch s3 n]\<rparr>)"
    by (rule mstep.fetch) (simp_all add: s3_def s1_def mining_defs)
  ultimately have "mreach cr (s3\<lparr>mi_workers := (mi_workers s3)[0 := fetch s3 n]\<rparr>)"
    by (meson rtranclp.rtrancl_refl rtranclp.rtrancl_into_rtrancl)
  then show ?thesis by (simp add: mining_def Let_def s3_def s1_def)
qed

lemma attempt_reachable: "mreach cr s \<Longrightarrow> mi_workers s = mi_workers (mining b n) \<Longrightarrow> mreach cr (try_nonce cr 0 s)"
  by (rule rtranclp.rtrancl_into_rtrancl, assumption, rule mstep.attempt) (simp_all add: mining_defs)

lemma race_reachable: "mreach cr (race cr b1 b2 n)"
proof -
  have "mstep cr (mining b1 n) (publish b2 (mining b1 n))" by (rule mstep.publish) (simp_all add: mining_defs)
  with mining_reachable [of cr b1 n] have "mreach cr (publish b2 (mining b1 n))" by (rule rtranclp.rtrancl_into_rtrancl)
  then show ?thesis unfolding race_def by (rule attempt_reachable) (simp add: publish_def)
qed

lemma mining_found:
  "below_target cr (b\<lparr>header := (header b)\<lparr>h_nonce := n\<rparr>\<rparr>) \<Longrightarrow>
   mi_found (try_nonce cr 0 (mining b n)) = [b\<lparr>header := (header b)\<lparr>h_nonce := n\<rparr>\<rparr>] \<and> mi_clean (try_nonce cr 0 (mining b n)) = [True]"
  by (simp add: mining_defs try_nonce_def below_target_def put_nonce_header header_hash_write)

lemma race_found:
  assumes "below_target cr (b1\<lparr>header := (header b1)\<lparr>h_nonce := n\<rparr>\<rparr>)"
  shows "mi_found (race cr b1 b2 n) = [b2\<lparr>header := (header b2)\<lparr>h_nonce := n\<rparr>\<rparr>]" "mi_clean (race cr b1 b2 n) = [False]"
  using assms
  by (simp_all add: race_def try_nonce_def mining_defs below_target_def put_nonce_header header_hash_write)

end
