(* ===== verification/Protocol.thy ===== *)
theory Protocol
  imports Utxo_Laws
begin

text \<open>
  The wire protocol (\<open>src/src/net/protocol.h\<close>, \<open>protocol.cpp\<close>) and network addresses
  (\<open>src/src/net/socket.h\<close>, \<open>socket.cpp\<close>): messages, frames and the incremental frame parser.
\<close>

section \<open>Addresses\<close>

record net_addr =
  na_ip :: bytes
  na_port :: u16

definition addr_ok :: "net_addr \<Rightarrow> bool" where
  "addr_ok a \<longleftrightarrow> length (na_ip a) = 16"

definition V4_PREFIX :: bytes where
  "V4_PREFIX = [0, 0, 0, 0, 0, 0, 0, 0, 0, 0, 0xff, 0xff]"

definition v4 :: "u32 \<Rightarrow> u16 \<Rightarrow> net_addr" where
  "v4 ip4 port = \<lparr>na_ip = V4_PREFIX @ [ucast (drop_bit 24 ip4), ucast (drop_bit 16 ip4), ucast (drop_bit 8 ip4), ucast ip4], na_port = port\<rparr>"

definition is_v4 :: "net_addr \<Rightarrow> bool" where
  "is_v4 a \<longleftrightarrow> take 12 (na_ip a) = V4_PREFIX"

definition v4_ip :: "net_addr \<Rightarrow> u32" where
  "v4_ip a = (push_bit 24 (ucast (na_ip a ! 12)) OR push_bit 16 (ucast (na_ip a ! 13)) OR push_bit 8 (ucast (na_ip a ! 14))
     OR ucast (na_ip a ! 15))"

definition na_is_zero :: "net_addr \<Rightarrow> bool" where
  "na_is_zero a \<longleftrightarrow> (if is_v4 a then v4_ip a = 0 else list_all (\<lambda>b. b = 0) (na_ip a))"

definition with_port :: "net_addr \<Rightarrow> u16 \<Rightarrow> net_addr" where
  "with_port a p = a\<lparr>na_port := p\<rparr>"

definition is_local :: "net_addr \<Rightarrow> bool" where
  "is_local na \<longleftrightarrow>
     (if is_v4 na then
        (let a = na_ip na ! 12; b = na_ip na ! 13 in
         a = 127 \<or> a = 10 \<or> (a = 192 \<and> b = 168) \<or> (a = 172 \<and> b \<ge> 16 \<and> b \<le> 31) \<or> (a = 169 \<and> b = 254))
      else na_ip na = replicate 15 0 @ [1]
        \<or> (na_ip na ! 0 = 0xfe \<and> na_ip na ! 1 AND 0xc0 = 0x80)
        \<or> na_ip na ! 0 AND 0xfe = 0xfc)"

definition routable :: "net_addr \<Rightarrow> bool" where
  "routable na \<longleftrightarrow>
     (if na_port na = 0 \<or> is_local na then False
      else if is_v4 na then
        (let a = na_ip na ! 12; b = na_ip na ! 13 in
         \<not> (a = 0 \<or> a \<ge> 224) \<and> \<not> (a = 100 \<and> b \<ge> 64 \<and> b \<le> 127))
      else na_ip na ! 0 AND 0xe0 = 0x20
        \<and> \<not> (na_ip na ! 0 = 0x20 \<and> na_ip na ! 1 = 0x01 \<and> na_ip na ! 2 = 0x0d \<and> na_ip na ! 3 = 0xb8))"

definition write_addr :: "net_addr \<Rightarrow> bytes" where
  "write_addr a = na_ip a @ w_u8 (ucast (drop_bit 8 (na_port a))) @ w_u8 (ucast (na_port a))"

definition read_addr :: "net_addr reader" where
  "read_addr r =
     rbind (r_raw 16 r) (\<lambda>(ip, r).
     rbind (r_u8 r) (\<lambda>(hi, r).
     rbind (r_u8 r) (\<lambda>(lo, r).
     Inr (\<lparr>na_ip = ip, na_port = push_bit 8 (ucast hi) OR ucast lo\<rparr>, r))))"

section \<open>Commands and constants\<close>

definition PROTOCOL_VERSION :: u32 where "PROTOCOL_VERSION = 3"
definition MAX_MESSAGE :: nat where "MAX_MESSAGE = 4 * 1024 * 1024"
definition FRAME_HEADER :: nat where "FRAME_HEADER = 13"
definition MAX_HEADERS_PER_MSG :: nat where "MAX_HEADERS_PER_MSG = 2000"
definition SNAPSHOT_CHUNK :: nat where "SNAPSHOT_CHUNK = 1024 * 1024"
definition SERVICE_FULL :: u64 where "SERVICE_FULL = 1"
definition SERVICE_LIGHT_SERVE :: u64 where "SERVICE_LIGHT_SERVE = 2"
definition SERVICE_ARCHIVE :: u64 where "SERVICE_ARCHIVE = 4"
definition SERVICE_SNAPSHOT :: u64 where "SERVICE_SNAPSHOT = 8"
definition INV_TX :: u8 where "INV_TX = 1"
definition INV_BLOCK :: u8 where "INV_BLOCK = 2"

text \<open>A command is read from a byte by a cast, so a value outside the enumeration is possible.\<close>

datatype cmd = CVersion | CVerack | CPing | CPong | CGetAddr | CAddr | CInv | CGetData | CNotFound | CGetHeaders | CHeaders
  | CBlock | CTx | CGetUtxos | CUtxos | CReject | CGetSnapshot | CSnapshot | COther u8

definition cmds :: "cmd list" where
  "cmds = [CVersion, CVerack, CPing, CPong, CGetAddr, CAddr, CInv, CGetData, CNotFound, CGetHeaders, CHeaders,
     CBlock, CTx, CGetUtxos, CUtxos, CReject, CGetSnapshot, CSnapshot]"

fun cmd_byte :: "cmd \<Rightarrow> u8" where
  "cmd_byte CVersion = 1" | "cmd_byte CVerack = 2" | "cmd_byte CPing = 3" | "cmd_byte CPong = 4"
| "cmd_byte CGetAddr = 5" | "cmd_byte CAddr = 6" | "cmd_byte CInv = 7" | "cmd_byte CGetData = 8"
| "cmd_byte CNotFound = 9" | "cmd_byte CGetHeaders = 10" | "cmd_byte CHeaders = 11" | "cmd_byte CBlock = 12"
| "cmd_byte CTx = 13" | "cmd_byte CGetUtxos = 14" | "cmd_byte CUtxos = 15" | "cmd_byte CReject = 16"
| "cmd_byte CGetSnapshot = 17" | "cmd_byte CSnapshot = 18" | "cmd_byte (COther b) = b"

definition cmd_of_byte :: "u8 \<Rightarrow> cmd" where
  "cmd_of_byte b = (if 1 \<le> b \<and> b \<le> 18 then cmds ! (unat b - 1) else COther b)"

fun cmd_name :: "cmd \<Rightarrow> string" where
  "cmd_name CVersion = ''version''" | "cmd_name CVerack = ''verack''" | "cmd_name CPing = ''ping''"
| "cmd_name CPong = ''pong''" | "cmd_name CGetAddr = ''getaddr''" | "cmd_name CAddr = ''addr''"
| "cmd_name CInv = ''inv''" | "cmd_name CGetData = ''getdata''" | "cmd_name CNotFound = ''notfound''"
| "cmd_name CGetHeaders = ''getheaders''" | "cmd_name CHeaders = ''headers''" | "cmd_name CBlock = ''block''"
| "cmd_name CTx = ''tx''" | "cmd_name CGetUtxos = ''getutxos''" | "cmd_name CUtxos = ''utxos''"
| "cmd_name CReject = ''reject''" | "cmd_name CGetSnapshot = ''getsnapshot''" | "cmd_name CSnapshot = ''snapshot''"
| "cmd_name (COther b) = ''?''"

section \<open>Messages\<close>

record version_msg =
  vm_version :: u32
  vm_services :: u64
  vm_nonce :: u64
  vm_height :: int
  vm_listen_port :: u16
  vm_agent :: string
  vm_genesis :: hash256
  vm_your_addr :: net_addr

definition version_encode :: "version_msg \<Rightarrow> bytes" where
  "version_encode m = w_u32le (vm_version m) @ w_u64le (vm_services m) @ w_u64le (vm_nonce m) @ w_u64le (word_of_int (vm_height m))
     @ w_u32le (ucast (vm_listen_port m)) @ w_str (vm_agent m) @ w_hash (vm_genesis m) @ write_addr (vm_your_addr m)"

definition version_decode :: "version_msg reader" where
  "version_decode r =
     rbind (r_u32le r) (\<lambda>(ver, r).
     rbind (r_u64le r) (\<lambda>(svc, r).
     rbind (r_u64le r) (\<lambda>(nonce, r).
     rbind (r_u64le r) (\<lambda>(h, r).
     rbind (r_u32le r) (\<lambda>(port, r).
     rbind (r_str 256 r) (\<lambda>(agent, r).
     rbind (r_hash r) (\<lambda>(gen, r).
     rbind (read_addr r) (\<lambda>(your, r).
     Inr (\<lparr>vm_version = ver, vm_services = svc, vm_nonce = nonce, vm_height = sint h, vm_listen_port = ucast port,
           vm_agent = agent, vm_genesis = gen, vm_your_addr = your\<rparr>, r)))))))))"

definition version_ok :: "version_msg \<Rightarrow> bool" where
  "version_ok m \<longleftrightarrow> - (2 ^ 63) \<le> vm_height m \<and> vm_height m < 2 ^ 63 \<and> length (vm_agent m) \<le> 256 \<and> addr_ok (vm_your_addr m)"

record inv_item =
  inv_type :: u8
  inv_hash :: hash256

record utxo_proof =
  up_op :: outpoint
  up_coin :: coin
  up_block :: hash256
  up_tx_core :: bytes
  up_tx_index :: u32
  up_tx_count :: u32
  up_merkle :: "hash256 list"

definition write_utxo_proof :: "utxo_proof \<Rightarrow> bytes" where
  "write_utxo_proof u = w_hash (op_txid (up_op u)) @ w_varint (ucast (op_n (up_op u)))
     @ write_txout (c_out (up_coin u)) @ w_varint (c_height (up_coin u)) @ w_u8 (if c_coinbase (up_coin u) then 1 else 0)
     @ w_hash (up_block u) @ w_bytes (up_tx_core u)
     @ w_varint (ucast (up_tx_index u)) @ w_varint (ucast (up_tx_count u)) @ w_counted w_hash (up_merkle u)"

definition read_utxo_proof :: "utxo_proof reader" where
  "read_utxo_proof r =
     rbind (r_hash r) (\<lambda>(tid, r).
     rbind (r_varint r) (\<lambda>(n, r).
     rbind (read_txout r) (\<lambda>(out, r).
     rbind (r_varint r) (\<lambda>(h, r).
     rbind (r_u8 r) (\<lambda>(cb, r).
     rbind (r_hash r) (\<lambda>(blk, r).
     rbind (r_bytes (of_nat MAX_MESSAGE) r) (\<lambda>(core, r).
     rbind (r_varint r) (\<lambda>(idx, r).
     rbind (r_varint r) (\<lambda>(cnt, r).
     rbind (r_counted 64 r_hash r) (\<lambda>(mk, r).
     Inr (\<lparr>up_op = OutPoint tid (ucast n), up_coin = \<lparr>c_out = out, c_height = h, c_coinbase = (cb \<noteq> 0)\<rparr>, up_block = blk,
           up_tx_core = core, up_tx_index = ucast idx, up_tx_count = ucast cnt, up_merkle = mk\<rparr>, r)))))))))))"

definition utxo_proof_ok :: "utxo_proof \<Rightarrow> bool" where
  "utxo_proof_ok u \<longleftrightarrow> length (up_tx_core u) \<le> MAX_MESSAGE \<and> length (up_merkle u) \<le> 64"

section \<open>Frames\<close>

definition frame_message :: "crypto \<Rightarrow> chain_params \<Rightarrow> cmd \<Rightarrow> bytes \<Rightarrow> bytes" where
  "frame_message cr p c payload = magic p @ w_u8 (cmd_byte c) @ w_u32le (of_nat (length payload))
     @ take 4 (hash_bytes (blake3_tagged cr ctx_NETCHECK payload)) @ payload"

text \<open>What \<open>FrameReader::next\<close> returns: 0, 1 or -1. The buffer is the state of the reader.\<close>

datatype frame_result = NeedMore | Message cmd bytes | FrameError string

definition feed :: "bytes \<Rightarrow> bytes \<Rightarrow> bytes" where
  "feed d buf = buf @ d"

definition frame_next :: "crypto \<Rightarrow> chain_params \<Rightarrow> bytes \<Rightarrow> frame_result \<times> bytes" where
  "frame_next cr p buf =
     (if length buf < FRAME_HEADER then (NeedMore, buf)
      else if take 4 buf \<noteq> magic p then (FrameError ''bad magic (wrong network?)'', buf)
      else
        (let len = (ucast (buf ! 5) OR push_bit 8 (ucast (buf ! 6)) OR push_bit 16 (ucast (buf ! 7)) OR push_bit 24 (ucast (buf ! 8)) :: u32) in
         if unat len > MAX_MESSAGE then (FrameError ''message too large'', buf)
         else if length buf < FRAME_HEADER + unat len then (NeedMore, buf)
         else
           (let payload = take (unat len) (drop FRAME_HEADER buf) in
            if take 4 (hash_bytes (blake3_tagged cr ctx_NETCHECK payload)) \<noteq> take 4 (drop 9 buf)
            then (FrameError ''bad checksum'', buf)
            else (Message (cmd_of_byte (buf ! 4)) payload, drop (FRAME_HEADER + unat len) buf))))"

section \<open>Round trips\<close>

lemma port_bytes: "push_bit 8 (ucast (ucast (drop_bit 8 p) :: u8)) OR ucast (ucast p :: u8) = (p :: u16)"
  by (rule bit_word_eqI) (auto simp: bit_or_iff bit_push_bit_iff bit_ucast_iff bit_drop_bit_eq)

interpretation addrc: codec write_addr read_addr addr_ok
proof
  show "read_addr (write_addr a @ r) = Inr (a, r)" if "addr_ok a" for a r
    using that rawc.rd_wr [of "na_ip a" 16] by (simp add: read_addr_def write_addr_def addr_ok_def u8c.rd_wr port_bytes)
  have lo: "ucast (push_bit 8 (ucast hi) OR ucast lo :: u16) = (lo :: u8)"
    and hi: "ucast (drop_bit 8 (push_bit 8 (ucast hi) OR ucast lo :: u16)) = (hi :: u8)" for hi lo :: u8
    by (rule bit_word_eqI, auto simp: bit_or_iff bit_push_bit_iff bit_ucast_iff bit_drop_bit_eq dest: bit_imp_le_length)+
  show "addr_ok a \<and> r = write_addr a @ r'" if "read_addr r = Inr (a, r')" for r a r'
    using that
    by (auto simp: read_addr_def write_addr_def addr_ok_def rbind_eq_Inr rawc.rd_iff u8c.rd_iff lo hi simp del: drop_bit_or)
qed

interpretation versionr: reads_back version_encode version_decode version_ok
proof
  show "version_decode (version_encode m @ r) = Inr (m, r)" if "version_ok m" for m r
  proof -
    have "sint (word_of_int (vm_height m) :: u64) = vm_height m"
      using that by (simp add: version_ok_def sint_sbintrunc' signed_take_bit_int_eq_self)
    moreover have "ucast (ucast (vm_listen_port m) :: u32) = vm_listen_port m"
      by (rule bit_word_eqI) (simp add: bit_ucast_iff)
    ultimately show ?thesis using that strc.rd_wr [of "vm_agent m" 256]
      by (simp add: version_decode_def version_encode_def version_ok_def u32c.rd_wr u64c.rd_wr hashc.rd_wr addrc.rd_wr)
  qed
qed

interpretation utxo_proofr: reads_back write_utxo_proof read_utxo_proof utxo_proof_ok
proof
  show "read_utxo_proof (write_utxo_proof u @ r) = Inr (u, r)" if "utxo_proof_ok u" for u r
  proof -
    have h: "r_counted 64 r_hash (w_counted w_hash (up_merkle u) @ r) = Inr (up_merkle u, r)"
      using that hashc.r_counted_wr [of "up_merkle u" 64 r] by (simp add: utxo_proof_ok_def)
    have "length (up_tx_core u) \<le> unat (of_nat MAX_MESSAGE :: u64)"
      using that by (simp add: utxo_proof_ok_def MAX_MESSAGE_def)
    then show ?thesis using h
      by (simp add: read_utxo_proof_def write_utxo_proof_def hashc.rd_wr varintc.rd_wr txoutc.rd_wr u8c.rd_wr bytesc.rd_wr)
  qed
qed

lemma byte_of_word:
  "n < 32 \<Longrightarrow> bit (push_bit 24 (ucast (ucast (drop_bit 24 x) :: u8)) OR push_bit 16 (ucast (ucast (drop_bit 16 x) :: u8))
     OR push_bit 8 (ucast (ucast (drop_bit 8 x) :: u8)) OR ucast (ucast x :: u8) :: u32) n \<longleftrightarrow> bit (x :: u32) n"
proof -
  assume "n < 32"
  consider "n < 8" | "8 \<le> n" "n < 16" | "16 \<le> n" "n < 24" | "24 \<le> n" by linarith
  then show ?thesis using \<open>n < 32\<close>
    by cases (auto simp: bit_or_iff bit_push_bit_iff bit_ucast_iff bit_drop_bit_eq)
qed

lemma v4_ip_v4: "is_v4 (v4 ip port)" "v4_ip (v4 ip port) = ip" "addr_ok (v4 ip port)"
proof -
  show "v4_ip (v4 ip port) = ip"
    by (rule bit_word_eqI) (use byte_of_word [of _ ip] in \<open>simp add: v4_ip_def v4_def V4_PREFIX_def\<close>)
qed (simp_all add: is_v4_def v4_def V4_PREFIX_def addr_ok_def)

section \<open>The frame parser\<close>

fun cmd_ok :: "cmd \<Rightarrow> bool" where
  "cmd_ok (COther b) \<longleftrightarrow> b = 0 \<or> b > 18"
| "cmd_ok _ \<longleftrightarrow> True"

lemma cmd_of_cmd_byte: "cmd_ok c \<Longrightarrow> cmd_of_byte (cmd_byte c) = c"
  by (cases c) (auto simp: cmd_of_byte_def cmds_def)

lemma le_bytes_32: "(ucast (ucast x :: u8) OR push_bit 8 (ucast (ucast (drop_bit 8 x) :: u8)) OR
   push_bit 16 (ucast (ucast (drop_bit 16 x) :: u8)) OR push_bit 24 (ucast (ucast (drop_bit 24 x) :: u8))) = (x :: u32)"
  by (rule bit_word_eqI) (use byte_of_word [of _ x] in \<open>simp add: ac_simps\<close>)

lemma frame_next_frame:
  assumes "length (magic p) = 4" "cmd_ok c" "length payload \<le> MAX_MESSAGE"
  shows "frame_next cr p (frame_message cr p c payload @ rest) = (Message c payload, rest)"
proof -
  obtain m0 m1 m2 m3 where m: "magic p = [m0, m1, m2, m3]" using assms(1) by (auto simp: length_Suc_conv numeral_eq_Suc)
  obtain k0 k1 k2 k3 where k: "take 4 (hash_bytes (blake3_tagged cr ctx_NETCHECK payload)) = [k0, k1, k2, k3]"
  proof -
    have "length (take 4 (hash_bytes (blake3_tagged cr ctx_NETCHECK payload))) = Suc (Suc (Suc (Suc 0)))" by simp
    then show thesis using that unfolding length_Suc_conv length_0_conv by blast
  qed
  have len: "unat (of_nat (length payload) :: u32) = length payload"
    using assms(3) by (simp add: MAX_MESSAGE_def unat_of_nat)
  have w: "w_u32le x = [ucast x, ucast (drop_bit 8 x), ucast (drop_bit 16 x), ucast (drop_bit 24 x)]" for x
    by (simp add: w_u32le_def upt_rec)
  have d: "drop (13 + n) xs = drop n (drop 13 xs)" for n and xs :: bytes by (simp add: add.commute)
  show ?thesis
    using assms(2,3) len
    by (simp add: d frame_next_def frame_message_def m k w w_u8_def FRAME_HEADER_def Let_def le_bytes_32 cmd_of_cmd_byte)
qed

text \<open>More bytes change nothing that has been decided.\<close>

lemma frame_next_more:
  "frame_next cr p b = (Message c pl, b') \<Longrightarrow> frame_next cr p (b @ d) = (Message c pl, b' @ d)"
  "frame_next cr p b = (FrameError err, b') \<Longrightarrow> frame_next cr p (b @ d) = (FrameError err, b' @ d)"
  "frame_next cr p b = (NeedMore, b') \<Longrightarrow> b' = b"
  "frame_next cr p b = (Message c pl, b') \<Longrightarrow> length b' < length b"
proof -
  have e: "take 4 (b @ d) = take 4 b" "(b @ d) ! 4 = b ! 4" "(b @ d) ! 5 = b ! 5" "(b @ d) ! 6 = b ! 6" "(b @ d) ! 7 = b ! 7"
    "(b @ d) ! 8 = b ! 8" "take 4 (drop 9 (b @ d)) = take 4 (drop 9 b)" if "\<not> length b < 13"
    using that by (simp_all add: nth_append)
  have t: "take n (drop 13 (b @ d)) = take n (drop 13 b)" "drop (13 + n) (b @ d) = drop (13 + n) b @ d"
    if "\<not> length b < 13 + n" for n using that by simp_all
  show "frame_next cr p b = (Message c pl, b') \<Longrightarrow> frame_next cr p (b @ d) = (Message c pl, b' @ d)"
    by (simp add: frame_next_def Let_def FRAME_HEADER_def e t split: if_splits)
  show "frame_next cr p b = (FrameError err, b') \<Longrightarrow> frame_next cr p (b @ d) = (FrameError err, b' @ d)"
    by (simp add: frame_next_def Let_def FRAME_HEADER_def e t split: if_splits)
  show "frame_next cr p b = (NeedMore, b') \<Longrightarrow> b' = b" by (simp add: frame_next_def Let_def split: if_splits)
  show "frame_next cr p b = (Message c pl, b') \<Longrightarrow> length b' < length b"
    by (auto simp: frame_next_def Let_def FRAME_HEADER_def split: if_splits)
qed

function drain :: "crypto \<Rightarrow> chain_params \<Rightarrow> bytes \<Rightarrow> (cmd \<times> bytes) list \<times> frame_result \<times> bytes" where
  "drain cr p buf =
     (case frame_next cr p buf of
        (Message c pl, buf') \<Rightarrow> (let (ms, r) = drain cr p buf' in ((c, pl) # ms, r))
      | (r, buf') \<Rightarrow> ([], r, buf'))"
  by pat_completeness auto
termination
  by (relation "measure (\<lambda>(cr, p, buf). length buf)") (auto dest: frame_next_more(4) [OF sym])

declare drain.simps [simp del]

text \<open>The bytes of a connection arrive in pieces; each is fed to the reader and the messages it completes
  are taken out, up to the first error.\<close>

primrec receive :: "crypto \<Rightarrow> chain_params \<Rightarrow> bytes list \<Rightarrow> bytes \<Rightarrow> (cmd \<times> bytes) list \<times> frame_result" where
  "receive cr p [] buf = ([], NeedMore)"
| "receive cr p (d # ds) buf =
     (case drain cr p (feed d buf) of
        (ms, NeedMore, buf') \<Rightarrow> (let (ms', r) = receive cr p ds buf' in (ms @ ms', r))
      | (ms, r, buf') \<Rightarrow> (ms, r))"

lemma drain_result: "drain cr p b = (ms, Message c pl, b') \<Longrightarrow> False"
proof (induction cr p b arbitrary: ms rule: drain.induct)
  case (1 cr p b)
  from "1.prems" show ?case
    by (subst (asm) drain.simps) (auto split: prod.splits frame_result.splits dest: "1.IH" [OF sym refl])
qed

lemma drain_stuck: "drain cr p b = (ms, NeedMore, b') \<Longrightarrow> frame_next cr p b' = (NeedMore, b')"
proof (induction cr p b arbitrary: ms rule: drain.induct)
  case (1 cr p b)
  from "1.prems" show ?case
    by (subst (asm) drain.simps) (auto split: prod.splits frame_result.splits dest: "1.IH" [OF sym refl] frame_next_more(3))
qed

lemma drain_append:
  "drain cr p b = (ms, r, b') \<Longrightarrow> drain cr p (b @ d) =
     (if r = NeedMore then (ms @ fst (drain cr p (b' @ d)), snd (drain cr p (b' @ d))) else (ms, r, b' @ d))"
proof (induction cr p b arbitrary: ms rule: drain.induct)
  case (1 cr p b)
  obtain x b1 where n: "frame_next cr p b = (x, b1)" by force
  show ?case
  proof (cases x)
    case NeedMore
    then have "ms = []" "r = NeedMore" "b' = b" using n "1.prems" frame_next_more(3) [of cr p b b1]
      by (auto simp: drain.simps [of cr p b])
    then show ?thesis by simp
  next
    case (FrameError e)
    then have "ms = []" "r = FrameError e" "b' = b1" using n "1.prems" by (auto simp: drain.simps [of cr p b])
    with frame_next_more(2) [of cr p b e b1 d] n FrameError show ?thesis by (simp add: drain.simps [of cr p "b @ d"])
  next
    case (Message c pl)
    obtain ms1 where m: "drain cr p b1 = (ms1, r, b')" "ms = (c, pl) # ms1"
      using n Message "1.prems" by (auto simp: drain.simps [of cr p b] Let_def split: prod.splits)
    from "1.IH" [OF n [symmetric] Message m(1)] frame_next_more(1) [of cr p b c pl b1 d] n Message m(2)
    show ?thesis by (simp add: drain.simps [of cr p "b @ d"] split: prod.splits)
  qed
qed

lemma receive_drain:
  "frame_next cr p buf = (NeedMore, buf) \<Longrightarrow>
   receive cr p ds buf = (fst (drain cr p (buf @ concat ds)), fst (snd (drain cr p (buf @ concat ds))))"
proof (induction ds arbitrary: buf)
  case Nil
  then show ?case by (simp add: drain.simps [of cr p buf])
next
  case (Cons d ds)
  obtain ms r b' where dr: "drain cr p (buf @ d) = (ms, r, b')" by (metis prod_cases3)
  note a = drain_append [OF dr, of "concat ds"]
  show ?case
  proof (cases r)
    case NeedMore
    then show ?thesis using Cons.IH [OF drain_stuck] dr a by (simp add: feed_def split: prod.splits)
  next
    case (Message c pl)
    then show ?thesis using drain_result dr by blast
  next
    case (FrameError e)
    then show ?thesis using dr a by (simp add: feed_def)
  qed
qed

lemma drain_frames:
  "length (magic p) = 4 \<Longrightarrow> \<forall>(c, pl)\<in>set ms. cmd_ok c \<and> length pl \<le> MAX_MESSAGE \<Longrightarrow>
   drain cr p (concat (map (\<lambda>(c, pl). frame_message cr p c pl) ms)) = (ms, NeedMore, [])"
proof (induction ms)
  case Nil
  show ?case by (simp add: drain.simps frame_next_def FRAME_HEADER_def)
next
  case (Cons m ms)
  obtain c pl where m: "m = (c, pl)" by force
  from Cons frame_next_frame [of p c pl cr] m show ?case by (subst drain.simps) simp
qed

end
