(* ===== verification/P2P.thy ===== *)
theory P2P
  imports Mempool Protocol
begin

text \<open>
  The peer-to-peer engine of a full node (\<open>src/src/net/p2p.h\<close>, \<open>p2p.cpp\<close>): its peers and what it does to them.
  All of this state belongs to one thread, so an operation is a function of the state. A peer is named by its id.
  Only the unsent part of a peer's buffer is kept (\<open>txbuf\<close> from \<open>tx_off\<close> on). What the system answers to \<open>send\<close>
  is a function of the number of calls so far; connecting, resolving names, random numbers and shuffling are in
  \<open>p2p_env\<close>. Ids, which count connections from 1, are natural numbers; 0 is no peer. The log and the byte counters
  of the whole node are left out.
\<close>

section \<open>State\<close>

definition MAX_INFLIGHT_PER_PEER :: int where "MAX_INFLIGHT_PER_PEER = 16"
definition DOWNLOAD_WINDOW :: int where "DOWNLOAD_WINDOW = 1024"
definition MAX_KNOWN_INV :: nat where "MAX_KNOWN_INV = 5000"

datatype io = Sent nat | Would_block | Broken

record peer =
  pe_id :: nat
  pe_addr :: net_addr
  pe_inbound :: bool
  pe_manual :: bool
  pe_connecting :: bool
  pe_got_version :: bool
  pe_got_verack :: bool
  pe_sent_version :: bool
  pe_disconnect :: bool
  pe_ver :: version_msg
  pe_rx :: bytes
  pe_txbuf :: bytes
  pe_tx_off :: nat
  pe_start_ms :: int
  pe_last_recv_ms :: int
  pe_ping_sent_ms :: int
  pe_last_getheaders_ms :: int
  pe_ping_nonce :: u64
  pe_ping_ms :: int
  pe_best_height :: int
  pe_bin :: u64
  pe_bout :: u64
  pe_stalls :: int
  pe_blocks_sent :: u64
  pe_known :: "hash256 list"
  pe_known_order :: "hash256 list"
  pe_sends :: "nat \<Rightarrow> io"
  pe_calls :: nat

record addr_info =
  ai_last_ok :: int
  ai_last_try :: int
  ai_attempts :: nat
  ai_manual :: bool

record ban_op =
  bo_ip :: bytes
  bo_until :: int
  bo_reason :: string
  bo_remove :: bool

record p2p_opt =
  po_listen :: bool
  po_port :: u16
  po_connect_only :: bool
  po_max_outbound :: int
  po_max_inbound :: int
  po_agent :: string
  po_fast_sync :: bool

record p2p_env =
  ev_shuffle :: "net_addr list \<Rightarrow> net_addr list"
  ev_random :: "nat \<Rightarrow> u64"
  ev_ipv6 :: bool
  ev_mapped :: bool
  ev_socket :: "net_addr \<Rightarrow> (nat \<Rightarrow> io) option"
  ev_resolve :: "string \<Rightarrow> net_addr option"

record p2p =
  pn_opt :: p2p_opt
  pn_cs :: chainstate
  pn_mp :: mempool
  pn_nonce :: u64
  pn_ms :: int
  pn_peers :: "peer list"
  pn_next_id :: nat
  pn_addrs :: "(net_addr \<times> addr_info) list"
  pn_banned :: "(bytes \<times> int) list"
  pn_inflight :: "(hash256 \<times> nat \<times> int) list"
  pn_no_witness :: "(hash256 \<times> nat) list"
  pn_votes :: "(net_addr \<times> nat) list"
  pn_ext4 :: net_addr
  pn_ext6 :: net_addr
  pn_self :: "net_addr list"
  pn_last_announce :: int
  pn_q_relay :: "hash256 list"
  pn_q_addnode :: "string list"
  pn_q_disconnect :: "nat list"
  pn_q_ban :: "ban_op list"
  pn_q_tip :: bool
  pn_ban_reason :: "(bytes \<times> string) list"
  pn_snap_peer :: nat
  pn_snap_block :: hash256
  pn_snap_buf :: bytes
  pn_snap_total :: u64
  pn_snap_since :: int
  pn_snap_bad :: "nat list"
  pn_serve_block :: hash256
  pn_serve :: bytes

abbreviation pn_p :: "p2p \<Rightarrow> chain_params" where
  "pn_p s \<equiv> cs_p (pn_cs s)"

text \<open>\<open>now_seconds()\<close>.\<close>

abbreviation pn_now :: "p2p \<Rightarrow> int" where
  "pn_now s \<equiv> cs_now (pn_cs s)"

definition blank_addr :: net_addr where
  "blank_addr = \<lparr>na_ip = replicate 16 0, na_port = 0\<rparr>"

definition blank_version :: version_msg where
  "blank_version = \<lparr>vm_version = PROTOCOL_VERSION, vm_services = 0, vm_nonce = 0, vm_height = 0, vm_listen_port = 0,
     vm_agent = [], vm_genesis = hash_zero, vm_your_addr = blank_addr\<rparr>"

definition new_peer :: "nat \<Rightarrow> net_addr \<Rightarrow> (nat \<Rightarrow> io) \<Rightarrow> int \<Rightarrow> peer" where
  "new_peer i a sock now =
     \<lparr>pe_id = i, pe_addr = a, pe_inbound = False, pe_manual = False, pe_connecting = False, pe_got_version = False,
      pe_got_verack = False, pe_sent_version = False, pe_disconnect = False, pe_ver = blank_version, pe_rx = [], pe_txbuf = [], pe_tx_off = 0,
      pe_start_ms = now, pe_last_recv_ms = 0, pe_ping_sent_ms = 0, pe_last_getheaders_ms = 0, pe_ping_nonce = 0, pe_ping_ms = -1,
      pe_best_height = 0, pe_bin = 0, pe_bout = 0, pe_stalls = 0, pe_blocks_sent = 0, pe_known = [], pe_known_order = [],
      pe_sends = sock, pe_calls = 0\<rparr>"

definition active :: "peer \<Rightarrow> bool" where
  "active p \<longleftrightarrow> pe_got_version p \<and> pe_got_verack p \<and> \<not> pe_disconnect p"

definition serves :: "u64 \<Rightarrow> peer \<Rightarrow> bool" where
  "serves service p \<longleftrightarrow> vm_services (pe_ver p) AND service \<noteq> 0"

definition full :: "peer \<Rightarrow> bool" where
  "full p \<longleftrightarrow> serves SERVICE_FULL p"

definition mark_known :: "hash256 \<Rightarrow> peer \<Rightarrow> peer" where
  "mark_known h p =
     (if h \<in> set (pe_known p) then p
      else
        (let known = h # pe_known p; order = pe_known_order p @ [h] in
         if length order > MAX_KNOWN_INV
         then p\<lparr>pe_known := removeAll (hd order) known, pe_known_order := tl order\<rparr>
         else p\<lparr>pe_known := known, pe_known_order := order\<rparr>))"

section \<open>Peers by id\<close>

definition upd_peer :: "nat \<Rightarrow> (peer \<Rightarrow> peer) \<Rightarrow> p2p \<Rightarrow> p2p" where
  "upd_peer i f s = s\<lparr>pn_peers := map (\<lambda>p. if pe_id p = i then f p else p) (pn_peers s)\<rparr>"

definition peer_of :: "p2p \<Rightarrow> nat \<Rightarrow> peer" where
  "peer_of s i = (case List.find (\<lambda>p. pe_id p = i) (pn_peers s) of None \<Rightarrow> new_peer i blank_addr (\<lambda>_. Broken) 0 | Some p \<Rightarrow> p)"

definition drop_peer :: "peer \<Rightarrow> peer" where
  "drop_peer p = p\<lparr>pe_disconnect := True\<rparr>"

section \<open>Sending\<close>

text \<open>\<open>flush_peer\<close>: at most 1 MB a call, until everything is sent, the system would block, or the connection fails. What was
  sent stays in the buffer until nothing is left to send.\<close>

function flush_loop :: "peer \<Rightarrow> peer" where
  "flush_loop p =
     (if length (pe_txbuf p) \<le> pe_tx_off p then p
      else
        (let want = min (length (pe_txbuf p) - pe_tx_off p) (2 ^ 20); res = pe_sends p (pe_calls p); p = p\<lparr>pe_calls := pe_calls p + 1\<rparr> in
         case res of
           Sent k \<Rightarrow>
             (let n = min k want in
              if n = 0 then drop_peer p
              else flush_loop (p\<lparr>pe_tx_off := pe_tx_off p + n, pe_bout := pe_bout p + of_nat n\<rparr>))
         | Would_block \<Rightarrow> p
         | Broken \<Rightarrow> drop_peer p))"
  by pat_completeness auto
termination
  by (relation "measure (\<lambda>p. length (pe_txbuf p) - pe_tx_off p)") auto

declare flush_loop.simps [simp del]

definition all_sent :: "peer \<Rightarrow> peer" where
  "all_sent p = (if pe_tx_off p = length (pe_txbuf p) then p\<lparr>pe_txbuf := [], pe_tx_off := 0\<rparr> else p)"

definition flush_peer :: "peer \<Rightarrow> peer" where
  "flush_peer p = all_sent (flush_loop p)"

definition send_peer :: "crypto \<Rightarrow> chain_params \<Rightarrow> cmd \<Rightarrow> bytes \<Rightarrow> peer \<Rightarrow> peer" where
  "send_peer cr cp c payload p =
     (if pe_disconnect p then p
      else
        (let p = (if c = CBlock then p\<lparr>pe_blocks_sent := pe_blocks_sent p + 1\<rparr> else p);
             p = (if pe_tx_off p > 0 then all_sent p else p);
             p = p\<lparr>pe_txbuf := pe_txbuf p @ frame_message cr cp c payload\<rparr>
         in if length (pe_txbuf p) - pe_tx_off p > 64 * 1024 * 1024 then drop_peer p else flush_peer p))"

definition send_to :: "crypto \<Rightarrow> nat \<Rightarrow> cmd \<Rightarrow> bytes \<Rightarrow> p2p \<Rightarrow> p2p" where
  "send_to cr i c payload s = upd_peer i (send_peer cr (pn_p s) c payload) s"

definition misbehave :: "nat \<Rightarrow> bool \<Rightarrow> p2p \<Rightarrow> p2p" where
  "misbehave i ban s =
     (let p = peer_of s i; s = upd_peer i drop_peer s in
      if ban \<and> \<not> pe_manual p then s\<lparr>pn_banned := AList.update (na_ip (pe_addr p)) (pn_now s + 3600) (pn_banned s)\<rparr> else s)"

definition send_getheaders :: "crypto \<Rightarrow> nat \<Rightarrow> bool \<Rightarrow> p2p \<Rightarrow> p2p" where
  "send_getheaders cr i from_best_header s =
     (let loc = locator (pn_cs s) (if from_best_header then cs_best_header (pn_cs s) else None);
          s = send_to cr i CGetHeaders (w_counted w_hash loc @ w_hash hash_zero) s
      in upd_peer i (\<lambda>p. p\<lparr>pe_last_getheaders_ms := pn_ms s\<rparr>) s)"

section \<open>Addresses\<close>

definition blank_info :: addr_info where
  "blank_info = \<lparr>ai_last_ok = 0, ai_last_try = 0, ai_attempts = 0, ai_manual = False\<rparr>"

text \<open>\<open>addrs_[a]\<close>, which inserts; the order of the map is that of the address bytes and the port.\<close>

definition info_of :: "p2p \<Rightarrow> net_addr \<Rightarrow> addr_info" where
  "info_of s a = (case map_of (pn_addrs s) a of None \<Rightarrow> blank_info | Some i \<Rightarrow> i)"

definition upd_info :: "net_addr \<Rightarrow> (addr_info \<Rightarrow> addr_info) \<Rightarrow> p2p \<Rightarrow> p2p" where
  "upd_info a f s = s\<lparr>pn_addrs := AList.update a (f (info_of s a)) (pn_addrs s)\<rparr>"

definition addr_rank :: "net_addr \<Rightarrow> nat" where
  "addr_rank a = be_val (na_ip a) * 65536 + unat (na_port a)"

definition in_order :: "(net_addr \<times> 'a) list \<Rightarrow> (net_addr \<times> 'a) list" where
  "in_order m = sort_key (\<lambda>(a, _). addr_rank a) m"

text \<open>\<open>std::max_element\<close>: the first of those with the most attempts.\<close>

definition worst_addr :: "(net_addr \<times> addr_info) list \<Rightarrow> (net_addr \<times> addr_info) option" where
  "worst_addr m =
     fold (\<lambda>x w. case w of None \<Rightarrow> Some x | Some y \<Rightarrow> if ai_attempts (snd y) < ai_attempts (snd x) then Some x else Some y) (in_order m) None"

definition add_addr :: "net_addr \<Rightarrow> bool \<Rightarrow> p2p \<Rightarrow> p2p" where
  "add_addr a manual s =
     (if na_port a = 0 \<or> na_is_zero a then s
      else if a = pn_ext4 s \<or> a = pn_ext6 s then s
      else
        (let s = upd_info a (\<lambda>i. if manual then i\<lparr>ai_manual := True\<rparr> else i) s in
         if length (pn_addrs s) > 5000
         then (case worst_addr (pn_addrs s) of
                 None \<Rightarrow> s
               | Some (w, i) \<Rightarrow> if ai_manual i then s else s\<lparr>pn_addrs := AList.delete w (pn_addrs s)\<rparr>)
         else s))"

definition learned_external :: "net_addr \<Rightarrow> p2p \<Rightarrow> p2p" where
  "learned_external a s =
     (if \<not> routable a then s
      else
        (let v = (case map_of (pn_votes s) a of None \<Rightarrow> 0 | Some v \<Rightarrow> v) + 1;
             s = s\<lparr>pn_votes := AList.update a v (pn_votes s)\<rparr>
         in if v \<ge> 2 \<and> a \<noteq> (if is_v4 a then pn_ext4 s else pn_ext6 s)
            then (if is_v4 a then s\<lparr>pn_ext4 := a\<rparr> else s\<lparr>pn_ext6 := a\<rparr>)\<lparr>pn_addrs := AList.delete a (pn_addrs s)\<rparr>
            else s))"

section \<open>The chain and the pool behind the peers\<close>

text \<open>The pool has accepted transactions: \<open>on_added\<close> queues their ids for relay.\<close>

definition pool_grown :: "crypto \<Rightarrow> mempool \<Rightarrow> p2p \<Rightarrow> p2p" where
  "pool_grown cr mp s =
     s\<lparr>pn_mp := mp, pn_q_relay := pn_q_relay s @ map (txid cr) (drop (length (mp_added (pn_mp s))) (mp_added mp))\<rparr>"

text \<open>The chain has moved: its new events run the callbacks of the pool (first) and of this engine, in order. They read
  the chain as the operation left it.\<close>

definition run_event :: "crypto \<Rightarrow> chain_event \<Rightarrow> p2p \<Rightarrow> p2p" where
  "run_event cr e s =
     (case e of
        EvConnect b i \<Rightarrow> pool_grown cr (mp_on_connect cr b (pn_mp s)) s
      | EvDisconnect b i \<Rightarrow> pool_grown cr (mp_on_disconnect cr (pn_cs s) b (pn_mp s)) s
      | EvTip i \<Rightarrow> (pool_grown cr (mp_on_tip cr (pn_cs s) (pn_mp s)) s)\<lparr>pn_q_tip := True\<rparr>)"

definition set_chain :: "crypto \<Rightarrow> chainstate \<Rightarrow> p2p \<Rightarrow> p2p" where
  "set_chain cr cs s = fold (run_event cr) (drop (length (cs_events (pn_cs s))) (cs_events cs)) (s\<lparr>pn_cs := cs\<rparr>)"

end
