(* ===== verification/Chain_Accept.thy ===== *)
theory Chain_Accept
  imports Chain_Laws
begin

text \<open>
  Whatever a peer hands to the chain, the chain answers and its block tree stays well formed: accepting a
  block and starting from a snapshot always return, on every branch.
\<close>

abbreviation chain_good :: "chainstate \<Rightarrow> bool" where
  "chain_good cs \<equiv> tree_ok cs \<and> refs_ok cs"

section \<open>Blocks\<close>

lemma good_core: "core cs' = core cs \<Longrightarrow> chain_good cs' \<longleftrightarrow> chain_good cs"
  using tree_core [of cs' cs] refs_core [of cs' cs] by blast

lemma core_known: "core cs' = core cs \<Longrightarrow> known cs' b \<longleftrightarrow> known cs b"
  by (simp add: core_iff known_def)

lemma good_upd:
  assumes "chain_good cs" "known cs b" "\<And>n. shape (f n) = shape n"
  shows "chain_good (upd_index b f cs)"
proof -
  have t: "same_tree cs (upd_index b f cs)" using assms(2,3) by (rule upd_index_same)
  have "refs_ok (upd_index b f cs)"
    using assms(1) same_tree_deref(1) [OF t] by (simp add: refs_ok_def upd_index_def)
  moreover have "tree_ok (upd_index b f cs)" using same_tree_ok [OF t] assms(1) by (simp add: upd_index_def)
  ultimately show ?thesis by blast
qed

lemma store_block_good:
  assumes "chain_good cs" "known cs idx" "store_block idx b w cs = (cs', ok)"
  shows "chain_good cs' \<and> known cs' idx"
proof -
  obtain cs1 ok1 where a: "append_cs (cs_dir cs @ ''/blocks.dat'') (block_core_bytes b) cs = (cs1, ok1)" by force
  have c1: "core cs1 = core cs" using core_write(2) [of "cs_dir cs @ ''/blocks.dat''" "block_core_bytes b" cs] a by simp
  show ?thesis
  proof (cases ok1)
    case False
    then have "cs' = cs1" using assms(3) a by (simp add: store_block_def Let_def)
    then show ?thesis using assms(1,2) good_core [OF c1] core_known [OF c1, of idx] by simp
  next
    case True
    define rec where "rec = w_hash (bi_hash (deref cs1 idx)) @ w_u64le (of_nat (file_size (cs_fs cs) (cs_dir cs @ ''/blocks.dat'')))
      @ w_u32le (of_nat (length (block_core_bytes b)))"
    define cs2 where "cs2 = fst (append_cs (cs_dir cs1 @ ''/blockpos.dat'') rec cs1)"
    define f where "f = (\<lambda>n :: block_index. n\<lparr>bi_data_pos := of_nat (file_size (cs_fs cs) (cs_dir cs @ ''/blocks.dat'')),
      bi_data_len := of_nat (length (block_core_bytes b)), bi_have_data := True\<rparr>)"
    define cs3 where "cs3 = upd_index idx f cs2"
    have c2: "core cs2 = core cs" by (simp add: cs2_def c1)
    have k2: "chain_good cs2" "known cs2 idx" using assms(1,2) good_core [OF c2] core_known [OF c2, of idx] by simp_all
    have g3: "chain_good cs3" unfolding cs3_def by (rule good_upd [OF k2]) (simp add: f_def shape_def)
    have k3: "known cs3 idx" by (simp add: cs3_def known_def upd_index_def update_conv')
    have c': "core cs' = core cs3"
      using assms(3) a True unfolding store_block_def
      by (auto simp: Let_def cs3_def f_def cs2_def rec_def)
    show ?thesis using good_core [OF c'] core_known [OF c', of idx] g3 k3 by simp
  qed
qed

lemma update_chain_data_good:
  assumes "chain_good cs" "known cs b"
  obtains cs' where "update_chain_data b cs = Some cs'" "chain_good cs'" "same_tree cs cs'" "cs_p cs' = cs_p cs"
proof -
  have ok: "index_ok cs" using assms(1) by (simp add: tree_ok_def)
  obtain cs' where u: "update_chain_data b cs = Some cs'" "same_tree cs cs'" "same_rest cs cs'"
    "\<forall>c\<in>set (cs_candidates cs'). c \<in> set (cs_candidates cs) \<or> known cs c" "cs_best_header cs' = cs_best_header cs"
    by (rule update_chain_data_ends [OF ok assms(2)])
  have r: "cs_chain cs' = cs_chain cs" "cs_p cs' = cs_p cs" using u(3) by (simp_all add: same_rest_def)
  have "tree_ok cs'" using same_tree_ok [OF u(2) r(1)] assms(1) by simp
  moreover have "refs_ok cs'" using assms(1) u(4,5) r(2) same_tree_deref(1) [OF u(2)] by (auto simp: refs_ok_def)
  ultimately show ?thesis using that u(1,2) r(2) by blast
qed

lemma accept_header_known:
  assumes "accept_header cr h cs = (cs', r, why, Some b)" "chain_good cs" "r \<noteq> HInvalid" "r \<noteq> HOrphan"
  shows "known cs' b"
proof (cases r)
  case HOk
  note a = accept_header_ok [OF assms(1) [unfolded HOk]]
  have "known (fst (add_index cr h cs)) b" using add_index_nodes(1) [OF a(1,2)] a(4) by simp
  then show ?thesis using core_known [OF a(5)] by simp
next
  case HKnown
  then show ?thesis using assms(1) by (auto simp: accept_header_def cs_lookup_iff split: option.splits sum.splits prod.splits if_splits)
qed (use assms in auto)

lemma activate_returns:
  assumes "chain_good cs"
  shows "\<exists>cs'. activate_best_chain cr cs = Some cs' \<and> chain_good cs'"
  using activate_best_chain_tree [OF conjunct1 [OF assms] conjunct2 [OF assms], of cr] by metis

lemma accept_block_good:
  assumes "chain_good cs"
  shows "\<exists>cs' res new. accept_block cr b w cs = Some (cs', res, new) \<and> chain_good cs'"
proof -
  obtain cs1 r why out where h: "accept_header cr (header b) cs = (cs1, r, why, out)" by (metis prod_cases4)
  have g1: "chain_good cs1" using accept_header_tree [OF conjunct1 [OF assms] conjunct2 [OF assms] h] .
  show ?thesis
  proof (cases "r = HInvalid \<or> r = HOrphan \<or> out = None")
    case True
    then show ?thesis using h g1 by (cases r; cases out) (auto simp: accept_block_def)
  next
    case False
    then obtain idx where o: "out = Some idx" by auto
    have k1: "known cs1 idx" using accept_header_known [OF _ assms, of cr "header b" cs1 r why idx] h o False by auto
    define stored where "stored = bi_have_data (deref cs1 idx)"
    define cs2 where "cs2 = (if w then cs1 else upd_index idx (\<lambda>n. n\<lparr>bi_no_witness_ok := True\<rparr>) cs1)"
    have g2: "chain_good cs2" using g1 good_upd [OF g1 k1] by (simp add: cs2_def shape_def)
    have k2: "known cs2 idx" using k1 by (simp add: cs2_def known_def upd_index_def update_conv')
    have acc: "accept_block cr b w cs =
      (if stored then
            (if w \<and> \<not> have_witness cs1 idx \<and> \<not> in_active_chain cs1 idx
                \<and> compute_witness_root cr b = witness_root_f (header b)
             then map_option (\<lambda>cs. (cs, Inr (), False))
                    (activate_best_chain cr (fst (write_cs (witness_path cs1 (bi_hash (deref cs1 idx))) (block_witness_bytes b) cs1)))
             else Some (cs1, Inr (), False))
          else
            (case check_block_shape cr cs1 idx b w of
               Inl why \<Rightarrow> Some (cs1, Inl why, False)
             | Inr _ \<Rightarrow>
                 (case check_block_body cr cs2 idx b w of
                       Inl why \<Rightarrow> Some (cs2, Inl why, False)
                     | Inr _ \<Rightarrow>
                         (case store_block idx b w cs2 of
                            (cs, False) \<Rightarrow> Some (cs, Inl ''disk-write-failed'', False)
                          | (cs, True) \<Rightarrow>
                              Option.bind (update_chain_data idx cs) (\<lambda>cs.
                              map_option (\<lambda>cs. (cs, Inr (), True)) (activate_best_chain cr cs))))))"
      using h o False by (cases r; cases w) (simp_all add: accept_block_def cs2_def stored_def Let_def split: sum.split)
    show ?thesis
    proof (cases stored)
      case True
      define cs3 where "cs3 = fst (write_cs (witness_path cs1 (bi_hash (deref cs1 idx))) (block_witness_bytes b) cs1)"
      have "chain_good cs3" using g1 good_core [of cs3 cs1] by (simp add: cs3_def)
      from activate_returns [OF this, of cr] obtain cs4 where "activate_best_chain cr cs3 = Some cs4" "chain_good cs4" by blast
      then show ?thesis using acc True g1 by (simp add: cs3_def [symmetric] ex_bool_eq)
    next
      case False
      obtain cs3 ok where s: "store_block idx b w cs2 = (cs3, ok)" by force
      note g3 = store_block_good [OF g2 k2 s]
      obtain cs4 where u: "update_chain_data idx cs3 = Some cs4" "chain_good cs4"
        by (rule update_chain_data_good [of cs3 idx]) (use g3 in auto)
      from activate_returns [OF u(2), of cr] obtain cs5 where a: "activate_best_chain cr cs4 = Some cs5" "chain_good cs5" by blast
      show ?thesis
        using acc False s u(1) a g1 g2 g3
        by (cases "check_block_shape cr cs1 idx b w"; cases "check_block_body cr cs2 idx b w"; cases ok) (simp_all add: ex_bool_eq)
    qed
  qed
qed

section \<open>Snapshots\<close>

lemma walk_to_genesis:
  "index_ok cs \<Longrightarrow> known cs b \<Longrightarrow> b_height cs b = int n \<Longrightarrow>
   (let ch = rev (walk_back cs (\<lambda>_. False) (Suc n) b) in
    length ch = Suc n \<and> last ch = b \<and> (\<forall>i\<le>n. known cs (ch ! i) \<and> b_height cs (ch ! i) = int i
      \<and> (0 < i \<longrightarrow> bi_prev (deref cs (ch ! i)) = Some (ch ! (i - 1)))))"
proof (induction n arbitrary: b)
  case 0
  then show ?case by (auto split: option.split)
next
  case (Suc n)
  obtain p where p: "bi_prev (deref cs b) = Some p" "known cs p" "b_height cs p = b_height cs b - 1"
    using node_prev [OF Suc.prems(1,2)] Suc.prems(3) by auto
  define ch where "ch = rev (walk_back cs (\<lambda>_. False) (Suc n) p)"
  have ih: "length ch = Suc n" "last ch = p" "\<forall>i\<le>n. known cs (ch ! i) \<and> b_height cs (ch ! i) = int i
      \<and> (0 < i \<longrightarrow> bi_prev (deref cs (ch ! i)) = Some (ch ! (i - 1)))"
    using Suc.IH [OF Suc.prems(1) p(2)] p(3) Suc.prems(3) by (simp_all add: ch_def Let_def)
  have e: "rev (walk_back cs (\<lambda>_. False) (Suc (Suc n)) b) = ch @ [b]" using p(1) by (simp add: ch_def)
  have l: "ch ! n = p" using ih(1,2) by (metis diff_Suc_1 last_conv_nth list.size(3) nat.distinct(1))
  show ?case
    unfolding e Let_def using ih l p(1) Suc.prems(2,3)
    by (auto simp: nth_append le_Suc_eq)
qed

lemma chain_to_ok:
  assumes "index_ok cs" "known cs b" "cs_index cs' = cs_index cs" "cs_chain cs' = chain_to cs b"
  shows "chain_ok cs'" "last (cs_chain cs') = b"
proof -
  have h: "b_height cs b = int (nat (b_height cs b))" using height_nonneg [OF assms(1,2)] by simp
  note w = walk_to_genesis [OF assms(1,2) h]
  have "rounds cs b = Suc (nat (b_height cs b))" using height_nonneg [OF assms(1,2)] by (simp add: rounds_def)
  then show "chain_ok cs'" "last (cs_chain cs') = b"
    using w unfolding chain_ok_def assms(4) core_deref [OF assms(3)] chain_to_def
    by (auto simp: Let_def less_Suc_eq_le simp del: walk_back.simps)
qed

lemma update_all_good:
  "chain_good cs \<Longrightarrow> (\<And>c. c \<in> set bs \<Longrightarrow> known cs c) \<Longrightarrow> \<exists>cs'. update_all bs cs = Some cs' \<and> chain_good cs'"
proof (induction bs arbitrary: cs)
  case (Cons b bs)
  obtain cs1 where u: "update_chain_data b cs = Some cs1" "chain_good cs1" "same_tree cs cs1"
    by (rule update_chain_data_good [of cs b]) (use Cons.prems in auto)
  have "known cs1 c" if "c \<in> set bs" for c using same_tree_deref(1) [OF u(3)] Cons.prems(2) that by simp
  from Cons.IH [OF u(2) this] u(1) show ?case by simp
qed simp

lemma load_snapshot_good:
  assumes "chain_good cs"
  shows "\<exists>cs' res. load_snapshot_bytes cr snap cs = Some (cs', res) \<and> chain_good cs'"
proof (cases "check_snapshot cr snap cs")
  case (Inl why)
  then show ?thesis using assms by (simp add: load_snapshot_bytes_def)
next
  case (Inr b)
  have kb: "known cs b"
    using Inr by (auto simp: check_snapshot_def rbind_eq_Inr cs_lookup_iff split: sum.splits prod.splits option.splits if_splits)
  obtain st res where p: "parse_state snap = (st, res)" by force
  let ?bad = "case res of None \<Rightarrow> True | Some (got, h) \<Rightarrow> h \<noteq> b_height cs b"
  have st: "chain_good (cs\<lparr>cs_st := s\<rparr>)" "known (cs\<lparr>cs_st := s\<rparr>) b" for s
    using assms kb same_tree_ok [of cs "cs\<lparr>cs_st := s\<rparr>"] refs_index [of "cs\<lparr>cs_st := s\<rparr>" cs] by (simp_all add: known_def)
  show ?thesis
  proof (cases ?bad)
    case True
    then show ?thesis using Inr p st(1) by (simp add: load_snapshot_bytes_def)
  next
    case False
    obtain cs1 ok1 where w1: "write_cs (snapshot_path cs b) snap (cs\<lparr>cs_st := st\<rparr>) = (cs1, ok1)" by force
    have g1: "chain_good cs1" "known cs1 b"
      using st [of st] good_core [OF core_write_eq [OF w1]] core_known [OF core_write_eq [OF w1]] by simp_all
    define cs2 where "cs2 = cs1\<lparr>cs_snapshot_hash := AList.update b (state_hash cr snap) (cs_snapshot_hash cs1)\<rparr>"
    obtain cs3 ok3 where w3: "write_cs (cs_dir cs2 @ ''/base.dat'') (hash_bytes b) cs2 = (cs3, ok3)" by force
    have c3: "core cs3 = core cs1" using core_write_eq [OF w3] by (simp add: cs2_def)
    have g3: "chain_good cs3" "known cs3 b" using g1 good_core [OF c3] core_known [OF c3] by simp_all
    define cs4 where "cs4 = upd_index b (\<lambda>n. n\<lparr>bi_from_snapshot := True\<rparr>) cs3"
    have g4: "chain_good cs4" unfolding cs4_def by (rule good_upd [OF g3]) (simp add: shape_def)
    have k4: "known cs4 b" by (simp add: cs4_def known_def upd_index_def update_conv')
    define cs5 where "cs5 = cs4\<lparr>cs_snapshot_base := b_height cs4 b, cs_chain := chain_to cs4 b, cs_txindex := []\<rparr>"
    have i5: "cs_index cs5 = cs_index cs4" "cs_chain cs5 = chain_to cs4 b" by (simp_all add: cs5_def)
    have ix4: "index_ok cs4" using g4 by (simp add: tree_ok_def)
    have "tree_ok cs5"
      using chain_to_ok(1) [OF ix4 k4 i5] same_tree_index_ok [of cs4 cs5] ix4 i5(1) by (simp add: tree_ok_def)
    moreover have "refs_ok cs5" using g4 refs_index [of cs5 cs4] by (simp add: cs5_def)
    ultimately have g5: "chain_good cs5" by blast
    have k5: "known cs5 b" using k4 by (simp add: cs5_def known_def)
    define cs6 where "cs6 = upd_index b (\<lambda>n. n\<lparr>bi_chain_data := True\<rparr>) cs5"
    have g6: "chain_good cs6" unfolding cs6_def by (rule good_upd [OF g5 k5]) (simp add: shape_def)
    have k6: "known cs6 b" by (simp add: cs6_def known_def upd_index_def update_conv')
    define cs7 where "cs7 = cs6\<lparr>cs_candidates := cand_insert cs6 b (cs_candidates cs6)\<rparr>"
    have i7: "cs_index cs7 = cs_index cs6" "cs_chain cs7 = cs_chain cs6" by (simp_all add: cs7_def)
    have "tree_ok cs7" using same_tree_ok [of cs6 cs7] g6 i7 by simp
    moreover have "refs_ok cs7"
      using g6 k6 set_cand_insert [of cs6 b "cs_candidates cs6"] by (auto simp: refs_ok_def cs7_def known_def)
    ultimately have g7: "chain_good cs7" by blast
    have "known cs7 c" if "c \<in> set (bi_children (deref cs7 b))" for c
      using known_parts(5) [of cs7 b c] g7 k6 that core_deref(2) [OF i7(1)] by (auto simp: tree_ok_def)
    then obtain cs8 where u: "update_all (bi_children (deref cs7 b)) cs7 = Some cs8" "chain_good cs8"
      using update_all_good [OF g7] by blast
    have "chain_good (flush cr cs8)" using u(2) good_core [of "flush cr cs8" cs8] by simp
    from activate_returns [OF this, of cr] obtain cs9 where a: "activate_best_chain cr (flush cr cs8) = Some cs9" "chain_good cs9" by blast
    have "load_snapshot_bytes cr snap cs =
        (if \<not> ok1 then Some (cs1, Inl ''disk-write-failed'') else if \<not> ok3 then Some (cs3, Inl ''disk-write-failed'')
         else Some (cs9, Inr ()))"
      using Inr p False w1 w3 u(1) a(1)
      by (cases ok1; cases ok3) (simp_all add: load_snapshot_bytes_def Let_def cs2_def cs4_def cs5_def cs6_def cs7_def)
    then show ?thesis using g1 g3 a(2) by (cases ok1; cases ok3) auto
  qed
qed

end
