(* ===== verification/Pool_Chain.thy ===== *)
theory Pool_Chain
  imports P2P Chain_Accept
begin

text \<open>
  The pool beside a chain that takes blocks. Whatever \<open>accept_block\<close> does, the ledger only changes together with a call of
  \<open>on_connect\<close> or \<open>on_disconnect\<close>, which leave the pool to be rebuilt, and a new tip is announced last. So a pool that
  executes on the chain before does so on the chain after, once the callbacks have run.
\<close>

section \<open>Operations that leave the ledger and the callbacks alone\<close>

definition quiet :: "chainstate \<Rightarrow> chainstate \<Rightarrow> bool" where
  "quiet cs cs' \<longleftrightarrow> cs_events cs' = cs_events cs \<and> cs_st cs' = cs_st cs \<and> cs_chain cs' = cs_chain cs \<and> cs_p cs' = cs_p cs"

lemma quiet_refl [simp]: "quiet cs cs"
  by (simp add: quiet_def)

lemma quiet_trans: "quiet a b \<Longrightarrow> quiet b c \<Longrightarrow> quiet a c"
  by (simp add: quiet_def)

lemma quiet_write [simp]: "quiet cs (fst (write_cs path data cs))" "quiet cs (fst (append_cs path data cs))"
  by (simp_all add: quiet_def write_cs_def append_cs_def split: prod.splits)

lemma quiet_write_eq: "write_cs path data cs = (cs', ok) \<Longrightarrow> quiet cs cs'" "append_cs path data cs = (cs', ok) \<Longrightarrow> quiet cs cs'"
  using quiet_write [of cs path data] by simp_all

lemma quiet_rest: "same_rest cs cs' \<Longrightarrow> quiet cs cs'"
  by (simp add: same_rest_def quiet_def)

lemma quiet_upd [simp]: "quiet cs (upd_index b f cs)"
  by (simp add: quiet_def upd_index_def)

lemma events_index_txs [simp]: "cs_events (index_block_txs cr b idx add cs) = cs_events cs"
  unfolding index_block_txs_def by (rule fold_invariant [where Q = "\<lambda>_. True"]) simp_all

lemma events_drop_snapshots [simp]: "cs_events (fold drop_snapshot bhs cs) = cs_events cs"
proof -
  have "cs_events (drop_snapshot bh cs) = cs_events cs" for bh cs by (simp add: drop_snapshot_def split: option.splits)
  then show ?thesis by (induction bhs arbitrary: cs) simp_all
qed

lemma events_write [simp]: "cs_events (fst (write_cs path data cs)) = cs_events cs"
  using quiet_write(1) by (simp add: quiet_def)

lemma events_commit_snapshot [simp]: "cs_events (write_commit_snapshot cr idx cs) = cs_events cs"
  by (auto simp: write_commit_snapshot_def Let_def quiet_def split: prod.splits bool.splits dest!: quiet_write_eq)

lemma events_prune [simp]: "cs_events (prune_at h cs) = cs_events cs"
  by (simp add: prune_at_def split: option.splits)

lemma quiet_flush: "quiet cs (flush cr cs)"
  using quiet_write(1) by (simp add: flush_def Let_def quiet_def)

lemma quiet_add_index: "quiet cs (fst (add_index cr h cs))"
  by (simp add: add_index_def Let_def quiet_def upd_index_def split: option.splits)

section \<open>Operations that change it\<close>

text \<open>Either nothing of the ledger changed, or a block was connected or disconnected, and no tip was announced yet.\<close>

definition moves :: "chainstate \<Rightarrow> chainstate \<Rightarrow> bool" where
  "moves cs cs' \<longleftrightarrow> cs_p cs' = cs_p cs \<and> (\<exists>es. cs_events cs' = cs_events cs @ es \<and> (\<forall>i. EvTip i \<notin> set es)
     \<and> (es = [] \<longrightarrow> cs_st cs' = cs_st cs \<and> cs_chain cs' = cs_chain cs))"

lemma moves_quiet: "quiet cs cs' \<Longrightarrow> moves cs cs'"
  by (auto simp: moves_def quiet_def)

lemma moves_trans: "moves a b \<Longrightarrow> moves b c \<Longrightarrow> moves a c"
  unfolding moves_def by (elim conjE exE) (auto intro!: exI [of _ "_ @ _"])

lemma connect_moves: "connect_block cr idx cs = (cs', res) \<Longrightarrow> moves cs cs'"
proof (cases res)
  case (Inr u)
  assume "connect_block cr idx cs = (cs', res)"
  then obtain b v fees subsidy em cs1 where p:
    "(if b_height cs idx > 0 then write_undo idx (undo_of_view v) (cs\<lparr>cs_em := em\<rparr>) else (cs\<lparr>cs_em := em\<rparr>, True)) = (cs1, True)"
    "cs' = connect_commit cr b idx v cs1"
    "core cs' = core (cs\<lparr>cs_st := commit_view v (cs_st cs), cs_chain := cs_chain cs @ [idx]\<rparr>)"
    unfolding Inr by (rule connect_block_parts) blast
  have "cs_events cs1 = cs_events cs"
    using p(1) by (auto simp: write_undo_def quiet_def split: if_splits dest!: quiet_write_eq)
  then have "cs_events cs' = cs_events cs @ [EvConnect b idx]" by (simp add: p(2) connect_commit_def Let_def)
  moreover have "cs_p cs' = cs_p cs" using p(3) by (simp add: core_iff)
  ultimately show ?thesis by (simp add: moves_def)
next
  case (Inl why)
  assume c: "connect_block cr idx cs = (cs', res)"
  have "cs_events cs' = cs_events cs"
    using c unfolding Inl connect_block_def
    by (auto simp: Let_def write_undo_def quiet_def split: option.splits if_splits sum.splits prod.splits dest!: quiet_write_eq)
  moreover have "core cs' = core cs" using connect_block_failed c Inl by simp
  ultimately show ?thesis by (intro moves_quiet) (simp add: quiet_def core_iff)
qed

lemma disconnect_moves: "disconnect_tip cr cs = (cs', res) \<Longrightarrow> moves cs cs'"
  by (auto simp: disconnect_tip_def Let_def moves_def core_index_txs [THEN core_iff [THEN iffD1]] split: if_splits option.splits prod.splits)

lemma disconnect_to_moves: "disconnect_to cr f cs = (cs', ok) \<Longrightarrow> moves cs cs'"
proof (induction cr f cs rule: disconnect_to.induct)
  case (1 cr f cs)
  show ?case
  proof (cases "cs_chain cs = [] \<or> the_tip cs = f")
    case True
    then show ?thesis using "1.prems" by (auto simp: disconnect_to.simps moves_quiet)
  next
    case False
    obtain cs1 r where d: "disconnect_tip cr cs = (cs1, r)" by force
    note m = disconnect_moves [OF d]
    show ?thesis
    proof (cases r)
      case (Inl why)
      then show ?thesis using "1.prems" d False m by (auto simp: disconnect_to.simps)
    next
      case (Inr u)
      then have "disconnect_to cr f cs1 = (cs', ok)" using "1.prems" d False by (subst (asm) disconnect_to.simps) simp
      from "1.IH" [OF False d [symmetric] Inr this] m show ?thesis by (rule moves_trans [rotated])
    qed
  qed
qed

lemma mark_failed_quiet: "mark_failed b cs = Some cs' \<Longrightarrow> quiet cs cs'"
proof -
  assume "mark_failed b cs = Some cs'"
  then obtain todo cs1 where w: "while_option (\<lambda>(todo, cs). todo \<noteq> []) failed_step ([b], cs) = Some (todo, cs1)"
    "cs' = choose_best_header cs1" by (auto simp: mark_failed_def)
  have "quiet cs (snd (todo, cs1))"
    by (rule while_option_rule [where P = "\<lambda>s. quiet cs (snd s)", OF _ w(1)]) (auto simp: quiet_def Let_def upd_index_def)
  then show "quiet cs cs'" by (simp add: w(2) quiet_def choose_best_header_def)
qed

lemma connect_path_moves: "connect_path cr path cs = Some (cs', st) \<Longrightarrow> moves cs cs'"
proof (induction path arbitrary: cs)
  case (Cons b bs)
  obtain cs1 r where d: "connect_block cr b cs = (cs1, r)" by force
  note m = connect_moves [OF d]
  show ?case
  proof (cases r)
    case (Inl why)
    show ?thesis
    proof (cases "why = ''missing-witness'' \<or> why = ''read-failed''")
      case True
      then show ?thesis using Cons.prems d Inl m by auto
    next
      case False
      then have "mark_failed b cs1 = Some cs'" using Cons.prems d Inl by auto
      from moves_trans [OF m moves_quiet [OF mark_failed_quiet [OF this]]] show ?thesis .
    qed
  next
    case (Inr u)
    define cs2 where "cs2 = cs1\<lparr>cs_blocks_since_flush := cs_blocks_since_flush cs1 + 1\<rparr>"
    define cs3 where "cs3 = (if cs_blocks_since_flush cs2 \<ge> (if is_initial_sync cs2 then 5000 else 100) then flush cr cs2 else cs2)"
    have "quiet cs1 cs2" by (simp add: cs2_def quiet_def)
    then have q: "quiet cs1 cs3" using quiet_trans [OF _ quiet_flush] by (simp add: cs3_def)
    have "connect_path cr bs cs3 = Some (cs', st)" using Cons.prems unfolding connect_path.simps d Inr prod.case sum.case Let_def cs2_def cs3_def .
    from moves_trans [OF moves_trans [OF m moves_quiet [OF q]] Cons.IH [OF this]] show ?thesis .
  qed
qed (simp add: moves_quiet)

lemma activate_loop_moves: "activate_loop cr guard cs = Some cs' \<Longrightarrow> moves cs cs'"
proof (induction cr guard cs rule: activate_loop.induct)
  case (1 cr guard cs)
  let ?cand = "best_candidate cs"
  let ?stop = "guard \<ge> 1000000 \<or> ?cand = the_tip cs \<or> u256_le (b_work cs ?cand) (b_work cs (the_tip cs)) \<or> fork_point cs ?cand = None"
  show ?case
  proof (cases ?stop)
    case True
    then have "activate_loop cr guard cs = Some cs" by (subst activate_loop.simps) (auto simp: Let_def)
    then show ?thesis using "1.prems" by (simp add: moves_quiet)
  next
    case False
    then obtain f where f: "fork_point cs ?cand = Some f" by auto
    obtain cs1 ok where d: "disconnect_to cr f cs = (cs1, ok)" by force
    note m = disconnect_to_moves [OF d]
    show ?thesis
    proof (cases ok)
      case False': False
      then have "activate_loop cr guard cs = Some cs1" using False f d by (subst activate_loop.simps) (simp add: Let_def)
      then show ?thesis using "1.prems" m by simp
    next
      case True
      obtain cs2 st where c: "connect_path cr (path_to cs1 f ?cand) cs1 = Some (cs2, st)"
        using "1.prems" False f d True by (subst (asm) activate_loop.simps) (auto simp: Let_def split: option.splits)
      note m2 = moves_trans [OF m connect_path_moves [OF c]]
      have eq: "activate_loop cr guard cs = (if st then Some cs2 else activate_loop cr (guard + 1) cs2)"
        using False f d True c by (subst activate_loop.simps) (simp add: Let_def)
      show ?thesis
      proof (cases st)
        case True
        then show ?thesis using eq m2 "1.prems" by simp
      next
        case nst: False
        have "moves cs2 cs'" using "1.IH" f d True c nst False eq "1.prems" by fastforce
        from moves_trans [OF m2 this] show ?thesis .
      qed
    qed
  qed
qed

text \<open>The operations that end in an activation: blocks come and go, and a tip that changed is announced last.\<close>

definition told :: "chainstate \<Rightarrow> chainstate \<Rightarrow> bool" where
  "told cs cs' \<longleftrightarrow> cs_p cs' = cs_p cs \<and> (\<exists>es. (\<forall>i. EvTip i \<notin> set es) \<and> (es = [] \<longrightarrow> cs_st cs' = cs_st cs \<and> cs_chain cs' = cs_chain cs)
     \<and> cs_events cs' = cs_events cs @ es @ (if the_tip cs' \<noteq> the_tip cs then [EvTip (the_tip cs')] else []))"

lemma told_quiet: "quiet a b \<Longrightarrow> told b c \<Longrightarrow> told a c"
  by (auto simp: told_def quiet_def the_tip_def)

lemma quiet_told: "quiet a b \<Longrightarrow> told a b"
  by (auto simp: told_def quiet_def the_tip_def)

lemma activate_told: "activate_best_chain cr cs = Some cs' \<Longrightarrow> told cs cs'"
proof -
  assume a: "activate_best_chain cr cs = Some cs'"
  then obtain cs1 where l: "activate_loop cr 0 cs = Some cs1" by (auto simp: activate_best_chain_def Let_def)
  define cs2 where "cs2 = cs1\<lparr>cs_candidates := dropWhile (\<lambda>c. u256_lt (b_work cs1 c) (b_work cs1 (the_tip cs1))) (cs_candidates cs1)\<rparr>"
  have e: "cs' = (if the_tip cs2 \<noteq> the_tip cs then cs2\<lparr>cs_events := cs_events cs2 @ [EvTip (the_tip cs2)]\<rparr> else cs2)"
    using a unfolding activate_best_chain_def Let_def l option.map(2) option.inject cs2_def by (rule sym)
  have f: "cs_events cs2 = cs_events cs1" "cs_chain cs2 = cs_chain cs1" "cs_st cs2 = cs_st cs1" "cs_p cs2 = cs_p cs1"
    by (simp_all add: cs2_def)
  have t: "the_tip cs' = the_tip cs2" "cs_st cs' = cs_st cs2" "cs_chain cs' = cs_chain cs2" "cs_p cs' = cs_p cs2"
    "cs_events cs' = cs_events cs2 @ (if the_tip cs' \<noteq> the_tip cs then [EvTip (the_tip cs')] else [])"
    by (simp_all add: e the_tip_def)
  obtain es where m: "cs_p cs1 = cs_p cs" "cs_events cs1 = cs_events cs @ es" "\<forall>i. EvTip i \<notin> set es"
    "es = [] \<longrightarrow> cs_st cs1 = cs_st cs \<and> cs_chain cs1 = cs_chain cs"
    using activate_loop_moves [OF l] by (auto simp: moves_def)
  show "told cs cs'"
    unfolding told_def using m t(2-4) f by (intro conjI exI [of _ es]) (simp_all only: t(5) f m append_assoc simp_thms)
qed

lemma header_quiet: "accept_header cr h cs = (cs', r, why, out) \<Longrightarrow> quiet cs cs'"
proof -
  assume "accept_header cr h cs = (cs', r, why, out)"
  then have "quiet cs cs' \<or> cs' = fst (append_cs (cs_dir (fst (add_index cr h cs)) @ ''/headers.dat'') (write_header h) (fst (add_index cr h cs)))"
    by (auto simp: accept_header_def split: option.splits sum.splits if_splits prod.splits)
  then show "quiet cs cs'" using quiet_trans [OF quiet_add_index quiet_write(2)] by blast
qed

lemma store_quiet: "store_block idx b w cs = (cs', ok) \<Longrightarrow> quiet cs cs'"
proof -
  assume st: "store_block idx b w cs = (cs', ok)"
  obtain cs1 ok1 where a: "append_cs (cs_dir cs @ ''/blocks.dat'') (block_core_bytes b) cs = (cs1, ok1)" by force
  have q1: "quiet cs cs1" using quiet_write_eq(2) [OF a] .
  show ?thesis
  proof (cases ok1)
    case True
    define cs2 where "cs2 = fst (append_cs (cs_dir cs1 @ ''/blockpos.dat'') (w_hash (bi_hash (deref cs1 idx))
      @ w_u64le (of_nat (file_size (cs_fs cs) (cs_dir cs @ ''/blocks.dat''))) @ w_u32le (of_nat (length (block_core_bytes b)))) cs1)"
    define cs3 where "cs3 = upd_index idx (\<lambda>n. n\<lparr>bi_data_pos := of_nat (file_size (cs_fs cs) (cs_dir cs @ ''/blocks.dat'')),
      bi_data_len := of_nat (length (block_core_bytes b)), bi_have_data := True\<rparr>) cs2"
    have q2: "quiet cs cs2" unfolding cs2_def by (rule quiet_trans [OF q1 quiet_write(2)])
    have q3: "quiet cs cs3" unfolding cs3_def by (rule quiet_trans [OF q2 quiet_upd])
    obtain p d where "cs' = cs3 \<or> cs' = fst (write_cs p d cs3)"
      using st a True unfolding store_block_def Let_def cs3_def cs2_def by (auto split: if_splits)
    then show ?thesis using q3 quiet_trans [OF q3 quiet_write(1)] by blast
  qed (use st a q1 in \<open>auto simp: store_block_def Let_def\<close>)
qed

lemma chain_data_quiet: "update_chain_data b cs = Some cs' \<Longrightarrow> quiet cs cs'"
proof (cases "\<not> bi_have_data (deref cs b) \<or> (case bi_prev (deref cs b) of None \<Rightarrow> False | Some p \<Rightarrow> \<not> bi_chain_data (deref cs p))")
  case False
  assume "update_chain_data b cs = Some cs'"
  with False obtain todo where w: "while_option (\<lambda>(todo, cs). todo \<noteq> []) chain_data_step ([b], cs) = Some (todo, cs')"
    by (auto simp: update_chain_data_def)
  have "quiet cs (snd (todo, cs'))"
    by (rule while_option_rule [where P = "\<lambda>s. quiet cs (snd s)", OF _ w]) (auto simp: quiet_def Let_def upd_index_def)
  then show ?thesis by simp
qed (auto simp: update_chain_data_def)

lemma accept_block_told:
  assumes "accept_block cr b w cs = Some (cs', res, new)"
  shows "told cs cs'"
proof -
  obtain cs1 r why out where h: "accept_header cr (header b) cs = (cs1, r, why, out)" by (metis prod_cases4)
  note q1 = header_quiet [OF h]
  show ?thesis
  proof (cases "r = HInvalid \<or> r = HOrphan \<or> out = None")
    case True
    then show ?thesis using h q1 assms by (cases r; cases out) (auto simp: accept_block_def quiet_told)
  next
    case False
    then obtain idx where o: "out = Some idx" by auto
    define cs2 where "cs2 = (if w then cs1 else upd_index idx (\<lambda>n. n\<lparr>bi_no_witness_ok := True\<rparr>) cs1)"
    have q2: "quiet cs cs2" using quiet_trans [OF q1 quiet_upd] q1 by (simp add: cs2_def)
    define cs0 where "cs0 = fst (write_cs (witness_path cs1 (bi_hash (deref cs1 idx))) (block_witness_bytes b) cs1)"
    have q0: "quiet cs cs0" using quiet_trans [OF q1 quiet_write(1)] by (simp add: cs0_def)
    have acc: "accept_block cr b w cs =
      (if bi_have_data (deref cs1 idx) then
            (if w \<and> \<not> have_witness cs1 idx \<and> \<not> in_active_chain cs1 idx
                \<and> compute_witness_root cr b = witness_root_f (header b)
             then map_option (\<lambda>cs. (cs, Inr (), False)) (activate_best_chain cr cs0)
             else Some (cs1, Inr (), False))
          else
            (case check_block_shape cr cs1 idx b w of
               Inl why \<Rightarrow> Some (cs1, Inl why, False)
             | Inr _ \<Rightarrow>
                 (case check_block_body cr cs2 idx b w of
                       Inl why \<Rightarrow> Some (cs2, Inl why, False)
                     | Inr _ \<Rightarrow>
                         (case store_block idx b w cs2 of
                            (cs, False) \<Rightarrow> Some (cs, Inl ''disk-write-failed'', False)
                          | (cs, True) \<Rightarrow>
                              Option.bind (update_chain_data idx cs) (\<lambda>cs.
                              map_option (\<lambda>cs. (cs, Inr (), True)) (activate_best_chain cr cs))))))"
      using h o False by (cases r; cases w) (simp_all add: accept_block_def cs2_def cs0_def Let_def split: sum.split)
    show ?thesis
    proof (cases "bi_have_data (deref cs1 idx)")
      case True
      then have "activate_best_chain cr cs0 = Some cs' \<or> cs' = cs1" using assms unfolding acc by (auto split: if_splits)
      then show ?thesis using told_quiet [OF q0 activate_told] quiet_told [OF q1] by blast
    next
      case False
      obtain cs3 ok where s: "store_block idx b w cs2 = (cs3, ok)" by force
      note q3 = quiet_trans [OF q2 store_quiet [OF s]]
      have "cs' = cs1 \<or> cs' = cs2 \<or> cs' = cs3
          \<or> (\<exists>cs4. update_chain_data idx cs3 = Some cs4 \<and> activate_best_chain cr cs4 = Some cs')"
        using assms False s unfolding acc by (auto split: sum.splits bool.splits bind_splits)
      then show ?thesis
        using quiet_told [OF q1] quiet_told [OF q2] quiet_told [OF q3]
          told_quiet [OF quiet_trans [OF q3 chain_data_quiet] activate_told] by blast
    qed
  qed
qed

section \<open>The pool follows\<close>

lemma pool_grown_proj [simp]: "pn_mp (pool_grown cr mp s) = mp" "pn_cs (pool_grown cr mp s) = pn_cs s"
  by (simp_all add: pool_grown_def)

lemma run_event_cs [simp]: "pn_cs (run_event cr e s) = pn_cs s"
  by (cases e) (simp_all add: run_event_def)

lemma run_events_cs [simp]: "pn_cs (fold (run_event cr) es s) = pn_cs s"
  by (induction es arbitrary: s) simp_all

lemma set_chain_cs [simp]: "pn_cs (set_chain cr cs' s) = cs'"
  by (simp add: set_chain_def)

lemma run_blocks:
  assumes "\<forall>i. EvTip i \<notin> set es" "es \<noteq> []" "mp_ok cr (pn_mp s)"
  shows "mp_inv cr cs (pn_mp (fold (run_event cr) es s))"
proof -
  have one: "mp_inv cr cs (pn_mp (run_event cr e s))" if "mp_ok cr (pn_mp s)" "\<forall>i. e \<noteq> EvTip i" for e s
    using that on_connect_inv [OF that(1)] on_disconnect_inv [OF that(1)] by (cases e) (simp_all add: run_event_def)
  show ?thesis
    using assms
  proof (induction es rule: rev_induct)
    case (snoc e es)
    have "mp_ok cr (pn_mp (fold (run_event cr) es s))" using snoc by (cases "es = []") (auto simp: mp_inv_def)
    from one [OF this, of e] show ?case using snoc.prems(1) by auto
  qed simp
qed

text \<open>The ledger and the height are all of the chain the invariant looks at.\<close>

lemma inv_same_ledger: "cs_st cs' = cs_st cs \<Longrightarrow> cs_chain cs' = cs_chain cs \<Longrightarrow> cs_p cs' = cs_p cs \<Longrightarrow> mp_inv cr cs' mp = mp_inv cr cs mp"
  by (simp add: mp_inv_def executes_def cs_height_def)

lemma pool_follows:
  assumes "told (pn_cs s) cs'" "mp_inv cr (pn_cs s) (pn_mp s)"
  shows "mp_inv cr cs' (pn_mp (set_chain cr cs' s))"
    "the_tip cs' \<noteq> the_tip (pn_cs s) \<Longrightarrow> \<not> mp_dirty (pn_mp (set_chain cr cs' s))"
proof -
  obtain es where e: "\<forall>i. EvTip i \<notin> set es" "es = [] \<longrightarrow> cs_st cs' = cs_st (pn_cs s) \<and> cs_chain cs' = cs_chain (pn_cs s)" "cs_p cs' = cs_p (pn_cs s)"
    "cs_events cs' = cs_events (pn_cs s) @ es @ (if the_tip cs' \<noteq> the_tip (pn_cs s) then [EvTip (the_tip cs')] else [])"
    using assms(1) by (auto simp: told_def)
  define s1 where "s1 = fold (run_event cr) es (s\<lparr>pn_cs := cs'\<rparr>)"
  have cs1: "pn_cs s1 = cs'" by (simp add: s1_def)
  have i1: "mp_inv cr cs' (pn_mp s1)"
  proof (cases "es = []")
    case True
    then show ?thesis using assms(2) e(2,3) inv_same_ledger [of cs' "pn_cs s" cr "pn_mp s"] by (simp add: s1_def)
  next
    case False
    then show ?thesis using run_blocks [OF e(1) False, of cr "s\<lparr>pn_cs := cs'\<rparr>"] assms(2) by (simp add: s1_def mp_inv_def)
  qed
  have s2: "set_chain cr cs' s = (if the_tip cs' \<noteq> the_tip (pn_cs s) then run_event cr (EvTip (the_tip cs')) s1 else s1)"
    by (simp add: set_chain_def e(4) s1_def)
  show "mp_inv cr cs' (pn_mp (set_chain cr cs' s))" "the_tip cs' \<noteq> the_tip (pn_cs s) \<Longrightarrow> \<not> mp_dirty (pn_mp (set_chain cr cs' s))"
    using on_tip_inv [OF i1] i1 by (simp_all add: s2 run_event_def cs1)
qed

text \<open>What a node's pool goes through: transactions offered to it and blocks offered to its chain, in any order.\<close>

definition pool_step :: "crypto \<Rightarrow> transaction + block \<times> bool \<Rightarrow> p2p \<Rightarrow> p2p option" where
  "pool_step cr x s =
     (case x of
        Inl tx \<Rightarrow> Some (pool_grown cr (fst (mp_accept cr (pn_cs s) tx (pn_mp s))) s)
      | Inr (b, w) \<Rightarrow> map_option (\<lambda>(cs', res, new). set_chain cr cs' s) (accept_block cr b w (pn_cs s)))"

primrec pool_steps :: "crypto \<Rightarrow> (transaction + block \<times> bool) list \<Rightarrow> p2p \<Rightarrow> p2p option" where
  "pool_steps cr [] s = Some s"
| "pool_steps cr (x # xs) s = Option.bind (pool_step cr x s) (pool_steps cr xs)"

definition pool_sound :: "crypto \<Rightarrow> p2p \<Rightarrow> bool" where
  "pool_sound cr s \<longleftrightarrow> chain_good (pn_cs s) \<and> mp_inv cr (pn_cs s) (pn_mp s)"

lemma pool_step_sound:
  assumes "pool_sound cr s"
  shows "\<exists>s'. pool_step cr x s = Some s' \<and> pool_sound cr s'"
proof (cases x)
  case (Inl tx)
  then show ?thesis using assms accept_inv(1) [of cr "pn_cs s" "pn_mp s" tx] by (simp add: pool_step_def pool_sound_def)
next
  case (Inr y)
  obtain b w where y: "y = (b, w)" by force
  obtain cs' res new where a: "accept_block cr b w (pn_cs s) = Some (cs', res, new)" "chain_good cs'"
    using accept_block_good [of "pn_cs s" cr b w] assms by (auto simp: pool_sound_def)
  have "mp_inv cr cs' (pn_mp (set_chain cr cs' s))"
    using pool_follows(1) [OF accept_block_told [OF a(1)]] assms by (simp add: pool_sound_def)
  then show ?thesis using a by (simp add: Inr y pool_step_def pool_sound_def)
qed

lemma pool_steps_sound: "pool_sound cr s \<Longrightarrow> \<exists>s'. pool_steps cr xs s = Some s' \<and> pool_sound cr s'"
proof (induction xs arbitrary: s)
  case (Cons x xs)
  obtain s1 where "pool_step cr x s = Some s1" "pool_sound cr s1" using pool_step_sound [OF Cons.prems] by blast
  then show ?case using Cons.IH by simp
qed simp

end
