(* ===== verification/Pool_Signed.thy ===== *)
theory Pool_Signed
  imports Pool_Chain
begin

text \<open>
  Signatures in the pool. The pool checks them once, when a transaction comes in, and never again: a rebuild and the
  choice for a block execute without them, while a connected block is checked with them. What was checked then still
  holds if every outpoint names one output, whichever ledger it is looked up in: \<open>g\<close> says which. (Two outputs for one
  outpoint are two transactions with one id, a collision of the hash.)
\<close>

section \<open>One output for each outpoint\<close>

definition coin_for :: "(outpoint \<Rightarrow> txout) \<Rightarrow> outpoint \<Rightarrow> coin" where
  "coin_for g p = \<lparr>c_out = g p, c_height = 0, c_coinbase = False\<rparr>"

definition tx_agrees :: "crypto \<Rightarrow> (outpoint \<Rightarrow> txout) \<Rightarrow> transaction \<Rightarrow> bool" where
  "tx_agrees cr g tx \<longleftrightarrow> (\<forall>k<length (outs tx). g (OutPoint (txid cr tx) (of_nat k)) = outs tx ! k)"

definition ledger_agrees :: "(outpoint \<Rightarrow> txout) \<Rightarrow> reader_state \<Rightarrow> bool" where
  "ledger_agrees g base \<longleftrightarrow> (\<forall>p c. rd_coin base p = Some c \<longrightarrow> c_out c = g p)"

definition view_agrees :: "(outpoint \<Rightarrow> txout) \<Rightarrow> view \<Rightarrow> bool" where
  "view_agrees g v \<longleftrightarrow> (\<forall>p c. map_of (created v) p = Some c \<longrightarrow> c_out c = g p)"

text \<open>The witness of a transaction is good for the outputs it spends.\<close>

definition tx_signed :: "crypto \<Rightarrow> (outpoint \<Rightarrow> txout) \<Rightarrow> hash256 \<Rightarrow> transaction \<Rightarrow> bool" where
  "tx_signed cr g gen tx \<longleftrightarrow> verify_witness cr tx (map (coin_for g) (prevs tx)) gen = Inr ()"

definition pool_signed :: "crypto \<Rightarrow> (outpoint \<Rightarrow> txout) \<Rightarrow> hash256 \<Rightarrow> mempool \<Rightarrow> bool" where
  "pool_signed cr g gen mp \<longleftrightarrow> (\<forall>tx\<in>me_tx ` set (mp_order mp). tx_agrees cr g tx \<and> tx_signed cr g gen tx)"

lemma view_agrees_coin: "ledger_agrees g base \<Longrightarrow> view_agrees g v \<Longrightarrow> view_coin base v p = Some c \<Longrightarrow> c_out c = g p"
  by (auto simp: view_coin_def ledger_agrees_def view_agrees_def split: if_splits option.splits)

lemma gather_agrees:
  "gather_inputs cr base v h gen is fl coins0 = Inr (fl', coins) \<Longrightarrow> ledger_agrees g base \<Longrightarrow> view_agrees g v \<Longrightarrow>
   map c_out coins = map c_out coins0 @ map (\<lambda>i. g (prev i)) is"
proof (induction "is" arbitrary: fl coins0)
  case (Cons i "is")
  obtain c where c: "view_coin base v (prev i) = Some c"
    "gather_inputs cr base v h gen is (add_flow (o_asset (c_out c)) (o_value (c_out c)) fl) (coins0 @ [c]) = Inr (fl', coins)"
    using Cons.prems(1) by (auto split: option.splits if_splits)
  from Cons.IH [OF c(2) Cons.prems(2,3)] view_agrees_coin [OF Cons.prems(2,3) c(1)] show ?case by simp
qed simp

text \<open>A witness looks at the outputs of the coins only.\<close>

lemma check_wits_outs:
  "map c_out coins = map c_out coins' \<Longrightarrow> i + length rest \<le> length coins \<Longrightarrow>
   check_wits cr sh coins ws i rest = check_wits cr sh coins' ws i rest"
proof (induction rest arbitrary: i)
  case (Cons w rest)
  have o: "c_out (coins ! j) = c_out (coins' ! j)" if "j \<le> i" for j
  proof -
    have l: "j < length coins" "length coins' = length coins" using that Cons.prems(2) map_eq_imp_length_eq [OF Cons.prems(1)] by simp_all
    then show ?thesis using arg_cong [OF Cons.prems(1), of "\<lambda>xs. xs ! j"] by simp
  qed
  have "check_wit cr sh coins ws i w = check_wit cr sh coins' ws i w"
  proof (cases w)
    case (WitnessRef r)
    then show ?thesis using o [of i] o [of "unat r"] by (cases "unat r \<ge> i") (simp_all split: witness.split)
  qed (use o in simp)
  moreover have "check_wits cr sh coins ws (i + 1) rest = check_wits cr sh coins' ws (i + 1) rest"
    using Cons.prems by (intro Cons.IH) simp_all
  ultimately show ?case by simp
qed simp

lemma verify_outs:
  assumes "map c_out coins = map c_out coins'" "length (ins tx) = length coins"
  shows "verify_witness cr tx coins gen = verify_witness cr tx coins' gen"
  using check_wits_outs [OF assms(1), of 0 "wits tx"] assms(2) by (simp add: verify_witness_def fail_if_def)

lemma gather_verify:
  assumes "gather_inputs cr base v h gen (ins tx) [] [] = Inr (fl, coins)" "ledger_agrees g base" "view_agrees g v"
  shows "verify_witness cr tx coins gen = Inr () \<longleftrightarrow> tx_signed cr g gen tx"
proof -
  have e: "map c_out coins = map (\<lambda>i. g (prev i)) (ins tx)" using gather_agrees [OF assms] by simp
  then have "length coins = length (ins tx)" by (metis length_map)
  then show ?thesis
    using verify_outs [of coins "map (coin_for g) (prevs tx)" tx cr gen] e
    by (simp add: tx_signed_def coin_for_def comp_def)
qed

section \<open>Executing\<close>

lemma create_agrees:
  "view_agrees g v \<Longrightarrow> \<forall>k<length os. g (OutPoint tid (n + of_nat k)) = os ! k \<Longrightarrow> view_agrees g (create_coins tid h cb n os v)"
proof (induction os arbitrary: n v)
  case (Cons out os)
  have "g (OutPoint tid n) = out" using Cons.prems(2) by force
  then have v: "view_agrees g (v\<lparr>created := AList.update (OutPoint tid n) \<lparr>c_out = out, c_height = h, c_coinbase = cb\<rparr> (created v)\<rparr>)"
    using Cons.prems(1) by (auto simp: view_agrees_def update_conv')
  have "\<forall>k<length os. g (OutPoint tid (n + 1 + of_nat k)) = os ! k"
    using Cons.prems(2) by (auto simp: algebra_simps dest: spec [of _ "Suc _"])
  from Cons.IH [OF v this] show ?case by simp
qed simp

lemma spend_agrees: "spend_inputs base is v = Inr v' \<Longrightarrow> view_agrees g v \<Longrightarrow> view_agrees g v'"
proof (induction "is" arbitrary: v)
  case (Cons i "is")
  obtain v1 where v1: "spend_coin base (prev i) v = Inr v1" "spend_inputs base is v1 = Inr v'"
    using Cons.prems(1) by (auto simp: rbind_eq_Inr)
  have "view_agrees g v1"
    using v1(1) Cons.prems(2) by (auto simp: spend_coin_def view_agrees_def delete_conv' split: if_splits option.splits)
  from Cons.IH [OF v1(2) this] show ?case .
qed simp

lemma created_commit: "created (fold (commit_pool base) ts (commit_tokens ms v)) = created v"
proof -
  have "created (commit_pool base t v) = created v" for t v by (auto simp: commit_pool_def Let_def split: prod.split option.split)
  then have "created (fold (commit_pool base) ts v) = created v" for v by (induction ts arbitrary: v) simp_all
  then show ?thesis by (simp add: commit_tokens_parts)
qed

lemma apply_agrees:
  assumes app: "view_apply cr base tx h gen sigs v = Inr (fee, v')" and ag: "ledger_agrees g base" "view_agrees g v"
  shows "sigs \<Longrightarrow> tx_signed cr g gen tx"
    and "tx_signed cr g gen tx \<Longrightarrow> view_apply cr base tx h gen True v = Inr (fee, v')"
    and "tx_agrees cr g tx \<Longrightarrow> view_agrees g v'"
proof -
  obtain fl coins st v1 where
    p: "\<not> is_coinbase tx" "lock_height tx \<le> h" "gather_inputs cr base v h gen (ins tx) [] [] = Inr (fl, coins)"
      "apply_ops cr base v tx h coins 0 (ops tx)
        \<lparr>plus_f = fl, minus_f = sum_outs (outs tx) [], touched = [], minted = []\<rparr> = Inr st"
      "check_balance st (flow_assets st) 0 = Inr fee" "sigs \<longrightarrow> verify_witness cr tx coins gen = Inr ()"
      "spend_inputs base (ins tx) v = Inr v1"
      "v' = fold (commit_pool base) (touched st) (commit_tokens (minted st)
        (create_coins (txid cr tx) h False 0 (outs tx) v1))"
    by (rule view_apply_parts [OF app])
  note s = gather_verify [OF p(3) ag]
  show "sigs \<Longrightarrow> tx_signed cr g gen tx" using p(6) s by simp
  show "tx_signed cr g gen tx \<Longrightarrow> view_apply cr base tx h gen True v = Inr (fee, v')"
    using p s by (simp add: view_apply_def Let_def fail_if_def not_less)
  assume "tx_agrees cr g tx"
  then have "view_agrees g (create_coins (txid cr tx) h False 0 (outs tx) v1)"
    using spend_agrees [OF p(7) ag(2)] by (intro create_agrees) (simp_all add: tx_agrees_def)
  then show "view_agrees g v'" by (simp add: p(8) created_commit view_agrees_def)
qed

lemma apply_txs_agrees:
  "apply_txs cr base h gen sigs ts v fees = Inr (v', fees') \<Longrightarrow> ledger_agrees g base \<Longrightarrow> view_agrees g v \<Longrightarrow> \<forall>t\<in>set ts. tx_agrees cr g t \<Longrightarrow>
   view_agrees g v' \<and> ((\<forall>t\<in>set ts. tx_signed cr g gen t) \<longrightarrow> apply_txs cr base h gen True ts v fees = Inr (v', fees'))"
proof (induction ts arbitrary: v fees)
  case (Cons t ts)
  obtain fee v1 where a: "view_apply cr base t h gen sigs v = Inr (fee, v1)"
    "apply_txs cr base h gen sigs ts v1 (fees + fee) = Inr (v', fees')" using Cons.prems(1) by (auto split: sum.splits)
  note l = apply_agrees [OF a(1) Cons.prems(2,3)]
  from Cons.IH [OF a(2) Cons.prems(2) l(3)] l(2) Cons.prems(4) show ?case by auto
qed simp

section \<open>The pool\<close>

lemma pool_view_agrees:
  assumes "mp_inv cr cs mp" "\<not> mp_dirty mp" "ledger_agrees g (cs_reader cs)" "pool_signed cr g gen mp"
  shows "view_agrees g (mp_view mp)"
proof -
  have "view_agrees g empty_view" by (simp add: view_agrees_def empty_view_def)
  with assms show ?thesis
    using apply_txs_agrees [of cr "cs_reader cs" _ _ False "map me_tx (mp_order mp)" empty_view 0 "mp_view mp" _ g]
    by (auto simp: mp_inv_def executes_def pool_signed_def)
qed

lemma rebuild_entries: "me_tx ` set (mp_order (rebuild cr cs mp)) \<subseteq> me_tx ` set (mp_order mp)"
proof -
  have "me_tx ` set (mp_order (rebuild_loop cr cs es mp)) \<subseteq> me_tx ` (set (mp_order mp) \<union> set es)" for es mp
  proof (induction es arbitrary: mp)
    case (Cons e es)
    show ?case
    proof (cases "view_apply cr (cs_reader cs) (me_tx e) (next_height cs) (genesis_hash (cs_p cs)) False (mp_view mp)")
      case (Inl r)
      then show ?thesis using Cons.IH [of "mp\<lparr>mp_bytes := mp_bytes mp - of_nat (me_size e), mp_by_id := removeAll (me_txid e) (mp_by_id mp)\<rparr>"]
        by (auto simp: image_subset_iff)
    next
      case (Inr p)
      then show ?thesis using Cons.IH [of "mp\<lparr>mp_view := snd p, mp_order := mp_order mp @ [e\<lparr>me_fee := fst p\<rparr>]\<rparr>"]
        by (cases p) (auto simp: image_subset_iff)
    qed
  qed simp
  from this [of "mp_order mp" "mp\<lparr>mp_dirty := False, mp_view := empty_view, mp_order := []\<rparr>"] show ?thesis by (simp add: rebuild_def)
qed

lemma signed_subset: "pool_signed cr g gen mp \<Longrightarrow> me_tx ` set (mp_order mp') \<subseteq> me_tx ` set (mp_order mp) \<Longrightarrow> pool_signed cr g gen mp'"
  unfolding pool_signed_def by blast

text \<open>What is accepted was checked.\<close>

lemma accept_probe:
  fixes cr :: crypto and cs :: chainstate and mp :: mempool
  defines "mp1 \<equiv> if mp_dirty mp then rebuild cr cs mp else mp"
  shows "fst (mp_accept cr cs tx mp) = mp1
    \<or> (\<exists>r e. view_apply cr (mp_reader cs mp1) tx (next_height cs) (genesis_hash (cs_p cs)) True empty_view = Inr r
      \<and> mp_order (fst (mp_accept cr cs tx mp)) = mp_order mp1 @ [e] \<and> me_tx e = tx)"
  unfolding mp_accept_def mp1_def [symmetric] Let_def by (auto split: sum.splits)

lemma accept_signed:
  assumes inv: "mp_inv cr cs mp" and ag: "ledger_agrees g (cs_reader cs)" "tx_agrees cr g tx"
    and sig: "pool_signed cr g (genesis_hash (cs_p cs)) mp"
  shows "pool_signed cr g (genesis_hash (cs_p cs)) (fst (mp_accept cr cs tx mp))"
proof -
  define mp1 where "mp1 = (if mp_dirty mp then rebuild cr cs mp else mp)"
  have i1: "mp_inv cr cs mp1" "\<not> mp_dirty mp1" using inv rebuild_inv [of cr mp cs] by (auto simp: mp1_def mp_inv_def)
  have s1: "pool_signed cr g (genesis_hash (cs_p cs)) mp1" using sig signed_subset [OF sig rebuild_entries] by (simp add: mp1_def)
  note v1 = pool_view_agrees [OF i1 ag(1) s1]
  have base: "ledger_agrees g (mp_reader cs mp1)"
    using view_agrees_coin [OF ag(1) v1] by (simp add: ledger_agrees_def mp_reader_def view_reader_def)
  have "view_agrees g empty_view" by (simp add: view_agrees_def empty_view_def)
  then show ?thesis
    using accept_probe [of cr cs tx mp, folded mp1_def] apply_agrees(1) [OF _ base] s1 ag(2)
    by (fastforce simp: pool_signed_def)
qed

text \<open>The callbacks only take entries away, or offer transactions again.\<close>

lemma drops_entries: "set (mp_order (fold (\<lambda>t. mp_drop (txid cr t)) ts mp)) \<subseteq> set (mp_order mp)"
proof (induction ts arbitrary: mp)
  case (Cons t ts)
  have "set (mp_order (mp_drop (txid cr t) mp)) \<subseteq> set (mp_order mp)" by (auto simp: mp_drop_def split: option.splits)
  then show ?case using Cons.IH [of "mp_drop (txid cr t) mp"] by simp
qed simp

lemma connect_signed: "pool_signed cr g gen mp \<Longrightarrow> pool_signed cr g gen (mp_on_connect cr b mp)"
  by (erule signed_subset, rule image_mono) (simp add: mp_on_connect_def drops_entries)

lemma disconnect_signed: "pool_signed cr g gen mp \<Longrightarrow> pool_signed cr g gen (mp_on_disconnect cr cs b mp)"
  by (simp add: pool_signed_def mp_on_disconnect_def Let_def split: option.splits)

lemma tip_signed:
  assumes inv: "mp_inv cr cs mp" and ag: "ledger_agrees g (cs_reader cs)" "\<forall>t\<in>set (mp_readd mp). tx_agrees cr g t"
    and sig: "pool_signed cr g (genesis_hash (cs_p cs)) mp"
  shows "pool_signed cr g (genesis_hash (cs_p cs)) (mp_on_tip cr cs mp)"
proof -
  define mp1 where "mp1 = (if mp_dirty mp then rebuild cr cs mp else mp)"
  have i1: "mp_inv cr cs mp1" "mp_readd mp1 = mp_readd mp" using inv rebuild_inv [of cr mp cs] by (auto simp: mp1_def mp_inv_def)
  have s1: "pool_signed cr g (genesis_hash (cs_p cs)) mp1" using sig signed_subset [OF sig rebuild_entries] by (simp add: mp1_def)
  have "pool_signed cr g (genesis_hash (cs_p cs)) (fold (\<lambda>tx mp. fst (mp_accept cr cs tx mp)) ts m)"
    if "mp_inv cr cs m" "pool_signed cr g (genesis_hash (cs_p cs)) m" "\<forall>t\<in>set ts. tx_agrees cr g t" for ts m
    using that
  proof (induction ts arbitrary: m)
    case (Cons t ts)
    then show ?case using accept_signed [OF Cons.prems(1) ag(1) _ Cons.prems(2), of t] accept_inv(1) [OF Cons.prems(1), of t] by simp
  qed simp
  moreover have "mp_inv cr cs (mp1\<lparr>mp_readd := []\<rparr>)" using i1 by (simp add: mp_inv_def mp_ok_def mp_txids_def)
  moreover have "pool_signed cr g (genesis_hash (cs_p cs)) (mp1\<lparr>mp_readd := []\<rparr>)" using s1 by (simp add: pool_signed_def)
  ultimately show ?thesis using ag(2) by (simp add: mp_on_tip_def Let_def mp1_def [symmetric] i1(2))
qed

end
