(* ===== verification/Miner_Valid.thy ===== *)
theory Miner_Valid
  imports Miner Pool_Signed Emission
begin

text \<open>
  What becomes of a template: with a nonce that meets its target its header is accepted, the block passes the checks
  before it is stored, and once it is on disk it connects, signatures and all.
\<close>

section \<open>The header\<close>

lemma fork_point_tip:
  assumes "tree_ok cs"
  shows "fork_point cs (the_tip cs) = Some (the_tip cs)"
proof -
  have c: "chain_ok cs" "index_ok cs" using assms by (simp_all add: tree_ok_def)
  note t = tip_height [OF c(1)]
  have "0 \<le> b_height cs (the_tip cs)" using height_nonneg [OF c(2) t(1)] .
  then obtain n where "rounds cs (the_tip cs) = Suc n" by (cases "rounds cs (the_tip cs)") (simp_all add: rounds_def)
  moreover have "ancestor cs (the_tip cs) (b_height cs (the_tip cs)) = Some (the_tip cs)"
    using ancestor_correct [OF assms t(1), of "b_height cs (the_tip cs)"] \<open>0 \<le> b_height cs (the_tip cs)\<close> by simp
  ultimately show ?thesis by (simp add: fork_point_def t(3))
qed

lemma template_header:
  assumes tm: "create_block_template cr cs mp payout tag en = (b, cs')" and tree: "tree_ok cs"
    and h: "h = (header b)\<lparr>h_nonce := n\<rparr>" "check_pow (header_hash cr h) (h_bits h) (cs_p cs)" "\<not> known cs (header_hash cr h)"
    and tip: "\<not> bi_failed (deref cs (the_tip cs))"
    and commit: "is_commit_height (cs_p cs) (cs_height cs + 1) \<Longrightarrow> commit_for_next cs (the_tip cs) \<noteq> hash_zero"
    and clock: "0 \<le> cs_now cs" "cs_now cs + MAX_FUTURE_DRIFT < 2 ^ 63" "median_time_past cs (the_tip cs) < cs_now cs + MAX_FUTURE_DRIFT"
  obtains cs1 where "accept_header cr h cs = (cs1, HOk, '''', Some (header_hash cr h))"
    "core cs1 = core (fst (add_index cr h cs))" "h_prev h = the_tip cs" "cs_snapshot_hash cs1 = cs_snapshot_hash cs"
proof -
  let ?tip = "the_tip cs"
  have c: "chain_ok cs" "index_ok cs" using tree by (simp_all add: tree_ok_def)
  note t = tip_height [OF c(1)]
  obtain f: "h_version h = 2" "h_prev h = ?tip" "h_bits h = next_bits_for cs ?tip" "state_commit h = commit_for_next cs ?tip"
    "h_time h = word_of_int (max (cs_now cs) (median_time_past cs ?tip + 1))"
    by (rule template_parts [OF tm]) (simp add: h(1) known_parts(1) [OF c(2) t(1)])
  have tm: "sint (h_time h) = max (cs_now cs) (median_time_past cs ?tip + 1)"
    unfolding f(5) using clock by (auto simp: MAX_FUTURE_DRIFT_def sint_sbintrunc' signed_take_bit_int_eq_self)
  have "is_commit_height (cs_p cs) (b_height cs ?tip + 1) = (state_commit h \<noteq> hash_zero)"
    using commit by (auto simp: f(4) t(2) commit_for_next_def Let_def)
  then have "check_header cr cs h ?tip = Inr ()"
    using tip f h(2) tm clock(3) by (auto simp: check_header_def fail_if_def fork_point_tip [OF tree] MAX_REORG_DEPTH_def PRUNE_DEPTH_def MAX_FUTURE_DRIFT_def)
  then have a: "accept_header cr h cs = (fst (append_cs (cs_dir (fst (add_index cr h cs)) @ ''/headers.dat'') (write_header h) (fst (add_index cr h cs))),
      HOk, '''', Some (header_hash cr h))"
    using h(3) t(1) add_index_nodes(7) [of cs cr h] f(2)
    by (cases "add_index cr h cs") (simp add: accept_header_def cs_lookup_def known_def split: option.splits)
  show thesis by (rule that [OF a]) (simp_all add: f(2) add_index_def Let_def append_cs_def upd_index_def split: prod.split option.split)
qed

section \<open>The ledger\<close>

text \<open>The transactions apply after the coinbase with their signatures checked, their fees are the ones the reward was
  computed from, and the coinbase pays exactly what it may.\<close>

lemma template_connects:
  assumes tm: "create_block_template cr cs mp payout tag en = (b, cs')" and inv: "mp_ok cr mp" and chain: "chain_ok cs"
    and new: "txid cr (hd (txs b)) \<notin> set (mp_by_id mp)" "\<forall>k. us_coin (cs_st cs) (OutPoint (txid cr (hd (txs b))) k) = None"
    and sig: "pool_signed cr g (genesis_hash (cs_p cs)) mp" "ledger_agrees g (cs_reader cs)"
  shows "\<exists>v fees. apply_txs cr (cs_reader cs) (next_height cs) (genesis_hash (cs_p cs)) True (tl (txs b))
      (apply_coinbase cr (hd (txs b)) (next_height cs) empty_view) 0 = Inr (v, fees)
    \<and> total_qnt_out (hd (txs b)) = fst (block_subsidy (next_height cs) (cs_em cs)) + fees"
proof -
  have h: "b_height cs (the_tip cs) = cs_height cs" using tip_height(2) [OF chain] .
  obtain sel fees subsidy em where t: "select_for_block cr cs (of_nat MAX_BLOCK_SIZE - 2000) mp = (sel, fees)"
    "block_subsidy (word_of_int (b_height cs (the_tip cs) + 1)) (cs_em cs) = (subsidy, em)"
    "txs b = template_coinbase payout tag en (word_of_int (b_height cs (the_tip cs) + 1)) (subsidy + fees) # map me_tx sel"
    by (rule template_parts [OF tm])
  have m: "unat (of_nat MAX_BLOCK_SIZE - 2000 :: u64) = 998000" by (simp add: MAX_BLOCK_SIZE_def)
  obtain v where v: "executes cr cs sel v fees" using select_sizes(3) [OF t(1) inv] m by auto
  have sub: "set sel \<subseteq> set (mp_order mp)" using select_sizes(1) [OF t(1) inv] m by (auto dest: list_emb_set)
  have "view_agrees g empty_view" by (simp add: view_agrees_def empty_view_def)
  then have signed: "apply_txs cr (cs_reader cs) (next_height cs) (genesis_hash (cs_p cs)) True (map me_tx sel) empty_view 0 = Inr (v, fees)"
    using apply_txs_agrees [OF v [unfolded executes_def] sig(2)] sig(1) sub unfolding pool_signed_def by auto
  have "txid cr (hd (txs b)) \<notin> txid cr ` set (map me_tx sel)"
    using sub inv new(1) by (fastforce simp: mp_ok_def mp_txids_def list_all_iff entry_ok_def)
  from above_apply_txs [OF signed above_coinbase this] new(2)
  obtain w where "apply_txs cr (cs_reader cs) (next_height cs) (genesis_hash (cs_p cs)) True (tl (txs b))
      (apply_coinbase cr (hd (txs b)) (next_height cs) empty_view) 0 = Inr (w, fees)"
    by (auto simp: t(3) us_reader_def)
  moreover have "total_qnt_out (hd (txs b)) = subsidy + fees"
    by (simp add: t(3) template_coinbase_def total_qnt_out_def is_qnt_def QNT_ASSET_def word_gt_0)
  ultimately show ?thesis using t(2) h by simp
qed

section \<open>Connecting\<close>

text \<open>A state in which the block may be connected: the tree and the active chain are as its header left them, the
  ledger and the snapshots held are the ones of the template, and the block can be read, its undo record written.\<close>

definition stored_on :: "crypto \<Rightarrow> chainstate \<Rightarrow> block \<Rightarrow> hash256 \<Rightarrow> chainstate \<Rightarrow> bool" where
  "stored_on cr cs1 b idx cs2 \<longleftrightarrow> same_tree cs1 cs2 \<and> cs_chain cs2 = cs_chain cs1 \<and> cs_st cs2 = cs_st cs1 \<and> cs_p cs2 = cs_p cs1
     \<and> cs_snapshot_hash cs2 = cs_snapshot_hash cs1 \<and> em_inv (cs_em cs2)
     \<and> read_block cr cs2 idx True = Some (b, True) \<and> fs_ok (cs_fs cs2) (undo_path cs2 (bi_hash (deref cs2 idx)))"

lemma subsidy_same:
  assumes "em_inv e1" "em_inv e2"
  shows "fst (block_subsidy h e1) = fst (block_subsidy h e2)"
proof -
  obtain v1 e1' v2 e2' where i: "issued_through (h - 1) e1 = (v1, e1')" "issued_through (h - 1) e2 = (v2, e2')" by fastforce
  have "unat v1 = unat v2" using issued_through_ok(1) [OF assms(1) i(1)] issued_through_ok(1) [OF assms(2) i(2)] by simp
  then have "v1 = v2" by (rule word_unat_eq_iff [THEN iffD2])
  then show ?thesis using i by (simp add: block_subsidy_def)
qed

lemma connect_succeeds:
  assumes read: "read_block cr cs idx True = Some (b, True)" and idx: "b_height cs idx > 0" "\<not> commit_mismatch cs idx"
    and fs: "fs_ok (cs_fs cs) (undo_path cs (bi_hash (deref cs idx)))"
    and ap: "apply_txs cr (cs_reader cs) (word_of_int (b_height cs idx)) (genesis_hash (cs_p cs)) True (tl (txs b))
      (apply_coinbase cr (hd (txs b)) (word_of_int (b_height cs idx)) empty_view) 0 = Inr (v, fees)"
    and pay: "total_qnt_out (hd (txs b)) \<le> fst (block_subsidy (word_of_int (b_height cs idx)) (cs_em cs)) + fees"
  shows "snd (connect_block cr idx cs) = Inr ()"
proof -
  obtain subsidy em where se: "block_subsidy (word_of_int (b_height cs idx)) (cs_em cs) = (subsidy, em)" by force
  have d: "deref (cs\<lparr>cs_em := em\<rparr>) = deref cs" "undo_path (cs\<lparr>cs_em := em\<rparr>) = undo_path cs"
    by (simp_all add: deref_def undo_path_def fun_eq_iff)
  obtain cs1 where "write_undo idx (undo_of_view v) (cs\<lparr>cs_em := em\<rparr>) = (cs1, True)"
    using fs by (simp add: write_undo_def write_cs_def write_file_atomic_def d)
  then show ?thesis
    using read idx ap pay se by (simp add: connect_block_def Let_def not_less)
qed

lemma commitment_agrees:
  assumes tree: "tree_ok cs" and h: "h_prev h = the_tip cs" "\<not> known cs (header_hash cr h)" "state_commit h = commit_for_next cs (the_tip cs)"
    and c1: "core cs1 = core (fst (add_index cr h cs))" "cs_snapshot_hash cs1 = cs_snapshot_hash cs"
    and c2: "same_tree cs1 cs2" "cs_chain cs2 = cs_chain cs1" "cs_p cs2 = cs_p cs1" "cs_snapshot_hash cs2 = cs_snapshot_hash cs1"
    and commit: "is_commit_height (cs_p cs) (cs_height cs + 1) \<Longrightarrow> commit_for_next cs (the_tip cs) \<noteq> hash_zero"
  shows "\<not> commit_mismatch cs2 (header_hash cr h)" "b_height cs2 (header_hash cr h) = cs_height cs + 1"
proof -
  let ?tip = "the_tip cs" and ?idx = "header_hash cr h" and ?k = "cs_height cs + 1 - snapshot_delay (cs_p cs)"
  have c: "chain_ok cs" "index_ok cs" using tree by (simp_all add: tree_ok_def)
  note t = tip_height [OF c(1)]
  have par: "known cs (h_prev h)" using t(1) h(1) by simp
  note n = add_index_nodes [OF h(2) par]
  have p: "cs_p (fst (add_index cr h cs)) = cs_p cs" by (simp add: add_index_def Let_def upd_index_def split: option.split)
  have d1: "deref cs1 = deref (fst (add_index cr h cs))" "known cs1 = known (fst (add_index cr h cs))"
    using c1(1) by (simp_all add: core_iff deref_def known_def fun_eq_iff)
  note f2 = same_tree_fields [OF c2(1)]
  have idx: "b_height cs2 ?idx = cs_height cs + 1" "bi_prev (deref cs2 ?idx) = Some ?tip" "bi_header (deref cs2 ?idx) = h" "known cs2 ?idx"
    using f2 n(1,2) d1 h(1) t(2) same_tree_deref(1) [OF c2(1)] by simp_all
  show "b_height cs2 ?idx = cs_height cs + 1" by (rule idx(1))
  have "tree_ok cs1" using add_index_tree_ok [OF tree h(2) par] tree_core [OF c1(1)] by simp
  then have tree2: "tree_ok cs2" by (rule same_tree_ok [OF c2(1,2)])
  have pp: "cs_p cs2 = cs_p cs" using c2(3) c1(1) p by (simp add: core_iff)
  show "\<not> commit_mismatch cs2 ?idx"
  proof (cases "is_commit_height (cs_p cs) (cs_height cs + 1)")
    case True
    from commit [OF this] True obtain base s where b: "ancestor cs ?tip ?k = Some base" "map_of (cs_snapshot_hash cs) (bi_hash (deref cs base)) = Some s"
      "state_commit h = s"
      by (auto simp: h(3) commit_for_next_def Let_def t(2) split: option.splits if_splits)
    have k: "0 \<le> ?k" "?k \<le> cs_height cs" using b(1) ancestor_out_of_range [of ?k cs ?tip] t(2) by force+
    have u: "up cs (nat (cs_height cs - ?k)) ?tip = Some base" using b(1) ancestor_correct [OF tree t(1), of ?k] k t(2) by simp
    have prev: "bi_prev (deref cs2 x) = bi_prev (deref cs x)" if "known cs x" for x
    proof -
      have "x \<noteq> ?idx" using that h(2) by blast
      then show ?thesis using n(3) [of x] by (simp add: f2(5) d1)
    qed
    have "up cs2 (nat (cs_height cs - ?k)) ?tip = Some base"
      using u up_frame [OF c(2) t(1) prev, of "nat (cs_height cs - ?k)"] k t(2) by simp
    moreover have "nat (cs_height cs + 1 - ?k) = Suc (nat (cs_height cs - ?k))" using k by linarith
    ultimately have "ancestor cs2 ?idx ?k = Some base"
      using ancestor_correct [OF tree2 idx(4), of ?k] k idx(1,2) by simp
    moreover have kb: "known cs base" using up_height [OF c(2) t(1), of "nat (cs_height cs - ?k)"] u k t(2) by auto
    then have "base \<noteq> ?idx" using h(2) by blast
    then have "bi_hash (deref cs2 base) = bi_hash (deref cs base)" using n(3) [of base] by (simp add: f2(1) d1)
    ultimately show ?thesis using b(2,3) idx(1,3) pp c2(4) c1(2) by (simp add: commit_mismatch_def)
  qed (simp add: commit_mismatch_def idx(1) pp)
qed

section \<open>A mined template\<close>

text \<open>The nonce is not seen by the checks of the block.\<close>

lemma check_nonce:
  "check_block_shape cr cs idx (b\<lparr>header := (header b)\<lparr>h_nonce := n\<rparr>\<rparr>) w = check_block_shape cr cs idx b w"
  "check_block_body cr cs idx (b\<lparr>header := (header b)\<lparr>h_nonce := n\<rparr>\<rparr>) w = check_block_body cr cs idx b w"
proof -
  have "length (block_core_bytes (b\<lparr>header := (header b)\<lparr>h_nonce := n\<rparr>\<rparr>)) = length (block_core_bytes b)"
    "block_witness_bytes (b\<lparr>header := (header b)\<lparr>h_nonce := n\<rparr>\<rparr>) = block_witness_bytes b"
    by (simp_all add: block_core_bytes_def block_witness_bytes_def)
  then show "check_block_shape cr cs idx (b\<lparr>header := (header b)\<lparr>h_nonce := n\<rparr>\<rparr>) w = check_block_shape cr cs idx b w"
    by (simp add: check_block_shape_def compute_merkle_root_def compute_witness_root_def block_full_bytes_def)
  show "check_block_body cr cs idx (b\<lparr>header := (header b)\<lparr>h_nonce := n\<rparr>\<rparr>) w = check_block_body cr cs idx b w"
    by (simp add: check_block_body_def)
qed

text \<open>A block whose header is new and whose checks pass is stored and answered with success, unless the disk fails.\<close>

lemma accept_block_stores:
  assumes h: "accept_header cr (header b) cs = (cs1, HOk, '''', Some idx)" and good: "chain_good cs" and new: "\<not> bi_have_data (deref cs1 idx)"
    and ok: "check_block_shape cr cs1 idx b True = Inr ()" "check_block_body cr cs1 idx b True = Inr ()"
  shows "\<exists>cs' res new. accept_block cr b True cs = Some (cs', res, new) \<and> (res = Inr () \<and> new \<or> res = Inl ''disk-write-failed'')"
proof -
  obtain cs' res nw where a: "accept_block cr b True cs = Some (cs', res, nw)" using accept_block_good [OF good, of cr b True] by blast
  have "res = Inr () \<and> nw \<or> res = Inl ''disk-write-failed''"
    using a h new ok by (auto simp: accept_block_def Let_def split: prod.splits bool.splits bind_splits)
  with a show ?thesis by blast
qed

lemma mined_template:
  assumes tm: "create_block_template cr cs mp payout tag en = (b, cs')" and good: "chain_good cs" and inv: "mp_ok cr mp"
    and new: "txid cr (hd (txs b)) \<notin> set (mp_by_id mp)" "\<forall>k. us_coin (cs_st cs) (OutPoint (txid cr (hd (txs b))) k) = None"
    and reward: "total_qnt_out (hd (txs b)) \<le> MAX_MONEY" "em_inv (cs_em cs)"
    and sig: "pool_signed cr g (genesis_hash (cs_p cs)) mp" "ledger_agrees g (cs_reader cs)"
    and h: "h = (header b)\<lparr>h_nonce := n\<rparr>" "check_pow (header_hash cr h) (h_bits h) (cs_p cs)" "\<not> known cs (header_hash cr h)"
    and tip: "\<not> bi_failed (deref cs (the_tip cs))"
    and commit: "is_commit_height (cs_p cs) (cs_height cs + 1) \<Longrightarrow> commit_for_next cs (the_tip cs) \<noteq> hash_zero"
    and clock: "0 \<le> cs_now cs" "cs_now cs + MAX_FUTURE_DRIFT < 2 ^ 63" "median_time_past cs (the_tip cs) < cs_now cs + MAX_FUTURE_DRIFT"
  obtains cs1 where "accept_header cr h cs = (cs1, HOk, '''', Some (header_hash cr h))"
    "check_block_shape cr cs1 (header_hash cr h) (b\<lparr>header := h\<rparr>) True = Inr ()"
    "check_block_body cr cs1 (header_hash cr h) (b\<lparr>header := h\<rparr>) True = Inr ()"
    "\<exists>cs2 res new. accept_block cr (b\<lparr>header := h\<rparr>) True cs = Some (cs2, res, new) \<and> (res = Inr () \<and> new \<or> res = Inl ''disk-write-failed'')"
    "\<And>cs2. stored_on cr cs1 (b\<lparr>header := h\<rparr>) (header_hash cr h) cs2 \<Longrightarrow> snd (connect_block cr (header_hash cr h) cs2) = Inr ()"
proof -
  let ?b = "b\<lparr>header := h\<rparr>" and ?idx = "header_hash cr h"
  have c: "chain_ok cs" using good by (simp add: tree_ok_def)
  note t = tip_height [OF c]
  obtain cs1 where a: "accept_header cr h cs = (cs1, HOk, '''', Some ?idx)" "core cs1 = core (fst (add_index cr h cs))" "h_prev h = the_tip cs"
    "cs_snapshot_hash cs1 = cs_snapshot_hash cs"
    using template_header [OF tm conjunct1 [OF good] h tip commit clock] by blast
  have par: "known cs (h_prev h)" using t(1) a(3) by simp
  note n = add_index_nodes [OF h(3) par]
  have sc: "state_commit h = commit_for_next cs (the_tip cs)" by (rule template_parts [OF tm]) (simp add: h(1))
  have d1: "deref cs1 = deref (fst (add_index cr h cs))" using a(2) by (simp add: core_iff deref_def fun_eq_iff)
  have idx: "b_height cs1 ?idx = b_height cs (the_tip cs) + 1" "\<not> bi_have_data (deref cs1 ?idx)"
    by (simp_all add: d1 n(2) a(3) blank_index_def)
  have ok: "check_block_shape cr cs1 ?idx ?b True = Inr ()" "check_block_body cr cs1 ?idx ?b True = Inr ()"
    using template_accepted [OF tm inv new(1) reward(1)] idx(1) unfolding h(1) check_nonce by blast+
  have "snd (connect_block cr ?idx cs2) = Inr ()" if s: "stored_on cr cs1 ?b ?idx cs2" for cs2
  proof -
    have f: "same_tree cs1 cs2" "cs_chain cs2 = cs_chain cs1" "cs_st cs2 = cs_st cs1" "cs_p cs2 = cs_p cs1"
      "cs_snapshot_hash cs2 = cs_snapshot_hash cs1" "em_inv (cs_em cs2)" "read_block cr cs2 ?idx True = Some (?b, True)"
      "fs_ok (cs_fs cs2) (undo_path cs2 (bi_hash (deref cs2 ?idx)))" using s by (simp_all add: stored_on_def)
    note m = commitment_agrees [OF conjunct1 [OF good] a(3) h(3) sc a(2,4) f(1,2,4,5) commit]
    have e: "cs_st cs2 = cs_st cs" "cs_p cs2 = cs_p cs"
      using f(3,4) a(2) n(5) by (simp_all add: core_iff add_index_def Let_def upd_index_def split: option.split)
    obtain v fees where v: "apply_txs cr (cs_reader cs) (next_height cs) (genesis_hash (cs_p cs)) True (tl (txs b))
      (apply_coinbase cr (hd (txs b)) (next_height cs) empty_view) 0 = Inr (v, fees)"
      "total_qnt_out (hd (txs b)) = fst (block_subsidy (next_height cs) (cs_em cs)) + fees"
      using template_connects [OF tm inv c new sig] by blast
    have "0 \<le> cs_height cs" using t(2) height_nonneg [OF _ t(1)] good by (simp add: tree_ok_def)
    then show ?thesis
      using v subsidy_same [OF reward(2) f(6), of "next_height cs"] by (intro connect_succeeds [OF f(7) _ m(1) f(8), of v fees]) (simp_all add: m(2) e)
  qed
  then show thesis using that a(1) ok accept_block_stores [of cr ?b cs cs1 ?idx] good idx(2) by simp
qed

end
