(* ===== verification/Wallet.thy ===== *)
theory Wallet
  imports Chain_Connect
begin

text \<open>
  The wallet (\<open>src/src/wallet/wallet.h\<close>, \<open>wallet.cpp\<close>, \<open>mnemonic.cpp\<close>): keys, coins, history and the
  effect of blocks. The mutex is left out (one thread at a time). An ordered map is an association
  list that is sorted where it is walked. Signed 64-bit amounts are integers read from the word the
  source converts. Falcon key generation and signing are parameters (\<open>crypto\<close>).
\<close>

section \<open>Seed words\<close>

text \<open>\<open>tolower\<close> in the C locale. What \<open>operator>>\<close> skips is \<open>is_space\<close>.\<close>

definition tolower :: "char \<Rightarrow> char" where
  "tolower c = (if char_between CHR ''A'' CHR ''Z'' c then char_of (char_code c + 32) else c)"

fun split_words :: "string \<Rightarrow> string \<Rightarrow> string list" where
  "split_words w [] = (if w = [] then [] else [w])"
| "split_words w (c # s) =
     (if is_space c then (if w = [] then split_words [] s else w # split_words [] s) else split_words (w @ [c]) s)"

fun join_words :: "string list \<Rightarrow> string" where
  "join_words [] = []"
| "join_words [w] = w"
| "join_words (w # ws) = w @ '' '' @ join_words ws"

definition mnemonic_normalize :: "string \<Rightarrow> string" where
  "mnemonic_normalize s = join_words (map (map tolower) (split_words [] s))"

text \<open>The table of 2048 words (\<open>bip39_words.inc\<close>) is the argument \<open>table\<close>.\<close>

definition word_index :: "string list \<Rightarrow> string \<Rightarrow> nat option" where
  "word_index table w = map_of (rev (zip table [0..<2048])) w"

definition mnemonic_bit :: "bytes \<Rightarrow> nat \<Rightarrow> bool" where
  "mnemonic_bit b n \<longleftrightarrow> bit (b ! (n div 8)) (7 - n mod 8)"

definition mnemonic_encode :: "crypto \<Rightarrow> string list \<Rightarrow> bytes \<Rightarrow> string" where
  "mnemonic_encode cr table ent =
     (let b = ent @ [hash_bytes (sha256_lib cr ent) ! 0]
      in join_words (map (\<lambda>i. table ! fold (\<lambda>j idx. 2 * idx + (if mnemonic_bit b (i * 11 + j) then 1 else 0)) [0..<11] 0) [0..<24]))"

definition set_mnemonic_bit :: "nat \<Rightarrow> bytes \<Rightarrow> bytes" where
  "set_mnemonic_bit n b = b[n div 8 := b ! (n div 8) OR push_bit (7 - n mod 8) 1]"

definition mnemonic_valid :: "crypto \<Rightarrow> string list \<Rightarrow> string \<Rightarrow> bool" where
  "mnemonic_valid cr table words =
     (let idx = map (word_index table) (split_words [] (mnemonic_normalize words)) in
      if None \<in> set idx \<or> length idx \<noteq> 24 then False
      else
        (let ns = map the idx;
             b = fold (\<lambda>n b. if bit (ns ! (n div 11)) (10 - n mod 11) then set_mnemonic_bit n b else b) [0..<264] (replicate 33 0)
         in hash_bytes (sha256_lib cr (take 32 b)) ! 0 = b ! 32))"

definition mnemonic_to_master :: "crypto \<Rightarrow> string \<Rightarrow> string \<Rightarrow> hash256" where
  "mnemonic_to_master cr words passphrase =
     (let s = mnemonic_normalize words @ [char_of (0::nat)] @ passphrase;
          h = hash_of (xof_lib cr ''Quant v1 wallet master seed'' (string_bytes s) 32)
      in ((\<lambda>h. blake3_tagged cr ''Quant v1 wallet stretch'' (hash_bytes h)) ^^ 100000) h)"

section \<open>State\<close>

record wallet_key =
  wk_index :: u32
  wk_pk :: bytes
  wk_sk :: bytes
  wk_addr :: hash256
  wk_label :: string
  wk_issued :: bool

record wallet_coin =
  wc_op :: outpoint
  wc_out :: txout
  wc_height :: int
  wc_coinbase :: bool
  wc_locked :: bool

record wallet_tx =
  wt_txid :: hash256
  wt_height :: int
  wt_time :: int
  wt_delta :: int
  wt_token_delta :: "(hash256 \<times> int) list"
  wt_fee :: amount
  wt_counterparty :: string
  wt_note :: string
  wt_coinbase :: bool
  wt_kind :: string

record balance =
  bal_confirmed :: amount
  bal_unconfirmed :: amount
  bal_immature :: amount
  bal_locked :: amount

record contact =
  ct_name :: string
  ct_address :: string

record wallet =
  w_p :: chain_params
  w_path :: string
  w_password :: string
  w_mnemonic :: string
  w_passphrase :: string
  w_master :: hash256
  w_keys :: "wallet_key list"
  w_next_index :: u32
  w_by_addr :: "(hash256 \<times> nat) list"
  w_coins :: "(outpoint \<times> wallet_coin) list"
  w_history :: "(hash256 \<times> wallet_tx) list"
  w_contacts :: "contact list"
  w_birth_height :: int
  w_synced_tip :: hash256
  w_synced_height :: int

definition LOOKAHEAD :: u32 where "LOOKAHEAD = 20"

definition blank_wallet :: "chain_params \<Rightarrow> wallet" where
  "blank_wallet p = \<lparr>w_p = p, w_path = [], w_password = [], w_mnemonic = [], w_passphrase = [], w_master = hash_zero,
     w_keys = [], w_next_index = 0, w_by_addr = [], w_coins = [], w_history = [], w_contacts = [], w_birth_height = 0,
     w_synced_tip = hash_zero, w_synced_height = -1\<rparr>"

definition blank_tx :: wallet_tx where
  "blank_tx = \<lparr>wt_txid = hash_zero, wt_height = -1, wt_time = 0, wt_delta = 0, wt_token_delta = [], wt_fee = 0,
     wt_counterparty = [], wt_note = [], wt_coinbase = False, wt_kind = []\<rparr>"

text \<open>The entries of an ordered map in the order of a walk over it.\<close>

definition walk :: "('k::linorder \<times> 'v) list \<Rightarrow> ('k \<times> 'v) list" where
  "walk m = sort_key fst m"

section \<open>Keys\<close>

definition key_seed :: "crypto \<Rightarrow> hash256 \<Rightarrow> u32 \<Rightarrow> hash256" where
  "key_seed cr master i =
     keyed_lib cr master (string_bytes ''Quant key '' @ [0, 0] @ map (\<lambda>k. ucast (drop_bit (8 * k) i)) [0..<4])"

definition keypair_from_seed :: "crypto \<Rightarrow> hash256 \<Rightarrow> bytes \<times> bytes" where
  "keypair_from_seed cr seed = falcon_keypair_lib cr (xof_lib cr ''Quant v2 falcon key seed'' (hash_bytes seed) 64)"

definition derive_key :: "crypto \<Rightarrow> hash256 \<Rightarrow> u32 \<Rightarrow> wallet_key" where
  "derive_key cr master i =
     (let (pk, sk) = keypair_from_seed cr (key_seed cr master i)
      in \<lparr>wk_index = i, wk_pk = pk, wk_sk = sk, wk_addr = address_hash cr pk, wk_label = [], wk_issued = False\<rparr>)"

definition push_key :: "wallet_key \<Rightarrow> wallet \<Rightarrow> wallet" where
  "push_key k w = w\<lparr>w_by_addr := AList.update (wk_addr k) (length (w_keys w)) (w_by_addr w), w_keys := w_keys w @ [k]\<rparr>"

text \<open>\<open>derive_until\<close>: the loop runs until there are \<open>count\<close> keys.\<close>

primrec derive_more :: "crypto \<Rightarrow> nat \<Rightarrow> wallet \<Rightarrow> wallet" where
  "derive_more cr 0 w = w"
| "derive_more cr (Suc n) w = derive_more cr n (push_key (derive_key cr (w_master w) (of_nat (length (w_keys w)))) w)"

definition derive_until :: "crypto \<Rightarrow> u32 \<Rightarrow> wallet \<Rightarrow> wallet" where
  "derive_until cr count w = derive_more cr (unat count - length (w_keys w)) w"

definition upd_key :: "nat \<Rightarrow> (wallet_key \<Rightarrow> wallet_key) \<Rightarrow> wallet \<Rightarrow> wallet" where
  "upd_key i f w = w\<lparr>w_keys := (w_keys w)[i := f (w_keys w ! i)]\<rparr>"

definition address_string :: "wallet \<Rightarrow> hash256 \<Rightarrow> string" where
  "address_string w a = encode_address (w_p w) 0 a"

definition new_address :: "crypto \<Rightarrow> string \<Rightarrow> wallet \<Rightarrow> string \<times> wallet" where
  "new_address cr label w =
     (let w = derive_until cr (w_next_index w + 1 + LOOKAHEAD) w;
          i = unat (w_next_index w);
          w = upd_key i (\<lambda>k. k\<lparr>wk_issued := True, wk_label := label\<rparr>) (w\<lparr>w_next_index := w_next_index w + 1\<rparr>)
      in (address_string w (wk_addr (w_keys w ! i)), w))"

definition issued_keys :: "wallet \<Rightarrow> wallet_key list" where
  "issued_keys w = filter wk_issued (w_keys w)"

definition watched_addresses :: "wallet \<Rightarrow> hash256 list" where
  "watched_addresses w = map wk_addr (w_keys w)"

definition is_mine :: "wallet \<Rightarrow> hash256 \<Rightarrow> bool" where
  "is_mine w a \<longleftrightarrow> map_of (w_by_addr w) a \<noteq> None"

definition set_label :: "hash256 \<Rightarrow> string \<Rightarrow> wallet \<Rightarrow> wallet" where
  "set_label a label w =
     (case map_of (w_by_addr w) a of None \<Rightarrow> w | Some i \<Rightarrow> upd_key i (\<lambda>k. k\<lparr>wk_label := label\<rparr>) w)"

definition wallet_fresh :: "crypto \<Rightarrow> string \<Rightarrow> chain_params \<Rightarrow> string \<Rightarrow> string \<Rightarrow> string \<Rightarrow> int \<Rightarrow> wallet" where
  "wallet_fresh cr path p mnemonic passphrase password birth =
     (let words = mnemonic_normalize mnemonic;
          w = (blank_wallet p)\<lparr>w_path := path, w_password := password, w_mnemonic := words, w_passphrase := passphrase,
                w_master := mnemonic_to_master cr words passphrase, w_birth_height := birth\<rparr>
      in snd (new_address cr ''default'' (derive_until cr LOOKAHEAD w)))"

section \<open>Coins\<close>

definition w_add_coin :: "crypto \<Rightarrow> wallet_coin \<Rightarrow> wallet \<Rightarrow> wallet" where
  "w_add_coin cr c wl =
     (let w = wl\<lparr>w_coins := AList.update (wc_op c) c (w_coins wl)\<rparr> in
      case map_of (w_by_addr w) (o_addr (wc_out c)) of
        None \<Rightarrow> w
      | Some i \<Rightarrow>
          (let k = w_keys w ! i;
               w = (if \<not> wk_issued k
                    then upd_key i (\<lambda>k. k\<lparr>wk_issued := True, wk_label := (if wk_label k = [] then ''restored'' else wk_label k)\<rparr>) w
                    else w);
               w = (if wk_index k \<ge> w_next_index w then w\<lparr>w_next_index := wk_index k + 1\<rparr> else w)
           in derive_until cr (w_next_index w + LOOKAHEAD) w))"

definition remove_coin :: "outpoint \<Rightarrow> wallet \<Rightarrow> wallet" where
  "remove_coin p w = w\<lparr>w_coins := AList.delete p (w_coins w)\<rparr>"

definition replace_coins :: "crypto \<Rightarrow> wallet_coin list \<Rightarrow> wallet \<Rightarrow> wallet" where
  "replace_coins cr cs w = fold (w_add_coin cr) cs (w\<lparr>w_coins := []\<rparr>)"

definition wallet_coins :: "wallet \<Rightarrow> wallet_coin list" where
  "wallet_coins w = map snd (walk (w_coins w))"

definition mature_coin :: "wallet_coin \<Rightarrow> int \<Rightarrow> int \<Rightarrow> bool" where
  "mature_coin c tp maturity \<longleftrightarrow> \<not> wc_coinbase c \<or> (wc_height c \<ge> 0 \<and> tp + 1 \<ge> wc_height c + maturity)"

definition bal_add :: "chain_params \<Rightarrow> int \<Rightarrow> wallet_coin \<Rightarrow> balance \<Rightarrow> balance" where
  "bal_add p tp c b =
     (let v = o_value (wc_out c) in
      if \<not> is_qnt (wc_out c) then b
      else if wc_locked c then b\<lparr>bal_locked := bal_locked b + v\<rparr>
      else if wc_height c < 0 then b\<lparr>bal_unconfirmed := bal_unconfirmed b + v\<rparr>
      else if \<not> mature_coin c tp (coinbase_maturity p) then b\<lparr>bal_immature := bal_immature b + v\<rparr>
      else b\<lparr>bal_confirmed := bal_confirmed b + v\<rparr>)"

definition wallet_balance :: "wallet \<Rightarrow> int \<Rightarrow> balance" where
  "wallet_balance w tp =
     fold (bal_add (w_p w) tp) (wallet_coins w) \<lparr>bal_confirmed = 0, bal_unconfirmed = 0, bal_immature = 0, bal_locked = 0\<rparr>"

definition token_balances :: "wallet \<Rightarrow> (hash256 \<times> amount) list" where
  "token_balances w =
     fold (\<lambda>c m. if \<not> is_qnt (wc_out c) \<and> \<not> wc_locked c then add_amount (o_asset (wc_out c)) (o_value (wc_out c)) m else m)
       (wallet_coins w) []"

section \<open>History\<close>

text \<open>Newest first, pending on top.\<close>

definition tx_rank :: "wallet_tx \<Rightarrow> int \<times> int" where
  "tx_rank t = (- (if wt_height t < 0 then 2 ^ 63 - 1 else wt_height t), - wt_time t)"

definition history :: "wallet \<Rightarrow> wallet_tx list" where
  "history w = sort_key tx_rank (map snd (walk (w_history w)))"

definition record_tx :: "wallet_tx \<Rightarrow> wallet \<Rightarrow> wallet" where
  "record_tx t w = w\<lparr>w_history := AList.update (wt_txid t) t (w_history w)\<rparr>"

definition add_delta :: "hash256 \<Rightarrow> int \<Rightarrow> (hash256 \<times> int) list \<Rightarrow> (hash256 \<times> int) list" where
  "add_delta a d m = AList.update a ((case map_of m a of None \<Rightarrow> 0 | Some x \<Rightarrow> x) + d) m"

definition delta_of :: "(hash256 \<times> int) list \<Rightarrow> hash256 \<Rightarrow> int" where
  "delta_of m a = (case map_of m a of None \<Rightarrow> 0 | Some d \<Rightarrow> d)"

text \<open>The locals of \<open>process_tx\<close>.\<close>

record ptx =
  pt_delta :: "(hash256 \<times> int) list"
  pt_qnt_in :: amount
  pt_any :: bool
  pt_all_ours :: bool
  pt_counterparty :: string

primrec process_ins :: "int \<Rightarrow> txin list \<Rightarrow> ptx \<times> wallet \<Rightarrow> ptx \<times> wallet" where
  "process_ins height [] s = s"
| "process_ins height (i # is) s =
     process_ins height is
       (case s of (pt, w) \<Rightarrow>
          (case map_of (w_coins w) (prev i) of
             None \<Rightarrow> (pt\<lparr>pt_all_ours := False\<rparr>, w)
           | Some c \<Rightarrow>
               (pt\<lparr>pt_any := True,
                   pt_delta := add_delta (o_asset (wc_out c)) (- sint (o_value (wc_out c))) (pt_delta pt),
                   pt_qnt_in := (if is_qnt (wc_out c) then pt_qnt_in pt + o_value (wc_out c) else pt_qnt_in pt)\<rparr>,
                if height < 0 then w\<lparr>w_coins := AList.update (prev i) (c\<lparr>wc_locked := True\<rparr>) (w_coins w)\<rparr>
                else remove_coin (prev i) w)))"

primrec process_outs :: "crypto \<Rightarrow> hash256 \<Rightarrow> int \<Rightarrow> bool \<Rightarrow> u32 \<Rightarrow> txout list \<Rightarrow> ptx \<times> wallet \<Rightarrow> ptx \<times> wallet" where
  "process_outs cr tid height cb n [] s = s"
| "process_outs cr tid height cb n (out # os) s =
     process_outs cr tid height cb (n + 1) os
       (case s of (pt, w) \<Rightarrow>
          if is_mine w (o_addr out) then
            (pt\<lparr>pt_any := True, pt_delta := add_delta (o_asset out) (sint (o_value out)) (pt_delta pt)\<rparr>,
             w_add_coin cr \<lparr>wc_op = OutPoint tid n, wc_out = out, wc_height = height, wc_coinbase = cb, wc_locked = False\<rparr> w)
          else if pt_counterparty pt = [] then (pt\<lparr>pt_counterparty := address_string w (o_addr out)\<rparr>, w)
          else (pt, w))"

text \<open>The kind of a transaction and the QNT its operations release (negative: absorb).\<close>

fun op_kind :: "tx_op \<Rightarrow> string \<times> int \<Rightarrow> string \<times> int" where
  "op_kind (OpMessage from to gift txt) (kind, q) =
     (if kind = [] \<or> kind = ''send'' \<or> kind = ''receive'' then ((if gift \<noteq> 0 then ''gift'' else ''message''), q) else (kind, q))"
| "op_kind (OpCreateToken ticker name decimals supply uri) (kind, q) = (''token-create'', q)"
| "op_kind (OpSwap token sell inp out) (kind, q) = (''swap'', q + (if sell then sint out else - sint inp))"
| "op_kind (OpPoolCreate token qnt tok shares) (kind, q) = (''liquidity'', q - sint qnt)"
| "op_kind (OpAddLiquidity token qnt tok shares) (kind, q) = (''liquidity'', q - sint qnt)"
| "op_kind (OpRemoveLiquidity token shares qnt tok) (kind, q) = (''liquidity'', q + sint qnt)"

definition process_tx :: "crypto \<Rightarrow> transaction \<Rightarrow> int \<Rightarrow> int \<Rightarrow> wallet \<Rightarrow> wallet" where
  "process_tx cr tx height time wl =
     (let tid = txid cr tx;
          (pt, w) = process_ins height (ins tx)
            (\<lparr>pt_delta = [], pt_qnt_in = 0, pt_any = False, pt_all_ours = \<not> is_coinbase tx, pt_counterparty = []\<rparr>, wl);
          (pt, w) = process_outs cr tid height (is_coinbase tx) 0 (outs tx) (pt, w)
      in if \<not> pt_any pt then w
         else
           (let t = (case map_of (w_history w) tid of None \<Rightarrow> blank_tx | Some t \<Rightarrow> t);
                t = t\<lparr>wt_time := (if hash_is_zero (wt_txid t) then time else wt_time t), wt_txid := tid, wt_height := height,
                      wt_delta := delta_of (pt_delta pt) QNT_ASSET,
                      wt_token_delta := filter (\<lambda>(a, d). \<not> hash_is_zero a \<and> d \<noteq> 0) (walk (pt_delta pt)),
                      wt_coinbase := is_coinbase tx,
                      wt_counterparty := (if pt_counterparty pt \<noteq> [] then pt_counterparty pt else wt_counterparty t)\<rparr>;
                (kind, op_q) = fold op_kind (ops tx) (wt_kind t, 0);
                f = sint (pt_qnt_in pt) + op_q - sint (total_qnt_out tx);
                t = t\<lparr>wt_kind := kind,
                      wt_fee := (if pt_all_ours pt \<and> pt_qnt_in pt > 0 then (if f > 0 then word_of_int f else 0) else wt_fee t)\<rparr>
            in w\<lparr>w_history := AList.update tid t (w_history w)\<rparr>))"

definition block_connected :: "crypto \<Rightarrow> block \<Rightarrow> int \<Rightarrow> wallet \<Rightarrow> wallet" where
  "block_connected cr b height w =
     (fold (\<lambda>tx. process_tx cr tx height (sint (h_time (header b)))) (txs b) w)
       \<lparr>w_synced_tip := header_hash cr (header b), w_synced_height := height\<rparr>"

definition disconnect_entry :: "crypto \<Rightarrow> transaction \<Rightarrow> wallet \<Rightarrow> wallet" where
  "disconnect_entry cr tx w =
     (case map_of (w_history w) (txid cr tx) of
        None \<Rightarrow> w
      | Some t \<Rightarrow>
          if is_coinbase tx then w\<lparr>w_history := AList.delete (txid cr tx) (w_history w)\<rparr>
          else w\<lparr>w_history := AList.update (txid cr tx) (t\<lparr>wt_height := -1\<rparr>) (w_history w)\<rparr>)"

definition block_disconnected :: "crypto \<Rightarrow> block \<Rightarrow> int \<Rightarrow> wallet \<Rightarrow> wallet" where
  "block_disconnected cr b height w =
     (fold (disconnect_entry cr) (txs b) w)\<lparr>w_synced_tip := h_prev (header b), w_synced_height := height - 1\<rparr>"

text \<open>The save at the end of \<open>tx_broadcast\<close> leaves the wallet as it is.\<close>

definition tx_broadcast :: "crypto \<Rightarrow> int \<Rightarrow> transaction \<Rightarrow> string \<Rightarrow> wallet \<Rightarrow> wallet" where
  "tx_broadcast cr now tx note wl =
     (let w = process_tx cr tx (-1) now wl in
      case map_of (w_history w) (txid cr tx) of
        None \<Rightarrow> w
      | Some t \<Rightarrow> if note \<noteq> [] then w\<lparr>w_history := AList.update (txid cr tx) (t\<lparr>wt_note := note\<rparr>) (w_history w)\<rparr> else w)"

definition abandon_unconfirmed :: "wallet \<Rightarrow> wallet" where
  "abandon_unconfirmed w =
     w\<lparr>w_coins := filter (\<lambda>(p, c). \<not> wc_height c < 0) (map (\<lambda>(p, c). (p, c\<lparr>wc_locked := False\<rparr>)) (w_coins w)),
       w_history := filter (\<lambda>(h, t). \<not> wt_height t < 0) (w_history w)\<rparr>"

end
