(* ===== verification/Wallet_Laws.thy ===== *)
theory Wallet_Laws
  imports Wallet "HOL-Library.Sublist"
begin

text \<open>
  The wallet keeps its invariant: the keys are the ones its seed derives, in order; the address index
  finds exactly them; twenty addresses are watched beyond the last one in use; the coins are filed under
  their outpoints. What a transaction does to the coins.
\<close>

section \<open>The invariant\<close>

definition same_key :: "wallet_key \<Rightarrow> wallet_key \<Rightarrow> bool" where
  "same_key k d \<longleftrightarrow> wk_index k = wk_index d \<and> wk_pk k = wk_pk d \<and> wk_sk k = wk_sk d \<and> wk_addr k = wk_addr d"

definition keys_ok :: "crypto \<Rightarrow> wallet \<Rightarrow> bool" where
  "keys_ok cr w \<longleftrightarrow> length (w_keys w) < 2 ^ 32 \<and> unat (w_next_index w) + 20 \<le> length (w_keys w)
     \<and> (\<forall>i<length (w_keys w). same_key (w_keys w ! i) (derive_key cr (w_master w) (of_nat i)))"

definition index_of_ok :: "wallet \<Rightarrow> bool" where
  "index_of_ok w \<longleftrightarrow>
     (\<forall>a i. map_of (w_by_addr w) a = Some i \<longrightarrow> i < length (watched_addresses w) \<and> watched_addresses w ! i = a)
     \<and> (\<forall>a\<in>set (watched_addresses w). map_of (w_by_addr w) a \<noteq> None)"

lemma length_watched [simp]: "length (watched_addresses w) = length (w_keys w)"
  by (simp add: watched_addresses_def)

lemma index_of_cong: "watched_addresses w' = watched_addresses w \<Longrightarrow> w_by_addr w' = w_by_addr w \<Longrightarrow> index_of_ok w' = index_of_ok w"
  unfolding index_of_ok_def by simp

definition coins_keyed :: "wallet \<Rightarrow> bool" where
  "coins_keyed w \<longleftrightarrow> al_distinct (w_coins w) \<and> (\<forall>p c. map_of (w_coins w) p = Some c \<longrightarrow> wc_op c = p)"

definition wallet_ok :: "crypto \<Rightarrow> wallet \<Rightarrow> bool" where
  "wallet_ok cr w \<longleftrightarrow> keys_ok cr w \<and> index_of_ok w \<and> coins_keyed w"

lemma wallet_ok_coins [simp]: "coins_keyed w' \<Longrightarrow> w_keys w' = w_keys w \<Longrightarrow> w_next_index w' = w_next_index w \<Longrightarrow>
    w_by_addr w' = w_by_addr w \<Longrightarrow> w_master w' = w_master w \<Longrightarrow> wallet_ok cr w \<Longrightarrow> wallet_ok cr w'"
  using index_of_cong [of w' w] by (simp add: wallet_ok_def keys_ok_def watched_addresses_def)

text \<open>The address of every key is watched, and nothing else is.\<close>

lemma is_mine_watched: "index_of_ok w \<Longrightarrow> is_mine w a \<longleftrightarrow> a \<in> set (watched_addresses w)"
  by (fastforce simp: is_mine_def index_of_ok_def in_set_conv_nth)

lemma index_ofD: "index_of_ok w \<Longrightarrow> map_of (w_by_addr w) a = Some i \<Longrightarrow> i < length (w_keys w) \<and> wk_addr (w_keys w ! i) = a"
  by (auto simp: index_of_ok_def watched_addresses_def) (metis nth_map)

section \<open>Deriving keys\<close>

text \<open>\<open>grows w w'\<close>: nothing is lost, and only keys are added.\<close>

definition grows :: "wallet \<Rightarrow> wallet \<Rightarrow> bool" where
  "grows w w' \<longleftrightarrow> prefix (watched_addresses w) (watched_addresses w') \<and> w_master w' = w_master w \<and> w_p w' = w_p w"

lemma grows_refl [simp]: "grows w w"
  by (simp add: grows_def)

lemma grows_trans [trans]: "grows a b \<Longrightarrow> grows b c \<Longrightarrow> grows a c"
  by (auto simp: grows_def intro: prefix_order.trans)

lemma grows_mine: "grows w w' \<Longrightarrow> index_of_ok w \<Longrightarrow> index_of_ok w' \<Longrightarrow> is_mine w a \<Longrightarrow> is_mine w' a"
  by (auto simp: is_mine_watched grows_def prefix_def)

definition derived :: "crypto \<Rightarrow> wallet \<Rightarrow> bool" where
  "derived cr w \<longleftrightarrow> (\<forall>i<length (w_keys w). same_key (w_keys w ! i) (derive_key cr (w_master w) (of_nat i)))"

lemma derive_key_simps [simp]: "wk_index (derive_key cr m i) = i" "wk_label (derive_key cr m i) = []" "\<not> wk_issued (derive_key cr m i)"
  by (simp_all add: derive_key_def split: prod.splits)

lemma push_key_index: "index_of_ok w \<Longrightarrow> index_of_ok (push_key k w)"
proof -
  have "watched_addresses (push_key k w) = watched_addresses w @ [wk_addr k]"
    "w_by_addr (push_key k w) = AList.update (wk_addr k) (length (watched_addresses w)) (w_by_addr w)"
    by (simp_all add: push_key_def watched_addresses_def)
  then show "index_of_ok w \<Longrightarrow> ?thesis" by (auto simp: index_of_ok_def update_conv' nth_append less_Suc_eq simp del: length_watched)
qed

lemma push_key_derived: "derived cr w \<Longrightarrow> derived cr (push_key (derive_key cr (w_master w) (of_nat (length (w_keys w)))) w)"
  by (auto simp: derived_def push_key_def nth_append same_key_def less_Suc_eq)

lemma derive_more_law:
  assumes "derived cr w" "index_of_ok w"
  shows "derived cr (derive_more cr n w) \<and> index_of_ok (derive_more cr n w) \<and> grows w (derive_more cr n w)
    \<and> length (w_keys (derive_more cr n w)) = length (w_keys w) + n
    \<and> w_next_index (derive_more cr n w) = w_next_index w \<and> w_coins (derive_more cr n w) = w_coins w
    \<and> w_history (derive_more cr n w) = w_history w"
  using assms
proof (induction n arbitrary: w)
  case (Suc n)
  let ?w = "push_key (derive_key cr (w_master w) (of_nat (length (w_keys w)))) w"
  have "grows w ?w" by (simp add: grows_def push_key_def watched_addresses_def)
  moreover have "w_next_index ?w = w_next_index w" "w_coins ?w = w_coins w" "w_history ?w = w_history w" "length (w_keys ?w) = Suc (length (w_keys w))"
    by (simp_all add: push_key_def)
  ultimately show ?case
    using Suc.IH [OF push_key_derived [OF Suc.prems(1)] push_key_index [OF Suc.prems(2)]] grows_trans by auto
qed simp

lemma derive_until_law:
  assumes "derived cr w" "index_of_ok w"
  shows "derived cr (derive_until cr n w)" "index_of_ok (derive_until cr n w)" "grows w (derive_until cr n w)"
    "length (w_keys (derive_until cr n w)) = max (unat n) (length (w_keys w))"
    "w_next_index (derive_until cr n w) = w_next_index w" "w_coins (derive_until cr n w) = w_coins w"
    "w_history (derive_until cr n w) = w_history w"
  using derive_more_law [OF assms, of "unat n - length (w_keys w)"] by (auto simp: derive_until_def)

lemma upd_key_law:
  assumes "\<And>k. same_key (f k) k"
  shows "derived cr (upd_key i f w) = derived cr w" "index_of_ok (upd_key i f w) = index_of_ok w"
    "watched_addresses (upd_key i f w) = watched_addresses w"
proof -
  let ?ks = "(w_keys w)[i := f (w_keys w ! i)]"
  have n: "same_key (?ks ! j) (w_keys w ! j)" if "j < length (w_keys w)" for j
    using assms that by (cases "i = j") (simp_all add: same_key_def)
  show "derived cr (upd_key i f w) = derived cr w"
    using n by (auto simp: derived_def upd_key_def same_key_def)
  show addrs: "watched_addresses (upd_key i f w) = watched_addresses w"
    unfolding watched_addresses_def upd_key_def using n by (intro nth_equalityI) (auto simp: same_key_def)
  show "index_of_ok (upd_key i f w) = index_of_ok w" by (rule index_of_cong [OF addrs]) (simp add: upd_key_def)
qed

section \<open>Operations keep the invariant\<close>

lemma wallet_ok_parts: "wallet_ok cr w \<longleftrightarrow> derived cr w \<and> index_of_ok w \<and> coins_keyed w
    \<and> length (w_keys w) < 2 ^ 32 \<and> unat (w_next_index w) + 20 \<le> length (w_keys w)"
  by (auto simp: wallet_ok_def keys_ok_def derived_def)

lemma coins_keyed_eq: "w_coins w' = w_coins w \<Longrightarrow> coins_keyed w' = coins_keyed w"
  by (simp add: coins_keyed_def)

lemma same_key_label [simp]: "same_key (k\<lparr>wk_issued := b, wk_label := l\<rparr>) k" "same_key (k\<lparr>wk_label := l\<rparr>) k"
  by (simp_all add: same_key_def)

text \<open>There are far fewer keys than indices; \<open>room\<close> is what an operation may need.\<close>

definition room :: "wallet \<Rightarrow> bool" where
  "room w \<longleftrightarrow> length (w_keys w) + 64 < 2 ^ 32"

lemma new_address_law:
  assumes "derived cr w" "index_of_ok w" "coins_keyed w" "room w" "unat (w_next_index w) \<le> length (w_keys w)"
  shows "wallet_ok cr (snd (new_address cr label w))" "grows w (snd (new_address cr label w))"
    "\<exists>a. fst (new_address cr label w) = address_string w a \<and> is_mine (snd (new_address cr label w)) a
       \<and> wk_addr (derive_key cr (w_master w) (w_next_index w)) = a"
    "w_coins (snd (new_address cr label w)) = w_coins w" "w_history (snd (new_address cr label w)) = w_history w"
    "w_next_index (snd (new_address cr label w)) = w_next_index w + 1"
    "length (w_keys (snd (new_address cr label w))) \<le> max (length (w_keys w)) (unat (w_next_index w) + 21)"
proof -
  define w1 where "w1 = derive_until cr (w_next_index w + 1 + LOOKAHEAD) w"
  define i where "i = unat (w_next_index w)"
  define w2 where "w2 = upd_key i (\<lambda>k. k\<lparr>wk_issued := True, wk_label := label\<rparr>) (w1\<lparr>w_next_index := w_next_index w + 1\<rparr>)"
  note d = derive_until_law [OF assms(1,2), of "w_next_index w + 1 + LOOKAHEAD", folded w1_def]
  have u: "unat (w_next_index w + 1 + LOOKAHEAD) = i + 21" "unat (w_next_index w + 1) = i + 1"
    using assms(4,5) by (simp_all add: LOOKAHEAD_def room_def i_def unat_word_ariths)
  have len: "length (w_keys w1) = max (i + 21) (length (w_keys w))" using d(4) u by simp
  have r: "new_address cr label w = (address_string w2 (wk_addr (w_keys w2 ! i)), w2)"
    by (simp add: new_address_def w1_def [symmetric] w2_def i_def d(5) Let_def)
  have b: "derived cr (w1\<lparr>w_next_index := n\<rparr>) = derived cr w1" "watched_addresses (w1\<lparr>w_next_index := n\<rparr>) = watched_addresses w1"
    "index_of_ok (w1\<lparr>w_next_index := n\<rparr>) = index_of_ok w1" for n
    by (simp_all add: derived_def watched_addresses_def index_of_ok_def)
  have w2: "derived cr w2" "index_of_ok w2" "watched_addresses w2 = watched_addresses w1"
    unfolding w2_def using upd_key_law [of "\<lambda>k. k\<lparr>wk_issued := True, wk_label := label\<rparr>"] b d(1,2) by simp_all
  have f: "w_coins w2 = w_coins w" "w_history w2 = w_history w" "w_next_index w2 = w_next_index w + 1" "length (w_keys w2) = length (w_keys w1)"
    "w_master w2 = w_master w" "w_p w2 = w_p w"
    using d by (simp_all add: w2_def upd_key_def grows_def)
  show "wallet_ok cr (snd (new_address cr label w))"
    using w2 f assms(3,4) len u coins_keyed_eq [OF f(1)] by (simp add: r wallet_ok_parts room_def i_def) (use assms(5) in linarith)
  show "grows w (snd (new_address cr label w))" using d(3) w2(3) f by (simp add: r grows_def)
  have li: "i < length (w_keys w2)" using len f(4) by simp
  have "same_key (w_keys w2 ! i) (derive_key cr (w_master w) (w_next_index w))"
    using w2(1) li f(5) by (auto simp: derived_def i_def)
  moreover have "is_mine w2 (wk_addr (w_keys w2 ! i))"
    using is_mine_watched [OF w2(2)] li by (auto simp: watched_addresses_def)
  ultimately show "\<exists>a. fst (new_address cr label w) = address_string w a \<and> is_mine (snd (new_address cr label w)) a
       \<and> wk_addr (derive_key cr (w_master w) (w_next_index w)) = a"
    by (simp add: r address_string_def f(6) same_key_def)
  show "w_coins (snd (new_address cr label w)) = w_coins w" "w_history (snd (new_address cr label w)) = w_history w"
    "w_next_index (snd (new_address cr label w)) = w_next_index w + 1"
    "length (w_keys (snd (new_address cr label w))) \<le> max (length (w_keys w)) (unat (w_next_index w) + 21)"
    using f len by (simp_all add: r i_def)
qed

text \<open>A wallet that was just created.\<close>

lemma wallet_fresh_ok: "wallet_ok cr (wallet_fresh cr path p mnemonic passphrase password birth)"
  and wallet_fresh_keys: "length (w_keys (wallet_fresh cr path p mnemonic passphrase password birth)) = 21"
    "w_master (wallet_fresh cr path p mnemonic passphrase password birth) = mnemonic_to_master cr (mnemonic_normalize mnemonic) passphrase"
proof -
  define w where "w = (blank_wallet p)\<lparr>w_path := path, w_password := password, w_mnemonic := mnemonic_normalize mnemonic, w_passphrase := passphrase,
                w_master := mnemonic_to_master cr (mnemonic_normalize mnemonic) passphrase, w_birth_height := birth\<rparr>"
  define w1 where "w1 = derive_until cr LOOKAHEAD w"
  have o: "derived cr w" "index_of_ok w" "coins_keyed w" "w_keys w = []" "w_next_index w = 0" "w_coins w = []"
    by (simp_all add: w_def blank_wallet_def derived_def index_of_ok_def watched_addresses_def coins_keyed_def al_distinct_def)
  note d = derive_until_law [OF o(1,2), of LOOKAHEAD, folded w1_def]
  have k: "derived cr w1" "index_of_ok w1" "coins_keyed w1" "room w1" "unat (w_next_index w1) \<le> length (w_keys w1)"
    using d o coins_keyed_eq [of w1 w] by (simp_all add: room_def LOOKAHEAD_def)
  have e: "wallet_fresh cr path p mnemonic passphrase password birth = snd (new_address cr ''default'' w1)"
    by (simp add: wallet_fresh_def Let_def w_def w1_def)
  show "wallet_ok cr (wallet_fresh cr path p mnemonic passphrase password birth)"
    unfolding e by (rule new_address_law(1) [OF k])
  show "w_master (wallet_fresh cr path p mnemonic passphrase password birth) = mnemonic_to_master cr (mnemonic_normalize mnemonic) passphrase"
    unfolding e using new_address_law(2) [OF k, of "''default''"] d(3) by (simp add: grows_def w_def)
  show "length (w_keys (wallet_fresh cr path p mnemonic passphrase password birth)) = 21"
    using derive_until_law(4,5) [OF k(1,2), of "w_next_index w1 + 1 + LOOKAHEAD"] d(4,5) o
    unfolding e by (simp add: new_address_def Let_def upd_key_def LOOKAHEAD_def)
qed

lemma add_coin_law:
  assumes "wallet_ok cr w" "room w"
  shows "wallet_ok cr (w_add_coin cr c w)" "grows w (w_add_coin cr c w)"
    "w_coins (w_add_coin cr c w) = AList.update (wc_op c) c (w_coins w)" "w_history (w_add_coin cr c w) = w_history w"
    "length (w_keys (w_add_coin cr c w)) \<le> length (w_keys w) + 20"
proof -
  define w1 where "w1 = w\<lparr>w_coins := AList.update (wc_op c) c (w_coins w)\<rparr>"
  have k1: "coins_keyed w1" using assms(1) by (auto simp: w1_def wallet_ok_def coins_keyed_def update_conv' split: if_splits)
  have o1: "derived cr w1" "index_of_ok w1" "watched_addresses w1 = watched_addresses w" "unat (w_next_index w1) + 20 \<le> length (w_keys w1)"
    using assms(1) index_of_cong [of w1 w] by (simp_all add: w1_def wallet_ok_parts derived_def watched_addresses_def)
  have "wallet_ok cr (w_add_coin cr c w) \<and> grows w (w_add_coin cr c w)
    \<and> w_coins (w_add_coin cr c w) = AList.update (wc_op c) c (w_coins w) \<and> w_history (w_add_coin cr c w) = w_history w
    \<and> length (w_keys (w_add_coin cr c w)) \<le> length (w_keys w) + 20"
  proof (cases "map_of (w_by_addr w) (o_addr (wc_out c))")
    case None
    then have "w_add_coin cr c w = w1" by (simp add: w_add_coin_def w1_def)
    then show ?thesis using o1 k1 assms by (simp add: wallet_ok_parts grows_def) (simp add: w1_def)
  next
    case (Some i)
    let ?k = "w_keys w ! i"
    define f :: "wallet_key \<Rightarrow> wallet_key" where "f = (\<lambda>k. k\<lparr>wk_issued := True, wk_label := (if wk_label k = [] then ''restored'' else wk_label k)\<rparr>)"
    define w2 where "w2 = (if \<not> wk_issued ?k then upd_key i f w1 else w1)"
    define w3 where "w3 = (if wk_index ?k \<ge> w_next_index w2 then w2\<lparr>w_next_index := wk_index ?k + 1\<rparr> else w2)"
    have e: "w_add_coin cr c w = derive_until cr (w_next_index w3 + LOOKAHEAD) w3"
      using Some by (simp add: w_add_coin_def w1_def w2_def w3_def f_def Let_def)
    have i: "i < length (w_keys w)" "wk_index ?k = of_nat i"
      using Some assms(1) by (auto simp: wallet_ok_parts derived_def same_key_def dest: index_ofD)
    have o2: "derived cr w2" "index_of_ok w2" "watched_addresses w2 = watched_addresses w" "length (w_keys w2) = length (w_keys w)"
      "w_next_index w2 = w_next_index w" "w_coins w2 = w_coins w1" "w_history w2 = w_history w" "w_master w2 = w_master w" "w_p w2 = w_p w"
      using upd_key_law [where f = f and i = i and w = w1] o1 by (simp_all add: w2_def f_def upd_key_def same_key_def w1_def)
    have o3: "derived cr w3" "index_of_ok w3" "watched_addresses w3 = watched_addresses w" "length (w_keys w3) = length (w_keys w)"
      "w_coins w3 = w_coins w1" "w_history w3 = w_history w" "w_master w3 = w_master w" "w_p w3 = w_p w"
      using o2 index_of_cong [of w3 w2] by (simp_all add: w3_def derived_def watched_addresses_def)
    have "unat (of_nat i + 1 :: u32) = i + 1" using i(1) assms(2) by (simp add: room_def unat_word_ariths unat_of_nat)
    then have n: "unat (w_next_index w3) \<le> length (w_keys w)"
      using i o2(5) assms(1) by (auto simp: w3_def wallet_ok_parts)
    then have u: "unat (w_next_index w3 + LOOKAHEAD) = unat (w_next_index w3) + 20"
      using assms(2) by (simp add: LOOKAHEAD_def room_def unat_word_ariths)
    note d = derive_until_law [OF o3(1,2), of "w_next_index w3 + LOOKAHEAD"]
    have "coins_keyed (derive_until cr (w_next_index w3 + LOOKAHEAD) w3)" using k1 d(6) o3(5) coins_keyed_eq by metis
    then show ?thesis
      using d o3 n u assms(2) by (simp add: e wallet_ok_parts grows_def room_def w1_def)
  qed
  then show "wallet_ok cr (w_add_coin cr c w)" "grows w (w_add_coin cr c w)"
    "w_coins (w_add_coin cr c w) = AList.update (wc_op c) c (w_coins w)" "w_history (w_add_coin cr c w) = w_history w"
    "length (w_keys (w_add_coin cr c w)) \<le> length (w_keys w) + 20" by blast+
qed

section \<open>What a transaction does to the coins\<close>

lemma process_ins_law:
  assumes "process_ins height is (pt, w) = (pt', w')" "coins_keyed w"
  shows "coins_keyed w' \<and> w_keys w' = w_keys w \<and> w_next_index w' = w_next_index w \<and> w_by_addr w' = w_by_addr w
    \<and> w_master w' = w_master w \<and> w_p w' = w_p w \<and> w_history w' = w_history w
    \<and> (\<forall>p. p \<notin> prev ` set is \<longrightarrow> map_of (w_coins w') p = map_of (w_coins w) p)
    \<and> (height \<ge> 0 \<longrightarrow> (\<forall>p\<in>prev ` set is. map_of (w_coins w') p = None))
    \<and> (height < 0 \<longrightarrow> (\<forall>p\<in>prev ` set is. map_of (w_coins w') p = map_option (\<lambda>c. c\<lparr>wc_locked := True\<rparr>) (map_of (w_coins w) p)))"
  using assms
proof (induction "is" arbitrary: pt w)
  case (Cons i "is")
  obtain pt1 w1 where s: "process_ins height is (pt1, w1) = (pt', w')" 
    "w1 = (case map_of (w_coins w) (prev i) of None \<Rightarrow> w
        | Some c \<Rightarrow> if height < 0 then w\<lparr>w_coins := AList.update (prev i) (c\<lparr>wc_locked := True\<rparr>) (w_coins w)\<rparr> else remove_coin (prev i) w)"
    using Cons.prems(1) by (auto split: option.splits)
  have k: "coins_keyed w1" using Cons.prems(2) s(2)
    by (auto simp: coins_keyed_def remove_coin_def update_conv' delete_conv' split: option.splits if_splits)
  have f: "w_keys w1 = w_keys w" "w_next_index w1 = w_next_index w" "w_by_addr w1 = w_by_addr w" "w_master w1 = w_master w"
    "w_p w1 = w_p w" "w_history w1 = w_history w" using s(2) by (auto simp: remove_coin_def split: option.splits)
  have c: "map_of (w_coins w1) p = (if p = prev i then
      (if height < 0 then map_option (\<lambda>c. c\<lparr>wc_locked := True\<rparr>) (map_of (w_coins w) p) else None) else map_of (w_coins w) p)" for p
    using s(2) by (auto simp: remove_coin_def update_conv' delete_conv' split: option.splits)
  from Cons.IH [OF s(1) k] f show ?case by (auto simp: c option.map_comp comp_def image_iff split: if_splits)
qed simp

lemma process_outs_law:
  assumes "process_outs cr tid height cb n os (pt, w) = (pt', w')" "wallet_ok cr w"
    "length (w_keys w) + 20 * length os + 64 < 2 ^ 32" "unat n + length os \<le> 2 ^ 32"
  shows "wallet_ok cr w' \<and> grows w w' \<and> w_history w' = w_history w
    \<and> (\<forall>p. op_txid p \<noteq> tid \<or> unat (op_n p) < unat n \<longrightarrow> map_of (w_coins w') p = map_of (w_coins w) p)
    \<and> (\<forall>k<length os. is_mine w (o_addr (os ! k)) \<longrightarrow> map_of (w_coins w') (OutPoint tid (n + of_nat k)) =
        Some \<lparr>wc_op = OutPoint tid (n + of_nat k), wc_out = os ! k, wc_height = height, wc_coinbase = cb, wc_locked = False\<rparr>)
    \<and> (\<forall>p. map_of (w_coins w') p \<noteq> map_of (w_coins w) p \<longrightarrow> (\<exists>k<length os. p = OutPoint tid (n + of_nat k) \<and> is_mine w' (o_addr (os ! k))
        \<and> map_of (w_coins w') p = Some \<lparr>wc_op = p, wc_out = os ! k, wc_height = height, wc_coinbase = cb, wc_locked = False\<rparr>))"
  using assms
proof (induction os arbitrary: pt w n)
  case (Cons out os)
  let ?c = "\<lparr>wc_op = OutPoint tid n, wc_out = out, wc_height = height, wc_coinbase = cb, wc_locked = False\<rparr>"
  obtain pt1 w1 where s: "process_outs cr tid height cb (n + 1) os (pt1, w1) = (pt', w')"
    "w1 = (if is_mine w (o_addr out) then w_add_coin cr ?c w else w)"
    using Cons.prems(1) by (auto split: if_splits)
  have rm: "room w" using Cons.prems(3) by (simp add: room_def)
  have w1: "wallet_ok cr w1" "grows w w1" "w_history w1 = w_history w" "length (w_keys w1) \<le> length (w_keys w) + 20"
    using s(2) add_coin_law [OF Cons.prems(2) rm, of ?c] Cons.prems(2) by simp_all
  have n: "os = [] \<or> unat (n + 1) = unat n + 1" using Cons.prems(4) by (cases os) (simp_all add: unat_word_ariths)
  show ?case
  proof (cases "os = []")
    case True
    with s have "w' = w1" by simp
    moreover have "is_mine w a \<Longrightarrow> is_mine w1 a" for a
      using grows_mine [OF w1(2)] w1(1) Cons.prems(2) by (simp add: wallet_ok_parts)
    ultimately show ?thesis using w1 s(2) add_coin_law(3) [OF Cons.prems(2) rm, of ?c] True
      by (auto simp: update_conv' split: if_splits)
  next
    case False
    then have n: "unat (n + 1) = unat n + 1" using n by simp
    from Cons.IH [OF s(1) w1(1)] Cons.prems(3,4) w1(4) n
    have ih: "wallet_ok cr w'" "grows w1 w'" "w_history w' = w_history w1"
      "\<And>p. op_txid p \<noteq> tid \<or> unat (op_n p) < unat n + 1 \<Longrightarrow> map_of (w_coins w') p = map_of (w_coins w1) p"
      "\<And>k. k < length os \<Longrightarrow> is_mine w1 (o_addr (os ! k)) \<Longrightarrow> map_of (w_coins w') (OutPoint tid (n + 1 + of_nat k)) =
        Some \<lparr>wc_op = OutPoint tid (n + 1 + of_nat k), wc_out = os ! k, wc_height = height, wc_coinbase = cb, wc_locked = False\<rparr>"
      "\<And>p. map_of (w_coins w') p \<noteq> map_of (w_coins w1) p \<Longrightarrow> \<exists>k<length os. p = OutPoint tid (n + 1 + of_nat k) \<and> is_mine w' (o_addr (os ! k))
        \<and> map_of (w_coins w') p = Some \<lparr>wc_op = p, wc_out = os ! k, wc_height = height, wc_coinbase = cb, wc_locked = False\<rparr>"
      by auto
    have mine: "is_mine w a \<Longrightarrow> is_mine w1 a" for a
      using grows_mine [OF w1(2)] w1(1) Cons.prems(2) by (simp add: wallet_ok_parts)
    have c1: "map_of (w_coins w1) p = (if is_mine w (o_addr out) \<and> p = OutPoint tid n then Some ?c else map_of (w_coins w) p)" for p
      using s(2) add_coin_law(3) [OF Cons.prems(2) rm, of ?c] by (simp add: update_conv')
    have "map_of (w_coins w') (OutPoint tid (n + of_nat k)) =
        Some \<lparr>wc_op = OutPoint tid (n + of_nat k), wc_out = (out # os) ! k, wc_height = height, wc_coinbase = cb, wc_locked = False\<rparr>"
      if "k < length (out # os)" "is_mine w (o_addr ((out # os) ! k))" for k
    proof (cases k)
      case 0
      then show ?thesis using that ih(4) [of "OutPoint tid n"] c1 by simp
    next
      case (Suc j)
      then show ?thesis using that mine ih(5) [of j] by (simp add: add.assoc)
    qed
    moreover have "map_of (w_coins w') p = map_of (w_coins w) p" if "op_txid p \<noteq> tid \<or> unat (op_n p) < unat n" for p
      using that ih(4) [of p] c1 [of p] by auto
    moreover have "\<exists>k<length (out # os). p = OutPoint tid (n + of_nat k) \<and> is_mine w' (o_addr ((out # os) ! k))
        \<and> map_of (w_coins w') p = Some \<lparr>wc_op = p, wc_out = (out # os) ! k, wc_height = height, wc_coinbase = cb, wc_locked = False\<rparr>"
      if d: "map_of (w_coins w') p \<noteq> map_of (w_coins w) p" for p
    proof (cases "map_of (w_coins w') p = map_of (w_coins w1) p")
      case False
      then obtain k where "k < length os" "p = OutPoint tid (n + 1 + of_nat k)" "is_mine w' (o_addr (os ! k))"
        "map_of (w_coins w') p = Some \<lparr>wc_op = p, wc_out = os ! k, wc_height = height, wc_coinbase = cb, wc_locked = False\<rparr>"
        using ih(6) by blast
      then show ?thesis by (intro exI [of _ "Suc k"]) (simp add: add.assoc)
    next
      case True
      then have p: "is_mine w (o_addr out)" "p = OutPoint tid n" "map_of (w_coins w') p = Some ?c"
        using d c1 [of p] by (auto split: if_splits)
      have "is_mine w' (o_addr out)"
        using mine [OF p(1)] grows_mine [OF ih(2)] ih(1) w1(1) by (simp add: wallet_ok_parts)
      with p show ?thesis by (intro exI [of _ 0]) simp
    qed
    ultimately show ?thesis using ih(1-3) w1(2,3) grows_trans by auto
  qed
qed simp

text \<open>A confirmed transaction: the coins it spends are gone, every output to an address of the wallet is
  there, and no other coin changes.\<close>

lemma process_tx_law:
  assumes ok: "wallet_ok cr w" and h: "0 \<le> height" and sz: "length (outs tx) \<le> 10000" "length (w_keys w) + 200064 < 2 ^ 32"
    and fr: "\<forall>p\<in>prev ` set (ins tx). op_txid p \<noteq> txid cr tx"
  shows "wallet_ok cr (process_tx cr tx height time w)" "grows w (process_tx cr tx height time w)"
    and "p \<in> prev ` set (ins tx) \<Longrightarrow> map_of (w_coins (process_tx cr tx height time w)) p = None"
    and "p \<notin> prev ` set (ins tx) \<Longrightarrow> op_txid p \<noteq> txid cr tx \<Longrightarrow>
      map_of (w_coins (process_tx cr tx height time w)) p = map_of (w_coins w) p"
    and "k < length (outs tx) \<Longrightarrow> is_mine w (o_addr (outs tx ! k)) \<Longrightarrow>
      map_of (w_coins (process_tx cr tx height time w)) (OutPoint (txid cr tx) (of_nat k)) =
        Some \<lparr>wc_op = OutPoint (txid cr tx) (of_nat k), wc_out = outs tx ! k, wc_height = height,
              wc_coinbase = is_coinbase tx, wc_locked = False\<rparr>"
    and "p \<notin> prev ` set (ins tx) \<Longrightarrow> map_of (w_coins (process_tx cr tx height time w)) p \<noteq> map_of (w_coins w) p \<Longrightarrow>
      \<exists>k<length (outs tx). p = OutPoint (txid cr tx) (of_nat k) \<and> is_mine (process_tx cr tx height time w) (o_addr (outs tx ! k))
        \<and> map_of (w_coins (process_tx cr tx height time w)) p =
          Some \<lparr>wc_op = p, wc_out = outs tx ! k, wc_height = height, wc_coinbase = is_coinbase tx, wc_locked = False\<rparr>"
proof -
  obtain pt1 w1 where i: "process_ins height (ins tx)
      (\<lparr>pt_delta = [], pt_qnt_in = 0, pt_any = False, pt_all_ours = \<not> is_coinbase tx, pt_counterparty = []\<rparr>, w) = (pt1, w1)" by force
  obtain pt2 w2 where o: "process_outs cr (txid cr tx) height (is_coinbase tx) 0 (outs tx) (pt1, w1) = (pt2, w2)" by force
  obtain hist where r: "process_tx cr tx height time w = w2\<lparr>w_history := hist\<rparr>"
  proof (cases "pt_any pt2")
    case False
    then have "process_tx cr tx height time w = w2\<lparr>w_history := w_history w2\<rparr>" using i o by (simp add: process_tx_def Let_def)
    then show ?thesis by (rule that)
  next
    case True
    define t0 where "t0 = (case map_of (w_history w2) (txid cr tx) of None \<Rightarrow> blank_tx | Some t \<Rightarrow> t)"
    obtain t where "process_tx cr tx height time w = w2\<lparr>w_history := AList.update (txid cr tx) t (w_history w2)\<rparr>"
      unfolding process_tx_def Let_def i o prod.case t0_def [symmetric] using True
      by (cases "fold op_kind (ops tx) (wt_kind t0, 0)") simp
    then show ?thesis by (rule that)
  qed
  have ck: "coins_keyed w" using ok by (simp add: wallet_ok_def)
  note li = process_ins_law [OF i ck]
  have ok1: "wallet_ok cr w1" using wallet_ok_coins [of w1 w] li ok by simp
  have g1: "grows w w1" "is_mine w1 = is_mine w" using li by (auto simp: grows_def watched_addresses_def is_mine_def fun_eq_iff)
  have lo: "wallet_ok cr w2 \<and> grows w1 w2 \<and> w_history w2 = w_history w1
    \<and> (\<forall>p. op_txid p \<noteq> txid cr tx \<or> unat (op_n p) < unat (0::u32) \<longrightarrow> map_of (w_coins w2) p = map_of (w_coins w1) p)
    \<and> (\<forall>k<length (outs tx). is_mine w1 (o_addr (outs tx ! k)) \<longrightarrow> map_of (w_coins w2) (OutPoint (txid cr tx) (0 + of_nat k)) =
        Some \<lparr>wc_op = OutPoint (txid cr tx) (0 + of_nat k), wc_out = outs tx ! k, wc_height = height, wc_coinbase = is_coinbase tx, wc_locked = False\<rparr>)
    \<and> (\<forall>p. map_of (w_coins w2) p \<noteq> map_of (w_coins w1) p \<longrightarrow> (\<exists>k<length (outs tx). p = OutPoint (txid cr tx) (0 + of_nat k)
        \<and> is_mine w2 (o_addr (outs tx ! k)) \<and> map_of (w_coins w2) p =
          Some \<lparr>wc_op = p, wc_out = outs tx ! k, wc_height = height, wc_coinbase = is_coinbase tx, wc_locked = False\<rparr>))"
    by (rule process_outs_law [OF o ok1]) (use li sz in auto)
  show "wallet_ok cr (process_tx cr tx height time w)"
    using lo wallet_ok_coins [of "w2\<lparr>w_history := hist\<rparr>" w2 cr] by (simp add: r wallet_ok_def coins_keyed_def)
  show "grows w (process_tx cr tx height time w)"
    using grows_trans [OF g1(1), of w2] lo by (simp add: r grows_def watched_addresses_def)
  show "map_of (w_coins (process_tx cr tx height time w)) p = None" if "p \<in> prev ` set (ins tx)"
    using that lo li h fr by (auto simp: r)
  show "map_of (w_coins (process_tx cr tx height time w)) p = map_of (w_coins w) p"
    if "p \<notin> prev ` set (ins tx)" "op_txid p \<noteq> txid cr tx" using that lo li by (simp add: r)
  show "map_of (w_coins (process_tx cr tx height time w)) (OutPoint (txid cr tx) (of_nat k)) =
        Some \<lparr>wc_op = OutPoint (txid cr tx) (of_nat k), wc_out = outs tx ! k, wc_height = height,
              wc_coinbase = is_coinbase tx, wc_locked = False\<rparr>"
    if "k < length (outs tx)" "is_mine w (o_addr (outs tx ! k))" using that lo g1(2) by (simp add: r)
  have m: "is_mine (w2\<lparr>w_history := hist\<rparr>) = is_mine w2" by (simp add: is_mine_def fun_eq_iff)
  show "\<exists>k<length (outs tx). p = OutPoint (txid cr tx) (of_nat k) \<and> is_mine (process_tx cr tx height time w) (o_addr (outs tx ! k))
        \<and> map_of (w_coins (process_tx cr tx height time w)) p =
          Some \<lparr>wc_op = p, wc_out = outs tx ! k, wc_height = height, wc_coinbase = is_coinbase tx, wc_locked = False\<rparr>"
    if "p \<notin> prev ` set (ins tx)" "map_of (w_coins (process_tx cr tx height time w)) p \<noteq> map_of (w_coins w) p"
    using that lo li m by (simp add: r)
qed

text \<open>Recovery: wallets with the same seed watch the same addresses, up to how many they have derived.\<close>

lemma same_seed_addresses:
  assumes "wallet_ok cr w" "wallet_ok cr w'" "w_master w = w_master w'" "length (w_keys w) \<le> length (w_keys w')"
  shows "prefix (watched_addresses w) (watched_addresses w')"
proof -
  have "watched_addresses w = take (length (w_keys w)) (watched_addresses w')"
    using assms by (intro nth_equalityI) (auto simp: watched_addresses_def wallet_ok_parts derived_def same_key_def)
  then show ?thesis by (metis take_is_prefix)
qed

end
