(* ===== verification/Wallet_Build.thy ===== *)
theory Wallet_Build
  imports Wallet_Laws Mempool
begin

text \<open>
  Building and signing transactions (\<open>src/src/wallet/wallet.cpp\<close>, \<open>build\<close> and the operations on top of it).
  A failure is the text of \<open>err\<close>; an exception of the signer is its message. The wallet comes back on
  failure too, because a fresh change address may have been handed out by then. \<open>__int128\<close> quantities are
  sums of fewer than \<open>2 ^ 63\<close> 64-bit amounts: integers. \<open>std::sort\<close> leaves the order of coins of equal value
  open; here they keep theirs. The closure \<open>finish\<close> of a plan takes the wallet, whose coins it may look at.
\<close>

section \<open>Sizes\<close>

definition estimate_size :: "nat \<Rightarrow> nat \<Rightarrow> nat \<Rightarrow> nat \<Rightarrow> nat" where
  "estimate_size n_in n_unique n_out n_ops =
     (let core = 8 + n_in * (32 + 5) + n_out * (9 + 33 + 32) + n_ops * 160 + 4;
          sig = 1 + FALCON_PK_BYTES + 2 + FALCON_SIG_MAX
      in core + 3 + n_unique * sig + (n_in - n_unique) * 4)"

section \<open>Signing\<close>

definition falcon_sign :: "crypto \<Rightarrow> bytes \<Rightarrow> hash256 \<Rightarrow> bytes result" where
  "falcon_sign cr sk msg =
     (if length sk \<noteq> FALCON_SK_BYTES then Inl ''bad falcon sk''
      else (case falcon_sign_lib cr msg sk of None \<Rightarrow> Inl ''falcon sign failed'' | Some sig \<Rightarrow> Inr sig))"

primrec sign_loop :: "crypto \<Rightarrow> wallet \<Rightarrow> hash256 \<Rightarrow> u32 \<Rightarrow> (hash256 \<times> u32) list \<Rightarrow> wallet_coin list \<Rightarrow> witness list result" where
  "sign_loop cr w sighash i first_use [] = Inr []"
| "sign_loop cr w sighash i first_use (c # cs) =
     (let a = o_addr (wc_out c) in
      case map_of first_use a of
        Some f \<Rightarrow> rbind (sign_loop cr w sighash (i + 1) first_use cs) (\<lambda>ws. Inr (WitnessRef f # ws))
      | None \<Rightarrow>
          (case map_of (w_by_addr w) a of
             None \<Rightarrow> Inl ''missing key''
           | Some k \<Rightarrow>
               rbind (falcon_sign cr (wk_sk (w_keys w ! k)) sighash) (\<lambda>sig.
               rbind (sign_loop cr w sighash (i + 1) ((a, i) # first_use) cs) (\<lambda>ws.
               Inr (WitnessFalcon (wk_pk (w_keys w ! k)) sig # ws)))))"

definition sign_tx :: "crypto \<Rightarrow> wallet \<Rightarrow> wallet_coin list \<Rightarrow> transaction \<Rightarrow> transaction result" where
  "sign_tx cr w inputs tx =
     rbind (sign_loop cr w (signature_hash cr (genesis_hash (w_p w)) (txid cr tx)) 0 [] inputs) (\<lambda>ws. Inr (tx\<lparr>wits := ws\<rparr>))"

definition change_addr :: "crypto \<Rightarrow> wallet \<Rightarrow> hash256 \<times> wallet" where
  "change_addr cr w =
     (let (ca, w) = new_address cr ''(change)'' w
      in ((case decode_address (w_p w) ca of None \<Rightarrow> hash_zero | Some (v, h) \<Rightarrow> h), w))"

section \<open>Plans\<close>

record plan =
  pl_outs :: "txout list"
  pl_ops :: "tx_op list"
  pl_op_in :: "(hash256 \<times> amount) list"
  pl_op_out :: "(hash256 \<times> amount) list"
  pl_finish :: "wallet \<Rightarrow> transaction \<Rightarrow> transaction"
  pl_extra_outs :: nat
  pl_subtract_fee :: bool
  pl_sweep :: bool
  pl_sweep_coins :: "wallet_coin list"

definition blank_plan :: plan where
  "blank_plan = \<lparr>pl_outs = [], pl_ops = [], pl_op_in = [], pl_op_out = [], pl_finish = \<lambda>w tx. tx, pl_extra_outs = 0,
     pl_subtract_fee = False, pl_sweep = False, pl_sweep_coins = []\<rparr>"

definition spendable :: "wallet \<Rightarrow> int \<Rightarrow> wallet_coin \<Rightarrow> bool" where
  "spendable w tp c \<longleftrightarrow> \<not> wc_locked c \<and> wc_height c \<ge> 0 \<and> mature_coin c tp (coinbase_maturity (w_p w))"

text \<open>Net amount each asset needs from the coins: outputs, plus absorbed by operations, less released by them.\<close>

definition needs :: "plan \<Rightarrow> (hash256 \<times> int) list" where
  "needs pl =
     (let m = fold (\<lambda>out. add_delta (o_asset out) (uint (o_value out))) (pl_outs pl) [];
          m = fold (\<lambda>(a, v). add_delta a (uint v)) (pl_op_in pl) m
      in fold (\<lambda>(a, v). add_delta a (- uint v)) (pl_op_out pl) m)"

definition by_value :: "wallet_coin list \<Rightarrow> wallet_coin list" where
  "by_value cs = sort_key (\<lambda>c. - uint (o_value (wc_out c))) cs"

definition coin_pool :: "wallet \<Rightarrow> int \<Rightarrow> hash256 \<Rightarrow> wallet_coin list" where
  "coin_pool w tp asset = filter (\<lambda>c. o_asset (wc_out c) = asset \<and> spendable w tp c) (wallet_coins w)"

section \<open>Choosing coins\<close>

primrec take_coins :: "int \<Rightarrow> wallet_coin list \<Rightarrow> amount \<Rightarrow> wallet_coin list \<Rightarrow> amount \<times> wallet_coin list" where
  "take_coins n [] have sel = (have, sel)"
| "take_coins n (c # cs) have sel =
     (if uint have \<ge> n then (have, sel) else take_coins n cs (have + o_value (wc_out c)) (sel @ [c]))"

primrec choose_tokens :: "wallet \<Rightarrow> int \<Rightarrow> (hash256 \<times> int) list \<Rightarrow> wallet_coin list \<Rightarrow> txout list \<Rightarrow>
    (wallet_coin list \<times> txout list) result" where
  "choose_tokens w tp [] sel change = Inr (sel, change)"
| "choose_tokens w tp (e # es) sel change =
     (let (asset, n) = e in
      if hash_is_zero asset then choose_tokens w tp es sel change
      else
        (let (have, sel) = (if n > 0 then take_coins n (by_value (coin_pool w tp asset)) 0 sel else (0, sel))
         in if n > 0 \<and> uint have < n then Inl ''insufficient token balance''
            else
              (let left = uint have - n in
               choose_tokens w tp es sel
                 (if left > 0 then change @ [\<lparr>o_value = word_of_int left, o_asset = asset, o_addr = hash_zero\<rparr>] else change))))"

definition unique_addrs :: "wallet_coin list \<Rightarrow> nat" where
  "unique_addrs sel = max (length (remdups (map (\<lambda>c. o_addr (wc_out c)) sel))) 1"

definition fee_for :: "plan \<Rightarrow> nat \<Rightarrow> amount \<Rightarrow> wallet_coin list \<Rightarrow> amount" where
  "fee_for pl n_change fee_per_kb sel =
     (let n_out = length (pl_outs pl) + n_change + pl_extra_outs pl + (if pl_sweep pl then 0 else 1)
      in of_nat (estimate_size (max (length sel) 1) (unique_addrs sel) n_out (length (pl_ops pl))) * fee_per_kb div 1000)"

text \<open>The loop over the QNT coins; \<open>pool\<close> is what is left of \<open>qpool\<close>.\<close>

primrec choose_qnt :: "plan \<Rightarrow> nat \<Rightarrow> amount \<Rightarrow> int \<Rightarrow> wallet_coin list \<Rightarrow> wallet_coin list \<Rightarrow> amount \<Rightarrow> nat \<Rightarrow>
    (wallet_coin list \<times> amount \<times> amount) result" where
  "choose_qnt pl n_change fee_per_kb qneed [] sel qhave qcount =
     (let fee = fee_for pl n_change fee_per_kb sel;
          want = (if pl_subtract_fee pl then qneed else qneed + uint fee)
      in if qcount > 0 \<and> uint qhave \<ge> want \<and> \<not> pl_sweep pl then Inr (sel, qhave, fee)
         else if pl_sweep pl \<and> qcount > 0 then Inr (sel, qhave, fee)
         else Inl (''insufficient QNT: have '' @ format_amount qhave @ '', need '' @ format_amount (if want > 0 then word_of_int want else 0)))"
| "choose_qnt pl n_change fee_per_kb qneed (c # pool) sel qhave qcount =
     (let fee = fee_for pl n_change fee_per_kb sel;
          want = (if pl_subtract_fee pl then qneed else qneed + uint fee)
      in if qcount > 0 \<and> uint qhave \<ge> want \<and> \<not> pl_sweep pl then Inr (sel, qhave, fee)
         else if length (sel @ [c]) > 2000 then Inl ''too many small coins; sweep first''
         else choose_qnt pl n_change fee_per_kb qneed pool (sel @ [c]) (qhave + o_value (wc_out c)) (qcount + 1))"

section \<open>Building\<close>

text \<open>The outputs of the plan, with what a sweep found and the fee taken off the first one where asked.\<close>

definition plan_outs :: "plan \<Rightarrow> amount \<Rightarrow> amount \<Rightarrow> txout list result" where
  "plan_outs pl qhave fee =
     (let os = (if pl_sweep pl then (pl_outs pl)[0 := (pl_outs pl ! 0)\<lparr>o_value := qhave\<rparr>] else pl_outs pl)
      in if pl_subtract_fee pl \<or> pl_sweep pl then
           if o_value (os ! 0) \<le> fee + DUST_LIMIT then Inl ''amount too small to cover the fee''
           else Inr (os[0 := (os ! 0)\<lparr>o_value := o_value (os ! 0) - fee\<rparr>])
         else Inr os)"

definition qnt_change :: "plan \<Rightarrow> int \<Rightarrow> amount \<Rightarrow> amount \<Rightarrow> txout list" where
  "qnt_change pl qneed qhave fee =
     (if pl_sweep pl then []
      else (let qchange = uint qhave - qneed - (if pl_subtract_fee pl then 0 else uint fee)
            in if qchange \<ge> uint DUST_LIMIT then [\<lparr>o_value = word_of_int qchange, o_asset = QNT_ASSET, o_addr = hash_zero\<rparr>] else []))"

definition amount_at :: "(hash256 \<times> amount) list \<Rightarrow> hash256 \<Rightarrow> amount" where
  "amount_at m a = (case map_of m a of None \<Rightarrow> 0 | Some v \<Rightarrow> v)"

text \<open>The end of \<open>build\<close>: sign, and check the fee that is really left.\<close>

definition seal_tx :: "crypto \<Rightarrow> wallet \<Rightarrow> plan \<Rightarrow> wallet_coin list \<Rightarrow> amount \<Rightarrow> transaction \<Rightarrow> (transaction \<times> amount) result" where
  "seal_tx cr w pl sel qhave tx0 =
     rbind (sign_tx cr w sel ((pl_finish pl w tx0)\<lparr>lock_height := 0\<rparr>)) (\<lambda>tx.
     (let actual = uint qhave + uint (amount_at (pl_op_out pl) QNT_ASSET) - uint (total_qnt_out tx) - uint (amount_at (pl_op_in pl) QNT_ASSET);
          minf = of_nat (length (write_full tx)) * MIN_RELAY_FEE_PER_KB div 1000
      in if actual < uint minf then Inl ''internal fee estimate too low'' else Inr (tx, word_of_int actual)))"

definition build_tx :: "crypto \<Rightarrow> plan \<Rightarrow> int \<Rightarrow> amount \<Rightarrow> wallet \<Rightarrow> wallet \<times> (transaction \<times> amount) result" where
  "build_tx cr pl tp fee_per_kb0 w =
     (let fee_per_kb = (if fee_per_kb0 < MIN_RELAY_FEE_PER_KB then MIN_RELAY_FEE_PER_KB else fee_per_kb0);
          need = needs pl;
          qneed = delta_of need QNT_ASSET
      in case choose_tokens w tp (walk need) [] [] of
           Inl e \<Rightarrow> (w, Inl e)
         | Inr (sel, change) \<Rightarrow>
             (case choose_qnt pl (length change) fee_per_kb qneed
                     (by_value (if pl_sweep pl then pl_sweep_coins pl else coin_pool w tp QNT_ASSET)) sel 0 0 of
                Inl e \<Rightarrow> (w, Inl e)
              | Inr (sel, qhave, fee) \<Rightarrow>
                  (case plan_outs pl qhave fee of
                     Inl e \<Rightarrow> (w, Inl e)
                   | Inr os \<Rightarrow>
                       (let change = change @ qnt_change pl qneed qhave fee;
                            (ca, w) = (if change = [] then (hash_zero, w) else change_addr cr w)
                        in (w, seal_tx cr w pl sel qhave
                              \<lparr>t_version = 2, ins = map (\<lambda>c. \<lparr>prev = wc_op c\<rparr>) sel,
                               outs = os @ map (\<lambda>c. c\<lparr>o_addr := ca\<rparr>) change,
                               ops = pl_ops pl, lock_height = 0, extra = [], wits = []\<rparr>)))))"

section \<open>The operations\<close>

record dest =
  d_address :: string
  d_amount :: amount
  d_asset :: hash256

definition check_dest :: "wallet \<Rightarrow> dest \<Rightarrow> txout result" where
  "check_dest w d =
     (case decode_address (w_p w) (d_address d) of
        None \<Rightarrow> Inl (''invalid address: '' @ d_address d)
      | Some (v, h) \<Rightarrow>
          if v \<noteq> 0 then Inl (''invalid address: '' @ d_address d)
          else if hash_is_zero (d_asset d) \<and> d_amount d < DUST_LIMIT then Inl ''minimum amount is 0.000001 QNT''
          else if d_amount d = 0 then Inl ''amount must be positive''
          else Inr \<lparr>o_value = d_amount d, o_asset = d_asset d, o_addr = h\<rparr>)"

primrec check_dests :: "wallet \<Rightarrow> dest list \<Rightarrow> txout list result" where
  "check_dests w [] = Inr []"
| "check_dests w (d # ds) = rbind (check_dest w d) (\<lambda>out. rbind (check_dests w ds) (\<lambda>os. Inr (out # os)))"

definition create_tx :: "crypto \<Rightarrow> dest list \<Rightarrow> amount \<Rightarrow> int \<Rightarrow> bool \<Rightarrow> wallet \<Rightarrow> wallet \<times> (transaction \<times> amount) result" where
  "create_tx cr dests fee_per_kb tp subtract_fee w =
     (if dests = [] then (w, Inl ''no recipients'')
      else (case check_dests w dests of
              Inl e \<Rightarrow> (w, Inl e)
            | Inr os \<Rightarrow>
                if subtract_fee \<and> \<not> is_qnt (os ! 0) then (w, Inl ''can only subtract the fee from a QNT payment'')
                else build_tx cr (blank_plan\<lparr>pl_outs := os, pl_subtract_fee := subtract_fee\<rparr>) tp fee_per_kb w))"

definition create_sweep :: "crypto \<Rightarrow> string \<Rightarrow> amount \<Rightarrow> int \<Rightarrow> wallet \<Rightarrow> wallet \<times> (transaction \<times> amount) result" where
  "create_sweep cr address fee_per_kb tp w =
     (case decode_address (w_p w) address of
        None \<Rightarrow> (w, Inl ''invalid address'')
      | Some (v, h) \<Rightarrow>
          (let coins = filter (\<lambda>c. is_qnt (wc_out c) \<and> spendable w tp c) (wallet_coins w)
           in if coins = [] then (w, Inl ''nothing to sweep'')
              else build_tx cr (blank_plan\<lparr>pl_sweep := True, pl_sweep_coins := coins,
                     pl_outs := [\<lparr>o_value = 0, o_asset = QNT_ASSET, o_addr = h\<rparr>]\<rparr>) tp fee_per_kb w))"

text \<open>The address of the owner is taken before the arguments are checked. The last result is the token's id.\<close>

definition create_token :: "crypto \<Rightarrow> string \<Rightarrow> string \<Rightarrow> u8 \<Rightarrow> amount \<Rightarrow> string \<Rightarrow> amount \<Rightarrow> int \<Rightarrow> wallet \<Rightarrow>
    wallet \<times> (transaction \<times> amount \<times> hash256) result" where
  "create_token cr ticker name decimals amt uri fee_per_kb tp w =
     (let (owner, w) = change_addr cr w
      in if \<not> valid_ticker ticker then (w, Inl ''ticker must be 1-10 characters A-Z / 0-9'')
         else if \<not> valid_token_text name 1 (unat MAX_TOKEN_NAME) then (w, Inl ''name must be 1-32 printable characters'')
         else if \<not> valid_token_text uri 0 (unat MAX_TOKEN_URI) then (w, Inl ''uri must be at most 120 printable characters'')
         else if decimals > MAX_TOKEN_DECIMALS then (w, Inl ''decimals must be 0-10'')
         else if amt = 0 \<or> amt > MAX_TOKEN_SUPPLY then (w, Inl ''supply out of range'')
         else
           (case build_tx cr
                   (blank_plan\<lparr>pl_ops := [OpCreateToken ticker name decimals amt uri], pl_extra_outs := 1,
                      pl_finish := (\<lambda>w tx. tx\<lparr>outs := outs tx @
                        [\<lparr>o_value = amt, o_asset = token_id cr (prev (hd (ins tx))) 0, o_addr = owner\<rparr>]\<rparr>)\<rparr>) tp fee_per_kb w of
              (w, Inl e) \<Rightarrow> (w, Inl e)
            | (w, Inr (tx, fee)) \<Rightarrow> (w, Inr (tx, fee, token_id cr (prev (hd (ins tx))) 0))))"

fun set_from :: "hash256 \<Rightarrow> tx_op \<Rightarrow> tx_op" where
  "set_from a (OpMessage from to gift txt) = OpMessage a to gift txt"
| "set_from a op = op"

definition send_message :: "crypto \<Rightarrow> hash256 \<Rightarrow> string \<Rightarrow> u8 \<Rightarrow> amount \<Rightarrow> int \<Rightarrow> wallet \<Rightarrow> wallet \<times> (transaction \<times> amount) result" where
  "send_message cr to txt gift fee_per_kb tp w =
     (if gift \<ge> GIFT_COUNT then (w, Inl ''unknown gift'')
      else if length txt > unat MAX_MESSAGE_TEXT then (w, Inl ''message is longer than 280 bytes'')
      else if txt = [] \<and> gift = 0 then (w, Inl ''empty message'')
      else if list_ex (\<lambda>c. char_code c < 0x20 \<or> char_code c = 0x7f) txt then (w, Inl ''message has control characters'')
      else build_tx cr
             (blank_plan\<lparr>pl_outs := [\<lparr>o_value = max DUST_LIMIT (GIFT_PRICE ! unat gift), o_asset = QNT_ASSET, o_addr = to\<rparr>],
                pl_ops := [OpMessage hash_zero to gift txt], pl_extra_outs := (length txt + 73) div 74 + 1,
                pl_finish := (\<lambda>w tx. case map_of (w_coins w) (prev (hd (ins tx))) of
                    None \<Rightarrow> tx
                  | Some c \<Rightarrow> tx\<lparr>ops := (ops tx)[0 := set_from (o_addr (wc_out c)) (ops tx ! 0)]\<rparr>)\<rparr>) tp fee_per_kb w)"

definition swap_tx :: "crypto \<Rightarrow> hash256 \<Rightarrow> bool \<Rightarrow> amount \<Rightarrow> amount \<Rightarrow> amount \<Rightarrow> int \<Rightarrow> wallet \<Rightarrow> wallet \<times> (transaction \<times> amount) result" where
  "swap_tx cr token sell inp min_out fee_per_kb tp w =
     (if inp = 0 \<or> min_out = 0 then (w, Inl ''amounts must be positive'')
      else if sell \<and> min_out < DUST_LIMIT then (w, Inl ''you would receive less than 0.000001 QNT'')
      else build_tx cr (blank_plan\<lparr>pl_ops := [OpSwap token sell inp min_out],
             pl_op_in := [(if sell then token else QNT_ASSET, inp)],
             pl_op_out := [(if sell then QNT_ASSET else token, min_out)]\<rparr>) tp fee_per_kb w)"

text \<open>The shares of a deposit and the operation that makes it.\<close>

definition deposit_op :: "hash256 \<Rightarrow> amount \<Rightarrow> amount \<Rightarrow> pool option \<Rightarrow> (amount \<times> tx_op) result" where
  "deposit_op token qnt tok pool =
     (case pool of
        None \<Rightarrow>
          (let tot = amm_initial_shares qnt tok in
           if tot \<le> MIN_LIQUIDITY then Inl ''first deposit too small''
           else Inr (tot - MIN_LIQUIDITY, OpPoolCreate token qnt tok (tot - MIN_LIQUIDITY)))
      | Some p \<Rightarrow>
          (let shares = amm_add_shares p qnt tok in
           if shares = 0 then Inl ''deposit too small'' else Inr (shares, OpAddLiquidity token qnt tok shares)))"

definition add_liquidity :: "crypto \<Rightarrow> hash256 \<Rightarrow> amount \<Rightarrow> amount \<Rightarrow> pool option \<Rightarrow> amount \<Rightarrow> int \<Rightarrow> wallet \<Rightarrow>
    wallet \<times> (transaction \<times> amount \<times> amount) result" where
  "add_liquidity cr token qnt tok pool fee_per_kb tp w =
     (if qnt = 0 \<or> tok = 0 then (w, Inl ''amounts must be positive'')
      else (case deposit_op token qnt tok pool of
              Inl e \<Rightarrow> (w, Inl e)
            | Inr (shares, op) \<Rightarrow>
                (case build_tx cr (blank_plan\<lparr>pl_ops := [op],
                        pl_op_in := AList.update token tok [(QNT_ASSET, qnt)],
                        pl_op_out := [(pool_share_id cr token, shares)]\<rparr>) tp fee_per_kb w of
                   (w, Inl e) \<Rightarrow> (w, Inl e)
                 | (w, Inr (tx, fee)) \<Rightarrow> (w, Inr (tx, fee, shares)))))"

definition remove_liquidity :: "crypto \<Rightarrow> hash256 \<Rightarrow> amount \<Rightarrow> pool \<Rightarrow> amount \<Rightarrow> int \<Rightarrow> wallet \<Rightarrow>
    wallet \<times> (transaction \<times> amount \<times> amount \<times> amount) result" where
  "remove_liquidity cr token shares pool fee_per_kb tp w =
     (if shares = 0 \<or> shares > p_shares pool - MIN_LIQUIDITY then (w, Inl ''bad share amount'')
      else
        (let (q, t) = amm_remove_amounts pool shares
         in if q = 0 \<and> t = 0 then (w, Inl ''too few shares'')
            else
              (case build_tx cr (blank_plan\<lparr>pl_ops := [OpRemoveLiquidity token shares q t],
                      pl_op_in := [(pool_share_id cr token, shares)],
                      pl_op_out := (let m = (if q \<noteq> 0 then [(QNT_ASSET, q)] else [])
                                    in if t \<noteq> 0 then AList.update token t m else m)\<rparr>) tp fee_per_kb w of
                 (w, Inl e) \<Rightarrow> (w, Inl e)
               | (w, Inr (tx, fee)) \<Rightarrow> (w, Inr (tx, fee, q, t)))))"

end
