(* ===== verification/Chain_Supply.thy ===== *)
theory Chain_Supply
  imports Chain_Connect
begin

text \<open>
  What a connected block adds to the supply of QNT. The check of \<open>connect_block\<close> compares 64-bit sums:
  where the outputs of the coinbase add up to less than \<open>2 ^ 64\<close> it bounds what is issued by the
  subsidy, and where they do not, it does not.
\<close>

section \<open>The 64-bit sum of the outputs\<close>

definition qnt_paid :: "transaction \<Rightarrow> nat" where
  "qnt_paid t = (\<Sum>out\<leftarrow>outs t. out_val QNT_ASSET out)"

lemma unat_plus_le: "unat (a + b) \<le> unat a + unat (b :: 'a :: len word)"
  by (simp add: unat_word_ariths)

lemma fold_qnt_out:
  "fold (\<lambda>out s. if is_qnt out then s + o_value out else s) os s = s + of_nat (\<Sum>out\<leftarrow>os. out_val QNT_ASSET out)"
proof (induction os arbitrary: s)
  case (Cons out os)
  show ?case using Cons.IH [of "if is_qnt out then s + o_value out else s"]
    by (simp add: is_qnt_def QNT_ASSET_def out_val_def)
qed simp

lemma total_qnt_out_paid: "total_qnt_out t = of_nat (qnt_paid t)"
  by (simp add: total_qnt_out_def qnt_paid_def fold_qnt_out)

lemma minted_qnt: "ids_nonzero cr \<Longrightarrow> minted_total cr tx i os QNT_ASSET = 0"
proof (induction os arbitrary: i)
  case (Cons op os)
  then show ?case by (cases op) (simp_all add: ids_nonzero_def)
qed simp

section \<open>The bound\<close>

text \<open>
  \<open>net\<close> is what the block adds: the coinbase outputs less the fees, which are in the coins of the inputs.
\<close>

lemma connected_total:
  assumes con: "connect_block cr idx cs = (cs', Inr u)" and read: "read_block cr cs idx True = Some (b, got)"
    and good: "block_good cr ew (us_reader (cs_st cs)) b" and ids: "ids_nonzero cr" and h: "b_height cs idx > 0"
    and st: "us_inv (cs_st cs)" "state_ok (us_reader (cs_st cs))"
  obtains n where
    "asset_total QNT_ASSET (us_reader (cs_st cs')) + n = asset_total QNT_ASSET (us_reader (cs_st cs)) + qnt_paid (hd (txs b))"
    "total_qnt_out (hd (txs b)) \<le> fst (block_subsidy (word_of_int (b_height cs idx)) (cs_em cs)) + of_nat n"
    "us_inv (cs_st cs')" "state_ok (us_reader (cs_st cs'))"
proof -
  obtain b' got' v fees subsidy em cs1 where p: "read_block cr cs idx True = Some (b', got')"
    "apply_txs cr (us_reader (cs_st cs)) (word_of_int (b_height cs idx)) (genesis_hash (cs_p cs)) (got' \<and> b_height cs idx > 0)
       (tl (txs b')) (apply_coinbase cr (hd (txs b')) (word_of_int (b_height cs idx)) empty_view) 0 = Inr (v, fees)"
    "(subsidy, em) = (if b_height cs idx > 0 then block_subsidy (word_of_int (b_height cs idx)) (cs_em cs) else (0, cs_em cs))"
    "b_height cs idx > 0 \<Longrightarrow> total_qnt_out (hd (txs b')) \<le> subsidy + fees"
    "core cs' = core (cs\<lparr>cs_st := commit_view v (cs_st cs), cs_chain := cs_chain cs @ [idx]\<rparr>)"
    by (rule connect_block_parts [OF con]) (rule that)
  have b: "b' = b" using p(1) read by simp
  have t: "txs b = hd (txs b) # tl (txs b)" "is_coinbase (hd (txs b))" "list_all (tx_valid ew) (tl (txs b))"
    "block_fresh cr (us_reader (cs_st cs)) (hd (txs b) # tl (txs b))"
    using good by (auto simp: block_good_def)
  have "list_all core_ok (txs b)" by (rule read_block_parts [OF read])
  then have c: "core_ok (hd (txs b))" using t(1) by (metis list.pred_inject(2))
  note law = block_view_law [OF p(2) [unfolded b] t(2) c t(3,4) st(2)]
  note cv = commit_view_law [OF st(1) law(1)]
  have s': "cs_st cs' = commit_view v (cs_st cs)" using p(5) by (simp add: core_iff)
  have "\<forall>t. pool_share_id cr t \<noteq> QNT_ASSET" using ids by (simp add: ids_nonzero_def)
  with law(3) obtain n where n: "fees = of_nat n"
    "asset_total QNT_ASSET (view_reader (us_reader (cs_st cs)) v) + n =
       asset_total QNT_ASSET (us_reader (cs_st cs)) + qnt_paid (hd (txs b))"
    by (auto simp: minted_qnt [OF ids] qnt_paid_def)
  show thesis
  proof (rule that [of n])
    show "total_qnt_out (hd (txs b)) \<le> fst (block_subsidy (word_of_int (b_height cs idx)) (cs_em cs)) + of_nat n"
      using p(3,4) h unfolding b n(1) by (metis fst_conv)
  qed (use n cv law(1) in \<open>simp_all add: s' view_good_def\<close>)
qed

lemma connected_supply:
  assumes "connect_block cr idx cs = (cs', Inr u)" "read_block cr cs idx True = Some (b, got)"
    "block_good cr ew (us_reader (cs_st cs)) b" "ids_nonzero cr" "b_height cs idx > 0"
    "us_inv (cs_st cs)" "state_ok (us_reader (cs_st cs))" and small: "qnt_paid (hd (txs b)) < 2 ^ 64"
  shows "asset_total QNT_ASSET (us_reader (cs_st cs')) \<le> asset_total QNT_ASSET (us_reader (cs_st cs))
      + unat (fst (block_subsidy (word_of_int (b_height cs idx)) (cs_em cs)))"
proof -
  define sub where "sub = fst (block_subsidy (word_of_int (b_height cs idx)) (cs_em cs))"
  obtain n where n: "asset_total QNT_ASSET (us_reader (cs_st cs')) + n =
      asset_total QNT_ASSET (us_reader (cs_st cs)) + qnt_paid (hd (txs b))"
    "total_qnt_out (hd (txs b)) \<le> sub + of_nat n"
    using connected_total [OF assms(1-7)] unfolding sub_def by metis
  have "qnt_paid (hd (txs b)) = unat (total_qnt_out (hd (txs b)))"
    using small by (simp add: total_qnt_out_paid unat_of_nat)
  also have "\<dots> \<le> unat (sub + of_nat n)" using n(2) by (simp add: word_le_nat_alt)
  also have "\<dots> \<le> unat sub + unat (of_nat n :: amount)" by (rule unat_plus_le)
  also have "\<dots> \<le> unat sub + n" by (simp add: unat_of_nat)
  finally show ?thesis using n(1) by (simp add: sub_def)
qed

section \<open>The overflow\<close>

text \<open>Two outputs of \<open>2 ^ 63\<close> units: each is below \<open>MAX_MONEY\<close>, and their sum wraps to zero.\<close>

definition half_range :: amount where
  "half_range = 2 ^ 63"

definition overflowing :: "transaction \<Rightarrow> bool" where
  "overflowing t \<longleftrightarrow> map o_value (outs t) = [half_range, half_range] \<and> list_all is_qnt (outs t)"

lemma overflowing_sum:
  assumes "overflowing t"
  shows "total_qnt_out t = 0" "qnt_paid t = 2 ^ 64"
proof -
  from assms obtain a b where o: "outs t = [a, b]" "o_value a = half_range" "o_value b = half_range" "is_qnt a" "is_qnt b"
    by (auto simp: overflowing_def)
  then show "qnt_paid t = 2 ^ 64" by (simp add: qnt_paid_def out_val_def is_qnt_def QNT_ASSET_def half_range_def)
  then show "total_qnt_out t = 0" by (simp add: total_qnt_out_paid)
qed

lemma overflowing_passes:
  assumes "overflowing t" "is_coinbase t" "t_version t = 2" "ops t = []" "wits t = []"
  shows "check_tx_basic t ew = Inr ()"
proof -
  from assms(1) obtain a b where o: "outs t = [a, b]" "o_value a = half_range" "o_value b = half_range" "is_qnt a" "is_qnt b"
    by (auto simp: overflowing_def)
  have "half_range \<le> MAX_MONEY" "half_range \<noteq> 0" "half_range + half_range = 0" by (simp_all add: half_range_def limit_defs)
  then show ?thesis using o assms(2-5) by (simp add: check_tx_basic_def fail_if_def not_less)
qed

text \<open>A block whose only transaction is such a coinbase connects, and the supply grows by \<open>2 ^ 64\<close> units.\<close>

lemma overflowing_connects:
  assumes read: "read_block cr cs idx True = Some (b, True)" and txs: "txs b = [cb]" "is_coinbase cb" "overflowing cb"
    and idx: "b_height cs idx > 0" "\<not> commit_mismatch cs idx" "fs_ok (cs_fs cs) (undo_path cs (bi_hash (deref cs idx)))"
  obtains cs' where "connect_block cr idx cs = (cs', Inr ())"
proof -
  obtain subsidy em where se: "block_subsidy (word_of_int (b_height cs idx)) (cs_em cs) = (subsidy, em)" by force
  define v where "v = apply_coinbase cr cb (word_of_int (b_height cs idx)) empty_view"
  have d: "deref (cs\<lparr>cs_em := em\<rparr>) = deref cs" "undo_path (cs\<lparr>cs_em := em\<rparr>) = undo_path cs"
    by (simp_all add: deref_def undo_path_def fun_eq_iff)
  obtain cs1 where "write_undo idx (undo_of_view v) (cs\<lparr>cs_em := em\<rparr>) = (cs1, True)"
    using idx(3) by (simp add: write_undo_def write_cs_def write_file_atomic_def d)
  then have "connect_block cr idx cs = (connect_commit cr b idx v cs1, Inr ())"
    using read txs idx(1,2) se overflowing_sum(1) [OF txs(3)] by (simp add: connect_block_def Let_def v_def [symmetric])
  then show thesis by (rule that)
qed

lemma overflowing_mints:
  assumes "read_block cr cs idx True = Some (b, True)" "txs b = [cb]" "is_coinbase cb" "overflowing cb"
    and "b_height cs idx > 0" "\<not> commit_mismatch cs idx" "fs_ok (cs_fs cs) (undo_path cs (bi_hash (deref cs idx)))"
    and "us_inv (cs_st cs)" "state_ok (us_reader (cs_st cs))"
    and fresh: "\<forall>k. us_coin (cs_st cs) (OutPoint (txid cr cb) k) = None"
  shows "snd (connect_block cr idx cs) = Inr ()"
    and "asset_total QNT_ASSET (us_reader (cs_st (fst (connect_block cr idx cs)))) =
      asset_total QNT_ASSET (us_reader (cs_st cs)) + 2 ^ 64"
proof -
  obtain cs' where con: "connect_block cr idx cs = (cs', Inr ())" by (rule overflowing_connects [OF assms(1-7)])
  obtain b' got' v fees subsidy em cs1 where p: "read_block cr cs idx True = Some (b', got')"
    "apply_txs cr (us_reader (cs_st cs)) (word_of_int (b_height cs idx)) (genesis_hash (cs_p cs)) (got' \<and> b_height cs idx > 0)
       (tl (txs b')) (apply_coinbase cr (hd (txs b')) (word_of_int (b_height cs idx)) empty_view) 0 = Inr (v, fees)"
    "core cs' = core (cs\<lparr>cs_st := commit_view v (cs_st cs), cs_chain := cs_chain cs @ [idx]\<rparr>)"
    by (rule connect_block_parts [OF con]) (rule that)
  have b: "b' = b" using p(1) assms(1) by simp
  have v: "v = apply_coinbase cr cb (word_of_int (b_height cs idx)) empty_view" using p(2) by (simp add: b assms(2))
  have "list_all core_ok (txs b)" by (rule read_block_parts [OF assms(1)])
  then have len: "length (outs cb) \<le> 10000" using core_ok_lengths(2) [of cb] by (simp add: assms(2))
  have fr: "\<forall>k. rd_coin (us_reader (cs_st cs)) (OutPoint (txid cr cb) k) = None" using fresh by (simp add: us_reader_def)
  have e: "view_inv empty_view" "fresh_txid (us_reader (cs_st cs)) empty_view (txid cr cb)"
    "state_ok (view_reader (us_reader (cs_st cs)) empty_view)"
    using assms(9) fr view_good_empty [of "us_reader (cs_st cs)"] by (simp_all add: fresh_empty view_good_def)
  have "asset_total QNT_ASSET (us_reader (cs_st cs')) = asset_total QNT_ASSET (us_reader (cs_st cs)) + qnt_paid cb"
    using apply_coinbase_law(3) [OF e(1,2) len assms(3) e(3)]
      commit_view_law(2) [OF assms(8) coinbase_good(1) [OF assms(3) len assms(9) fr]] p(3)
    by (simp add: core_iff v qnt_paid_def)
  then show "snd (connect_block cr idx cs) = Inr ()"
    and "asset_total QNT_ASSET (us_reader (cs_st (fst (connect_block cr idx cs)))) =
      asset_total QNT_ASSET (us_reader (cs_st cs)) + 2 ^ 64"
    using con overflowing_sum(2) [OF assms(4)] by simp_all
qed

end
