(* ===== verification/Wallet_Spend.thy ===== *)
theory Wallet_Spend
  imports Wallet_Build Chain_Supply
begin

text \<open>
  What the wallet builds is what the ledger accepts: its signatures pass the witness check, its choice of
  coins balances, and a payment made from coins the ledger holds applies with exactly the fee announced.
\<close>

section \<open>Signatures\<close>

text \<open>What is relied on of Falcon: a signature made with the secret key of a pair verifies with its public key.\<close>

definition falcon_correct :: "crypto \<Rightarrow> bool" where
  "falcon_correct cr \<longleftrightarrow> (\<forall>seed pk sk msg sig. falcon_keypair_lib cr seed = (pk, sk) \<longrightarrow> length pk = FALCON_PK_BYTES \<and>
     (falcon_sign_lib cr msg sk = Some sig \<longrightarrow> sig \<noteq> [] \<and> length sig \<le> FALCON_SIG_MAX \<and> falcon_verify_lib cr sig msg pk))"

lemma derived_pair:
  "derive_key cr m i = k \<Longrightarrow> \<exists>seed. falcon_keypair_lib cr seed = (wk_pk k, wk_sk k) \<and> wk_addr k = address_hash cr (wk_pk k)"
  by (auto simp: derive_key_def keypair_from_seed_def Let_def split: prod.splits)

lemma signed_verifies:
  assumes "falcon_correct cr" "wallet_ok cr w" "map_of (w_by_addr w) a = Some k"
    and "falcon_sign cr (wk_sk (w_keys w ! k)) msg = Inr sig"
  shows "address_hash cr (wk_pk (w_keys w ! k)) = a" "falcon_verify cr (wk_pk (w_keys w ! k)) sig msg"
proof -
  have k: "k < length (w_keys w)" "watched_addresses w ! k = a"
    using assms(2,3) by (auto simp: wallet_ok_def index_of_ok_def)
  have "same_key (w_keys w ! k) (derive_key cr (w_master w) (of_nat k))" using assms(2) k(1) by (simp add: wallet_ok_def keys_ok_def)
  moreover obtain seed where "falcon_keypair_lib cr seed = (wk_pk (derive_key cr (w_master w) (of_nat k)), wk_sk (derive_key cr (w_master w) (of_nat k)))"
    "wk_addr (derive_key cr (w_master w) (of_nat k)) = address_hash cr (wk_pk (derive_key cr (w_master w) (of_nat k)))"
    using derived_pair by blast
  ultimately have p: "falcon_keypair_lib cr seed = (wk_pk (w_keys w ! k), wk_sk (w_keys w ! k))" "wk_addr (w_keys w ! k) = address_hash cr (wk_pk (w_keys w ! k))"
    by (simp_all add: same_key_def)
  show "address_hash cr (wk_pk (w_keys w ! k)) = a" using p(2) k by (simp add: watched_addresses_def)
  show "falcon_verify cr (wk_pk (w_keys w ! k)) sig msg"
    using assms(1,4) p(1) unfolding falcon_correct_def falcon_sign_def falcon_verify_def
    by (fastforce split: if_splits option.splits)
qed

text \<open>\<open>first_use\<close> names, for every address met so far, the first input that has it; that one carries a signature.\<close>

definition first_ok :: "coin list \<Rightarrow> witness list \<Rightarrow> nat \<Rightarrow> (hash256 \<times> u32) list \<Rightarrow> bool" where
  "first_ok coins ws i fu \<longleftrightarrow> (\<forall>a f. map_of fu a = Some f \<longrightarrow> unat f < i \<and> o_addr (c_out (coins ! unat f)) = a
     \<and> (\<exists>pk sig. ws ! unat f = WitnessFalcon pk sig))"

lemma sign_loop_checks:
  assumes "falcon_correct cr" "wallet_ok cr w"
  shows "sign_loop cr w sh (of_nat (length pre)) fu cs = Inr ws \<Longrightarrow> length coins = length pre + length cs \<Longrightarrow> length coins < 2 ^ 32 \<Longrightarrow>
    (\<forall>j<length cs. o_addr (c_out (coins ! (length pre + j))) = o_addr (wc_out (cs ! j))) \<Longrightarrow>
    first_ok coins pre (length pre) fu \<Longrightarrow>
    length ws = length cs \<and> check_wits cr sh coins (pre @ ws) (length pre) ws = Inr ()"
proof (induction cs arbitrary: pre fu ws)
  case (Cons c cs)
  let ?a = "o_addr (wc_out c)" and ?n = "length pre"
  have n: "unat (of_nat ?n :: u32) = ?n" using Cons.prems(2,3) by (simp add: unat_of_nat)
  have ca: "o_addr (c_out (coins ! ?n)) = ?a" using Cons.prems(4) by (metis add.right_neutral length_greater_0_conv list.discI nth_Cons_0)
  obtain w1 ws1 fu1 where ws: "ws = w1 # ws1" "sign_loop cr w sh (of_nat ?n + 1) fu1 cs = Inr ws1"
    and h: "check_wit cr sh coins (pre @ w1 # ws1) ?n w1 = Inr ()" "first_ok coins (pre @ [w1]) (Suc ?n) fu1"
  proof (cases "map_of fu ?a")
    case (Some f)
    then obtain ws1 where e: "ws = WitnessRef f # ws1" "sign_loop cr w sh (of_nat ?n + 1) fu cs = Inr ws1"
      using Cons.prems(1) by (auto simp: Let_def rbind_eq_Inr)
    obtain pk sig where f: "unat f < ?n" "o_addr (c_out (coins ! unat f)) = ?a" "pre ! unat f = WitnessFalcon pk sig"
      using Cons.prems(5) Some unfolding first_ok_def by blast
    have "check_wit cr sh coins (pre @ WitnessRef f # ws1) ?n (WitnessRef f) = Inr ()"
      using f ca by (simp add: nth_append)
    moreover have "first_ok coins (pre @ [WitnessRef f]) (Suc ?n) fu"
      using Cons.prems(5) by (fastforce simp: first_ok_def nth_append)
    ultimately show thesis using that e by blast
  next
    case None
    then obtain k sig ws1 where e: "map_of (w_by_addr w) ?a = Some k" "falcon_sign cr (wk_sk (w_keys w ! k)) sh = Inr sig"
      "ws = WitnessFalcon (wk_pk (w_keys w ! k)) sig # ws1" "sign_loop cr w sh (of_nat ?n + 1) ((?a, of_nat ?n) # fu) cs = Inr ws1"
      using Cons.prems(1) by (auto simp: Let_def rbind_eq_Inr split: option.splits)
    note v = signed_verifies [OF assms e(1,2)]
    have "check_wit cr sh coins (pre @ WitnessFalcon (wk_pk (w_keys w ! k)) sig # ws1) ?n (WitnessFalcon (wk_pk (w_keys w ! k)) sig) = Inr ()"
      using v ca by simp
    moreover have "first_ok coins (pre @ [WitnessFalcon (wk_pk (w_keys w ! k)) sig]) (Suc ?n) ((?a, of_nat ?n) # fu)"
      using Cons.prems(5) n ca by (fastforce simp: first_ok_def nth_append)
    ultimately show thesis using that e(3,4) by blast
  qed
  have "length ws1 = length cs \<and> check_wits cr sh coins ((pre @ [w1]) @ ws1) (length (pre @ [w1])) ws1 = Inr ()"
  proof (rule Cons.IH)
    show "sign_loop cr w sh (of_nat (length (pre @ [w1]))) fu1 cs = Inr ws1" using ws(2) by (simp add: add.commute)
    show "\<forall>j<length cs. o_addr (c_out (coins ! (length (pre @ [w1]) + j))) = o_addr (wc_out (cs ! j))"
      using Cons.prems(4) by (metis Suc_less_eq add_Suc_right add_Suc_shift length_Cons length_append_singleton nth_Cons_Suc)
  qed (use Cons.prems(2,3) h(2) in simp_all)
  with h(1) ws(1) show ?case by simp
qed simp

lemma sign_tx_verifies:
  assumes "falcon_correct cr" "wallet_ok cr w" "sign_tx cr w sel tx0 = Inr tx" "length sel < 2 ^ 32" "length (ins tx0) = length sel"
    and "map (o_addr \<circ> c_out) coins = map (o_addr \<circ> wc_out) sel"
  shows "verify_witness cr tx coins (genesis_hash (w_p w)) = Inr ()"
proof -
  obtain ws where ws: "sign_loop cr w (signature_hash cr (genesis_hash (w_p w)) (txid cr tx0)) 0 [] sel = Inr ws" "tx = tx0\<lparr>wits := ws\<rparr>"
    using assms(3) by (auto simp: sign_tx_def rbind_eq_Inr)
  have l: "length coins = length sel" using assms(6) by (metis length_map)
  have a: "\<forall>j<length sel. o_addr (c_out (coins ! (length [] + j))) = o_addr (wc_out (sel ! j))"
    using assms(6) l by (metis add_0 comp_apply list.size(3) nth_map)
  have i: "txid cr tx = txid cr tx0" "ins tx = ins tx0" "wits tx = ws" using ws(2) by (simp_all add: txid_def)
  have "length ws = length sel \<and> check_wits cr (signature_hash cr (genesis_hash (w_p w)) (txid cr tx0)) coins ([] @ ws) (length ([] :: witness list)) ws = Inr ()"
    by (rule sign_loop_checks [OF assms(1,2), where fu = "[]"]) (use ws(1) assms(4) l a in \<open>simp_all add: first_ok_def\<close>)
  then show ?thesis using assms(5) by (simp add: verify_witness_def i fail_if_def)
qed

section \<open>Choosing coins\<close>

definition coin_sum :: "hash256 \<Rightarrow> wallet_coin list \<Rightarrow> nat" where
  "coin_sum a cs = (\<Sum>c\<leftarrow>cs. out_val a (wc_out c))"

definition out_sum :: "hash256 \<Rightarrow> txout list \<Rightarrow> nat" where
  "out_sum a os = (\<Sum>out\<leftarrow>os. out_val a out)"

lemma sum_simps [simp]:
  "coin_sum a [] = 0" "coin_sum a (c # cs) = out_val a (wc_out c) + coin_sum a cs" "coin_sum a (cs @ ds) = coin_sum a cs + coin_sum a ds"
  "out_sum a [] = 0" "out_sum a (out # os) = out_val a out + out_sum a os" "out_sum a (os @ ps) = out_sum a os + out_sum a ps"
  by (simp_all add: coin_sum_def out_sum_def)

lemma coin_sum_all: "\<forall>c\<in>set cs. o_asset (wc_out c) = a \<Longrightarrow> (\<Sum>c\<leftarrow>cs. unat (o_value (wc_out c))) = coin_sum a cs"
  by (induction cs) (simp_all add: out_val_def)

lemma coin_sum_other: "\<forall>c\<in>set cs. o_asset (wc_out c) \<noteq> a \<Longrightarrow> coin_sum a cs = 0"
  by (induction cs) (simp_all add: out_val_def)

lemma coin_sum_subset:
  assumes "distinct xs" "set xs \<subseteq> set ys"
  shows "coin_sum a xs \<le> coin_sum a ys"
proof -
  have "coin_sum a xs = (\<Sum>c\<in>set xs. out_val a (wc_out c))" using assms(1) by (simp add: coin_sum_def sum_list_distinct_conv_sum_set)
  also have "\<dots> \<le> (\<Sum>c\<in>set ys. out_val a (wc_out c))" using assms(2) by (intro sum_mono2) auto
  also have "\<dots> = (\<Sum>c\<leftarrow>remdups ys. out_val a (wc_out c))" by (simp add: sum_list_distinct_conv_sum_set)
  also have "\<dots> \<le> coin_sum a ys" unfolding coin_sum_def
  proof (induction ys)
    case (Cons y ys)
    then show ?case using member_le_sum_list [of "out_val a (wc_out y)" "map (\<lambda>c. out_val a (wc_out c)) ys"] by auto
  qed simp
  finally show ?thesis .
qed

lemma take_coins_law:
  "take_coins n pool h0 sel = (h1, sel') \<Longrightarrow>
   \<exists>k. sel' = sel @ take k pool \<and> h1 = h0 + of_nat (\<Sum>c\<leftarrow>take k pool. unat (o_value (wc_out c)))"
proof (induction pool arbitrary: h0 sel)
  case (Cons c pool)
  show ?case
  proof (cases "uint h0 \<ge> n")
    case True
    with Cons.prems show ?thesis by (intro exI [of _ 0]) auto
  next
    case False
    with Cons.prems have "take_coins n pool (h0 + o_value (wc_out c)) (sel @ [c]) = (h1, sel')" by simp
    from Cons.IH [OF this] obtain k where "sel' = sel @ c # take k pool"
      "h1 = h0 + of_nat (unat (o_value (wc_out c)) + (\<Sum>c\<leftarrow>take k pool. unat (o_value (wc_out c))))" by (auto simp: add.assoc)
    then show ?thesis by (intro exI [of _ "Suc k"]) simp
  qed
qed simp

lemma by_value_set [simp]: "set (by_value cs) = set cs" "distinct (by_value cs) = distinct cs"
  by (simp_all add: by_value_def)

text \<open>The wallet's coins are distinct and listed under their own outpoints.\<close>

lemma wallet_coins_distinct:
  assumes "coins_keyed w"
  shows "distinct (map wc_op (wallet_coins w))" "c \<in> set (wallet_coins w) \<longleftrightarrow> map_of (w_coins w) (wc_op c) = Some c"
proof -
  have d: "distinct (map fst (w_coins w))" and k: "\<forall>p c. map_of (w_coins w) p = Some c \<longrightarrow> wc_op c = p"
    using assms by (simp_all add: coins_keyed_def al_distinct_def)
  have k': "wc_op b = a" if "(a, b) \<in> set (w_coins w)" for a b using k map_of_is_SomeI [OF d that] by blast
  have e: "map fst (walk (w_coins w)) = map wc_op (wallet_coins w)"
    unfolding wallet_coins_def map_map walk_def by (rule map_cong) (use k' in \<open>auto simp: comp_def\<close>)
  show "distinct (map wc_op (wallet_coins w))" unfolding e [symmetric] using d by (simp add: walk_def distinct_map)
  show "c \<in> set (wallet_coins w) \<longleftrightarrow> map_of (w_coins w) (wc_op c) = Some c"
  proof
    assume "c \<in> set (wallet_coins w)"
    then obtain p where "(p, c) \<in> set (w_coins w)" by (auto simp: wallet_coins_def walk_def)
    then show "map_of (w_coins w) (wc_op c) = Some c" using k' map_of_is_SomeI [OF d] by blast
  next
    assume "map_of (w_coins w) (wc_op c) = Some c"
    from map_of_SomeD [OF this] show "c \<in> set (wallet_coins w)" unfolding wallet_coins_def walk_def by force
  qed
qed

text \<open>The spendable coins of a wallet, and a choice among them.\<close>

definition chosen_from :: "wallet \<Rightarrow> int \<Rightarrow> wallet_coin list \<Rightarrow> bool" where
  "chosen_from w tp sel \<longleftrightarrow> distinct sel \<and> (\<forall>c\<in>set sel. c \<in> set (wallet_coins w) \<and> spendable w tp c)"

definition coins_bounded :: "wallet \<Rightarrow> bool" where
  "coins_bounded w \<longleftrightarrow> (\<forall>a. coin_sum a (wallet_coins w) < 2 ^ 64)"

lemma coin_pool_chosen:
  assumes "coins_keyed w"
  shows "chosen_from w tp (by_value (coin_pool w tp asset))" "\<forall>c\<in>set (by_value (coin_pool w tp asset)). o_asset (wc_out c) = asset"
  using wallet_coins_distinct(1) [OF assms] by (auto simp: chosen_from_def coin_pool_def distinct_map)

lemma pool_take:
  assumes "coins_bounded w" "chosen_from w tp sel" "\<forall>c\<in>set sel. o_asset (wc_out c) \<noteq> asset"
    and pool: "chosen_from w tp pool" "\<forall>c\<in>set pool. o_asset (wc_out c) = asset"
  shows "chosen_from w tp (sel @ take k pool)" "coin_sum asset (take k pool) < 2 ^ 64"
    "a \<noteq> asset \<Longrightarrow> coin_sum a (take k pool) = 0"
    "(\<Sum>c\<leftarrow>take k pool. unat (o_value (wc_out c))) = coin_sum asset (take k pool)"
    "\<forall>c\<in>set (take k pool). o_asset (wc_out c) = asset"
proof -
  have t: "distinct (take k pool)" "\<forall>c\<in>set (take k pool). c \<in> set (wallet_coins w) \<and> o_asset (wc_out c) = asset \<and> spendable w tp c"
    using pool set_take_subset [of k pool] by (auto simp: chosen_from_def distinct_take)
  then show a: "\<forall>c\<in>set (take k pool). o_asset (wc_out c) = asset" by auto
  from coin_sum_all [OF this] show "(\<Sum>c\<leftarrow>take k pool. unat (o_value (wc_out c))) = coin_sum asset (take k pool)" .
  show "chosen_from w tp (sel @ take k pool)" using assms(2,3) t by (auto simp: chosen_from_def)
  have "set (take k pool) \<subseteq> set (wallet_coins w)" using t(2) by blast
  from coin_sum_subset [OF t(1) this, of asset] assms(1) show "coin_sum asset (take k pool) < 2 ^ 64"
    unfolding coins_bounded_def by (blast intro: le_less_trans)
  show "a \<noteq> asset \<Longrightarrow> coin_sum a (take k pool) = 0" using a coin_sum_other [of "take k pool" a] by auto
qed

lemma choose_tokens_law:
  assumes "coins_keyed w" "coins_bounded w"
  shows "choose_tokens w tp es sel change = Inr (sel', change') \<Longrightarrow> distinct (map fst es) \<Longrightarrow> \<forall>(a, n)\<in>set es. - n < 2 ^ 64 \<Longrightarrow>
    chosen_from w tp sel \<Longrightarrow> \<forall>c\<in>set sel. o_asset (wc_out c) \<notin> fst ` set es \<and> o_asset (wc_out c) \<noteq> QNT_ASSET \<Longrightarrow>
    chosen_from w tp sel' \<and> (\<forall>c\<in>set sel'. o_asset (wc_out c) \<noteq> QNT_ASSET) \<and> out_sum QNT_ASSET change' = out_sum QNT_ASSET change
    \<and> (\<forall>a. a \<noteq> QNT_ASSET \<longrightarrow> int (coin_sum a sel') - int (out_sum a change') =
        int (coin_sum a sel) - int (out_sum a change) + delta_of es a)"
proof (induction es arbitrary: sel change)
  case Nil
  then show ?case by (auto simp: delta_of_def)
next
  case (Cons e es)
  obtain asset n where e: "e = (asset, n)" by force
  have d: "asset \<notin> fst ` set es" "delta_of es asset = 0"
    using Cons.prems(2) map_of_eq_None_iff [of es asset] by (auto simp: e delta_of_def)
  have de: "delta_of (e # es) a = (if a = asset then n else delta_of es a)" for a by (simp add: e delta_of_def)
  show ?case
  proof (cases "asset = QNT_ASSET")
    case True
    from Cons.IH [of sel change] Cons.prems True show ?thesis by (auto simp: e delta_of_def QNT_ASSET_def)
  next
    case False
    define pool where "pool = by_value (coin_pool w tp asset)"
    obtain h1 sel1 where t: "(if n > 0 then take_coins n pool 0 sel else (0, sel)) = (h1, sel1)" by force
    have ne: "\<forall>c\<in>set sel. o_asset (wc_out c) \<noteq> asset" using Cons.prems(5) by (auto simp: e)
    obtain k where k: "sel1 = sel @ take k pool" "h1 = of_nat (\<Sum>c\<leftarrow>take k pool. unat (o_value (wc_out c)))"
    proof (cases "n > 0")
      case True
      then show thesis using take_coins_law [of n pool 0 sel h1 sel1] t that by auto
    next
      case False
      then show thesis using t that [of 0] by simp
    qed
    note pt = pool_take [OF assms(2) Cons.prems(4) ne coin_pool_chosen [OF assms(1), of tp asset, folded pool_def], where k = k]
    have u: "uint h1 = int (coin_sum asset (take k pool))" using k(2) pt(2,4) by (simp add: uint_nat unat_of_nat)
    define left where "left = uint h1 - n"
    define ch where "ch = (if left > 0 then change @ [\<lparr>o_value = word_of_int left, o_asset = asset, o_addr = hash_zero\<rparr>] else change)"
    have ok: "\<not> (n > 0 \<and> uint h1 < n)" and r: "choose_tokens w tp es sel1 ch = Inr (sel', change')"
      using Cons.prems(1) False t unfolding pool_def ch_def left_def
      by (auto simp: e QNT_ASSET_def Let_def split: if_splits)
    have l: "0 \<le> left" using ok u by (auto simp: left_def)
    have lb: "left < 2 ^ 64"
    proof (cases "n > 0")
      case True
      then show ?thesis using uint_lt2p [of h1] by (simp add: left_def)
    next
      case False
      then have "k = 0 \<or> take k pool = []" using t k(1) by auto
      then have "uint h1 = 0" using u by auto
      then show ?thesis using Cons.prems(3) by (auto simp: left_def e)
    qed
    have oc: "int (out_sum a ch) = int (out_sum a change) + (if a = asset then left else 0)" for a
      using l lb by (auto simp: ch_def out_val_def unsigned_of_int take_bit_int_eq_self split: if_splits) 
    have "\<forall>c\<in>set sel1. o_asset (wc_out c) \<notin> fst ` set es \<and> o_asset (wc_out c) \<noteq> QNT_ASSET"
      using Cons.prems(5) pt(5) d(1) False by (auto simp: k(1) e)
    with Cons.IH [OF r _ _ _ this] Cons.prems(2,3) pt(1)
    have IH: "chosen_from w tp sel'" "\<forall>c\<in>set sel'. o_asset (wc_out c) \<noteq> QNT_ASSET" "out_sum QNT_ASSET change' = out_sum QNT_ASSET ch"
      "\<And>a. a \<noteq> QNT_ASSET \<Longrightarrow> int (coin_sum a sel') - int (out_sum a change') = int (coin_sum a sel1) - int (out_sum a ch) + delta_of es a"
      by (auto simp: k(1) e)
    have "int (coin_sum a sel1) - int (out_sum a ch) + delta_of es a =
        int (coin_sum a sel) - int (out_sum a change) + delta_of (e # es) a" for a
      using pt(3) [where a = a] d(2) u by (simp add: de k(1) oc left_def)
    with IH oc [of QNT_ASSET] False show ?thesis by auto
  qed
qed

lemma choose_qnt_law:
  "choose_qnt pl nc fpk qneed pool sel h0 cnt = Inr (sel', h1, fee) \<Longrightarrow>
   \<exists>k. sel' = sel @ take k pool \<and> h1 = h0 + of_nat (\<Sum>c\<leftarrow>take k pool. unat (o_value (wc_out c)))
     \<and> fee = fee_for pl nc fpk sel' \<and> (\<not> pl_sweep pl \<longrightarrow> uint h1 \<ge> (if pl_subtract_fee pl then qneed else qneed + uint fee))
     \<and> (cnt = 0 \<longrightarrow> take k pool \<noteq> []) \<and> (take k pool \<noteq> [] \<longrightarrow> length sel' \<le> 2000)"
proof (induction pool arbitrary: sel h0 cnt)
  case Nil
  then show ?case by (auto simp: Let_def split: if_splits)
next
  case (Cons c pool)
  let ?fee = "fee_for pl nc fpk sel"
  let ?stop = "cnt > 0 \<and> uint h0 \<ge> (if pl_subtract_fee pl then qneed else qneed + uint ?fee) \<and> \<not> pl_sweep pl"
  show ?case
  proof (cases ?stop)
    case True
    with Cons.prems have "sel' = sel" "h1 = h0" "fee = ?fee" by (auto simp: Let_def)
    with True show ?thesis by (intro exI [of _ 0]) auto
  next
    case False
    with Cons.prems have r: "choose_qnt pl nc fpk qneed pool (sel @ [c]) (h0 + o_value (wc_out c)) (cnt + 1) = Inr (sel', h1, fee)"
      and l: "length sel < 2000"
      by (auto simp: Let_def split: if_splits)
    from Cons.IH [OF r] obtain k where k: "sel' = (sel @ [c]) @ take k pool"
      "h1 = h0 + o_value (wc_out c) + of_nat (\<Sum>c\<leftarrow>take k pool. unat (o_value (wc_out c)))" "fee = fee_for pl nc fpk sel'"
      "\<not> pl_sweep pl \<longrightarrow> uint h1 \<ge> (if pl_subtract_fee pl then qneed else qneed + uint fee)" "take k pool \<noteq> [] \<longrightarrow> length sel' \<le> 2000"
      by blast
    have "length sel' \<le> 2000" using k(1,5) l by (cases "take k pool = []") auto
    with k show ?thesis by (intro exI [of _ "Suc k"]) (simp add: add.assoc)
  qed
qed

lemma fee_for_bound: "unat (fee_for pl nc fpk sel) < 2 ^ 55"
proof -
  have "unat (x div 1000) < 2 ^ 55" for x :: amount using unat_lt_64 [of x] by (simp add: unat_div)
  then show ?thesis by (simp add: fee_for_def Let_def)
qed

section \<open>Payments\<close>

text \<open>A plan without operations; where the fee is taken off the first output, that is a QNT output.\<close>

definition pay_plan :: "wallet \<Rightarrow> int \<Rightarrow> plan \<Rightarrow> bool" where
  "pay_plan w tp pl \<longleftrightarrow> pl_ops pl = [] \<and> pl_op_in pl = [] \<and> pl_op_out pl = [] \<and> pl_finish pl = (\<lambda>w tx. tx)
     \<and> (pl_subtract_fee pl \<longrightarrow> pl_outs pl \<noteq> [] \<and> is_qnt (pl_outs pl ! 0))
     \<and> (pl_sweep pl \<longrightarrow> \<not> pl_subtract_fee pl \<and> chosen_from w tp (pl_sweep_coins pl) \<and> (\<forall>c\<in>set (pl_sweep_coins pl). is_qnt (wc_out c))
          \<and> (\<exists>h. pl_outs pl = [\<lparr>o_value = 0, o_asset = QNT_ASSET, o_addr = h\<rparr>]))"

lemma delta_of_add [simp]: "delta_of (add_delta a d m) b = delta_of m b + (if b = a then d else 0)"
  by (auto simp: delta_of_def add_delta_def update_conv' split: option.splits)

lemma delta_of_Nil: "delta_of [] a = 0"
  by (simp add: delta_of_def)

lemma add_delta_keys: "distinct (map fst m) \<Longrightarrow> distinct (map fst (add_delta a d m))"
  by (simp add: add_delta_def distinct_update)

lemma needs_fold:
  "distinct (map fst m) \<Longrightarrow> distinct (map fst (fold (\<lambda>out. add_delta (o_asset out) (uint (o_value out))) os m))
     \<and> delta_of (fold (\<lambda>out. add_delta (o_asset out) (uint (o_value out))) os m) a = delta_of m a + int (out_sum a os)"
proof (induction os arbitrary: m)
  case (Cons out os)
  from Cons.IH [OF add_delta_keys [OF Cons.prems]] show ?case by (simp add: out_val_def)
qed simp

lemma walk_map: "distinct (map fst m) \<Longrightarrow> map_of (walk m) = map_of m \<and> distinct (map fst (walk m))"
proof -
  assume d: "distinct (map fst m)"
  then have "distinct (map fst (walk m))" by (simp add: walk_def distinct_map)
  moreover from this d have "map_of (walk m) = map_of m" by (subst map_of_inject_set) (simp_all add: walk_def)
  ultimately show ?thesis by simp
qed

lemma needs_pay:
  assumes "pay_plan w tp pl"
  shows "distinct (map fst (walk (needs pl)))" "delta_of (needs pl) a = int (out_sum a (pl_outs pl))"
    "delta_of (walk (needs pl)) a = int (out_sum a (pl_outs pl))" "\<forall>(a, n)\<in>set (walk (needs pl)). - n < 2 ^ 64"
proof -
  have n: "distinct (map fst (needs pl))" "delta_of (needs pl) a = int (out_sum a (pl_outs pl))" for a
    using needs_fold [of "[]" "pl_outs pl" a] assms by (simp_all add: needs_def pay_plan_def delta_of_Nil)
  note w = walk_map [OF n(1)]
  show "distinct (map fst (walk (needs pl)))" using w by simp
  show "delta_of (needs pl) a = int (out_sum a (pl_outs pl))" by (rule n(2))
  show d: "delta_of (walk (needs pl)) a = int (out_sum a (pl_outs pl))" using n(2) [of a] unfolding delta_of_def conjunct1 [OF w] .
  have "n = int (out_sum b (pl_outs pl))" if "(b, n) \<in> set (walk (needs pl))" for b n
    using map_of_is_SomeI [OF conjunct2 [OF w] that] n(2) [of b] unfolding delta_of_def conjunct1 [OF w] by (simp only: option.case)
  then show "\<forall>(a, n)\<in>set (walk (needs pl)). - n < 2 ^ 64" by fastforce
qed

lemma built_parts:
  assumes "build_tx cr pl tp fpk0 w = (w', Inr (tx, fo))"
  obtains fpk sel1 ch sel qhave fee os ca where
    "choose_tokens w tp (walk (needs pl)) [] [] = Inr (sel1, ch)"
    "choose_qnt pl (length ch) fpk (delta_of (needs pl) QNT_ASSET)
       (by_value (if pl_sweep pl then pl_sweep_coins pl else coin_pool w tp QNT_ASSET)) sel1 0 0 = Inr (sel, qhave, fee)"
    "plan_outs pl qhave fee = Inr os" "w' = w \<or> w' = snd (change_addr cr w)"
    "seal_tx cr w' pl sel qhave \<lparr>t_version = 2, ins = map (\<lambda>c. \<lparr>prev = wc_op c\<rparr>) sel,
       outs = os @ map (\<lambda>c. c\<lparr>o_addr := ca\<rparr>) (ch @ qnt_change pl (delta_of (needs pl) QNT_ASSET) qhave fee),
       ops = pl_ops pl, lock_height = 0, extra = [], wits = []\<rparr> = Inr (tx, fo)"
proof -
  define fpk where "fpk = (if fpk0 < MIN_RELAY_FEE_PER_KB then MIN_RELAY_FEE_PER_KB else fpk0)"
  note b = assms [unfolded build_tx_def Let_def fpk_def [symmetric]]
  obtain sel1 ch where t: "choose_tokens w tp (walk (needs pl)) [] [] = Inr (sel1, ch)" using b by (auto split: sum.splits)
  note b1 = b [unfolded t sum.case prod.case]
  obtain sel qhave fee where q: "choose_qnt pl (length ch) fpk (delta_of (needs pl) QNT_ASSET)
       (by_value (if pl_sweep pl then pl_sweep_coins pl else coin_pool w tp QNT_ASSET)) sel1 0 0 = Inr (sel, qhave, fee)"
    using b1 by (auto split: sum.splits)
  note b2 = b1 [unfolded q sum.case prod.case]
  obtain os where os: "plan_outs pl qhave fee = Inr os" using b2 by (auto split: sum.splits)
  define change where "change = ch @ qnt_change pl (delta_of (needs pl) QNT_ASSET) qhave fee"
  obtain ca w1 where c: "(if change = [] then (hash_zero, w) else change_addr cr w) = (ca, w1)" by force
  note b3 = b2 [unfolded os sum.case change_def [symmetric] c prod.case]
  have "w' = w \<or> w' = snd (change_addr cr w)" using b3 c by (auto split: if_splits)
  with t q os b3 show thesis unfolding change_def by (intro that) auto
qed

lemma out_sum_addr [simp]: "out_sum a (map (\<lambda>c. c\<lparr>o_addr := ca\<rparr>) os) = out_sum a os"
  by (induction os) (simp_all add: out_val_def)

lemma out_sum_update:
  "os \<noteq> [] \<Longrightarrow> o_asset (os ! 0) = b \<Longrightarrow> unat v \<le> unat (o_value (os ! 0)) \<Longrightarrow>
   out_sum a (os[0 := (os ! 0)\<lparr>o_value := o_value (os ! 0) - v\<rparr>]) + (if a = b then unat v else 0) = out_sum a os"
  by (cases os) (auto simp: out_val_def unat_sub word_le_nat_alt)

lemma seal_parts:
  assumes "seal_tx cr w pl sel qhave tx0 = Inr (tx, fo)" "pay_plan wo tp pl" "out_sum QNT_ASSET (outs tx0) \<le> unat qhave" "lock_height tx0 = 0"
  shows "sign_tx cr w sel tx0 = Inr tx" "outs tx = outs tx0" "ins tx = ins tx0" "ops tx = ops tx0" "lock_height tx = 0"
    "unat qhave = out_sum QNT_ASSET (outs tx) + unat fo" "min_fee (length (write_full tx)) \<le> fo"
proof -
  have p: "pl_finish pl = (\<lambda>w tx. tx)" "pl_op_in pl = []" "pl_op_out pl = []" using assms(2) by (simp_all add: pay_plan_def)
  have e: "tx0\<lparr>lock_height := 0\<rparr> = tx0" using assms(4) by simp
  let ?minf = "of_nat (length (write_full tx)) * MIN_RELAY_FEE_PER_KB div 1000 :: amount"
  have s: "sign_tx cr w sel tx0 = Inr tx" and f: "\<not> uint qhave - uint (total_qnt_out tx) < uint ?minf" "fo = word_of_int (uint qhave - uint (total_qnt_out tx))"
    using assms(1) by (auto simp: seal_tx_def p e rbind_eq_Inr Let_def amount_at_def split: if_splits)
  then show t: "sign_tx cr w sel tx0 = Inr tx" "outs tx = outs tx0" "ins tx = ins tx0" "ops tx = ops tx0" "lock_height tx = 0"
    using assms(4) by (auto simp: sign_tx_def rbind_eq_Inr)
  have "total_qnt_out tx = of_nat (out_sum QNT_ASSET (outs tx))" by (simp add: total_qnt_out_def fold_qnt_out out_sum_def)
  then have u: "unat (total_qnt_out tx) = out_sum QNT_ASSET (outs tx)"
    using assms(3) unat_lt_64 [of qhave] t(2) by (simp add: unat_of_nat)
  have "uint qhave - uint (total_qnt_out tx) = int (unat qhave) - int (unat (total_qnt_out tx))" by simp
  also have "\<dots> = int (unat qhave - out_sum QNT_ASSET (outs tx))" unfolding u using assms(3) t(2) by (simp only: of_nat_diff)
  finally have d: "uint qhave - uint (total_qnt_out tx) = int (unat qhave - out_sum QNT_ASSET (outs tx))" .
  have "fo = of_nat (unat qhave - out_sum QNT_ASSET (outs tx))" unfolding f(2) d by simp
  then have fo: "unat fo = unat qhave - out_sum QNT_ASSET (outs tx)" using unat_lt_64 [of qhave] by (simp add: unat_of_nat)
  with assms(3) t(2) show "unat qhave = out_sum QNT_ASSET (outs tx) + unat fo" by simp
  from f(1) have "uint ?minf \<le> int (unat fo)" unfolding d fo by (simp only: not_less)
  then show "min_fee (length (write_full tx)) \<le> fo" by (simp add: min_fee_def word_le_def)
qed

lemma plan_outs_law:
  assumes "plan_outs pl qhave fee = Inr os" "pay_plan w tp pl" "unat fee < 2 ^ 55"
  shows "a \<noteq> QNT_ASSET \<Longrightarrow> out_sum a os = out_sum a (pl_outs pl)"
    and "out_sum QNT_ASSET os + (if pl_subtract_fee pl \<or> pl_sweep pl then unat fee else 0) =
      (if pl_sweep pl then unat qhave else out_sum QNT_ASSET (pl_outs pl))"
proof -
  define os0 where "os0 = (if pl_sweep pl then (pl_outs pl)[0 := (pl_outs pl ! 0)\<lparr>o_value := qhave\<rparr>] else pl_outs pl)"
  have s0: "out_sum b os0 = (if pl_sweep pl then (if b = QNT_ASSET then unat qhave else 0) else out_sum b (pl_outs pl))" for b
    using assms(2) by (auto simp: os0_def pay_plan_def out_val_def)
  have z: "pl_sweep pl \<Longrightarrow> b \<noteq> QNT_ASSET \<Longrightarrow> out_sum b (pl_outs pl) = 0" for b
    using assms(2) by (auto simp: pay_plan_def out_val_def)
  show "a \<noteq> QNT_ASSET \<Longrightarrow> out_sum a os = out_sum a (pl_outs pl)"
    and "out_sum QNT_ASSET os + (if pl_subtract_fee pl \<or> pl_sweep pl then unat fee else 0) =
      (if pl_sweep pl then unat qhave else out_sum QNT_ASSET (pl_outs pl))"
  proof (atomize (full), cases "pl_subtract_fee pl \<or> pl_sweep pl")
    case True
    then have n: "os0 \<noteq> []" "o_asset (os0 ! 0) = QNT_ASSET"
      using assms(2) by (auto simp: pay_plan_def os0_def is_qnt_def QNT_ASSET_def)
    have o: "\<not> o_value (os0 ! 0) \<le> fee + DUST_LIMIT" "os = os0[0 := (os0 ! 0)\<lparr>o_value := o_value (os0 ! 0) - fee\<rparr>]"
      using assms(1) True unfolding plan_outs_def Let_def os0_def [symmetric] by (auto split: if_splits)
    have "unat (fee + DUST_LIMIT) = unat fee + 10000" using assms(3) by (simp add: unat_word_ariths DUST_LIMIT_def)
    then have "unat fee \<le> unat (o_value (os0 ! 0))" using o(1) by (simp add: word_le_nat_alt)
    note u = out_sum_update [OF n this, folded o(2)]
    show "(a \<noteq> QNT_ASSET \<longrightarrow> out_sum a os = out_sum a (pl_outs pl)) \<and>
      out_sum QNT_ASSET os + (if pl_subtract_fee pl \<or> pl_sweep pl then unat fee else 0) =
      (if pl_sweep pl then unat qhave else out_sum QNT_ASSET (pl_outs pl))"
      using u [of a] u [of QNT_ASSET] s0 [of a] s0 [of QNT_ASSET] z [of a] True by auto
  next
    case False
    then show "(a \<noteq> QNT_ASSET \<longrightarrow> out_sum a os = out_sum a (pl_outs pl)) \<and>
      out_sum QNT_ASSET os + (if pl_subtract_fee pl \<or> pl_sweep pl then unat fee else 0) =
      (if pl_sweep pl then unat qhave else out_sum QNT_ASSET (pl_outs pl))"
      using assms(1) by (simp add: plan_outs_def)
  qed
qed

lemma qnt_change_law:
  assumes "qneed = int q" "\<not> pl_sweep pl \<longrightarrow> uint qhave \<ge> (if pl_subtract_fee pl then qneed else qneed + uint fee)"
  shows "a \<noteq> QNT_ASSET \<Longrightarrow> out_sum a (qnt_change pl qneed qhave fee) = 0"
    and "pl_sweep pl \<Longrightarrow> qnt_change pl qneed qhave fee = []"
    and "\<not> pl_sweep pl \<Longrightarrow> q + (if pl_subtract_fee pl then 0 else unat fee) + out_sum QNT_ASSET (qnt_change pl qneed qhave fee) \<le> unat qhave"
proof -
  show "a \<noteq> QNT_ASSET \<Longrightarrow> out_sum a (qnt_change pl qneed qhave fee) = 0" by (simp add: qnt_change_def Let_def out_val_def)
  show "pl_sweep pl \<Longrightarrow> qnt_change pl qneed qhave fee = []" by (simp add: qnt_change_def)
  assume ns: "\<not> pl_sweep pl"
  define qc where "qc = uint qhave - qneed - (if pl_subtract_fee pl then 0 else uint fee)"
  have "0 \<le> (if pl_subtract_fee pl then 0 else uint fee)" by simp
  then have "qc \<le> uint qhave" unfolding qc_def assms(1) by linarith
  moreover have "0 \<le> qc" using assms ns by (auto simp: qc_def split: if_splits)
  ultimately have q: "0 \<le> qc" "qc \<le> uint qhave" by simp_all
  then have "uint (word_of_int qc :: amount) = qc" using uint_lt2p [of qhave] by (simp add: unsigned_of_int take_bit_int_eq_self)
  then have u: "unat (word_of_int qc :: amount) = nat qc" by (simp add: unat_eq_nat_uint)
  have "out_sum QNT_ASSET (qnt_change pl qneed qhave fee) \<le> nat qc"
    using ns u by (simp add: qnt_change_def Let_def qc_def out_val_def)
  moreover have "int (q + (if pl_subtract_fee pl then 0 else unat fee) + nat qc) = int (unat qhave)"
    using q(1) assms(1) by (auto simp: qc_def)
  ultimately show "q + (if pl_subtract_fee pl then 0 else unat fee) + out_sum QNT_ASSET (qnt_change pl qneed qhave fee) \<le> unat qhave" by linarith
qed

text \<open>A payment takes distinct spendable coins of the wallet, and what they hold is what it pays plus the fee.\<close>

lemma payment_balances:
  assumes build: "build_tx cr pl tp fpk w = (w', Inr (tx, fo))" and pay: "pay_plan w tp pl"
    and keyed: "coins_keyed w" and bounded: "coins_bounded w"
  obtains sel tx0 where "chosen_from w tp sel" "sel \<noteq> []" "length sel \<le> 2000" "w' = w \<or> w' = snd (change_addr cr w)"
    "ins tx0 = map (\<lambda>c. \<lparr>prev = wc_op c\<rparr>) sel" "sign_tx cr w' sel tx0 = Inr tx" "ins tx = ins tx0" "ops tx = []" "lock_height tx = 0"
    "\<And>a. coin_sum a sel = out_sum a (outs tx) + (if a = QNT_ASSET then unat fo else 0)"
    "min_fee (length (write_full tx)) \<le> fo"
proof -
  obtain fpk' sel1 ch sel qhave fee os ca where
    t: "choose_tokens w tp (walk (needs pl)) [] [] = Inr (sel1, ch)"
    and q: "choose_qnt pl (length ch) fpk' (delta_of (needs pl) QNT_ASSET)
       (by_value (if pl_sweep pl then pl_sweep_coins pl else coin_pool w tp QNT_ASSET)) sel1 0 0 = Inr (sel, qhave, fee)"
    and o: "plan_outs pl qhave fee = Inr os" and w': "w' = w \<or> w' = snd (change_addr cr w)"
    and s: "seal_tx cr w' pl sel qhave \<lparr>t_version = 2, ins = map (\<lambda>c. \<lparr>prev = wc_op c\<rparr>) sel,
       outs = os @ map (\<lambda>c. c\<lparr>o_addr := ca\<rparr>) (ch @ qnt_change pl (delta_of (needs pl) QNT_ASSET) qhave fee),
       ops = pl_ops pl, lock_height = 0, extra = [], wits = []\<rparr> = Inr (tx, fo)"
    by (rule built_parts [OF build])
  note need = needs_pay [OF pay]
  define qneed where "qneed = delta_of (needs pl) QNT_ASSET"
  define chq where "chq = qnt_change pl qneed qhave fee"
  have tok: "chosen_from w tp sel1" "\<forall>c\<in>set sel1. o_asset (wc_out c) \<noteq> QNT_ASSET" "out_sum QNT_ASSET ch = 0"
    "\<And>a. a \<noteq> QNT_ASSET \<Longrightarrow> int (coin_sum a sel1) - int (out_sum a ch) = int (out_sum a (pl_outs pl))"
    using choose_tokens_law [OF keyed bounded t need(1,4)] need(3) by (simp_all add: chosen_from_def)
  define pool where "pool = by_value (if pl_sweep pl then pl_sweep_coins pl else coin_pool w tp QNT_ASSET)"
  obtain k where k: "sel = sel1 @ take k pool" "qhave = 0 + of_nat (\<Sum>c\<leftarrow>take k pool. unat (o_value (wc_out c)))"
    "fee = fee_for pl (length ch) fpk' sel"
    "\<not> pl_sweep pl \<longrightarrow> uint qhave \<ge> (if pl_subtract_fee pl then qneed else qneed + uint fee)" "take k pool \<noteq> []" "length sel \<le> 2000"
    using choose_qnt_law [OF q, folded pool_def qneed_def] by blast
  have pool: "chosen_from w tp pool" "\<forall>c\<in>set pool. o_asset (wc_out c) = QNT_ASSET"
    using coin_pool_chosen [OF keyed, of tp QNT_ASSET] pay by (auto simp: pool_def pay_plan_def chosen_from_def is_qnt_def QNT_ASSET_def)
  note c = pool_take [OF bounded tok(1,2) pool, where k = k]
  have qh: "unat qhave = coin_sum QNT_ASSET sel" using k(1,2) c(2,4) coin_sum_other [OF tok(2)] by (simp add: unat_of_nat)
  have fb: "unat fee < 2 ^ 55" unfolding k(3) by (rule fee_for_bound)
  note po = plan_outs_law [OF o pay fb]
  have qn: "qneed = int (out_sum QNT_ASSET (pl_outs pl))" unfolding qneed_def by (rule need(2))
  note qc = qnt_change_law [OF qn k(4), folded chq_def]
  define tx0 where "tx0 = \<lparr>t_version = 2, ins = map (\<lambda>c. \<lparr>prev = wc_op c\<rparr>) sel,
       outs = os @ map (\<lambda>c. c\<lparr>o_addr := ca\<rparr>) (ch @ chq), ops = pl_ops pl, lock_height = 0, extra = [], wits = []\<rparr>"
  have o0: "out_sum a (outs tx0) = out_sum a os + out_sum a ch + out_sum a chq" for a by (simp add: tx0_def)
  have le: "out_sum QNT_ASSET (outs tx0) \<le> unat qhave"
    unfolding o0 using po(2) qc(2,3) tok(3) by (cases "pl_sweep pl") (auto split: if_splits)
  have l0: "lock_height tx0 = 0" by (simp add: tx0_def)
  note f = seal_parts [OF s [folded qneed_def, folded chq_def, folded tx0_def] pay le l0]
  have bal: "coin_sum a sel = out_sum a (outs tx) + (if a = QNT_ASSET then unat fo else 0)" for a
  proof (cases "a = QNT_ASSET")
    case True
    then show ?thesis using f(6) qh by simp
  next
    case False
    then show ?thesis using tok(4) [OF False] po(1) [OF False] qc(1) [OF False] c(3) [where a = a] k(1) f(2) o0 [of a] by simp
  qed
  show thesis
  proof (rule that)
    show "chosen_from w tp sel" using c(1) k(1) by simp
    show "sel \<noteq> []" using k(1,5) by simp
    show "length sel \<le> 2000" by (rule k(6))
    show "ins tx0 = map (\<lambda>c. \<lparr>prev = wc_op c\<rparr>) sel" by (simp add: tx0_def)
    show "ops tx = []" using f(4) pay by (simp add: tx0_def pay_plan_def)
  qed (use w' f bal in blast)+
qed

end
