(* ===== verification/Wallet_Pays.thy ===== *)
theory Wallet_Pays
  imports Wallet_Spend
begin

text \<open>
  The wallet and the ledger together: a payment built from coins the ledger holds is a transaction the
  ledger applies, at the fee the wallet announced and the mempool asks for.
\<close>

section \<open>When the ledger accepts\<close>

lemma gather_found:
  "\<forall>i\<in>set is. \<exists>c. view_coin base v (prev i) = Some c \<and> mature cr gen height c \<Longrightarrow>
   \<exists>fl' coins'. gather_inputs cr base v height gen is fl coins = Inr (fl', coins')"
proof (induction "is" arbitrary: fl coins)
  case (Cons i "is")
  then obtain c where "view_coin base v (prev i) = Some c" "mature cr gen height c" by auto
  with Cons show ?case by (auto simp: mature_def)
qed simp

lemma check_balance_complete:
  "\<forall>a\<in>set as. if a = QNT_ASSET then flow (minus_f st) a \<le> flow (plus_f st) a \<and> flow (plus_f st) a - flow (minus_f st) a \<le> ucast MAX_MONEY
      else flow (plus_f st) a = flow (minus_f st) a \<Longrightarrow>
   \<exists>fee. check_balance st as fee0 = Inr fee"
proof (induction "as" arbitrary: fee0)
  case (Cons a "as")
  then show ?case by (cases "a = QNT_ASSET") (auto simp: Let_def QNT_ASSET_def not_less)
qed simp

text \<open>A transaction without operations that balances applies.\<close>

lemma payment_accepted:
  assumes tx: "\<not> is_coinbase tx" "lock_height tx = 0" "ops tx = []" "distinct (prevs tx)" "length (ins tx) \<le> 10000" "length (outs tx) \<le> 10000"
    and found: "\<forall>p\<in>set (prevs tx). \<exists>c. rd_coin base p = Some c \<and> mature cr gen height c"
    and bal: "\<And>a. (\<Sum>p\<leftarrow>prevs tx. coin_val a (the (rd_coin base p))) = out_sum a (outs tx) + (if a = QNT_ASSET then unat fee else 0)"
    and fee: "fee \<le> MAX_MONEY"
    and wit: "verify_witness cr tx (map (\<lambda>p. the (rd_coin base p)) (prevs tx)) gen = Inr ()"
  shows "\<exists>v. view_apply cr base tx height gen True empty_view = Inr (fee, v)"
proof -
  have f: "\<forall>i\<in>set (ins tx). \<exists>c. view_coin base empty_view (prev i) = Some c \<and> mature cr gen height c" using found by auto
  obtain fl coins where g: "gather_inputs cr base empty_view height gen (ins tx) [] [] = Inr (fl, coins)"
    using gather_found [OF f] by blast
  have fb: "flows_below 0 []" by (simp add: flows_below_def flow_nat_def flow_def)
  have in': "coins = map (\<lambda>p. the (rd_coin base p)) (prevs tx)"
    "flow_nat fl a = (\<Sum>p\<leftarrow>prevs tx. coin_val a (the (rd_coin base p)))" for a
    using gather_inputs_ok [OF g fb, of a] tx(5) by (simp_all add: comp_def flow_nat_def flow_def)
  define st where "st = \<lparr>plus_f = fl, minus_f = sum_outs (outs tx) [], touched = [], minted = []\<rparr>"
  have out': "flow_nat (minus_f st) a = out_sum a (outs tx)" for a
    using sum_outs_flow(1) [OF fb, of "outs tx" a] tx(6) by (simp add: st_def out_sum_def flow_nat_def flow_def)
  have pl: "flow_nat (plus_f st) a = flow_nat (minus_f st) a + (if a = QNT_ASSET then unat fee else 0)" for a
    using in'(2) [of a] bal [of a] out' [of a] by (simp add: st_def)
  have "if a = QNT_ASSET then flow (minus_f st) a \<le> flow (plus_f st) a \<and> flow (plus_f st) a - flow (minus_f st) a \<le> ucast MAX_MONEY
      else flow (plus_f st) a = flow (minus_f st) a" for a
  proof (cases "a = QNT_ASSET")
    case True
    then have le: "flow (minus_f st) a \<le> flow (plus_f st) a" using pl [of a] by (simp add: flow_nat_def word_le_nat_alt)
    have "unat (flow (plus_f st) a - flow (minus_f st) a) = unat fee" using unat_sub [OF le] pl [of a] True by (simp add: flow_nat_def)
    moreover have "unat (ucast MAX_MONEY :: u128) = unat MAX_MONEY" by (simp add: limit_defs)
    ultimately show ?thesis using True le fee by (simp add: word_le_nat_alt)
  next
    case False
    then show ?thesis using pl [of a] by (simp add: flow_nat_def word_unat_eq_iff)
  qed
  then obtain fee' where b: "check_balance st (flow_assets st) 0 = Inr fee'" using check_balance_complete by blast
  have "int (unat fee') = int (unat fee)" using balance_net [OF b, of QNT_ASSET] pl [of QNT_ASSET] by (simp add: net_flow_def)
  then have fe: "fee' = fee" by (simp add: word_uint_eq_iff)
  have "\<forall>p\<in>set (prevs tx). view_coin base empty_view p \<noteq> None" using found by fastforce
  moreover have "view_inv empty_view" by (simp add: view_inv_def empty_view_def)
  ultimately obtain v where "spend_inputs base (ins tx) empty_view = Inr v"
    using vw.spend_list_law [OF _ tx(4)] by (fastforce simp: spend_inputs_list)
  then show ?thesis using tx(1-3) g b wit fe
    by (simp add: view_apply_def fail_if_def st_def [symmetric] in'(1) Let_def)
qed

section \<open>The wallet's view of the ledger\<close>

text \<open>The coin of the ledger a spendable coin of the wallet stands for, and that the ledger holds them all.\<close>

definition ledger_coin :: "wallet_coin \<Rightarrow> coin" where
  "ledger_coin c = \<lparr>c_out = wc_out c, c_height = word_of_int (wc_height c), c_coinbase = wc_coinbase c\<rparr>"

definition coins_held :: "wallet \<Rightarrow> int \<Rightarrow> reader_state \<Rightarrow> bool" where
  "coins_held w tp base \<longleftrightarrow> (\<forall>c\<in>set (wallet_coins w). spendable w tp c \<longrightarrow> wc_height c \<le> tp \<and> rd_coin base (wc_op c) = Some (ledger_coin c))"

text \<open>The wallet was made for the network of the ledger, and the chain is not absurdly long.\<close>

definition same_network :: "crypto \<Rightarrow> wallet \<Rightarrow> int \<Rightarrow> bool" where
  "same_network cr w tp \<longleftrightarrow> coinbase_maturity (w_p w) = maturity_for_genesis cr (genesis_hash (w_p w))
     \<and> 0 \<le> coinbase_maturity (w_p w) \<and> coinbase_maturity (w_p w) < 2 ^ 32 \<and> 0 \<le> tp \<and> tp < 2 ^ 62"

lemma word_of_int_small: "0 \<le> i \<Longrightarrow> i < 2 ^ 64 \<Longrightarrow> unat (word_of_int i :: u64) = nat i"
  by (simp add: unat_eq_nat_uint unsigned_of_int take_bit_int_eq_self)

lemma wallet_mature:
  assumes "same_network cr w tp" "spendable w tp c" "wc_height c \<le> tp"
  shows "mature cr (genesis_hash (w_p w)) (word_of_int (tp + 1)) (ledger_coin c)"
proof (cases "wc_coinbase c")
  case True
  let ?m = "coinbase_maturity (w_p w)"
  have n: "?m = maturity_for_genesis cr (genesis_hash (w_p w))" "0 \<le> ?m" "?m < 2 ^ 32" "0 \<le> tp" "tp < 2 ^ 62"
    using assms(1) by (simp_all add: same_network_def)
  have h: "0 \<le> wc_height c" "wc_height c + ?m \<le> tp + 1" using assms(2) True by (auto simp: spendable_def mature_coin_def)
  have "unat (word_of_int (wc_height c) + word_of_int ?m :: u64) = nat (wc_height c) + nat ?m"
    using word_of_int_small [of "wc_height c"] word_of_int_small [of ?m] h n(2-5) assms(3) by (simp add: unat_word_ariths)
  also have "\<dots> \<le> nat (tp + 1)" using h n(2) by linarith
  also have "\<dots> = unat (word_of_int (tp + 1) :: u64)" using word_of_int_small [of "tp + 1"] n(4,5) by (simp del: of_int_add)
  finally show ?thesis using n(1) by (simp add: mature_def ledger_coin_def not_less word_le_nat_alt)
qed (simp add: mature_def ledger_coin_def)

lemma change_addr_ok: "wallet_ok cr w \<Longrightarrow> room w \<Longrightarrow> wallet_ok cr (snd (change_addr cr w)) \<and> w_p (snd (change_addr cr w)) = w_p w"
  using new_address_law(1,2) [of cr w "''(change)''"]
  by (auto simp: change_addr_def wallet_ok_parts grows_def split: prod.splits)

section \<open>Payments apply\<close>

lemma payment_applies:
  assumes build: "build_tx cr pl tp fpk w = (w', Inr (tx, fee))" and pay: "pay_plan w tp pl"
    and ok: "wallet_ok cr w" "room w" "coins_bounded w" "falcon_correct cr"
    and led: "coins_held w tp base" "same_network cr w tp" "coin_sum QNT_ASSET (wallet_coins w) \<le> unat MAX_MONEY"
    and sz: "length (outs tx) \<le> 10000"
  shows "\<exists>v. view_apply cr base tx (word_of_int (tp + 1)) (genesis_hash (w_p w)) True empty_view = Inr (fee, v)"
    and "min_fee (length (write_full tx)) \<le> fee"
proof -
  have keyed: "coins_keyed w" using ok(1) by (simp add: wallet_ok_def)
  obtain sel tx0 where s: "chosen_from w tp sel" "sel \<noteq> []" "length sel \<le> 2000" "w' = w \<or> w' = snd (change_addr cr w)"
    "ins tx0 = map (\<lambda>c. \<lparr>prev = wc_op c\<rparr>) sel" "sign_tx cr w' sel tx0 = Inr tx" "ins tx = ins tx0" "ops tx = []" "lock_height tx = 0"
    "\<And>a. coin_sum a sel = out_sum a (outs tx) + (if a = QNT_ASSET then unat fee else 0)"
    "min_fee (length (write_full tx)) \<le> fee"
    by (rule payment_balances [OF build pay keyed ok(3)]) (rule that)
  show "min_fee (length (write_full tx)) \<le> fee" by (rule s(11))
  have w': "wallet_ok cr w'" "w_p w' = w_p w" using s(4) ok(1) change_addr_ok [OF ok(1,2)] by auto
  have pv: "prevs tx = map wc_op sel" using s(5,7) by (simp add: comp_def)
  have in_w: "\<forall>c\<in>set sel. c \<in> set (wallet_coins w) \<and> spendable w tp c" "distinct sel" using s(1) by (simp_all add: chosen_from_def)
  have held: "\<forall>c\<in>set sel. rd_coin base (wc_op c) = Some (ledger_coin c) \<and> wc_height c \<le> tp" using led(1) in_w(1) by (simp add: coins_held_def)
  have coins: "map (\<lambda>p. the (rd_coin base p)) (prevs tx) = map ledger_coin sel" using held by (simp add: pv)
  have "inj_on wc_op (set (wallet_coins w))" using wallet_coins_distinct(1) [OF keyed] by (simp add: distinct_map)
  then have dist: "distinct (prevs tx)" using in_w inj_on_subset [of wc_op "set (wallet_coins w)" "set sel"] by (auto simp: pv distinct_map)
  have wit: "verify_witness cr tx (map ledger_coin sel) (genesis_hash (w_p w)) = Inr ()"
    using sign_tx_verifies [OF ok(4) w'(1) s(6), of "map ledger_coin sel"] s(3,5) w'(2) by (simp add: ledger_coin_def comp_def)
  have cs: "(\<Sum>p\<leftarrow>prevs tx. coin_val a (the (rd_coin base p))) = coin_sum a sel" for a
  proof -
    have "(\<Sum>p\<leftarrow>prevs tx. coin_val a (the (rd_coin base p))) = sum_list (map (coin_val a) (map (\<lambda>p. the (rd_coin base p)) (prevs tx)))"
      by (simp add: comp_def)
    also have "\<dots> = coin_sum a sel" unfolding coins by (simp add: coin_sum_def coin_val_def ledger_coin_def comp_def)
    finally show ?thesis .
  qed
  have "unat fee \<le> coin_sum QNT_ASSET sel" using s(10) [of QNT_ASSET] by simp
  also have "\<dots> \<le> coin_sum QNT_ASSET (wallet_coins w)" using in_w by (intro coin_sum_subset) auto
  also note led(3)
  finally have fee: "fee \<le> MAX_MONEY" by (simp add: word_le_nat_alt)
  show "\<exists>v. view_apply cr base tx (word_of_int (tp + 1)) (genesis_hash (w_p w)) True empty_view = Inr (fee, v)"
  proof (rule payment_accepted)
    show "\<not> is_coinbase tx" using s(2,5,7) by (simp add: is_coinbase_def)
    show "\<forall>p\<in>set (prevs tx). \<exists>c. rd_coin base p = Some c \<and> mature cr (genesis_hash (w_p w)) (word_of_int (tp + 1)) c"
      using held in_w(1) wallet_mature [OF led(2)] by (auto simp: pv)
    show "verify_witness cr tx (map (\<lambda>p. the (rd_coin base p)) (prevs tx)) (genesis_hash (w_p w)) = Inr ()" unfolding coins by (rule wit)
    show "(\<Sum>p\<leftarrow>prevs tx. coin_val a (the (rd_coin base p))) = out_sum a (outs tx) + (if a = QNT_ASSET then unat fee else 0)" for a
      unfolding cs by (rule s(10))
  qed (use s(3,5,7,8,9) dist sz fee in simp_all)
qed

lemma create_tx_plan:
  assumes "create_tx cr dests fpk tp sub w = (w', Inr r)"
  obtains pl where "build_tx cr pl tp fpk w = (w', Inr r)" "pay_plan w tp pl"
proof -
  obtain os where os: "check_dests w dests = Inr os" "dests \<noteq> []" "\<not> (sub \<and> \<not> is_qnt (os ! 0))"
    "build_tx cr (blank_plan\<lparr>pl_outs := os, pl_subtract_fee := sub\<rparr>) tp fpk w = (w', Inr r)"
    using assms by (auto simp: create_tx_def split: if_splits sum.splits)
  have "os \<noteq> []" using os(1,2) by (cases dests) (auto simp: rbind_eq_Inr)
  with os(3,4) show thesis by (intro that) (auto simp: pay_plan_def blank_plan_def)
qed

lemma create_sweep_plan:
  assumes "create_sweep cr address fpk tp w = (w', Inr r)" "coins_keyed w"
  obtains pl where "build_tx cr pl tp fpk w = (w', Inr r)" "pay_plan w tp pl"
proof -
  let ?cs = "filter (\<lambda>c. is_qnt (wc_out c) \<and> spendable w tp c) (wallet_coins w)"
  obtain h where b: "build_tx cr (blank_plan\<lparr>pl_sweep := True, pl_sweep_coins := ?cs,
      pl_outs := [\<lparr>o_value = 0, o_asset = QNT_ASSET, o_addr = h\<rparr>]\<rparr>) tp fpk w = (w', Inr r)"
    using assms(1) by (auto simp: create_sweep_def Let_def split: if_splits option.splits)
  have "chosen_from w tp ?cs" using wallet_coins_distinct(1) [OF assms(2)] by (auto simp: chosen_from_def distinct_map)
  with b show thesis by (intro that) (auto simp: pay_plan_def blank_plan_def)
qed

end
