(* ===== verification/Wallet_File.thy ===== *)
theory Wallet_File
  imports Wallet_Laws
begin

text \<open>
  The wallet file (\<open>src/src/wallet/wallet.cpp\<close>, lines 16 to 261): key stretching, sealing and
  unsealing, the byte format, and creating, opening and saving a wallet. The bytes of \<open>os_random\<close> are
  arguments, and the static variables of \<open>seal\<close> are the record \<open>seal_cache\<close>. A write to the
  temporary file is described by \<open>fs_ok\<close> (can it be opened) and by the number of bytes that the device takes.
\<close>

section \<open>File encryption\<close>

definition KDF_ROUNDS :: u32 where "KDF_ROUNDS = 300000"

definition kdf :: "crypto \<Rightarrow> string \<Rightarrow> bytes \<Rightarrow> u32 \<Rightarrow> hash256" where
  "kdf cr pw salt n =
     ((\<lambda>k. blake3_tagged cr ''Quant v1 wallet file kdf round'' (hash_bytes k @ salt)) ^^ unat n)
       (blake3_tagged cr ''Quant v1 wallet file kdf'' (salt @ string_bytes pw))"

definition keystream_xor :: "crypto \<Rightarrow> hash256 \<Rightarrow> bytes \<Rightarrow> bytes \<Rightarrow> bytes" where
  "keystream_xor cr k nonce data =
     map2 (XOR) data (xof_lib cr ''Quant v1 wallet file stream'' (hash_bytes k @ nonce) (length data))"

record seal_cache =
  sc_pw :: string
  sc_salt :: bytes
  sc_key :: hash256
  sc_cached :: bool

definition no_cache :: seal_cache where
  "no_cache = \<lparr>sc_pw = [], sc_salt = replicate 16 0, sc_key = hash_zero, sc_cached = False\<rparr>"

definition seal :: "crypto \<Rightarrow> bytes \<Rightarrow> bytes \<Rightarrow> bytes \<Rightarrow> string \<Rightarrow> seal_cache \<Rightarrow> bytes \<times> seal_cache" where
  "seal cr rnd_salt nonce plain pw c =
     (let c = (if \<not> sc_cached c \<or> sc_pw c \<noteq> pw
               then \<lparr>sc_pw = pw, sc_salt = rnd_salt, sc_key = kdf cr pw rnd_salt KDF_ROUNDS, sc_cached = True\<rparr>
               else c);
          ek = keyed_lib cr (sc_key c) (string_bytes ''enc'');
          mk = keyed_lib cr (sc_key c) (string_bytes ''mac'');
          buf = string_bytes ''QWAL'' @ w_u8 1 @ sc_salt c @ w_u32le KDF_ROUNDS @ nonce @ w_bytes (keystream_xor cr ek nonce plain)
      in (buf @ w_hash (keyed_lib cr mk buf), c))"

definition unseal :: "crypto \<Rightarrow> bytes \<Rightarrow> string \<Rightarrow> string + bytes" where
  "unseal cr file pw =
     (if length file < 4 + 1 + 16 + 4 + 16 + 1 + 32 then Inl ''short''
      else
        (let body = take (length file - 32) file in
         rbind (r_raw 4 body) (\<lambda>(magic, r).
         if magic \<noteq> string_bytes ''QWAL'' then Inl ''not a Quant wallet'' else
         rbind (r_u8 r) (\<lambda>(ver, r).
         if ver \<noteq> 1 then Inl ''not a Quant wallet'' else
         rbind (r_raw 16 r) (\<lambda>(salt, r).
         rbind (r_u32le r) (\<lambda>(n, r).
         rbind (r_raw 16 r) (\<lambda>(nonce, r).
         rbind (r_bytes 268435456 r) (\<lambda>(ct, r).
         let k = kdf cr pw salt n;
             ek = keyed_lib cr k (string_bytes ''enc'');
             mk = keyed_lib cr k (string_bytes ''mac'');
             mac = keyed_lib cr mk body
         in if hash_bytes mac \<noteq> drop (length file - 32) file then Inl ''wrong password (or corrupted wallet file)''
            else Inr (keystream_xor cr ek nonce ct))))))))) "

section \<open>The byte format\<close>

definition flag_byte :: "bool \<Rightarrow> bytes" where
  "flag_byte b = w_u8 (if b then 1 else 0)"

definition w_i64 :: "int \<Rightarrow> bytes" where
  "w_i64 i = w_u64le (word_of_int i)"

definition write_key :: "wallet_key \<Rightarrow> bytes" where
  "write_key k = w_varint (ucast (wk_index k)) @ wk_pk k @ wk_sk k @ w_str (wk_label k) @ flag_byte (wk_issued k)"

definition write_wcoin :: "outpoint \<times> wallet_coin \<Rightarrow> bytes" where
  "write_wcoin = (\<lambda>(p, c). w_hash (op_txid p) @ w_varint (ucast (op_n p)) @ write_txout (wc_out c)
     @ w_i64 (wc_height c) @ flag_byte (wc_coinbase c) @ flag_byte (wc_locked c))"

definition write_delta :: "hash256 \<times> int \<Rightarrow> bytes" where
  "write_delta = (\<lambda>(a, d). w_hash a @ w_i64 d)"

definition write_history :: "hash256 \<times> wallet_tx \<Rightarrow> bytes" where
  "write_history = (\<lambda>(h, t). w_hash (wt_txid t) @ w_i64 (wt_height t) @ w_i64 (wt_time t) @ w_i64 (wt_delta t)
     @ w_varint (wt_fee t) @ w_str (wt_counterparty t) @ w_str (wt_note t) @ flag_byte (wt_coinbase t)
     @ w_str (wt_kind t) @ w_counted write_delta (walk (wt_token_delta t)))"

definition write_contact :: "contact \<Rightarrow> bytes" where
  "write_contact c = w_str (ct_name c) @ w_str (ct_address c)"

definition wallet_serialize :: "wallet \<Rightarrow> bytes" where
  "wallet_serialize w = w_u32le 3 @ w_str (p_name (w_p w)) @ w_str (w_mnemonic w) @ w_str (w_passphrase w)
     @ w_varint (word_of_int (w_birth_height w)) @ w_hash (w_synced_tip w) @ w_i64 (w_synced_height w)
     @ w_varint (ucast (w_next_index w))
     @ w_counted write_key (w_keys w)
     @ w_counted write_wcoin (walk (w_coins w))
     @ w_counted write_history (walk (w_history w))
     @ w_counted write_contact (w_contacts w)"

definition r_i64 :: "int reader" where
  "r_i64 r = rbind (r_u64le r) (\<lambda>(v, r). Inr (sint v, r))"

definition r_flag :: "bool reader" where
  "r_flag r = rbind (r_u8 r) (\<lambda>(v, r). Inr (v \<noteq> 0, r))"

definition read_key :: "crypto \<Rightarrow> wallet_key reader" where
  "read_key cr r =
     rbind (r_varint r) (\<lambda>(i, r).
     rbind (r_raw FALCON_PK_BYTES r) (\<lambda>(pk, r).
     rbind (r_raw FALCON_SK_BYTES r) (\<lambda>(sk, r).
     rbind (r_str 200 r) (\<lambda>(label, r).
     rbind (r_flag r) (\<lambda>(issued, r).
     Inr (\<lparr>wk_index = ucast i, wk_pk = pk, wk_sk = sk, wk_addr = address_hash cr pk, wk_label = label, wk_issued = issued\<rparr>, r))))))"

definition read_wcoin :: "(outpoint \<times> wallet_coin) reader" where
  "read_wcoin r =
     rbind (r_hash r) (\<lambda>(tid, r).
     rbind (r_varint r) (\<lambda>(n, r).
     rbind (read_txout r) (\<lambda>(out, r).
     rbind (r_i64 r) (\<lambda>(h, r).
     rbind (r_flag r) (\<lambda>(cb, r).
     rbind (r_flag r) (\<lambda>(lk, r).
     let p = OutPoint tid (ucast n)
     in Inr ((p, \<lparr>wc_op = p, wc_out = out, wc_height = h, wc_coinbase = cb, wc_locked = lk\<rparr>), r)))))))"

definition read_delta :: "(hash256 \<times> int) reader" where
  "read_delta r = rbind (r_hash r) (\<lambda>(a, r). rbind (r_i64 r) (\<lambda>(d, r). Inr ((a, d), r)))"

text \<open>\<open>m[k] = v\<close> for every entry read.\<close>

definition put_all :: "('k \<times> 'v) list \<Rightarrow> ('k \<times> 'v) list \<Rightarrow> ('k \<times> 'v) list" where
  "put_all xs m = fold (\<lambda>(k, v). AList.update k v) xs m"

definition read_history :: "(hash256 \<times> wallet_tx) reader" where
  "read_history r =
     rbind (r_hash r) (\<lambda>(tid, r).
     rbind (r_i64 r) (\<lambda>(h, r).
     rbind (r_i64 r) (\<lambda>(time, r).
     rbind (r_i64 r) (\<lambda>(delta, r).
     rbind (r_varint r) (\<lambda>(fee, r).
     rbind (r_str 200 r) (\<lambda>(cp, r).
     rbind (r_str 1000 r) (\<lambda>(note, r).
     rbind (r_flag r) (\<lambda>(cb, r).
     rbind (r_str 32 r) (\<lambda>(kind, r).
     rbind (r_counted 1000 read_delta r) (\<lambda>(ds, r).
     Inr ((tid, \<lparr>wt_txid = tid, wt_height = h, wt_time = time, wt_delta = delta, wt_token_delta = put_all ds [], wt_fee = fee,
             wt_counterparty = cp, wt_note = note, wt_coinbase = cb, wt_kind = kind\<rparr>), r)))))))))))"

definition read_contact :: "contact reader" where
  "read_contact r =
     rbind (r_str 200 r) (\<lambda>(name, r). rbind (r_str 200 r) (\<lambda>(address, r). Inr (\<lparr>ct_name = name, ct_address = address\<rparr>, r)))"

text \<open>A \<open>return false\<close> and an exception have the same effect.\<close>

definition read_wallet :: "crypto \<Rightarrow> wallet \<Rightarrow> wallet reader" where
  "read_wallet cr w r =
     rbind (r_u32le r) (\<lambda>(ver, r).
     if ver \<noteq> 3 then Inl ''version'' else
     rbind (r_str 32 r) (\<lambda>(name, r).
     if name \<noteq> p_name (w_p w) then Inl ''network'' else
     rbind (r_str 1000 r) (\<lambda>(words, r).
     rbind (r_str 1000 r) (\<lambda>(passphrase, r).
     rbind (r_varint r) (\<lambda>(birth, r).
     rbind (r_hash r) (\<lambda>(tp, r).
     rbind (r_i64 r) (\<lambda>(height, r).
     rbind (r_varint r) (\<lambda>(nxt, r).
     rbind (r_counted_any (read_key cr) r) (\<lambda>(ks, r).
     rbind (r_counted_any read_wcoin r) (\<lambda>(cs, r).
     rbind (r_counted_any read_history r) (\<lambda>(hs, r).
     rbind (r_counted_any read_contact r) (\<lambda>(cts, r).
     Inr (fold push_key ks
            (w\<lparr>w_mnemonic := words, w_passphrase := passphrase, w_master := mnemonic_to_master cr words passphrase,
               w_birth_height := sint birth, w_synced_tip := tp, w_synced_height := height, w_next_index := ucast nxt,
               w_keys := [], w_by_addr := [], w_coins := put_all cs (w_coins w), w_history := put_all hs (w_history w),
               w_contacts := w_contacts w @ cts\<rparr>), r)))))))))))))"

definition wallet_deserialize :: "crypto \<Rightarrow> bytes \<Rightarrow> wallet \<Rightarrow> wallet option" where
  "wallet_deserialize cr b w = (case read_wallet cr w b of Inl e \<Rightarrow> None | Inr (w, r) \<Rightarrow> Some w)"

section \<open>Create, open, save\<close>

definition wallet_exists :: "filesys \<Rightarrow> string \<Rightarrow> bool" where
  "wallet_exists fs path \<longleftrightarrow> read_file fs path \<noteq> None"

definition fs_rename :: "string \<Rightarrow> string \<Rightarrow> filesys \<Rightarrow> filesys \<times> bool" where
  "fs_rename a b fs =
     (case read_file fs a of
        Some d \<Rightarrow> if fs_ok fs b then (fs\<lparr>fs_files := AList.update b d (AList.delete a (fs_files fs))\<rparr>, True) else (fs, False)
      | None \<Rightarrow> (fs, False))"

text \<open>What \<open>save\<close> takes from the system: random bytes, and how many bytes the device takes.\<close>

record save_env =
  se_salt :: bytes
  se_nonce :: bytes
  se_space :: nat

definition wallet_save :: "crypto \<Rightarrow> save_env \<Rightarrow> wallet \<Rightarrow> seal_cache \<times> filesys \<Rightarrow> bool \<times> seal_cache \<times> filesys" where
  "wallet_save cr e w = (\<lambda>(c, fs).
     let (data, c) = seal cr (se_salt e) (se_nonce e) (wallet_serialize w) (w_password w) c;
         tmp = w_path w @ ''.tmp''
     in if \<not> fs_ok fs tmp then (False, c, fs)
        else
          (let fs = fs\<lparr>fs_files := AList.update tmp (take (se_space e) data) (fs_files fs)\<rparr> in
           if se_space e < length data then (False, c, fs)
           else (let (fs, ok) = fs_rename tmp (w_path w) fs in (ok, c, fs))))"

definition wallet_open :: "crypto \<Rightarrow> string \<Rightarrow> chain_params \<Rightarrow> string \<Rightarrow> filesys \<Rightarrow> string + wallet" where
  "wallet_open cr path p password fs =
     (case read_file fs path of
        None \<Rightarrow> Inl (''cannot open '' @ path)
      | Some file \<Rightarrow>
          (case unseal cr file password of
             Inl e \<Rightarrow> Inl e
           | Inr plain \<Rightarrow>
               (case wallet_deserialize cr plain ((blank_wallet p)\<lparr>w_path := path, w_password := password\<rparr>) of
                  None \<Rightarrow> Inl ''wallet file is corrupted or for another network''
                | Some w \<Rightarrow> Inr w)))"

definition wallet_create ::
  "crypto \<Rightarrow> string list \<Rightarrow> save_env \<Rightarrow> string \<Rightarrow> chain_params \<Rightarrow> string \<Rightarrow> string \<Rightarrow> string \<Rightarrow> int \<Rightarrow> seal_cache \<times> filesys \<Rightarrow>
   (string + wallet) \<times> seal_cache \<times> filesys" where
  "wallet_create cr table e path p mnemonic passphrase password birth s =
     (if \<not> mnemonic_valid cr table mnemonic then (Inl ''invalid seed words (check spelling / word count / checksum)'', s)
      else
        (let w = wallet_fresh cr path p mnemonic passphrase password birth;
             (ok, s) = wallet_save cr e w s
         in (if ok then Inr w else Inl (''cannot write wallet file '' @ path), s)))"

definition change_password ::
  "crypto \<Rightarrow> save_env \<Rightarrow> string \<Rightarrow> string \<Rightarrow> wallet \<Rightarrow> seal_cache \<times> filesys \<Rightarrow> bool \<times> wallet \<times> seal_cache \<times> filesys" where
  "change_password cr e old_pw new_pw w s =
     (if old_pw \<noteq> w_password w then (False, w, s)
      else
        (let w = w\<lparr>w_password := new_pw\<rparr>;
             (ok, s) = wallet_save cr e w s
         in (ok, w, s)))"

end
