(* ===== verification/Wallet_Reopen.thy ===== *)
theory Wallet_Reopen
  imports Wallet_File
begin

text \<open>
  What the wallet file promises: a sealed text unseals to itself under its password, the byte format
  reads back, a saved wallet opens as the same wallet, and a save that fails leaves the old file.
\<close>

section \<open>Sealing\<close>

text \<open>The extendable output of BLAKE3 has the length asked for.\<close>

definition xof_fills :: "crypto \<Rightarrow> bool" where
  "xof_fills cr \<longleftrightarrow> (\<forall>c b n. length (xof_lib cr c b n) = n)"

lemma keystream_length: "xof_fills cr \<Longrightarrow> length (keystream_xor cr k nonce d) = length d"
  by (simp add: keystream_xor_def xof_fills_def)

lemma keystream_twice: "xof_fills cr \<Longrightarrow> keystream_xor cr k nonce (keystream_xor cr k nonce d) = d"
  by (rule nth_equalityI) (simp_all add: keystream_xor_def xof_fills_def xor.assoc)

definition cache_ok :: "crypto \<Rightarrow> seal_cache \<Rightarrow> bool" where
  "cache_ok cr c \<longleftrightarrow> sc_cached c \<longrightarrow> length (sc_salt c) = 16 \<and> sc_key c = kdf cr (sc_pw c) (sc_salt c) KDF_ROUNDS"

lemma sealed_parts:
  assumes "cache_ok cr c" "length salt = 16" "seal cr salt nonce plain pw c = (file, c')"
  shows "cache_ok cr c'" "sc_cached c'" "sc_pw c' = pw" "length (sc_salt c') = 16" "sc_key c' = kdf cr pw (sc_salt c') KDF_ROUNDS"
    "file = (let k = kdf cr pw (sc_salt c') KDF_ROUNDS;
        buf = string_bytes ''QWAL'' @ w_u8 1 @ sc_salt c' @ w_u32le KDF_ROUNDS @ nonce
          @ w_bytes (keystream_xor cr (keyed_lib cr k (string_bytes ''enc'')) nonce plain)
      in buf @ w_hash (keyed_lib cr (keyed_lib cr k (string_bytes ''mac'')) buf))"
  using assms by (auto simp: seal_def cache_ok_def Let_def split: if_splits)

lemma unseal_body:
  assumes x: "xof_fills cr" and n: "length plain \<le> 268435456" and s: "length salt = 16" "length nonce = 16"
    and buf: "buf = string_bytes ''QWAL'' @ w_u8 1 @ salt @ w_u32le m @ nonce
      @ w_bytes (keystream_xor cr (keyed_lib cr (kdf cr pw salt m) (string_bytes ''enc'')) nonce plain)"
  shows "unseal cr (buf @ w_hash (keyed_lib cr (keyed_lib cr (kdf cr pw salt m) (string_bytes ''mac'')) buf)) pw = Inr plain"
proof -
  let ?ct = "keystream_xor cr (keyed_lib cr (kdf cr pw salt m) (string_bytes ''enc'')) nonce plain"
  have ct: "length ?ct \<le> unat (268435456 :: u64)" using n keystream_length [OF x] by simp
  have h: "length (w_hash h) = 32" for h by (simp add: w_hash_def)
  have q: "length (string_bytes ''QWAL'') = 4" by (simp add: string_bytes_def)
  have "length (w_varint v) \<ge> 1" for v by (subst w_varint.simps) (simp add: Let_def)
  then have l: "length buf \<ge> 42" using s q by (simp add: buf w_u8_def w_u32le_def w_bytes_def Suc_le_eq)
  have t: "take (length (buf @ w_hash h) - 32) (buf @ w_hash h) = buf" "drop (length (buf @ w_hash h) - 32) (buf @ w_hash h) = hash_bytes h" for h
    by (simp_all add: h, simp add: w_hash_def)
  show ?thesis
    using l s ct q unfolding unseal_def t Let_def
    by (simp add: h) (simp add: buf rawc.rd_wr codec_simps bytesc.rd_all keystream_twice [OF x])
qed

lemma unseal_seal:
  assumes "xof_fills cr" "cache_ok cr c" "length salt = 16" "length nonce = 16" "length plain \<le> 268435456"
    "seal cr salt nonce plain pw c = (file, c')"
  shows "unseal cr file pw = Inr plain"
  using unseal_body [OF assms(1,5) sealed_parts(4) [OF assms(2,3,6)] assms(4) refl] sealed_parts(6) [OF assms(2,3,6)]
  by (simp add: Let_def)

section \<open>The byte format\<close>

definition i64_ok :: "int \<Rightarrow> bool" where
  "i64_ok i \<longleftrightarrow> - (2 ^ 63) \<le> i \<and> i < 2 ^ 63"

lemma sint_i64: "i64_ok i \<Longrightarrow> sint (word_of_int i :: u64) = i"
  by (simp add: i64_ok_def sint_sbintrunc' signed_take_bit_int_eq_self)

interpretation i64r: reads_back w_i64 r_i64 i64_ok
  by unfold_locales (simp add: w_i64_def r_i64_def codec_simps sint_i64)

interpretation flagr: reads_back flag_byte r_flag "\<lambda>_. True"
  by unfold_locales (auto simp: flag_byte_def r_flag_def codec_simps)

definition key_ok :: "crypto \<Rightarrow> wallet_key \<Rightarrow> bool" where
  "key_ok cr k \<longleftrightarrow> length (wk_pk k) = FALCON_PK_BYTES \<and> length (wk_sk k) = FALCON_SK_BYTES
     \<and> wk_addr k = address_hash cr (wk_pk k) \<and> length (wk_label k) \<le> 200"

interpretation keyr: reads_back write_key "read_key cr" "key_ok cr" for cr
  by unfold_locales (simp add: write_key_def read_key_def key_ok_def rawc.rd_wr codec_simps flagr.rd_wr)

definition coin_ok :: "outpoint \<times> wallet_coin \<Rightarrow> bool" where
  "coin_ok = (\<lambda>(p, c). wc_op c = p \<and> i64_ok (wc_height c))"

interpretation coinr: reads_back write_wcoin read_wcoin coin_ok
proof
  show "read_wcoin (write_wcoin x @ r) = Inr (x, r)" if "coin_ok x" for x r
    using that by (cases x; cases "fst x")
      (auto simp: write_wcoin_def read_wcoin_def coin_ok_def codec_simps i64r.rd_wr flagr.rd_wr Let_def)
qed

interpretation deltar: reads_back write_delta read_delta "\<lambda>(a, d). i64_ok d"
  by unfold_locales (auto simp: write_delta_def read_delta_def codec_simps i64r.rd_wr)

lemma update_new: "k \<notin> fst ` set m \<Longrightarrow> AList.update k v m = m @ [(k, v)]"
  by (induction m) auto

lemma put_all_append: "distinct (map fst (m @ xs)) \<Longrightarrow> put_all xs m = m @ xs"
proof (induction xs arbitrary: m)
  case (Cons x xs)
  then have "fst x \<notin> fst ` set m" "distinct (map fst ((m @ [x]) @ xs))" by auto
  with Cons.IH [of "m @ [x]"] show ?case
    by (cases x) (simp add: put_all_def update_new)
qed (simp add: put_all_def)

lemma put_all_new: "distinct (map fst xs) \<Longrightarrow> put_all xs [] = xs"
  using put_all_append [of "[]" xs] by simp

definition history_ok :: "hash256 \<times> wallet_tx \<Rightarrow> bool" where
  "history_ok = (\<lambda>(h, t). wt_txid t = h \<and> i64_ok (wt_height t) \<and> i64_ok (wt_time t) \<and> i64_ok (wt_delta t)
     \<and> length (wt_counterparty t) \<le> 200 \<and> length (wt_note t) \<le> 1000 \<and> length (wt_kind t) \<le> 32
     \<and> length (wt_token_delta t) \<le> 1000 \<and> sorted (map fst (wt_token_delta t)) \<and> distinct (map fst (wt_token_delta t))
     \<and> list_all (\<lambda>(a, d). i64_ok d) (wt_token_delta t))"

lemma walk_sorted: "sorted (map fst m) \<Longrightarrow> walk m = m"
  by (simp add: walk_def sort_key_id_if_sorted)

interpretation historyr: reads_back write_history read_history history_ok
proof
  show "read_history (write_history x @ r) = Inr (x, r)" if "history_ok x" for x r
    using that by (cases x)
      (simp add: write_history_def read_history_def history_ok_def codec_simps i64r.rd_wr flagr.rd_wr
        walk_sorted deltar.r_counted_wr put_all_new)
qed

definition contact_ok :: "contact \<Rightarrow> bool" where
  "contact_ok c \<longleftrightarrow> length (ct_name c) \<le> 200 \<and> length (ct_address c) \<le> 200"

interpretation contactr: reads_back write_contact read_contact contact_ok
  by unfold_locales (simp add: write_contact_def read_contact_def contact_ok_def codec_simps)

section \<open>The whole wallet\<close>

text \<open>A wallet that the file can hold: the limits are those that \<open>deserialize\<close> puts on its reads.\<close>

definition file_ok :: "crypto \<Rightarrow> wallet \<Rightarrow> bool" where
  "file_ok cr w \<longleftrightarrow> length (p_name (w_p w)) \<le> 32 \<and> length (w_mnemonic w) \<le> 1000 \<and> length (w_passphrase w) \<le> 1000
     \<and> w_master w = mnemonic_to_master cr (w_mnemonic w) (w_passphrase w) \<and> i64_ok (w_birth_height w) \<and> i64_ok (w_synced_height w)
     \<and> list_all (key_ok cr) (w_keys w) \<and> list_all coin_ok (w_coins w) \<and> distinct (map fst (w_coins w))
     \<and> list_all history_ok (w_history w) \<and> distinct (map fst (w_history w)) \<and> list_all contact_ok (w_contacts w)
     \<and> length (wallet_serialize w) \<le> 268435456"

lemma counted_length: "(\<And>x. wr x \<noteq> []) \<Longrightarrow> length xs \<le> length (w_counted wr xs)"
proof -
  assume n: "\<And>x. wr x \<noteq> []"
  have "length xs \<le> length (concat (map wr xs))"
  proof (induction xs)
    case (Cons x xs)
    then show ?case using n [of x] by (cases "wr x") auto
  qed simp
  then show ?thesis by (simp add: w_counted_def)
qed

lemma varint_nonempty: "w_varint v \<noteq> []"
  by (subst w_varint.simps) simp

lemma entries_nonempty: "write_key k \<noteq> []" "write_wcoin x \<noteq> []" "write_history y \<noteq> []" "write_contact c \<noteq> []"
  by (auto simp: write_key_def write_wcoin_def write_history_def write_contact_def w_hash_def w_str_def varint_nonempty
    flag_byte_def w_u8_def split: prod.splits)

lemma walk_set [simp]: "set (walk m) = set m" "length (walk m) = length m"
  by (simp_all add: walk_def)

lemma walk_distinct: "distinct (map fst m) \<Longrightarrow> distinct (map fst (walk m))"
  by (simp add: walk_def distinct_map)

lemma walk_walk [simp]: "walk (walk m) = walk m"
  by (rule walk_sorted) (simp add: walk_def)

lemma walk_map_of: "distinct (map fst m) \<Longrightarrow> map_of (walk m) = map_of m"
  by (rule map_of_eqI) (auto simp: walk_distinct image_iff map_of_eq_None_iff dest: map_of_SomeD)

lemma file_ok_lengths:
  assumes "file_ok cr w"
  shows "length (w_keys w) < 2 ^ 64" "length (w_coins w) < 2 ^ 64" "length (w_history w) < 2 ^ 64" "length (w_contacts w) < 2 ^ 64"
  using assms counted_length [of write_key "w_keys w"] counted_length [of write_wcoin "walk (w_coins w)"]
    counted_length [of write_history "walk (w_history w)"] counted_length [of write_contact "w_contacts w"] entries_nonempty
  by (simp_all add: file_ok_def wallet_serialize_def)

definition index_keys :: "wallet_key list \<Rightarrow> (hash256 \<times> nat) list" where
  "index_keys ks = put_all (zip (map wk_addr ks) [0..<length ks]) []"

lemma fold_push_key:
  "fold push_key ks w = w\<lparr>w_keys := w_keys w @ ks,
     w_by_addr := put_all (zip (map wk_addr ks) [length (w_keys w)..<length (w_keys w) + length ks]) (w_by_addr w)\<rparr>"
proof (induction ks arbitrary: w)
  case (Cons k ks)
  have "[length (w_keys w)..<length (w_keys w) + length (k # ks)] = length (w_keys w) # [Suc (length (w_keys w))..<Suc (length (w_keys w)) + length ks]"
    by (simp add: upt_conv_Cons del: upt_Suc)
  then show ?case by (simp add: Cons.IH del: upt_Suc) (simp add: push_key_def put_all_def del: upt_Suc)
qed (simp add: put_all_def)

definition reopened :: "wallet \<Rightarrow> wallet" where
  "reopened w = w\<lparr>w_by_addr := index_keys (w_keys w), w_coins := walk (w_coins w), w_history := walk (w_history w)\<rparr>"

lemma deserialize_serialize:
  assumes "file_ok cr w"
  shows "wallet_deserialize cr (wallet_serialize w) ((blank_wallet (w_p w))\<lparr>w_path := w_path w, w_password := w_password w\<rparr>) = Some (reopened w)"
proof -
  note l = file_ok_lengths [OF assms]
  have k: "r_counted_any (read_key cr) (w_counted write_key (w_keys w) @ r) = Inr (w_keys w, r)" for r
    using assms by (intro keyr.r_counted_any_wr) (simp_all add: file_ok_def l [simplified])
  have c: "r_counted_any read_wcoin (w_counted write_wcoin (walk (w_coins w)) @ r) = Inr (walk (w_coins w), r)" for r
    using assms by (intro coinr.r_counted_any_wr) (simp_all add: file_ok_def l [simplified] list_all_iff)
  have h: "r_counted_any read_history (w_counted write_history (walk (w_history w)) @ r) = Inr (walk (w_history w), r)" for r
    using assms by (intro historyr.r_counted_any_wr) (simp_all add: file_ok_def l [simplified] list_all_iff)
  have ct: "r_counted_any read_contact (w_counted write_contact (w_contacts w)) = Inr (w_contacts w, [])"
    using contactr.r_counted_any_wr [of "w_contacts w" "[]"] l assms by (simp add: file_ok_def)
  show ?thesis
    using assms unfolding wallet_deserialize_def read_wallet_def wallet_serialize_def
    by (simp add: file_ok_def blank_wallet_def codec_simps i64r.rd_wr k c h ct fold_push_key reopened_def index_keys_def
      sint_i64 put_all_new walk_distinct)
qed

lemma index_keys_ok: "index_of_ok (reopened w)"
proof -
  let ?b = "w\<lparr>w_keys := [], w_by_addr := []\<rparr>"
  have "index_of_ok (fold push_key ks ?b)" for ks
    by (induction ks rule: rev_induct) (simp_all add: push_key_index, simp add: index_of_ok_def watched_addresses_def)
  then have "index_of_ok (fold push_key (w_keys w) ?b)" .
  moreover have "index_of_ok (reopened w) = index_of_ok (fold push_key (w_keys w) ?b)"
    by (rule index_of_cong) (simp_all add: fold_push_key reopened_def index_keys_def watched_addresses_def)
  ultimately show ?thesis by simp
qed

text \<open>The wallet read back is the same wallet: the same keys, coins, history, addresses and balance.\<close>

definition same_wallet :: "wallet \<Rightarrow> wallet \<Rightarrow> bool" where
  "same_wallet w w' \<longleftrightarrow> w_p w' = w_p w \<and> w_path w' = w_path w \<and> w_password w' = w_password w \<and> w_mnemonic w' = w_mnemonic w
     \<and> w_passphrase w' = w_passphrase w \<and> w_master w' = w_master w \<and> w_keys w' = w_keys w \<and> w_next_index w' = w_next_index w
     \<and> map_of (w_coins w') = map_of (w_coins w) \<and> map_of (w_history w') = map_of (w_history w) \<and> w_contacts w' = w_contacts w
     \<and> w_birth_height w' = w_birth_height w \<and> w_synced_tip w' = w_synced_tip w \<and> w_synced_height w' = w_synced_height w"

lemma reopened_same: "file_ok cr w \<Longrightarrow> same_wallet w (reopened w)"
  by (simp add: file_ok_def same_wallet_def reopened_def walk_map_of)

lemma reopened_ok: "file_ok cr w \<Longrightarrow> wallet_ok cr w \<Longrightarrow> wallet_ok cr (reopened w)"
  using index_keys_ok [of w] reopened_same [of cr w]
  by (simp add: wallet_ok_def keys_ok_def coins_keyed_def same_wallet_def) (simp add: reopened_def al_distinct_def file_ok_def walk_distinct)

lemma reopened_views: "history (reopened w) = history w" "wallet_balance (reopened w) tp = wallet_balance w tp"
  "index_of_ok w \<Longrightarrow> is_mine (reopened w) a = is_mine w a"
  using index_keys_ok [of w]
  by (simp_all add: reopened_def history_def wallet_balance_def wallet_coins_def is_mine_watched) (simp add: watched_addresses_def)

section \<open>Saving and opening\<close>

lemma tmp_differs [simp]: "w_path w @ ''.tmp'' \<noteq> w_path w" "w_path w \<noteq> w_path w @ ''.tmp''"
  by simp_all

lemma read_file_rename:
  assumes "fs_rename a b fs = (fs', ok)" "a \<noteq> b"
  shows "ok \<longleftrightarrow> read_file fs a \<noteq> None \<and> fs_ok fs b" "\<not> ok \<Longrightarrow> fs' = fs" "ok \<Longrightarrow> read_file fs' b = read_file fs a"
    "p \<noteq> a \<Longrightarrow> p \<noteq> b \<Longrightarrow> read_file fs' p = read_file fs p"
  using assms by (auto simp: fs_rename_def read_file_def update_conv' delete_conv' split: option.splits if_splits)

text \<open>When a save succeeds, and what it leaves in the files.\<close>

lemma save_result:
  assumes "wallet_save cr e w (c, fs) = (ok, c', fs')"
    and "seal cr (se_salt e) (se_nonce e) (wallet_serialize w) (w_password w) c = (data, c1)"
  shows "c' = c1" "ok \<longleftrightarrow> fs_ok fs (w_path w @ ''.tmp'') \<and> fs_ok fs (w_path w) \<and> length data \<le> se_space e"
    "ok \<Longrightarrow> read_file fs' (w_path w) = Some data"
    "\<not> ok \<Longrightarrow> read_file fs' (w_path w) = read_file fs (w_path w)"
    "p \<noteq> w_path w \<Longrightarrow> p \<noteq> w_path w @ ''.tmp'' \<Longrightarrow> read_file fs' p = read_file fs p"
  using assms
  by (auto simp: wallet_save_def fs_rename_def read_file_def update_conv' delete_conv' Let_def split: if_splits)

lemma open_saved:
  assumes "xof_fills cr" "cache_ok cr c" "length (se_salt e) = 16" "length (se_nonce e) = 16" "length (wallet_serialize w) \<le> 268435456"
    and "wallet_save cr e w (c, fs) = (True, c', fs')"
  shows "wallet_open cr (w_path w) (w_p w) (w_password w) fs' =
    (case wallet_deserialize cr (wallet_serialize w) ((blank_wallet (w_p w))\<lparr>w_path := w_path w, w_password := w_password w\<rparr>) of
       None \<Rightarrow> Inl ''wallet file is corrupted or for another network'' | Some w \<Rightarrow> Inr w)"
    "cache_ok cr c'"
proof -
  obtain data c1 where s: "seal cr (se_salt e) (se_nonce e) (wallet_serialize w) (w_password w) c = (data, c1)" by force
  show "cache_ok cr c'" using save_result(1) [OF assms(6) s] sealed_parts(1) [OF assms(2,3) s] by simp
  show "wallet_open cr (w_path w) (w_p w) (w_password w) fs' =
    (case wallet_deserialize cr (wallet_serialize w) ((blank_wallet (w_p w))\<lparr>w_path := w_path w, w_password := w_password w\<rparr>) of
       None \<Rightarrow> Inl ''wallet file is corrupted or for another network'' | Some w \<Rightarrow> Inr w)"
    using save_result(3) [OF assms(6) s] unseal_seal [OF assms(1-5) s] by (simp add: wallet_open_def)
qed

section \<open>Labels beyond the limit of the reader\<close>

lemma r_str_too_long:
  assumes "unat mx < length s" "length s < 2 ^ 64"
  shows "\<exists>e. r_str mx (w_str s @ r) = Inl e"
proof (cases "r_str mx (w_str s @ r)")
  case (Inr x)
  obtain s' r' where "x = (s', r')" by force
  with Inr have x: "length s' \<le> unat mx" "w_str s @ r = w_str s' @ r'" using strc.rd_iff by auto
  have "s = s'"
    using strc.wr_prefix_free [of s "-1" s' r r'] x assms by (simp add: unsigned_minus_1_eq_mask mask_eq_exp_minus_1)
  with x(1) assms(1) show ?thesis by simp
qed simp

text \<open>A list fails at the first element that cannot be read.\<close>

lemma r_list_fails:
  assumes "\<And>x r. ok x \<Longrightarrow> rd (wr x @ r) = Inr (x, r)" "\<And>r. \<exists>e. rd (wr y @ r) = Inl e" "list_all ok xs"
  shows "\<exists>e. r_list rd (length (xs @ y # ys)) (concat (map wr (xs @ y # ys)) @ r) = Inl e"
  using assms(3)
proof (induction xs)
  case Nil
  obtain e where "rd (wr y @ concat (map wr ys) @ r) = Inl e" using assms(2) by blast
  then show ?case by (simp)
next
  case (Cons x xs)
  then obtain e where "r_list rd (length (xs @ y # ys)) (concat (map wr (xs @ y # ys)) @ r) = Inl e" by auto
  with Cons.prems assms(1) [of x] show ?case by (simp)
qed

lemma r_keys_fail:
  assumes "list_all (key_ok cr) xs" "length (wk_pk k) = FALCON_PK_BYTES" "length (wk_sk k) = FALCON_SK_BYTES"
    "200 < length (wk_label k)" "length (wk_label k) < 2 ^ 64" "length (xs @ k # ys) < 2 ^ 64"
  shows "\<exists>e. r_counted_any (read_key cr) (w_counted write_key (xs @ k # ys) @ r) = Inl e"
proof -
  have "\<exists>e. read_key cr (write_key k @ r) = Inl e" for r
    using assms(2,3) r_str_too_long [of 200 "wk_label k" "flag_byte (wk_issued k) @ r"] assms(4,5)
    by (auto simp: read_key_def write_key_def rawc.rd_wr codec_simps)
  from r_list_fails [OF keyr.rd_wr this assms(1)] obtain e where
    "r_list (read_key cr) (length (xs @ k # ys)) (concat (map write_key (xs @ k # ys)) @ r) = Inl e" by blast
  moreover have "unat (of_nat (length (xs @ k # ys)) :: u64) = length (xs @ k # ys)"
    using assms(6) unfolding unat_of_nat by (intro mod_less) (simp only: len_of_numeral_defs, simp)
  ultimately show ?thesis
    by (simp add: r_counted_any_def w_counted_def varintc.rd_wr)
qed

text \<open>Handing out an address changes the keys, the next index and the address index.\<close>

lemma derive_more_frame:
  "\<exists>ks ix. derive_more cr n w = w\<lparr>w_keys := w_keys w @ ks, w_by_addr := ix\<rparr> \<and> list_all (\<lambda>k. wk_label k = []) ks"
proof (induction n arbitrary: w)
  case 0
  show ?case by (intro exI [of _ "[]"] exI [of _ "w_by_addr w"]) simp
next
  case (Suc n)
  let ?k = "derive_key cr (w_master w) (of_nat (length (w_keys w)))"
  obtain ks ix where "derive_more cr n (push_key ?k w) = (push_key ?k w)\<lparr>w_keys := w_keys (push_key ?k w) @ ks, w_by_addr := ix\<rparr>"
    "list_all (\<lambda>k. wk_label k = []) ks" using Suc by blast
  then show ?case by (intro exI [of _ "?k # ks"] exI [of _ ix]) (simp add: push_key_def)
qed

lemma new_address_frame:
  assumes "unat (w_next_index w) < length (w_keys w)"
  shows "\<exists>ks ix. snd (new_address cr label w) = w\<lparr>w_next_index := w_next_index w + 1, w_by_addr := ix,
    w_keys := take (unat (w_next_index w)) (w_keys w)
      @ (w_keys w ! unat (w_next_index w))\<lparr>wk_issued := True, wk_label := label\<rparr> # ks\<rparr>
    \<and> (\<forall>k\<in>set ks. wk_label k = [] \<or> k \<in> set (w_keys w))"
proof -
  let ?i = "unat (w_next_index w)" and ?f = "\<lambda>k. k\<lparr>wk_issued := True, wk_label := label\<rparr>"
  obtain ks ix where d: "derive_until cr (w_next_index w + 1 + LOOKAHEAD) w = w\<lparr>w_keys := w_keys w @ ks, w_by_addr := ix\<rparr>"
    "list_all (\<lambda>k. wk_label k = []) ks" unfolding derive_until_def using derive_more_frame by blast
  have "(w_keys w @ ks)[?i := ?f ((w_keys w @ ks) ! ?i)] = take ?i (w_keys w) @ ?f (w_keys w ! ?i) # drop (Suc ?i) (w_keys w) @ ks"
    using assms by (simp add: upd_conv_take_nth_drop nth_append)
  then show ?thesis
    by (intro exI [of _ "drop (Suc ?i) (w_keys w) @ ks"] exI [of _ ix])
      (use d(2) in \<open>auto simp: new_address_def d(1) upd_key_def Let_def list_all_iff dest: in_set_dropD\<close>)
qed

lemma long_label_unreadable:
  assumes "file_ok cr w" "wallet_ok cr w" "200 < length label" "length (wallet_serialize (snd (new_address cr label w))) \<le> 268435456"
  shows "wallet_deserialize cr (wallet_serialize (snd (new_address cr label w)))
    ((blank_wallet (w_p w))\<lparr>w_path := w_path w, w_password := w_password w\<rparr>) = None"
proof -
  let ?i = "unat (w_next_index w)"
  have i: "?i < length (w_keys w)" using assms(2) by (simp add: wallet_ok_parts)
  obtain ks ix where n: "snd (new_address cr label w) = w\<lparr>w_next_index := w_next_index w + 1, w_by_addr := ix,
    w_keys := take ?i (w_keys w) @ (w_keys w ! ?i)\<lparr>wk_issued := True, wk_label := label\<rparr> # ks\<rparr>"
    using new_address_frame [OF i] by blast
  let ?k = "(w_keys w ! ?i)\<lparr>wk_issued := True, wk_label := label\<rparr>"
  let ?ks = "take ?i (w_keys w) @ ?k # ks"
  have len: "length (w_counted write_key ?ks) \<le> 268435456"
    using assms(4) by (simp add: n wallet_serialize_def)
  then have "length ?ks \<le> 268435456" using counted_length [of write_key ?ks] entries_nonempty(1) by (meson le_trans)
  moreover have "length label \<le> length (w_counted write_key ?ks)"
    by (simp add: w_counted_def write_key_def w_str_def)
  ultimately have l: "length ?ks < 2 ^ 64" "length label < 2 ^ 64" using len by simp_all
  have ok: "list_all (key_ok cr) (take ?i (w_keys w))" "key_ok cr (w_keys w ! ?i)"
    using assms(1) i by (auto simp: file_ok_def list_all_iff dest: in_set_takeD)
  obtain e where e: "r_counted_any (read_key cr) (w_counted write_key ?ks @ w_counted write_wcoin (walk (w_coins w))
     @ w_counted write_history (walk (w_history w)) @ w_counted write_contact (w_contacts w)) = Inl e"
    using r_keys_fail [OF ok(1), of ?k ks] ok(2) assms(3) l unfolding key_ok_def by force
  show ?thesis
    using assms(1) unfolding wallet_deserialize_def read_wallet_def wallet_serialize_def n
    by (simp add: file_ok_def blank_wallet_def codec_simps i64r.rd_wr e)
qed

section \<open>Wallets that were just created\<close>

text \<open>Falcon keys have their documented sizes.\<close>

definition falcon_sizes :: "crypto \<Rightarrow> bool" where
  "falcon_sizes cr \<longleftrightarrow> (\<forall>s. length (fst (falcon_keypair_lib cr s)) = FALCON_PK_BYTES \<and> length (snd (falcon_keypair_lib cr s)) = FALCON_SK_BYTES)"

lemma derived_sizes:
  assumes "falcon_sizes cr" "derived cr w" "k \<in> set (w_keys w)"
  shows "length (wk_pk k) = FALCON_PK_BYTES" "length (wk_sk k) = FALCON_SK_BYTES" "wk_addr k = address_hash cr (wk_pk k)"
proof -
  obtain i where "i < length (w_keys w)" "k = w_keys w ! i" using assms(3) by (auto simp: in_set_conv_nth)
  then have "same_key k (derive_key cr (w_master w) (of_nat i))" using assms(2) by (simp add: derived_def)
  then show "length (wk_pk k) = FALCON_PK_BYTES" "length (wk_sk k) = FALCON_SK_BYTES" "wk_addr k = address_hash cr (wk_pk k)"
    using assms(1) by (simp_all add: same_key_def derive_key_def keypair_from_seed_def falcon_sizes_def split: prod.splits)
      (metis fst_conv snd_conv)+
qed

lemma counted_bound: "(\<And>x. x \<in> set xs \<Longrightarrow> length (wr x) \<le> b) \<Longrightarrow> length (w_counted wr xs) \<le> 10 + b * length xs"
proof -
  assume b: "\<And>x. x \<in> set xs \<Longrightarrow> length (wr x) \<le> b"
  have "length (concat (map wr xs)) \<le> b * length xs"
    using b by (induction xs) force+
  then show ?thesis using w_varint_length10 [of "of_nat (length xs)"] by (simp add: w_counted_def)
qed

lemma fresh_serialize_bound:
  assumes "falcon_sizes cr" "derived cr w" "w_coins w = []" "w_history w = []" "w_contacts w = []"
    and "length (p_name (w_p w)) \<le> 32" "length (w_mnemonic w) \<le> 1000" "length (w_passphrase w) \<le> 1000"
    and "\<And>k. k \<in> set (w_keys w) \<Longrightarrow> length (wk_label k) \<le> l"
  shows "length (wallet_serialize w) \<le> 2300 + (2299 + l) * length (w_keys w)"
proof -
  have "length (write_key k) \<le> 2299 + l" if "k \<in> set (w_keys w)" for k
    using derived_sizes [OF assms(1,2) that] assms(9) [OF that] w_varint_length10 [of "ucast (wk_index k)"]
      w_varint_length10 [of "of_nat (length (wk_label k))"]
    by (simp add: write_key_def FALCON_PK_BYTES_def FALCON_SK_BYTES_def w_str_def flag_byte_def w_u8_def)
  then have "length (w_counted write_key (w_keys w)) \<le> 10 + (2299 + l) * length (w_keys w)" by (rule counted_bound)
  then show ?thesis
    using assms(3-8) w_varint_length10 [of 0] w_varint_length10 [of "of_nat (length (p_name (w_p w)))"]
      w_varint_length10 [of "of_nat (length (w_mnemonic w))"] w_varint_length10 [of "of_nat (length (w_passphrase w))"]
      w_varint_length10 [of "word_of_int (w_birth_height w)"] w_varint_length10 [of "ucast (w_next_index w)"]
    by (simp add: wallet_serialize_def w_str_def w_hash_def w_i64_def w_u32le_def w_u64le_def w_counted_def walk_def)
qed

lemma new_address_labels:
  assumes "unat (w_next_index w) < length (w_keys w)" "\<And>k. k \<in> set (w_keys w) \<Longrightarrow> length (wk_label k) \<le> l" "length label \<le> l"
    and "k \<in> set (w_keys (snd (new_address cr label w)))"
  shows "length (wk_label k) \<le> l"
proof -
  obtain ks ix where "snd (new_address cr label w) = w\<lparr>w_next_index := w_next_index w + 1, w_by_addr := ix,
      w_keys := take (unat (w_next_index w)) (w_keys w) @ (w_keys w ! unat (w_next_index w))\<lparr>wk_issued := True, wk_label := label\<rparr> # ks\<rparr>"
    and "\<forall>k\<in>set ks. wk_label k = [] \<or> k \<in> set (w_keys w)"
    using new_address_frame [OF assms(1)] by blast
  with assms(2-4) show ?thesis by (fastforce dest: in_set_takeD)
qed

lemma fresh_frame:
  "\<exists>ix ks. wallet_fresh cr path p mnemonic passphrase password birth =
     (blank_wallet p)\<lparr>w_path := path, w_password := password, w_mnemonic := mnemonic_normalize mnemonic, w_passphrase := passphrase,
       w_master := mnemonic_to_master cr (mnemonic_normalize mnemonic) passphrase, w_birth_height := birth,
       w_next_index := 1, w_by_addr := ix, w_keys := ks\<rparr> \<and> (\<forall>k\<in>set ks. length (wk_label k) \<le> 7)"
proof -
  define b where "b = (blank_wallet p)\<lparr>w_path := path, w_password := password, w_mnemonic := mnemonic_normalize mnemonic, w_passphrase := passphrase,
       w_master := mnemonic_to_master cr (mnemonic_normalize mnemonic) passphrase, w_birth_height := birth\<rparr>"
  define w where "w = derive_until cr LOOKAHEAD b"
  obtain ks ix where d: "w = b\<lparr>w_keys := ks, w_by_addr := ix\<rparr>" "list_all (\<lambda>k. wk_label k = []) ks"
    using derive_more_frame [of cr "unat LOOKAHEAD - length (w_keys b)" b] by (auto simp: w_def derive_until_def b_def blank_wallet_def)
  have "derived cr b" "index_of_ok b" by (simp_all add: b_def blank_wallet_def derived_def index_of_ok_def watched_addresses_def)
  then have "length (w_keys w) = max (unat LOOKAHEAD) (length (w_keys b))" "w_next_index w = w_next_index b"
    unfolding w_def by (rule derive_until_law)+
  then have i: "unat (w_next_index w) < length (w_keys w)" by (simp add: LOOKAHEAD_def b_def blank_wallet_def)
  have k: "length (wk_label k) \<le> 7" if "k \<in> set (w_keys (snd (new_address cr ''default'' w)))" for k
    by (rule new_address_labels [OF i _ _ that]) (use d in \<open>auto simp: list_all_iff\<close>)
  have e: "wallet_fresh cr path p mnemonic passphrase password birth = snd (new_address cr ''default'' w)"
    by (simp add: wallet_fresh_def Let_def b_def w_def)
  obtain ix' ks' where n: "snd (new_address cr ''default'' w) = w\<lparr>w_next_index := w_next_index w + 1, w_by_addr := ix', w_keys := ks'\<rparr>"
    using new_address_frame [OF i, of cr "''default''"] by blast
  show ?thesis
    unfolding e by (intro exI [of _ ix'] exI [of _ ks'] conjI, unfold n) (use k n d in \<open>simp_all add: b_def blank_wallet_def\<close>)
qed

lemma fresh_file_ok:
  assumes "falcon_sizes cr" "length (p_name p) \<le> 32" "length (mnemonic_normalize mnemonic) \<le> 1000" "length passphrase \<le> 1000" "i64_ok birth"
  shows "file_ok cr (wallet_fresh cr path p mnemonic passphrase password birth)"
proof -
  let ?w = "wallet_fresh cr path p mnemonic passphrase password birth"
  obtain ix ks where f: "?w = (blank_wallet p)\<lparr>w_path := path, w_password := password, w_mnemonic := mnemonic_normalize mnemonic,
       w_passphrase := passphrase, w_master := mnemonic_to_master cr (mnemonic_normalize mnemonic) passphrase, w_birth_height := birth,
       w_next_index := 1, w_by_addr := ix, w_keys := ks\<rparr>" "\<forall>k\<in>set ks. length (wk_label k) \<le> 7"
    using fresh_frame by blast
  have d: "derived cr ?w" using wallet_fresh_ok by (simp add: wallet_ok_parts)
  have n: "length ks = 21" using wallet_fresh_keys(1) [of cr path p mnemonic passphrase password birth] f(1) by simp
  have "length (wallet_serialize ?w) \<le> 2300 + (2299 + 7) * length (w_keys ?w)"
    by (rule fresh_serialize_bound [OF assms(1) d]) (use assms f in \<open>simp_all add: blank_wallet_def\<close>)
  moreover have "list_all (key_ok cr) ks"
    using derived_sizes [OF assms(1) d] f by (fastforce simp: list_all_iff key_ok_def)
  ultimately show ?thesis
    using assms n by (simp add: file_ok_def f(1)) (simp add: blank_wallet_def i64_ok_def)
qed

lemma fresh_label_bound:
  assumes "falcon_sizes cr" "length (p_name p) \<le> 32" "length (mnemonic_normalize mnemonic) \<le> 1000" "length passphrase \<le> 1000"
    and "length label \<le> 10000"
  shows "length (wallet_serialize (snd (new_address cr label (wallet_fresh cr path p mnemonic passphrase password birth)))) \<le> 268435456"
proof -
  let ?w = "wallet_fresh cr path p mnemonic passphrase password birth" and ?w' = "snd (new_address cr label (wallet_fresh cr path p mnemonic passphrase password birth))"
  obtain ix ks where f: "?w = (blank_wallet p)\<lparr>w_path := path, w_password := password, w_mnemonic := mnemonic_normalize mnemonic,
       w_passphrase := passphrase, w_master := mnemonic_to_master cr (mnemonic_normalize mnemonic) passphrase, w_birth_height := birth,
       w_next_index := 1, w_by_addr := ix, w_keys := ks\<rparr>" "\<forall>k\<in>set ks. length (wk_label k) \<le> 7"
    using fresh_frame by blast
  have n: "length (w_keys ?w) = 21" by (rule wallet_fresh_keys)
  have i: "unat (w_next_index ?w) < length (w_keys ?w)" unfolding n by (simp add: f(1))
  have wi: "w_next_index ?w = 1" by (simp add: f(1))
  have o: "derived cr ?w" "index_of_ok ?w" "coins_keyed ?w" "room ?w" "unat (w_next_index ?w) \<le> length (w_keys ?w)"
    using wallet_fresh_ok [of cr path p mnemonic passphrase password birth] i by (simp_all add: wallet_ok_parts room_def n)
  note a = new_address_law [OF o, of label]
  have l: "length (wk_label k) \<le> 10000" if "k \<in> set (w_keys ?w')" for k
    by (rule new_address_labels [OF i _ assms(5) that]) (use f in force)
  have fr: "w_coins ?w' = []" "w_history ?w' = []" "w_contacts ?w' = []" "w_p ?w' = p"
    "w_mnemonic ?w' = mnemonic_normalize mnemonic" "w_passphrase ?w' = passphrase"
    using new_address_frame [OF i, of cr label] f(1) by (auto simp: blank_wallet_def)
  have "length (wallet_serialize ?w') \<le> 2300 + (2299 + 10000) * length (w_keys ?w')"
    by (rule fresh_serialize_bound [OF assms(1) _ fr(1-3)]) (use fr assms l a(1) in \<open>simp_all add: wallet_ok_parts\<close>)
  moreover have "length (w_keys ?w') \<le> 22" using a(7) n wi by simp
  ultimately show ?thesis by simp
qed

text \<open>A wallet that was created opens.\<close>

lemma created_wallet_opens:
  assumes "xof_fills cr" "cache_ok cr c" "length (se_salt e) = 16" "length (se_nonce e) = 16"
    and "falcon_sizes cr" "length (p_name p) \<le> 32" "length (mnemonic_normalize mnemonic) \<le> 1000" "length passphrase \<le> 1000" "i64_ok birth"
    and "wallet_create cr table e path p mnemonic passphrase password birth (c, fs) = (Inr w, c', fs')"
  shows "\<exists>w'. wallet_open cr path p password fs' = Inr w' \<and> same_wallet w w' \<and> wallet_ok cr w'"
proof -
  have w: "w = wallet_fresh cr path p mnemonic passphrase password birth" "wallet_save cr e w (c, fs) = (True, c', fs')"
    using assms(10) by (auto simp: wallet_create_def Let_def split: if_splits prod.splits)
  have ok: "file_ok cr w" unfolding w(1) by (rule fresh_file_ok [OF assms(5-9)])
  have f: "w_path w = path" "w_p w = p" "w_password w = password"
    using fresh_frame [of cr path p mnemonic passphrase password birth] by (auto simp: w(1) blank_wallet_def)
  have "length (wallet_serialize w) \<le> 268435456" using ok by (simp add: file_ok_def)
  from open_saved(1) [OF assms(1-4) this w(2)] show ?thesis
    using deserialize_serialize [OF ok] reopened_same [OF ok] reopened_ok [OF ok] wallet_fresh_ok by (simp add: f, simp add: w(1))
qed

section \<open>Coins put in place of the old ones\<close>

lemma set_update: "set (AList.update k v m) \<subseteq> insert (k, v) (set m)"
  by (induction m) auto

lemma add_coin_coins: "w_coins (w_add_coin cr c w) = AList.update (wc_op c) c (w_coins w)"
proof -
  have "w_coins (derive_until cr n w) = w_coins w" for n w
    using derive_more_frame [of cr "unat n - length (w_keys w)" w] by (auto simp: derive_until_def)
  then show ?thesis by (simp add: w_add_coin_def upd_key_def Let_def split: option.split)
qed

lemma replaced_coins:
  assumes "x \<in> set (w_coins (replace_coins cr cs w))"
  shows "snd x \<in> set cs \<and> wc_op (snd x) = fst x"
proof -
  have "set (w_coins (fold (w_add_coin cr) cs w')) \<subseteq> set (w_coins w') \<union> (\<lambda>c. (wc_op c, c)) ` set cs" for w'
  proof (induction cs arbitrary: w')
    case (Cons c cs)
    have "set (w_coins (w_add_coin cr c w')) \<subseteq> insert (wc_op c, c) (set (w_coins w'))"
      using set_update [of "wc_op c" c "w_coins w'"] by (simp add: add_coin_coins)
    with Cons.IH [of "w_add_coin cr c w'"] show ?case by auto
  qed simp
  from this [of "w\<lparr>w_coins := []\<rparr>"] assms show ?thesis by (auto simp: replace_coins_def)
qed

lemma add_coin_watched: "prefix (watched_addresses w) (watched_addresses (w_add_coin cr c w))"
proof -
  have d: "prefix (watched_addresses w) (watched_addresses (derive_until cr n w))" for n w
    using derive_more_frame [of cr "unat n - length (w_keys w)" w] by (auto simp: derive_until_def watched_addresses_def)
  have u: "watched_addresses (upd_key i (\<lambda>k. k\<lparr>wk_issued := True, wk_label := f k\<rparr>) w) = watched_addresses w" for i f w
    by (rule upd_key_law(3)) (simp add: same_key_def)
  have e: "watched_addresses (w\<lparr>w_coins := x\<rparr>) = watched_addresses w" "watched_addresses (w\<lparr>w_next_index := n\<rparr>) = watched_addresses w" for x n w
    by (simp_all add: watched_addresses_def)
  show ?thesis
    by (auto simp: w_add_coin_def Let_def split: option.split intro!: prefix_order.trans [OF _ d]) (simp_all add: u e)
qed

lemma replace_coins_watched: "prefix (watched_addresses w) (watched_addresses (replace_coins cr cs w))"
proof -
  have "prefix (watched_addresses w') (watched_addresses (fold (w_add_coin cr) cs w'))" for w'
    by (induction cs arbitrary: w') (auto intro: prefix_order.trans [OF add_coin_watched])
  from this [of "w\<lparr>w_coins := []\<rparr>"] show ?thesis by (simp add: replace_coins_def watched_addresses_def)
qed

lemma replace_coins_fold: "w_coins (replace_coins cr cs w) = fold (\<lambda>c. AList.update (wc_op c) c) cs []"
proof -
  have "w_coins (fold (w_add_coin cr) cs w') = fold (\<lambda>c. AList.update (wc_op c) c) cs (w_coins w')" for w'
    by (induction cs arbitrary: w') (simp_all add: add_coin_coins)
  then show ?thesis by (simp add: replace_coins_def)
qed

text \<open>Coins with outpoints of their own are all kept.\<close>

lemma fold_update_coins:
  assumes "inj_on wc_op (set cs)"
  shows "map_of (fold (\<lambda>c. AList.update (wc_op c) c) cs m) p = Some c
    \<longleftrightarrow> c \<in> set cs \<and> wc_op c = p \<or> p \<notin> wc_op ` set cs \<and> map_of m p = Some c"
  using assms
proof (induction cs arbitrary: m)
  case (Cons x cs)
  have "inj_on wc_op (set cs)" using Cons.prems by simp
  from Cons.IH [OF this, of "AList.update (wc_op x) x m"] Cons.prems show ?case
    by (auto simp: update_conv' inj_on_def)
qed simp

lemma replace_coins_all:
  "inj_on wc_op (set cs) \<Longrightarrow> map_of (w_coins (replace_coins cr cs w)) p = Some c \<longleftrightarrow> c \<in> set cs \<and> wc_op c = p"
  by (simp add: replace_coins_fold fold_update_coins)

end
