(* ===== verification/Examples.thy ===== *)
theory Examples
  imports Miner_Threads Miner_Valid Protocol Wallet_Pays Wallet_Reopen
begin

text \<open>
  Concrete inputs at which the properties of the development are exercised: an instance of the
  cryptographic parameters that computes (it is not secure, and nothing relies on that), and a
  regtest node that has its genesis block on the active chain and the data of one more block on disk.
\<close>

section \<open>Cryptography that computes\<close>

text \<open>A hash is a tag and the sum of the bytes; every signature is accepted.\<close>

definition toy_hash :: "u8 \<Rightarrow> bytes \<Rightarrow> hash256" where
  "toy_hash tag b = hash_of [tag, fold (+) b 0]"

definition toy :: crypto where
  "toy = \<lparr>blake3_lib = toy_hash 1, derive_key_lib = \<lambda>c. toy_hash 2, keyed_lib = \<lambda>k. toy_hash 3,
     xof_lib = \<lambda>c b n. replicate n 0, sha256_lib = toy_hash 4, falcon_verify_lib = \<lambda>sig msg pk. True,
     falcon_sign_lib = \<lambda>msg sk. Some [1], falcon_keypair_lib = \<lambda>seed. (replicate 897 0, replicate 1281 0)\<rparr>"

section \<open>A node with one block to connect\<close>

definition ex_header :: "hash256 \<Rightarrow> u64 \<Rightarrow> block_header" where
  "ex_header prv nonce = \<lparr>h_version = 2, h_prev = prv, merkle_root_f = hash_zero, witness_root_f = hash_zero,
     state_commit = hash_zero, h_time = 0, h_bits = 0x207fffff, h_nonce = nonce\<rparr>"

definition ex_coinbase :: "u64 \<Rightarrow> txout list \<Rightarrow> transaction" where
  "ex_coinbase height os = \<lparr>t_version = 2, ins = [], outs = os, ops = [], lock_height = height, extra = [7], wits = []\<rparr>"

definition ex_genesis :: hash256 where
  "ex_genesis = hash_of [9]"

definition ex_block :: "txout list \<Rightarrow> block" where
  "ex_block os = \<lparr>header = ex_header ex_genesis 1, txs = [ex_coinbase 1 os]\<rparr>"

definition ex_tip :: hash256 where
  "ex_tip = header_hash toy (ex_header ex_genesis 1)"

definition ex_params :: chain_params where
  "ex_params = (build_switch Regtest)\<lparr>genesis_hash := ex_genesis\<rparr>"

definition ex_node :: "txout list \<Rightarrow> chainstate" where
  "ex_node os =
     (Chainstate_new ex_params ''d'' True
        \<lparr>fs_files = [(''d/blocks.dat'', block_core_bytes (ex_block os)),
                     (''d/witness/'' @ hash_hex ex_tip @ ''.w'', block_witness_bytes (ex_block os))],
         fs_ok = \<lambda>_. True\<rparr> 1790121600 emission_init)
       \<lparr>cs_index := [(ex_genesis, blank_index\<lparr>bi_hash := ex_genesis, bi_header := ex_header hash_zero 0, bi_prev := None,
                        bi_children := [ex_tip], bi_have_data := True, bi_chain_data := True\<rparr>),
                     (ex_tip, blank_index\<lparr>bi_hash := ex_tip, bi_header := ex_header ex_genesis 1, bi_prev := Some ex_genesis,
                        bi_height := 1, bi_chainwork := u256_of 2, bi_seq := 1, bi_have_data := True, bi_chain_data := True,
                        bi_data_len := of_nat (length (block_core_bytes (ex_block os)))\<rparr>)],
        cs_chain := [ex_genesis], cs_next_seq := 2, cs_best_header := Some ex_tip, cs_candidates := [ex_genesis, ex_tip]\<rparr>"

lemma ex_neq [simp]: "ex_tip \<noteq> ex_genesis" "ex_genesis \<noteq> ex_tip"
  by code_simp+

lemma ex_fields [simp]:
  "cs_st (ex_node os) = clear_state" "cs_chain (ex_node os) = [ex_genesis]" "cs_p (ex_node os) = ex_params"
  "cs_dir (ex_node os) = ''d''" "cs_em (ex_node os) = emission_init" "cs_snapshot_hash (ex_node os) = []"
  "cs_best_header (ex_node os) = Some ex_tip" "fs_ok (cs_fs (ex_node os)) p"
  "cs_candidates (ex_node os) = [ex_genesis, ex_tip]" "the_tip (ex_node os) = ex_genesis"
  by (simp_all add: ex_node_def Chainstate_new_def the_tip_def)

lemma ex_known [simp]: "known (ex_node os) h \<longleftrightarrow> h = ex_genesis \<or> h = ex_tip"
  by (auto simp: known_def ex_node_def)

lemma ex_deref:
  "deref (ex_node os) ex_genesis = blank_index\<lparr>bi_hash := ex_genesis, bi_header := ex_header hash_zero 0, bi_prev := None,
     bi_children := [ex_tip], bi_have_data := True, bi_chain_data := True\<rparr>"
  "deref (ex_node os) ex_tip = blank_index\<lparr>bi_hash := ex_tip, bi_header := ex_header ex_genesis 1, bi_prev := Some ex_genesis,
     bi_height := 1, bi_chainwork := u256_of 2, bi_seq := 1, bi_have_data := True, bi_chain_data := True,
     bi_data_len := of_nat (length (block_core_bytes (ex_block os)))\<rparr>"
  by (simp_all add: deref_def ex_node_def)

lemma ex_index [simp]:
  "bi_hash (deref (ex_node os) ex_genesis) = ex_genesis" "bi_hash (deref (ex_node os) ex_tip) = ex_tip"
  "bi_prev (deref (ex_node os) ex_genesis) = None" "bi_prev (deref (ex_node os) ex_tip) = Some ex_genesis"
  "b_height (ex_node os) ex_genesis = 0" "b_height (ex_node os) ex_tip = 1"
  "bi_children (deref (ex_node os) ex_genesis) = [ex_tip]" "bi_children (deref (ex_node os) ex_tip) = []"
  "bi_skip (deref (ex_node os) h) = None" "\<not> bi_from_snapshot (deref (ex_node os) h)"
  by (simp_all add: ex_deref blank_index_def) (simp_all add: deref_def ex_node_def blank_index_def)

lemma ex_tree [simp]: "tree_ok (ex_node os)" "refs_ok (ex_node os)"
proof -
  have "al_distinct (cs_index (ex_node os))" by (simp add: al_distinct_def ex_node_def)
  moreover have "node_ok (ex_node os) ex_genesis" "node_ok (ex_node os) ex_tip"
    unfolding node_ok_def by (auto simp: eq_commute [of "Some ex_genesis"])
  moreover have "chain_ok (ex_node os)" by (simp add: chain_ok_def)
  ultimately show "tree_ok (ex_node os)" by (auto simp: tree_ok_def index_ok_def)
  show "refs_ok (ex_node os)" by (auto simp: refs_ok_def ex_params_def)
qed

lemma ex_block_ok: "length os \<le> 10 \<Longrightarrow> block_ok (ex_block os)"
  by (simp add: block_ok_def ex_block_def core_ok_def witness_ok_def limit_defs ex_coinbase_def)

lemma ex_core_length: "length os \<le> 10 \<Longrightarrow> length (block_core_bytes (ex_block os)) \<le> 2000"
proof -
  assume os: "length os \<le> 10"
  have t: "length (write_txout out) \<le> 100" for out
    using w_varint_length10 [of "o_value out"] by (simp add: write_txout_def w_u8_def w_hash_def w_bytes_def)
  have "length (concat (map write_txout os)) \<le> 100 * length os"
    by (induction os) (use t in \<open>auto simp: add_mono\<close>)
  with os have "length (concat (map write_txout os)) \<le> 1000" by simp
  with w_varint_length10 [of 1] w_varint_length10 [of 2] w_varint_length10 [of 0] w_varint_length10 [of "of_nat (length os)"]
  show ?thesis
    by (simp add: block_core_bytes_def ex_block_def ex_coinbase_def w_counted_def write_core_def HEADER_SIZE_def w_bytes_def)
qed

lemma ex_read: 
  assumes "length os \<le> 10"
  shows "read_block toy (ex_node os) ex_tip True = Some (ex_block os, True)"
proof -
  let ?b = "ex_block os"
  have l: "unat (of_nat (length (block_core_bytes ?b)) :: u32) = length (block_core_bytes ?b)"
    using ex_core_length [OF assms] by (simp add: unat_of_nat)
  have f: "read_file (cs_fs (ex_node os)) ''d/blocks.dat'' = Some (block_core_bytes ?b)"
    "read_file (cs_fs (ex_node os)) (witness_path (ex_node os) ex_tip) = Some (block_witness_bytes ?b)"
    by (simp_all add: read_file_def ex_node_def Chainstate_new_def witness_path_def)
  have n: "bi_have_data (deref (ex_node os) ex_tip)" "bi_data_pos (deref (ex_node os) ex_tip) = 0"
    "bi_data_len (deref (ex_node os) ex_tip) = of_nat (length (block_core_bytes ?b))"
    by (simp_all add: ex_deref blank_index_def)
  have r: "read_block_core (block_core_bytes ?b) = Inr (?b, [])"
    using ex_block_ok [OF assms] coresc.rd_wr [of "txs ?b" "of_nat (MAX_BLOCK_SIZE div 40)" "[]"]
    by (simp add: read_block_core_def block_core_bytes_def headerc.rd_wr block_ok_def unat_max_txs)
      (simp add: ex_block_def ex_coinbase_def)
  have w: "read_block_witness ?b (block_witness_bytes ?b) = Inr (?b, [])"
    using read_witnesses_wr [of "txs ?b" "[]"] ex_block_ok [OF assms]
    by (simp add: read_block_witness_def block_witness_bytes_def block_ok_def ex_block_def ex_coinbase_def)
  have h: "header_hash toy (header ?b) = ex_tip" by (simp add: ex_block_def ex_tip_def)
  show ?thesis using f r w h n l by (simp add: read_block_def Let_def)
qed

lemma ex_state [simp]: "us_coin clear_state = (\<lambda>p. None)" "us_pool clear_state = (\<lambda>t. None)"
  by (simp_all add: clear_state_def us_coin_def us_pool_def fun_eq_iff)

lemma ex_ledger [simp]: "state_ok (us_reader clear_state)" "asset_total a (us_reader clear_state) = 0"
  by (simp_all add: state_ok_def us_reader_def pools_ok_def asset_total_def map_total_def)

lemma ex_good: "block_good toy ew (us_reader clear_state) (ex_block os)"
  by (simp add: block_good_def ex_block_def ex_coinbase_def is_coinbase_def block_fresh_def us_reader_def)

lemma ex_commit [simp]: "\<not> commit_mismatch (ex_node os) ex_tip"
  by (simp add: commit_mismatch_def is_commit_height_def ex_params_def)

lemma ex_ids: "ids_nonzero toy"
proof -
  have "toy_hash 2 b \<noteq> hash_zero" for b
    by (simp add: toy_hash_def hash_zero_def hash_bytes_eq_iff [symmetric] hash_bytes_hash_of numeral_eq_Suc)
  then show ?thesis
    by (simp add: ids_nonzero_def pool_share_id_def token_id_def blake3_tagged_def toy_def QNT_ASSET_def)
qed

definition ex_out :: "amount \<Rightarrow> txout" where
  "ex_out v = \<lparr>o_value = v, o_asset = QNT_ASSET, o_addr = hash_of [5]\<rparr>"

lemma ex_subsidy: "fst (block_subsidy 1 emission_init) = 89406967163"
  by code_simp

lemma ex_connect: "snd (connect_block toy ex_tip (ex_node [ex_out 5])) = Inr ()"
  using ex_read [of "[ex_out 5]"] ex_subsidy
  by (simp add: connect_block_def Let_def ex_block_def ex_coinbase_def total_qnt_out_def ex_out_def is_qnt_def QNT_ASSET_def
      write_undo_def write_cs_def write_file_atomic_def split: prod.splits) fastforce

section \<open>A payment\<close>

text \<open>One coin of a million units, and a signed transaction that spends it at a fee of 100000.\<close>

definition ex_pk :: bytes where
  "ex_pk = replicate 897 0"

definition ex_point :: outpoint where
  "ex_point = OutPoint (hash_of [8]) 0"

definition ex_coin :: coin where
  "ex_coin = \<lparr>c_out = \<lparr>o_value = 1000000, o_asset = QNT_ASSET, o_addr = address_hash toy ex_pk\<rparr>, c_height = 1, c_coinbase = False\<rparr>"

definition ex_base :: reader_state where
  "ex_base = \<lparr>rd_coin = [ex_point \<mapsto> ex_coin], rd_token = \<lambda>_. None, rd_pool = \<lambda>_. None\<rparr>"

definition ex_tx :: transaction where
  "ex_tx = \<lparr>t_version = 2, ins = [\<lparr>prev = ex_point\<rparr>], outs = [ex_out 900000], ops = [], lock_height = 0, extra = [],
     wits = [WitnessFalcon ex_pk [1]]\<rparr>"

lemma ex_tx_valid: "check_tx_basic ex_tx True = Inr ()" "core_ok ex_tx"
  by code_simp+

lemma ex_base_ok [simp]: "state_ok ex_base"
  by (simp add: state_ok_def ex_base_def pools_ok_def)

lemma ex_apply_fee: "(case view_apply toy ex_base ex_tx 5 ex_genesis True empty_view of Inr (fee, v) \<Rightarrow> fee = 100000 | Inl e \<Rightarrow> False)"
  by code_simp

lemma ex_apply: obtains v where "view_apply toy ex_base ex_tx 5 ex_genesis True empty_view = Inr (100000, v)"
  using ex_apply_fee by (auto split: sum.splits)

lemma ex_view_inv: "view_inv empty_view"
  using view_good_empty [OF ex_base_ok] by (simp add: view_good_def)

lemma ex_fresh: "fresh_txid ex_base empty_view (txid toy ex_tx)"
proof -
  have "txid toy ex_tx \<noteq> hash_of [8]" by code_simp
  then show ?thesis by (simp add: fresh_empty ex_base_def ex_point_def)
qed

lemma ex_connected:
  obtains cs' where "connect_block toy ex_tip (ex_node [ex_out 5]) = (cs', Inr ())"
  using ex_connect by (metis prod.collapse)

lemma ex_paid: "qnt_paid (hd (txs (ex_block [ex_out 5]))) = 5"
  by (simp add: ex_block_def ex_coinbase_def qnt_paid_def ex_out_def out_val_def)

lemma ex_ops [simp]: "ops ex_tx = []"
  by (simp add: ex_tx_def)

section \<open>An empty pool\<close>

lemma ex_pool: "mp_ok cr Mempool_new" "mp_inv cr cs Mempool_new"
  by (simp_all add: mp_ok_def mp_inv_def executes_def Mempool_new_def mp_txids_def)

lemma ex_template:
  assumes "create_block_template toy (ex_node []) Mempool_new payout tag en = (b, cs')"
  shows "txs b = [template_coinbase payout tag en 1 89406967163]"
proof -
  obtain sel fees subsidy em where t: "select_for_block toy (ex_node []) (of_nat MAX_BLOCK_SIZE - 2000) Mempool_new = (sel, fees)"
    "block_subsidy (word_of_int (b_height (ex_node []) (the_tip (ex_node [])) + 1)) (cs_em (ex_node [])) = (subsidy, em)"
    "txs b = template_coinbase payout tag en (word_of_int (b_height (ex_node []) (the_tip (ex_node [])) + 1)) (subsidy + fees) # map me_tx sel"
    by (rule template_parts [OF assms]) (rule that)
  from t(1) have "sel = []" "fees = 0" by (simp_all add: select_for_block_def Mempool_new_def)
  moreover have "subsidy = 89406967163" using t(2) ex_subsidy by simp
  ultimately show ?thesis using t(3) by simp
qed

text \<open>Whatever header is mined, the first byte of its hash is below the target's.\<close>

lemma ex_pow: "check_pow (toy_hash 1 b) 0x207fffff ex_params"
proof -
  have "valid_bits 0x207fffff ex_params" "hash_bytes (to_hash (fst (from_compact 0x207fffff))) = 0x7f # 0xff # 0xff # replicate 29 0"
    by code_simp+
  then show ?thesis by (simp add: hash_le_pow hash_le_target_def toy_hash_def hash_bytes_hash_of)
qed
lemma ex_bits: "next_bits_for (ex_node os) ex_genesis = 0x207fffff"
proof -
  have "next_bits_for (ex_node []) ex_genesis = 0x207fffff" by code_simp
  then show ?thesis by (simp add: next_bits_for_def Let_def next_bits_def ex_params_def)
qed
lemma ex_mtp: "median_time_past (ex_node os) ex_genesis = 0"
  by (simp add: median_time_past_def MEDIAN_TIME_SPAN_def ex_deref ex_header_def blank_index_def numeral_eq_Suc)
lemma ex_fold_sum: "fold (+) b s = sum_list b + (s :: u8)"
  by (induction b arbitrary: s) (simp_all add: algebra_simps)

lemma ex_nonces: "header_hash toy (h\<lparr>h_nonce := 0\<rparr>) \<noteq> header_hash toy (h\<lparr>h_nonce := 1\<rparr>)"
proof -
  obtain pre where pre: "write_header (h\<lparr>h_nonce := n\<rparr>) = pre @ w_u64le n" for n
    by (rule that [of "w_u32le (h_version h) @ w_hash (h_prev h) @ w_hash (merkle_root_f h)
     @ w_hash (witness_root_f h) @ w_hash (state_commit h) @ w_u64le (h_time h) @ w_u32le (h_bits h)"]) (simp add: write_header_def)
  have e: "[0..<8] = [0, 1, 2, 3, 4, 5, 6, 7 :: nat]" by (simp add: upt_rec)
  have "fold (+) (pre @ w_u64le 0) 0 \<noteq> fold (+) (pre @ w_u64le 1) (0 :: u8)"
    by (simp add: ex_fold_sum w_u64le_def e del: upt_Suc)
  then have "toy_hash 1 (pre @ w_u64le 0) \<noteq> toy_hash 1 (pre @ w_u64le 1)"
    by (simp add: toy_hash_def hash_bytes_eq_iff [symmetric] hash_bytes_hash_of)
  then show ?thesis by (simp add: header_hash_write pre blake3_def toy_def)
qed

text \<open>The block of the node meets its target.\<close>

lemma ex_below: "below_target toy (ex_block os)"
proof -
  have "below_target toy (ex_block []) = below_target toy (ex_block os)" by (simp add: below_target_def ex_block_def)
  moreover have "below_target toy (ex_block [])" by code_simp
  ultimately show ?thesis by simp
qed

lemma ex_nonce: "(ex_block os)\<lparr>header := (header (ex_block os))\<lparr>h_nonce := 1\<rparr>\<rparr> = ex_block os"
  by (simp add: ex_block_def ex_header_def)

section \<open>Messages and wallets\<close>

definition ex_version :: version_msg where
  "ex_version = \<lparr>vm_version = 2, vm_services = 1, vm_nonce = 9, vm_height = -1, vm_listen_port = 7337, vm_agent = ''quant'',
     vm_genesis = ex_genesis, vm_your_addr = v4 1 7337\<rparr>"

definition ex_proof :: utxo_proof where
  "ex_proof = \<lparr>up_op = ex_point, up_coin = ex_coin, up_block = ex_tip, up_tx_core = [1, 2], up_tx_index = 1, up_tx_count = 2,
     up_merkle = [ex_genesis]\<rparr>"

text \<open>A wallet with one coin, which the ledger holds.\<close>

definition ex_wcoin :: wallet_coin where
  "ex_wcoin = \<lparr>wc_op = ex_point, wc_out = \<lparr>o_value = 1000000000, o_asset = QNT_ASSET, o_addr = address_hash toy ex_pk\<rparr>,
     wc_height = 1, wc_coinbase = False, wc_locked = False\<rparr>"

definition ex_wallet :: wallet where
  "ex_wallet = (snd (new_address toy ''a'' (derive_until toy LOOKAHEAD (blank_wallet ex_params))))\<lparr>w_coins := [(ex_point, ex_wcoin)]\<rparr>"

definition ex_ledger_state :: reader_state where
  "ex_ledger_state = \<lparr>rd_coin = [ex_point \<mapsto> ledger_coin ex_wcoin], rd_token = \<lambda>_. None, rd_pool = \<lambda>_. None\<rparr>"

definition ex_addr :: string where
  "ex_addr = encode_address ex_params 0 (hash_of [6])"

lemma ex_decode: "decode_address ex_params ex_addr = Some (0, hash_of [6])"
proof -
  have h: "p_hrp ex_params = p_hrp (params_for toy Regtest)" by (simp add: ex_params_def params_for_def build_def finish_def Let_def)
  have "decode_address ex_params = decode_address (params_for toy Regtest)" "encode_address ex_params = encode_address (params_for toy Regtest)"
    unfolding decode_address_def encode_address_def h by (rule refl)+
  then show ?thesis by (simp add: ex_addr_def decode_encode_address)
qed

lemma ex_wallet_ok: "wallet_ok toy ex_wallet" "room ex_wallet" "w_p ex_wallet = ex_params"
proof -
  define w where "w = blank_wallet ex_params"
  have o: "derived toy w" "index_of_ok w" "coins_keyed w" "w_keys w = []" "w_next_index w = 0" "w_coins w = []" "w_p w = ex_params"
    by (simp_all add: w_def blank_wallet_def derived_def index_of_ok_def watched_addresses_def coins_keyed_def al_distinct_def)
  define w1 where "w1 = derive_until toy LOOKAHEAD w"
  note d = derive_until_law [OF o(1,2), of LOOKAHEAD, folded w1_def]
  have k: "derived toy w1" "index_of_ok w1" "coins_keyed w1" "room w1" "unat (w_next_index w1) \<le> length (w_keys w1)" "w_p w1 = ex_params"
    using d o coins_keyed_eq [of w1 w] by (simp_all add: room_def LOOKAHEAD_def grows_def)
  define w2 where "w2 = snd (new_address toy ''a'' w1)"
  have e: "ex_wallet = w2\<lparr>w_coins := [(ex_point, ex_wcoin)]\<rparr>" by (simp add: ex_wallet_def w2_def w1_def w_def)
  note n = new_address_law [OF k(1-5), of "''a''", folded w2_def]
  have c: "coins_keyed ex_wallet" by (simp add: e coins_keyed_def al_distinct_def ex_wcoin_def)
  show "wallet_ok toy ex_wallet" by (rule wallet_ok_coins [OF c _ _ _ _ n(1)]) (simp_all add: e)
  show "w_p ex_wallet = ex_params" using n(2) k(6) by (simp add: e grows_def)
  show "room ex_wallet" using n(7) d(4,5) o by (simp add: e room_def LOOKAHEAD_def)
qed

lemma ex_wallet_coins [simp]: "wallet_coins ex_wallet = [ex_wcoin]"
  by (simp add: ex_wallet_def wallet_coins_def walk_def)

lemma toy_keys: "k < length (w_keys ex_wallet) \<Longrightarrow> length (wk_sk (w_keys ex_wallet ! k)) = 1281 \<and> wk_pk (w_keys ex_wallet ! k) = ex_pk"
  using ex_wallet_ok(1)
  by (auto simp: wallet_ok_def keys_ok_def same_key_def derive_key_def keypair_from_seed_def toy_def ex_pk_def split: prod.splits)

lemma ex_key: obtains k where "map_of (w_by_addr ex_wallet) (address_hash toy ex_pk) = Some k" "k < length (w_keys ex_wallet)"
proof -
  have i: "index_of_ok ex_wallet" "0 < length (w_keys ex_wallet)" using ex_wallet_ok(1) by (auto simp: wallet_ok_def keys_ok_def)
  have "wk_addr (w_keys ex_wallet ! 0) = address_hash toy ex_pk"
    using ex_wallet_ok(1) i(2) by (auto simp: wallet_ok_def keys_ok_def same_key_def derive_key_def keypair_from_seed_def toy_def ex_pk_def split: prod.splits)
  then have "address_hash toy ex_pk \<in> set (watched_addresses ex_wallet)" using i(2) by (metis length_watched nth_map nth_mem watched_addresses_def)
  then show thesis using that i(1) unfolding index_of_ok_def by (metis length_watched not_None_eq)
qed

lemma ex_network: "same_network toy ex_wallet 10" "coins_held ex_wallet 10 ex_ledger_state" "coins_bounded ex_wallet"
  "coin_sum QNT_ASSET (wallet_coins ex_wallet) \<le> unat MAX_MONEY" "falcon_correct toy"
proof -
  have "maturity_for_genesis toy ex_genesis = 100" by code_simp
  then show "same_network toy ex_wallet 10" by (simp add: same_network_def ex_wallet_ok(3) ex_params_def COINBASE_MATURITY_def)
  show "coins_held ex_wallet 10 ex_ledger_state" by (simp add: coins_held_def ex_ledger_state_def ex_wcoin_def)
  show "coins_bounded ex_wallet" by (simp add: coins_bounded_def out_val_def ex_wcoin_def)
  show "coin_sum QNT_ASSET (wallet_coins ex_wallet) \<le> unat MAX_MONEY" by (simp add: out_val_def ex_wcoin_def unat_MAX_MONEY)
  show "falcon_correct toy" by (auto simp: falcon_correct_def toy_def FALCON_PK_BYTES_def FALCON_SIG_MAX_def)
qed

lemma ex_sign:
  "sign_tx toy ex_wallet [ex_wcoin] tx = Inr (tx\<lparr>wits := [WitnessFalcon ex_pk [1]]\<rparr>)"
proof -
  obtain k where "map_of (w_by_addr ex_wallet) (address_hash toy ex_pk) = Some k" "k < length (w_keys ex_wallet)" by (rule ex_key)
  then show ?thesis using toy_keys [of k]
    by (simp add: sign_tx_def ex_wcoin_def falcon_sign_def FALCON_SK_BYTES_def) (simp add: toy_def)
qed

lemma ex_sweep: obtains tx where "create_sweep toy ex_addr 0 10 ex_wallet = (ex_wallet, Inr (tx, 177800))" "length (outs tx) = 1"
proof -
  define pl where "pl = blank_plan\<lparr>pl_sweep := True, pl_sweep_coins := [ex_wcoin],
    pl_outs := [\<lparr>o_value = 0, o_asset = QNT_ASSET, o_addr = hash_of [6]\<rparr>]\<rparr>"
  define tx where "tx = \<lparr>t_version = 2, ins = [\<lparr>prev = ex_point\<rparr>], outs = [\<lparr>o_value = 999822200, o_asset = QNT_ASSET, o_addr = hash_of [6]\<rparr>],
     ops = [], lock_height = 0, extra = [], wits = [WitnessFalcon ex_pk [1]]\<rparr>"
  have sp: "spendable ex_wallet 10 ex_wcoin" "is_qnt (wc_out ex_wcoin)"
    by (simp_all add: spendable_def mature_coin_def ex_wcoin_def is_qnt_def QNT_ASSET_def)
  have "create_sweep toy ex_addr 0 10 ex_wallet = build_tx toy pl 10 0 ex_wallet"
    using sp by (simp add: create_sweep_def ex_wallet_ok(3) ex_decode Let_def pl_def)
  also have "\<dots> = (ex_wallet, Inr (tx, 177800))"
  proof -
    have n: "needs pl = [(QNT_ASSET, 0)]" by (simp add: needs_def pl_def blank_plan_def add_delta_def)
    have t: "choose_tokens ex_wallet 10 (walk (needs pl)) [] [] = Inr ([], [])" by (simp add: n walk_def QNT_ASSET_def)
    have q: "choose_qnt pl 0 MIN_RELAY_FEE_PER_KB 0 (by_value [ex_wcoin]) [] 0 0 = Inr ([ex_wcoin], 1000000000, 177800)"
      by (simp add: by_value_def pl_def blank_plan_def Let_def fee_for_def estimate_size_def unique_addrs_def FALCON_PK_BYTES_def
          FALCON_SIG_MAX_def MIN_RELAY_FEE_PER_KB_def) (simp add: ex_wcoin_def)
    have o: "plan_outs pl 1000000000 177800 = Inr (outs tx)" by (simp add: plan_outs_def pl_def blank_plan_def tx_def DUST_LIMIT_def)
    have c: "qnt_change pl 0 1000000000 177800 = []" by (simp add: qnt_change_def pl_def)
    let ?tx0 = "tx\<lparr>wits := []\<rparr>"
    have len: "length (write_full tx) \<le> 1200"
      using w_varint_length10 [of 2] w_varint_length10 [of 0] w_varint_length10 [of 1] w_varint_length10 [of 999822200]
      by (simp add: tx_def write_full_def write_core_def write_witness_def w_counted_def write_txout_def write_txin_def ex_point_def
          w_bytes_def w_u8_def w_hash_def ex_pk_def is_qnt_def QNT_ASSET_def)
    have m: "unat (of_nat (length (write_full tx)) * MIN_RELAY_FEE_PER_KB div 1000 :: amount) \<le> 177800"
      using len by (simp add: MIN_RELAY_FEE_PER_KB_def unat_div unat_word_ariths unat_of_nat)
    have ot: "total_qnt_out tx = 999822200" by (simp add: total_qnt_out_def tx_def is_qnt_def QNT_ASSET_def)
    have "seal_tx toy ex_wallet pl [ex_wcoin] 1000000000 ?tx0 = Inr (tx, 177800)"
    proof -
      have e: "?tx0\<lparr>lock_height := 0\<rparr> = ?tx0" "?tx0\<lparr>wits := [WitnessFalcon ex_pk [1]]\<rparr> = tx" by (simp_all add: tx_def)
      have f: "pl_finish pl = (\<lambda>w tx. tx)" "pl_op_in pl = []" "pl_op_out pl = []" by (simp_all add: pl_def blank_plan_def)
      have "uint (of_nat (length (write_full tx)) * MIN_RELAY_FEE_PER_KB div 1000 :: amount) \<le> 177800"
        using zle_int [THEN iffD2, OF m] by (simp only: uint_nat of_nat_numeral)
      then show ?thesis using ex_sign [of ?tx0] ot unfolding seal_tx_def f e by (simp add: e amount_at_def Let_def not_less)
    qed
    moreover have "?tx0 = \<lparr>t_version = 2, ins = map (\<lambda>c. \<lparr>prev = wc_op c\<rparr>) [ex_wcoin], outs = outs tx @ map (\<lambda>c. c\<lparr>o_addr := hash_zero\<rparr>) [],
       ops = pl_ops pl, lock_height = 0, extra = [], wits = []\<rparr>" by (simp add: tx_def pl_def blank_plan_def ex_wcoin_def)
    moreover have "pl_sweep pl" "pl_sweep_coins pl = [ex_wcoin]" "delta_of [(QNT_ASSET, 0)] QNT_ASSET = 0" "0 < MIN_RELAY_FEE_PER_KB"
      by (simp_all add: pl_def delta_of_def MIN_RELAY_FEE_PER_KB_def)
    ultimately show ?thesis using t [unfolded n] q o c by (simp add: build_tx_def n)
  qed
  finally show thesis by (rule that) (simp add: tx_def)
qed

section \<open>A disk for wallet files\<close>

definition ex_disk :: filesys where
  "ex_disk = \<lparr>fs_files = [], fs_ok = \<lambda>_. True\<rparr>"

definition ex_save :: "nat \<Rightarrow> save_env" where
  "ex_save n = \<lparr>se_salt = replicate 16 1, se_nonce = replicate 16 2, se_space = n\<rparr>"

lemma ex_save_ok: "xof_fills toy" "falcon_sizes toy" "cache_ok toy no_cache" "length (se_salt (ex_save n)) = 16" "length (se_nonce (ex_save n)) = 16"
  by (simp_all add: xof_fills_def falcon_sizes_def toy_def cache_ok_def no_cache_def ex_save_def FALCON_PK_BYTES_def FALCON_SK_BYTES_def)

definition ex_fresh_wallet :: wallet where
  "ex_fresh_wallet = wallet_fresh toy ''w'' ex_params [] [] ''pw'' 0"

lemma ex_fresh_file: "file_ok toy ex_fresh_wallet" "wallet_ok toy ex_fresh_wallet"
proof -
  have "length (p_name ex_params) \<le> 32" by (simp add: ex_params_def build_def)
  moreover have "length (mnemonic_normalize []) \<le> 1000" by code_simp
  ultimately show "file_ok toy ex_fresh_wallet"
    unfolding ex_fresh_wallet_def by (intro fresh_file_ok ex_save_ok) (simp_all add: i64_ok_def)
  show "wallet_ok toy ex_fresh_wallet" by (simp add: ex_fresh_wallet_def wallet_fresh_ok)
qed

lemma ex_label_bound: "length (wallet_serialize (snd (new_address toy (replicate 201 CHR ''a'') ex_fresh_wallet))) \<le> 268435456"
proof -
  have "length (p_name ex_params) \<le> 32" by (simp add: ex_params_def build_def)
  moreover have "length (mnemonic_normalize []) \<le> 1000" by code_simp
  ultimately show ?thesis unfolding ex_fresh_wallet_def by (intro fresh_label_bound ex_save_ok) simp_all
qed

text \<open>With enough space a save on this disk succeeds.\<close>

lemma ex_saves: "\<exists>n c' fs'. wallet_save toy (ex_save n) w (no_cache, ex_disk) = (True, c', fs')"
proof -
  obtain data c1 where s: "seal toy (replicate 16 1) (replicate 16 2) (wallet_serialize w) (w_password w) no_cache = (data, c1)" by force
  obtain ok c' fs' where r: "wallet_save toy (ex_save (length data)) w (no_cache, ex_disk) = (ok, c', fs')" by (cases "wallet_save toy (ex_save (length data)) w (no_cache, ex_disk)") auto
  have "ok" using save_result(2) [OF r] s by (simp add: ex_save_def ex_disk_def)
  with r show ?thesis by (intro exI [of _ "length data"]) simp
qed

end
