(* ===== verification/Light.thy ===== *)
theory Light
  imports Wallet_File Protocol
begin

text \<open>
  The light client (\<open>src/src/light/light_client.cpp\<close>): the chain of headers it checks by itself, the
  coins it takes from its peers against Merkle proofs, and broadcasting. A peer is what the client sees of it:
  the height it claims, and its answer (if any) to a request, which may depend on when it is asked. Sockets, time-outs
  and the search for peers are not modelled. An exception that leaves a function is \<open>LightThrow\<close>.
\<close>

section \<open>State\<close>

record light_client =
  lc_p :: chain_params
  lc_dir :: string
  lc_headers :: "block_header list"
  lc_hashes :: "hash256 list"
  lc_nonce :: u64

record light_peer =
  lp_addr :: string
  lp_height :: int
  lp_answer :: "nat \<times> nat \<Rightarrow> cmd \<Rightarrow> bytes \<Rightarrow> bytes option"

datatype light_result = LightOk | LightFail string | LightThrow string

definition headers_path :: "light_client \<Rightarrow> string" where
  "headers_path lc = lc_dir lc @ ''/headers.dat''"

definition light_height :: "light_client \<Rightarrow> int" where
  "light_height lc = int (length (lc_headers lc)) - 1"

definition light_push :: "crypto \<Rightarrow> block_header \<Rightarrow> light_client \<Rightarrow> light_client" where
  "light_push cr h lc = lc\<lparr>lc_headers := lc_headers lc @ [h], lc_hashes := lc_hashes lc @ [header_hash cr h]\<rparr>"

section \<open>Headers on disk\<close>

text \<open>The loop reads whole headers of 152 bytes; \<open>first\<close> is set until the first one is read.\<close>

function load_loop :: "crypto \<Rightarrow> bool \<Rightarrow> bytes \<Rightarrow> light_client \<Rightarrow> light_client" where
  "load_loop cr first b lc =
     (if length b < HEADER_SIZE then lc
      else
        (case read_header (take HEADER_SIZE b) of
           Inl e \<Rightarrow> lc
         | Inr (h, r) \<Rightarrow>
             if first then (if header_hash cr h \<noteq> genesis_hash (lc_p lc) then lc else load_loop cr False (drop HEADER_SIZE b) lc)
             else if h_prev h \<noteq> last (lc_hashes lc) then lc
             else load_loop cr False (drop HEADER_SIZE b) (light_push cr h lc)))"
  by pat_completeness auto
termination
  by (relation "measure (\<lambda>(cr, first, b, lc). length b)") (auto simp: HEADER_SIZE_def)

declare load_loop.simps [simp del]

definition light_load :: "crypto \<Rightarrow> filesys \<Rightarrow> light_client \<Rightarrow> light_client" where
  "light_load cr fs lc =
     (let lc = lc\<lparr>lc_headers := [header (genesis (lc_p lc))], lc_hashes := [genesis_hash (lc_p lc)]\<rparr> in
      case read_file fs (headers_path lc) of None \<Rightarrow> lc | Some b \<Rightarrow> load_loop cr True b lc)"

definition LightClient_new :: "crypto \<Rightarrow> chain_params \<Rightarrow> string \<Rightarrow> u64 \<Rightarrow> filesys \<Rightarrow> light_client" where
  "LightClient_new cr p dir nonce fs =
     light_load cr fs \<lparr>lc_p = p, lc_dir = dir, lc_headers = [], lc_hashes = [], lc_nonce = nonce\<rparr>"

text \<open>The results of the writes are not checked: \<open>n\<close> bytes of the file reach the disk.\<close>

definition save_headers :: "nat \<Rightarrow> string \<Rightarrow> block_header list \<Rightarrow> filesys \<Rightarrow> filesys" where
  "save_headers n path hs fs =
     (if \<not> fs_ok fs (path @ ''.tmp'') then fs
      else fst (fs_rename (path @ ''.tmp'') path
             (fs\<lparr>fs_files := AList.update (path @ ''.tmp'') (take n (concat (map write_header hs))) (fs_files fs)\<rparr>)))"

section \<open>The header chain\<close>

text \<open>\<open>prev i\<close> of the retargeting is the header \<open>i\<close> below the tip.\<close>

definition light_back :: "block_header list \<Rightarrow> int \<Rightarrow> header_info" where
  "light_back hs i = (let x = hs ! nat (int (length hs) - 1 - i) in \<lparr>hi_time = h_time x, hi_bits = h_bits x\<rparr>)"

definition light_median :: "block_header list \<Rightarrow> int" where
  "light_median hs = (let t = sort (map (\<lambda>x. sint (h_time x)) (take MEDIAN_TIME_SPAN (rev hs))) in t ! (length t div 2))"

definition append_header :: "crypto \<Rightarrow> int \<Rightarrow> block_header \<Rightarrow> light_client \<Rightarrow> string + light_client" where
  "append_header cr now h lc =
     (if h_prev h \<noteq> last (lc_hashes lc) then Inl ''does not connect''
      else if \<not> check_pow (header_hash cr h) (h_bits h) (lc_p lc) then Inl ''bad proof of work''
      else if h_bits h \<noteq> next_bits (light_height lc) (light_back (lc_headers lc)) (lc_p lc) then Inl ''wrong difficulty''
      else if sint (h_time h) \<le> light_median (lc_headers lc) then Inl ''timestamp too old''
      else if sint (h_time h) > now + MAX_FUTURE_DRIFT then Inl ''timestamp in the future''
      else Inr (light_push cr h lc))"

text \<open>The step is \<open>Suc k\<close>.\<close>

function locator_down :: "hash256 list \<Rightarrow> nat \<Rightarrow> int \<Rightarrow> hash256 list \<Rightarrow> hash256 list" where
  "locator_down hs k h v =
     (if h < 0 then v
      else (let v = v @ [hs ! nat h]; k = (if length v > 10 then 2 * k + 1 else k) in locator_down hs k (h - int (Suc k)) v))"
  by pat_completeness auto
termination
  by (relation "measure (\<lambda>(hs, k, h, v). nat (h + 1))") auto

declare locator_down.simps [simp del]

definition light_locator :: "light_client \<Rightarrow> hash256 list" where
  "light_locator lc =
     (let v = locator_down (lc_hashes lc) 0 (light_height lc) []
      in if last v \<noteq> genesis_hash (lc_p lc) then v @ [genesis_hash (lc_p lc)] else v)"

definition header_work :: "block_header \<Rightarrow> u256" where
  "header_work h = work_from_target (fst (from_compact (h_bits h)))"

definition sum_work :: "block_header list \<Rightarrow> u256" where
  "sum_work hs = fold (\<lambda>h u. u256_add u (header_work h)) hs u256_zero"

definition find_index :: "hash256 \<Rightarrow> hash256 list \<Rightarrow> nat option" where
  "find_index h hs = List.find (\<lambda>i. hs ! i = h) [0..<length hs]"

text \<open>Making room for a batch that attaches below the tip: \<open>None\<close> is \<open>break\<close>, \<open>Some (Inl e)\<close> the error \<open>e\<close>.\<close>

definition make_room :: "block_header list \<Rightarrow> light_client \<Rightarrow> (string + light_client) option" where
  "make_room hs lc =
     (if h_prev (hd hs) = last (lc_hashes lc) then Some (Inr lc)
      else
        (case find_index (h_prev (hd hs)) (lc_hashes lc) of
           None \<Rightarrow> Some (Inl ''peer sent unconnected headers'')
         | Some fork \<Rightarrow>
             if u256_le (sum_work hs) (sum_work (drop (fork + 1) (lc_headers lc))) then None
             else if int (length (lc_headers lc)) - int fork - 1 > MAX_REORG_DEPTH then Some (Inl ''refusing deep reorg'')
             else Some (Inr (lc\<lparr>lc_headers := take (fork + 1) (lc_headers lc), lc_hashes := take (fork + 1) (lc_hashes lc)\<rparr>))))"

primrec append_all :: "crypto \<Rightarrow> int \<Rightarrow> block_header list \<Rightarrow> light_client \<Rightarrow> string option \<times> light_client" where
  "append_all cr now [] lc = (None, lc)"
| "append_all cr now (h # hs) lc =
     (case append_header cr now h lc of Inl why \<Rightarrow> (Some why, lc) | Inr lc \<Rightarrow> append_all cr now hs lc)"

text \<open>\<open>n\<close> rounds are left, \<open>i\<close> is the number of this one. The time and the space on the device are arguments.\<close>

primrec sync_rounds ::
  "crypto \<Rightarrow> int \<Rightarrow> nat \<Rightarrow> light_peer \<Rightarrow> nat \<Rightarrow> nat \<Rightarrow> light_client \<times> filesys \<Rightarrow> light_result \<times> light_client \<times> filesys" where
  "sync_rounds cr now space p 0 i s =
     (case s of (lc, fs) \<Rightarrow> (LightOk, lc, save_headers space (headers_path lc) (lc_headers lc) fs))"
| "sync_rounds cr now space p (Suc n) i s =
     (case s of (lc, fs) \<Rightarrow>
        let fin = (LightOk, lc, save_headers space (headers_path lc) (lc_headers lc) fs) in
        case lp_answer p (i, 0) CGetHeaders (w_counted w_hash (light_locator lc) @ w_hash hash_zero) of
          None \<Rightarrow> (LightFail ''peer stopped answering'', lc, fs)
        | Some reply \<Rightarrow>
            (case r_counted (of_nat MAX_HEADERS_PER_MSG) read_header reply of
               Inl e \<Rightarrow> (LightThrow e, lc, fs)
             | Inr (hs, r) \<Rightarrow>
                 if hs = [] then fin
                 else
                   (case make_room hs lc of
                      None \<Rightarrow> fin
                    | Some (Inl e) \<Rightarrow> (LightFail e, lc, fs)
                    | Some (Inr lc) \<Rightarrow>
                        (case append_all cr now hs lc of
                           (Some why, lc) \<Rightarrow>
                             (LightFail (''invalid header from '' @ lp_addr p @ '': '' @ why), lc,
                              save_headers space (headers_path lc) (lc_headers lc) fs)
                         | (None, lc) \<Rightarrow>
                             if length hs < MAX_HEADERS_PER_MSG
                             then (LightOk, lc, save_headers space (headers_path lc) (lc_headers lc) fs)
                             else sync_rounds cr now space p n (i + 1) (lc, fs)))))"

text \<open>\<open>std::max_element\<close>: the first of the peers with the greatest height.\<close>

definition best_peer :: "light_peer list \<Rightarrow> light_peer" where
  "best_peer ps = fold (\<lambda>p b. if lp_height b < lp_height p then p else b) (tl ps) (hd ps)"

definition sync_headers ::
  "crypto \<Rightarrow> int \<Rightarrow> nat \<Rightarrow> light_peer list \<Rightarrow> light_client \<times> filesys \<Rightarrow> light_result \<times> light_client \<times> filesys" where
  "sync_headers cr now space ps s =
     (if ps = [] then (LightFail ''not connected'', s) else sync_rounds cr now space (best_peer ps) 100000 0 s)"

end
