(* ===== verification/Light_Wallet.thy ===== *)
theory Light_Wallet
  imports Light
begin

text \<open>
  The light client's conversations and its wallet (\<open>src/src/light/light_client.cpp\<close>): the handshake, one
  request and its answer, broadcasting, and refreshing the wallet from proofs of unspent outputs. What a socket
  delivers before its time is over is the list of its messages.
\<close>

section \<open>Conversations\<close>

text \<open>\<open>exchange\<close> after the request is sent: the answer, and what is sent meanwhile (pongs).\<close>

primrec exchange_loop :: "cmd \<Rightarrow> (cmd \<times> bytes) list \<Rightarrow> bytes option \<times> (cmd \<times> bytes) list" where
  "exchange_loop want [] = (None, [])"
| "exchange_loop want (m # ms) =
     (case m of (c, pl) \<Rightarrow>
        if c = want then (Some pl, [])
        else (case exchange_loop want ms of (r, snt) \<Rightarrow> (r, if c = CPing then (CPong, pl) # snt else snt)))"

definition hello :: "light_client \<Rightarrow> net_addr \<Rightarrow> version_msg" where
  "hello lc a = \<lparr>vm_version = PROTOCOL_VERSION, vm_services = 0, vm_nonce = lc_nonce lc, vm_height = light_height lc,
     vm_listen_port = 0, vm_agent = ''quant-termux:0.2.0'', vm_genesis = genesis_hash (lc_p lc), vm_your_addr = a\<rparr>"

text \<open>The loop of \<open>handshake\<close>: the version received so far and whether a verack came. The result is
  an exception, \<open>false\<close> (\<open>Inr None\<close>) or the version of the peer.\<close>

primrec handshake_loop ::
  "chain_params \<Rightarrow> version_msg option \<Rightarrow> bool \<Rightarrow> (cmd \<times> bytes) list \<Rightarrow> string + version_msg option" where
  "handshake_loop p ver ack [] = (if ver \<noteq> None \<and> ack then Inr ver else Inr None)"
| "handshake_loop p ver ack (m # ms) =
     (if ver \<noteq> None \<and> ack then Inr ver
      else
        (case m of (c, pl) \<Rightarrow>
           if c = CVersion then
             (case version_decode pl of
                Inl e \<Rightarrow> Inl e
              | Inr (v, r) \<Rightarrow>
                  if vm_genesis v \<noteq> genesis_hash p \<or> vm_services v AND SERVICE_LIGHT_SERVE = 0 then Inr None
                  else handshake_loop p (Some v) ack ms)
           else if c = CVerack then handshake_loop p ver True ms
           else handshake_loop p ver ack ms))"

text \<open>\<open>broadcast\<close>: to which peers the message was sent, and what each of them said afterwards.\<close>

primrec reject_loop :: "hash256 \<Rightarrow> (cmd \<times> bytes) list \<Rightarrow> light_result" where
  "reject_loop tid [] = LightOk"
| "reject_loop tid (m # ms) =
     (case m of (c, pl) \<Rightarrow>
        if c = CReject then
          (case rbind (r_u8 pl) (\<lambda>(k, r). rbind (r_hash r) (\<lambda>(h, r).
                  if h = tid then rbind (r_str 500 r) (\<lambda>(why, r). Inr (Some why)) else Inr None)) of
             Inl e \<Rightarrow> LightThrow e
           | Inr (Some why) \<Rightarrow> LightFail why
           | Inr None \<Rightarrow> reject_loop tid ms)
        else reject_loop tid ms)"

primrec first_reject :: "hash256 \<Rightarrow> (cmd \<times> bytes) list list \<Rightarrow> light_result" where
  "first_reject tid [] = LightOk"
| "first_reject tid (ms # mss) = (case reject_loop tid ms of LightOk \<Rightarrow> first_reject tid mss | r \<Rightarrow> r)"

definition light_broadcast :: "crypto \<Rightarrow> transaction \<Rightarrow> bool list \<Rightarrow> (cmd \<times> bytes) list list \<Rightarrow> light_result" where
  "light_broadcast cr tx snt said =
     (if snt = [] then LightFail ''not connected''
      else if True \<notin> set snt then LightFail ''could not send to any peer''
      else first_reject (txid cr tx) said)"

section \<open>Proofs of unspent outputs\<close>

text \<open>The locals of a round of \<open>refresh_wallet\<close>.\<close>

record scan =
  ls_coins :: "(outpoint \<times> wallet_coin) list"
  ls_spent :: "outpoint list"
  ls_received :: "(hash256 \<times> int \<times> amount) list"
  ls_coinbase :: "hash256 list"

definition height_of :: "light_client \<Rightarrow> hash256 \<Rightarrow> nat option" where
  "height_of lc = map_of (rev (zip (lc_hashes lc) [0..<length (lc_headers lc)]))"

definition accept_proof :: "crypto \<Rightarrow> light_client \<Rightarrow> wallet \<Rightarrow> utxo_proof \<Rightarrow> scan \<Rightarrow> string + scan" where
  "accept_proof cr lc w u s =
     (case height_of lc (up_block u) of
        None \<Rightarrow> Inr s
      | Some h \<Rightarrow>
          if int h \<noteq> sint (c_height (up_coin u)) then Inr s
          else
            (let tid = blake3_tagged cr ctx_TXID (up_tx_core u) in
             if tid \<noteq> op_txid (up_op u) then Inr s
             else if \<not> merkle_verify cr tid (unat (up_tx_index u)) (unat (up_tx_count u)) (up_merkle u)
                    (merkle_root_f (lc_headers lc ! h)) then Inr s
             else
               (case read_core (up_tx_core u) of
                  Inl e \<Rightarrow> Inl e
                | Inr (tx, r) \<Rightarrow>
                    if unat (op_n (up_op u)) \<ge> length (outs tx) then Inr s
                    else
                      (let out = outs tx ! unat (op_n (up_op u)) in
                       if o_value out \<noteq> o_value (c_out (up_coin u)) \<or> o_addr out \<noteq> o_addr (c_out (up_coin u))
                          \<or> \<not> is_mine w (o_addr out) then Inr s
                       else if is_coinbase tx \<noteq> c_coinbase (up_coin u) then Inr s
                       else if map_of (ls_coins s) (up_op u) \<noteq> None then Inr s
                       else
                         Inr (s\<lparr>ls_coins := AList.update (up_op u)
                                  \<lparr>wc_op = up_op u, wc_out = out, wc_height = int h, wc_coinbase = is_coinbase tx, wc_locked = False\<rparr>
                                  (ls_coins s),
                                ls_received := AList.update tid
                                  (int h, (case map_of (ls_received s) tid of None \<Rightarrow> 0 | Some (h0, a) \<Rightarrow> a) + o_value out) (ls_received s),
                                ls_coinbase := (if is_coinbase tx then tid # ls_coinbase s else ls_coinbase s)\<rparr>)))))"

text \<open>What was taken before an exception is kept: the result is the state and what is left to read, or the exception.\<close>

primrec scan_proofs :: "crypto \<Rightarrow> light_client \<Rightarrow> wallet \<Rightarrow> nat \<Rightarrow> bytes \<Rightarrow> scan \<Rightarrow> scan \<times> (string + bytes)" where
  "scan_proofs cr lc w 0 r s = (s, Inr r)"
| "scan_proofs cr lc w (Suc n) r s =
     (case read_utxo_proof r of
        Inl e \<Rightarrow> (s, Inl e)
      | Inr (u, r) \<Rightarrow> (case accept_proof cr lc w u s of Inl e \<Rightarrow> (s, Inl e) | Inr s \<Rightarrow> scan_proofs cr lc w n r s))"

definition read_outpoint :: "outpoint reader" where
  "read_outpoint r = rbind (r_hash r) (\<lambda>(tid, r). rbind (r_varint r) (\<lambda>(n, r). Inr (OutPoint tid (ucast n), r)))"

primrec scan_spent :: "nat \<Rightarrow> bytes \<Rightarrow> scan \<Rightarrow> scan \<times> (string + bytes)" where
  "scan_spent 0 r s = (s, Inr r)"
| "scan_spent (Suc n) r s =
     (case read_outpoint r of Inl e \<Rightarrow> (s, Inl e) | Inr (p, r) \<Rightarrow> scan_spent n r (s\<lparr>ls_spent := p # ls_spent s\<rparr>))"

primrec scan_pending :: "wallet \<Rightarrow> nat \<Rightarrow> bytes \<Rightarrow> scan \<Rightarrow> scan \<times> (string + bytes)" where
  "scan_pending w 0 r s = (s, Inr r)"
| "scan_pending w (Suc n) r s =
     (case rbind (read_outpoint r) (\<lambda>(p, r). rbind (read_txout r) (\<lambda>(out, r). Inr ((p, out), r))) of
        Inl e \<Rightarrow> (s, Inl e)
      | Inr ((p, out), r) \<Rightarrow>
          scan_pending w n r
            (if is_mine w (o_addr out) \<and> map_of (ls_coins s) p = None
             then s\<lparr>ls_coins := AList.update p
                      \<lparr>wc_op = p, wc_out = out, wc_height = -1, wc_coinbase = False, wc_locked = False\<rparr> (ls_coins s)\<rparr>
             else s))"

text \<open>A counted section of the answer.\<close>

definition scan_section :: "(nat \<Rightarrow> bytes \<Rightarrow> scan \<Rightarrow> scan \<times> (string + bytes)) \<Rightarrow> scan \<times> (string + bytes) \<Rightarrow> scan \<times> (string + bytes)" where
  "scan_section f x =
     (case x of
        (s, Inl e) \<Rightarrow> (s, Inl e)
      | (s, Inr r) \<Rightarrow> (case r_varint_max 100000 r of Inl e \<Rightarrow> (s, Inl e) | Inr (n, r) \<Rightarrow> f (unat n) r s))"

definition scan_reply :: "crypto \<Rightarrow> light_client \<Rightarrow> wallet \<Rightarrow> bytes \<Rightarrow> scan \<Rightarrow> scan" where
  "scan_reply cr lc w reply s =
     fst (scan_section (scan_pending w) (scan_section scan_spent (scan_section (scan_proofs cr lc w)
       (s, rbind (r_u64le reply) (\<lambda>(h, r). rbind (r_hash r) (\<lambda>(tp, r). Inr r))))))"

section \<open>Refreshing the wallet\<close>

text \<open>One peer is asked for 200 addresses at a time, until it stops answering.\<close>

definition addr_chunks :: "'a list \<Rightarrow> 'a list list" where
  "addr_chunks xs = map (\<lambda>i. take 200 (drop (200 * i) xs)) [0..<(length xs + 199) div 200]"

primrec ask_peer ::
  "crypto \<Rightarrow> light_client \<Rightarrow> wallet \<Rightarrow> nat \<Rightarrow> light_peer \<Rightarrow> nat \<Rightarrow> hash256 list list \<Rightarrow> scan \<times> nat \<Rightarrow> scan \<times> nat" where
  "ask_peer cr lc w k pp i [] s = s"
| "ask_peer cr lc w k pp i (c # cs) s =
     (case lp_answer pp (k, i) CGetUtxos (w_counted w_hash c) of
        None \<Rightarrow> s
      | Some reply \<Rightarrow> ask_peer cr lc w k pp (i + 1) cs (scan_reply cr lc w reply (fst s), snd s + 1))"

definition empty_scan :: scan where
  "empty_scan = \<lparr>ls_coins = [], ls_spent = [], ls_received = [], ls_coinbase = []\<rparr>"

definition record_received :: "light_client \<Rightarrow> scan \<Rightarrow> (hash256 \<times> wallet_tx) list \<Rightarrow> hash256 \<times> int \<times> amount \<Rightarrow> wallet \<Rightarrow> wallet" where
  "record_received lc s by_id rv w =
     (case rv of (tid, h, a) \<Rightarrow>
        case map_of by_id tid of
          None \<Rightarrow>
            record_tx (blank_tx\<lparr>wt_txid := tid, wt_height := h, wt_time := sint (h_time (lc_headers lc ! nat h)),
              wt_delta := sint a, wt_coinbase := (tid \<in> set (ls_coinbase s))\<rparr>) w
        | Some t \<Rightarrow> if wt_height t < 0 then record_tx (t\<lparr>wt_height := h\<rparr>) w else w)"

text \<open>One round; \<open>None\<close> when no peer answered.\<close>

definition refresh_round :: "crypto \<Rightarrow> light_client \<Rightarrow> light_peer list \<Rightarrow> nat \<Rightarrow> wallet \<Rightarrow> wallet option" where
  "refresh_round cr lc ps k w =
     (let (s, answered) = fold (\<lambda>pp. ask_peer cr lc w k pp 0 (addr_chunks (watched_addresses w))) ps (empty_scan, 0) in
      if answered = 0 then None
      else
        (let v = map (\<lambda>(p, c). c\<lparr>wc_locked := (p \<in> set (ls_spent s))\<rparr>) (walk (ls_coins s));
             w = replace_coins cr v w;
             by_id = map (\<lambda>t. (wt_txid t, t)) (rev (history w))
         in Some (fold (record_received lc s by_id) (walk (ls_received s)) w)))"

primrec refresh_rounds :: "crypto \<Rightarrow> light_client \<Rightarrow> light_peer list \<Rightarrow> nat \<Rightarrow> nat \<Rightarrow> wallet \<Rightarrow> bool \<times> wallet" where
  "refresh_rounds cr lc ps 0 k w = (True, w)"
| "refresh_rounds cr lc ps (Suc n) k w =
     (case refresh_round cr lc ps k w of
        None \<Rightarrow> (False, w)
      | Some w' \<Rightarrow>
          if length (watched_addresses w') = length (watched_addresses w) then (True, w')
          else refresh_rounds cr lc ps n (k + 1) w')"

definition refresh_wallet ::
  "crypto \<Rightarrow> save_env \<Rightarrow> light_client \<Rightarrow> light_peer list \<Rightarrow> wallet \<Rightarrow> seal_cache \<times> filesys \<Rightarrow>
   light_result \<times> wallet \<times> seal_cache \<times> filesys" where
  "refresh_wallet cr e lc ps w st =
     (if ps = [] then (LightFail ''not connected'', w, st)
      else
        (case refresh_rounds cr lc ps 8 0 w of
           (False, w) \<Rightarrow> (LightFail ''no peer answered'', w, st)
         | (True, w) \<Rightarrow>
             (let w = w\<lparr>w_synced_height := light_height lc, w_synced_tip := last (lc_hashes lc)\<rparr>
              in (LightOk, w, snd (wallet_save cr e w st)))))"

end
