(* ===== verification/Light_Laws.thy ===== *)
theory Light_Laws
  imports Light_Wallet Wallet_Reopen
begin

text \<open>
  The light client's chain satisfies every header rule after the genesis block whatever its peers send, a sync
  rewrites a bounded number of headers, the file gives back what was saved, and every confirmed coin the wallet
  takes over has a Merkle proof against a header of that chain.
\<close>

section \<open>The chain of headers\<close>

definition header_follows :: "crypto \<Rightarrow> chain_params \<Rightarrow> block_header list \<Rightarrow> hash256 \<Rightarrow> block_header \<Rightarrow> bool" where
  "header_follows cr p hs prv h \<longleftrightarrow> h_prev h = prv \<and> check_pow (header_hash cr h) (h_bits h) p
     \<and> h_bits h = next_bits (int (length hs) - 1) (light_back hs) p \<and> light_median hs < sint (h_time h)"

definition light_ok :: "crypto \<Rightarrow> light_client \<Rightarrow> bool" where
  "light_ok cr lc \<longleftrightarrow> lc_headers lc \<noteq> [] \<and> length (lc_hashes lc) = length (lc_headers lc)
     \<and> lc_headers lc ! 0 = header (genesis (lc_p lc)) \<and> lc_hashes lc ! 0 = genesis_hash (lc_p lc)
     \<and> (\<forall>i<length (lc_headers lc). 0 < i \<longrightarrow> lc_hashes lc ! i = header_hash cr (lc_headers lc ! i)
          \<and> header_follows cr (lc_p lc) (take i (lc_headers lc)) (lc_hashes lc ! (i - 1)) (lc_headers lc ! i))"

definition light_cut :: "nat \<Rightarrow> light_client \<Rightarrow> light_client" where
  "light_cut n lc = lc\<lparr>lc_headers := take n (lc_headers lc), lc_hashes := take n (lc_hashes lc)\<rparr>"

lemma light_cut_ok: "light_ok cr lc \<Longrightarrow> 0 < n \<Longrightarrow> light_ok cr (light_cut n lc)"
  by (auto simp: light_ok_def light_cut_def min_def)

lemma last_hash: "light_ok cr lc \<Longrightarrow> last (lc_hashes lc) = lc_hashes lc ! (length (lc_headers lc) - 1)"
  by (subst last_conv_nth) (auto simp: light_ok_def)

lemma append_header_ok:
  assumes "light_ok cr lc" "append_header cr now h lc = Inr lc'"
  shows "light_ok cr lc'" "lc' = light_push cr h lc"
proof -
  let ?n = "length (lc_headers lc)"
  have h: "lc' = light_push cr h lc" "header_follows cr (lc_p lc) (lc_headers lc) (lc_hashes lc ! (?n - 1)) h"
    using assms last_hash [OF assms(1)]
    by (auto simp: append_header_def header_follows_def light_height_def split: if_splits)
  then show "lc' = light_push cr h lc" by simp
  show "light_ok cr lc'"
    using assms(1) h by (auto simp: light_ok_def light_push_def nth_append less_Suc_eq)
qed

lemma append_all_ok:
  assumes "light_ok cr lc" "append_all cr now hs lc = (e, lc')"
  shows "light_ok cr lc' \<and> lc_p lc' = lc_p lc \<and> lc_dir lc' = lc_dir lc
    \<and> (\<exists>ks. lc_headers lc' = lc_headers lc @ ks \<and> (e = None \<longrightarrow> ks = hs))"
  using assms
proof (induction hs arbitrary: lc)
  case (Cons h hs)
  show ?case
  proof (cases "append_header cr now h lc")
    case (Inl why)
    with Cons.prems show ?thesis by auto
  next
    case (Inr lc1)
    have ok: "light_ok cr lc1" "lc1 = light_push cr h lc" using append_header_ok [OF Cons.prems(1) Inr] by auto
    with Cons.IH [OF ok(1)] Cons.prems(2) Inr show ?thesis by (auto simp: light_push_def)
  qed
qed auto

lemma make_room_cut:
  assumes "light_ok cr lc" "make_room hs lc = Some (Inr lc')"
  shows "light_ok cr lc'" "\<exists>n. 0 < n \<and> lc' = light_cut n lc \<and> int (length (lc_headers lc)) - int n \<le> MAX_REORG_DEPTH"
proof -
  show "\<exists>n. 0 < n \<and> lc' = light_cut n lc \<and> int (length (lc_headers lc)) - int n \<le> MAX_REORG_DEPTH"
  proof (cases "h_prev (hd hs) = last (lc_hashes lc)")
    case True
    with assms have "lc' = light_cut (length (lc_headers lc)) lc" "0 < length (lc_headers lc)"
      by (auto simp: make_room_def light_cut_def light_ok_def)
    then show ?thesis by (intro exI [of _ "length (lc_headers lc)"]) (simp add: MAX_REORG_DEPTH_def PRUNE_DEPTH_def)
  next
    case False
    with assms(2) obtain fork where "lc' = light_cut (fork + 1) lc" "int (length (lc_headers lc)) - int fork - 1 \<le> MAX_REORG_DEPTH"
      by (auto simp: make_room_def light_cut_def not_less split: option.splits if_splits)
    then show ?thesis by (intro exI [of _ "fork + 1"]) simp
  qed
  then show "light_ok cr lc'" using light_cut_ok [OF assms(1)] by auto
qed

lemma sync_rounds_law:
  assumes "light_ok cr lc" "sync_rounds cr now space p n i (lc, fs) = (r, lc', fs')"
  shows "light_ok cr lc' \<and> lc_p lc' = lc_p lc \<and> lc_dir lc' = lc_dir lc"
  using assms
proof (induction n arbitrary: i lc fs)
  case (Suc n)
  consider "lc' = lc" | hs lc1 e lc2 where "make_room hs lc = Some (Inr lc1)" "append_all cr now hs lc1 = (e, lc2)"
      "lc' = lc2 \<or> sync_rounds cr now space p n (i + 1) (lc2, fs) = (r, lc', fs')"
    using Suc.prems(2) by (auto simp: Let_def split: option.splits sum.splits prod.splits if_splits)
  then show ?case
  proof cases
    case 2
    have "lc_p lc1 = lc_p lc" "lc_dir lc1 = lc_dir lc" using make_room_cut(2) [OF Suc.prems(1) 2(1)] by (auto simp: light_cut_def)
    with append_all_ok [OF make_room_cut(1) [OF Suc.prems(1) 2(1)] 2(2)] Suc.IH [of lc2] 2(3) show ?thesis by auto
  qed (use Suc.prems in simp)
qed auto

lemma sync_headers_law:
  assumes "light_ok cr lc" "sync_headers cr now space ps (lc, fs) = (r, lc', fs')"
  shows "light_ok cr lc'" "lc_p lc' = lc_p lc" "lc_dir lc' = lc_dir lc"
  using assms sync_rounds_law [OF assms(1)] by (auto simp: sync_headers_def split: if_splits)

text \<open>Headers that claim more work than they prove: the chain is cut before the first of them is checked, and
  stays cut, in memory and on disk, when it is refused.\<close>

lemma unproven_headers_cut:
  assumes "make_room [h] lc = Some (Inr lc1)" "append_header cr now h lc1 = Inl why"
    and "lp_answer p (i, 0) CGetHeaders (w_counted w_hash (light_locator lc) @ w_hash hash_zero) = Some (w_counted write_header [h])"
  shows "sync_rounds cr now space p (Suc n) i (lc, fs)
    = (LightFail (''invalid header from '' @ lp_addr p @ '': '' @ why), lc1, save_headers space (headers_path lc1) (lc_headers lc1) fs)"
proof -
  have "r_counted (of_nat MAX_HEADERS_PER_MSG) read_header (w_counted write_header [h]) = Inr ([h], [])"
    using headerc.r_counted_wr [of "[h]" "of_nat MAX_HEADERS_PER_MSG" "[]"] by (simp add: MAX_HEADERS_PER_MSG_def)
  with assms show ?thesis by (simp add: Let_def)
qed

section \<open>The file of headers\<close>

text \<open>Loading the first \<open>n\<close> bytes of what a chain was saved as gives a part of that chain from its start.\<close>

lemma load_tail:
  assumes "\<And>i. i < length ks \<Longrightarrow> h_prev (ks ! i) = (if i = 0 then last (lc_hashes lc) else header_hash cr (ks ! (i - 1)))"
  shows "\<exists>k. load_loop cr False (take n (concat (map write_header ks))) lc = fold (light_push cr) (take k ks) lc"
  using assms
proof (induction ks arbitrary: n lc)
  case Nil
  show ?case by (intro exI [of _ 0]) (simp add: load_loop.simps HEADER_SIZE_def)
next
  case (Cons h ks)
  show ?case
  proof (cases "n < HEADER_SIZE")
    case True
    then show ?thesis by (intro exI [of _ 0]) (simp add: load_loop.simps)
  next
    case False
    let ?lc = "light_push cr h lc"
    have b: "take n (concat (map write_header (h # ks))) = write_header h @ take (n - HEADER_SIZE) (concat (map write_header ks))"
      using False length_write_header by simp
    have "h_prev (ks ! i) = (if i = 0 then last (lc_hashes ?lc) else header_hash cr (ks ! (i - 1)))" if "i < length ks" for i
      using Cons.prems [of "Suc i"] that by (auto simp: light_push_def nth_Cons')
    from Cons.IH [OF this] obtain k where
      "load_loop cr False (take (n - HEADER_SIZE) (concat (map write_header ks))) ?lc = fold (light_push cr) (take k ks) ?lc" by blast
    moreover have "h_prev h = last (lc_hashes lc)" using Cons.prems [of 0] by simp
    moreover have "read_header (write_header h) = Inr (h, [])" using headerc.rd_all [of h] by simp
    ultimately show ?thesis
      unfolding b by (intro exI [of _ "Suc k"]) (subst load_loop.simps, simp add: length_write_header)
  qed
qed

lemma fold_light_push: "fold (light_push cr) ks lc = lc\<lparr>lc_headers := lc_headers lc @ ks, lc_hashes := lc_hashes lc @ map (header_hash cr) ks\<rparr>"
  by (induction ks arbitrary: lc) (simp_all add: light_push_def)

lemma light_ok_tail:
  assumes "light_ok cr lc" "header_hash cr (header (genesis (lc_p lc))) = genesis_hash (lc_p lc)"
  shows "lc_hashes lc = map (header_hash cr) (lc_headers lc)"
    "i + 1 < length (lc_headers lc) \<Longrightarrow> h_prev (lc_headers lc ! (i + 1)) = header_hash cr (lc_headers lc ! i)"
proof -
  show h: "lc_hashes lc = map (header_hash cr) (lc_headers lc)"
    by (rule nth_equalityI) (use assms in \<open>auto simp: light_ok_def elim: neq0_conv [THEN iffD1, elim_format]\<close>)
  show "h_prev (lc_headers lc ! (i + 1)) = header_hash cr (lc_headers lc ! i)" if "i + 1 < length (lc_headers lc)"
    using assms(1) that by (auto simp: light_ok_def header_follows_def h)
qed

lemma save_headers_file:
  "fs_ok fs (path @ ''.tmp'') \<Longrightarrow> fs_ok fs path \<Longrightarrow> read_file (save_headers n path hs fs) path = Some (take n (concat (map write_header hs)))"
  "\<not> (fs_ok fs (path @ ''.tmp'') \<and> fs_ok fs path) \<Longrightarrow> read_file (save_headers n path hs fs) path = read_file fs path"
  by (auto simp: save_headers_def fs_rename_def read_file_def update_conv' delete_conv' split: option.splits)

lemma reload_cut:
  assumes ok: "light_ok cr lc" and g: "header_hash cr (header (genesis (lc_p lc))) = genesis_hash (lc_p lc)"
    and f: "read_file fs (headers_path lc) = Some (take n (concat (map write_header (lc_headers lc))))"
  shows "\<exists>k>0. light_load cr fs lc = light_cut k lc"
proof -
  let ?hs = "lc_headers lc" and ?lc = "lc\<lparr>lc_headers := [header (genesis (lc_p lc))], lc_hashes := [genesis_hash (lc_p lc)]\<rparr>"
  obtain ks where hs: "?hs = header (genesis (lc_p lc)) # ks" using ok by (cases ?hs) (auto simp: light_ok_def)
  have hh: "lc_hashes lc = genesis_hash (lc_p lc) # map (header_hash cr) ks" using light_ok_tail(1) [OF ok g] hs g by simp
  have cut: "fold (light_push cr) (take k ks) ?lc = light_cut (Suc k) lc" for k
    by (simp add: fold_light_push light_cut_def hs hh take_map)
  have "headers_path ?lc = headers_path lc" by (simp add: headers_path_def)
  then have l: "light_load cr fs lc = load_loop cr True (take n (concat (map write_header ?hs))) ?lc"
    by (simp add: light_load_def f)
  show ?thesis
  proof (cases "n < HEADER_SIZE")
    case True
    then have "light_load cr fs lc = ?lc" unfolding l by (simp add: load_loop.simps)
    with cut [of 0] show ?thesis by (intro exI [of _ 1]) simp
  next
    case False
    have "h_prev (ks ! i) = (if i = 0 then last (lc_hashes ?lc) else header_hash cr (ks ! (i - 1)))" if "i < length ks" for i
      using light_ok_tail(2) [OF ok g, of i] that hs g by (cases i) simp_all
    from load_tail [OF this] obtain k where
      k: "load_loop cr False (take (n - HEADER_SIZE) (concat (map write_header ks))) ?lc = fold (light_push cr) (take k ks) ?lc" by blast
    have b: "take n (concat (map write_header ?hs)) = write_header (header (genesis (lc_p lc))) @ take (n - HEADER_SIZE) (concat (map write_header ks))"
      using False length_write_header hs by simp
    have "read_header (write_header h) = Inr (h, [])" for h using headerc.rd_all [of h] by simp
    then have "light_load cr fs lc = fold (light_push cr) (take k ks) ?lc"
      unfolding l b using k g by (subst load_loop.simps) (simp add: length_write_header)
    with cut show ?thesis by (intro exI [of _ "Suc k"]) simp
  qed
qed

text \<open>A client without a file starts at the genesis block.\<close>

lemma light_new_ok: "read_file fs (dir @ ''/headers.dat'') = None \<Longrightarrow> light_ok cr (LightClient_new cr p dir nonce fs)"
  by (simp add: LightClient_new_def light_load_def headers_path_def light_ok_def Let_def)

lemma saved_reloads:
  assumes "light_ok cr lc" "header_hash cr (header (genesis (lc_p lc))) = genesis_hash (lc_p lc)"
    and "fs_ok fs (headers_path lc @ ''.tmp'')" "fs_ok fs (headers_path lc)"
  shows "light_ok cr (light_load cr (save_headers n (headers_path lc) (lc_headers lc) fs) lc)"
    "\<exists>k. lc_headers (light_load cr (save_headers n (headers_path lc) (lc_headers lc) fs) lc) = take k (lc_headers lc)"
proof -
  obtain k where "0 < k" "light_load cr (save_headers n (headers_path lc) (lc_headers lc) fs) lc = light_cut k lc"
    using reload_cut [OF assms(1,2) save_headers_file(1) [OF assms(3,4)]] by blast
  with light_cut_ok [OF assms(1)] show "light_ok cr (light_load cr (save_headers n (headers_path lc) (lc_headers lc) fs) lc)"
    "\<exists>k. lc_headers (light_load cr (save_headers n (headers_path lc) (lc_headers lc) fs) lc) = take k (lc_headers lc)"
    by (auto simp: light_cut_def)
qed

section \<open>Coins and their proofs\<close>

text \<open>What is proved about a confirmed coin: its transaction is in a block of the chain.\<close>

definition coin_proved :: "crypto \<Rightarrow> light_client \<Rightarrow> wallet_coin \<Rightarrow> bool" where
  "coin_proved cr lc c \<longleftrightarrow> 0 \<le> wc_height c \<longrightarrow>
     nat (wc_height c) < length (lc_headers lc)
     \<and> (\<exists>core r tx idx cnt path. op_txid (wc_op c) = blake3_tagged cr ctx_TXID core \<and> read_core core = Inr (tx, r)
        \<and> merkle_verify cr (op_txid (wc_op c)) idx cnt path (merkle_root_f (lc_headers lc ! nat (wc_height c)))
        \<and> unat (op_n (wc_op c)) < length (outs tx) \<and> wc_out c = outs tx ! unat (op_n (wc_op c)) \<and> wc_coinbase c = is_coinbase tx)"

lemma coin_proved_locked: "coin_proved cr lc (c\<lparr>wc_locked := b\<rparr>) = coin_proved cr lc c"
  by (simp add: coin_proved_def)

definition scan_ok :: "crypto \<Rightarrow> light_client \<Rightarrow> scan \<Rightarrow> bool" where
  "scan_ok cr lc s \<longleftrightarrow> (\<forall>x\<in>set (ls_coins s). wc_op (snd x) = fst x \<and> coin_proved cr lc (snd x))"

lemma scan_ok_more [simp]: "scan_ok cr lc (s\<lparr>ls_spent := x\<rparr>) = scan_ok cr lc s" "scan_ok cr lc (s\<lparr>ls_received := y\<rparr>) = scan_ok cr lc s"
  "scan_ok cr lc (s\<lparr>ls_coinbase := z\<rparr>) = scan_ok cr lc s"
  by (simp_all add: scan_ok_def)

lemma scan_ok_add: "scan_ok cr lc s \<Longrightarrow> wc_op c = p \<Longrightarrow> coin_proved cr lc c \<Longrightarrow> scan_ok cr lc (s\<lparr>ls_coins := AList.update p c (ls_coins s)\<rparr>)"
  using set_update [of p c "ls_coins s"] by (fastforce simp: scan_ok_def)

lemma height_of_bound: "light_ok cr lc \<Longrightarrow> height_of lc h = Some i \<Longrightarrow> i < length (lc_headers lc)"
  by (auto simp: height_of_def dest!: map_of_SomeD set_zip_rightD)

lemma accept_proof_ok:
  assumes "light_ok cr lc" "scan_ok cr lc s" "accept_proof cr lc w u s = Inr s'"
  shows "scan_ok cr lc s'"
proof (cases "s' = s")
  case False
  let ?tid = "blake3_tagged cr ctx_TXID (up_tx_core u)" and ?n = "unat (op_n (up_op u))"
  obtain h where h: "height_of lc (up_block u) = Some h" using assms(3) False by (auto simp: accept_proof_def split: option.splits)
  have t: "?tid = op_txid (up_op u)"
    "merkle_verify cr ?tid (unat (up_tx_index u)) (unat (up_tx_count u)) (up_merkle u) (merkle_root_f (lc_headers lc ! h))"
    using assms(3) False h by (auto simp: accept_proof_def Let_def split: if_splits)
  obtain tx r where tx: "read_core (up_tx_core u) = Inr (tx, r)"
    using assms(3) False h t by (auto simp: accept_proof_def Let_def split: if_splits sum.splits)
  have n: "?n < length (outs tx)" using assms(3) False h t tx by (simp add: accept_proof_def Let_def split: if_splits)
  let ?c = "\<lparr>wc_op = up_op u, wc_out = outs tx ! ?n, wc_height = int h, wc_coinbase = is_coinbase tx, wc_locked = False\<rparr>"
  have s': "ls_coins s' = AList.update (up_op u) ?c (ls_coins s)"
    using assms(3) False h t tx n by (auto simp: accept_proof_def Let_def split: if_splits)
  have "coin_proved cr lc ?c"
    using h t tx n height_of_bound [OF assms(1) h] unfolding coin_proved_def by (metis nat_int wallet_coin.select_convs(1-4))
  with scan_ok_add [OF assms(2), of ?c "up_op u"] show ?thesis by (simp add: scan_ok_def s')
qed (use assms in simp)

lemma scan_proofs_ok: "light_ok cr lc \<Longrightarrow> scan_ok cr lc s \<Longrightarrow> scan_ok cr lc (fst (scan_proofs cr lc w n r s))"
  by (induction n arbitrary: r s) (auto split: sum.splits dest: accept_proof_ok)

lemma scan_spent_ok: "scan_ok cr lc s \<Longrightarrow> scan_ok cr lc (fst (scan_spent n r s))"
  by (induction n arbitrary: r s) (auto split: sum.splits)

lemma unproved_ok: "coin_proved cr lc \<lparr>wc_op = p, wc_out = out, wc_height = -1, wc_coinbase = cb, wc_locked = lk\<rparr>"
  by (simp add: coin_proved_def)

lemma scan_pending_ok: "scan_ok cr lc s \<Longrightarrow> scan_ok cr lc (fst (scan_pending w n r s))"
proof (induction n arbitrary: r s)
  case (Suc n)
  show ?case
    using Suc.IH Suc.prems scan_ok_add [OF Suc.prems _ unproved_ok] by (auto split: sum.splits)
qed simp

lemma scan_section_ok:
  assumes "\<And>n r s. scan_ok cr lc s \<Longrightarrow> scan_ok cr lc (fst (f n r s))" "scan_ok cr lc (fst x)"
  shows "scan_ok cr lc (fst (scan_section f x))"
  using assms by (cases x) (auto simp: scan_section_def split: sum.splits)

lemma scan_reply_ok: "light_ok cr lc \<Longrightarrow> scan_ok cr lc s \<Longrightarrow> scan_ok cr lc (scan_reply cr lc w reply s)"
  unfolding scan_reply_def by (intro scan_section_ok scan_proofs_ok scan_spent_ok scan_pending_ok) simp_all

lemma ask_peer_ok: "light_ok cr lc \<Longrightarrow> scan_ok cr lc (fst s) \<Longrightarrow> scan_ok cr lc (fst (ask_peer cr lc w k pp i cs s))"
  by (induction cs arbitrary: i s) (auto split: option.splits simp: scan_reply_ok)

lemma ask_all_ok: "light_ok cr lc \<Longrightarrow> scan_ok cr lc (fst s) \<Longrightarrow> scan_ok cr lc (fst (fold (\<lambda>pp. ask_peer cr lc w k pp 0 cs) ps s))"
  by (induction ps arbitrary: s) (simp_all add: ask_peer_ok)

lemma record_received_coins: "w_coins (fold (record_received lc s by_id) xs w) = w_coins w"
  by (induction xs arbitrary: w) (simp_all add: record_received_def record_tx_def split: prod.split option.split)

definition coins_proved :: "crypto \<Rightarrow> light_client \<Rightarrow> wallet \<Rightarrow> bool" where
  "coins_proved cr lc w \<longleftrightarrow> (\<forall>p c. map_of (w_coins w) p = Some c \<longrightarrow> wc_op c = p \<and> coin_proved cr lc c)"

lemma refresh_round_proved:
  assumes "light_ok cr lc" "refresh_round cr lc ps k w = Some w'"
  shows "coins_proved cr lc w'"
proof -
  obtain s n where f: "fold (\<lambda>pp. ask_peer cr lc w k pp 0 (addr_chunks (watched_addresses w))) ps (empty_scan, 0) = (s, n)" by force
  have "scan_ok cr lc s"
    using ask_all_ok [OF assms(1), of "(empty_scan, 0)" w k "addr_chunks (watched_addresses w)" ps] f by (simp add: scan_ok_def empty_scan_def)
  then have v: "coin_proved cr lc c" if "c \<in> set (map (\<lambda>(p, c). c\<lparr>wc_locked := (p \<in> set (ls_spent s))\<rparr>) (walk (ls_coins s)))" for c
    using that by (fastforce simp: scan_ok_def coin_proved_locked)
  have "w_coins w' = w_coins (replace_coins cr (map (\<lambda>(p, c). c\<lparr>wc_locked := (p \<in> set (ls_spent s))\<rparr>) (walk (ls_coins s))) w)"
    using assms(2) f by (auto simp: refresh_round_def Let_def record_received_coins split: if_splits)
  with v replaced_coins show ?thesis
    unfolding coins_proved_def by (metis fst_conv map_of_SomeD snd_conv)
qed

lemma refresh_rounds_proved:
  assumes "light_ok cr lc" "refresh_rounds cr lc ps (Suc n) k w = (True, w')"
  shows "coins_proved cr lc w'"
  using assms(2)
proof (induction n arbitrary: k w)
  case 0
  then show ?case using refresh_round_proved [OF assms(1)] by (auto split: option.splits if_splits)
next
  case (Suc n)
  obtain w1 where r: "refresh_round cr lc ps k w = Some w1" using Suc.prems by (auto split: option.splits)
  show ?case
  proof (cases "length (watched_addresses w1) = length (watched_addresses w)")
    case True
    with Suc.prems r refresh_round_proved [OF assms(1) r] show ?thesis by simp
  next
    case False
    then have "refresh_rounds cr lc ps (Suc (Suc n)) k w = refresh_rounds cr lc ps (Suc n) (k + 1) w1"
      unfolding refresh_rounds.simps(2) [of cr lc ps "Suc n"] using r by simp
    with Suc show ?thesis by simp
  qed
qed

lemma refresh_proved:
  assumes "light_ok cr lc" "refresh_wallet cr e lc ps w st = (LightOk, w', st')"
  shows "coins_proved cr lc w'" "w_synced_height w' = light_height lc"
proof -
  obtain w1 where r: "refresh_rounds cr lc ps (Suc 7) 0 w = (True, w1)"
    "w' = w1\<lparr>w_synced_height := light_height lc, w_synced_tip := last (lc_hashes lc)\<rparr>"
    using assms(2) by (auto simp: refresh_wallet_def Let_def numeral_eq_Suc split: if_splits prod.splits bool.splits)
  from refresh_rounds_proved [OF assms(1) r(1)] r(2) show "coins_proved cr lc w'" "w_synced_height w' = light_height lc"
    by (simp_all add: coins_proved_def)
qed

text \<open>What is received is added up over all assets, and recorded as a change of the QNT balance.\<close>

lemma received_mixes_assets:
  assumes "accept_proof cr lc w u s = Inr s'" "s' \<noteq> s" "map_of (ls_received s) (op_txid (up_op u)) = None"
  shows "\<exists>h. map_of (ls_received s') (op_txid (up_op u)) = Some (h, o_value (c_out (up_coin u)))"
proof -
  obtain h where h: "height_of lc (up_block u) = Some h" using assms(1,2) by (auto simp: accept_proof_def split: option.splits)
  then have t: "blake3_tagged cr ctx_TXID (up_tx_core u) = op_txid (up_op u)"
    using assms(1,2) by (auto simp: accept_proof_def Let_def split: if_splits)
  show ?thesis using assms h t
    by (auto simp: accept_proof_def Let_def update_conv' split: if_splits sum.splits prod.splits)
qed

lemma received_recorded_as_qnt:
  assumes "map_of by_id tid = None"
  shows "\<exists>t. map_of (w_history (record_received lc s by_id (tid, h, a) w)) tid = Some t \<and> wt_delta t = sint a \<and> wt_token_delta t = []"
  using assms by (simp add: record_received_def record_tx_def blank_tx_def update_conv')

end
