(* ===== verification/Examples_Light.thy ===== *)
theory Examples_Light
  imports Examples Light_Laws
begin

text \<open>
  A light client on a test network with the computing hash functions of \<open>Examples\<close>, a peer that serves it one
  block, and a proof for the coin of that block.
\<close>

section \<open>A network\<close>

definition ex_light_params :: chain_params where
  "ex_light_params = (build_switch Regtest)\<lparr>genesis := blank_block, genesis_hash := header_hash toy (header blank_block)\<rparr>"

lemma be_val_zeros: "be_val (replicate n 0) = 0"
  by (induction n) simp_all

text \<open>The first byte of a hash of \<open>toy\<close> is 1, below the target of the network.\<close>

lemma toy_pow: "check_pow (header_hash toy h) 0x207fffff ex_light_params"
proof -
  obtain x where x: "header_hash toy h = hash_of [1, x]" by (simp add: header_hash_def blake3_def toy_def toy_hash_def)
  have "hash_bytes (hash_of [1, x]) = 1 # x # replicate 30 0" by (simp add: hash_bytes_hash_of numeral_eq_Suc)
  then have v: "be_val (hash_bytes (hash_of [1, x])) < 2 * 256 ^ 31"
    using unat_lt_8 [of x] be_val_zeros [of 30] by simp
  have c: "from_compact 0x207fffff = (U256 0 0 0 0x7fffff0000000000, False, False)" by code_simp
  have p: "pow_limit ex_light_params = U256 (-1) (-1) (-1) 0x7fffffffffffffff"
    unfolding ex_light_params_def by code_simp
  have "u256_val (U256 0 0 0 0x7fffff0000000000) = 0x7fffff * 256 ^ 29"
    "u256_val (U256 (-1) (-1) (-1) 0x7fffffffffffffff) = 2 ^ 255 - 1"
    by (simp_all add: u256_val_def limbs_def unsigned_minus_1_eq_mask mask_eq_exp_minus_1)
  with v show ?thesis by (simp add: check_pow_def c p x from_hash_val)
qed

lemma ex_light_bits: "next_bits n f ex_light_params = 0x207fffff"
  by (simp add: next_bits_def ex_light_params_def) code_simp

section \<open>A block with one coin\<close>

definition ex_owner :: hash256 where
  "ex_owner = hash_of [5]"

definition ex_cb :: transaction where
  "ex_cb = ex_coinbase 1 [\<lparr>o_value = 50, o_asset = QNT_ASSET, o_addr = ex_owner\<rparr>]"

definition ex_cb_id :: hash256 where
  "ex_cb_id = blake3_tagged toy ctx_TXID (write_core ex_cb)"

definition ex_next :: block_header where
  "ex_next = (ex_header (header_hash toy (header blank_block)) 1)\<lparr>h_time := 1, h_bits := 0x207fffff, merkle_root_f := ex_cb_id\<rparr>"

definition ex_utxo :: utxo_proof where
  "ex_utxo = \<lparr>up_op = OutPoint ex_cb_id 0, up_coin = \<lparr>c_out = \<lparr>o_value = 50, o_asset = QNT_ASSET, o_addr = ex_owner\<rparr>, c_height = 1, c_coinbase = True\<rparr>,
     up_block = header_hash toy ex_next, up_tx_core = write_core ex_cb, up_tx_index = 0, up_tx_count = 1, up_merkle = []\<rparr>"

definition ex_utxo_coin :: wallet_coin where
  "ex_utxo_coin = \<lparr>wc_op = OutPoint ex_cb_id 0, wc_out = \<lparr>o_value = 50, o_asset = QNT_ASSET, o_addr = ex_owner\<rparr>, wc_height = 1,
     wc_coinbase = True, wc_locked = False\<rparr>"

section \<open>A client and its peer\<close>

definition ex_light :: light_client where
  "ex_light = LightClient_new toy ex_light_params ''l'' 7 ex_disk"

definition ex_synced :: light_client where
  "ex_synced = light_push toy ex_next ex_light"

definition ex_reply :: bytes where
  "ex_reply = w_u64le 1 @ w_hash hash_zero @ w_varint 1 @ write_utxo_proof ex_utxo @ w_varint 0 @ w_varint 0"

definition ex_peer :: light_peer where
  "ex_peer = \<lparr>lp_addr = ''a'', lp_height = 1,
     lp_answer = \<lambda>k c b. Some (if c = CGetHeaders then w_counted write_header [ex_next] else ex_reply)\<rparr>"

lemma ex_light_start [simp]: "lc_headers ex_light = [header blank_block]" "lc_hashes ex_light = [header_hash toy (header blank_block)]"
  "lc_p ex_light = ex_light_params"
  by (simp_all add: ex_light_def LightClient_new_def light_load_def Let_def headers_path_def read_file_def ex_disk_def ex_light_params_def)

lemma ex_light_ok: "light_ok toy ex_light"
  unfolding ex_light_def by (rule light_new_ok) (simp add: read_file_def ex_disk_def)

lemma ex_append: "append_header toy 0 ex_next ex_light = Inr ex_synced"
proof -
  have "check_pow (header_hash toy ex_next) (h_bits ex_next) ex_light_params" using toy_pow by (simp add: ex_next_def)
  then show ?thesis
    by (simp add: append_header_def light_height_def light_median_def MEDIAN_TIME_SPAN_def MAX_FUTURE_DRIFT_def ex_light_bits ex_synced_def)
      (simp add: ex_next_def ex_header_def blank_block_def)
qed

lemma ex_synced_ok: "light_ok toy ex_synced"
  by (rule append_header_ok(1) [OF ex_light_ok ex_append])

lemma ex_sync: "\<exists>fs. sync_headers toy 0 1000 [ex_peer] (ex_light, ex_disk) = (LightOk, ex_synced, fs)"
proof -
  have r: "r_counted (of_nat MAX_HEADERS_PER_MSG) read_header (w_counted write_header [ex_next]) = Inr ([ex_next], [])"
    using headerc.r_counted_wr [of "[ex_next]" "of_nat MAX_HEADERS_PER_MSG" "[]"] by (simp add: MAX_HEADERS_PER_MSG_def)
  have m: "make_room [ex_next] ex_light = Some (Inr ex_light)"
    by (simp add: make_room_def) (simp add: ex_next_def ex_header_def)
  have "sync_rounds toy 0 1000 ex_peer (Suc 99999) 0 (ex_light, ex_disk) = (LightOk, ex_synced,
      save_headers 1000 (headers_path ex_synced) (lc_headers ex_synced) ex_disk)"
    unfolding sync_rounds.simps(2) using r m ex_append
    by (simp add: ex_peer_def Let_def) (simp add: MAX_HEADERS_PER_MSG_def)
  then show ?thesis by (simp add: sync_headers_def best_peer_def)
qed

section \<open>A wallet that receives the coin\<close>

definition ex_watcher :: wallet where
  "ex_watcher = (blank_wallet ex_light_params)\<lparr>w_keys := replicate 21
     \<lparr>wk_index = 0, wk_pk = [], wk_sk = [], wk_addr = ex_owner, wk_label = [], wk_issued = True\<rparr>, w_next_index := 1, w_by_addr := [(ex_owner, 0)]\<rparr>"

lemma ex_accept:
  "accept_proof toy ex_synced ex_watcher ex_utxo empty_scan =
     Inr (empty_scan\<lparr>ls_coins := [(OutPoint ex_cb_id 0, ex_utxo_coin)], ls_received := [(ex_cb_id, 1, 50)], ls_coinbase := [ex_cb_id]\<rparr>)"
proof -
  have h: "height_of ex_synced (header_hash toy ex_next) = Some 1"
    by (simp add: height_of_def ex_synced_def light_push_def numeral_2_eq_2)
  have c: "read_core (write_core ex_cb) = Inr (ex_cb, [])"
    by (rule corec.rd_all) (simp add: core_ok_def ex_cb_def ex_coinbase_def MAX_TX_INPUTS_def MAX_TX_OUTPUTS_def MAX_TX_OPS_def MAX_COINBASE_EXTRA_def)
  have m: "merkle_verify toy ex_cb_id 0 1 [] (merkle_root_f (lc_headers ex_synced ! 1))"
    by (simp add: merkle_verify_def merkle_climb.simps ex_synced_def light_push_def) (simp add: ex_next_def)
  have "is_mine ex_watcher ex_owner" by (simp add: is_mine_def ex_watcher_def)
  then show ?thesis
    using h c m by (simp add: accept_proof_def ex_utxo_def ex_cb_id_def [symmetric] Let_def)
      (simp add: ex_cb_def ex_coinbase_def is_coinbase_def empty_scan_def ex_utxo_coin_def)
qed

lemma ex_scan: "scan_reply toy ex_synced ex_watcher ex_reply empty_scan =
    empty_scan\<lparr>ls_coins := [(OutPoint ex_cb_id 0, ex_utxo_coin)], ls_received := [(ex_cb_id, 1, 50)], ls_coinbase := [ex_cb_id]\<rparr>"
proof -
  have l: "length (write_core ex_cb) \<le> MAX_MESSAGE"
    using w_varint_length10 [of 1] w_varint_length10 [of 2] w_varint_length10 [of 0] w_varint_length10 [of 50]
    by (simp add: write_core_def ex_cb_def ex_coinbase_def w_counted_def write_txout_def is_qnt_def QNT_ASSET_def w_u8_def w_hash_def
      w_bytes_def MAX_MESSAGE_def)
  then have "utxo_proof_ok ex_utxo" by (simp add: utxo_proof_ok_def ex_utxo_def)
  then have "read_utxo_proof (write_utxo_proof ex_utxo @ r) = Inr (ex_utxo, r)" for r by (rule utxo_proofr.rd_wr)
  moreover have "r_varint_max 100000 (w_varint 1 @ r) = Inr (1, r)" "r_varint_max 100000 (w_varint 0 @ r) = Inr (0, r)"
    "r_varint_max 100000 (w_varint 0) = Inr (0, [])" for r
    using varint_maxc.rd_wr [of 1 100000 r] varint_maxc.rd_wr [of 0 100000 r] varint_maxc.rd_all [of 0 100000] by simp_all
  ultimately show ?thesis
    using ex_accept by (simp add: scan_reply_def ex_reply_def scan_section_def u64c.rd_wr hashc.rd_wr)
qed

lemma ex_refresh: "\<exists>w st. refresh_wallet toy e ex_synced [ex_peer] ex_watcher (no_cache, ex_disk) = (LightOk, w, st)
    \<and> map_of (w_coins w) (OutPoint ex_cb_id 0) = Some ex_utxo_coin"
proof -
  define w where "w = ex_watcher\<lparr>w_coins := [(OutPoint ex_cb_id 0, ex_utxo_coin)]\<rparr>"
  have add: "w_add_coin toy ex_utxo_coin (ex_watcher\<lparr>w_coins := []\<rparr>) = w"
    by (simp add: w_add_coin_def w_def ex_watcher_def ex_utxo_coin_def derive_until_def LOOKAHEAD_def Let_def)
  have len: "length (w_keys ex_watcher) = 21" by (simp add: ex_watcher_def)
  have ch: "addr_chunks (watched_addresses ex_watcher) = [watched_addresses ex_watcher]" by (simp add: addr_chunks_def len take_all)
  have ask: "ask_peer toy ex_synced ex_watcher 0 ex_peer 0 (addr_chunks (watched_addresses ex_watcher)) (empty_scan, 0)
     = (empty_scan\<lparr>ls_coins := [(OutPoint ex_cb_id 0, ex_utxo_coin)], ls_received := [(ex_cb_id, 1, 50)], ls_coinbase := [ex_cb_id]\<rparr>, 1)"
    unfolding ch by (simp add: ex_peer_def ex_scan)
  have lk: "ex_utxo_coin\<lparr>wc_locked := False\<rparr> = ex_utxo_coin" by (simp add: ex_utxo_coin_def)
  obtain w1 where r: "refresh_round toy ex_synced [ex_peer] 0 ex_watcher = Some w1" "w_coins w1 = w_coins w" "w_keys w1 = w_keys w"
    using ask by (simp add: refresh_round_def walk_def empty_scan_def lk replace_coins_def add record_received_def record_tx_def Let_def
        split: option.split)
  then have "refresh_rounds toy ex_synced [ex_peer] (Suc 7) 0 ex_watcher = (True, w1)"
    unfolding refresh_rounds.simps(2) by (simp add: watched_addresses_def w_def)
  moreover have "Suc 7 = 8" by simp
  ultimately have "refresh_rounds toy ex_synced [ex_peer] 8 0 ex_watcher = (True, w1)" by (simp only:)
  then show ?thesis using r(2) by (simp add: refresh_wallet_def w_def Let_def)
qed

end
