(* ===== verification/Node_Index.thy ===== *)
theory Node_Index
  imports Chain_Connect
begin

text \<open>
  The indexes a full node keeps beside the chain (\<open>src/src/node/node.cpp\<close>, from line 243 on): the history of
  pool reserves, the swaps of every token, and the messages on the chain. Each index lives in memory and in
  a file that records are appended to; the memory follows the chain's callbacks, and is rebuilt from the file at
  start-up. A \<open>FILE*\<close> is the content written through it, \<open>None\<close> when it could not be opened.
\<close>

section \<open>State\<close>

record pool_point =
  pp_height :: int
  pp_time :: u64
  pp_qnt :: amount
  pp_tok :: amount

record trade_point =
  td_height :: int
  td_time :: u64
  td_txid :: hash256
  td_sell :: bool
  td_in :: amount
  td_out :: amount
  td_trader :: hash256

record msg_point =
  mg_height :: int
  mg_time :: u64
  mg_txid :: hash256
  mg_from :: hash256
  mg_to :: hash256
  mg_gift :: u8
  mg_text :: string

record node_index =
  ni_pool_hist :: "(hash256 \<times> pool_point list) list"
  ni_trades :: "(hash256 \<times> trade_point list) list"
  ni_msgs :: "msg_point list"
  ni_f_pool :: "bytes option"
  ni_f_trades :: "bytes option"
  ni_f_msgs :: "bytes option"

text \<open>\<open>while (!v.empty() && p(v.back())) v.pop_back();\<close> and \<open>m[k]\<close> of a map of vectors.\<close>

definition pop_while :: "('a \<Rightarrow> bool) \<Rightarrow> 'a list \<Rightarrow> 'a list" where
  "pop_while P v = rev (dropWhile P (rev v))"

definition entries :: "('k \<times> 'v list) list \<Rightarrow> 'k \<Rightarrow> 'v list" where
  "entries m k = (case map_of m k of None \<Rightarrow> [] | Some v \<Rightarrow> v)"

definition at_entry :: "'k \<Rightarrow> ('v list \<Rightarrow> 'v list) \<Rightarrow> ('k \<times> 'v list) list \<Rightarrow> ('k \<times> 'v list) list" where
  "at_entry k f m = AList.update k (f (entries m k)) m"

definition append_to :: "bytes \<Rightarrow> bytes option \<Rightarrow> bytes option" where
  "append_to b f = map_option (\<lambda>old. old @ b) f"

definition w_height :: "int \<Rightarrow> bytes" where
  "w_height h = w_u64le (word_of_int h)"

definition r_height :: "int reader" where
  "r_height r = rbind (r_u64le r) (\<lambda>(v, r). Inr (sint v, r))"

text \<open>Reading a file of records of \<open>k > 0\<close> bytes: whole records only.\<close>

function records :: "nat \<Rightarrow> bytes \<Rightarrow> bytes list" where
  "records k b = (if k = 0 \<or> length b < k then [] else take k b # records k (drop k b))"
  by pat_completeness auto
termination
  by (relation "measure (\<lambda>(k, b). length b)") auto

declare records.simps [simp del]

section \<open>Pool history\<close>

definition POOLHIST_REC :: nat where "POOLHIST_REC = 32 + 8 * 4"

definition pool_hist_put :: "pool_point \<Rightarrow> pool_point list \<Rightarrow> pool_point list" where
  "pool_hist_put pt v = pop_while (\<lambda>x. pp_height x \<ge> pp_height pt) v @ [pt]"

definition write_pool_point :: "hash256 \<times> pool_point \<Rightarrow> bytes" where
  "write_pool_point = (\<lambda>(t, pt). w_hash t @ w_height (pp_height pt) @ w_u64le (pp_time pt) @ w_u64le (pp_qnt pt) @ w_u64le (pp_tok pt))"

definition read_pool_point :: "(hash256 \<times> pool_point) reader" where
  "read_pool_point r =
     rbind (r_hash r) (\<lambda>(t, r).
     rbind (r_height r) (\<lambda>(h, r).
     rbind (r_u64le r) (\<lambda>(time, r).
     rbind (r_u64le r) (\<lambda>(q, r).
     rbind (r_u64le r) (\<lambda>(k, r).
     Inr ((t, \<lparr>pp_height = h, pp_time = time, pp_qnt = q, pp_tok = k\<rparr>), r))))))"

definition load_pool_point :: "bytes \<Rightarrow> (hash256 \<times> pool_point list) list \<Rightarrow> (hash256 \<times> pool_point list) list" where
  "load_pool_point b m = (case read_pool_point b of Inl e \<Rightarrow> m | Inr ((t, pt), r) \<Rightarrow> at_entry t (pool_hist_put pt) m)"

definition pool_hist_load :: "bytes option \<Rightarrow> node_index \<Rightarrow> node_index" where
  "pool_hist_load file ni =
     (case file of None \<Rightarrow> ni | Some b \<Rightarrow> ni\<lparr>ni_pool_hist := fold load_pool_point (records POOLHIST_REC b) (ni_pool_hist ni)\<rparr>)"

fun touched_token :: "tx_op \<Rightarrow> hash256 option" where
  "touched_token (OpCreateToken ticker name decimals supply uri) = None"
| "touched_token (OpMessage from to gift txt) = None"
| "touched_token (OpPoolCreate token qnt tok shares) = Some token"
| "touched_token (OpAddLiquidity token qnt tok shares) = Some token"
| "touched_token (OpRemoveLiquidity token shares qnt tok) = Some token"
| "touched_token (OpSwap token sell inp out) = Some token"

text \<open>The set of touched tokens in its order.\<close>

definition touched :: "block \<Rightarrow> hash256 list" where
  "touched b = sort (remdups (List.map_filter touched_token (concat (map ops (txs b)))))"

definition pool_hist_step :: "chainstate \<Rightarrow> block \<Rightarrow> int \<Rightarrow> hash256 \<Rightarrow> node_index \<Rightarrow> node_index" where
  "pool_hist_step cs b height t ni =
     (case us_pool (cs_st cs) t of
        None \<Rightarrow> ni
      | Some pl \<Rightarrow>
          (let pt = \<lparr>pp_height = height, pp_time = h_time (header b), pp_qnt = p_qnt pl, pp_tok = p_tok pl\<rparr>
           in ni\<lparr>ni_pool_hist := at_entry t (pool_hist_put pt) (ni_pool_hist ni),
                 ni_f_pool := append_to (write_pool_point (t, pt)) (ni_f_pool ni)\<rparr>))"

definition pool_hist_connect :: "chainstate \<Rightarrow> block \<Rightarrow> int \<Rightarrow> node_index \<Rightarrow> node_index" where
  "pool_hist_connect cs b height ni = fold (pool_hist_step cs b height) (touched b) ni"

definition pool_hist_disconnect :: "int \<Rightarrow> node_index \<Rightarrow> node_index" where
  "pool_hist_disconnect height ni =
     ni\<lparr>ni_pool_hist := map (\<lambda>(t, v). (t, pop_while (\<lambda>x. pp_height x \<ge> height) v)) (ni_pool_hist ni)\<rparr>"

text \<open>At start-up, after the chain is loaded: points above the tip go, and the file is written anew.\<close>

definition pool_hist_compact :: "int \<Rightarrow> bool \<Rightarrow> node_index \<Rightarrow> node_index" where
  "pool_hist_compact height can_open ni =
     (let m = map (\<lambda>(t, v). (t, pop_while (\<lambda>x. pp_height x > height) v)) (ni_pool_hist ni)
      in ni\<lparr>ni_pool_hist := m,
            ni_f_pool := (if can_open
              then Some (concat (map (\<lambda>(t, v). concat (map (\<lambda>pt. write_pool_point (t, pt)) v)) (sort_key fst m))) else None)\<rparr>)"

section \<open>Trades\<close>

definition TRADE_REC :: nat where "TRADE_REC = 32 + 8 + 8 + 32 + 1 + 8 + 8 + 32"

definition write_trade :: "hash256 \<times> trade_point \<Rightarrow> bytes" where
  "write_trade = (\<lambda>(token, t). w_hash token @ w_height (td_height t) @ w_u64le (td_time t) @ w_hash (td_txid t)
     @ w_u8 (if td_sell t then 1 else 0) @ w_u64le (td_in t) @ w_u64le (td_out t) @ w_hash (td_trader t))"

definition read_trade :: "(hash256 \<times> trade_point) reader" where
  "read_trade r =
     rbind (r_hash r) (\<lambda>(tok, r).
     rbind (r_height r) (\<lambda>(h, r).
     rbind (r_u64le r) (\<lambda>(time, r).
     rbind (r_hash r) (\<lambda>(tid, r).
     rbind (r_u8 r) (\<lambda>(sell, r).
     rbind (r_u64le r) (\<lambda>(inp, r).
     rbind (r_u64le r) (\<lambda>(out, r).
     rbind (r_hash r) (\<lambda>(trader, r).
     Inr ((tok, \<lparr>td_height = h, td_time = time, td_txid = tid, td_sell = sell \<noteq> 0, td_in = inp, td_out = out, td_trader = trader\<rparr>), r)))))))))"

definition trade_put :: "trade_point \<Rightarrow> trade_point list \<Rightarrow> trade_point list" where
  "trade_put t v =
     (let v = pop_while (\<lambda>x. td_height x > td_height t) v;
          dup = list_ex (\<lambda>x. td_txid x = td_txid t \<and> td_in x = td_in t \<and> td_out x = td_out t)
                  (takeWhile (\<lambda>x. td_height x = td_height t) (rev v))
      in if dup then v else v @ [t])"

definition load_trade :: "bytes \<Rightarrow> (hash256 \<times> trade_point list) list \<Rightarrow> (hash256 \<times> trade_point list) list" where
  "load_trade b m = (case read_trade b of Inl e \<Rightarrow> m | Inr ((tok, t), r) \<Rightarrow> at_entry tok (trade_put t) m)"

definition trades_load :: "bytes option \<Rightarrow> node_index \<Rightarrow> node_index" where
  "trades_load file ni =
     (case file of None \<Rightarrow> ni | Some b \<Rightarrow> ni\<lparr>ni_trades := fold load_trade (records TRADE_REC b) (ni_trades ni)\<rparr>)"

definition trades_compact :: "int \<Rightarrow> bool \<Rightarrow> node_index \<Rightarrow> node_index" where
  "trades_compact height can_open ni =
     (let m = map (\<lambda>(t, v). (t, pop_while (\<lambda>x. td_height x > height) v)) (ni_trades ni)
      in ni\<lparr>ni_trades := m,
            ni_f_trades := (if can_open
              then Some (concat (map (\<lambda>(tok, v). concat (map (\<lambda>t. write_trade (tok, t)) v)) (sort_key fst m))) else None)\<rparr>)"

text \<open>The swaps of a transaction; \<open>trimmed\<close> holds the tokens whose vector was trimmed in this block.\<close>

fun trades_op :: "crypto \<Rightarrow> block \<Rightarrow> int \<Rightarrow> transaction \<Rightarrow> tx_op \<Rightarrow> hash256 list \<times> node_index \<Rightarrow> hash256 list \<times> node_index" where
  "trades_op cr b height tx (OpSwap token sell inp out) (trimmed, ni) =
     (let m = (if token \<in> set trimmed then ni_trades ni
               else at_entry token (pop_while (\<lambda>x. td_height x \<ge> height)) (ni_trades ni));
          t = \<lparr>td_height = height, td_time = h_time (header b), td_txid = txid cr tx, td_sell = sell, td_in = inp, td_out = out,
               td_trader = (if outs tx = [] then hash_zero else o_addr (outs tx ! 0))\<rparr>
      in (token # trimmed, ni\<lparr>ni_trades := at_entry token (\<lambda>v. v @ [t]) m,
            ni_f_trades := append_to (write_trade (token, t)) (ni_f_trades ni)\<rparr>))"
| "trades_op cr b height tx op s = s"

definition trades_connect :: "crypto \<Rightarrow> block \<Rightarrow> int \<Rightarrow> node_index \<Rightarrow> node_index" where
  "trades_connect cr b height ni =
     snd (fold (\<lambda>tx. fold (trades_op cr b height tx) (ops tx)) (txs b) ([], ni))"

definition trades_disconnect :: "int \<Rightarrow> node_index \<Rightarrow> node_index" where
  "trades_disconnect height ni =
     ni\<lparr>ni_trades := map (\<lambda>(t, v). (t, pop_while (\<lambda>x. td_height x \<ge> height) v)) (ni_trades ni)\<rparr>"

section \<open>Messages\<close>

definition write_msg :: "msg_point \<Rightarrow> bytes" where
  "write_msg m =
     (let w = w_height (mg_height m) @ w_u64le (mg_time m) @ w_hash (mg_txid m) @ w_hash (mg_from m) @ w_hash (mg_to m)
            @ w_u8 (mg_gift m) @ w_str (mg_text m)
      in w_u32le (of_nat (length w)) @ w)"

definition read_msg :: "msg_point reader" where
  "read_msg r =
     rbind (r_height r) (\<lambda>(h, r).
     rbind (r_u64le r) (\<lambda>(time, r).
     rbind (r_hash r) (\<lambda>(tid, r).
     rbind (r_hash r) (\<lambda>(frm, r).
     rbind (r_hash r) (\<lambda>(dst, r).
     rbind (r_u8 r) (\<lambda>(gift, r).
     rbind (r_str MAX_MESSAGE_TEXT r) (\<lambda>(txt, r).
     Inr (\<lparr>mg_height = h, mg_time = time, mg_txid = tid, mg_from = frm, mg_to = dst, mg_gift = gift, mg_text = txt\<rparr>, r))))))))"

definition msg_put :: "msg_point \<Rightarrow> msg_point list \<Rightarrow> msg_point list" where
  "msg_put m v =
     (if mg_gift m \<ge> GIFT_COUNT then v
      else
        (let v = pop_while (\<lambda>x. mg_height x > mg_height m) v;
             dup = list_ex (\<lambda>x. mg_txid x = mg_txid m) (takeWhile (\<lambda>x. mg_height x = mg_height m) (rev v))
         in if dup then v else v @ [m]))"

text \<open>The loop ends at the end of the file, at a length above 1024, and at a record that cannot be read.\<close>

function msgs_loop :: "bytes \<Rightarrow> msg_point list \<Rightarrow> msg_point list" where
  "msgs_loop b v =
     (if length b < 4 then v
      else
        (let n = unat (ucast (b ! 0) OR push_bit 8 (ucast (b ! 1)) OR push_bit 16 (ucast (b ! 2)) OR push_bit 24 (ucast (b ! 3)) :: u32) in
         if n > 1024 \<or> length b < 4 + n then v
         else
           (case read_msg (take n (drop 4 b)) of
              Inl e \<Rightarrow> v
            | Inr (m, r) \<Rightarrow> msgs_loop (drop (4 + n) b) (msg_put m v))))"
  by pat_completeness auto
termination
  by (relation "measure (\<lambda>(b, v). length b)") auto

declare msgs_loop.simps [simp del]

definition msgs_load :: "bytes option \<Rightarrow> node_index \<Rightarrow> node_index" where
  "msgs_load file ni = (case file of None \<Rightarrow> ni | Some b \<Rightarrow> ni\<lparr>ni_msgs := msgs_loop b (ni_msgs ni)\<rparr>)"

definition msgs_compact :: "int \<Rightarrow> bool \<Rightarrow> node_index \<Rightarrow> node_index" where
  "msgs_compact height can_open ni =
     (let v = pop_while (\<lambda>x. mg_height x > height) (ni_msgs ni)
      in ni\<lparr>ni_msgs := v, ni_f_msgs := (if can_open then Some (concat (map write_msg v)) else None)\<rparr>)"

fun msgs_op :: "crypto \<Rightarrow> block \<Rightarrow> int \<Rightarrow> transaction \<Rightarrow> tx_op \<Rightarrow> node_index \<Rightarrow> node_index" where
  "msgs_op cr b height tx (OpMessage frm dst gift txt) ni =
     (let m = \<lparr>mg_height = height, mg_time = h_time (header b), mg_txid = txid cr tx, mg_from = frm, mg_to = dst, mg_gift = gift,
               mg_text = txt\<rparr>
      in ni\<lparr>ni_msgs := ni_msgs ni @ [m], ni_f_msgs := append_to (write_msg m) (ni_f_msgs ni)\<rparr>)"
| "msgs_op cr b height tx op ni = ni"

definition msgs_connect :: "crypto \<Rightarrow> block \<Rightarrow> int \<Rightarrow> node_index \<Rightarrow> node_index" where
  "msgs_connect cr b height ni =
     fold (\<lambda>tx. fold (msgs_op cr b height tx) (ops tx)) (txs b) (ni\<lparr>ni_msgs := pop_while (\<lambda>x. mg_height x \<ge> height) (ni_msgs ni)\<rparr>)"

definition msgs_disconnect :: "int \<Rightarrow> node_index \<Rightarrow> node_index" where
  "msgs_disconnect height ni = ni\<lparr>ni_msgs := pop_while (\<lambda>x. mg_height x \<ge> height) (ni_msgs ni)\<rparr>"

end
