(* ===== verification/P2P_Sync.thy ===== *)
theory P2P_Sync
  imports P2P Block
begin

text \<open>
  Downloading and serving (\<open>src/src/net/p2p.cpp\<close>): the snapshot of a fresh node, the assignment of blocks to
  peers, and the proofs of unspent outputs that light wallets ask for.
\<close>

section \<open>Fast synchronisation\<close>

definition max_active_height :: "peer list \<Rightarrow> int" where
  "max_active_height ps = fold (\<lambda>p m. if active p then max m (pe_best_height p) else m) ps 0"

text \<open>The block whose snapshot is wanted. \<open>Inl\<close> is an early return. The height is rounded down to an interval; for a chain
  shorter than the delay, C++ rounds the other way, but both results are at most 0.\<close>

definition snapshot_target :: "p2p \<Rightarrow> bool + hash256" where
  "snapshot_target s =
     (let cs = pn_cs s in
      if cs_height cs > 0 then Inl False
      else
        (case cs_best_header cs of
           None \<Rightarrow> Inl (pn_snap_peer s \<noteq> 0)
         | Some best \<Rightarrow>
             if b_height cs best + 10 < max_active_height (pn_peers s) then Inl (pn_snap_peer s \<noteq> 0)
             else
               (let h = (b_height cs best - snapshot_delay (pn_p s)) div snapshot_interval (pn_p s) * snapshot_interval (pn_p s) in
                if h \<le> 0 then Inl False
                else
                  (case ancestor cs best h of
                     None \<Rightarrow> Inl False
                   | Some b \<Rightarrow> if committed_hash_for cs (Some b) = None then Inl False else Inr (bi_hash (deref cs b))))))"

definition end_snapshot :: "p2p \<Rightarrow> p2p" where
  "end_snapshot s = s\<lparr>pn_snap_peer := 0, pn_snap_buf := [], pn_snap_total := 0\<rparr>"

definition start_snapshot :: "crypto \<Rightarrow> int \<Rightarrow> hash256 \<Rightarrow> p2p \<Rightarrow> bool \<times> p2p" where
  "start_snapshot cr now target s =
     (case List.find (\<lambda>p. active p \<and> serves SERVICE_SNAPSHOT p \<and> pe_id p \<notin> set (pn_snap_bad s)) (pn_peers s) of
        None \<Rightarrow> (False, s)
      | Some p \<Rightarrow>
          (True, send_to cr (pe_id p) CGetSnapshot (w_hash target @ w_varint 0)
                   (s\<lparr>pn_snap_peer := pe_id p, pn_snap_block := target, pn_snap_since := now\<rparr>)))"

definition try_fast_sync :: "crypto \<Rightarrow> int \<Rightarrow> p2p \<Rightarrow> bool \<times> p2p" where
  "try_fast_sync cr now s =
     (case snapshot_target s of
        Inl b \<Rightarrow> (b, s)
      | Inr target \<Rightarrow>
          if pn_snap_peer s \<noteq> 0 then
            (if now - pn_snap_since s < 60000 then (True, s)
             else start_snapshot cr now target (end_snapshot (s\<lparr>pn_snap_bad := List.insert (pn_snap_peer s) (pn_snap_bad s)\<rparr>)))
          else start_snapshot cr now target s)"

section \<open>Block download\<close>

text \<open>\<open>load[id]\<close>: the requests in flight at a peer.\<close>

definition load_of :: "p2p \<Rightarrow> nat \<Rightarrow> int" where
  "load_of s i = int (length (filter (\<lambda>(h, j, t). j = i) (pn_inflight s)))"

definition may_ask :: "p2p \<Rightarrow> hash256 \<Rightarrow> int \<Rightarrow> peer \<Rightarrow> bool" where
  "may_ask s b h q \<longleftrightarrow> active q \<and> full q \<and> pe_best_height q \<ge> h
     \<and> load_of s (pe_id q) < MAX_INFLIGHT_PER_PEER \<and> (b, pe_id q) \<notin> set (pn_no_witness s)"

text \<open>The first of the peers with the least load.\<close>

definition pick_peer :: "p2p \<Rightarrow> hash256 \<Rightarrow> int \<Rightarrow> nat option" where
  "pick_peer s b h =
     fold (\<lambda>q pick. if \<not> may_ask s b h q then pick
                    else (case pick of
                            None \<Rightarrow> Some (pe_id q)
                          | Some i \<Rightarrow> if load_of s (pe_id q) < load_of s i then Some (pe_id q) else Some i))
       (pn_peers s) None"

text \<open>One height of the download window; a request joins the batch of its peer.\<close>

definition request_one :: "hash256 \<Rightarrow> int \<Rightarrow> int \<Rightarrow> p2p \<times> (nat \<times> hash256) list \<Rightarrow> p2p \<times> (nat \<times> hash256) list" where
  "request_one best now h = (\<lambda>(s, batch).
     case ancestor (pn_cs s) best h of
       None \<Rightarrow> (s, batch)
     | Some b \<Rightarrow>
         (let n = deref (pn_cs s) b in
          if bi_have_data n \<or> map_of (pn_inflight s) (bi_hash n) \<noteq> None then (s, batch)
          else
            (case pick_peer s (bi_hash n) h of
               None \<Rightarrow> (s, batch)
             | Some i \<Rightarrow> (s\<lparr>pn_inflight := AList.update (bi_hash n) (i, now) (pn_inflight s)\<rparr>, batch @ [(i, bi_hash n)]))))"

definition send_batch :: "crypto \<Rightarrow> (nat \<times> hash256) list \<Rightarrow> nat \<Rightarrow> p2p \<Rightarrow> p2p" where
  "send_batch cr batch i s =
     send_to cr i CGetData (w_counted (\<lambda>h. w_u8 INV_BLOCK @ w_hash h) (map snd (filter (\<lambda>(j, h). j = i) batch))) s"

definition download :: "crypto \<Rightarrow> int \<Rightarrow> hash256 \<Rightarrow> int \<Rightarrow> p2p \<Rightarrow> p2p" where
  "download cr now best from_height s =
     (case fold (request_one best now) [from_height + 1..min (b_height (pn_cs s) best) (from_height + DOWNLOAD_WINDOW)] (s, []) of
        (s, batch) \<Rightarrow> fold (send_batch cr batch) (sort (remdups (map fst batch))) s)"

definition request_blocks :: "crypto \<Rightarrow> int \<Rightarrow> p2p \<Rightarrow> p2p" where
  "request_blocks cr now s0 =
     (case (if po_fast_sync (pn_opt s0) then try_fast_sync cr now s0 else (False, s0)) of
        (True, s) \<Rightarrow> s
      | (False, s) \<Rightarrow>
          (let cs = pn_cs s in
           case cs_best_header cs of
             None \<Rightarrow> s
           | Some best \<Rightarrow>
               if u256_le (b_work cs best) (b_work cs (the_tip cs)) then s
               else (case fork_point cs best of None \<Rightarrow> s | Some f \<Rightarrow> download cr now best (b_height cs f) s)))"

section \<open>Proofs of unspent outputs\<close>

text \<open>The proof of one coin, when its block can be found and read. (The function caches the blocks it has read.)\<close>

definition coin_proof :: "crypto \<Rightarrow> chainstate \<Rightarrow> outpoint \<times> coin \<Rightarrow> utxo_proof option" where
  "coin_proof cr cs = (\<lambda>(op, c).
     case find_tx_block cs (op_txid op) of
       None \<Rightarrow> None
     | Some bh \<Rightarrow>
         (case cs_lookup cs bh of
            None \<Rightarrow> None
          | Some i \<Rightarrow>
              (case read_block cr cs i False of
                 None \<Rightarrow> None
               | Some (b, got) \<Rightarrow>
                   (let ids = map (txid cr) (txs b); idx = length (takeWhile (\<lambda>t. t \<noteq> op_txid op) ids) in
                    if idx \<ge> length ids then None
                    else Some \<lparr>up_op = op, up_coin = c, up_block = bh, up_tx_core = write_core (txs b ! idx),
                               up_tx_index = of_nat idx, up_tx_count = of_nat (length ids), up_merkle = merkle_proof cr ids idx\<rparr>))))"

definition add_proof :: "crypto \<Rightarrow> chainstate \<Rightarrow> mempool \<Rightarrow> outpoint \<times> coin \<Rightarrow> utxo_proof list \<times> outpoint list \<Rightarrow> utxo_proof list \<times> outpoint list" where
  "add_proof cr cs mp oc = (\<lambda>(proofs, spent).
     if length proofs \<ge> 1000 then (proofs, spent)
     else
       (case coin_proof cr cs oc of
          None \<Rightarrow> (proofs, spent)
        | Some u \<Rightarrow> (proofs @ [u], if mp_spends (fst oc) mp then spent @ [fst oc] else spent)))"

primrec gather_proofs :: "crypto \<Rightarrow> chainstate \<Rightarrow> mempool \<Rightarrow> hash256 list \<Rightarrow> utxo_proof list \<times> outpoint list
    \<Rightarrow> (utxo_proof list \<times> outpoint list) result" where
  "gather_proofs cr cs mp [] acc = Inr acc"
| "gather_proofs cr cs mp (a # as) acc =
     rbind (coins_for_address (cs_st cs) a) (\<lambda>coins. gather_proofs cr cs mp as (fold (add_proof cr cs mp) coins acc))"

definition mempool_outputs :: "mempool \<Rightarrow> (outpoint \<times> txout) list" where
  "mempool_outputs mp =
     concat (map (\<lambda>e. map (\<lambda>i. (OutPoint (me_txid e) (of_nat i), outs (me_tx e) ! i)) [0..<length (outs (me_tx e))]) (mp_order mp))"

definition unconfirmed :: "mempool \<Rightarrow> hash256 list \<Rightarrow> (outpoint \<times> txout) list" where
  "unconfirmed mp addrs = filter (\<lambda>(p, out). o_addr out \<in> set addrs \<and> \<not> mp_spends p mp) (mempool_outputs mp)"

definition w_outpoint :: "outpoint \<Rightarrow> bytes" where
  "w_outpoint p = w_hash (op_txid p) @ w_varint (ucast (op_n p))"

definition build_utxo_reply :: "crypto \<Rightarrow> chainstate \<Rightarrow> mempool \<Rightarrow> bytes \<Rightarrow> bytes result" where
  "build_utxo_reply cr cs mp req =
     rbind (r_counted 200 r_hash req) (\<lambda>(addrs, r).
     rbind (gather_proofs cr cs mp addrs ([], [])) (\<lambda>(proofs, spent).
     Inr (w_u64le (word_of_int (cs_height cs)) @ w_hash (bi_hash (deref cs (the_tip cs)))
       @ w_counted write_utxo_proof proofs @ w_counted w_outpoint spent
       @ w_counted (\<lambda>(p, out). w_outpoint p @ write_txout out) (unconfirmed mp addrs))))"

end
