(* ===== verification/Node.thy ===== *)
theory Node
  imports Node_Index P2P_Sync Wallet_File Wallet_Build
begin

text \<open>
  The full node that joins the parts (\<open>src/src/node/node.h\<close>, \<open>node.cpp\<close>): what it registers with the
  chain and the memory pool, and what it does with the wallet. The callbacks run in the order they were registered:
  the pool's first, then the wallet's, then those of the indexes. Starting and stopping threads, the RPC server and the log are
  left out; a notice to the miner and a transaction handed to the network are recorded. The files of the wallet are in the
  file system of the chain. What a save takes from the system is an argument (\<open>save_env\<close>).
\<close>

section \<open>State\<close>

record node =
  nd_cs :: chainstate
  nd_mp :: mempool
  nd_wallet :: "wallet option"
  nd_index :: node_index
  nd_cache :: seal_cache
  nd_saved_height :: int
  nd_saved_time :: int
  nd_mine_address :: string
  nd_tip_notices :: nat
  nd_relayed :: "hash256 list"

abbreviation nd_p :: "node \<Rightarrow> chain_params" where
  "nd_p nd \<equiv> cs_p (nd_cs nd)"

definition wallet_path :: "node \<Rightarrow> string" where
  "wallet_path nd = cs_dir (nd_cs nd) @ ''/wallet.qwl''"

text \<open>\<open>wallet_->save()\<close>.\<close>

definition node_save :: "crypto \<Rightarrow> save_env \<Rightarrow> node \<Rightarrow> node" where
  "node_save cr e nd =
     (case nd_wallet nd of
        None \<Rightarrow> nd
      | Some w \<Rightarrow>
          (case wallet_save cr e w (nd_cache nd, cs_fs (nd_cs nd)) of
             (ok, c, fs) \<Rightarrow> nd\<lparr>nd_cache := c, nd_cs := (nd_cs nd)\<lparr>cs_fs := fs\<rparr>\<rparr>))"

section \<open>The coins of the wallet\<close>

text \<open>The coins of the addresses, in order; an exception of \<open>coins_for_address\<close> leaves the function.\<close>

primrec ledger_coins :: "utxo_state \<Rightarrow> mempool \<Rightarrow> hash256 list \<Rightarrow> wallet_coin list result" where
  "ledger_coins st mp [] = Inr []"
| "ledger_coins st mp (a # as) =
     rbind (coins_for_address st a) (\<lambda>cs. rbind (ledger_coins st mp as) (\<lambda>rest.
       Inr (map (\<lambda>(p, c). \<lparr>wc_op = p, wc_out = c_out c, wc_height = sint (c_height c), wc_coinbase = c_coinbase c,
                           wc_locked = mp_spends p mp\<rparr>) cs @ rest)))"

definition pending_coins :: "mempool \<Rightarrow> hash256 list \<Rightarrow> wallet_coin list" where
  "pending_coins mp mine =
     map (\<lambda>(p, out). \<lparr>wc_op = p, wc_out = out, wc_height = -1, wc_coinbase = False, wc_locked = mp_spends p mp\<rparr>)
       (filter (\<lambda>(p, out). o_addr out \<in> set mine) (mempool_outputs mp))"

definition refresh_once :: "crypto \<Rightarrow> utxo_state \<Rightarrow> mempool \<Rightarrow> wallet \<Rightarrow> wallet result" where
  "refresh_once cr st mp w =
     rbind (ledger_coins st mp (watched_addresses w)) (\<lambda>cs.
       Inr (replace_coins cr (cs @ pending_coins mp (watched_addresses w)) w))"

primrec refresh_coins :: "crypto \<Rightarrow> nat \<Rightarrow> utxo_state \<Rightarrow> mempool \<Rightarrow> wallet \<Rightarrow> wallet result" where
  "refresh_coins cr 0 st mp w = Inr w"
| "refresh_coins cr (Suc n) st mp w =
     rbind (refresh_once cr st mp w) (\<lambda>w'.
       if length (watched_addresses w') = length (watched_addresses w) then Inr w' else refresh_coins cr n st mp w')"

definition wallet_refresh_coins :: "crypto \<Rightarrow> node \<Rightarrow> node result" where
  "wallet_refresh_coins cr nd =
     (case nd_wallet nd of
        None \<Rightarrow> Inr nd
      | Some w \<Rightarrow> rbind (refresh_coins cr 10 (cs_st (nd_cs nd)) (nd_mp nd) w) (\<lambda>w. Inr (nd\<lparr>nd_wallet := Some w\<rparr>)))"

definition catch_up_start :: "node \<Rightarrow> wallet \<Rightarrow> int" where
  "catch_up_start nd w =
     (case cs_lookup (nd_cs nd) (w_synced_tip w) of
        Some synced \<Rightarrow>
          if w_synced_height w \<ge> 0 \<and> in_active_chain (nd_cs nd) synced then w_synced_height w + 1 else w_birth_height w
      | None \<Rightarrow> w_birth_height w)"

definition scan_block :: "crypto \<Rightarrow> chainstate \<Rightarrow> int \<Rightarrow> wallet \<Rightarrow> wallet" where
  "scan_block cr cs h w =
     (case at_height cs h of
        None \<Rightarrow> w
      | Some b \<Rightarrow> (case read_block cr cs b False of None \<Rightarrow> w | Some (blk, got) \<Rightarrow> block_connected cr blk h w))"

definition wallet_catch_up :: "crypto \<Rightarrow> save_env \<Rightarrow> node \<Rightarrow> node result" where
  "wallet_catch_up cr e nd =
     (case nd_wallet nd of
        None \<Rightarrow> Inr nd
      | Some w \<Rightarrow>
          (let w = fold (scan_block cr (nd_cs nd)) [max (catch_up_start nd w) 0..cs_height (nd_cs nd)] w
           in rbind (wallet_refresh_coins cr (nd\<lparr>nd_wallet := Some w\<rparr>)) (\<lambda>nd. Inr (node_save cr e nd))))"

section \<open>Callbacks\<close>

definition node_on_connect :: "crypto \<Rightarrow> block \<Rightarrow> int \<Rightarrow> node \<Rightarrow> node" where
  "node_on_connect cr b height nd =
     nd\<lparr>nd_mp := mp_on_connect cr b (nd_mp nd),
        nd_wallet := map_option (block_connected cr b height) (nd_wallet nd),
        nd_index := msgs_connect cr b height (trades_connect cr b height (pool_hist_connect (nd_cs nd) b height (nd_index nd)))\<rparr>"

definition node_on_disconnect :: "crypto \<Rightarrow> block \<Rightarrow> int \<Rightarrow> node \<Rightarrow> node" where
  "node_on_disconnect cr b height nd =
     nd\<lparr>nd_mp := mp_on_disconnect cr (nd_cs nd) b (nd_mp nd),
        nd_wallet := map_option (block_disconnected cr b height) (nd_wallet nd),
        nd_index := msgs_disconnect height (trades_disconnect height (pool_hist_disconnect height (nd_index nd)))\<rparr>"

definition concerns :: "wallet \<Rightarrow> transaction \<Rightarrow> bool" where
  "concerns w tx \<longleftrightarrow> list_ex (\<lambda>out. is_mine w (o_addr out)) (outs tx)
     \<or> list_ex (\<lambda>c. list_ex (\<lambda>i. wc_op c = prev i) (ins tx)) (wallet_coins w)"

text \<open>\<open>Wallet::tx_broadcast\<close> ends with a save.\<close>

definition wallet_broadcast :: "crypto \<Rightarrow> save_env \<Rightarrow> transaction \<Rightarrow> string \<Rightarrow> node \<Rightarrow> node" where
  "wallet_broadcast cr e tx note nd =
     (case nd_wallet nd of
        None \<Rightarrow> nd
      | Some w \<Rightarrow> node_save cr e (nd\<lparr>nd_wallet := Some (tx_broadcast cr (cs_now (nd_cs nd)) tx note w)\<rparr>))"

definition node_on_added :: "crypto \<Rightarrow> save_env \<Rightarrow> transaction \<Rightarrow> node \<Rightarrow> node" where
  "node_on_added cr e tx nd =
     (case nd_wallet nd of
        None \<Rightarrow> nd
      | Some w \<Rightarrow> if concerns w tx then wallet_broadcast cr e tx [] nd else nd)"

text \<open>The pool has grown from \<open>mp\<close>: its callbacks run for every transaction that was added. They hand the transaction to
  the network and to the wallet, and change nothing the pool reads.\<close>

definition pool_moved :: "crypto \<Rightarrow> save_env \<Rightarrow> mempool \<Rightarrow> node \<Rightarrow> node" where
  "pool_moved cr e mp nd =
     (let added = drop (length (mp_added (nd_mp nd))) (mp_added mp)
      in fold (\<lambda>tx nd. node_on_added cr e tx (nd\<lparr>nd_relayed := nd_relayed nd @ [txid cr tx]\<rparr>)) added (nd\<lparr>nd_mp := mp\<rparr>))"

definition node_on_tip :: "crypto \<Rightarrow> save_env \<Rightarrow> node \<Rightarrow> node result" where
  "node_on_tip cr e nd =
     (let nd = pool_moved cr e (mp_on_tip cr (nd_cs nd) (nd_mp nd)) nd;
          nd = nd\<lparr>nd_tip_notices := nd_tip_notices nd + 1\<rparr>
      in case nd_wallet nd of
           None \<Rightarrow> Inr nd
         | Some w \<Rightarrow>
             rbind (wallet_refresh_coins cr nd) (\<lambda>nd.
               let now = cs_now (nd_cs nd) in
               Inr (if now - nd_saved_time nd \<ge> 60
                    then (node_save cr e nd)\<lparr>nd_saved_height := cs_height (nd_cs nd), nd_saved_time := now\<rparr>
                    else nd)))"

section \<open>Operations\<close>

text \<open>The files of the indexes are read before the chain is loaded, and written anew after it.\<close>

definition load_indexes :: "filesys \<Rightarrow> string \<Rightarrow> node_index \<Rightarrow> node_index" where
  "load_indexes fs dir ni =
     msgs_load (read_file fs (dir @ ''/messages.dat''))
       (trades_load (read_file fs (dir @ ''/trades.dat'')) (pool_hist_load (read_file fs (dir @ ''/poolhist.dat'')) ni))"

definition compact_indexes :: "int \<Rightarrow> bool \<Rightarrow> node_index \<Rightarrow> node_index" where
  "compact_indexes height can_open ni = msgs_compact height can_open (trades_compact height can_open (pool_hist_compact height can_open ni))"

text \<open>\<open>stop\<close> after the threads have ended: the chain is flushed, the wallet saved, the files closed.\<close>

definition node_stop :: "crypto \<Rightarrow> save_env \<Rightarrow> node \<Rightarrow> node" where
  "node_stop cr e nd =
     (let nd = node_save cr e (nd\<lparr>nd_cs := flush cr (nd_cs nd)\<rparr>)
      in nd\<lparr>nd_index := (nd_index nd)\<lparr>ni_f_pool := None, ni_f_trades := None, ni_f_msgs := None\<rparr>\<rparr>)"

definition has_wallet_file :: "node \<Rightarrow> bool" where
  "has_wallet_file nd \<longleftrightarrow> wallet_exists (cs_fs (nd_cs nd)) (wallet_path nd)"

definition open_wallet :: "crypto \<Rightarrow> save_env \<Rightarrow> string \<Rightarrow> node \<Rightarrow> node result" where
  "open_wallet cr e password nd =
     rbind (wallet_open cr (wallet_path nd) (nd_p nd) password (cs_fs (nd_cs nd))) (\<lambda>w.
       wallet_catch_up cr e (nd\<lparr>nd_wallet := Some w\<rparr>))"

definition create_wallet ::
  "crypto \<Rightarrow> string list \<Rightarrow> save_env \<Rightarrow> string \<Rightarrow> string \<Rightarrow> string \<Rightarrow> bool \<Rightarrow> node \<Rightarrow> node result" where
  "create_wallet cr table e mnemonic passphrase password restored nd =
     (if has_wallet_file nd then Inl (''a wallet already exists in '' @ cs_dir (nd_cs nd))
      else
        (case wallet_create cr table e (wallet_path nd) (nd_p nd) mnemonic passphrase password
                (if restored then 0 else cs_height (nd_cs nd)) (nd_cache nd, cs_fs (nd_cs nd)) of
           (Inl err, c, fs) \<Rightarrow> Inl err
         | (Inr w, c, fs) \<Rightarrow>
             rbind (wallet_catch_up cr e (nd\<lparr>nd_wallet := Some w, nd_cache := c, nd_cs := (nd_cs nd)\<lparr>cs_fs := fs\<rparr>\<rparr>)) (\<lambda>nd.
               Inr (node_save cr e nd))))"

definition node_broadcast :: "crypto \<Rightarrow> save_env \<Rightarrow> transaction \<Rightarrow> string \<Rightarrow> node \<Rightarrow> node \<times> string result" where
  "node_broadcast cr e tx note nd =
     (case mp_accept cr (nd_cs nd) tx (nd_mp nd) of
        (mp, Inl err) \<Rightarrow> (pool_moved cr e mp nd, Inl (''transaction rejected: '' @ err))
      | (mp, Inr _) \<Rightarrow>
          (let nd = wallet_broadcast cr e tx note (pool_moved cr e mp nd)
           in (nd\<lparr>nd_relayed := nd_relayed nd @ [txid cr tx]\<rparr>, Inr (hash_hex (txid cr tx)))))"

definition node_send :: "crypto \<Rightarrow> save_env \<Rightarrow> dest list \<Rightarrow> amount \<Rightarrow> bool \<Rightarrow> string \<Rightarrow> node \<Rightarrow> node \<times> string result" where
  "node_send cr e dests fee_per_kb subtract_fee note nd =
     (case nd_wallet nd of
        None \<Rightarrow> (nd, Inl ''no wallet loaded'')
      | Some w \<Rightarrow>
          (case create_tx cr dests fee_per_kb (cs_height (nd_cs nd)) subtract_fee w of
             (w, Inl err) \<Rightarrow> (nd\<lparr>nd_wallet := Some w\<rparr>, Inl err)
           | (w, Inr (tx, fee)) \<Rightarrow> node_broadcast cr e tx note (nd\<lparr>nd_wallet := Some w\<rparr>)))"

text \<open>The payout address that \<open>start_mining\<close> gives the miner.\<close>

definition mining_payout :: "string \<Rightarrow> node \<Rightarrow> node \<times> hash256 result" where
  "mining_payout address nd =
     (if address \<noteq> [] then
        (case decode_address (nd_p nd) address of
           None \<Rightarrow> (nd, Inl ''invalid mining address'')
         | Some (v, payout) \<Rightarrow> (nd, Inr payout))
      else
        (case nd_wallet nd of
           Some w \<Rightarrow>
             (let payout = (case issued_keys w of [] \<Rightarrow> hash_zero | k # ks \<Rightarrow> wk_addr k)
              in (nd\<lparr>nd_mine_address := address_string w payout\<rparr>, Inr payout))
         | None \<Rightarrow> (nd, Inl ''create or open a wallet first, or pass a mining address'')))"

end
