(* ===== verification/Node_Index_Laws.thy ===== *)
theory Node_Index_Laws
  imports Node_Index Protocol
begin

text \<open>
  An index that was only extended is what its file gives back; the file does not follow a reorganisation. The
  contract of a log of records per token is a locale, with the pool history and the trades as its instances.
\<close>

section \<open>Logs of records\<close>

lemma entries_at_entry: "entries (at_entry k f m) j = (if j = k then f (entries m k) else entries m j)"
  by (simp add: entries_def at_entry_def update_conv')

lemma records_concat: "0 < k \<Longrightarrow> (\<And>x. x \<in> set xs \<Longrightarrow> length (wr x) = k) \<Longrightarrow> records k (concat (map wr xs)) = map wr xs"
  by (induction xs) (simp_all add: records.simps)

definition of_token :: "'k \<Rightarrow> ('k \<times> 'a) list \<Rightarrow> 'a list" where
  "of_token k rs = map snd (filter (\<lambda>r. fst r = k) rs)"

lemma of_token_simps [simp]: "of_token k [] = []" "of_token k (xs @ ys) = of_token k xs @ of_token k ys"
  "of_token k (r # rs) = (if fst r = k then snd r # of_token k rs else of_token k rs)"
  by (simp_all add: of_token_def)

text \<open>Every record fits behind those of its token before it.\<close>

primrec log_ok :: "('a list \<Rightarrow> 'a \<Rightarrow> bool) \<Rightarrow> ('k \<times> 'a) list \<Rightarrow> ('k \<times> 'a) list \<Rightarrow> bool" where
  "log_ok fits old [] = True"
| "log_ok fits old (r # rs) = (fits (of_token (fst r) old) (snd r) \<and> log_ok fits (old @ [r]) rs)"

lemma log_ok_append: "log_ok fits old (xs @ ys) \<longleftrightarrow> log_ok fits old xs \<and> log_ok fits (old @ xs) ys"
  by (induction xs arbitrary: old) simp_all

definition load_step :: "('k \<times> 'a) reader \<Rightarrow> ('a \<Rightarrow> 'a list \<Rightarrow> 'a list) \<Rightarrow> bytes \<Rightarrow> ('k \<times> 'a list) list \<Rightarrow> ('k \<times> 'a list) list" where
  "load_step rd put b m = (case rd b of Inl e \<Rightarrow> m | Inr ((t, x), r) \<Rightarrow> at_entry t (put x) m)"

locale record_log = reads_back wr rd ok
  for wr :: "'k \<times> 'a \<Rightarrow> bytes" and rd :: "('k \<times> 'a) reader" and ok :: "'k \<times> 'a \<Rightarrow> bool" +
  fixes k :: nat
    and put :: "'a \<Rightarrow> 'a list \<Rightarrow> 'a list"
    and fits :: "'a list \<Rightarrow> 'a \<Rightarrow> bool"
  assumes size_pos: "0 < k"
    and size: "length (wr x) = k"
    and put_fits: "fits v y \<Longrightarrow> put y v = v @ [y]"
begin

lemma load_records:
  assumes "list_all ok rs" "log_ok fits old rs" "\<And>t. entries m t = of_token t old"
  shows "entries (fold (load_step rd put) (records k (concat (map wr rs))) m) t = of_token t (old @ rs)"
proof -
  have "entries (fold (load_step rd put) (map wr rs) m) t = of_token t (old @ rs)"
    using assms
  proof (induction rs arbitrary: m old)
    case (Cons r rs)
    have "load_step rd put (wr r) m = at_entry (fst r) (put (snd r)) m"
      using Cons.prems(1) rd_all [of r] by (cases r) (simp add: load_step_def)
    moreover have "entries (at_entry (fst r) (put (snd r)) m) j = of_token j (old @ [r])" for j
      using Cons.prems(2,3) put_fits by (simp add: entries_at_entry)
    ultimately show ?case using Cons.IH [of "old @ [r]"] Cons.prems(1,2) by simp
  qed simp
  then show ?thesis by (simp add: records_concat size_pos size)
qed

end

lemma pop_while_none: "(\<And>x. x \<in> set v \<Longrightarrow> \<not> P x) \<Longrightarrow> pop_while P v = v"
  by (cases "rev v") (auto simp: pop_while_def dropWhile_eq_self_iff intro: rev_swap [THEN iffD1] dest: arg_cong [where f = set])

lemma pop_while_all: "(\<And>x. x \<in> set v \<Longrightarrow> P x) \<Longrightarrow> pop_while P v = []"
  by (simp add: pop_while_def dropWhile_eq_Nil_conv)

definition height_ok :: "int \<Rightarrow> bool" where
  "height_ok h \<longleftrightarrow> - (2 ^ 63) \<le> h \<and> h < 2 ^ 63"

interpretation heightr: reads_back w_height r_height height_ok
  by unfold_locales
    (simp add: w_height_def r_height_def height_ok_def codec_simps sint_sbintrunc' signed_take_bit_int_eq_self)

definition pool_fits :: "pool_point list \<Rightarrow> pool_point \<Rightarrow> bool" where
  "pool_fits v x \<longleftrightarrow> (\<forall>y\<in>set v. pp_height y < pp_height x)"

interpretation pool_log: record_log write_pool_point read_pool_point "\<lambda>(t, x). height_ok (pp_height x)"
  POOLHIST_REC pool_hist_put pool_fits
proof
  show "read_pool_point (write_pool_point x @ r) = Inr (x, r)" if "case x of (t, x) \<Rightarrow> height_ok (pp_height x)" for x r
    using that by (cases x) (simp add: write_pool_point_def read_pool_point_def codec_simps heightr.rd_wr)
  show "0 < POOLHIST_REC" by (simp add: POOLHIST_REC_def)
  show "length (write_pool_point x) = POOLHIST_REC" for x
    by (cases x) (simp add: write_pool_point_def w_height_def w_hash_def w_u64le_def POOLHIST_REC_def)
  show "pool_hist_put y v = v @ [y]" if "pool_fits v y" for v y
    using that pop_while_none [of v "\<lambda>x. pp_height y \<le> pp_height x"] by (fastforce simp: pool_hist_put_def pool_fits_def)
qed

definition trade_fits :: "trade_point list \<Rightarrow> trade_point \<Rightarrow> bool" where
  "trade_fits v x \<longleftrightarrow> (\<forall>y\<in>set v. td_height y < td_height x
     \<or> td_height y = td_height x \<and> (td_txid y, td_in y, td_out y) \<noteq> (td_txid x, td_in x, td_out x))"

interpretation trade_log: record_log write_trade read_trade "\<lambda>(t, x). height_ok (td_height x)"
  TRADE_REC trade_put trade_fits
proof
  show "read_trade (write_trade x @ r) = Inr (x, r)" if "case x of (t, x) \<Rightarrow> height_ok (td_height x)" for x r
    using that by (cases x) (auto simp: write_trade_def read_trade_def codec_simps heightr.rd_wr)
  show "0 < TRADE_REC" by (simp add: TRADE_REC_def)
  show "length (write_trade x) = TRADE_REC" for x
    by (cases x) (simp add: write_trade_def w_height_def w_hash_def w_u64le_def w_u8_def TRADE_REC_def)
  show "trade_put y v = v @ [y]" if "trade_fits v y" for v y
  proof -
    have "pop_while (\<lambda>x. td_height x > td_height y) v = v" using that by (intro pop_while_none) (auto simp: trade_fits_def)
    moreover have "\<not> list_ex (\<lambda>x. td_txid x = td_txid y \<and> td_in x = td_in y \<and> td_out x = td_out y)
        (takeWhile (\<lambda>x. td_height x = td_height y) (rev v))"
      using that by (fastforce simp: list_ex_iff trade_fits_def dest: set_takeWhileD)
    ultimately show ?thesis by (simp add: trade_put_def Let_def)
  qed
qed

section \<open>Trades of connected blocks\<close>

text \<open>The records of a block in their order, and the blocks of a chain segment with their heights.\<close>

fun swap_record :: "crypto \<Rightarrow> block \<Rightarrow> int \<Rightarrow> transaction \<Rightarrow> tx_op \<Rightarrow> (hash256 \<times> trade_point) list" where
  "swap_record cr b height tx (OpSwap token sell inp out) =
     [(token, \<lparr>td_height = height, td_time = h_time (header b), td_txid = txid cr tx, td_sell = sell, td_in = inp, td_out = out,
               td_trader = (if outs tx = [] then hash_zero else o_addr (outs tx ! 0))\<rparr>)]"
| "swap_record cr b height tx op = []"

definition tx_trades :: "crypto \<Rightarrow> block \<Rightarrow> int \<Rightarrow> transaction \<Rightarrow> (hash256 \<times> trade_point) list" where
  "tx_trades cr b height tx = concat (map (swap_record cr b height tx) (ops tx))"

definition block_trades :: "crypto \<Rightarrow> block \<times> int \<Rightarrow> (hash256 \<times> trade_point) list" where
  "block_trades cr = (\<lambda>(b, height). concat (map (tx_trades cr b height) (txs b)))"

text \<open>Memory and file hold the same records.\<close>

definition logged :: "(hash256 \<times> trade_point) list \<Rightarrow> node_index \<Rightarrow> bool" where
  "logged rs ni \<longleftrightarrow> (\<forall>t. entries (ni_trades ni) t = of_token t rs) \<and> ni_f_trades ni = Some (concat (map write_trade rs))"

definition below :: "int \<Rightarrow> (hash256 \<times> trade_point) list \<Rightarrow> bool" where
  "below height rs \<longleftrightarrow> (\<forall>r\<in>set rs. td_height (snd r) < height)"

text \<open>Trimming a token for the first time in a block changes nothing, because the records before it are below.\<close>

lemma trades_op_logged:
  assumes "logged (rs @ new) ni" "below height rs" "\<And>t. t \<notin> set trimmed \<Longrightarrow> of_token t new = []"
    and "trades_op cr b height tx op (trimmed, ni) = (trimmed', ni')"
  shows "logged (rs @ new @ swap_record cr b height tx op) ni'"
    "\<And>t. t \<notin> set trimmed' \<Longrightarrow> of_token t (new @ swap_record cr b height tx op) = []"
proof -
  have *: "logged (rs @ new @ swap_record cr b height tx op) ni' \<and> (\<forall>t. t \<notin> set trimmed' \<longrightarrow> of_token t (new @ swap_record cr b height tx op) = [])"
  proof (cases op)
    case (OpSwap token sell inp out)
    have "pop_while (\<lambda>x. td_height x \<ge> height) (of_token token rs) = of_token token rs"
      using assms(2) by (intro pop_while_none) (auto simp: below_def of_token_def)
    moreover have "of_token token new = []" if "token \<notin> set trimmed" using assms(3) that .
    ultimately have t: "entries (if token \<in> set trimmed then ni_trades ni else at_entry token (pop_while (\<lambda>x. td_height x \<ge> height)) (ni_trades ni)) t
        = of_token t (rs @ new)" for t
      using assms(1) by (simp add: logged_def entries_at_entry)
    have "logged (rs @ new @ swap_record cr b height tx op) ni'" "trimmed' = token # trimmed"
      using assms(1,4) t OpSwap by (auto simp: logged_def entries_at_entry append_to_def Let_def)
    then show ?thesis using assms(3) OpSwap by simp
  qed (use assms(1,3,4) in simp_all)
  then show "logged (rs @ new @ swap_record cr b height tx op) ni'"
    "\<And>t. t \<notin> set trimmed' \<Longrightarrow> of_token t (new @ swap_record cr b height tx op) = []" by blast+
qed

lemma trades_ops_logged:
  assumes "logged (rs @ new) ni" "below height rs" "\<And>t. t \<notin> set trimmed \<Longrightarrow> of_token t new = []"
    and "fold (trades_op cr b height tx) os (trimmed, ni) = (trimmed', ni')"
  shows "logged (rs @ new @ concat (map (swap_record cr b height tx) os)) ni'
    \<and> (\<forall>t. t \<notin> set trimmed' \<longrightarrow> of_token t (new @ concat (map (swap_record cr b height tx) os)) = [])"
  using assms
proof (induction os arbitrary: new trimmed ni)
  case (Cons op os)
  obtain trimmed1 ni1 where s: "trades_op cr b height tx op (trimmed, ni) = (trimmed1, ni1)" by force
  have f: "fold (trades_op cr b height tx) os (trimmed1, ni1) = (trimmed', ni')" using Cons.prems(4) s by simp
  note l = trades_op_logged [OF Cons.prems(1-3) s]
  have "logged (rs @ (new @ swap_record cr b height tx op) @ concat (map (swap_record cr b height tx) os)) ni'
    \<and> (\<forall>t. t \<notin> set trimmed' \<longrightarrow> of_token t ((new @ swap_record cr b height tx op) @ concat (map (swap_record cr b height tx) os)) = [])"
    by (rule Cons.IH [OF _ Cons.prems(2) l(2) f]) (use l(1) in simp)
  then show ?case by simp
qed simp

lemma trades_connect_logged:
  assumes "logged rs ni" "below height rs"
  shows "logged (rs @ block_trades cr (b, height)) (trades_connect cr b height ni)"
proof -
  have "logged (rs @ new @ concat (map (tx_trades cr b height) ts)) (snd (fold (\<lambda>tx. fold (trades_op cr b height tx) (ops tx)) ts (trimmed, ni)))"
    if "logged (rs @ new) ni" "\<And>t. t \<notin> set trimmed \<Longrightarrow> of_token t new = []" for new trimmed ts ni
    using that
  proof (induction ts arbitrary: new trimmed ni)
    case (Cons tx ts)
    obtain trimmed1 ni1 where s: "fold (trades_op cr b height tx) (ops tx) (trimmed, ni) = (trimmed1, ni1)" by force
    have l: "logged (rs @ new @ tx_trades cr b height tx) ni1" "t \<notin> set trimmed1 \<Longrightarrow> of_token t (new @ tx_trades cr b height tx) = []" for t
      using trades_ops_logged [OF Cons.prems(1) assms(2) Cons.prems(2) s] by (simp_all add: tx_trades_def)
    have "logged (rs @ (new @ tx_trades cr b height tx) @ concat (map (tx_trades cr b height) ts))
        (snd (fold (\<lambda>tx. fold (trades_op cr b height tx) (ops tx)) ts (trimmed1, ni1)))"
      by (rule Cons.IH) (use l in simp_all)
    then show ?case using s by simp
  qed simp
  from this [of "[]" ni "[]" "txs b"] assms(1) show ?thesis by (simp add: trades_connect_def block_trades_def)
qed

text \<open>A chain segment of rising heights in which no swap repeats another of its transaction.\<close>

definition rising :: "crypto \<Rightarrow> (block \<times> int) list \<Rightarrow> bool" where
  "rising cr bs \<longleftrightarrow> sorted_wrt (\<lambda>x y. snd x < snd y) bs \<and> (\<forall>x\<in>set bs. height_ok (snd x))
     \<and> (\<forall>x\<in>set bs. distinct (map (\<lambda>(tok, t). (tok, td_txid t, td_in t, td_out t)) (block_trades cr x)))"

lemma swap_record_height: "r \<in> set (block_trades cr (b, height)) \<Longrightarrow> td_height (snd r) = height"
proof -
  have "td_height (snd r) = height" if "r \<in> set (swap_record cr b height tx op)" for tx op
    using that by (cases op) auto
  then show "r \<in> set (block_trades cr (b, height)) \<Longrightarrow> td_height (snd r) = height"
    by (auto simp: block_trades_def tx_trades_def)
qed

lemma log_ok_block:
  assumes "below height old" "\<And>r. r \<in> set rs \<Longrightarrow> td_height (snd r) = height"
    and "distinct (map (\<lambda>(tok, t). (tok, td_txid t, td_in t, td_out t)) (new @ rs))" "\<And>r. r \<in> set new \<Longrightarrow> td_height (snd r) = height"
  shows "log_ok trade_fits (old @ new) rs"
  using assms(2-)
proof (induction rs arbitrary: new)
  case (Cons r rs)
  have "trade_fits (of_token (fst r) (old @ new)) (snd r)"
    using assms(1) Cons.prems by (cases r) (force simp: trade_fits_def of_token_def below_def image_iff)
  moreover have "log_ok trade_fits (old @ (new @ [r])) rs" by (rule Cons.IH) (use Cons.prems in auto)
  ultimately show ?case by simp
qed simp

lemma trades_connected:
  assumes "rising cr bs" "logged rs ni" "log_ok trade_fits [] rs" "list_all (\<lambda>(t, x). height_ok (td_height x)) rs"
    and "\<And>x. x \<in> set bs \<Longrightarrow> below (snd x) rs"
  shows "logged (rs @ concat (map (block_trades cr) bs)) (fold (\<lambda>(b, h). trades_connect cr b h) bs ni)
    \<and> log_ok trade_fits [] (rs @ concat (map (block_trades cr) bs))
    \<and> list_all (\<lambda>(t, x). height_ok (td_height x)) (rs @ concat (map (block_trades cr) bs))"
  using assms
proof (induction bs arbitrary: rs ni)
  case (Cons x bs)
  obtain b h where x: "x = (b, h)" by force
  let ?new = "block_trades cr (b, h)"
  have bl: "below h rs" using Cons.prems(5) [of x] x by simp
  have "logged (rs @ ?new) (trades_connect cr b h ni)" by (rule trades_connect_logged [OF Cons.prems(2) bl])
  moreover have "log_ok trade_fits rs ?new"
    using log_ok_block [OF bl, of ?new "[]"] swap_record_height Cons.prems(1) x by (auto simp: rising_def)
  then have "log_ok trade_fits [] (rs @ ?new)" using Cons.prems(3) by (simp add: log_ok_append)
  moreover have "list_all (\<lambda>(t, x). height_ok (td_height x)) (rs @ ?new)"
    using Cons.prems(1,4) x swap_record_height [of _ cr b h] by (fastforce simp: rising_def list_all_iff)
  moreover have "below (snd y) (rs @ ?new)" if "y \<in> set bs" for y
    using that Cons.prems(1) Cons.prems(5) [of y] x swap_record_height [of _ cr b h] by (auto simp: rising_def below_def)
  ultimately show ?case using Cons.IH [of "rs @ ?new" "trades_connect cr b h ni"] Cons.prems(1) x by (auto simp: rising_def)
qed simp

definition fresh_index :: node_index where
  "fresh_index = \<lparr>ni_pool_hist = [], ni_trades = [], ni_msgs = [], ni_f_pool = Some [], ni_f_trades = Some [], ni_f_msgs = Some []\<rparr>"

lemma trades_reload:
  assumes "rising cr bs" "ni = fold (\<lambda>(b, h). trades_connect cr b h) bs fresh_index"
  shows "entries (ni_trades ni) t = of_token t (concat (map (block_trades cr) bs))"
    "entries (ni_trades (trades_load (ni_f_trades ni) fresh_index)) t = entries (ni_trades ni) t"
proof -
  let ?rs = "concat (map (block_trades cr) bs)"
  have f: "logged [] fresh_index" by (simp add: logged_def fresh_index_def entries_def)
  note c = trades_connected [OF assms(1) f, folded assms(2)]
  have l: "logged ?rs ni" "log_ok trade_fits [] ?rs" "list_all (\<lambda>(t, x). height_ok (td_height x)) ?rs"
    using c by (simp_all add: below_def)
  show m: "entries (ni_trades ni) t = of_token t ?rs" using l(1) by (simp add: logged_def)
  have ld: "load_trade = load_step read_trade trade_put" by (simp add: load_trade_def load_step_def fun_eq_iff)
  have "entries (fold (load_step read_trade trade_put) (records TRADE_REC (concat (map write_trade ?rs))) []) t = of_token t ([] @ ?rs)"
    by (rule trade_log.load_records [OF l(3,2)]) (simp add: entries_def)
  then show "entries (ni_trades (trades_load (ni_f_trades ni) fresh_index)) t = entries (ni_trades ni) t"
    using l(1) m by (simp add: trades_load_def logged_def ld fresh_index_def)
qed

lemma entries_map: "entries (map (\<lambda>(t, v). (t, f v)) m) t = (case map_of m t of None \<Rightarrow> [] | Some v \<Rightarrow> f v)"
  by (induction m) (auto simp: entries_def)

text \<open>Writing the file anew at a height keeps what lies at or below it.\<close>

lemma trades_compact_keeps:
  assumes "\<And>x. x \<in> set (entries (ni_trades ni) t) \<Longrightarrow> td_height x \<le> height"
  shows "entries (ni_trades (trades_compact height can_open ni)) t = entries (ni_trades ni) t"
proof -
  have "pop_while (\<lambda>x. td_height x > height) v = v" if "map_of (ni_trades ni) t = Some v" for v
    using assms that by (intro pop_while_none) (simp add: entries_def not_less)
  moreover have "entries (ni_trades ni) t = (case map_of (ni_trades ni) t of None \<Rightarrow> [] | Some v \<Rightarrow> v)" by (simp add: entries_def)
  ultimately show ?thesis by (simp add: trades_compact_def Let_def entries_map split: option.split)
qed

lemma trades_reload_compact:
  assumes "rising cr bs" "ni = fold (\<lambda>(b, h). trades_connect cr b h) bs fresh_index" "\<forall>x\<in>set bs. snd x \<le> height"
  shows "entries (ni_trades (trades_compact height can_open (trades_load (ni_f_trades ni) fresh_index))) t = entries (ni_trades ni) t"
proof -
  note r = trades_reload [OF assms(1,2), of t]
  have "td_height x \<le> height" if "x \<in> set (entries (ni_trades ni) t)" for x
    using that assms(3) swap_record_height by (fastforce simp: r(1) of_token_def)
  then show ?thesis using trades_compact_keeps [of "trades_load (ni_f_trades ni) fresh_index" t height can_open] r(2) by simp
qed

lemma trades_connect_none:
  assumes "block_trades cr (b, h) = []"
  shows "trades_connect cr b h ni = ni"
proof -
  have op: "swap_record cr b h tx op = [] \<Longrightarrow> trades_op cr b h tx op s = s" for tx op s
    by (cases op; cases s) auto
  have ops: "concat (map (swap_record cr b h tx) os) = [] \<Longrightarrow> fold (trades_op cr b h tx) os s = s" for tx os s
    by (induction os arbitrary: s) (auto simp: op)
  have "concat (map (tx_trades cr b h) ts) = [] \<Longrightarrow> fold (\<lambda>tx. fold (trades_op cr b h tx) (ops tx)) ts s = s" for ts s
    by (induction ts arbitrary: s) (auto simp: ops tx_trades_def)
  then show ?thesis using assms by (simp add: trades_connect_def block_trades_def)
qed

text \<open>A block that is disconnected leaves memory, but not the file: the next start brings its trades back, also when
  another block without swaps has taken its place.\<close>

lemma disconnected_trades_return:
  assumes "rising cr [(b, h)]" "block_trades cr (b', h) = []" "h \<le> height"
    and "ni = trades_connect cr b' h (trades_disconnect h (trades_connect cr b h fresh_index))"
  shows "entries (ni_trades ni) t = []"
    "entries (ni_trades (trades_compact height can_open (trades_load (ni_f_trades ni) fresh_index))) t = of_token t (block_trades cr (b, h))"
proof -
  define ni1 where "ni1 = trades_connect cr b h fresh_index"
  have r: "entries (ni_trades ni1) t = of_token t (block_trades cr (b, h))" for t
    using trades_reload(1) [OF assms(1) refl, of t] by (simp add: ni1_def)
  have c: "entries (ni_trades (trades_compact height can_open (trades_load (ni_f_trades ni1) fresh_index))) t = entries (ni_trades ni1) t"
    using trades_reload_compact [OF assms(1) refl, of height] assms(3) by (simp add: ni1_def)
  have ni: "ni = trades_disconnect h ni1" by (simp add: assms(4) trades_connect_none [OF assms(2)] ni1_def)
  then have "ni_f_trades ni = ni_f_trades ni1" by (simp add: trades_disconnect_def)
  with c r show "entries (ni_trades (trades_compact height can_open (trades_load (ni_f_trades ni) fresh_index))) t = of_token t (block_trades cr (b, h))"
    by simp
  have "pop_while (\<lambda>x. td_height x \<ge> h) v = []" if "map_of (ni_trades ni1) t = Some v" for v
  proof (rule pop_while_all)
    have "v = of_token t (block_trades cr (b, h))" using r [of t] that by (simp add: entries_def)
    then show "td_height x \<ge> h" if "x \<in> set v" for x
      using that swap_record_height by (fastforce simp: of_token_def)
  qed
  then show "entries (ni_trades ni) t = []" by (simp add: ni trades_disconnect_def entries_map split: option.split)
qed

section \<open>Messages of connected blocks\<close>

definition msg_ok :: "msg_point \<Rightarrow> bool" where
  "msg_ok m \<longleftrightarrow> height_ok (mg_height m) \<and> mg_gift m < GIFT_COUNT \<and> length (mg_text m) \<le> 280"

definition msg_fits :: "msg_point list \<Rightarrow> msg_point \<Rightarrow> bool" where
  "msg_fits v m \<longleftrightarrow> (\<forall>y\<in>set v. mg_height y < mg_height m \<or> mg_height y = mg_height m \<and> mg_txid y \<noteq> mg_txid m)"

lemma msg_put_fits:
  assumes "msg_ok m" "msg_fits v m"
  shows "msg_put m v = v @ [m]"
proof -
  have "pop_while (\<lambda>x. mg_height x > mg_height m) v = v" using assms(2) by (intro pop_while_none) (auto simp: msg_fits_def)
  moreover have "\<not> list_ex (\<lambda>x. mg_txid x = mg_txid m) (takeWhile (\<lambda>x. mg_height x = mg_height m) (rev v))"
    using assms(2) by (fastforce simp: list_ex_iff msg_fits_def dest: set_takeWhileD)
  ultimately show ?thesis using assms(1) by (simp add: msg_put_def msg_ok_def Let_def not_le)
qed

definition msg_body :: "msg_point \<Rightarrow> bytes" where
  "msg_body m = w_height (mg_height m) @ w_u64le (mg_time m) @ w_hash (mg_txid m) @ w_hash (mg_from m) @ w_hash (mg_to m)
            @ w_u8 (mg_gift m) @ w_str (mg_text m)"

lemma write_msg_body: "write_msg m = w_u32le (of_nat (length (msg_body m))) @ msg_body m"
  by (simp add: write_msg_def msg_body_def)

lemma msg_body_length: "msg_ok m \<Longrightarrow> length (msg_body m) \<le> 1024"
  using w_varint_length10 [of "of_nat (length (mg_text m))"]
  by (simp add: msg_body_def msg_ok_def w_height_def w_u64le_def w_hash_def w_u8_def w_str_def)

lemma read_msg_body: "msg_ok m \<Longrightarrow> read_msg (msg_body m) = Inr (m, [])"
  using strc.rd_all [of "mg_text m" MAX_MESSAGE_TEXT]
  by (simp add: read_msg_def msg_body_def msg_ok_def heightr.rd_wr codec_simps MAX_MESSAGE_TEXT_def)

lemma msgs_loop_step:
  assumes "msg_ok m"
  shows "msgs_loop (write_msg m @ r) v = msgs_loop r (msg_put m v)"
proof -
  let ?n = "length (msg_body m)"
  have n: "?n \<le> 1024" by (rule msg_body_length [OF assms])
  have u: "unat (of_nat ?n :: u32) = ?n" using n by (simp add: unat_of_nat)
  have b: "w_u32le (of_nat ?n) = map (\<lambda>i. ucast (drop_bit (8 * i) (of_nat ?n :: u32))) [0..<4]" by (simp add: w_u32le_def)
  let ?b = "w_u32le (of_nat ?n) @ msg_body m @ r"
  have "(ucast (?b ! 0) OR push_bit 8 (ucast (?b ! 1)) OR push_bit 16 (ucast (?b ! 2)) OR push_bit 24 (ucast (?b ! 3)) :: u32) = of_nat ?n"
    using le_bytes_32 [of "of_nat ?n"] by (simp add: b nth_append)
  moreover have "length (w_u32le (of_nat ?n)) = 4" by (simp add: w_u32le_def)
  ultimately show ?thesis
    unfolding write_msg_body append_assoc using n u read_msg_body [OF assms]
    by (subst msgs_loop.simps) (simp add: Let_def)
qed

primrec msg_log_ok :: "msg_point list \<Rightarrow> msg_point list \<Rightarrow> bool" where
  "msg_log_ok old [] = True"
| "msg_log_ok old (m # ms) = (msg_fits old m \<and> msg_log_ok (old @ [m]) ms)"

lemma msgs_loop_log: "list_all msg_ok ms \<Longrightarrow> msg_log_ok old ms \<Longrightarrow> msgs_loop (concat (map write_msg ms)) old = old @ ms"
proof (induction ms arbitrary: old)
  case Nil
  show ?case by (simp add: msgs_loop.simps)
next
  case (Cons m ms)
  then show ?case by (simp add: msgs_loop_step msg_put_fits)
qed

end
