(* ===== verification/Node_Laws.thy ===== *)
theory Node_Laws
  imports Node Node_Index_Laws Wallet_Reopen
begin

text \<open>
  What the node promises of the wallet's coins: whenever a refresh ends because no new address was handed out,
  the wallet holds exactly the coins of the ledger and of the memory pool that pay its addresses.
\<close>

section \<open>The address index answers\<close>

lemma coins_at_ok:
  "\<forall>p\<in>set ps. us_coin st p \<noteq> None \<Longrightarrow> coins_at st ps = Inr (map (\<lambda>p. (p, the (us_coin st p))) ps)"
  by (induction ps) (auto simp: us_coin_def split: option.split)

lemma coins_for_address_ok:
  assumes "us_inv st"
  obtains cs where "coins_for_address st a = Inr cs"
    "set cs = {(p, c). us_coin st p = Some c \<and> o_addr (c_out c) = a}"
proof -
  have ix: "(\<exists>ps. map_of (us_by_addr st) b = Some ps \<and> p \<in> set ps) \<longleftrightarrow> (\<exists>c. us_coin st p = Some c \<and> o_addr (c_out c) = b)" for b p
    using assms by (simp add: us_inv_def addr_index_ok_def us_coin_def)
  show ?thesis
  proof (cases "map_of (us_by_addr st) a")
    case None
    with ix [of a] have "us_coin st p = Some c \<Longrightarrow> o_addr (c_out c) \<noteq> a" for p c by auto
    then show ?thesis by (intro that [of "[]"]) (auto simp: coins_for_address_def None)
  next
    case (Some ps)
    with ix [of a] have m: "p \<in> set ps \<longleftrightarrow> (\<exists>c. us_coin st p = Some c \<and> o_addr (c_out c) = a)" for p by auto
    then have "\<forall>p\<in>set ps. us_coin st p \<noteq> None" by auto
    from coins_at_ok [OF this] show ?thesis
      by (intro that [of "map (\<lambda>p. (p, the (us_coin st p))) ps"]) (auto simp: coins_for_address_def Some m)
  qed
qed

definition held_coin :: "mempool \<Rightarrow> outpoint \<Rightarrow> coin \<Rightarrow> wallet_coin" where
  "held_coin mp p c = \<lparr>wc_op = p, wc_out = c_out c, wc_height = sint (c_height c), wc_coinbase = c_coinbase c, wc_locked = mp_spends p mp\<rparr>"

definition pending_coin :: "mempool \<Rightarrow> outpoint \<Rightarrow> txout \<Rightarrow> wallet_coin" where
  "pending_coin mp p out = \<lparr>wc_op = p, wc_out = out, wc_height = -1, wc_coinbase = False, wc_locked = mp_spends p mp\<rparr>"

lemma ledger_coins_ok:
  assumes "us_inv st"
  obtains cs where "ledger_coins st mp as = Inr cs"
    "set cs = {held_coin mp p k | p k. us_coin st p = Some k \<and> o_addr (c_out k) \<in> set as}"
proof (induction as arbitrary: thesis)
  case Nil
  show ?case by (rule Nil [of "[]"]) auto
next
  case (Cons a as)
  obtain cs where cs: "ledger_coins st mp as = Inr cs"
    "set cs = {held_coin mp p k | p k. us_coin st p = Some k \<and> o_addr (c_out k) \<in> set as}" by (rule Cons.IH)
  obtain ds where ds: "coins_for_address st a = Inr ds"
    "set ds = {(p, c). us_coin st p = Some c \<and> o_addr (c_out c) = a}" by (rule coins_for_address_ok [OF assms, of a])
  show ?case
  proof (rule Cons.prems)
    show "ledger_coins st mp (a # as) = Inr (map (\<lambda>(p, c). held_coin mp p c) ds @ cs)"
      by (simp add: ds(1) cs(1) held_coin_def)
    have "(\<lambda>(p, c). held_coin mp p c) ` set ds = {held_coin mp p k | p k. us_coin st p = Some k \<and> o_addr (c_out k) = a}"
      by (auto simp: ds(2) image_def)
    then show "set (map (\<lambda>(p, c). held_coin mp p c) ds @ cs) =
        {held_coin mp p k | p k. us_coin st p = Some k \<and> o_addr (c_out k) \<in> set (a # as)}"
      by (auto simp: cs(2))
  qed
qed

section \<open>A refresh\<close>

definition pool_apart :: "utxo_state \<Rightarrow> mempool \<Rightarrow> bool" where
  "pool_apart st mp \<longleftrightarrow> inj_on fst (set (mempool_outputs mp)) \<and> (\<forall>(p, out)\<in>set (mempool_outputs mp). us_coin st p = None)"

lemma outputs_fit_size: "length (outs t) \<le> length (write_full t)"
proof -
  have "length os \<le> length (concat (map write_txout os))" for os
    by (induction os) (simp_all add: write_txout_def w_u8_def)
  from this [of "outs t"] show ?thesis by (simp add: write_full_def write_core_def w_counted_def)
qed

text \<open>The ids of the entries are distinct, and no transaction has so many outputs that their numbers repeat.\<close>

lemma pool_outputs_distinct:
  assumes "mp_ok cr mp"
  shows "inj_on fst (set (mempool_outputs mp))"
proof -
  have few: "length (outs (me_tx e)) < 2 ^ 32" if "e \<in> set (mp_order mp)" for e
    using assms that outputs_fit_size [of "me_tx e"] by (fastforce simp: mp_ok_def list_all_iff entry_ok_def)
  have "out = out'" if "(p, out) \<in> set (mempool_outputs mp)" "(p, out') \<in> set (mempool_outputs mp)" for p out out'
  proof -
    from that(1) obtain e i where e: "e \<in> set (mp_order mp)" "i < length (outs (me_tx e))" "p = OutPoint (me_txid e) (of_nat i)"
      "out = outs (me_tx e) ! i" by (auto simp: mempool_outputs_def)
    from that(2) obtain e' i' where e': "e' \<in> set (mp_order mp)" "i' < length (outs (me_tx e'))" "p = OutPoint (me_txid e') (of_nat i')"
      "out' = outs (me_tx e') ! i'" by (auto simp: mempool_outputs_def)
    have "distinct (map me_txid (mp_order mp))" using assms by (simp add: mp_ok_def mp_txids_def)
    then have ee: "e = e'" using e e' by (auto simp: distinct_map inj_on_def)
    have "(of_nat i :: u32) = of_nat i'" using e(3) e'(3) by simp
    moreover have "unat (of_nat i :: u32) = i" "unat (of_nat i' :: u32) = i'"
      using few [OF e(1)] e(2) e'(2) ee by (simp_all add: unat_of_nat)
    ultimately have "i = i'" by metis
    then show ?thesis using e(4) e'(4) ee by simp
  qed
  then show ?thesis by (fastforce simp: inj_on_def)
qed

lemma pool_apart_fresh:
  assumes "mp_ok cr mp" "\<And>e k. e \<in> set (mp_order mp) \<Longrightarrow> us_coin st (OutPoint (me_txid e) k) = None"
  shows "pool_apart st mp"
  using assms(2) pool_outputs_distinct [OF assms(1)] by (auto simp: pool_apart_def mempool_outputs_def)

definition holds_coins :: "hash256 list \<Rightarrow> utxo_state \<Rightarrow> mempool \<Rightarrow> wallet \<Rightarrow> bool" where
  "holds_coins as st mp w \<longleftrightarrow> (\<forall>p c. map_of (w_coins w) p = Some c \<longleftrightarrow>
     (\<exists>k. us_coin st p = Some k \<and> o_addr (c_out k) \<in> set as \<and> c = held_coin mp p k)
     \<or> (\<exists>out. (p, out) \<in> set (mempool_outputs mp) \<and> o_addr out \<in> set as \<and> c = pending_coin mp p out))"

lemma refresh_once_ok:
  assumes "us_inv st" "pool_apart st mp"
  obtains w' where "refresh_once cr st mp w = Inr w'" "prefix (watched_addresses w) (watched_addresses w')"
    "holds_coins (watched_addresses w) st mp w'"
proof -
  let ?as = "watched_addresses w"
  obtain cs where cs: "ledger_coins st mp ?as = Inr cs"
    "set cs = {held_coin mp p k | p k. us_coin st p = Some k \<and> o_addr (c_out k) \<in> set ?as}"
    by (rule ledger_coins_ok [OF assms(1)])
  have ps: "set (pending_coins mp ?as) = {pending_coin mp p out | p out. (p, out) \<in> set (mempool_outputs mp) \<and> o_addr out \<in> set ?as}"
    by (auto simp: pending_coins_def pending_coin_def image_def)
  have inj: "inj_on wc_op (set (cs @ pending_coins mp ?as))"
    using assms(2) by (fastforce simp: inj_on_def cs(2) ps held_coin_def pending_coin_def pool_apart_def)
  define w' where "w' = replace_coins cr (cs @ pending_coins mp ?as) w"
  have "map_of (w_coins w') p = Some c \<longleftrightarrow> c \<in> set cs \<union> set (pending_coins mp ?as) \<and> wc_op c = p" for p c
    using replace_coins_all [OF inj] by (simp add: w'_def)
  then have "holds_coins ?as st mp w'"
    by (auto simp: holds_coins_def cs(2) ps held_coin_def pending_coin_def)
  moreover have "refresh_once cr st mp w = Inr w'" by (simp add: refresh_once_def cs(1) w'_def)
  moreover have "prefix (watched_addresses w) (watched_addresses w')" by (simp add: w'_def replace_coins_watched)
  ultimately show ?thesis by (intro that)
qed

text \<open>The wallets after each round: rounds go on as long as they find keys to derive, and there are at most \<open>n\<close>.\<close>

definition refresh_trace :: "crypto \<Rightarrow> nat \<Rightarrow> utxo_state \<Rightarrow> mempool \<Rightarrow> wallet list \<Rightarrow> bool" where
  "refresh_trace cr n st mp ws \<longleftrightarrow> 2 \<le> length ws \<and> length ws \<le> Suc n
     \<and> (\<forall>i. Suc i < length ws \<longrightarrow> refresh_once cr st mp (ws ! i) = Inr (ws ! Suc i)
          \<and> prefix (watched_addresses (ws ! i)) (watched_addresses (ws ! Suc i)))
     \<and> (\<forall>i. Suc (Suc i) < length ws \<longrightarrow> watched_addresses (ws ! i) \<noteq> watched_addresses (ws ! Suc i))
     \<and> (length ws = Suc n \<or> watched_addresses (ws ! (length ws - 2)) = watched_addresses (last ws))"

lemma refresh_trace_ok:
  assumes "us_inv st" "pool_apart st mp" "0 < n"
  shows "\<exists>ws. hd ws = w \<and> refresh_trace cr n st mp ws \<and> refresh_coins cr n st mp w = Inr (last ws)"
  using assms(3)
proof (induction n arbitrary: w)
  case (Suc n)
  obtain w1 where w1: "refresh_once cr st mp w = Inr w1" "prefix (watched_addresses w) (watched_addresses w1)"
    by (rule refresh_once_ok [OF assms(1,2), of cr w])
  have same: "length (watched_addresses w1) = length (watched_addresses w) \<longleftrightarrow> watched_addresses w = watched_addresses w1"
    using w1(2) by (metis append_Nil2 append_eq_append_conv prefixE)
  show ?case
  proof (cases "watched_addresses w = watched_addresses w1 \<or> n = 0")
    case True
    then have "refresh_coins cr (Suc n) st mp w = Inr w1" using w1(1) same by auto
    moreover have "refresh_trace cr (Suc n) st mp [w, w1]"
      using w1 True by (auto simp: refresh_trace_def less_Suc_eq)
    ultimately show ?thesis by (intro exI [of _ "[w, w1]"]) simp
  next
    case False
    then obtain ws where ws: "hd ws = w1" "refresh_trace cr n st mp ws" "refresh_coins cr n st mp w1 = Inr (last ws)"
      using Suc.IH [of w1] by auto
    then have ne: "ws \<noteq> []" by (auto simp: refresh_trace_def)
    then have "ws ! 0 = w1" using ws(1) by (simp add: hd_conv_nth)
    note ne = ne this
    have "refresh_coins cr (Suc n) st mp w = Inr (last ws)" using w1(1) same False ws(3) by simp
    moreover have "refresh_trace cr (Suc n) st mp (w # ws)"
    proof -
      have l: "2 \<le> length ws" using ws(2) by (simp add: refresh_trace_def)
      then have e: "(w # ws) ! (length (w # ws) - 2) = ws ! (length ws - 2)" by (simp add: nth_Cons' Suc_diff_Suc numeral_2_eq_2)
      have "refresh_once cr st mp ((w # ws) ! i) = Inr ((w # ws) ! Suc i) \<and> prefix (watched_addresses ((w # ws) ! i)) (watched_addresses ((w # ws) ! Suc i))"
        if "Suc i < length (w # ws)" for i
        using that ws(2) ne(2) w1 by (cases i) (simp_all add: refresh_trace_def)
      moreover have "watched_addresses ((w # ws) ! i) \<noteq> watched_addresses ((w # ws) ! Suc i)" if "Suc (Suc i) < length (w # ws)" for i
        using that ws(2) ne(2) False by (cases i) (simp_all add: refresh_trace_def)
      moreover have "length (w # ws) = Suc (Suc n) \<or> watched_addresses ((w # ws) ! (length (w # ws) - 2)) = watched_addresses (last (w # ws))"
        unfolding e using ws(2) ne(1) by (auto simp: refresh_trace_def)
      ultimately show ?thesis using l ws(2) unfolding refresh_trace_def by (simp only: length_Cons) auto
    qed
    ultimately show ?thesis using ne by (intro exI [of _ "w # ws"]) simp
  qed
qed simp

lemma refresh_coins_ok:
  assumes "us_inv st" "pool_apart st mp" "0 < n"
  obtains ws where "hd ws = w" "refresh_trace cr n st mp ws" "refresh_coins cr n st mp w = Inr (last ws)"
    "holds_coins (watched_addresses (ws ! (length ws - 2))) st mp (last ws)"
    "prefix (watched_addresses w) (watched_addresses (ws ! (length ws - 2)))"
proof -
  obtain ws where ws: "hd ws = w" "refresh_trace cr n st mp ws" "refresh_coins cr n st mp w = Inr (last ws)"
    using refresh_trace_ok [OF assms] by blast
  define i where "i = length ws - 2"
  have l: "2 \<le> length ws" using ws(2) by (simp add: refresh_trace_def)
  then have "ws \<noteq> []" "length ws - 1 = Suc i" by (auto simp: i_def)
  then have i: "Suc i < length ws" "last ws = ws ! Suc i" using l by (simp_all add: i_def last_conv_nth)
  then have "refresh_once cr st mp (ws ! i) = Inr (last ws)" using ws(2) by (simp add: refresh_trace_def)
  moreover obtain w' where "refresh_once cr st mp (ws ! i) = Inr w'" "holds_coins (watched_addresses (ws ! i)) st mp w'"
    by (rule refresh_once_ok [OF assms(1,2)])
  moreover have "prefix (watched_addresses (ws ! 0)) (watched_addresses (ws ! j))" if "j < length ws" for j
    using that
  proof (induction j)
    case (Suc j)
    then show ?case using ws(2) unfolding refresh_trace_def by (metis Suc_lessD prefix_order.trans)
  qed simp
  then have "prefix (watched_addresses w) (watched_addresses (ws ! i))" using i(1) ws(1) \<open>ws \<noteq> []\<close> by (simp add: hd_conv_nth)
  ultimately show thesis using that ws by (simp add: i_def)
qed

end
