(* ===== verification/P2P_Handle.thy ===== *)
theory P2P_Handle
  imports P2P_Sync
begin

text \<open>
  What the node does with each message (\<open>P2P::handle\<close> in \<open>src/src/net/p2p.cpp\<close>). The result is the state and how
  the handler ended: \<open>Inl\<close> is an exception, which keeps what was done before it. \<open>None\<close> would be a chain operation
  that never returns.
\<close>

section \<open>Reading in a loop with effects\<close>

primrec each :: "'a reader \<Rightarrow> ('a \<Rightarrow> 's \<Rightarrow> 's) \<Rightarrow> nat \<Rightarrow> bytes \<Rightarrow> 's \<Rightarrow> 's \<times> unit result" where
  "each rd f 0 r s = (s, Inr ())"
| "each rd f (Suc n) r s = (case rd r of Inl e \<Rightarrow> (s, Inl e) | Inr (x, r) \<Rightarrow> each rd f n r (f x s))"

definition each_counted :: "u64 \<Rightarrow> 'a reader \<Rightarrow> ('a \<Rightarrow> 's \<Rightarrow> 's) \<Rightarrow> bytes \<Rightarrow> 's \<Rightarrow> 's \<times> unit result" where
  "each_counted mx rd f r s = (case r_varint_max mx r of Inl e \<Rightarrow> (s, Inl e) | Inr (n, r) \<Rightarrow> each rd f (unat n) r s)"

definition read_inv :: "(u8 \<times> hash256) reader" where
  "read_inv r = rbind (r_u8 r) (\<lambda>(t, r). rbind (r_hash r) (\<lambda>(h, r). Inr ((t, h), r)))"

definition write_inv :: "u8 \<times> hash256 \<Rightarrow> bytes" where
  "write_inv = (\<lambda>(t, h). w_u8 t @ w_hash h)"

section \<open>Handshake and addresses\<close>

definition on_connected :: "crypto \<Rightarrow> nat \<Rightarrow> p2p \<Rightarrow> p2p" where
  "on_connected cr i s =
     (let s = upd_peer i (\<lambda>p. p\<lparr>pe_connecting := False, pe_last_recv_ms := pn_ms s\<rparr>) s;
          v = blank_version\<lparr>vm_services := SERVICE_FULL OR SERVICE_LIGHT_SERVE
                              OR (if best_snapshot_file (pn_cs s) = None then 0 else SERVICE_SNAPSHOT),
                vm_nonce := pn_nonce s, vm_height := cs_height (pn_cs s),
                vm_listen_port := (if po_listen (pn_opt s) then po_port (pn_opt s) else 0), vm_agent := po_agent (pn_opt s),
                vm_genesis := genesis_hash (pn_p s), vm_your_addr := pe_addr (peer_of s i)\<rparr>
      in upd_peer i (\<lambda>p. p\<lparr>pe_sent_version := True\<rparr>) (send_to cr i CVersion (version_encode v) s))"

definition on_version :: "crypto \<Rightarrow> nat \<Rightarrow> bytes \<Rightarrow> p2p \<Rightarrow> p2p \<times> unit result" where
  "on_version cr i payload s =
     (let p = peer_of s i in
      if pe_got_version p then (misbehave i False s, Inr ())
      else
        (case version_decode payload of
           Inl e \<Rightarrow> (s, Inl e)
         | Inr (v, _) \<Rightarrow>
             (let s = upd_peer i (\<lambda>p. p\<lparr>pe_ver := v\<rparr>) s in
              if vm_genesis v \<noteq> genesis_hash (pn_p s) then (misbehave i False s, Inr ())
              else if vm_nonce v = pn_nonce s then
                (let s = (if pe_inbound p then s else s\<lparr>pn_self := List.insert (pe_addr p) (pn_self s)\<rparr>)
                 in (upd_peer i drop_peer (s\<lparr>pn_addrs := AList.delete (pe_addr p) (pn_addrs s)\<rparr>), Inr ()))
              else if list_ex (\<lambda>q. pe_id q \<noteq> i \<and> pe_got_version q \<and> vm_nonce (pe_ver q) = vm_nonce v) (pn_peers s)
              then (upd_peer i drop_peer s, Inr ())
              else
                (let s = upd_peer i (\<lambda>p. p\<lparr>pe_got_version := True, pe_best_height := vm_height v\<rparr>) s;
                     s = (if pe_inbound p
                          then on_connected cr i
                                 (if vm_listen_port v \<noteq> 0 then add_addr (with_port (pe_addr p) (vm_listen_port v)) False s else s)
                          else s);
                     s = learned_external (with_port (vm_your_addr v) (po_port (pn_opt s))) s
                 in (send_to cr i CVerack [] s, Inr ())))))"

definition write_known_addr :: "net_addr \<times> int \<Rightarrow> bytes" where
  "write_known_addr = (\<lambda>(a, t). write_addr a @ w_u64le (word_of_int t))"

definition on_verack :: "crypto \<Rightarrow> p2p_env \<Rightarrow> nat \<Rightarrow> p2p \<Rightarrow> p2p" where
  "on_verack cr e i s =
     (let s = upd_peer i (\<lambda>p. p\<lparr>pe_got_verack := True\<rparr>) s; p = peer_of s i;
          s = (if pe_inbound p then s else upd_info (pe_addr p) (\<lambda>x. x\<lparr>ai_last_ok := pn_now s, ai_attempts := 0\<rparr>) s);
          s = (if full p then send_getheaders cr i True (if pe_inbound p then s else send_to cr i CGetAddr [] s) else s);
          reach4 = (ev_mapped e \<or> list_ex (\<lambda>q. pe_inbound q \<and> is_v4 (pe_addr q) \<and> routable (pe_addr q)) (pn_peers s));
          mine = (if reach4 \<and> routable (pn_ext4 s) then [pn_ext4 s] else [])
               @ (if po_listen (pn_opt s) \<and> routable (pn_ext6 s) then [pn_ext6 s] else [])
      in if mine = [] then s else send_to cr i CAddr (w_counted write_known_addr (map (\<lambda>a. (a, pn_now s)) mine)) s)"

definition on_pong :: "nat \<Rightarrow> bytes \<Rightarrow> p2p \<Rightarrow> p2p \<times> unit result" where
  "on_pong i payload s =
     (case r_u64le payload of
        Inl e \<Rightarrow> (s, Inl e)
      | Inr (n, _) \<Rightarrow>
          (upd_peer i (\<lambda>p. if n = pe_ping_nonce p \<and> pe_ping_sent_ms p \<noteq> 0
                           then p\<lparr>pe_ping_ms := pn_ms s - pe_ping_sent_ms p\<rparr> else p) s, Inr ()))"

definition on_getaddr :: "crypto \<Rightarrow> p2p_env \<Rightarrow> nat \<Rightarrow> p2p \<Rightarrow> p2p" where
  "on_getaddr cr e i s =
     (let near = is_local (pe_addr (peer_of s i));
          v = map fst (filter (\<lambda>(a, x). ai_last_ok x \<noteq> 0 \<and> (routable a \<or> near)) (in_order (pn_addrs s)));
          v = take 500 (ev_shuffle e v)
      in send_to cr i CAddr (w_counted write_known_addr (map (\<lambda>a. (a, ai_last_ok (info_of s a))) v)) s)"

definition on_addr :: "nat \<Rightarrow> bytes \<Rightarrow> p2p \<Rightarrow> p2p \<times> unit result" where
  "on_addr i payload s =
     each_counted 1000 (\<lambda>r. rbind (read_addr r) (\<lambda>(a, r). rbind (r_u64le r) (\<lambda>(t, r). Inr (a, r))))
       (\<lambda>a s. if routable a \<or> (is_local a \<and> is_local (pe_addr (peer_of s i))) then add_addr a False s else s) payload s"

section \<open>Inventory\<close>

definition on_inv :: "crypto \<Rightarrow> nat \<Rightarrow> bytes \<Rightarrow> p2p \<Rightarrow> p2p \<times> unit result" where
  "on_inv cr i payload s =
     (case each_counted 50000 read_inv
             (\<lambda>(t, h) (s, items, blocks).
                let s = upd_peer i (mark_known h) s in
                if t = INV_TX then
                  (s, if \<not> mp_contains h (pn_mp s) \<and> find_tx_block (pn_cs s) h = None then items @ [(INV_TX, h)] else items, blocks)
                else (s, items, blocks \<or> t = INV_BLOCK)) payload (s, [], False) of
        ((s, items, blocks), Inl e) \<Rightarrow> (s, Inl e)
      | ((s, items, blocks), Inr _) \<Rightarrow>
          (let s = (if items = [] then s else send_to cr i CGetData (w_counted write_inv items) s)
           in (if blocks then send_getheaders cr i True s else s, Inr ())))"

text \<open>One item of \<open>getdata\<close>; what cannot be served is collected. Other types are skipped.\<close>

definition serve_item :: "crypto \<Rightarrow> nat \<Rightarrow> u8 \<times> hash256 \<Rightarrow> p2p \<times> (u8 \<times> hash256) list \<Rightarrow> p2p \<times> (u8 \<times> hash256) list" where
  "serve_item cr i = (\<lambda>(t, h) (s, missing).
     if t = INV_TX then
       (case mp_get h (pn_mp s) of
          Some tx \<Rightarrow> (send_to cr i CTx (write_full tx) s, missing)
        | None \<Rightarrow> (s, missing @ [(t, h)]))
     else if t = INV_BLOCK then
       (case Option.bind (cs_lookup (pn_cs s) h) (\<lambda>b. read_block cr (pn_cs s) b True) of
          Some (b, got) \<Rightarrow>
            (send_to cr i CBlock (w_u8 (if got then 1 else 0) @ (if got then block_full_bytes b else block_core_bytes b)) s, missing)
        | None \<Rightarrow> (s, missing @ [(t, h)]))
     else (s, missing))"

definition on_getdata :: "crypto \<Rightarrow> nat \<Rightarrow> bytes \<Rightarrow> p2p \<Rightarrow> p2p \<times> unit result" where
  "on_getdata cr i payload s =
     (case each_counted 50000 read_inv (serve_item cr i) payload (s, []) of
        ((s, missing), Inl e) \<Rightarrow> (s, Inl e)
      | ((s, missing), Inr _) \<Rightarrow> (if missing = [] then s else send_to cr i CNotFound (w_counted write_inv missing) s, Inr ()))"

definition on_notfound :: "nat \<Rightarrow> bytes \<Rightarrow> p2p \<Rightarrow> p2p \<times> unit result" where
  "on_notfound i payload s =
     each_counted 50000 read_inv
       (\<lambda>(t, h) s. case map_of (pn_inflight s) h of
           Some (j, since) \<Rightarrow>
             if j = i then s\<lparr>pn_inflight := AList.delete h (pn_inflight s), pn_no_witness := List.insert (h, i) (pn_no_witness s)\<rparr>
             else s
         | None \<Rightarrow> s) payload s"

section \<open>Headers\<close>

text \<open>At most \<open>n\<close> headers from a height on, up to and including the block \<open>stop\<close>.\<close>

primrec headers_from :: "chainstate \<Rightarrow> hash256 \<Rightarrow> nat \<Rightarrow> int \<Rightarrow> block_header list" where
  "headers_from cs stop 0 h = []"
| "headers_from cs stop (Suc n) h =
     (case at_height cs h of
        None \<Rightarrow> []
      | Some b \<Rightarrow> bi_header (deref cs b) # (if bi_hash (deref cs b) = stop then [] else headers_from cs stop n (h + 1)))"

definition on_getheaders :: "crypto \<Rightarrow> nat \<Rightarrow> bytes \<Rightarrow> p2p \<Rightarrow> p2p \<times> unit result" where
  "on_getheaders cr i payload s =
     (case rbind (r_counted 200 r_hash payload) (\<lambda>(loc, r). rbind (r_hash r) (\<lambda>(stop, r). Inr (loc, stop))) of
        Inl e \<Rightarrow> (s, Inl e)
      | Inr (loc, stop) \<Rightarrow>
          (let cs = pn_cs s;
               start = (case find_fork_from_locator cs loc of Some f \<Rightarrow> b_height cs f + 1 | None \<Rightarrow> 0)
           in (send_to cr i CHeaders (w_counted write_header (headers_from cs stop MAX_HEADERS_PER_MSG start)) s, Inr ())))"

datatype headers_end = All_taken | Found_orphan | Found_invalid

text \<open>The headers in turn; \<open>latest\<close> is the last one accepted. Accepting a header runs no callback.\<close>

primrec take_headers :: "crypto \<Rightarrow> nat \<Rightarrow> block_header list \<Rightarrow> hash256 option \<Rightarrow> p2p \<Rightarrow> headers_end \<times> hash256 option \<times> p2p" where
  "take_headers cr i [] latest s = (All_taken, latest, s)"
| "take_headers cr i (h # hs) latest s =
     (case accept_header cr h (pn_cs s) of
        (cs, HOrphan, why, out) \<Rightarrow> (Found_orphan, latest, s\<lparr>pn_cs := cs\<rparr>)
      | (cs, HInvalid, why, out) \<Rightarrow>
          if why = ''time-too-new'' then (All_taken, latest, s\<lparr>pn_cs := cs\<rparr>)
          else (Found_invalid, latest, misbehave i True (s\<lparr>pn_cs := cs\<rparr>))
      | (cs, res, why, out) \<Rightarrow>
          take_headers cr i hs out
            (case out of None \<Rightarrow> s\<lparr>pn_cs := cs\<rparr> | Some b \<Rightarrow> upd_peer i (mark_known (bi_hash (deref cs b))) (s\<lparr>pn_cs := cs\<rparr>)))"

definition on_headers :: "crypto \<Rightarrow> nat \<Rightarrow> bytes \<Rightarrow> p2p \<Rightarrow> p2p \<times> unit result" where
  "on_headers cr i payload s =
     (case r_counted (of_nat MAX_HEADERS_PER_MSG) read_header payload of
        Inl e \<Rightarrow> (s, Inl e)
      | Inr (hs, _) \<Rightarrow>
          (case take_headers cr i hs None s of
             (Found_invalid, latest, s) \<Rightarrow> (s, Inr ())
           | (res, latest, s) \<Rightarrow>
               (let s = (case latest of
                           None \<Rightarrow> s
                         | Some b \<Rightarrow> upd_peer i (\<lambda>p. p\<lparr>pe_best_height := max (pe_best_height p) (b_height (pn_cs s) b)\<rparr>) s);
                    s = (if res = Found_orphan \<or> length hs = MAX_HEADERS_PER_MSG then send_getheaders cr i True s else s)
                in (request_blocks cr (pn_ms s) s, Inr ()))))"

section \<open>Blocks and transactions\<close>

definition read_block_msg :: "(bool \<times> block) reader" where
  "read_block_msg r =
     rbind (r_u8 r) (\<lambda>(w, r).
     rbind (read_block_core r) (\<lambda>(b, r).
     if w \<noteq> 0 then rbind (read_block_witness b r) (\<lambda>(b, r). Inr ((True, b), r)) else Inr ((False, b), r)))"

definition on_block :: "crypto \<Rightarrow> nat \<Rightarrow> bytes \<Rightarrow> p2p \<Rightarrow> (p2p \<times> unit result) option" where
  "on_block cr i payload s =
     (case read_block_msg payload of
        Inl e \<Rightarrow> Some (s, Inl e)
      | Inr ((has_w, b), _) \<Rightarrow>
          (let h = header_hash cr (header b);
               s = upd_peer i (mark_known h) s;
               s = s\<lparr>pn_inflight := AList.delete h (pn_inflight s)\<rparr>
           in map_option
                (\<lambda>(cs, res, is_new).
                   let s = set_chain cr cs s in
                   (case res of
                      Inr _ \<Rightarrow> request_blocks cr (pn_ms s) s
                    | Inl why \<Rightarrow>
                        if why = ''witness-required'' then s\<lparr>pn_no_witness := List.insert (h, i) (pn_no_witness s)\<rparr>
                        else if why = ''orphan'' then send_getheaders cr i True s
                        else if why = ''time-too-new'' \<or> why = ''disk-write-failed'' then s
                        else misbehave i True s, Inr ()))
                (accept_block cr b has_w (pn_cs s))))"

definition on_tx :: "crypto \<Rightarrow> nat \<Rightarrow> bytes \<Rightarrow> p2p \<Rightarrow> p2p \<times> unit result" where
  "on_tx cr i payload s =
     (case read_full payload of
        Inl e \<Rightarrow> (s, Inl e)
      | Inr (tx, _) \<Rightarrow>
          (let s = upd_peer i (mark_known (txid cr tx)) s in
           case mp_accept cr (pn_cs s) tx (pn_mp s) of
             (mp, Inr _) \<Rightarrow> (pool_grown cr mp s, Inr ())
           | (mp, Inl why) \<Rightarrow>
               (let s = pool_grown cr mp s in
                if why \<noteq> ''already-in-mempool'' \<and> why \<noteq> ''already-confirmed''
                then (send_to cr i CReject (w_u8 INV_TX @ w_hash (txid cr tx) @ w_str why) s, Inr ())
                else (s, Inr ()))))"

definition on_getutxos :: "crypto \<Rightarrow> nat \<Rightarrow> bytes \<Rightarrow> p2p \<Rightarrow> p2p \<times> unit result" where
  "on_getutxos cr i payload s =
     (case build_utxo_reply cr (pn_cs s) (pn_mp s) payload of
        Inl e \<Rightarrow> (s, Inl e)
      | Inr reply \<Rightarrow> (send_to cr i CUtxos reply s, Inr ()))"

section \<open>Snapshots\<close>

definition serve_snapshot :: "hash256 \<Rightarrow> p2p \<Rightarrow> p2p" where
  "serve_snapshot bh s =
     (if pn_serve_block s \<noteq> bh then
        (case read_snapshot_file (pn_cs s) bh of
           None \<Rightarrow> s\<lparr>pn_serve := [], pn_serve_block := hash_zero\<rparr>
         | Some b \<Rightarrow> s\<lparr>pn_serve := b, pn_serve_block := bh\<rparr>)
      else s)"

definition on_getsnapshot :: "crypto \<Rightarrow> nat \<Rightarrow> bytes \<Rightarrow> p2p \<Rightarrow> p2p \<times> unit result" where
  "on_getsnapshot cr i payload s =
     (case rbind (r_hash payload) (\<lambda>(bh, r). rbind (r_varint r) (\<lambda>(off, r). Inr (bh, off))) of
        Inl e \<Rightarrow> (s, Inl e)
      | Inr (bh, off) \<Rightarrow>
          (let s = serve_snapshot bh s in
           (send_to cr i CSnapshot
              (w_hash bh @
                (if pn_serve_block s \<noteq> bh \<or> unat off > length (pn_serve s) then w_varint 0 @ w_varint 0 @ w_bytes []
                 else w_varint (of_nat (length (pn_serve s))) @ w_varint off
                      @ w_bytes (take SNAPSHOT_CHUNK (drop (unat off) (pn_serve s))))) s, Inr ())))"

definition on_snapshot :: "crypto \<Rightarrow> nat \<Rightarrow> bytes \<Rightarrow> p2p \<Rightarrow> (p2p \<times> unit result) option" where
  "on_snapshot cr i payload s =
     (case rbind (r_hash payload) (\<lambda>(bh, r). rbind (r_varint r) (\<lambda>(tot, r). rbind (r_varint r) (\<lambda>(off, r).
             rbind (r_bytes (of_nat SNAPSHOT_CHUNK) r) (\<lambda>(chunk, r). Inr (bh, tot, off, chunk))))) of
        Inl e \<Rightarrow> Some (s, Inl e)
      | Inr (bh, tot, off, chunk) \<Rightarrow>
          if i \<noteq> pn_snap_peer s \<or> bh \<noteq> pn_snap_block s then Some (s, Inr ())
          else if tot = 0 \<or> tot > 4 * 2 ^ 30 \<or> unat off \<noteq> length (pn_snap_buf s)
                  \<or> (pn_snap_total s \<noteq> 0 \<and> tot \<noteq> pn_snap_total s)
          then Some ((end_snapshot s)\<lparr>pn_snap_bad := List.insert i (pn_snap_bad s)\<rparr>, Inr ())
          else
            (let s = s\<lparr>pn_snap_total := tot, pn_snap_buf := pn_snap_buf s @ chunk, pn_snap_since := pn_ms s\<rparr> in
             if length (pn_snap_buf s) < unat tot
             then Some (send_to cr i CGetSnapshot (w_hash bh @ w_varint (of_nat (length (pn_snap_buf s)))) s, Inr ())
             else
               map_option
                 (\<lambda>(cs, res). (end_snapshot (let s = set_chain cr cs s in case res of Inr _ \<Rightarrow> s | Inl why \<Rightarrow> misbehave i True s), Inr ()))
                 (load_snapshot_bytes cr (pn_snap_buf s) (pn_cs s))))"

section \<open>The dispatcher\<close>

fun handle :: "crypto \<Rightarrow> p2p_env \<Rightarrow> nat \<Rightarrow> cmd \<Rightarrow> bytes \<Rightarrow> p2p \<Rightarrow> (p2p \<times> unit result) option" where
  "handle cr e i c payload s =
     (if \<not> pe_got_version (peer_of s i) \<and> c \<noteq> CVersion then Some (misbehave i False s, Inr ())
      else
        (case c of
           CVersion \<Rightarrow> Some (on_version cr i payload s)
         | CVerack \<Rightarrow> Some (on_verack cr e i s, Inr ())
         | CPing \<Rightarrow> Some (send_to cr i CPong payload s, Inr ())
         | CPong \<Rightarrow> Some (on_pong i payload s)
         | CGetAddr \<Rightarrow> Some (on_getaddr cr e i s, Inr ())
         | CAddr \<Rightarrow> Some (on_addr i payload s)
         | CInv \<Rightarrow> Some (on_inv cr i payload s)
         | CGetData \<Rightarrow> Some (on_getdata cr i payload s)
         | CNotFound \<Rightarrow> Some (on_notfound i payload s)
         | CGetHeaders \<Rightarrow> Some (on_getheaders cr i payload s)
         | CHeaders \<Rightarrow> Some (on_headers cr i payload s)
         | CBlock \<Rightarrow> on_block cr i payload s
         | CTx \<Rightarrow> Some (on_tx cr i payload s)
         | CGetUtxos \<Rightarrow> Some (on_getutxos cr i payload s)
         | CGetSnapshot \<Rightarrow> Some (on_getsnapshot cr i payload s)
         | CSnapshot \<Rightarrow> on_snapshot cr i payload s
         | _ \<Rightarrow> Some (s, Inr ())))"

section \<open>Reading from a connection\<close>

text \<open>The messages in the buffer, up to the first error or until the peer is to be disconnected. An exception of a
  handler is misbehaviour. The handlers do not touch the buffer, so it is written back at the end.\<close>

definition handle_caught :: "crypto \<Rightarrow> p2p_env \<Rightarrow> nat \<Rightarrow> cmd \<Rightarrow> bytes \<Rightarrow> p2p \<Rightarrow> p2p option" where
  "handle_caught cr e i c payload s =
     map_option (\<lambda>(s, res). case res of Inr _ \<Rightarrow> s | Inl err \<Rightarrow> misbehave i True s) (handle cr e i c payload s)"

function handle_frames :: "crypto \<Rightarrow> p2p_env \<Rightarrow> nat \<Rightarrow> bytes \<Rightarrow> p2p \<Rightarrow> p2p option" where
  "handle_frames cr e i rx s =
     (case frame_next cr (pn_p s) rx of
        (NeedMore, rx) \<Rightarrow> Some (upd_peer i (\<lambda>p. p\<lparr>pe_rx := rx\<rparr>) s)
      | (FrameError err, rx) \<Rightarrow> Some (upd_peer i (\<lambda>p. p\<lparr>pe_rx := rx\<rparr>) (misbehave i False s))
      | (Message c payload, rx) \<Rightarrow>
          (case handle_caught cr e i c payload s of
             None \<Rightarrow> None
           | Some s \<Rightarrow>
               if pe_disconnect (peer_of s i) then Some (upd_peer i (\<lambda>p. p\<lparr>pe_rx := rx\<rparr>) s)
               else handle_frames cr e i rx s))"
  by pat_completeness auto
termination
  by (relation "measure (\<lambda>(cr, e, i, rx, s). length rx)") (auto dest: frame_next_more(4) [OF sym])

declare handle_frames.simps [simp del] handle.simps [simp del]

text \<open>The pieces that \<open>recv\<close> returns, and whether the connection ended (as opposed to having nothing more for now).\<close>

primrec recv_pieces :: "nat \<Rightarrow> bytes list \<Rightarrow> bool \<Rightarrow> p2p \<Rightarrow> bool \<times> p2p" where
  "recv_pieces i [] closed s = (False, if closed then upd_peer i drop_peer s else s)"
| "recv_pieces i (d # ds) closed s =
     (let s = upd_peer i (\<lambda>p. p\<lparr>pe_rx := feed d (pe_rx p), pe_bin := pe_bin p + of_nat (length d), pe_last_recv_ms := pn_ms s\<rparr>) s in
      if length (pe_rx (peer_of s i)) > 2 * MAX_MESSAGE then (True, misbehave i False s)
      else recv_pieces i ds closed s)"

text \<open>At most 64 pieces are taken in one go.\<close>

definition read_peer :: "crypto \<Rightarrow> p2p_env \<Rightarrow> nat \<Rightarrow> bytes list \<Rightarrow> bool \<Rightarrow> p2p \<Rightarrow> p2p option" where
  "read_peer cr e i pieces closed s =
     (case recv_pieces i (take 64 pieces) (closed \<and> length pieces < 64) s of
        (True, s) \<Rightarrow> Some s
      | (False, s) \<Rightarrow> handle_frames cr e i (pe_rx (peer_of s i)) s)"

end
