(* ===== verification/P2P_Loop.thy ===== *)
theory P2P_Loop
  imports P2P_Handle
begin

text \<open>
  The life of connections and the event loop (\<open>src/src/net/p2p.cpp\<close>): connecting, accepting, the requests of
  other threads, bans, periodic work and the removal of peers. One iteration of \<open>loop\<close> handles what \<open>poll\<close> reports,
  then the queues, then (every half second) the periodic work, and removes the peers marked for it. The clock is read
  once for all of it. The files of addresses and bans are lists of their parsed lines. The DHT, the periodic LAN
  broadcast and saving, and the published statistics are left out.
\<close>

section \<open>Connections\<close>

definition is_banned :: "p2p \<Rightarrow> bytes \<Rightarrow> bool" where
  "is_banned s ip \<longleftrightarrow> (case map_of (pn_banned s) ip of None \<Rightarrow> False | Some until \<Rightarrow> until > pn_now s)"

definition add_peer :: "peer \<Rightarrow> p2p \<Rightarrow> p2p" where
  "add_peer p s = s\<lparr>pn_peers := pn_peers s @ [p], pn_next_id := pn_next_id s + 1\<rparr>"

definition connect_to :: "p2p_env \<Rightarrow> net_addr \<Rightarrow> bool \<Rightarrow> p2p \<Rightarrow> p2p" where
  "connect_to e a manual s =
     (if list_ex (\<lambda>p. pe_addr p = a \<and> \<not> pe_inbound p) (pn_peers s) then s
      else if is_banned s (na_ip a) \<and> \<not> manual then s
      else if \<not> is_v4 a \<and> \<not> ev_ipv6 e then s
      else
        (let s = upd_info a (\<lambda>x. x\<lparr>ai_last_try := pn_now s, ai_attempts := ai_attempts x + 1,
                                   ai_manual := ai_manual x \<or> manual\<rparr>) s
         in case ev_socket e a of
              None \<Rightarrow> s
            | Some sock \<Rightarrow> add_peer ((new_peer (pn_next_id s) a sock (pn_ms s))\<lparr>pe_manual := manual, pe_connecting := True\<rparr>) s))"

text \<open>One connection that \<open>accept\<close> returned.\<close>

definition accept_one :: "net_addr \<Rightarrow> (nat \<Rightarrow> io) \<Rightarrow> p2p \<Rightarrow> p2p" where
  "accept_one a sock s =
     (if int (length (filter pe_inbound (pn_peers s))) \<ge> po_max_inbound (pn_opt s) \<or> is_banned s (na_ip a) then s
      else add_peer ((new_peer (pn_next_id s) a sock (pn_ms s))\<lparr>pe_inbound := True, pe_last_recv_ms := pn_ms s\<rparr>) s)"

definition accept_inbound :: "(net_addr \<times> (nat \<Rightarrow> io)) list \<Rightarrow> p2p \<Rightarrow> p2p" where
  "accept_inbound conns s = fold (\<lambda>(a, sock). accept_one a sock) (take 16 conns) s"

section \<open>Requests of other threads\<close>

definition INT64_MAX :: int where "INT64_MAX = 2 ^ 63 - 1"

definition request_ban :: "p2p_env \<Rightarrow> string \<Rightarrow> int \<Rightarrow> string \<Rightarrow> p2p \<Rightarrow> p2p \<times> unit result" where
  "request_ban e ip seconds reason s =
     (case ev_resolve e ip of
        None \<Rightarrow> (s, Inl ''not an IP address'')
      | Some a \<Rightarrow>
          (s\<lparr>pn_q_ban := pn_q_ban s @ [\<lparr>bo_ip = na_ip a, bo_until = (if seconds \<le> 0 then INT64_MAX else pn_now s + seconds),
               bo_reason = (if reason = [] then ''banned by you'' else reason), bo_remove = False\<rparr>]\<rparr>, Inr ()))"

definition request_unban :: "p2p_env \<Rightarrow> string \<Rightarrow> p2p \<Rightarrow> p2p" where
  "request_unban e ip s =
     (case ev_resolve e ip of
        None \<Rightarrow> s
      | Some a \<Rightarrow> s\<lparr>pn_q_ban := pn_q_ban s @ [\<lparr>bo_ip = na_ip a, bo_until = 0, bo_reason = [], bo_remove = True\<rparr>]\<rparr>)"

definition broadcast_tx :: "hash256 \<Rightarrow> p2p \<Rightarrow> p2p" where
  "broadcast_tx tid s = s\<lparr>pn_q_relay := pn_q_relay s @ [tid]\<rparr>"

definition add_node :: "string \<Rightarrow> p2p \<Rightarrow> p2p" where
  "add_node hp s = s\<lparr>pn_q_addnode := pn_q_addnode s @ [hp]\<rparr>"

definition request_disconnect :: "nat \<Rightarrow> p2p \<Rightarrow> p2p" where
  "request_disconnect i s = s\<lparr>pn_q_disconnect := pn_q_disconnect s @ [i]\<rparr>"

definition queued_node :: "p2p_env \<Rightarrow> string \<Rightarrow> p2p \<Rightarrow> p2p" where
  "queued_node e hp s = (case ev_resolve e hp of None \<Rightarrow> s | Some a \<Rightarrow> connect_to e a True (add_addr a True s))"

definition queued_ban :: "ban_op \<Rightarrow> p2p \<Rightarrow> p2p" where
  "queued_ban b s =
     (if bo_remove b
      then s\<lparr>pn_banned := AList.delete (bo_ip b) (pn_banned s), pn_ban_reason := AList.delete (bo_ip b) (pn_ban_reason s)\<rparr>
      else s\<lparr>pn_banned := AList.update (bo_ip b) (bo_until b) (pn_banned s),
             pn_ban_reason := AList.update (bo_ip b) (bo_reason b) (pn_ban_reason s),
             pn_peers := map (\<lambda>p. if na_ip (pe_addr p) = bo_ip b then drop_peer p else p) (pn_peers s)\<rparr>)"

text \<open>The transactions a peer does not know yet are announced to it, each once.\<close>

definition announce_txs :: "crypto \<Rightarrow> chain_params \<Rightarrow> hash256 list \<Rightarrow> peer \<Rightarrow> peer" where
  "announce_txs cr cp relay p =
     (if \<not> active p then p
      else
        (case fold (\<lambda>h (p, items). if h \<in> set (pe_known p) then (p, items) else (mark_known h p, items @ [(INV_TX, h)])) relay (p, []) of
           (p, items) \<Rightarrow> if items = [] then p else send_peer cr cp CInv (w_counted write_inv items) p))"

definition announce_tip :: "crypto \<Rightarrow> chain_params \<Rightarrow> block_header \<Rightarrow> peer \<Rightarrow> peer" where
  "announce_tip cr cp hdr p =
     (if \<not> active p \<or> header_hash cr hdr \<in> set (pe_known p) then p
      else send_peer cr cp CHeaders (w_counted write_header [hdr]) (mark_known (header_hash cr hdr) p))"

definition tip_moved :: "crypto \<Rightarrow> p2p \<Rightarrow> p2p" where
  "tip_moved cr s =
     (let h = cs_height (pn_cs s) in
      if is_initial_sync (pn_cs s) \<or> h = pn_last_announce s then s
      else s\<lparr>pn_last_announce := h,
             pn_peers := map (announce_tip cr (pn_p s) (bi_header (deref (pn_cs s) (the_tip (pn_cs s))))) (pn_peers s)\<rparr>)"

definition process_queues :: "crypto \<Rightarrow> p2p_env \<Rightarrow> p2p \<Rightarrow> p2p" where
  "process_queues cr e s0 =
     (let s = s0\<lparr>pn_q_relay := [], pn_q_addnode := [], pn_q_disconnect := [], pn_q_ban := [], pn_q_tip := False\<rparr>;
          s = fold (queued_node e) (pn_q_addnode s0) s;
          s = fold (\<lambda>i. upd_peer i drop_peer) (pn_q_disconnect s0) s;
          s = fold queued_ban (pn_q_ban s0) s;
          s = (if pn_q_relay s0 = [] then s else s\<lparr>pn_peers := map (announce_txs cr (pn_p s) (pn_q_relay s0)) (pn_peers s)\<rparr>)
      in if pn_q_tip s0 then tip_moved cr s else s)"

section \<open>Periodic work\<close>

text \<open>One peer: it is dropped when it is silent, pinged, and asked for headers when it knows more.\<close>

definition maintain_peer :: "crypto \<Rightarrow> p2p_env \<Rightarrow> int \<Rightarrow> nat \<Rightarrow> p2p \<Rightarrow> p2p" where
  "maintain_peer cr e now i s =
     (let p = peer_of s i in
      if pe_disconnect p then s
      else if (pe_connecting p \<and> now - pe_start_ms p > 10000)
           \<or> (\<not> pe_connecting p \<and> \<not> active p \<and> now - pe_start_ms p > 30000) then upd_peer i drop_peer s
      else if \<not> active p then s
      else if now - pe_last_recv_ms p > 5 * 60000 then upd_peer i drop_peer s
      else
        (let s = (if now - pe_ping_sent_ms p > 60000
                  then send_to cr i CPing (w_u64le (ev_random e i))
                         (upd_peer i (\<lambda>p. p\<lparr>pe_ping_nonce := ev_random e i, pe_ping_sent_ms := now\<rparr>) s)
                  else s);
             our = (case cs_best_header (pn_cs s) of None \<Rightarrow> 0 | Some b \<Rightarrow> b_height (pn_cs s) b);
             p = peer_of s i
         in if full p \<and> pe_best_height p > our \<and> now - pe_last_getheaders_ms p > 30000 then send_getheaders cr i True s else s))"

text \<open>Counted are the outbound peers that passed the first two tests.\<close>

definition counts_outbound :: "int \<Rightarrow> peer \<Rightarrow> bool" where
  "counts_outbound now p \<longleftrightarrow> \<not> pe_inbound p \<and> \<not> pe_disconnect p
     \<and> \<not> (pe_connecting p \<and> now - pe_start_ms p > 10000)
     \<and> \<not> (\<not> pe_connecting p \<and> \<not> active p \<and> now - pe_start_ms p > 30000)"

definition stall :: "peer \<Rightarrow> peer" where
  "stall p = (let p = p\<lparr>pe_stalls := pe_stalls p + 1\<rparr> in if pe_stalls p > 5 then drop_peer p else p)"

definition drop_stalled :: "int \<Rightarrow> p2p \<Rightarrow> p2p" where
  "drop_stalled now s =
     (let late = filter (\<lambda>(h, i, t). now - t > 60000) (pn_inflight s)
      in fold (\<lambda>(h, i, t). upd_peer i stall) late s)\<lparr>pn_inflight := filter (\<lambda>(h, i, t). \<not> now - t > 60000) (pn_inflight s)\<rparr>"

definition keep_manual :: "p2p_env \<Rightarrow> p2p \<Rightarrow> p2p" where
  "keep_manual e s0 =
     fold (\<lambda>(a, x) s.
       if ai_manual x \<and> \<not> list_ex (\<lambda>p. pe_addr p = a \<and> \<not> pe_disconnect p) (pn_peers s) \<and> pn_now s - ai_last_try x > 15
       then connect_to e a True s else s) (in_order (pn_addrs s0)) s0"

definition backoff :: "addr_info \<Rightarrow> int" where
  "backoff x = min (60 * 2 ^ min (ai_attempts x) 6) 3600"

definition candidates :: "p2p_env \<Rightarrow> p2p \<Rightarrow> net_addr list" where
  "candidates e s =
     sort_key (\<lambda>a. - ai_last_ok (info_of s a))
       (ev_shuffle e (map fst (filter (\<lambda>(a, x).
          \<not> (a = pn_ext4 s \<or> a = pn_ext6 s \<or> a \<in> set (pn_self s))
          \<and> \<not> (ai_last_try x \<noteq> 0 \<and> pn_now s - ai_last_try x < backoff x)
          \<and> \<not> list_ex (\<lambda>p. pe_addr p = a) (pn_peers s)) (in_order (pn_addrs s)))))"

definition fill_outbound :: "p2p_env \<Rightarrow> int \<Rightarrow> p2p \<Rightarrow> p2p" where
  "fill_outbound e outbound s =
     (if po_connect_only (pn_opt s) \<or> outbound \<ge> po_max_outbound (pn_opt s) then s
      else fold (\<lambda>a. connect_to e a False) (take (nat (min 4 (po_max_outbound (pn_opt s) - outbound))) (candidates e s)) s)"

definition maintain :: "crypto \<Rightarrow> p2p_env \<Rightarrow> int \<Rightarrow> p2p \<Rightarrow> p2p" where
  "maintain cr e now s =
     (let outbound = int (length (filter (counts_outbound now) (pn_peers s)));
          s = fold (maintain_peer cr e now) (map pe_id (pn_peers s)) s;
          s = keep_manual e (drop_stalled now s)
      in request_blocks cr now (fill_outbound e outbound s))"

section \<open>The local network\<close>

text \<open>What \<open>lan_tick\<close> broadcasts, and what answers a light wallet that asks.\<close>

definition lan_hello :: "p2p \<Rightarrow> bytes" where
  "lan_hello s = string_bytes ''QNTL'' @ magic (pn_p s) @ w_u32le (ucast (po_port (pn_opt s))) @ w_u64le (pn_nonce s)"

text \<open>One datagram of \<open>lan_read\<close>, which reads at most 256 bytes of it; the second component is sent back.\<close>

definition lan_datagram :: "p2p_env \<Rightarrow> bytes \<Rightarrow> net_addr \<Rightarrow> p2p \<Rightarrow> p2p \<times> bytes option" where
  "lan_datagram e buf sender s =
     (if length buf = 8 \<and> take 4 buf = string_bytes ''QNTQ'' \<and> drop 4 buf = magic (pn_p s) then (s, Some (lan_hello s))
      else if length buf \<noteq> 20 \<or> take 4 buf \<noteq> string_bytes ''QNTL'' \<or> take 4 (drop 4 buf) \<noteq> magic (pn_p s) then (s, None)
      else
        (case rbind (r_u32le (drop 8 buf)) (\<lambda>(port, r). rbind (r_u64le r) (\<lambda>(nonce, r). Inr (ucast port :: u16, nonce))) of
           Inl err \<Rightarrow> (s, None)
         | Inr (port, nonce) \<Rightarrow>
             if nonce = pn_nonce s then (s, None)
             else
               (let a = with_port sender port; known = (map_of (pn_addrs s) a \<noteq> None); s = add_addr a False s
                in (if known then s else connect_to e a False s, None))))"

section \<open>Files\<close>

text \<open>The lines of \<open>peers.txt\<close>: best first, without those that never worked, at most 2000. (The order of equal times is the
  library's choice.)\<close>

definition saved_addrs :: "p2p \<Rightarrow> (net_addr \<times> int) list" where
  "saved_addrs s =
     take 2000 (map (\<lambda>(a, x). (a, ai_last_ok x)) (filter (\<lambda>(a, x). \<not> (ai_attempts x > 10 \<and> ai_last_ok x = 0))
       (sort_key (\<lambda>(a, x). - ai_last_ok x) (in_order (pn_addrs s)))))"

definition load_addrs :: "(net_addr \<times> int) list \<Rightarrow> p2p \<Rightarrow> p2p" where
  "load_addrs lines s = fold (\<lambda>(a, ok) s. upd_info a (\<lambda>x. x\<lparr>ai_last_ok := ok\<rparr>) (add_addr a False s)) lines s"

text \<open>The lines of \<open>bans.txt\<close>: bans that are still on and were made by hand.\<close>

definition saved_bans :: "p2p \<Rightarrow> (bytes \<times> int \<times> string) list" where
  "saved_bans s =
     List.map_filter (\<lambda>(ip, until). if until \<le> pn_now s then None
       else map_option (\<lambda>reason. (ip, until, reason)) (map_of (pn_ban_reason s) ip)) (sort_key (\<lambda>(ip, _). be_val ip) (pn_banned s))"

text \<open>A line without a reason has the empty string, otherwise the reason follows a blank.\<close>

definition load_bans :: "(bytes \<times> int \<times> string) list \<Rightarrow> p2p \<Rightarrow> p2p" where
  "load_bans lines s =
     fold (\<lambda>(ip, until, rest) s.
       if until > pn_now s
       then s\<lparr>pn_banned := AList.update ip until (pn_banned s),
              pn_ban_reason := AList.update ip (if rest = [] then ''banned'' else tl rest) (pn_ban_reason s)\<rparr>
       else s) lines s"

section \<open>The loop\<close>

definition reap :: "p2p \<Rightarrow> p2p" where
  "reap s =
     s\<lparr>pn_inflight := filter (\<lambda>(h, i, t). \<forall>p\<in>set (pn_peers s). pe_id p = i \<longrightarrow> \<not> pe_disconnect p) (pn_inflight s),
       pn_peers := filter (\<lambda>p. \<not> pe_disconnect p) (pn_peers s)\<rparr>"

text \<open>What \<open>poll\<close> reports.\<close>

datatype poll_event =
    Incoming "(net_addr \<times> (nat \<Rightarrow> io)) list"
  | Connected nat bool
  | Readable nat "bytes list" bool
  | Writable nat

definition on_event :: "crypto \<Rightarrow> p2p_env \<Rightarrow> poll_event \<Rightarrow> p2p \<Rightarrow> p2p option" where
  "on_event cr e ev s =
     (case ev of
        Incoming conns \<Rightarrow> Some (accept_inbound conns s)
      | Connected i ok \<Rightarrow>
          Some (if pe_connecting (peer_of s i) then (if ok then on_connected cr i s else upd_peer i drop_peer s) else s)
      | Readable i pieces closed \<Rightarrow> if pe_connecting (peer_of s i) then Some s else read_peer cr e i pieces closed s
      | Writable i \<Rightarrow>
          Some (if pe_connecting (peer_of s i) \<or> pe_disconnect (peer_of s i) then s else upd_peer i flush_peer s))"

primrec on_events :: "crypto \<Rightarrow> p2p_env \<Rightarrow> poll_event list \<Rightarrow> p2p \<Rightarrow> p2p option" where
  "on_events cr e [] s = Some s"
| "on_events cr e (ev # evs) s = Option.bind (on_event cr e ev s) (on_events cr e evs)"

text \<open>One iteration; \<open>due\<close> says that half a second has passed since the last periodic work. An event for a peer that is
  gone does not occur, and peers are only removed at the end.\<close>

definition iteration :: "crypto \<Rightarrow> p2p_env \<Rightarrow> poll_event list \<Rightarrow> bool \<Rightarrow> p2p \<Rightarrow> p2p option" where
  "iteration cr e evs due s =
     map_option (\<lambda>s.
       let s = process_queues cr e s; s = (if due then maintain cr e (pn_ms s) s else s) in reap s)
       (on_events cr e evs s)"

end
