(* ===== verification/P2P_Laws.thy ===== *)
theory P2P_Laws
  imports P2P_Loop Chain_Accept
begin

text \<open>
  What holds of the engine whatever the peers send: the peers and their buffers stay within bounds, requests in
  flight belong to peers that are there and no peer has more than its share, the block tree behind it stays well
  formed, and every step returns. An operation on one peer has the contract \<open>peer_op\<close>.
\<close>

section \<open>Invariant\<close>

definition peer_ok :: "peer \<Rightarrow> bool" where
  "peer_ok p \<longleftrightarrow> length (pe_known_order p) \<le> 5000 \<and> distinct (pe_known_order p) \<and> set (pe_known p) = set (pe_known_order p)
     \<and> pe_tx_off p \<le> length (pe_txbuf p) \<and> (pe_disconnect p \<or> length (pe_txbuf p) - pe_tx_off p \<le> 64 * 1024 * 1024)
     \<and> (pe_disconnect p \<or> length (pe_rx p) \<le> 2 * MAX_MESSAGE)"

definition peers_ok :: "p2p \<Rightarrow> bool" where
  "peers_ok s \<longleftrightarrow> distinct (map pe_id (pn_peers s)) \<and> (\<forall>p\<in>set (pn_peers s). peer_ok p \<and> 0 < pe_id p \<and> pe_id p < pn_next_id s)"

definition flight_ok :: "p2p \<Rightarrow> bool" where
  "flight_ok s \<longleftrightarrow> al_distinct (pn_inflight s) \<and> (\<forall>(h, i, t)\<in>set (pn_inflight s). i \<in> pe_id ` set (pn_peers s))
     \<and> (\<forall>i. load_of s i \<le> 16)"

text \<open>The peers of \<open>gone\<close> are among those that are given up; nothing takes that back.\<close>

definition p2p_held :: "nat set \<Rightarrow> crypto \<Rightarrow> p2p \<Rightarrow> bool" where
  "p2p_held gone cr s \<longleftrightarrow> 0 < pn_next_id s \<and> peers_ok s \<and> flight_ok s \<and> chain_good (pn_cs s) \<and> mp_ok cr (pn_mp s)
     \<and> (\<forall>i\<in>gone. i < pn_next_id s) \<and> (\<forall>p\<in>set (pn_peers s). pe_id p \<in> gone \<longrightarrow> pe_disconnect p)"

abbreviation p2p_ok :: "crypto \<Rightarrow> p2p \<Rightarrow> bool" where
  "p2p_ok \<equiv> p2p_held {}"

section \<open>Operations on one peer\<close>

locale peer_op =
  fixes f :: "peer \<Rightarrow> peer"
  assumes same_id: "pe_id (f p) = pe_id p"
    and keeps: "peer_ok p \<Longrightarrow> peer_ok (f p)"
    and stays: "pe_disconnect p \<Longrightarrow> pe_disconnect (f p)"
begin

lemma all_peers:
  assumes "p2p_held gone cr s"
  shows "p2p_held gone cr (s\<lparr>pn_peers := map (\<lambda>p. if P p then f p else p) (pn_peers s)\<rparr>)"
proof -
  have ids: "map pe_id (map (\<lambda>p. if P p then f p else p) ps) = map pe_id ps" for ps by (simp add: same_id)
  have ids': "pe_id ` set (map (\<lambda>p. if P p then f p else p) ps) = pe_id ` set ps" for ps
    by (metis ids list.set_map)
  have "peers_ok (s\<lparr>pn_peers := map (\<lambda>p. if P p then f p else p) (pn_peers s)\<rparr>)"
    using assms by (auto simp: p2p_held_def peers_ok_def ids same_id keeps simp del: map_map)
  moreover have "flight_ok (s\<lparr>pn_peers := map (\<lambda>p. if P p then f p else p) (pn_peers s)\<rparr>)"
    using assms by (simp add: p2p_held_def flight_ok_def load_of_def ids' del: set_map image_set)
  ultimately show ?thesis using assms by (auto simp: p2p_held_def same_id stays)
qed

lemma one_peer: "p2p_held gone cr s \<Longrightarrow> p2p_held gone cr (upd_peer i f s)"
  unfolding upd_peer_def by (rule all_peers)

lemma map_peers: "p2p_held gone cr s \<Longrightarrow> p2p_held gone cr (s\<lparr>pn_peers := map f (pn_peers s)\<rparr>)"
  using all_peers [of gone cr s "\<lambda>_. True"] by simp

end

interpretation drop_op: peer_op drop_peer
  by unfold_locales (simp_all add: drop_peer_def peer_ok_def)

interpretation known_op: peer_op "mark_known h" for h
proof
  show "pe_id (mark_known h p) = pe_id p" for p by (simp add: mark_known_def Let_def)
  show "peer_ok (mark_known h p)" if "peer_ok p" for p
  proof (cases "h \<in> set (pe_known p)")
    case False
    define order where "order = pe_known_order p @ [h]"
    have o: "distinct order" "set (h # pe_known p) = set order" "length order \<le> 5001" "order \<noteq> []"
      using that False by (auto simp: order_def peer_ok_def)
    have "set (removeAll (hd order) (h # pe_known p)) = set (tl order)"
      using o by (cases order) (auto simp del: removeAll.simps)
    moreover have "distinct (tl order)" "length (tl order) \<le> 5000" using o by (simp_all add: distinct_tl)
    ultimately show ?thesis
      using that False o by (auto simp: mark_known_def Let_def order_def [symmetric] peer_ok_def MAX_KNOWN_INV_def)
  qed (simp add: mark_known_def that)
  show "pe_disconnect (mark_known h p)" if "pe_disconnect p" for p using that by (simp add: mark_known_def Let_def)
qed

text \<open>What flushing keeps is kept by counting a call, by giving the connection up and by sending bytes of the buffer.\<close>

lemma flush_loop_keeps:
  assumes "Q p" "\<And>p. Q p \<Longrightarrow> Q (p\<lparr>pe_calls := pe_calls p + 1\<rparr>)" "\<And>p. Q p \<Longrightarrow> Q (drop_peer p)"
    and "\<And>p k. Q p \<Longrightarrow> pe_tx_off p + k \<le> length (pe_txbuf p) \<Longrightarrow> Q (p\<lparr>pe_tx_off := pe_tx_off p + k, pe_bout := pe_bout p + of_nat k\<rparr>)"
  shows "Q (flush_loop p)"
  using assms(1)
proof (induction p rule: flush_loop.induct)
  case (1 p)
  define q where "q = p\<lparr>pe_calls := pe_calls p + 1\<rparr>"
  define want where "want = min (length (pe_txbuf p) - pe_tx_off p) (2 ^ 20)"
  have q: "Q q" unfolding q_def using "1.prems" by (rule assms(2))
  show ?case
  proof (cases "length (pe_txbuf p) \<le> pe_tx_off p")
    case True
    then show ?thesis using "1.prems" by (simp add: flush_loop.simps)
  next
    case False
    show ?thesis
    proof (cases "pe_sends p (pe_calls p)")
      case (Sent k)
      show ?thesis
      proof (cases "min k want = 0")
        case True
        then have "k = 0" using False by (auto simp: want_def min_def split: if_splits)
        then have "flush_loop p = drop_peer q"
          using False Sent by (subst flush_loop.simps) (simp add: Let_def want_def q_def)
        then show ?thesis using assms(3) [OF q] by simp
      next
        case nz: False
        define r where "r = q\<lparr>pe_tx_off := pe_tx_off q + min k want, pe_bout := pe_bout q + of_nat (min k want)\<rparr>"
        have e: "flush_loop p = flush_loop r"
          using False Sent nz by (subst flush_loop.simps) (auto simp: Let_def want_def r_def q_def min_def split: if_splits)
        have "pe_tx_off q + min k want \<le> length (pe_txbuf q)" using False by (simp add: q_def want_def)
        then have r: "Q r" unfolding r_def by (rule assms(4) [OF q])
        have "Q (flush_loop r)"
          unfolding r_def q_def want_def
          by (rule "1.IH" [OF False refl refl refl Sent refl]) (use nz want_def q_def r r_def in simp_all)
        then show ?thesis unfolding e .
      qed
    qed (use False assms(3) [OF q] q in \<open>simp_all add: flush_loop.simps [of p] Let_def q_def\<close>)
  qed
qed

definition peer_follows :: "peer \<Rightarrow> peer \<Rightarrow> bool" where
  "peer_follows p q \<longleftrightarrow> pe_id q = pe_id p \<and> pe_known q = pe_known p \<and> pe_known_order q = pe_known_order p
     \<and> (pe_tx_off p \<le> length (pe_txbuf p) \<longrightarrow> pe_tx_off q \<le> length (pe_txbuf q))
     \<and> length (pe_txbuf q) - pe_tx_off q \<le> length (pe_txbuf p) - pe_tx_off p \<and> pe_rx q = pe_rx p
     \<and> (pe_disconnect p \<longrightarrow> pe_disconnect q) \<and> pe_best_height q = pe_best_height p \<and> pe_got_version q = pe_got_version p
     \<and> pe_got_verack q = pe_got_verack p"

lemma all_sent_law: "peer_follows p (all_sent p)"
  by (simp add: peer_follows_def all_sent_def)

lemma flush_peer_law: "peer_follows p (flush_peer p)"
proof -
  have "peer_follows p (flush_loop p)"
    by (rule flush_loop_keeps) (auto simp: drop_peer_def peer_follows_def)
  then show ?thesis using all_sent_law [of "flush_loop p"] by (simp add: flush_peer_def peer_follows_def)
qed

lemma peer_follows_ok: "peer_follows p q \<Longrightarrow> peer_ok p \<Longrightarrow> peer_ok q"
  by (auto simp: peer_follows_def peer_ok_def)

interpretation flush_op: peer_op flush_peer
  by unfold_locales (use flush_peer_law peer_follows_ok in \<open>auto simp: peer_follows_def\<close>)

interpretation send_op: peer_op "send_peer cr cp c payload" for cr cp c payload
proof -
  define f where "f p = (if pe_tx_off (p :: peer) > 0 then all_sent p else p)" for p
  define q where "q p = (f (if c = CBlock then p\<lparr>pe_blocks_sent := pe_blocks_sent p + 1\<rparr> else p))
      \<lparr>pe_txbuf := pe_txbuf (f (if c = CBlock then p\<lparr>pe_blocks_sent := pe_blocks_sent p + 1\<rparr> else p)) @ frame_message cr cp c payload\<rparr>" for p
  have e: "send_peer cr cp c payload p = (if pe_disconnect p then p
      else if length (pe_txbuf (q p)) - pe_tx_off (q p) > 64 * 1024 * 1024 then drop_peer (q p) else flush_peer (q p))" for p
    by (simp add: send_peer_def q_def f_def Let_def)
  have k: "pe_id (q p) = pe_id p" "pe_known (q p) = pe_known p" "pe_known_order (q p) = pe_known_order p" "pe_rx (q p) = pe_rx p"
    "pe_tx_off p \<le> length (pe_txbuf p) \<Longrightarrow> pe_tx_off (q p) \<le> length (pe_txbuf (q p))" for p
    by (auto simp: q_def f_def all_sent_def)
  show "peer_op (send_peer cr cp c payload)"
  proof
    show "pe_id (send_peer cr cp c payload p) = pe_id p" for p
      by (simp add: e k flush_op.same_id drop_op.same_id)
    show "peer_ok (send_peer cr cp c payload p)" if "peer_ok p" for p
      using that flush_op.keeps [of "q p"] unfolding e by (auto simp: peer_ok_def k drop_peer_def)
    show "pe_disconnect (send_peer cr cp c payload p)" if "pe_disconnect p" for p using that by (simp add: e)
  qed
qed

text \<open>Updates of the fields of a peer that the invariant does not mention.\<close>

interpretation version_op: peer_op "\<lambda>p. p\<lparr>pe_ver := v\<rparr>" for v
  by unfold_locales (simp_all add: peer_ok_def)

interpretation sent_version_op: peer_op "\<lambda>p. p\<lparr>pe_sent_version := True\<rparr>"
  by unfold_locales (simp_all add: peer_ok_def)

interpretation connected_op: peer_op "\<lambda>p. p\<lparr>pe_connecting := False, pe_last_recv_ms := t\<rparr>" for t
  by unfold_locales (simp_all add: peer_ok_def)

interpretation got_version_op: peer_op "\<lambda>p. p\<lparr>pe_got_version := True, pe_best_height := h\<rparr>" for h
  by unfold_locales (simp_all add: peer_ok_def)

interpretation verack_op: peer_op "\<lambda>p. p\<lparr>pe_got_verack := True\<rparr>"
  by unfold_locales (simp_all add: peer_ok_def)

interpretation best_op: peer_op "\<lambda>p. p\<lparr>pe_best_height := max (pe_best_height p) h\<rparr>" for h
  by unfold_locales (simp_all add: peer_ok_def)

interpretation asked_op: peer_op "\<lambda>p. p\<lparr>pe_last_getheaders_ms := t\<rparr>" for t
  by unfold_locales (simp_all add: peer_ok_def)

interpretation ping_op: peer_op "\<lambda>p. p\<lparr>pe_ping_nonce := n, pe_ping_sent_ms := t\<rparr>" for n t
  by unfold_locales (simp_all add: peer_ok_def)

interpretation pong_op: peer_op "\<lambda>p. if n = pe_ping_nonce p \<and> pe_ping_sent_ms p \<noteq> 0 then p\<lparr>pe_ping_ms := t - pe_ping_sent_ms p\<rparr> else p" for n t
  by unfold_locales (simp_all add: peer_ok_def)

text \<open>Bytes that arrive make the buffer longer than it may be only if the connection is given up at once.\<close>

abbreviation fed :: "bytes \<Rightarrow> int \<Rightarrow> peer \<Rightarrow> peer" where
  "fed d t \<equiv> \<lambda>p. p\<lparr>pe_rx := feed d (pe_rx p), pe_bin := pe_bin p + of_nat (length d), pe_last_recv_ms := t\<rparr>"

interpretation fed_op: peer_op "\<lambda>p. if length (feed d (pe_rx p)) \<le> 2 * MAX_MESSAGE then fed d t p else drop_peer (fed d t p)" for d t
  by unfold_locales (simp_all add: peer_ok_def drop_peer_def)

interpretation stall_op: peer_op stall
  by unfold_locales (simp_all add: stall_def Let_def peer_ok_def drop_peer_def)

lemmas peer_ops = drop_op.one_peer known_op.one_peer flush_op.one_peer send_op.one_peer version_op.one_peer  sent_version_op.one_peer connected_op.one_peer got_version_op.one_peer verack_op.one_peer best_op.one_peer asked_op.one_peer ping_op.one_peer pong_op.one_peer fed_op.one_peer stall_op.one_peer

lemma p2p_ok_frame [simp]:
  "p2p_held gone cr (s\<lparr>pn_addrs := x0\<rparr>) = p2p_held gone cr s"
  "p2p_held gone cr (s\<lparr>pn_banned := x1\<rparr>) = p2p_held gone cr s"
  "p2p_held gone cr (s\<lparr>pn_no_witness := x2\<rparr>) = p2p_held gone cr s"
  "p2p_held gone cr (s\<lparr>pn_votes := x3\<rparr>) = p2p_held gone cr s"
  "p2p_held gone cr (s\<lparr>pn_ext4 := x4\<rparr>) = p2p_held gone cr s"
  "p2p_held gone cr (s\<lparr>pn_ext6 := x5\<rparr>) = p2p_held gone cr s"
  "p2p_held gone cr (s\<lparr>pn_self := x6\<rparr>) = p2p_held gone cr s"
  "p2p_held gone cr (s\<lparr>pn_last_announce := x7\<rparr>) = p2p_held gone cr s"
  "p2p_held gone cr (s\<lparr>pn_q_relay := x8\<rparr>) = p2p_held gone cr s"
  "p2p_held gone cr (s\<lparr>pn_q_addnode := x9\<rparr>) = p2p_held gone cr s"
  "p2p_held gone cr (s\<lparr>pn_q_disconnect := x10\<rparr>) = p2p_held gone cr s"
  "p2p_held gone cr (s\<lparr>pn_q_ban := x11\<rparr>) = p2p_held gone cr s"
  "p2p_held gone cr (s\<lparr>pn_q_tip := x12\<rparr>) = p2p_held gone cr s"
  "p2p_held gone cr (s\<lparr>pn_ban_reason := x13\<rparr>) = p2p_held gone cr s"
  "p2p_held gone cr (s\<lparr>pn_snap_peer := x14\<rparr>) = p2p_held gone cr s"
  "p2p_held gone cr (s\<lparr>pn_snap_block := x15\<rparr>) = p2p_held gone cr s"
  "p2p_held gone cr (s\<lparr>pn_snap_buf := x16\<rparr>) = p2p_held gone cr s"
  "p2p_held gone cr (s\<lparr>pn_snap_total := x17\<rparr>) = p2p_held gone cr s"
  "p2p_held gone cr (s\<lparr>pn_snap_since := x18\<rparr>) = p2p_held gone cr s"
  "p2p_held gone cr (s\<lparr>pn_snap_bad := x19\<rparr>) = p2p_held gone cr s"
  "p2p_held gone cr (s\<lparr>pn_serve_block := x20\<rparr>) = p2p_held gone cr s"
  "p2p_held gone cr (s\<lparr>pn_serve := x21\<rparr>) = p2p_held gone cr s"
  by (simp_all add: p2p_held_def peers_ok_def flight_ok_def load_of_def)

section \<open>Shared operations\<close>

named_theorems p2p_keep

lemma send_to_ok [p2p_keep]: "p2p_held gone cr s \<Longrightarrow> p2p_held gone cr (send_to cr' i c pl s)"
  unfolding send_to_def by (rule peer_ops)

lemmas [p2p_keep] = peer_ops

lemma misbehave_ok [p2p_keep]: "p2p_held gone cr s \<Longrightarrow> p2p_held gone cr (misbehave i ban s)"
  by (simp add: misbehave_def Let_def peer_ops)

lemma send_getheaders_ok [p2p_keep]: "p2p_held gone cr s \<Longrightarrow> p2p_held gone cr (send_getheaders cr' i b s)"
  by (simp add: send_getheaders_def Let_def peer_ops send_to_ok)

lemma upd_info_ok [simp]: "p2p_held gone cr (upd_info a f s) = p2p_held gone cr s"
  by (simp add: upd_info_def)

lemma add_addr_ok [simp]: "p2p_held gone cr (add_addr a m s) = p2p_held gone cr s"
  by (simp add: add_addr_def Let_def split: option.split)

lemma learned_external_ok [simp]: "p2p_held gone cr (learned_external a s) = p2p_held gone cr s"
  by (simp add: learned_external_def Let_def)

lemma p2p_ok_chain: "p2p_held gone cr s \<Longrightarrow> chain_good cs \<Longrightarrow> p2p_held gone cr (s\<lparr>pn_cs := cs\<rparr>)"
  by (simp add: p2p_held_def peers_ok_def flight_ok_def load_of_def)

lemma pool_grown_ok: "p2p_held gone cr s \<Longrightarrow> mp_ok cr mp \<Longrightarrow> p2p_held gone cr (pool_grown cr mp s)"
  by (simp add: pool_grown_def p2p_held_def peers_ok_def flight_ok_def load_of_def)

lemma run_event_ok:
  assumes "p2p_held gone cr s"
  shows "p2p_held gone cr (run_event cr e s)"
proof -
  have ok: "mp_ok cr (pn_mp s)" using assms by (simp add: p2p_held_def)
  have "mp_ok cr (mp_on_connect cr b (pn_mp s))" "mp_ok cr (mp_on_disconnect cr (pn_cs s) b (pn_mp s))" for b
    using on_connect_inv [OF ok] on_disconnect_inv [OF ok] by (simp_all add: mp_inv_def)
  then show ?thesis
    using assms on_tip_ok [OF ok] by (auto simp: run_event_def intro!: pool_grown_ok split: chain_event.split)
qed

lemma set_chain_ok [p2p_keep]:
  assumes "p2p_held gone cr s" "chain_good cs"
  shows "p2p_held gone cr (set_chain cr cs s)"
proof -
  have "p2p_held gone cr (fold (run_event cr) es s')" if "p2p_held gone cr s'" for es s'
    using that by (induction es arbitrary: s') (simp_all add: run_event_ok)
  then show ?thesis using p2p_ok_chain [OF assms] by (simp add: set_chain_def)
qed

lemma flight_filter: "p2p_held gone cr s \<Longrightarrow> p2p_held gone cr (s\<lparr>pn_inflight := filter P (pn_inflight s)\<rparr>)"
proof -
  assume ok: "p2p_held gone cr s"
  have "length (filter Q (filter P xs)) \<le> length (filter Q xs)" for Q and xs :: "(hash256 \<times> nat \<times> int) list"
    by (induction xs) auto
  then have "load_of (s\<lparr>pn_inflight := filter P (pn_inflight s)\<rparr>) i \<le> load_of s i" for i by (simp add: load_of_def)
  moreover have "load_of s i \<le> 16" for i using ok by (simp add: p2p_held_def flight_ok_def)
  ultimately have "load_of (s\<lparr>pn_inflight := filter P (pn_inflight s)\<rparr>) i \<le> 16" for i by (rule order_trans)
  moreover have "distinct (map fst (filter P (pn_inflight s)))"
    using ok by (simp add: p2p_held_def flight_ok_def al_distinct_def distinct_map_filter)
  ultimately show ?thesis using ok by (auto simp: p2p_held_def peers_ok_def flight_ok_def al_distinct_def)
qed

lemma flight_delete [p2p_keep]: "p2p_held gone cr s \<Longrightarrow> p2p_held gone cr (s\<lparr>pn_inflight := AList.delete h (pn_inflight s)\<rparr>)"
  unfolding AList.delete_eq by (rule flight_filter)

section \<open>Requests\<close>

lemma pick_peer_law:
  assumes "pick_peer s b h = Some i"
  obtains q where "q \<in> set (pn_peers s)" "pe_id q = i" "may_ask s b h q"
proof -
  define pick where "pick = (\<lambda>q acc. if \<not> may_ask s b h q then acc
    else (case acc of None \<Rightarrow> Some (pe_id q)
          | Some i \<Rightarrow> if load_of s (pe_id q) < load_of s i then Some (pe_id q) else Some i))"
  define Q where "Q j \<longleftrightarrow> (\<exists>q\<in>set (pn_peers s). pe_id q = j \<and> may_ask s b h q)" for j
  have step: "Q j" if "pick q acc = Some j" "q \<in> set (pn_peers s)" "\<forall>k. acc = Some k \<longrightarrow> Q k" for q acc j
    using that by (auto simp: pick_def Q_def split: if_splits option.splits)
  have "Q i" if "fold pick qs acc = Some i" "set qs \<subseteq> set (pn_peers s)" "\<forall>k. acc = Some k \<longrightarrow> Q k" for qs acc
    using that
  proof (induction qs arbitrary: acc)
    case (Cons q qs)
    have "\<forall>k. pick q acc = Some k \<longrightarrow> Q k"
      using step [of q acc] Cons.prems(2,3) by simp
    with Cons.IH [of "pick q acc"] Cons.prems(1,2) show ?case by simp
  qed simp
  from this [of "pn_peers s" None] assms have "Q i" by (simp add: pick_peer_def pick_def)
  then show thesis using that by (auto simp: Q_def)
qed

lemma request_one_ok:
  assumes "p2p_held gone cr s"
  shows "p2p_held gone cr (fst (request_one best now h (s, batch)))"
proof -
  have add: "p2p_held gone cr (s\<lparr>pn_inflight := AList.update b (i, now) (pn_inflight s)\<rparr>)"
    if "map_of (pn_inflight s) b = None" "pick_peer s b h = Some i" for b i
  proof -
    note new = that
    obtain q where q: "q \<in> set (pn_peers s)" "pe_id q = i" "may_ask s b h q" by (rule pick_peer_law [OF new(2)])
    have u: "AList.update b (i, now) m = m @ [(b, i, now)]" if "map_of m b = None" for m :: "(hash256 \<times> nat \<times> int) list"
      using that by (induction m) (auto split: if_splits)
    have "load_of (s\<lparr>pn_inflight := pn_inflight s @ [(b, i, now)]\<rparr>) j = load_of s j + (if j = i then 1 else 0)" for j
      by (simp add: load_of_def)
    moreover have "load_of s i < 16" using q by (simp add: may_ask_def MAX_INFLIGHT_PER_PEER_def)
    moreover have "b \<notin> fst ` set (pn_inflight s)" using new(1) by (simp add: map_of_eq_None_iff)
    ultimately show ?thesis
      using assms q(1,2) u [OF new(1)] by (auto simp: p2p_held_def peers_ok_def flight_ok_def al_distinct_def)
  qed
  show ?thesis
    using assms add by (auto simp: request_one_def Let_def not_Some_eq [symmetric] simp del: not_None_eq not_Some_eq split: option.split)
qed

lemma download_ok: "p2p_held gone cr s \<Longrightarrow> p2p_held gone cr (download cr' now best f s)"
proof -
  assume ok: "p2p_held gone cr s"
  have "p2p_held gone cr (fst (fold (request_one best now) hs (s', batch)))" if "p2p_held gone cr s'" for hs s' batch
    using that
  proof (induction hs arbitrary: s' batch)
    case (Cons h hs)
    obtain s1 b1 where r: "request_one best now h (s', batch) = (s1, b1)" by force
    from request_one_ok [OF Cons.prems, of best now h batch] r Cons.IH [of s1 b1] show ?case by simp
  qed simp
  moreover have "p2p_held gone cr (fold (send_batch cr' batch) is s')" if "p2p_held gone cr s'" for batch "is" s'
    using that by (induction "is" arbitrary: s') (simp_all add: send_batch_def send_to_ok)
  ultimately show ?thesis
    using ok unfolding download_def by (auto split: prod.split) (metis fst_conv)
qed

lemma try_fast_sync_ok: "p2p_held gone cr s \<Longrightarrow> p2p_held gone cr (snd (try_fast_sync cr' now s))"
  by (auto simp: try_fast_sync_def start_snapshot_def end_snapshot_def intro!: send_to_ok split: sum.split option.split)

lemma request_blocks_ok [p2p_keep]: "p2p_held gone cr s \<Longrightarrow> p2p_held gone cr (request_blocks cr' now s)"
proof -
  assume "p2p_held gone cr s"
  then have "p2p_held gone cr (snd (if po_fast_sync (pn_opt s) then try_fast_sync cr' now s else (False, s)))"
    by (simp add: try_fast_sync_ok)
  then show ?thesis
    by (auto simp: request_blocks_def Let_def intro!: download_ok split: prod.split bool.split option.split)
qed

section \<open>Handlers\<close>

lemma each_ok: "Q s \<Longrightarrow> (\<And>x s. Q s \<Longrightarrow> Q (f x s)) \<Longrightarrow> Q (fst (each rd f n r s))"
  by (induction n arbitrary: r s) (auto split: sum.split)

lemma each_counted_ok: "Q s \<Longrightarrow> (\<And>x s. Q s \<Longrightarrow> Q (f x s)) \<Longrightarrow> Q (fst (each_counted mx rd f r s))"
  by (auto simp: each_counted_def intro: each_ok split: sum.split)

lemma on_connected_ok [p2p_keep]: "p2p_held gone cr s \<Longrightarrow> p2p_held gone cr (on_connected cr' i s)"
  unfolding on_connected_def Let_def by (intro p2p_keep)

lemma on_version_ok: "p2p_held gone cr s \<Longrightarrow> p2p_held gone cr (fst (on_version cr' i payload s))"
  by (auto simp: on_version_def Let_def intro!: p2p_keep split: sum.split)

lemma on_verack_ok: "p2p_held gone cr s \<Longrightarrow> p2p_held gone cr (on_verack cr' e i s)"
  by (simp add: on_verack_def Let_def p2p_keep)

lemma on_pong_ok: "p2p_held gone cr s \<Longrightarrow> p2p_held gone cr (fst (on_pong i payload s))"
  by (auto simp: on_pong_def intro!: p2p_keep split: sum.split)

lemma on_getaddr_ok: "p2p_held gone cr s \<Longrightarrow> p2p_held gone cr (on_getaddr cr' e i s)"
  by (simp add: on_getaddr_def Let_def p2p_keep)

lemma on_addr_ok: "p2p_held gone cr s \<Longrightarrow> p2p_held gone cr (fst (on_addr i payload s))"
  unfolding on_addr_def by (rule each_counted_ok) auto

lemma on_inv_ok:
  assumes "p2p_held gone cr s"
  shows "p2p_held gone cr (fst (on_inv cr' i payload s))"
proof -
  let ?step = "\<lambda>(t, h) (s, items, blocks).
    let s = upd_peer i (mark_known h) s in
    if t = INV_TX then
      (s, if \<not> mp_contains h (pn_mp s) \<and> find_tx_block (pn_cs s) h = None then items @ [(INV_TX, h)] else items, blocks)
    else (s, items, blocks \<or> t = INV_BLOCK)"
  have "p2p_held gone cr (fst (fst (each_counted 50000 read_inv ?step payload (s, [], False))))"
    by (rule each_counted_ok [where Q = "\<lambda>x. p2p_held gone cr (fst x)"]) (auto simp: assms Let_def intro!: p2p_keep)
  then show ?thesis
    by (auto simp: on_inv_def Let_def intro!: p2p_keep split: prod.split sum.split)
qed

lemma serve_item_ok: "p2p_held gone cr (fst x) \<Longrightarrow> p2p_held gone cr (fst (serve_item cr' i y x))"
  by (auto simp: serve_item_def intro!: p2p_keep split: prod.splits option.splits)

lemma on_getdata_ok:
  assumes "p2p_held gone cr s"
  shows "p2p_held gone cr (fst (on_getdata cr' i payload s))"
proof -
  have "p2p_held gone cr (fst (fst (each_counted 50000 read_inv (serve_item cr' i) payload (s, []))))"
    by (rule each_counted_ok [where Q = "\<lambda>x. p2p_held gone cr (fst x)"]) (simp_all add: assms serve_item_ok)
  then show ?thesis by (auto simp: on_getdata_def intro!: p2p_keep split: prod.split sum.split)
qed

lemma on_notfound_ok: "p2p_held gone cr s \<Longrightarrow> p2p_held gone cr (fst (on_notfound i payload s))"
  unfolding on_notfound_def
  by (rule each_counted_ok) (auto intro!: flight_delete split: option.split)

lemma on_getheaders_ok: "p2p_held gone cr s \<Longrightarrow> p2p_held gone cr (fst (on_getheaders cr' i payload s))"
  by (auto simp: on_getheaders_def Let_def intro!: p2p_keep split: sum.split)

lemma take_headers_ok: "p2p_held gone cr s \<Longrightarrow> p2p_held gone cr (snd (snd (take_headers cr' i hs latest s)))"
proof (induction hs arbitrary: latest s)
  case (Cons h hs)
  obtain cs r why out where a: "accept_header cr' h (pn_cs s) = (cs, r, why, out)" by (metis prod_cases4)
  have "chain_good (pn_cs s)" using Cons.prems by (simp add: p2p_held_def)
  then have "chain_good cs" using accept_header_tree [OF _ _ a] by blast
  then have ok: "p2p_held gone cr (s\<lparr>pn_cs := cs\<rparr>)" using Cons.prems by (rule p2p_ok_chain [rotated])
  then have "p2p_held gone cr (case out of None \<Rightarrow> s\<lparr>pn_cs := cs\<rparr> | Some b \<Rightarrow> upd_peer i (mark_known (bi_hash (deref cs b))) (s\<lparr>pn_cs := cs\<rparr>))"
    by (auto intro!: p2p_keep split: option.split)
  from Cons.IH [OF this] ok show ?case by (cases r) (auto simp: a intro!: p2p_keep)
qed simp

lemma on_headers_ok: "p2p_held gone cr s \<Longrightarrow> p2p_held gone cr (fst (on_headers cr' i payload s))"
proof (cases "r_counted (of_nat MAX_HEADERS_PER_MSG) read_header payload")
  case (Inr x)
  obtain hs r where x: "x = (hs, r)" by force
  obtain res latest s1 where t: "take_headers cr' i hs None s = (res, latest, s1)" by (metis prod_cases3)
  assume "p2p_held gone cr s"
  from take_headers_ok [OF this, of cr' i hs None] t have "p2p_held gone cr s1" by simp
  then show ?thesis
    by (cases res) (auto simp: on_headers_def Inr x t Let_def intro!: p2p_keep split: option.split)
qed (simp add: on_headers_def)

lemma on_block_ok:
  assumes "p2p_held gone cr s"
  shows "\<exists>s' res. on_block cr i payload s = Some (s', res) \<and> p2p_held gone cr s'"
proof (cases "read_block_msg payload")
  case (Inr x)
  obtain w b r where x: "x = ((w, b), r)" by (metis prod.collapse)
  define s1 where "s1 = (upd_peer i (mark_known (header_hash cr (header b))) s)
    \<lparr>pn_inflight := AList.delete (header_hash cr (header b)) (pn_inflight (upd_peer i (mark_known (header_hash cr (header b))) s))\<rparr>"
  have ok: "p2p_held gone cr s1" unfolding s1_def by (intro p2p_keep assms)
  then have "chain_good (pn_cs s1)" by (simp add: p2p_held_def)
  from accept_block_good [OF this, of cr b w] obtain cs res new where
    a: "accept_block cr b w (pn_cs s1) = Some (cs, res, new)" "chain_good cs" by blast
  have "p2p_held gone cr (set_chain cr cs s1)" using ok a(2) by (rule set_chain_ok)
  then show ?thesis
    unfolding on_block_def Inr x sum.case prod.case Let_def s1_def [symmetric] using a(1) by (cases res) (auto intro!: p2p_keep)
qed (simp add: on_block_def assms)

lemma on_tx_ok:
  assumes "p2p_held gone cr s"
  shows "p2p_held gone cr (fst (on_tx cr i payload s))"
proof (cases "read_full payload")
  case (Inr x)
  obtain tx r where x: "x = (tx, r)" by force
  define s1 where "s1 = upd_peer i (mark_known (txid cr tx)) s"
  have ok: "p2p_held gone cr s1" unfolding s1_def by (intro p2p_keep assms)
  obtain mp res where a: "mp_accept cr (pn_cs s1) tx (pn_mp s1) = (mp, res)" by force
  have "mp_ok cr mp" using accept_ok [of cr "pn_mp s1" "pn_cs s1" tx] ok a by (simp add: p2p_held_def)
  then have "p2p_held gone cr (pool_grown cr mp s1)" by (rule pool_grown_ok [OF ok])
  then show ?thesis
    unfolding on_tx_def Inr x sum.case prod.case Let_def s1_def [symmetric] using a by (cases res) (auto intro!: p2p_keep)
qed (simp add: on_tx_def assms)

lemma on_getutxos_ok: "p2p_held gone cr s \<Longrightarrow> p2p_held gone cr (fst (on_getutxos cr' i payload s))"
  by (auto simp: on_getutxos_def intro!: p2p_keep split: sum.split)

lemma serve_snapshot_ok: "p2p_held gone cr s \<Longrightarrow> p2p_held gone cr (serve_snapshot bh s)"
  by (auto simp: serve_snapshot_def split: option.split)

lemma on_getsnapshot_ok: "p2p_held gone cr s \<Longrightarrow> p2p_held gone cr (fst (on_getsnapshot cr' i payload s))"
  by (auto simp: on_getsnapshot_def Let_def intro!: send_to_ok serve_snapshot_ok split: sum.split)

lemma end_snapshot_ok [simp]: "p2p_held gone cr (end_snapshot s) = p2p_held gone cr s"
  by (simp add: end_snapshot_def)

lemma on_snapshot_ok:
  assumes "p2p_held gone cr s"
  shows "\<exists>s' res. on_snapshot cr i payload s = Some (s', res) \<and> p2p_held gone cr s'"
proof -
  let ?rd = "rbind (r_hash payload) (\<lambda>(bh, r). rbind (r_varint r) (\<lambda>(tot, r). rbind (r_varint r) (\<lambda>(off, r).
             rbind (r_bytes (of_nat SNAPSHOT_CHUNK) r) (\<lambda>(chunk, r). Inr (bh, tot, off, chunk)))))"
  show ?thesis
  proof (cases ?rd)
    case (Inr x)
    obtain bh tot off chunk where x: "x = (bh, tot, off, chunk)" by (metis prod_cases4)
    define s1 where "s1 = s\<lparr>pn_snap_total := tot, pn_snap_buf := pn_snap_buf s @ chunk, pn_snap_since := pn_ms s\<rparr>"
    have ok: "p2p_held gone cr s1" using assms by (simp add: s1_def)
    then have "chain_good (pn_cs s1)" by (simp add: p2p_held_def)
    from load_snapshot_good [OF this, of cr "pn_snap_buf s1"] obtain cs res where
      l: "load_snapshot_bytes cr (pn_snap_buf s1) (pn_cs s1) = Some (cs, res)" "chain_good cs" by blast
    have c: "p2p_held gone cr (set_chain cr cs s1)" using ok l(2) by (rule set_chain_ok)
    then have m: "p2p_held gone cr (misbehave i True (set_chain cr cs s1))" by (rule misbehave_ok)
    have q: "p2p_held gone cr (send_to cr i CGetSnapshot b s1)" for b using ok by (rule send_to_ok)
    show ?thesis
      unfolding on_snapshot_def Inr x sum.case prod.case Let_def s1_def [symmetric]
      using assms c m q l(1) by (cases res) auto
  qed (simp add: on_snapshot_def assms)
qed

lemma handle_ok:
  assumes "p2p_held gone cr s"
  shows "\<exists>s' res. handle cr e i c payload s = Some (s', res) \<and> p2p_held gone cr s'"
proof (cases "\<not> pe_got_version (peer_of s i) \<and> c \<noteq> CVersion")
  case True
  then show ?thesis using misbehave_ok [OF assms] by (simp add: handle.simps)
next
  case False
  have "case on_block cr i payload s of None \<Rightarrow> False | Some y \<Rightarrow> p2p_held gone cr (fst y)"
    "case on_snapshot cr i payload s of None \<Rightarrow> False | Some y \<Rightarrow> p2p_held gone cr (fst y)"
    using on_block_ok [OF assms, of i payload] on_snapshot_ok [OF assms, of i payload] by auto
  then have "case handle cr e i c payload s of None \<Rightarrow> False | Some y \<Rightarrow> p2p_held gone cr (fst y)"
    using False
    by (cases c) (simp_all add: handle.simps assms on_version_ok on_verack_ok send_to_ok on_pong_ok on_getaddr_ok on_addr_ok
      on_inv_ok on_getdata_ok on_notfound_ok on_getheaders_ok on_headers_ok on_tx_ok on_getutxos_ok on_getsnapshot_ok)
  then show ?thesis by (auto split: option.splits)
qed

section \<open>The loop\<close>

lemma peer_of_in:
  assumes "distinct (map pe_id (pn_peers s))" "p \<in> set (pn_peers s)"
  shows "peer_of s (pe_id p) = p"
proof -
  obtain q where q: "List.find (\<lambda>q. pe_id q = pe_id p) (pn_peers s) = Some q"
    using assms(2) by (cases "List.find (\<lambda>q. pe_id q = pe_id p) (pn_peers s)") (auto simp: find_None_iff)
  then have "q \<in> set (pn_peers s)" "pe_id q = pe_id p" by (auto simp: find_Some_iff)
  then have "q = p" using assms by (metis eq_key_imp_eq_value inj_onD distinct_map)
  then show ?thesis using q by (simp add: peer_of_def)
qed

interpretation rx_op: peer_op "\<lambda>p. if length rx \<le> 2 * MAX_MESSAGE \<or> pe_disconnect p then p\<lparr>pe_rx := rx\<rparr> else p" for rx
  by unfold_locales (auto simp: peer_ok_def)

lemma set_rx_ok:
  assumes "p2p_held gone cr s" "length rx \<le> 2 * MAX_MESSAGE \<or> i \<in> gone"
  shows "p2p_held gone cr (upd_peer i (\<lambda>p. p\<lparr>pe_rx := rx\<rparr>) s)"
proof -
  have "upd_peer i (\<lambda>p. if length rx \<le> 2 * MAX_MESSAGE \<or> pe_disconnect p then p\<lparr>pe_rx := rx\<rparr> else p) s = upd_peer i (\<lambda>p. p\<lparr>pe_rx := rx\<rparr>) s"
    using assms by (auto simp: upd_peer_def p2p_held_def)
  then show ?thesis using rx_op.one_peer [OF assms(1), of i rx] by simp
qed

lemma handle_frames_ok:
  "p2p_held gone cr s \<Longrightarrow> length rx \<le> 2 * MAX_MESSAGE \<or> i \<in> gone \<Longrightarrow> \<exists>s'. handle_frames cr e i rx s = Some s' \<and> p2p_held gone cr s'"
proof (induction cr e i rx s rule: handle_frames.induct)
  case (1 cr e i rx s)
  obtain r rx' where f: "frame_next cr (pn_p s) rx = (r, rx')" by force
  have "length rx' \<le> length rx"
    using f by (auto simp: frame_next_def Let_def split: if_splits)
  then have small: "length rx' \<le> 2 * MAX_MESSAGE \<or> i \<in> gone" using "1.prems"(2) by auto
  show ?case
  proof (cases r)
    case NeedMore
    then show ?thesis using f "1.prems"(1) small by (subst handle_frames.simps) (simp add: set_rx_ok)
  next
    case (FrameError err)
    then show ?thesis using f "1.prems"(1) small by (subst handle_frames.simps) (simp add: set_rx_ok misbehave_ok)
  next
    case (Message c payload)
    obtain s1 res where h: "handle cr e i c payload s = Some (s1, res)" "p2p_held gone cr s1" using handle_ok [OF "1.prems"(1)] by blast
    define s2 where "s2 = (case res of Inr u \<Rightarrow> s1 | Inl err \<Rightarrow> misbehave i True s1)"
    have c: "handle_caught cr e i c payload s = Some s2" by (simp add: handle_caught_def h(1) s2_def)
    have ok: "p2p_held gone cr s2" using h(2) by (auto simp: s2_def intro: misbehave_ok split: sum.split)
    have step: "handle_frames cr e i rx s = (if pe_disconnect (peer_of s2 i) then Some (upd_peer i (\<lambda>p. p\<lparr>pe_rx := rx'\<rparr>) s2)
        else handle_frames cr e i rx' s2)"
      using f Message c by (subst handle_frames.simps) simp
    show ?thesis
    proof (cases "pe_disconnect (peer_of s2 i)")
      case True
      then show ?thesis using step ok small by (simp add: set_rx_ok)
    next
      case False
      have "\<exists>s'. handle_frames cr e i rx' s2 = Some s' \<and> p2p_held gone cr s'"
        using "1.IH" f Message c False ok small by fastforce
      then show ?thesis using step False by simp
    qed
  qed
qed

lemma recv_pieces_ok: "p2p_held gone cr s \<Longrightarrow> p2p_held gone cr (snd (recv_pieces i ds closed s))"
proof (induction ds arbitrary: s)
  case (Cons d ds)
  define s1 where "s1 = upd_peer i (fed d (pn_ms s)) s"
  let ?f = "\<lambda>p. if length (feed d (pe_rx p)) \<le> 2 * MAX_MESSAGE then fed d (pn_ms s) p else drop_peer (fed d (pn_ms s) p)"
  have ok: "p2p_held gone cr (upd_peer i ?f s)" using Cons.prems by (rule fed_op.one_peer)
  have dist: "distinct (map pe_id (pn_peers s1))"
    using Cons.prems by (auto simp: s1_def upd_peer_def p2p_held_def peers_ok_def comp_def if_distrib cong: if_cong)
  show ?case
  proof (cases "length (pe_rx (peer_of s1 i)) > 2 * MAX_MESSAGE")
    case True
    have "p2p_held gone cr (upd_peer i drop_peer (upd_peer i ?f s))" using ok by (rule drop_op.one_peer)
    moreover have "upd_peer i drop_peer (upd_peer i ?f s) = upd_peer i drop_peer s1"
      by (auto simp: s1_def upd_peer_def drop_peer_def)
    ultimately have "p2p_held gone cr (misbehave i False s1)" by (simp add: misbehave_def Let_def)
    then show ?thesis using True by (simp add: Let_def s1_def [symmetric])
  next
    case False
    have "length (feed d (pe_rx p)) \<le> 2 * MAX_MESSAGE" if "p \<in> set (pn_peers s)" "pe_id p = i" for p
    proof -
      have "fed d (pn_ms s) p \<in> set (pn_peers s1)" using that by (force simp: s1_def upd_peer_def)
      from peer_of_in [OF dist this] have "peer_of s1 i = fed d (pn_ms s) p" using that(2) by simp
      then show ?thesis using False by simp
    qed
    then have "upd_peer i ?f s = s1" by (auto simp: s1_def upd_peer_def)
    then show ?thesis using False Cons.IH ok by (simp add: Let_def s1_def [symmetric])
  qed
qed (simp add: p2p_keep)

text \<open>A peer with a longer buffer is one that is given up.\<close>

lemma held_long:
  assumes "p2p_held gone cr s" "\<not> length (pe_rx (peer_of s i)) \<le> 2 * MAX_MESSAGE"
  shows "p2p_held (insert i gone) cr s"
proof -
  have d: "distinct (map pe_id (pn_peers s))" using assms(1) by (simp add: p2p_held_def peers_ok_def)
  obtain q where q: "List.find (\<lambda>p. pe_id p = i) (pn_peers s) = Some q"
    using assms(2) by (cases "List.find (\<lambda>p. pe_id p = i) (pn_peers s)") (auto simp: peer_of_def new_peer_def)
  then have q': "q \<in> set (pn_peers s)" "pe_id q = i" by (auto simp: find_Some_iff)
  have "peer_of s i = q" using q by (simp add: peer_of_def)
  note q' = q' this
  then have "peer_ok q" "i < pn_next_id s" using assms(1) by (auto simp: p2p_held_def peers_ok_def)
  moreover have "pe_disconnect p" if "p \<in> set (pn_peers s)" "pe_id p = i" for p
    using that peer_of_in [OF d that(1)] q'(3) \<open>peer_ok q\<close> assms(2) by (auto simp: peer_ok_def)
  ultimately show ?thesis using assms(1) by (auto simp: p2p_held_def)
qed

lemma read_peer_ok:
  assumes "p2p_held gone cr s"
  shows "\<exists>s'. read_peer cr e i pieces closed s = Some s' \<and> p2p_held gone cr s'"
proof -
  obtain stop s1 where r: "recv_pieces i (take 64 pieces) (closed \<and> length pieces < 64) s = (stop, s1)" by force
  have ok: "p2p_held gone cr s1" using recv_pieces_ok [OF assms, of i "take 64 pieces" "closed \<and> length pieces < 64"] r by simp
  have "\<exists>s'. handle_frames cr e i (pe_rx (peer_of s1 i)) s1 = Some s' \<and> p2p_held gone cr s'"
  proof (cases "length (pe_rx (peer_of s1 i)) \<le> 2 * MAX_MESSAGE")
    case True
    with handle_frames_ok [OF ok] show ?thesis by blast
  next
    case False
    from handle_frames_ok [OF held_long [OF ok False]]
    obtain s' where "handle_frames cr e i (pe_rx (peer_of s1 i)) s1 = Some s'" "p2p_held (insert i gone) cr s'" by blast
    then show ?thesis by (auto simp: p2p_held_def)
  qed
  then show ?thesis using ok r by (auto simp: read_peer_def split: bool.split)
qed

lemma add_peer_ok:
  assumes "p2p_held gone cr s" "peer_ok p" "pe_id p = pn_next_id s"
  shows "p2p_held gone cr (add_peer p s)"
proof -
  have "pn_next_id s \<notin> pe_id ` set (pn_peers s)" using assms(1) by (auto simp: p2p_held_def peers_ok_def)
  then show ?thesis
    using assms by (auto simp: add_peer_def p2p_held_def peers_ok_def flight_ok_def load_of_def less_Suc_eq)
qed

lemma new_peer_ok: "peer_ok (new_peer i a sock now)" "pe_id (new_peer i a sock now) = i"
  by (simp_all add: new_peer_def peer_ok_def)

lemma connect_to_ok: "p2p_held gone cr s \<Longrightarrow> p2p_held gone cr (connect_to e a m s)"
  using new_peer_ok
  by (auto simp: connect_to_def Let_def peer_ok_def intro!: add_peer_ok split: option.split)

lemma accept_one_ok: "p2p_held gone cr s \<Longrightarrow> p2p_held gone cr (accept_one a sock s)"
  using new_peer_ok by (auto simp: accept_one_def peer_ok_def intro!: add_peer_ok)

lemma fold_ok: "(\<And>x s. p2p_held gone cr s \<Longrightarrow> p2p_held gone cr (f x s)) \<Longrightarrow> p2p_held gone cr s \<Longrightarrow> p2p_held gone cr (fold f xs s)"
  by (induction xs arbitrary: s) simp_all

lemma queued_node_ok: "p2p_held gone cr s \<Longrightarrow> p2p_held gone cr (queued_node e hp s)"
  by (auto simp: queued_node_def intro: connect_to_ok split: option.split)

lemma queued_ban_ok: "p2p_held gone cr s \<Longrightarrow> p2p_held gone cr (queued_ban b s)"
  using drop_op.all_peers [of gone cr "s\<lparr>pn_banned := AList.update (bo_ip b) (bo_until b) (pn_banned s),
    pn_ban_reason := AList.update (bo_ip b) (bo_reason b) (pn_ban_reason s)\<rparr>" "\<lambda>p. na_ip (pe_addr p) = bo_ip b"]
  by (auto simp: queued_ban_def)

interpretation announce_op: peer_op "announce_txs cr cp relay" for cr cp relay
proof -
  have *: "pe_id (fst (fold (\<lambda>h (p, items). if h \<in> set (pe_known p) then (p, items) else (mark_known h p, items @ [(INV_TX, h)])) relay (p, items))) = pe_id p
    \<and> (pe_disconnect p \<longrightarrow> pe_disconnect (fst (fold (\<lambda>h (p, items). if h \<in> set (pe_known p) then (p, items) else (mark_known h p, items @ [(INV_TX, h)])) relay (p, items))))
    \<and> (peer_ok p \<longrightarrow> peer_ok (fst (fold (\<lambda>h (p, items). if h \<in> set (pe_known p) then (p, items) else (mark_known h p, items @ [(INV_TX, h)])) relay (p, items))))"
    for p items
    by (induction relay arbitrary: p items) (simp_all add: known_op.same_id known_op.keeps known_op.stays)
  show "peer_op (announce_txs cr cp relay)"
  proof
    show "pe_id (announce_txs cr cp relay p) = pe_id p" for p
      using * [of p "[]"] by (auto simp: announce_txs_def send_op.same_id split: prod.split)
    show "peer_ok (announce_txs cr cp relay p)" if "peer_ok p" for p
      using * [of p "[]"] that by (auto simp: announce_txs_def send_op.keeps split: prod.split)
    show "pe_disconnect (announce_txs cr cp relay p)" if "pe_disconnect p" for p
      using * [of p "[]"] that by (auto simp: announce_txs_def send_op.stays split: prod.split)
  qed
qed

interpretation tip_op: peer_op "announce_tip cr cp hdr" for cr cp hdr
  by unfold_locales (simp_all add: announce_tip_def send_op.same_id known_op.same_id send_op.keeps known_op.keeps send_op.stays known_op.stays)

lemma tip_moved_ok: "p2p_held gone cr s \<Longrightarrow> p2p_held gone cr (tip_moved cr' s)"
  using tip_op.map_peers [of gone cr "s\<lparr>pn_last_announce := cs_height (pn_cs s)\<rparr>"] by (simp add: tip_moved_def Let_def)

lemma process_queues_ok:
  assumes "p2p_held gone cr s"
  shows "p2p_held gone cr (process_queues cr' e s)"
proof -
  define s1 where "s1 = s\<lparr>pn_q_relay := [], pn_q_addnode := [], pn_q_disconnect := [], pn_q_ban := [], pn_q_tip := False\<rparr>"
  define s2 where "s2 = fold queued_ban (pn_q_ban s)
    (fold (\<lambda>i. upd_peer i drop_peer) (pn_q_disconnect s) (fold (queued_node e) (pn_q_addnode s) s1))"
  have "p2p_held gone cr s1" using assms by (simp add: s1_def)
  then have "p2p_held gone cr s2" unfolding s2_def
    by (intro fold_ok) (auto intro: queued_ban_ok queued_node_ok drop_op.one_peer)
  then have "p2p_held gone cr (if pn_q_relay s = [] then s2 else s2\<lparr>pn_peers := map (announce_txs cr' (pn_p s2) (pn_q_relay s)) (pn_peers s2)\<rparr>)"
    using announce_op.map_peers by simp
  then show ?thesis
    unfolding process_queues_def Let_def s1_def [symmetric] s2_def [symmetric] by (auto intro: tip_moved_ok)
qed

lemma maintain_peer_ok: "p2p_held gone cr s \<Longrightarrow> p2p_held gone cr (maintain_peer cr' e now i s)"
  by (simp add: maintain_peer_def Let_def p2p_keep)

lemma drop_stalled_ok:
  assumes "p2p_held gone cr s"
  shows "p2p_held gone cr (drop_stalled now s)"
proof -
  define late where "late = filter (\<lambda>(h, i, t). now - t > 60000) (pn_inflight s)"
  define s1 where "s1 = fold (\<lambda>(h, i, t). upd_peer i stall) late s"
  have "p2p_held gone cr s1" unfolding s1_def by (rule fold_ok) (auto intro: assms stall_op.one_peer)
  moreover have "pn_inflight (fold (\<lambda>(h, i, t). upd_peer i stall) xs s') = pn_inflight s'" for s' and xs :: "(hash256 \<times> nat \<times> int) list"
    by (induction xs arbitrary: s') (auto simp: upd_peer_def)
  then have "pn_inflight s1 = pn_inflight s" by (simp add: s1_def)
  ultimately have "p2p_held gone cr (s1\<lparr>pn_inflight := filter (\<lambda>(h, i, t). \<not> now - t > 60000) (pn_inflight s)\<rparr>)"
    using flight_filter [of gone cr s1 "\<lambda>(h, i, t). \<not> now - t > 60000"] by simp
  then show ?thesis unfolding drop_stalled_def Let_def late_def [symmetric] s1_def [symmetric] .
qed

lemma keep_manual_ok: "p2p_held gone cr s \<Longrightarrow> p2p_held gone cr (keep_manual e s)"
  unfolding keep_manual_def by (rule fold_ok) (auto intro: connect_to_ok)

lemma fill_outbound_ok: "p2p_held gone cr s \<Longrightarrow> p2p_held gone cr (fill_outbound e n s)"
  unfolding fill_outbound_def by (auto intro: fold_ok connect_to_ok)

lemma maintain_ok: "p2p_held gone cr s \<Longrightarrow> p2p_held gone cr (maintain cr' e now s)"
  unfolding maintain_def Let_def
  by (intro request_blocks_ok fill_outbound_ok keep_manual_ok drop_stalled_ok fold_ok) (auto intro: maintain_peer_ok)

lemma reap_ok:
  assumes "p2p_held gone cr s"
  shows "p2p_held gone cr (reap s)" "\<forall>p\<in>set (pn_peers (reap s)). \<not> pe_disconnect p"
proof -
  define s1 where "s1 = s\<lparr>pn_inflight := filter (\<lambda>(h, i, t). \<forall>p\<in>set (pn_peers s). pe_id p = i \<longrightarrow> \<not> pe_disconnect p) (pn_inflight s)\<rparr>"
  have e: "reap s = s1\<lparr>pn_peers := filter (\<lambda>p. \<not> pe_disconnect p) (pn_peers s1)\<rparr>" by (simp add: reap_def s1_def)
  have ok: "p2p_held gone cr s1" unfolding s1_def using assms by (rule flight_filter)
  have "i \<in> pe_id ` {p \<in> set (pn_peers s1). \<not> pe_disconnect p}" if "(h, i, t) \<in> set (pn_inflight s1)" for h i t
  proof -
    have "i \<in> pe_id ` set (pn_peers s1)" using ok that by (fastforce simp: p2p_held_def flight_ok_def)
    moreover have "\<forall>p\<in>set (pn_peers s1). pe_id p = i \<longrightarrow> \<not> pe_disconnect p" using that by (auto simp: s1_def)
    ultimately show ?thesis by auto
  qed
  then show "p2p_held gone cr (reap s)"
    using ok unfolding e by (auto simp: p2p_held_def peers_ok_def flight_ok_def load_of_def distinct_map_filter)
  show "\<forall>p\<in>set (pn_peers (reap s)). \<not> pe_disconnect p" by (simp add: reap_def)
qed

lemma on_event_ok: "p2p_held gone cr s \<Longrightarrow> \<exists>s'. on_event cr e ev s = Some s' \<and> p2p_held gone cr s'"
proof (cases ev)
  case (Incoming conns)
  assume "p2p_held gone cr s"
  then have "p2p_held gone cr (accept_inbound conns s)" unfolding accept_inbound_def by (intro fold_ok) (auto intro: accept_one_ok)
  then show ?thesis by (simp add: on_event_def Incoming)
next
  case (Readable i pieces closed)
  assume ok: "p2p_held gone cr s"
  show ?thesis using read_peer_ok [OF ok, of e i pieces closed] ok by (simp add: on_event_def Readable)
qed (auto simp: on_event_def intro!: p2p_keep)

lemma on_events_ok: "p2p_held gone cr s \<Longrightarrow> \<exists>s'. on_events cr e evs s = Some s' \<and> p2p_held gone cr s'"
proof (induction evs arbitrary: s)
  case (Cons ev evs)
  from on_event_ok [OF Cons.prems, of e ev] obtain s1 where "on_event cr e ev s = Some s1" "p2p_held gone cr s1" by blast
  with Cons.IH [of s1] show ?case by simp
qed simp

lemma iteration_ok:
  assumes "p2p_held gone cr s"
  obtains s' where "iteration cr e evs due s = Some s'" "p2p_held gone cr s'" "\<forall>p\<in>set (pn_peers s'). \<not> pe_disconnect p"
proof -
  from on_events_ok [OF assms, of e evs] obtain s1 where s1: "on_events cr e evs s = Some s1" "p2p_held gone cr s1" by blast
  define s2 where "s2 = process_queues cr e s1"
  have "p2p_held gone cr (if due then maintain cr e (pn_ms s2) s2 else s2)"
    using process_queues_ok [OF s1(2), of cr e] maintain_ok by (simp add: s2_def)
  from reap_ok [OF this] show thesis
    by (intro that) (simp_all add: iteration_def s1(1) s2_def Let_def)
qed

lemma lan_datagram_ok: "p2p_held gone cr s \<Longrightarrow> p2p_held gone cr (fst (lan_datagram e buf sender s))"
  by (auto simp: lan_datagram_def Let_def intro: connect_to_ok split: sum.split)

text \<open>The states a node goes through: iterations with whatever the system and the peers provide, the clock, the requests of
  other threads.\<close>

inductive p2p_step :: "crypto \<Rightarrow> p2p \<Rightarrow> p2p \<Rightarrow> bool" for cr where
  iterate: "iteration cr e evs due s = Some s' \<Longrightarrow> p2p_step cr s s'"
| clock: "p2p_step cr s (s\<lparr>pn_ms := t, pn_cs := (pn_cs s)\<lparr>cs_now := t'\<rparr>\<rparr>)"
| ask_ban: "p2p_step cr s (fst (request_ban e ip seconds reason s))"
| ask_unban: "p2p_step cr s (request_unban e ip s)"
| ask_relay: "p2p_step cr s (broadcast_tx tid s)"
| ask_node: "p2p_step cr s (add_node hp s)"
| ask_disconnect: "p2p_step cr s (request_disconnect i s)"
| lan: "p2p_step cr s (fst (lan_datagram e buf sender s))"
| submit: "mp_accept cr (pn_cs s) tx (pn_mp s) = (mp, res) \<Longrightarrow> p2p_step cr s (pool_grown cr mp s)"
| mined: "accept_block cr b True (pn_cs s) = Some (cs, res, new) \<Longrightarrow> p2p_step cr s (set_chain cr cs s)"

inductive p2p_run :: "crypto \<Rightarrow> p2p \<Rightarrow> p2p \<Rightarrow> bool" for cr where
  p2p_start: "p2p_run cr s s"
| p2p_more: "p2p_run cr s s' \<Longrightarrow> p2p_step cr s' s'' \<Longrightarrow> p2p_run cr s s''"

lemma p2p_step_ok: "p2p_step cr s s' \<Longrightarrow> p2p_held gone cr s \<Longrightarrow> p2p_held gone cr s'"
proof (induction rule: p2p_step.induct)
  case (iterate e evs due s s')
  from iteration_ok [OF iterate.prems, of e evs due] iterate.hyps show ?case by auto
next
  case (clock s t' t)
  have c: "core ((pn_cs s)\<lparr>cs_now := t'\<rparr>) = core (pn_cs s)" by (simp add: core_def)
  then have "chain_good ((pn_cs s)\<lparr>cs_now := t'\<rparr>)" using good_core [OF c] clock by (simp add: p2p_held_def)
  from p2p_ok_chain [OF clock this] show ?case by (simp add: p2p_held_def peers_ok_def flight_ok_def load_of_def)
next
  case (lan s e buf sender)
  show ?case by (rule lan_datagram_ok [OF lan])
next
  case (submit s tx mp res)
  have "mp_ok cr mp" using accept_ok [of cr "pn_mp s" "pn_cs s" tx] submit by (simp add: p2p_held_def)
  then show ?case by (rule pool_grown_ok [OF submit.prems])
next
  case (mined b s cs res new)
  then have "chain_good (pn_cs s)" by (simp add: p2p_held_def)
  from accept_block_good [OF this, of cr b True] mined.hyps have "chain_good cs" by auto
  then show ?case by (rule set_chain_ok [OF mined.prems])
qed (auto simp: request_ban_def request_unban_def broadcast_tx_def add_node_def request_disconnect_def split: option.split)

lemma p2p_run_ok: "p2p_run cr s s' \<Longrightarrow> p2p_held gone cr s \<Longrightarrow> p2p_held gone cr s'"
  by (induction rule: p2p_run.induct) (auto intro: p2p_step_ok)

end
