(* ===== verification/P2P_Answers.thy ===== *)
theory P2P_Answers
  imports P2P_Laws Light_Laws
begin

text \<open>
  The two sides of the protocol together: a proof that a full node serves is one that a light client accepts. And
  what one dishonest peer can do to a node that starts from a snapshot.
\<close>

section \<open>Proofs of unspent outputs\<close>

lemma stored_block_parses:
  assumes "read_block cr cs i False = Some (b, got)"
  shows "\<forall>t\<in>set (txs b). core_ok t" "header_hash cr (header b) = bi_hash (deref cs i)"
proof -
  obtain buf r where r: "read_block_core buf = Inr (b, r)" and h: "header_hash cr (header b) = bi_hash (deref cs i)"
    using assms by (auto simp: read_block_def Let_def split: if_splits sum.splits option.splits)
  from r show "\<forall>t\<in>set (txs b). core_ok t"
    by (auto simp: read_block_core_def rbind_eq_Inr list_all_iff dest!: corec.r_counted_exact)
  from h show "header_hash cr (header b) = bi_hash (deref cs i)" .
qed

lemma first_index:
  assumes "length (takeWhile (\<lambda>t. t \<noteq> x) xs) < length xs"
  shows "xs ! length (takeWhile (\<lambda>t. t \<noteq> x) xs) = x"
  using nth_length_takeWhile [OF assms] by simp

lemma coin_proof_parts:
  assumes "coin_proof cr cs (op, c) = Some u"
  obtains b got k where "read_block cr cs (up_block u) False = Some (b, got)" "k < length (txs b)" "txid cr (txs b ! k) = op_txid op"
    "u = \<lparr>up_op = op, up_coin = c, up_block = up_block u, up_tx_core = write_core (txs b ! k), up_tx_index = of_nat k,
          up_tx_count = of_nat (length (txs b)), up_merkle = merkle_proof cr (map (txid cr) (txs b)) k\<rparr>"
proof -
  obtain bh i where i: "find_tx_block cs (op_txid op) = Some bh" "cs_lookup cs bh = Some i"
    using assms by (auto simp: coin_proof_def split: option.splits)
  obtain b got where b: "read_block cr cs i False = Some (b, got)"
    using assms i by (auto simp: coin_proof_def split: option.splits)
  define k where "k = length (takeWhile (\<lambda>t. t \<noteq> op_txid op) (map (txid cr) (txs b)))"
  have k: "k < length (txs b)" and u: "u = \<lparr>up_op = op, up_coin = c, up_block = bh, up_tx_core = write_core (txs b ! k),
      up_tx_index = of_nat k, up_tx_count = of_nat (length (txs b)), up_merkle = merkle_proof cr (map (txid cr) (txs b)) k\<rparr>"
    using assms i b by (auto simp: coin_proof_def Let_def k_def split: if_splits)
  have "map (txid cr) (txs b) ! k = op_txid op" unfolding k_def by (rule first_index) (use k in \<open>simp add: k_def\<close>)
  then have "txid cr (txs b ! k) = op_txid op" using k by simp
  moreover have "i = bh" using i(2) by (simp add: cs_lookup_iff)
  ultimately show thesis using b k u by (intro that) simp_all
qed

text \<open>The coin of the ledger is the output that its transaction has in the block.\<close>

definition coin_of :: "crypto \<Rightarrow> block \<Rightarrow> outpoint \<Rightarrow> coin \<Rightarrow> bool" where
  "coin_of cr b op c \<longleftrightarrow> (\<forall>t\<in>set (txs b). txid cr t = op_txid op \<longrightarrow>
     unat (op_n op) < length (outs t) \<and> c_out c = outs t ! unat (op_n op) \<and> c_coinbase c = is_coinbase t)"

lemma served_proof_accepted:
  assumes "coin_proof cr cs (op, c) = Some u" "read_block cr cs (up_block u) False = Some (b, got)"
    and "compute_merkle_root cr b = merkle_root_f (header b)" "length (txs b) < 2 ^ 32" "coin_of cr b op c"
    and "height_of lc (up_block u) = Some h" "int h = sint (c_height c)" "merkle_root_f (lc_headers lc ! h) = merkle_root_f (header b)"
    and "is_mine w (o_addr (c_out c))" "map_of (ls_coins st) op = None"
  shows "\<exists>st'. accept_proof cr lc w u st = Inr st' \<and> map_of (ls_coins st') op = Some \<lparr>wc_op = op, wc_out = c_out c, wc_height = int h,
    wc_coinbase = c_coinbase c, wc_locked = False\<rparr>"
proof -
  obtain b' got' k where p: "read_block cr cs (up_block u) False = Some (b', got')" "k < length (txs b')" "txid cr (txs b' ! k) = op_txid op"
    "u = \<lparr>up_op = op, up_coin = c, up_block = up_block u, up_tx_core = write_core (txs b' ! k), up_tx_index = of_nat k,
          up_tx_count = of_nat (length (txs b')), up_merkle = merkle_proof cr (map (txid cr) (txs b')) k\<rparr>"
    by (rule coin_proof_parts [OF assms(1)])
  have bb: "b' = b" using p(1) assms(2) by simp
  define tx where "tx = txs b ! k"
  have tx: "tx \<in> set (txs b)" "txid cr tx = op_txid op" using p(2,3) by (simp_all add: tx_def bb)
  have id': "blake3_tagged cr ctx_TXID (write_core tx) = op_txid op" using tx(2) by (simp add: txid_def)
  have rc: "\<exists>t. read_core (write_core tx) = Inr (t, []) \<and> outs t = outs tx \<and> is_coinbase t = is_coinbase tx"
  proof -
    have "core_ok tx" using stored_block_parses(1) [OF assms(2)] tx(1) by blast
    then have "core_ok (tx\<lparr>wits := []\<rparr>)" "write_core (tx\<lparr>wits := []\<rparr>) = write_core tx" by (simp_all add: core_ok_def write_core_def)
    then have "read_core (write_core tx) = Inr (tx\<lparr>wits := []\<rparr>, [])"
      using corec.rd_all [of "tx\<lparr>wits := []\<rparr>"] by simp
    then show ?thesis by (simp add: is_coinbase_def)
  qed
  have n: "unat (of_nat k :: u32) = k" "unat (of_nat (length (txs b)) :: u32) = length (txs b)"
    using p(2) assms(4) by (simp_all add: unat_of_nat bb)
  have m: "merkle_verify cr (op_txid op) k (length (txs b)) (merkle_proof cr (map (txid cr) (txs b)) k) (merkle_root_f (header b))"
    using merkle_climb_proof [of k "map (txid cr) (txs b)" cr] p(2,3) assms(3) by (simp add: merkle_verify_def compute_merkle_root_def bb)
  have c: "unat (op_n op) < length (outs tx)" "c_out c = outs tx ! unat (op_n op)" "c_coinbase c = is_coinbase tx"
    using assms(5) tx by (auto simp: coin_of_def)
  from rc obtain t where t: "read_core (write_core tx) = Inr (t, [])" "outs t = outs tx" "is_coinbase t = is_coinbase tx" by blast
  have f: "up_op u = op" "up_coin u = c" "up_tx_core u = write_core tx" "up_tx_index u = of_nat k" "up_tx_count u = of_nat (length (txs b))"
    "up_merkle u = merkle_proof cr (map (txid cr) (txs b)) k"
    by (subst p(4), simp add: tx_def bb)+
  show ?thesis
    using assms(6-10) id' m n c t by (simp add: accept_proof_def f Let_def update_conv')
qed

section \<open>A peer that stalls the start from a snapshot\<close>

text \<open>A chunk without bytes is taken like any other: nothing is added, but the download counts as alive for another
  minute, and while it does no block is requested.\<close>

definition empty_chunk :: "p2p \<Rightarrow> bytes" where
  "empty_chunk s = w_hash (pn_snap_block s) @ w_varint (pn_snap_total s) @ w_varint (of_nat (length (pn_snap_buf s))) @ w_bytes []"

lemma send_to_frame:
  "pn_cs (send_to cr i c b s) = pn_cs s" "pn_opt (send_to cr i c b s) = pn_opt s" "pn_snap_peer (send_to cr i c b s) = pn_snap_peer s"
  "pn_snap_buf (send_to cr i c b s) = pn_snap_buf s" "pn_snap_total (send_to cr i c b s) = pn_snap_total s"
  "pn_snap_since (send_to cr i c b s) = pn_snap_since s" "pn_snap_block (send_to cr i c b s) = pn_snap_block s"
  "pn_inflight (send_to cr i c b s) = pn_inflight s" "pn_ms (send_to cr i c b s) = pn_ms s"
  by (simp_all add: send_to_def upd_peer_def)

text \<open>Sending can only take a peer from the active ones.\<close>

lemma send_peer_active:
  "pe_best_height (send_peer cr cp c b p) = pe_best_height p" "active (send_peer cr cp c b p) \<Longrightarrow> active p"
  using flush_peer_law by (auto simp: send_peer_def all_sent_def Let_def active_def drop_peer_def peer_follows_def split: if_splits)

lemma max_active_height_mono:
  assumes "\<And>p. pe_best_height (f p) = pe_best_height p" "\<And>p. active (f p) \<Longrightarrow> active p"
  shows "max_active_height (map f ps) \<le> max_active_height ps"
proof -
  have "fold (\<lambda>p m. if active p then max m (pe_best_height p) else m) (map f ps) m
      \<le> fold (\<lambda>p m. if active p then max m (pe_best_height p) else m) ps m'" if "m \<le> m'" for m m'
    using that
  proof (induction ps arbitrary: m m')
    case (Cons p ps)
    have "(if active (f p) then max m (pe_best_height (f p)) else m) \<le> (if active p then max m' (pe_best_height p) else m')"
      using Cons.prems assms by (auto simp: max_def)
    from Cons.IH [OF this] show ?case by simp
  qed simp
  then show ?thesis by (simp add: max_active_height_def)
qed

lemma snapshot_target_send:
  assumes "snapshot_target s = Inr target"
  shows "snapshot_target (send_to cr i c b s) = Inr target"
proof -
  let ?f = "\<lambda>p. if pe_id p = i then send_peer cr (pn_p s) c b p else p"
  have "max_active_height (map ?f (pn_peers s)) \<le> max_active_height (pn_peers s)"
    by (rule max_active_height_mono) (auto simp: send_peer_active split: if_splits)
  moreover have "pn_peers (send_to cr i c b s) = map ?f (pn_peers s)" by (simp add: send_to_def upd_peer_def)
  ultimately show ?thesis
    using assms by (auto simp: snapshot_target_def Let_def send_to_frame split: if_splits option.splits)
qed

lemma empty_chunks_stall:
  assumes "snapshot_target s = Inr target" "po_fast_sync (pn_opt s)" "pn_snap_peer s = i" "i \<noteq> 0"
    and "pn_snap_total s \<noteq> 0" "pn_snap_total s \<le> 4 * 2 ^ 30" "length (pn_snap_buf s) < unat (pn_snap_total s)"
  obtains s' where "on_snapshot cr i (empty_chunk s) s = Some (s', Inr ())"
    "pn_snap_since s' = pn_ms s" "empty_chunk s' = empty_chunk s" "pn_inflight s' = pn_inflight s"
    "snapshot_target s' = Inr target" "po_fast_sync (pn_opt s')" "pn_snap_peer s' = i" "pn_snap_total s' = pn_snap_total s"
    "pn_snap_buf s' = pn_snap_buf s" "pn_cs s' = pn_cs s"
proof -
  define s1 where "s1 = s\<lparr>pn_snap_since := pn_ms s\<rparr>"
  define s' where "s' = send_to cr i CGetSnapshot (w_hash (pn_snap_block s) @ w_varint (of_nat (length (pn_snap_buf s)))) s1"
  have small: "length (pn_snap_buf s) < 2 ^ 64" using assms(7) unsigned_less [of "pn_snap_total s", where ?'a = nat] by simp
  have "r_bytes (of_nat SNAPSHOT_CHUNK) (w_bytes []) = Inr ([], [])" using bytesc.rd_all [of "[]"] by simp
  then have rd: "rbind (r_hash (empty_chunk s)) (\<lambda>(bh, r). rbind (r_varint r) (\<lambda>(tot, r). rbind (r_varint r) (\<lambda>(off, r).
             rbind (r_bytes (of_nat SNAPSHOT_CHUNK) r) (\<lambda>(chunk, r). Inr (bh, tot, off, chunk)))))
      = Inr (pn_snap_block s, pn_snap_total s, of_nat (length (pn_snap_buf s)), [])"
    by (simp add: empty_chunk_def hashc.rd_wr varintc.rd_wr)
  have u: "s\<lparr>pn_snap_total := pn_snap_total s, pn_snap_buf := pn_snap_buf s @ [], pn_snap_since := pn_ms s\<rparr> = s1" by (simp add: s1_def)
  have n: "unat (of_nat (length (pn_snap_buf s)) :: u64) = length (pn_snap_buf s)" using small by (simp add: unat_of_nat)
  have "on_snapshot cr i (empty_chunk s) s = Some (s', Inr ())"
    unfolding on_snapshot_def rd sum.case prod.case u Let_def
    using assms(3-7) n by (simp add: s'_def s1_def not_less)
  moreover have "snapshot_target s1 = Inr target" using assms(1) by (auto simp: snapshot_target_def s1_def Let_def split: if_splits option.splits)
  then have t: "snapshot_target s' = Inr target" unfolding s'_def by (rule snapshot_target_send)
  moreover have f: "pn_snap_since s' = pn_ms s" "empty_chunk s' = empty_chunk s" "pn_inflight s' = pn_inflight s"
    "po_fast_sync (pn_opt s')" "pn_snap_peer s' = i" "pn_snap_total s' = pn_snap_total s" "pn_snap_buf s' = pn_snap_buf s"
    using assms(2,3) by (simp_all add: s'_def s1_def send_to_frame empty_chunk_def)
  moreover have "pn_cs s' = pn_cs s" by (simp add: s'_def s1_def send_to_frame)
  ultimately show thesis by (intro that)
qed

text \<open>The peer sends such a chunk at each of the times, and right before each the node does its periodic request for blocks.\<close>

primrec drip :: "crypto \<Rightarrow> nat \<Rightarrow> int list \<Rightarrow> p2p \<Rightarrow> p2p option" where
  "drip cr i [] s = Some s"
| "drip cr i (t # ts) s =
     (case on_snapshot cr i (empty_chunk s) (request_blocks cr t (s\<lparr>pn_ms := t\<rparr>)) of
        None \<Rightarrow> None
      | Some (s, res) \<Rightarrow> drip cr i ts s)"

primrec minute_apart :: "int \<Rightarrow> int list \<Rightarrow> bool" where
  "minute_apart t0 [] = True"
| "minute_apart t0 (t # ts) = (t < t0 + 60000 \<and> minute_apart t ts)"

definition snapshotting :: "nat \<Rightarrow> hash256 \<Rightarrow> p2p \<Rightarrow> bool" where
  "snapshotting i target s \<longleftrightarrow> snapshot_target s = Inr target \<and> po_fast_sync (pn_opt s) \<and> pn_snap_peer s = i \<and> i \<noteq> 0
     \<and> pn_snap_total s \<noteq> 0 \<and> pn_snap_total s \<le> 4 * 2 ^ 30 \<and> length (pn_snap_buf s) < unat (pn_snap_total s)"

lemma snapshotting_clock: "snapshotting i target (s\<lparr>pn_ms := t\<rparr>) = snapshotting i target s"
proof -
  have "snapshot_target (s\<lparr>pn_ms := t\<rparr>) = snapshot_target s"
  proof -
    have "pn_cs (s\<lparr>pn_ms := t\<rparr>) = pn_cs s" "pn_peers (s\<lparr>pn_ms := t\<rparr>) = pn_peers s" "pn_snap_peer (s\<lparr>pn_ms := t\<rparr>) = pn_snap_peer s"
      by simp_all
    then show ?thesis by (simp only: snapshot_target_def)
  qed
  then show ?thesis by (simp add: snapshotting_def)
qed

lemma drip_stalls:
  assumes "snapshotting i target s" "minute_apart (pn_snap_since s) ts"
  shows "\<exists>s'. drip cr i ts s = Some s' \<and> snapshotting i target s' \<and> pn_inflight s' = pn_inflight s \<and> pn_cs s' = pn_cs s
    \<and> pn_snap_buf s' = pn_snap_buf s \<and> pn_snap_since s' = last (pn_snap_since s # ts)"
  using assms
proof (induction ts arbitrary: s)
  case (Cons t ts)
  define s1 where "s1 = s\<lparr>pn_ms := t\<rparr>"
  have s1: "snapshotting i target s1" using Cons.prems(1) by (simp add: s1_def snapshotting_clock)
  have r: "request_blocks cr t s1 = s1"
    using s1 Cons.prems(2) by (simp add: snapshotting_def request_blocks_def try_fast_sync_def s1_def)
  have e: "empty_chunk s = empty_chunk s1" by (simp add: empty_chunk_def s1_def)
  obtain s2 where s2: "on_snapshot cr i (empty_chunk s1) s1 = Some (s2, Inr ())" "pn_snap_since s2 = pn_ms s1"
    "pn_inflight s2 = pn_inflight s1" "snapshot_target s2 = Inr target" "po_fast_sync (pn_opt s2)" "pn_snap_peer s2 = i"
    "pn_snap_total s2 = pn_snap_total s1" "pn_snap_buf s2 = pn_snap_buf s1" "pn_cs s2 = pn_cs s1"
    using empty_chunks_stall [of s1 target i cr] s1 unfolding snapshotting_def by metis
  have "snapshotting i target s2" using s1 s2 by (simp add: snapshotting_def)
  moreover have "minute_apart (pn_snap_since s2) ts" using Cons.prems(2) s2(2) by (simp add: s1_def)
  ultimately obtain s' where "drip cr i ts s2 = Some s'" "snapshotting i target s'" "pn_inflight s' = pn_inflight s2" "pn_cs s' = pn_cs s2"
    "pn_snap_buf s' = pn_snap_buf s2" "pn_snap_since s' = last (pn_snap_since s2 # ts)" using Cons.IH [of s2] by blast
  then show ?case using r e s2 by (auto simp: s1_def [symmetric]) (simp_all add: s1_def)
qed simp

end
