(* ===== verification/P2P_Queue.thy ===== *)
theory P2P_Queue
  imports P2P_Laws
begin

text \<open>
  How much a connection keeps of what it sent. \<open>send\<close> limits what is still to be sent, but the buffer is only emptied when
  nothing is: a peer that always leaves one byte unread makes it grow with everything it is sent.
\<close>

definition slow_socket :: "nat \<Rightarrow> nat \<Rightarrow> io" where
  "slow_socket n k = (if k = 0 then Sent (n - 1) else if even k then Sent n else Would_block)"

definition sends :: "crypto \<Rightarrow> chain_params \<Rightarrow> cmd \<Rightarrow> bytes \<Rightarrow> nat \<Rightarrow> peer \<Rightarrow> peer" where
  "sends cr cp c payload n p = (send_peer cr cp c payload ^^ n) p"

lemma flush_sends:
  assumes "pe_sends p = slow_socket l" "pe_sends p (pe_calls p) = Sent k" "pe_sends p (Suc (pe_calls p)) = Would_block"
    and "0 < k" "pe_tx_off p + k < length (pe_txbuf p)" "length (pe_txbuf p) - pe_tx_off p \<le> 2 ^ 20"
  shows "flush_peer p = p\<lparr>pe_tx_off := pe_tx_off p + k, pe_bout := pe_bout p + of_nat k, pe_calls := pe_calls p + 2\<rparr>"
proof -
  let ?q = "p\<lparr>pe_calls := Suc (pe_calls p), pe_tx_off := pe_tx_off p + k, pe_bout := pe_bout p + of_nat k\<rparr>"
  have m: "min k (min (length (pe_txbuf p) - pe_tx_off p) (2 ^ 20)) = k" using assms(4-6) by simp
  have "flush_loop p = flush_loop ?q"
    using assms(2,4,5) m by (subst flush_loop.simps) (simp add: Let_def)
  also have "\<dots> = ?q\<lparr>pe_calls := Suc (Suc (pe_calls p))\<rparr>"
    using assms(3,5) by (subst flush_loop.simps) (simp add: Let_def)
  finally show ?thesis using assms(5) by (simp add: flush_peer_def all_sent_def)
qed

lemma send_peer_appends:
  assumes "\<not> pe_disconnect p" "pe_tx_off p = 0 \<or> pe_tx_off p \<noteq> length (pe_txbuf p)"
    and "length (pe_txbuf p) + length (frame_message cr cp c payload) - pe_tx_off p \<le> 64 * 1024 * 1024"
  shows "send_peer cr cp c payload p = flush_peer ((if c = CBlock then p\<lparr>pe_blocks_sent := pe_blocks_sent p + 1\<rparr> else p)
    \<lparr>pe_txbuf := pe_txbuf p @ frame_message cr cp c payload\<rparr>)"
  using assms by (auto simp: send_peer_def all_sent_def Let_def)

lemma queue_grows:
  fixes i :: nat and a :: net_addr and t :: int
  assumes "length (frame_message cr cp c payload) < 2 ^ 20"
  defines "l \<equiv> length (frame_message cr cp c payload)"
  defines "q n \<equiv> sends cr cp c payload n (new_peer i a (slow_socket l) t)"
  shows "\<not> pe_disconnect (q n) \<and> length (pe_txbuf (q n)) = n * l \<and> pe_tx_off (q n) = n * l - 1
    \<and> pe_calls (q n) = 2 * n \<and> pe_sends (q n) = slow_socket l"
proof (induction n)
  case (Suc n)
  have l: "2 \<le> l" "l < 2 ^ 20" using assms(1) by (simp_all add: l_def frame_message_def w_u8_def w_u32le_def)
  define p' where "p' = (if c = CBlock then q n\<lparr>pe_blocks_sent := pe_blocks_sent (q n) + 1\<rparr> else q n)
    \<lparr>pe_txbuf := pe_txbuf (q n) @ frame_message cr cp c payload\<rparr>"
  have p: "\<not> pe_disconnect (q n)" "length (pe_txbuf (q n)) = n * l" "pe_tx_off (q n) = n * l - 1" using Suc.IH by simp_all
  have p': "\<not> pe_disconnect p'" "length (pe_txbuf p') = Suc n * l" "pe_tx_off p' = n * l - 1" "pe_calls p' = 2 * n"
    "pe_sends p' = slow_socket l"
    using Suc.IH by (simp_all add: p'_def l_def)
  have few: "length (pe_txbuf p') - pe_tx_off p' \<le> Suc l" using p' by (cases n) auto
  have "length (pe_txbuf (q n)) + length (frame_message cr cp c payload) - pe_tx_off (q n) \<le> Suc l"
    using p by (simp add: l_def [symmetric])
  also have "\<dots> \<le> 64 * 1024 * 1024" using l by simp
  finally have "send_peer cr cp c payload (q n) = flush_peer p'"
    unfolding p'_def using p l by (intro send_peer_appends) auto
  then have "q (Suc n) = flush_peer p'" by (simp add: q_def sends_def)
  also have "\<dots> = p'\<lparr>pe_tx_off := pe_tx_off p' + (if n = 0 then l - 1 else l), 
      pe_bout := pe_bout p' + of_nat (if n = 0 then l - 1 else l), pe_calls := pe_calls p' + 2\<rparr>"
  proof (rule flush_sends [OF p'(5)])
    show "pe_tx_off p' + (if n = 0 then l - 1 else l) < length (pe_txbuf p')"
    proof (cases n)
      case (Suc m)
      then have "0 < n * l" using l by simp
      then show ?thesis using p' Suc by simp
    qed (use p' l in simp)
  qed (use p' l few in \<open>auto simp: slow_socket_def\<close>)
  finally have e: "q (Suc n) = p'\<lparr>pe_tx_off := pe_tx_off p' + (if n = 0 then l - 1 else l), 
      pe_bout := pe_bout p' + of_nat (if n = 0 then l - 1 else l), pe_calls := pe_calls p' + 2\<rparr>" .
  have "pe_tx_off p' + (if n = 0 then l - 1 else l) = Suc n * l - 1"
  proof (cases n)
    case (Suc m)
    then have "0 < n * l" using l by simp
    then show ?thesis using p' Suc by simp
  qed (use p' in simp)
  with p' show ?case unfolding e by simp
qed (simp add: q_def sends_def new_peer_def)

end
