(* ===== verification/Bencode.thy ===== *)
theory Bencode
  imports Text "HOL-Library.Char_ord"
begin

text \<open>
  The values of the DHT protocol and their text form, the first part of \<open>src/src/net/dht.cpp\<close>. A \<open>std::map\<close> is a
  list in the order of its keys (\<open>put\<close> is its assignment), a position in the input is what is left of it.
\<close>

section \<open>Ordered maps\<close>

primrec put :: "'k :: linorder \<Rightarrow> 'v \<Rightarrow> ('k \<times> 'v) list \<Rightarrow> ('k \<times> 'v) list" where
  "put k x [] = [(k, x)]"
| "put k x (e # m) = (if k = fst e then (k, x) # m else if k < fst e then (k, x) # e # m else e # put k x m)"

definition ordered :: "('k :: linorder \<times> 'v) list \<Rightarrow> bool" where
  "ordered m \<longleftrightarrow> sorted_wrt (<) (map fst m)"

lemma put_keys [simp]: "fst ` set (put k x m) = insert k (fst ` set m)"
  by (induction m) auto

lemma put_set: "set (put k x m) \<subseteq> insert (k, x) (set m)"
  by (induction m) auto

lemma put_ordered [simp]: "ordered m \<Longrightarrow> ordered (put k x m)"
proof (induction m)
  case (Cons e m)
  from Cons.prems have m: "ordered m" "\<forall>j\<in>fst ` set m. fst e < j" by (simp_all add: ordered_def)
  have "\<forall>j\<in>fst ` set (put k x m). fst e < j" if "fst e < k" using m(2) that by simp
  then show ?case using Cons m by (auto simp: ordered_def)
qed (simp add: ordered_def)

lemma put_map_of: "ordered m \<Longrightarrow> map_of (put k x m) = (map_of m)(k \<mapsto> x)"
proof (induction m)
  case (Cons e m)
  then have m: "ordered m" "\<forall>j\<in>fst ` set m. fst e < j" by (simp_all add: ordered_def)
  show ?case
  proof (cases "k = fst e")
    case True
    then show ?thesis by (cases e) auto
  next
    case False
    then show ?thesis using Cons.IH [OF m(1)] by (cases e) (auto simp: fun_eq_iff)
  qed
qed simp

lemma put_snoc: "ordered (m @ [(k, x)]) \<Longrightarrow> put k x m = m @ [(k, x)]"
  by (induction m) (auto simp: ordered_def)

lemma put_length: "length (put k x m) \<le> Suc (length m)"
  by (induction m) simp_all

lemma ordered_distinct: "ordered m \<Longrightarrow> distinct (map fst m)"
  by (simp add: ordered_def strict_sorted_iff)

lemma ordered_tl [simp]: "ordered m \<Longrightarrow> ordered (tl m)"
  by (cases m) (simp_all add: ordered_def)

lemma ordered_filter: "ordered m \<Longrightarrow> ordered (filter P m)"
  by (induction m) (auto simp: ordered_def)

lemma ordered_delete [simp]: "ordered m \<Longrightarrow> ordered (AList.delete k m)"
  by (simp add: AList.delete_eq ordered_filter)

section \<open>Values\<close>

datatype bval = BInt int | BStr string | BList "bval list" | BDict "(string \<times> bval) list"

fun bget :: "string \<Rightarrow> bval \<Rightarrow> bval option" where
  "bget k (BDict d) = map_of d k"
| "bget k _ = None"

definition bstr :: "string \<Rightarrow> bval \<Rightarrow> string option" where
  "bstr k v = (case bget k v of Some (BStr s) \<Rightarrow> Some s | _ \<Rightarrow> None)"

definition bdict_of :: "(string \<times> bval) list \<Rightarrow> bval" where
  "bdict_of es = BDict (fold (\<lambda>(k, v). put k v) es [])"

section \<open>Writing\<close>

definition int_dec :: "int \<Rightarrow> string" where
  "int_dec i = (if i < 0 then ''-'' @ to_dec (nat (- i)) else to_dec (nat i))"

definition bstring :: "string \<Rightarrow> string" where
  "bstring s = to_dec (length s) @ '':'' @ s"

fun benc :: "bval \<Rightarrow> string" where
  "benc (BInt i) = ''i'' @ int_dec i @ ''e''"
| "benc (BStr s) = bstring s"
| "benc (BList l) = ''l'' @ concat (map benc l) @ ''e''"
| "benc (BDict d) = ''d'' @ concat (map (\<lambda>(k, x). bstring k @ benc x) d) @ ''e''"

section \<open>Reading\<close>

text \<open>\<open>std::stoll\<close>: white space, a sign, then digits as far as they go; no digits, or a number that does not fit, is an
  exception.\<close>

definition stoll :: "string \<Rightarrow> int option" where
  "stoll s =
     (let s = dropWhile is_space s;
          neg = (s \<noteq> [] \<and> hd s = CHR ''-'');
          s = (if s \<noteq> [] \<and> (hd s = CHR ''-'' \<or> hd s = CHR ''+'') then tl s else s);
          ds = takeWhile is_digit_char s;
          v = (if neg then - int (dec_val ds) else int (dec_val ds))
      in if ds = [] \<or> v < - (2 ^ 63) \<or> v \<ge> 2 ^ 63 then None else Some v)"

function (sequential) bdec :: "nat \<Rightarrow> string \<Rightarrow> (bval \<times> string) option"
  and bdec_list :: "nat \<Rightarrow> string \<Rightarrow> (bval list \<times> string) option"
  and bdec_dict :: "nat \<Rightarrow> string \<Rightarrow> (string \<times> bval) list \<Rightarrow> ((string \<times> bval) list \<times> string) option" where
  "bdec depth b =
     (if depth > 16 \<or> b = [] then None
      else if hd b = CHR ''i'' then
        (let t = takeWhile (\<lambda>c. c \<noteq> CHR ''e'') b in
         if length t = length b \<or> length t > 21 then None
         else (case stoll (tl t) of None \<Rightarrow> None | Some v \<Rightarrow> Some (BInt v, drop (length t + 1) b)))
      else if hd b = CHR ''l'' then (case bdec_list depth (tl b) of None \<Rightarrow> None | Some (l, r) \<Rightarrow> Some (BList l, r))
      else if hd b = CHR ''d'' then (case bdec_dict depth (tl b) [] of None \<Rightarrow> None | Some (d, r) \<Rightarrow> Some (BDict d, r))
      else if is_digit_char (hd b) then
        (let t = takeWhile (\<lambda>c. c \<noteq> CHR '':'') b; n = dec_val (takeWhile is_digit_char t); r = drop (length t + 1) b in
         if length t = length b \<or> length t > 8 then None
         else if n > length r then None
         else Some (BStr (take n r), drop n r))
      else None)"
| "bdec_list depth b =
     (if b = [] then None
      else if hd b = CHR ''e'' then Some ([], tl b)
      else
        (case bdec (depth + 1) b of
           None \<Rightarrow> None
         | Some (x, r) \<Rightarrow> (case bdec_list depth r of None \<Rightarrow> None | Some (l, r) \<Rightarrow> Some (x # l, r))))"
| "bdec_dict depth b d =
     (if b = [] then None
      else if hd b = CHR ''e'' then Some (d, tl b)
      else
        (case bdec (depth + 1) b of
           Some (BStr k, r) \<Rightarrow>
             (case bdec (depth + 1) r of None \<Rightarrow> None | Some (x, r) \<Rightarrow> bdec_dict depth r (put k x d))
         | _ \<Rightarrow> None))"
  by pat_completeness auto

text \<open>Whatever is read is taken from the input, so the loops end.\<close>

termination
proof -
  have shorter:
    "bdec_bdec_list_bdec_dict_dom (Inl (depth, b)) \<Longrightarrow> bdec depth b = Some (v, r) \<Longrightarrow> length r < length b"
    "bdec_bdec_list_bdec_dict_dom (Inr (Inl (depth', b'))) \<Longrightarrow> bdec_list depth' b' = Some (l, r') \<Longrightarrow> length r' < length b'"
    "bdec_bdec_list_bdec_dict_dom (Inr (Inr (depth'', b'', d))) \<Longrightarrow> bdec_dict depth'' b'' d = Some (d', r'') \<Longrightarrow> length r'' < length b''"
    for depth b v r depth' b' l r' depth'' b'' d d' r''
  proof (induction arbitrary: v r and l r' and d' r'' rule: bdec_bdec_list_bdec_dict.pinduct)
    case (1 depth b)
    note step = "1.prems" [unfolded bdec.psimps [OF "1.hyps"]]
    have tl: "length x < length (tl b) \<Longrightarrow> length x < length b" "b \<noteq> [] \<Longrightarrow> length b - Suc n < length b" for x :: string and n
      by (cases b; simp)+
    show ?case
      using step "1.IH"
      by (auto simp: Let_def split: if_splits option.splits prod.splits dest: tl intro: tl less_imp_diff_less)
  next
    case (2 depth b)
    note step = "2.prems" [unfolded bdec_list.psimps [OF "2.hyps"]]
    show ?case using step "2.IH" by (cases b) (force split: if_splits option.splits prod.splits)+
  next
    case (3 depth b d)
    note step = "3.prems" [unfolded bdec_dict.psimps [OF "3.hyps"]]
    show ?case using step "3.IH" by (cases b) (force split: if_splits option.splits prod.splits bval.splits)+
  qed
  show ?thesis
  proof (relation "measures [\<lambda>x. case x of Inl (n, b) \<Rightarrow> length b | Inr (Inl (n, b)) \<Rightarrow> length b | Inr (Inr (n, b, d)) \<Rightarrow> length b,
      \<lambda>x. case x of Inl _ \<Rightarrow> 0 | Inr _ \<Rightarrow> 1]", goal_cases)
    case 1
    then show ?case by simp
  qed (auto dest!: shorter(1))
qed

declare bdec.simps [simp del] bdec_list.simps [simp del] bdec_dict.simps [simp del]

section \<open>Round trip\<close>

text \<open>What the reader can take: integers of 64 bits, strings shorter than 10^8, keys in order, nesting of at most \<open>n\<close>.\<close>

fun bval_ok :: "nat \<Rightarrow> bval \<Rightarrow> bool" where
  "bval_ok n (BInt i) = (- (2 ^ 63) \<le> i \<and> i < 2 ^ 63)"
| "bval_ok n (BStr s) = (length s < 10 ^ 8)"
| "bval_ok n (BList l) = (l = [] \<or> 0 < n \<and> list_all (bval_ok (n - 1)) l)"
| "bval_ok n (BDict d) = (ordered d \<and> (d = [] \<or> 0 < n \<and> list_all (\<lambda>(k, x). length k < 10 ^ 8 \<and> bval_ok (n - 1) x) d))"

lemma digits_split: "list_all P ds \<Longrightarrow> \<not> P c \<Longrightarrow> takeWhile P (ds @ c # r) = ds"
  by (induction ds) simp_all

lemma until_split: "c \<notin> set ds \<Longrightarrow> takeWhile (\<lambda>x. x \<noteq> c) (ds @ c # r) = ds"
  by (induction ds) auto

lemma not_digit [simp]: "\<not> is_digit_char CHR '':''" "\<not> is_digit_char CHR ''e''" "\<not> is_digit_char CHR ''i''" "\<not> is_digit_char CHR ''l''"
  "\<not> is_digit_char CHR ''d''" "\<not> is_digit_char CHR ''-''" "\<not> is_space CHR ''-''"
  by code_simp+

lemma digit_not: "is_digit_char c \<Longrightarrow> \<not> is_space c \<and> c \<noteq> CHR '':'' \<and> c \<noteq> CHR ''e'' \<and> c \<noteq> CHR ''i'' \<and> c \<noteq> CHR ''l'' \<and> c \<noteq> CHR ''d'' \<and> c \<noteq> CHR ''-''
    \<and> c \<noteq> CHR ''+''"
proof -
  assume d: "is_digit_char c"
  moreover have "char_code CHR ''0'' = 48" "char_code CHR ''9'' = 57" "\<not> is_digit_char CHR ''+''" by code_simp+
  ultimately show ?thesis using not_digit by (auto simp: is_space_def is_digit_char_def)
qed

lemma to_dec_parts: "list_all is_digit_char (to_dec n)" "dec_val (to_dec n) = n" "to_dec n \<noteq> []" "is_digit_char (hd (to_dec n))"
  "is_digit_char x \<or> x \<notin> set (to_dec n)"
  using to_dec_ok [of n] by (auto simp: list_all_iff)

lemma stoll_int_dec:
  assumes "- (2 ^ 63) \<le> i" "i < 2 ^ 63"
  shows "stoll (int_dec i) = Some i"
proof -
  have sp: "dropWhile is_space (to_dec n @ r) = to_dec n @ r" for n r
    using to_dec_parts(3,4) [of n] digit_not by (cases "to_dec n") auto
  have h: "hd (to_dec n) \<noteq> CHR ''-''" "hd (to_dec n) \<noteq> CHR ''+''" for n using to_dec_parts(4) [of n] digit_not by blast+
  have t: "takeWhile is_digit_char (to_dec n) = to_dec n" for n using to_dec_parts(1) [of n] by (simp add: takeWhile_eq_all_conv list_all_iff)
  show ?thesis
    using assms sp [of "nat i" "[]"] h to_dec_parts(2,3) by (auto simp: stoll_def int_dec_def Let_def t)
qed

lemma length_int_dec:
  assumes "- (2 ^ 63) \<le> i" "i < 2 ^ 63"
  shows "length (int_dec i) \<le> 20" "CHR ''e'' \<notin> set (int_dec i)"
proof -
  have "length (to_dec (nat i)) \<le> 19" "length (to_dec (nat (- i))) \<le> 19" using assms by (auto intro!: length_to_dec)
  then show "length (int_dec i) \<le> 20" by (simp add: int_dec_def)
  show "CHR ''e'' \<notin> set (int_dec i)" using to_dec_parts(5) [of "CHR ''e''"] by (auto simp: int_dec_def)
qed

lemma bdec_string:
  assumes "length s < 10 ^ 8" "depth \<le> 16"
  shows "bdec depth (bstring s @ r) = Some (BStr s, r)"
proof -
  let ?n = "to_dec (length s)"
  have t: "takeWhile (\<lambda>c. c \<noteq> CHR '':'') (?n @ CHR '':'' # s @ r) = ?n"
    using to_dec_parts(5) [of "CHR '':''" "length s"] until_split by simp
  have d: "takeWhile is_digit_char ?n = ?n" using to_dec_parts(1) by (simp add: takeWhile_eq_all_conv list_all_iff)
  have l: "length ?n \<le> 8" by (rule length_to_dec) (use assms in simp_all)
  have h: "is_digit_char (hd (?n @ x))" "?n @ x \<noteq> []" for x using to_dec_parts(3,4) [of "length s"] by (cases ?n; simp)+
  show ?thesis
    using assms(2) h [of "CHR '':'' # s @ r"] digit_not [OF h(1)] t l
    by (subst bdec.simps) (simp add: bstring_def Let_def d to_dec_parts(2))
qed

lemma benc_head: "benc v @ r \<noteq> []" "hd (benc v @ r) \<noteq> CHR ''e''"
  using to_dec_parts(3,4) digit_not by (cases v; auto simp: bstring_def hd_append)+

lemma bdec_benc: "bval_ok n v \<Longrightarrow> depth + n \<le> 16 \<Longrightarrow> bdec depth (benc v @ r) = Some (v, r)"
proof (induction v arbitrary: n depth r)
  case (BInt i)
  then have i: "- (2 ^ 63) \<le> i" "i < 2 ^ 63" by simp_all
  have t: "takeWhile (\<lambda>c. c \<noteq> CHR ''e'') (int_dec i @ CHR ''e'' # r) = int_dec i"
    by (rule until_split [OF length_int_dec(2) [OF i]])
  show ?case
    using BInt.prems(2) length_int_dec(1) [OF i] t stoll_int_dec [OF i] by (subst bdec.simps) (simp add: Let_def)
next
  case (BStr s)
  then show ?case by (simp add: bdec_string)
next
  case (BList l)
  have "bdec_list depth (concat (map benc l') @ CHR ''e'' # r) = Some (l', r)" if "set l' \<subseteq> set l" for l'
    using that
  proof (induction l')
    case Nil
    show ?case by (simp add: bdec_list.simps)
  next
    case (Cons x l')
    have "bdec (depth + 1) (benc x @ concat (map benc l') @ CHR ''e'' # r) = Some (x, concat (map benc l') @ CHR ''e'' # r)"
      using BList.IH [of x "n - 1" "depth + 1"] BList.prems Cons.prems by (auto simp: list_all_iff)
    then show ?case using Cons benc_head [of x "concat (map benc l') @ CHR ''e'' # r"] by (subst bdec_list.simps) simp
  qed
  then show ?case using BList.prems by (subst bdec.simps) simp
next
  case (BDict d)
  have "bdec_dict depth (concat (map (\<lambda>(k, x). bstring k @ benc x) d') @ CHR ''e'' # r) m = Some (m @ d', r)" if "m @ d' = d" for m d'
    using that
  proof (induction d' arbitrary: m)
    case Nil
    then show ?case by (simp add: bdec_dict.simps)
  next
    case (Cons e d')
    obtain k x where e: "e = (k, x)" by force
    let ?r = "concat (map (\<lambda>(k, x). bstring k @ benc x) d') @ CHR ''e'' # r"
    have m: "(k, x) \<in> set d" using Cons.prems e by auto
    then have ok: "0 < n" "length k < 10 ^ 8" "bval_ok (n - 1) x" using BDict.prems by (auto simp: list_all_iff)
    have "bdec (depth + 1) (bstring k @ benc x @ ?r) = Some (BStr k, benc x @ ?r)"
      by (rule bdec_string) (use ok BDict.prems in simp_all)
    moreover have "bdec (depth + 1) (benc x @ ?r) = Some (x, ?r)"
      using BDict.IH [of "(k, x)" x "n - 1" "depth + 1"] m ok BDict.prems(2) by simp
    moreover have "ordered ((m @ [(k, x)]) @ d')" using BDict.prems Cons.prems e by auto
    then have "put k x m = m @ [(k, x)]" by (intro put_snoc) (simp add: ordered_def sorted_wrt_append)
    moreover have "bdec_dict depth ?r (m @ [(k, x)]) = Some (m @ e # d', r)" using Cons.IH [of "m @ [(k, x)]"] Cons.prems e by simp
    ultimately show ?case
      using benc_head [of "BStr k" "benc x @ ?r"] e by (subst bdec_dict.simps) simp
  qed
  from this [of "[]" d] show ?case using BDict.prems by (subst bdec.simps) simp
qed

end
