(* ===== verification/Dht.thy ===== *)
theory Dht
  imports Bencode Protocol
begin

text \<open>
  The client of the public DHT that finds peers (\<open>src/src/net/dht.h\<close>, \<open>dht.cpp\<close>). Datagrams that are sent, and the
  calls of \<open>on_peer\<close> and \<open>on_my_ip\<close>, are recorded in the state, the latest last. The clock, random bytes and the
  addresses of the public routers are arguments. A \<open>std::string\<close> of bytes is a \<open>string\<close>.
\<close>

section \<open>State\<close>

record dht_node =
  dn_id :: string
  dn_addr :: net_addr
  dn_last_seen :: int
  dn_fails :: int

record lookup_node =
  ln_id :: string
  ln_addr :: net_addr
  ln_queried :: bool
  ln_responded :: bool
  ln_token :: string

record dht =
  dh_infohash :: string
  dh_my_id :: string
  dh_announce_port :: u16
  dh_v6 :: bool
  dh_announce :: bool
  dh_open :: bool
  dh_nodes :: "(string \<times> dht_node) list"
  dh_lookup :: "(string \<times> lookup_node) list"
  dh_active :: bool
  dh_started :: int
  dh_last_lookup :: int
  dh_last_announce :: int
  dh_last_bootstrap :: int
  dh_next_tid :: u16
  dh_pending :: "(string \<times> bool) list"
  dh_found :: "net_addr list"
  dh_stored :: "net_addr list"
  dh_secret :: string
  dh_sent :: "(net_addr \<times> string) list"
  dh_peers :: "net_addr list"
  dh_my_ips :: "net_addr list"

section \<open>Addresses and distances\<close>

definition addr_len :: "bool \<Rightarrow> nat" where
  "addr_len v6 = (if v6 then 18 else 6)"

definition nodes_key :: "bool \<Rightarrow> string" where
  "nodes_key v6 = (if v6 then ''nodes6'' else ''nodes'')"

definition compact_addr :: "net_addr \<Rightarrow> bool \<Rightarrow> string" where
  "compact_addr a v6 =
     bytes_string ((if v6 then na_ip a else drop 12 (na_ip a)) @ [ucast (drop_bit 8 (na_port a)), ucast (na_port a)])"

text \<open>The address at the start of a string that is long enough.\<close>

definition parse_compact :: "string \<Rightarrow> bool \<Rightarrow> net_addr" where
  "parse_compact s v6 =
     (let b = string_bytes s;
          a = (if v6 then \<lparr>na_ip = take 16 b, na_port = 0\<rparr>
               else v4 (push_bit 24 (ucast (b ! 0)) OR push_bit 16 (ucast (b ! 1)) OR push_bit 8 (ucast (b ! 2)) OR ucast (b ! 3)) 0);
          b = drop (if v6 then 16 else 4) b
      in with_port a (push_bit 8 (ucast (b ! 0)) OR ucast (b ! 1)))"

text \<open>Strings of 20 bytes, compared byte by byte.\<close>

definition xor_dist :: "string \<Rightarrow> string \<Rightarrow> bytes" where
  "xor_dist a b = map2 (XOR) (take 20 (string_bytes a)) (take 20 (string_bytes b))"

definition token_for :: "crypto \<Rightarrow> net_addr \<Rightarrow> dht \<Rightarrow> string" where
  "token_for cr a s = bytes_string (take 8 (hash_bytes (blake3 cr (string_bytes (dh_secret s @ compact_addr a True)))))"

section \<open>Nodes\<close>

definition add_dht_node :: "int \<Rightarrow> string \<Rightarrow> net_addr \<Rightarrow> dht \<Rightarrow> dht" where
  "add_dht_node now i a s =
     (if length i \<noteq> 20 \<or> i = dh_my_id s \<or> \<not> routable a \<or> is_v4 a = dh_v6 s then s
      else
        (let nodes = put i \<lparr>dn_id = i, dn_addr = a, dn_last_seen = now, dn_fails = 0\<rparr> (dh_nodes s) in
         s\<lparr>dh_nodes :=
           (if length nodes > 1500
            then (case List.find (\<lambda>(j, n). dn_fails n > 0) nodes of Some (j, n) \<Rightarrow> AList.delete j nodes | None \<Rightarrow> tl nodes)
            else nodes)\<rparr>))"

definition closest :: "string \<Rightarrow> nat \<Rightarrow> dht \<Rightarrow> dht_node list" where
  "closest target n s =
     take n (sort_key (\<lambda>x. xor_dist (dn_id x) target) (filter (\<lambda>x. dn_fails x < 3) (map snd (dh_nodes s))))"

section \<open>Queries\<close>

definition query_arg :: "string \<Rightarrow> string \<Rightarrow> bval" where
  "query_arg k v =
     (if k = ''port'' \<or> k = ''implied_port'' then BInt (case stoll v of Some i \<Rightarrow> i | None \<Rightarrow> 0)
      else if k = ''want'' then BList [BStr v] else BStr v)"

definition tid_string :: "u16 \<Rightarrow> string" where
  "tid_string t = bytes_string [ucast (drop_bit 8 t), ucast t]"

definition send_query :: "net_addr \<Rightarrow> string \<Rightarrow> (string \<times> string) list \<Rightarrow> bool \<Rightarrow> dht \<Rightarrow> dht" where
  "send_query dst q args lookup s =
     (if \<not> dh_open s then s
      else
        (let t = tid_string (dh_next_tid s);
             a = bdict_of ((''id'', BStr (dh_my_id s)) # map (\<lambda>(k, v). (k, query_arg k v)) args);
             m = bdict_of [(''t'', BStr t), (''y'', BStr ''q''), (''q'', BStr q), (''a'', a)];
             pending = put t lookup (dh_pending s)
         in s\<lparr>dh_next_tid := dh_next_tid s + 1, dh_sent := dh_sent s @ [(dst, benc m)],
              dh_pending := (if length pending > 4000 then tl pending else pending)\<rparr>))"

definition want :: "dht \<Rightarrow> string" where
  "want s = (if dh_v6 s then ''n6'' else ''n4'')"

definition find_self :: "net_addr \<Rightarrow> dht \<Rightarrow> dht" where
  "find_self a s = send_query a ''find_node'' [(''target'', dh_my_id s), (''want'', want s)] False s"

definition bootstrap :: "int \<Rightarrow> net_addr list \<Rightarrow> dht \<Rightarrow> dht" where
  "bootstrap now routers s =
     (let s = fold find_self routers (s\<lparr>dh_last_bootstrap := now\<rparr>) in fold (\<lambda>n. find_self (dn_addr n)) (closest (dh_my_id s) 16 s) s)"

section \<open>Looking up the network's key\<close>

definition new_lookup_node :: "string \<Rightarrow> net_addr \<Rightarrow> lookup_node" where
  "new_lookup_node i a = \<lparr>ln_id = i, ln_addr = a, ln_queried = False, ln_responded = False, ln_token = []\<rparr>"

definition start_lookup :: "int \<Rightarrow> dht \<Rightarrow> dht" where
  "start_lookup now s =
     s\<lparr>dh_lookup := fold (\<lambda>n. put (dn_id n) (new_lookup_node (dn_id n) (dn_addr n))) (closest (dh_infohash s) 32 s) [],
       dh_active := True, dh_started := now, dh_last_lookup := now\<rparr>"

definition by_distance :: "dht \<Rightarrow> lookup_node list \<Rightarrow> lookup_node list" where
  "by_distance s v = sort_key (\<lambda>n. xor_dist (ln_id n) (dh_infohash s)) v"

definition announce_to :: "lookup_node \<Rightarrow> dht \<Rightarrow> dht" where
  "announce_to n s =
     send_query (ln_addr n) ''announce_peer''
       [(''info_hash'', dh_infohash s), (''port'', to_dec (unat (dh_announce_port s))), (''implied_port'', ''0''), (''token'', ln_token n)] False s"

definition finish_lookup :: "int \<Rightarrow> dht \<Rightarrow> dht" where
  "finish_lookup now s0 =
     (let s = s0\<lparr>dh_active := False\<rparr>;
          v = by_distance s (filter (\<lambda>n. ln_responded n \<and> ln_token n \<noteq> []) (map snd (dh_lookup s)));
          v = (if dh_announce s then take 8 v else []);
          s = fold announce_to v s;
          s = (if v = [] then s else s\<lparr>dh_last_announce := now\<rparr>)
      in s\<lparr>dh_lookup := []\<rparr>)"

text \<open>Of the 24 closest nodes, the first four that were not asked yet are asked.\<close>

definition ask_node :: "lookup_node \<Rightarrow> dht \<Rightarrow> dht" where
  "ask_node n s =
     send_query (ln_addr n) ''get_peers'' [(''info_hash'', dh_infohash s), (''want'', want s)] True
       (s\<lparr>dh_lookup := map (\<lambda>(i, x). if i = ln_id n then (i, x\<lparr>ln_queried := True\<rparr>) else (i, x)) (dh_lookup s)\<rparr>)"

definition step_lookup :: "int \<Rightarrow> dht \<Rightarrow> dht" where
  "step_lookup now s =
     (let v = by_distance s (map snd (dh_lookup s));
          s = fold ask_node (take 4 (filter (\<lambda>n. \<not> ln_queried n) (take 24 v))) s;
          open_close = list_ex (\<lambda>n. \<not> ln_queried n) (take 16 (by_distance s (map snd (dh_lookup s))))
      in if (\<not> open_close \<and> now - dh_started s > 4000) \<or> now - dh_started s > 25000 then finish_lookup now s else s)"

definition tick :: "int \<Rightarrow> net_addr list \<Rightarrow> dht \<Rightarrow> dht" where
  "tick now routers s =
     (if \<not> dh_open s then s
      else
        (let s = (if (length (dh_nodes s) < 30 \<and> now - dh_last_bootstrap s > 30000) \<or> dh_last_bootstrap s = 0
                  then bootstrap now routers s else s);
             interval = (if dh_found s = [] then 30000 else 10 * 60000);
             s = (if \<not> dh_active s \<and> length (dh_nodes s) \<ge> 8 \<and> now - dh_last_lookup s > interval then start_lookup now s else s)
         in if dh_active s then step_lookup now s else s))"

section \<open>Responses\<close>

text \<open>\<open>found_.insert\<close>, and the callback.\<close>

definition peer_found :: "net_addr \<Rightarrow> dht \<Rightarrow> dht" where
  "peer_found a s = s\<lparr>dh_found := List.insert a (dh_found s), dh_peers := dh_peers s @ [a]\<rparr>"

text \<open>The records of a list of nodes: 20 bytes of id and an address each.\<close>

function node_records :: "bool \<Rightarrow> string \<Rightarrow> (string \<times> net_addr) list" where
  "node_records v6 s =
     (if length s < 20 + addr_len v6 then []
      else (take 20 s, parse_compact (take (addr_len v6) (drop 20 s)) v6) # node_records v6 (drop (20 + addr_len v6) s))"
  by pat_completeness auto
termination
  by (relation "measure (\<lambda>(v6, s). length s)") auto

declare node_records.simps [simp del]

definition heard_of :: "int \<Rightarrow> bool \<Rightarrow> string \<times> net_addr \<Rightarrow> dht \<Rightarrow> dht" where
  "heard_of now is_lookup = (\<lambda>(i, a) s0.
     let s = add_dht_node now i a s0 in
     if is_lookup \<and> dh_active s \<and> routable a \<and> i \<noteq> dh_my_id s \<and> map_of (dh_lookup s) i = None
     then s\<lparr>dh_lookup := put i (new_lookup_node i a) (dh_lookup s)\<rparr> else s)"

definition peer_value :: "bval \<Rightarrow> dht \<Rightarrow> dht" where
  "peer_value v s =
     (case v of
        BStr b \<Rightarrow>
          if length b \<noteq> addr_len (dh_v6 s) then s
          else (let a = parse_compact b (dh_v6 s) in if na_port a = 0 then s else peer_found a s)
      | _ \<Rightarrow> s)"

definition lookup_answer :: "string \<Rightarrow> bval \<Rightarrow> dht \<Rightarrow> dht" where
  "lookup_answer i r s0 =
     (let s = (if map_of (dh_lookup s0) i = None then s0
               else s0\<lparr>dh_lookup := map (\<lambda>(j, x). if j = i
                      then (j, x\<lparr>ln_responded := True, ln_token := (case bstr ''token'' r of None \<Rightarrow> ln_token x | Some tok \<Rightarrow> tok)\<rparr>)
                      else (j, x)) (dh_lookup s0)\<rparr>)
      in case bget ''values'' r of Some (BList vals) \<Rightarrow> fold peer_value vals s | _ \<Rightarrow> s)"

definition take_response :: "int \<Rightarrow> bval \<Rightarrow> bool \<Rightarrow> string \<Rightarrow> bval \<Rightarrow> net_addr \<Rightarrow> dht \<Rightarrow> dht" where
  "take_response now m is_lookup i r sender s0 =
     (let s = add_dht_node now i sender s0;
          s = (case bstr ''ip'' m of
                 Some ip \<Rightarrow> if length ip = addr_len (dh_v6 s) then s\<lparr>dh_my_ips := dh_my_ips s @ [parse_compact ip (dh_v6 s)]\<rparr> else s
               | None \<Rightarrow> s);
          s = (case bstr (nodes_key (dh_v6 s)) r of
                 Some nodes \<Rightarrow> fold (heard_of now is_lookup) (node_records (dh_v6 s) nodes) s
               | None \<Rightarrow> s)
      in if is_lookup \<and> dh_active s then lookup_answer i r s else s)"

definition on_response :: "int \<Rightarrow> bval \<Rightarrow> string \<Rightarrow> net_addr \<Rightarrow> dht \<Rightarrow> dht" where
  "on_response now m t sender s =
     (case map_of (dh_pending s) t of
        None \<Rightarrow> s
      | Some is_lookup \<Rightarrow>
          (let s = s\<lparr>dh_pending := AList.delete t (dh_pending s)\<rparr> in
           case bget ''r'' m of
             None \<Rightarrow> s
           | Some r \<Rightarrow>
               (case bstr ''id'' r of
                  None \<Rightarrow> s
                | Some i \<Rightarrow> if length i \<noteq> 20 then s else take_response now m is_lookup i r sender s)))"

section \<open>Requests\<close>

definition nodes_for :: "string \<Rightarrow> dht \<Rightarrow> string" where
  "nodes_for target s = concat (map (\<lambda>n. dn_id n @ compact_addr (dn_addr n) (dh_v6 s)) (closest target 8 s))"

text \<open>Another node of the network announces itself.\<close>

definition store_peer :: "net_addr \<Rightarrow> dht \<Rightarrow> dht" where
  "store_peer p s =
     (if p \<in> set (dh_stored s) then s
      else (let v = dh_stored s @ [p] in s\<lparr>dh_stored := (if length v > 50 then tl v else v)\<rparr>))"

definition announced_addr :: "bval \<Rightarrow> net_addr \<Rightarrow> net_addr" where
  "announced_addr a sender =
     (let implied = (case bget ''implied_port'' a of Some (BInt i) \<Rightarrow> i \<noteq> 0 | _ \<Rightarrow> False) in
      case bget ''port'' a of Some (BInt p) \<Rightarrow> if implied then sender else with_port sender (word_of_int p) | _ \<Rightarrow> sender)"

text \<open>What is put into the answer, or \<open>None\<close> when there is none.\<close>

definition serve_query :: "crypto \<Rightarrow> string \<Rightarrow> bval \<Rightarrow> net_addr \<Rightarrow> dht \<Rightarrow> (string \<times> bval) list option \<times> dht" where
  "serve_query cr q a sender s =
     (if q = ''ping'' then (Some [], s)
      else if q = ''find_node'' then
        (case bstr ''target'' a of
           None \<Rightarrow> (None, s)
         | Some target \<Rightarrow> if length target \<noteq> 20 then (None, s) else (Some [(nodes_key (dh_v6 s), BStr (nodes_for target s))], s))
      else if q = ''get_peers'' then
        (case bstr ''info_hash'' a of
           None \<Rightarrow> (None, s)
         | Some ih \<Rightarrow>
             if length ih \<noteq> 20 then (None, s)
             else (Some [(''token'', BStr (token_for cr sender s)),
                         (if ih = dh_infohash s \<and> dh_stored s \<noteq> []
                          then (''values'', BList (map (\<lambda>p. BStr (compact_addr p (dh_v6 s))) (dh_stored s)))
                          else (nodes_key (dh_v6 s), BStr (nodes_for ih s)))], s))
      else if q = ''announce_peer'' then
        (case (bstr ''info_hash'' a, bstr ''token'' a) of
           (Some ih, Some tok) \<Rightarrow>
             if tok \<noteq> token_for cr sender s then (None, s)
             else if ih = dh_infohash s
             then (let p = announced_addr a sender in (Some [], peer_found p (store_peer p s)))
             else (Some [], s)
         | _ \<Rightarrow> (None, s))
      else (None, s))"

definition reply_bytes :: "string \<Rightarrow> (string \<times> bval) list \<Rightarrow> net_addr \<Rightarrow> dht \<Rightarrow> string" where
  "reply_bytes t r sender s =
     benc (bdict_of [(''t'', BStr t), (''y'', BStr ''r''), (''r'', bdict_of ((''id'', BStr (dh_my_id s)) # r)),
       (''ip'', BStr (compact_addr sender (dh_v6 s)))])"

definition on_query :: "crypto \<Rightarrow> int \<Rightarrow> bval \<Rightarrow> string \<Rightarrow> net_addr \<Rightarrow> dht \<Rightarrow> dht" where
  "on_query cr now m t sender s =
     (case (bstr ''q'' m, bget ''a'' m) of
        (Some q, Some a) \<Rightarrow>
          (case bstr ''id'' a of
             None \<Rightarrow> s
           | Some i \<Rightarrow>
               if length i \<noteq> 20 then s
               else
                 (case serve_query cr q a sender (add_dht_node now i sender s) of
                    (None, s) \<Rightarrow> s
                  | (Some r, s) \<Rightarrow> s\<lparr>dh_sent := dh_sent s @ [(sender, reply_bytes t r sender s)]\<rparr>))
      | _ \<Rightarrow> s)"

definition dht_handle :: "crypto \<Rightarrow> int \<Rightarrow> bval \<Rightarrow> net_addr \<Rightarrow> dht \<Rightarrow> dht" where
  "dht_handle cr now m sender s =
     (case (bstr ''y'' m, bstr ''t'' m) of
        (Some y, Some t) \<Rightarrow>
          if y = ''r'' then on_response now m t sender s else if y = ''q'' then on_query cr now m t sender s else s
      | _ \<Rightarrow> s)"

text \<open>One datagram; what is not a dictionary is dropped, what follows the value is ignored.\<close>

definition on_datagram :: "crypto \<Rightarrow> int \<Rightarrow> string \<times> net_addr \<Rightarrow> dht \<Rightarrow> dht" where
  "on_datagram cr now = (\<lambda>(b, sender) s.
     case bdec 0 b of Some (BDict d, r) \<Rightarrow> dht_handle cr now (BDict d) sender s | _ \<Rightarrow> s)"

text \<open>At most 64 datagrams of at most 2048 bytes; an empty one ends the reading.\<close>

definition on_readable :: "crypto \<Rightarrow> int \<Rightarrow> (string \<times> net_addr) list \<Rightarrow> dht \<Rightarrow> dht" where
  "on_readable cr now ds s =
     fold (on_datagram cr now) (takeWhile (\<lambda>(b, a). b \<noteq> []) (take 64 (map (\<lambda>(b, a). (take 2048 b, a)) ds))) s"

section \<open>The state file\<close>

definition write_node :: "dht_node \<Rightarrow> bytes" where
  "write_node n = string_bytes (dn_id n) @ na_ip (dn_addr n) @ w_u32le (ucast (na_port (dn_addr n)))"

definition dht_save :: "dht \<Rightarrow> bytes" where
  "dht_save s = string_bytes (dh_my_id s) @ w_counted write_node (take 300 (filter (\<lambda>n. dn_fails n = 0) (map snd (dh_nodes s))))"

definition read_node :: "(string \<times> net_addr) reader" where
  "read_node r =
     rbind (r_raw 20 r) (\<lambda>(i, r). rbind (r_raw 16 r) (\<lambda>(ip, r). rbind (r_u32le r) (\<lambda>(port, r).
       Inr ((bytes_string i, \<lparr>na_ip = ip, na_port = ucast port\<rparr>), r))))"

text \<open>Reading stops at the first error, and keeps what was read before it.\<close>

primrec read_nodes :: "int \<Rightarrow> nat \<Rightarrow> bytes \<Rightarrow> dht \<Rightarrow> dht" where
  "read_nodes now 0 r s = s"
| "read_nodes now (Suc n) r s = (case read_node r of Inl e \<Rightarrow> s | Inr ((i, a), r) \<Rightarrow> read_nodes now n r (add_dht_node now i a s))"

definition dht_load :: "int \<Rightarrow> bytes \<Rightarrow> dht \<Rightarrow> dht" where
  "dht_load now file s =
     (case r_raw 20 (take 65536 file) of
        Inl e \<Rightarrow> s
      | Inr (i, r) \<Rightarrow>
          (let s = s\<lparr>dh_my_id := bytes_string i\<rparr> in
           case r_varint_max 1000 r of Inl e \<Rightarrow> s | Inr (n, r) \<Rightarrow> read_nodes now (unat n) r s))"

definition Dht_new :: "string \<Rightarrow> u16 \<Rightarrow> bool \<Rightarrow> hash256 \<Rightarrow> hash256 \<Rightarrow> int \<Rightarrow> bytes option \<Rightarrow> dht" where
  "Dht_new infohash port v6 rnd rnd' now file =
     (let s = \<lparr>dh_infohash = infohash, dh_my_id = bytes_string (take 20 (hash_bytes rnd)), dh_announce_port = port, dh_v6 = v6,
            dh_announce = True, dh_open = False, dh_nodes = [], dh_lookup = [], dh_active = False, dh_started = 0, dh_last_lookup = 0,
            dh_last_announce = 0, dh_last_bootstrap = 0, dh_next_tid = 1, dh_pending = [], dh_found = [], dh_stored = [],
            dh_secret = bytes_string (hash_bytes rnd'), dh_sent = [], dh_peers = [], dh_my_ips = []\<rparr>
      in case file of None \<Rightarrow> s | Some b \<Rightarrow> dht_load now b s)"

end
