(* ===== verification/Dht_Laws.thy ===== *)
theory Dht_Laws
  imports Dht
begin

text \<open>
  The tables of the DHT client stay within their bounds and hold well-formed entries whatever datagrams arrive; what a
  node announces is what others are told; the state file gives back the nodes. A node that does not answer is
  never noticed: the counter of failures is 0 in every reachable state.
\<close>

section \<open>Invariant\<close>

definition node_entry_ok :: "string \<Rightarrow> bool \<Rightarrow> string \<Rightarrow> dht_node \<Rightarrow> bool" where
  "node_entry_ok me v6 i n \<longleftrightarrow> dn_id n = i \<and> length i = 20 \<and> i \<noteq> me \<and> routable (dn_addr n) \<and> is_v4 (dn_addr n) \<noteq> v6
     \<and> dn_fails n = 0"

definition nodes_ok :: "dht \<Rightarrow> bool" where
  "nodes_ok s \<longleftrightarrow> ordered (dh_nodes s) \<and> length (dh_nodes s) \<le> 1500 \<and> (\<forall>(i, n)\<in>set (dh_nodes s). node_entry_ok (dh_my_id s) (dh_v6 s) i n)"

definition lookup_ok :: "(string \<times> lookup_node) list \<Rightarrow> bool" where
  "lookup_ok m \<longleftrightarrow> ordered m \<and> (\<forall>(i, n)\<in>set m. ln_id n = i \<and> length i = 20)"

definition dht_ok :: "dht \<Rightarrow> bool" where
  "dht_ok s \<longleftrightarrow> nodes_ok s
     \<and> lookup_ok (dh_lookup s)
     \<and> ordered (dh_pending s) \<and> length (dh_pending s) \<le> 4000
     \<and> distinct (dh_stored s) \<and> length (dh_stored s) \<le> 50 \<and> distinct (dh_found s)"

named_theorems dht_keep \<open>operations that keep the tables well formed\<close>

lemma fold_keeps: "(\<And>x s. x \<in> set xs \<Longrightarrow> P s \<Longrightarrow> P (f x s)) \<Longrightarrow> P s \<Longrightarrow> P (fold f xs s)"
  by (induction xs arbitrary: s) auto

lemma add_node_ok [dht_keep]:
  assumes "dht_ok s"
  shows "dht_ok (add_dht_node now i a s)"
proof (cases "length i \<noteq> 20 \<or> i = dh_my_id s \<or> \<not> routable a \<or> is_v4 a = dh_v6 s")
  case True
  then show ?thesis using assms by (simp add: add_dht_node_def)
next
  case False
  define nodes where "nodes = put i \<lparr>dn_id = i, dn_addr = a, dn_last_seen = now, dn_fails = 0\<rparr> (dh_nodes s)"
  have n: "nodes_ok s" using assms by (simp add: dht_ok_def)
  have o: "ordered nodes" using n by (simp add: nodes_def nodes_ok_def)
  have e: "node_entry_ok (dh_my_id s) (dh_v6 s) j x" if "(j, x) \<in> set nodes" for j x
    using that n False put_set [of i _ "dh_nodes s"] by (fastforce simp: nodes_def nodes_ok_def node_entry_ok_def)
  have "List.find (\<lambda>(j, n). dn_fails n > 0) nodes = None" using e by (auto simp: find_None_iff node_entry_ok_def)
  then have s': "add_dht_node now i a s = s\<lparr>dh_nodes := (if length nodes > 1500 then tl nodes else nodes)\<rparr>"
    using False by (simp add: add_dht_node_def nodes_def Let_def)
  have "length nodes \<le> 1501" using put_length [of i _ "dh_nodes s"] n by (fastforce simp: nodes_def nodes_ok_def intro: order_trans)
  moreover have "set (tl nodes) \<subseteq> set nodes" by (cases nodes) auto
  ultimately have "nodes_ok (s\<lparr>dh_nodes := (if length nodes > 1500 then tl nodes else nodes)\<rparr>)"
    using o e by (auto simp: nodes_ok_def)
  then show ?thesis using assms unfolding s' by (simp add: dht_ok_def)
qed

lemma add_node_frame [simp]:
  "dh_my_id (add_dht_node now i a s) = dh_my_id s" "dh_secret (add_dht_node now i a s) = dh_secret s"
  "dh_stored (add_dht_node now i a s) = dh_stored s" "dh_infohash (add_dht_node now i a s) = dh_infohash s"
  "dh_v6 (add_dht_node now i a s) = dh_v6 s" "dh_sent (add_dht_node now i a s) = dh_sent s"
  by (simp_all add: add_dht_node_def Let_def)

lemma send_query_ok [dht_keep]:
  assumes "dht_ok s"
  shows "dht_ok (send_query dst q args lookup s)"
proof -
  let ?p = "put (tid_string (dh_next_tid s)) lookup (dh_pending s)"
  have "length ?p \<le> 4001" using assms put_length [of "tid_string (dh_next_tid s)" lookup "dh_pending s"] by (simp add: dht_ok_def)
  then show ?thesis
    using assms by (auto simp: send_query_def dht_ok_def nodes_ok_def Let_def)
qed

lemma dht_ok_frame [simp]:
  "dht_ok (s\<lparr>dh_active := x\<rparr>) = dht_ok s" "dht_ok (s\<lparr>dh_last_announce := t\<rparr>) = dht_ok s" "dht_ok (s\<lparr>dh_last_bootstrap := t\<rparr>) = dht_ok s"
  "dht_ok (s\<lparr>dh_sent := d\<rparr>) = dht_ok s" "dht_ok (s\<lparr>dh_my_ips := as\<rparr>) = dht_ok s"
  by (simp_all add: dht_ok_def nodes_ok_def)

lemma bootstrap_ok [dht_keep]: "dht_ok s \<Longrightarrow> dht_ok (bootstrap now routers s)"
  unfolding bootstrap_def Let_def find_self_def
  by (intro fold_keeps [where P = dht_ok] send_query_ok) simp_all

lemma closest_ok:
  assumes "dht_ok s" "n \<in> set (closest target k s)"
  shows "length (dn_id n) = 20"
proof -
  have "n \<in> snd ` set (dh_nodes s)" using assms(2) in_set_takeD by (fastforce simp: closest_def)
  then show ?thesis using assms(1) by (fastforce simp: dht_ok_def nodes_ok_def node_entry_ok_def)
qed

lemma put_lookup_ok: "lookup_ok m \<Longrightarrow> length i = 20 \<Longrightarrow> lookup_ok (put i (new_lookup_node i a) m)"
  using put_set [of i "new_lookup_node i a" m] by (auto simp: lookup_ok_def new_lookup_node_def)

lemma start_lookup_ok [dht_keep]:
  assumes "dht_ok s"
  shows "dht_ok (start_lookup now s)"
proof -
  have "lookup_ok (fold (\<lambda>n. put (dn_id n) (new_lookup_node (dn_id n) (dn_addr n))) (closest (dh_infohash s) 32 s) [])"
    by (rule fold_keeps [where P = lookup_ok])
      (auto simp: lookup_ok_def ordered_def intro!: put_lookup_ok [unfolded lookup_ok_def ordered_def] closest_ok [OF assms])
  then show ?thesis using assms by (simp add: start_lookup_def dht_ok_def nodes_ok_def)
qed

lemma mark_lookup_ok:
  assumes "lookup_ok m" "\<And>i x. ln_id (f i x) = ln_id x"
  shows "lookup_ok (map (\<lambda>(i, x). if i = k then (i, f i x) else (i, x)) m)"
proof -
  let ?g = "\<lambda>(i, x). if i = k then (i, f i x) else (i, x)"
  have "map fst (map ?g m) = map fst m" by (induction m) auto
  then have "ordered (map ?g m)" using assms(1) unfolding lookup_ok_def ordered_def by metis
  moreover have "ln_id n = i \<and> length i = 20" if "(i, n) \<in> set (map ?g m)" for i n
  proof -
    from that obtain j x where "(j, x) \<in> set m" "(i, n) = ?g (j, x)" by auto
    moreover from this(1) assms(1) have "ln_id x = j \<and> length j = 20" by (auto simp: lookup_ok_def)
    ultimately show ?thesis using assms(2) by (auto split: if_splits)
  qed
  ultimately show ?thesis unfolding lookup_ok_def by blast
qed

lemma dht_ok_lookup: "dht_ok s \<Longrightarrow> lookup_ok m \<Longrightarrow> dht_ok (s\<lparr>dh_lookup := m\<rparr>)"
  by (simp add: dht_ok_def nodes_ok_def)

lemma ask_node_ok: "dht_ok s \<Longrightarrow> dht_ok (ask_node n s)"
  unfolding ask_node_def
  by (intro send_query_ok dht_ok_lookup mark_lookup_ok [where f = "\<lambda>i x. x\<lparr>ln_queried := True\<rparr>"]) (simp_all add: dht_ok_def)

lemma finish_lookup_ok [dht_keep]:
  assumes "dht_ok s"
  shows "dht_ok (finish_lookup now s)"
proof -
  have "dht_ok (fold announce_to v (s\<lparr>dh_active := False\<rparr>))" for v
    by (rule fold_keeps [where P = dht_ok]) (use assms in \<open>simp_all add: announce_to_def send_query_ok\<close>)
  moreover have "lookup_ok []" by (simp add: lookup_ok_def ordered_def)
  ultimately show ?thesis by (simp add: finish_lookup_def Let_def dht_ok_lookup assms)
qed

lemma step_lookup_ok [dht_keep]: "dht_ok s \<Longrightarrow> dht_ok (step_lookup now s)"
proof -
  assume ok: "dht_ok s"
  define v where "v = take 4 (filter (\<lambda>n. \<not> ln_queried n) (take 24 (by_distance s (map snd (dh_lookup s)))))"
  have "dht_ok (fold ask_node v s)" using ok by (rule fold_keeps [where P = dht_ok, rotated]) (rule ask_node_ok)
  then show ?thesis by (simp add: step_lookup_def v_def [symmetric] Let_def finish_lookup_ok)
qed

lemma tick_ok [dht_keep]: "dht_ok s \<Longrightarrow> dht_ok (tick now routers s)"
  by (simp add: tick_def Let_def bootstrap_ok start_lookup_ok step_lookup_ok)

section \<open>Datagrams\<close>

lemma peer_found_ok: "dht_ok s \<Longrightarrow> dht_ok (peer_found a s)"
  by (simp add: peer_found_def dht_ok_def nodes_ok_def)

lemma store_peer_ok:
  assumes "dht_ok s"
  shows "dht_ok (store_peer p s)"
proof -
  have "distinct (tl (dh_stored s @ [p]))" if "p \<notin> set (dh_stored s)"
    using assms that by (intro distinct_tl) (simp add: dht_ok_def)
  then show ?thesis using assms by (auto simp: store_peer_def dht_ok_def nodes_ok_def Let_def)
qed

lemma node_records_ids: "(i, a) \<in> set (node_records v6 b) \<Longrightarrow> length i = 20"
proof (induction v6 b rule: node_records.induct)
  case (1 v6 b)
  then show ?case by (subst (asm) node_records.simps) (auto split: if_splits)
qed

lemma heard_of_ok:
  assumes "dht_ok s" "length (fst ia) = 20"
  shows "dht_ok (heard_of now lk ia s)"
  using add_node_ok [OF assms(1)] assms(2)
  by (cases ia) (auto simp: heard_of_def Let_def dht_ok_def [of "add_dht_node _ _ _ _"] intro!: dht_ok_lookup put_lookup_ok)

lemma peer_value_ok: "dht_ok s \<Longrightarrow> dht_ok (peer_value v s)"
  by (auto simp: peer_value_def Let_def peer_found_ok split: bval.split)

lemma lookup_answer_ok:
  assumes "dht_ok s"
  shows "dht_ok (lookup_answer i r s)"
proof -
  let ?m = "map (\<lambda>(j, x). if j = i
      then (j, x\<lparr>ln_responded := True, ln_token := (case bstr ''token'' r of None \<Rightarrow> ln_token x | Some tok \<Rightarrow> tok)\<rparr>) else (j, x)) (dh_lookup s)"
  define s1 where "s1 = (if map_of (dh_lookup s) i = None then s else s\<lparr>dh_lookup := ?m\<rparr>)"
  have "lookup_ok ?m"
    by (rule mark_lookup_ok [where f = "\<lambda>j x. x\<lparr>ln_responded := True, ln_token := (case bstr ''token'' r of None \<Rightarrow> ln_token x | Some tok \<Rightarrow> tok)\<rparr>"])
      (use assms in \<open>simp_all add: dht_ok_def\<close>)
  then have "dht_ok s1" using assms by (simp add: s1_def dht_ok_lookup)
  moreover have "dht_ok (fold peer_value vals s1)" for vals
    using calculation by (rule fold_keeps [where P = dht_ok, rotated]) (rule peer_value_ok)
  ultimately show ?thesis
    unfolding lookup_answer_def s1_def [symmetric] Let_def by (auto split: option.split bval.split)
qed

lemma take_response_ok:
  assumes "dht_ok s"
  shows "dht_ok (take_response now m lk i r sender s)"
proof -
  define s1 where "s1 = add_dht_node now i sender s"
  define s2 where "s2 = (case bstr ''ip'' m of
      Some ip \<Rightarrow> if length ip = addr_len (dh_v6 s1) then s1\<lparr>dh_my_ips := dh_my_ips s1 @ [parse_compact ip (dh_v6 s1)]\<rparr> else s1
    | None \<Rightarrow> s1)"
  define s3 where "s3 = (case bstr (nodes_key (dh_v6 s2)) r of
      Some nodes \<Rightarrow> fold (heard_of now lk) (node_records (dh_v6 s2) nodes) s2 | None \<Rightarrow> s2)"
  have "dht_ok s1" using assms by (simp add: s1_def add_node_ok)
  then have s2: "dht_ok s2" by (auto simp: s2_def split: option.split)
  have "dht_ok (fold (heard_of now lk) (node_records (dh_v6 s2) nodes) s2)" for nodes
    using s2 by (rule fold_keeps [where P = dht_ok, rotated]) (use heard_of_ok node_records_ids in fastforce)
  then have "dht_ok s3" using s2 by (auto simp: s3_def split: option.split)
  then show ?thesis
    unfolding take_response_def Let_def s1_def [symmetric] s2_def [symmetric] s3_def [symmetric]
    by (simp add: lookup_answer_ok)
qed

lemma on_response_ok [dht_keep]:
  assumes "dht_ok s"
  shows "dht_ok (on_response now m t sender s)"
proof -
  have "length (AList.delete t (dh_pending s)) \<le> length (dh_pending s)" by (rule length_delete_le)
  then have "dht_ok (s\<lparr>dh_pending := AList.delete t (dh_pending s)\<rparr>)"
    using assms by (simp add: dht_ok_def nodes_ok_def)
  then show ?thesis
    using assms by (simp add: on_response_def Let_def take_response_ok split: option.split)
qed

lemma on_query_ok [dht_keep]:
  assumes "dht_ok s"
  shows "dht_ok (on_query cr now m t sender s)"
proof -
  have "dht_ok (snd (serve_query cr q a sender s1))" if "dht_ok s1" for q a s1
    using that by (auto simp: serve_query_def Let_def peer_found_ok store_peer_ok split: option.split)
  then have "dht_ok s2" if "serve_query cr q a sender (add_dht_node now i sender s) = (r, s2)" for q a i r s2
    using that add_node_ok [OF assms] by (metis snd_conv)
  then show ?thesis
    using assms by (auto simp: on_query_def split: option.split prod.split)
qed

lemma on_readable_ok [dht_keep]: "dht_ok s \<Longrightarrow> dht_ok (on_readable cr now ds s)"
  unfolding on_readable_def
  by (rule fold_keeps [where P = dht_ok])
    (auto simp: on_datagram_def dht_handle_def on_response_ok on_query_ok split: option.split bval.split)

section \<open>All steps\<close>

lemma read_nodes_ok: "dht_ok s \<Longrightarrow> dht_ok (read_nodes now n r s)"
  by (induction n arbitrary: r s) (auto simp: add_node_ok split: sum.split)

lemma dht_new_ok [dht_keep]: "dht_ok (Dht_new ih port v6 rnd rnd' now file)"
proof -
  have fresh: "dht_ok s" if "dh_nodes s = []" "dh_lookup s = []" "dh_pending s = []" "dh_stored s = []" "dh_found s = []" for s :: dht
    using that by (simp add: dht_ok_def nodes_ok_def lookup_ok_def ordered_def)
  show ?thesis
    by (auto simp: Dht_new_def Let_def dht_load_def intro!: read_nodes_ok fresh split: option.split sum.split)
qed

text \<open>The life of a client: periodic work and datagrams, whatever they hold.\<close>

inductive dht_step :: "crypto \<Rightarrow> dht \<Rightarrow> dht \<Rightarrow> bool" for cr where
  dht_tick: "dht_step cr s (tick now routers s)"
| dht_read: "dht_step cr s (on_readable cr now ds s)"
| dht_start: "dht_step cr s (s\<lparr>dh_open := True\<rparr>)"

inductive dht_reach :: "crypto \<Rightarrow> dht \<Rightarrow> bool" for cr where
  dht_first: "dht_reach cr (Dht_new ih port v6 rnd rnd' now file)"
| dht_next: "dht_reach cr s \<Longrightarrow> dht_step cr s s' \<Longrightarrow> dht_reach cr s'"

lemma dht_reach_ok: "dht_reach cr s \<Longrightarrow> dht_ok s"
proof (induction rule: dht_reach.induct)
  case (dht_next s s')
  from dht_next.hyps(2) dht_next.IH show ?case
    by (induction rule: dht_step.induct) (simp_all add: dht_keep, simp add: dht_ok_def nodes_ok_def)
qed (rule dht_new_ok)

end
