(* ===== verification/Dht_Meet.thy ===== *)
theory Dht_Meet
  imports Dht_Laws
begin

text \<open>
  Two clients that have never heard of each other meet through a third: what one announces to it, the other is told.
  The three run the code of \<open>src/src/net/dht.cpp\<close>; the messages are the datagrams they really send.
\<close>

section \<open>Messages\<close>

lemma map_of_puts: "ordered m \<Longrightarrow> map_of (fold (\<lambda>(k, v). put k v) es m) = map_of m ++ map_of (rev es)"
proof (induction es arbitrary: m)
  case (Cons e es)
  obtain k v where e: "e = (k, v)" by force
  from Cons.IH [of "put k v m"] Cons.prems show ?case
    by (simp add: e put_map_of map_add_def fun_eq_iff split: option.split)
qed simp

lemma bget_bdict_of [simp]: "bget k (bdict_of es) = map_of (rev es) k"
  using map_of_puts [of "[]" es] by (simp add: bdict_of_def ordered_def)

lemma bstr_bdict_of [simp]: "bstr k (bdict_of es) = (case map_of (rev es) k of Some (BStr s) \<Rightarrow> Some s | _ \<Rightarrow> None)"
  by (simp add: bstr_def)

lemma bdict_of_ok:
  assumes "0 < n" "\<And>k x. (k, x) \<in> set es \<Longrightarrow> length k < 10 ^ 8 \<and> bval_ok (n - 1) x"
  shows "bval_ok n (bdict_of es)"
proof -
  have "ordered (fold (\<lambda>(k, v). put k v) es m) \<and> set (fold (\<lambda>(k, v). put k v) es m) \<subseteq> set m \<union> set es" if "ordered m" for m
    using that
  proof (induction es arbitrary: m)
    case (Cons e es)
    obtain k v where e: "e = (k, v)" by force
    show ?case using Cons.IH [of "put k v m"] Cons.prems put_set [of k v m] by (auto simp: e)
  qed simp
  from this [of "[]"] have "ordered (fold (\<lambda>(k, v). put k v) es [])" "set (fold (\<lambda>(k, v). put k v) es []) \<subseteq> set es"
    by (simp_all add: ordered_def)
  then show ?thesis using assms by (auto simp: bdict_of_def list_all_iff)
qed

lemma on_datagram_dict:
  assumes "bval_ok 16 (bdict_of es)"
  shows "on_datagram cr now (benc (bdict_of es), sender) s = dht_handle cr now (bdict_of es) sender s"
  using bdec_benc [OF assms, of 0 "[]"] by (simp add: on_datagram_def bdict_of_def)

lemma parse_compact_addr:
  assumes "addr_ok a" "v6 \<or> is_v4 a"
  shows "parse_compact (compact_addr a v6) v6 = a" "length (compact_addr a v6) = addr_len v6"
proof -
  have l: "length (na_ip a) = 16" using assms(1) by (simp add: addr_ok_def)
  show "length (compact_addr a v6) = addr_len v6" using l by (simp add: compact_addr_def addr_len_def bytes_string_def)
  show "parse_compact (compact_addr a v6) v6 = a"
  proof (cases v6)
    case True
    then show ?thesis using l by (simp add: parse_compact_def compact_addr_def Let_def with_port_def port_bytes nth_append)
  next
    case False
    define q where "q = drop 12 (na_ip a)"
    have "length q = Suc (Suc (Suc (Suc 0)))" using l by (simp add: q_def)
    then obtain b0 b1 b2 b3 where q: "q = [b0, b1, b2, b3]" by (auto simp only: length_Suc_conv length_0_conv)
    have ip: "na_ip a = V4_PREFIX @ [b0, b1, b2, b3]"
      using assms(2) False q append_take_drop_id [of 12 "na_ip a"] unfolding is_v4_def q_def by metis
    let ?w = "push_bit 24 (ucast b0) OR push_bit 16 (ucast b1) OR push_bit 8 (ucast b2) OR ucast b3 :: u32"
    have "(ucast (drop_bit 24 ?w) :: u8) = b0" "(ucast (drop_bit 16 ?w) :: u8) = b1" "(ucast (drop_bit 8 ?w) :: u8) = b2" "(ucast ?w :: u8) = b3"
      by (rule bit_word_eqI, auto simp: bit_or_iff bit_push_bit_iff bit_ucast_iff bit_drop_bit_eq dest: bit_imp_le_length)+
    moreover have "drop 12 (na_ip a) = [b0, b1, b2, b3]" using q by (simp add: q_def)
    ultimately show ?thesis
      using False ip by (cases a) (simp add: parse_compact_def compact_addr_def Let_def with_port_def port_bytes v4_def del: drop_bit_or)
  qed
qed

section \<open>Announcing\<close>

lemma store_peer_in: "p \<in> set (dh_stored (store_peer p s))"
proof (cases "dh_stored s")
  case (Cons a v)
  then show ?thesis by (simp add: store_peer_def Let_def)
qed (simp add: store_peer_def)

lemma port_bounds: "- (2 ^ 63) \<le> uint (p :: u16)" "uint (p :: u16) < 2 ^ 63"
proof -
  have "uint p < 65536" "0 \<le> uint p" using unsigned_less [of p, where ?'a = int] by simp_all
  then show "- (2 ^ 63) \<le> uint p" "uint p < 2 ^ 63" by (auto intro: order_trans [of _ 0])
qed

lemma stoll_dec: "stoll (to_dec (unat (p :: u16))) = Some (int (unat p))" "stoll ''0'' = Some 0"
proof -
  show "stoll (to_dec (unat p)) = Some (int (unat p))" using stoll_int_dec [OF port_bounds, of p] by (simp add: int_dec_def nat_uint_eq)
  show "stoll ''0'' = Some 0" by code_simp
qed

lemma token_length: "length (token_for cr a s) = 8"
  by (simp add: token_for_def bytes_string_def)

lemma infohash_kept [simp]: "token_for cr a (add_dht_node now i b s) = token_for cr a s"
  by (simp add: token_for_def)

text \<open>A client that was given the token of a node announces itself there.\<close>

lemma announce_arrives:
  assumes "dh_open sa" "length (dh_my_id sa) = 20" "dh_infohash sb = dh_infohash sa" "length (dh_infohash sa) = 20"
    and "ln_token n = token_for cr addr sb"
  obtains b where "dh_sent (announce_to n sa) = dh_sent sa @ [(ln_addr n, b)]"
    "dh_stored (on_datagram cr now (b, addr) sb) = dh_stored (store_peer (with_port addr (dh_announce_port sa)) sb)"
    "dh_my_id (on_datagram cr now (b, addr) sb) = dh_my_id sb" "dh_infohash (on_datagram cr now (b, addr) sb) = dh_infohash sb"
    "dh_v6 (on_datagram cr now (b, addr) sb) = dh_v6 sb"
proof -
  define t where "t = tid_string (dh_next_tid sa)"
  define es where "es = [(''id'', BStr (dh_my_id sa)), (''info_hash'', BStr (dh_infohash sa)), (''port'', BInt (int (unat (dh_announce_port sa)))),
    (''implied_port'', BInt 0), (''token'', BStr (ln_token n))]"
  define m where "m = [(''t'', BStr t), (''y'', BStr ''q''), (''q'', BStr ''announce_peer''), (''a'', bdict_of es)]"
  have sent: "dh_sent (announce_to n sa) = dh_sent sa @ [(ln_addr n, benc (bdict_of m))]"
    using assms(1) by (simp add: announce_to_def send_query_def Let_def m_def es_def t_def query_arg_def stoll_dec)
  have "bval_ok 15 (bdict_of es)"
    by (intro bdict_of_ok) (use assms token_length [of cr addr sb] port_bounds [of "dh_announce_port sa"] in \<open>auto simp: es_def\<close>)
  then have "bval_ok 16 (bdict_of m)"
    by (intro bdict_of_ok) (auto simp: m_def t_def tid_string_def bytes_string_def)
  note d = on_datagram_dict [OF this, of cr now addr sb]
  define s1 where "s1 = add_dht_node now (dh_my_id sa) addr sb"
  have a: "announced_addr (bdict_of es) addr = with_port addr (dh_announce_port sa)"
    by (simp add: announced_addr_def es_def)
  have "serve_query cr ''announce_peer'' (bdict_of es) addr s1 =
      (Some [], peer_found (announced_addr (bdict_of es) addr) (store_peer (announced_addr (bdict_of es) addr) s1))"
    using assms(3,5) by (simp add: serve_query_def es_def s1_def Let_def)
  then obtain x where "on_query cr now (bdict_of m) t addr sb = (peer_found (with_port addr (dh_announce_port sa))
      (store_peer (with_port addr (dh_announce_port sa)) s1))\<lparr>dh_sent := x\<rparr>"
    using assms(2) by (simp add: on_query_def m_def es_def [symmetric] s1_def [symmetric] a) (simp add: es_def s1_def [symmetric])
  then have o: "on_datagram cr now (benc (bdict_of m), addr) sb = (peer_found (with_port addr (dh_announce_port sa))
      (store_peer (with_port addr (dh_announce_port sa)) s1))\<lparr>dh_sent := x\<rparr>"
    unfolding d by (simp add: dht_handle_def m_def)
  show thesis
    by (rule that [OF sent]) (simp_all add: o peer_found_def store_peer_def s1_def Let_def)
qed

section \<open>Asking\<close>

lemma ask_frame [simp]:
  "dh_v6 (heard_of now lk ia s) = dh_v6 s" "dh_active (heard_of now lk ia s) = dh_active s" "dh_active (add_dht_node now i a s) = dh_active s"
  "dh_found (heard_of now lk ia s) = dh_found s" "dh_found (add_dht_node now i a s) = dh_found s"
  by (auto simp: heard_of_def add_dht_node_def Let_def split: prod.split)

lemma peer_value_frame [simp]: "dh_v6 (peer_value v s) = dh_v6 s"
  by (auto simp: peer_value_def peer_found_def Let_def split: bval.split)

lemma peer_value_mono: "set (dh_found s) \<subseteq> set (dh_found (peer_value v s))"
  by (auto simp: peer_value_def peer_found_def Let_def split: bval.split)

lemma peer_values_found:
  assumes "p \<in> set ps" "addr_ok p" "v6 \<or> is_v4 p" "na_port p \<noteq> 0" "dh_v6 s = v6"
  shows "p \<in> set (dh_found (fold peer_value (map (\<lambda>p. BStr (compact_addr p v6)) ps) s))"
proof -
  have mono: "set (dh_found s) \<subseteq> set (dh_found (fold peer_value vs s))" for vs s
  proof (induction vs arbitrary: s)
    case (Cons v vs)
    show ?case using Cons.IH [of "peer_value v s"] peer_value_mono [of s v] by auto
  qed simp
  show ?thesis
    using assms(1,5)
  proof (induction ps arbitrary: s)
    case (Cons q ps)
    show ?case
    proof (cases "p = q")
      case True
      have "p \<in> set (dh_found (peer_value (BStr (compact_addr p v6)) s))"
        using parse_compact_addr [OF assms(2,3)] assms(4) Cons.prems(2) by (simp add: peer_value_def peer_found_def Let_def)
      then show ?thesis using mono [of "peer_value (BStr (compact_addr p v6)) s"] True by auto
    next
      case False
      then show ?thesis using Cons.IH [of "peer_value (BStr (compact_addr q v6)) s"] Cons.prems by simp
    qed
  qed simp
qed

text \<open>A client in the middle of a lookup asks a node that has stored peers, and hears of each of them.\<close>

lemma answer_arrives:
  assumes "dh_open sc" "dh_active sc" "length (dh_my_id sc) = 20" "length (dh_pending sc) < 4000" "ordered (dh_pending sc)"
    and "dh_infohash sb = dh_infohash sc" "length (dh_infohash sc) = 20" "length (dh_my_id sb) = 20" "dh_v6 sb = dh_v6 sc"
    and "\<forall>a\<in>set (dh_stored sb). addr_ok a \<and> (dh_v6 sb \<or> is_v4 a)" "length (dh_stored sb) \<le> 50" "addr_ok addr_c"
    and "p \<in> set (dh_stored sb)" "na_port p \<noteq> 0"
  obtains q r where "dh_sent (ask_node n sc) = dh_sent sc @ [(ln_addr n, q)]"
    "dh_sent (on_datagram cr now (q, addr_c) sb) = dh_sent sb @ [(addr_c, r)]"
    "p \<in> set (dh_found (on_datagram cr' now' (r, addr_b) (ask_node n sc)))"
proof -
  define t where "t = tid_string (dh_next_tid sc)"
  define es where "es = [(''id'', BStr (dh_my_id sc)), (''info_hash'', BStr (dh_infohash sc)), (''want'', BList [BStr (want sc)])]"
  define m where "m = [(''t'', BStr t), (''y'', BStr ''q''), (''q'', BStr ''get_peers''), (''a'', bdict_of es)]"
  define sc1 where "sc1 = ask_node n sc"
  have c1: "dh_sent sc1 = dh_sent sc @ [(ln_addr n, benc (bdict_of m))]" "map_of (dh_pending sc1) t = Some True"
    "dh_active sc1" "dh_v6 sc1 = dh_v6 sc"
    using assms(1,2,4,5) put_length [of t True "dh_pending sc"]
    by (simp_all add: sc1_def ask_node_def send_query_def Let_def m_def es_def t_def query_arg_def put_map_of want_def)
  have tl: "length t = 2" by (simp add: t_def tid_string_def bytes_string_def)
  have "bval_ok 15 (bdict_of es)"
    by (intro bdict_of_ok) (use assms in \<open>auto simp: es_def want_def\<close>)
  then have "bval_ok 16 (bdict_of m)" by (intro bdict_of_ok) (auto simp: m_def tl)
  note dq = on_datagram_dict [OF this, of cr now addr_c sb]
  define s1 where "s1 = add_dht_node now (dh_my_id sc) addr_c sb"
  define vals where "vals = map (\<lambda>p. BStr (compact_addr p (dh_v6 sc))) (dh_stored sb)"
  define res where "res = [(''token'', BStr (token_for cr addr_c sb)), (''values'', BList vals)]"
  have ne: "dh_stored sb \<noteq> []" using assms(13) by auto
  have "serve_query cr ''get_peers'' (bdict_of es) addr_c s1 = (Some res, s1)"
    using assms(6,7,9) ne by (simp add: serve_query_def es_def s1_def res_def vals_def)
  then have oq: "on_query cr now (bdict_of m) t addr_c sb = s1\<lparr>dh_sent := dh_sent s1 @ [(addr_c, reply_bytes t res addr_c s1)]\<rparr>"
    using assms(3) by (simp add: on_query_def m_def es_def [symmetric] s1_def [symmetric]) (simp add: es_def s1_def [symmetric])
  have b1: "dh_sent (on_datagram cr now (benc (bdict_of m), addr_c) sb) = dh_sent sb @ [(addr_c, reply_bytes t res addr_c s1)]"
    unfolding dq using oq by (simp add: dht_handle_def m_def) (simp add: s1_def)
  define r where "r = bdict_of ((''id'', BStr (dh_my_id sb)) # res)"
  define w where "w = [(''t'', BStr t), (''y'', BStr ''r''), (''r'', r), (''ip'', BStr (compact_addr addr_c (dh_v6 sc)))]"
  have rb: "reply_bytes t res addr_c s1 = benc (bdict_of w)" using assms(9) by (simp add: reply_bytes_def w_def r_def s1_def)
  have la: "length (compact_addr a v6) \<le> 18" if "addr_ok a" for a v6
    using that by (auto simp: compact_addr_def bytes_string_def addr_ok_def)
  have "bval_ok 13 (BStr (compact_addr a v6))" if "a \<in> set (dh_stored sb)" for a v6
    using la [of a v6] assms(10) that by simp
  then have "list_all (bval_ok 13) vals" by (simp add: vals_def list_all_iff del: bval_ok.simps)
  then have "bval_ok 15 r"
    unfolding r_def by (intro bdict_of_ok) (use assms(8) token_length [of cr addr_c sb] in \<open>auto simp: res_def\<close>)
  then have "bval_ok 16 (bdict_of w)" by (intro bdict_of_ok) (use tl la [OF assms(12), of "dh_v6 sc"] in \<open>auto simp: w_def\<close>)
  note dr = on_datagram_dict [OF this, of cr' now' addr_b sc1]
  define sc2 where "sc2 = sc1\<lparr>dh_pending := AList.delete t (dh_pending sc1)\<rparr>"
  have bg: "bstr ''y'' (bdict_of w) = Some ''r''" "bstr ''t'' (bdict_of w) = Some t" "bget ''r'' (bdict_of w) = Some r"
    "bstr ''id'' r = Some (dh_my_id sb)" "bget ''values'' r = Some (BList vals)" "bstr (nodes_key v6) r = None" for v6
    by (simp_all add: w_def r_def res_def nodes_key_def)
  have "on_datagram cr' now' (benc (bdict_of w), addr_b) sc1 = take_response now' (bdict_of w) True (dh_my_id sb) r addr_b sc2"
    unfolding dr by (simp add: dht_handle_def on_response_def bg c1(2) assms(8) sc2_def del: bget_bdict_of bstr_bdict_of)
  moreover have "p \<in> set (dh_found (take_response now' (bdict_of w) True (dh_my_id sb) r addr_b sc2))"
  proof -
    define s3 where "s3 = add_dht_node now' (dh_my_id sb) addr_b sc2"
    define s4 where "s4 = (case bstr ''ip'' (bdict_of w) of
        Some ip \<Rightarrow> if length ip = addr_len (dh_v6 s3) then s3\<lparr>dh_my_ips := dh_my_ips s3 @ [parse_compact ip (dh_v6 s3)]\<rparr> else s3
      | None \<Rightarrow> s3)"
    have f: "dh_active s4" "dh_v6 s4 = dh_v6 sc" using c1(3,4) by (simp_all add: s4_def s3_def sc2_def split: option.split)
    have e: "take_response now' (bdict_of w) True (dh_my_id sb) r addr_b sc2 = lookup_answer (dh_my_id sb) r s4"
      unfolding take_response_def Let_def s3_def [symmetric] s4_def [symmetric] using f(1) by (simp add: bg)
    have "p \<in> set (dh_found (fold peer_value vals s5))" if "dh_v6 s5 = dh_v6 sc" for s5
      unfolding vals_def by (rule peer_values_found [OF assms(13) _ _ assms(14) that]) (use assms(9,10,13) in auto)
    then show ?thesis unfolding e lookup_answer_def Let_def by (simp add: bg f(2))
  qed
  ultimately have "p \<in> set (dh_found (on_datagram cr' now' (benc (bdict_of w), addr_b) (ask_node n sc)))" by (simp add: sc1_def)
  with c1(1) b1 rb show thesis by (intro that) (simp_all add: sc1_def)
qed

section \<open>Meeting\<close>

text \<open>\<open>sa\<close> announces itself to \<open>sb\<close>, then \<open>sc\<close> asks \<open>sb\<close>: it hears of the address of \<open>sa\<close>, with the announced port.\<close>

lemma clients_meet:
  assumes "dh_open sa" "length (dh_my_id sa) = 20" "length (dh_infohash sa) = 20" "ln_token na = token_for cr addr_a sb"
    and "addr_ok addr_a" "dh_v6 sb \<or> is_v4 addr_a" "dh_announce_port sa \<noteq> 0"
    and "dht_ok sb" "dh_infohash sb = dh_infohash sa" "length (dh_my_id sb) = 20" "\<forall>a\<in>set (dh_stored sb). addr_ok a \<and> (dh_v6 sb \<or> is_v4 a)"
    and "dht_ok sc" "dh_open sc" "dh_active sc" "length (dh_my_id sc) = 20" "length (dh_pending sc) < 4000"
    and "dh_infohash sc = dh_infohash sa" "dh_v6 sc = dh_v6 sb" "addr_ok addr_c"
  obtains b q r where "dh_sent (announce_to na sa) = dh_sent sa @ [(ln_addr na, b)]"
    "dh_sent (ask_node nc sc) = dh_sent sc @ [(ln_addr nc, q)]"
    "dh_sent (on_datagram cr now (q, addr_c) (on_datagram cr now (b, addr_a) sb)) = dh_sent (on_datagram cr now (b, addr_a) sb) @ [(addr_c, r)]"
    "with_port addr_a (dh_announce_port sa) \<in> set (dh_found (on_datagram cr' now (r, addr_b) (ask_node nc sc)))"
proof -
  let ?p = "with_port addr_a (dh_announce_port sa)"
  obtain b where b: "dh_sent (announce_to na sa) = dh_sent sa @ [(ln_addr na, b)]"
    "dh_stored (on_datagram cr now (b, addr_a) sb) = dh_stored (store_peer ?p sb)"
    "dh_my_id (on_datagram cr now (b, addr_a) sb) = dh_my_id sb" "dh_infohash (on_datagram cr now (b, addr_a) sb) = dh_infohash sb"
    "dh_v6 (on_datagram cr now (b, addr_a) sb) = dh_v6 sb"
    using announce_arrives [OF assms(1,2,9,3,4), of now] by metis
  have p: "?p \<in> set (dh_stored (store_peer ?p sb))" "addr_ok ?p" "dh_v6 sb \<or> is_v4 ?p" "na_port ?p \<noteq> 0"
    using store_peer_in assms(5-7) by (auto simp: with_port_def addr_ok_def is_v4_def)
  have "set (dh_stored (store_peer ?p sb)) \<subseteq> insert ?p (set (dh_stored sb))"
    by (cases "dh_stored sb") (auto simp: store_peer_def Let_def)
  then have st: "\<forall>a\<in>set (dh_stored (store_peer ?p sb)). addr_ok a \<and> (dh_v6 sb \<or> is_v4 a)" using assms(11) p(2,3) by blast
  have few: "length (dh_stored (store_peer ?p sb)) \<le> 50" using store_peer_ok [OF assms(8), of ?p] by (simp add: dht_ok_def)
  have pend: "ordered (dh_pending sc)" using assms(12) by (simp add: dht_ok_def)
  obtain q r where "dh_sent (ask_node nc sc) = dh_sent sc @ [(ln_addr nc, q)]"
    "dh_sent (on_datagram cr now (q, addr_c) (on_datagram cr now (b, addr_a) sb)) = dh_sent (on_datagram cr now (b, addr_a) sb) @ [(addr_c, r)]"
    "?p \<in> set (dh_found (on_datagram cr' now (r, addr_b) (ask_node nc sc)))"
    by (rule answer_arrives [where sb = "on_datagram cr now (b, addr_a) sb" and sc = sc and p = ?p and addr_c = addr_c and n = nc
        and cr = cr and now = now and cr' = cr' and now' = now and addr_b = addr_b])
      (use assms b p st few pend in simp_all)
  with b(1) show thesis by (rule that)
qed

end
