(* ===== verification/P2P_Dht.thy ===== *)
theory P2P_Dht
  imports P2P_Laws Dht_Meet
begin

text \<open>
  The engine and a DHT client: \<open>P2P::start\<close> in \<open>src/src/net/p2p.cpp\<close> gives the client the callbacks that enter what
  it finds into the address book and into the votes for our own address. Within one datagram the client calls
  \<open>on_my_ip\<close> before \<open>on_peer\<close>.
\<close>

definition dht_calls :: "dht \<Rightarrow> dht \<Rightarrow> p2p \<Rightarrow> p2p" where
  "dht_calls d d' s =
     (let ips = drop (length (dh_my_ips d)) (dh_my_ips d'); found = drop (length (dh_peers d)) (dh_peers d')
      in fold (\<lambda>a. add_addr a False) found (fold (\<lambda>a. learned_external (with_port a (po_port (pn_opt s)))) ips s))"

definition dht_datagram :: "crypto \<Rightarrow> int \<Rightarrow> string \<times> net_addr \<Rightarrow> p2p \<times> dht \<Rightarrow> p2p \<times> dht" where
  "dht_datagram cr now dg = (\<lambda>(s, d). let d' = on_datagram cr now dg d in (dht_calls d d' s, d'))"

lemma dht_datagram_ok:
  assumes "p2p_ok cr s" "dht_ok d" "dht_datagram cr' now dg (s, d) = (s', d')"
  shows "p2p_ok cr s' \<and> dht_ok d'"
proof -
  have d': "d' = on_datagram cr' now dg d" "s' = dht_calls d d' s" using assms(3) by (auto simp: dht_datagram_def Let_def)
  have "dht_ok d'"
    using assms(2) by (auto simp: d' on_datagram_def dht_handle_def on_response_ok on_query_ok split: prod.split option.split bval.split)
  moreover have "p2p_ok cr (dht_calls d d' s)"
    unfolding dht_calls_def Let_def by (intro fold_ok) (auto intro: assms(1) add_addr_ok learned_external_ok)
  ultimately show ?thesis by (simp add: d'(2))
qed

end
