(* ===== verification/Dht_Deaf.thy ===== *)
theory Dht_Deaf
  imports Dht_Laws
begin

text \<open>
  What happens to a DHT client whose transaction ids, 16 bits wide, start again from 0: an unanswered query is only
  forgotten when there are more than 4000, and then the one with the smallest id goes, not the oldest.
\<close>

lemma tid_string_less: "a < b \<Longrightarrow> tid_string a < tid_string b" for a b :: u16
proof -
  assume "a < b"
  then have ab: "unat a < unat b" by (simp add: word_less_nat_alt)
  have "unat a div 256 \<le> unat b div 256" using ab by (simp add: div_le_mono)
  moreover have "unat a mod 256 < unat b mod 256" if "unat a div 256 = unat b div 256"
    using that ab div_mult_mod_eq [of "unat a" 256] div_mult_mod_eq [of "unat b" 256] by linarith
  moreover have bytes: "unat (ucast (drop_bit 8 x) :: u8) = unat x div 256" "unat (ucast x :: u8) = unat x mod 256" for x :: u16
  proof -
    have "unat x div 256 < 256" using unsigned_less [where ?'a = nat and w = x] by (simp add: less_mult_imp_div_less)
    then show "unat (ucast (drop_bit 8 x) :: u8) = unat x div 256"
      by (simp add: unsigned_ucast_eq drop_bit_eq_div take_bit_eq_mod unat_div)
    show "unat (ucast x :: u8) = unat x mod 256" by (simp add: unsigned_ucast_eq take_bit_eq_mod)
  qed
  moreover have "unat x mod 256 < 256" "unat x div 256 < 256" for x :: u16
    using unsigned_less [where ?'a = nat and w = x] by (simp_all add: less_mult_imp_div_less)
  ultimately show ?thesis
    by (auto simp: tid_string_def bytes_string_def less_char_def bytes le_less)
qed
lemma send_query_fields:
  "dh_open s \<Longrightarrow> dh_pending (send_query a q args l s) =
     (let p = put (tid_string (dh_next_tid s)) l (dh_pending s) in if length p > 4000 then tl p else p)"
  "dh_open s \<Longrightarrow> dh_next_tid (send_query a q args l s) = dh_next_tid s + 1"
  "dh_open (send_query a q args l s) = dh_open s"
  by (simp_all add: send_query_def Let_def)

lemma put_first: "\<forall>j\<in>fst ` set m. k < j \<Longrightarrow> put k x m = (k, x) # m"
  by (cases m) auto

text \<open>A query with an id below all of 4000 that wait is not remembered, and its answer is not looked at.\<close>

lemma query_forgotten:
  assumes "dh_open s" "length (dh_pending s) = 4000" "\<forall>t\<in>fst ` set (dh_pending s). tid_string (dh_next_tid s) < t"
  shows "dh_pending (send_query a q args l s) = dh_pending s"
    and "bstr ''y'' m = Some ''r'' \<Longrightarrow> bstr ''t'' m = Some (tid_string (dh_next_tid s)) \<Longrightarrow>
      dht_handle cr now m sender (send_query a q args l s) = send_query a q args l s"
proof -
  show p: "dh_pending (send_query a q args l s) = dh_pending s"
    using assms by (simp add: send_query_fields Let_def put_first)
  have "map_of (dh_pending s) (tid_string (dh_next_tid s)) = None" using assms(3) by (auto simp: map_of_eq_None_iff)
  then show "dht_handle cr now m sender (send_query a q args l s) = send_query a q args l s"
    if "bstr ''y'' m = Some ''r''" "bstr ''t'' m = Some (tid_string (dh_next_tid s))"
    using that p by (simp add: dht_handle_def on_response_def)
qed

text \<open>This does happen: when none of the first 65535 queries is answered, the last 4000 wait, and the next id is 0.\<close>

definition waiting :: "nat \<Rightarrow> (string \<times> bool) list" where
  "waiting n = map (\<lambda>i. (tid_string (of_nat i), False)) [max 1 (n - 3999)..<Suc n]"

lemma waiting_length: "length (waiting n) = Suc n - max 1 (n - 3999)"
  by (simp add: waiting_def del: upt_Suc)

lemma waiting_ids: "fst ` set (waiting n) = (\<lambda>i. tid_string (of_nat i)) ` {max 1 (n - 3999)..n}"
  by (auto simp: waiting_def image_image less_Suc_eq_le simp del: upt_Suc)

lemma tids_ordered: "m \<le> 65536 \<Longrightarrow> ordered (map (\<lambda>i. (tid_string (of_nat i), b)) [k..<m])"
proof -
  assume m: "m \<le> 65536"
  have "tid_string (of_nat i) < tid_string (of_nat j)" if "i < j" "j < m" for i j
    using that m by (intro tid_string_less) (simp add: word_less_nat_alt unat_of_nat)
  then show ?thesis unfolding ordered_def by (auto simp: sorted_wrt_map o_def intro: sorted_wrt_mono_rel [OF _ sorted_wrt_upt])
qed

lemma unanswered_wait:
  assumes "dh_open s" "dh_pending s = []" "dh_next_tid s = 1" "length as \<le> 65535"
  shows "dh_pending (fold find_self as s) = waiting (length as) \<and> dh_next_tid (fold find_self as s) = of_nat (Suc (length as))
    \<and> dh_open (fold find_self as s)"
  using assms(4)
proof (induction as rule: rev_induct)
  case (snoc a as)
  define n where "n = length as"
  let ?t = "\<lambda>i. (tid_string (of_nat i), False)"
  let ?w = "waiting n"
  have n: "n < 65535" using snoc.prems by (simp add: n_def)
  have app: "?w @ [?t (Suc n)] = map ?t [max 1 (n - 3999)..<Suc (Suc n)]" by (simp add: waiting_def)
  have "ordered (?w @ [?t (Suc n)])" unfolding app using n by (intro tids_ordered) simp
  then have p: "put (tid_string (of_nat (Suc n))) False ?w = map ?t [max 1 (n - 3999)..<Suc (Suc n)]"
    using put_snoc [of ?w] app by simp
  have tl: "tl (map ?t [max 1 (n - 3999)..<Suc (Suc n)]) = map ?t [Suc (max 1 (n - 3999))..<Suc (Suc n)]"
    by (simp only: map_tl [symmetric] tl_upt)
  have "(let q = put (tid_string (of_nat (Suc n))) False ?w in if length q > 4000 then tl q else q) = waiting (Suc n)"
  proof (cases "n < 4000")
    case True
    then show ?thesis unfolding p Let_def by (auto simp: waiting_def)
  next
    case False
    then have "Suc (max 1 (n - 3999)) = max 1 (Suc n - 3999)" by simp
    then show ?thesis unfolding p Let_def tl using False by (simp add: waiting_def del: upt_Suc)
  qed
  moreover have "of_nat (Suc n) + 1 = (of_nat (Suc (Suc n)) :: u16)" by simp
  ultimately show ?case using snoc by (simp add: find_self_def send_query_fields n_def del: of_nat_Suc)
qed (use assms in \<open>simp add: waiting_def\<close>)

lemma deaf_state:
  assumes "dh_open s" "dh_pending s = []" "dh_next_tid s = 1" "length as = 65535"
  defines "s' \<equiv> fold find_self as s"
  shows "dh_open s'" "length (dh_pending s') = 4000" "dh_next_tid s' = 0"
    and "k < 61536 \<Longrightarrow> \<forall>t\<in>fst ` set (dh_pending s'). tid_string k < t"
proof -
  note u = unanswered_wait [OF assms(1-3), of as, unfolded assms(4)]
  then have p: "dh_pending s' = waiting 65535" by (simp add: s'_def)
  show "dh_open s'" "dh_next_tid s' = 0" using u by (simp_all add: s'_def)
  show "length (dh_pending s') = 4000" unfolding p waiting_length by simp
  assume k: "k < 61536"
  have "tid_string k < tid_string (of_nat i)" if "61536 \<le> i" "i < 65536" for i
    using that k by (intro tid_string_less) (simp add: word_less_nat_alt unat_of_nat)
  then show "\<forall>t\<in>fst ` set (dh_pending s'). tid_string k < t" unfolding p waiting_ids by simp
qed

text \<open>The first bootstrapping of a client that knows nobody only asks the routers.\<close>

lemma find_self_frame:
  "dh_nodes (find_self a s) = dh_nodes s" "dh_active (find_self a s) = dh_active s"
  by (simp_all add: find_self_def send_query_def Let_def)

lemma first_tick:
  assumes "dh_open s" "dh_nodes s = []" "\<not> dh_active s" "dh_last_bootstrap s = 0"
  shows "tick now routers s = fold find_self routers (s\<lparr>dh_last_bootstrap := now\<rparr>)"
proof -
  let ?s = "fold find_self routers (s\<lparr>dh_last_bootstrap := now\<rparr>)"
  have "dh_nodes ?s = [] \<and> \<not> dh_active ?s"
    by (rule fold_keeps [where P = "\<lambda>s. dh_nodes s = [] \<and> \<not> dh_active s"]) (use assms in \<open>simp_all add: find_self_frame\<close>)
  then show ?thesis using assms by (simp add: tick_def bootstrap_def closest_def Let_def)
qed

end
