(* ===== verification/Http.thy ===== *)
theory Http
  imports Bencode Bech32
begin

text \<open>
  The HTTP server in front of the node's methods (\<open>src/src/node/httprpc.cpp\<close>): reading a request, the two gates
  before a method runs (the token of the local server, the list of the public one) and the answer. JSON is a third-party
  library: \<open>json_lib\<close> has what is used of it. \<open>std::stoul\<close> is that of a 64-bit \<open>unsigned long\<close>.
\<close>

section \<open>Reading a request\<close>

text \<open>\<open>s.find(pat)\<close>.\<close>

fun find_sub :: "string \<Rightarrow> string \<Rightarrow> nat option" where
  "find_sub pat s =
     (if take (length pat) s = pat then Some 0
      else (case s of [] \<Rightarrow> None | c # s \<Rightarrow> map_option Suc (find_sub pat s)))"

declare find_sub.simps [simp del]

definition CRLF :: string where
  "CRLF = [CHR 0x0D, CHR 0x0A]"

text \<open>White space, a sign, digits as far as they go; a minus negates in 64 bits. \<open>None\<close> is an exception.\<close>

definition stoul :: "string \<Rightarrow> u64 option" where
  "stoul s =
     (let s = dropWhile is_space s;
          neg = (s \<noteq> [] \<and> hd s = CHR ''-'');
          s = (if s \<noteq> [] \<and> (hd s = CHR ''-'' \<or> hd s = CHR ''+'') then tl s else s);
          ds = takeWhile is_digit_char s
      in if ds = [] \<or> dec_val ds \<ge> 2 ^ 64 then None else Some (if neg then - of_nat (dec_val ds) else of_nat (dec_val ds)))"

text \<open>What an iteration of the loop gets: bytes, the end of the connection, or nothing; and whether the time is up at its end.\<close>

datatype http_in = Data string | Closed | Quiet

datatype http_result = Request string string | Http_failed | Http_threw

record http_state =
  ht_buf :: string
  ht_end :: "nat option"
  ht_headers :: string
  ht_need :: u64

definition http_start :: http_state where
  "http_start = \<lparr>ht_buf = [], ht_end = None, ht_headers = [], ht_need = 0\<rparr>"

text \<open>The length the headers announce; \<open>None\<close> is the exception of \<open>std::stoul\<close>.\<close>

definition content_length :: "string \<Rightarrow> u64 option" where
  "content_length headers =
     (let lower = map to_lower headers in
      case find_sub ''content-length:'' lower of None \<Rightarrow> Some 0 | Some cl \<Rightarrow> stoul (drop (cl + 15) lower))"

definition find_headers :: "http_state \<Rightarrow> http_state option" where
  "find_headers h =
     (if ht_end h \<noteq> None then Some h
      else
        (case find_sub (CRLF @ CRLF) (ht_buf h) of
           None \<Rightarrow> Some h
         | Some e \<Rightarrow>
             (let headers = take e (ht_buf h) in
              map_option (\<lambda>need. h\<lparr>ht_end := Some e, ht_headers := headers, ht_need := need\<rparr>) (content_length headers))))"

definition http_done :: "http_state \<Rightarrow> http_result option" where
  "http_done h =
     (case ht_end h of
        None \<Rightarrow> None
      | Some e \<Rightarrow>
          if of_nat (length (ht_buf h)) \<ge> (of_nat e + 4 + ht_need h :: u64)
          then Some (Request (ht_headers h) (take (unat (ht_need h)) (drop (e + 4) (ht_buf h)))) else None)"

text \<open>\<open>None\<close>: still waiting after these iterations.\<close>

fun recv_http :: "(http_in \<times> bool) list \<Rightarrow> http_state \<Rightarrow> http_result option" where
  "recv_http [] h = None"
| "recv_http ((i, late) # is) h =
     (if i = Closed then Some Http_failed
      else
        (let h = (case i of Data d \<Rightarrow> h\<lparr>ht_buf := ht_buf h @ d\<rparr> | _ \<Rightarrow> h) in
         if i \<noteq> Quiet \<and> length (ht_buf h) > 16 * 1024 * 1024 then Some Http_failed
         else
           (case find_headers h of
              None \<Rightarrow> Some Http_threw
            | Some h \<Rightarrow>
                (case http_done h of
                   Some r \<Rightarrow> Some r
                 | None \<Rightarrow> if late then Some Http_failed else recv_http is h))))"

section \<open>Serving\<close>

definition public_methods :: "string list" where
  "public_methods = [''getblockchaininfo'', ''getblockcount'', ''getbestblockhash'', ''getblockhash'', ''getblock'',
     ''gettransaction'', ''getaddressinfo'', ''getaddresscoins'', ''getmempoolinfo'', ''getrawmempool'', ''listtokens'', ''gettoken'',
     ''getpool'', ''quote'', ''sendrawtransaction'', ''decoderawtransaction'', ''getemission'', ''getpoolhistory'', ''listmarkets'',
     ''getpooltrades'', ''getmessages'', ''listgifts'', ''faucet'', ''estimatefee'', ''validateaddress'', ''getsnapshotinfo'', ''help'']"

definition public_method :: "string \<Rightarrow> bool" where
  "public_method m \<longleftrightarrow> m \<in> set public_methods"

text \<open>What the server uses of the JSON library: parsing, the members \<open>id\<close>, \<open>method\<close> and \<open>params\<close> with their defaults (an
  \<open>Inl\<close> is an exception), and the text of an answer with a result or an error.\<close>

record 'j json_lib =
  js_parse :: "string \<Rightarrow> 'j option"
  js_id :: "'j \<Rightarrow> string + 'j"
  js_method :: "'j \<Rightarrow> string + string"
  js_params :: "'j \<Rightarrow> string + 'j"
  js_answer :: "'j \<Rightarrow> string + 'j \<Rightarrow> string"

record http_server =
  hs_public :: bool
  hs_token :: string

definition cors :: string where
  "cors = ''Access-Control-Allow-Origin: *'' @ CRLF @ ''Access-Control-Allow-Methods: POST, OPTIONS'' @ CRLF
     @ ''Access-Control-Allow-Headers: Content-Type'' @ CRLF"

definition http_reply :: "http_server \<Rightarrow> nat \<Rightarrow> string \<Rightarrow> string" where
  "http_reply sv code b =
     ''HTTP/1.1 '' @ to_dec code @ (if code = 200 then '' OK'' else '' Error'') @ CRLF
     @ ''Content-Type: application/json'' @ CRLF @ ''Connection: close'' @ CRLF
     @ (if hs_public sv then cors else []) @ ''Content-Length: '' @ to_dec (length b) @ CRLF @ CRLF @ b"

definition call_method :: "http_server \<Rightarrow> 'j json_lib \<Rightarrow> (string \<Rightarrow> 'j \<Rightarrow> string + 'j) \<Rightarrow> 'j \<Rightarrow> string + 'j" where
  "call_method sv js rpc req =
     rbind (js_method js req) (\<lambda>m.
       if hs_public sv \<and> \<not> public_method m then Inl ''method not available on the public API''
       else rbind (js_params js req) (rpc m))"

text \<open>\<open>serve\<close> after the request is there. \<open>None\<close>: the exception of asking a value that is not an object for its member \<open>id\<close>, outside
  the \<open>try\<close>.\<close>

definition serve_request :: "http_server \<Rightarrow> 'j json_lib \<Rightarrow> (string \<Rightarrow> 'j \<Rightarrow> string + 'j) \<Rightarrow> string \<Rightarrow> string \<Rightarrow> string option" where
  "serve_request sv js rpc headers body =
     (if hs_public sv \<and> take 7 headers = ''OPTIONS'' then Some (http_reply sv 200 ''{}'')
      else if \<not> hs_public sv \<and> find_sub (''Bearer '' @ hs_token sv) headers = None
      then Some (http_reply sv 401 (''{'' @ [CHR 0x22] @ ''error'' @ [CHR 0x22] @ '':'' @ [CHR 0x22] @ ''unauthorized'' @ [CHR 0x22] @ ''}''))
      else
        (case js_parse js body of
           None \<Rightarrow> Some (http_reply sv 400 (''{'' @ [CHR 0x22] @ ''error'' @ [CHR 0x22] @ '':'' @ [CHR 0x22] @ ''bad json'' @ [CHR 0x22] @ ''}''))
         | Some req \<Rightarrow>
             (case js_id js req of
                Inl e \<Rightarrow> None
              | Inr i \<Rightarrow> Some (http_reply sv 200 (js_answer js i (call_method sv js rpc req))))))"

text \<open>The thread of a connection. \<open>Uncaught\<close>: an exception leaves its function, which ends the process.\<close>

datatype served = Waiting | Hung_up | Answer string | Uncaught

definition serve :: "http_server \<Rightarrow> 'j json_lib \<Rightarrow> (string \<Rightarrow> 'j \<Rightarrow> string + 'j) \<Rightarrow> (http_in \<times> bool) list \<Rightarrow> served" where
  "serve sv js rpc ins =
     (case recv_http ins http_start of
        None \<Rightarrow> Waiting
      | Some Http_failed \<Rightarrow> Hung_up
      | Some Http_threw \<Rightarrow> Uncaught
      | Some (Request headers body) \<Rightarrow>
          (case serve_request sv js rpc headers body of None \<Rightarrow> Uncaught | Some a \<Rightarrow> Answer a))"

text \<open>\<open>run\<close> takes a connection unless 32 are being served.\<close>

definition take_connection :: "nat \<Rightarrow> bool \<times> nat" where
  "take_connection active_now = (if active_now \<ge> 32 then (False, active_now) else (True, active_now + 1))"

section \<open>The client\<close>

text \<open>The request of \<open>http_rpc_call\<close> with the text of its JSON.\<close>

definition http_request :: "string \<Rightarrow> string \<Rightarrow> string" where
  "http_request token b =
     ''POST / HTTP/1.1'' @ CRLF @ ''Host: 127.0.0.1'' @ CRLF @ ''Authorization: Bearer '' @ token @ CRLF
     @ ''Content-Type: application/json'' @ CRLF @ ''Content-Length: '' @ to_dec (length b) @ CRLF @ CRLF @ b"

end
