(* ===== verification/Http_Laws.thy ===== *)
theory Http_Laws
  imports Http
begin

text \<open>
  A request arrives however it is cut, nobody without the token reaches a method of the local server, and only the
  listed methods of the public one can be reached. Neither gate is before the header's length field is read.
\<close>

section \<open>Searching\<close>

lemma find_sub_here: "take (length pat) s = pat \<Longrightarrow> find_sub pat s = Some 0"
  by (subst find_sub.simps) simp

lemma find_sub_skip: "c \<noteq> p \<Longrightarrow> find_sub (p # pat) (c # s) = map_option Suc (find_sub (p # pat) s)"
  by (subst find_sub.simps) simp

lemma find_sub_miss: "take (length pat) s \<noteq> pat \<Longrightarrow> find_sub (p # pat) (p # s) = map_option Suc (find_sub (p # pat) s)"
  by (subst find_sub.simps) simp

lemma find_sub_Some:
  "find_sub pat s = Some e \<Longrightarrow> take (length pat) (drop e s) = pat \<and> e \<le> length s \<and> (\<forall>i<e. take (length pat) (drop i s) \<noteq> pat)"
proof (induction pat s arbitrary: e rule: find_sub.induct)
  case (1 pat s)
  show ?case
  proof (cases "take (length pat) s = pat")
    case True
    then show ?thesis using "1.prems" by (subst (asm) find_sub.simps) simp
  next
    case False
    then obtain c s' e' where s: "s = c # s'" "e = Suc e'" "find_sub pat s' = Some e'"
      using "1.prems" by (subst (asm) find_sub.simps) (auto split: list.splits)
    have "take (length pat) (drop e' s') = pat \<and> e' \<le> length s' \<and> (\<forall>i<e'. take (length pat) (drop i s') \<noteq> pat)"
      using "1.IH" [OF False s(1) s(3)] .
    then show ?thesis using s False by (auto simp: less_Suc_eq_0_disj)
  qed
qed

lemma find_sub_None: "find_sub pat s = None \<longleftrightarrow> (\<forall>i\<le>length s. take (length pat) (drop i s) \<noteq> pat)"
proof (induction pat s rule: find_sub.induct)
  case (1 pat s)
  show ?case
  proof (cases "take (length pat) s = pat")
    case True
    then show ?thesis by (subst find_sub.simps) (auto intro: exI [of _ 0])
  next
    case False
    show ?thesis
    proof (cases s)
      case Nil
      then show ?thesis using False by (subst find_sub.simps) simp
    next
      case (Cons c s')
      then have "find_sub pat s' = None \<longleftrightarrow> (\<forall>i\<le>length s'. take (length pat) (drop i s') \<noteq> pat)" using "1.IH" False by blast
      then show ?thesis using False Cons by (subst find_sub.simps) (auto simp: All_less_Suc2 less_Suc_eq_le [symmetric])
    qed
  qed
qed

text \<open>In a part of the text the first occurrence is found if it is all there, and nothing otherwise.\<close>

lemma find_sub_part:
  assumes "find_sub pat (s @ t) = Some e" "pat \<noteq> []"
  shows "find_sub pat s = (if e + length pat \<le> length s then Some e else None)"
proof -
  note f = find_sub_Some [OF assms(1)]
  have part: "take (length pat) (drop i s) = pat \<longleftrightarrow> take (length pat) (drop i (s @ t)) = pat \<and> i + length pat \<le> length s" for i
  proof
    assume l: "take (length pat) (drop i s) = pat"
    then have "length (take (length pat) (drop i s)) = length pat" by simp
    then have "i + length pat \<le> length s" using assms(2) by (cases "i \<le> length s") auto
    then show "take (length pat) (drop i (s @ t)) = pat \<and> i + length pat \<le> length s" using l by simp
  qed auto
  show ?thesis
  proof (cases "e + length pat \<le> length s")
    case True
    then have e: "take (length pat) (drop e s) = pat" using part f by blast
    have "\<exists>i\<le>length s. take (length pat) (drop i s) = pat" using e True by (intro exI [of _ e]) simp
    then have "find_sub pat s \<noteq> None" unfolding find_sub_None by blast
    then obtain k where k: "find_sub pat s = Some k" by auto
    note g = find_sub_Some [OF k]
    have "\<not> e < k" using g e by blast
    moreover have "\<not> k < e" using f g part [of k] by blast
    ultimately have "k = e" by simp
    then show ?thesis using k True by simp
  next
    case False
    have "take (length pat) (drop i s) \<noteq> pat" for i
    proof
      assume "take (length pat) (drop i s) = pat"
      then have i: "take (length pat) (drop i (s @ t)) = pat" "i + length pat \<le> length s" using part by blast+
      with False have "i < e" by linarith
      with i(1) f show False by blast
    qed
    then have "find_sub pat s = None" by (simp add: find_sub_None)
    then show ?thesis using False by simp
  qed
qed

section \<open>Requests in pieces\<close>

abbreviation pieces :: "string list \<Rightarrow> (http_in \<times> bool) list" where
  "pieces ds \<equiv> map (\<lambda>d. (Data d, False)) ds"

lemma request_arrives:
  assumes "find_sub (CRLF @ CRLF) (headers @ CRLF @ CRLF @ body) = Some (length headers)"
    and "content_length headers = Some (of_nat (length body))"
    and "length headers + 4 + length body \<le> 16 * 1024 * 1024" "concat ds = headers @ CRLF @ CRLF @ body"
  shows "recv_http (pieces ds) http_start = Some (Request headers body)"
proof -
  let ?all = "headers @ CRLF @ CRLF @ body" and ?e = "length headers"
  have c4: "length (CRLF @ CRLF) = 4" "CRLF @ CRLF \<noteq> []" by (simp_all add: CRLF_def)
  define waits where "waits buf (h :: http_state) \<longleftrightarrow> ht_buf h = buf \<and> length buf < length ?all \<and>
    (if ht_end h = None then ?e + 4 > length buf else ht_end h = Some ?e \<and> ht_headers h = headers \<and> ht_need h = of_nat (length body))"
    for buf h
  have small: "length ?all \<le> 16777216" using assms(3) c4(1) by simp
  have sum: "(of_nat n \<ge> (of_nat ?e + 4 + of_nat (length body) :: u64)) \<longleftrightarrow> n \<ge> ?e + 4 + length body" if "n \<le> 16777216" for n
  proof -
    have "(of_nat ?e + 4 + of_nat (length body) :: u64) = of_nat (?e + 4 + length body)" by simp
    moreover have "unat (of_nat (?e + 4 + length body) :: u64) = ?e + 4 + length body" "unat (of_nat n :: u64) = n"
      using assms(3) that by (simp_all add: unat_of_nat del: of_nat_add)
    ultimately show ?thesis by (simp add: word_le_nat_alt del: of_nat_add)
  qed
  have "recv_http (pieces ds) h = Some (Request headers body)" if "waits buf h" "buf @ concat ds = ?all" for buf h ds
    using that
  proof (induction ds arbitrary: buf h)
    case Nil
    then show ?case by (simp add: waits_def)
  next
    case (Cons d ds)
    define b where "b = buf @ d"
    define h1 where "h1 = h\<lparr>ht_buf := b\<rparr>"
    have all: "b @ concat ds = ?all" using Cons.prems(2) by (simp add: b_def)
    then have lb: "length b \<le> length ?all" by (metis length_append le_add1)
    have f: "find_sub (CRLF @ CRLF) b = (if ?e + 4 \<le> length b then Some ?e else None)"
      using find_sub_part [of "CRLF @ CRLF" b "concat ds" ?e] assms(1) all c4 by simp
    have tk: "take ?e b = headers" if "?e + 4 \<le> length b"
      using that all by (metis add_leD1 append_eq_append_conv_if append_eq_conv_conj take_append)
    define h2 where "h2 = (if ht_end h1 \<noteq> None \<or> ?e + 4 > length b then h1
      else h1\<lparr>ht_end := Some ?e, ht_headers := headers, ht_need := of_nat (length body)\<rparr>)"
    have h2: "find_headers h1 = Some h2"
      using f tk assms(2) by (auto simp: find_headers_def h2_def h1_def Let_def)
    have st: "ht_buf h2 = b" "ht_end h2 \<noteq> None \<Longrightarrow> ht_end h2 = Some ?e \<and> ht_headers h2 = headers \<and> ht_need h2 = of_nat (length body)"
      "ht_end h2 = None \<Longrightarrow> ?e + 4 > length b"
      using Cons.prems(1) by (auto simp: h2_def h1_def waits_def split: if_splits)
    have step: "recv_http (pieces (d # ds)) h = (case http_done h2 of Some r \<Rightarrow> Some r | None \<Rightarrow> recv_http (pieces ds) h2)"
      using Cons.prems(1) h2 small lb by (simp add: waits_def h1_def b_def Let_def)
    show ?case
    proof (cases "length b = length ?all")
      case True
      then have b: "b = ?all" using all append_eq_append_conv [of b ?all "concat ds" "[]"] by simp
      then have "ht_end h2 = Some ?e" using st by (cases "ht_end h2") (simp_all add: CRLF_def)
      moreover have "unat (of_nat (length body) :: u64) = length body" using small by (simp add: unat_of_nat)
      ultimately have "http_done h2 = Some (Request headers body)"
        using st sum [of "length b"] b c4(1) small by (simp add: http_done_def CRLF_def)
      then show ?thesis unfolding step by simp
    next
      case False
      have "http_done h2 = None"
      proof (cases "ht_end h2")
        case None
        then show ?thesis by (simp add: http_done_def)
      next
        case (Some e)
        moreover have "length b < ?e + 4 + length body" using False lb c4(1) by simp
        ultimately show ?thesis using st sum [of "length b"] lb small by (simp add: http_done_def)
      qed
      moreover have "waits b h2" using st False lb by (auto simp: waits_def)
      ultimately show ?thesis using Cons.IH [OF _ all] unfolding step by simp
    qed
  qed
  from this [of "[]" http_start ds] show ?thesis using assms(4) by (simp add: waits_def http_start_def CRLF_def)
qed

lemma request_split:
  assumes "find_sub (CRLF @ CRLF) d = Some e" "length d \<le> 16 * 1024 * 1024"
    and "content_length (take e d) = Some (of_nat (length d - e - 4))" "concat ds = d"
  shows "recv_http (pieces ds) http_start = Some (Request (take e d) (drop (e + 4) d))"
proof -
  note f = find_sub_Some [OF assms(1)]
  have c: "length (CRLF @ CRLF) = 4" by (simp add: CRLF_def)
  then have here: "take 4 (drop e d) = CRLF @ CRLF" using f by simp
  then have "length (take 4 (drop e d)) = 4" using c by simp
  then have le: "e + 4 \<le> length d" using f by (simp add: min_def split: if_splits)
  have "drop e d = take 4 (drop e d) @ drop 4 (drop e d)" by (rule append_take_drop_id [symmetric])
  then have "drop e d = CRLF @ CRLF @ drop (e + 4) d" unfolding here by (simp add: add.commute)
  then have d: "take e d @ CRLF @ CRLF @ drop (e + 4) d = d" using append_take_drop_id [of e d] by simp
  have l: "length (take e d) = e" "length (drop (e + 4) d) = length d - e - 4" using f by simp_all
  have "e + 4 + (length d - e - 4) \<le> 16 * 1024 * 1024" using le assms(2) by simp
  then show ?thesis using request_arrives [of "take e d" "drop (e + 4) d" ds, unfolded d l] assms(1,3,4) by blast
qed

section \<open>The gates\<close>

lemma no_token_no_method:
  assumes "\<not> hs_public sv" "find_sub (''Bearer '' @ hs_token sv) headers = None"
  shows "\<exists>a. \<forall>js rpc. serve_request sv js rpc headers body = Some a"
  using assms by (auto simp: serve_request_def)

lemma unlisted_method_refused:
  assumes "hs_public sv" "js_method js req = Inr m" "\<not> public_method m"
  shows "call_method sv js rpc req = Inl ''method not available on the public API''"
  using assms by (simp add: call_method_def)

text \<open>A length field that is not a number ends the process, whoever sends it.\<close>

lemma bad_length_uncaught:
  assumes "find_sub (CRLF @ CRLF) d = Some e" "content_length (take e d) = None" "length d \<le> 16 * 1024 * 1024"
  shows "serve sv js rpc [(Data d, late)] = Uncaught"
  using assms by (simp add: serve_def http_start_def find_headers_def Let_def)

lemma no_object_uncaught:
  assumes "recv_http ins http_start = Some (Request headers body)" "hs_public sv \<and> take 7 headers \<noteq> ''OPTIONS''"
    and "js_parse js body = Some req" "js_id js req = Inl e"
  shows "serve sv js rpc ins = Uncaught"
  using assms by (simp add: serve_def serve_request_def)

end
