(* ===== verification/Examples_P2P.thy ===== *)
theory Examples_P2P
  imports Examples_Light Node_Laws P2P_Answers P2P_Queue P2P_Dht Dht_Deaf Http_Laws
begin

text \<open>
  Concrete states for the engine and the node: a node with one peer, the same in the middle of a download from
  a snapshot, a server of one block for the light client of \<open>Examples_Light\<close>, a block with a swap, three clients of
  the DHT and two requests to the HTTP server.
\<close>

section \<open>A node with a peer\<close>

definition ex_address :: net_addr where
  "ex_address = v4 (0x01020304) 7000"

definition ex_connected_peer :: peer where
  "ex_connected_peer = (new_peer 1 ex_address (\<lambda>_. Sent 100) 0)\<lparr>pe_inbound := True, pe_got_version := True, pe_got_verack := True\<rparr>"

definition ex_options :: p2p_opt where
  "ex_options = \<lparr>po_listen = True, po_port = 7000, po_connect_only = False, po_max_outbound = 8, po_max_inbound = 48,
     po_agent = ''quant:0.2.0'', po_fast_sync = True\<rparr>"

definition ex_net :: p2p where
  "ex_net = \<lparr>pn_opt = ex_options, pn_cs = ex_node [], pn_mp = Mempool_new, pn_nonce = 1, pn_ms = 5,
     pn_peers = [ex_connected_peer], pn_next_id = 2, pn_addrs = [], pn_banned = [], pn_inflight = [], pn_no_witness = [],
     pn_votes = [], pn_ext4 = blank_addr, pn_ext6 = blank_addr, pn_self = [], pn_last_announce = -1, pn_q_relay = [],
     pn_q_addnode = [], pn_q_disconnect = [], pn_q_ban = [], pn_q_tip = False, pn_ban_reason = [], pn_snap_peer = 0,
     pn_snap_block = hash_zero, pn_snap_buf = [], pn_snap_total = 0, pn_snap_since = 0, pn_snap_bad = [],
     pn_serve_block = hash_zero, pn_serve = []\<rparr>"

definition ex_env :: p2p_env where
  "ex_env = \<lparr>ev_shuffle = \<lambda>xs. xs, ev_random = \<lambda>i. of_nat i, ev_ipv6 = False, ev_mapped = False, ev_socket = \<lambda>a. None,
     ev_resolve = \<lambda>s. None\<rparr>"

lemma ex_net_ok: "p2p_ok toy ex_net"
  using ex_pool(1) [of toy]
  by (simp add: p2p_held_def peers_ok_def flight_ok_def load_of_def peer_ok_def ex_net_def ex_connected_peer_def new_peer_def al_distinct_def)

text \<open>A coin of the address that \<open>ex_watcher\<close> watches.\<close>

definition ex_owned :: coin where
  "ex_owned = \<lparr>c_out = \<lparr>o_value = 50, o_asset = QNT_ASSET, o_addr = ex_owner\<rparr>, c_height = 1, c_coinbase = False\<rparr>"

section \<open>Downloading a snapshot\<close>

text \<open>A network that commits to every block at once, so that two blocks are enough.\<close>

definition ex_snap_node :: chainstate where
  "ex_snap_node = (ex_node [])\<lparr>cs_p := ex_params\<lparr>snapshot_interval := 1, snapshot_delay := 0\<rparr>\<rparr>"

definition ex_downloading :: p2p where
  "ex_downloading = ex_net\<lparr>pn_cs := ex_snap_node, pn_snap_peer := 1, pn_snap_block := ex_tip, pn_snap_total := 100\<rparr>"

lemma ex_snap_fields [simp]:
  "cs_chain ex_snap_node = [ex_genesis]" "cs_best_header ex_snap_node = Some ex_tip" "cs_p ex_snap_node = ex_params\<lparr>snapshot_interval := 1, snapshot_delay := 0\<rparr>"
  "deref ex_snap_node = deref (ex_node [])" "known ex_snap_node = known (ex_node [])"
  by (simp_all add: ex_snap_node_def deref_def known_def fun_eq_iff)

lemma ex_snap_target: "snapshot_target ex_downloading = Inr ex_tip"
proof -
  have h: "b_height ex_snap_node ex_tip = 1" "b_height ex_snap_node ex_genesis = 0" using ex_index(5,6) [of "[]"] by simp_all
  have a: "ancestor ex_snap_node ex_tip 1 = Some ex_tip"
    using h by (simp add: ancestor_def in_active_chain_def ancestor_walk.simps at_height_def)
  have "committed_hash_for ex_snap_node (Some ex_tip) = Some hash_zero"
    using h a by (simp add: committed_hash_for_def is_commit_height_def ex_deref) (simp add: blank_index_def ex_header_def)
  then show ?thesis
    using h a by (simp add: snapshot_target_def ex_downloading_def Let_def cs_height_def max_active_height_def ex_net_def ex_connected_peer_def new_peer_def)
qed

section \<open>A server for the light client\<close>

definition ex_stored :: block where
  "ex_stored = \<lparr>header = ex_next, txs = [ex_cb]\<rparr>"

definition ex_server :: chainstate where
  "ex_server = (ex_node [])
     \<lparr>cs_fs := \<lparr>fs_files = [(''d/blocks.dat'', block_core_bytes ex_stored)], fs_ok = \<lambda>_. True\<rparr>,
      cs_index := [(header_hash toy ex_next, blank_index\<lparr>bi_hash := header_hash toy ex_next, bi_header := ex_next, bi_height := 1,
        bi_have_data := True, bi_data_len := of_nat (length (block_core_bytes ex_stored))\<rparr>)],
      cs_txindex := [(ex_cb_id, header_hash toy ex_next)]\<rparr>"

lemma ex_stored_ok: "block_ok ex_stored"
  by (simp add: block_ok_def ex_stored_def core_ok_def witness_ok_def limit_defs ex_cb_def ex_coinbase_def)

lemma ex_stored_length: "length (block_core_bytes ex_stored) \<le> 2000"
  using w_varint_length10 [of 1] w_varint_length10 [of 2] w_varint_length10 [of 0] w_varint_length10 [of 50]
  by (simp add: block_core_bytes_def ex_stored_def ex_cb_def ex_coinbase_def w_counted_def write_core_def HEADER_SIZE_def w_bytes_def
    write_txout_def w_u8_def w_hash_def)

lemma ex_server_read: "read_block toy ex_server (header_hash toy ex_next) False = Some (ex_stored, False)"
proof -
  have l: "unat (of_nat (length (block_core_bytes ex_stored)) :: u32) = length (block_core_bytes ex_stored)"
    using ex_stored_length by (simp add: unat_of_nat)
  have f: "read_file (cs_fs ex_server) ''d/blocks.dat'' = Some (block_core_bytes ex_stored)" "cs_dir ex_server = ''d''"
    by (simp_all add: read_file_def ex_server_def)
  have n: "bi_have_data (deref ex_server (header_hash toy ex_next))" "bi_data_pos (deref ex_server (header_hash toy ex_next)) = 0"
    "bi_data_len (deref ex_server (header_hash toy ex_next)) = of_nat (length (block_core_bytes ex_stored))"
    "bi_hash (deref ex_server (header_hash toy ex_next)) = header_hash toy ex_next"
    by (simp_all add: deref_def ex_server_def blank_index_def)
  have r: "read_block_core (block_core_bytes ex_stored) = Inr (ex_stored, [])"
    using ex_stored_ok coresc.rd_wr [of "txs ex_stored" "of_nat (MAX_BLOCK_SIZE div 40)" "[]"]
    by (simp add: read_block_core_def block_core_bytes_def headerc.rd_wr block_ok_def unat_max_txs)
      (simp add: ex_stored_def ex_cb_def ex_coinbase_def)
  show ?thesis using f r n l by (simp add: read_block_def Let_def) (simp add: ex_stored_def)
qed

lemma ex_served: "coin_proof toy ex_server (OutPoint ex_cb_id 0, up_coin ex_utxo) = Some ex_utxo"
proof -
  have f: "find_tx_block ex_server ex_cb_id = Some (header_hash toy ex_next)" "cs_lookup ex_server (header_hash toy ex_next) = Some (header_hash toy ex_next)"
    by (simp_all add: find_tx_block_def ex_server_def cs_lookup_def known_def)
  have i: "map (txid toy) (txs ex_stored) = [ex_cb_id]" by (simp add: ex_stored_def txid_def ex_cb_id_def)
  show ?thesis
    using f ex_server_read i by (simp add: coin_proof_def ex_stored_def Let_def) (simp add: ex_utxo_def merkle_proof.simps)
qed

lemma ex_utxo_ok: "utxo_proof_ok ex_utxo"
proof -
  have "length (write_core ex_cb) \<le> MAX_MESSAGE"
    using w_varint_length10 [of 1] w_varint_length10 [of 2] w_varint_length10 [of 0] w_varint_length10 [of 50]
    by (simp add: write_core_def ex_cb_def ex_coinbase_def w_counted_def write_txout_def w_u8_def w_hash_def w_bytes_def MAX_MESSAGE_def)
  then show ?thesis by (simp add: utxo_proof_ok_def ex_utxo_def)
qed

lemma ex_stored_root: "compute_merkle_root toy ex_stored = merkle_root_f (header ex_stored)"
  by (simp add: compute_merkle_root_def ex_stored_def merkle_root.simps txid_def ex_cb_id_def [symmetric]) (simp add: ex_next_def)

lemma ex_client: "height_of ex_synced (header_hash toy ex_next) = Some 1" "lc_headers ex_synced ! 1 = ex_next" "is_mine ex_watcher ex_owner"
  by (simp_all add: height_of_def ex_synced_def light_push_def numeral_2_eq_2 is_mine_def ex_watcher_def)

lemma ex_coin_of: "coin_of toy ex_stored (OutPoint ex_cb_id 0) (up_coin ex_utxo)"
  by (simp add: coin_of_def ex_stored_def ex_utxo_def ex_cb_def ex_coinbase_def is_coinbase_def)

section \<open>Blocks with a swap\<close>

definition ex_swap_block :: block where
  "ex_swap_block = \<lparr>header = ex_header ex_genesis 1, txs = [ex_coinbase 1 [], ex_tx\<lparr>ops := [OpSwap (hash_of [8]) True 10 5]\<rparr>]\<rparr>"

lemma ex_swaps: "rising toy [(ex_swap_block, 1)]" "block_trades toy (ex_block [], 1) = []"
  "block_trades toy (ex_swap_block, 1) = [(hash_of [8], \<lparr>td_height = 1, td_time = 0, td_txid = txid toy (ex_tx\<lparr>ops := [OpSwap (hash_of [8]) True 10 5]\<rparr>),
     td_sell = True, td_in = 10, td_out = 5, td_trader = (if outs ex_tx = [] then hash_zero else o_addr (outs ex_tx ! 0))\<rparr>)]"
  by (simp_all add: rising_def block_trades_def tx_trades_def ex_swap_block_def ex_coinbase_def ex_block_def height_ok_def)
    (simp add: ex_header_def)

section \<open>Clients of the DHT\<close>

definition ex_dht :: "u8 \<Rightarrow> dht" where
  "ex_dht k = (Dht_new (replicate 20 CHR ''h'') 7000 False (hash_of [k]) (hash_of [9]) 0 None)\<lparr>dh_open := True, dh_active := True\<rparr>"

definition ex_from :: "u8 \<Rightarrow> net_addr" where
  "ex_from k = v4 (0x01020300 + ucast k) 5000"

definition ex_entry :: "u8 \<Rightarrow> string \<Rightarrow> lookup_node" where
  "ex_entry k tok = (new_lookup_node (dh_my_id (ex_dht k)) (ex_from k))\<lparr>ln_token := tok\<rparr>"

lemma ex_dht_fields: "dh_open (ex_dht k)" "dh_active (ex_dht k)" "length (dh_my_id (ex_dht k)) = 20" "length (dh_infohash (ex_dht k)) = 20"
  "dh_infohash (ex_dht k) = replicate 20 CHR ''h''" "\<not> dh_v6 (ex_dht k)" "dh_announce_port (ex_dht k) = 7000" "dh_pending (ex_dht k) = []"
  "dh_stored (ex_dht k) = []" "dht_ok (ex_dht k)"
proof -
  show "dht_ok (ex_dht k)" using dht_new_ok [of "replicate 20 CHR ''h''" 7000 False "hash_of [k]" "hash_of [9]" 0 None]
    by (simp add: ex_dht_def dht_ok_def nodes_ok_def)
qed (simp_all add: ex_dht_def Dht_new_def Let_def bytes_string_def)

lemma ex_dht_reach: "dht_reach cr (tick 1 [] ((Dht_new (replicate 20 CHR ''h'') 7000 False (hash_of [1]) (hash_of [9]) 0 None)\<lparr>dh_open := True\<rparr>))"
  by (rule dht_next [OF dht_next [OF dht_first dht_start] dht_tick])

text \<open>A client whose first 65535 queries were not answered.\<close>

definition ex_deaf :: dht where
  "ex_deaf = tick 1 (replicate 65535 (ex_from 2)) ((Dht_new (replicate 20 CHR ''h'') 7000 False (hash_of [1]) (hash_of [9]) 0 None)\<lparr>dh_open := True\<rparr>)"

lemma ex_deaf:
  "dht_reach cr ex_deaf" "dh_open ex_deaf" "length (dh_pending ex_deaf) = 4000"
  "\<forall>t\<in>fst ` set (dh_pending ex_deaf). tid_string (dh_next_tid ex_deaf) < t"
proof -
  let ?s = "(Dht_new (replicate 20 CHR ''h'') 7000 False (hash_of [1]) (hash_of [9]) 0 None)\<lparr>dh_open := True\<rparr>"
  show "dht_reach cr ex_deaf" unfolding ex_deaf_def by (rule dht_next [OF dht_next [OF dht_first dht_start] dht_tick])
  have s: "dh_open ?s" "dh_nodes ?s = []" "\<not> dh_active ?s" "dh_last_bootstrap ?s = 0" "dh_pending ?s = []" "dh_next_tid ?s = 1"
    by (simp_all add: Dht_new_def Let_def)
  note d = deaf_state [of "?s\<lparr>dh_last_bootstrap := 1\<rparr>" "replicate 65535 (ex_from 2)"]
  have e: "ex_deaf = fold find_self (replicate 65535 (ex_from 2)) (?s\<lparr>dh_last_bootstrap := 1\<rparr>)"
    unfolding ex_deaf_def by (rule first_tick [OF s(1-4)])
  have n: "length (replicate 65535 (ex_from 2)) = 65535" by (rule length_replicate)
  have t: "dh_open (?s\<lparr>dh_last_bootstrap := 1\<rparr>)" "dh_pending (?s\<lparr>dh_last_bootstrap := 1\<rparr>) = []" "dh_next_tid (?s\<lparr>dh_last_bootstrap := 1\<rparr>) = 1"
    using s by simp_all
  show "dh_open ex_deaf" "length (dh_pending ex_deaf) = 4000" unfolding e using d(1,2) [OF t n] .
  have z: "(0 :: u16) < 61536" by simp
  show "\<forall>t\<in>fst ` set (dh_pending ex_deaf). tid_string (dh_next_tid ex_deaf) < t"
    unfolding e d(3) [OF t n] by (rule d(4) [OF t n z])
qed

section \<open>HTTP requests\<close>

definition ex_http :: "char \<Rightarrow> string" where
  "ex_http c = ''POST'' @ CRLF @ ''Content-Length:'' @ [c] @ CRLF @ CRLF @ ''{}''"

lemma ex_http_end: "c \<noteq> CHR 0x0D \<Longrightarrow> find_sub (CRLF @ CRLF) (ex_http c) = Some 22"
  by (simp add: ex_http_def CRLF_def find_sub_skip find_sub_miss find_sub_here)

lemma ex_http_lower: "map to_lower (take 22 (ex_http c)) = ''post'' @ CRLF @ ''content-length:'' @ [to_lower c]"
  by (simp add: ex_http_def CRLF_def to_lower_def is_upper_def char_code_def char_of_def bit_iff_odd)

lemma ex_http_length: "content_length (take 22 (ex_http c)) = stoul [to_lower c]"
  by (simp add: content_length_def ex_http_lower Let_def) (simp add: CRLF_def find_sub_skip find_sub_miss find_sub_here)

lemma ex_http_reads:
  "find_sub (CRLF @ CRLF) (ex_http CHR ''2'') = Some 22" "content_length (take 22 (ex_http CHR ''2'')) = Some 2"
  "find_sub (CRLF @ CRLF) (ex_http CHR ''x'') = Some 22" "content_length (take 22 (ex_http CHR ''x'')) = None"
  "length (ex_http c) = 28"
  by (simp_all add: ex_http_end ex_http_length stoul_def to_lower_def is_upper_def char_code_def is_space_def is_digit_char_def dec_val_def digit_of_def Let_def)
    (simp add: ex_http_def CRLF_def)

end
