(* ===== verification/Spec2Isabelle.thy ===== *)
theory Spec2Isabelle
  imports Examples_P2P
begin

text \<open>
  Quant (QNT) is a proof-of-work currency with Falcon signatures, tokens and constant-product pools, in C++
  (\<open>src/src\<close>). A full node (\<open>node\<close>) ties together the chain state, the pool of unconfirmed transactions, the wallet,
  the miner and the peer-to-peer engine; a light client (\<open>light\<close>) keeps headers only and asks full nodes for proofs of
  its coins. This library models these parts as functions on explicit states and proves what they promise one another.

  How the code becomes Isabelle. A struct is a record, a variant or enum a datatype, \<open>uint64_t\<close> a 64-bit word, so that
  sums wrap as they do in the code; heights and times, which the code keeps in \<open>int64_t\<close> far from their bounds, are
  \<open>int\<close>. A \<open>std::map\<close> is an association list with distinct keys. A function that throws or reports
  a reason has the type \<open>result\<close>, where \<open>Inl\<close> holds the message; where a failure leaves changes behind, the state is
  returned beside it. A pointer to a node of the block tree is the hash of the block, and \<open>deref\<close> is the tree.
  Files are a map from paths to bytes whose writes can fail. A loop is structural recursion, a recursive function with a measure, or \<open>while_option\<close>.
  BLAKE3, SHA-256 and Falcon are third-party code: they are fields of the record \<open>crypto\<close>, and a theorem that needs
  more than that they are functions names it (a signature that was made verifies, keys have their sizes). Random bytes, the clock
  and what the system answers are arguments.

  The theories, from the bottom, with the code they model.
  \<^item> \<open>Prelude\<close>, \<open>Serialize\<close> (\<open>util/serialize.h\<close>): words, bytes and readers. The locales \<open>reads_back\<close> and \<open>codec\<close> state
    the contract of a writer and its reader; every wire and file format is an interpretation.
  \<^item> \<open>Text\<close>, \<open>Bech32\<close> (\<open>util/types\<close>, \<open>util/bech32\<close>), \<open>U256\<close>, \<open>Target\<close> (\<open>util/u256\<close>), \<open>Crypto\<close> (\<open>crypto\<close>), \<open>Transaction\<close>,
    \<open>Block\<close> (\<open>primitives\<close>), \<open>Limits\<close>, \<open>Emission\<close>, \<open>Params\<close>, \<open>Pow\<close> (\<open>consensus\<close>): the data, its encodings, the
    arithmetic of targets and subsidies, the networks.
  \<^item> \<open>Amm\<close>, \<open>Ledger\<close> (\<open>consensus/ledger\<close>): quotes of the pools and the overlay \<open>LedgerView\<close>. \<open>Coin_Store\<close> is the
    interface of a set of coins, which overlay and stored state provide; \<open>Ledger_Laws\<close> and \<open>Ledger_Spec\<close> show that applying a transaction
    refines an abstract ledger and conserves value.
  \<^item> \<open>Utxo\<close>, \<open>Chainstate\<close>, \<open>Chain_Ops\<close>, \<open>Chain_Activate\<close> (\<open>chain/chainstate\<close>): stored state, block tree, files,
    headers, connecting, disconnecting, reorganising, pruning, snapshots, start-up. \<open>Utxo_Laws\<close>, \<open>Chain_Tree\<close>, \<open>Chain_Walk\<close>
    (with the locale \<open>subtree_loop\<close>), \<open>View_Commit\<close>, \<open>Chain_Laws\<close>, \<open>Chain_Connect\<close>, \<open>Chain_Supply\<close>, \<open>Chain_Accept\<close> show that every operation returns and keeps
    the tree, that disconnecting is the inverse of connecting, and what a block adds to the supply.
  \<^item> \<open>Mempool\<close> (\<open>chain/mempool\<close>), \<open>Miner\<close>, \<open>Miner_Threads\<close> (\<open>miner\<close>): the pool executes in order on the tip; the threads are a step relation.
    \<open>Pool_Chain\<close> keeps the pool beside a chain that takes blocks, \<open>Pool_Signed\<close> shows that what the pool checked of
    signatures stays true, \<open>Miner_Valid\<close> follows a template from its header to \<open>connect_block\<close>.
  \<^item> \<open>Protocol\<close> (\<open>net/protocol\<close>, the address type of \<open>net/socket\<close>), \<open>P2P\<close>, \<open>P2P_Sync\<close>, \<open>P2P_Handle\<close>, \<open>P2P_Loop\<close> (\<open>net/p2p\<close>): frames, peers,
    every message handler, the event loop. \<open>P2P_Laws\<close> (locale \<open>peer_op\<close>: an operation on one peer) keeps the bounds of the engine for all its steps; \<open>P2P_Queue\<close> shows the one that is
    missing; \<open>P2P_Answers\<close> joins it with the light client.
  \<^item> \<open>Wallet\<close>, \<open>Wallet_File\<close>, \<open>Wallet_Build\<close> (\<open>wallet\<close>): keys and coins, the sealed file, payments; \<open>Wallet_Laws\<close>,
    \<open>Wallet_Reopen\<close>, \<open>Wallet_Spend\<close>, \<open>Wallet_Pays\<close>: its invariant, saving and opening, and that payments apply.
  \<^item> \<open>Light\<close>, \<open>Light_Wallet\<close>, \<open>Light_Laws\<close> (\<open>light\<close>): the header chain, conversations with peers, proofs of coins.
  \<^item> \<open>Node_Index\<close>, \<open>Node\<close> and their laws (\<open>node/node.cpp\<close>): the indexes of pools, trades and messages with their files
    (locale \<open>record_log\<close>), the callbacks in the order of registration, and the refresh of the wallet.
  \<^item> \<open>Bencode\<close>, \<open>Dht\<close> (\<open>net/dht.cpp\<close>): the values of the DHT protocol, node table, lookups, queries and answers; \<open>P2P_Dht\<close>: what
    a client reports to the engine. \<open>Dht_Laws\<close> keeps the tables well formed for all steps of a client, \<open>Dht_Meet\<close> follows an
    address from one client over a second to a third, \<open>Dht_Deaf\<close> shows how a client stops hearing answers.
  \<^item> \<open>Http\<close>, \<open>Http_Laws\<close> (\<open>node/httprpc.cpp\<close>): reading a request in pieces, and what is checked before a method runs.
  \<^item> \<open>Examples\<close>, \<open>Examples_Light\<close>, \<open>Examples_P2P\<close>: concrete states at which the properties below are exercised, over
    an instance of \<open>crypto\<close> that computes.

  Bounds. There is no fuel beyond the code's own counters: the light client's 100000 rounds of headers and 8 rounds of
  refreshing, the node's 10, the miner's number of tries. Work-list loops over the tree end because
  the tree is finite (\<open>Chain_Walk\<close>), activation because every retry marks a block as failed, the frame and send loops because there are fewer
  bytes to go.

  Not modelled. The methods of \<open>node/rpc.cpp\<close> turn JSON, through a third-party library, into
  calls of modelled operations and their results into JSON; of the HTTP server the sockets and the cookie file are left
  out. Of the DHT client, opening its socket, resolving the public routers and the status text are. UPnP, sockets, name resolution,
  entropy, logging and the command line are calls into libraries and the operating system. Mutexes are left out where one
  thread at a time runs under them (the miner's threads, which share a template between critical sections, are
  modelled as steps). Floating-point figures (difficulty, hash rate) are for display. Of the engine, the published statistics and the start and
  stop of threads are left out; of the node, the order of \<open>start\<close>. The word list of the mnemonics is a
  generated file and a parameter.
\<close>

section \<open>The ledger\<close>

text \<open>C1: a transaction that \<open>LedgerView::apply\<close> accepts has the effect of the abstract ledger: the
  overlay keeps its invariant, the coins it shows afterwards are those before less the inputs plus one
  coin for every output, and every input was an unspent coin that had matured.\<close>

theorem apply_refines_ledger:
  assumes "view_apply cr base tx height gen sigs v = Inr (fee, v')"
    and "check_tx_basic tx ew = Inr ()" "core_ok tx" "view_inv v" "fresh_txid base v (txid cr tx)"
  shows "view_inv v' \<and> view_coin base v' = spec_coins (txid cr tx) tx height (view_coin base v)
    \<and> (\<forall>p\<in>set (prevs tx). \<exists>c. view_coin base v p = Some c \<and> mature cr gen height c)"
  using view_apply_refines(1-3) [OF assms] by blast

theorem apply_refines_ledger_witness:
  "\<exists>v. view_apply toy ex_base ex_tx 5 ex_genesis True empty_view = Inr (100000, v)
    \<and> view_coin ex_base v = spec_coins (txid toy ex_tx) ex_tx 5 (rd_coin ex_base)"
proof -
  obtain v where "view_apply toy ex_base ex_tx 5 ex_genesis True empty_view = Inr (100000, v)" by (rule ex_apply)
  with apply_refines_ledger [OF this ex_tx_valid ex_view_inv ex_fresh] show ?thesis by simp
qed

text \<open>C2: applying a transaction conserves value. The state stays well formed; the amount of every asset, pool shares
  included, changes by exactly the tokens the transaction creates, the fee (of QNT) and, for the shares of a pool, by as
  much as the pool counts more or fewer of them; and no swap or change of liquidity lowers what a share of a pool stands
  for.\<close>

theorem apply_conserves_value:
  assumes "view_apply cr base tx height gen sigs v = Inr (fee, v')"
    and "check_tx_basic tx ew = Inr ()" "core_ok tx" "view_inv v" "fresh_txid base v (txid cr tx)"
    and "state_ok (view_reader base v)"
  shows "state_ok (view_reader base v')
    \<and> (\<forall>t p. view_pool base v t = Some p \<longrightarrow> (\<exists>p'. view_pool base v' t = Some p' \<and> share_value_le p p'))
    \<and> (\<forall>a. asset_total a (view_reader base v') + (if a = QNT_ASSET then unat fee else 0) + shares_issued cr a (view_reader base v) =
      asset_total a (view_reader base v) + minted_total cr tx 0 (ops tx) a + shares_issued cr a (view_reader base v'))"
  using view_apply_conserves [OF assms] by blast

theorem apply_conserves_value_witness:
  "\<exists>v. view_apply toy ex_base ex_tx 5 ex_genesis True empty_view = Inr (100000, v)
    \<and> asset_total QNT_ASSET (view_reader ex_base v) + 100000 = asset_total QNT_ASSET ex_base"
proof -
  obtain v where "view_apply toy ex_base ex_tx 5 ex_genesis True empty_view = Inr (100000, v)" by (rule ex_apply)
  moreover have "shares_issued toy QNT_ASSET R = 0" for R using ex_ids by (intro no_shares) (simp add: ids_nonzero_def)
  moreover have "state_ok (view_reader ex_base empty_view)" by simp
  ultimately show ?thesis
    using apply_conserves_value [OF _ ex_tx_valid ex_view_inv ex_fresh, of 5 ex_genesis True 100000 v, THEN conjunct2, THEN conjunct2, THEN spec, of QNT_ASSET]
    by auto
qed

text \<open>C18: the spending loop of \<open>apply\<close> dereferences an optional coin without a test. On a transaction that
  passed the context-free checks this never throws: a rejection is always one of the named reasons.\<close>

theorem apply_never_throws:
  assumes "check_tx_basic tx ew = Inr ()" "view_inv v" "length (ins tx) \<le> 2 ^ 32"
  shows "view_apply cr base tx height gen sigs v \<noteq> Inl ''bad optional access''"
  using view_apply_no_throw [OF assms] by (simp add: throws_def)

theorem apply_never_throws_witness:
  "view_apply toy ex_base ex_tx 5 ex_genesis False empty_view \<noteq> Inl ''bad optional access''"
  by (rule apply_never_throws [OF ex_tx_valid(1) ex_view_inv]) (simp add: ex_tx_def)

text \<open>C6: with signature checks on, nothing is spent without the key: for every input there is a Falcon
  witness in the transaction, the input's own or an earlier one it refers to, whose key hashes to the
  address of the spent coin and whose signature of the transaction's hash verifies.\<close>

theorem apply_needs_signatures:
  assumes "view_apply cr base tx height gen True v = Inr (fee, v')"
    and "check_tx_basic tx ew = Inr ()" "core_ok tx" "view_inv v" "fresh_txid base v (txid cr tx)"
    and "i < length (ins tx)"
  shows "signed_input cr tx (map (\<lambda>p. the (view_coin base v p)) (prevs tx)) gen i"
  using view_apply_refines(4) [OF assms(1-5) _ assms(6)] by blast

theorem apply_needs_signatures_witness:
  "signed_input toy ex_tx (map (\<lambda>p. the (rd_coin ex_base p)) (prevs ex_tx)) ex_genesis 0"
proof -
  obtain v where "view_apply toy ex_base ex_tx 5 ex_genesis True empty_view = Inr (100000, v)" by (rule ex_apply)
  from apply_needs_signatures [OF this ex_tx_valid ex_view_inv ex_fresh, of 0] show ?thesis by (simp add: ex_tx_def)
qed

section \<open>The chain\<close>

text \<open>C5: disconnecting undoes connecting. After a block with the data of \<open>accept_block\<close> was connected on
  the tip, \<open>disconnect_tip\<close> finds the undo record on disk and gives back the same coins, tokens and pools,
  the same chain and the same block tree, with the invariant of the state kept.\<close>

theorem disconnect_undoes_connect:
  assumes "tree_ok cs" "known cs idx" "bi_prev (deref cs idx) = Some (the_tip cs)" "\<not> bi_from_snapshot (deref cs idx)"
    and "connect_block cr idx cs = (cs', Inr ())" "read_block cr cs idx True = Some (b, got)"
    and "block_good cr ew (us_reader (cs_st cs)) b" "us_inv (cs_st cs)" "state_ok (us_reader (cs_st cs))"
  shows "\<exists>cs2. disconnect_tip cr cs' = (cs2, Inr ()) \<and> us_inv (cs_st cs2) \<and> us_reader (cs_st cs2) = us_reader (cs_st cs)
    \<and> cs_chain cs2 = cs_chain cs \<and> cs_index cs2 = cs_index cs"
  using disconnect_connected [OF assms] by (cases "disconnect_tip cr cs'") simp

theorem disconnect_undoes_connect_witness:
  "\<exists>cs' cs2. connect_block toy ex_tip (ex_node [ex_out 5]) = (cs', Inr ()) \<and> disconnect_tip toy cs' = (cs2, Inr ())
    \<and> us_reader (cs_st cs2) = us_reader clear_state \<and> cs_chain cs2 = [ex_genesis]"
proof -
  obtain cs' where c: "connect_block toy ex_tip (ex_node [ex_out 5]) = (cs', Inr ())" by (rule ex_connected)
  have "read_block toy (ex_node [ex_out 5]) ex_tip True = Some (ex_block [ex_out 5], True)" by (rule ex_read) simp
  from disconnect_undoes_connect [OF ex_tree(1) _ _ _ c this, of True] c show ?thesis by (auto simp: ex_good)
qed

text \<open>C4: a connected block adds at most its subsidy to the supply, provided the outputs of its coinbase add
  up to less than \<open>2 ^ 64\<close>; the supply is what is in coins and in pools.\<close>

theorem block_adds_at_most_subsidy:
  assumes "connect_block cr idx cs = (cs', Inr ())" "read_block cr cs idx True = Some (b, got)"
    "block_good cr ew (us_reader (cs_st cs)) b" "ids_nonzero cr" "b_height cs idx > 0"
    "us_inv (cs_st cs)" "state_ok (us_reader (cs_st cs))" "qnt_paid (hd (txs b)) < 2 ^ 64"
  shows "asset_total QNT_ASSET (us_reader (cs_st cs')) \<le> asset_total QNT_ASSET (us_reader (cs_st cs))
      + unat (fst (block_subsidy (word_of_int (b_height cs idx)) (cs_em cs)))"
  using connected_supply [OF assms(1-7)] assms(8) by simp

theorem block_adds_at_most_subsidy_witness:
  "asset_total QNT_ASSET (us_reader (cs_st (fst (connect_block toy ex_tip (ex_node [ex_out 5]))))) \<le> 89406967163"
proof -
  obtain cs' where c: "connect_block toy ex_tip (ex_node [ex_out 5]) = (cs', Inr ())" by (rule ex_connected)
  have "read_block toy (ex_node [ex_out 5]) ex_tip True = Some (ex_block [ex_out 5], True)" by (rule ex_read) simp
  from block_adds_at_most_subsidy [OF c this, of True] show ?thesis
    by (simp add: c ex_good ex_ids ex_subsidy ex_paid)
qed

text \<open>C3: the condition is needed. \<open>check_tx_basic\<close> and \<open>total_qnt_out\<close> add up in 64 bits, and \<open>MAX_MONEY\<close>
  is above \<open>2 ^ 63\<close>: a coinbase with two outputs of \<open>2 ^ 63\<close> passes both, its block connects, and the supply
  grows by \<open>2 ^ 64\<close> units.\<close>

theorem coinbase_overflow_mints:
  assumes "read_block cr cs idx True = Some (b, True)" "txs b = [cb]" "is_coinbase cb" "overflowing cb"
    and "t_version cb = 2" "ops cb = []" "wits cb = []"
    and "b_height cs idx > 0" "\<not> commit_mismatch cs idx" "fs_ok (cs_fs cs) (undo_path cs (bi_hash (deref cs idx)))"
    and "us_inv (cs_st cs)" "state_ok (us_reader (cs_st cs))" "\<forall>k. us_coin (cs_st cs) (OutPoint (txid cr cb) k) = None"
  shows "check_tx_basic cb True = Inr () \<and> total_qnt_out cb = 0 \<and> snd (connect_block cr idx cs) = Inr ()
    \<and> asset_total QNT_ASSET (us_reader (cs_st (fst (connect_block cr idx cs)))) =
      asset_total QNT_ASSET (us_reader (cs_st cs)) + 2 ^ 64"
  using overflowing_mints [OF assms(1-4,8-13)] overflowing_passes [OF assms(4,3,5-7)] overflowing_sum(1) [OF assms(4)] by simp

theorem coinbase_overflow_mints_witness:
  "snd (connect_block toy ex_tip (ex_node [ex_out half_range, ex_out half_range])) = Inr ()"
  using coinbase_overflow_mints [OF ex_read, of "[ex_out half_range, ex_out half_range]" "ex_coinbase 1 [ex_out half_range, ex_out half_range]"]
  by (simp add: ex_block_def ex_coinbase_def is_coinbase_def overflowing_def ex_out_def is_qnt_def QNT_ASSET_def)

text \<open>C7: choosing the best chain always returns, and keeps the block tree well formed: the work-list loops end,
  every node of the active chain is the parent of the next, skip pointers lead where they should, and no
  node is lost.\<close>

theorem activation_ends_on_tree:
  assumes "tree_ok cs" "refs_ok cs"
  shows "\<exists>cs'. activate_best_chain cr cs = Some cs' \<and> tree_ok cs' \<and> refs_ok cs' \<and> fixed cs cs'"
  using activate_best_chain_tree [OF assms, of cr] by metis

theorem activation_ends_on_tree_witness:
  "\<exists>cs'. activate_best_chain toy (ex_node []) = Some cs' \<and> tree_ok cs'"
  using activation_ends_on_tree [OF ex_tree [of "[]"], of toy] by blast

text \<open>C11: accepting a header, whatever the verdict, keeps the block tree and the references into it well formed;
  a new node's height, parent, children entry and skip pointer are consistent with the rest.\<close>

theorem headers_keep_tree:
  assumes "tree_ok cs" "refs_ok cs"
  shows "tree_ok (fst (accept_header cr h cs)) \<and> refs_ok (fst (accept_header cr h cs))"
proof -
  obtain cs' r why out where "accept_header cr h cs = (cs', r, why, out)" by (metis prod_cases4)
  with accept_header_tree [OF assms this] show ?thesis by simp
qed

theorem headers_keep_tree_witness:
  "tree_ok (fst (accept_header toy (ex_header ex_tip 7) (ex_node [])))"
  using headers_keep_tree [OF ex_tree] by blast

text \<open>C15: \<open>ancestor\<close>, which follows skip pointers and shortcuts through the active chain, is the plain walk:
  the block reached by following \<open>prev\<close> down to the height.\<close>

theorem ancestor_follows_prev:
  assumes "tree_ok cs" "known cs b" "0 \<le> h" "h \<le> b_height cs b"
  shows "ancestor cs b h = up cs (nat (b_height cs b - h)) b"
  using ancestor_correct [OF assms] .

theorem ancestor_follows_prev_witness: "ancestor (ex_node []) ex_tip 0 = Some ex_genesis"
  using ancestor_follows_prev [of "ex_node []" ex_tip 0] by simp

text \<open>C14: marking a block as failed ends and reaches its whole subtree: every descendant is marked, no mark is
  removed, no candidate is added, and the best header is chosen again.\<close>

theorem failure_reaches_descendants:
  assumes "index_ok cs" "known cs b"
  shows "\<exists>cs'. mark_failed b cs = Some cs' \<and> same_tree cs cs' \<and> (\<forall>d. desc cs b d \<longrightarrow> bi_failed (deref cs' d))
    \<and> (\<forall>h. bi_failed (deref cs h) \<longrightarrow> bi_failed (deref cs' h)) \<and> set (cs_candidates cs') \<subseteq> set (cs_candidates cs)"
  using mark_failed_ends [OF assms] by metis

theorem failure_reaches_descendants_witness:
  "\<exists>cs'. mark_failed ex_tip (ex_node []) = Some cs' \<and> bi_failed (deref cs' ex_tip)"
  using failure_reaches_descendants [of "ex_node []" ex_tip] ex_tree(1) [of "[]"] desc_refl [of "ex_node []" ex_tip]
  by (auto simp: tree_ok_def)

text \<open>C16: a snapshot of the state parses back to the same coins, tokens, pools and supply, with the address
  index rebuilt, and to the block and height it was taken at.\<close>

theorem snapshot_round_trip:
  assumes "us_inv s" "sizes_ok s" "0 \<le> height" "height < 2 ^ 63"
  shows "\<exists>s'. parse_state (serialize_state tp height s) = (s', Some (tp, height))
    \<and> us_inv s' \<and> us_reader s' = us_reader s \<and> us_supply s' = us_supply s"
  using parse_serialize_state [OF assms] .

theorem snapshot_round_trip_witness:
  "\<exists>s'. parse_state (serialize_state ex_tip 1 clear_state) = (s', Some (ex_tip, 1)) \<and> us_inv s'"
  using snapshot_round_trip [of clear_state 1 ex_tip] by (auto simp: sizes_ok_def) (auto simp: clear_state_def)

section \<open>The memory pool and the miner\<close>

text \<open>C8: whatever transactions are offered to the pool and blocks to the chain, in whatever order and whichever of them
  are taken, all of these operations return and the pool's invariant holds after them: its entries are distinct, indexed,
  counted and within the limit, and executing them in order on the ledger as it is then succeeds with the fees they
  record, unless a rebuild is pending; and none is pending once a block has moved the tip. \<open>set_chain\<close> runs the pool's callbacks for
  the blocks that \<open>accept_block\<close> connected and disconnected. Accepting also keeps every entry signed for the outputs it spends.\<close>

theorem mempool_invariant:
  assumes "pool_sound cr s"
  shows "\<exists>s'. pool_steps cr xs s = Some s' \<and> pool_sound cr s'
    \<and> (\<forall>b w cs' res new. accept_block cr b w (pn_cs s') = Some (cs', res, new) \<and> the_tip cs' \<noteq> the_tip (pn_cs s') \<longrightarrow>
        \<not> mp_dirty (pn_mp (set_chain cr cs' s')))
    \<and> (\<forall>g tx. ledger_agrees g (cs_reader (pn_cs s')) \<and> tx_agrees cr g tx \<and> pool_signed cr g (genesis_hash (cs_p (pn_cs s'))) (pn_mp s') \<longrightarrow>
        pool_signed cr g (genesis_hash (cs_p (pn_cs s'))) (fst (mp_accept cr (pn_cs s') tx (pn_mp s'))))"
proof -
  obtain s' where s': "pool_steps cr xs s = Some s'" "pool_sound cr s'" using pool_steps_sound [OF assms] by blast
  then have i: "mp_inv cr (pn_cs s') (pn_mp s')" by (simp add: pool_sound_def)
  have "\<not> mp_dirty (pn_mp (set_chain cr cs' s'))" if "accept_block cr b w (pn_cs s') = Some (cs', res, new)" "the_tip cs' \<noteq> the_tip (pn_cs s')" for b w cs' res new
    by (rule pool_follows(2) [OF accept_block_told [OF that(1)] i that(2)])
  then show ?thesis using s' accept_signed [OF i] by blast
qed

theorem mempool_invariant_witness:
  "\<exists>s. pool_steps toy [Inl ex_tx, Inr (ex_block [], True), Inl ex_tx] ex_net = Some s \<and> mp_inv toy (pn_cs s) (pn_mp s)"
proof -
  have "pool_sound toy ex_net" using ex_tree [of "[]"] ex_pool(2) [of toy "ex_node []"] by (simp add: pool_sound_def ex_net_def)
  from mempool_invariant [OF this, of "[Inl ex_tx, Inr (ex_block [], True), Inl ex_tx]"] show ?thesis
    unfolding pool_sound_def by blast
qed

text \<open>C17: what the pool offers for a block is a subsequence of its entries that fits the size and executes on
  the chain state with exactly the fees announced; and if all entries fit, it offers all of them.\<close>

theorem selection_executes:
  assumes "mp_inv cr cs mp" "\<not> mp_dirty mp" "unat max_bytes + 100000 < 2 ^ 64"
    and "select_for_block cr cs max_bytes mp = (sel, fees)"
  shows "subseq sel (mp_order mp) \<and> total_size sel \<le> unat max_bytes \<and> (\<exists>v. executes cr cs sel v fees)
    \<and> (total_size (mp_order mp) \<le> unat max_bytes \<longrightarrow> sel = mp_order mp)"
proof -
  have inv: "mp_ok cr mp" "executes cr cs (mp_order mp) (mp_view mp) (\<Sum>e\<leftarrow>mp_order mp. me_fee e)"
    using assms(1,2) by (simp_all add: mp_inv_def)
  have "select_for_block cr cs max_bytes mp = (mp_order mp, \<Sum>e\<leftarrow>mp_order mp. me_fee e)" if "total_size (mp_order mp) \<le> unat max_bytes"
    using select_loop_all [OF inv(2) [unfolded executes_def], of 0 max_bytes] that by (simp add: select_for_block_def)
  with select_sizes [OF assms(4) inv(1) assms(3)] assms(4) show ?thesis by auto
qed

theorem selection_executes_witness:
  "\<exists>sel fees v. select_for_block toy (ex_node []) 1000 Mempool_new = (sel, fees) \<and> executes toy (ex_node []) sel v fees"
proof -
  obtain sel fees where "select_for_block toy (ex_node []) 1000 Mempool_new = (sel, fees)" by fastforce
  from selection_executes [OF ex_pool(2) _ _ this] this show ?thesis by (auto simp: Mempool_new_def)
qed

text \<open>C10: a template that is mined makes a block. With a nonce that meets the target, its header passes every check of
  \<open>accept_header\<close>, the block every check of \<open>accept_block\<close> (one coinbase, first, of the right height and form, matching roots, size
  within the limit, no invalid or duplicate transaction), which answers with success unless the disk fails; and in every
  state with that tree, ledger and these snapshots, once it is on disk, \<open>connect_block\<close> takes it, signatures checked: its transactions
  apply on top of the coinbase, which pays the subsidy plus exactly their fees. The conditions: the tip is not marked
  as failed; at a height that commits to a snapshot the node holds it (else the template's commitment is zero, and its header is
  refused); the median time is not ahead of the clock by the drift; and the pool's entries are signed for the outputs they spend,
  which the pool checked when they came in.\<close>

theorem templates_are_valid:
  assumes "create_block_template cr cs mp payout tag en = (b, cs')" "chain_good cs" "mp_ok cr mp"
    and "txid cr (hd (txs b)) \<notin> set (mp_by_id mp)" "\<forall>k. us_coin (cs_st cs) (OutPoint (txid cr (hd (txs b))) k) = None"
    and "total_qnt_out (hd (txs b)) \<le> MAX_MONEY" "em_inv (cs_em cs)"
    and "pool_signed cr g (genesis_hash (cs_p cs)) mp" "ledger_agrees g (cs_reader cs)"
    and "h = (header b)\<lparr>h_nonce := n\<rparr>" "check_pow (header_hash cr h) (h_bits h) (cs_p cs)" "\<not> known cs (header_hash cr h)"
    and "\<not> bi_failed (deref cs (the_tip cs))"
    and "is_commit_height (cs_p cs) (cs_height cs + 1) \<Longrightarrow> commit_for_next cs (the_tip cs) \<noteq> hash_zero"
    and "0 \<le> cs_now cs" "cs_now cs + MAX_FUTURE_DRIFT < 2 ^ 63" "median_time_past cs (the_tip cs) < cs_now cs + MAX_FUTURE_DRIFT"
  shows "\<exists>cs1. accept_header cr h cs = (cs1, HOk, '''', Some (header_hash cr h))
    \<and> check_block_shape cr cs1 (header_hash cr h) (b\<lparr>header := h\<rparr>) True = Inr ()
    \<and> check_block_body cr cs1 (header_hash cr h) (b\<lparr>header := h\<rparr>) True = Inr ()
    \<and> (\<exists>cs2 res new. accept_block cr (b\<lparr>header := h\<rparr>) True cs = Some (cs2, res, new) \<and> (res = Inr () \<and> new \<or> res = Inl ''disk-write-failed''))
    \<and> (\<forall>cs2. stored_on cr cs1 (b\<lparr>header := h\<rparr>) (header_hash cr h) cs2 \<longrightarrow> snd (connect_block cr (header_hash cr h) cs2) = Inr ())
    \<and> (\<exists>v fees. apply_txs cr (cs_reader cs) (next_height cs) (genesis_hash (cs_p cs)) True (tl (txs b))
          (apply_coinbase cr (hd (txs b)) (next_height cs) empty_view) 0 = Inr (v, fees)
        \<and> total_qnt_out (hd (txs b)) = fst (block_subsidy (next_height cs) (cs_em cs)) + fees)"
proof -
  have c: "chain_ok cs" using assms(2) by (simp add: tree_ok_def)
  note p = template_connects [OF assms(1,3) c assms(4,5,8,9)]
  show ?thesis
  proof (rule mined_template [OF assms])
    fix cs1
    assume m: "accept_header cr h cs = (cs1, HOk, '''', Some (header_hash cr h))"
      "check_block_shape cr cs1 (header_hash cr h) (b\<lparr>header := h\<rparr>) True = Inr ()"
      "check_block_body cr cs1 (header_hash cr h) (b\<lparr>header := h\<rparr>) True = Inr ()"
      "\<exists>cs2 res new. accept_block cr (b\<lparr>header := h\<rparr>) True cs = Some (cs2, res, new) \<and> (res = Inr () \<and> new \<or> res = Inl ''disk-write-failed'')"
      "\<And>cs2. stored_on cr cs1 (b\<lparr>header := h\<rparr>) (header_hash cr h) cs2 \<Longrightarrow> snd (connect_block cr (header_hash cr h) cs2) = Inr ()"
    show ?thesis by (rule exI [of _ cs1], intro conjI) (rule m(1-4) p | (rule allI, rule impI, erule m(5)))+
  qed
qed

theorem templates_are_valid_witness:
  "\<exists>h cs1. h_prev h = ex_genesis \<and> accept_header toy h (ex_node []) = (cs1, HOk, '''', Some (header_hash toy h))"
proof -
  obtain b cs' where t: "create_block_template toy (ex_node []) Mempool_new ex_genesis [] 5 = (b, cs')" by fastforce
  obtain h n where h: "h = (header b)\<lparr>h_nonce := n\<rparr>" "header_hash toy h \<noteq> ex_tip" using ex_nonces [of "header b"] by metis
  obtain f: "h_bits h = 0x207fffff" "h_prev h = ex_genesis" by (rule template_parts [OF t]) (simp add: h(1) ex_bits)
  obtain x where x: "header_hash toy h = toy_hash 1 x" by (simp add: header_hash_write blake3_def toy_def)
  then have "header_hash toy h \<noteq> ex_genesis"
    by (simp add: toy_hash_def ex_genesis_def hash_bytes_eq_iff [symmetric] hash_bytes_hash_of)
  with h(2) have k: "\<not> known (ex_node []) (header_hash toy h)" by simp
  have r: "txs b = [template_coinbase ex_genesis [] 5 1 89406967163]" by (rule ex_template [OF t])
  have o: "cs_now (ex_node []) = 1790121600" "\<not> bi_failed (deref (ex_node []) ex_genesis)"
    by (simp add: ex_node_def Chainstate_new_def) (simp add: ex_deref blank_index_def)
  have a: "chain_good (ex_node [])" "em_inv (cs_em (ex_node []))" "pool_signed toy (\<lambda>_. ex_out 0) (genesis_hash (cs_p (ex_node []))) Mempool_new"
    "ledger_agrees (\<lambda>_. ex_out 0) (cs_reader (ex_node []))"
    by (simp_all add: em_inv_def pool_signed_def Mempool_new_def ledger_agrees_def us_reader_def)
  have new: "txid toy (hd (txs b)) \<notin> set (mp_by_id Mempool_new)" "\<forall>k. us_coin (cs_st (ex_node [])) (OutPoint (txid toy (hd (txs b))) k) = None"
    "total_qnt_out (hd (txs b)) \<le> MAX_MONEY"
    by (simp_all add: Mempool_new_def r total_qnt_out_def template_coinbase_def is_qnt_def QNT_ASSET_def limit_defs)
  have pow: "check_pow (header_hash toy h) (h_bits h) (cs_p (ex_node []))" using x f(1) ex_pow by simp
  have commit: "\<not> is_commit_height (cs_p (ex_node [])) (cs_height (ex_node []) + 1)"
    by (simp add: is_commit_height_def ex_params_def cs_height_def)
  have clock: "0 \<le> cs_now (ex_node [])" "cs_now (ex_node []) + MAX_FUTURE_DRIFT < 2 ^ 63"
    "median_time_past (ex_node []) (the_tip (ex_node [])) < cs_now (ex_node []) + MAX_FUTURE_DRIFT" "\<not> bi_failed (deref (ex_node []) (the_tip (ex_node [])))"
    using o by (simp_all add: MAX_FUTURE_DRIFT_def ex_mtp)
  from templates_are_valid [OF t a(1) ex_pool(1) new a(2-4) h(1) pow k clock(4) _ clock(1-3)] commit f(2) show ?thesis by blast
qed

text \<open>C19: in every reachable state of the mining threads, a block that was found while no template was being
  replaced has a hash below the target of its own bits.\<close>

theorem found_blocks_meet_target:
  assumes "mreach cr s" "i < length (mi_found s)" "mi_clean s ! i"
  shows "below_target cr (mi_found s ! i)"
  using found_clean [OF mreach_minv [OF assms(1)] assms(2,3)] .

theorem found_blocks_meet_target_witness:
  "\<exists>s. mreach toy s \<and> mi_found s = [ex_block []] \<and> below_target toy (mi_found s ! 0)"
proof -
  let ?s = "try_nonce toy 0 (mining (ex_block []) 1)"
  have r: "mreach toy ?s" using attempt_reachable [OF mining_reachable] by blast
  have f: "mi_found ?s = [ex_block []]" "mi_clean ?s = [True]" using mining_found [where cr = toy and b = "ex_block []" and n = 1] ex_below by (simp_all add: ex_nonce)
  from found_blocks_meet_target [OF r, of 0] r f show ?thesis by (intro exI [of _ ?s]) simp
qed

text \<open>C20: the qualification is needed. The coordinator writes the new template before it counts it, and in between
  a worker that found a nonce for the old template puts it into the new one: a block with a nonce nobody
  tried is handed to \<open>on_found\<close>.\<close>

theorem stale_nonce_in_new_template:
  assumes "below_target cr (b1\<lparr>header := (header b1)\<lparr>h_nonce := n\<rparr>\<rparr>)"
  shows "\<exists>s. mreach cr s \<and> mi_found s = [b2\<lparr>header := (header b2)\<lparr>h_nonce := n\<rparr>\<rparr>] \<and> mi_clean s = [False]"
  using race_reachable [of cr b1 b2 n] race_found [OF assms, of b2] by blast

theorem stale_nonce_in_new_template_witness:
  "\<exists>s. mreach toy s \<and> mi_found s = [(ex_block [])\<lparr>header := ex_header ex_tip 1\<rparr>]"
proof -
  have "below_target toy ((ex_block [])\<lparr>header := (header (ex_block []))\<lparr>h_nonce := 1\<rparr>\<rparr>)" by (simp add: ex_nonce ex_below)
  from stale_nonce_in_new_template [OF this, of "(ex_block [])\<lparr>header := ex_header ex_tip 3\<rparr>"] show ?thesis
    by (auto simp: ex_header_def ex_block_def)
qed

section \<open>The wire\<close>

text \<open>C21: messages framed by one side arrive at the other, all of them, in order and unchanged, however the bytes
  of the connection are cut into pieces.\<close>

theorem framed_messages_arrive:
  assumes "length (magic p) = 4" "\<forall>(c, pl)\<in>set ms. cmd_ok c \<and> length pl \<le> MAX_MESSAGE"
    and "concat ds = concat (map (\<lambda>(c, pl). frame_message cr p c pl) ms)"
  shows "receive cr p ds [] = (ms, NeedMore)"
  using receive_drain [of cr p "[]" ds] drain_frames [OF assms(1,2), of cr] assms(3)
  by (simp add: frame_next_def FRAME_HEADER_def)

theorem framed_messages_arrive_witness:
  "receive toy (build_switch Regtest)
     (map (\<lambda>x. [x]) (frame_message toy (build_switch Regtest) CPing [1, 2, 3] @ frame_message toy (build_switch Regtest) CPong [])) []
   = ([(CPing, [1, 2, 3]), (CPong, [])], NeedMore)"
  by (rule framed_messages_arrive) (simp_all add: MAX_MESSAGE_def)

section \<open>The network\<close>

text \<open>C13: whatever peers send, and whatever other threads ask for, the engine stays within these bounds: a peer remembers at
  most 5000 announcements; unless it is about to be dropped, at most 64 MB wait to be sent to it and at most two messages of the largest
  size have been received and not handled; no peer has more than 16 requests in flight, every request in flight belongs to a peer that
  is there, ids are unique, and the block tree and the pool behind the engine stay well formed. The buffer to be sent itself
  has no bound: what was sent is only removed when nothing is left to send, so to a peer that always leaves a byte
  unread the same message can be sent any number of times, all of them are kept, and it is not dropped.\<close>

theorem peers_stay_bounded:
  assumes "p2p_ok cr s0" "p2p_run cr s0 s"
  shows "distinct (map pe_id (pn_peers s))
    \<and> (\<forall>p\<in>set (pn_peers s). length (pe_known_order p) \<le> 5000 \<and> pe_tx_off p \<le> length (pe_txbuf p)
        \<and> (pe_disconnect p \<or> length (pe_txbuf p) - pe_tx_off p \<le> 64 * 1024 * 1024 \<and> length (pe_rx p) \<le> 2 * MAX_MESSAGE))
    \<and> (\<forall>(h, i, t)\<in>set (pn_inflight s). i \<in> pe_id ` set (pn_peers s)) \<and> (\<forall>i. load_of s i \<le> 16)
    \<and> tree_ok (pn_cs s) \<and> mp_ok cr (pn_mp s)
    \<and> (\<forall>p c payload i a t. length (frame_message cr p c payload) < 2 ^ 20 \<longrightarrow> (\<exists>socket. \<forall>n.
        \<not> pe_disconnect (sends cr p c payload n (new_peer i a socket t))
        \<and> length (pe_txbuf (sends cr p c payload n (new_peer i a socket t))) = n * length (frame_message cr p c payload)))"
proof -
  have "\<exists>socket. \<forall>n. \<not> pe_disconnect (sends cr p c payload n (new_peer i a socket t))
        \<and> length (pe_txbuf (sends cr p c payload n (new_peer i a socket t))) = n * length (frame_message cr p c payload)"
    if "length (frame_message cr p c payload) < 2 ^ 20" for p c payload i a t
    using queue_grows [OF that, of _ i a t] by (intro exI [of _ "slow_socket (length (frame_message cr p c payload))"]) blast
  with p2p_run_ok [OF assms(2,1)] show ?thesis unfolding p2p_held_def peers_ok_def flight_ok_def peer_ok_def by blast
qed

theorem peers_stay_bounded_witness:
  "length (pe_known_order (hd (pn_peers (broadcast_tx ex_cb_id ex_net)))) \<le> 5000 \<and> load_of (broadcast_tx ex_cb_id ex_net) 1 \<le> 16"
proof -
  have "p2p_run toy ex_net (broadcast_tx ex_cb_id ex_net)" by (rule p2p_more [OF p2p_start ask_relay])
  from peers_stay_bounded [OF ex_net_ok this] show ?thesis by (simp add: broadcast_tx_def ex_net_def)
qed

text \<open>C12: the loop of the engine never gets stuck: in every state it reaches, an iteration returns for whatever events
  \<open>poll\<close> reports and whatever the messages hold, and afterwards no peer that was to be dropped is left.\<close>

theorem iterations_return:
  assumes "p2p_ok cr s0" "p2p_run cr s0 s"
  shows "\<exists>s'. iteration cr e evs due s = Some s' \<and> p2p_run cr s0 s' \<and> (\<forall>p\<in>set (pn_peers s'). \<not> pe_disconnect p)"
proof -
  obtain s' where s': "iteration cr e evs due s = Some s'" "\<forall>p\<in>set (pn_peers s'). \<not> pe_disconnect p"
    by (rule iteration_ok [OF p2p_run_ok [OF assms(2,1)], of e evs due])
  moreover have "p2p_run cr s0 s'" by (rule p2p_more [OF assms(2) iterate [OF s'(1)]])
  ultimately show ?thesis by blast
qed

theorem iterations_return_witness: "\<exists>s'. iteration toy ex_env [Readable 1 [[1, 2, 3]] False] True ex_net = Some s'"
  using iterations_return [OF ex_net_ok p2p_start, of ex_env "[Readable 1 [[1, 2, 3]] False]" True] by blast

text \<open>C22: the two sides of the light protocol fit together. The proof a full node makes for a coin of its ledger is read back as it was
  written, and a client that has the header of the block, watches the address and does not hold the coin yet takes it,
  with the value, height and coinbase flag of the ledger.\<close>

theorem served_proofs_accepted:
  assumes "coin_proof cr cs (op, c) = Some u" "read_block cr cs (up_block u) False = Some (b, got)" "utxo_proof_ok u"
    and "compute_merkle_root cr b = merkle_root_f (header b)" "length (txs b) < 2 ^ 32" "coin_of cr b op c"
    and "height_of lc (up_block u) = Some h" "int h = sint (c_height c)" "merkle_root_f (lc_headers lc ! h) = merkle_root_f (header b)"
    and "is_mine w (o_addr (c_out c))" "map_of (ls_coins st) op = None"
  shows "read_utxo_proof (write_utxo_proof u @ r) = Inr (u, r)
    \<and> (\<exists>st'. accept_proof cr lc w u st = Inr st' \<and> map_of (ls_coins st') op =
        Some \<lparr>wc_op = op, wc_out = c_out c, wc_height = int h, wc_coinbase = c_coinbase c, wc_locked = False\<rparr>)"
  using served_proof_accepted [OF assms(1,2,4-11)] utxo_proofr.rd_wr [OF assms(3)] by blast

theorem served_proofs_accepted_witness:
  "\<exists>st'. accept_proof toy ex_synced ex_watcher ex_utxo empty_scan = Inr st' \<and> map_of (ls_coins st') (OutPoint ex_cb_id 0) = Some ex_utxo_coin"
proof -
  have b: "up_block ex_utxo = header_hash toy ex_next" "sint (c_height (up_coin ex_utxo)) = 1"
    "o_addr (c_out (up_coin ex_utxo)) = ex_owner" by (simp_all add: ex_utxo_def)
  have c: "\<lparr>wc_op = OutPoint ex_cb_id 0, wc_out = c_out (up_coin ex_utxo), wc_height = int 1, wc_coinbase = c_coinbase (up_coin ex_utxo),
      wc_locked = False\<rparr> = ex_utxo_coin" by (simp add: ex_utxo_def ex_utxo_coin_def)
  have rd: "read_block toy ex_server (up_block ex_utxo) False = Some (ex_stored, False)" using ex_server_read by (simp only: b)
  have n: "length (txs ex_stored) < 2 ^ 32" "header ex_stored = ex_next" "map_of (ls_coins empty_scan) (OutPoint ex_cb_id 0) = None"
    by (simp_all add: ex_stored_def empty_scan_def)
  from served_proofs_accepted [OF ex_served rd ex_utxo_ok ex_stored_root n(1) ex_coin_of, of ex_synced 1 ex_watcher empty_scan]
  show ?thesis using ex_client n b by (simp add: c [simplified])
qed

text \<open>C26: one peer can keep a new node from ever starting. While a snapshot is being downloaded, a chunk without bytes counts
  as progress: a peer that sends one at least once a minute, however long, keeps its place; the node asks nobody for a
  block, the buffer does not grow and the chain does not move.\<close>

theorem empty_chunks_stall_sync:
  assumes "snapshot_target s = Inr target" "po_fast_sync (pn_opt s)" "pn_snap_peer s = i" "i \<noteq> 0"
    and "pn_snap_total s \<noteq> 0" "pn_snap_total s \<le> 4 * 2 ^ 30" "length (pn_snap_buf s) < unat (pn_snap_total s)"
    and "minute_apart (pn_snap_since s) ticks"
  shows "\<exists>s'. drip cr i ticks s = Some s' \<and> pn_inflight s' = pn_inflight s \<and> pn_cs s' = pn_cs s \<and> pn_snap_buf s' = pn_snap_buf s
    \<and> pn_snap_peer s' = i \<and> pn_snap_since s' = last (pn_snap_since s # ticks)"
proof -
  have "snapshotting i target s" using assms(1-7) by (simp add: snapshotting_def)
  from drip_stalls [OF this assms(8), of cr] show ?thesis unfolding snapshotting_def by metis
qed

theorem empty_chunks_stall_sync_witness:
  "\<exists>s'. drip toy 1 [50000, 100000, 150000] ex_downloading = Some s' \<and> pn_inflight s' = [] \<and> pn_snap_peer s' = 1"
proof -
  have f: "po_fast_sync (pn_opt ex_downloading)" "pn_snap_peer ex_downloading = 1" "pn_snap_total ex_downloading = 100"
    "pn_snap_buf ex_downloading = []" "pn_snap_since ex_downloading = 0" "pn_inflight ex_downloading = []"
    by (simp_all add: ex_downloading_def ex_net_def ex_options_def)
  then show ?thesis using empty_chunks_stall_sync [OF ex_snap_target, of 1 "[50000, 100000, 150000]" toy]
    by (auto simp: word_le_nat_alt simp del: drip.simps)
qed

section \<open>Finding peers\<close>

text \<open>C23: two clients of the network find each other over the DHT through any third client that keeps its tables well
  formed: the announcement the first sends, with the token it was given, is read and stored there; the query the second
  sends is answered; and from the answer the second learns the address and port of the first.\<close>

theorem dht_clients_meet:
  assumes "dh_open sa" "length (dh_my_id sa) = 20" "length (dh_infohash sa) = 20" "ln_token na = token_for cr addr_a sb"
    and "addr_ok addr_a" "dh_v6 sb \<or> is_v4 addr_a" "dh_announce_port sa \<noteq> 0"
    and "dht_ok sb" "dh_infohash sb = dh_infohash sa" "length (dh_my_id sb) = 20" "\<forall>a\<in>set (dh_stored sb). addr_ok a \<and> (dh_v6 sb \<or> is_v4 a)"
    and "dht_ok sc" "dh_open sc" "dh_active sc" "length (dh_my_id sc) = 20" "length (dh_pending sc) < 4000"
    and "dh_infohash sc = dh_infohash sa" "dh_v6 sc = dh_v6 sb" "addr_ok addr_c"
  shows "\<exists>b q r. dh_sent (announce_to na sa) = dh_sent sa @ [(ln_addr na, b)]
    \<and> dh_sent (ask_node nc sc) = dh_sent sc @ [(ln_addr nc, q)]
    \<and> dh_sent (on_datagram cr now (q, addr_c) (on_datagram cr now (b, addr_a) sb)) = dh_sent (on_datagram cr now (b, addr_a) sb) @ [(addr_c, r)]
    \<and> with_port addr_a (dh_announce_port sa) \<in> set (dh_found (on_datagram cr' now (r, addr_b) (ask_node nc sc)))"
  by (rule clients_meet [OF assms, of nc now cr' addr_b]) blast

theorem dht_clients_meet_witness:
  "\<exists>r. with_port (ex_from 1) 7000 \<in> set (dh_found (on_datagram toy 5 (r, ex_from 2) (ask_node (ex_entry 2 []) (ex_dht 3))))"
proof -
  let ?na = "ex_entry 2 (token_for toy (ex_from 1) (ex_dht 2))"
  have "addr_ok (ex_from k)" "is_v4 (ex_from k)" for k by (simp_all add: ex_from_def v4_ip_v4)
  then show ?thesis
    using dht_clients_meet [of "ex_dht 1" ?na toy "ex_from 1" "ex_dht 2" "ex_dht 3" "ex_from 3" "ex_entry 2 []" 5 toy "ex_from 2"]
    by (simp add: ex_dht_fields ex_entry_def) blast
qed

text \<open>C32: whatever datagrams arrive, and whatever its state file holds, a DHT client keeps its node table, its waiting queries and the
  peers it stores for others bounded and well formed: at most 1500 nodes in the order of their ids, all with a routable address of its own
  family, 4000 waiting queries and 50 stored peers. (The peers it has found and the state of a running lookup are not among
  them: nothing limits those.) It also shows that no node is ever counted as failing, so that dropping and avoiding failing nodes never happens.\<close>

theorem dht_tables_bounded:
  assumes "dht_reach cr s"
  shows "ordered (dh_nodes s) \<and> length (dh_nodes s) \<le> 1500 \<and> length (dh_pending s) \<le> 4000
    \<and> length (dh_stored s) \<le> 50 \<and> distinct (dh_stored s)
    \<and> (\<forall>(i, n)\<in>set (dh_nodes s). length i = 20 \<and> i \<noteq> dh_my_id s \<and> dn_id n = i \<and> routable (dn_addr n) \<and> is_v4 (dn_addr n) \<noteq> dh_v6 s
        \<and> dn_fails n = 0)"
  using dht_reach_ok [OF assms] by (auto simp: dht_ok_def nodes_ok_def node_entry_ok_def)

theorem dht_tables_bounded_witness:
  "length (dh_nodes (tick 1 [] ((Dht_new (replicate 20 CHR ''h'') 7000 False (hash_of [1]) (hash_of [9]) 0 None)\<lparr>dh_open := True\<rparr>))) \<le> 1500"
  using dht_tables_bounded [OF ex_dht_reach [where cr = toy]] by blast

text \<open>C25: a client that has 4000 queries waiting whose ids are all above its next id is deaf: a new query is forgotten as it is sent,
  since the entry dropped to make room is the smallest id, its own, and whatever is answered to it is not looked at. (The 16-bit ids come
  round to such a state after 65535 unanswered queries; the witness is a reachable state of this kind.)\<close>

theorem dht_forgets_queries:
  assumes "dh_open s" "length (dh_pending s) = 4000" "\<forall>t\<in>fst ` set (dh_pending s). tid_string (dh_next_tid s) < t"
  shows "dh_pending (send_query a q args l s) = dh_pending s
    \<and> (\<forall>now m sender. bstr ''y'' m = Some ''r'' \<and> bstr ''t'' m = Some (tid_string (dh_next_tid s)) \<longrightarrow>
        dht_handle cr now m sender (send_query a q args l s) = send_query a q args l s)"
  using query_forgotten [OF assms] by blast

theorem dht_forgets_queries_witness:
  "dht_reach toy ex_deaf \<and> dh_pending (send_query (ex_from 3) ''get_peers'' [] True ex_deaf) = dh_pending ex_deaf"
  using dht_forgets_queries [OF ex_deaf(2-4)] ex_deaf(1) by blast

section \<open>The RPC server\<close>

text \<open>C24: a request of at most 16 MB whose headers announce the length of its body is read as its headers and its body, in
  whatever pieces it arrives. If the announced length is not a number, reading it throws where nothing catches, which ends
  the process: the token is only looked at later.\<close>

theorem http_requests_read:
  assumes "find_sub (CRLF @ CRLF) d = Some e" "length d \<le> 16 * 1024 * 1024"
  shows "(content_length (take e d) = None \<longrightarrow> serve sv js rpc [(Data d, late)] = Uncaught)
    \<and> (content_length (take e d) = Some (of_nat (length d - e - 4)) \<longrightarrow>
        (\<forall>ds. concat ds = d \<longrightarrow> recv_http (pieces ds) http_start = Some (Request (take e d) (drop (e + 4) d))))"
  using bad_length_uncaught [OF assms(1) _ assms(2)] request_split [OF assms] by blast

theorem http_requests_read_witness:
  "recv_http (pieces [ex_http CHR ''2'']) http_start = Some (Request (take 22 (ex_http CHR ''2'')) (drop 26 (ex_http CHR ''2'')))
   \<and> serve \<lparr>hs_public = False, hs_token = ''secret''\<rparr>
        \<lparr>js_parse = (\<lambda>s. None), js_id = Inr, js_method = Inl, js_params = Inr, js_answer = (\<lambda>i r. [])\<rparr>
        (\<lambda>m j. Inl m) [(Data (ex_http CHR ''x''), False)] = Uncaught"
proof -
  have "length (ex_http c) \<le> 16 * 1024 * 1024" for c by (simp add: ex_http_reads)
  moreover have "content_length (take 22 (ex_http CHR ''2'')) = Some (of_nat (length (ex_http CHR ''2'') - 22 - 4))"
    by (simp add: ex_http_reads)
  moreover have "concat [ex_http CHR ''2''] = ex_http CHR ''2''" "(22 :: nat) + 4 = 26" by simp_all
  ultimately show ?thesis
    using http_requests_read [OF ex_http_reads(1)] http_requests_read [OF ex_http_reads(3)] ex_http_reads(4) by metis
qed

section \<open>The node\<close>

text \<open>C27: refreshing the wallet cannot fail on a well-formed ledger. Its rounds are a list of wallets, each made from the
  one before; they end with a round that finds no new address to watch, or after ten that each found some. Afterwards the wallet
  holds exactly the coins of the ledger and of the pool that pay the addresses it watched when the last round began; these are all
  the addresses it watches then, unless each of the ten rounds found new ones.\<close>

theorem refresh_matches_ledger:
  assumes "us_inv st" "mp_ok cr mp" "\<And>e k. e \<in> set (mp_order mp) \<Longrightarrow> us_coin st (OutPoint (me_txid e) k) = None"
  shows "\<exists>ws as. hd ws = w \<and> refresh_trace cr 10 st mp ws \<and> refresh_coins cr 10 st mp w = Inr (last ws)
    \<and> as = watched_addresses (ws ! (length ws - 2)) \<and> prefix (watched_addresses w) as
    \<and> (\<forall>p c. map_of (w_coins (last ws)) p = Some c \<longleftrightarrow>
          (\<exists>k. us_coin st p = Some k \<and> o_addr (c_out k) \<in> set as \<and> c = held_coin mp p k)
          \<or> (\<exists>out. (p, out) \<in> set (mempool_outputs mp) \<and> o_addr out \<in> set as \<and> c = pending_coin mp p out))
    \<and> (as = watched_addresses (last ws)
       \<or> length ws = 11 \<and> (\<forall>i<9. watched_addresses (ws ! i) \<noteq> watched_addresses (ws ! Suc i)) \<and> as \<noteq> watched_addresses (last ws))"
proof -
  obtain ws where ws: "hd ws = w" "refresh_trace cr 10 st mp ws" "refresh_coins cr 10 st mp w = Inr (last ws)"
    "holds_coins (watched_addresses (ws ! (length ws - 2))) st mp (last ws)"
    "prefix (watched_addresses w) (watched_addresses (ws ! (length ws - 2)))"
    by (rule refresh_coins_ok [OF assms(1) pool_apart_fresh [OF assms(2,3)], of 10 w cr]) auto
  then show ?thesis unfolding holds_coins_def
    by (intro exI [of _ ws] exI [of _ "watched_addresses (ws ! (length ws - 2))"]) (auto simp: refresh_trace_def)
qed

theorem refresh_matches_ledger_witness:
  "\<exists>w'. refresh_coins toy 10 (add_coin ex_point ex_owned clear_state) Mempool_new ex_watcher = Inr w'
    \<and> map_of (w_coins w') ex_point = Some (held_coin Mempool_new ex_point ex_owned)"
proof -
  have "us_inv (add_coin ex_point ex_owned clear_state)" by (rule add_coin_inv [OF us_inv_clear]) (simp add: clear_state_def)
  from refresh_matches_ledger [OF this ex_pool(1), where cr = toy and w = ex_watcher]
  obtain ws as where ws: "refresh_coins toy 10 (add_coin ex_point ex_owned clear_state) Mempool_new ex_watcher = Inr (last ws)"
    "prefix (watched_addresses ex_watcher) as"
    "\<And>p c. map_of (w_coins (last ws)) p = Some c \<longleftrightarrow>
       (\<exists>k. us_coin (add_coin ex_point ex_owned clear_state) p = Some k \<and> o_addr (c_out k) \<in> set as \<and> c = held_coin Mempool_new p k)
       \<or> (\<exists>out. (p, out) \<in> set (mempool_outputs Mempool_new) \<and> o_addr out \<in> set as \<and> c = pending_coin Mempool_new p out)"
    by (auto simp: Mempool_new_def)
  have "ex_owner \<in> set (watched_addresses ex_watcher)" by (simp add: watched_addresses_def ex_watcher_def)
  then have "o_addr (c_out ex_owned) \<in> set as" using set_mono_prefix [OF ws(2)] by (auto simp: ex_owned_def)
  then show ?thesis using ws(1,3) by (intro exI [of _ "last ws"]) auto
qed

text \<open>C28: trades of a block that was disconnected come back at the next start. Memory forgets them, but the file keeps
  their records, and loading and rewriting it only drops records above the tip: when another block without swaps has
  taken the place of the block, its trades are listed again.\<close>

theorem orphaned_trades_return:
  assumes "rising cr [(b, h)]" "block_trades cr (b', h) = []" "h \<le> height"
    and "ni = trades_connect cr b' h (trades_disconnect h (trades_connect cr b h fresh_index))"
  shows "entries (ni_trades ni) t = []
    \<and> entries (ni_trades (trades_compact height can_open (trades_load (ni_f_trades ni) fresh_index))) t = of_token t (block_trades cr (b, h))"
  using disconnected_trades_return [OF assms] by blast

theorem orphaned_trades_return_witness:
  "\<exists>ni. ni = trades_connect toy (ex_block []) 1 (trades_disconnect 1 (trades_connect toy ex_swap_block 1 fresh_index))
    \<and> entries (ni_trades ni) (hash_of [8]) = []
    \<and> length (entries (ni_trades (trades_compact 7 True (trades_load (ni_f_trades ni) fresh_index))) (hash_of [8])) = 1"
  using orphaned_trades_return [OF ex_swaps(1,2) _ refl, of 7 "hash_of [8]" True] by (simp add: ex_swaps(3))

section \<open>The wallet\<close>

text \<open>C29: when a confirmed transaction is processed the wallet keeps its invariant (keys derived from the seed, index of
  addresses, look-ahead, keyed coins), forgets the coins the transaction spends, and holds a coin for every output to an
  address it watches. No other coin changes: one that does is such an output, to an address of the wallet, and is
  recorded as it was paid.\<close>

theorem wallet_follows_transaction:
  assumes "wallet_ok cr w" "0 \<le> height" "length (outs tx) \<le> 10000" "length (w_keys w) + 200064 < 2 ^ 32"
    and "\<forall>p\<in>prev ` set (ins tx). op_txid p \<noteq> txid cr tx"
  shows "wallet_ok cr (process_tx cr tx height time w)
    \<and> (\<forall>p\<in>prev ` set (ins tx). map_of (w_coins (process_tx cr tx height time w)) p = None)
    \<and> (\<forall>p. p \<notin> prev ` set (ins tx) \<longrightarrow> op_txid p \<noteq> txid cr tx \<longrightarrow>
        map_of (w_coins (process_tx cr tx height time w)) p = map_of (w_coins w) p)
    \<and> (\<forall>k<length (outs tx). is_mine w (o_addr (outs tx ! k)) \<longrightarrow>
        map_of (w_coins (process_tx cr tx height time w)) (OutPoint (txid cr tx) (of_nat k)) =
          Some \<lparr>wc_op = OutPoint (txid cr tx) (of_nat k), wc_out = outs tx ! k, wc_height = height,
                wc_coinbase = is_coinbase tx, wc_locked = False\<rparr>)
    \<and> (\<forall>p. p \<notin> prev ` set (ins tx) \<longrightarrow> map_of (w_coins (process_tx cr tx height time w)) p \<noteq> map_of (w_coins w) p \<longrightarrow>
        (\<exists>k<length (outs tx). p = OutPoint (txid cr tx) (of_nat k) \<and> is_mine (process_tx cr tx height time w) (o_addr (outs tx ! k))
          \<and> map_of (w_coins (process_tx cr tx height time w)) p =
              Some \<lparr>wc_op = p, wc_out = outs tx ! k, wc_height = height, wc_coinbase = is_coinbase tx, wc_locked = False\<rparr>))"
  by (intro conjI allI ballI impI; rule process_tx_law [OF assms]; assumption)

theorem wallet_follows_transaction_witness:
  "wallet_ok toy (process_tx toy ex_tx 5 0 (wallet_fresh toy ''w'' ex_params [] [] [] 0))"
proof -
  let ?w = "wallet_fresh toy ''w'' ex_params [] [] [] 0"
  have "\<forall>p\<in>prev ` set (ins ex_tx). op_txid p \<noteq> txid toy ex_tx" by code_simp
  from wallet_follows_transaction [OF wallet_fresh_ok _ _ _ this, where height = 5] show ?thesis
    by (simp add: wallet_fresh_keys) (simp add: ex_tx_def)
qed

text \<open>C9: a payment or a sweep the wallet builds from coins the ledger holds is accepted: with Falcon signatures that
  verify, \<open>LedgerView::apply\<close> takes the transaction into the next block, at exactly the fee the wallet announced, and
  that fee is at least what the memory pool asks for a transaction of its size.\<close>

theorem wallet_payments_apply:
  assumes "create_tx cr dests fpk tp sub w = (w', Inr (tx, fee)) \<or> create_sweep cr address fpk tp w = (w', Inr (tx, fee))"
    and "wallet_ok cr w" "room w" "coins_bounded w" "falcon_correct cr"
    and "coins_held w tp base" "same_network cr w tp" "coin_sum QNT_ASSET (wallet_coins w) \<le> unat MAX_MONEY"
    and "length (outs tx) \<le> 10000"
  shows "(\<exists>v. view_apply cr base tx (word_of_int (tp + 1)) (genesis_hash (w_p w)) True empty_view = Inr (fee, v))
    \<and> min_fee (length (write_full tx)) \<le> fee"
proof -
  have "coins_keyed w" using assms(2) by (simp add: wallet_ok_def)
  then obtain pl where "build_tx cr pl tp fpk w = (w', Inr (tx, fee))" "pay_plan w tp pl"
    using assms(1) create_tx_plan create_sweep_plan by metis
  from payment_applies [OF this assms(2-9)] show ?thesis by blast
qed

theorem wallet_payments_apply_witness:
  "\<exists>tx v. create_sweep toy ex_addr 0 10 ex_wallet = (ex_wallet, Inr (tx, 177800))
    \<and> view_apply toy ex_ledger_state tx 11 ex_genesis True empty_view = Inr (177800, v)"
proof -
  obtain tx where t: "create_sweep toy ex_addr 0 10 ex_wallet = (ex_wallet, Inr (tx, 177800))" "length (outs tx) = 1" by (rule ex_sweep)
  from wallet_payments_apply [OF disjI2 [OF t(1)] ex_wallet_ok(1,2) ex_network(3,5,2,1,4)] t
  show ?thesis by (auto simp: ex_wallet_ok(3) ex_params_def)
qed

text \<open>C30: saving is atomic. For a wallet within the limits of the file format (\<open>file_ok\<close>): if \<open>save\<close> succeeds, the file opens under
  the password of the wallet as the same wallet (keys, coins, history, contacts, position in the chain), with its invariant; if it fails, at whatever
  point, the file at the path of the wallet is what it was.\<close>

theorem wallet_saves_atomically:
  assumes "xof_fills cr" "cache_ok cr c" "length (se_salt e) = 16" "length (se_nonce e) = 16"
    and "file_ok cr w" "wallet_ok cr w" "wallet_save cr e w (c, fs) = (ok, c', fs')"
  shows "if ok then \<exists>w'. wallet_open cr (w_path w) (w_p w) (w_password w) fs' = Inr w' \<and> same_wallet w w' \<and> wallet_ok cr w'
      \<and> history w' = history w \<and> (\<forall>tp. wallet_balance w' tp = wallet_balance w tp)
    else read_file fs' (w_path w) = read_file fs (w_path w)"
proof (cases ok)
  case True
  have "length (wallet_serialize w) \<le> 268435456" using assms(5) by (simp add: file_ok_def)
  from open_saved(1) [OF assms(1-4) this] True assms(7) deserialize_serialize [OF assms(5)]
  have "wallet_open cr (w_path w) (w_p w) (w_password w) fs' = Inr (reopened w)" by simp
  with True show ?thesis using reopened_same [OF assms(5)] reopened_ok [OF assms(5,6)] by (auto simp: reopened_views)
next
  case False
  obtain data c1 where "seal cr (se_salt e) (se_nonce e) (wallet_serialize w) (w_password w) c = (data, c1)" by force
  with False show ?thesis using save_result(4) [OF assms(7)] by simp
qed

theorem wallet_saves_atomically_witness:
  "\<exists>n c fs w. wallet_save toy (ex_save n) ex_fresh_wallet (no_cache, ex_disk) = (True, c, fs)
    \<and> wallet_open toy (w_path ex_fresh_wallet) (w_p ex_fresh_wallet) (w_password ex_fresh_wallet) fs = Inr w
    \<and> same_wallet ex_fresh_wallet w"
proof -
  obtain n c fs where s: "wallet_save toy (ex_save n) ex_fresh_wallet (no_cache, ex_disk) = (True, c, fs)" using ex_saves by blast
  from wallet_saves_atomically [OF ex_save_ok(1,3-5) ex_fresh_file s] s show ?thesis by auto
qed

text \<open>C31: the reader of the wallet file refuses labels of more than 200 characters, and nothing refuses them before:
  handing out an address with such a label (the RPC method \<open>getnewaddress\<close> passes any label) and saving succeeds,
  and replaces the file by one that cannot be opened any more.\<close>

theorem long_label_locks_wallet:
  assumes "xof_fills cr" "cache_ok cr c" "length (se_salt e) = 16" "length (se_nonce e) = 16"
    and "file_ok cr w" "wallet_ok cr w" "200 < length label"
    and "length (wallet_serialize (snd (new_address cr label w))) \<le> 268435456"
    and "wallet_save cr e (snd (new_address cr label w)) (c, fs) = (True, c', fs')"
  shows "wallet_open cr (w_path w) (w_p w) (w_password w) fs' = Inl ''wallet file is corrupted or for another network''"
proof -
  have "unat (w_next_index w) < length (w_keys w)" using assms(6) by (simp add: wallet_ok_parts)
  then have "w_path (snd (new_address cr label w)) = w_path w" "w_p (snd (new_address cr label w)) = w_p w"
    "w_password (snd (new_address cr label w)) = w_password w"
    using new_address_frame [of w cr label] by auto
  with open_saved(1) [OF assms(1-4,8,9)] long_label_unreadable [OF assms(5-8)] show ?thesis by simp
qed

theorem long_label_locks_wallet_witness:
  "\<exists>n c fs. wallet_save toy (ex_save n) (snd (new_address toy (replicate 201 CHR ''a'') ex_fresh_wallet)) (no_cache, ex_disk) = (True, c, fs)
    \<and> wallet_open toy (w_path ex_fresh_wallet) (w_p ex_fresh_wallet) (w_password ex_fresh_wallet) fs
      = Inl ''wallet file is corrupted or for another network''"
proof -
  obtain n c fs where s: "wallet_save toy (ex_save n) (snd (new_address toy (replicate 201 CHR ''a'') ex_fresh_wallet)) (no_cache, ex_disk) = (True, c, fs)"
    using ex_saves by blast
  from long_label_locks_wallet [OF ex_save_ok(1,3-5) ex_fresh_file _ ex_label_bound s] s show ?thesis
    by (intro exI [of _ n] exI [of _ c] exI [of _ fs]) simp
qed

section \<open>The light client\<close>

text \<open>C33: whatever its peers send, the light client's chain starts at the genesis block and every header after it
  follows the rules (link, proof of work, difficulty, median time). The file gives it back: however much of it reached
  the disk when it was saved, what a later start loads is such a chain again, a part of the one saved.\<close>

theorem light_chain_stays_valid:
  assumes "light_ok cr lc" "sync_headers cr now space ps (lc, fs) = (r, lc', fs')"
  shows "light_ok cr lc'
    \<and> (header_hash cr (header (genesis (lc_p lc'))) = genesis_hash (lc_p lc') \<longrightarrow>
       (\<forall>n fs. fs_ok fs (headers_path lc') \<and> fs_ok fs (headers_path lc' @ ''.tmp'') \<longrightarrow>
         (let lc2 = light_load cr (save_headers n (headers_path lc') (lc_headers lc') fs) lc'
          in light_ok cr lc2 \<and> (\<exists>k. lc_headers lc2 = take k (lc_headers lc')))))"
  using sync_headers_law(1) [OF assms] saved_reloads [OF sync_headers_law(1) [OF assms]] by (simp add: Let_def)

theorem light_chain_stays_valid_witness:
  "\<exists>lc fs. sync_headers toy 0 1000 [ex_peer] (ex_light, ex_disk) = (LightOk, lc, fs) \<and> length (lc_headers lc) = 2 \<and> light_ok toy lc"
proof -
  obtain fs where s: "sync_headers toy 0 1000 [ex_peer] (ex_light, ex_disk) = (LightOk, ex_synced, fs)" using ex_sync by blast
  from light_chain_stays_valid [OF ex_light_ok s] have "light_ok toy ex_synced" by blast
  with s show ?thesis by (simp add: ex_synced_def light_push_def)
qed

text \<open>C34: every confirmed coin in the wallet after a refresh is an output of a transaction whose id a Merkle path
  connects to the Merkle root of the header at the height of the coin, in the chain the client has checked.\<close>

theorem light_coins_are_proved:
  assumes "light_ok cr lc" "refresh_wallet cr e lc ps w st = (LightOk, w', st')" "map_of (w_coins w') p = Some c" "0 \<le> wc_height c"
  shows "wc_op c = p \<and> nat (wc_height c) < length (lc_headers lc)
    \<and> (\<exists>core r tx idx cnt path. op_txid p = blake3_tagged cr ctx_TXID core \<and> read_core core = Inr (tx, r)
       \<and> merkle_verify cr (op_txid p) idx cnt path (merkle_root_f (lc_headers lc ! nat (wc_height c)))
       \<and> unat (op_n p) < length (outs tx) \<and> wc_out c = outs tx ! unat (op_n p) \<and> wc_coinbase c = is_coinbase tx)"
proof -
  have c: "wc_op c = p" "coin_proved cr lc c" using refresh_proved(1) [OF assms(1,2)] assms(3) by (auto simp: coins_proved_def)
  from c(2) assms(4) show ?thesis unfolding coin_proved_def c(1) by simp
qed

theorem light_coins_are_proved_witness:
  "\<exists>w st. refresh_wallet toy (ex_save 0) ex_synced [ex_peer] ex_watcher (no_cache, ex_disk) = (LightOk, w, st)
    \<and> map_of (w_coins w) (OutPoint ex_cb_id 0) = Some ex_utxo_coin
    \<and> (\<exists>idx cnt path. merkle_verify toy ex_cb_id idx cnt path (merkle_root_f ex_next))"
proof -
  obtain w st where r: "refresh_wallet toy (ex_save 0) ex_synced [ex_peer] ex_watcher (no_cache, ex_disk) = (LightOk, w, st)"
    "map_of (w_coins w) (OutPoint ex_cb_id 0) = Some ex_utxo_coin" using ex_refresh by blast
  have h: "wc_height ex_utxo_coin = 1" "lc_headers ex_synced ! 1 = ex_next" by (simp_all add: ex_utxo_coin_def ex_synced_def light_push_def)
  from light_coins_are_proved [OF ex_synced_ok r] h r show ?thesis by auto
qed

section \<open>Blocks and transactions as bytes\<close>

text \<open>C35: a byte string parses as a full transaction, or as a full block, with nothing left over, exactly when it is
  the encoding of that transaction or block and the size limits are respected: the encodings are
  canonical, so a transaction or block has one encoding only.\<close>

theorem encodings_canonical:
  "(read_full b = Inr (t, []) \<longleftrightarrow> core_ok t \<and> witness_ok t \<and> b = write_full t)
   \<and> (read_block_full bs = Inr (blk, []) \<longleftrightarrow> block_ok blk \<and> bs = block_full_bytes blk)"
  using fullc.rd_iff [of b t "[]"] blockc.rd_iff [of bs blk "[]"] by simp

text \<open>C36: the Merkle path made for a leaf leads from that leaf to the root; and from a path that leads from anything else to
  the root, \<open>merkle_clash\<close> reads off two different inputs of the node hash with one value, comparing it with the tree level by level.\<close>

theorem merkle_proofs_bind:
  assumes "i < length l"
  shows "merkle_climb cr (l ! i) i (length l) (merkle_proof cr l i) = Some (merkle_root cr l)
    \<and> (\<forall>h pf. merkle_climb cr h i (length l) pf = Some (merkle_root cr l) \<and> h \<noteq> l ! i \<longrightarrow>
        (case merkle_clash cr h i l pf of (c, t) \<Rightarrow> c \<noteq> t \<and> merkle_node cr (fst c) (snd c) = merkle_node cr (fst t) (snd t)))"
proof (intro conjI allI impI)
  show "merkle_climb cr (l ! i) i (length l) (merkle_proof cr l i) = Some (merkle_root cr l)" by (rule merkle_climb_proof [OF assms])
  show "case merkle_clash cr h i l pf of (c, t) \<Rightarrow> c \<noteq> t \<and> merkle_node cr (fst c) (snd c) = merkle_node cr (fst t) (snd t)"
    if "merkle_climb cr h i (length l) pf = Some (merkle_root cr l) \<and> h \<noteq> l ! i" for h pf
    using merkle_climb_clash [OF conjunct1 [OF that] assms conjunct2 [OF that]] by (simp split: prod.split)
qed

theorem merkle_proofs_bind_witness:
  "case merkle_clash toy (hash_of [1]) 0 [hash_of [2], hash_of [1]] [hash_of [2]] of (c, t) \<Rightarrow>
     c \<noteq> t \<and> merkle_node toy (fst c) (snd c) = merkle_node toy (fst t) (snd t)"
proof -
  have "merkle_climb toy (hash_of [1]) 0 (length [hash_of [2], hash_of [1]]) [hash_of [2]] = Some (merkle_root toy [hash_of [2], hash_of [1]])"
    "hash_of [1] \<noteq> [hash_of [2], hash_of [1]] ! 0" by code_simp+
  with merkle_proofs_bind [of 0 "[hash_of [2], hash_of [1]]" toy, THEN conjunct2, THEN spec, THEN spec, THEN mp, OF _ conjI]
  show ?thesis by simp
qed

section \<open>Text\<close>

text \<open>C37: an address decodes to what it was made from on its own network, and is refused on the others.\<close>

theorem addresses_round_trip:
  "decode_address (params_for cr n') (encode_address (params_for cr n) ver addr) = (if n' = n then Some (ver, addr) else None)"
  using decode_encode_address address_networks_disjoint by auto

section \<open>Arithmetic of the consensus rules\<close>

text \<open>C38: whatever the timestamps and targets of the window are, the bits the retargeting rule asks of the next block
  stand for a positive target within the limit of the network.\<close>

theorem retarget_in_range:
  assumes "0 < u256_val (pow_limit p)" "\<not> no_retarget p" "3 \<le> tp"
  shows "\<exists>t. from_compact (next_bits tp prv p) = (t, False, False) \<and> 0 < u256_val t \<and> u256_val t \<le> u256_val (pow_limit p)"
  using next_bits_valid [OF assms] by metis

theorem retarget_in_range_witness:
  "\<exists>t. from_compact (next_bits 3 (\<lambda>i. \<lparr>hi_time = 0, hi_bits = 0x1e0fffff\<rparr>) (build_switch Test)) = (t, False, False) \<and> 0 < u256_val t"
proof -
  have "\<not> u256_is_zero (pow2_minus_1 240)" by code_simp
  then have "0 < u256_val (pow_limit (build_switch Test))" "\<not> no_retarget (build_switch Test)" by simp_all
  from retarget_in_range [OF this, of 3] show ?thesis by blast
qed

text \<open>C39: the quote of a swap is the constant-product formula with the fee, computed without overflow, and a swap
  at that quote never lowers the product of the reserves. The input asked for a wanted output is the least one that buys
  it, except where the exact answer needs all 64 bits, when the wrapped candidate makes the function give up. The shares
  of a new pool are the integer square root of the product of its reserves.\<close>

theorem swap_quotes_exact:
  assumes "0 < rin"
  shows "unat (amm_quote i rin rout) = quote_nat (unat i) (unat rin) (unat rout)
    \<and> unat rin * unat rout \<le> (unat rin + unat i) * (unat rout - unat (amm_quote i rin rout))
    \<and> (0 < out \<and> out < rout \<and> unat rin * unat out * 10000 div (unat (rout - out) * 9970) < 2 ^ 64 - 1 \<longrightarrow>
        amm_quote (amm_quote_in out rin rout) rin rout \<ge> out \<and> (\<forall>x. amm_quote x rin rout \<ge> out \<longrightarrow> amm_quote_in out rin rout \<le> x))
    \<and> unat (amm_initial_shares q t) * unat (amm_initial_shares q t) \<le> unat q * unat t
    \<and> unat q * unat t < Suc (unat (amm_initial_shares q t)) * Suc (unat (amm_initial_shares q t))"
  using amm_quote_product [OF assms, of rout i] amm_quote_in_least [OF _ _ assms, of out rout] amm_initial_shares_root [of q t]
  by (simp add: amm_quote_val)

theorem swap_quotes_exact_witness: "amm_quote (amm_quote_in 40 1000 500) 1000 500 \<ge> 40"
  using swap_quotes_exact [of 1000 0 500 40] by (simp add: word_less_nat_alt)

text \<open>C40: whatever lookups filled the emission cache before, a lookup returns the emission curve
  (modulo the word size) and leaves a cache that is right again.\<close>

theorem issued_through_correct:
  assumes "em_inv em"
  shows "unat (fst (issued_through height em)) = issued_nat (unat height) mod 2 ^ 64
    \<and> em_inv (snd (issued_through height em))"
  using issued_through_ok [OF assms, of height] by (cases "issued_through height em") simp

theorem issued_through_correct_witness:
  "unat (fst (issued_through 3 emission_init)) = issued_nat 3 mod 2 ^ 64"
  using issued_through_correct [of emission_init 3] by (simp add: em_inv_def)

end
